(* ===== verification/Prelude.thy ===== *)
theory Prelude
  imports Main
begin

text \<open>
  What the components share: the names of the machine types and limits, the faults that stop
  an operation, ordered maps with counts (the \<open>std::map\<close> from positions to counts), the sum
  of an indicator over the cells of a table, and the loops \<open>for (i = 0; i < n; ++i)\<close> written
  as \<^term>\<open>fold\<close> over \<^term>\<open>[0..<n]\<close>.
\<close>

section \<open>Machine types and limits\<close>

text \<open>
  \<open>llama_pos\<close>, \<open>llama_token\<close> and \<open>llama_seq_id\<close> are 32-bit signed integers
  (\<open>include/llama.h\<close>). Overflow of a signed integer is undefined behaviour in C++, so they are
  \<^typ>\<open>int\<close> here and the bounds a result needs are hypotheses. Cell indices and sizes are
  \<open>uint32_t\<close> and stay far below \<open>2^32\<close>; they are \<^typ>\<open>nat\<close>.
\<close>

type_synonym llama_pos = int
type_synonym llama_token = int
type_synonym llama_seq_id = int

definition LLAMA_MAX_SEQ :: nat where
  "LLAMA_MAX_SEQ = 256"

definition INT32_MAX :: int where
  "INT32_MAX = 2147483647"

definition LLAMA_TOKEN_NULL :: llama_token where
  "LLAMA_TOKEN_NULL = -1"

text \<open>
  The ways an operation stops: \<open>GGML_ASSERT\<close> and \<open>GGML_ABORT\<close> end the process,
  \<open>throw std::runtime_error\<close> unwinds to the caller, resizing a vector beyond its maximum throws
  \<open>std::length_error\<close>, a malformed argument of a conversion throws \<open>std::invalid_argument\<close>, a
  missing key or a number that does not fit throws \<open>std::out_of_range\<close>, and a
  write outside of a vector is undefined behaviour. A plain \<open>assert\<close> is compiled out of a release
  build: it is a precondition of the operation, never a branch.
\<close>

datatype fault =
    Ggml_assert string
  | Ggml_abort string
  | Runtime_error string
  | Length_error string
  | Invalid_argument string
  | Out_of_range string
  | Out_of_bounds string

type_synonym 'a res = "fault + 'a"

text \<open>Running on after a fault-free step.\<close>

definition bind_res :: "'a res \<Rightarrow> ('a \<Rightarrow> 'b res) \<Rightarrow> 'b res" where
  "bind_res x f = (case x of Inl e \<Rightarrow> Inl e | Inr v \<Rightarrow> f v)"

lemma bind_res_simps [simp]:
  "bind_res (Inl e) f = Inl e" "bind_res (Inr v) f = f v"
  by (simp_all add: bind_res_def)

lemma bind_res_Inr_iff: "bind_res x f = Inr w \<longleftrightarrow> (\<exists>v. x = Inr v \<and> f v = Inr w)"
  by (cases x) auto

text \<open>
  An operation that may also run for ever is an option: \<^term>\<open>None\<close> is no result. \<open>bind_ro\<close> runs
  on after a step that returned without a fault, and \<open>fold_ro\<close> does so for every element of a list.
  Both may be used around the recursive calls of a \<^theory_text>\<open>partial_function\<close>.
\<close>

definition bind_ro :: "'a res option \<Rightarrow> ('a \<Rightarrow> 'b res option) \<Rightarrow> 'b res option" where
  "bind_ro x f = Option.bind x (\<lambda>r. case r of Inl e \<Rightarrow> Some (Inl e) | Inr v \<Rightarrow> f v)"

lemma bind_ro_simps [simp]:
  "bind_ro None f = None" "bind_ro (Some (Inl e)) f = Some (Inl e)" "bind_ro (Some (Inr v)) f = f v"
  by (simp_all add: bind_ro_def)

lemma bind_ro_Inr_iff: "bind_ro x f = Some (Inr w) \<longleftrightarrow> (\<exists>v. x = Some (Inr v) \<and> f v = Some (Inr w))"
  by (cases x) (auto simp: bind_ro_def split: sum.split)

lemma bind_ro_assoc: "bind_ro (bind_ro x f) g = bind_ro x (\<lambda>v. bind_ro (f v) g)"
  by (cases x) (auto simp: bind_ro_def split: sum.split)

text \<open>Evaluation does not look into what runs later.\<close>

lemma bind_ro_weak: "x = x' \<Longrightarrow> bind_ro x f = bind_ro x' f"
  by simp

lemma bind_ro_mono [partial_function_mono]:
  assumes "mono_option B" "\<And>y. mono_option (\<lambda>f. C y f)"
  shows "mono_option (\<lambda>f. bind_ro (B f) (\<lambda>y. C y f))"
  unfolding bind_ro_def
proof (rule bind_mono [OF assms(1)])
  show "mono_option (\<lambda>f. case r of Inl e \<Rightarrow> Some (Inl e) | Inr v \<Rightarrow> C v f)" for r
    by (cases r) (simp_all add: assms(2) option.const_mono)
qed

primrec fold_ro :: "('a \<Rightarrow> 's \<Rightarrow> 's res option) \<Rightarrow> 'a list \<Rightarrow> 's \<Rightarrow> 's res option" where
  "fold_ro f [] s = Some (Inr s)"
| "fold_ro f (x # xs) s = bind_ro (f x s) (fold_ro f xs)"

lemma fold_ro_mono [partial_function_mono]:
  assumes "\<And>x s. mono_option (\<lambda>f. g f x s)"
  shows "mono_option (\<lambda>f. fold_ro (g f) xs s)"
proof (induction xs arbitrary: s)
  case (Cons x xs)
  show ?case by (simp, intro bind_ro_mono assms Cons.IH)
qed (simp add: option.const_mono)

lemma fold_ro_weak: "xs = xs' \<Longrightarrow> s = s' \<Longrightarrow> fold_ro f xs s = fold_ro f xs' s'"
  by simp

named_theorems omap_simps \<open>what the operations of an ordered map do to its counts\<close>

section \<open>Ordered maps with counts\<close>

text \<open>
  A \<open>std::map<K, int>\<close> is its list of entries in key order. \<open>om_inc p m\<close> is
  \<open>m[p]++\<close>; \<open>om_dec p m\<close> finds the entry of \<open>p\<close>, decrements it and erases it
  when it reaches 0 (on a missing key the C++ dereferences \<open>end()\<close>; the model leaves the map
  alone and every caller is shown to own the entry).
\<close>

fun om_inc :: "'k::linorder \<Rightarrow> ('k \<times> int) list \<Rightarrow> ('k \<times> int) list" where
  "om_inc p [] = [(p, 1)]"
| "om_inc p ((q, k) # m) =
     (if p < q then (p, 1) # (q, k) # m
      else if p = q then (q, k + 1) # m
      else (q, k) # om_inc p m)"

fun om_dec :: "'k::linorder \<Rightarrow> ('k \<times> int) list \<Rightarrow> ('k \<times> int) list" where
  "om_dec p [] = []"
| "om_dec p ((q, k) # m) =
     (if p = q then (if k - 1 = 0 then m else (q, k - 1) # m)
      else (q, k) # om_dec p m)"

definition om_cnt :: "('k \<times> int) list \<Rightarrow> 'k \<Rightarrow> int" where
  "om_cnt m p = (case map_of m p of None \<Rightarrow> 0 | Some k \<Rightarrow> k)"

definition om_ok :: "('k::linorder \<times> int) list \<Rightarrow> bool" where
  "om_ok m \<longleftrightarrow> sorted_wrt (<) (map fst m) \<and> (\<forall>x \<in> set m. 0 < snd x)"

lemma om_ok_Nil [simp]: "om_ok []"
  by (simp add: om_ok_def)

lemma om_ok_Cons [simp]:
  "om_ok ((q, k) # m) \<longleftrightarrow> 0 < k \<and> (\<forall>x \<in> set m. q < fst x) \<and> om_ok m"
  by (auto simp: om_ok_def)

lemma om_cnt_Nil [simp]: "om_cnt [] p = 0"
  by (simp add: om_cnt_def)

lemma om_cnt_Cons [simp]: "om_cnt ((q, k) # m) p = (if p = q then k else om_cnt m p)"
  by (auto simp: om_cnt_def)

lemma om_cnt_absent: "p \<notin> fst ` set m \<Longrightarrow> om_cnt m p = 0"
  by (induction m) auto

lemma om_cnt_below:
  fixes m :: "('k::linorder \<times> int) list"
  shows "\<forall>x \<in> set m. q < fst x \<Longrightarrow> p \<le> q \<Longrightarrow> om_cnt m p = 0"
  by (rule om_cnt_absent) fastforce

lemma om_cnt_pos_iff: "om_ok m \<Longrightarrow> 0 < om_cnt m p \<longleftrightarrow> p \<in> fst ` set m"
proof (induction m)
  case (Cons x m)
  then show ?case by (cases x) (auto split: if_splits)
qed simp

lemma om_cnt_nonneg: "om_ok m \<Longrightarrow> 0 \<le> om_cnt m p"
  by (induction m) auto

lemma om_inc_keys: "fst ` set (om_inc p m) = insert p (fst ` set m)"
  by (induction p m rule: om_inc.induct) auto

lemma om_ok_inc: "om_ok m \<Longrightarrow> om_ok (om_inc p m)"
proof (induction p m rule: om_inc.induct)
  case (2 p q k m)
  have "\<forall>x \<in> set (om_inc p m). fst x \<in> insert p (fst ` set m)"
    using om_inc_keys [of p m] by blast
  with 2 show ?case by fastforce
qed simp

lemma om_dec_keys: "set (om_dec p m) \<subseteq> set m \<union> {x. fst x = p}"
  by (induction p m rule: om_dec.induct) auto

lemma om_dec_keys_fst: "fst ` set (om_dec p m) \<subseteq> fst ` set m"
  by (induction p m rule: om_dec.induct) auto

lemma om_ok_dec: "om_ok m \<Longrightarrow> om_ok (om_dec p m)"
proof (induction p m rule: om_dec.induct)
  case (2 p q k m)
  have "\<forall>x \<in> set (om_dec p m). q < fst x"
    using om_dec_keys_fst [of p m] 2 by fastforce
  with 2 show ?case by auto
qed simp

lemma om_cnt_inc [omap_simps]: "om_ok m \<Longrightarrow> om_cnt (om_inc p m) q = om_cnt m q + of_bool (p = q)"
proof (induction p m rule: om_inc.induct)
  case (2 p r k m)
  then show ?case
    using om_cnt_below [of m r p] by auto
qed simp

lemma om_cnt_dec [omap_simps]:
  "om_ok m \<Longrightarrow> 0 < om_cnt m p \<Longrightarrow> om_cnt (om_dec p m) q = om_cnt m q - of_bool (p = q)"
proof (induction p m rule: om_dec.induct)
  case (2 p r k m)
  then show ?case
    using om_cnt_below [of m r p] by auto
qed simp

text \<open>Two maps in order with the same counts are the same list of entries.\<close>

lemma om_ext:
  "om_ok m \<Longrightarrow> om_ok m' \<Longrightarrow> (\<And>p. om_cnt m p = om_cnt m' p) \<Longrightarrow> m = m'"
proof (induction m arbitrary: m')
  case Nil
  show ?case
  proof (cases m')
    case (Cons x xs)
    with Nil show ?thesis
      by (cases x) (metis Nil(3) om_cnt_Nil om_cnt_Cons om_ok_Cons order_less_irrefl)
  qed simp
next
  case (Cons x m)
  obtain q k where x: "x = (q, k)" by (cases x)
  have ok: "0 < k" "\<forall>y \<in> set m. q < fst y" "om_ok m"
    using Cons.prems(1) x by auto
  have q0: "0 < om_cnt m' q"
    using Cons.prems(3) [of q] ok x by simp
  then obtain q' k' n where m': "m' = (q', k') # n"
    by (cases m') auto
  have ok': "0 < k'" "\<forall>y \<in> set n. q' < fst y" "om_ok n"
    using Cons.prems(2) m' by auto
  have "0 < om_cnt (x # m) q'"
    using Cons.prems(3) [of q'] ok' m' by simp
  then have "q \<le> q'"
    using om_cnt_below [OF ok(2), of q'] x by (cases "q' \<le> q") (auto split: if_splits)
  moreover have "q' \<le> q"
    using om_cnt_below [OF ok'(2), of q] q0 m' by (cases "q \<le> q'") (auto split: if_splits)
  ultimately have qq: "q = q'" by simp
  then have kk: "k = k'"
    using Cons.prems(3) [of q] x m' by simp
  have "om_cnt m p = om_cnt n p" for p
  proof (cases "p = q")
    case True
    then show ?thesis
      using om_cnt_below [OF ok(2)] om_cnt_below [OF ok'(2)] qq by simp
  next
    case False
    then show ?thesis
      using Cons.prems(3) [of p] x m' qq by simp
  qed
  then have "m = n"
    using Cons.IH ok ok' by blast
  with x m' qq kk show ?case by simp
qed

text \<open>\<open>begin()\<close> is the least key and \<open>rbegin()\<close> the greatest.\<close>

lemma om_hd_Min: "om_ok m \<Longrightarrow> m \<noteq> [] \<Longrightarrow> fst (hd m) = Min (fst ` set m)"
  by (cases m) (force intro!: Min_eqI [symmetric] simp: om_ok_def less_imp_le)+

lemma om_last_Max: "om_ok m \<Longrightarrow> m \<noteq> [] \<Longrightarrow> fst (last m) = Max (fst ` set m)"
  by (cases m rule: rev_cases)
     (force intro!: Max_eqI [symmetric] simp: om_ok_def sorted_wrt_append less_imp_le)+

section \<open>Counting over a table\<close>

text \<open>How many indices below \<open>n\<close> satisfy \<open>P\<close>, as an integer.\<close>

definition cnt_below :: "nat \<Rightarrow> (nat \<Rightarrow> bool) \<Rightarrow> int" where
  "cnt_below n P = (\<Sum>i<n. of_bool (P i))"

lemma cnt_below_change:
  assumes "j < n" and "\<And>i. i < n \<Longrightarrow> i \<noteq> j \<Longrightarrow> P i = Q i"
  shows "cnt_below n P = cnt_below n Q + of_bool (P j) - of_bool (Q j)"
proof -
  have "cnt_below n P = of_bool (P j) + (\<Sum>i \<in> {..<n} - {j}. of_bool (P i))"
    unfolding cnt_below_def using assms(1) by (subst sum.remove [of _ j]) simp_all
  also have "(\<Sum>i \<in> {..<n} - {j}. of_bool (P i)) = (\<Sum>i \<in> {..<n} - {j}. (of_bool (Q i) :: int))"
    using assms(2) by (intro sum.cong) auto
  also have "of_bool (P j) + \<dots> = cnt_below n Q + of_bool (P j) - of_bool (Q j)"
    unfolding cnt_below_def using assms(1) by (subst (2) sum.remove [of _ j]) simp_all
  finally show ?thesis .
qed

lemma cnt_below_cong: "(\<And>i. i < n \<Longrightarrow> P i = Q i) \<Longrightarrow> cnt_below n P = cnt_below n Q"
  by (simp add: cnt_below_def)

lemma cnt_below_False [simp]: "cnt_below n (\<lambda>_. False) = 0"
  by (simp add: cnt_below_def)

lemma cnt_below_nonneg: "0 \<le> cnt_below n P"
  by (simp add: cnt_below_def sum_nonneg)

lemma cnt_below_pos_iff: "0 < cnt_below n P \<longleftrightarrow> (\<exists>i<n. P i)"
proof
  assume pos: "0 < cnt_below n P"
  show "\<exists>i<n. P i"
  proof (rule ccontr)
    assume "\<not> (\<exists>i<n. P i)"
    then have "cnt_below n P = cnt_below n (\<lambda>_. False)"
      by (intro cnt_below_cong) blast
    with pos show False by simp
  qed
next
  assume "\<exists>i<n. P i"
  then obtain j where "j < n" "P j" by blast
  then have "(of_bool (P j) :: int) \<le> cnt_below n P"
    unfolding cnt_below_def by (intro member_le_sum) auto
  with \<open>P j\<close> show "0 < cnt_below n P" by simp
qed

section \<open>Loops over an index range\<close>

text \<open>An invariant that every pass keeps holds after the loop.\<close>

lemma fold_upt_inv:
  assumes "I m s" and "m \<le> n"
    and "\<And>i s. m \<le> i \<Longrightarrow> i < n \<Longrightarrow> I i s \<Longrightarrow> I (Suc i) (f i s)"
  shows "I n (fold f [m..<n] s)"
  using assms
proof (induction n)
  case (Suc n)
  show ?case
  proof (cases "m = Suc n")
    case False
    then have "m \<le> n" using Suc.prems(2) by simp
    then have "I n (fold f [m..<n] s)"
      using Suc.IH Suc.prems(1,3) by simp
    with \<open>m \<le> n\<close> show ?thesis
      using Suc.prems(3) [of n] by simp
  qed (use Suc.prems in simp)
qed simp

lemma fold_id: "(\<And>x s. x \<in> set xs \<Longrightarrow> f x s = s) \<Longrightarrow> fold f xs s = s"
  by (induction xs) auto

text \<open>A vector resized to \<open>n\<close> elements; new elements are the default.\<close>

definition vec_resize :: "nat \<Rightarrow> 'a \<Rightarrow> 'a list \<Rightarrow> 'a list" where
  "vec_resize n d xs = take n xs @ replicate (n - length xs) d"

lemma length_vec_resize [simp]: "length (vec_resize n d xs) = n"
  by (simp add: vec_resize_def)

text \<open>Writing the first \<open>n\<close> elements of a vector one by one.\<close>

lemma list_update_prefix:
  "n < length xs \<Longrightarrow>
   (map f [0..<n] @ drop n xs)[n := f n] = map f [0..<Suc n] @ drop (Suc n) xs"
  by (simp add: list_update_append Cons_nth_drop_Suc [symmetric])

lemma map_nth_idxs: "map (\<lambda>j. f (xs ! j)) [0..<length xs] = map f xs"
  by (intro nth_equalityI) auto

lemma take_drop_map:
  assumes "k + n \<le> length xs"
  shows "take n (drop k xs) = map (\<lambda>r. xs ! (k + r)) [0..<n]"
proof -
  have "min (length xs - k) n = n" using assms by simp
  then show ?thesis by (intro nth_equalityI) simp_all
qed

lemma find_app:
  "find P (xs @ ys) = (case find P xs of None \<Rightarrow> find P ys | Some x \<Rightarrow> Some x)"
  by (induction xs) auto

end
