(* ===== verification/KvCells.thy ===== *)
theory KvCells
  imports Prelude
begin

text \<open>
  The metadata of the KV cells (\<open>src/llama-kv-cells.h\<close>): for every cell its position,
  its 2D position, the shift accumulated since the last \<open>reset_shift\<close> and the set of
  sequences that own it; beside them the set of used cells and, per sequence, the ordered map
  from positions to how many cells of the sequence hold them. The well-formedness predicate
  \<open>cells_wf\<close> says that the two derived structures agree with the table; every operation keeps
  it. The locale \<open>cellwise\<close> states what a loop over the cells does when each pass
  touches its own cell only.
\<close>

section \<open>Data\<close>

record llama_kv_cell_ext =
  ext_x :: llama_pos
  ext_y :: llama_pos

definition is_2d_gt :: "llama_kv_cell_ext \<Rightarrow> llama_pos \<Rightarrow> llama_pos \<Rightarrow> bool" where
  "is_2d_gt e ox oy \<longleftrightarrow> ext_y e > oy \<or> (ext_y e = oy \<and> ext_x e > ox)"

definition ext_reset :: llama_kv_cell_ext where
  "ext_reset = \<lparr>ext_x = 0, ext_y = 0\<rparr>"

text \<open>
  \<open>std::set\<open><\<close>uint32_t\<open>>\<close> used\<close> is a set of indices, a \<open>std::bitset\<close> the set of its bits,
  the array \<open>seq_pos[LLAMA_MAX_SEQ]\<close> of ordered maps a function from sequence ids.
\<close>

record llama_kv_cells =
  kc_has_shift :: bool
  kc_used :: "nat set"
  kc_pos :: "llama_pos list"
  kc_ext :: "llama_kv_cell_ext list"
  kc_shift :: "llama_pos list"
  kc_seq :: "nat set list"
  kc_seq_pos :: "nat \<Rightarrow> (llama_pos \<times> int) list"

section \<open>Operations\<close>

subsection \<open>The map from positions to counts\<close>

definition seq_pos_dec :: "nat \<Rightarrow> llama_pos \<Rightarrow> llama_kv_cells \<Rightarrow> llama_kv_cells" where
  "seq_pos_dec s p c = c\<lparr>kc_seq_pos := (kc_seq_pos c)(s := om_dec p (kc_seq_pos c s))\<rparr>"

definition seq_pos_inc :: "nat \<Rightarrow> llama_pos \<Rightarrow> llama_kv_cells \<Rightarrow> llama_kv_cells" where
  "seq_pos_inc s p c = c\<lparr>kc_seq_pos := (kc_seq_pos c)(s := om_inc p (kc_seq_pos c s))\<rparr>"

definition seq_pos_rm :: "nat \<Rightarrow> llama_kv_cells \<Rightarrow> llama_kv_cells" where
  "seq_pos_rm i c =
     fold (\<lambda>s c. if s \<in> kc_seq c ! i then seq_pos_dec s (kc_pos c ! i) c else c)
       [0..<LLAMA_MAX_SEQ] c"

definition seq_pos_add :: "nat \<Rightarrow> llama_kv_cells \<Rightarrow> llama_kv_cells" where
  "seq_pos_add i c =
     fold (\<lambda>s c. if s \<in> kc_seq c ! i then seq_pos_inc s (kc_pos c ! i) c else c)
       [0..<LLAMA_MAX_SEQ] c"

subsection \<open>Whole-table operations\<close>

definition cells_size :: "llama_kv_cells \<Rightarrow> nat" where
  "cells_size c = length (kc_pos c)"

definition cells_reset :: "llama_kv_cells \<Rightarrow> llama_kv_cells" where
  "cells_reset c = (let n = length (kc_pos c) in
     c\<lparr>kc_pos := replicate n (-1), kc_ext := replicate n ext_reset,
       kc_shift := replicate n 0, kc_seq := replicate n {},
       kc_has_shift := False, kc_used := {}, kc_seq_pos := (\<lambda>s. [])\<rparr>)"

definition cells_reset_shift :: "llama_kv_cells \<Rightarrow> llama_kv_cells" where
  "cells_reset_shift c =
     c\<lparr>kc_has_shift := False, kc_shift := replicate (length (kc_shift c)) 0\<rparr>"

definition cells_resize :: "nat \<Rightarrow> llama_kv_cells \<Rightarrow> llama_kv_cells" where
  "cells_resize n c = cells_reset
     (c\<lparr>kc_pos := vec_resize n 0 (kc_pos c), kc_ext := vec_resize n ext_reset (kc_ext c),
        kc_shift := vec_resize n 0 (kc_shift c), kc_seq := vec_resize n {} (kc_seq c)\<rparr>)"

text \<open>A default-constructed object: empty vectors, empty maps.\<close>

definition cells_new :: llama_kv_cells where
  "cells_new = \<lparr>kc_has_shift = False, kc_used = {}, kc_pos = [], kc_ext = [], kc_shift = [],
     kc_seq = [], kc_seq_pos = (\<lambda>s. [])\<rparr>"

definition cells_is_empty :: "llama_kv_cells \<Rightarrow> nat \<Rightarrow> bool" where
  "cells_is_empty c i \<longleftrightarrow> kc_pos c ! i = -1"

definition cells_get_used :: "llama_kv_cells \<Rightarrow> nat" where
  "cells_get_used c = card (kc_used c)"

definition cells_used_min :: "llama_kv_cells \<Rightarrow> nat" where
  "cells_used_min c = (if kc_used c = {} then 0 else Min (kc_used c))"

definition cells_used_max_p1 :: "llama_kv_cells \<Rightarrow> nat" where
  "cells_used_max_p1 c = (if kc_used c = {} then 0 else Max (kc_used c) + 1)"

definition cells_get_has_shift :: "llama_kv_cells \<Rightarrow> bool" where
  "cells_get_has_shift c = kc_has_shift c"

subsection \<open>Saving and restoring cells\<close>

definition cells_cp_range :: "nat \<Rightarrow> nat \<Rightarrow> llama_kv_cells \<Rightarrow> llama_kv_cells" where
  "cells_cp_range i n c =
     fold (\<lambda>j r. r\<lparr>kc_pos := (kc_pos r)[j := kc_pos c ! (i + j)],
                   kc_ext := (kc_ext r)[j := kc_ext c ! (i + j)],
                   kc_seq := (kc_seq r)[j := kc_seq c ! (i + j)]\<rparr>)
       [0..<n] (cells_resize n cells_new)"

definition cells_cp :: "nat list \<Rightarrow> llama_kv_cells \<Rightarrow> llama_kv_cells" where
  "cells_cp idxs c =
     fold (\<lambda>j r. r\<lparr>kc_pos := (kc_pos r)[j := kc_pos c ! (idxs ! j)],
                   kc_ext := (kc_ext r)[j := kc_ext c ! (idxs ! j)],
                   kc_seq := (kc_seq r)[j := kc_seq c ! (idxs ! j)]\<rparr>)
       [0..<length idxs] (cells_resize (length idxs) cells_new)"

text \<open>The body both overloads of \<open>set\<close> share: cell \<open>idx\<close> takes the state of cell \<open>j\<close> of \<open>other\<close>.\<close>

definition cells_set1 :: "nat \<Rightarrow> llama_kv_cells \<Rightarrow> nat \<Rightarrow> llama_kv_cells \<Rightarrow> llama_kv_cells" where
  "cells_set1 idx oth j c =
    (let c1 = (if kc_pos c ! idx = -1 \<and> kc_pos oth ! j \<noteq> -1
               then c\<lparr>kc_used := insert idx (kc_used c)\<rparr> else c);
         c2 = (if kc_pos c1 ! idx \<noteq> -1 \<and> kc_pos oth ! j = -1
               then c1\<lparr>kc_used := kc_used c1 - {idx}\<rparr> else c1);
         c3 = (if kc_pos c2 ! idx \<noteq> -1 then seq_pos_rm idx c2 else c2);
         c4 = c3\<lparr>kc_pos := (kc_pos c3)[idx := kc_pos oth ! j],
                 kc_ext := (kc_ext c3)[idx := kc_ext oth ! j],
                 kc_seq := (kc_seq c3)[idx := kc_seq oth ! j]\<rparr>
     in if kc_pos c4 ! idx \<noteq> -1 then seq_pos_add idx c4 else c4)"

definition cells_set_range :: "nat \<Rightarrow> llama_kv_cells \<Rightarrow> llama_kv_cells \<Rightarrow> llama_kv_cells" where
  "cells_set_range i oth c =
     fold (\<lambda>j c. cells_set1 (i + j) oth j c) [0..<length (kc_pos oth)] c"

definition cells_set :: "nat list \<Rightarrow> llama_kv_cells \<Rightarrow> llama_kv_cells \<Rightarrow> llama_kv_cells" where
  "cells_set idxs oth c =
     fold (\<lambda>j c. cells_set1 (idxs ! j) oth j c) [0..<length (kc_pos oth)] c"

subsection \<open>One cell\<close>

definition cells_rm :: "nat \<Rightarrow> llama_kv_cells \<Rightarrow> llama_kv_cells" where
  "cells_rm i c =
    (let c1 = seq_pos_rm i c
     in c1\<lparr>kc_seq := (kc_seq c1)[i := {}], kc_pos := (kc_pos c1)[i := -1],
           kc_ext := (kc_ext c1)[i := ext_reset], kc_shift := (kc_shift c1)[i := 0],
           kc_used := kc_used c1 - {i}\<rparr>)"

definition cells_seq_rm :: "nat \<Rightarrow> nat \<Rightarrow> llama_kv_cells \<Rightarrow> llama_kv_cells \<times> bool" where
  "cells_seq_rm i s c =
    (let c1 = c\<lparr>kc_seq := (kc_seq c)[i := kc_seq c ! i - {s}]\<rparr>;
         c2 = seq_pos_dec s (kc_pos c1 ! i) c1
     in if kc_seq c2 ! i = {}
        then (c2\<lparr>kc_pos := (kc_pos c2)[i := -1], kc_ext := (kc_ext c2)[i := ext_reset],
                 kc_shift := (kc_shift c2)[i := 0], kc_used := kc_used c2 - {i}\<rparr>, True)
        else (c2, False))"

definition cells_seq_keep :: "nat \<Rightarrow> nat \<Rightarrow> llama_kv_cells \<Rightarrow> llama_kv_cells \<times> bool" where
  "cells_seq_keep i s c =
    (if s \<in> kc_seq c ! i then
       (let c1 = seq_pos_rm i c;
            c2 = c1\<lparr>kc_seq := (kc_seq c1)[i := {}]\<rparr>;
            c3 = c2\<lparr>kc_seq := (kc_seq c2)[i := insert s (kc_seq c2 ! i)]\<rparr>
        in (seq_pos_inc s (kc_pos c3 ! i) c3, False))
     else if kc_seq c ! i \<noteq> {} then
       (let c1 = seq_pos_rm i c;
            c2 = c1\<lparr>kc_seq := (kc_seq c1)[i := {}]\<rparr>
        in (c2\<lparr>kc_pos := (kc_pos c2)[i := -1], kc_ext := (kc_ext c2)[i := ext_reset],
               kc_shift := (kc_shift c2)[i := 0], kc_used := kc_used c2 - {i}\<rparr>, True))
     else (c, False))"

definition cells_seq_count :: "llama_kv_cells \<Rightarrow> nat \<Rightarrow> nat" where
  "cells_seq_count c i = card (kc_seq c ! i)"

definition cells_seq_has :: "llama_kv_cells \<Rightarrow> nat \<Rightarrow> nat \<Rightarrow> bool" where
  "cells_seq_has c i s \<longleftrightarrow> s \<in> kc_seq c ! i"

definition cells_seq_add :: "nat \<Rightarrow> nat \<Rightarrow> llama_kv_cells \<Rightarrow> llama_kv_cells" where
  "cells_seq_add i s c =
    (let c1 = c\<lparr>kc_seq := (kc_seq c)[i := insert s (kc_seq c ! i)]\<rparr>
     in seq_pos_inc s (kc_pos c1 ! i) c1)"

definition cells_seq_get :: "llama_kv_cells \<Rightarrow> nat \<Rightarrow> llama_seq_id" where
  "cells_seq_get c i =
     (case find (\<lambda>s. s \<in> kc_seq c ! i) [0..<LLAMA_MAX_SEQ] of Some s \<Rightarrow> int s | None \<Rightarrow> -1)"

definition cells_seq_pos_min :: "llama_kv_cells \<Rightarrow> nat \<Rightarrow> llama_pos" where
  "cells_seq_pos_min c s = (if kc_seq_pos c s = [] then -1 else fst (hd (kc_seq_pos c s)))"

definition cells_seq_pos_max :: "llama_kv_cells \<Rightarrow> nat \<Rightarrow> llama_pos" where
  "cells_seq_pos_max c s = (if kc_seq_pos c s = [] then -1 else fst (last (kc_seq_pos c s)))"

definition cells_pos_get :: "llama_kv_cells \<Rightarrow> nat \<Rightarrow> llama_pos" where
  "cells_pos_get c i = kc_pos c ! i"

definition cells_ext_get :: "llama_kv_cells \<Rightarrow> nat \<Rightarrow> llama_kv_cell_ext" where
  "cells_ext_get c i = kc_ext c ! i"

definition cells_get_shift :: "llama_kv_cells \<Rightarrow> nat \<Rightarrow> llama_pos" where
  "cells_get_shift c i = kc_shift c ! i"

definition cells_pos_in :: "llama_kv_cells \<Rightarrow> nat \<Rightarrow> llama_pos \<Rightarrow> llama_pos \<Rightarrow> bool" where
  "cells_pos_in c i p0 p1 \<longleftrightarrow> kc_pos c ! i \<ge> p0 \<and> kc_pos c ! i < p1"

definition cells_pos_set :: "nat \<Rightarrow> llama_pos \<Rightarrow> llama_kv_cells \<Rightarrow> llama_kv_cells" where
  "cells_pos_set i p c = c\<lparr>kc_pos := (kc_pos c)[i := p], kc_used := insert i (kc_used c)\<rparr>"

definition cells_ext_set :: "nat \<Rightarrow> llama_kv_cell_ext \<Rightarrow> llama_kv_cells \<Rightarrow> llama_kv_cells" where
  "cells_ext_set i e c = c\<lparr>kc_ext := (kc_ext c)[i := e]\<rparr>"

definition cells_pos_add :: "nat \<Rightarrow> llama_pos \<Rightarrow> llama_kv_cells \<Rightarrow> llama_kv_cells \<times> bool" where
  "cells_pos_add i d c =
    (let c1 = seq_pos_rm i c;
         c2 = c1\<lparr>kc_pos := (kc_pos c1)[i := kc_pos c1 ! i + d],
                 kc_shift := (kc_shift c1)[i := kc_shift c1 ! i + d], kc_has_shift := True\<rparr>
     in if kc_pos c2 ! i < 0
        then (c2\<lparr>kc_seq := (kc_seq c2)[i := {}], kc_pos := (kc_pos c2)[i := -1],
                 kc_shift := (kc_shift c2)[i := 0], kc_used := kc_used c2 - {i}\<rparr>, True)
        else (seq_pos_add i c2, False))"

text \<open>C++ integer division truncates towards zero; the divisor is not 0 (that is undefined).\<close>

definition c_div :: "int \<Rightarrow> int \<Rightarrow> int" where
  "c_div a b = sgn a * sgn b * (\<bar>a\<bar> div \<bar>b\<bar>)"

definition cells_pos_div :: "nat \<Rightarrow> int \<Rightarrow> llama_kv_cells \<Rightarrow> llama_kv_cells" where
  "cells_pos_div i d c =
    (let p_old = kc_pos c ! i;
         c1 = seq_pos_rm i c;
         c2 = c1\<lparr>kc_pos := (kc_pos c1)[i := c_div (kc_pos c1 ! i) d]\<rparr>;
         c3 = c2\<lparr>kc_shift := (kc_shift c2)[i := kc_shift c2 ! i + (p_old - kc_pos c2 ! i)]\<rparr>;
         c4 = seq_pos_add i c3
     in c4\<lparr>kc_has_shift := True\<rparr>)"

section \<open>Well-formedness\<close>

text \<open>The state of one cell: position, 2D position, pending shift, owners.\<close>

type_synonym kv_cell = "llama_pos \<times> llama_kv_cell_ext \<times> llama_pos \<times> nat set"

definition cell :: "llama_kv_cells \<Rightarrow> nat \<Rightarrow> kv_cell" where
  "cell c i = (kc_pos c ! i, kc_ext c ! i, kc_shift c ! i, kc_seq c ! i)"

text \<open>An empty cell (position -1) has no owner and no pending shift.\<close>

fun cell_wf :: "kv_cell \<Rightarrow> bool" where
  "cell_wf (p, e, sh, S) \<longleftrightarrow> -1 \<le> p \<and> (p = -1 \<longrightarrow> S = {} \<and> sh = 0) \<and> S \<subseteq> {..<LLAMA_MAX_SEQ}"

definition cells_wf :: "llama_kv_cells \<Rightarrow> bool" where
  "cells_wf c \<longleftrightarrow>
     length (kc_ext c) = cells_size c \<and> length (kc_shift c) = cells_size c \<and>
     length (kc_seq c) = cells_size c \<and>
     kc_used c = {i. i < cells_size c \<and> kc_pos c ! i \<noteq> -1} \<and>
     (\<forall>i < cells_size c. cell_wf (cell c i)) \<and>
     (\<forall>s. om_ok (kc_seq_pos c s)) \<and>
     (\<forall>s p. om_cnt (kc_seq_pos c s) p =
        cnt_below (cells_size c) (\<lambda>i. s \<in> kc_seq c ! i \<and> kc_pos c ! i = p))"

text \<open>\<open>c'\<close> is \<open>c\<close> with cell \<open>i\<close> replaced by \<open>x\<close>, and well formed.\<close>

definition cell_step :: "llama_kv_cells \<Rightarrow> nat \<Rightarrow> kv_cell \<Rightarrow> llama_kv_cells \<Rightarrow> bool" where
  "cell_step c i x c' \<longleftrightarrow>
     cells_wf c' \<and> cells_size c' = cells_size c \<and> cell c' i = x \<and>
     (\<forall>j < cells_size c. j \<noteq> i \<longrightarrow> cell c' j = cell c j)"

lemma cells_wf_cell: "cells_wf c \<Longrightarrow> i < cells_size c \<Longrightarrow> cell_wf (cell c i)"
  by (simp add: cells_wf_def)

lemma cells_wf_used: "cells_wf c \<Longrightarrow> kc_used c = {i. i < cells_size c \<and> kc_pos c ! i \<noteq> -1}"
  by (simp add: cells_wf_def)

lemma cells_wf_finite_used [simp]: "cells_wf c \<Longrightarrow> finite (kc_used c)"
  by (simp add: cells_wf_def)

lemma cells_wf_empty_seq:
  "cells_wf c \<Longrightarrow> i < cells_size c \<Longrightarrow> kc_pos c ! i = -1 \<Longrightarrow> kc_seq c ! i = {}"
  using cells_wf_cell [of c i] by (simp add: cell_def)

lemma cells_wf_seq_bound:
  "cells_wf c \<Longrightarrow> i < cells_size c \<Longrightarrow> kc_seq c ! i \<subseteq> {..<LLAMA_MAX_SEQ}"
  using cells_wf_cell [of c i] by (simp add: cell_def)

lemma cells_wf_pos:
  "cells_wf c \<Longrightarrow> i < cells_size c \<Longrightarrow> s \<in> kc_seq c ! i \<Longrightarrow> 0 \<le> kc_pos c ! i"
  using cells_wf_cell [of c i] by (cases "kc_pos c ! i = -1") (auto simp: cell_def)

lemma cells_wf_cnt_pos:
  assumes "cells_wf c" and "i < cells_size c" and "s \<in> kc_seq c ! i"
  shows "0 < om_cnt (kc_seq_pos c s) (kc_pos c ! i)"
  using assms by (auto simp: cells_wf_def cnt_below_pos_iff)

text \<open>
  The one argument behind every operation on a cell: the derived structures move by what the
  cell contributed before and contributes now.
\<close>

lemma cell_stepI:
  assumes wf: "cells_wf c" and i: "i < cells_size c"
    and upd: "kc_pos c' = (kc_pos c)[i := p']" "kc_ext c' = (kc_ext c)[i := e']"
      "kc_shift c' = (kc_shift c)[i := sh']" "kc_seq c' = (kc_seq c)[i := S']"
    and used: "kc_used c' = (if p' = -1 then kc_used c - {i} else insert i (kc_used c))"
    and new: "cell_wf (p', e', sh', S')"
    and ok: "\<And>s. om_ok (kc_seq_pos c' s)"
    and cnt: "\<And>s q. om_cnt (kc_seq_pos c' s) q = om_cnt (kc_seq_pos c s) q
        + of_bool (s \<in> S' \<and> p' = q) - of_bool (s \<in> kc_seq c ! i \<and> kc_pos c ! i = q)"
  shows "cell_step c i (p', e', sh', S') c'"
proof -
  have size: "cells_size c' = cells_size c"
    using upd(1) by (simp add: cells_size_def)
  have len: "length (kc_pos c) = cells_size c" "length (kc_ext c) = cells_size c"
    "length (kc_shift c) = cells_size c" "length (kc_seq c) = cells_size c"
    using wf by (auto simp: cells_wf_def cells_size_def)
  have at: "cell c' i = (p', e', sh', S')"
    using upd i len by (simp add: cell_def)
  have other: "cell c' j = cell c j" if "j \<noteq> i" for j
    using upd that by (simp add: cell_def)
  have "kc_used c' = {j. j < cells_size c' \<and> kc_pos c' ! j \<noteq> -1}"
    using used i len wf size by (auto simp: upd cells_wf_used nth_list_update)
  moreover have "cell_wf (cell c' j)" if "j < cells_size c'" for j
    using that at other new wf size by (cases "j = i") (auto simp: cells_wf_def)
  moreover have "om_cnt (kc_seq_pos c' s) q =
      cnt_below (cells_size c') (\<lambda>j. s \<in> kc_seq c' ! j \<and> kc_pos c' ! j = q)" for s q
  proof -
    have "cnt_below (cells_size c) (\<lambda>j. s \<in> kc_seq c' ! j \<and> kc_pos c' ! j = q) =
      cnt_below (cells_size c) (\<lambda>j. s \<in> kc_seq c ! j \<and> kc_pos c ! j = q)
        + of_bool (s \<in> kc_seq c' ! i \<and> kc_pos c' ! i = q)
        - of_bool (s \<in> kc_seq c ! i \<and> kc_pos c ! i = q)"
      using i by (intro cnt_below_change) (auto simp: upd)
    then show ?thesis
      using cnt [of s q] wf i len size by (simp add: cells_wf_def upd)
  qed
  ultimately have "cells_wf c'"
    using ok size len upd by (auto simp: cells_wf_def)
  with size at other show ?thesis
    by (simp add: cell_step_def)
qed

subsection \<open>The loops over the sequence ids\<close>

text \<open>Each pass updates the map of its own sequence, so the loop is one update of the array.\<close>

lemma seq_pos_loop:
  "fold (\<lambda>s c. if s \<in> kc_seq c ! i
      then c\<lparr>kc_seq_pos := (kc_seq_pos c)(s := g (kc_pos c ! i) (kc_seq_pos c s))\<rparr> else c)
     [0..<n] c =
   c\<lparr>kc_seq_pos := (\<lambda>s. if s < n \<and> s \<in> kc_seq c ! i
      then g (kc_pos c ! i) (kc_seq_pos c s) else kc_seq_pos c s)\<rparr>"
proof (induction n)
  case (Suc n)
  then show ?case
    by (auto simp: fun_eq_iff less_Suc_eq
        intro!: arg_cong [where f = "\<lambda>f. c\<lparr>kc_seq_pos := f\<rparr>"])
qed simp

lemma seq_pos_rm_eq:
  "seq_pos_rm i c = c\<lparr>kc_seq_pos := (\<lambda>s. if s < LLAMA_MAX_SEQ \<and> s \<in> kc_seq c ! i
     then om_dec (kc_pos c ! i) (kc_seq_pos c s) else kc_seq_pos c s)\<rparr>"
  unfolding seq_pos_rm_def seq_pos_dec_def by (rule seq_pos_loop)

lemma seq_pos_add_eq:
  "seq_pos_add i c = c\<lparr>kc_seq_pos := (\<lambda>s. if s < LLAMA_MAX_SEQ \<and> s \<in> kc_seq c ! i
     then om_inc (kc_pos c ! i) (kc_seq_pos c s) else kc_seq_pos c s)\<rparr>"
  unfolding seq_pos_add_def seq_pos_inc_def by (rule seq_pos_loop)

lemma seq_pos_rm_simps [simp]:
  "kc_has_shift (seq_pos_rm i c) = kc_has_shift c" "kc_used (seq_pos_rm i c) = kc_used c"
  "kc_pos (seq_pos_rm i c) = kc_pos c" "kc_ext (seq_pos_rm i c) = kc_ext c"
  "kc_shift (seq_pos_rm i c) = kc_shift c" "kc_seq (seq_pos_rm i c) = kc_seq c"
  by (simp_all add: seq_pos_rm_eq)

lemma seq_pos_add_simps [simp]:
  "kc_has_shift (seq_pos_add i c) = kc_has_shift c" "kc_used (seq_pos_add i c) = kc_used c"
  "kc_pos (seq_pos_add i c) = kc_pos c" "kc_ext (seq_pos_add i c) = kc_ext c"
  "kc_shift (seq_pos_add i c) = kc_shift c" "kc_seq (seq_pos_add i c) = kc_seq c"
  by (simp_all add: seq_pos_add_eq)

lemma seq_pos_rm_ok: "cells_wf c \<Longrightarrow> om_ok (kc_seq_pos (seq_pos_rm i c) s)"
  by (simp add: seq_pos_rm_eq om_ok_dec cells_wf_def)

lemma seq_pos_rm_cnt:
  assumes "cells_wf c" and "i < cells_size c"
  shows "om_cnt (kc_seq_pos (seq_pos_rm i c) s) q =
    om_cnt (kc_seq_pos c s) q - of_bool (s \<in> kc_seq c ! i \<and> kc_pos c ! i = q)"
proof -
  have "om_ok (kc_seq_pos c s)" using assms(1) by (simp add: cells_wf_def)
  moreover have "s < LLAMA_MAX_SEQ" if "s \<in> kc_seq c ! i"
    using cells_wf_seq_bound [OF assms] that by auto
  ultimately show ?thesis
    using cells_wf_cnt_pos [OF assms, of s] by (auto simp: seq_pos_rm_eq omap_simps)
qed

lemma seq_pos_add_ok: "om_ok (kc_seq_pos c s) \<Longrightarrow> om_ok (kc_seq_pos (seq_pos_add i c) s)"
  by (simp add: seq_pos_add_eq om_ok_inc)

lemma seq_pos_add_cnt:
  assumes "om_ok (kc_seq_pos c s)" and "kc_seq c ! i \<subseteq> {..<LLAMA_MAX_SEQ}"
  shows "om_cnt (kc_seq_pos (seq_pos_add i c) s) q =
    om_cnt (kc_seq_pos c s) q + of_bool (s \<in> kc_seq c ! i \<and> kc_pos c ! i = q)"
  using assms by (auto simp: seq_pos_add_eq omap_simps)

section \<open>Every operation keeps the table well formed\<close>

lemma cells_wf_ok: "cells_wf c \<Longrightarrow> om_ok (kc_seq_pos c s)"
  by (simp add: cells_wf_def)

lemma cells_wf_len:
  assumes "cells_wf c"
  shows "length (kc_pos c) = cells_size c" "length (kc_ext c) = cells_size c"
    "length (kc_shift c) = cells_size c" "length (kc_seq c) = cells_size c"
  using assms by (auto simp: cells_wf_def cells_size_def)

lemma cells_new_wf: "cells_wf cells_new"
  by (simp add: cells_wf_def cells_new_def cells_size_def cnt_below_def)

lemma cells_reset_wf: "cells_wf (cells_reset c)"
  by (auto simp: cells_wf_def cells_reset_def cells_size_def cell_def cnt_below_def Let_def
      intro!: sum.neutral)

lemma cells_reset_size [simp]: "cells_size (cells_reset c) = cells_size c"
  by (simp add: cells_reset_def cells_size_def Let_def)

lemma cells_reset_cell: "i < cells_size c \<Longrightarrow> cell (cells_reset c) i = (-1, ext_reset, 0, {})"
  by (simp add: cells_reset_def cells_size_def cell_def Let_def)

lemma cells_resize_wf: "cells_wf (cells_resize n c)"
  by (simp add: cells_resize_def cells_reset_wf)

lemma cells_resize_size [simp]: "cells_size (cells_resize n c) = n"
  by (simp add: cells_resize_def) (simp add: cells_size_def)

lemma cells_resize_cell: "i < n \<Longrightarrow> cell (cells_resize n c) i = (-1, ext_reset, 0, {})"
  by (simp add: cells_resize_def cells_reset_cell cells_size_def)

lemma cells_reset_shift_wf: "cells_wf c \<Longrightarrow> cells_wf (cells_reset_shift c)"
  by (auto simp: cells_wf_def cells_reset_shift_def cells_size_def cell_def)

lemma cells_rm_step:
  assumes "cells_wf c" and "i < cells_size c"
  shows "cell_step c i (-1, ext_reset, 0, {}) (cells_rm i c)"
  using assms
  by (intro cell_stepI)
     (auto simp: cells_rm_def Let_def seq_pos_rm_ok seq_pos_rm_cnt)

lemma cells_seq_rm_step:
  assumes wf: "cells_wf c" and i: "i < cells_size c" and s: "s \<in> kc_seq c ! i"
  shows "cell_step c i
      (if kc_seq c ! i = {s} then (-1, ext_reset, 0, {})
       else (kc_pos c ! i, kc_ext c ! i, kc_shift c ! i, kc_seq c ! i - {s}))
      (fst (cells_seq_rm i s c))"
    and "snd (cells_seq_rm i s c) \<longleftrightarrow> kc_seq c ! i = {s}"
proof -
  have cnt: "0 < om_cnt (kc_seq_pos c s) (kc_pos c ! i)"
    using assms by (rule cells_wf_cnt_pos)
  have iff: "kc_seq c ! i - {s} = {} \<longleftrightarrow> kc_seq c ! i = {s}"
    using s by auto
  have used: "i \<in> kc_used c"
    using wf i s cells_wf_pos [OF assms] by (auto simp: cells_wf_used)
  note [simp] = cells_wf_len [OF wf] cells_wf_ok [OF wf] i
  show "snd (cells_seq_rm i s c) \<longleftrightarrow> kc_seq c ! i = {s}"
    using iff by (simp add: cells_seq_rm_def Let_def seq_pos_dec_def)
  show "cell_step c i
      (if kc_seq c ! i = {s} then (-1, ext_reset, 0, {})
       else (kc_pos c ! i, kc_ext c ! i, kc_shift c ! i, kc_seq c ! i - {s}))
      (fst (cells_seq_rm i s c))"
  proof (cases "kc_seq c ! i = {s}")
    case True
    then show ?thesis
      using wf i cnt
      by (simp, intro cell_stepI)
         (auto simp: cells_seq_rm_def Let_def seq_pos_dec_def om_ok_dec omap_simps)
  next
    case False
    with iff have ne: "kc_seq c ! i - {s} \<noteq> {}" by simp
    have cw: "cell_wf (kc_pos c ! i, kc_ext c ! i, kc_shift c ! i, kc_seq c ! i - {s})"
      using cells_wf_cell [OF wf i] by (auto simp: cell_def)
    have p: "kc_pos c ! i \<noteq> -1" using cells_wf_pos [OF assms] by simp
    show ?thesis
      using wf i s cnt False ne cw p used
      by (simp, intro cell_stepI)
         (auto simp: cells_seq_rm_def Let_def seq_pos_dec_def om_ok_dec omap_simps insert_absorb)
  qed
qed

lemma cells_seq_keep_step:
  assumes wf: "cells_wf c" and i: "i < cells_size c"
  shows "cell_step c i
      (if s \<in> kc_seq c ! i then (kc_pos c ! i, kc_ext c ! i, kc_shift c ! i, {s})
       else if kc_seq c ! i \<noteq> {} then (-1, ext_reset, 0, {}) else cell c i)
      (fst (cells_seq_keep i s c))"
    and "snd (cells_seq_keep i s c) \<longleftrightarrow> s \<notin> kc_seq c ! i \<and> kc_seq c ! i \<noteq> {}"
proof -
  note [simp] = cells_wf_len [OF wf] i
  show "snd (cells_seq_keep i s c) \<longleftrightarrow> s \<notin> kc_seq c ! i \<and> kc_seq c ! i \<noteq> {}"
    by (simp add: cells_seq_keep_def Let_def)
  consider (own) "s \<in> kc_seq c ! i" | (other) "s \<notin> kc_seq c ! i" "kc_seq c ! i \<noteq> {}"
    | (none) "kc_seq c ! i = {}" by auto
  then show "cell_step c i
      (if s \<in> kc_seq c ! i then (kc_pos c ! i, kc_ext c ! i, kc_shift c ! i, {s})
       else if kc_seq c ! i \<noteq> {} then (-1, ext_reset, 0, {}) else cell c i)
      (fst (cells_seq_keep i s c))"
  proof cases
    case own
    then have p: "0 \<le> kc_pos c ! i" using wf i by (rule cells_wf_pos [rotated 2])
    have sb: "s < LLAMA_MAX_SEQ" using cells_wf_seq_bound [OF wf i] own by auto
    have u: "i \<in> kc_used c" using p wf by (simp add: cells_wf_used)
    show ?thesis
      using wf own p sb u
      by (simp, intro cell_stepI)
         (auto simp: cells_seq_keep_def Let_def seq_pos_inc_def seq_pos_rm_ok seq_pos_rm_cnt
           om_ok_inc omap_simps insert_absorb)
  next
    case other
    then show ?thesis
      using wf
      by (simp, intro cell_stepI)
         (auto simp: cells_seq_keep_def Let_def seq_pos_rm_ok seq_pos_rm_cnt)
  next
    case none
    then show ?thesis
      using wf by (simp add: cells_seq_keep_def cell_step_def)
  qed
qed

lemma cells_seq_add_step:
  assumes wf: "cells_wf c" and i: "i < cells_size c"
    and "kc_pos c ! i \<noteq> -1" and "s \<notin> kc_seq c ! i" and "s < LLAMA_MAX_SEQ"
  shows "cell_step c i
    (kc_pos c ! i, kc_ext c ! i, kc_shift c ! i, insert s (kc_seq c ! i)) (cells_seq_add i s c)"
proof -
  have "i \<in> kc_used c" using assms by (simp add: cells_wf_used)
  then show ?thesis
    using assms cells_wf_cell [OF wf i] cells_wf_ok [OF wf]
    by (intro cell_stepI)
       (auto simp: cells_seq_add_def Let_def seq_pos_inc_def om_ok_inc omap_simps cell_def
         insert_absorb)
qed

lemma cells_pos_set_step:
  assumes wf: "cells_wf c" and i: "i < cells_size c" and "kc_pos c ! i = -1" and "0 \<le> p"
  shows "cell_step c i (p, kc_ext c ! i, 0, {}) (cells_pos_set i p c)"
proof -
  have "kc_seq c ! i = {}" and "kc_shift c ! i = 0"
    using assms cells_wf_cell [OF wf i] by (auto simp: cell_def)
  then have "(kc_seq c)[i := {}] = kc_seq c" "(kc_shift c)[i := 0] = kc_shift c"
    using list_update_id [of "kc_seq c" i] list_update_id [of "kc_shift c" i] by simp_all
  then show ?thesis
    using assms \<open>kc_seq c ! i = {}\<close> cells_wf_ok [OF wf]
    by (intro cell_stepI) (auto simp: cells_pos_set_def)
qed

lemma cells_ext_set_step:
  assumes wf: "cells_wf c" and i: "i < cells_size c"
  shows "cell_step c i (kc_pos c ! i, e, kc_shift c ! i, kc_seq c ! i) (cells_ext_set i e c)"
proof -
  have u: "kc_used c = (if kc_pos c ! i = -1 then kc_used c - {i} else insert i (kc_used c))"
    using wf i by (auto simp: cells_wf_used)
  show ?thesis
    using assms u cells_wf_ok [OF wf] cells_wf_cell [OF wf i]
    by (intro cell_stepI) (auto simp: cells_ext_set_def cell_def)
qed

lemma cells_pos_add_step:
  assumes wf: "cells_wf c" and i: "i < cells_size c" and "kc_pos c ! i \<noteq> -1"
  shows "cell_step c i
      (if kc_pos c ! i + d < 0 then (-1, kc_ext c ! i, 0, {})
       else (kc_pos c ! i + d, kc_ext c ! i, kc_shift c ! i + d, kc_seq c ! i))
      (fst (cells_pos_add i d c))"
    and "snd (cells_pos_add i d c) \<longleftrightarrow> kc_pos c ! i + d < 0"
proof -
  note [simp] = cells_wf_len [OF wf] i
  have u: "i \<in> kc_used c" using assms by (simp add: cells_wf_used)
  show "snd (cells_pos_add i d c) \<longleftrightarrow> kc_pos c ! i + d < 0"
    by (simp add: cells_pos_add_def Let_def)
  show "cell_step c i
      (if kc_pos c ! i + d < 0 then (-1, kc_ext c ! i, 0, {})
       else (kc_pos c ! i + d, kc_ext c ! i, kc_shift c ! i + d, kc_seq c ! i))
      (fst (cells_pos_add i d c))"
  proof (cases "kc_pos c ! i + d < 0")
    case True
    then show ?thesis
      using wf
      by (simp, intro cell_stepI)
         (auto simp: cells_pos_add_def Let_def seq_pos_rm_ok seq_pos_rm_cnt)
  next
    case False
    have b: "kc_seq c ! i \<subseteq> {..<LLAMA_MAX_SEQ}" using wf i by (rule cells_wf_seq_bound)
    from False show ?thesis
      using wf u b
      by (simp, intro cell_stepI)
         (auto simp: cells_pos_add_def Let_def seq_pos_rm_ok seq_pos_rm_cnt seq_pos_add_ok
           seq_pos_add_cnt insert_absorb)
  qed
qed

lemma c_div_bounds: "0 \<le> p \<Longrightarrow> 0 < d \<Longrightarrow> 0 \<le> c_div p d \<and> c_div p d \<le> p"
  using int_div_less_self [of p d]
  by (cases "p = 0"; cases "d = 1") (auto simp: c_div_def pos_imp_zdiv_nonneg_iff)

lemma cells_pos_div_step:
  assumes wf: "cells_wf c" and i: "i < cells_size c" and ne: "kc_pos c ! i \<noteq> -1" and d: "0 < d"
  shows "cell_step c i
    (c_div (kc_pos c ! i) d, kc_ext c ! i,
     kc_shift c ! i + (kc_pos c ! i - c_div (kc_pos c ! i) d), kc_seq c ! i) (cells_pos_div i d c)"
proof -
  note [simp] = cells_wf_len [OF wf] i
  have u: "i \<in> kc_used c" using assms by (simp add: cells_wf_used)
  have b: "kc_seq c ! i \<subseteq> {..<LLAMA_MAX_SEQ}" using wf i by (rule cells_wf_seq_bound)
  have "0 \<le> kc_pos c ! i" using cells_wf_cell [OF wf i] ne by (auto simp: cell_def)
  then have "0 \<le> c_div (kc_pos c ! i) d" using c_div_bounds d by blast
  then show ?thesis
    using wf u b
    by (intro cell_stepI)
       (auto simp: cells_pos_div_def Let_def seq_pos_rm_ok seq_pos_rm_cnt seq_pos_add_ok
         seq_pos_add_cnt insert_absorb)
qed

subsection \<open>Saving and restoring\<close>

text \<open>A well-formed table is determined by its cells and its shift flag.\<close>

lemma cells_eqI:
  assumes wf: "cells_wf c" "cells_wf c'" and size: "cells_size c = cells_size c'"
    and cells: "\<And>i. i < cells_size c \<Longrightarrow> cell c i = cell c' i"
    and hs: "kc_has_shift c = kc_has_shift c'"
  shows "c = c'"
proof -
  note len = cells_wf_len [OF wf(1)] cells_wf_len [OF wf(2)]
  have fields: "kc_pos c ! i = kc_pos c' ! i" "kc_ext c ! i = kc_ext c' ! i"
    "kc_shift c ! i = kc_shift c' ! i" "kc_seq c ! i = kc_seq c' ! i" if "i < cells_size c" for i
    using cells [OF that] by (auto simp: cell_def)
  have lists: "kc_pos c = kc_pos c'" "kc_ext c = kc_ext c'" "kc_shift c = kc_shift c'"
    "kc_seq c = kc_seq c'"
    using fields len size by (auto intro!: nth_equalityI)
  have "kc_used c = kc_used c'"
    using wf size lists by (simp add: cells_wf_used)
  moreover have "kc_seq_pos c s = kc_seq_pos c' s" for s
    using wf size lists by (intro om_ext) (auto simp: cells_wf_def)
  ultimately show ?thesis
    using lists hs by (intro llama_kv_cells.equality) auto
qed

lemma cells_cp_fold:
  assumes "n \<le> length (kc_pos r)" "n \<le> length (kc_ext r)" "n \<le> length (kc_seq r)"
  shows "fold (\<lambda>j r. r\<lparr>kc_pos := (kc_pos r)[j := fp j], kc_ext := (kc_ext r)[j := fe j],
                    kc_seq := (kc_seq r)[j := fs j]\<rparr>) [0..<n] r =
    r\<lparr>kc_pos := map fp [0..<n] @ drop n (kc_pos r), kc_ext := map fe [0..<n] @ drop n (kc_ext r),
      kc_seq := map fs [0..<n] @ drop n (kc_seq r)\<rparr>"
  using assms
proof (induction n)
  case (Suc n)
  then show ?case
    by (simp add: list_update_prefix del: upt_Suc) (simp add: list_update_prefix)
qed simp

lemma cells_cp_fields:
  "kc_pos (cells_cp idxs c) = map (\<lambda>i. kc_pos c ! i) idxs"
  "kc_ext (cells_cp idxs c) = map (\<lambda>i. kc_ext c ! i) idxs"
  "kc_seq (cells_cp idxs c) = map (\<lambda>i. kc_seq c ! i) idxs"
proof -
  let ?r = "cells_resize (length idxs) cells_new"
  have len: "length (kc_pos ?r) = length idxs" "length (kc_ext ?r) = length idxs"
    "length (kc_seq ?r) = length idxs"
    by (simp_all add: cells_resize_def cells_reset_def Let_def)
  show "kc_pos (cells_cp idxs c) = map (\<lambda>i. kc_pos c ! i) idxs"
    "kc_ext (cells_cp idxs c) = map (\<lambda>i. kc_ext c ! i) idxs"
    "kc_seq (cells_cp idxs c) = map (\<lambda>i. kc_seq c ! i) idxs"
    unfolding cells_cp_def by (simp_all add: cells_cp_fold len map_nth_idxs)
qed

lemma cells_set1_has_shift [simp]: "kc_has_shift (cells_set1 i oth j c) = kc_has_shift c"
  by (simp add: cells_set1_def Let_def)

lemma cells_set1_step:
  assumes wf: "cells_wf c" and i: "i < cells_size c" and sh: "kc_shift c ! i = 0"
    and new: "cell_wf (kc_pos oth ! j, kc_ext oth ! j, 0, kc_seq oth ! j)"
  shows "cell_step c i (kc_pos oth ! j, kc_ext oth ! j, 0, kc_seq oth ! j) (cells_set1 i oth j c)"
    (is "cell_step c i (?p, ?e, 0, ?S) ?c'")
proof -
  note [simp] = cells_wf_len [OF wf] i
  have sh0: "(kc_shift c)[i := 0] = kc_shift c" using sh list_update_id [of "kc_shift c" i] by simp
  define c2 where "c2 = c\<lparr>kc_used := kc_used ?c'\<rparr>"
  define c3 where "c3 = (if kc_pos c ! i \<noteq> -1 then seq_pos_rm i c2 else c2)"
  define c4 where "c4 = c3\<lparr>kc_pos := (kc_pos c3)[i := ?p], kc_ext := (kc_ext c3)[i := ?e],
                 kc_seq := (kc_seq c3)[i := ?S]\<rparr>"
  have c': "?c' = (if ?p \<noteq> -1 then seq_pos_add i c4 else c4)"
    by (auto simp: cells_set1_def Let_def c2_def c3_def c4_def)
  have used: "kc_used ?c' = (if ?p = -1 then kc_used c - {i} else insert i (kc_used c))"
    using wf by (auto simp: cells_set1_def Let_def cells_wf_used)
  have same: "kc_seq_pos (seq_pos_rm i c2) s = kc_seq_pos (seq_pos_rm i c) s" for s
    by (simp add: c2_def seq_pos_rm_eq)
  have ok3: "om_ok (kc_seq_pos c3 s)" for s
    using wf same seq_pos_rm_ok [OF wf] by (auto simp: c3_def c2_def cells_wf_ok)
  have cnt3: "om_cnt (kc_seq_pos c3 s) q = om_cnt (kc_seq_pos c s) q
      - of_bool (s \<in> kc_seq c ! i \<and> kc_pos c ! i = q)" for s q
    using wf same seq_pos_rm_cnt [OF wf i] cells_wf_empty_seq [OF wf i]
    by (auto simp: c3_def c2_def)
  have len3: "kc_pos c3 = kc_pos c" "kc_ext c3 = kc_ext c" "kc_shift c3 = kc_shift c"
    "kc_seq c3 = kc_seq c" by (simp_all add: c3_def c2_def)
  have sp4: "kc_seq_pos c4 = kc_seq_pos c3" by (simp add: c4_def)
  have b: "kc_seq c4 ! i \<subseteq> {..<LLAMA_MAX_SEQ}" using new by (simp add: c4_def len3)
  show "cell_step c i (?p, ?e, 0, ?S) ?c'"
  proof (rule cell_stepI [OF wf i _ _ _ _ used new])
    show "kc_pos ?c' = (kc_pos c)[i := ?p]" "kc_ext ?c' = (kc_ext c)[i := ?e]"
      "kc_shift ?c' = (kc_shift c)[i := 0]" "kc_seq ?c' = (kc_seq c)[i := ?S]"
      using sh0 by (simp_all add: c' c4_def len3)
    show "om_ok (kc_seq_pos ?c' s)" for s
      using ok3 sp4 by (simp add: c' seq_pos_add_ok)
    show "om_cnt (kc_seq_pos ?c' s) q = om_cnt (kc_seq_pos c s) q
        + of_bool (s \<in> ?S \<and> ?p = q) - of_bool (s \<in> kc_seq c ! i \<and> kc_pos c ! i = q)" for s q
    proof (cases "?p = -1")
      case True
      then show ?thesis using cnt3 [of s q] new sp4 by (auto simp: c')
    next
      case False
      have "om_cnt (kc_seq_pos (seq_pos_add i c4) s) q = om_cnt (kc_seq_pos c4 s) q
          + of_bool (s \<in> kc_seq c4 ! i \<and> kc_pos c4 ! i = q)"
        using ok3 sp4 b by (intro seq_pos_add_cnt) simp_all
      then show ?thesis
        using False cnt3 [of s q] sp4 by (simp add: c' c4_def len3)
    qed
  qed
qed

text \<open>
  \<open>set\<close> over distinct cells: each named cell takes the saved state, the others stay.
  Its \<open>assert\<close>s (no pending shift in the named cells) are the hypotheses.
\<close>

lemma cells_set_spec:
  assumes wf: "cells_wf c" and len: "length (kc_pos oth) = length idxs"
    and idx: "set idxs \<subseteq> {..<cells_size c}" "distinct idxs"
    and sh: "\<And>i. i \<in> set idxs \<Longrightarrow> kc_shift c ! i = 0"
    and new: "\<And>j. j < length idxs \<Longrightarrow> cell_wf (kc_pos oth ! j, kc_ext oth ! j, 0, kc_seq oth ! j)"
  shows "cells_wf (cells_set idxs oth c) \<and> cells_size (cells_set idxs oth c) = cells_size c \<and>
    kc_has_shift (cells_set idxs oth c) = kc_has_shift c \<and>
    (\<forall>j < length idxs. cell (cells_set idxs oth c) (idxs ! j) =
       (kc_pos oth ! j, kc_ext oth ! j, 0, kc_seq oth ! j)) \<and>
    (\<forall>i < cells_size c. i \<notin> set idxs \<longrightarrow> cell (cells_set idxs oth c) i = cell c i)"
proof -
  let ?new = "\<lambda>j. (kc_pos oth ! j, kc_ext oth ! j, 0 :: int, kc_seq oth ! j)"
  define I where "I n d \<longleftrightarrow> cells_wf d \<and> cells_size d = cells_size c \<and>
      kc_has_shift d = kc_has_shift c \<and> (\<forall>j < n. cell d (idxs ! j) = ?new j) \<and>
      (\<forall>i < cells_size c. i \<notin> (!) idxs ` {..<n} \<longrightarrow> cell d i = cell c i)" for n d
  have "I (length idxs)
      (fold (\<lambda>j c. cells_set1 (idxs ! j) oth j c) [0..<length idxs] c)"
  proof (rule fold_upt_inv)
    show "I 0 c" using wf by (simp add: I_def)
  next
    fix n d assume n: "n < length idxs" and I: "I n d"
    let ?i = "idxs ! n"
    have i: "?i < cells_size c" using idx(1) n by (meson lessThan_iff nth_mem subsetD)
    have fresh: "?i \<notin> (!) idxs ` {..<n}"
      using idx(2) n by (auto simp: nth_eq_iff_index_eq)
    then have "cell d ?i = cell c ?i" using I i by (simp add: I_def)
    then have "kc_shift d ! ?i = 0" using sh [of ?i] n by (simp add: cell_def)
    then have st: "cell_step d ?i (?new n) (cells_set1 ?i oth n d)"
      using I i new [OF n] by (intro cells_set1_step) (simp_all add: I_def)
    have lt: "idxs ! j < cells_size c" if "j < n" for j
      using idx(1) n that by (meson lessThan_iff less_trans nth_mem subsetD)
    have "cell (cells_set1 ?i oth n d) (idxs ! j) = ?new j" if "j < Suc n" for j
    proof (cases "j = n")
      case False
      then have jn: "j < n" using that by simp
      then have "idxs ! j \<noteq> ?i" using fresh by (metis imageI lessThan_iff)
      then show ?thesis using st I jn lt [OF jn] by (simp add: cell_step_def I_def)
    qed (use st in \<open>simp add: cell_step_def\<close>)
    moreover have "cell (cells_set1 ?i oth n d) i = cell c i"
      if "i < cells_size c" "i \<notin> (!) idxs ` {..<Suc n}" for i
      using st I that by (auto simp: cell_step_def I_def lessThan_Suc)
    ultimately show "I (Suc n) (cells_set1 ?i oth n d)"
      using st I by (simp add: I_def cell_step_def)
  qed simp
  moreover have "set idxs = (!) idxs ` {..<length idxs}"
    by (auto simp: set_conv_nth)
  ultimately show ?thesis
    by (simp add: I_def cells_set_def len)
qed

text \<open>
  Restoring what \<open>cp\<close> saved undoes any change of the saved cells: if \<open>c\<close> differs from
  \<open>c0\<close> only in the cells \<open>idxs\<close>, the restored table is \<open>c0\<close> itself,
  derived structures included.
\<close>

lemma cells_set_cp_restores:
  assumes wf: "cells_wf c0" "cells_wf c" and size: "cells_size c = cells_size c0"
    and idx: "set idxs \<subseteq> {..<cells_size c0}" "distinct idxs"
    and sh: "\<And>i. i \<in> set idxs \<Longrightarrow> kc_shift c0 ! i = 0 \<and> kc_shift c ! i = 0"
    and frame: "\<And>i. i < cells_size c0 \<Longrightarrow> i \<notin> set idxs \<Longrightarrow> cell c i = cell c0 i"
    and hs: "kc_has_shift c = kc_has_shift c0"
  shows "cells_set idxs (cells_cp idxs c0) c = c0"
proof -
  let ?r = "cells_set idxs (cells_cp idxs c0) c"
  have saved: "(kc_pos (cells_cp idxs c0) ! j, kc_ext (cells_cp idxs c0) ! j, 0,
      kc_seq (cells_cp idxs c0) ! j) = cell c0 (idxs ! j)" if "j < length idxs" for j
    using sh [of "idxs ! j"] that by (simp add: cells_cp_fields cell_def)
  have cw: "cell_wf (cell c0 (idxs ! j))" if "j < length idxs" for j
    using cells_wf_cell [OF wf(1)] idx(1) that by (meson lessThan_iff nth_mem subsetD)
  have spec: "cells_wf ?r \<and> cells_size ?r = cells_size c \<and> kc_has_shift ?r = kc_has_shift c \<and>
     (\<forall>j < length idxs. cell ?r (idxs ! j) = (kc_pos (cells_cp idxs c0) ! j,
        kc_ext (cells_cp idxs c0) ! j, 0, kc_seq (cells_cp idxs c0) ! j)) \<and>
     (\<forall>i < cells_size c. i \<notin> set idxs \<longrightarrow> cell ?r i = cell c i)"
    using wf(2) size idx sh cw saved
    by (intro cells_set_spec) (auto simp: cells_cp_fields(1))
  show ?thesis
  proof (rule cells_eqI)
    show "cell ?r i = cell c0 i" if "i < cells_size ?r" for i
    proof (cases "i \<in> set idxs")
      case True
      then obtain j where "j < length idxs" "i = idxs ! j" by (auto simp: set_conv_nth)
      then show ?thesis using spec saved by simp
    next
      case False
      then show ?thesis using spec that size frame by simp
    qed
  qed (use spec wf size hs in simp_all)
qed

section \<open>What the queries return\<close>

lemma seq_pos_keys:
  assumes "cells_wf c"
  shows "fst ` set (kc_seq_pos c s) = {kc_pos c ! i | i. i < cells_size c \<and> s \<in> kc_seq c ! i}"
proof -
  have key: "p \<in> fst ` set (kc_seq_pos c s) \<longleftrightarrow>
      (\<exists>i < cells_size c. s \<in> kc_seq c ! i \<and> kc_pos c ! i = p)" for p
    using assms om_cnt_pos_iff [OF cells_wf_ok [OF assms], of s p]
    by (simp add: cells_wf_def cnt_below_pos_iff)
  show ?thesis
    by (rule set_eqI, unfold key) blast
qed

lemma seq_pos_Nil_iff:
  assumes "cells_wf c"
  shows "kc_seq_pos c s = [] \<longleftrightarrow> (\<forall>i < cells_size c. s \<notin> kc_seq c ! i)"
proof -
  have "kc_seq_pos c s = [] \<longleftrightarrow> fst ` set (kc_seq_pos c s) = {}" by simp
  also have "\<dots> \<longleftrightarrow> (\<forall>i < cells_size c. s \<notin> kc_seq c ! i)"
    by (simp only: seq_pos_keys [OF assms]) blast
  finally show ?thesis .
qed

text \<open>
  \<open>seq_pos_min\<close> and \<open>seq_pos_max\<close> read the ends of the ordered map; they are the least and
  the greatest position of the sequence in the table, -1 when no cell holds it.
\<close>

lemma cells_seq_pos_min_spec:
  assumes "cells_wf c"
  shows "cells_seq_pos_min c s =
    (if \<exists>i < cells_size c. s \<in> kc_seq c ! i
     then Min {kc_pos c ! i | i. i < cells_size c \<and> s \<in> kc_seq c ! i} else -1)"
  using seq_pos_Nil_iff [OF assms, of s] seq_pos_keys [OF assms, of s]
    om_hd_Min [OF cells_wf_ok [OF assms], of s]
  by (auto simp: cells_seq_pos_min_def)

lemma cells_seq_pos_max_spec:
  assumes "cells_wf c"
  shows "cells_seq_pos_max c s =
    (if \<exists>i < cells_size c. s \<in> kc_seq c ! i
     then Max {kc_pos c ! i | i. i < cells_size c \<and> s \<in> kc_seq c ! i} else -1)"
  using seq_pos_Nil_iff [OF assms, of s] seq_pos_keys [OF assms, of s]
    om_last_Max [OF cells_wf_ok [OF assms], of s]
  by (auto simp: cells_seq_pos_max_def)

lemma cells_seq_pos_max_upper:
  assumes "cells_wf c" "i < cells_size c" "s \<in> kc_seq c ! i"
  shows "kc_pos c ! i \<le> cells_seq_pos_max c s"
proof -
  have "finite {kc_pos c ! i | i. i < cells_size c \<and> s \<in> kc_seq c ! i}" by simp
  with assms show ?thesis
    by (auto simp: cells_seq_pos_max_spec intro!: Max_ge)
qed

lemma cells_seq_pos_min_lower:
  assumes "cells_wf c" "i < cells_size c" "s \<in> kc_seq c ! i"
  shows "cells_seq_pos_min c s \<le> kc_pos c ! i"
proof -
  have "finite {kc_pos c ! i | i. i < cells_size c \<and> s \<in> kc_seq c ! i}" by simp
  with assms show ?thesis
    by (auto simp: cells_seq_pos_min_spec intro!: Min_le)
qed

lemma cells_seq_get_single:
  assumes "kc_seq c ! i = {s}" and "s < LLAMA_MAX_SEQ"
  shows "cells_seq_get c i = int s"
proof -
  have "find (\<lambda>t. t \<in> {s}) [0..<n] = (if s < n then Some s else None)" for n
    by (induction n) (auto simp: find_app)
  then show ?thesis using assms by (simp add: cells_seq_get_def)
qed

lemma cells_used_max_p1_bound:
  assumes "cells_wf c" "i < cells_size c" "kc_pos c ! i \<noteq> -1"
  shows "i < cells_used_max_p1 c"
proof -
  have "i \<in> kc_used c" using assms by (simp add: cells_wf_used)
  moreover have "finite (kc_used c)" using assms by simp
  ultimately have "i \<le> Max (kc_used c)" by (rule Max_ge [rotated])
  with \<open>i \<in> kc_used c\<close> show ?thesis by (auto simp: cells_used_max_p1_def)
qed

section \<open>Loops over the cells\<close>

text \<open>
  The cache walks all cells of a stream, lets a pass change its own cell, and remembers in
  \<open>new_head\<close> the first cell a pass emptied (\<open>cells.size()\<close> if none). A pass returns the
  table and whether it emptied its cell.
\<close>

definition cells_loop ::
    "(nat \<Rightarrow> llama_kv_cells \<Rightarrow> llama_kv_cells \<times> bool) \<Rightarrow> llama_kv_cells \<Rightarrow> llama_kv_cells \<times> nat" where
  "cells_loop step c =
     fold (\<lambda>i (c, new_head).
         case step i c of (c', freed) \<Rightarrow>
           (c', if freed \<and> new_head = cells_size c' then i else new_head))
       [0..<cells_size c] (c, cells_size c)"

text \<open>
  The contract of a pass: from a well-formed table whose cell \<open>i\<close> satisfies \<open>pre\<close> it
  replaces that cell by its image under \<open>upd\<close>, keeps every other cell and the
  well-formedness, and reports \<open>emptied\<close>.
\<close>

locale cellwise =
  fixes pass :: "nat \<Rightarrow> llama_kv_cells \<Rightarrow> llama_kv_cells \<times> bool"
    and pre :: "kv_cell \<Rightarrow> bool"
    and upd :: "kv_cell \<Rightarrow> kv_cell"
    and emptied :: "kv_cell \<Rightarrow> bool"
  assumes pass_step:
      "cells_wf c \<Longrightarrow> i < cells_size c \<Longrightarrow> pre (cell c i) \<Longrightarrow>
       cell_step c i (upd (cell c i)) (fst (pass i c))"
    and pass_emptied:
      "cells_wf c \<Longrightarrow> i < cells_size c \<Longrightarrow> pre (cell c i) \<Longrightarrow>
       snd (pass i c) \<longleftrightarrow> emptied (cell c i)"
begin

definition head_ok :: "llama_kv_cells \<Rightarrow> nat \<Rightarrow> nat \<Rightarrow> bool" where
  "head_ok c n h \<longleftrightarrow>
     (h = cells_size c \<and> (\<forall>i<n. \<not> emptied (cell c i))) \<or>
     (h < n \<and> emptied (cell c h) \<and> (\<forall>i<h. \<not> emptied (cell c i)))"

definition loop_inv :: "llama_kv_cells \<Rightarrow> nat \<Rightarrow> llama_kv_cells \<times> nat \<Rightarrow> bool" where
  "loop_inv c n st \<longleftrightarrow>
     cells_wf (fst st) \<and> cells_size (fst st) = cells_size c \<and>
     (\<forall>i < cells_size c. cell (fst st) i = (if i < n then upd (cell c i) else cell c i)) \<and>
     head_ok c n (snd st)"

lemma head_ok_step:
  assumes "n < cells_size c" and "head_ok c n h"
  shows "head_ok c (Suc n) (if emptied (cell c n) \<and> h = cells_size c then n else h)"
  using assms unfolding head_ok_def by (auto simp: less_Suc_eq)

lemma loop_inv_step:
  assumes pre: "\<And>i. i < cells_size c \<Longrightarrow> pre (cell c i)"
    and n: "n < cells_size c" and inv: "loop_inv c n (d, h)"
  shows "loop_inv c (Suc n)
    (case pass n d of (c', freed) \<Rightarrow> (c', if freed \<and> h = cells_size c' then n else h))"
proof -
  obtain c' b where p: "pass n d = (c', b)" by (cases "pass n d")
  have dn: "cell d n = cell c n" and wf: "cells_wf d" and size: "cells_size d = cells_size c"
    and head: "head_ok c n h"
    using inv n by (simp_all add: loop_inv_def)
  have st: "cell_step d n (upd (cell c n)) c'"
    using pass_step [of d n] wf size n pre dn p by simp
  have b: "b \<longleftrightarrow> emptied (cell c n)"
    using pass_emptied [of d n] wf size n pre dn p by simp
  have cells: "cell c' i = (if i < Suc n then upd (cell c i) else cell c i)"
    if "i < cells_size c" for i
    using st inv that size by (cases "i = n") (auto simp: cell_step_def loop_inv_def)
  have "cells_size c' = cells_size c" and "cells_wf c'"
    using st size by (simp_all add: cell_step_def)
  with head_ok_step [OF n head] b cells p show ?thesis
    by (simp add: loop_inv_def)
qed

lemma loop_inv_final:
  assumes "cells_wf c" and "\<And>i. i < cells_size c \<Longrightarrow> pre (cell c i)"
  shows "loop_inv c (cells_size c) (cells_loop pass c)"
  unfolding cells_loop_def
proof (rule fold_upt_inv)
  show "loop_inv c 0 (c, cells_size c)"
    using assms(1) by (simp add: loop_inv_def head_ok_def)
next
  fix i st assume "i < cells_size c" and "loop_inv c i st"
  then show "loop_inv c (Suc i) (case st of (c, new_head) \<Rightarrow>
      case pass i c of (c', freed) \<Rightarrow>
        (c', if freed \<and> new_head = cells_size c' then i else new_head))"
    using loop_inv_step [OF assms(2)] by (cases st) simp
qed simp

lemma loop_cells:
  assumes "cells_wf c" and "\<And>i. i < cells_size c \<Longrightarrow> pre (cell c i)"
  shows "cells_wf (fst (cells_loop pass c))"
    and "cells_size (fst (cells_loop pass c)) = cells_size c"
    and "i < cells_size c \<Longrightarrow> cell (fst (cells_loop pass c)) i = upd (cell c i)"
  using loop_inv_final [OF assms] by (auto simp: loop_inv_def)

text \<open>\<open>new_head\<close> is the least index whose cell was emptied, or the size.\<close>

lemma loop_new_head:
  assumes "cells_wf c" and "\<And>i. i < cells_size c \<Longrightarrow> pre (cell c i)"
    and "h = snd (cells_loop pass c)"
  shows "(h = cells_size c \<and> (\<forall>i < cells_size c. \<not> emptied (cell c i))) \<or>
    (h < cells_size c \<and> emptied (cell c h) \<and> (\<forall>i<h. \<not> emptied (cell c i)))"
  using loop_inv_final [OF assms(1,2)] assms(3) by (simp add: loop_inv_def head_ok_def)

end

end
