(* ===== verification/Hparams.thy ===== *)
theory Hparams
  imports Prelude "HOL-Library.Word"
begin

text \<open>
  The model hyper-parameters (\<open>src/llama-hparams.h\<close>, \<open>src/llama-hparams.cpp\<close>): the fields
  the member functions read, each function, and the sliding-window mask \<open>is_masked_swa\<close>.
  The sizes are \<open>uint32_t\<close> and wrap as in C++, so they are \<^typ>\<open>32 word\<close>; layer indices and
  the window are \<^typ>\<open>nat\<close>.
\<close>

unbundle bit_operations_syntax

type_synonym u32 = "32 word"

datatype llama_swa_type =
    LLAMA_SWA_TYPE_NONE
  | LLAMA_SWA_TYPE_STANDARD
  | LLAMA_SWA_TYPE_CHUNKED
  | LLAMA_SWA_TYPE_SYMMETRIC

datatype llama_rope_type =
    LLAMA_ROPE_TYPE_NONE
  | LLAMA_ROPE_TYPE_NORM
  | LLAMA_ROPE_TYPE_NEOX
  | LLAMA_ROPE_TYPE_MROPE
  | LLAMA_ROPE_TYPE_IMROPE
  | LLAMA_ROPE_TYPE_VISION

record llama_hparams =
  hp_n_embd :: u32
  hp_n_layer :: nat
  hp_n_layer_kv_from_start :: int
  hp_n_embd_head_k :: u32
  hp_n_embd_head_v :: u32
  hp_n_embd_head_k_mla_impl :: u32
  hp_n_embd_head_v_mla_impl :: u32
  hp_n_shortconv_l_cache :: u32
  hp_n_head_arr :: "u32 list"
  hp_n_head_kv_arr :: "u32 list"
  hp_n_ff_arr :: "u32 list"
  hp_wkv_head_size :: u32
  hp_token_shift_count :: u32
  hp_rope_sections :: "int list"
  hp_swa_layers :: "bool list"
  hp_ssm_d_conv :: u32
  hp_ssm_d_inner :: u32
  hp_ssm_d_state :: u32
  hp_ssm_n_group :: u32
  hp_n_embd_head_kda :: u32
  hp_recurrent_layer_arr :: "bool list"
  hp_use_alibi :: bool
  hp_n_embd_out_impl :: u32
  hp_n_deepstack_layers :: u32
  hp_n_rel_attn_bkts :: nat
  hp_rope_type :: llama_rope_type

section \<open>Layers\<close>

text \<open>
  \<open>swa_layers\<close> holds the truth value of an expression, so it is a list of booleans; the loop
  writes the first \<open>n_layer\<close> entries. \<open>il % n_pattern\<close> is not reached for
  \<open>n_pattern == 0\<close>, and \<open>n_pattern - 1\<close> does not wrap where it is.
\<close>

definition set_swa_pattern :: "nat \<Rightarrow> bool \<Rightarrow> llama_hparams \<Rightarrow> llama_hparams" where
  "set_swa_pattern n_pattern dense_first hp =
    (if dense_first then
       fold (\<lambda>il hp. hp\<lparr>hp_swa_layers :=
           (hp_swa_layers hp)[il := n_pattern = 0 \<or> il mod n_pattern \<noteq> 0]\<rparr>) [0..<hp_n_layer hp] hp
     else
       fold (\<lambda>il hp. hp\<lparr>hp_swa_layers :=
           (hp_swa_layers hp)[il := n_pattern = 0 \<or> il mod n_pattern < n_pattern - 1]\<rparr>)
         [0..<hp_n_layer hp] hp)"

definition is_swa_any :: "llama_hparams \<Rightarrow> bool" where
  "is_swa_any hp = list_ex (\<lambda>il. hp_swa_layers hp ! il) [0..<hp_n_layer hp]"

definition n_head :: "llama_hparams \<Rightarrow> nat \<Rightarrow> u32 res" where
  "n_head hp il = (if il < hp_n_layer hp then Inr (hp_n_head_arr hp ! il)
     else Inl (Ggml_abort ''fatal error''))"

definition n_head_kv :: "llama_hparams \<Rightarrow> nat \<Rightarrow> u32 res" where
  "n_head_kv hp il = (if il < hp_n_layer hp then Inr (hp_n_head_kv_arr hp ! il)
     else Inl (Ggml_abort ''fatal error''))"

definition n_ff :: "llama_hparams \<Rightarrow> nat \<Rightarrow> u32 res" where
  "n_ff hp il = (if il < hp_n_layer hp then Inr (hp_n_ff_arr hp ! il)
     else Inl (Ggml_abort ''fatal error''))"

definition n_gqa :: "llama_hparams \<Rightarrow> nat \<Rightarrow> u32 res" where
  "n_gqa hp il =
     bind_res (n_head hp il) (\<lambda>nh. bind_res (n_head_kv hp il) (\<lambda>nkv.
       if nkv = 0 then Inr 0 else Inr (nh div nkv)))"

definition n_embd_inp :: "llama_hparams \<Rightarrow> u32" where
  "n_embd_inp hp = (if hp_n_deepstack_layers hp > 0
     then hp_n_embd hp + hp_n_embd hp * hp_n_deepstack_layers hp else hp_n_embd hp)"

definition n_embd_out :: "llama_hparams \<Rightarrow> u32" where
  "n_embd_out hp = (if hp_n_embd_out_impl hp > 0 then hp_n_embd_out_impl hp else hp_n_embd hp)"

definition n_embd_k_gqa :: "llama_hparams \<Rightarrow> nat \<Rightarrow> u32 res" where
  "n_embd_k_gqa hp il = bind_res (n_head_kv hp il) (\<lambda>nkv. Inr (hp_n_embd_head_k hp * nkv))"

definition n_embd_v_gqa :: "llama_hparams \<Rightarrow> nat \<Rightarrow> u32 res" where
  "n_embd_v_gqa hp il = bind_res (n_head_kv hp il) (\<lambda>nkv. Inr (hp_n_embd_head_v hp * nkv))"

text \<open>The loops below call a member function for every layer and stop at the first abort.\<close>

fun any_differs :: "(nat \<Rightarrow> u32 res) \<Rightarrow> u32 \<Rightarrow> nat list \<Rightarrow> bool res" where
  "any_differs f val [] = Inr False"
| "any_differs f val (il # ils) =
     bind_res (f il) (\<lambda>x. if val \<noteq> x then Inr True else any_differs f val ils)"

definition is_n_embd_k_gqa_variable :: "llama_hparams \<Rightarrow> bool res" where
  "is_n_embd_k_gqa_variable hp =
     bind_res (n_embd_k_gqa hp 0) (\<lambda>val. any_differs (n_embd_k_gqa hp) val [0..<hp_n_layer hp])"

definition is_n_embd_v_gqa_variable :: "llama_hparams \<Rightarrow> bool res" where
  "is_n_embd_v_gqa_variable hp =
     bind_res (n_embd_v_gqa hp 0) (\<lambda>val. any_differs (n_embd_v_gqa hp) val [0..<hp_n_layer hp])"

fun max_over :: "(nat \<Rightarrow> u32 res) \<Rightarrow> u32 \<Rightarrow> nat list \<Rightarrow> u32 res" where
  "max_over f val [] = Inr val"
| "max_over f val (il # ils) = bind_res (f il) (\<lambda>x. max_over f (max val x) ils)"

definition n_embd_k_gqa_max :: "llama_hparams \<Rightarrow> u32 res" where
  "n_embd_k_gqa_max hp =
     bind_res (n_embd_k_gqa hp 0) (\<lambda>val. max_over (n_embd_k_gqa hp) val [0..<hp_n_layer hp])"

definition n_embd_v_gqa_max :: "llama_hparams \<Rightarrow> u32 res" where
  "n_embd_v_gqa_max hp =
     bind_res (n_embd_v_gqa hp 0) (\<lambda>val. max_over (n_embd_v_gqa hp) val [0..<hp_n_layer hp])"

section \<open>State sizes\<close>

definition n_embd_r :: "llama_hparams \<Rightarrow> u32 res" where
  "n_embd_r hp =
    (if hp_wkv_head_size hp \<noteq> 0 then Inr (hp_token_shift_count hp * hp_n_embd hp)
     else if hp_n_shortconv_l_cache hp \<noteq> 0
     then Inr (hp_n_embd hp * (hp_n_shortconv_l_cache hp - 1))
     else if hp_n_embd_head_kda hp \<noteq> 0 then
       bind_res (n_head hp 0) (\<lambda>nh. let d_inner = nh * hp_n_embd_head_kda hp in
         Inr (3 * (if hp_ssm_d_conv hp > 0 then hp_ssm_d_conv hp - 1 else 3) * d_inner))
     else Inr ((if hp_ssm_d_conv hp > 0 then hp_ssm_d_conv hp - 1 else 0) *
         (hp_ssm_d_inner hp + 2 * hp_ssm_n_group hp * hp_ssm_d_state hp)))"

definition n_embd_s :: "llama_hparams \<Rightarrow> u32 res" where
  "n_embd_s hp =
    (if hp_wkv_head_size hp \<noteq> 0 then Inr (hp_n_embd hp * hp_wkv_head_size hp)
     else if hp_n_embd_head_kda hp \<noteq> 0 then
       bind_res (n_head hp 0) (\<lambda>nh. Inr (hp_n_embd_head_kda hp * hp_n_embd_head_kda hp * nh))
     else Inr (hp_ssm_d_state hp * hp_ssm_d_inner hp))"

definition is_recurrent :: "llama_hparams \<Rightarrow> nat \<Rightarrow> bool res" where
  "is_recurrent hp il = (if il < hp_n_layer hp then Inr (hp_recurrent_layer_arr hp ! il)
     else Inl (Ggml_abort ''is_recurrent: il out of bounds''))"

definition n_pos_per_embd :: "llama_hparams \<Rightarrow> nat" where
  "n_pos_per_embd hp =
     (if hp_rope_type hp = LLAMA_ROPE_TYPE_MROPE \<or> hp_rope_type hp = LLAMA_ROPE_TYPE_IMROPE
      then 4 else 1)"

definition is_swa :: "llama_hparams \<Rightarrow> nat \<Rightarrow> bool res" where
  "is_swa hp il = (if il < hp_n_layer hp then Inr (hp_swa_layers hp ! il)
     else Inl (Ggml_abort ''fatal error''))"

definition is_mla :: "llama_hparams \<Rightarrow> bool" where
  "is_mla hp \<longleftrightarrow> hp_n_embd_head_k_mla_impl hp \<noteq> 0 \<and> hp_n_embd_head_v_mla_impl hp \<noteq> 0"

definition n_embd_head_k_mla :: "llama_hparams \<Rightarrow> u32" where
  "n_embd_head_k_mla hp = (if is_mla hp then hp_n_embd_head_k_mla_impl hp else hp_n_embd_head_k hp)"

definition n_embd_head_v_mla :: "llama_hparams \<Rightarrow> u32" where
  "n_embd_head_v_mla hp = (if is_mla hp then hp_n_embd_head_v_mla_impl hp else hp_n_embd_head_v hp)"

definition has_kv :: "llama_hparams \<Rightarrow> nat \<Rightarrow> bool" where
  "has_kv hp il =
     (if hp_n_layer_kv_from_start hp \<ge> 0
      then (if il < nat (hp_n_layer_kv_from_start hp) then True else False)
      else True)"

definition n_layer_kv :: "llama_hparams \<Rightarrow> nat" where
  "n_layer_kv hp = fold (\<lambda>il r. if has_kv hp il then r + 1 else r) [0..<hp_n_layer hp] 0"

definition use_mrope :: "llama_hparams \<Rightarrow> bool" where
  "use_mrope hp \<longleftrightarrow> hp_rope_sections hp ! 0 > 0 \<and> hp_rope_sections hp ! 1 > 0"

section \<open>The sliding-window mask\<close>

text \<open>
  \<open>p0\<close> is the position of the cell, \<open>p1\<close> that of the token; both are non-negative (the
  function's \<open>assert\<close>), so the unsigned division of the chunked case is division of naturals.
\<close>

definition is_masked_swa :: "nat \<Rightarrow> llama_swa_type \<Rightarrow> llama_pos \<Rightarrow> llama_pos \<Rightarrow> bool" where
  "is_masked_swa n_swa swa_type p0 p1 =
    (case swa_type of
       LLAMA_SWA_TYPE_NONE \<Rightarrow> False
     | LLAMA_SWA_TYPE_STANDARD \<Rightarrow> p1 - p0 \<ge> int n_swa
     | LLAMA_SWA_TYPE_CHUNKED \<Rightarrow>
         (let pos_chunk_start = (p1 div int n_swa) * int n_swa in p0 < pos_chunk_start)
     | LLAMA_SWA_TYPE_SYMMETRIC \<Rightarrow>
         (let half_n_swa = int n_swa div 2; pos_diff = p1 - p0
          in pos_diff < - half_n_swa \<or> pos_diff > half_n_swa))"

section \<open>Lemmas\<close>

lemma max_over_spec:
  assumes "\<And>il. il \<in> set ils \<Longrightarrow> f il = Inr (g il)"
  shows "max_over f val ils = Inr (fold (\<lambda>il v. max v (g il)) ils val)"
  using assms by (induction ils arbitrary: val) auto

lemma fold_max_ge: "(v :: 'a :: linorder) \<le> fold (\<lambda>il v. max v (g il)) ils v"
proof (induction ils arbitrary: v)
  case (Cons i ils)
  have "v \<le> max v (g i)" by simp
  also have "\<dots> \<le> fold (\<lambda>il v. max v (g il)) ils (max v (g i))" by (rule Cons.IH)
  finally show ?case by simp
qed simp

lemma fold_max_mem:
  "il \<in> set ils \<Longrightarrow> (g il :: 'a :: linorder) \<le> fold (\<lambda>il v. max v (g il)) ils v"
proof (induction ils arbitrary: v)
  case (Cons i ils)
  show ?case
  proof (cases "il = i")
    case True
    have "g i \<le> max v (g i)" by simp
    also have "\<dots> \<le> fold (\<lambda>il v. max v (g il)) ils (max v (g i))" by (rule fold_max_ge)
    finally show ?thesis using True by simp
  qed (use Cons in simp)
qed simp

lemma fold_max_attained:
  "fold (\<lambda>il v. max v (g il)) ils (v :: 'a :: linorder) \<in> insert v (g ` set ils)"
proof (induction ils arbitrary: v)
  case (Cons i ils)
  have "fold (\<lambda>il v. max v (g il)) (i # ils) v \<in> insert (max v (g i)) (g ` set ils)"
    using Cons.IH by simp
  then show ?case by (auto simp: max_def split: if_splits)
qed simp

lemma n_embd_v_gqa_in:
  "il < hp_n_layer hp \<Longrightarrow>
   n_embd_v_gqa hp il = Inr (hp_n_embd_head_v hp * hp_n_head_kv_arr hp ! il)"
  by (simp add: n_embd_v_gqa_def n_head_kv_def)

lemma swa_layers_fold:
  "fold (\<lambda>il hp. hp\<lparr>hp_swa_layers := (hp_swa_layers hp)[il := P il]\<rparr>) [0..<n] hp =
   hp\<lparr>hp_swa_layers := map (\<lambda>il. if il < n then P il else hp_swa_layers hp ! il)
        [0..<length (hp_swa_layers hp)]\<rparr>"
proof (induction n)
  case 0
  then show ?case by (simp add: map_nth)
next
  case (Suc n)
  have "(map (\<lambda>il. if il < n then P il else hp_swa_layers hp ! il)
          [0..<length (hp_swa_layers hp)])[n := P n] =
      map (\<lambda>il. if il < Suc n then P il else hp_swa_layers hp ! il) [0..<length (hp_swa_layers hp)]"
    by (intro nth_equalityI) (simp_all add: nth_list_update less_Suc_eq)
  with Suc.IH show ?case by simp
qed

lemma n_layer_kv_eq:
  "n_layer_kv hp = length (filter (has_kv hp) [0..<hp_n_layer hp])"
proof -
  have "fold (\<lambda>il r. if P il then r + 1 else r) xs k = k + length (filter P xs)" for P k
    and xs :: "nat list"
    by (induction xs arbitrary: k) auto
  then show ?thesis by (simp add: n_layer_kv_def)
qed

text \<open>A cell more than a window (and 32) behind every token of a batch is masked for all of them.\<close>

lemma is_masked_swa_far:
  assumes "swa_type \<noteq> LLAMA_SWA_TYPE_NONE" and "0 \<le> p0" and "p0 + int n_swa + 32 < p1"
    and "swa_type = LLAMA_SWA_TYPE_CHUNKED \<Longrightarrow> 0 < n_swa"
  shows "is_masked_swa n_swa swa_type p0 p1"
proof (cases swa_type)
  case LLAMA_SWA_TYPE_CHUNKED
  then have n: "0 < int n_swa" using assms(4) by simp
  have "p1 = p1 div int n_swa * int n_swa + p1 mod int n_swa" by simp
  moreover have "p1 mod int n_swa < int n_swa" using n by simp
  ultimately have "p0 < p1 div int n_swa * int n_swa" using assms(3) by linarith
  then show ?thesis using LLAMA_SWA_TYPE_CHUNKED by (simp add: is_masked_swa_def Let_def)
qed (use assms in \<open>auto simp: is_masked_swa_def Let_def\<close>)

section \<open>A small model\<close>

text \<open>Two layers, one head of size 2 each: for the evaluations of the caches.\<close>

definition demo_hp :: llama_hparams where
  "demo_hp = \<lparr>hp_n_embd = 2, hp_n_layer = 2, hp_n_layer_kv_from_start = -1, hp_n_embd_head_k = 2,
     hp_n_embd_head_v = 2, hp_n_embd_head_k_mla_impl = 0, hp_n_embd_head_v_mla_impl = 0,
     hp_n_shortconv_l_cache = 0, hp_n_head_arr = [1, 1], hp_n_head_kv_arr = [1, 1], hp_n_ff_arr = [4, 4],
     hp_wkv_head_size = 0, hp_token_shift_count = 0, hp_rope_sections = [0, 0, 0, 0],
     hp_swa_layers = [False, True], hp_ssm_d_conv = 0, hp_ssm_d_inner = 0, hp_ssm_d_state = 0,
     hp_ssm_n_group = 0, hp_n_embd_head_kda = 0, hp_recurrent_layer_arr = [False, False],
     hp_use_alibi = False, hp_n_embd_out_impl = 0, hp_n_deepstack_layers = 0, hp_n_rel_attn_bkts = 0,
     hp_rope_type = LLAMA_ROPE_TYPE_NORM\<rparr>"

end
