(* ===== verification/Memory.thy ===== *)
theory Memory
  imports Prelude
begin

text \<open>
  The memory interface (\<open>src/llama-memory.h\<close>, \<open>src/llama-memory.cpp\<close>): the status values and
  how two of them combine, and the contract \<open>memory_i\<close> of the sequence operations, as a locale.
  The contract speaks about the positions a memory holds of each sequence; the KV cache and the
  pair of caches with a sliding window provide it. The locale's lemmas are what the server relies
  on when it truncates, forks and shifts a sequence.
\<close>

section \<open>Status\<close>

datatype llama_memory_status =
    LLAMA_MEMORY_STATUS_SUCCESS
  | LLAMA_MEMORY_STATUS_NO_UPDATE
  | LLAMA_MEMORY_STATUS_FAILED_PREPARE
  | LLAMA_MEMORY_STATUS_FAILED_COMPUTE

definition llama_memory_status_combine ::
    "llama_memory_status \<Rightarrow> llama_memory_status \<Rightarrow> llama_memory_status" where
  "llama_memory_status_combine s0 s1 =
    (case s0 of
       LLAMA_MEMORY_STATUS_FAILED_PREPARE \<Rightarrow> s0
     | LLAMA_MEMORY_STATUS_FAILED_COMPUTE \<Rightarrow> s0
     | _ \<Rightarrow>
       (case s1 of
          LLAMA_MEMORY_STATUS_FAILED_PREPARE \<Rightarrow> s1
        | LLAMA_MEMORY_STATUS_FAILED_COMPUTE \<Rightarrow> s1
        | _ \<Rightarrow> (if s0 = LLAMA_MEMORY_STATUS_SUCCESS \<or> s1 = LLAMA_MEMORY_STATUS_SUCCESS
               then LLAMA_MEMORY_STATUS_SUCCESS else LLAMA_MEMORY_STATUS_NO_UPDATE)))"

definition llama_memory_status_is_fail :: "llama_memory_status \<Rightarrow> bool" where
  "llama_memory_status_is_fail s =
    (case s of
       LLAMA_MEMORY_STATUS_SUCCESS \<Rightarrow> False
     | LLAMA_MEMORY_STATUS_NO_UPDATE \<Rightarrow> False
     | LLAMA_MEMORY_STATUS_FAILED_PREPARE \<Rightarrow> True
     | LLAMA_MEMORY_STATUS_FAILED_COMPUTE \<Rightarrow> True)"

lemma status_combine_fail:
  "llama_memory_status_is_fail (llama_memory_status_combine s0 s1) \<longleftrightarrow>
     llama_memory_status_is_fail s0 \<or> llama_memory_status_is_fail s1"
  by (simp add: llama_memory_status_is_fail_def llama_memory_status_combine_def
      split: llama_memory_status.splits)

section \<open>Ranges of positions\<close>

text \<open>The bounds of a range: a negative start is 0, a negative end is the largest position.\<close>

definition range_lo :: "llama_pos \<Rightarrow> llama_pos" where
  "range_lo p0 = (if p0 < 0 then 0 else p0)"

definition range_hi :: "llama_pos \<Rightarrow> llama_pos" where
  "range_hi p1 = (if p1 < 0 then INT32_MAX else p1)"

definition rng :: "llama_pos \<Rightarrow> llama_pos \<Rightarrow> llama_pos set" where
  "rng p0 p1 = {range_lo p0..<range_hi p1}"

section \<open>The contract of the sequence operations\<close>

text \<open>
  \<open>held m s\<close> are the positions of sequence \<open>s\<close> that the queries see; \<open>ok m s\<close> are the ids the
  memory accepts; \<open>absent m s\<close> says that no cell belongs to \<open>s\<close> (what the target of a copy has
  to satisfy); \<open>shiftable\<close> that the model has one position per token.
\<close>

definition ends_of :: "llama_pos set \<Rightarrow> (llama_pos set \<Rightarrow> llama_pos) \<Rightarrow> llama_pos" where
  "ends_of P f = (if P = {} then -1 else f P)"

locale memory_i =
  fixes inv :: "'m \<Rightarrow> bool"
    and ok :: "'m \<Rightarrow> llama_seq_id \<Rightarrow> bool"
    and held :: "'m \<Rightarrow> nat \<Rightarrow> llama_pos set"
    and absent :: "'m \<Rightarrow> nat \<Rightarrow> bool"
    and shiftable :: "'m \<Rightarrow> bool"
    and clear :: "bool \<Rightarrow> 'm \<Rightarrow> 'm"
    and seq_rm :: "llama_seq_id \<Rightarrow> llama_pos \<Rightarrow> llama_pos \<Rightarrow> 'm \<Rightarrow> (bool \<times> 'm) res"
    and seq_cp :: "llama_seq_id \<Rightarrow> llama_seq_id \<Rightarrow> llama_pos \<Rightarrow> llama_pos \<Rightarrow> 'm \<Rightarrow> 'm res"
    and seq_keep :: "llama_seq_id \<Rightarrow> 'm \<Rightarrow> 'm res"
    and seq_add :: "llama_seq_id \<Rightarrow> llama_pos \<Rightarrow> llama_pos \<Rightarrow> llama_pos \<Rightarrow> 'm \<Rightarrow> 'm res"
    and seq_pos_min :: "llama_seq_id \<Rightarrow> 'm \<Rightarrow> llama_pos res"
    and seq_pos_max :: "llama_seq_id \<Rightarrow> 'm \<Rightarrow> llama_pos res"
  assumes held_finite: "inv m \<Longrightarrow> ok m s \<Longrightarrow> finite (held m (nat s))"
    and held_nonneg: "inv m \<Longrightarrow> ok m s \<Longrightarrow> p \<in> held m (nat s) \<Longrightarrow> 0 \<le> p"
    and ok_nonneg: "ok m s \<Longrightarrow> 0 \<le> s"
    and min_law: "inv m \<Longrightarrow> ok m s \<Longrightarrow> seq_pos_min s m = Inr (ends_of (held m (nat s)) Min)"
    and max_law: "inv m \<Longrightarrow> ok m s \<Longrightarrow> seq_pos_max s m = Inr (ends_of (held m (nat s)) Max)"
    and clear_law: "inv m \<Longrightarrow> inv (clear dat m) \<and> ok (clear dat m) = ok m \<and>
      shiftable (clear dat m) = shiftable m \<and>
      (\<forall>s. ok m s \<longrightarrow> held (clear dat m) (nat s) = {} \<and> absent (clear dat m) (nat s))"
    and rm_law: "inv m \<Longrightarrow> ok m s \<Longrightarrow> \<exists>m'. seq_rm s p0 p1 m = Inr (True, m') \<and> inv m' \<and> ok m' = ok m \<and>
      shiftable m' = shiftable m \<and>
      (\<forall>t. ok m t \<longrightarrow> held m' (nat t) = (if t = s then held m (nat t) - rng p0 p1 else held m (nat t)))"
    and keep_law: "inv m \<Longrightarrow> ok m s \<Longrightarrow> \<exists>m'. seq_keep s m = Inr m' \<and> inv m' \<and> ok m' = ok m \<and>
      shiftable m' = shiftable m \<and> held m' (nat s) = held m (nat s) \<and>
      (\<forall>t. ok m t \<longrightarrow> held m' (nat t) = held m (nat t) \<or> held m' (nat t) = {})"
    and cp_law: "inv m \<Longrightarrow> ok m src \<Longrightarrow> ok m dst \<Longrightarrow> src \<noteq> dst \<Longrightarrow> absent m (nat dst) \<Longrightarrow>
      held m (nat src) \<subseteq> {..<INT32_MAX} \<Longrightarrow>
      \<exists>m'. seq_cp src dst (-1) (-1) m = Inr m' \<and> inv m' \<and> ok m' = ok m \<and> shiftable m' = shiftable m \<and>
        (\<forall>t. ok m t \<longrightarrow> held m' (nat t) = (if t = dst then held m (nat src) else held m (nat t)))"
    and add_law: "inv m \<Longrightarrow> ok m s \<Longrightarrow> shiftable m \<Longrightarrow>
      \<exists>m'. seq_add s p0 p1 d m = Inr m' \<and> inv m' \<and> ok m' = ok m \<and> shiftable m' = shiftable m \<and>
        held m' (nat s) = (held m (nat s) - rng p0 p1) \<union>
          {p + d | p. p \<in> held m (nat s) \<inter> rng p0 p1 \<and> 0 \<le> p + d}"
begin

text \<open>Dropping the tail of a sequence from a position on.\<close>

lemma truncate:
  assumes "inv m" "ok m s" "0 \<le> p" "held m (nat s) \<subseteq> {..<INT32_MAX}"
  shows "\<exists>m' q. seq_rm s p (-1) m = Inr (True, m') \<and> inv m' \<and> ok m' = ok m \<and>
    held m' (nat s) = {q \<in> held m (nat s). q < p} \<and> seq_pos_max s m' = Inr q \<and> q < p"
proof -
  obtain m' where m': "seq_rm s p (-1) m = Inr (True, m')" "inv m'" "ok m' = ok m"
    "held m' (nat s) = held m (nat s) - rng p (-1)"
    using rm_law [OF assms(1,2), of p "-1"] assms(2) by auto
  have h: "held m' (nat s) = {q \<in> held m (nat s). q < p}"
    using m'(4) assms(3,4) by (auto simp: rng_def range_lo_def range_hi_def)
  have "finite (held m' (nat s))" using held_finite m'(2,3) assms(2) by simp
  then have "ends_of (held m' (nat s)) Max < p"
    using h assms(3) by (auto simp: ends_of_def)
  then show ?thesis
    using m' h max_law [OF m'(2), of s] assms(2)
    by (intro exI [of _ m'] exI [of _ "ends_of (held m' (nat s)) Max"]) simp
qed

text \<open>Removing a sequence does not show in the queries of another one.\<close>

lemma rm_other:
  assumes "inv m" "ok m s" "ok m t" "t \<noteq> s" "seq_rm s p0 p1 m = Inr (b, m')"
  shows "seq_pos_min t m' = seq_pos_min t m" "seq_pos_max t m' = seq_pos_max t m"
  using rm_law [OF assms(1,2), of p0 p1] assms min_law max_law by auto

text \<open>A fork: the copy answers the queries as the original does.\<close>

lemma fork:
  assumes "inv m" "ok m src" "ok m dst" "src \<noteq> dst" "absent m (nat dst)" "held m (nat src) \<subseteq> {..<INT32_MAX}"
  shows "\<exists>m'. seq_cp src dst (-1) (-1) m = Inr m' \<and> inv m' \<and>
    seq_pos_min dst m' = seq_pos_min src m \<and> seq_pos_max dst m' = seq_pos_max src m \<and>
    seq_pos_min src m' = seq_pos_min src m \<and> seq_pos_max src m' = seq_pos_max src m"
proof -
  obtain m' where m': "seq_cp src dst (-1) (-1) m = Inr m'" "inv m'" "ok m' = ok m"
    "\<forall>t. ok m t \<longrightarrow> held m' (nat t) = (if t = dst then held m (nat src) else held m (nat t))"
    using cp_law [OF assms] by blast
  then show ?thesis using assms min_law max_law by (intro exI [of _ m']) auto
qed

text \<open>
  A context shift of a sequence that holds \<open>0..<n\<close>: the block behind the kept prefix is removed
  and the rest moves down, so that the positions are again an interval from 0.
\<close>

lemma shift_down:
  assumes m: "inv m" "ok m s" "shiftable m" and h: "held m (nat s) = {0..<n}"
    and k: "0 \<le> k" "0 \<le> d" "k + d \<le> n"
  shows "\<exists>m1 m2. seq_rm s k (k + d) m = Inr (True, m1) \<and> seq_add s (k + d) n (-d) m1 = Inr m2 \<and>
    inv m2 \<and> ok m2 = ok m \<and> held m2 (nat s) = {0..<n - d} \<and>
    seq_pos_max s m2 = Inr (if n - d = 0 then -1 else n - d - 1)"
proof -
  obtain m1 where m1: "seq_rm s k (k + d) m = Inr (True, m1)" "inv m1" "ok m1 = ok m" "shiftable m1 = shiftable m"
    "held m1 (nat s) = held m (nat s) - rng k (k + d)"
    using rm_law [OF m(1,2), of k "k + d"] m(2) by auto
  have h1: "held m1 (nat s) = {0..<k} \<union> {k + d..<n}"
    using m1(5) h k by (auto simp: rng_def range_lo_def range_hi_def)
  obtain m2 where m2: "seq_add s (k + d) n (-d) m1 = Inr m2" "inv m2" "ok m2 = ok m1"
    "held m2 (nat s) = (held m1 (nat s) - rng (k + d) n) \<union>
       {p + - d | p. p \<in> held m1 (nat s) \<inter> rng (k + d) n \<and> 0 \<le> p + - d}"
    using add_law [of m1 s "k + d" n "-d"] m1 m by auto
  have r: "rng (k + d) n = {k + d..<n}" using k by (simp add: rng_def range_lo_def range_hi_def)
  have "held m1 (nat s) - rng (k + d) n = {0..<k}" using h1 r k by auto
  moreover have "{p + - d | p. p \<in> held m1 (nat s) \<inter> rng (k + d) n \<and> 0 \<le> p + - d} = {k..<n - d}"
  proof (rule set_eqI)
    fix q
    have "q \<in> {k..<n - d} \<Longrightarrow> q + d \<in> held m1 (nat s) \<inter> rng (k + d) n \<and> 0 \<le> q + d + - d"
      using h1 r k by auto
    then have "q \<in> {k..<n - d} \<Longrightarrow>
        q \<in> {p + - d | p. p \<in> held m1 (nat s) \<inter> rng (k + d) n \<and> 0 \<le> p + - d}" by force
    then show "q \<in> {p + - d | p. p \<in> held m1 (nat s) \<inter> rng (k + d) n \<and> 0 \<le> p + - d} \<longleftrightarrow> q \<in> {k..<n - d}"
      using r by auto
  qed
  ultimately have h2: "held m2 (nat s) = {0..<n - d}" using m2(4) k by auto
  have "ends_of {0..<n - d} Max = (if n - d = 0 then -1 else n - d - 1)"
  proof (cases "n - d = 0")
    case False
    then have "Max {0..<n - d} = n - d - 1" using k by (intro Max_eqI) auto
    then show ?thesis using False k by (auto simp: ends_of_def)
  qed (simp add: ends_of_def)
  then show ?thesis
    using m1 m2 h2 m max_law [OF m2(2), of s] by (intro exI [of _ m1] exI [of _ m2]) simp
qed

end

end
