(* ===== verification/KvCache.thy ===== *)
theory KvCache
  imports KvCells Hparams Memory
begin

text \<open>
  The KV cache, first part (\<open>src/llama-kv-cache.h\<close>, \<open>src/llama-kv-cache.cpp\<close>): its state, the
  constructor, the sequence operations of the memory interface and the getters. A cache has one
  table of cells per stream, a search head per stream, the map from sequences to streams and the
  queue of pending stream copies.

  What the tensors of a stream hold is a value of the type variable \<open>'d\<close>; it is only copied and
  cleared (to \<open>0\<close>). Backend contexts, buffer types and allocation are not modelled: a cache is
  what the constructor leaves when every allocation succeeds.
\<close>

section \<open>State\<close>

text \<open>A layer: its index in the model and the row sizes of its tensors; no V tensor under MLA.\<close>

record kv_layer =
  kl_il :: nat
  kl_n_embd_k :: u32
  kl_n_embd_v :: "u32 option"

record 'd kv_cache =
  kv_hparams :: llama_hparams
  kv_can_shift :: bool
  kv_v_trans :: bool
  kv_n_seq_max :: nat
  kv_n_stream :: nat
  kv_n_pad :: nat
  kv_n_swa :: nat
  kv_swa_type :: llama_swa_type
  kv_buf :: "'d list"
  kv_heads :: "nat list"
  kv_cells :: "llama_kv_cells list"
  kv_seq_to_stream :: "nat list"
  kv_ssrc :: "nat list"
  kv_sdst :: "nat list"
  kv_layers :: "kv_layer list"
  kv_map_layer_ids :: "nat \<rightharpoonup> nat"

section \<open>Construction\<close>

text \<open>The layers the cache stores: those with KV that the filter accepts.\<close>

fun kv_add_layers ::
    "llama_hparams \<Rightarrow> bool \<Rightarrow> (nat \<Rightarrow> bool) option \<Rightarrow> nat list \<Rightarrow>
     kv_layer list \<times> (nat \<rightharpoonup> nat) \<Rightarrow> (kv_layer list \<times> (nat \<rightharpoonup> nat)) res" where
  "kv_add_layers hp v_trans filt [] st = Inr st"
| "kv_add_layers hp v_trans filt (il # ils) (ls, ids) =
    (if \<not> has_kv hp il then kv_add_layers hp v_trans filt ils (ls, ids)
     else if (case filt of None \<Rightarrow> False | Some f \<Rightarrow> \<not> f il) then kv_add_layers hp v_trans filt ils (ls, ids)
     else bind_res (n_embd_k_gqa hp il) (\<lambda>nk.
          bind_res (if \<not> v_trans then n_embd_v_gqa hp il else n_embd_v_gqa_max hp) (\<lambda>nv.
            let l = \<lparr>kl_il = il, kl_n_embd_k = nk, kl_n_embd_v = (if \<not> is_mla hp then Some nv else None)\<rparr>
            in kv_add_layers hp v_trans filt ils (ls @ [l], ids(il \<mapsto> length ls)))))"

text \<open>Layers that use the cells of another layer.\<close>

fun kv_reuse_layers ::
    "(nat \<Rightarrow> bool) option \<Rightarrow> (nat \<Rightarrow> int) \<Rightarrow> nat list \<Rightarrow> (nat \<rightharpoonup> nat) \<Rightarrow> (nat \<rightharpoonup> nat) res" where
  "kv_reuse_layers filt reuse [] ids = Inr ids"
| "kv_reuse_layers filt reuse (il # ils) ids =
    (if reuse il < 0 then kv_reuse_layers filt reuse ils ids
     else if (case filt of None \<Rightarrow> False | Some f \<Rightarrow> \<not> f il) then kv_reuse_layers filt reuse ils ids
     else case ids (nat (reuse il)) of
            None \<Rightarrow> Inl (Ggml_assert ''map_layer_ids.find(il_reuse) != map_layer_ids.end()'')
          | Some j \<Rightarrow> kv_reuse_layers filt reuse ils (ids(il \<mapsto> j)))"

definition kv_seq_map :: "nat \<Rightarrow> nat list" where
  "kv_seq_map n_stream =
    (let m = vec_resize LLAMA_MAX_SEQ 0 []
     in if n_stream > 1
        then fold (\<lambda>s m. m[s := s]) [0..<n_stream] (vec_resize n_stream 0 m)
        else m)"

definition kv_cache_new ::
    "llama_hparams \<Rightarrow> bool \<Rightarrow> bool \<Rightarrow> bool \<Rightarrow> nat \<Rightarrow> nat \<Rightarrow> nat \<Rightarrow> nat \<Rightarrow> llama_swa_type \<Rightarrow>
     (nat \<Rightarrow> bool) option \<Rightarrow> (nat \<Rightarrow> int) option \<Rightarrow> ('d :: zero) kv_cache res" where
  "kv_cache_new hp can_shift v_trans unified kv_size n_seq_max n_pad n_swa swa_type filt reuse =
    (let n_stream = (if unified then 1 else n_seq_max)
     in if kv_size mod n_pad \<noteq> 0 then Inl (Ggml_assert ''kv_size % n_pad == 0'')
        else if \<not> (n_stream = 1 \<or> n_stream = n_seq_max)
        then Inl (Ggml_assert ''n_stream == 1 || n_stream == n_seq_max'')
        else
          bind_res (kv_add_layers hp v_trans filt [0..<hp_n_layer hp] ([], Map.empty)) (\<lambda>(ls, ids).
          bind_res (case reuse of None \<Rightarrow> Inr ids
                    | Some r \<Rightarrow> kv_reuse_layers filt r [0..<hp_n_layer hp] ids) (\<lambda>ids'.
            Inr \<lparr>kv_hparams = hp, kv_can_shift = can_shift, kv_v_trans = v_trans,
                 kv_n_seq_max = n_seq_max, kv_n_stream = n_stream, kv_n_pad = n_pad,
                 kv_n_swa = n_swa, kv_swa_type = swa_type, kv_buf = replicate n_stream 0,
                 kv_heads = replicate n_stream 0,
                 kv_cells = replicate n_stream (cells_resize kv_size cells_new),
                 kv_seq_to_stream = kv_seq_map n_stream, kv_ssrc = [], kv_sdst = [],
                 kv_layers = ls, kv_map_layer_ids = ids'\<rparr>)))"

section \<open>Getters\<close>

definition kv_get_can_shift :: "'d kv_cache \<Rightarrow> bool" where
  "kv_get_can_shift kv = kv_can_shift kv"

definition kv_get_size :: "'d kv_cache \<Rightarrow> nat" where
  "kv_get_size kv = cells_size (kv_cells kv ! (kv_seq_to_stream kv ! 0))"

definition kv_get_n_stream :: "'d kv_cache \<Rightarrow> nat" where
  "kv_get_n_stream kv = kv_n_stream kv"

definition kv_get_has_shift :: "'d kv_cache \<Rightarrow> bool" where
  "kv_get_has_shift kv =
     fold (\<lambda>s r. r \<or> cells_get_has_shift (kv_cells kv ! s)) [0..<kv_n_stream kv] False"

section \<open>The passes over the cells\<close>

text \<open>A pass returns the table and whether it freed its cell.\<close>

definition seq_rm_pass :: "nat \<Rightarrow> llama_pos \<Rightarrow> llama_pos \<Rightarrow> nat \<Rightarrow> llama_kv_cells \<Rightarrow> llama_kv_cells \<times> bool" where
  "seq_rm_pass s p0 p1 i c =
    (if \<not> cells_pos_in c i p0 p1 then (c, False)
     else if cells_seq_has c i s then cells_seq_rm i s c else (c, False))"

definition rm_pass :: "llama_pos \<Rightarrow> llama_pos \<Rightarrow> nat \<Rightarrow> llama_kv_cells \<Rightarrow> llama_kv_cells \<times> bool" where
  "rm_pass p0 p1 i c = (if \<not> cells_pos_in c i p0 p1 then (c, False) else (cells_rm i c, True))"

definition seq_cp_pass ::
    "nat \<Rightarrow> nat \<Rightarrow> llama_pos \<Rightarrow> llama_pos \<Rightarrow> nat \<Rightarrow> llama_kv_cells \<Rightarrow> llama_kv_cells \<times> bool" where
  "seq_cp_pass src dst p0 p1 i c =
    (if \<not> cells_pos_in c i p0 p1 then (c, False)
     else if cells_seq_has c i src then (cells_seq_add i dst c, False) else (c, False))"

definition seq_keep_pass :: "nat \<Rightarrow> nat \<Rightarrow> llama_kv_cells \<Rightarrow> llama_kv_cells \<times> bool" where
  "seq_keep_pass s i c = cells_seq_keep i s c"

definition seq_add_pass ::
    "nat \<Rightarrow> llama_pos \<Rightarrow> llama_pos \<Rightarrow> llama_pos \<Rightarrow> nat \<Rightarrow> llama_kv_cells \<Rightarrow> llama_kv_cells \<times> bool" where
  "seq_add_pass s p0 p1 shift i c =
    (if \<not> cells_pos_in c i p0 p1 then (c, False)
     else if cells_seq_has c i s then cells_pos_add i shift c else (c, False))"

definition seq_div_pass ::
    "nat \<Rightarrow> llama_pos \<Rightarrow> llama_pos \<Rightarrow> int \<Rightarrow> nat \<Rightarrow> llama_kv_cells \<Rightarrow> llama_kv_cells \<times> bool" where
  "seq_div_pass s p0 p1 d i c =
    (if \<not> cells_pos_in c i p0 p1 then (c, False)
     else if cells_seq_has c i s then (cells_pos_div i d c, False) else (c, False))"

text \<open>
  A cell of another stream copied into a cleared table: the position before the pending shift
  first, then the shift on top.
\<close>

definition stream_cp_pass :: "llama_kv_cells \<Rightarrow> nat \<Rightarrow> nat \<Rightarrow> nat \<Rightarrow> llama_kv_cells \<Rightarrow> llama_kv_cells" where
  "stream_cp_pass c0 src dst i c =
    (if cells_seq_has c0 i src then
       let pos = cells_pos_get c0 i;
           shift = cells_get_shift c0 i;
           ext = cells_ext_get c0 i;
           pos' = (if shift \<noteq> 0 then pos - shift else pos);
           c1 = cells_pos_set i pos' c;
           c2 = cells_seq_add i dst c1;
           c3 = (if shift \<noteq> 0 then fst (cells_pos_add i shift c2) else c2)
       in cells_ext_set i ext c3
     else c)"

section \<open>Sequence operations\<close>

definition kv_clear :: "bool \<Rightarrow> ('d :: zero) kv_cache \<Rightarrow> 'd kv_cache" where
  "kv_clear data kv =
    (let kv1 = fold (\<lambda>s kv. kv\<lparr>kv_cells := (kv_cells kv)[s := cells_reset (kv_cells kv ! s)],
                              kv_heads := (kv_heads kv)[s := 0]\<rparr>) [0..<kv_n_stream kv] kv
     in if data then kv1\<lparr>kv_buf := map (\<lambda>_. 0) (kv_buf kv1)\<rparr> else kv1)"

text \<open>The guard every operation starts with.\<close>

definition seq_id_ok :: "'d kv_cache \<Rightarrow> llama_seq_id \<Rightarrow> bool" where
  "seq_id_ok kv seq_id \<longleftrightarrow> seq_id \<ge> 0 \<and> nat seq_id < length (kv_seq_to_stream kv)"

definition kv_stream_of :: "'d kv_cache \<Rightarrow> llama_seq_id \<Rightarrow> nat" where
  "kv_stream_of kv seq_id = kv_seq_to_stream kv ! nat seq_id"

text \<open>Run a pass over the cells of a stream and move the head back to the first freed cell.\<close>

definition kv_free_loop ::
    "(nat \<Rightarrow> llama_kv_cells \<Rightarrow> llama_kv_cells \<times> bool) \<Rightarrow> nat \<Rightarrow> 'd kv_cache \<Rightarrow> 'd kv_cache" where
  "kv_free_loop pass st kv =
    (case cells_loop pass (kv_cells kv ! st) of (c, new_head) \<Rightarrow>
       kv\<lparr>kv_cells := (kv_cells kv)[st := c],
          kv_heads := (if new_head \<noteq> cells_size c \<and> new_head < kv_heads kv ! st
                       then (kv_heads kv)[st := new_head] else kv_heads kv)\<rparr>)"

definition kv_seq_rm ::
    "llama_seq_id \<Rightarrow> llama_pos \<Rightarrow> llama_pos \<Rightarrow> 'd kv_cache \<Rightarrow> (bool \<times> 'd kv_cache) res" where
  "kv_seq_rm seq_id p0 p1 kv =
    (if \<not> (seq_id = -1 \<or> seq_id_ok kv seq_id)
     then Inl (Ggml_assert ''seq_id == -1 || (seq_id >= 0 && (size_t) seq_id < seq_to_stream.size())'')
     else if seq_id \<ge> 0
     then Inr (True, kv_free_loop (seq_rm_pass (nat seq_id) (range_lo p0) (range_hi p1)) (kv_stream_of kv seq_id) kv)
     else Inr (True, fold (kv_free_loop (rm_pass (range_lo p0) (range_hi p1))) [0..<kv_n_stream kv] kv))"

definition kv_seq_cp ::
    "llama_seq_id \<Rightarrow> llama_seq_id \<Rightarrow> llama_pos \<Rightarrow> llama_pos \<Rightarrow> 'd kv_cache \<Rightarrow> 'd kv_cache res" where
  "kv_seq_cp src dst p0 p1 kv =
    (if \<not> seq_id_ok kv src then Inl (Ggml_assert ''seq_id_src'')
     else if \<not> seq_id_ok kv dst then Inl (Ggml_assert ''seq_id_dst'')
     else
       let s0 = kv_stream_of kv src; s1 = kv_stream_of kv dst
       in if s0 = s1 then
            (if src = dst then Inr kv
             else Inr (kv\<lparr>kv_cells := (kv_cells kv)[s0 :=
                    fst (cells_loop (seq_cp_pass (nat src) (nat dst) (range_lo p0) (range_hi p1))
                          (kv_cells kv ! s0))]\<rparr>))
          else if (p0 > 0 \<and> p0 + 1 < int (kv_get_size kv)) \<or> (p1 > 0 \<and> p1 + 1 < int (kv_get_size kv))
          then Inl (Ggml_assert ''seq_cp() is only supported for full KV buffers'')
          else
            let c0 = kv_cells kv ! s0;
                c1 = fold (stream_cp_pass c0 (nat src) (nat dst)) [0..<cells_size c0]
                       (cells_reset (kv_cells kv ! s1))
            in Inr (kv\<lparr>kv_ssrc := kv_ssrc kv @ [s0], kv_sdst := kv_sdst kv @ [s1],
                       kv_cells := (kv_cells kv)[s1 := c1],
                       kv_heads := (kv_heads kv)[s1 := kv_heads kv ! s0]\<rparr>))"

definition kv_seq_keep :: "llama_seq_id \<Rightarrow> 'd kv_cache \<Rightarrow> 'd kv_cache res" where
  "kv_seq_keep seq_id kv =
    (if \<not> seq_id_ok kv seq_id then Inl (Ggml_assert ''seq_id'')
     else Inr (kv_free_loop (seq_keep_pass (nat seq_id)) (kv_stream_of kv seq_id) kv))"

definition kv_seq_add ::
    "llama_seq_id \<Rightarrow> llama_pos \<Rightarrow> llama_pos \<Rightarrow> llama_pos \<Rightarrow> 'd kv_cache \<Rightarrow> 'd kv_cache res" where
  "kv_seq_add seq_id p0 p1 shift kv =
    (if \<not> seq_id_ok kv seq_id then Inl (Ggml_assert ''seq_id'')
     else if n_pos_per_embd (kv_hparams kv) \<noteq> 1
     then Inl (Ggml_assert ''seq_add() is only supported for n_pos_per_embd() == 1'')
     else if shift = 0 then Inr kv
     else if range_lo p0 = range_hi p1 then Inr kv
     else
       let st = kv_stream_of kv seq_id
       in case cells_loop (seq_add_pass (nat seq_id) (range_lo p0) (range_hi p1) shift) (kv_cells kv ! st) of
            (c, new_head) \<Rightarrow>
              Inr (kv\<lparr>kv_cells := (kv_cells kv)[st := c],
                      kv_heads := (kv_heads kv)[st := (if new_head \<noteq> cells_size c then new_head else 0)]\<rparr>))"

definition kv_seq_div ::
    "llama_seq_id \<Rightarrow> llama_pos \<Rightarrow> llama_pos \<Rightarrow> int \<Rightarrow> 'd kv_cache \<Rightarrow> 'd kv_cache res" where
  "kv_seq_div seq_id p0 p1 d kv =
    (if \<not> seq_id_ok kv seq_id then Inl (Ggml_assert ''seq_id'')
     else if n_pos_per_embd (kv_hparams kv) \<noteq> 1
     then Inl (Ggml_assert ''seq_div() is only supported for n_pos_per_embd() == 1'')
     else if d = 1 then Inr kv
     else if range_lo p0 = range_hi p1 then Inr kv
     else
       let st = kv_stream_of kv seq_id
       in Inr (kv\<lparr>kv_cells := (kv_cells kv)[st :=
              fst (cells_loop (seq_div_pass (nat seq_id) (range_lo p0) (range_hi p1) d) (kv_cells kv ! st))]\<rparr>))"

definition kv_seq_pos_min :: "llama_seq_id \<Rightarrow> 'd kv_cache \<Rightarrow> llama_pos res" where
  "kv_seq_pos_min seq_id kv =
    (if \<not> seq_id_ok kv seq_id then Inl (Ggml_assert ''seq_id'')
     else Inr (cells_seq_pos_min (kv_cells kv ! kv_stream_of kv seq_id) (nat seq_id)))"

definition kv_seq_pos_max :: "llama_seq_id \<Rightarrow> 'd kv_cache \<Rightarrow> llama_pos res" where
  "kv_seq_pos_max seq_id kv =
    (if \<not> seq_id_ok kv seq_id then Inl (Ggml_assert ''seq_id'')
     else Inr (cells_seq_pos_max (kv_cells kv ! kv_stream_of kv seq_id) (nat seq_id)))"

section \<open>What a pass does to its cell\<close>

fun in_rng :: "llama_pos \<Rightarrow> llama_pos \<Rightarrow> nat \<Rightarrow> kv_cell \<Rightarrow> bool" where
  "in_rng p0 p1 s (p, e, sh, S) \<longleftrightarrow> p0 \<le> p \<and> p < p1 \<and> s \<in> S"

definition cell_empty :: kv_cell where
  "cell_empty = (-1, ext_reset, 0, {})"

fun upd_seq_rm :: "nat \<Rightarrow> llama_pos \<Rightarrow> llama_pos \<Rightarrow> kv_cell \<Rightarrow> kv_cell" where
  "upd_seq_rm s p0 p1 (p, e, sh, S) =
    (if in_rng p0 p1 s (p, e, sh, S) then (if S = {s} then cell_empty else (p, e, sh, S - {s}))
     else (p, e, sh, S))"

fun upd_rm :: "llama_pos \<Rightarrow> llama_pos \<Rightarrow> kv_cell \<Rightarrow> kv_cell" where
  "upd_rm p0 p1 (p, e, sh, S) = (if p0 \<le> p \<and> p < p1 then cell_empty else (p, e, sh, S))"

fun upd_seq_cp :: "nat \<Rightarrow> nat \<Rightarrow> llama_pos \<Rightarrow> llama_pos \<Rightarrow> kv_cell \<Rightarrow> kv_cell" where
  "upd_seq_cp src dst p0 p1 (p, e, sh, S) =
    (if in_rng p0 p1 src (p, e, sh, S) then (p, e, sh, insert dst S) else (p, e, sh, S))"

fun upd_seq_keep :: "nat \<Rightarrow> kv_cell \<Rightarrow> kv_cell" where
  "upd_seq_keep s (p, e, sh, S) =
    (if s \<in> S then (p, e, sh, {s}) else if S \<noteq> {} then cell_empty else (p, e, sh, S))"

text \<open>A cell moved below 0 is freed; unlike the other ways of freeing, its 2D position stays.\<close>

fun upd_seq_add :: "nat \<Rightarrow> llama_pos \<Rightarrow> llama_pos \<Rightarrow> llama_pos \<Rightarrow> kv_cell \<Rightarrow> kv_cell" where
  "upd_seq_add s p0 p1 d (p, e, sh, S) =
    (if in_rng p0 p1 s (p, e, sh, S)
     then (if p + d < 0 then (-1, e, 0, {}) else (p + d, e, sh + d, S)) else (p, e, sh, S))"

fun upd_seq_div :: "nat \<Rightarrow> llama_pos \<Rightarrow> llama_pos \<Rightarrow> int \<Rightarrow> kv_cell \<Rightarrow> kv_cell" where
  "upd_seq_div s p0 p1 d (p, e, sh, S) =
    (if in_rng p0 p1 s (p, e, sh, S) then (c_div p d, e, sh + (p - c_div p d), S) else (p, e, sh, S))"

lemma cell_step_refl: "cells_wf c \<Longrightarrow> cell_step c i (cell c i) c"
  by (simp add: cell_step_def)

lemma cell_step_refl':
  "cells_wf c \<Longrightarrow> cell_step c i (kc_pos c ! i, kc_ext c ! i, kc_shift c ! i, kc_seq c ! i) c"
  using cell_step_refl by (simp add: cell_def)

lemmas pass_simps = cells_pos_in_def cells_seq_has_def cell_def cell_empty_def cell_step_refl'

interpretation seq_rm: cellwise "seq_rm_pass s p0 p1" "\<lambda>x. True" "upd_seq_rm s p0 p1"
  "\<lambda>x. in_rng p0 p1 s x \<and> snd (snd (snd x)) = {s}" for s p0 p1
proof
  fix c i assume wf: "cells_wf c" "i < cells_size c"
  consider (hit) "p0 \<le> kc_pos c ! i" "kc_pos c ! i < p1" "s \<in> kc_seq c ! i"
    | (miss) "\<not> (p0 \<le> kc_pos c ! i \<and> kc_pos c ! i < p1 \<and> s \<in> kc_seq c ! i)" by blast
  then have "cell_step c i (upd_seq_rm s p0 p1 (cell c i)) (fst (seq_rm_pass s p0 p1 i c)) \<and>
    (snd (seq_rm_pass s p0 p1 i c) \<longleftrightarrow> in_rng p0 p1 s (cell c i) \<and> snd (snd (snd (cell c i))) = {s})"
  proof cases
    case hit
    then show ?thesis using cells_seq_rm_step [OF wf hit(3)]
      by (simp add: seq_rm_pass_def pass_simps split: if_splits)
  next
    case miss
    then have "seq_rm_pass s p0 p1 i c = (c, False)"
      by (auto simp: seq_rm_pass_def cells_pos_in_def cells_seq_has_def)
    moreover have "\<not> in_rng p0 p1 s (cell c i)" "upd_seq_rm s p0 p1 (cell c i) = cell c i"
      using miss by (auto simp: cell_def)
    ultimately show ?thesis using cell_step_refl [OF wf(1)] by simp
  qed
  then show "cell_step c i (upd_seq_rm s p0 p1 (cell c i)) (fst (seq_rm_pass s p0 p1 i c))"
    "snd (seq_rm_pass s p0 p1 i c) \<longleftrightarrow> in_rng p0 p1 s (cell c i) \<and> snd (snd (snd (cell c i))) = {s}"
    by blast+
qed

interpretation rm_any: cellwise "rm_pass p0 p1" "\<lambda>x. True" "upd_rm p0 p1"
  "\<lambda>x. p0 \<le> fst x \<and> fst x < p1" for p0 p1
proof
  fix c i assume "cells_wf c" "i < cells_size c"
  then show "cell_step c i (upd_rm p0 p1 (cell c i)) (fst (rm_pass p0 p1 i c))"
    "snd (rm_pass p0 p1 i c) \<longleftrightarrow> p0 \<le> fst (cell c i) \<and> fst (cell c i) < p1"
    using cells_rm_step [of c i] by (auto simp: rm_pass_def pass_simps)
qed

text \<open>
  The copy within a stream needs the target sequence absent from the copied cells: the C++
  \<open>assert\<close> of \<open>seq_add\<close>, which a release build does not check.
\<close>

interpretation seq_cp: cellwise "seq_cp_pass src dst p0 p1"
  "\<lambda>x. in_rng p0 p1 src x \<longrightarrow> dst \<notin> snd (snd (snd x)) \<and> dst < LLAMA_MAX_SEQ"
  "upd_seq_cp src dst p0 p1" "\<lambda>x. False" for src dst p0 p1
proof
  fix c i assume wf: "cells_wf c" and i: "i < cells_size c"
    and pre: "in_rng p0 p1 src (cell c i) \<longrightarrow> dst \<notin> snd (snd (snd (cell c i))) \<and> dst < LLAMA_MAX_SEQ"
  have "kc_pos c ! i \<noteq> -1" if "src \<in> kc_seq c ! i"
    using cells_wf_empty_seq [OF wf i] that by auto
  with wf i pre show "cell_step c i (upd_seq_cp src dst p0 p1 (cell c i)) (fst (seq_cp_pass src dst p0 p1 i c))"
    using cells_seq_add_step [of c i dst] by (auto simp: seq_cp_pass_def pass_simps)
  show "snd (seq_cp_pass src dst p0 p1 i c) \<longleftrightarrow> False" by (simp add: seq_cp_pass_def)
qed

interpretation seq_keep: cellwise "seq_keep_pass s" "\<lambda>x. True" "upd_seq_keep s"
  "\<lambda>x. s \<notin> snd (snd (snd x)) \<and> snd (snd (snd x)) \<noteq> {}" for s
proof
  fix c i assume "cells_wf c" "i < cells_size c"
  then show "cell_step c i (upd_seq_keep s (cell c i)) (fst (seq_keep_pass s i c))"
    "snd (seq_keep_pass s i c) \<longleftrightarrow> s \<notin> snd (snd (snd (cell c i))) \<and> snd (snd (snd (cell c i))) \<noteq> {}"
    using cells_seq_keep_step [of c i s] by (auto simp: seq_keep_pass_def pass_simps split: if_splits)
qed

interpretation seq_add: cellwise "seq_add_pass s p0 p1 d" "\<lambda>x. True" "upd_seq_add s p0 p1 d"
  "\<lambda>x. in_rng p0 p1 s x \<and> fst x + d < 0" for s p0 p1 d
proof
  fix c i assume wf: "cells_wf c" and i: "i < cells_size c"
  have "kc_pos c ! i \<noteq> -1" if "s \<in> kc_seq c ! i"
    using cells_wf_empty_seq [OF wf i] that by auto
  with wf i show "cell_step c i (upd_seq_add s p0 p1 d (cell c i)) (fst (seq_add_pass s p0 p1 d i c))"
    "snd (seq_add_pass s p0 p1 d i c) \<longleftrightarrow> in_rng p0 p1 s (cell c i) \<and> fst (cell c i) + d < 0"
    using cells_pos_add_step [of c i d] by (auto simp: seq_add_pass_def pass_simps)
qed

interpretation seq_div: cellwise "seq_div_pass s p0 p1 d" "\<lambda>x. in_rng p0 p1 s x \<longrightarrow> 0 < d"
  "upd_seq_div s p0 p1 d" "\<lambda>x. False" for s p0 p1 d
proof
  fix c i assume wf: "cells_wf c" and i: "i < cells_size c" and pre: "in_rng p0 p1 s (cell c i) \<longrightarrow> 0 < d"
  have "kc_pos c ! i \<noteq> -1" if "s \<in> kc_seq c ! i"
    using cells_wf_empty_seq [OF wf i] that by auto
  with wf i pre show "cell_step c i (upd_seq_div s p0 p1 d (cell c i)) (fst (seq_div_pass s p0 p1 d i c))"
    using cells_pos_div_step [of c i d] by (auto simp: seq_div_pass_def pass_simps)
  show "snd (seq_div_pass s p0 p1 d i c) \<longleftrightarrow> False" by (simp add: seq_div_pass_def)
qed

section \<open>The invariant\<close>

text \<open>
  Every table is well formed and has the size of the cache, every head lies in it or right
  behind it, sequences map to streams, and a cell belongs only to sequences of its own stream.
\<close>

definition stream_ok :: "'d kv_cache \<Rightarrow> nat \<Rightarrow> llama_kv_cells \<Rightarrow> bool" where
  "stream_ok kv st c \<longleftrightarrow> cells_wf c \<and> cells_size c = kv_get_size kv \<and>
     (\<forall>i < cells_size c. \<forall>s \<in> kc_seq c ! i.
        s < length (kv_seq_to_stream kv) \<and> kv_seq_to_stream kv ! s = st)"

definition kv_wf :: "'d kv_cache \<Rightarrow> bool" where
  "kv_wf kv \<longleftrightarrow>
     length (kv_cells kv) = kv_n_stream kv \<and> length (kv_heads kv) = kv_n_stream kv \<and>
     length (kv_buf kv) = kv_n_stream kv \<and>
     0 < length (kv_seq_to_stream kv) \<and> length (kv_seq_to_stream kv) \<le> LLAMA_MAX_SEQ \<and>
     (\<forall>st \<in> set (kv_seq_to_stream kv). st < kv_n_stream kv) \<and>
     (kv_n_stream kv = 1 \<or> distinct (kv_seq_to_stream kv)) \<and>
     length (kv_ssrc kv) = length (kv_sdst kv) \<and>
     (\<forall>st \<in> set (kv_ssrc kv @ kv_sdst kv). st < kv_n_stream kv) \<and>
     (\<forall>st < kv_n_stream kv. kv_heads kv ! st \<le> kv_get_size kv) \<and>
     (\<forall>st < kv_n_stream kv. stream_ok kv st (kv_cells kv ! st))"

lemma kv_wf_stream: "kv_wf kv \<Longrightarrow> seq_id_ok kv s \<Longrightarrow> kv_stream_of kv s < kv_n_stream kv"
  by (auto simp: kv_wf_def seq_id_ok_def kv_stream_of_def)

lemma kv_wf_cells: "kv_wf kv \<Longrightarrow> st < kv_n_stream kv \<Longrightarrow> stream_ok kv st (kv_cells kv ! st)"
  by (simp add: kv_wf_def)

lemma kv_wf_table:
  assumes "kv_wf kv" and "st < kv_n_stream kv"
  shows "cells_wf (kv_cells kv ! st)" and "cells_size (kv_cells kv ! st) = kv_get_size kv"
  using kv_wf_cells [OF assms] unfolding stream_ok_def by blast+

lemma kv_wf_seq: "kv_wf kv \<Longrightarrow> s < length (kv_seq_to_stream kv) \<Longrightarrow> kv_seq_to_stream kv ! s < kv_n_stream kv"
  by (simp add: kv_wf_def)

lemma kv_wf_heads:
  "kv_wf kv \<Longrightarrow> h \<le> kv_get_size kv \<Longrightarrow> t < kv_n_stream kv \<Longrightarrow> (kv_heads kv)[st := h] ! t \<le> kv_get_size kv"
  "kv_wf kv \<Longrightarrow> t < kv_n_stream kv \<Longrightarrow> kv_heads kv ! t \<le> kv_get_size kv"
  "kv_wf kv \<Longrightarrow> length (kv_heads kv) = kv_n_stream kv"
  by (cases "t = st"; simp add: kv_wf_def)+

text \<open>Replacing the table and the head of one stream.\<close>

lemma kv_wf_update:
  assumes wf: "kv_wf kv" and st: "st < kv_n_stream kv" and c: "stream_ok kv st c"
    and h: "length hs = kv_n_stream kv" "\<And>t. t < kv_n_stream kv \<Longrightarrow> hs ! t \<le> kv_get_size kv"
  shows "kv_wf (kv\<lparr>kv_cells := (kv_cells kv)[st := c], kv_heads := hs\<rparr>)"
proof -
  let ?kv = "kv\<lparr>kv_cells := (kv_cells kv)[st := c], kv_heads := hs\<rparr>"
  have len: "length (kv_cells kv) = kv_n_stream kv" using wf by (simp add: kv_wf_def)
  have size: "kv_get_size ?kv = kv_get_size kv"
    using c st len by (simp add: kv_get_size_def stream_ok_def nth_list_update)
  have "stream_ok ?kv t (kv_cells ?kv ! t)" if "t < kv_n_stream kv" for t
    using that kv_wf_cells [OF wf that] c len st
    by (cases "t = st") (auto simp: stream_ok_def size)
  then show ?thesis using wf h len size by (simp add: kv_wf_def)
qed

context cellwise
begin

text \<open>A pass whose update keeps the owners within those of the cell keeps the cache well formed.\<close>

lemma loop_stream_ok:
  assumes ok: "stream_ok kv st c" and pre: "\<And>i. i < cells_size c \<Longrightarrow> pre (cell c i)"
    and own: "\<And>x. snd (snd (snd (upd x))) \<subseteq> snd (snd (snd x)) \<union> T"
    and T: "\<And>s. s \<in> T \<Longrightarrow> s < length (kv_seq_to_stream kv) \<and> kv_seq_to_stream kv ! s = st"
  shows "stream_ok kv st (fst (cells_loop pass c))"
proof -
  have wf: "cells_wf c" using ok by (simp add: stream_ok_def)
  note lc = loop_cells [OF wf pre]
  have "kc_seq (fst (cells_loop pass c)) ! i \<subseteq> kc_seq c ! i \<union> T" if "i < cells_size c" for i
  proof -
    have "snd (snd (snd (cell (fst (cells_loop pass c)) i))) \<subseteq> snd (snd (snd (cell c i))) \<union> T"
      using lc(3) [OF _ that] own by simp
    then show ?thesis by (simp add: cell_def)
  qed
  then show ?thesis using ok lc(1,2) T unfolding stream_ok_def by fastforce
qed

lemma loop_head_le:
  assumes "cells_wf c" and "\<And>i. i < cells_size c \<Longrightarrow> pre (cell c i)"
  shows "snd (cells_loop pass c) \<le> cells_size c"
  using loop_new_head [OF assms refl] by linarith

lemma free_loop_wf:
  assumes wf: "kv_wf kv" and st: "st < kv_n_stream kv"
    and pre: "\<And>i. i < cells_size (kv_cells kv ! st) \<Longrightarrow> pre (cell (kv_cells kv ! st) i)"
    and own: "\<And>x. snd (snd (snd (upd x))) \<subseteq> snd (snd (snd x))"
  shows "kv_wf (kv_free_loop pass st kv)"
proof -
  let ?r = "cells_loop pass (kv_cells kv ! st)"
  let ?hs = "if snd ?r \<noteq> cells_size (fst ?r) \<and> snd ?r < kv_heads kv ! st
             then (kv_heads kv)[st := snd ?r] else kv_heads kv"
  have ok: "stream_ok kv st (kv_cells kv ! st)" using kv_wf_cells [OF wf st] .
  then have cwf: "cells_wf (kv_cells kv ! st)" "cells_size (kv_cells kv ! st) = kv_get_size kv"
    by (simp_all add: stream_ok_def)
  have "snd ?r \<le> kv_get_size kv" using loop_head_le [OF cwf(1) pre] cwf(2) by simp
  then have hs: "?hs ! t \<le> kv_get_size kv" if "t < kv_n_stream kv" for t
    using wf that by (cases "t = st") (simp_all add: kv_wf_def)
  have "stream_ok kv st (fst ?r)"
    by (rule loop_stream_ok [OF ok pre, of "{}"]) (use own in auto)
  moreover have "kv_free_loop pass st kv = kv\<lparr>kv_cells := (kv_cells kv)[st := fst ?r], kv_heads := ?hs\<rparr>"
    by (simp add: kv_free_loop_def case_prod_beta)
  moreover have "length ?hs = kv_n_stream kv" using wf by (simp add: kv_wf_def)
  ultimately show ?thesis
    using kv_wf_update [OF wf st] hs by metis
qed

lemma free_loop_cells:
  assumes wf: "kv_wf kv" and st: "st < kv_n_stream kv"
    and pre: "\<And>i. i < cells_size (kv_cells kv ! st) \<Longrightarrow> pre (cell (kv_cells kv ! st) i)"
    and t: "t < kv_n_stream kv" and i: "i < kv_get_size kv"
  shows "cell (kv_cells (kv_free_loop pass st kv) ! t) i =
    (if t = st then upd (cell (kv_cells kv ! st) i) else cell (kv_cells kv ! t) i)"
proof -
  have "cells_wf (kv_cells kv ! st)" "cells_size (kv_cells kv ! st) = kv_get_size kv"
    using kv_wf_cells [OF wf st] by (simp_all add: stream_ok_def)
  moreover have "length (kv_cells kv) = kv_n_stream kv" using wf by (simp add: kv_wf_def)
  ultimately show ?thesis
    using loop_cells(3) [OF _ pre] t st i
    by (simp add: kv_free_loop_def case_prod_beta nth_list_update)
qed

end

lemma kv_free_loop_frame [simp]:
  "kv_n_stream (kv_free_loop pass st kv) = kv_n_stream kv"
  "kv_seq_to_stream (kv_free_loop pass st kv) = kv_seq_to_stream kv"
  "kv_hparams (kv_free_loop pass st kv) = kv_hparams kv"
  "kv_buf (kv_free_loop pass st kv) = kv_buf kv"
  "kv_swa_type (kv_free_loop pass st kv) = kv_swa_type kv"
  "kv_n_swa (kv_free_loop pass st kv) = kv_n_swa kv"
  by (simp_all add: kv_free_loop_def case_prod_beta)

section \<open>Invariant preservation\<close>

lemma owners_mono:
  "snd (snd (snd (upd_seq_rm s p0 p1 x))) \<subseteq> snd (snd (snd x))"
  "snd (snd (snd (upd_rm p0 p1 x))) \<subseteq> snd (snd (snd x))"
  "snd (snd (snd (upd_seq_keep s x))) \<subseteq> snd (snd (snd x))"
  "snd (snd (snd (upd_seq_add s p0 p1 d x))) \<subseteq> snd (snd (snd x))"
  "snd (snd (snd (upd_seq_div s p0 p1 i x))) \<subseteq> snd (snd (snd x))"
  "snd (snd (snd (upd_seq_cp s dst p0 p1 x))) \<subseteq> snd (snd (snd x)) \<union> {dst}"
  by (cases x; auto simp: cell_empty_def)+

lemma kv_get_size_free [simp]:
  assumes "kv_wf kv" "st < kv_n_stream kv" "kv_wf (kv_free_loop pass st kv)"
    "cells_size (fst (cells_loop pass (kv_cells kv ! st))) = cells_size (kv_cells kv ! st)"
  shows "kv_get_size (kv_free_loop pass st kv) = kv_get_size kv"
  using assms by (auto simp: kv_get_size_def kv_free_loop_def case_prod_beta nth_list_update kv_wf_def)

lemma rm_any_fold:
  fixes p0 p1 :: llama_pos
  assumes "kv_wf kv" and "n \<le> kv_n_stream kv"
  defines "kv' \<equiv> fold (kv_free_loop (rm_pass p0 p1)) [0..<n] kv"
  shows "kv_wf kv' \<and> kv_n_stream kv' = kv_n_stream kv \<and> kv_seq_to_stream kv' = kv_seq_to_stream kv \<and>
     kv_get_size kv' = kv_get_size kv \<and>
     (\<forall>t < kv_n_stream kv. \<forall>i < kv_get_size kv. cell (kv_cells kv' ! t) i =
        (if t < n then upd_rm p0 p1 (cell (kv_cells kv ! t) i) else cell (kv_cells kv ! t) i))"
  unfolding kv'_def
proof (rule fold_upt_inv)
  fix m k assume m: "m < n" and I: "kv_wf k \<and> kv_n_stream k = kv_n_stream kv \<and>
     kv_seq_to_stream k = kv_seq_to_stream kv \<and> kv_get_size k = kv_get_size kv \<and>
     (\<forall>t < kv_n_stream kv. \<forall>i < kv_get_size kv. cell (kv_cells k ! t) i =
        (if t < m then upd_rm p0 p1 (cell (kv_cells kv ! t) i) else cell (kv_cells kv ! t) i))"
  let ?k = "kv_free_loop (rm_pass p0 p1) m k"
  have mk: "m < kv_n_stream k" using I m assms(2) by simp
  have wf: "kv_wf ?k"
    using rm_any.free_loop_wf [of k m p0 p1] I mk owners_mono(2) by blast
  have "cells_size (fst (cells_loop (rm_pass p0 p1) (kv_cells k ! m))) = cells_size (kv_cells k ! m)"
    using rm_any.loop_cells(2) kv_wf_cells [of k m] I mk by (simp add: stream_ok_def)
  then have size: "kv_get_size ?k = kv_get_size kv"
    using kv_get_size_free [OF _ mk wf] I by simp
  have "cell (kv_cells ?k ! t) i =
      (if t < Suc m then upd_rm p0 p1 (cell (kv_cells kv ! t) i) else cell (kv_cells kv ! t) i)"
    if "t < kv_n_stream kv" "i < kv_get_size kv" for t i
    using rm_any.free_loop_cells [of k m t i p0 p1] I mk that by (auto simp: less_Suc_eq)
  then show "kv_wf ?k \<and> kv_n_stream ?k = kv_n_stream kv \<and> kv_seq_to_stream ?k = kv_seq_to_stream kv \<and>
     kv_get_size ?k = kv_get_size kv \<and>
     (\<forall>t < kv_n_stream kv. \<forall>i < kv_get_size kv. cell (kv_cells ?k ! t) i =
        (if t < Suc m then upd_rm p0 p1 (cell (kv_cells kv ! t) i) else cell (kv_cells kv ! t) i))"
    using wf size I by simp
qed (use assms in simp_all)

text \<open>The positions the cache holds of a sequence: what the memory interface is about.\<close>

definition kv_held :: "'d kv_cache \<Rightarrow> nat \<Rightarrow> llama_pos set" where
  "kv_held kv s = (!) (kc_pos (kv_cells kv ! (kv_seq_to_stream kv ! s))) `
     {i. i < kv_get_size kv \<and> s \<in> kc_seq (kv_cells kv ! (kv_seq_to_stream kv ! s)) ! i}"

lemma kv_held_code [code]:
  "kv_held kv s = set (map (\<lambda>i. kc_pos (kv_cells kv ! (kv_seq_to_stream kv ! s)) ! i)
     (filter (\<lambda>i. s \<in> kc_seq (kv_cells kv ! (kv_seq_to_stream kv ! s)) ! i) [0..<kv_get_size kv]))"
  unfolding kv_held_def by auto

lemma finite_kv_held [simp]: "finite (kv_held kv s)"
  by (simp add: kv_held_def)

lemma kv_held_nonneg:
  assumes wf: "kv_wf kv" and s: "s < length (kv_seq_to_stream kv)" and p: "p \<in> kv_held kv s"
  shows "0 \<le> p"
proof -
  note c = kv_wf_table [OF wf kv_wf_seq [OF wf s]]
  obtain i where "i < kv_get_size kv" "s \<in> kc_seq (kv_cells kv ! (kv_seq_to_stream kv ! s)) ! i"
    "p = kc_pos (kv_cells kv ! (kv_seq_to_stream kv ! s)) ! i"
    using p unfolding kv_held_def by blast
  then show ?thesis using cells_wf_pos [OF c(1)] c(2) by simp
qed

text \<open>Queries: the ends of the held positions, -1 for a sequence the cache does not hold.\<close>

lemma kv_seq_pos_spec:
  assumes wf: "kv_wf kv" and s: "seq_id_ok kv s"
  shows "kv_seq_pos_min s kv = Inr (if kv_held kv (nat s) = {} then -1 else Min (kv_held kv (nat s)))"
    and "kv_seq_pos_max s kv = Inr (if kv_held kv (nat s) = {} then -1 else Max (kv_held kv (nat s)))"
proof -
  let ?c = "kv_cells kv ! kv_stream_of kv s"
  have "stream_ok kv (kv_stream_of kv s) ?c" using kv_wf_cells [OF wf kv_wf_stream [OF wf s]] .
  then have c: "cells_wf ?c" "cells_size ?c = kv_get_size kv" by (simp_all add: stream_ok_def)
  have held: "kv_held kv (nat s) = {kc_pos ?c ! i | i. i < cells_size ?c \<and> nat s \<in> kc_seq ?c ! i}"
    unfolding c(2) [unfolded kv_stream_of_def] kv_held_def kv_stream_of_def by blast
  then have "kv_held kv (nat s) \<noteq> {} \<longleftrightarrow> (\<exists>i < cells_size ?c. nat s \<in> kc_seq ?c ! i)" by auto
  then show "kv_seq_pos_min s kv = Inr (if kv_held kv (nat s) = {} then -1 else Min (kv_held kv (nat s)))"
    "kv_seq_pos_max s kv = Inr (if kv_held kv (nat s) = {} then -1 else Max (kv_held kv (nat s)))"
    using s cells_seq_pos_min_spec [OF c(1)] cells_seq_pos_max_spec [OF c(1)]
    by (auto simp: kv_seq_pos_min_def kv_seq_pos_max_def held)
qed

text \<open>What a table means for a sequence is read off its cells.\<close>

definition cells_held :: "llama_kv_cells \<Rightarrow> nat \<Rightarrow> llama_pos set" where
  "cells_held c s = (\<lambda>i. fst (cell c i)) ` {i. i < cells_size c \<and> s \<in> snd (snd (snd (cell c i)))}"

lemma kv_held_eq:
  assumes wf: "kv_wf kv" and s: "s < length (kv_seq_to_stream kv)"
  shows "kv_held kv s = cells_held (kv_cells kv ! (kv_seq_to_stream kv ! s)) s"
  using kv_wf_table(2) [OF wf kv_wf_seq [OF wf s]]
  unfolding kv_held_def cells_held_def cell_def by simp

lemma cells_held_upd:
  assumes "cells_size c' = cells_size c" and "\<And>i. i < cells_size c \<Longrightarrow> cell c' i = upd (cell c i)"
  shows "cells_held c' s =
    (\<lambda>i. fst (upd (cell c i))) ` {i. i < cells_size c \<and> s \<in> snd (snd (snd (upd (cell c i))))}"
  unfolding cells_held_def using assms by (intro image_cong) auto

lemma upd_seq_rm_held:
  "s \<in> snd (snd (snd (upd_seq_rm t p0 p1 x))) \<longleftrightarrow>
     s \<in> snd (snd (snd x)) \<and> (s = t \<longrightarrow> \<not> (p0 \<le> fst x \<and> fst x < p1))"
  "s \<in> snd (snd (snd (upd_seq_rm t p0 p1 x))) \<Longrightarrow> fst (upd_seq_rm t p0 p1 x) = fst x"
  by (cases x; auto simp: cell_empty_def split: if_splits)+

lemma upd_seq_keep_held:
  "s \<in> snd (snd (snd (upd_seq_keep t x))) \<longleftrightarrow> s = t \<and> s \<in> snd (snd (snd x))"
  "s \<in> snd (snd (snd (upd_seq_keep t x))) \<Longrightarrow> fst (upd_seq_keep t x) = fst x"
  by (cases x; auto simp: cell_empty_def split: if_splits)+

lemma upd_rm_held:
  "s \<in> snd (snd (snd (upd_rm p0 p1 x))) \<longleftrightarrow> s \<in> snd (snd (snd x)) \<and> \<not> (p0 \<le> fst x \<and> fst x < p1)"
  "s \<in> snd (snd (snd (upd_rm p0 p1 x))) \<Longrightarrow> fst (upd_rm p0 p1 x) = fst x"
  by (cases x; auto simp: cell_empty_def split: if_splits)+

lemma upd_seq_cp_held:
  "s \<in> snd (snd (snd (upd_seq_cp src dst p0 p1 x))) \<longleftrightarrow>
     s \<in> snd (snd (snd x)) \<or> (s = dst \<and> src \<in> snd (snd (snd x)) \<and> p0 \<le> fst x \<and> fst x < p1)"
  "fst (upd_seq_cp src dst p0 p1 x) = fst x"
  by (cases x; auto)+

lemma cells_held_keep_pos:
  assumes size: "cells_size c' = cells_size c" and u: "\<And>i. i < cells_size c \<Longrightarrow> cell c' i = upd (cell c i)"
    and sel: "\<And>i. s \<in> snd (snd (snd (upd (cell c i)))) \<longleftrightarrow> s \<in> snd (snd (snd (cell c i))) \<and> Q (fst (cell c i))"
    and pos: "\<And>i. s \<in> snd (snd (snd (upd (cell c i)))) \<Longrightarrow> fst (upd (cell c i)) = fst (cell c i)"
  shows "cells_held c' s = {p \<in> cells_held c s. Q p}"
proof -
  have "cells_held c' s = (\<lambda>i. fst (cell c i)) ` {i. i < cells_size c \<and> s \<in> snd (snd (snd (upd (cell c i))))}"
    by (subst cells_held_upd [OF size u]) (auto intro!: image_cong simp: pos)
  also have "\<dots> = {p \<in> cells_held c s. Q p}"
    unfolding cells_held_def sel by blast
  finally show ?thesis .
qed

lemma kv_free_loop_held:
  assumes wf: "kv_wf kv" "kv_wf (kv_free_loop pass st kv)" and st: "st < kv_n_stream kv"
    and s: "s < length (kv_seq_to_stream kv)"
  shows "kv_held (kv_free_loop pass st kv) s =
    (if kv_seq_to_stream kv ! s = st then cells_held (fst (cells_loop pass (kv_cells kv ! st))) s
     else kv_held kv s)"
proof -
  have "length (kv_cells kv) = kv_n_stream kv" using wf(1) by (simp add: kv_wf_def)
  then show ?thesis
    using kv_held_eq [OF wf(2)] kv_held_eq [OF wf(1)] s st
    by (auto simp: kv_free_loop_def case_prod_beta nth_list_update)
qed

lemma kv_seq_rm_spec:
  assumes wf: "kv_wf kv" and s: "seq_id_ok kv s"
  shows "\<exists>kv'. kv_seq_rm s p0 p1 kv = Inr (True, kv') \<and> kv_wf kv' \<and>
    kv_seq_to_stream kv' = kv_seq_to_stream kv \<and> kv_hparams kv' = kv_hparams kv \<and>
    (\<forall>t < length (kv_seq_to_stream kv). kv_held kv' t =
       (if t = nat s then kv_held kv t - rng p0 p1 else kv_held kv t))"
proof -
  let ?st = "kv_stream_of kv s"
  let ?pass = "seq_rm_pass (nat s) (range_lo p0) (range_hi p1)"
  let ?kv = "kv_free_loop ?pass ?st kv"
  have st: "?st < kv_n_stream kv" by (rule kv_wf_stream [OF wf s])
  have wf': "kv_wf ?kv" by (rule seq_rm.free_loop_wf [OF wf st]) (simp_all add: owners_mono)
  have c: "cells_wf (kv_cells kv ! ?st)" using kv_wf_cells [OF wf st] by (simp add: stream_ok_def)
  have "kv_held ?kv t = (if t = nat s then kv_held kv t - rng p0 p1 else kv_held kv t)"
    if t: "t < length (kv_seq_to_stream kv)" for t
  proof (cases "kv_seq_to_stream kv ! t = ?st")
    case True
    have "cells_held (fst (cells_loop ?pass (kv_cells kv ! ?st))) t =
        {p \<in> cells_held (kv_cells kv ! ?st) t. t = nat s \<longrightarrow> \<not> (range_lo p0 \<le> p \<and> p < range_hi p1)}"
      by (rule cells_held_keep_pos [OF seq_rm.loop_cells(2,3) [OF c]]) (simp_all only: upd_seq_rm_held)
    then show ?thesis
      using kv_free_loop_held [OF wf wf' st t] kv_held_eq [OF wf t] True by (auto simp: rng_def)
  next
    case False
    then have "t \<noteq> nat s" by (auto simp: kv_stream_of_def)
    then show ?thesis using kv_free_loop_held [OF wf wf' st t] False by simp
  qed
  then show ?thesis
    using s wf' by (intro exI [of _ ?kv]) (simp add: kv_seq_rm_def seq_id_ok_def)
qed

lemma kv_seq_keep_spec:
  assumes wf: "kv_wf kv" and s: "seq_id_ok kv s"
  shows "\<exists>kv'. kv_seq_keep s kv = Inr kv' \<and> kv_wf kv' \<and>
    kv_seq_to_stream kv' = kv_seq_to_stream kv \<and> kv_hparams kv' = kv_hparams kv \<and>
    (\<forall>t < length (kv_seq_to_stream kv). kv_held kv' t =
       (if t = nat s \<or> kv_seq_to_stream kv ! t \<noteq> kv_stream_of kv s then kv_held kv t else {}))"
proof -
  let ?st = "kv_stream_of kv s"
  let ?kv = "kv_free_loop (seq_keep_pass (nat s)) ?st kv"
  have st: "?st < kv_n_stream kv" by (rule kv_wf_stream [OF wf s])
  have wf': "kv_wf ?kv" by (rule seq_keep.free_loop_wf [OF wf st]) (simp_all add: owners_mono)
  have c: "cells_wf (kv_cells kv ! ?st)" using kv_wf_cells [OF wf st] by (simp add: stream_ok_def)
  have "kv_held ?kv t = (if t = nat s \<or> kv_seq_to_stream kv ! t \<noteq> ?st then kv_held kv t else {})"
    if t: "t < length (kv_seq_to_stream kv)" for t
  proof (cases "kv_seq_to_stream kv ! t = ?st")
    case True
    have "cells_held (fst (cells_loop (seq_keep_pass (nat s)) (kv_cells kv ! ?st))) t =
        {p \<in> cells_held (kv_cells kv ! ?st) t. t = nat s}"
      by (rule cells_held_keep_pos [OF seq_keep.loop_cells(2,3) [OF c]]) (auto simp: upd_seq_keep_held)
    then show ?thesis
      using kv_free_loop_held [OF wf wf' st t] kv_held_eq [OF wf t] True by auto
  next
    case False
    then show ?thesis using kv_free_loop_held [OF wf wf' st t] by simp
  qed
  then show ?thesis
    using s wf' by (intro exI [of _ ?kv]) (simp add: kv_seq_keep_def)
qed

text \<open>Replacing one table changes what is held of the sequences of its stream only.\<close>

lemma kv_held_update:
  assumes wf: "kv_wf kv" and wf': "kv_wf kv'" and st: "st < kv_n_stream kv"
    and kv': "kv_cells kv' = (kv_cells kv)[st := c]" "kv_seq_to_stream kv' = kv_seq_to_stream kv"
    and t: "t < length (kv_seq_to_stream kv)"
  shows "kv_held kv' t = (if kv_seq_to_stream kv ! t = st then cells_held c t else kv_held kv t)"
proof -
  have "length (kv_cells kv) = kv_n_stream kv" using wf by (simp add: kv_wf_def)
  then show ?thesis
    using kv_held_eq [OF wf'] kv_held_eq [OF wf] t st kv' by (auto simp: nth_list_update)
qed

lemma kv_seq_add_spec:
  assumes wf: "kv_wf kv" and s: "seq_id_ok kv s" and n: "n_pos_per_embd (kv_hparams kv) = 1"
  shows "\<exists>kv'. kv_seq_add s p0 p1 d kv = Inr kv' \<and> kv_wf kv' \<and>
    kv_seq_to_stream kv' = kv_seq_to_stream kv \<and> kv_hparams kv' = kv_hparams kv \<and>
    kv_held kv' (nat s) = (kv_held kv (nat s) - rng p0 p1) \<union>
      {p + d | p. p \<in> kv_held kv (nat s) \<inter> rng p0 p1 \<and> 0 \<le> p + d}"
proof (cases "d = 0 \<or> range_lo p0 = range_hi p1")
  case True
  have pos: "0 \<le> p" if "p \<in> kv_held kv (nat s)" for p
    using kv_held_nonneg [OF wf _ that] s by (simp add: seq_id_ok_def)
  have "kv_held kv (nat s) = (kv_held kv (nat s) - rng p0 p1) \<union>
      {p + d | p. p \<in> kv_held kv (nat s) \<inter> rng p0 p1 \<and> 0 \<le> p + d}"
    using True pos by (auto simp: rng_def)
  then show ?thesis using True wf s n by (intro exI [of _ kv]) (auto simp: kv_seq_add_def)
next
  case False
  let ?st = "kv_stream_of kv s"
  let ?pass = "seq_add_pass (nat s) (range_lo p0) (range_hi p1) d"
  let ?r = "cells_loop ?pass (kv_cells kv ! ?st)"
  let ?kv = "kv\<lparr>kv_cells := (kv_cells kv)[?st := fst ?r],
      kv_heads := (kv_heads kv)[?st := (if snd ?r \<noteq> cells_size (fst ?r) then snd ?r else 0)]\<rparr>"
  have st: "?st < kv_n_stream kv" by (rule kv_wf_stream [OF wf s])
  note c = kv_wf_table [OF wf st]
  have eq: "kv_seq_add s p0 p1 d kv = Inr ?kv"
    using False s n by (simp add: kv_seq_add_def case_prod_beta Let_def)
  have "stream_ok kv ?st (fst ?r)"
    by (rule seq_add.loop_stream_ok [OF kv_wf_cells [OF wf st], of _ _ _ _ "{}"])
      (use owners_mono(4) in auto)
  moreover have "snd ?r \<le> kv_get_size kv" using seq_add.loop_head_le [OF c(1)] c(2) by simp
  ultimately have wf': "kv_wf ?kv"
    by (intro kv_wf_update [OF wf st] kv_wf_heads [OF wf]) (simp_all add: kv_wf_heads(3) [OF wf])
  have t: "nat s < length (kv_seq_to_stream kv)" "kv_seq_to_stream kv ! nat s = ?st"
    using s by (simp_all add: seq_id_ok_def kv_stream_of_def)
  have pos: "0 \<le> fst (cell (kv_cells kv ! ?st) i)"
    if "i < cells_size (kv_cells kv ! ?st)" "nat s \<in> snd (snd (snd (cell (kv_cells kv ! ?st) i)))" for i
    using cells_wf_pos [OF c(1) that(1), of "nat s"] that(2) by (simp add: cell_def)
  let ?u = "upd_seq_add (nat s) (range_lo p0) (range_hi p1) d"
  have u: "nat s \<in> snd (snd (snd (?u x))) \<longleftrightarrow> nat s \<in> snd (snd (snd x)) \<and> (fst x \<in> rng p0 p1 \<longrightarrow> 0 \<le> fst x + d)"
    "nat s \<in> snd (snd (snd x)) \<Longrightarrow> nat s \<in> snd (snd (snd (?u x))) \<Longrightarrow>
       fst (?u x) = (if fst x \<in> rng p0 p1 then fst x + d else fst x)" for x
    by (cases x; auto simp: rng_def split: if_splits)+
  have "cells_held (fst ?r) (nat s) =
      (\<lambda>i. fst (?u (cell (kv_cells kv ! ?st) i))) ` {i. i < cells_size (kv_cells kv ! ?st) \<and>
         nat s \<in> snd (snd (snd (?u (cell (kv_cells kv ! ?st) i))))}"
    by (rule cells_held_upd [OF seq_add.loop_cells(2,3) [OF c(1)]]) simp_all
  also have "\<dots> = (\<lambda>i. if fst (cell (kv_cells kv ! ?st) i) \<in> rng p0 p1 then fst (cell (kv_cells kv ! ?st) i) + d
        else fst (cell (kv_cells kv ! ?st) i)) `
      {i. i < cells_size (kv_cells kv ! ?st) \<and> nat s \<in> snd (snd (snd (cell (kv_cells kv ! ?st) i))) \<and>
         (fst (cell (kv_cells kv ! ?st) i) \<in> rng p0 p1 \<longrightarrow> 0 \<le> fst (cell (kv_cells kv ! ?st) i) + d)}"
    by (rule image_cong) (use u in auto)
  also have "\<dots> = (cells_held (kv_cells kv ! ?st) (nat s) - rng p0 p1) \<union>
      {p + d | p. p \<in> cells_held (kv_cells kv ! ?st) (nat s) \<inter> rng p0 p1 \<and> 0 \<le> p + d}"
    unfolding cells_held_def by auto
  finally show ?thesis
    using eq wf' kv_held_update [OF wf wf' st _ _ t(1)] kv_held_eq [OF wf t(1)] t(2)
    by (intro exI [of _ ?kv]) simp
qed

lemma kv_clear_eq:
  fixes kv :: "('d :: zero) kv_cache"
  assumes len: "length (kv_cells kv) = kv_n_stream kv" "length (kv_heads kv) = kv_n_stream kv"
  shows "kv_clear dt kv = kv\<lparr>kv_cells := map cells_reset (kv_cells kv), kv_heads := replicate (kv_n_stream kv) 0,
     kv_buf := (if dt then map (\<lambda>_. 0) (kv_buf kv) else kv_buf kv)\<rparr>"
proof -
  let ?f = "\<lambda>s kv. kv\<lparr>kv_cells := (kv_cells kv)[s := cells_reset (kv_cells kv ! s)],
                              kv_heads := (kv_heads kv)[s := 0]\<rparr>"
  have "fold ?f [0..<n] kv = kv\<lparr>kv_cells := map cells_reset (take n (kv_cells kv)) @ drop n (kv_cells kv),
      kv_heads := replicate n 0 @ drop n (kv_heads kv)\<rparr>" if "n \<le> kv_n_stream kv" for n
    using that
  proof (induction n)
    case (Suc n)
    then have n: "n < length (kv_cells kv)" "n < length (kv_heads kv)" using len by simp_all
    have "(map cells_reset (take n (kv_cells kv)) @ drop n (kv_cells kv))
          [n := cells_reset ((map cells_reset (take n (kv_cells kv)) @ drop n (kv_cells kv)) ! n)] =
        map cells_reset (take (Suc n) (kv_cells kv)) @ drop (Suc n) (kv_cells kv)"
      using n by (simp add: list_update_append nth_append take_Suc_conv_app_nth Cons_nth_drop_Suc [symmetric])
    moreover have "(replicate n 0 @ drop n (kv_heads kv))[n := 0] = replicate (Suc n) 0 @ drop (Suc n) (kv_heads kv)"
      using n by (simp add: list_update_append Cons_nth_drop_Suc [symmetric] replicate_append_same)
    ultimately show ?case using Suc by simp
  qed simp
  from this [of "kv_n_stream kv"] show ?thesis using len by (simp add: kv_clear_def Let_def)
qed

lemma kv_clear_spec:
  fixes kv :: "('d :: zero) kv_cache"
  assumes wf: "kv_wf kv"
  shows "kv_wf (kv_clear dt kv)" and "kv_seq_to_stream (kv_clear dt kv) = kv_seq_to_stream kv"
    and "kv_hparams (kv_clear dt kv) = kv_hparams kv"
    and "t < length (kv_seq_to_stream kv) \<Longrightarrow> kv_held (kv_clear dt kv) t = {}"
proof -
  have len: "length (kv_cells kv) = kv_n_stream kv" "length (kv_heads kv) = kv_n_stream kv"
    using wf by (simp_all add: kv_wf_def)
  note eq = kv_clear_eq [OF len, of dt]
  have in0: "kv_seq_to_stream kv ! 0 < kv_n_stream kv" using wf by (simp add: kv_wf_def)
  then have size: "kv_get_size (kv_clear dt kv) = kv_get_size kv"
    by (simp add: eq kv_get_size_def len)
  have "stream_ok (kv_clear dt kv) st (kv_cells (kv_clear dt kv) ! st)" if "st < kv_n_stream kv" for st
  proof -
    have "kv_cells (kv_clear dt kv) ! st = cells_reset (kv_cells kv ! st)" using that len by (simp add: eq)
    then show ?thesis
      using kv_wf_table(2) [OF wf that] cells_reset_cell [of _ "kv_cells kv ! st"]
      unfolding stream_ok_def size by (auto simp: cells_reset_wf cell_def)
  qed
  then show wf': "kv_wf (kv_clear dt kv)"
    using wf size by (simp add: kv_wf_def eq)
  show "kv_seq_to_stream (kv_clear dt kv) = kv_seq_to_stream kv" "kv_hparams (kv_clear dt kv) = kv_hparams kv"
    by (simp_all add: eq)
  show "kv_held (kv_clear dt kv) t = {}" if t: "t < length (kv_seq_to_stream kv)"
    using kv_held_eq [OF wf', of t] t kv_wf_seq [OF wf t] cells_reset_cell
    by (auto simp: eq len cells_held_def)
qed

lemma kv_seq_div_spec:
  assumes wf: "kv_wf kv" and s: "seq_id_ok kv s" and n: "n_pos_per_embd (kv_hparams kv) = 1"
    and d: "0 < d"
  shows "\<exists>kv'. kv_seq_div s p0 p1 d kv = Inr kv' \<and> kv_wf kv' \<and>
    kv_seq_to_stream kv' = kv_seq_to_stream kv \<and> kv_hparams kv' = kv_hparams kv \<and>
    kv_held kv' (nat s) = (kv_held kv (nat s) - rng p0 p1) \<union> (\<lambda>p. c_div p d) ` (kv_held kv (nat s) \<inter> rng p0 p1)"
proof (cases "d = 1 \<or> range_lo p0 = range_hi p1")
  case True
  have "c_div p 1 = p" for p by (simp add: c_div_def mult_sgn_abs)
  then have "kv_held kv (nat s) =
      (kv_held kv (nat s) - rng p0 p1) \<union> (\<lambda>p. c_div p d) ` (kv_held kv (nat s) \<inter> rng p0 p1)"
    using True by (auto simp: rng_def)
  then show ?thesis using True wf s n by (intro exI [of _ kv]) (auto simp: kv_seq_div_def)
next
  case False
  let ?st = "kv_stream_of kv s"
  let ?c = "kv_cells kv ! ?st"
  let ?r = "fst (cells_loop (seq_div_pass (nat s) (range_lo p0) (range_hi p1) d) ?c)"
  let ?kv = "kv\<lparr>kv_cells := (kv_cells kv)[?st := ?r], kv_heads := kv_heads kv\<rparr>"
  have st: "?st < kv_n_stream kv" by (rule kv_wf_stream [OF wf s])
  note c = kv_wf_table [OF wf st]
  have eq: "kv_seq_div s p0 p1 d kv = Inr ?kv"
    using False s n by (simp add: kv_seq_div_def Let_def)
  have "stream_ok kv ?st ?r"
    by (rule seq_div.loop_stream_ok [OF kv_wf_cells [OF wf st], of _ _ _ _ "{}"])
      (use d owners_mono(5) in auto)
  then have wf': "kv_wf ?kv"
    using wf by (intro kv_wf_update [OF wf st]) (auto simp: kv_wf_def)
  have t: "nat s < length (kv_seq_to_stream kv)" "kv_seq_to_stream kv ! nat s = ?st"
    using s by (simp_all add: seq_id_ok_def kv_stream_of_def)
  let ?u = "upd_seq_div (nat s) (range_lo p0) (range_hi p1) d"
  have u: "nat s \<in> snd (snd (snd (?u x))) \<longleftrightarrow> nat s \<in> snd (snd (snd x))"
    "nat s \<in> snd (snd (snd x)) \<Longrightarrow> fst (?u x) = (if fst x \<in> rng p0 p1 then c_div (fst x) d else fst x)" for x
    by (cases x; auto simp: rng_def split: if_splits)+
  have "cells_held ?r (nat s) = (\<lambda>i. fst (?u (cell ?c i))) ` {i. i < cells_size ?c \<and> nat s \<in> snd (snd (snd (?u (cell ?c i))))}"
    by (rule cells_held_upd [OF seq_div.loop_cells(2,3) [OF c(1)]]) (use d in auto)
  also have "\<dots> = (\<lambda>i. if fst (cell ?c i) \<in> rng p0 p1 then c_div (fst (cell ?c i)) d else fst (cell ?c i)) `
      {i. i < cells_size ?c \<and> nat s \<in> snd (snd (snd (cell ?c i)))}"
    by (rule image_cong) (use u in auto)
  also have "\<dots> = (cells_held ?c (nat s) - rng p0 p1) \<union> (\<lambda>p. c_div p d) ` (cells_held ?c (nat s) \<inter> rng p0 p1)"
    unfolding cells_held_def by auto
  finally show ?thesis
    using eq wf' kv_held_update [OF wf wf' st _ _ t(1)] kv_held_eq [OF wf t(1)] t(2)
    by (intro exI [of _ ?kv]) simp
qed

lemma kv_seq_rm_any_spec:
  assumes wf: "kv_wf kv"
  shows "\<exists>kv'. kv_seq_rm (-1) p0 p1 kv = Inr (True, kv') \<and> kv_wf kv' \<and>
    kv_seq_to_stream kv' = kv_seq_to_stream kv \<and>
    (\<forall>t < length (kv_seq_to_stream kv). kv_held kv' t = kv_held kv t - rng p0 p1)"
proof -
  let ?kv = "fold (kv_free_loop (rm_pass (range_lo p0) (range_hi p1))) [0..<kv_n_stream kv] kv"
  have r: "kv_wf ?kv" "kv_seq_to_stream ?kv = kv_seq_to_stream kv" "kv_get_size ?kv = kv_get_size kv"
    "\<forall>t < kv_n_stream kv. \<forall>i < kv_get_size kv. cell (kv_cells ?kv ! t) i =
        upd_rm (range_lo p0) (range_hi p1) (cell (kv_cells kv ! t) i)" "kv_n_stream ?kv = kv_n_stream kv"
    using rm_any_fold [OF wf order_refl] by auto
  have "kv_held ?kv t = kv_held kv t - rng p0 p1" if t: "t < length (kv_seq_to_stream kv)" for t
  proof -
    let ?st = "kv_seq_to_stream kv ! t"
    have st: "?st < kv_n_stream kv" by (rule kv_wf_seq [OF wf t])
    have "cells_held (kv_cells ?kv ! ?st) t = {p \<in> cells_held (kv_cells kv ! ?st) t. \<not> (range_lo p0 \<le> p \<and> p < range_hi p1)}"
    proof (rule cells_held_keep_pos)
      show "cells_size (kv_cells ?kv ! ?st) = cells_size (kv_cells kv ! ?st)"
        using kv_wf_table(2) [OF r(1), of ?st] kv_wf_table(2) [OF wf st] st r by simp
      show "cell (kv_cells ?kv ! ?st) i = upd_rm (range_lo p0) (range_hi p1) (cell (kv_cells kv ! ?st) i)"
        if "i < cells_size (kv_cells kv ! ?st)" for i
        using r(4) st that kv_wf_table(2) [OF wf st] by simp
    qed (use upd_rm_held in blast)+
    then show ?thesis
      using kv_held_eq [OF r(1), of t] kv_held_eq [OF wf t] t r(2) by (auto simp: rng_def)
  qed
  then show ?thesis using r by (intro exI [of _ ?kv]) (simp add: kv_seq_rm_def)
qed

lemma cell_step_trans: "cell_step c i x c1 \<Longrightarrow> cell_step c1 i y c2 \<Longrightarrow> cell_step c i y c2"
  by (simp add: cell_step_def)

lemma om_dec_inc: "om_ok m \<Longrightarrow> om_dec p (om_inc p m) = m"
  by (induction p m rule: om_inc.induct) auto

text \<open>
  Copying a cell into an empty one of another table: position, pending shift and 2D position are
  those of the source, whatever the sign of the position before the shift.
\<close>

lemma stream_cp_step:
  assumes wf0: "cells_wf c0" and wf: "cells_wf c" and i: "i < cells_size c0" "cells_size c = cells_size c0"
    and e: "cell c i = (-1, e0, 0, {})" and dst: "dst < LLAMA_MAX_SEQ"
  shows "cell_step c i (if src \<in> kc_seq c0 ! i then (kc_pos c0 ! i, kc_ext c0 ! i, kc_shift c0 ! i, {dst})
     else cell c i) (stream_cp_pass c0 src dst i c)"
proof (cases "src \<in> kc_seq c0 ! i")
  case False
  then show ?thesis using cell_step_refl [OF wf] by (simp add: stream_cp_pass_def cells_seq_has_def)
next
  case True
  let ?p = "kc_pos c0 ! i" and ?sh = "kc_shift c0 ! i"
  have p: "0 \<le> ?p" by (rule cells_wf_pos [OF wf0 i(1) True])
  have ic: "i < cells_size c" using i by simp
  note len = cells_wf_len [OF wf]
  have old: "kc_pos c ! i = -1" "kc_shift c ! i = 0" "kc_seq c ! i = {}" using e by (simp_all add: cell_def)
  define c2 where "c2 = cells_seq_add i dst (cells_pos_set i (?p - ?sh) c)"
  define c3 where "c3 = (if ?sh \<noteq> 0 then fst (cells_pos_add i ?sh c2) else c2)"
  have c2: "kc_pos c2 = (kc_pos c)[i := ?p - ?sh]" "kc_ext c2 = kc_ext c" "kc_shift c2 = kc_shift c"
    "kc_seq c2 = (kc_seq c)[i := {dst}]" "kc_used c2 = insert i (kc_used c)"
    "kc_seq_pos c2 = (kc_seq_pos c)(dst := om_inc (?p - ?sh) (kc_seq_pos c dst))"
    using old ic len by (simp_all add: c2_def cells_seq_add_def cells_pos_set_def Let_def seq_pos_inc_def)
  have step: "cell_step c i (?p, kc_ext c ! i, ?sh, {dst}) c3"
  proof (rule cell_stepI [OF wf ic])
    have sr: "seq_pos_rm i c2 = c2\<lparr>kc_seq_pos := kc_seq_pos c\<rparr>"
      using ic len dst cells_wf_ok [OF wf]
      by (auto simp: seq_pos_rm_eq c2 fun_eq_iff om_dec_inc intro!: llama_kv_cells.equality)
    then have c3: "c3 = (if ?sh \<noteq> 0 then seq_pos_add i (c2\<lparr>kc_seq_pos := kc_seq_pos c,
         kc_pos := (kc_pos c)[i := ?p], kc_shift := (kc_shift c)[i := ?sh], kc_has_shift := True\<rparr>) else c2)"
      using p ic len old by (simp add: c3_def cells_pos_add_def Let_def c2)
    have sp: "kc_seq_pos c3 = (kc_seq_pos c)(dst := om_inc ?p (kc_seq_pos c dst))"
      using c3 dst ic len by (auto simp: c2 seq_pos_add_eq fun_eq_iff)
    show "kc_pos c3 = (kc_pos c)[i := ?p]" "kc_ext c3 = (kc_ext c)[i := kc_ext c ! i]"
      "kc_shift c3 = (kc_shift c)[i := ?sh]" "kc_seq c3 = (kc_seq c)[i := {dst}]"
      using c3 old by (auto simp: c2 list_update_id) (metis list_update_id)
    show "kc_used c3 = (if ?p = -1 then kc_used c - {i} else insert i (kc_used c))"
      using c3 p by (simp add: c2)
    show "cell_wf (?p, kc_ext c ! i, ?sh, {dst})" using p dst by simp
    show "om_ok (kc_seq_pos c3 s)" for s using sp cells_wf_ok [OF wf] by (simp add: om_ok_inc)
    show "om_cnt (kc_seq_pos c3 s) q = om_cnt (kc_seq_pos c s) q
        + of_bool (s \<in> {dst} \<and> ?p = q) - of_bool (s \<in> kc_seq c ! i \<and> kc_pos c ! i = q)" for s q
      using sp old cells_wf_ok [OF wf] by (simp add: omap_simps)
  qed
  have "stream_cp_pass c0 src dst i c = cells_ext_set i (kc_ext c0 ! i) c3"
    using True by (simp add: stream_cp_pass_def Let_def c3_def c2_def cells_seq_has_def cells_pos_get_def
        cells_get_shift_def cells_ext_get_def)
  moreover have "cell_step c3 i (?p, kc_ext c0 ! i, ?sh, {dst}) (cells_ext_set i (kc_ext c0 ! i) c3)"
    using step ic cells_ext_set_step [of c3 i "kc_ext c0 ! i"] by (simp add: cell_step_def cell_def)
  ultimately show ?thesis using True cell_step_trans [OF step] by simp
qed

lemma stream_cp_cells:
  fixes src :: nat
  assumes wf0: "cells_wf c0" and size: "cells_size d = cells_size c0" and dst: "dst < LLAMA_MAX_SEQ"
  defines "c1 \<equiv> fold (stream_cp_pass c0 src dst) [0..<cells_size c0] (cells_reset d)"
  shows "cells_wf c1 \<and> cells_size c1 = cells_size c0 \<and>
    (\<forall>i < cells_size c0. cell c1 i =
      (if src \<in> kc_seq c0 ! i then (kc_pos c0 ! i, kc_ext c0 ! i, kc_shift c0 ! i, {dst}) else cell_empty))"
proof -
  define new where "new i = (if src \<in> kc_seq c0 ! i
      then (kc_pos c0 ! i, kc_ext c0 ! i, kc_shift c0 ! i, {dst}) else cell_empty)" for i
  define I where "I n c \<longleftrightarrow> cells_wf c \<and> cells_size c = cells_size c0 \<and>
      (\<forall>i < cells_size c0. cell c i = (if i < n then new i else cell_empty))" for n c
  have "I (cells_size c0) c1"
    unfolding c1_def
  proof (rule fold_upt_inv)
    show "I 0 (cells_reset d)"
      using size cells_reset_cell [of _ d] by (simp add: I_def cells_reset_wf cell_empty_def)
  next
    fix n c assume n: "n < cells_size c0" and c: "I n c"
    then have e: "cell c n = (-1, ext_reset, 0, {})" by (simp add: I_def cell_empty_def)
    have "cell_step c n (new n) (stream_cp_pass c0 src dst n c)"
      using stream_cp_step [OF wf0 _ n _ e dst, of src] c e
      by (simp add: I_def new_def cell_empty_def split: if_splits)
    then show "I (Suc n) (stream_cp_pass c0 src dst n c)"
      using c by (auto simp: I_def cell_step_def less_Suc_eq)
  qed simp
  then show ?thesis by (simp add: I_def new_def)
qed

lemma kv_held_empty:
  assumes wf: "kv_wf kv" and t: "t < length (kv_seq_to_stream kv)" and e: "kv_held kv t = {}"
    and i: "i < cells_size (kv_cells kv ! (kv_seq_to_stream kv ! t))"
  shows "t \<notin> kc_seq (kv_cells kv ! (kv_seq_to_stream kv ! t)) ! i"
  using kv_held_eq [OF wf t] e i by (auto simp: cells_held_def cell_def)

lemma kv_seq_cp_same_spec:
  assumes wf: "kv_wf kv" and ok: "seq_id_ok kv src" "seq_id_ok kv dst" "src \<noteq> dst"
    and same: "kv_stream_of kv src = kv_stream_of kv dst" and e: "kv_held kv (nat dst) = {}"
  shows "\<exists>kv'. kv_seq_cp src dst p0 p1 kv = Inr kv' \<and> kv_wf kv' \<and>
    kv_seq_to_stream kv' = kv_seq_to_stream kv \<and> kv_hparams kv' = kv_hparams kv \<and>
    (\<forall>t < length (kv_seq_to_stream kv). kv_held kv' t =
       (if t = nat dst then kv_held kv (nat src) \<inter> rng p0 p1 else kv_held kv t))"
proof -
  let ?st = "kv_stream_of kv src"
  let ?c = "kv_cells kv ! ?st"
  let ?lo = "range_lo p0" and ?hi = "range_hi p1"
  let ?r = "fst (cells_loop (seq_cp_pass (nat src) (nat dst) ?lo ?hi) ?c)"
  let ?kv = "kv\<lparr>kv_cells := (kv_cells kv)[?st := ?r], kv_heads := kv_heads kv\<rparr>"
  have st: "?st < kv_n_stream kv" by (rule kv_wf_stream [OF wf ok(1)])
  note c = kv_wf_table [OF wf st]
  have d: "nat dst < length (kv_seq_to_stream kv)" "kv_seq_to_stream kv ! nat dst = ?st"
    "nat src < length (kv_seq_to_stream kv)" "kv_seq_to_stream kv ! nat src = ?st" "nat src \<noteq> nat dst"
    using ok same by (auto simp: seq_id_ok_def kv_stream_of_def)
  have dst: "nat dst < LLAMA_MAX_SEQ" using d(1) wf by (simp add: kv_wf_def)
  have pre: "in_rng ?lo ?hi (nat src) (cell ?c i) \<longrightarrow> nat dst \<notin> snd (snd (snd (cell ?c i))) \<and> nat dst < LLAMA_MAX_SEQ"
    if "i < cells_size ?c" for i
    using kv_held_empty [OF wf d(1) e] that dst d(2) by (simp add: cell_def)
  have "stream_ok kv ?st ?r"
    by (rule seq_cp.loop_stream_ok [where T = "{nat dst}", OF kv_wf_cells [OF wf st] pre])
      (use owners_mono(6) d in auto)
  then have wf': "kv_wf ?kv"
    by (intro kv_wf_update [OF wf st] kv_wf_heads [OF wf])
  note loop = seq_cp.loop_cells(2,3) [OF c(1) pre]
  have cell': "cells_held ?r t = (\<lambda>i. fst (cell ?c i)) ` {i. i < cells_size ?c \<and>
      t \<in> snd (snd (snd (upd_seq_cp (nat src) (nat dst) ?lo ?hi (cell ?c i))))}" for t
    using cells_held_upd [of ?r ?c "upd_seq_cp (nat src) (nat dst) ?lo ?hi" t] loop
    by (simp add: upd_seq_cp_held(2))
  have "cells_held ?c (nat dst) = {}" using kv_held_eq [OF wf d(1)] e d(2) by simp
  then have none: "nat dst \<notin> snd (snd (snd (cell ?c i)))" if "i < cells_size ?c" for i
    using that by (auto simp: cells_held_def)
  have "cells_held ?r t = (if t = nat dst then cells_held ?c (nat src) \<inter> rng p0 p1 else cells_held ?c t)" for t
  proof (cases "t = nat dst")
    case True
    then show ?thesis unfolding cell' using none d(5) by (auto simp: upd_seq_cp_held cells_held_def rng_def)
  next
    case False
    then show ?thesis unfolding cell' upd_seq_cp_held by (simp add: cells_held_def)
  qed
  then have "kv_held ?kv t = (if t = nat dst then kv_held kv (nat src) \<inter> rng p0 p1 else kv_held kv t)"
    if t: "t < length (kv_seq_to_stream kv)" for t
    using kv_held_update [OF wf wf' st _ _ t] kv_held_eq [OF wf t] kv_held_eq [OF wf d(3)] d by auto
  then show ?thesis
    using wf' ok same by (intro exI [of _ ?kv]) (auto simp: kv_seq_cp_def Let_def)
qed

lemma kv_seq_cp_cross_spec:
  assumes wf: "kv_wf kv" and ok: "seq_id_ok kv src" "seq_id_ok kv dst"
    and diff: "kv_stream_of kv src \<noteq> kv_stream_of kv dst"
    and full: "p0 \<le> 0 \<or> int (kv_get_size kv) \<le> p0 + 1" "p1 \<le> 0 \<or> int (kv_get_size kv) \<le> p1 + 1"
  shows "\<exists>kv'. kv_seq_cp src dst p0 p1 kv = Inr kv' \<and> kv_wf kv' \<and>
    kv_seq_to_stream kv' = kv_seq_to_stream kv \<and> kv_hparams kv' = kv_hparams kv \<and>
    (\<forall>i < kv_get_size kv. cell (kv_cells kv' ! kv_stream_of kv dst) i =
      (if nat src \<in> kc_seq (kv_cells kv ! kv_stream_of kv src) ! i
       then (kc_pos (kv_cells kv ! kv_stream_of kv src) ! i, kc_ext (kv_cells kv ! kv_stream_of kv src) ! i,
             kc_shift (kv_cells kv ! kv_stream_of kv src) ! i, {nat dst}) else cell_empty)) \<and>
    (\<forall>t < length (kv_seq_to_stream kv). kv_held kv' t =
       (if t = nat dst then kv_held kv (nat src) else kv_held kv t)) \<and>
    kv_ssrc kv' = kv_ssrc kv @ [kv_stream_of kv src] \<and> kv_sdst kv' = kv_sdst kv @ [kv_stream_of kv dst]"
proof -
  let ?s0 = "kv_stream_of kv src" and ?s1 = "kv_stream_of kv dst"
  let ?c0 = "kv_cells kv ! ?s0"
  let ?c1 = "fold (stream_cp_pass ?c0 (nat src) (nat dst)) [0..<cells_size ?c0] (cells_reset (kv_cells kv ! ?s1))"
  let ?kv1 = "kv\<lparr>kv_cells := (kv_cells kv)[?s1 := ?c1], kv_heads := (kv_heads kv)[?s1 := kv_heads kv ! ?s0]\<rparr>"
  let ?kv = "?kv1\<lparr>kv_ssrc := kv_ssrc kv @ [?s0], kv_sdst := kv_sdst kv @ [?s1]\<rparr>"
  have s: "?s0 < kv_n_stream kv" "?s1 < kv_n_stream kv" by (rule kv_wf_stream [OF wf], fact)+
  note c = kv_wf_table [OF wf s(1)] kv_wf_table [OF wf s(2)]
  have d: "nat dst < length (kv_seq_to_stream kv)" "kv_seq_to_stream kv ! nat dst = ?s1"
    "nat src < length (kv_seq_to_stream kv)" "kv_seq_to_stream kv ! nat src = ?s0"
    using ok by (auto simp: seq_id_ok_def kv_stream_of_def)
  have dst: "nat dst < LLAMA_MAX_SEQ" using d(1) wf by (simp add: kv_wf_def)
  have c1: "cells_wf ?c1" "cells_size ?c1 = cells_size ?c0" "\<forall>i < cells_size ?c0. cell ?c1 i =
      (if nat src \<in> kc_seq ?c0 ! i then (kc_pos ?c0 ! i, kc_ext ?c0 ! i, kc_shift ?c0 ! i, {nat dst}) else cell_empty)"
    using stream_cp_cells [OF c(1) _ dst, of "kv_cells kv ! ?s1" "nat src"] c by simp_all
  have own: "kc_seq ?c1 ! i \<subseteq> {nat dst}" if "i < cells_size ?c0" for i
  proof -
    have "snd (snd (snd (cell ?c1 i))) \<subseteq> {nat dst}" using c1(3) that by (simp add: cell_empty_def)
    then show ?thesis by (simp add: cell_def)
  qed
  have "stream_ok kv ?s1 ?c1" using c1 c own d unfolding stream_ok_def by fastforce
  then have wf1: "kv_wf ?kv1"
    by (intro kv_wf_update [OF wf s(2)] kv_wf_heads [OF wf]) (simp_all add: kv_wf_heads [OF wf] s)
  have "stream_ok ?kv = stream_ok ?kv1" "kv_get_size ?kv = kv_get_size ?kv1"
    by (simp_all add: fun_eq_iff stream_ok_def kv_get_size_def)
  then have wf': "kv_wf ?kv" using wf1 s by (auto simp: kv_wf_def)
  have "distinct (kv_seq_to_stream kv)" using wf diff s by (auto simp: kv_wf_def)
  then have uniq: "t = nat dst" if "t < length (kv_seq_to_stream kv)" "kv_seq_to_stream kv ! t = ?s1" for t
    using nth_eq_iff_index_eq [of "kv_seq_to_stream kv" t "nat dst"] that d(1,2) by simp
  have pt: "nat dst \<in> snd (snd (snd (cell ?c1 i))) \<longleftrightarrow> nat src \<in> snd (snd (snd (cell ?c0 i)))"
    "nat src \<in> snd (snd (snd (cell ?c0 i))) \<Longrightarrow> fst (cell ?c1 i) = fst (cell ?c0 i)"
    if "i < cells_size ?c0" for i
    using c1(3) that by (simp_all add: cell_empty_def cell_def [of ?c0])
  have "cells_held ?c1 (nat dst) = cells_held ?c0 (nat src)"
    unfolding cells_held_def c1(2) by (rule image_cong) (use pt in auto)
  then have copied: "cells_held ?c1 (nat dst) = kv_held kv (nat src)"
    using kv_held_eq [OF wf d(3)] d(4) by simp
  have "kv_held ?kv t = (if t = nat dst then kv_held kv (nat src) else kv_held kv t)"
    if t: "t < length (kv_seq_to_stream kv)" for t
  proof -
    have upd: "kv_held ?kv t = (if kv_seq_to_stream kv ! t = ?s1 then cells_held ?c1 t else kv_held kv t)"
      by (rule kv_held_update [OF wf wf' s(2) _ _ t]) simp_all
    show ?thesis
    proof (cases "t = nat dst")
      case True
      then show ?thesis using upd copied d(2) by simp
    next
      case False
      then have "kv_seq_to_stream kv ! t \<noteq> ?s1" using uniq [OF t] by blast
      then show ?thesis using upd False by simp
    qed
  qed
  moreover have "kv_seq_cp src dst p0 p1 kv = Inr ?kv"
    using ok diff full by (auto simp: kv_seq_cp_def Let_def)
  moreover have "kv_cells ?kv ! ?s1 = ?c1" using wf s by (simp add: kv_wf_def)
  ultimately show ?thesis
    using wf' c1(3) c(2) by (intro exI [of _ ?kv]) simp
qed

section \<open>A new cache\<close>

lemma kv_seq_map_single: "n \<le> 1 \<Longrightarrow> kv_seq_map n = replicate LLAMA_MAX_SEQ 0"
  by (simp add: kv_seq_map_def vec_resize_def)

lemma kv_seq_map_streams: "1 < n \<Longrightarrow> kv_seq_map n = [0..<n]"
proof -
  assume n: "1 < n"
  have fold_id: "fold (\<lambda>s m. m[s := s]) [0..<k] xs = [0..<k] @ drop k xs" if "k \<le> length xs" for k and xs :: "nat list"
    using that
  proof (induction k)
    case (Suc k)
    then show ?case by (simp add: list_update_append Cons_nth_drop_Suc [symmetric])
  qed simp
  show ?thesis
    using n fold_id [of n "vec_resize n 0 (vec_resize LLAMA_MAX_SEQ 0 [])"]
    by (simp add: kv_seq_map_def Let_def)
qed

lemma kv_seq_map_props:
  assumes "0 < n" "n \<le> LLAMA_MAX_SEQ"
  shows "0 < length (kv_seq_map n)" "length (kv_seq_map n) \<le> LLAMA_MAX_SEQ"
    "\<forall>st \<in> set (kv_seq_map n). st < n" "n = 1 \<or> distinct (kv_seq_map n)"
proof -
  consider "n = 1" | "1 < n" using assms by linarith
  then have "0 < length (kv_seq_map n) \<and> length (kv_seq_map n) \<le> LLAMA_MAX_SEQ \<and>
      (\<forall>st \<in> set (kv_seq_map n). st < n) \<and> (n = 1 \<or> distinct (kv_seq_map n))"
    using assms by cases (auto simp: kv_seq_map_single kv_seq_map_streams LLAMA_MAX_SEQ_def)
  then show "0 < length (kv_seq_map n)" "length (kv_seq_map n) \<le> LLAMA_MAX_SEQ"
    "\<forall>st \<in> set (kv_seq_map n). st < n" "n = 1 \<or> distinct (kv_seq_map n)" by blast+
qed

lemma kv_cache_new_wf:
  assumes new: "kv_cache_new hp cs v_trans unified kv_size n_seq_max n_pad n_swa swa_type filt reuse = Inr kv"
    and n: "0 < n_seq_max" "n_seq_max \<le> LLAMA_MAX_SEQ"
  shows "kv_wf kv" "t < length (kv_seq_to_stream kv) \<Longrightarrow> kv_held kv t = {}" "kv_get_size kv = kv_size"
    "kv_hparams kv = hp"
proof -
  define ns where "ns = (if unified then 1 else n_seq_max)"
  have ns: "0 < ns" "ns \<le> LLAMA_MAX_SEQ" using n by (auto simp: ns_def LLAMA_MAX_SEQ_def)
  note sm = kv_seq_map_props [OF ns]
  have f: "kv_n_stream kv = ns" "kv_cells kv = replicate ns (cells_resize kv_size cells_new)"
    "kv_heads kv = replicate ns 0" "kv_buf kv = replicate ns 0" "kv_seq_to_stream kv = kv_seq_map ns"
    "kv_ssrc kv = []" "kv_sdst kv = []" "kv_hparams kv = hp"
    using new by (auto simp: kv_cache_new_def bind_res_Inr_iff ns_def [symmetric] Let_def split: if_splits)
  have in0: "kv_seq_map ns ! 0 < ns" using sm(1,3) nth_mem by blast
  show size: "kv_get_size kv = kv_size" using in0 by (simp add: kv_get_size_def f)
  have empty: "kc_seq (cells_resize kv_size cells_new) ! i = {}" if "i < kv_size" for i
    using cells_resize_cell [OF that, of cells_new] by (simp add: cell_def)
  have "stream_ok kv st (kv_cells kv ! st)" if "st < ns" for st
    using that empty by (simp add: stream_ok_def f size cells_resize_wf)
  then show wf: "kv_wf kv" using sm by (simp add: kv_wf_def f)
  show "kv_held kv t = {}" if t: "t < length (kv_seq_to_stream kv)"
    using t sm(3) empty by (auto simp: kv_held_def f size)
  show "kv_hparams kv = hp" by (rule f)
qed

section \<open>The cache provides the memory contract\<close>

lemma seq_id_ok_cong: "kv_seq_to_stream kv' = kv_seq_to_stream kv \<Longrightarrow> seq_id_ok kv' = seq_id_ok kv"
  by (simp add: fun_eq_iff seq_id_ok_def)

lemma seq_id_okD: "seq_id_ok kv s \<Longrightarrow> nat s < length (kv_seq_to_stream kv)" "seq_id_ok kv s \<Longrightarrow> 0 \<le> s"
  by (simp_all add: seq_id_ok_def)

lemma kv_seq_cp_full_spec:
  assumes wf: "kv_wf kv" and ok: "seq_id_ok kv src" "seq_id_ok kv dst" "src \<noteq> dst"
    and e: "kv_held kv (nat dst) = {}" and b: "kv_held kv (nat src) \<subseteq> {..<INT32_MAX}"
  shows "\<exists>kv'. kv_seq_cp src dst (-1) (-1) kv = Inr kv' \<and> kv_wf kv' \<and>
    kv_seq_to_stream kv' = kv_seq_to_stream kv \<and> kv_hparams kv' = kv_hparams kv \<and>
    (\<forall>t < length (kv_seq_to_stream kv). kv_held kv' t =
       (if t = nat dst then kv_held kv (nat src) else kv_held kv t))"
proof (cases "kv_stream_of kv src = kv_stream_of kv dst")
  case True
  have eq: "kv_held kv (nat src) \<inter> rng (-1) (-1) = kv_held kv (nat src)"
    using b kv_held_nonneg [OF wf seq_id_okD(1) [OF ok(1)]]
    by (auto simp: rng_def range_lo_def range_hi_def)
  from kv_seq_cp_same_spec [OF wf ok True e, of "-1" "-1"] show ?thesis unfolding eq .
next
  case False
  then show ?thesis using kv_seq_cp_cross_spec [OF wf ok(1,2) False, of "-1" "-1"] by auto
qed

interpretation kv: memory_i "kv_wf :: ('d :: zero) kv_cache \<Rightarrow> bool" seq_id_ok kv_held
  "\<lambda>kv s. kv_held kv s = {}" "\<lambda>kv. n_pos_per_embd (kv_hparams kv) = 1" kv_clear
  kv_seq_rm kv_seq_cp kv_seq_keep kv_seq_add kv_seq_pos_min kv_seq_pos_max
proof
  fix m :: "'d kv_cache" and s p p0 p1 d src dst and dat :: bool
  show "seq_id_ok m s \<Longrightarrow> 0 \<le> s" by (rule seq_id_okD)
  assume wf: "kv_wf m"
  show "kv_wf (kv_clear dat m) \<and> seq_id_ok (kv_clear dat m) = seq_id_ok m \<and>
    (n_pos_per_embd (kv_hparams (kv_clear dat m)) = 1) = (n_pos_per_embd (kv_hparams m) = 1) \<and>
    (\<forall>s. seq_id_ok m s \<longrightarrow> kv_held (kv_clear dat m) (nat s) = {} \<and> kv_held (kv_clear dat m) (nat s) = {})"
    using kv_clear_spec [OF wf] seq_id_ok_cong [of "kv_clear dat m" m]
    by (simp add: seq_id_okD)
  { assume "seq_id_ok m src" "seq_id_ok m dst" "src \<noteq> dst" "kv_held m (nat dst) = {}"
      "kv_held m (nat src) \<subseteq> {..<INT32_MAX}"
    then obtain kv' where "kv_seq_cp src dst (-1) (-1) m = Inr kv'" "kv_wf kv'"
      "kv_seq_to_stream kv' = kv_seq_to_stream m" "kv_hparams kv' = kv_hparams m"
      "\<forall>t < length (kv_seq_to_stream m). kv_held kv' t = (if t = nat dst then kv_held m (nat src) else kv_held m t)"
      using kv_seq_cp_full_spec [OF wf] by blast
    then show "\<exists>m'. kv_seq_cp src dst (-1) (-1) m = Inr m' \<and> kv_wf m' \<and> seq_id_ok m' = seq_id_ok m \<and>
        (n_pos_per_embd (kv_hparams m') = 1) = (n_pos_per_embd (kv_hparams m) = 1) \<and>
        (\<forall>t. seq_id_ok m t \<longrightarrow> kv_held m' (nat t) = (if t = dst then kv_held m (nat src) else kv_held m (nat t)))"
      using seq_id_ok_cong [of kv' m] \<open>seq_id_ok m dst\<close>
      by (intro exI [of _ kv']) (auto simp: seq_id_ok_def) }
  assume ok: "seq_id_ok m s"
  show "finite (kv_held m (nat s))" by simp
  show "p \<in> kv_held m (nat s) \<Longrightarrow> 0 \<le> p" using kv_held_nonneg [OF wf] seq_id_okD(1) [OF ok] by blast
  show "kv_seq_pos_min s m = Inr (ends_of (kv_held m (nat s)) Min)"
    "kv_seq_pos_max s m = Inr (ends_of (kv_held m (nat s)) Max)"
    using kv_seq_pos_spec [OF wf ok] by (simp_all add: ends_of_def)
  obtain kv' where "kv_seq_rm s p0 p1 m = Inr (True, kv')" "kv_wf kv'"
      "kv_seq_to_stream kv' = kv_seq_to_stream m" "kv_hparams kv' = kv_hparams m"
      "\<forall>t < length (kv_seq_to_stream m). kv_held kv' t = (if t = nat s then kv_held m t - rng p0 p1 else kv_held m t)"
    using kv_seq_rm_spec [OF wf ok] by blast
  then show "\<exists>m'. kv_seq_rm s p0 p1 m = Inr (True, m') \<and> kv_wf m' \<and> seq_id_ok m' = seq_id_ok m \<and>
      (n_pos_per_embd (kv_hparams m') = 1) = (n_pos_per_embd (kv_hparams m) = 1) \<and>
      (\<forall>t. seq_id_ok m t \<longrightarrow> kv_held m' (nat t) = (if t = s then kv_held m (nat t) - rng p0 p1 else kv_held m (nat t)))"
    using seq_id_ok_cong [of kv' m] ok by (intro exI [of _ kv']) (auto simp: seq_id_ok_def)
  obtain kk where "kv_seq_keep s m = Inr kk" "kv_wf kk"
      "kv_seq_to_stream kk = kv_seq_to_stream m" "kv_hparams kk = kv_hparams m"
      "\<forall>t < length (kv_seq_to_stream m). kv_held kk t =
        (if t = nat s \<or> kv_seq_to_stream m ! t \<noteq> kv_stream_of m s then kv_held m t else {})"
    using kv_seq_keep_spec [OF wf ok] by blast
  then show "\<exists>m'. kv_seq_keep s m = Inr m' \<and> kv_wf m' \<and> seq_id_ok m' = seq_id_ok m \<and>
      (n_pos_per_embd (kv_hparams m') = 1) = (n_pos_per_embd (kv_hparams m) = 1) \<and>
      kv_held m' (nat s) = kv_held m (nat s) \<and>
      (\<forall>t. seq_id_ok m t \<longrightarrow> kv_held m' (nat t) = kv_held m (nat t) \<or> kv_held m' (nat t) = {})"
    using seq_id_ok_cong [of kk m] ok by (intro exI [of _ kk]) (auto simp: seq_id_ok_def)
  assume "n_pos_per_embd (kv_hparams m) = 1"
  then obtain ka where "kv_seq_add s p0 p1 d m = Inr ka" "kv_wf ka"
      "kv_seq_to_stream ka = kv_seq_to_stream m" "kv_hparams ka = kv_hparams m"
      "kv_held ka (nat s) = (kv_held m (nat s) - rng p0 p1) \<union>
        {p + d | p. p \<in> kv_held m (nat s) \<inter> rng p0 p1 \<and> 0 \<le> p + d}"
    using kv_seq_add_spec [OF wf ok] by blast
  then show "\<exists>m'. kv_seq_add s p0 p1 d m = Inr m' \<and> kv_wf m' \<and> seq_id_ok m' = seq_id_ok m \<and>
      (n_pos_per_embd (kv_hparams m') = 1) = (n_pos_per_embd (kv_hparams m) = 1) \<and>
      kv_held m' (nat s) = (kv_held m (nat s) - rng p0 p1) \<union>
        {p + d | p. p \<in> kv_held m (nat s) \<inter> rng p0 p1 \<and> 0 \<le> p + d}"
    using seq_id_ok_cong [of ka m] by (intro exI [of _ ka]) simp
qed

section \<open>Small caches\<close>

text \<open>Four cells, without and with streams, for evaluations; \<open>demo_swa\<close> has a window of two.\<close>

definition demo_kv :: "nat kv_cache" where
  "demo_kv = projr (kv_cache_new demo_hp True False True 4 2 1 0 LLAMA_SWA_TYPE_NONE None None)"

definition demo_kv2 :: "nat kv_cache" where
  "demo_kv2 = projr (kv_cache_new demo_hp True False False 4 2 1 0 LLAMA_SWA_TYPE_NONE None None)"

definition demo_swa :: "nat kv_cache" where
  "demo_swa = projr (kv_cache_new demo_hp True False True 4 2 1 2 LLAMA_SWA_TYPE_STANDARD None None)"

lemma kv_new_Inr: "\<not> isl r \<Longrightarrow> r = Inr (projr r)"
  by (cases r) auto

lemma demo_kv_new:
  "kv_cache_new demo_hp True False True 4 2 1 0 LLAMA_SWA_TYPE_NONE None None = Inr demo_kv"
  "kv_cache_new demo_hp True False False 4 2 1 0 LLAMA_SWA_TYPE_NONE None None = Inr demo_kv2"
  "kv_cache_new demo_hp True False True 4 2 1 2 LLAMA_SWA_TYPE_STANDARD None None = Inr demo_swa"
  unfolding demo_kv_def demo_kv2_def demo_swa_def by (rule kv_new_Inr, code_simp)+

lemma demo_kv_wf: "kv_wf demo_kv" "kv_wf demo_kv2" "kv_wf demo_swa"
  using demo_kv_new [THEN kv_cache_new_wf(1)] by (simp_all add: LLAMA_MAX_SEQ_def)

end
