(* ===== verification/Batch.thy ===== *)
theory Batch
  imports Prelude "HOL-Library.Word" "HOL-Library.Multiset"
begin

text \<open>
  Sanitizing and splitting an input batch (\<open>src/llama-batch.h\<close>, \<open>src/llama-batch.cpp\<close>):
  \<open>llama_batch_allocr::init\<close> in the phases the source marks by comments, the three ways of
  cutting a batch into micro-batches, and \<open>ubatch_add\<close>. A null pointer of the C structs is
  \<^const>\<open>None\<close>; an embedding float is its 32-bit pattern, since it is only copied. Debug printing
  is left out.
\<close>

section \<open>Data\<close>

record llama_batch =
  b_n_tokens :: nat
  b_token :: "llama_token list option"
  b_embd :: "32 word list option"
  b_pos :: "llama_pos list option"
  b_n_seq_id :: "nat list option"
  b_seq_id :: "llama_seq_id list list option"
  b_logits :: "int list option"

record llama_ubatch =
  ub_equal_seqs :: bool
  ub_n_tokens :: nat
  ub_n_seq_tokens :: nat
  ub_n_seqs :: nat
  ub_n_seqs_unq :: nat
  ub_n_pos :: nat
  ub_token :: "llama_token list option"
  ub_embd :: "32 word list option"
  ub_pos :: "llama_pos list"
  ub_n_seq_id :: "nat list"
  ub_seq_id :: "nat list list"
  ub_seq_id_unq :: "nat list"
  ub_seq_idx :: "int list"
  ub_output :: "int list"

definition ub_is_pos_2d :: "llama_ubatch \<Rightarrow> bool" where
  "ub_is_pos_2d ub \<longleftrightarrow> ub_n_pos ub \<ge> 3"

text \<open>The value-initialised \<open>llama_ubatch{}\<close> that ends a split.\<close>

definition ub_none :: llama_ubatch where
  "ub_none = \<lparr>ub_equal_seqs = False, ub_n_tokens = 0, ub_n_seq_tokens = 0, ub_n_seqs = 0,
     ub_n_seqs_unq = 0, ub_n_pos = 0, ub_token = None, ub_embd = None, ub_pos = [],
     ub_n_seq_id = [], ub_seq_id = [], ub_seq_id_unq = [], ub_seq_idx = [], ub_output = []\<rparr>"

text \<open>
  The allocator: the batch with its generated fields, the per-sequence position sets, the
  coupling relation (a set of pairs for the matrix \<open>seq_cpl\<close>), the sequence set of each token
  and the tokens of each sequence set, and which tokens earlier micro-batches took. Sequence
  ids are non-negative once validated and are \<^typ>\<open>nat\<close> from then on.
\<close>

record llama_batch_allocr =
  ba_batch :: llama_batch
  ba_n_pos_per_embd :: nat
  ba_n_embd :: nat
  ba_n_seq_max :: nat
  ba_n_outputs :: nat
  ba_seq_id_unq :: "nat list"
  ba_seq_idx :: "int list"
  ba_has_cpl :: bool
  ba_seq_pos :: "nat \<Rightarrow> llama_pos set"
  ba_seq_cpl :: "(nat \<times> nat) set"
  ba_seq_set :: "nat set list"
  ba_seq_set_map :: "nat set \<Rightarrow> nat list"
  ba_out_ids :: "nat list"
  ba_n_used :: nat
  ba_used :: "bool list"

definition batch_empty :: llama_batch where
  "batch_empty = \<lparr>b_n_tokens = 0, b_token = None, b_embd = None, b_pos = None,
     b_n_seq_id = None, b_seq_id = None, b_logits = None\<rparr>"

definition llama_batch_get_one :: "llama_token list \<Rightarrow> nat \<Rightarrow> llama_batch" where
  "llama_batch_get_one tokens n = batch_empty\<lparr>b_n_tokens := n, b_token := Some tokens\<rparr>"

definition batch_allocr_new :: "nat \<Rightarrow> llama_batch_allocr" where
  "batch_allocr_new n_pos = \<lparr>ba_batch = batch_empty, ba_n_pos_per_embd = n_pos, ba_n_embd = 0,
     ba_n_seq_max = 0, ba_n_outputs = 0, ba_seq_id_unq = [],
     ba_seq_idx = replicate LLAMA_MAX_SEQ (-1), ba_has_cpl = False, ba_seq_pos = (\<lambda>s. {}),
     ba_seq_cpl = {}, ba_seq_set = [], ba_seq_set_map = (\<lambda>S. []), ba_out_ids = [],
     ba_n_used = 0, ba_used = []\<rparr>"

definition ba_clear :: "llama_batch_allocr \<Rightarrow> llama_batch_allocr" where
  "ba_clear a = a\<lparr>ba_n_outputs := 0, ba_batch := batch_empty, ba_seq_id_unq := [],
     ba_seq_pos := (\<lambda>s. {}), ba_seq_cpl := {}, ba_seq_set := [], ba_seq_set_map := (\<lambda>S. []),
     ba_seq_idx := replicate (length (ba_seq_idx a)) (-1)\<rparr>"

definition ba_get_n_tokens :: "llama_batch_allocr \<Rightarrow> nat" where
  "ba_get_n_tokens a = b_n_tokens (ba_batch a)"

definition ba_get_n_used :: "llama_batch_allocr \<Rightarrow> nat" where
  "ba_get_n_used a = ba_n_used a"

definition ba_split_reset :: "llama_batch_allocr \<Rightarrow> llama_batch_allocr" where
  "ba_split_reset a = a\<lparr>ba_out_ids := [], ba_n_used := 0,
     ba_used := replicate (ba_get_n_tokens a) False\<rparr>"

text \<open>The positions of a sequence in the batch: the ends of a \<open>std::set\<close>, -1 when it is empty.\<close>

definition ba_seq_pos_min :: "llama_batch_allocr \<Rightarrow> nat \<Rightarrow> llama_pos" where
  "ba_seq_pos_min a s = (if ba_seq_pos a s = {} then -1 else Min (ba_seq_pos a s))"

definition ba_seq_pos_max :: "llama_batch_allocr \<Rightarrow> nat \<Rightarrow> llama_pos" where
  "ba_seq_pos_max a s = (if ba_seq_pos a s = {} then -1 else Max (ba_seq_pos a s))"

text \<open>Reading the arrays of a batch whose pointers are set: the first \<open>n_seq_id[i]\<close> ids of token \<open>i\<close>.\<close>

definition batch_seqs :: "llama_batch \<Rightarrow> nat \<Rightarrow> nat list" where
  "batch_seqs b i = map nat (take (the (b_n_seq_id b) ! i) (the (b_seq_id b) ! i))"

definition batch_pos :: "llama_batch \<Rightarrow> nat \<Rightarrow> llama_pos" where
  "batch_pos b i = the (b_pos b) ! i"

definition batch_logit :: "llama_batch \<Rightarrow> nat \<Rightarrow> int" where
  "batch_logit b i = the (b_logits b) ! i"

section \<open>Initialisation\<close>

subsection \<open>Validation\<close>

definition batch_validate :: "nat \<Rightarrow> nat \<Rightarrow> llama_batch \<Rightarrow> bool" where
  "batch_validate n_vocab n_seq_max b =
    (if n_seq_max > LLAMA_MAX_SEQ then False
     else if (case b_token b of None \<Rightarrow> False
              | Some tok \<Rightarrow> list_ex (\<lambda>i. tok ! i < 0 \<or> nat (tok ! i) \<ge> n_vocab) [0..<b_n_tokens b])
     then False
     else if (case b_seq_id b of None \<Rightarrow> False
              | Some sid \<Rightarrow> list_ex (\<lambda>i. list_ex (\<lambda>s.
                  sid ! i ! s < 0 \<or> sid ! i ! s \<ge> int n_seq_max)
                    [0..<the (b_n_seq_id b) ! i]) [0..<b_n_tokens b])
     then False
     else True)"

subsection \<open>Missing fields\<close>

definition fill_seq_id :: "llama_batch \<Rightarrow> llama_batch" where
  "fill_seq_id b =
    (let b1 = (case b_n_seq_id b of None \<Rightarrow> b\<lparr>b_n_seq_id := Some (replicate (b_n_tokens b) 1)\<rparr>
               | Some _ \<Rightarrow> b)
     in case b_seq_id b1 of
          None \<Rightarrow> b1\<lparr>b_seq_id := Some (replicate (b_n_tokens b1) [0])\<rparr>
        | Some _ \<Rightarrow> b1)"

text \<open>
  The generated positions: \<open>p0[s]\<close> starts behind what the memory holds of sequence \<open>s\<close>; a
  token takes the next position of its first sequence and moves all of its sequences behind it.
\<close>

definition pos_start :: "(nat \<Rightarrow> llama_pos) option \<Rightarrow> nat \<Rightarrow> llama_pos" where
  "pos_start mem_max s = (case mem_max of None \<Rightarrow> 0 | Some f \<Rightarrow> f s + 1)"

definition fill_pos_pass ::
    "llama_batch \<Rightarrow> nat \<Rightarrow> llama_pos list \<times> (nat \<Rightarrow> llama_pos) \<Rightarrow> llama_pos list \<times> (nat \<Rightarrow> llama_pos)" where
  "fill_pos_pass b i st =
    (case st of (pos, p0) \<Rightarrow>
      let seq_id = nat (the (b_seq_id b) ! i ! 0);
          p = p0 seq_id
      in (pos @ [p], fold (\<lambda>s p0. p0(s := p + 1)) (batch_seqs b i) p0))"

definition fill_pos :: "(nat \<Rightarrow> llama_pos) option \<Rightarrow> llama_batch \<Rightarrow> llama_batch" where
  "fill_pos mem_max b =
    (case b_pos b of
       None \<Rightarrow> b\<lparr>b_pos := Some (fst (fold (fill_pos_pass b) [0..<b_n_tokens b]
                                        ([], pos_start mem_max)))\<rparr>
     | Some _ \<Rightarrow> b)"

definition fill_logits :: "bool \<Rightarrow> llama_batch \<Rightarrow> llama_batch" where
  "fill_logits output_all b =
    (case b_logits b of
       None \<Rightarrow>
         b\<lparr>b_logits := Some
            (if output_all then replicate (b_n_tokens b) 1
             else (replicate (b_n_tokens b) 0)[b_n_tokens b - 1 := 1])\<rparr>
     | Some lg \<Rightarrow>
         if output_all \<and> list_ex (\<lambda>i. lg ! i = 0) [0..<b_n_tokens b]
         then b\<lparr>b_logits := Some (replicate (b_n_tokens b) 1)\<rparr>
         else b)"

subsection \<open>Statistics\<close>

definition count_outputs :: "llama_batch \<Rightarrow> nat" where
  "count_outputs b =
     fold (\<lambda>i n. n + (if batch_logit b i \<noteq> 0 then 1 else 0)) [0..<b_n_tokens b] 0"

definition couple_pass :: "llama_batch \<Rightarrow> nat \<Rightarrow> llama_batch_allocr \<Rightarrow> llama_batch_allocr" where
  "couple_pass b i a =
     fold (\<lambda>s a.
        let s0 = batch_seqs b i ! 0; s1 = batch_seqs b i ! s;
            a1 = a\<lparr>ba_seq_pos := (ba_seq_pos a)(s1 := insert (batch_pos b i) (ba_seq_pos a s1))\<rparr>
        in if s > 0 then a1\<lparr>ba_seq_cpl := insert (s1, s0) (ba_seq_cpl a1), ba_has_cpl := True\<rparr>
           else a1)
       [0..<length (batch_seqs b i)] a"

definition seq_set_pass :: "llama_batch \<Rightarrow> nat \<Rightarrow> llama_batch_allocr \<Rightarrow> llama_batch_allocr" where
  "seq_set_pass b i a =
    (let cur = set (batch_seqs b i)
     in a\<lparr>ba_seq_set := ba_seq_set a @ [cur],
          ba_seq_set_map := (ba_seq_set_map a)(cur := ba_seq_set_map a cur @ [i])\<rparr>)"

text \<open>
  The unique ids in increasing order and the index of each. Both \<open>init\<close> (line 201) and
  \<open>ubatch_add\<close> (line 741) run this loop.
\<close>

definition unq_ids :: "nat \<Rightarrow> nat set \<Rightarrow> nat list \<times> int list \<Rightarrow> nat list \<times> int list" where
  "unq_ids n_seq_max unq st =
     fold (\<lambda>s (ids, idx). if s \<in> unq then (ids @ [s], idx[s := int (length ids)]) else (ids, idx))
       [0..<n_seq_max] st"

definition batch_stats :: "nat \<Rightarrow> nat \<Rightarrow> llama_batch_allocr \<Rightarrow> llama_batch_allocr" where
  "batch_stats n_embd n_seq_max a =
    (let b = ba_batch a;
         a1 = a\<lparr>ba_n_embd := n_embd, ba_n_seq_max := n_seq_max,
                ba_n_outputs := ba_n_outputs a + count_outputs b, ba_has_cpl := False\<rparr>;
         a2 = fold (couple_pass b) [0..<b_n_tokens b] a1;
         a3 = fold (seq_set_pass b) [0..<b_n_tokens b] a2;
         unq = (\<Union>i \<in> {..<b_n_tokens b}. set (batch_seqs b i));
         ui = unq_ids n_seq_max unq (ba_seq_id_unq a3, ba_seq_idx a3)
     in a3\<lparr>ba_seq_id_unq := fst ui, ba_seq_idx := snd ui\<rparr>)"

subsection \<open>Consistency checks\<close>

text \<open>
  The memory is its two queries, \<open>seq_pos_min\<close> and \<open>seq_pos_max\<close>; \<^const>\<open>None\<close> is the null
  pointer. With several position inputs (M-RoPE) positions may jump forward, otherwise they
  continue what the memory holds without a gap.
\<close>

definition check_seq_mrope :: "(nat \<Rightarrow> llama_pos) option \<Rightarrow> llama_batch_allocr \<Rightarrow> nat \<Rightarrow> bool" where
  "check_seq_mrope mem_max a s =
    (if ba_seq_pos a s = {} then True
     else let p0 = (case mem_max of None \<Rightarrow> -1 | Some f \<Rightarrow> f s) in
       case b_token (ba_batch a) of
         Some _ \<Rightarrow> \<not> (p0 \<ge> 0 \<and> p0 \<ge> ba_seq_pos_min a s)
       | None \<Rightarrow> \<not> (p0 \<ge> 0 \<and> p0 > ba_seq_pos_min a s))"

definition check_seq_continuous ::
    "(nat \<Rightarrow> llama_pos) option \<Rightarrow> llama_batch_allocr \<Rightarrow> nat \<Rightarrow> bool" where
  "check_seq_continuous mem_max a s =
    (if ba_seq_pos a s = {} then True
     else let p0 = (case mem_max of None \<Rightarrow> -1 | Some f \<Rightarrow> f s) in
       if p0 \<ge> 0 \<and> ba_seq_pos_min a s \<noteq> p0 + 1 then False
       else \<not> (ba_seq_pos_max a s - ba_seq_pos_min a s + 1 > int (card (ba_seq_pos a s))))"

definition check_positions :: "(nat \<Rightarrow> llama_pos) option \<Rightarrow> nat \<Rightarrow> llama_batch_allocr \<Rightarrow> bool" where
  "check_positions mem_max n_seq_max a =
    (if ba_n_pos_per_embd a > 1
     then list_all (check_seq_mrope mem_max a) [0..<n_seq_max]
     else list_all (check_seq_continuous mem_max a) [0..<n_seq_max])"

definition check_coupled ::
    "((nat \<Rightarrow> llama_pos) \<times> (nat \<Rightarrow> llama_pos)) option \<Rightarrow> nat \<Rightarrow> llama_batch_allocr \<Rightarrow> bool" where
  "check_coupled mem n_seq_max a =
    (case mem of
       None \<Rightarrow> True
     | Some (mn, mx) \<Rightarrow>
         list_all (\<lambda>s0. list_all (\<lambda>s1.
             (s0, s1) \<in> ba_seq_cpl a \<longrightarrow> mn s0 = mn s1 \<and> mx s0 = mx s1) [0..<n_seq_max])
           [0..<n_seq_max])"

text \<open>
  The last loop narrows, per sequence, the set of sequences seen together with it and compares
  positions with \<open>cur_seq_pos\<close>. The source initialises \<open>cur_seq_pos\<close> to -1 and never writes
  it again; the model keeps that.
\<close>

fun check_sets_token ::
    "nat set \<Rightarrow> llama_pos \<Rightarrow> nat list \<Rightarrow> (nat \<Rightarrow> nat set) \<Rightarrow> (nat \<Rightarrow> llama_pos) \<Rightarrow> (nat \<Rightarrow> nat set) option" where
  "check_sets_token S pos [] cur cur_pos = Some cur"
| "check_sets_token S pos (s # ss) cur cur_pos =
    (let cur' = cur(s := cur s \<inter> S)
     in if cur' s = {} then None
        else if pos < cur_pos s then None
        else check_sets_token S pos ss cur' cur_pos)"

fun check_sets_loop ::
    "llama_batch_allocr \<Rightarrow> nat list \<Rightarrow> (nat \<Rightarrow> nat set) \<Rightarrow> (nat \<Rightarrow> llama_pos) \<Rightarrow> bool" where
  "check_sets_loop a [] cur cur_pos = True"
| "check_sets_loop a (i # is) cur cur_pos =
    (case check_sets_token (ba_seq_set a ! i) (batch_pos (ba_batch a) i) (batch_seqs (ba_batch a) i)
            cur cur_pos of
       None \<Rightarrow> False
     | Some cur' \<Rightarrow> check_sets_loop a is cur' cur_pos)"

definition check_sets :: "llama_batch_allocr \<Rightarrow> bool" where
  "check_sets a = check_sets_loop a [0..<b_n_tokens (ba_batch a)]
     (\<lambda>s. {..<LLAMA_MAX_SEQ}) (\<lambda>s. -1)"

definition batch_init ::
    "llama_batch \<Rightarrow> nat \<Rightarrow> ((nat \<Rightarrow> llama_pos) \<times> (nat \<Rightarrow> llama_pos)) option \<Rightarrow> nat \<Rightarrow> nat \<Rightarrow> bool \<Rightarrow>
     llama_batch_allocr \<Rightarrow> (bool \<times> llama_batch_allocr) res" where
  "batch_init batch_inp n_vocab mem n_embd n_seq_max output_all a0 =
    (let a1 = (ba_clear a0)\<lparr>ba_batch := batch_inp\<rparr>
     in if \<not> b_n_tokens batch_inp > 0 then Inl (Ggml_assert ''batch.n_tokens > 0'')
        else if \<not> batch_validate n_vocab n_seq_max batch_inp then Inr (False, a1)
        else
          let b = fill_logits output_all (fill_pos (map_option snd mem) (fill_seq_id batch_inp));
              a2 = batch_stats n_embd n_seq_max (a1\<lparr>ba_batch := b\<rparr>)
          in if \<not> check_positions (map_option snd mem) n_seq_max a2 then Inr (False, a2)
             else if \<not> check_coupled mem n_seq_max a2 then Inr (False, a2)
             else if \<not> check_sets a2 then Inr (False, a2)
             else Inr (True, ba_split_reset a2))"

section \<open>Cutting a batch into micro-batches\<close>

subsection \<open>Copying tokens into a micro-batch\<close>

definition set_used :: "nat \<Rightarrow> llama_batch_allocr \<Rightarrow> llama_batch_allocr" where
  "set_used i a = a\<lparr>ba_used := (ba_used a)[i := True], ba_n_used := ba_n_used a + 1\<rparr>"

definition ubatch_add ::
    "llama_batch_allocr \<Rightarrow> nat list \<Rightarrow> nat \<Rightarrow> bool \<Rightarrow> llama_ubatch \<times> llama_batch_allocr" where
  "ubatch_add a idxs n_seqs equal_seqs =
    (let b = ba_batch a;
         n_tokens = length idxs;
         unq = unq_ids (ba_n_seq_max a) (\<Union>i \<in> set idxs. set (batch_seqs b i))
                 ([], replicate LLAMA_MAX_SEQ (-1));
         src_off = (\<lambda>j. case b_token b of Some _ \<Rightarrow> 0 | None \<Rightarrow> j * b_n_tokens b)
     in (\<lparr>ub_equal_seqs = equal_seqs, ub_n_tokens = n_tokens,
          ub_n_seq_tokens = n_tokens div n_seqs, ub_n_seqs = n_seqs,
          ub_n_seqs_unq = length (fst unq), ub_n_pos = ba_n_pos_per_embd a,
          ub_token = map_option (\<lambda>tok. map (\<lambda>i. tok ! i) idxs) (b_token b),
          ub_embd = map_option (\<lambda>e. concat (map (\<lambda>i. take (ba_n_embd a) (drop (i * ba_n_embd a) e)) idxs))
                      (b_embd b),
          ub_pos = concat (map (\<lambda>j. map (\<lambda>i. the (b_pos b) ! (src_off j + i)) idxs)
                     [0..<ba_n_pos_per_embd a]),
          ub_n_seq_id = map (\<lambda>i. the (b_n_seq_id b) ! i) idxs,
          ub_seq_id = map (batch_seqs b) idxs,
          ub_seq_id_unq = fst unq, ub_seq_idx = snd unq,
          ub_output = map (batch_logit b) idxs\<rparr>,
        a\<lparr>ba_out_ids := ba_out_ids a @ filter (\<lambda>i. batch_logit b i \<noteq> 0) idxs\<rparr>))"

text \<open>The dummy micro-batch a graph is reserved with; the allocator is cleared on the way.\<close>

definition ubatch_reserve ::
    "nat \<Rightarrow> nat \<Rightarrow> llama_batch_allocr \<Rightarrow> llama_ubatch \<times> llama_batch_allocr" where
  "ubatch_reserve n_seq_tokens n_seqs a =
    (let n_tokens = n_seq_tokens * n_seqs;
         unq = fold (\<lambda>s (ids, idx). (ids @ [s], idx[s := int s])) [0..<n_seqs]
                 ([], replicate LLAMA_MAX_SEQ (-1))
     in (\<lparr>ub_equal_seqs = True, ub_n_tokens = n_tokens, ub_n_seq_tokens = n_seq_tokens,
          ub_n_seqs = n_seqs, ub_n_seqs_unq = n_seqs, ub_n_pos = ba_n_pos_per_embd a,
          ub_token = Some (replicate n_tokens 0), ub_embd = None,
          ub_pos = replicate n_tokens 0, ub_n_seq_id = replicate n_tokens 0,
          ub_seq_id = replicate n_tokens [],
          ub_seq_id_unq = fst unq, ub_seq_idx = snd unq, ub_output = replicate n_tokens 0\<rparr>,
        ba_split_reset (ba_clear a)))"

subsection \<open>In order\<close>

function first_unused :: "bool list \<Rightarrow> nat \<Rightarrow> nat" where
  "first_unused used cur = (if cur < length used \<and> used ! cur then first_unused used (cur + 1) else cur)"
  by pat_completeness auto
termination by (relation "measure (\<lambda>(used, cur). length used - cur)") auto

declare first_unused.simps [simp del]

function simple_loop ::
    "nat \<Rightarrow> nat \<Rightarrow> nat list \<Rightarrow> llama_batch_allocr \<Rightarrow> nat list \<times> llama_batch_allocr" where
  "simple_loop n_ubatch cur idxs a =
    (let idxs' = idxs @ [cur];
         a' = set_used cur a
     in if cur + 1 \<ge> length (ba_used a') then (idxs', a')
        else if length idxs' \<ge> n_ubatch then (idxs', a')
        else simple_loop n_ubatch (cur + 1) idxs' a')"
  by pat_completeness auto
termination
  by (relation "measure (\<lambda>(n, cur, idxs, a). length (ba_used a) - cur)") (auto simp: set_used_def)

declare simple_loop.simps [simp del]

text \<open>The tokens a split takes, and the allocator with them marked; no token when it is done.\<close>

definition simple_idxs :: "nat \<Rightarrow> llama_batch_allocr \<Rightarrow> nat list \<times> llama_batch_allocr" where
  "simple_idxs n_ubatch a =
    (let cur = first_unused (ba_used a) 0
     in if cur \<ge> length (ba_used a) then ([], a) else simple_loop n_ubatch cur [] a)"

definition split_simple :: "nat \<Rightarrow> llama_batch_allocr \<Rightarrow> llama_ubatch \<times> llama_batch_allocr" where
  "split_simple n_ubatch a =
    (case simple_idxs n_ubatch a of (idxs, a') \<Rightarrow>
       if idxs = [] then (ub_none, a') else ubatch_add a' idxs (length idxs) False)"

subsection \<open>Equal shares of several sequences\<close>

text \<open>
  The sequence sets that take part: those of the unused tokens, in order, that meet none of the
  chosen ones; with \<open>sequential\<close> only consecutive ids.
\<close>

fun equal_select ::
    "llama_batch_allocr \<Rightarrow> nat \<Rightarrow> bool \<Rightarrow> nat list \<Rightarrow> nat set list \<Rightarrow> llama_seq_id \<Rightarrow> nat set list" where
  "equal_select a n_ubatch sequential [] cur last_id = cur"
| "equal_select a n_ubatch sequential (i # is) cur last_id =
    (if ba_used a ! i then equal_select a n_ubatch sequential is cur last_id
     else
       let add = list_all (\<lambda>S. S \<inter> ba_seq_set a ! i = {}) cur;
           first = the (b_seq_id (ba_batch a)) ! i ! 0;
           add' = (if sequential then add \<and> (cur = [] \<or> first = last_id + 1) else add)
       in if add'
          then let cur' = cur @ [ba_seq_set a ! i]
               in if length cur' > n_ubatch then cur'
                  else equal_select a n_ubatch sequential is cur' first
          else equal_select a n_ubatch sequential is cur last_id)"

text \<open>
  The first unused token of a chosen set. The source reads on past the end when there is none;
  a chosen set has one.
\<close>

function equal_skip :: "bool list \<Rightarrow> nat list \<Rightarrow> nat \<Rightarrow> nat" where
  "equal_skip used toks cur =
     (if cur < length toks \<and> used ! (toks ! cur) then equal_skip used toks (cur + 1) else cur)"
  by pat_completeness auto
termination by (relation "measure (\<lambda>(used, toks, cur). length toks - cur)") auto

declare equal_skip.simps [simp del]

text \<open>
  One token of every chosen set per round, as long as each set has one left and another round
  fits. \<open>toks\<close> are the lists \<open>seq_set_map[cur_seq_set[s]]\<close>; there is at least one.
\<close>

function equal_loop ::
    "nat \<Rightarrow> nat list list \<Rightarrow> nat list \<Rightarrow> nat list list \<Rightarrow> llama_batch_allocr \<Rightarrow>
     nat list list \<times> llama_batch_allocr" where
  "equal_loop n_ubatch toks cur per a =
    (if toks \<noteq> [] \<and> list_all2 (\<lambda>t c. c < length t) toks cur
     then let new = map2 (!) toks cur;
              per' = map2 (\<lambda>l i. l @ [i]) per new;
              a' = fold set_used new a
          in if (length (per' ! 0) + 1) * length toks > n_ubatch then (per', a')
             else equal_loop n_ubatch toks (map Suc cur) per' a'
     else (per, a))"
  by pat_completeness auto
termination
proof (relation "measure (\<lambda>(n, toks, cur, per, a). length (hd toks) - hd cur)")
qed (auto simp: neq_Nil_conv list_all2_Cons1)

declare equal_loop.simps [simp del]

definition equal_idxs ::
    "nat \<Rightarrow> bool \<Rightarrow> llama_batch_allocr \<Rightarrow> nat list list \<times> llama_batch_allocr" where
  "equal_idxs n_ubatch sequential a =
    (if sequential \<and> ba_has_cpl a then ([], a)
     else
       let sets = equal_select a n_ubatch sequential [0..<b_n_tokens (ba_batch a)] [] (-1)
       in if sets = [] then ([], a)
          else
            let toks = map (ba_seq_set_map a) sets;
                cur = map (\<lambda>t. equal_skip (ba_used a) t 0) toks
            in equal_loop n_ubatch toks cur (replicate (length sets) []) a)"

definition split_equal ::
    "nat \<Rightarrow> bool \<Rightarrow> llama_batch_allocr \<Rightarrow> llama_ubatch \<times> llama_batch_allocr" where
  "split_equal n_ubatch sequential a =
    (case equal_idxs n_ubatch sequential a of (per, a') \<Rightarrow>
       if per = [] then (ub_none, a') else ubatch_add a' (concat per) (length per) True)"

subsection \<open>Along one sequence set\<close>

function seq_next :: "llama_batch_allocr \<Rightarrow> nat set \<Rightarrow> nat \<Rightarrow> nat" where
  "seq_next a S cur =
    (if cur < ba_get_n_tokens a \<and> (ba_used a ! cur \<or> S \<inter> ba_seq_set a ! cur \<noteq> ba_seq_set a ! cur)
     then seq_next a S (cur + 1) else cur)"
  by pat_completeness auto
termination by (relation "measure (\<lambda>(a, S, cur). ba_get_n_tokens a - cur)") auto

declare seq_next.simps [simp del]

function seq_loop ::
    "nat \<Rightarrow> nat set \<Rightarrow> nat \<Rightarrow> nat list \<Rightarrow> llama_batch_allocr \<Rightarrow> nat list \<times> llama_batch_allocr" where
  "seq_loop n_ubatch S cur idxs a =
    (let idxs' = idxs @ [cur];
         a' = set_used cur a
     in if length idxs' \<ge> n_ubatch then (idxs', a')
        else let cur' = seq_next a' S (cur + 1)
             in if cur' \<ge> ba_get_n_tokens a' then (idxs', a')
                else seq_loop n_ubatch (ba_seq_set a' ! cur') cur' idxs' a')"
  by pat_completeness auto

lemma seq_next_ge: "cur \<le> seq_next a S cur"
proof (induction a S cur rule: seq_next.induct)
  case (1 a S cur)
  then show ?case by (subst seq_next.simps) (auto simp: Suc_leD)
qed

termination seq_loop
proof (relation "measure (\<lambda>(n, S, cur, idxs, a). ba_get_n_tokens a - cur)")
  fix S cur a a' cur'
  assume "a' = set_used cur a" "(cur' :: nat) = seq_next a' S (cur + 1)" "\<not> ba_get_n_tokens a' \<le> cur'"
  moreover have "cur + 1 \<le> seq_next a' S (cur + 1)" by (rule seq_next_ge)
  moreover have "ba_get_n_tokens (set_used cur a) = ba_get_n_tokens a"
    by (simp add: ba_get_n_tokens_def set_used_def)
  ultimately show "((n_ubatch, ba_seq_set a' ! cur', cur', idxs', a'), n_ubatch, S, cur, idxs, a)
      \<in> measure (\<lambda>(n, S, cur, idxs, a). ba_get_n_tokens a - cur)" for n_ubatch idxs' idxs
    by simp
qed simp

declare seq_loop.simps [simp del]

definition seq_idxs :: "nat \<Rightarrow> llama_batch_allocr \<Rightarrow> nat list \<times> llama_batch_allocr" where
  "seq_idxs n_ubatch a =
    (let cur = first_unused (ba_used a) 0
     in if cur \<ge> length (ba_used a) then ([], a) else seq_loop n_ubatch (ba_seq_set a ! cur) cur [] a)"

definition split_seq :: "nat \<Rightarrow> llama_batch_allocr \<Rightarrow> llama_ubatch \<times> llama_batch_allocr" where
  "split_seq n_ubatch a =
    (case seq_idxs n_ubatch a of (idxs, a') \<Rightarrow>
       if idxs = [] then (ub_none, a') else ubatch_add a' idxs 1 True)"

section \<open>What a split takes\<close>

text \<open>
  The state between two splits: the bookkeeping of used tokens agrees with the flags, and
  \<open>seq_set_map\<close> lists, in order, the tokens of every sequence set, none of which is empty.
\<close>

definition ba_inv :: "llama_batch_allocr \<Rightarrow> bool" where
  "ba_inv a \<longleftrightarrow> length (ba_used a) = ba_get_n_tokens a \<and>
     length (ba_seq_set a) = ba_get_n_tokens a \<and>
     ba_n_used a = card {i. i < ba_get_n_tokens a \<and> ba_used a ! i} \<and>
     (\<forall>S. ba_seq_set_map a S = filter (\<lambda>i. ba_seq_set a ! i = S) [0..<ba_get_n_tokens a]) \<and>
     (\<forall>i < ba_get_n_tokens a. ba_seq_set a ! i \<noteq> {})"

definition ba_unused :: "llama_batch_allocr \<Rightarrow> nat set" where
  "ba_unused a = {i. i < ba_get_n_tokens a \<and> \<not> ba_used a ! i}"

lemma finite_ba_unused [simp]: "finite (ba_unused a)"
  by (simp add: ba_unused_def)

lemma fold_set_used_frame [simp]:
  "ba_batch (fold set_used is a) = ba_batch a"
  "ba_get_n_tokens (fold set_used is a) = ba_get_n_tokens a"
  "ba_seq_set (fold set_used is a) = ba_seq_set a"
  "ba_seq_set_map (fold set_used is a) = ba_seq_set_map a"
  "ba_has_cpl (fold set_used is a) = ba_has_cpl a"
  "ba_n_seq_max (fold set_used is a) = ba_n_seq_max a"
  "ba_n_pos_per_embd (fold set_used is a) = ba_n_pos_per_embd a"
  "ba_n_embd (fold set_used is a) = ba_n_embd a"
  "ba_out_ids (fold set_used is a) = ba_out_ids a"
  "length (ba_used (fold set_used is a)) = length (ba_used a)"
  "ba_n_used (fold set_used is a) = ba_n_used a + length is"
  by (induction "is" arbitrary: a) (simp_all add: set_used_def ba_get_n_tokens_def)

lemma fold_set_used_nth:
  "j < length (ba_used a) \<Longrightarrow> ba_used (fold set_used is a) ! j \<longleftrightarrow> ba_used a ! j \<or> j \<in> set is"
proof (induction "is" arbitrary: a)
  case (Cons i "is")
  have "ba_used (fold set_used is (set_used i a)) ! j \<longleftrightarrow> ba_used (set_used i a) ! j \<or> j \<in> set is"
    using Cons by (intro Cons.IH) (simp add: set_used_def)
  moreover have "ba_used (set_used i a) ! j \<longleftrightarrow> ba_used a ! j \<or> j = i"
    using Cons.prems by (cases "j = i") (simp_all add: set_used_def)
  ultimately show ?case by auto
qed simp

lemma fold_set_used_mset: "mset xs = mset ys \<Longrightarrow> fold set_used xs a = fold set_used ys a"
proof -
  have "set_used i \<circ> set_used j = set_used j \<circ> set_used i" for i j
    by (cases "i = j") (auto simp: fun_eq_iff set_used_def list_update_swap)
  then show "mset xs = mset ys \<Longrightarrow> ?thesis"
    using fold_multiset_equiv [of xs set_used ys] by simp
qed

lemma ba_unused_fold:
  "ba_inv a \<Longrightarrow> ba_unused (fold set_used is a) = ba_unused a - set is"
  by (auto simp: ba_unused_def ba_inv_def fold_set_used_nth)

lemma ba_inv_fold:
  assumes inv: "ba_inv a" and new: "distinct is" "set is \<subseteq> ba_unused a"
  shows "ba_inv (fold set_used is a)"
proof -
  let ?n = "ba_get_n_tokens a"
  have "{i. i < ?n \<and> ba_used (fold set_used is a) ! i} = {i. i < ?n \<and> ba_used a ! i} \<union> set is"
    using inv new(2) by (auto simp: ba_inv_def fold_set_used_nth ba_unused_def)
  moreover have "{i. i < ?n \<and> ba_used a ! i} \<inter> set is = {}"
    using new(2) by (auto simp: ba_unused_def)
  ultimately have "card {i. i < ?n \<and> ba_used (fold set_used is a) ! i}
      = card {i. i < ?n \<and> ba_used a ! i} + length is"
    using new(1) by (simp add: card_Un_disjoint distinct_card)
  with inv show ?thesis by (simp add: ba_inv_def)
qed

subsection \<open>The contract of a split and the loop that drives it\<close>

text \<open>
  Every cache repeats a split until it returns an empty micro-batch. Whether that loop ends
  depends on the split: the loop is an \<open>option\<close>-valued partial function.
\<close>

partial_function (option) split_all ::
    "(llama_batch_allocr \<Rightarrow> llama_ubatch \<times> llama_batch_allocr) \<Rightarrow> llama_ubatch list \<Rightarrow>
     llama_batch_allocr \<Rightarrow> (llama_ubatch list \<times> llama_batch_allocr) option" where
  [code]: "split_all split ubs a =
    (case split a of (ub, a') \<Rightarrow>
       if ub_n_tokens ub = 0 then Some (ubs, a') else split_all split (ubs @ [ub]) a')"

text \<open>\<open>ub\<close> holds the tokens \<open>idxs\<close> of the batch, in this order.\<close>

definition ub_of :: "llama_batch_allocr \<Rightarrow> llama_ubatch \<Rightarrow> nat list \<Rightarrow> bool" where
  "ub_of a ub idxs \<longleftrightarrow> idxs \<noteq> [] \<and> ub = fst (ubatch_add a idxs (ub_n_seqs ub) (ub_equal_seqs ub))"

lemma ubatch_add_frame:
  "snd (ubatch_add a idxs n e) = a\<lparr>ba_out_ids := ba_out_ids a @ filter (\<lambda>i. batch_logit (ba_batch a) i \<noteq> 0) idxs\<rparr>"
  "ub_n_tokens (fst (ubatch_add a idxs n e)) = length idxs"
  "ub_n_seqs (fst (ubatch_add a idxs n e)) = n"
  "ub_equal_seqs (fst (ubatch_add a idxs n e)) = e"
  by (simp_all add: ubatch_add_def Let_def)

lemma ubatch_add_fst_cong:
  "ba_batch a = ba_batch a' \<Longrightarrow> ba_n_seq_max a = ba_n_seq_max a' \<Longrightarrow>
   ba_n_pos_per_embd a = ba_n_pos_per_embd a' \<Longrightarrow> ba_n_embd a = ba_n_embd a' \<Longrightarrow>
   fst (ubatch_add a idxs n e) = fst (ubatch_add a' idxs n e)"
  by (simp add: ubatch_add_def Let_def)

locale splitter =
  fixes split :: "llama_batch_allocr \<Rightarrow> llama_ubatch \<times> llama_batch_allocr"
    and inv :: "llama_batch_allocr \<Rightarrow> bool"
    and lim :: nat
  assumes inv_ba: "inv a \<Longrightarrow> ba_inv a"
    and inv_out: "inv (a\<lparr>ba_out_ids := out\<rparr>) \<longleftrightarrow> inv a"
    and split_done: "inv a \<Longrightarrow> ba_unused a = {} \<Longrightarrow> fst (split a) = ub_none \<and> snd (split a) = a"
    and split_step: "inv a \<Longrightarrow> ba_unused a \<noteq> {} \<Longrightarrow>
      \<exists>idxs n e. idxs \<noteq> [] \<and> length idxs \<le> lim \<and> distinct idxs \<and> set idxs \<subseteq> ba_unused a \<and>
        inv (fold set_used idxs a) \<and> split a = ubatch_add (fold set_used idxs a) idxs n e"
begin

lemma split_all_from:
  assumes "inv a"
  shows "\<exists>new a' idxss. split_all split ubs a = Some (ubs @ new, a') \<and> inv a' \<and>
     list_all2 (ub_of a) new idxss \<and> (\<forall>idxs \<in> set idxss. length idxs \<le> lim) \<and>
     distinct (concat idxss) \<and> set (concat idxss) = ba_unused a \<and>
     ba_out_ids a' = ba_out_ids a @
       filter (\<lambda>i. batch_logit (ba_batch a) i \<noteq> 0) (concat idxss) \<and>
     ba_n_used a' = ba_get_n_tokens a \<and> ba_get_n_tokens a' = ba_get_n_tokens a"
  using assms
proof (induction "card (ba_unused a)" arbitrary: a ubs rule: less_induct)
  case (less a)
  show ?case
  proof (cases "ba_unused a = {}")
    case True
    then have "split a = (ub_none, a)"
      using split_done [OF less.prems] by (cases "split a") simp
    then have "split_all split ubs a = Some (ubs, a)"
      by (subst split_all.simps) (simp add: ub_none_def)
    moreover have "ba_n_used a = ba_get_n_tokens a"
    proof -
      have "{i. i < ba_get_n_tokens a \<and> ba_used a ! i} = {..<ba_get_n_tokens a}"
        using True by (auto simp: ba_unused_def)
      then show ?thesis using inv_ba [OF less.prems] by (simp add: ba_inv_def)
    qed
    ultimately show ?thesis
      using True less.prems by (intro exI [of _ "[]"] exI [of _ a]) simp
  next
    case False
    then obtain idxs n e where st: "idxs \<noteq> []" "distinct idxs" "set idxs \<subseteq> ba_unused a"
      "inv (fold set_used idxs a)" "split a = ubatch_add (fold set_used idxs a) idxs n e"
      "length idxs \<le> lim"
      using split_step [OF less.prems] by blast
    let ?out = "filter (\<lambda>i. batch_logit (ba_batch a) i \<noteq> 0)"
    define a1 where "a1 = (fold set_used idxs a)\<lparr>ba_out_ids := ba_out_ids a @ ?out idxs\<rparr>"
    let ?ub = "fst (split a)"
    have sp: "snd (split a) = a1" "ub_n_tokens ?ub \<noteq> 0"
      using st by (simp_all add: ubatch_add_frame a1_def)
    have un: "ba_unused a1 = ba_unused a - set idxs"
      using ba_unused_fold [OF inv_ba [OF less.prems]]
      by (simp add: a1_def ba_unused_def ba_get_n_tokens_def)
    have fr: "ba_batch a1 = ba_batch a" "ba_n_seq_max a1 = ba_n_seq_max a"
      "ba_n_pos_per_embd a1 = ba_n_pos_per_embd a" "ba_n_embd a1 = ba_n_embd a"
      by (simp_all add: a1_def)
    then have of_eq: "ub_of a1 = ub_of a"
      by (intro ext) (simp add: ub_of_def ubatch_add_fst_cong [of a1 a])
    have "card (ba_unused a1) < card (ba_unused a)"
      using st(1,3) un by (intro psubset_card_mono) (auto simp: neq_Nil_conv)
    moreover have "inv a1" using st(4) by (simp add: a1_def inv_out)
    ultimately obtain new a' idxss where ih:
      "split_all split (ubs @ [?ub]) a1 = Some ((ubs @ [?ub]) @ new, a')" "inv a'"
      "list_all2 (ub_of a1) new idxss" "\<forall>idxs \<in> set idxss. length idxs \<le> lim" "distinct (concat idxss)" "set (concat idxss) = ba_unused a1"
      "ba_out_ids a' = ba_out_ids a1 @ filter (\<lambda>i. batch_logit (ba_batch a1) i \<noteq> 0) (concat idxss)"
      "ba_n_used a' = ba_get_n_tokens a1" "ba_get_n_tokens a' = ba_get_n_tokens a1"
      using less.hyps [of a1 "ubs @ [?ub]"] by blast
    have "ub_of a ?ub idxs"
      using st(1,5) ubatch_add_fst_cong [of "fold set_used idxs a" a]
      by (simp add: ub_of_def ubatch_add_frame)
    moreover have "split_all split ubs a = Some (ubs @ ?ub # new, a')"
      using ih(1) sp by (subst split_all.simps) (simp add: case_prod_beta)
    moreover have "ba_get_n_tokens a1 = ba_get_n_tokens a" using fr by (simp add: ba_get_n_tokens_def)
    ultimately show ?thesis
      using ih(2-) un st(2,3,6) of_eq fr
      by (intro exI [of _ "?ub # new"] exI [of _ a'] exI [of _ "idxs # idxss"])
        (auto simp: a1_def)
  qed
qed

text \<open>
  From a fresh allocator the loop ends, and its micro-batches are a partition of the batch.
\<close>

lemma split_all_partition:
  assumes "inv a" and "ba_unused a = {..<ba_get_n_tokens a}" and "ba_out_ids a = []"
  shows "\<exists>ubs a' idxss. split_all split [] a = Some (ubs, a') \<and>
     list_all2 (ub_of a) ubs idxss \<and> (\<forall>idxs \<in> set idxss. length idxs \<le> lim) \<and>
     mset (concat idxss) = mset [0..<ba_get_n_tokens a] \<and>
     ba_out_ids a' = filter (\<lambda>i. batch_logit (ba_batch a) i \<noteq> 0) (concat idxss) \<and>
     ba_n_used a' = ba_get_n_tokens a"
proof -
  obtain new a' idxss where r: "split_all split [] a = Some (new, a')" 
     "list_all2 (ub_of a) new idxss" "distinct (concat idxss)" "set (concat idxss) = ba_unused a"
     "\<forall>idxs \<in> set idxss. length idxs \<le> lim"
     "ba_out_ids a' = filter (\<lambda>i. batch_logit (ba_batch a) i \<noteq> 0) (concat idxss)"
     "ba_n_used a' = ba_get_n_tokens a"
    using split_all_from [OF assms(1), of "[]"] assms(3) by auto
  moreover have "mset (concat idxss) = mset [0..<ba_get_n_tokens a]"
    using r(3,4) assms(2) by (intro set_eq_iff_mset_eq_distinct [THEN iffD1]) (auto simp: lessThan_atLeast0)
  ultimately show ?thesis by blast
qed

end

subsection \<open>In order\<close>

lemma first_unused_spec:
  "cur \<le> first_unused used cur \<and> \<not> (first_unused used cur < length used \<and> used ! first_unused used cur) \<and>
   (\<forall>i. cur \<le> i \<and> i < first_unused used cur \<longrightarrow> i < length used \<and> used ! i)"
proof (induction used cur rule: first_unused.induct)
  case (1 used cur)
  show ?case
  proof (cases "cur < length used \<and> used ! cur")
    case True
    have eq: "first_unused used cur = first_unused used (cur + 1)"
      using True by (subst first_unused.simps) simp
    have split: "i = cur \<or> cur + 1 \<le> i" if "cur \<le> i" for i using that by arith
    show ?thesis
      unfolding eq using 1 [OF True] True split by (metis Suc_eq_plus1 Suc_leD)
  next
    case False
    then have "first_unused used cur = cur"
      by (subst first_unused.simps) auto
    with False show ?thesis by auto
  qed
qed

lemma first_unused_ba:
  assumes "ba_inv a"
  defines "k \<equiv> first_unused (ba_used a) 0"
  shows "k < ba_get_n_tokens a \<longleftrightarrow> ba_unused a \<noteq> {}"
    and "k < ba_get_n_tokens a \<Longrightarrow> k \<in> ba_unused a"
    and "i < k \<Longrightarrow> i < ba_get_n_tokens a \<and> ba_used a ! i"
proof -
  have len: "length (ba_used a) = ba_get_n_tokens a" using assms by (simp add: ba_inv_def)
  note sp = first_unused_spec [of 0 "ba_used a", folded k_def, unfolded len]
  show before: "i < k \<Longrightarrow> i < ba_get_n_tokens a \<and> ba_used a ! i" for i using sp by blast
  show mem: "k < ba_get_n_tokens a \<Longrightarrow> k \<in> ba_unused a"
    using sp by (simp add: ba_unused_def)
  show "k < ba_get_n_tokens a \<longleftrightarrow> ba_unused a \<noteq> {}"
  proof
    assume "ba_unused a \<noteq> {}"
    then obtain i where i: "i < ba_get_n_tokens a" "\<not> ba_used a ! i" by (auto simp: ba_unused_def)
    then have "\<not> i < k" using before by blast
    with i show "k < ba_get_n_tokens a" by simp
  qed (use mem in blast)
qed

lemma simple_loop_result:
  "cur < length (ba_used a) \<Longrightarrow> e = min (length (ba_used a)) (cur + max 1 (n_ubatch - length idxs)) \<Longrightarrow>
   simple_loop n_ubatch cur idxs a = (idxs @ [cur..<e], fold set_used [cur..<e] a)"
proof (induction n_ubatch cur idxs a arbitrary: e rule: simple_loop.induct)
  case (1 n_ubatch cur idxs a)
  have len: "length (ba_used (set_used cur a)) = length (ba_used a)" by (simp add: set_used_def)
  show ?case
  proof (cases "cur + 1 \<ge> length (ba_used a) \<or> length idxs + 1 \<ge> n_ubatch")
    case True
    then have "e = Suc cur" using 1(2,3) by auto
    with True show ?thesis
      by (subst simple_loop.simps) (auto simp: Let_def len)
  next
    case False
    then have e: "e = min (length (ba_used a)) (Suc cur + max 1 (n_ubatch - Suc (length idxs)))"
      using 1(3) by auto
    have "simple_loop n_ubatch (cur + 1) (idxs @ [cur]) (set_used cur a)
        = ((idxs @ [cur]) @ [cur + 1..<e], fold set_used [cur + 1..<e] (set_used cur a))"
      using False e by (intro 1(1)) (simp_all add: len)
    moreover have "[cur..<e] = cur # [cur + 1..<e]"
      using e False by (simp add: upt_rec)
    ultimately show ?thesis
      using False by (subst simple_loop.simps) (simp add: Let_def len)
  qed
qed

text \<open>The used tokens are an initial segment: the state between two in-order splits.\<close>

definition simple_inv :: "llama_batch_allocr \<Rightarrow> bool" where
  "simple_inv a \<longleftrightarrow> ba_inv a \<and> (\<forall>j < ba_get_n_tokens a. \<forall>i<j. ba_used a ! j \<longrightarrow> ba_used a ! i)"

lemma simple_inv_unused:
  assumes "simple_inv a"
  shows "ba_unused a = {first_unused (ba_used a) 0..<ba_get_n_tokens a}"
proof -
  let ?k = "first_unused (ba_used a) 0"
  have inv: "ba_inv a" using assms by (simp add: simple_inv_def)
  have used: "ba_used a ! i \<longleftrightarrow> i < ?k" if i: "i < ba_get_n_tokens a" for i
  proof
    assume u: "ba_used a ! i"
    show "i < ?k"
    proof (rule ccontr)
      assume "\<not> i < ?k"
      then have "?k < ba_get_n_tokens a" "?k = i \<or> ?k < i" using i by auto
      moreover have "\<not> ba_used a ! ?k"
        using first_unused_ba(2) [OF inv] calculation(1) by (simp add: ba_unused_def)
      ultimately show False using assms u i by (auto simp: simple_inv_def)
    qed
  qed (use first_unused_ba(3) [OF inv] in blast)
  show ?thesis by (auto simp: ba_unused_def used)
qed

lemma simple_idxs_result:
  assumes "simple_inv a" and k: "k = first_unused (ba_used a) 0"
  shows "simple_idxs n_ubatch a =
    (let e = min (ba_get_n_tokens a) (k + max 1 n_ubatch) in ([k..<e], fold set_used [k..<e] a))"
proof -
  have len: "length (ba_used a) = ba_get_n_tokens a"
    using assms by (simp add: simple_inv_def ba_inv_def)
  then show ?thesis
    using simple_loop_result [of k a "min (ba_get_n_tokens a) (k + max 1 n_ubatch)" n_ubatch "[]"] k
    by (auto simp: simple_idxs_def Let_def)
qed

lemma simple_inv_fold:
  assumes inv: "simple_inv a" and k: "k = first_unused (ba_used a) 0"
    and e: "e \<le> ba_get_n_tokens a"
  shows "simple_inv (fold set_used [k..<e] a)"
proof -
  have b: "ba_inv a" using inv by (simp add: simple_inv_def)
  have un: "ba_unused a = {k..<ba_get_n_tokens a}" using simple_inv_unused [OF inv] k by simp
  have "ba_inv (fold set_used [k..<e] a)"
    using e by (intro ba_inv_fold [OF b]) (auto simp: un)
  moreover have "ba_used (fold set_used [k..<e] a) ! i"
    if "j < ba_get_n_tokens a" "i < j" "ba_used (fold set_used [k..<e] a) ! j" for i j
  proof -
    have len: "length (ba_used a) = ba_get_n_tokens a" using b by (simp add: ba_inv_def)
    have "i \<in> ba_unused a \<longleftrightarrow> k \<le> i" using that un by auto
    moreover have "ba_used a ! j \<longrightarrow> ba_used a ! i" using inv that by (simp add: simple_inv_def)
    ultimately show ?thesis
      using that by (auto simp: fold_set_used_nth len ba_unused_def)
  qed
  ultimately show ?thesis by (simp add: simple_inv_def)
qed

interpretation simple: splitter "split_simple n_ubatch" simple_inv "max 1 n_ubatch" for n_ubatch
proof
  fix a assume inv: "simple_inv a"
  let ?k = "first_unused (ba_used a) 0"
  let ?e = "min (ba_get_n_tokens a) (?k + max 1 n_ubatch)"
  have un: "ba_unused a = {?k..<ba_get_n_tokens a}" by (rule simple_inv_unused [OF inv])
  note res = simple_idxs_result [OF inv refl, of n_ubatch]
  show "ba_inv a" using inv by (simp add: simple_inv_def)
  { assume "ba_unused a = {}"
    then show "fst (split_simple n_ubatch a) = ub_none \<and> snd (split_simple n_ubatch a) = a"
      using un res by (simp add: split_simple_def) }
  { assume ne: "ba_unused a \<noteq> {}"
    then have k: "?k < ?e" using un by auto
    then show "\<exists>idxs n e. idxs \<noteq> [] \<and> length idxs \<le> max 1 n_ubatch \<and> distinct idxs \<and>
        set idxs \<subseteq> ba_unused a \<and> simple_inv (fold set_used idxs a) \<and>
        split_simple n_ubatch a = ubatch_add (fold set_used idxs a) idxs n e"
      using simple_inv_fold [OF inv refl, of ?e] res un
      by (intro exI [of _ "[?k..<?e]"] exI [of _ "?e - ?k"] exI [of _ False])
        (auto simp: split_simple_def Let_def) }
qed (auto simp: simple_inv_def ba_inv_def ba_get_n_tokens_def)

subsection \<open>Equal shares\<close>

lemma equal_select_spec:
  assumes "set is \<subseteq> {..<ba_get_n_tokens a}" and "length cur \<le> n_ubatch"
    and "sorted_wrt (\<lambda>S T. S \<inter> T = {}) cur"
  shows "\<exists>new. equal_select a n_ubatch sq is cur l = cur @ new \<and>
     set new \<subseteq> (!) (ba_seq_set a) ` (set is \<inter> ba_unused a) \<and>
     sorted_wrt (\<lambda>S T. S \<inter> T = {}) (cur @ new) \<and> length (cur @ new) \<le> n_ubatch + 1 \<and>
     (cur = [] \<and> set is \<inter> ba_unused a \<noteq> {} \<longrightarrow> new \<noteq> [])"
  using assms
proof (induction a n_ubatch sq "is" cur l rule: equal_select.induct)
  case (2 a n_ubatch sq i "is" cur l)
  show ?case
  proof (cases "ba_used a ! i")
    case True
    have "i \<notin> ba_unused a" using True by (simp add: ba_unused_def)
    moreover obtain new where "equal_select a n_ubatch sq is cur l = cur @ new \<and>
       set new \<subseteq> (!) (ba_seq_set a) ` (set is \<inter> ba_unused a) \<and>
       sorted_wrt (\<lambda>S T. S \<inter> T = {}) (cur @ new) \<and> length (cur @ new) \<le> n_ubatch + 1 \<and>
       (cur = [] \<and> set is \<inter> ba_unused a \<noteq> {} \<longrightarrow> new \<noteq> [])"
      using 2(1) [OF True] 2(4-6) by auto
    ultimately show ?thesis using True by (intro exI [of _ new]) auto
  next
    case False
    have i: "i \<in> ba_unused a" using False 2(4) by (simp add: ba_unused_def)
    define first where "first = the (b_seq_id (ba_batch a)) ! i ! 0"
    define add where "add = (list_all (\<lambda>S. S \<inter> ba_seq_set a ! i = {}) cur \<and>
      (sq \<longrightarrow> cur = [] \<or> first = l + 1))"
    let ?cur = "cur @ [ba_seq_set a ! i]"
    have eq: "equal_select a n_ubatch sq (i # is) cur l =
      (if add then if length ?cur > n_ubatch then ?cur else equal_select a n_ubatch sq is ?cur first
       else equal_select a n_ubatch sq is cur l)"
      using False by (cases sq) (simp_all add: Let_def add_def first_def, blast)
    have dis: "add \<Longrightarrow> sorted_wrt (\<lambda>S T. S \<inter> T = {}) ?cur"
      using 2(6) by (auto simp: add_def sorted_wrt_append list_all_iff)
    consider "\<not> add" | "add" "length ?cur > n_ubatch" | "add" "\<not> length ?cur > n_ubatch" by blast
    then show ?thesis
    proof cases
      case 1
      moreover have "cur \<noteq> []" using 1 by (auto simp: add_def)
      moreover obtain new where "equal_select a n_ubatch sq is cur l = cur @ new"
         "set new \<subseteq> (!) (ba_seq_set a) ` (set is \<inter> ba_unused a)"
         "sorted_wrt (\<lambda>S T. S \<inter> T = {}) (cur @ new)" "length (cur @ new) \<le> n_ubatch + 1"
        using 2(3) [OF False refl refl refl] 1 2(4-6) False
        by (cases sq) (auto simp: add_def first_def)
      ultimately show ?thesis using eq by (intro exI [of _ new]) auto
    next
      case 2
      then show ?thesis
        using eq i dis "2.prems"(2) by (intro exI [of _ "[ba_seq_set a ! i]"]) auto
    next
      case 3
      obtain new where "equal_select a n_ubatch sq is ?cur first = ?cur @ new"
         "set new \<subseteq> (!) (ba_seq_set a) ` (set is \<inter> ba_unused a)"
         "sorted_wrt (\<lambda>S T. S \<inter> T = {}) (?cur @ new)" "length (?cur @ new) \<le> n_ubatch + 1"
        using "2.IH"(2) [OF False refl refl refl _ refl] 3 "2.prems" dis
        by (cases sq) (auto simp: add_def first_def)
      then show ?thesis
        using eq 3 i by (intro exI [of _ "ba_seq_set a ! i # new"]) auto
    qed
  qed
qed simp

lemma equal_skip_spec:
  "cur \<le> equal_skip used t cur \<and>
   \<not> (equal_skip used t cur < length t \<and> used ! (t ! equal_skip used t cur)) \<and>
   (\<forall>i. cur \<le> i \<and> i < equal_skip used t cur \<longrightarrow> i < length t \<and> used ! (t ! i))"
proof (induction used t cur rule: equal_skip.induct)
  case (1 used t cur)
  show ?case
  proof (cases "cur < length t \<and> used ! (t ! cur)")
    case True
    have eq: "equal_skip used t cur = equal_skip used t (cur + 1)"
      using True by (subst equal_skip.simps) simp
    have split: "i = cur \<or> cur + 1 \<le> i" if "cur \<le> i" for i using that by arith
    show ?thesis
      unfolding eq using 1 [OF True] True split by (metis Suc_eq_plus1 Suc_leD)
  next
    case False
    then have "equal_skip used t cur = cur" by (subst equal_skip.simps) auto
    with False show ?thesis by auto
  qed
qed

text \<open>
  The rounds: every chosen set gives its next \<open>R\<close> tokens, where \<open>R\<close> is the largest number
  of rounds that fits \<open>n_ubatch\<close> and leaves no set without a token (one round always runs).
\<close>

lemma equal_loop_result:
  assumes "toks \<noteq> []" "length cur = length toks" "length per = length toks"
  shows "\<exists>R. equal_loop n_ubatch toks cur per a =
      (map (\<lambda>s. per ! s @ take R (drop (cur ! s) (toks ! s))) [0..<length toks],
       fold set_used (concat (map (\<lambda>r. map (\<lambda>s. toks ! s ! (cur ! s + r)) [0..<length toks]) [0..<R])) a) \<and>
    (\<forall>s < length toks. R = 0 \<or> cur ! s + R \<le> length (toks ! s)) \<and>
    ((\<exists>s < length toks. length (toks ! s) \<le> cur ! s + R) \<or>
       (R > 0 \<and> (length (per ! 0) + R + 1) * length toks > n_ubatch)) \<and>
    (R \<le> 1 \<or> (length (per ! 0) + R) * length toks \<le> n_ubatch) \<and>
    ((\<forall>s < length toks. cur ! s < length (toks ! s)) \<longrightarrow> R > 0)"
  using assms
proof (induction n_ubatch toks cur per a rule: equal_loop.induct)
  case (1 n_ubatch toks cur per a)
  let ?k = "length toks"
  let ?can = "toks \<noteq> [] \<and> list_all2 (\<lambda>t c. c < length t) toks cur"
  have can: "?can \<longleftrightarrow> (\<forall>s < ?k. cur ! s < length (toks ! s))"
    using 1(2-) by (simp add: list_all2_conv_all_nth)
  define new where "new = map2 (!) toks cur"
  define per' where "per' = map2 (\<lambda>l i. l @ [i]) per new"
  have new: "new = map (\<lambda>s. toks ! s ! (cur ! s)) [0..<?k]"
    using 1(3) by (intro nth_equalityI) (simp_all add: new_def)
  have per': "per' = map (\<lambda>s. per ! s @ [toks ! s ! (cur ! s)]) [0..<?k]"
    using 1(4) new by (intro nth_equalityI) (simp_all add: per'_def)
  have len0: "length (per' ! 0) = length (per ! 0) + 1" using per' 1(2) by simp
  have step: "equal_loop n_ubatch toks cur per a =
      (if ?can then if (length (per' ! 0) + 1) * ?k > n_ubatch then (per', fold set_used new a)
       else equal_loop n_ubatch toks (map Suc cur) per' (fold set_used new a) else (per, a))"
    by (subst equal_loop.simps) (simp add: Let_def new_def per'_def)
  consider "\<not> ?can" | "?can" "(length (per' ! 0) + 1) * ?k > n_ubatch"
    | "?can" "\<not> (length (per' ! 0) + 1) * ?k > n_ubatch" by blast
  then show ?case
  proof cases
    case 1
    have "per = map (\<lambda>s. per ! s) [0..<?k]" using "1.prems"(3) map_nth [of per] by simp
    then show ?thesis
      using 1 can step by (intro exI [of _ 0]) (auto simp: not_less)
  next
    case 2
    have "per' = map (\<lambda>s. per ! s @ take 1 (drop (cur ! s) (toks ! s))) [0..<?k]"
      using 2 can unfolding per' by (auto simp: take_Suc_conv_app_nth take_Suc hd_drop_conv_nth)
    then show ?thesis
      using 2 can step new len0 by (intro exI [of _ 1]) (auto simp: Suc_le_eq)
  next
    case 3
    obtain R where R: "equal_loop n_ubatch toks (map Suc cur) per' (fold set_used new a) =
      (map (\<lambda>s. per' ! s @ take R (drop (map Suc cur ! s) (toks ! s))) [0..<?k],
       fold set_used (concat (map (\<lambda>r. map (\<lambda>s. toks ! s ! (map Suc cur ! s + r)) [0..<?k]) [0..<R]))
         (fold set_used new a))"
      "\<forall>s < ?k. R = 0 \<or> map Suc cur ! s + R \<le> length (toks ! s)"
      "(\<exists>s < ?k. length (toks ! s) \<le> map Suc cur ! s + R) \<or>
        (R > 0 \<and> (length (per' ! 0) + R + 1) * ?k > n_ubatch)"
      "R \<le> 1 \<or> (length (per' ! 0) + R) * ?k \<le> n_ubatch"
      using "1.IH" [OF 3(1) new_def per'_def refl 3(2)] "1.prems" per' by auto
    let ?f = "\<lambda>r. map (\<lambda>s. toks ! s ! (cur ! s + r)) [0..<?k]"
    have "concat (map ?f [0..<Suc R]) = new @ concat (map (\<lambda>r. ?f (Suc r)) [0..<R])"
      by (simp only: map_upt_Suc) (simp add: new)
    also have "map (\<lambda>r. ?f (Suc r)) [0..<R] =
        map (\<lambda>r. map (\<lambda>s. toks ! s ! (map Suc cur ! s + r)) [0..<?k]) [0..<R]"
      using "1.prems"(2) by (auto intro!: map_cong)
    finally have used: "fold set_used (concat (map ?f [0..<Suc R])) a =
       fold set_used (concat (map (\<lambda>r. map (\<lambda>s. toks ! s ! (map Suc cur ! s + r)) [0..<?k]) [0..<R]))
         (fold set_used new a)" by simp
    have lists: "map (\<lambda>s. per' ! s @ take R (drop (map Suc cur ! s) (toks ! s))) [0..<?k] =
        map (\<lambda>s. per ! s @ take (Suc R) (drop (cur ! s) (toks ! s))) [0..<?k]"
      using 3(1) can "1.prems"(2) by (auto simp: per' Cons_nth_drop_Suc [symmetric])
    have "R = 0 \<or> (length (per ! 0) + Suc R) * ?k \<le> n_ubatch"
      using R(4) 3(2) len0 by (cases "R = 1") auto
    then show ?thesis
      using 3 can step R(1,2,3) used lists len0 "1.prems"(2)
      by (intro exI [of _ "Suc R"]) (auto simp: Suc_le_eq)
  qed
qed

text \<open>Within a sequence set the used tokens come first: the state between two equal splits.\<close>

definition equal_inv :: "bool \<Rightarrow> llama_batch_allocr \<Rightarrow> bool" where
  "equal_inv sequential a \<longleftrightarrow> ba_inv a \<and> \<not> (sequential \<and> ba_has_cpl a) \<and>
     (\<forall>j < ba_get_n_tokens a. \<forall>i<j.
        ba_seq_set a ! i = ba_seq_set a ! j \<and> ba_used a ! j \<longrightarrow> ba_used a ! i)"

text \<open>
  What an equal split promises: as many lists of tokens as chosen sets, of the same length
  \<open>R > 0\<close>, each the next unused tokens of its set, the sets pairwise disjoint.
\<close>

definition equal_share :: "llama_batch_allocr \<Rightarrow> nat set list \<Rightarrow> nat \<Rightarrow> nat list list \<Rightarrow> bool" where
  "equal_share a sets R per \<longleftrightarrow> length per = length sets \<and> sets \<noteq> [] \<and> 0 < R \<and>
     sorted_wrt (\<lambda>S T. S \<inter> T = {}) sets \<and>
     (\<forall>s < length sets. length (per ! s) = R \<and>
        (\<exists>k. per ! s = take R (drop k (ba_seq_set_map a (sets ! s))) \<and>
             (\<forall>i < length (ba_seq_set_map a (sets ! s)).
                ba_used a ! (ba_seq_set_map a (sets ! s) ! i) \<longleftrightarrow> i < k)))"

lemma seq_set_map_mem:
  "ba_inv a \<Longrightarrow> i \<in> set (ba_seq_set_map a S) \<longleftrightarrow> i < ba_get_n_tokens a \<and> ba_seq_set a ! i = S"
  by (auto simp: ba_inv_def)

lemma seq_set_map_sorted: "ba_inv a \<Longrightarrow> sorted_wrt (<) (ba_seq_set_map a S)"
  by (simp add: ba_inv_def sorted_wrt_filter)

lemma equal_skip_prefix:
  assumes inv: "equal_inv sq a" and k: "k = equal_skip (ba_used a) (ba_seq_set_map a S) 0"
    and i: "i < length (ba_seq_set_map a S)"
  shows "ba_used a ! (ba_seq_set_map a S ! i) \<longleftrightarrow> i < k"
proof
  let ?t = "ba_seq_set_map a S"
  have b: "ba_inv a" using inv by (simp add: equal_inv_def)
  note sp = equal_skip_spec [of 0 "ba_used a" ?t, folded k]
  assume u: "ba_used a ! (?t ! i)"
  show "i < k"
  proof (rule ccontr)
    assume "\<not> i < k"
    then have ki: "k \<le> i" "k < length ?t" using i by auto
    then have nu: "\<not> ba_used a ! (?t ! k)" using sp by blast
    then have "k < i" using u ki by (cases "k = i") auto
    then have "?t ! k < ?t ! i"
      using sorted_wrt_nth_less [OF seq_set_map_sorted [OF b]] i by blast
    moreover have "?t ! k \<in> set ?t" "?t ! i \<in> set ?t" using ki i by simp_all
    ultimately show False
      using inv u nu seq_set_map_mem [OF b] unfolding equal_inv_def by metis
  qed
next
  assume "i < k"
  then show "ba_used a ! (ba_seq_set_map a S ! i)"
    using equal_skip_spec [of 0 "ba_used a" "ba_seq_set_map a S", folded k] by blast
qed

lemma mset_rounds:
  fixes f :: "nat \<Rightarrow> nat \<Rightarrow> 'a"
  shows "mset (concat (map (\<lambda>r. map (\<lambda>s. f s r) [0..<k]) [0..<R])) =
   mset (concat (map (\<lambda>s. map (\<lambda>r. f s r) [0..<R]) [0..<k]))"
proof -
  have row: "mset (map h [0..<m]) = (\<Sum>y<m. {#h y#})" for h :: "nat \<Rightarrow> 'a" and m
    by (induction m) simp_all
  have sum: "mset (concat (map (\<lambda>x. map (g x) [0..<m]) [0..<n])) = (\<Sum>x<n. \<Sum>y<m. {#g x y#})"
    for g :: "nat \<Rightarrow> nat \<Rightarrow> 'a" and m n
    by (induction n) (simp_all add: row [simplified])
  show ?thesis unfolding sum by (rule sum.swap)
qed

lemma distinct_concat_disjoint:
  "sorted_wrt (\<lambda>xs ys. set xs \<inter> set ys = {}) xss \<Longrightarrow> \<forall>xs \<in> set xss. distinct xs \<Longrightarrow> distinct (concat xss)"
  by (induction xss) auto

lemma equal_share_tokens:
  assumes inv: "ba_inv a" and sh: "equal_share a sets R per" and ne: "\<forall>S \<in> set sets. S \<noteq> {}"
  shows "s < length sets \<Longrightarrow> set (per ! s) \<subseteq> {i \<in> ba_unused a. ba_seq_set a ! i = sets ! s}"
    and "distinct (concat per)"
    and "set (concat per) \<subseteq> ba_unused a"
proof -
  have each: "set (per ! s) \<subseteq> {i \<in> ba_unused a. ba_seq_set a ! i = sets ! s} \<and> distinct (per ! s)"
    if s: "s < length sets" for s
  proof -
    let ?t = "ba_seq_set_map a (sets ! s)"
    obtain k where k: "per ! s = take R (drop k ?t)" "\<forall>i < length ?t. ba_used a ! (?t ! i) \<longleftrightarrow> i < k"
      using sh s unfolding equal_share_def by blast
    have "x \<in> ba_unused a \<and> ba_seq_set a ! x = sets ! s" if "x \<in> set (per ! s)" for x
    proof -
      have "x \<in> set (drop k ?t)" using that k(1) by (metis in_set_takeD)
      then obtain r where r: "k + r < length ?t" "x = ?t ! (k + r)"
        by (fastforce simp: in_set_conv_nth less_diff_conv add.commute)
      then have "x \<in> set ?t" "\<not> ba_used a ! x" using k(2) by auto
      then show ?thesis using seq_set_map_mem [OF inv] by (simp add: ba_unused_def)
    qed
    moreover have "distinct (per ! s)"
      using seq_set_map_sorted [OF inv] k(1) by (simp add: strict_sorted_iff)
    ultimately show ?thesis by blast
  qed
  then show "s < length sets \<Longrightarrow> set (per ! s) \<subseteq> {i \<in> ba_unused a. ba_seq_set a ! i = sets ! s}"
    by blast
  have len: "length per = length sets" using sh by (simp add: equal_share_def)
  have "set (per ! s) \<inter> set (per ! t) = {}" if "s < t" "t < length sets" for s t
  proof -
    have "sets ! s \<inter> sets ! t = {}"
      using sh that by (auto simp: equal_share_def sorted_wrt_iff_nth_less)
    moreover have "sets ! s \<noteq> {}" using ne that by simp
    ultimately have "sets ! s \<noteq> sets ! t" by blast
    then show ?thesis using each [of s] each [of t] that by auto
  qed
  then show "distinct (concat per)"
    using each len
    by (intro distinct_concat_disjoint) (auto simp: sorted_wrt_iff_nth_less in_set_conv_nth)
  show "set (concat per) \<subseteq> ba_unused a"
    using each len by (fastforce simp: in_set_conv_nth)
qed

lemma equal_idxs_result:
  assumes inv: "equal_inv sq a" and un: "ba_unused a \<noteq> {}"
  shows "\<exists>sets R per. equal_idxs n_ubatch sq a = (per, fold set_used (concat per) a) \<and>
     equal_share a sets R per \<and> (\<forall>S \<in> set sets. S \<noteq> {}) \<and>
     length sets \<le> n_ubatch + 1 \<and> (R = 1 \<or> R * length sets \<le> n_ubatch) \<and>
     ((R + 1) * length sets > n_ubatch \<or>
       (\<exists>s < length sets. \<forall>i \<in> ba_unused a. ba_seq_set a ! i = sets ! s \<longrightarrow> i \<in> set (per ! s)))"
proof -
  have b: "ba_inv a" and cpl: "\<not> (sq \<and> ba_has_cpl a)" using inv by (simp_all add: equal_inv_def)
  have nt: "b_n_tokens (ba_batch a) = ba_get_n_tokens a" by (simp add: ba_get_n_tokens_def)
  define sets where "sets = equal_select a n_ubatch sq [0..<ba_get_n_tokens a] [] (-1)"
  have all: "{0..<ba_get_n_tokens a} \<inter> ba_unused a = ba_unused a" by (auto simp: ba_unused_def)
  have sel: "set sets \<subseteq> (!) (ba_seq_set a) ` ba_unused a" "sorted_wrt (\<lambda>S T. S \<inter> T = {}) sets"
    "length sets \<le> n_ubatch + 1" "sets \<noteq> []"
    using equal_select_spec [of "[0..<ba_get_n_tokens a]" a "[]" n_ubatch sq "-1"] un all
    by (auto simp: sets_def lessThan_atLeast0)
  define toks where "toks = map (ba_seq_set_map a) sets"
  define cur where "cur = map (\<lambda>t. equal_skip (ba_used a) t 0) toks"
  let ?k = "length sets"
  have toks: "toks \<noteq> []" "length cur = length toks" "length (replicate ?k []) = length toks"
    using sel(4) by (simp_all add: toks_def cur_def)
  have pre: "\<forall>i < length (toks ! s). ba_used a ! (toks ! s ! i) \<longleftrightarrow> i < cur ! s" if "s < ?k" for s
    using equal_skip_prefix [OF inv refl] that by (simp add: toks_def cur_def)
  have lt: "cur ! s < length (toks ! s)" if s: "s < ?k" for s
  proof -
    obtain i where i: "i \<in> ba_unused a" "ba_seq_set a ! i = sets ! s"
      using sel(1) nth_mem [OF s] by blast
    then have "i \<in> set (toks ! s)"
      using s seq_set_map_mem [OF b] by (simp add: toks_def ba_unused_def)
    then obtain r where "r < length (toks ! s)" "toks ! s ! r = i" by (auto simp: in_set_conv_nth)
    then show ?thesis using pre [OF s] i(1) by (auto simp: ba_unused_def)
  qed
  obtain R where R: "equal_loop n_ubatch toks cur (replicate ?k []) a =
      (map (\<lambda>s. replicate ?k [] ! s @ take R (drop (cur ! s) (toks ! s))) [0..<length toks],
       fold set_used (concat (map (\<lambda>r. map (\<lambda>s. toks ! s ! (cur ! s + r)) [0..<length toks]) [0..<R])) a)"
    "\<forall>s < length toks. R = 0 \<or> cur ! s + R \<le> length (toks ! s)"
    "(\<exists>s < length toks. length (toks ! s) \<le> cur ! s + R) \<or>
       (R > 0 \<and> (length (replicate ?k [] ! 0 :: nat list) + R + 1) * length toks > n_ubatch)"
    "R \<le> 1 \<or> (length (replicate ?k [] ! 0 :: nat list) + R) * length toks \<le> n_ubatch"
    "(\<forall>s < length toks. cur ! s < length (toks ! s)) \<longrightarrow> R > 0"
    using equal_loop_result [OF toks, of n_ubatch a] by blast
  define per where "per = map (\<lambda>s. take R (drop (cur ! s) (toks ! s))) [0..<?k]"
  have k: "length toks = ?k" "0 < ?k" using sel(4) by (simp_all add: toks_def)
  have R0: "R > 0" using R(5) lt k by simp
  have fit: "cur ! s + R \<le> length (toks ! s)" if "s < ?k" for s using R(2) R0 k that by auto
  have cols: "per = map (\<lambda>s. map (\<lambda>r. toks ! s ! (cur ! s + r)) [0..<R]) [0..<?k]"
    unfolding per_def using fit by (simp add: take_drop_map cong: map_cong)
  have "fold set_used (concat (map (\<lambda>r. map (\<lambda>s. toks ! s ! (cur ! s + r)) [0..<?k]) [0..<R])) a
      = fold set_used (concat per) a"
    unfolding cols by (rule fold_set_used_mset) (rule mset_rounds)
  then have res: "equal_idxs n_ubatch sq a = (per, fold set_used (concat per) a)"
    using R(1) k cpl sel(4)
    by (simp add: equal_idxs_def nt sets_def [symmetric] toks_def [symmetric] cur_def [symmetric]
        Let_def per_def cong: map_cong)
  have share: "equal_share a sets R per"
    unfolding equal_share_def
    using sel(2,4) R0 fit pre by (force simp: per_def toks_def)
  have stop: "(R + 1) * ?k > n_ubatch \<or>
     (\<exists>s < ?k. \<forall>i \<in> ba_unused a. ba_seq_set a ! i = sets ! s \<longrightarrow> i \<in> set (per ! s))"
  proof (cases "\<exists>s < ?k. length (toks ! s) \<le> cur ! s + R")
    case True
    then obtain s where s: "s < ?k" "length (toks ! s) \<le> cur ! s + R" by blast
    have "i \<in> set (per ! s)" if "i \<in> ba_unused a" "ba_seq_set a ! i = sets ! s" for i
    proof -
      have "i \<in> set (toks ! s)"
        using that s(1) seq_set_map_mem [OF b] by (simp add: toks_def ba_unused_def)
      then obtain r where "r < length (toks ! s)" "toks ! s ! r = i" by (auto simp: in_set_conv_nth)
      moreover have "cur ! s \<le> r" using calculation pre [OF s(1)] that(1) by (auto simp: ba_unused_def)
      ultimately have "drop (cur ! s) (toks ! s) ! (r - cur ! s) = i"
        "r - cur ! s < length (drop (cur ! s) (toks ! s))"
        by auto
      then have "i \<in> set (drop (cur ! s) (toks ! s))" using nth_mem by blast
      then show ?thesis using s by (simp add: per_def)
    qed
    with s(1) show ?thesis by blast
  qed (use R(3) k in auto)
  have ne: "\<forall>S \<in> set sets. S \<noteq> {}"
    using sel(1) b by (fastforce simp: ba_inv_def ba_unused_def)
  show ?thesis
    using res share ne sel(3) R(4) R0 stop k
    by (intro exI [of _ sets] exI [of _ R] exI [of _ per]) auto
qed

lemma equal_share_length: "equal_share a sets R per \<Longrightarrow> length (concat per) = R * length sets"
proof -
  assume sh: "equal_share a sets R per"
  then have "map length per = replicate (length sets) R"
    by (intro nth_equalityI) (simp_all add: equal_share_def)
  then show ?thesis by (simp add: length_concat sum_list_replicate)
qed

lemma equal_inv_fold:
  assumes inv: "equal_inv sq a" and sh: "equal_share a sets R per" and ne: "\<forall>S \<in> set sets. S \<noteq> {}"
  shows "equal_inv sq (fold set_used (concat per) a)"
proof -
  have b: "ba_inv a" using inv by (simp add: equal_inv_def)
  note tok = equal_share_tokens [OF b sh ne]
  have len: "length (ba_used a) = ba_get_n_tokens a" using b by (simp add: ba_inv_def)
  have "ba_used a ! i \<or> i \<in> set (concat per)"
    if ij: "j < ba_get_n_tokens a" "i < j" "ba_seq_set a ! i = ba_seq_set a ! j" and j: "j \<in> set (concat per)" for i j
  proof -
    have lenp: "length per = length sets" using sh by (simp add: equal_share_def)
    obtain s where s: "s < length sets" "j \<in> set (per ! s)"
      using j unfolding set_concat by (metis UN_E in_set_conv_nth lenp)
    let ?t = "ba_seq_set_map a (sets ! s)"
    obtain k where k: "per ! s = take R (drop k ?t)" "\<forall>i < length ?t. ba_used a ! (?t ! i) \<longleftrightarrow> i < k"
      using sh s(1) unfolding equal_share_def by blast
    have "i \<in> set ?t" using tok(1) [OF s(1)] s(2) ij seq_set_map_mem [OF b] by auto
    then obtain m where m: "m < length ?t" "?t ! m = i" by (auto simp: in_set_conv_nth)
    obtain r where r: "r < R" "k + r < length ?t" "?t ! (k + r) = j"
      using s(2) k(1) by (auto simp: in_set_conv_nth)
    have "m < k + r"
      using sorted_wrt_nth_less [OF seq_set_map_sorted [OF b], of "k + r" m "sets ! s"] m r ij(2)
      by (metis linorder_neqE_nat order_less_asym)
    show ?thesis
    proof (cases "m < k")
      case False
      then have "per ! s ! (m - k) = i" "m - k < length (per ! s)"
        using \<open>m < k + r\<close> m r k(1) by auto
      then have "i \<in> set (per ! s)" using nth_mem by blast
      moreover have "per ! s \<in> set per" using s(1) sh by (simp add: equal_share_def)
      ultimately show ?thesis by auto
    qed (use k(2) m in auto)
  qed
  then show ?thesis
    using inv ba_inv_fold [OF b tok(2,3)] by (auto simp: equal_inv_def fold_set_used_nth len)
qed

interpretation equal: splitter "split_equal n_ubatch sequential" "equal_inv sequential" "n_ubatch + 1"
  for n_ubatch sequential
proof
  fix a assume inv: "equal_inv sequential a"
  show b: "ba_inv a" using inv by (simp add: equal_inv_def)
  { assume "ba_unused a = {}"
    then have "set [0..<b_n_tokens (ba_batch a)] \<inter> ba_unused a = {}" by simp
    then have "equal_select a n_ubatch sequential [0..<b_n_tokens (ba_batch a)] [] (-1) = []"
      using equal_select_spec [of "[0..<b_n_tokens (ba_batch a)]" a "[]" n_ubatch sequential "-1"]
      by (auto simp: ba_get_n_tokens_def lessThan_atLeast0)
    then show "fst (split_equal n_ubatch sequential a) = ub_none \<and> snd (split_equal n_ubatch sequential a) = a"
      by (simp add: split_equal_def equal_idxs_def) }
  { assume "ba_unused a \<noteq> {}"
    then obtain sets R per where r: "equal_idxs n_ubatch sequential a = (per, fold set_used (concat per) a)"
      "equal_share a sets R per" "\<forall>S \<in> set sets. S \<noteq> {}"
      "length sets \<le> n_ubatch + 1" "R = 1 \<or> R * length sets \<le> n_ubatch"
      using equal_idxs_result [OF inv] by blast
    have lim: "length (concat per) \<le> n_ubatch + 1"
      using equal_share_length [OF r(2)] r(4,5) by auto
    have "0 < length per" "length (per ! 0) = R" "0 < R"
      using r(2) by (simp_all add: equal_share_def)
    then have "per \<noteq> []" "concat per \<noteq> []"
      using nth_mem [of 0 per] by auto
    then show "\<exists>idxs n e. idxs \<noteq> [] \<and> length idxs \<le> n_ubatch + 1 \<and> distinct idxs \<and>
        set idxs \<subseteq> ba_unused a \<and> equal_inv sequential (fold set_used idxs a) \<and>
        split_equal n_ubatch sequential a = ubatch_add (fold set_used idxs a) idxs n e"
      using r(1) lim equal_inv_fold [OF inv r(2,3)] equal_share_tokens(2,3) [OF b r(2,3)]
      by (intro exI [of _ "concat per"] exI [of _ "length per"] exI [of _ True])
        (simp add: split_equal_def) }
qed (auto simp: equal_inv_def ba_inv_def ba_get_n_tokens_def)

subsection \<open>Along one sequence set\<close>

lemma seq_next_spec:
  "seq_next a S cur < ba_get_n_tokens a \<Longrightarrow>
   seq_next a S cur \<in> ba_unused a \<and> ba_seq_set a ! seq_next a S cur \<subseteq> S"
proof (induction a S cur rule: seq_next.induct)
  case (1 a S cur)
  show ?case
  proof (cases "cur < ba_get_n_tokens a \<and> (ba_used a ! cur \<or> S \<inter> ba_seq_set a ! cur \<noteq> ba_seq_set a ! cur)")
    case True
    then have "seq_next a S cur = seq_next a S (cur + 1)" by (subst seq_next.simps) simp
    then show ?thesis using 1 True by simp
  next
    case False
    then have "seq_next a S cur = cur" by (subst seq_next.simps) auto
    then show ?thesis using False 1(2) by (auto simp: ba_unused_def)
  qed
qed

text \<open>The tokens taken are increasing and their sequence sets a descending chain.\<close>

lemma seq_loop_result:
  assumes "ba_inv a" and "cur \<in> ba_unused a"
  shows "\<exists>new. seq_loop n_ubatch (ba_seq_set a ! cur) cur idxs a = (idxs @ cur # new, fold set_used (cur # new) a) \<and>
    sorted_wrt (\<lambda>i j. i < j \<and> ba_seq_set a ! j \<subseteq> ba_seq_set a ! i) (cur # new) \<and>
    set (cur # new) \<subseteq> ba_unused a \<and> length (idxs @ cur # new) \<le> max (Suc (length idxs)) n_ubatch"
  using assms
proof (induction "ba_get_n_tokens a - cur" arbitrary: a cur idxs rule: less_induct)
  case (less a cur idxs)
  let ?S = "ba_seq_set a ! cur"
  define a' where "a' = set_used cur a"
  define cur' where "cur' = seq_next a' ?S (cur + 1)"
  have a': "a' = fold set_used [cur] a" by (simp add: a'_def)
  have fr: "ba_get_n_tokens a' = ba_get_n_tokens a" "ba_seq_set a' = ba_seq_set a"
    by (simp_all add: a'_def set_used_def ba_get_n_tokens_def)
  have un: "ba_unused a' = ba_unused a - {cur}" using ba_unused_fold [OF less.prems(1), of "[cur]"] a' by simp
  have step: "seq_loop n_ubatch ?S cur idxs a =
      (if length (idxs @ [cur]) \<ge> n_ubatch then (idxs @ [cur], a')
       else if cur' \<ge> ba_get_n_tokens a then (idxs @ [cur], a')
       else seq_loop n_ubatch (ba_seq_set a' ! cur') cur' (idxs @ [cur]) a')"
    by (subst seq_loop.simps) (simp add: Let_def a'_def [symmetric] cur'_def fr)
  show ?case
  proof (cases "length (idxs @ [cur]) \<ge> n_ubatch \<or> cur' \<ge> ba_get_n_tokens a")
    case True
    then show ?thesis
      using step less.prems(2) by (intro exI [of _ "[]"]) (auto simp: a')
  next
    case False
    have gt: "cur < cur'" using seq_next_ge [of "cur + 1" a' ?S] by (simp add: cur'_def)
    have c': "cur' \<in> ba_unused a'" "ba_seq_set a ! cur' \<subseteq> ?S"
      using seq_next_spec [of a' ?S "cur + 1"] False fr by (auto simp: cur'_def)
    have inv': "ba_inv a'" unfolding a' using less.prems by (intro ba_inv_fold) auto
    have "cur < ba_get_n_tokens a" using less.prems(2) by (simp add: ba_unused_def)
    then have m: "ba_get_n_tokens a' - cur' < ba_get_n_tokens a - cur" using gt fr(1) by linarith
    obtain new where new: "seq_loop n_ubatch (ba_seq_set a' ! cur') cur' (idxs @ [cur]) a' =
        ((idxs @ [cur]) @ cur' # new, fold set_used (cur' # new) a')"
      "sorted_wrt (\<lambda>i j. i < j \<and> ba_seq_set a' ! j \<subseteq> ba_seq_set a' ! i) (cur' # new)"
      "set (cur' # new) \<subseteq> ba_unused a'"
      "length ((idxs @ [cur]) @ cur' # new) \<le> max (Suc (length (idxs @ [cur]))) n_ubatch"
      using less.hyps [OF m inv' c'(1), of "idxs @ [cur]"] by blast
    have len: "length (idxs @ cur # cur' # new) \<le> max (Suc (length idxs)) n_ubatch"
      using new(4) False by auto
    show ?thesis
      using new(1-3) step False gt c' len less.prems(2)
      by (intro exI [of _ "cur' # new"]) (auto simp: a'_def [symmetric] fr un)
  qed
qed

lemma seq_idxs_result:
  assumes inv: "ba_inv a" and un: "ba_unused a \<noteq> {}"
  shows "\<exists>new. seq_idxs n_ubatch a = (new, fold set_used new a) \<and> new \<noteq> [] \<and>
    sorted_wrt (\<lambda>i j. i < j \<and> ba_seq_set a ! j \<subseteq> ba_seq_set a ! i) new \<and>
    hd new = first_unused (ba_used a) 0 \<and>
    set new \<subseteq> ba_unused a \<and> length new \<le> max 1 n_ubatch"
proof -
  let ?k = "first_unused (ba_used a) 0"
  have k: "?k < ba_get_n_tokens a" "?k \<in> ba_unused a" "length (ba_used a) = ba_get_n_tokens a"
    using first_unused_ba [OF inv] un inv by (simp_all add: ba_inv_def)
  then have "seq_idxs n_ubatch a = seq_loop n_ubatch (ba_seq_set a ! ?k) ?k [] a"
    by (simp add: seq_idxs_def Let_def)
  then show ?thesis
    using seq_loop_result [OF inv k(2), of n_ubatch "[]"] by auto
qed

interpretation along: splitter "split_seq n_ubatch" ba_inv "max 1 n_ubatch" for n_ubatch
proof
  fix a assume inv: "ba_inv a"
  { assume "ba_unused a = {}"
    then show "fst (split_seq n_ubatch a) = ub_none \<and> snd (split_seq n_ubatch a) = a"
      using first_unused_ba(1) [OF inv] inv
      by (simp add: split_seq_def seq_idxs_def ba_inv_def) }
  { assume un: "ba_unused a \<noteq> {}"
    obtain new where n: "seq_idxs n_ubatch a = (new, fold set_used new a)" "new \<noteq> []"
      "sorted_wrt (\<lambda>i j. i < j \<and> ba_seq_set a ! j \<subseteq> ba_seq_set a ! i) new" "set new \<subseteq> ba_unused a"
      "length new \<le> max 1 n_ubatch"
      using seq_idxs_result [OF inv un] by blast
    have "sorted_wrt (<) new" using n(3) by (rule sorted_wrt_mono_rel [rotated]) simp
    then have d: "distinct new" by (simp add: strict_sorted_iff)
    then show "\<exists>idxs n e. idxs \<noteq> [] \<and> length idxs \<le> max 1 n_ubatch \<and> distinct idxs \<and>
        set idxs \<subseteq> ba_unused a \<and> ba_inv (fold set_used idxs a) \<and> split_seq n_ubatch a = ubatch_add (fold set_used idxs a) idxs n e"
      using n ba_inv_fold [OF inv d n(4)]
      by (intro exI [of _ new] exI [of _ 1] exI [of _ True]) (simp add: split_seq_def) }
qed (auto simp: ba_inv_def ba_get_n_tokens_def)

section \<open>What a successful initialisation establishes\<close>

lemma couple_pass_frame [simp]:
  "ba_batch (couple_pass b i a) = ba_batch a"
  "ba_seq_set (couple_pass b i a) = ba_seq_set a"
  "ba_seq_set_map (couple_pass b i a) = ba_seq_set_map a"
  "ba_out_ids (couple_pass b i a) = ba_out_ids a"
  "ba_n_pos_per_embd (couple_pass b i a) = ba_n_pos_per_embd a"
proof -
  have "ba_batch (fold f xs a) = ba_batch a \<and> ba_seq_set (fold f xs a) = ba_seq_set a \<and>
      ba_seq_set_map (fold f xs a) = ba_seq_set_map a \<and> ba_out_ids (fold f xs a) = ba_out_ids a \<and>
      ba_n_pos_per_embd (fold f xs a) = ba_n_pos_per_embd a"
    if "\<And>s a. ba_batch (f s a) = ba_batch a \<and> ba_seq_set (f s a) = ba_seq_set a \<and>
      ba_seq_set_map (f s a) = ba_seq_set_map a \<and> ba_out_ids (f s a) = ba_out_ids a \<and>
      ba_n_pos_per_embd (f s a) = ba_n_pos_per_embd a"
    for f and xs :: "nat list"
    using that by (induction xs arbitrary: a) simp_all
  then show "ba_batch (couple_pass b i a) = ba_batch a"
    "ba_seq_set (couple_pass b i a) = ba_seq_set a"
    "ba_seq_set_map (couple_pass b i a) = ba_seq_set_map a"
    "ba_out_ids (couple_pass b i a) = ba_out_ids a"
    "ba_n_pos_per_embd (couple_pass b i a) = ba_n_pos_per_embd a"
    unfolding couple_pass_def by (simp_all add: Let_def)
qed

lemma couple_pass_pos:
  "ba_seq_pos (couple_pass b i a) s =
     (if s \<in> set (batch_seqs b i) then insert (batch_pos b i) (ba_seq_pos a s) else ba_seq_pos a s)"
proof -
  let ?f = "\<lambda>k a. let s0 = batch_seqs b i ! 0; s1 = batch_seqs b i ! k;
            a1 = a\<lparr>ba_seq_pos := (ba_seq_pos a)(s1 := insert (batch_pos b i) (ba_seq_pos a s1))\<rparr>
        in if k > 0 then a1\<lparr>ba_seq_cpl := insert (s1, s0) (ba_seq_cpl a1), ba_has_cpl := True\<rparr>
           else a1"
  have "ba_seq_pos (fold ?f xs a) s =
      (if s \<in> (!) (batch_seqs b i) ` set xs then insert (batch_pos b i) (ba_seq_pos a s)
       else ba_seq_pos a s)" for xs
    by (induction xs arbitrary: a) (auto simp: Let_def)
  moreover have "(!) (batch_seqs b i) ` set [0..<length (batch_seqs b i)] = set (batch_seqs b i)"
    by (metis map_nth set_map)
  ultimately show ?thesis by (simp only: couple_pass_def)
qed

lemma fold_couple:
  "ba_seq_pos (fold (couple_pass b) xs a) s =
     ba_seq_pos a s \<union> batch_pos b ` {i \<in> set xs. s \<in> set (batch_seqs b i)}"
  by (induction xs arbitrary: a) (auto simp: couple_pass_pos)

lemma fold_couple_frame [simp]:
  "ba_batch (fold (couple_pass b) xs a) = ba_batch a"
  "ba_seq_set (fold (couple_pass b) xs a) = ba_seq_set a"
  "ba_seq_set_map (fold (couple_pass b) xs a) = ba_seq_set_map a"
  "ba_out_ids (fold (couple_pass b) xs a) = ba_out_ids a"
  "ba_n_pos_per_embd (fold (couple_pass b) xs a) = ba_n_pos_per_embd a"
  by (induction xs arbitrary: a) simp_all

lemma fold_seq_set:
  "ba_seq_set (fold (seq_set_pass b) xs a) = ba_seq_set a @ map (\<lambda>i. set (batch_seqs b i)) xs"
  "ba_seq_set_map (fold (seq_set_pass b) xs a) S =
     ba_seq_set_map a S @ filter (\<lambda>i. set (batch_seqs b i) = S) xs"
  "ba_batch (fold (seq_set_pass b) xs a) = ba_batch a"
  "ba_seq_pos (fold (seq_set_pass b) xs a) = ba_seq_pos a"
  "ba_n_pos_per_embd (fold (seq_set_pass b) xs a) = ba_n_pos_per_embd a"
  "ba_out_ids (fold (seq_set_pass b) xs a) = ba_out_ids a"
  by (induction xs arbitrary: a) (simp_all add: seq_set_pass_def Let_def)

text \<open>The statistics of \<open>init\<close> describe the batch.\<close>

lemma batch_stats_fields:
  fixes a :: llama_batch_allocr and n_embd n_seq_max :: nat
  assumes "ba_seq_set a = []" "\<And>S. ba_seq_set_map a S = []" "\<And>s. ba_seq_pos a s = {}"
  defines "b \<equiv> ba_batch a" and "r \<equiv> batch_stats n_embd n_seq_max a"
  shows "ba_batch r = b"
    and "ba_seq_set r = map (\<lambda>i. set (batch_seqs b i)) [0..<b_n_tokens b]"
    and "ba_seq_set_map r S = filter (\<lambda>i. set (batch_seqs b i) = S) [0..<b_n_tokens b]"
    and "ba_seq_pos r s = batch_pos b ` {i. i < b_n_tokens b \<and> s \<in> set (batch_seqs b i)}"
    and "ba_n_pos_per_embd r = ba_n_pos_per_embd a"
  using assms
  by (simp_all add: batch_stats_def Let_def fold_seq_set fold_couple b_def r_def)

lemma batch_init_success:
  assumes "batch_init inp n_vocab mem n_embd n_seq_max output_all a0 = Inr (True, a)"
  shows "\<exists>a2. a = ba_split_reset a2 \<and> batch_validate n_vocab n_seq_max inp \<and>
     ba_batch a2 = fill_logits output_all (fill_pos (map_option snd mem) (fill_seq_id inp)) \<and>
     a2 = batch_stats n_embd n_seq_max ((ba_clear a0)\<lparr>ba_batch := ba_batch a2\<rparr>) \<and>
     check_positions (map_option snd mem) n_seq_max a2 \<and> check_coupled mem n_seq_max a2 \<and>
     check_sets a2 \<and> 0 < b_n_tokens inp"
proof -
  let ?b = "fill_logits output_all (fill_pos (map_option snd mem) (fill_seq_id inp))"
  let ?a2 = "batch_stats n_embd n_seq_max ((ba_clear a0)\<lparr>ba_batch := ?b\<rparr>)"
  have "ba_batch ?a2 = ?b"
    by (subst batch_stats_fields(1)) (simp_all add: ba_clear_def)
  then show ?thesis
    using assms by (intro exI [of _ ?a2]) (simp add: batch_init_def Let_def split: if_splits)
qed

lemma fill_frame [simp]:
  "b_n_tokens (fill_logits oa b) = b_n_tokens b" "b_n_tokens (fill_pos m b) = b_n_tokens b"
  "b_n_tokens (fill_seq_id b) = b_n_tokens b"
  by (simp_all add: fill_logits_def fill_pos_def fill_seq_id_def Let_def split: option.splits)

lemma check_positions_reset: "check_positions m n (ba_split_reset a) = check_positions m n a"
proof -
  have fr: "ba_seq_pos (ba_split_reset a) = ba_seq_pos a" "ba_batch (ba_split_reset a) = ba_batch a"
    "ba_n_pos_per_embd (ba_split_reset a) = ba_n_pos_per_embd a"
    by (simp_all add: ba_split_reset_def)
  have "check_seq_mrope m (ba_split_reset a) s = check_seq_mrope m a s"
    "check_seq_continuous m (ba_split_reset a) s = check_seq_continuous m a s" for s
    unfolding check_seq_mrope_def check_seq_continuous_def ba_seq_pos_min_def ba_seq_pos_max_def fr
    by (rule refl)+
  then have "check_seq_mrope m (ba_split_reset a) = check_seq_mrope m a"
    "check_seq_continuous m (ba_split_reset a) = check_seq_continuous m a" by blast+
  then show ?thesis by (simp add: check_positions_def fr)
qed

lemma batch_init_fields:
  assumes "batch_init inp n_vocab mem n_embd n_seq_max output_all a0 = Inr (True, a)"
  shows "ba_get_n_tokens a = b_n_tokens inp" "0 < b_n_tokens inp"
    and "ba_seq_set a = map (\<lambda>i. set (batch_seqs (ba_batch a) i)) [0..<ba_get_n_tokens a]"
    and "ba_seq_set_map a S = filter (\<lambda>i. set (batch_seqs (ba_batch a) i) = S) [0..<ba_get_n_tokens a]"
    and "ba_seq_pos a s =
      batch_pos (ba_batch a) ` {i. i < ba_get_n_tokens a \<and> s \<in> set (batch_seqs (ba_batch a) i)}"
    and "ba_n_pos_per_embd a = ba_n_pos_per_embd a0"
    and "check_positions (map_option snd mem) n_seq_max a"
    and "ba_used a = replicate (ba_get_n_tokens a) False" "ba_n_used a = 0" "ba_out_ids a = []"
proof -
  obtain a2 where a2: "a = ba_split_reset a2"
    "ba_batch a2 = fill_logits output_all (fill_pos (map_option snd mem) (fill_seq_id inp))"
    "a2 = batch_stats n_embd n_seq_max ((ba_clear a0)\<lparr>ba_batch := ba_batch a2\<rparr>)"
    "check_positions (map_option snd mem) n_seq_max a2" "0 < b_n_tokens inp"
    using batch_init_success [OF assms] by blast
  let ?c = "(ba_clear a0)\<lparr>ba_batch := ba_batch a2\<rparr>"
  have "ba_seq_set ?c = []" "\<And>S. ba_seq_set_map ?c S = []" "\<And>s. ba_seq_pos ?c s = {}"
    by (simp_all add: ba_clear_def)
  note st = batch_stats_fields [OF this, of n_embd n_seq_max, folded a2(3), simplified]
  show "ba_get_n_tokens a = b_n_tokens inp" "0 < b_n_tokens inp" using a2(1,2,5)
    by (simp_all add: ba_split_reset_def ba_get_n_tokens_def)
  show "ba_seq_set a = map (\<lambda>i. set (batch_seqs (ba_batch a) i)) [0..<ba_get_n_tokens a]"
    "ba_seq_set_map a S = filter (\<lambda>i. set (batch_seqs (ba_batch a) i) = S) [0..<ba_get_n_tokens a]"
    "ba_seq_pos a s =
      batch_pos (ba_batch a) ` {i. i < ba_get_n_tokens a \<and> s \<in> set (batch_seqs (ba_batch a) i)}"
    "ba_n_pos_per_embd a = ba_n_pos_per_embd a0"
    using st by (simp_all add: a2(1) ba_split_reset_def ba_get_n_tokens_def ba_clear_def)
  show "check_positions (map_option snd mem) n_seq_max a"
    using a2(4) by (simp add: a2(1) check_positions_reset)
  show "ba_used a = replicate (ba_get_n_tokens a) False" "ba_n_used a = 0" "ba_out_ids a = []"
    by (simp_all add: a2(1) ba_split_reset_def ba_get_n_tokens_def)
qed

text \<open>A token with no sequence id is not rejected; every caller supplies at least one.\<close>

lemma batch_init_inv:
  assumes "batch_init inp n_vocab mem n_embd n_seq_max output_all a0 = Inr (True, a)"
    and "\<And>i. i < ba_get_n_tokens a \<Longrightarrow> batch_seqs (ba_batch a) i \<noteq> []"
  shows "ba_inv a" "ba_unused a = {..<ba_get_n_tokens a}" "simple_inv a"
    "\<not> (sq \<and> ba_has_cpl a) \<Longrightarrow> equal_inv sq a"
proof -
  note f = batch_init_fields [OF assms(1)]
  have none: "\<not> ba_used a ! i" if "i < ba_get_n_tokens a" for i using f(8) that by simp
  then have "{i. i < ba_get_n_tokens a \<and> ba_used a ! i} = {}" by blast
  then show inv: "ba_inv a"
    using f(3,4,8,9) assms(2) by (auto simp: ba_inv_def intro!: filter_cong)
  show "ba_unused a = {..<ba_get_n_tokens a}" using none by (auto simp: ba_unused_def)
  show "simple_inv a" "\<not> (sq \<and> ba_has_cpl a) \<Longrightarrow> equal_inv sq a"
    using inv none by (auto simp: simple_inv_def equal_inv_def)
qed

lemma check_sets_token_pos:
  "-1 \<le> p \<Longrightarrow> -1 \<le> q \<Longrightarrow> check_sets_token S p ss cur (\<lambda>s. -1) = check_sets_token S q ss cur (\<lambda>s. -1)"
  by (induction ss arbitrary: cur) (auto simp: Let_def)

lemma check_sets_loop_pos:
  assumes "\<And>i. i \<in> set is \<Longrightarrow> -1 \<le> batch_pos (ba_batch a) i \<and> -1 \<le> p ! i"
  shows "check_sets_loop (a\<lparr>ba_batch := (ba_batch a)\<lparr>b_pos := Some p\<rparr>\<rparr>) is cur (\<lambda>s. -1) =
     check_sets_loop a is cur (\<lambda>s. -1)"
  using assms
proof (induction "is" arbitrary: cur)
  case (Cons i "is")
  let ?b = "(ba_batch a)\<lparr>b_pos := Some p\<rparr>"
  have "batch_seqs ?b i = batch_seqs (ba_batch a) i" "batch_pos ?b i = p ! i"
    by (simp_all add: batch_seqs_def batch_pos_def)
  moreover have "check_sets_token S (p ! i) ss cur (\<lambda>s. -1) =
      check_sets_token S (batch_pos (ba_batch a) i) ss cur (\<lambda>s. -1)" for S ss
    using Cons.prems by (intro check_sets_token_pos) auto
  ultimately show ?case using Cons by (auto split: option.splits)
qed simp

text \<open>The positions \<open>fill_pos\<close> has generated after \<open>i\<close> tokens, one sequence per token.\<close>

lemma fill_pos_fold:
  assumes "\<And>i. i < n \<Longrightarrow> batch_seqs b i = [f i]"
  shows "fold (fill_pos_pass b) [0..<n] ([], p0) =
     (map (\<lambda>i. p0 (f i) + int (card {j. j < i \<and> f j = f i})) [0..<n],
      \<lambda>s. p0 s + int (card {j. j < n \<and> f j = s}))"
  using assms
proof (induction n)
  case (Suc n)
  have one: "nat (the (b_seq_id b) ! n ! 0) = f n"
  proof -
    have "batch_seqs b n ! 0 = f n" "0 < length (batch_seqs b n)" using Suc.prems by simp_all
    then show ?thesis by (simp add: batch_seqs_def)
  qed
  have "{j. j < Suc n \<and> f j = s} = (if f n = s then insert n {j. j < n \<and> f j = s} else {j. j < n \<and> f j = s})"
    for s by (auto simp: less_Suc_eq)
  then have "card {j. j < Suc n \<and> f j = s} = card {j. j < n \<and> f j = s} + (if f n = s then 1 else 0)" for s
    by simp
  then show ?case
    using Suc one by (auto simp: fill_pos_pass_def fun_eq_iff Let_def)
qed simp

section \<open>A small batch\<close>

text \<open>Three tokens of three sequences, for the evaluations below.\<close>

definition demo_batch :: llama_batch where
  "demo_batch = \<lparr>b_n_tokens = 3, b_token = Some [5, 6, 7], b_embd = None, b_pos = Some [0, 0, 0],
     b_n_seq_id = Some [1, 1, 1], b_seq_id = Some [[0], [1], [2]], b_logits = None\<rparr>"

definition demo_allocr :: llama_batch_allocr where
  "demo_allocr = snd (projr (batch_init demo_batch 10 None 4 3 True (batch_allocr_new 1)))"

lemma demo_init: "batch_init demo_batch 10 None 4 3 True (batch_allocr_new 1) = Inr (True, demo_allocr)"
proof -
  have "case batch_init demo_batch 10 None 4 3 True (batch_allocr_new 1) of Inl e \<Rightarrow> False | Inr r \<Rightarrow> fst r"
    by code_simp
  then show ?thesis by (auto simp: demo_allocr_def split: sum.splits)
qed

lemma demo_fields:
  "ba_get_n_tokens demo_allocr = 3" "\<not> ba_has_cpl demo_allocr"
  "batch_seqs (ba_batch demo_allocr) 0 = [0]" "batch_seqs (ba_batch demo_allocr) 1 = [1]"
  "batch_seqs (ba_batch demo_allocr) 2 = [2]"
  by code_simp+

lemma demo_seqs: "i < ba_get_n_tokens demo_allocr \<Longrightarrow> batch_seqs (ba_batch demo_allocr) i \<noteq> []"
  using demo_fields by (auto simp: less_Suc_eq numeral_3_eq_3 numeral_2_eq_2)

section \<open>Properties\<close>

text \<open>
  C23. What initialisation accepts of the positions of a batch. With one position per token the batch continues every
  sequence it touches without a gap: the positions of a sequence in the batch are an interval, and when the
  memory already holds the sequence the interval starts right behind its last position. With more positions
  per token (M-RoPE) gaps are accepted: the first position of a sequence is behind the last one of the memory, or
  equal to it when the batch has embeddings instead of tokens.
\<close>

theorem batch_init_contiguous:
  assumes "batch_init inp n_vocab mem n_embd n_seq_max output_all a0 = Inr (True, a)"
    and "s < n_seq_max" and "i < ba_get_n_tokens a" and "s \<in> set (batch_seqs (ba_batch a) i)"
  defines "P \<equiv> batch_pos (ba_batch a) ` {i. i < ba_get_n_tokens a \<and> s \<in> set (batch_seqs (ba_batch a) i)}"
  shows "if ba_n_pos_per_embd a0 \<le> 1
    then P = {Min P..Max P} \<and> (\<forall>mn mx. mem = Some (mn, mx) \<longrightarrow> 0 \<le> mx s \<longrightarrow> Min P = mx s + 1)
    else \<forall>mn mx. mem = Some (mn, mx) \<longrightarrow> 0 \<le> mx s \<longrightarrow>
      (if b_token (ba_batch a) \<noteq> None then mx s < Min P else mx s \<le> Min P)"
proof -
  note f = batch_init_fields [OF assms(1)]
  have P: "ba_seq_pos a s = P" using f(5) by (simp add: P_def)
  have ne: "P \<noteq> {}" "finite P" using assms(3,4) by (auto simp: P_def)
  show ?thesis
  proof (cases "ba_n_pos_per_embd a0 \<le> 1")
    case True
    have "check_seq_continuous (map_option snd mem) a s"
      using f(7,6) True assms(2) by (simp add: check_positions_def list_all_iff)
    then have chk: "int (card P) \<ge> Max P - Min P + 1"
      "\<And>mn mx. mem = Some (mn, mx) \<Longrightarrow> 0 \<le> mx s \<Longrightarrow> Min P = mx s + 1"
      using ne P by (auto simp: check_seq_continuous_def ba_seq_pos_min_def ba_seq_pos_max_def
          Let_def split: if_splits)
    have "P \<subseteq> {Min P..Max P}" using ne by auto
    moreover have "card {Min P..Max P} \<le> card P" using chk(1) by simp
    ultimately have "P = {Min P..Max P}" by (intro card_seteq) simp_all
    with chk(2) True show ?thesis by simp
  next
    case False
    have "check_seq_mrope (map_option snd mem) a s"
      using f(7,6) False assms(2) by (simp add: check_positions_def list_all_iff)
    then have "if b_token (ba_batch a) \<noteq> None then mx s < Min P else mx s \<le> Min P" if "mem = Some (mn, mx)" "0 \<le> mx s" for mn mx
      using that ne(1) P by (cases "b_token (ba_batch a)") (simp_all add: check_seq_mrope_def ba_seq_pos_min_def not_le not_less del: Min_gr_iff Min_ge_iff)
    then show ?thesis using False by auto
  qed
qed

text \<open>The witness: the memory holds sequence 1 up to position 4, and the batch has the positions 5 and 6 for it.\<close>

definition demo_next_batch :: llama_batch where
  "demo_next_batch = \<lparr>b_n_tokens = 3, b_token = Some [5, 6, 7], b_embd = None, b_pos = Some [5, 0, 6],
     b_n_seq_id = Some [1, 1, 1], b_seq_id = Some [[1], [0], [1]], b_logits = None\<rparr>"

definition demo_mem :: "(nat \<Rightarrow> llama_pos) \<times> (nat \<Rightarrow> llama_pos)" where
  "demo_mem = (\<lambda>s. if s = 1 then 0 else -1, \<lambda>s. if s = 1 then 4 else -1)"

theorem batch_init_contiguous_witness:
  "\<exists>a. batch_init demo_next_batch 10 (Some demo_mem) 4 3 True (batch_allocr_new 1) = Inr (True, a) \<and>
    (let P = batch_pos (ba_batch a) ` {i. i < ba_get_n_tokens a \<and> 1 \<in> set (batch_seqs (ba_batch a) i)}
     in P = {Min P..Max P} \<and> Min P = snd demo_mem 1 + 1)"
proof -
  have ok: "case batch_init demo_next_batch 10 (Some demo_mem) 4 3 True (batch_allocr_new 1) of
      Inl e \<Rightarrow> False | Inr r \<Rightarrow> fst r \<and> 0 < ba_get_n_tokens (snd r) \<and> 1 \<in> set (batch_seqs (ba_batch (snd r)) 0)"
    by code_simp
  then obtain a where a: "batch_init demo_next_batch 10 (Some demo_mem) 4 3 True (batch_allocr_new 1) = Inr (True, a)"
      "0 < ba_get_n_tokens a" "1 \<in> set (batch_seqs (ba_batch a) 0)"
    by (auto split: sum.splits)
  then show ?thesis
    using batch_init_contiguous [OF a(1) _ a(2,3)] by (auto simp: batch_allocr_new_def demo_mem_def Let_def)
qed

text \<open>
  C25. The in-order split of an accepted batch ends and is a partition: every token goes into
  exactly one micro-batch, with at most \<open>max(1, n_ubatch)\<close> tokens each, and the output ids
  collected on the way are the tokens marked for output, in micro-batch order.
\<close>

theorem split_simple_partitions:
  assumes "batch_init inp n_vocab mem n_embd n_seq_max output_all a0 = Inr (True, a)"
    and "\<And>i. i < ba_get_n_tokens a \<Longrightarrow> batch_seqs (ba_batch a) i \<noteq> []"
  shows "\<exists>ubs a' idxss. split_all (split_simple n_ubatch) [] a = Some (ubs, a') \<and>
     list_all2 (ub_of a) ubs idxss \<and> (\<forall>idxs \<in> set idxss. length idxs \<le> max 1 n_ubatch) \<and>
     mset (concat idxss) = mset [0..<ba_get_n_tokens a] \<and>
     ba_out_ids a' = filter (\<lambda>i. batch_logit (ba_batch a) i \<noteq> 0) (concat idxss) \<and>
     ba_n_used a' = ba_get_n_tokens a"
  using batch_init_inv [OF assms] batch_init_fields(10) [OF assms(1)]
  by (intro simple.split_all_partition)

theorem split_simple_partitions_witness:
  "\<exists>ubs a' idxss. split_all (split_simple 2) [] demo_allocr = Some (ubs, a') \<and>
     list_all2 (ub_of demo_allocr) ubs idxss \<and> ba_n_used a' = ba_get_n_tokens demo_allocr"
  using split_simple_partitions [OF demo_init demo_seqs, of 2] by blast

text \<open>
  The equal split of an accepted batch (sequential or not; a sequential split needs a batch
  without coupled sequences) ends and is a partition into micro-batches of at most
  \<open>n_ubatch + 1\<close> tokens.
\<close>

lemma split_equal_partitions:
  assumes "batch_init inp n_vocab mem n_embd n_seq_max output_all a0 = Inr (True, a)"
    and "\<And>i. i < ba_get_n_tokens a \<Longrightarrow> batch_seqs (ba_batch a) i \<noteq> []"
    and "\<not> (sequential \<and> ba_has_cpl a)"
  shows "\<exists>ubs a' idxss. split_all (split_equal n_ubatch sequential) [] a = Some (ubs, a') \<and>
     list_all2 (ub_of a) ubs idxss \<and> (\<forall>idxs \<in> set idxss. length idxs \<le> n_ubatch + 1) \<and>
     mset (concat idxss) = mset [0..<ba_get_n_tokens a] \<and>
     ba_out_ids a' = filter (\<lambda>i. batch_logit (ba_batch a) i \<noteq> 0) (concat idxss) \<and>
     ba_n_used a' = ba_get_n_tokens a"
  using batch_init_inv(2,4) [OF assms(1,2)] assms(3) batch_init_fields(10) [OF assms(1)]
  by (intro equal.split_all_partition) auto

text \<open>
  The split along one sequence set ends on an accepted batch and is a partition into
  micro-batches of at most \<open>max(1, n_ubatch)\<close> tokens.
\<close>

lemma split_seq_partitions:
  assumes "batch_init inp n_vocab mem n_embd n_seq_max output_all a0 = Inr (True, a)"
    and "\<And>i. i < ba_get_n_tokens a \<Longrightarrow> batch_seqs (ba_batch a) i \<noteq> []"
  shows "\<exists>ubs a' idxss. split_all (split_seq n_ubatch) [] a = Some (ubs, a') \<and>
     list_all2 (ub_of a) ubs idxss \<and> (\<forall>idxs \<in> set idxss. length idxs \<le> max 1 n_ubatch) \<and>
     mset (concat idxss) = mset [0..<ba_get_n_tokens a] \<and>
     ba_out_ids a' = filter (\<lambda>i. batch_logit (ba_batch a) i \<noteq> 0) (concat idxss) \<and>
     ba_n_used a' = ba_get_n_tokens a"
  using batch_init_inv [OF assms] batch_init_fields(10) [OF assms(1)]
  by (intro along.split_all_partition)

text \<open>
  C24. One equal split: as long as a token is unused it takes the same number \<open>R > 0\<close> of tokens
  from every chosen sequence set, all of them unused, and the chosen sets are pairwise disjoint.
  More than one token per set is taken only within \<open>n_ubatch\<close>, and \<open>R\<close> is maximal: one
  more round would exceed \<open>n_ubatch\<close>, or some chosen set has no unused token left.
\<close>

theorem split_equal_shares:
  assumes "equal_inv sequential a" and "ba_unused a \<noteq> {}"
  shows "\<exists>sets R per.
     split_equal n_ubatch sequential a =
       ubatch_add (fold set_used (concat per) a) (concat per) (length sets) True \<and>
     length per = length sets \<and> 0 < length sets \<and> 0 < R \<and>
     (\<forall>s < length sets. length (per ! s) = R \<and>
        set (per ! s) \<subseteq> {i \<in> ba_unused a. ba_seq_set a ! i = sets ! s}) \<and>
     sorted_wrt (\<lambda>S T. S \<inter> T = {}) sets \<and> (R = 1 \<or> R * length sets \<le> n_ubatch) \<and>
     (n_ubatch < (R + 1) * length sets \<or>
       (\<exists>s < length sets. \<forall>i \<in> ba_unused a. ba_seq_set a ! i = sets ! s \<longrightarrow> i \<in> set (per ! s)))"
proof -
  obtain sets R per where r: "equal_idxs n_ubatch sequential a = (per, fold set_used (concat per) a)"
    "equal_share a sets R per" "\<forall>S \<in> set sets. S \<noteq> {}" "R = 1 \<or> R * length sets \<le> n_ubatch"
    "(R + 1) * length sets > n_ubatch \<or>
       (\<exists>s < length sets. \<forall>i \<in> ba_unused a. ba_seq_set a ! i = sets ! s \<longrightarrow> i \<in> set (per ! s))"
    using equal_idxs_result [OF assms, of n_ubatch] by blast
  have b: "ba_inv a" using assms(1) by (simp add: equal_inv_def)
  have sh: "length per = length sets" "0 < length sets" "0 < R" "sorted_wrt (\<lambda>S T. S \<inter> T = {}) sets"
    "\<forall>s < length sets. length (per ! s) = R"
    using r(2) by (simp_all add: equal_share_def)
  moreover have "per \<noteq> []" using sh by auto
  ultimately show ?thesis
    using r(1,4,5) equal_share_tokens(1) [OF b r(2,3)]
    by (intro exI [of _ sets] exI [of _ R] exI [of _ per]) (auto simp: split_equal_def)
qed

theorem split_equal_shares_witness:
  "\<exists>(sets :: nat set list) (R :: nat) per. split_equal 3 True demo_allocr =
       ubatch_add (fold set_used (concat per) demo_allocr) (concat per) (length sets) True \<and>
     length per = length sets \<and> 0 < length sets \<and> 0 < R"
proof -
  have "equal_inv True demo_allocr" "ba_unused demo_allocr \<noteq> {}"
    using batch_init_inv(2,4) [OF demo_init demo_seqs] demo_fields
    by (auto simp: lessThan_empty_iff)
  from split_equal_shares [OF this, of 3] show ?thesis by blast
qed

text \<open>
  The bound \<open>n_ubatch + 1\<close> is reached: the test \<open>cur_seq_set.size() > n_ubatch\<close> runs
  after the set has been added, so three sequences with one token each make a micro-batch of
  three tokens for \<open>n_ubatch = 2\<close>.
\<close>

lemma split_equal_exceeds_n_ubatch:
  "\<exists>inp a. batch_init inp 10 None 4 3 True (batch_allocr_new 1) = Inr (True, a) \<and>
     ub_n_tokens (fst (split_equal 2 False a)) = 3"
proof -
  have "ub_n_tokens (fst (split_equal 2 False demo_allocr)) = 3" by code_simp
  with demo_init show ?thesis by blast
qed

text \<open>
  Missing positions are generated consecutively: with one sequence per token, token \<open>i\<close>
  of sequence \<open>s\<close> gets the first position behind what the memory holds of \<open>s\<close> plus the number
  of earlier tokens of \<open>s\<close> in the batch.
\<close>

lemma fill_pos_consecutive:
  assumes "b_pos b = None" and "\<And>i. i < b_n_tokens b \<Longrightarrow> batch_seqs b i = [f i]"
    and "i < b_n_tokens b"
  shows "batch_pos (fill_pos mem_max b) i =
    pos_start mem_max (f i) + int (card {j. j < i \<and> f j = f i})"
  using fill_pos_fold [of "b_n_tokens b" b f "pos_start mem_max"] assms
  by (simp add: fill_pos_def batch_pos_def)

text \<open>
  The last check of \<open>init\<close> does not look at the order of positions: \<open>cur_seq_pos\<close> keeps
  its initial -1, so the outcome is the same for every assignment of positions from -1 on. What
  its comment promises, that decreasing positions of a sequence are disallowed, is not enforced.
\<close>

lemma check_sets_ignores_positions:
  assumes "\<And>i. i < b_n_tokens (ba_batch a) \<Longrightarrow> -1 \<le> batch_pos (ba_batch a) i \<and> -1 \<le> p ! i"
  shows "check_sets (a\<lparr>ba_batch := (ba_batch a)\<lparr>b_pos := Some p\<rparr>\<rparr>) = check_sets a"
  unfolding check_sets_def using assms check_sets_loop_pos [of "[0..<b_n_tokens (ba_batch a)]" a p]
  by simp

end
