(* ===== verification/KvSlot.thy ===== *)
theory KvSlot
  imports KvCache Batch
begin

text \<open>
  The KV cache, second part (\<open>src/llama-kv-cache.cpp\<close>): finding cells for a micro-batch, placing
  it, the dry run \<open>prepare\<close> over all micro-batches of a batch, applying pending shifts and stream
  copies, and the context objects the decoder drives. The search loop is an \<open>option\<close>-valued partial
  function; it is shown to return.
\<close>

section \<open>Slots\<close>

record slot_info =
  si_s0 :: nat
  si_s1 :: nat
  si_strm :: "nat list"
  si_idxs :: "nat list list"

definition si_none :: slot_info where
  "si_none = \<lparr>si_s0 = 0, si_s1 = 0, si_strm = [], si_idxs = []\<rparr>"

definition si_empty :: "slot_info \<Rightarrow> bool" where
  "si_empty si \<longleftrightarrow> si_idxs si = []"

definition si_n_stream :: "slot_info \<Rightarrow> nat" where
  "si_n_stream si = length (si_strm si)"

definition si_size :: "slot_info \<Rightarrow> nat res" where
  "si_size si =
    (if length (si_idxs si) \<noteq> length (si_strm si) then Inl (Ggml_assert ''idxs.size() == strm.size()'')
     else if si_idxs si = [] then Inl (Ggml_assert ''!idxs.empty()'')
     else Inr (length (si_idxs si ! 0)))"

definition si_head :: "slot_info \<Rightarrow> nat res" where
  "si_head si =
    (if length (si_idxs si) \<noteq> 1 then Inl (Ggml_assert ''idxs.size() == 1'')
     else if si_idxs si ! 0 = [] then Inl (Ggml_assert ''!idxs[0].empty()'')
     else Inr (si_idxs si ! 0 ! 0))"

definition si_is_contiguous :: "slot_info \<Rightarrow> bool" where
  "si_is_contiguous si =
    (if si_idxs si = [] \<or> si_idxs si ! 0 = [] then True
     else if length (si_idxs si) > 1 then False
     else list_all (\<lambda>i. si_idxs si ! 0 ! i = si_idxs si ! 0 ! 0 + i) [0..<length (si_idxs si ! 0)])"

section \<open>Finding a slot\<close>

text \<open>
  A cell can be used when it is empty, or when its only owner has moved so far that the sliding
  window masks the cell for the owner's next token.
\<close>

definition slot_can_use :: "'d kv_cache \<Rightarrow> llama_kv_cells \<Rightarrow> nat \<Rightarrow> bool" where
  "slot_can_use kv c idx =
    (if cells_is_empty c idx then True
     else if cells_seq_count c idx = 1 then
       (let seq_id_cell = cells_seq_get c idx
        in is_masked_swa (kv_n_swa kv) (kv_swa_type kv) (cells_pos_get c idx)
             (cells_seq_pos_max c (nat seq_id_cell) + 1))
     else False)"

text \<open>The inner loop: test \<open>k\<close> cells from the head on; a continuous search stops at a used cell.\<close>

fun slot_test ::
    "(nat \<Rightarrow> bool) \<Rightarrow> bool \<Rightarrow> nat \<Rightarrow> nat \<Rightarrow> nat \<Rightarrow> nat list \<Rightarrow> nat \<times> nat \<times> nat list" where
  "slot_test can_use cont 0 head n_tested idxs = (head, n_tested, idxs)"
| "slot_test can_use cont (Suc k) head n_tested idxs =
    (if can_use head then slot_test can_use cont k (head + 1) (n_tested + 1) (idxs @ [head])
     else if cont then (head + 1, n_tested + 1, idxs)
     else slot_test can_use cont k (head + 1) (n_tested + 1) idxs)"

text \<open>The search: \<open>Some (Some idxs)\<close> a slot, \<open>Some None\<close> no slot, \<^const>\<open>None\<close> the loop does not end.\<close>

partial_function (option) slot_search ::
    "(nat \<Rightarrow> bool) \<Rightarrow> bool \<Rightarrow> nat \<Rightarrow> nat \<Rightarrow> nat \<Rightarrow> nat \<Rightarrow> nat list \<Rightarrow> nat list option option" where
  [code]: "slot_search can_use cont sz n_tokens head n_tested idxs =
    (let n_test = (if cont then n_tokens else 1)
     in if head + n_test > sz
        then slot_search can_use cont sz n_tokens 0 (n_tested + (sz - head)) idxs
        else case slot_test can_use cont n_test head n_tested idxs of
          (head', n_tested', idxs') \<Rightarrow>
            if length idxs' = n_tokens then Some (Some idxs')
            else if n_tested' \<ge> sz then Some None
            else slot_search can_use cont sz n_tokens head' n_tested' (if cont then [] else idxs'))"

definition find_slot_stream ::
    "'d kv_cache \<Rightarrow> nat \<Rightarrow> bool \<Rightarrow> nat \<Rightarrow> nat list option option" where
  "find_slot_stream kv n_tokens cont st =
    (let c = kv_cells kv ! st;
         head = kv_heads kv ! st;
         head_cur = (if head > cells_get_used c + 2 * n_tokens then 0 else head)
     in if n_tokens > cells_size c then Some None
        else slot_search (slot_can_use kv c) cont (cells_size c) n_tokens head_cur 0 [])"

text \<open>One stream per unique sequence of the micro-batch, or the single stream.\<close>

fun find_slot_loop ::
    "'d kv_cache \<Rightarrow> llama_ubatch \<Rightarrow> nat \<Rightarrow> bool \<Rightarrow> nat list \<Rightarrow> slot_info \<Rightarrow> slot_info res option" where
  "find_slot_loop kv ub n_tokens cont [] si = Some (Inr si)"
| "find_slot_loop kv ub n_tokens cont (s # ss) si =
    (let seq_id = ub_seq_id_unq ub ! s;
         st = kv_seq_to_stream kv ! seq_id
     in if kv_n_stream kv > 1 \<and> ub_n_seq_id ub ! (s * n_tokens) \<noteq> 1
        then Some (Inl (Ggml_assert ''ubatch.n_seq_id[s*n_tokens] == 1''))
        else if kv_n_stream kv > 1 \<and> ub_seq_id ub ! (s * n_tokens) ! 0 \<noteq> seq_id
        then Some (Inl (Ggml_assert ''ubatch.seq_id[s*n_tokens][0] == seq_id''))
        else case find_slot_stream kv n_tokens cont st of
               None \<Rightarrow> None
             | Some None \<Rightarrow> Some (Inr si_none)
             | Some (Some idxs) \<Rightarrow>
                 find_slot_loop kv ub n_tokens cont ss
                   (si\<lparr>si_s0 := min (si_s0 si) st, si_s1 := max (si_s1 si) st,
                       si_strm := si_strm si @ [st], si_idxs := si_idxs si @ [idxs]\<rparr>))"

definition find_slot :: "llama_ubatch \<Rightarrow> bool \<Rightarrow> 'd kv_cache \<Rightarrow> slot_info res option" where
  "find_slot ub cont kv =
    (if kv_n_stream kv > 1 \<and> ub_n_tokens ub mod ub_n_seqs_unq ub \<noteq> 0
     then Some (Inl (Ggml_assert ''n_tokens % ubatch.n_seqs_unq == 0''))
     else
       let n_seqs = (if kv_n_stream kv > 1 then ub_n_seqs_unq ub else 1);
           n_tokens = (if kv_n_stream kv > 1 then ub_n_tokens ub div n_seqs else ub_n_tokens ub)
       in find_slot_loop kv ub n_tokens cont [0..<n_seqs]
            \<lparr>si_s0 = LLAMA_MAX_SEQ, si_s1 = 0, si_strm = [], si_idxs = []\<rparr>)"

section \<open>Placing a micro-batch\<close>

text \<open>
  Token \<open>i\<close> goes to cell \<open>idx\<close>. A used cell is emptied first and the largest position removed of
  its owner is recorded (it has exactly one owner: the \<open>assert\<close> in the source).
\<close>

definition emplace_clear ::
    "nat \<Rightarrow> llama_kv_cells \<times> (nat \<Rightarrow> llama_pos) \<Rightarrow> llama_kv_cells \<times> (nat \<Rightarrow> llama_pos)" where
  "emplace_clear idx cr =
    (case cr of (c, rmax) \<Rightarrow>
       if \<not> cells_is_empty c idx
       then let s = nat (cells_seq_get c idx)
            in (cells_rm idx c, rmax(s := max (rmax s) (cells_pos_get c idx)))
       else (c, rmax))"

definition emplace_put :: "llama_ubatch \<Rightarrow> nat \<Rightarrow> nat \<Rightarrow> llama_kv_cells \<Rightarrow> llama_kv_cells" where
  "emplace_put ub i idx c =
    (let c1 = cells_pos_set idx (ub_pos ub ! i) c;
         c2 = (if ub_is_pos_2d ub
               then cells_ext_set idx \<lparr>ext_x = ub_pos ub ! (i + ub_n_tokens ub * 2),
                                       ext_y = ub_pos ub ! (i + ub_n_tokens ub)\<rparr> c1
               else c1)
     in fold (\<lambda>j c. cells_seq_add idx (ub_seq_id ub ! i ! j) c) [0..<ub_n_seq_id ub ! i] c2)"

definition emplace_token ::
    "slot_info \<Rightarrow> llama_ubatch \<Rightarrow> nat \<Rightarrow> nat \<Rightarrow> nat \<Rightarrow>
     llama_kv_cells list \<times> (nat \<Rightarrow> llama_pos) \<Rightarrow> llama_kv_cells list \<times> (nat \<Rightarrow> llama_pos)" where
  "emplace_token si ub n s ii st =
    (case st of (cs, rmax) \<Rightarrow>
      let t = si_strm si ! s;
          idx = si_idxs si ! s ! ii
      in case emplace_clear idx (cs ! t, rmax) of (c, rmax') \<Rightarrow>
           (cs[t := emplace_put ub (s * n + ii) idx c], rmax'))"

definition emplace_all ::
    "slot_info \<Rightarrow> llama_ubatch \<Rightarrow> nat \<Rightarrow> llama_kv_cells list \<Rightarrow> llama_kv_cells list \<times> (nat \<Rightarrow> llama_pos)" where
  "emplace_all si ub n cs =
     fold (\<lambda>s st. fold (emplace_token si ub n s) [0..<n] st) [0..<si_n_stream si] (cs, \<lambda>_. -1)"

text \<open>Purging every position of a sequence up to the largest one that was overwritten.\<close>

fun purge_loop :: "(nat \<Rightarrow> llama_pos) \<Rightarrow> nat list \<Rightarrow> 'd kv_cache \<Rightarrow> 'd kv_cache res" where
  "purge_loop rmax [] kv = Inr kv"
| "purge_loop rmax (s # ss) kv =
    (if rmax s = -1 then purge_loop rmax ss kv
     else if \<not> s < length (kv_seq_to_stream kv) then Inl (Ggml_assert ''s < seq_to_stream.size()'')
     else
       let pmin = cells_seq_pos_min (kv_cells kv ! (kv_seq_to_stream kv ! s)) s
       in if pmin \<le> rmax s
          then bind_res (kv_seq_rm (int s) pmin (rmax s + 1) kv) (\<lambda>r. purge_loop rmax ss (snd r))
          else purge_loop rmax ss kv)"

definition move_heads :: "slot_info \<Rightarrow> nat list \<Rightarrow> nat list" where
  "move_heads si hs =
     fold (\<lambda>s hs. hs[si_strm si ! s := last (si_idxs si ! s) + 1]) [0..<si_n_stream si] hs"

definition apply_ubatch :: "slot_info \<Rightarrow> llama_ubatch \<Rightarrow> 'd kv_cache \<Rightarrow> 'd kv_cache res" where
  "apply_ubatch si ub kv =
     bind_res (if si_n_stream si = 0 then Inr 0 else si_size si) (\<lambda>n.
       case emplace_all si ub n (kv_cells kv) of (cs, rmax) \<Rightarrow>
         bind_res (purge_loop rmax [0..<LLAMA_MAX_SEQ] (kv\<lparr>kv_cells := cs\<rparr>)) (\<lambda>kv1.
           Inr (kv1\<lparr>kv_heads := move_heads si (kv_heads kv1)\<rparr>)))"

section \<open>The dry run\<close>

text \<open>What is kept of a step: its slot, the heads before it, the cells of the slot before it.\<close>

type_synonym state_t = "slot_info \<times> nat list \<times> llama_kv_cells list"

definition save_state :: "slot_info \<Rightarrow> 'd kv_cache \<Rightarrow> state_t" where
  "save_state si kv =
    (si, kv_heads kv,
     map (\<lambda>s. cells_cp (si_idxs si ! s) (kv_cells kv ! (si_strm si ! s))) [0..<si_n_stream si])"

fun prepare_place ::
    "llama_ubatch list \<Rightarrow> state_t list \<Rightarrow> 'd kv_cache \<Rightarrow>
     (bool \<times> state_t list \<times> 'd kv_cache) res option" where
  "prepare_place [] states kv = Some (Inr (True, states, kv))"
| "prepare_place (ub # ubs) states kv =
    (case find_slot ub False kv of
       None \<Rightarrow> None
     | Some (Inl e) \<Rightarrow> Some (Inl e)
     | Some (Inr si) \<Rightarrow>
         if si_empty si then Some (Inr (False, states, kv))
         else case apply_ubatch si ub kv of
                Inl e \<Rightarrow> Some (Inl e)
              | Inr kv' \<Rightarrow> prepare_place ubs (states @ [save_state si kv]) kv')"

text \<open>
  Restoring one step. The head of stream \<open>strm[s]\<close> is taken from \<open>v_heads_old[s]\<close>, as in the source.
\<close>

definition restore_state :: "state_t \<Rightarrow> 'd kv_cache \<Rightarrow> 'd kv_cache" where
  "restore_state st kv =
    (case st of (si, heads_old, saved) \<Rightarrow>
       fold (\<lambda>s kv. kv\<lparr>kv_cells := (kv_cells kv)[si_strm si ! s :=
                           cells_set (si_idxs si ! s) (saved ! s) (kv_cells kv ! (si_strm si ! s))],
                       kv_heads := (kv_heads kv)[si_strm si ! s := heads_old ! s]\<rparr>)
         [0..<si_n_stream si] kv)"

definition prepare :: "llama_ubatch list \<Rightarrow> 'd kv_cache \<Rightarrow> (slot_info list \<times> 'd kv_cache) res option" where
  "prepare ubs kv =
    (case prepare_place ubs [] kv of
       None \<Rightarrow> None
     | Some (Inl e) \<Rightarrow> Some (Inl e)
     | Some (Inr (success, states, kv1)) \<Rightarrow>
         if states = [] \<and> success then Some (Inl (Ggml_assert ''!states.empty() || !success''))
         else let kv2 = fold restore_state (rev states) kv1
              in Some (Inr (if success then map fst states else [], kv2)))"

section \<open>Padding and updates\<close>

text \<open>\<open>GGML_PAD(x, n) = (x + n - 1) & ~(n - 1)\<close> on 32-bit words.\<close>

definition ggml_pad :: "u32 \<Rightarrow> u32 \<Rightarrow> u32" where
  "ggml_pad x n = (x + n - 1) AND NOT (n - 1)"

definition kv_get_n_kv :: "slot_info \<Rightarrow> 'd kv_cache \<Rightarrow> nat" where
  "kv_get_n_kv si kv =
    (let n_pad_cur = max (kv_n_pad kv) 256
     in fold (\<lambda>s r.
          let c = kv_cells kv ! (si_strm si ! s)
          in max (min (cells_size c)
                   (max n_pad_cur (unat (ggml_pad (word_of_nat (cells_used_max_p1 c)) (word_of_nat n_pad_cur))))) r)
        [0..<si_n_stream si] 0)"

text \<open>
  Applying the pending stream copies in order, then the shifts. The K-shift graph runs on the
  backend: \<open>kshift\<close> is what it leaves in the buffers, \<^const>\<open>None\<close> when it cannot be allocated or fails.
\<close>

definition kv_update ::
    "('d kv_cache \<Rightarrow> 'd list option) \<Rightarrow> bool \<Rightarrow> nat list \<Rightarrow> nat list \<Rightarrow> 'd kv_cache \<Rightarrow> (bool \<times> 'd kv_cache) res" where
  "kv_update kshift do_shift ssrc sdst kv =
    (let kv1 = fold (\<lambda>i kv. kv\<lparr>kv_buf := (kv_buf kv)[sdst ! i := kv_buf kv ! (ssrc ! i)]\<rparr>) [0..<length ssrc] kv;
         reset = (\<lambda>kv. fold (\<lambda>s kv. kv\<lparr>kv_cells := (kv_cells kv)[s := cells_reset_shift (kv_cells kv ! s)]\<rparr>)
                         [0..<kv_n_stream kv] kv)
     in if do_shift then
          if \<not> kv_get_can_shift kv1
          then Inl (Ggml_abort ''The current KV cache / model configuration does not support K-shift'')
          else if hp_rope_type (kv_hparams kv1) \<noteq> LLAMA_ROPE_TYPE_NONE then
            (case kshift kv1 of
               None \<Rightarrow> Inr (False, kv1)
             | Some bufs \<Rightarrow> Inr (True, reset (kv1\<lparr>kv_buf := bufs\<rparr>)))
          else Inr (False, reset kv1)
        else Inr (False, kv1))"

section \<open>Contexts\<close>

record kv_cache_context =
  cx_status :: llama_memory_status
  cx_do_shift :: bool
  cx_ssrc :: "nat list"
  cx_sdst :: "nat list"
  cx_i_cur :: nat
  cx_sinfos :: "slot_info list"
  cx_ubatches :: "llama_ubatch list"
  cx_n_kv :: nat

definition kv_ctx_status :: "llama_memory_status \<Rightarrow> kv_cache_context" where
  "kv_ctx_status st = \<lparr>cx_status = st, cx_do_shift = False, cx_ssrc = [], cx_sdst = [], cx_i_cur = 0,
     cx_sinfos = [], cx_ubatches = [], cx_n_kv = 0\<rparr>"

definition kv_init_full :: "'d kv_cache \<Rightarrow> kv_cache_context" where
  "kv_init_full kv = (kv_ctx_status LLAMA_MEMORY_STATUS_SUCCESS)
     \<lparr>cx_n_kv := kv_get_size kv,
      cx_sinfos := [\<lparr>si_s0 = 0, si_s1 = kv_get_n_stream kv - 1, si_strm = [0..<kv_get_n_stream kv],
                     si_idxs = replicate (kv_get_n_stream kv) [0]\<rparr>]\<rparr>"

text \<open>The pending copies move into the context; \<open>std::move\<close> leaves the queue of the cache empty.\<close>

definition kv_init_update :: "'d kv_cache \<Rightarrow> kv_cache_context \<times> 'd kv_cache" where
  "kv_init_update kv =
    (let do_shift = kv_get_has_shift kv;
         cx = (kv_ctx_status LLAMA_MEMORY_STATUS_SUCCESS)
                \<lparr>cx_do_shift := do_shift, cx_ssrc := kv_ssrc kv, cx_sdst := kv_sdst kv\<rparr>
     in ((if \<not> do_shift \<and> kv_ssrc kv = [] then cx\<lparr>cx_status := LLAMA_MEMORY_STATUS_NO_UPDATE\<rparr> else cx),
         kv\<lparr>kv_ssrc := [], kv_sdst := []\<rparr>))"

definition kv_init_batch ::
    "llama_batch_allocr \<Rightarrow> nat \<Rightarrow> 'd kv_cache \<Rightarrow> (kv_cache_context \<times> llama_batch_allocr \<times> 'd kv_cache) res option" where
  "kv_init_batch balloc n_ubatch kv =
    (case split_all (if kv_n_stream kv = 1 then split_simple n_ubatch else split_equal n_ubatch True)
            [] (ba_split_reset balloc) of
       None \<Rightarrow> None
     | Some (ubs, ba) \<Rightarrow>
         if ba_get_n_used ba < ba_get_n_tokens ba
         then Some (Inr (kv_ctx_status LLAMA_MEMORY_STATUS_FAILED_PREPARE, ba, kv))
         else case prepare ubs kv of
                None \<Rightarrow> None
              | Some (Inl e) \<Rightarrow> Some (Inl e)
              | Some (Inr (sinfos, kv')) \<Rightarrow>
                  if sinfos = []
                  then Some (Inr (kv_ctx_status LLAMA_MEMORY_STATUS_FAILED_PREPARE, ba, kv'))
                  else Some (Inr ((kv_ctx_status LLAMA_MEMORY_STATUS_SUCCESS)
                                    \<lparr>cx_sinfos := sinfos, cx_ubatches := ubs\<rparr>, ba, kv')))"

definition kv_ctx_next :: "kv_cache_context \<Rightarrow> bool \<times> kv_cache_context" where
  "kv_ctx_next cx =
    (let cx' = cx\<lparr>cx_i_cur := cx_i_cur cx + 1\<rparr>
     in (\<not> cx_i_cur cx' \<ge> length (cx_ubatches cx'), cx'))"

definition kv_ctx_apply ::
    "('d kv_cache \<Rightarrow> 'd list option) \<Rightarrow> kv_cache_context \<Rightarrow> 'd kv_cache \<Rightarrow>
     (bool \<times> kv_cache_context \<times> 'd kv_cache) res" where
  "kv_ctx_apply kshift cx kv =
    (if cx_ubatches cx = []
     then bind_res (kv_update kshift (cx_do_shift cx) (cx_ssrc cx) (cx_sdst cx) kv) (\<lambda>r.
            Inr (True, cx, snd r))
     else let si = cx_sinfos cx ! cx_i_cur cx
          in bind_res (apply_ubatch si (cx_ubatches cx ! cx_i_cur cx) kv) (\<lambda>kv'.
               Inr (True, cx\<lparr>cx_n_kv := kv_get_n_kv si kv'\<rparr>, kv')))"

definition kv_ctx_get_ubatch :: "kv_cache_context \<Rightarrow> llama_ubatch" where
  "kv_ctx_get_ubatch cx = cx_ubatches cx ! cx_i_cur cx"

section \<open>The search returns, and what it returns\<close>

lemma slot_test_result:
  "\<exists>k' \<le> k. slot_test cu cont k h t l = (h + k', t + k', l @ filter cu [h..<h + k']) \<and>
     (0 < k \<longrightarrow> 0 < k') \<and> (\<not> cont \<longrightarrow> k' = k) \<and> (k' < k \<longrightarrow> length (filter cu [h..<h + k']) < k)"
proof (induction cu cont k h t l rule: slot_test.induct)
  case (2 cu cont k h t l)
  have cons: "[h..<h + Suc k'] = h # [h + 1..<h + 1 + k']" for k' by (simp add: upt_rec)
  show ?case
  proof (cases "cu h \<or> \<not> cont")
    case True
    define l' where "l' = (if cu h then l @ [h] else l)"
    obtain k' where k': "k' \<le> k"
      "slot_test cu cont k (h + 1) (t + 1) l' = (h + 1 + k', t + 1 + k', l' @ filter cu [h + 1..<h + 1 + k'])"
      "\<not> cont \<longrightarrow> k' = k" "k' < k \<longrightarrow> length (filter cu [h + 1..<h + 1 + k']) < k"
      using 2 True by (cases "cu h") (auto simp: l'_def)
    then show ?thesis
      using True cons [of k'] by (intro exI [of _ "Suc k'"]) (auto simp: l'_def)
  next
    case False
    then show ?thesis by (intro exI [of _ 1]) auto
  qed
qed simp

text \<open>It ends whenever the cells tested at once fit into the table and the table is not empty.\<close>

lemma slot_search_returns:
  assumes "(if cont then n else 1) \<le> sz" and "h \<le> sz" and "cont \<Longrightarrow> l = []"
  shows "\<exists>r. slot_search cu cont sz n h t l = Some r"
  using assms
proof (induction "2 * (sz - t) + (if h + (if cont then n else 1) > sz then 1 else 0)"
    arbitrary: h t l rule: less_induct)
  case (less h t l)
  define k where "k = (if cont then n else 1)"
  obtain k' where k': "k' \<le> k" "slot_test cu cont k h t l = (h + k', t + k', l @ filter cu [h..<h + k'])"
    "0 < k \<longrightarrow> 0 < k'"
    using slot_test_result [of k cu cont h t l] by blast
  let ?l = "l @ filter cu [h..<h + k']"
  have step: "slot_search cu cont sz n h t l =
      (if h + k > sz then slot_search cu cont sz n 0 (t + (sz - h)) l
       else if length ?l = n then Some (Some ?l) else if t + k' \<ge> sz then Some None
       else slot_search cu cont sz n (h + k') (t + k') (if cont then [] else ?l))"
    using k'(2) by (subst slot_search.simps) (simp add: Let_def k_def [symmetric] del: slot_test.simps)
  consider "h + k > sz" | "\<not> h + k > sz" "length ?l = n \<or> t + k' \<ge> sz"
    | "\<not> h + k > sz" "\<not> (length ?l = n \<or> t + k' \<ge> sz)" by blast
  then show ?case
  proof cases
    case 1
    have "\<exists>r. slot_search cu cont sz n 0 (t + (sz - h)) l = Some r"
      using 1 less.prems by (intro less.hyps) (auto simp: k_def)
    then show ?thesis using step 1 by simp
  next
    case 2
    then show ?thesis using step by auto
  next
    case 3
    show ?thesis
    proof (cases "k' = 0")
      case False
      then have "\<exists>r. slot_search cu cont sz n (h + k') (t + k') (if cont then [] else ?l) = Some r"
        using 3 less.prems k'(1) by (intro less.hyps) (auto simp: k_def)
      then show ?thesis using step 3 by simp
    next
      case True
      then have "k = 0" using k'(3) by simp
      then have "cont" "n = 0" by (simp_all add: k_def split: if_splits)
      then have "length ?l = n" using less.prems(3) True by simp
      then show ?thesis using 3 by simp
    qed
  qed
qed

text \<open>A continuous slot is an interval of usable cells.\<close>

lemma slot_search_cont:
  assumes "slot_search cu True sz n h t [] = Some (Some idxs)" and "n \<le> sz" and "h \<le> sz"
  shows "\<exists>b. b + n \<le> sz \<and> idxs = [b..<b + n] \<and> (\<forall>i \<in> set idxs. cu i)"
  using assms
proof (induction "2 * (sz - t) + (if h + n > sz then 1 else 0)" arbitrary: h t rule: less_induct)
  case (less h t)
  obtain k' where k': "k' \<le> n" "slot_test cu True n h t [] = (h + k', t + k', [] @ filter cu [h..<h + k'])"
    "0 < n \<longrightarrow> 0 < k'" "k' < n \<longrightarrow> length (filter cu [h..<h + k']) < n"
    using slot_test_result [of n cu True h t "[]"] by blast
  let ?l = "filter cu [h..<h + k']"
  have step: "slot_search cu True sz n h t [] =
      (if h + n > sz then slot_search cu True sz n 0 (t + (sz - h)) []
       else if length ?l = n then Some (Some ?l) else if t + k' \<ge> sz then Some None
       else slot_search cu True sz n (h + k') (t + k') [])"
    by (subst slot_search.simps) (simp add: Let_def k'(2))
  show ?case
  proof (cases "h + n > sz")
    case True
    then show ?thesis
      using less.hyps [of "t + (sz - h)" 0] less.prems step by simp
  next
    case False
    show ?thesis
    proof (cases "length ?l = n")
      case True
      then have "k' = n" using k'(1,4) by linarith
      then have "length (filter cu [h..<h + n]) = length [h..<h + n]" using True by simp
      then have "filter cu [h..<h + n] = [h..<h + n]" by (metis filter_is_subset filter_True length_filter_less less_irrefl)
      then show ?thesis
        using True False step less.prems \<open>k' = n\<close>
        by (intro exI [of _ h]) (auto simp: filter_id_conv)
    next
      case False': False
      then have "slot_search cu True sz n (h + k') (t + k') [] = Some (Some idxs)" "t + k' < sz" "0 < k'"
        using step less.prems False k'(3) by (auto split: if_splits)
      moreover have "2 * (sz - (t + k')) + (if sz < h + k' + n then 1 else 0) < 2 * (sz - t) + (if h + n > sz then 1 else 0)"
        using calculation(2,3) False by auto
      ultimately show ?thesis
        using less.hyps [of "t + k'" "h + k'"] less.prems False k'(1) by simp
    qed
  qed
qed

text \<open>
  Searching cell by cell tests every cell once, from the head to the end and then from the start,
  and takes the first \<open>n\<close> usable ones; it fails exactly when there are fewer.
\<close>

definition rotation :: "nat \<Rightarrow> nat \<Rightarrow> nat list" where
  "rotation h sz = [h..<sz] @ [0..<h]"

lemma rotation_nth: "j < sz \<Longrightarrow> h \<le> sz \<Longrightarrow> rotation h sz ! j = (if j < sz - h then h + j else j - (sz - h))"
  by (auto simp: rotation_def nth_append)

lemma length_rotation [simp]: "h \<le> sz \<Longrightarrow> length (rotation h sz) = sz"
  by (simp add: rotation_def)

lemma slot_search_step:
  assumes "h + 1 \<le> sz"
  shows "slot_search cu False sz n h t l =
    (let l' = (if cu h then l @ [h] else l)
     in if length l' = n then Some (Some l') else if t + 1 \<ge> sz then Some None
        else slot_search cu False sz n (h + 1) (t + 1) l')"
  using assms by (subst slot_search.simps) (simp add: Let_def)

lemma slot_search_each_from:
  assumes h: "h \<le> sz" and j: "j < sz" and l: "l = filter cu (take j (rotation h sz))" "length l < n"
    and hc: "hc = (if j < sz - h then h + j else if j = sz - h \<and> b then sz else j - (sz - h))"
  shows "slot_search cu False sz n hc j l =
    Some (if n \<le> length (filter cu (rotation h sz)) then Some (take n (filter cu (rotation h sz))) else None)"
  using j l hc
proof (induction "sz - j" arbitrary: j l hc b rule: less_induct)
  case (less j l hc b)
  let ?rot = "rotation h sz"
  let ?i = "?rot ! j"
  have i: "?i = (if j < sz - h then h + j else j - (sz - h))" "?i + 1 \<le> sz"
    using rotation_nth [OF less.prems(1) h] less.prems(1) by auto
  have wrap: "slot_search cu False sz n hc j l = slot_search cu False sz n ?i j l"
  proof (cases "hc = ?i")
    case False
    then have "hc = sz" "j = sz - h" using less.prems(4) i(1) by (auto split: if_splits)
    then show ?thesis using i(1) by (subst slot_search.simps) simp
  qed simp
  define l' where "l' = (if cu ?i then l @ [?i] else l)"
  have l': "l' = filter cu (take (Suc j) ?rot)"
    using less.prems(1,2) h by (simp add: l'_def take_Suc_conv_app_nth)
  have all: "filter cu ?rot = l' @ filter cu (drop (Suc j) ?rot)"
    unfolding l' by (metis append_take_drop_id filter_append)
  have step: "slot_search cu False sz n ?i j l =
      (if length l' = n then Some (Some l') else if j + 1 \<ge> sz then Some None
       else slot_search cu False sz n (?i + 1) (j + 1) l')"
    using slot_search_step [OF i(2), of cu n j l] by (simp add: Let_def l'_def)
  consider "length l' = n" | "length l' \<noteq> n" "j + 1 \<ge> sz" | "length l' \<noteq> n" "j + 1 < sz" by linarith
  then show ?case
  proof cases
    case 1
    then show ?thesis using wrap step all by auto
  next
    case 2
    then have "filter cu ?rot = l'" using all h by simp
    moreover have "length l' < n" using 2(1) less.prems(3) by (auto simp: l'_def split: if_splits)
    ultimately show ?thesis using wrap step 2 by auto
  next
    case 3
    have "length l' < n" using 3(1) less.prems(3) by (auto simp: l'_def split: if_splits)
    moreover have "?i + 1 = (if j + 1 < sz - h then h + (j + 1)
        else if j + 1 = sz - h \<and> True then sz else j + 1 - (sz - h))"
      using i(1) h by auto
    ultimately have "slot_search cu False sz n (?i + 1) (j + 1) l' =
      Some (if n \<le> length (filter cu ?rot) then Some (take n (filter cu ?rot)) else None)"
      using 3 l' by (intro less.hyps [where b = True]) simp_all
    then show ?thesis using wrap step 3 by simp
  qed
qed

lemma slot_search_each:
  assumes "h \<le> sz" "0 < sz" "0 < n"
  shows "slot_search cu False sz n h 0 [] =
    Some (if n \<le> length (filter cu (rotation h sz)) then Some (take n (filter cu (rotation h sz))) else None)"
  using assms by (intro slot_search_each_from [where b = True]) auto

section \<open>What a slot is\<close>

definition slot_ok :: "'d kv_cache \<Rightarrow> nat \<Rightarrow> slot_info \<Rightarrow> bool" where
  "slot_ok kv n si \<longleftrightarrow> length (si_idxs si) = si_n_stream si \<and> 0 < si_n_stream si \<and> distinct (si_strm si) \<and>
     (\<forall>s < si_n_stream si. si_strm si ! s < kv_n_stream kv \<and> length (si_idxs si ! s) = n \<and>
        distinct (si_idxs si ! s) \<and>
        (\<forall>i \<in> set (si_idxs si ! s). i < kv_get_size kv \<and> slot_can_use kv (kv_cells kv ! (si_strm si ! s)) i))"

lemma set_rotation: "h \<le> sz \<Longrightarrow> set (rotation h sz) = {..<sz}" "distinct (rotation h sz)"
  by (auto simp: rotation_def)

lemma find_slot_stream_result:
  assumes wf: "kv_wf kv" and st: "st < kv_n_stream kv" and n: "0 < n"
  defines "c \<equiv> kv_cells kv ! st"
    and "h \<equiv> (if kv_heads kv ! st > cells_get_used (kv_cells kv ! st) + 2 * n then 0 else kv_heads kv ! st)"
  shows "find_slot_stream kv n False st =
    Some (if n \<le> length (filter (slot_can_use kv c) (rotation h (kv_get_size kv)))
          then Some (take n (filter (slot_can_use kv c) (rotation h (kv_get_size kv)))) else None)"
proof -
  have size: "cells_size c = kv_get_size kv" using kv_wf_table(2) [OF wf st] by (simp add: c_def)
  have h: "h \<le> kv_get_size kv" using kv_wf_heads(2) [OF wf st] by (simp add: h_def)
  show ?thesis
  proof (cases "n > kv_get_size kv")
    case True
    have "length (filter (slot_can_use kv c) (rotation h (kv_get_size kv))) \<le> kv_get_size kv"
      using length_filter_le [of "slot_can_use kv c" "rotation h (kv_get_size kv)"] h by simp
    then show ?thesis
      using True size by (simp add: find_slot_stream_def Let_def c_def)
  next
    case False
    then show ?thesis
      using slot_search_each [OF h _ n, of "slot_can_use kv c"] size n
      by (simp add: find_slot_stream_def Let_def c_def h_def)
  qed
qed

lemma find_slot_stream_ok:
  assumes wf: "kv_wf kv" and st: "st < kv_n_stream kv" and n: "0 < n"
    and r: "find_slot_stream kv n False st = Some (Some idxs)"
  shows "length idxs = n" "distinct idxs"
    "\<forall>i \<in> set idxs. i < kv_get_size kv \<and> slot_can_use kv (kv_cells kv ! st) i"
proof -
  let ?h = "if kv_heads kv ! st > cells_get_used (kv_cells kv ! st) + 2 * n then 0 else kv_heads kv ! st"
  let ?f = "filter (slot_can_use kv (kv_cells kv ! st)) (rotation ?h (kv_get_size kv))"
  have h: "?h \<le> kv_get_size kv" using kv_wf_heads(2) [OF wf st] by simp
  have e: "n \<le> length ?f" "idxs = take n ?f"
    using r find_slot_stream_result [OF wf st n] by (simp_all split: if_splits)
  show "length idxs = n" "distinct idxs" using e set_rotation(2) by simp_all
  have "set idxs \<subseteq> set ?f" unfolding e(2) by (rule set_take_subset)
  then show "\<forall>i \<in> set idxs. i < kv_get_size kv \<and> slot_can_use kv (kv_cells kv ! st) i"
    using set_rotation(1) [OF h] by auto
qed

lemma find_slot_loop_ok:
  assumes wf: "kv_wf kv" and n: "0 < n" and seqs: "\<forall>s \<in> set ss. ub_seq_id_unq ub ! s < length (kv_seq_to_stream kv)"
    and dist: "distinct (si_strm si @ map (\<lambda>s. kv_seq_to_stream kv ! (ub_seq_id_unq ub ! s)) ss)"
    and si: "length (si_idxs si) = si_n_stream si" "\<forall>s < si_n_stream si. si_strm si ! s < kv_n_stream kv \<and>
        length (si_idxs si ! s) = n \<and> distinct (si_idxs si ! s) \<and>
        (\<forall>i \<in> set (si_idxs si ! s). i < kv_get_size kv \<and> slot_can_use kv (kv_cells kv ! (si_strm si ! s)) i)"
    and ne: "0 < si_n_stream si \<or> ss \<noteq> []"
  shows "\<exists>r. find_slot_loop kv ub n False ss si = Some r \<and>
    (\<forall>si'. r = Inr si' \<longrightarrow> si_empty si' \<or> (slot_ok kv n si' \<and>
       si_strm si' = si_strm si @ map (\<lambda>s. kv_seq_to_stream kv ! (ub_seq_id_unq ub ! s)) ss))"
  using seqs dist si ne
proof (induction ss arbitrary: si)
  case Nil
  then show ?case by (auto simp: slot_ok_def)
next
  case (Cons s ss)
  define st where "st = kv_seq_to_stream kv ! (ub_seq_id_unq ub ! s)"
  have st: "st < kv_n_stream kv" using Cons.prems(1) kv_wf_seq [OF wf] by (simp add: st_def)
  obtain r where r: "find_slot_stream kv n False st = Some r"
    using find_slot_stream_result [OF wf st n] by blast
  let ?bad = "kv_n_stream kv > 1 \<and> ub_n_seq_id ub ! (s * n) \<noteq> 1 \<or>
     kv_n_stream kv > 1 \<and> ub_seq_id ub ! (s * n) ! 0 \<noteq> ub_seq_id_unq ub ! s"
  show ?case
  proof (cases "?bad \<or> r = None")
    case True
    then show ?thesis using r by (auto simp: Let_def st_def [symmetric] si_empty_def si_none_def)
  next
    case False
    then obtain idxs where idxs: "r = Some idxs" by blast
    note ok = find_slot_stream_ok [OF wf st n r [unfolded idxs]]
    let ?si = "si\<lparr>si_s0 := min (si_s0 si) st, si_s1 := max (si_s1 si) st,
                       si_strm := si_strm si @ [st], si_idxs := si_idxs si @ [idxs]\<rparr>"
    have eq: "find_slot_loop kv ub n False (s # ss) si = find_slot_loop kv ub n False ss ?si"
      using False r idxs by (auto simp: Let_def st_def [symmetric])
    have "\<exists>r. find_slot_loop kv ub n False ss ?si = Some r \<and>
      (\<forall>si'. r = Inr si' \<longrightarrow> si_empty si' \<or> (slot_ok kv n si' \<and>
         si_strm si' = si_strm ?si @ map (\<lambda>s. kv_seq_to_stream kv ! (ub_seq_id_unq ub ! s)) ss))"
    proof (rule Cons.IH)
      show "\<forall>s < si_n_stream ?si. si_strm ?si ! s < kv_n_stream kv \<and> length (si_idxs ?si ! s) = n \<and>
        distinct (si_idxs ?si ! s) \<and> (\<forall>i \<in> set (si_idxs ?si ! s). i < kv_get_size kv \<and>
          slot_can_use kv (kv_cells kv ! (si_strm ?si ! s)) i)"
        using Cons.prems(3,4) ok st by (auto simp: si_n_stream_def nth_append less_Suc_eq)
    qed (use Cons.prems st_def in \<open>auto simp: si_n_stream_def\<close>)
    then show ?thesis using eq by (simp add: st_def)
  qed
qed

text \<open>The micro-batches the cache is given: their unique ids are known sequences, each once.\<close>

definition ub_seqs_ok :: "'d kv_cache \<Rightarrow> llama_ubatch \<Rightarrow> bool" where
  "ub_seqs_ok kv ub \<longleftrightarrow> 0 < ub_n_tokens ub \<and> 0 < ub_n_seqs_unq ub \<and> ub_n_seqs_unq ub = length (ub_seq_id_unq ub) \<and>
     distinct (ub_seq_id_unq ub) \<and> (\<forall>s \<in> set (ub_seq_id_unq ub). s < length (kv_seq_to_stream kv))"

definition ub_per_stream :: "'d kv_cache \<Rightarrow> llama_ubatch \<Rightarrow> nat" where
  "ub_per_stream kv ub = (if kv_n_stream kv > 1 then ub_n_tokens ub div ub_n_seqs_unq ub else ub_n_tokens ub)"

lemma find_slot_ok:
  assumes wf: "kv_wf kv" and ub: "ub_seqs_ok kv ub"
  shows "\<exists>r. find_slot ub False kv = Some r \<and>
    (\<forall>si. r = Inr si \<longrightarrow> si_empty si \<or> (slot_ok kv (ub_per_stream kv ub) si \<and>
       si_strm si = map (\<lambda>s. kv_seq_to_stream kv ! (ub_seq_id_unq ub ! s))
         [0..<if kv_n_stream kv > 1 then ub_n_seqs_unq ub else 1]))"
proof (cases "kv_n_stream kv > 1 \<and> ub_n_tokens ub mod ub_n_seqs_unq ub \<noteq> 0")
  case False
  let ?k = "if kv_n_stream kv > 1 then ub_n_seqs_unq ub else 1"
  have len: "?k \<le> length (ub_seq_id_unq ub)" "0 < ?k" using ub by (auto simp: ub_seqs_ok_def)
  have mem: "ub_seq_id_unq ub ! s < length (kv_seq_to_stream kv)" if "s < ?k" for s
    using ub len(1) that by (simp add: ub_seqs_ok_def)
  have n: "0 < ub_per_stream kv ub"
    using ub False by (auto simp: ub_per_stream_def ub_seqs_ok_def div_greater_zero_iff dvd_imp_le mod_eq_0_iff_dvd)
  have dist: "distinct (map (\<lambda>s. kv_seq_to_stream kv ! (ub_seq_id_unq ub ! s)) [0..<?k])"
  proof (cases "kv_n_stream kv > 1")
    case True
    then have d: "distinct (kv_seq_to_stream kv)" using wf by (auto simp: kv_wf_def)
    have "inj_on (\<lambda>s. kv_seq_to_stream kv ! (ub_seq_id_unq ub ! s)) {0..<?k}"
      using ub mem len(1) by (auto simp: inj_on_def nth_eq_iff_index_eq [OF d] ub_seqs_ok_def nth_eq_iff_index_eq)
    then show ?thesis by (simp add: distinct_map)
  qed simp
  have "find_slot ub False kv = find_slot_loop kv ub (ub_per_stream kv ub) False [0..<?k]
      \<lparr>si_s0 = LLAMA_MAX_SEQ, si_s1 = 0, si_strm = [], si_idxs = []\<rparr>"
    using False by (simp add: find_slot_def Let_def ub_per_stream_def)
  then show ?thesis
    using find_slot_loop_ok [OF wf n, of "[0..<?k]" ub "\<lparr>si_s0 = LLAMA_MAX_SEQ, si_s1 = 0, si_strm = [], si_idxs = []\<rparr>"]
      mem dist len(2) by (simp add: si_n_stream_def)
qed (auto simp: find_slot_def)

section \<open>What placing a micro-batch does\<close>

text \<open>A token the cache can take into stream \<open>t\<close>.\<close>

definition tok_ok :: "'d kv_cache \<Rightarrow> llama_ubatch \<Rightarrow> nat \<Rightarrow> nat \<Rightarrow> bool" where
  "tok_ok kv ub i t \<longleftrightarrow> 0 \<le> ub_pos ub ! i \<and> ub_n_seq_id ub ! i = length (ub_seq_id ub ! i) \<and>
     distinct (ub_seq_id ub ! i) \<and>
     (\<forall>q \<in> set (ub_seq_id ub ! i). q < length (kv_seq_to_stream kv) \<and> kv_seq_to_stream kv ! q = t)"

text \<open>The cell a token becomes, given what the cell held before.\<close>

definition tok_cell :: "llama_ubatch \<Rightarrow> nat \<Rightarrow> kv_cell \<Rightarrow> kv_cell" where
  "tok_cell ub i old = (ub_pos ub ! i,
     (if ub_is_pos_2d ub then \<lparr>ext_x = ub_pos ub ! (i + ub_n_tokens ub * 2), ext_y = ub_pos ub ! (i + ub_n_tokens ub)\<rparr>
      else if fst old = -1 then fst (snd old) else ext_reset), 0, set (ub_seq_id ub ! i))"

lemma seq_add_fold_step:
  assumes "cells_wf c" "i < cells_size c" "kc_pos c ! i \<noteq> -1"
    and "distinct qs" "set qs \<inter> kc_seq c ! i = {}" "\<forall>q \<in> set qs. q < LLAMA_MAX_SEQ"
  shows "cell_step c i (kc_pos c ! i, kc_ext c ! i, kc_shift c ! i, kc_seq c ! i \<union> set qs)
    (fold (cells_seq_add i) qs c)"
  using assms
proof (induction qs arbitrary: c)
  case Nil
  then show ?case using cell_step_refl' by simp
next
  case (Cons q qs)
  let ?c = "cells_seq_add i q c"
  have st: "cell_step c i (kc_pos c ! i, kc_ext c ! i, kc_shift c ! i, insert q (kc_seq c ! i)) ?c"
    using Cons.prems by (intro cells_seq_add_step) auto
  then have c: "cells_wf ?c" "cells_size ?c = cells_size c" "kc_pos ?c ! i = kc_pos c ! i"
    "kc_ext ?c ! i = kc_ext c ! i" "kc_shift ?c ! i = kc_shift c ! i" "kc_seq ?c ! i = insert q (kc_seq c ! i)"
    by (simp_all add: cell_step_def cell_def)
  then have "cell_step ?c i (kc_pos ?c ! i, kc_ext ?c ! i, kc_shift ?c ! i, kc_seq ?c ! i \<union> set qs)
      (fold (cells_seq_add i) qs ?c)"
    using Cons.prems by (intro Cons.IH) auto
  then show ?case using cell_step_trans [OF st] c by simp
qed

lemma emplace_put_step:
  assumes wf: "cells_wf c" "idx < cells_size c" "kc_pos c ! idx = -1"
    and tok: "0 \<le> ub_pos ub ! i" "ub_n_seq_id ub ! i = length (ub_seq_id ub ! i)"
      "distinct (ub_seq_id ub ! i)" "\<forall>q \<in> set (ub_seq_id ub ! i). q < LLAMA_MAX_SEQ"
  shows "cell_step c idx (tok_cell ub i (cell c idx)) (emplace_put ub i idx c)"
proof -
  let ?e = "\<lparr>ext_x = ub_pos ub ! (i + ub_n_tokens ub * 2), ext_y = ub_pos ub ! (i + ub_n_tokens ub)\<rparr>"
  define c1 where "c1 = cells_pos_set idx (ub_pos ub ! i) c"
  define c2 where "c2 = (if ub_is_pos_2d ub then cells_ext_set idx ?e c1 else c1)"
  have s1: "cell_step c idx (ub_pos ub ! i, kc_ext c ! idx, 0, {}) c1"
    unfolding c1_def using wf tok by (intro cells_pos_set_step)
  then have c1: "cells_wf c1" "cells_size c1 = cells_size c" "cell c1 idx = (ub_pos ub ! i, kc_ext c ! idx, 0, {})"
    by (simp_all add: cell_step_def)
  have s2: "cell_step c1 idx (ub_pos ub ! i, if ub_is_pos_2d ub then ?e else kc_ext c ! idx, 0, {}) c2"
    using cells_ext_set_step [of c1 idx ?e] cell_step_refl [OF c1(1), of idx] c1 wf(2)
    by (auto simp: c2_def cell_def)
  then have c2: "cells_wf c2" "cells_size c2 = cells_size c"
    "cell c2 idx = (ub_pos ub ! i, if ub_is_pos_2d ub then ?e else kc_ext c ! idx, 0, {})"
    using c1 by (simp_all add: cell_step_def)
  have "emplace_put ub i idx c = fold (cells_seq_add idx) (ub_seq_id ub ! i) c2"
  proof -
    have "fold (\<lambda>j. cells_seq_add idx (qs ! j)) [0..<length qs] c = fold (cells_seq_add idx) qs c"
      for qs c
      using fold_map [of "cells_seq_add idx" "\<lambda>j. qs ! j" "[0..<length qs]"] by (simp add: map_nth comp_def)
    then show ?thesis by (simp add: emplace_put_def Let_def tok(2) c1_def [symmetric] c2_def [symmetric])
  qed
  moreover have "cell_step c2 idx (kc_pos c2 ! idx, kc_ext c2 ! idx, kc_shift c2 ! idx,
      kc_seq c2 ! idx \<union> set (ub_seq_id ub ! i)) (fold (cells_seq_add idx) (ub_seq_id ub ! i) c2)"
    using c2 wf tok by (intro seq_add_fold_step) (auto simp: cell_def)
  moreover have "tok_cell ub i (cell c idx) = (kc_pos c2 ! idx, kc_ext c2 ! idx, kc_shift c2 ! idx,
      kc_seq c2 ! idx \<union> set (ub_seq_id ub ! i))"
    using c2(3) wf(3) by (simp add: cell_def tok_cell_def)
  ultimately show ?thesis
    using cell_step_trans [OF cell_step_trans [OF s1 s2]] by simp
qed

lemma emplace_clear_step:
  assumes "cells_wf c" "idx < cells_size c" and "emplace_clear idx (c, rmax) = (c', rmax')"
  shows "cell_step c idx (if kc_pos c ! idx = -1 then cell c idx else cell_empty) c'"
    and "kc_pos c ! idx = -1 \<Longrightarrow> rmax' = rmax"
  using assms cells_rm_step [of c idx] cell_step_refl [of c idx]
  by (auto simp: emplace_clear_def cells_is_empty_def Let_def cell_empty_def split: if_splits)

lemma emplace_clear_owner:
  assumes c: "stream_ok kv t c" and idx: "idx < kv_get_size kv"
    and one: "kc_pos c ! idx \<noteq> -1 \<Longrightarrow> card (kc_seq c ! idx) = 1"
    and e: "emplace_clear idx (c, rmax) = (c', rmax')"
    and old: "\<And>q. rmax q \<noteq> -1 \<Longrightarrow> q < length (kv_seq_to_stream kv)" and q: "rmax' q \<noteq> -1"
  shows "q < length (kv_seq_to_stream kv)"
proof (cases "kc_pos c ! idx = -1")
  case True
  then show ?thesis using e old q by (simp add: emplace_clear_def cells_is_empty_def)
next
  case False
  have wf: "cells_wf c" "idx < cells_size c" using c idx by (simp_all add: stream_ok_def)
  obtain r where r: "kc_seq c ! idx = {r}" using one [OF False] by (auto simp: card_1_singleton_iff)
  then have "r < LLAMA_MAX_SEQ" using cells_wf_seq_bound [OF wf] by simp
  then have "cells_seq_get c idx = int r" by (rule cells_seq_get_single [OF r])
  moreover have "r < length (kv_seq_to_stream kv)" using c r wf(2) by (simp add: stream_ok_def)
  ultimately show ?thesis
    using e old q False by (auto simp: emplace_clear_def cells_is_empty_def Let_def split: if_splits)
qed

lemma slot_used:
  assumes "slot_ok kv n si" "s < si_n_stream si" "i \<in> set (si_idxs si ! s)"
    and "kc_pos (kv_cells kv ! (si_strm si ! s)) ! i \<noteq> -1"
  shows "card (kc_seq (kv_cells kv ! (si_strm si ! s)) ! i) = 1"
  using assms by (auto simp: slot_ok_def slot_can_use_def cells_is_empty_def cells_seq_count_def split: if_splits)

lemma emplace_one:
  assumes c: "stream_ok kv t c" and idx: "idx < kv_get_size kv" and tok: "tok_ok kv ub i t"
    and len: "length (kv_seq_to_stream kv) \<le> LLAMA_MAX_SEQ"
    and e: "emplace_clear idx (c, rmax) = (c1, rmax')"
  defines "c' \<equiv> emplace_put ub i idx c1"
  shows "stream_ok kv t c'" "cell c' idx = tok_cell ub i (cell c idx)"
    "\<And>j. j < kv_get_size kv \<Longrightarrow> j \<noteq> idx \<Longrightarrow> cell c' j = cell c j"
proof -
  have wf: "cells_wf c" "cells_size c = kv_get_size kv" "idx < cells_size c"
    using c idx by (simp_all add: stream_ok_def)
  note s1 = emplace_clear_step(1) [OF wf(1,3) e]
  have c1: "cells_wf c1" "cells_size c1 = kv_get_size kv" "kc_pos c1 ! idx = -1"
    using s1 wf by (auto simp: cell_step_def cell_def cell_empty_def split: if_splits)
  have "\<forall>q \<in> set (ub_seq_id ub ! i). q < LLAMA_MAX_SEQ"
    using tok len by (auto simp: tok_ok_def)
  then have s2: "cell_step c1 idx (tok_cell ub i (cell c1 idx)) c'"
    unfolding c'_def using tok c1 idx by (intro emplace_put_step) (auto simp: tok_ok_def)
  have "tok_cell ub i (cell c1 idx) = tok_cell ub i (cell c idx)"
    using s1 by (auto simp: cell_step_def tok_cell_def cell_def cell_empty_def split: if_splits)
  then have s: "cell_step c idx (tok_cell ub i (cell c idx)) c'"
    using cell_step_trans [OF s1 s2] by simp
  then show at: "cell c' idx = tok_cell ub i (cell c idx)"
    and other: "\<And>j. j < kv_get_size kv \<Longrightarrow> j \<noteq> idx \<Longrightarrow> cell c' j = cell c j"
    using wf by (simp_all add: cell_step_def)
  have "kc_seq c' ! j \<subseteq> kc_seq c ! j \<union> set (ub_seq_id ub ! i)" if "j < kv_get_size kv" for j
    using at other [OF that] by (cases "j = idx") (auto simp: cell_def tok_cell_def)
  moreover have "\<forall>j < kv_get_size kv. \<forall>q \<in> kc_seq c ! j. q < length (kv_seq_to_stream kv) \<and> kv_seq_to_stream kv ! q = t"
    using c unfolding stream_ok_def wf(2) by blast
  moreover have "\<forall>q \<in> set (ub_seq_id ub ! i). q < length (kv_seq_to_stream kv) \<and> kv_seq_to_stream kv ! q = t"
    using tok unfolding tok_ok_def by blast
  ultimately have "\<forall>j < kv_get_size kv. \<forall>q \<in> kc_seq c' ! j. q < length (kv_seq_to_stream kv) \<and> kv_seq_to_stream kv ! q = t"
    by blast
  moreover have "cells_wf c'" "cells_size c' = kv_get_size kv" using s wf(2) by (simp_all add: cell_step_def)
  ultimately show "stream_ok kv t c'" unfolding stream_ok_def by (simp only:)
qed

definition ub_toks_ok :: "'d kv_cache \<Rightarrow> nat \<Rightarrow> slot_info \<Rightarrow> llama_ubatch \<Rightarrow> bool" where
  "ub_toks_ok kv n si ub \<longleftrightarrow>
     (\<forall>s < si_n_stream si. \<forall>ii < n. tok_ok kv ub (s * n + ii) (si_strm si ! s))"

text \<open>The state after the tokens \<open>D\<close> of the slot have been placed.\<close>

definition placed ::
    "'d kv_cache \<Rightarrow> nat \<Rightarrow> slot_info \<Rightarrow> llama_ubatch \<Rightarrow> (nat \<Rightarrow> nat \<Rightarrow> bool) \<Rightarrow>
     llama_kv_cells list \<times> (nat \<Rightarrow> llama_pos) \<Rightarrow> bool" where
  "placed kv n si ub D st \<longleftrightarrow> length (fst st) = kv_n_stream kv \<and>
     (\<forall>t < kv_n_stream kv. stream_ok kv t (fst st ! t)) \<and>
     (\<forall>s ii. D s ii \<longrightarrow> cell (fst st ! (si_strm si ! s)) (si_idxs si ! s ! ii) =
        tok_cell ub (s * n + ii) (cell (kv_cells kv ! (si_strm si ! s)) (si_idxs si ! s ! ii))) \<and>
     (\<forall>t < kv_n_stream kv. \<forall>i < kv_get_size kv.
        (\<forall>s ii. D s ii \<longrightarrow> \<not> (si_strm si ! s = t \<and> si_idxs si ! s ! ii = i)) \<longrightarrow>
        cell (fst st ! t) i = cell (kv_cells kv ! t) i) \<and>
     ((\<forall>s < si_n_stream si. \<forall>i \<in> set (si_idxs si ! s). kc_pos (kv_cells kv ! (si_strm si ! s)) ! i = -1) \<longrightarrow>
        snd st = (\<lambda>_. -1)) \<and>
     (\<forall>q. snd st q \<noteq> -1 \<longrightarrow> q < length (kv_seq_to_stream kv))"

lemma slot_inj:
  assumes "slot_ok kv n si" "s < si_n_stream si" "s' < si_n_stream si" "ii < n" "ii' < n"
    and "si_strm si ! s = si_strm si ! s'" "si_idxs si ! s ! ii = si_idxs si ! s' ! ii'"
  shows "s = s' \<and> ii = ii'"
proof -
  have "s = s'" using assms(1-3,6) by (auto simp: slot_ok_def si_n_stream_def nth_eq_iff_index_eq)
  moreover have "distinct (si_idxs si ! s)" "length (si_idxs si ! s) = n"
    using assms(1,2) by (simp_all add: slot_ok_def)
  ultimately show ?thesis using assms(4,5,7) nth_eq_iff_index_eq by metis
qed

lemma slot_lt:
  assumes "slot_ok kv n si" "a < si_n_stream si" "b < n"
  shows "si_strm si ! a < kv_n_stream kv" "si_idxs si ! a ! b < kv_get_size kv"
    "si_idxs si ! a ! b \<in> set (si_idxs si ! a)"
  using assms nth_mem [of b "si_idxs si ! a"] by (auto simp: slot_ok_def simp del: nth_mem)

lemma placed_step:
  assumes wf: "kv_wf kv" and si: "slot_ok kv n si" and ub: "ub_toks_ok kv n si ub"
    and D: "\<And>a b. D a b \<Longrightarrow> a < si_n_stream si \<and> b < n" and s: "s < si_n_stream si" "ii < n" "\<not> D s ii"
    and p: "placed kv n si ub D st"
  shows "placed kv n si ub (\<lambda>a b. D a b \<or> (a = s \<and> b = ii)) (emplace_token si ub n s ii st)"
proof -
  obtain cs rmax where st: "st = (cs, rmax)" by (cases st)
  let ?t = "si_strm si ! s" and ?i = "si_idxs si ! s ! ii"
  have t: "?t < kv_n_stream kv" "?i < kv_get_size kv" "?i \<in> set (si_idxs si ! s)"
    using slot_lt [OF si s(1,2)] by simp_all
  have p': "length cs = kv_n_stream kv" "\<And>t. t < kv_n_stream kv \<Longrightarrow> stream_ok kv t (cs ! t)"
    "\<And>a b. D a b \<Longrightarrow> cell (cs ! (si_strm si ! a)) (si_idxs si ! a ! b) =
        tok_cell ub (a * n + b) (cell (kv_cells kv ! (si_strm si ! a)) (si_idxs si ! a ! b))"
    "\<And>t i. t < kv_n_stream kv \<Longrightarrow> i < kv_get_size kv \<Longrightarrow>
      (\<forall>a b. D a b \<longrightarrow> \<not> (si_strm si ! a = t \<and> si_idxs si ! a ! b = i)) \<Longrightarrow> cell (cs ! t) i = cell (kv_cells kv ! t) i"
    "(\<forall>s < si_n_stream si. \<forall>i \<in> set (si_idxs si ! s). kc_pos (kv_cells kv ! (si_strm si ! s)) ! i = -1) \<Longrightarrow>
        rmax = (\<lambda>_. -1)"
    "\<And>q. rmax q \<noteq> -1 \<Longrightarrow> q < length (kv_seq_to_stream kv)"
    using p by (auto simp: placed_def st)
  have fresh: "\<not> (si_strm si ! a = ?t \<and> si_idxs si ! a ! b = ?i)" if "D a b" for a b
    using slot_inj [OF si, of a s b ii] D [OF that] s that by auto
  then have old: "cell (cs ! ?t) ?i = cell (kv_cells kv ! ?t) ?i" using p'(4) t by blast
  obtain c1 rmax' where e: "emplace_clear ?i (cs ! ?t, rmax) = (c1, rmax')"
    by (cases "emplace_clear ?i (cs ! ?t, rmax)")
  let ?c = "emplace_put ub (s * n + ii) ?i c1"
  have eq: "emplace_token si ub n s ii st = (cs[?t := ?c], rmax')"
    by (simp add: emplace_token_def st e Let_def)
  have tok: "tok_ok kv ub (s * n + ii) ?t" using ub s by (simp add: ub_toks_ok_def)
  have len: "length (kv_seq_to_stream kv) \<le> LLAMA_MAX_SEQ" using wf by (simp add: kv_wf_def)
  note one = emplace_one [OF p'(2) [OF t(1)] t(2) tok len e]
  have lt: "si_strm si ! a < kv_n_stream kv" "si_idxs si ! a ! b < kv_get_size kv" if "D a b" for a b
    using D [OF that] slot_lt [OF si] by blast+
  have new: "cell (cs[?t := ?c] ! (si_strm si ! a)) (si_idxs si ! a ! b) =
      tok_cell ub (a * n + b) (cell (kv_cells kv ! (si_strm si ! a)) (si_idxs si ! a ! b))"
    if "D a b \<or> (a = s \<and> b = ii)" for a b
  proof (cases "a = s \<and> b = ii")
    case True
    then show ?thesis using one(2) old p'(1) t(1) by simp
  next
    case False
    then have d: "D a b" using that by blast
    show ?thesis
    proof (cases "si_strm si ! a = ?t")
      case True
      then have "si_idxs si ! a ! b \<noteq> ?i" using fresh [OF d] by blast
      then show ?thesis using one(3) [OF lt(2) [OF d]] p'(1) p'(3) [OF d] True t(1) by simp
    qed (use p'(3) d in simp)
  qed
  have frame: "cell (cs[?t := ?c] ! u) i = cell (kv_cells kv ! u) i"
    if "u < kv_n_stream kv" "i < kv_get_size kv"
      "\<forall>a b. D a b \<or> (a = s \<and> b = ii) \<longrightarrow> \<not> (si_strm si ! a = u \<and> si_idxs si ! a ! b = i)" for u i
  proof (cases "u = ?t")
    case True
    then have "i \<noteq> ?i" using that(3) by blast
    then show ?thesis using True one(3) [OF that(2)] p'(1,4) that by simp
  qed (use p'(4) that in simp)
  have rm: "rmax' = (\<lambda>_. -1)"
    if all: "\<forall>s < si_n_stream si. \<forall>i \<in> set (si_idxs si ! s). kc_pos (kv_cells kv ! (si_strm si ! s)) ! i = -1"
  proof -
    have "kc_pos (cs ! ?t) ! ?i = -1" using old all s t(3) by (simp add: cell_def)
    moreover have "cells_wf (cs ! ?t)" "?i < cells_size (cs ! ?t)"
      using p'(2) [OF t(1)] t(2) by (simp_all add: stream_ok_def)
    ultimately show ?thesis using emplace_clear_step(2) [OF _ _ e] p'(5) [OF all] by simp
  qed
  have "q < length (kv_seq_to_stream kv)" if q: "rmax' q \<noteq> -1" for q
    using emplace_clear_owner [OF p'(2) [OF t(1)] t(2) _ e p'(6) q] old slot_used [OF si s(1) t(3)]
    by (simp add: cell_def)
  moreover have "stream_ok kv u (cs[?t := ?c] ! u)" if "u < kv_n_stream kv" for u
    using one(1) p'(1,2) that by (cases "u = ?t") simp_all
  ultimately show ?thesis
    unfolding placed_def eq using p'(1) new frame rm by simp
qed

lemma emplace_all_placed:
  assumes wf: "kv_wf kv" and si: "slot_ok kv n si" and ub: "ub_toks_ok kv n si ub"
  shows "placed kv n si ub (\<lambda>a b. a < si_n_stream si \<and> b < n) (emplace_all si ub n (kv_cells kv))"
proof -
  have row: "placed kv n si ub (\<lambda>a b. a < Suc s \<and> b < n) (fold (emplace_token si ub n s) [0..<n] st)"
    if s: "s < si_n_stream si" and p: "placed kv n si ub (\<lambda>a b. a < s \<and> b < n) st" for s st
  proof -
    have "placed kv n si ub (\<lambda>a b. a < s \<and> b < n \<or> a = s \<and> b < n) (fold (emplace_token si ub n s) [0..<n] st)"
    proof (rule fold_upt_inv [where I = "\<lambda>ii. placed kv n si ub (\<lambda>a b. a < s \<and> b < n \<or> a = s \<and> b < ii)"])
      fix ii st assume ii: "ii < n" and p: "placed kv n si ub (\<lambda>a b. a < s \<and> b < n \<or> a = s \<and> b < ii) st"
      have "placed kv n si ub (\<lambda>a b. (a < s \<and> b < n \<or> a = s \<and> b < ii) \<or> (a = s \<and> b = ii))
          (emplace_token si ub n s ii st)"
        using s ii p by (intro placed_step [OF wf si ub]) auto
      moreover have "(\<lambda>a b. (a < s \<and> b < n \<or> a = s \<and> b < ii) \<or> (a = s \<and> b = ii)) =
          (\<lambda>a b. a < s \<and> b < n \<or> a = s \<and> b < Suc ii)" by (auto simp: fun_eq_iff)
      ultimately show "placed kv n si ub (\<lambda>a b. a < s \<and> b < n \<or> a = s \<and> b < Suc ii) (emplace_token si ub n s ii st)"
        by simp
    qed (use p in simp_all)
    moreover have "(\<lambda>a b. a < s \<and> b < n \<or> a = s \<and> b < n) = (\<lambda>a b. a < Suc s \<and> b < n)"
      by (auto simp: fun_eq_iff)
    ultimately show ?thesis by simp
  qed
  show ?thesis
    unfolding emplace_all_def
  proof (rule fold_upt_inv [where I = "\<lambda>s. placed kv n si ub (\<lambda>a b. a < s \<and> b < n)"])
    show "placed kv n si ub (\<lambda>a b. a < 0 \<and> b < n) (kv_cells kv, \<lambda>_. -1)"
      using wf kv_wf_cells [OF wf] by (simp add: placed_def kv_wf_def)
  qed (use row in simp_all)
qed

lemma purge_loop_none: "(\<And>s. s \<in> set ss \<Longrightarrow> rmax s = -1) \<Longrightarrow> purge_loop rmax ss kv = Inr kv"
  by (induction ss) auto

lemma purge_loop_wf:
  assumes "kv_wf kv" and "\<And>s. rmax s \<noteq> -1 \<Longrightarrow> s < length (kv_seq_to_stream kv)"
  shows "\<exists>kv'. purge_loop rmax ss kv = Inr kv' \<and> kv_wf kv' \<and> kv_seq_to_stream kv' = kv_seq_to_stream kv \<and>
    kv_hparams kv' = kv_hparams kv \<and> kv_n_stream kv' = kv_n_stream kv \<and> kv_get_size kv' = kv_get_size kv"
  using assms
proof (induction ss arbitrary: kv)
  case (Cons s ss)
  let ?pmin = "cells_seq_pos_min (kv_cells kv ! (kv_seq_to_stream kv ! s)) s"
  show ?case
  proof (cases "rmax s = -1 \<or> \<not> ?pmin \<le> rmax s")
    case True
    then show ?thesis using Cons by (auto simp: Let_def)
  next
    case False
    then have ok: "seq_id_ok kv (int s)" using Cons.prems(2) by (simp add: seq_id_ok_def)
    let ?kv = "kv_free_loop (seq_rm_pass s (range_lo ?pmin) (range_hi (rmax s + 1))) (kv_stream_of kv (int s)) kv"
    have eq: "kv_seq_rm (int s) ?pmin (rmax s + 1) kv = Inr (True, ?kv)"
      using ok by (simp add: kv_seq_rm_def)
    have wf: "kv_wf ?kv" using kv_seq_rm_spec [OF Cons.prems(1) ok, of ?pmin "rmax s + 1"] eq by auto
    have st: "kv_stream_of kv (int s) < kv_n_stream kv" by (rule kv_wf_stream [OF Cons.prems(1) ok])
    have size: "kv_get_size ?kv = kv_get_size kv"
      using seq_rm.loop_cells(2) [OF kv_wf_table(1) [OF Cons.prems(1) st]]
      by (intro kv_get_size_free [OF Cons.prems(1) st wf]) simp
    have "\<exists>kv'. purge_loop rmax ss ?kv = Inr kv' \<and> kv_wf kv' \<and> kv_seq_to_stream kv' = kv_seq_to_stream ?kv \<and>
        kv_hparams kv' = kv_hparams ?kv \<and> kv_n_stream kv' = kv_n_stream ?kv \<and> kv_get_size kv' = kv_get_size ?kv"
      by (rule Cons.IH [OF wf]) (use Cons.prems(2) in simp)
    then show ?thesis using False eq size Cons.prems(2) by (auto simp: Let_def)
  qed
qed auto

lemma move_heads_nth:
  assumes "distinct (si_strm si)" "t < length hs"
  shows "length (move_heads si hs) = length hs"
    and "s < si_n_stream si \<Longrightarrow> si_strm si ! s = t \<Longrightarrow> move_heads si hs ! t = last (si_idxs si ! s) + 1"
    and "t \<notin> set (si_strm si) \<Longrightarrow> move_heads si hs ! t = hs ! t"
proof -
  define P where "P n g \<longleftrightarrow> length g = length hs \<and>
      (\<forall>s<n. si_strm si ! s = t \<longrightarrow> g ! t = last (si_idxs si ! s) + 1) \<and>
      ((\<forall>s<n. si_strm si ! s \<noteq> t) \<longrightarrow> g ! t = hs ! t)" for n g
  have "P (si_n_stream si) (move_heads si hs)"
    unfolding move_heads_def
  proof (rule fold_upt_inv)
    fix n g assume n: "n < si_n_stream si" and g: "P n g"
    have "si_strm si ! s \<noteq> si_strm si ! n" if "s < n" for s
      using assms(1) n that by (simp add: nth_eq_iff_index_eq si_n_stream_def)
    then show "P (Suc n) (g[si_strm si ! n := last (si_idxs si ! n) + 1])"
      using g assms(2) by (cases "si_strm si ! n = t") (auto simp: P_def less_Suc_eq)
  qed (simp_all add: P_def)
  then show "length (move_heads si hs) = length hs"
    "s < si_n_stream si \<Longrightarrow> si_strm si ! s = t \<Longrightarrow> move_heads si hs ! t = last (si_idxs si ! s) + 1"
    "t \<notin> set (si_strm si) \<Longrightarrow> move_heads si hs ! t = hs ! t"
    by (auto simp: P_def si_n_stream_def in_set_conv_nth)
qed

lemma kv_wf_cells_upd:
  assumes wf: "kv_wf kv" and cs: "length cs = kv_n_stream kv" "\<And>t. t < kv_n_stream kv \<Longrightarrow> stream_ok kv t (cs ! t)"
  shows "kv_wf (kv\<lparr>kv_cells := cs\<rparr>)" and "kv_get_size (kv\<lparr>kv_cells := cs\<rparr>) = kv_get_size kv"
proof -
  have "kv_seq_to_stream kv ! 0 < kv_n_stream kv" using wf by (simp add: kv_wf_def)
  then have "cells_size (cs ! (kv_seq_to_stream kv ! 0)) = kv_get_size kv"
    using cs(2) unfolding stream_ok_def by blast
  then show size: "kv_get_size (kv\<lparr>kv_cells := cs\<rparr>) = kv_get_size kv"
    unfolding kv_get_size_def by simp
  have "stream_ok (kv\<lparr>kv_cells := cs\<rparr>) = stream_ok kv"
    by (simp add: fun_eq_iff stream_ok_def size)
  then show "kv_wf (kv\<lparr>kv_cells := cs\<rparr>)" using wf cs size by (simp add: kv_wf_def)
qed

lemma kv_wf_heads_upd:
  assumes wf: "kv_wf kv" and hs: "length hs = kv_n_stream kv" "\<And>t. t < kv_n_stream kv \<Longrightarrow> hs ! t \<le> kv_get_size kv"
  shows "kv_wf (kv\<lparr>kv_heads := hs\<rparr>)"
proof -
  have size: "kv_get_size (kv\<lparr>kv_heads := hs\<rparr>) = kv_get_size kv" by (simp add: kv_get_size_def)
  have "stream_ok (kv\<lparr>kv_heads := hs\<rparr>) = stream_ok kv" by (simp add: fun_eq_iff stream_ok_def size)
  then show ?thesis using wf hs size by (simp add: kv_wf_def)
qed

lemma move_heads_le:
  assumes si: "slot_ok kv n si" and n: "0 < n" and t: "t < length hs" and h: "hs ! t \<le> kv_get_size kv"
  shows "move_heads si hs ! t \<le> kv_get_size kv"
proof (cases "t \<in> set (si_strm si)")
  case True
  then obtain s where s: "s < si_n_stream si" "si_strm si ! s = t"
    by (auto simp: in_set_conv_nth si_n_stream_def)
  have d: "distinct (si_strm si)" "length (si_idxs si ! s) = n" using si s by (simp_all add: slot_ok_def)
  then have "si_idxs si ! s \<noteq> []" using n by auto
  then have "last (si_idxs si ! s) = si_idxs si ! s ! (n - 1)" using d by (simp add: last_conv_nth)
  then show ?thesis
    using move_heads_nth(2) [OF d(1) t s] slot_lt(2) [OF si s(1), of "n - 1"] n by simp
next
  case False
  then show ?thesis using move_heads_nth(3) [OF _ t] si h by (simp add: slot_ok_def)
qed

lemma apply_ubatch_eq:
  assumes "slot_ok kv n si"
  shows "apply_ubatch si ub kv = (case emplace_all si ub n (kv_cells kv) of (cs, rmax) \<Rightarrow>
         bind_res (purge_loop rmax [0..<LLAMA_MAX_SEQ] (kv\<lparr>kv_cells := cs\<rparr>)) (\<lambda>kv1.
           Inr (kv1\<lparr>kv_heads := move_heads si (kv_heads kv1)\<rparr>)))"
proof -
  have "si_size si = Inr n" "si_n_stream si \<noteq> 0" "si_idxs si \<noteq> []"
    using assms by (auto simp: slot_ok_def si_size_def si_n_stream_def)
  then show ?thesis by (simp add: apply_ubatch_def)
qed

text \<open>Placing a micro-batch into a slot keeps the cache well formed and does not fault.\<close>

lemma apply_ubatch_keeps:
  assumes wf: "kv_wf kv" and si: "slot_ok kv n si" and n: "0 < n" and ub: "ub_toks_ok kv n si ub"
  shows "\<exists>kv'. apply_ubatch si ub kv = Inr kv' \<and> kv_wf kv' \<and> kv_seq_to_stream kv' = kv_seq_to_stream kv"
proof -
  obtain cs rmax where e: "emplace_all si ub n (kv_cells kv) = (cs, rmax)"
    by (cases "emplace_all si ub n (kv_cells kv)")
  have p: "length cs = kv_n_stream kv" "\<And>t. t < kv_n_stream kv \<Longrightarrow> stream_ok kv t (cs ! t)"
    "\<And>q. rmax q \<noteq> -1 \<Longrightarrow> q < length (kv_seq_to_stream kv)"
    using emplace_all_placed [OF wf si ub] by (auto simp: e placed_def)
  let ?kv = "kv\<lparr>kv_cells := cs\<rparr>"
  note wf1 = kv_wf_cells_upd [OF wf p(1,2)]
  obtain kv' where kv': "purge_loop rmax [0..<LLAMA_MAX_SEQ] ?kv = Inr kv'" "kv_wf kv'"
    "kv_seq_to_stream kv' = kv_seq_to_stream kv" "kv_n_stream kv' = kv_n_stream kv" "kv_get_size kv' = kv_get_size kv"
    using purge_loop_wf [OF wf1(1), of rmax "[0..<LLAMA_MAX_SEQ]"] p(3) wf1(2) by auto
  have d: "distinct (si_strm si)" using si by (simp add: slot_ok_def)
  have hs: "length (kv_heads kv') = kv_n_stream kv" using kv_wf_heads(3) [OF kv'(2)] kv'(4) by simp
  have "kv_wf (kv'\<lparr>kv_heads := move_heads si (kv_heads kv')\<rparr>)"
  proof (rule kv_wf_heads_upd [OF kv'(2)])
    show "length (move_heads si (kv_heads kv')) = kv_n_stream kv'"
    proof (cases "kv_n_stream kv")
      case 0
      then show ?thesis using si by (auto simp: slot_ok_def)
    next
      case (Suc k)
      then show ?thesis using move_heads_nth(1) [OF d, of 0 "kv_heads kv'"] hs kv'(4) by simp
    qed
    show "move_heads si (kv_heads kv') ! t \<le> kv_get_size kv'" if "t < kv_n_stream kv'" for t
      using move_heads_le [OF si n, of t "kv_heads kv'"] kv_wf_heads(2) [OF kv'(2) that] that hs kv'(4,5) by simp
  qed
  then show ?thesis
    using apply_ubatch_eq [OF si, of ub] e kv' by simp
qed

text \<open>
  A slot of empty cells: the tokens are in their cells, every other cell of every stream is as
  before, and the heads stand behind the slot.
\<close>

lemma apply_ubatch_exact:
  assumes wf: "kv_wf kv" and si: "slot_ok kv n si" and ub: "ub_toks_ok kv n si ub"
    and empty: "\<forall>s < si_n_stream si. \<forall>i \<in> set (si_idxs si ! s). kc_pos (kv_cells kv ! (si_strm si ! s)) ! i = -1"
  shows "\<exists>cs. apply_ubatch si ub kv = Inr (kv\<lparr>kv_cells := cs, kv_heads := move_heads si (kv_heads kv)\<rparr>) \<and>
    placed kv n si ub (\<lambda>a b. a < si_n_stream si \<and> b < n) (cs, \<lambda>_. -1)"
proof -
  obtain cs rmax where e: "emplace_all si ub n (kv_cells kv) = (cs, rmax)"
    by (cases "emplace_all si ub n (kv_cells kv)")
  have p: "placed kv n si ub (\<lambda>a b. a < si_n_stream si \<and> b < n) (cs, rmax)"
    using emplace_all_placed [OF wf si ub] by (simp add: e)
  then have r: "rmax = (\<lambda>_. -1)" using empty by (simp add: placed_def)
  then show ?thesis
    using apply_ubatch_eq [OF si, of ub] e p
      purge_loop_none [of "[0..<LLAMA_MAX_SEQ]" "\<lambda>_. -1" "kv\<lparr>kv_cells := cs\<rparr>"]
    by (intro exI [of _ cs]) simp
qed

section \<open>Padding\<close>

lemma and_not_mask: "w AND NOT (mask k) = push_bit k (drop_bit k (w :: 'a :: len word))"
  by (rule bit_word_eqI) (auto simp: bit_simps)

lemma unat_and_not_mask: "unat (w AND NOT (mask k)) = unat (w :: u32) div 2 ^ k * 2 ^ k"
proof -
  have "unat w < 2 ^ LENGTH(32)" by (rule unsigned_less)
  then have "unat w < 2 ^ 32" by simp
  then have "unat w div 2 ^ k * 2 ^ k < 2 ^ 32"
    by (rule le_less_trans [OF div_times_less_eq_dividend])
  moreover have "unat (push_bit k (drop_bit k w)) = take_bit 32 (push_bit k (drop_bit k (unat w)))"
    by (simp add: unsigned_push_bit_eq unat_drop_bit_eq)
  then have "unat (push_bit k (drop_bit k w)) = (unat w div 2 ^ k * 2 ^ k) mod 2 ^ 32"
    unfolding take_bit_eq_mod push_bit_eq_mult drop_bit_eq_div .
  ultimately show ?thesis by (simp only: and_not_mask mod_less)
qed

text \<open>For a power of two, \<open>GGML_PAD\<close> rounds up to the next multiple as long as nothing wraps.\<close>

lemma ggml_pad_pow2:
  assumes "x + 2 ^ k < (2 ^ 32 :: nat)"
  shows "unat (ggml_pad (word_of_nat x) (word_of_nat (2 ^ k))) = (x + 2 ^ k - 1) div 2 ^ k * 2 ^ k"
proof -
  have "(word_of_nat x :: u32) + word_of_nat (2 ^ k) - 1 = word_of_nat (x + 2 ^ k - 1)"
    using of_nat_diff [of 1 "x + 2 ^ k", where ?'a = u32] by (simp add: Suc_le_eq)
  moreover have "(word_of_nat (2 ^ k) :: u32) - 1 = mask k" by (simp add: mask_eq_exp_minus_1)
  moreover have "unat (word_of_nat (x + 2 ^ k - 1) :: u32) = x + 2 ^ k - 1"
    using assms by (simp add: unsigned_of_nat take_bit_nat_eq_self del: of_nat_add)
  ultimately show ?thesis by (simp add: ggml_pad_def unat_and_not_mask del: of_nat_add of_nat_power)
qed

lemma round_up_ge: "0 < n \<Longrightarrow> x \<le> (x + n - 1) div n * (n :: nat)"
proof -
  assume n: "0 < n"
  have "(x + n - 1) div n * n + (x + n - 1) mod n = x + n - 1" by (rule div_mult_mod_eq)
  moreover have "(x + n - 1) mod n < n" using n by simp
  ultimately show ?thesis using n by linarith
qed

section \<open>Updates\<close>

lemma fold_bufs:
  "fold (\<lambda>i kv. kv\<lparr>kv_buf := (kv_buf kv)[sdst ! i := kv_buf kv ! (ssrc ! i)]\<rparr>) is kv =
   kv\<lparr>kv_buf := fold (\<lambda>i b. b[sdst ! i := b ! (ssrc ! i)]) is (kv_buf kv)\<rparr>"
  by (induction "is" arbitrary: kv) simp_all

lemma length_fold_bufs [simp]:
  "length (fold (\<lambda>i b. b[sdst ! i := b ! (ssrc ! i)]) is (b :: 'a list)) = length b"
  by (induction "is" arbitrary: b) simp_all

definition reset_shifts :: "'d kv_cache \<Rightarrow> 'd kv_cache" where
  "reset_shifts kv = fold (\<lambda>s kv. kv\<lparr>kv_cells := (kv_cells kv)[s := cells_reset_shift (kv_cells kv ! s)]\<rparr>)
     [0..<kv_n_stream kv] kv"

lemma reset_shifts_eq:
  assumes "length (kv_cells kv) = kv_n_stream kv"
  shows "reset_shifts kv = kv\<lparr>kv_cells := map cells_reset_shift (kv_cells kv)\<rparr>"
proof -
  have "n \<le> length (kv_cells kv) \<Longrightarrow>
      fold (\<lambda>s kv. kv\<lparr>kv_cells := (kv_cells kv)[s := cells_reset_shift (kv_cells kv ! s)]\<rparr>) [0..<n] kv =
      kv\<lparr>kv_cells := map cells_reset_shift (take n (kv_cells kv)) @ drop n (kv_cells kv)\<rparr>" for n
  proof (induction n)
    case (Suc n)
    then show ?case
      by (simp add: nth_append list_update_append take_Suc_conv_app_nth Cons_nth_drop_Suc [symmetric])
  qed simp
  from this [of "kv_n_stream kv"] show ?thesis using assms by (simp add: reset_shifts_def)
qed

lemma reset_shift_fields:
  "kc_pos (cells_reset_shift c) = kc_pos c" "kc_seq (cells_reset_shift c) = kc_seq c"
  "cells_size (cells_reset_shift c) = cells_size c" "\<not> kc_has_shift (cells_reset_shift c)"
  by (simp_all add: cells_reset_shift_def cells_size_def)

lemma reset_shifts_wf:
  assumes wf: "kv_wf kv"
  shows "kv_wf (reset_shifts kv)" "kv_held (reset_shifts kv) q = kv_held kv q \<or> q \<ge> length (kv_seq_to_stream kv)"
    "\<not> kv_get_has_shift (reset_shifts kv)"
proof -
  have len: "length (kv_cells kv) = kv_n_stream kv" using wf by (simp add: kv_wf_def)
  note eq = reset_shifts_eq [OF len]
  have ok: "stream_ok kv t (map cells_reset_shift (kv_cells kv) ! t)" if "t < kv_n_stream kv" for t
    using kv_wf_cells [OF wf that] that len cells_reset_shift_wf reset_shift_fields
    unfolding stream_ok_def by simp
  note upd = kv_wf_cells_upd [OF wf _ ok]
  show "kv_wf (reset_shifts kv)" unfolding eq using len by (intro upd) simp_all
  have size: "kv_get_size (reset_shifts kv) = kv_get_size kv" unfolding eq using len by (intro upd) simp_all
  show "kv_held (reset_shifts kv) q = kv_held kv q \<or> q \<ge> length (kv_seq_to_stream kv)"
  proof (cases "q < length (kv_seq_to_stream kv)")
    case True
    then have "kv_seq_to_stream kv ! q < kv_n_stream kv" by (rule kv_wf_seq [OF wf])
    then show ?thesis unfolding kv_held_def size using len by (simp add: eq reset_shift_fields)
  qed simp
  have "fold (\<lambda>s r. r \<or> P s) xs b \<longleftrightarrow> b \<or> (\<exists>s \<in> set xs. P s)" for P b and xs :: "nat list"
    by (induction xs arbitrary: b) auto
  then show "\<not> kv_get_has_shift (reset_shifts kv)"
    using len by (simp add: kv_get_has_shift_def eq cells_get_has_shift_def reset_shift_fields)
qed

lemma kv_wf_frame:
  assumes "kv_wf kv" "length b = kv_n_stream kv"
  shows "kv_wf (kv\<lparr>kv_ssrc := [], kv_sdst := [], kv_buf := b\<rparr>)"
    "kv_held (kv\<lparr>kv_ssrc := [], kv_sdst := [], kv_buf := b\<rparr>) = kv_held kv"
proof -
  let ?kv = "kv\<lparr>kv_ssrc := [], kv_sdst := [], kv_buf := b\<rparr>"
  have size: "kv_get_size ?kv = kv_get_size kv" by (simp add: kv_get_size_def)
  have "stream_ok ?kv = stream_ok kv" by (simp add: fun_eq_iff stream_ok_def size)
  then show "kv_wf ?kv" using assms size by (simp add: kv_wf_def)
  show "kv_held ?kv = kv_held kv" by (simp add: fun_eq_iff kv_held_def size)
qed

lemma kv_update_eq:
  assumes "\<And>kv. \<exists>b. kshift kv = Some b \<and> length b = length (kv_buf kv)"
    and "do_shift \<Longrightarrow> kv_get_can_shift kv \<and> hp_rope_type (kv_hparams kv) \<noteq> LLAMA_ROPE_TYPE_NONE"
  shows "\<exists>b. length b = length (kv_buf kv) \<and> kv_update kshift do_shift ssrc sdst kv =
    Inr (do_shift, if do_shift then reset_shifts (kv\<lparr>kv_buf := b\<rparr>) else kv\<lparr>kv_buf := b\<rparr>)"
proof -
  let ?b = "fold (\<lambda>i b. b[sdst ! i := b ! (ssrc ! i)]) [0..<length ssrc] (kv_buf kv)"
  obtain b where b: "kshift (kv\<lparr>kv_buf := ?b\<rparr>) = Some b" "length b = length (kv_buf kv)"
    using assms(1) [of "kv\<lparr>kv_buf := ?b\<rparr>"] by auto
  show ?thesis
  proof (cases do_shift)
    case True
    then have "kv_update kshift do_shift ssrc sdst kv = Inr (do_shift, reset_shifts (kv\<lparr>kv_buf := b\<rparr>))"
      using assms(2) b(1) by (simp add: kv_update_def Let_def fold_bufs kv_get_can_shift_def reset_shifts_def)
    then show ?thesis using True b(2) by (intro exI [of _ b]) simp
  next
    case False
    then have "kv_update kshift do_shift ssrc sdst kv = Inr (do_shift, kv\<lparr>kv_buf := ?b\<rparr>)"
      by (simp add: kv_update_def Let_def fold_bufs)
    then show ?thesis using False by (intro exI [of _ ?b]) simp
  qed
qed

lemma fold_max_bound:
  fixes f :: "nat \<Rightarrow> nat"
  shows "s \<in> set ss \<Longrightarrow> f s \<le> fold (\<lambda>s r. max (f s) r) ss r" "r \<le> fold (\<lambda>s r. max (f s) r) ss r"
    "(\<forall>s \<in> set ss. f s \<le> m) \<Longrightarrow> r \<le> m \<Longrightarrow> fold (\<lambda>s r. max (f s) r) ss r \<le> m"
proof -
  have ge: "r \<le> fold (\<lambda>s r. max (f s) r) ss r" for r ss
  proof (induction ss arbitrary: r)
    case (Cons t ss)
    have "r \<le> max (f t) r" by simp
    also have "\<dots> \<le> fold (\<lambda>s r. max (f s) r) ss (max (f t) r)" by (rule Cons.IH)
    finally show ?case by simp
  qed simp
  then show "r \<le> fold (\<lambda>s r. max (f s) r) ss r" .
  show "s \<in> set ss \<Longrightarrow> f s \<le> fold (\<lambda>s r. max (f s) r) ss r"
  proof (induction ss arbitrary: r)
    case (Cons t ss)
    have "f s \<le> max (f s) r" for r by simp
    also have "max (f s) r \<le> fold (\<lambda>s r. max (f s) r) ss (max (f s) r)" for r by (rule ge)
    finally show ?case using Cons by (cases "s = t") auto
  qed simp
  show "(\<forall>s \<in> set ss. f s \<le> m) \<Longrightarrow> r \<le> m \<Longrightarrow> fold (\<lambda>s r. max (f s) r) ss r \<le> m"
    by (induction ss arbitrary: r) auto
qed

section \<open>A small micro-batch\<close>

text \<open>A micro-batch of one sequence with the given positions.\<close>

definition one_seq_ub :: "nat \<Rightarrow> llama_pos list \<Rightarrow> llama_ubatch" where
  "one_seq_ub s ps = \<lparr>ub_equal_seqs = True, ub_n_tokens = length ps, ub_n_seq_tokens = length ps, ub_n_seqs = 1,
     ub_n_seqs_unq = 1, ub_n_pos = 1, ub_token = None, ub_embd = None, ub_pos = ps,
     ub_n_seq_id = replicate (length ps) 1, ub_seq_id = replicate (length ps) [s], ub_seq_id_unq = [s],
     ub_seq_idx = (replicate LLAMA_MAX_SEQ (-1))[s := 0], ub_output = replicate (length ps) 0\<rparr>"

lemma update_quiet:
  assumes wf: "kv_wf kv" and shift: "kv_can_shift kv" "hp_rope_type (kv_hparams kv) \<noteq> LLAMA_ROPE_TYPE_NONE"
    and ks: "\<And>kv. \<exists>b. kshift kv = Some b \<and> length b = length (kv_buf kv)"
  shows "\<exists>cx' kv'. kv_ctx_apply kshift (fst (kv_init_update kv)) (snd (kv_init_update kv)) = Inr (True, cx', kv') \<and>
    kv_wf kv' \<and> kv' = kv\<lparr>kv_ssrc := [], kv_sdst := [], kv_buf := kv_buf kv', kv_cells := kv_cells kv'\<rparr> \<and>
    (\<forall>q < length (kv_seq_to_stream kv). kv_held kv' q = kv_held kv q) \<and>
    cx_status (fst (kv_init_update kv')) = LLAMA_MEMORY_STATUS_NO_UPDATE"
proof -
  let ?kv = "kv\<lparr>kv_ssrc := [], kv_sdst := []\<rparr>"
  let ?cx = "fst (kv_init_update kv)"
  obtain b where b: "length b = kv_n_stream kv" "kv_update kshift (kv_get_has_shift kv) (kv_ssrc kv) (kv_sdst kv) ?kv =
      Inr (kv_get_has_shift kv, if kv_get_has_shift kv then reset_shifts (?kv\<lparr>kv_buf := b\<rparr>) else ?kv\<lparr>kv_buf := b\<rparr>)"
    using kv_update_eq [OF ks, of "kv_get_has_shift kv" ?kv "kv_ssrc kv" "kv_sdst kv"] shift wf
    by (auto simp: kv_get_can_shift_def kv_wf_def)
  have f: "cx_ubatches ?cx = []" "cx_do_shift ?cx = kv_get_has_shift kv" "cx_ssrc ?cx = kv_ssrc kv"
    "cx_sdst ?cx = kv_sdst kv" "snd (kv_init_update kv) = ?kv"
    by (simp_all add: kv_init_update_def Let_def kv_ctx_status_def)
  let ?k = "?kv\<lparr>kv_buf := b\<rparr>"
  let ?kv' = "if kv_get_has_shift kv then reset_shifts ?k else ?k"
  have k: "kv_wf ?k" "kv_held ?k = kv_held kv" using kv_wf_frame [OF wf b(1)] by simp_all
  have "length (kv_cells ?k) = kv_n_stream ?k" using k(1) by (simp add: kv_wf_def)
  then have ssrc: "kv_ssrc (reset_shifts ?k) = []" by (subst reset_shifts_eq) simp_all
  have "kv_get_has_shift ?k = kv_get_has_shift kv" by (simp add: kv_get_has_shift_def)
  then have quiet: "\<not> kv_get_has_shift ?kv'" "kv_ssrc ?kv' = []"
    using reset_shifts_wf(3) [OF k(1)] ssrc by auto
  moreover have "kv_wf ?kv'" using reset_shifts_wf(1) [OF k(1)] k(1) by auto
  moreover have "kv_held ?kv' q = kv_held kv q" if "q < length (kv_seq_to_stream kv)" for q
    using reset_shifts_wf(2) [OF k(1), of q] k(2) that by auto
  moreover have "?kv' = kv\<lparr>kv_ssrc := [], kv_sdst := [], kv_buf := kv_buf ?kv', kv_cells := kv_cells ?kv'\<rparr>"
    using \<open>length (kv_cells ?k) = kv_n_stream ?k\<close> reset_shifts_eq [of ?k] by auto
  moreover have "kv_ctx_apply kshift ?cx (snd (kv_init_update kv)) = Inr (True, ?cx, ?kv')"
    by (simp add: kv_ctx_apply_def f b(2))
  ultimately show ?thesis
    by (intro exI [of _ ?cx] exI [of _ ?kv']) (simp add: kv_init_update_def Let_def)
qed

section \<open>Properties\<close>

text \<open>
  C15. The search for \<open>n\<close> cells of a stream always ends. It looks at every cell once, from the head
  (or from 0, when more than \<open>2 n\<close> cells before the head are unused) to the end and then from the
  start, and returns the first \<open>n\<close> usable cells in that order; it fails exactly when there are
  fewer than \<open>n\<close> usable cells.
\<close>

theorem find_slot_first_usable:
  assumes "kv_wf kv" and "st < kv_n_stream kv" and "0 < n"
  shows "find_slot_stream kv n False st =
    (let head = kv_heads kv ! st;
         start = (if head > cells_get_used (kv_cells kv ! st) + 2 * n then 0 else head);
         usable = filter (slot_can_use kv (kv_cells kv ! st)) ([start..<kv_get_size kv] @ [0..<start])
     in Some (if n \<le> length usable then Some (take n usable) else None))"
  using find_slot_stream_result [OF assms] by (simp add: Let_def rotation_def)

theorem find_slot_first_usable_witness:
  "find_slot_stream demo_kv 3 False 0 = Some (Some [0, 1, 2])"
proof -
  have "0 < kv_n_stream demo_kv" by code_simp
  note find_slot_first_usable [OF demo_kv_wf(1) this, of 3]
  moreover have "(let head = kv_heads demo_kv ! 0;
         start = (if head > cells_get_used (kv_cells demo_kv ! 0) + 2 * 3 then 0 else head);
         usable = filter (slot_can_use demo_kv (kv_cells demo_kv ! 0)) ([start..<kv_get_size demo_kv] @ [0..<start])
     in Some (if 3 \<le> length usable then Some (take 3 usable) else None)) = Some (Some [0, 1, 2])"
    by code_simp
  ultimately show ?thesis by simp
qed

text \<open>
  C22. The search for a micro-batch always ends; when it finds a slot, the slot names the streams of
  the micro-batch's sequences, each once, and for each of them the same number of different cells,
  all of them usable.
\<close>

theorem find_slot_usable:
  assumes "kv_wf kv" and "ub_seqs_ok kv ub"
  shows "\<exists>r. find_slot ub False kv = Some r \<and>
    (\<forall>si. r = Inr si \<and> \<not> si_empty si \<longrightarrow>
       distinct (si_strm si) \<and> length (si_idxs si) = length (si_strm si) \<and>
       si_strm si = map (\<lambda>s. kv_seq_to_stream kv ! (ub_seq_id_unq ub ! s))
         [0..<if kv_n_stream kv > 1 then ub_n_seqs_unq ub else 1] \<and>
       (\<forall>s < length (si_strm si). length (si_idxs si ! s) = ub_per_stream kv ub \<and> distinct (si_idxs si ! s) \<and>
          (\<forall>i \<in> set (si_idxs si ! s). i < kv_get_size kv \<and> slot_can_use kv (kv_cells kv ! (si_strm si ! s)) i)))"
  using find_slot_ok [OF assms] by (auto simp: slot_ok_def si_n_stream_def)

theorem find_slot_usable_witness:
  "\<exists>si. find_slot (one_seq_ub 1 [0, 1]) False demo_kv = Some (Inr si) \<and> \<not> si_empty si \<and>
     si_strm si = [0] \<and> distinct (si_idxs si ! 0) \<and> length (si_idxs si ! 0) = 2"
proof -
  have ok: "ub_seqs_ok demo_kv (one_seq_ub 1 [0, 1])" by code_simp
  have "case find_slot (one_seq_ub 1 [0, 1]) False demo_kv of Some (Inr si) \<Rightarrow> \<not> si_empty si \<and> si_strm si = [0] | _ \<Rightarrow> False"
    by code_simp
  moreover have "ub_per_stream demo_kv (one_seq_ub 1 [0, 1]) = 2" by code_simp
  ultimately show ?thesis
    using find_slot_usable [OF demo_kv_wf(1) ok]
    by (cases "find_slot (one_seq_ub 1 [0, 1]) False demo_kv"; cases "the (find_slot (one_seq_ub 1 [0, 1]) False demo_kv)") auto
qed

text \<open>
  C14. Placing a micro-batch into a slot of empty cells: the call succeeds and keeps the cache well
  formed, every token is in its cell (position, sequences, no pending shift), every other cell of
  every stream is as before, and the head of each stream of the slot stands right behind the slot.
\<close>

theorem apply_ubatch_places:
  assumes "kv_wf kv" "slot_ok kv n si" "0 < n" "ub_toks_ok kv n si ub"
    and "\<forall>s < si_n_stream si. \<forall>i \<in> set (si_idxs si ! s). kc_pos (kv_cells kv ! (si_strm si ! s)) ! i = -1"
  shows "\<exists>kv'. apply_ubatch si ub kv = Inr kv' \<and> kv_wf kv' \<and>
    (\<forall>s < si_n_stream si. \<forall>ii < n.
       cell (kv_cells kv' ! (si_strm si ! s)) (si_idxs si ! s ! ii) =
         tok_cell ub (s * n + ii) (cell (kv_cells kv ! (si_strm si ! s)) (si_idxs si ! s ! ii))) \<and>
    (\<forall>t < kv_n_stream kv. \<forall>i < kv_get_size kv.
       (\<forall>s < si_n_stream si. si_strm si ! s = t \<longrightarrow> i \<notin> set (si_idxs si ! s)) \<longrightarrow>
       cell (kv_cells kv' ! t) i = cell (kv_cells kv ! t) i) \<and>
    (\<forall>s < si_n_stream si. kv_heads kv' ! (si_strm si ! s) = last (si_idxs si ! s) + 1)"
proof -
  note wf = assms(1) and si = assms(2) and ub = assms(4)
  obtain cs where cs: "apply_ubatch si ub kv = Inr (kv\<lparr>kv_cells := cs, kv_heads := move_heads si (kv_heads kv)\<rparr>)"
    "placed kv n si ub (\<lambda>a b. a < si_n_stream si \<and> b < n) (cs, \<lambda>_. -1)"
    using apply_ubatch_exact [OF wf si ub assms(5)] by blast
  let ?kv = "kv\<lparr>kv_cells := cs, kv_heads := move_heads si (kv_heads kv)\<rparr>"
  have "kv_wf ?kv" using apply_ubatch_keeps [OF wf si assms(3) ub] cs(1) by simp
  moreover have "\<forall>s < si_n_stream si. \<forall>ii < n. cell (cs ! (si_strm si ! s)) (si_idxs si ! s ! ii) =
         tok_cell ub (s * n + ii) (cell (kv_cells kv ! (si_strm si ! s)) (si_idxs si ! s ! ii))"
    using cs(2) by (simp add: placed_def)
  moreover have "\<forall>t < kv_n_stream kv. \<forall>i < kv_get_size kv.
       (\<forall>s < si_n_stream si. si_strm si ! s = t \<longrightarrow> i \<notin> set (si_idxs si ! s)) \<longrightarrow>
       cell (cs ! t) i = cell (kv_cells kv ! t) i"
    using cs(2) slot_lt(3) [OF si] unfolding placed_def fst_conv by blast
  moreover have "move_heads si (kv_heads kv) ! (si_strm si ! s) = last (si_idxs si ! s) + 1" if "s < si_n_stream si" for s
    using that si kv_wf_heads(3) [OF wf] by (intro move_heads_nth(2) [OF _ _ that refl]) (auto simp: slot_ok_def)
  ultimately show ?thesis using cs(1) by simp
qed

theorem apply_ubatch_places_witness:
  "\<exists>kv'. apply_ubatch \<lparr>si_s0 = 0, si_s1 = 0, si_strm = [0], si_idxs = [[1, 3]]\<rparr> (one_seq_ub 0 [0, 1]) demo_kv = Inr kv' \<and>
     kv_wf kv' \<and> cell (kv_cells kv' ! 0) 3 = (1, ext_reset, 0, {0}) \<and>
     cell (kv_cells kv' ! 0) 0 = (-1, ext_reset, 0, {}) \<and> kv_heads kv' ! 0 = 4"
proof -
  let ?si = "\<lparr>si_s0 = 0, si_s1 = 0, si_strm = [0], si_idxs = [[1, 3]]\<rparr>"
  let ?ub = "one_seq_ub 0 [0, 1]"
  have ok: "slot_ok demo_kv 2 ?si" "ub_toks_ok demo_kv 2 ?si ?ub"
    "\<forall>s < si_n_stream ?si. \<forall>i \<in> set (si_idxs ?si ! s). kc_pos (kv_cells demo_kv ! (si_strm ?si ! s)) ! i = -1"
    by code_simp+
  obtain kv' where kv': "apply_ubatch ?si ?ub demo_kv = Inr kv'" "kv_wf kv'"
    "\<forall>s < si_n_stream ?si. \<forall>ii < 2. cell (kv_cells kv' ! (si_strm ?si ! s)) (si_idxs ?si ! s ! ii) =
         tok_cell ?ub (s * 2 + ii) (cell (kv_cells demo_kv ! (si_strm ?si ! s)) (si_idxs ?si ! s ! ii))"
    "\<forall>t < kv_n_stream demo_kv. \<forall>i < kv_get_size demo_kv.
       (\<forall>s < si_n_stream ?si. si_strm ?si ! s = t \<longrightarrow> i \<notin> set (si_idxs ?si ! s)) \<longrightarrow>
       cell (kv_cells kv' ! t) i = cell (kv_cells demo_kv ! t) i"
    "\<forall>s < si_n_stream ?si. kv_heads kv' ! (si_strm ?si ! s) = last (si_idxs ?si ! s) + 1"
    using apply_ubatch_places [OF demo_kv_wf(1) ok(1) _ ok(2,3)] by auto
  have "tok_cell ?ub 1 (cell (kv_cells demo_kv ! 0) 3) = (1, ext_reset, 0, {0})"
    "cell (kv_cells demo_kv ! 0) 0 = (-1, ext_reset, 0, {})" "kv_n_stream demo_kv = 1" "kv_get_size demo_kv = 4"
    by code_simp+
  then show ?thesis
    using kv'(1,2) kv'(3) [rule_format, of 0 1] kv'(4) [rule_format, of 0 0] kv'(5) [rule_format, of 0]
    by (auto simp: si_n_stream_def)
qed

text \<open>
  \<open>get_n_kv\<close> covers every used cell of the streams of a slot and never exceeds the cache, for a
  padding that is a power of two and a cache small enough that the padding does not wrap around.
\<close>

lemma get_n_kv_covers:
  assumes "kv_wf kv" and "max (kv_n_pad kv) 256 = 2 ^ k" and "kv_get_size kv + 2 ^ k < 2 ^ 32"
    and "\<forall>t \<in> set (si_strm si). t < kv_n_stream kv"
  shows "kv_get_n_kv si kv \<le> kv_get_size kv \<and>
    (\<forall>t \<in> set (si_strm si). \<forall>i < kv_get_size kv. kc_pos (kv_cells kv ! t) ! i \<noteq> -1 \<longrightarrow> i < kv_get_n_kv si kv)"
proof -
  define f where "f s = (let c = kv_cells kv ! (si_strm si ! s) in min (cells_size c)
      (max (2 ^ k) (unat (ggml_pad (word_of_nat (cells_used_max_p1 c)) (word_of_nat (2 ^ k))))))" for s
  have eq: "kv_get_n_kv si kv = fold (\<lambda>s r. max (f s) r) [0..<si_n_stream si] 0"
    unfolding kv_get_n_kv_def assms(2) f_def Let_def by simp
  have size: "cells_wf (kv_cells kv ! t)" "cells_size (kv_cells kv ! t) = kv_get_size kv" if "t \<in> set (si_strm si)" for t
    using kv_wf_table [OF assms(1)] assms(4) that by auto
  have "f s \<le> kv_get_size kv" if "s < si_n_stream si" for s
    using size(2) that by (simp add: f_def Let_def si_n_stream_def)
  then have le: "kv_get_n_kv si kv \<le> kv_get_size kv" unfolding eq by (intro fold_max_bound(3)) auto
  have "i < kv_get_n_kv si kv"
    if t: "t \<in> set (si_strm si)" and i: "i < kv_get_size kv" "kc_pos (kv_cells kv ! t) ! i \<noteq> -1" for t i
  proof -
    obtain s where s: "s < si_n_stream si" "si_strm si ! s = t" using t by (auto simp: in_set_conv_nth si_n_stream_def)
    let ?c = "kv_cells kv ! t"
    have "i < cells_used_max_p1 ?c" using cells_used_max_p1_bound [OF size(1) [OF t]] size(2) [OF t] i by simp
    moreover have "cells_used_max_p1 ?c \<le> kv_get_size kv"
    proof -
      have "kc_used ?c \<subseteq> {..<kv_get_size kv}" using cells_wf_used [OF size(1) [OF t]] size(2) [OF t] by auto
      then show ?thesis using cells_wf_finite_used [OF size(1) [OF t]]
        by (auto simp: cells_used_max_p1_def Suc_le_eq)
    qed
    then have "unat (ggml_pad (word_of_nat (cells_used_max_p1 ?c)) (word_of_nat (2 ^ k))) =
        (cells_used_max_p1 ?c + 2 ^ k - 1) div 2 ^ k * 2 ^ k"
      using assms(3) by (intro ggml_pad_pow2) simp
    then have "cells_used_max_p1 ?c \<le> unat (ggml_pad (word_of_nat (cells_used_max_p1 ?c)) (word_of_nat (2 ^ k)))"
      using round_up_ge [of "2 ^ k" "cells_used_max_p1 ?c"] by simp
    ultimately have "i < f s" using i(1) size(2) [OF t] s(2) by (simp add: f_def Let_def min_def max_def)
    then show ?thesis
      unfolding eq using fold_max_bound(1) [of s "[0..<si_n_stream si]" f 0] s(1) by simp
  qed
  with le show ?thesis by blast
qed

text \<open>
  An update settles the cache: for a cache that can shift and a backend whose shift graph
  succeeds, applying the update context empties the queue of stream copies, clears every pending
  shift and keeps the positions of every sequence, so that the next update has nothing to do.
\<close>

lemma update_settles:
  assumes wf: "kv_wf kv" and shift: "kv_can_shift kv" "hp_rope_type (kv_hparams kv) \<noteq> LLAMA_ROPE_TYPE_NONE"
    and ks: "\<And>kv. \<exists>b. kshift kv = Some b \<and> length b = length (kv_buf kv)"
  shows "\<exists>cx' kv'. kv_ctx_apply kshift (fst (kv_init_update kv)) (snd (kv_init_update kv)) = Inr (True, cx', kv') \<and>
    kv_wf kv' \<and> (\<forall>q < length (kv_seq_to_stream kv). kv_held kv' q = kv_held kv q) \<and>
    cx_status (fst (kv_init_update kv')) = LLAMA_MEMORY_STATUS_NO_UPDATE"
  using update_quiet [OF assms] by blast

end
