(* ===== verification/KvPrepare.thy ===== *)
theory KvPrepare
  imports KvSlot
begin

text \<open>
  What the dry run \<open>llama_kv_cache::prepare\<close> and the contexts built on it promise. Without a
  sliding window a slot consists of empty cells, so that the saved cells of every step are enough
  to take the placement back; the slots it returns can then be applied one micro-batch at a time.
  With a sliding window, and for the heads of several streams, concrete runs show what is not
  restored.
\<close>

section \<open>Slots of empty cells\<close>

definition no_swa :: "'d kv_cache \<Rightarrow> bool" where
  "no_swa kv \<longleftrightarrow> kv_swa_type kv = LLAMA_SWA_TYPE_NONE"

lemma can_use_empty: "no_swa kv \<Longrightarrow> slot_can_use kv c i \<longleftrightarrow> kc_pos c ! i = -1"
  by (simp add: no_swa_def slot_can_use_def is_masked_swa_def cells_is_empty_def Let_def)

lemma slot_ok_empty:
  "slot_ok kv n si \<Longrightarrow> no_swa kv \<Longrightarrow>
     \<forall>s < si_n_stream si. \<forall>i \<in> set (si_idxs si ! s). kc_pos (kv_cells kv ! (si_strm si ! s)) ! i = -1"
  by (simp add: slot_ok_def can_use_empty)

text \<open>Placing tokens leaves the flag of pending shifts alone.\<close>

lemma has_shift_ops [simp]:
  "kc_has_shift (cells_rm i c) = kc_has_shift c"
  "kc_has_shift (cells_pos_set i p c) = kc_has_shift c"
  "kc_has_shift (cells_ext_set i e c) = kc_has_shift c"
  "kc_has_shift (cells_seq_add i q c) = kc_has_shift c"
  by (simp_all add: cells_rm_def cells_pos_set_def cells_ext_set_def cells_seq_add_def Let_def
      seq_pos_inc_def)

lemma emplace_put_has_shift [simp]: "kc_has_shift (emplace_put ub i idx c) = kc_has_shift c"
proof -
  have "kc_has_shift (fold (\<lambda>j. cells_seq_add idx (f j)) js c) = kc_has_shift c"
    for f :: "nat \<Rightarrow> nat" and js c
    by (induction js arbitrary: c) simp_all
  then show ?thesis by (simp add: emplace_put_def Let_def)
qed

lemma emplace_token_has_shift:
  "map kc_has_shift (fst (emplace_token si ub n s ii st)) = map kc_has_shift (fst st)"
proof (cases st)
  case (Pair cs r)
  obtain c r' where e: "emplace_clear (si_idxs si ! s ! ii) (cs ! (si_strm si ! s), r) = (c, r')"
    by (cases "emplace_clear (si_idxs si ! s ! ii) (cs ! (si_strm si ! s), r)")
  then have "kc_has_shift c = kc_has_shift (cs ! (si_strm si ! s))"
    by (auto simp: emplace_clear_def Let_def split: if_splits)
  then show ?thesis
    by (cases "si_strm si ! s < length cs")
      (simp_all add: Pair emplace_token_def e Let_def map_update list_update_beyond list_update_same_conv)
qed

lemma emplace_all_has_shift: "map kc_has_shift (fst (emplace_all si ub n cs)) = map kc_has_shift cs"
proof -
  have row: "map kc_has_shift (fst (fold (emplace_token si ub n s) is st)) = map kc_has_shift (fst st)" for s "is" st
    by (induction "is" arbitrary: st) (simp_all add: emplace_token_has_shift)
  have "map kc_has_shift (fst (fold (\<lambda>s st. fold (emplace_token si ub n s) [0..<n] st) ss st)) =
      map kc_has_shift (fst st)" for ss st
    by (induction ss arbitrary: st) (simp_all add: row)
  then show ?thesis by (simp add: emplace_all_def)
qed

section \<open>Taking one step back\<close>

lemma restore_fields:
  fixes kv :: "'d kv_cache"
  shows "restore_state (si, ho, saved) (kv\<lparr>kv_heads := hs\<rparr>) =
    (restore_state (si, ho, saved) kv)\<lparr>kv_heads :=
       fold (\<lambda>s hs. hs[si_strm si ! s := ho ! s]) [0..<si_n_stream si] hs\<rparr>"
proof -
  let ?f = "\<lambda>s (kv :: 'd kv_cache). kv\<lparr>kv_cells := (kv_cells kv)[si_strm si ! s :=
                           cells_set (si_idxs si ! s) (saved ! s) (kv_cells kv ! (si_strm si ! s))],
                       kv_heads := (kv_heads kv)[si_strm si ! s := ho ! s]\<rparr>"
  have "fold ?f ss (kv\<lparr>kv_heads := hs\<rparr>) =
      (fold ?f ss kv)\<lparr>kv_heads := fold (\<lambda>s hs. hs[si_strm si ! s := ho ! s]) ss hs\<rparr>" for ss hs kv
  proof (induction ss arbitrary: hs kv)
    case (Cons s ss)
    have "fold ?f (s # ss) (kv\<lparr>kv_heads := hs\<rparr>) = fold ?f ss ((?f s kv)\<lparr>kv_heads := hs[si_strm si ! s := ho ! s]\<rparr>)"
      by simp
    also have "\<dots> = (fold ?f ss (?f s kv))\<lparr>kv_heads :=
        fold (\<lambda>s hs. hs[si_strm si ! s := ho ! s]) ss (hs[si_strm si ! s := ho ! s])\<rparr>"
      by (rule Cons.IH)
    finally show ?case by simp
  qed simp
  then show ?thesis by (simp add: restore_state_def)
qed

text \<open>
  A table that differs from the saved one only in cells of the slot, all of them without a pending
  shift on both sides, comes back as it was.
\<close>

definition undoable :: "'d kv_cache \<Rightarrow> slot_info \<Rightarrow> llama_kv_cells list \<Rightarrow> bool" where
  "undoable kv si cs \<longleftrightarrow> length cs = kv_n_stream kv \<and>
     (\<forall>t < kv_n_stream kv. t \<notin> set (si_strm si) \<longrightarrow> cs ! t = kv_cells kv ! t) \<and>
     (\<forall>s < si_n_stream si. cells_set (si_idxs si ! s)
        (cells_cp (si_idxs si ! s) (kv_cells kv ! (si_strm si ! s))) (cs ! (si_strm si ! s)) =
        kv_cells kv ! (si_strm si ! s))"

lemma restore_undoes:
  fixes kv :: "'d kv_cache"
  assumes wf: "kv_wf kv" and si: "slot_ok kv n si" and u: "undoable kv si cs"
  shows "restore_state (save_state si kv) (kv\<lparr>kv_cells := cs, kv_heads := hs\<rparr>) =
    kv\<lparr>kv_heads := fold (\<lambda>s h. h[si_strm si ! s := kv_heads kv ! s]) [0..<si_n_stream si] hs\<rparr>"
proof -
  let ?k = "si_n_stream si"
  let ?saved = "map (\<lambda>s. cells_cp (si_idxs si ! s) (kv_cells kv ! (si_strm si ! s))) [0..<?k]"
  define I where "I m (k :: 'd kv_cache) \<longleftrightarrow> (\<exists>g h. k = kv\<lparr>kv_cells := g, kv_heads := h\<rparr> \<and> length g = kv_n_stream kv \<and>
      (\<forall>t < kv_n_stream kv. g ! t = (if \<exists>s<m. si_strm si ! s = t then kv_cells kv ! t else cs ! t)))" for m k
  have len: "length cs = kv_n_stream kv" "length (kv_cells kv) = kv_n_stream kv"
    using u wf by (simp_all add: undoable_def kv_wf_def)
  have d: "si_strm si ! s \<noteq> si_strm si ! m" if "s < m" "m < ?k" for s m
    using si that by (simp add: slot_ok_def si_n_stream_def nth_eq_iff_index_eq)
  have "I ?k (restore_state (si, kv_heads kv, ?saved) (kv\<lparr>kv_cells := cs, kv_heads := hs\<rparr>))"
    unfolding restore_state_def prod.case
  proof (rule fold_upt_inv [where I = I])
    show "I 0 (kv\<lparr>kv_cells := cs, kv_heads := hs\<rparr>)" using len by (auto simp: I_def)
    fix m k assume m: "m < ?k" and "I m k"
    then obtain g h where g: "k = kv\<lparr>kv_cells := g, kv_heads := h\<rparr>" "length g = kv_n_stream kv"
      "\<forall>t < kv_n_stream kv. g ! t = (if \<exists>s<m. si_strm si ! s = t then kv_cells kv ! t else cs ! t)"
      by (auto simp: I_def)
    let ?t = "si_strm si ! m"
    have t: "?t < kv_n_stream kv" using si m by (simp add: slot_ok_def)
    have "g ! ?t = cs ! ?t" using g(3) t d [OF _ m] by auto
    then have "cells_set (si_idxs si ! m) (?saved ! m) (g ! ?t) = kv_cells kv ! ?t"
      using u m by (simp add: undoable_def)
    then show "I (Suc m) (k\<lparr>kv_cells := (kv_cells k)[?t := cells_set (si_idxs si ! m) (?saved ! m) (kv_cells k ! ?t)],
        kv_heads := (kv_heads k)[?t := kv_heads kv ! m]\<rparr>)"
      unfolding I_def using g t
      by (intro exI [of _ "g[?t := kv_cells kv ! ?t]"] exI [of _ "h[?t := kv_heads kv ! m]"])
        (auto simp: less_Suc_eq nth_list_update)
  qed simp
  then obtain g h where g: "restore_state (si, kv_heads kv, ?saved) (kv\<lparr>kv_cells := cs, kv_heads := hs\<rparr>) =
      kv\<lparr>kv_cells := g, kv_heads := h\<rparr>" "length g = kv_n_stream kv"
    "\<forall>t < kv_n_stream kv. g ! t = (if \<exists>s<?k. si_strm si ! s = t then kv_cells kv ! t else cs ! t)"
    by (auto simp: I_def)
  have "g = kv_cells kv"
  proof (rule nth_equalityI)
    fix t assume "t < length g"
    moreover have "t \<in> set (si_strm si) \<longleftrightarrow> (\<exists>s<?k. si_strm si ! s = t)"
      by (auto simp: in_set_conv_nth si_n_stream_def)
    ultimately show "g ! t = kv_cells kv ! t" using g(2,3) u by (auto simp: undoable_def)
  qed (use g(2) len in simp)
  then show ?thesis
    using restore_fields [of si "kv_heads kv" ?saved hs "kv\<lparr>kv_cells := cs, kv_heads := hs\<rparr>"] g(1)
    by (simp add: save_state_def)
qed

text \<open>A placement into empty cells can be taken back.\<close>

lemma placed_undoable:
  assumes wf: "kv_wf kv" and si: "slot_ok kv n si" and swa: "no_swa kv"
    and p: "placed kv n si ub (\<lambda>a b. a < si_n_stream si \<and> b < n) (cs, rmax)"
    and hs: "map kc_has_shift cs = map kc_has_shift (kv_cells kv)"
  shows "undoable kv si cs"
proof -
  have len: "length cs = kv_n_stream kv" using p by (simp add: placed_def)
  have ok: "stream_ok kv t (cs ! t)" if "t < kv_n_stream kv" for t using p that by (simp add: placed_def)
  have frame: "cell (cs ! t) i = cell (kv_cells kv ! t) i"
    if "t < kv_n_stream kv" "i < kv_get_size kv" "\<And>s. s < si_n_stream si \<Longrightarrow> si_strm si ! s = t \<Longrightarrow> i \<notin> set (si_idxs si ! s)" for t i
    using p that slot_lt(3) [OF si] unfolding placed_def fst_conv by blast
  have flag: "kc_has_shift (cs ! t) = kc_has_shift (kv_cells kv ! t)" if "t < kv_n_stream kv" for t
    using hs that len wf by (metis kv_wf_def nth_map)
  have size: "cells_wf (cs ! t)" "cells_size (cs ! t) = kv_get_size kv" if "t < kv_n_stream kv" for t
    using ok [OF that] unfolding stream_ok_def by blast+
  have "cs ! t = kv_cells kv ! t" if t: "t < kv_n_stream kv" "t \<notin> set (si_strm si)" for t
  proof (rule cells_eqI)
    show "cell (cs ! t) i = cell (kv_cells kv ! t) i" if "i < cells_size (cs ! t)" for i
      using that size(2) [OF t(1)] t by (intro frame) (auto simp: in_set_conv_nth si_n_stream_def)
  qed (use size kv_wf_table [OF wf t(1)] flag t in simp_all)
  moreover have "cells_set (si_idxs si ! s) (cells_cp (si_idxs si ! s) (kv_cells kv ! (si_strm si ! s))) (cs ! (si_strm si ! s)) =
        kv_cells kv ! (si_strm si ! s)" if s: "s < si_n_stream si" for s
  proof -
    let ?t = "si_strm si ! s"
    have t: "?t < kv_n_stream kv" "length (si_idxs si ! s) = n" "distinct (si_idxs si ! s)"
      "\<forall>i \<in> set (si_idxs si ! s). i < kv_get_size kv" "distinct (si_strm si)"
      using si s by (auto simp: slot_ok_def)
    note c0 = kv_wf_table [OF wf t(1)]
    have uniq: "s' = s" if "s' < si_n_stream si" "si_strm si ! s' = ?t" for s'
      using t(5) that s by (simp add: si_n_stream_def nth_eq_iff_index_eq)
    have "kc_shift (kv_cells kv ! ?t) ! i = 0 \<and> kc_shift (cs ! ?t) ! i = 0" if i: "i \<in> set (si_idxs si ! s)" for i
    proof -
      have "kc_pos (kv_cells kv ! ?t) ! i = -1" using slot_ok_empty [OF si swa] s i by blast
      then have "kc_shift (kv_cells kv ! ?t) ! i = 0"
        using cells_wf_cell [OF c0(1), of i] t(4) i c0(2) by (simp add: cell_def)
      moreover obtain ii where ii: "ii < n" "i = si_idxs si ! s ! ii" using i t(2) by (auto simp: in_set_conv_nth)
      then have "cell (cs ! ?t) i = tok_cell ub (s * n + ii) (cell (kv_cells kv ! ?t) i)"
        using p s by (simp add: placed_def)
      ultimately show ?thesis by (simp add: cell_def tok_cell_def)
    qed
    moreover have "cell (cs ! ?t) i = cell (kv_cells kv ! ?t) i"
      if "i < cells_size (kv_cells kv ! ?t)" "i \<notin> set (si_idxs si ! s)" for i
      using that uniq c0(2) t(1) by (intro frame) auto
    ultimately show ?thesis
      using c0 size [OF t(1)] t flag [OF t(1)] by (intro cells_set_cp_restores) auto
  qed
  ultimately show ?thesis using len by (simp add: undoable_def)
qed

section \<open>What a placement adds\<close>

definition ub_positions :: "llama_ubatch \<Rightarrow> nat \<Rightarrow> llama_pos set" where
  "ub_positions ub q = {ub_pos ub ! i | i. i < ub_n_tokens ub \<and> q \<in> set (ub_seq_id ub ! i)}"

lemma placed_held:
  assumes wf: "kv_wf kv" and si: "slot_ok kv n si" and swa: "no_swa kv" and ub: "ub_toks_ok kv n si ub"
    and p: "placed kv n si ub (\<lambda>a b. a < si_n_stream si \<and> b < n) (cs, rmax)"
    and q: "q < length (kv_seq_to_stream kv)" and tot: "ub_n_tokens ub = si_n_stream si * n"
  shows "cells_held (cs ! (kv_seq_to_stream kv ! q)) q = kv_held kv q \<union> ub_positions ub q"
proof -
  let ?t = "kv_seq_to_stream kv ! q"
  have t: "?t < kv_n_stream kv" by (rule kv_wf_seq [OF wf q])
  have "stream_ok kv ?t (cs ! ?t)" using p t by (simp add: placed_def)
  then have size: "cells_size (cs ! ?t) = kv_get_size kv" unfolding stream_ok_def by blast
  note c0 = kv_wf_table [OF wf t]
  have tok: "cell (cs ! (si_strm si ! s)) (si_idxs si ! s ! ii) =
      tok_cell ub (s * n + ii) (cell (kv_cells kv ! (si_strm si ! s)) (si_idxs si ! s ! ii))"
    if "s < si_n_stream si" "ii < n" for s ii using p that by (simp add: placed_def)
  have frame: "cell (cs ! ?t) i = cell (kv_cells kv ! ?t) i"
    if "i < kv_get_size kv" "\<And>s. s < si_n_stream si \<Longrightarrow> si_strm si ! s = ?t \<Longrightarrow> i \<notin> set (si_idxs si ! s)" for i
    using p t that slot_lt(3) [OF si] unfolding placed_def fst_conv by blast
  have new: "x \<in> kv_held kv q \<union> ub_positions ub q" if x: "x \<in> cells_held (cs ! ?t) q" for x
  proof -
    obtain i where i: "i < kv_get_size kv" "q \<in> snd (snd (snd (cell (cs ! ?t) i)))" "x = fst (cell (cs ! ?t) i)"
      using x by (auto simp: cells_held_def size)
    show ?thesis
    proof (cases "\<exists>s < si_n_stream si. si_strm si ! s = ?t \<and> i \<in> set (si_idxs si ! s)")
      case True
      then obtain s where s: "s < si_n_stream si" "si_strm si ! s = ?t" "i \<in> set (si_idxs si ! s)" by blast
      moreover have "length (si_idxs si ! s) = n" using si s(1) by (simp add: slot_ok_def)
      ultimately obtain ii where ii: "ii < n" "i = si_idxs si ! s ! ii" by (auto simp: in_set_conv_nth)
      have "s * n + ii < ub_n_tokens ub"
        unfolding tot using ii(1) mult_le_mono1 [OF Suc_leI [OF s(1)], of n] by simp
      moreover have "x = ub_pos ub ! (s * n + ii)" "q \<in> set (ub_seq_id ub ! (s * n + ii))"
        using tok [OF s(1) ii(1)] i s(2) ii(2) by (simp_all add: tok_cell_def)
      ultimately show ?thesis unfolding ub_positions_def by blast
    next
      case False
      then have "cell (cs ! ?t) i = cell (kv_cells kv ! ?t) i" using frame i(1) by blast
      then show ?thesis using i kv_held_eq [OF wf q] by (auto simp: cells_held_def c0(2))
    qed
  qed
  have old: "x \<in> cells_held (cs ! ?t) q" if x: "x \<in> kv_held kv q" for x
  proof -
    obtain i where i: "i < kv_get_size kv" "q \<in> kc_seq (kv_cells kv ! ?t) ! i" "x = kc_pos (kv_cells kv ! ?t) ! i"
      using x by (auto simp: kv_held_def)
    then have "kc_pos (kv_cells kv ! ?t) ! i \<noteq> -1" using cells_wf_empty_seq [OF c0(1)] c0(2) by auto
    then have "cell (cs ! ?t) i = cell (kv_cells kv ! ?t) i"
      using slot_ok_empty [OF si swa] i(1) by (intro frame) metis+
    then show ?thesis
      using i by (auto simp: cells_held_def size cell_def intro!: image_eqI [of _ _ i])
  qed
  have "ub_pos ub ! i \<in> cells_held (cs ! ?t) q" if i: "i < ub_n_tokens ub" "q \<in> set (ub_seq_id ub ! i)" for i
  proof -
    have n: "0 < n" using i(1) tot by (cases n) simp_all
    then have d: "i div n < si_n_stream si" "i mod n < n" "i div n * n + i mod n = i"
      using i(1) tot by (simp_all add: less_mult_imp_div_less)
    have "si_strm si ! (i div n) = ?t" using ub d i(2) unfolding ub_toks_ok_def tok_ok_def by metis
    moreover note tok [OF d(1,2)] slot_lt [OF si d(1,2)]
    ultimately have "cell (cs ! ?t) (si_idxs si ! (i div n) ! (i mod n)) = tok_cell ub i
        (cell (kv_cells kv ! ?t) (si_idxs si ! (i div n) ! (i mod n)))" "si_idxs si ! (i div n) ! (i mod n) < kv_get_size kv"
      using d(3) by simp_all
    then show ?thesis
      using i(2) by (auto simp: cells_held_def size tok_cell_def intro!: image_eqI [of _ _ "si_idxs si ! (i div n) ! (i mod n)"])
  qed
  then have "ub_positions ub q \<subseteq> cells_held (cs ! ?t) q" by (auto simp: ub_positions_def)
  with new old show ?thesis by blast
qed

lemma apply_ubatch_empty:
  assumes wf: "kv_wf kv" and swa: "no_swa kv" and si: "slot_ok kv n si" and n: "0 < n"
    and ub: "ub_toks_ok kv n si ub" and tot: "ub_n_tokens ub = si_n_stream si * n"
  shows "\<exists>cs. apply_ubatch si ub kv = Inr (kv\<lparr>kv_cells := cs, kv_heads := move_heads si (kv_heads kv)\<rparr>) \<and>
    kv_wf (kv\<lparr>kv_cells := cs, kv_heads := move_heads si (kv_heads kv)\<rparr>) \<and> undoable kv si cs \<and>
    (\<forall>q < length (kv_seq_to_stream kv).
       kv_held (kv\<lparr>kv_cells := cs, kv_heads := move_heads si (kv_heads kv)\<rparr>) q = kv_held kv q \<union> ub_positions ub q)"
proof -
  obtain cs rmax where e: "emplace_all si ub n (kv_cells kv) = (cs, rmax)" by (cases "emplace_all si ub n (kv_cells kv)")
  let ?kv = "kv\<lparr>kv_cells := cs, kv_heads := move_heads si (kv_heads kv)\<rparr>"
  have p: "placed kv n si ub (\<lambda>a b. a < si_n_stream si \<and> b < n) (cs, rmax)"
    using emplace_all_placed [OF wf si ub] by (simp add: e)
  have r: "rmax = (\<lambda>_. -1)" using p slot_ok_empty [OF si swa] by (simp add: placed_def)
  have eq: "apply_ubatch si ub kv = Inr ?kv"
    using apply_ubatch_eq [OF si, of ub] e r
      purge_loop_none [of "[0..<LLAMA_MAX_SEQ]" "\<lambda>_. -1" "kv\<lparr>kv_cells := cs\<rparr>"] by simp
  then have wf': "kv_wf ?kv" using apply_ubatch_keeps [OF wf si n ub] by simp
  have "map kc_has_shift cs = map kc_has_shift (kv_cells kv)"
    using emplace_all_has_shift [of si ub n "kv_cells kv"] e by simp
  then have "undoable kv si cs" by (rule placed_undoable [OF wf si swa p])
  moreover have "kv_held ?kv q = kv_held kv q \<union> ub_positions ub q" if "q < length (kv_seq_to_stream kv)" for q
    using placed_held [OF wf si swa ub p that tot] kv_held_eq [OF wf', of q] that by simp
  ultimately show ?thesis using eq wf' by auto
qed

section \<open>One step of the dry run\<close>

text \<open>
  The micro-batches a cache is given: known sequences, and the tokens of the \<open>s\<close>-th sequence
  (of the whole micro-batch when there is one stream) belong to the stream of that sequence.
\<close>

definition ub_fits :: "'d kv_cache \<Rightarrow> llama_ubatch \<Rightarrow> bool" where
  "ub_fits kv ub \<longleftrightarrow> ub_seqs_ok kv ub \<and>
     (\<forall>s < (if kv_n_stream kv > 1 then ub_n_seqs_unq ub else 1). \<forall>ii < ub_per_stream kv ub.
        tok_ok kv ub (s * ub_per_stream kv ub + ii) (kv_seq_to_stream kv ! (ub_seq_id_unq ub ! s)))"

lemma ub_fits_cong:
  "kv_seq_to_stream kv' = kv_seq_to_stream kv \<Longrightarrow> kv_n_stream kv' = kv_n_stream kv \<Longrightarrow> ub_fits kv' ub = ub_fits kv ub"
  by (simp add: ub_fits_def ub_seqs_ok_def ub_per_stream_def tok_ok_def)

lemma place_one:
  assumes wf: "kv_wf kv" and swa: "no_swa kv" and fit: "ub_fits kv ub"
    and f: "find_slot ub False kv = Some (Inr si)" "\<not> si_empty si"
  shows "\<exists>cs. apply_ubatch si ub kv = Inr (kv\<lparr>kv_cells := cs, kv_heads := move_heads si (kv_heads kv)\<rparr>) \<and>
    kv_wf (kv\<lparr>kv_cells := cs, kv_heads := move_heads si (kv_heads kv)\<rparr>) \<and> undoable kv si cs \<and>
    slot_ok kv (ub_per_stream kv ub) si \<and>
    (kv_n_stream kv = 1 \<longrightarrow> si_strm si = [0]) \<and>
    (\<forall>q < length (kv_seq_to_stream kv).
       kv_held (kv\<lparr>kv_cells := cs, kv_heads := move_heads si (kv_heads kv)\<rparr>) q = kv_held kv q \<union> ub_positions ub q)"
proof -
  define n where "n = ub_per_stream kv ub"
  let ?k = "if kv_n_stream kv > 1 then ub_n_seqs_unq ub else 1"
  have useq: "ub_seqs_ok kv ub" using fit by (simp add: ub_fits_def)
  have si: "slot_ok kv n si" and strm: "si_strm si = map (\<lambda>s. kv_seq_to_stream kv ! (ub_seq_id_unq ub ! s)) [0..<?k]"
    using find_slot_ok [OF wf useq] f by (auto simp: n_def)
  have k: "si_n_stream si = ?k" using strm by (simp add: si_n_stream_def)
  have "kv_n_stream kv > 1 \<Longrightarrow> ub_n_tokens ub mod ub_n_seqs_unq ub = 0"
    using f(1) by (auto simp: find_slot_def split: if_splits)
  then have tot: "ub_n_tokens ub = si_n_stream si * n" unfolding k n_def ub_per_stream_def by auto
  have n0: "0 < n" using tot useq by (cases n) (simp_all add: ub_seqs_ok_def)
  have ub: "ub_toks_ok kv n si ub" using fit strm k by (auto simp: ub_toks_ok_def ub_fits_def n_def)
  moreover have "si_strm si = [0]" if "kv_n_stream kv = 1"
    using strm that si k by (simp add: slot_ok_def)
  ultimately show ?thesis
    using apply_ubatch_empty [OF wf swa si n0 ub tot] si by (auto simp: n_def)
qed

section \<open>The dry run\<close>

lemma prepare_place_result:
  fixes kv :: "'d kv_cache"
  assumes "kv_wf kv" "no_swa kv" "\<And>ub. ub \<in> set ubs \<Longrightarrow> ub_fits kv ub"
    and "prepare_place ubs states kv = Some (Inr (succ, states', kv'))"
  shows "\<exists>new hs. states' = states @ new \<and> length hs = kv_n_stream kv \<and>
    fold restore_state (rev new) kv' = kv\<lparr>kv_heads := hs\<rparr> \<and> (kv_n_stream kv = 1 \<longrightarrow> hs = kv_heads kv) \<and>
    (succ \<longrightarrow> length new = length ubs)"
  using assms
proof (induction ubs arbitrary: states kv)
  case Nil
  then show ?case using kv_wf_heads(3) by (intro exI [of _ "[]"] exI [of _ "kv_heads kv"]) auto
next
  case (Cons ub ubs)
  obtain si where f: "find_slot ub False kv = Some (Inr si)"
    using Cons.prems(4) by (auto split: option.splits sum.splits)
  show ?case
  proof (cases "si_empty si")
    case True
    then show ?thesis
      using Cons.prems(4) kv_wf_heads(3) [OF Cons.prems(1)] f
      by (intro exI [of _ "[]"] exI [of _ "kv_heads kv"]) auto
  next
    case False
    obtain cs where cs: "apply_ubatch si ub kv = Inr (kv\<lparr>kv_cells := cs, kv_heads := move_heads si (kv_heads kv)\<rparr>)"
      "kv_wf (kv\<lparr>kv_cells := cs, kv_heads := move_heads si (kv_heads kv)\<rparr>)" "undoable kv si cs"
      "slot_ok kv (ub_per_stream kv ub) si" "kv_n_stream kv = 1 \<longrightarrow> si_strm si = [0]"
      using place_one [OF Cons.prems(1,2) _ f False] Cons.prems(3) by auto
    let ?kv = "kv\<lparr>kv_cells := cs, kv_heads := move_heads si (kv_heads kv)\<rparr>"
    have "\<exists>new hs. states' = (states @ [save_state si kv]) @ new \<and> length hs = kv_n_stream ?kv \<and>
      fold restore_state (rev new) kv' = ?kv\<lparr>kv_heads := hs\<rparr> \<and> (kv_n_stream ?kv = 1 \<longrightarrow> hs = kv_heads ?kv) \<and>
      (succ \<longrightarrow> length new = length ubs)"
    proof (rule Cons.IH [OF cs(2)])
      show "no_swa ?kv" using Cons.prems(2) by (simp add: no_swa_def)
      show "ub_fits ?kv u" if "u \<in> set ubs" for u
        using Cons.prems(3) [of u] that ub_fits_cong [of ?kv kv u] by simp
      show "prepare_place ubs (states @ [save_state si kv]) ?kv = Some (Inr (succ, states', kv'))"
        using Cons.prems(4) f False cs(1) by simp
    qed
    then obtain new hs where new: "states' = states @ save_state si kv # new" "length hs = kv_n_stream kv"
      "fold restore_state (rev new) kv' = kv\<lparr>kv_cells := cs, kv_heads := hs\<rparr>" "succ \<longrightarrow> length new = length ubs"
      by auto
    let ?hs = "fold (\<lambda>s h. h[si_strm si ! s := kv_heads kv ! s]) [0..<si_n_stream si] hs"
    have "fold restore_state (rev (save_state si kv # new)) kv' = kv\<lparr>kv_heads := ?hs\<rparr>"
      using restore_undoes [OF Cons.prems(1) cs(4,3), of hs] new(3) by simp
    moreover have "length (fold (\<lambda>s h. h[si_strm si ! s := kv_heads kv ! s]) js h) = length h" for js h
      by (induction js arbitrary: h) simp_all
    moreover have "?hs = kv_heads kv" if one: "kv_n_stream kv = 1"
    proof -
      obtain a b where "hs = [a]" "kv_heads kv = [b]"
        using new(2) kv_wf_heads(3) [OF Cons.prems(1)] one by (auto simp: length_Suc_conv)
      then show ?thesis using cs(5) one by (simp add: si_n_stream_def)
    qed
    ultimately show ?thesis
      using new by (intro exI [of _ "save_state si kv # new"] exI [of _ ?hs]) simp
  qed
qed

text \<open>Applying the slots one by one, as the decoder does.\<close>

fun apply_each :: "slot_info list \<Rightarrow> llama_ubatch list \<Rightarrow> 'd kv_cache \<Rightarrow> 'd kv_cache res" where
  "apply_each (si # sis) (ub # ubs) kv = bind_res (apply_ubatch si ub kv) (apply_each sis ubs)"
| "apply_each _ _ kv = Inr kv"

text \<open>
  A run in which every step succeeds, keeps the cache well formed and adds the positions of its
  micro-batch.
\<close>

fun good_run :: "slot_info list \<Rightarrow> llama_ubatch list \<Rightarrow> 'd kv_cache \<Rightarrow> bool" where
  "good_run [] [] kv \<longleftrightarrow> True"
| "good_run (si # sis) (ub # ubs) kv \<longleftrightarrow> (\<exists>kv'. apply_ubatch si ub kv = Inr kv' \<and> kv_wf kv' \<and>
     kv_seq_to_stream kv' = kv_seq_to_stream kv \<and> kv_n_stream kv' = kv_n_stream kv \<and>
     (\<forall>q < length (kv_seq_to_stream kv). kv_held kv' q = kv_held kv q \<union> ub_positions ub q) \<and> good_run sis ubs kv')"
| "good_run _ _ kv \<longleftrightarrow> False"

lemma good_run_length: "good_run sis ubs kv \<Longrightarrow> length sis = length ubs"
  by (induction sis ubs kv rule: good_run.induct) auto

lemma good_run_apply_each:
  "good_run sis ubs kv \<Longrightarrow> kv_wf kv \<Longrightarrow> \<exists>kv'. apply_each sis ubs kv = Inr kv' \<and> kv_wf kv' \<and>
     kv_seq_to_stream kv' = kv_seq_to_stream kv \<and>
     (\<forall>q < length (kv_seq_to_stream kv). kv_held kv' q = kv_held kv q \<union> (\<Union>ub \<in> set ubs. ub_positions ub q))"
proof (induction sis ubs kv rule: good_run.induct)
  case (2 si sis ub ubs kv)
  then obtain kv1 where kv1: "apply_ubatch si ub kv = Inr kv1" "kv_wf kv1" "kv_seq_to_stream kv1 = kv_seq_to_stream kv"
    "\<forall>q < length (kv_seq_to_stream kv). kv_held kv1 q = kv_held kv q \<union> ub_positions ub q" "good_run sis ubs kv1"
    by auto
  then obtain kv2 where "apply_each sis ubs kv1 = Inr kv2" "kv_wf kv2" "kv_seq_to_stream kv2 = kv_seq_to_stream kv1"
    "\<forall>q < length (kv_seq_to_stream kv1). kv_held kv2 q = kv_held kv1 q \<union> (\<Union>ub \<in> set ubs. ub_positions ub q)"
    using "2.IH" by blast
  then show ?case using kv1 by (intro exI [of _ kv2]) auto
qed auto

lemma prepare_place_apply:
  assumes "kv_wf kv" "no_swa kv" "\<And>ub. ub \<in> set ubs \<Longrightarrow> ub_fits kv ub"
    and "prepare_place ubs states kv = Some (Inr (True, states', kv'))"
  shows "\<exists>new. states' = states @ new \<and> good_run (map fst new) ubs kv"
  using assms
proof (induction ubs arbitrary: states kv)
  case Nil
  then show ?case by auto
next
  case (Cons ub ubs)
  obtain si where f: "find_slot ub False kv = Some (Inr si)"
    using Cons.prems(4) by (auto split: option.splits sum.splits)
  then have ne: "\<not> si_empty si" using Cons.prems(4) by auto
  obtain cs where cs: "apply_ubatch si ub kv = Inr (kv\<lparr>kv_cells := cs, kv_heads := move_heads si (kv_heads kv)\<rparr>)"
    "kv_wf (kv\<lparr>kv_cells := cs, kv_heads := move_heads si (kv_heads kv)\<rparr>)"
    "\<forall>q < length (kv_seq_to_stream kv).
       kv_held (kv\<lparr>kv_cells := cs, kv_heads := move_heads si (kv_heads kv)\<rparr>) q = kv_held kv q \<union> ub_positions ub q"
    using place_one [OF Cons.prems(1,2) _ f ne] Cons.prems(3) by auto
  let ?kv = "kv\<lparr>kv_cells := cs, kv_heads := move_heads si (kv_heads kv)\<rparr>"
  have "\<exists>new. states' = (states @ [save_state si kv]) @ new \<and> good_run (map fst new) ubs ?kv"
  proof (rule Cons.IH [OF cs(2)])
    show "no_swa ?kv" using Cons.prems(2) by (simp add: no_swa_def)
    show "ub_fits ?kv u" if "u \<in> set ubs" for u
      using Cons.prems(3) [of u] that ub_fits_cong [of ?kv kv u] by simp
    show "prepare_place ubs (states @ [save_state si kv]) ?kv = Some (Inr (True, states', kv'))"
      using Cons.prems(4) f ne cs(1) by simp
  qed
  then obtain new where new: "states' = states @ save_state si kv # new" "good_run (map fst new) ubs ?kv" by auto
  then show ?case
    using cs by (intro exI [of _ "save_state si kv # new"]) (simp add: save_state_def)
qed

lemma prepare_returns:
  assumes "kv_wf kv" "no_swa kv" "\<And>ub. ub \<in> set ubs \<Longrightarrow> ub_fits kv ub"
  shows "\<exists>r. prepare_place ubs states kv = Some r"
  using assms
proof (induction ubs arbitrary: states kv)
  case (Cons ub ubs)
  obtain r where f: "find_slot ub False kv = Some r"
    using find_slot_ok [OF Cons.prems(1), of ub] Cons.prems(3) [of ub] by (auto simp: ub_fits_def)
  show ?case
  proof (cases "\<exists>si. r = Inr si \<and> \<not> si_empty si")
    case True
    then obtain si where si: "r = Inr si" "\<not> si_empty si" by blast
    obtain cs where cs: "apply_ubatch si ub kv = Inr (kv\<lparr>kv_cells := cs, kv_heads := move_heads si (kv_heads kv)\<rparr>)"
      "kv_wf (kv\<lparr>kv_cells := cs, kv_heads := move_heads si (kv_heads kv)\<rparr>)"
      using place_one [OF Cons.prems(1,2) _ f [unfolded si(1)] si(2)] Cons.prems(3) by auto
    let ?kv = "kv\<lparr>kv_cells := cs, kv_heads := move_heads si (kv_heads kv)\<rparr>"
    have "\<exists>r. prepare_place ubs (states @ [save_state si kv]) ?kv = Some r"
      using Cons.prems(2,3) ub_fits_cong [of ?kv kv] by (intro Cons.IH [OF cs(2)]) (simp_all add: no_swa_def)
    then show ?thesis using f si cs(1) by simp
  next
    case False
    then show ?thesis using f by (auto split: sum.splits)
  qed
qed simp

section \<open>Micro-batches of an accepted batch\<close>

text \<open>
  What a caller has to supply of a batch beyond what initialisation checks: every token has at
  least one sequence, each id once, all known to the cache, and as many ids as it says.
\<close>

definition batch_ok :: "nat \<Rightarrow> llama_batch_allocr \<Rightarrow> bool" where
  "batch_ok n_ids a \<longleftrightarrow> 1 \<le> ba_n_pos_per_embd a \<and> ba_n_seq_max a \<le> n_ids \<and>
     (\<forall>i < ba_get_n_tokens a. 0 \<le> batch_pos (ba_batch a) i \<and> batch_seqs (ba_batch a) i \<noteq> [] \<and>
        distinct (batch_seqs (ba_batch a) i) \<and>
        the (b_n_seq_id (ba_batch a)) ! i = length (batch_seqs (ba_batch a) i) \<and>
        (\<forall>q \<in> set (batch_seqs (ba_batch a) i). q < ba_n_seq_max a))"

lemma unq_ids_fst: "fst (unq_ids n unq (ids, idx)) = ids @ filter (\<lambda>s. s \<in> unq) [0..<n]"
  by (induction n) (auto simp: unq_ids_def split: prod.splits)

lemma ub_of_fields:
  assumes "ub_of a ub idxs" "1 \<le> ba_n_pos_per_embd a" "i < length idxs"
  shows "ub_n_tokens ub = length idxs" "ub_pos ub ! i = batch_pos (ba_batch a) (idxs ! i)"
    "ub_seq_id ub ! i = batch_seqs (ba_batch a) (idxs ! i)"
    "ub_n_seq_id ub ! i = the (b_n_seq_id (ba_batch a)) ! (idxs ! i)"
    "ub_seq_id_unq ub = filter (\<lambda>s. \<exists>j \<in> set idxs. s \<in> set (batch_seqs (ba_batch a) j)) [0..<ba_n_seq_max a]"
    "ub_n_seqs_unq ub = length (ub_seq_id_unq ub)"
proof -
  have ub: "ub = fst (ubatch_add a idxs (ub_n_seqs ub) (ub_equal_seqs ub))" using assms(1) by (simp add: ub_of_def)
  obtain k where k: "ba_n_pos_per_embd a = Suc k" using assms(2) by (cases "ba_n_pos_per_embd a") auto
  have seg: "concat (map (\<lambda>j. map (\<lambda>i. f j i) idxs) [0..<Suc k]) ! i = f 0 (idxs ! i)" for f :: "nat \<Rightarrow> nat \<Rightarrow> llama_pos"
    using assms(3) by (subst upt_conv_Cons) (simp_all add: nth_append)
  show "ub_n_tokens ub = length idxs" "ub_pos ub ! i = batch_pos (ba_batch a) (idxs ! i)"
    "ub_seq_id ub ! i = batch_seqs (ba_batch a) (idxs ! i)"
    "ub_n_seq_id ub ! i = the (b_n_seq_id (ba_batch a)) ! (idxs ! i)"
    "ub_seq_id_unq ub = filter (\<lambda>s. \<exists>j \<in> set idxs. s \<in> set (batch_seqs (ba_batch a) j)) [0..<ba_n_seq_max a]"
    "ub_n_seqs_unq ub = length (ub_seq_id_unq ub)"
    by (subst ub, use assms(3) in \<open>simp add: ubatch_add_def Let_def unq_ids_fst k seg batch_pos_def del: upt_Suc split: option.splits\<close>)+
qed

lemma batch_ub_fits:
  assumes wf: "kv_wf kv" and one: "kv_n_stream kv = 1" and ok: "batch_ok (length (kv_seq_to_stream kv)) a"
    and ub: "ub_of a ub idxs" and idxs: "set idxs \<subseteq> {..<ba_get_n_tokens a}"
  shows "ub_fits kv ub"
proof -
  have ne: "0 < length idxs" using ub by (simp add: ub_of_def)
  note n1 = ok [unfolded batch_ok_def, THEN conjunct1]
  note f = ub_of_fields [OF ub n1]
  have mem: "idxs ! i < ba_get_n_tokens a" if "i < length idxs" for i using idxs that by (auto simp: subset_iff)
  have tok: "0 \<le> batch_pos (ba_batch a) j" "batch_seqs (ba_batch a) j \<noteq> []" "distinct (batch_seqs (ba_batch a) j)"
    "the (b_n_seq_id (ba_batch a)) ! j = length (batch_seqs (ba_batch a) j)"
    "\<forall>q \<in> set (batch_seqs (ba_batch a) j). q < ba_n_seq_max a"
    if "j < ba_get_n_tokens a" for j using ok that by (simp_all add: batch_ok_def)
  have len: "ba_n_seq_max a \<le> length (kv_seq_to_stream kv)" using ok by (simp add: batch_ok_def)
  have zero: "kv_seq_to_stream kv ! q = 0" if "q < length (kv_seq_to_stream kv)" for q
    using kv_wf_seq [OF wf that] one by simp
  obtain q where q: "q \<in> set (batch_seqs (ba_batch a) (idxs ! 0))" using tok(2) [OF mem [OF ne]] by (meson list.set_sel(1))
  then have "q \<in> set (ub_seq_id_unq ub)" using f(5) [OF ne] tok(5) [OF mem [OF ne]] ne by auto
  then have unq: "ub_seq_id_unq ub \<noteq> []" by auto
  have bound: "s < length (kv_seq_to_stream kv)" if "s \<in> set (ub_seq_id_unq ub)" for s
    using that f(5) [OF ne] len by auto
  have "tok_ok kv ub i 0" if i: "i < length idxs" for i
    using tok [OF mem [OF i]] f(2-4) [OF i] len by (auto simp: tok_ok_def intro!: zero)
  moreover have "kv_seq_to_stream kv ! (ub_seq_id_unq ub ! 0) = 0"
    using zero bound unq by (simp add: hd_conv_nth [symmetric])
  moreover have "ub_seqs_ok kv ub"
    unfolding ub_seqs_ok_def using f(1,6) [OF ne] ne unq bound f(5) [OF ne] by simp
  ultimately show ?thesis using one f(1) [OF ne] by (simp add: ub_fits_def ub_per_stream_def)
qed

definition batch_positions :: "llama_batch_allocr \<Rightarrow> nat \<Rightarrow> llama_pos set" where
  "batch_positions a q = batch_pos (ba_batch a) ` {i. i < ba_get_n_tokens a \<and> q \<in> set (batch_seqs (ba_batch a) i)}"

lemma batch_positions_code [code]:
  "batch_positions a q = set (map (batch_pos (ba_batch a))
     (filter (\<lambda>i. q \<in> set (batch_seqs (ba_batch a) i)) [0..<ba_get_n_tokens a]))"
  unfolding batch_positions_def by auto

lemma ub_of_positions:
  assumes "ub_of a ub idxs" "1 \<le> ba_n_pos_per_embd a"
  shows "ub_positions ub q = batch_pos (ba_batch a) ` {i \<in> set idxs. q \<in> set (batch_seqs (ba_batch a) i)}"
proof -
  have "idxs \<noteq> []" using assms(1) by (simp add: ub_of_def)
  then have n: "ub_n_tokens ub = length idxs" using ub_of_fields(1) [OF assms, of 0] by simp
  note f = ub_of_fields(2,3) [OF assms]
  have "ub_positions ub q = {batch_pos (ba_batch a) (idxs ! i) | i. i < length idxs \<and> q \<in> set (batch_seqs (ba_batch a) (idxs ! i))}"
    unfolding ub_positions_def n using f by metis
  also have "\<dots> = batch_pos (ba_batch a) ` {i \<in> set idxs. q \<in> set (batch_seqs (ba_batch a) i)}"
    by (force simp: in_set_conv_nth)
  finally show ?thesis .
qed

lemma split_positions:
  assumes l: "list_all2 (ub_of a) ubs idxss" and n: "1 \<le> ba_n_pos_per_embd a"
    and all: "set (concat idxss) = {..<ba_get_n_tokens a}"
  shows "(\<Union>ub \<in> set ubs. ub_positions ub q) = batch_positions a q"
proof -
  have "(\<Union>ub \<in> set ubs. ub_positions ub q) =
      batch_pos (ba_batch a) ` {i \<in> set (concat idxss). q \<in> set (batch_seqs (ba_batch a) i)}"
    using l
  proof (induction ubs idxss rule: list_all2_induct)
    case (Cons ub ubs idxs idxss)
    then show ?case using ub_of_positions [OF Cons(1) n] by (simp add: image_Un [symmetric]) (rule arg_cong, blast)
  qed simp
  then show ?thesis unfolding batch_positions_def all by simp
qed

text \<open>With one stream no assertion of the search can fail.\<close>

lemma find_slot_single: "kv_n_stream kv = 1 \<Longrightarrow> find_slot ub cont kv \<noteq> Some (Inl e)"
  by (auto simp: find_slot_def Let_def split: option.splits)

lemma prepare_place_single:
  assumes "kv_wf kv" "no_swa kv" "kv_n_stream kv = 1" "\<And>ub. ub \<in> set ubs \<Longrightarrow> ub_fits kv ub"
  shows "prepare_place ubs states kv \<noteq> Some (Inl e)"
  using assms
proof (induction ubs arbitrary: states kv)
  case (Cons ub ubs)
  show ?case
  proof
    assume a: "prepare_place (ub # ubs) states kv = Some (Inl e)"
    then obtain si where f: "find_slot ub False kv = Some (Inr si)"
      using find_slot_single [OF Cons.prems(3)] by (auto split: option.splits sum.splits)
    then have ne: "\<not> si_empty si" using a by auto
    obtain cs where cs: "apply_ubatch si ub kv = Inr (kv\<lparr>kv_cells := cs, kv_heads := move_heads si (kv_heads kv)\<rparr>)"
      "kv_wf (kv\<lparr>kv_cells := cs, kv_heads := move_heads si (kv_heads kv)\<rparr>)"
      using place_one [OF Cons.prems(1,2) _ f ne] Cons.prems(4) by auto
    let ?kv = "kv\<lparr>kv_cells := cs, kv_heads := move_heads si (kv_heads kv)\<rparr>"
    have "prepare_place ubs (states @ [save_state si kv]) ?kv \<noteq> Some (Inl e)"
      using Cons.prems(2-4) ub_fits_cong [of ?kv kv] by (intro Cons.IH [OF cs(2)]) (simp_all add: no_swa_def)
    then show False using a f ne cs(1) by simp
  qed
qed simp

text \<open>What \<open>prepare\<close> returns for a cache with one stream and no sliding window.\<close>

lemma prepare_single:
  assumes wf: "kv_wf kv" and swa: "no_swa kv" and one: "kv_n_stream kv = 1"
    and fit: "\<And>ub. ub \<in> set ubs \<Longrightarrow> ub_fits kv ub" and ne: "ubs \<noteq> []"
  shows "\<exists>sis. prepare ubs kv = Some (Inr (sis, kv)) \<and> (sis \<noteq> [] \<longrightarrow> good_run sis ubs kv)"
proof -
  obtain r where r: "prepare_place ubs [] kv = Some r" using prepare_returns [OF wf swa fit] by blast
  moreover have "\<not> (\<exists>e. r = Inl e)" using prepare_place_single [OF wf swa one fit] r by blast
  ultimately obtain succ states kv' where p: "prepare_place ubs [] kv = Some (Inr (succ, states, kv'))"
    by (cases r) (auto simp: split_paired_all)
  have undo: "fold restore_state (rev states) kv' = kv" "succ \<longrightarrow> length states = length ubs"
    using prepare_place_result [OF wf swa fit p] one by auto
  have st: "succ \<Longrightarrow> states \<noteq> []" using undo(2) ne by auto
  show ?thesis
  proof (cases succ)
    case True
    then have "good_run (map fst states) ubs kv"
      using prepare_place_apply [OF wf swa fit, of ubs "[]" states kv'] p by auto
    then show ?thesis
      using p undo st True by (intro exI [of _ "map fst states"]) (simp add: prepare_def)
  next
    case False
    then show ?thesis using p undo by (intro exI [of _ "[]"]) (simp add: prepare_def)
  qed
qed

text \<open>From a batch to its contexts.\<close>

lemma init_batch_parts:
  assumes wf: "kv_wf kv" and swa: "no_swa kv" and one: "kv_n_stream kv = 1"
    and init: "batch_init inp n_vocab mem n_embd n_seq_max output_all a0 = Inr (True, a)"
    and ok: "batch_ok (length (kv_seq_to_stream kv)) a"
  shows "\<exists>cx a' idxss. kv_init_batch a n_ubatch kv = Some (Inr (cx, a', kv)) \<and>
    mset (concat idxss) = mset [0..<ba_get_n_tokens a] \<and>
    ba_out_ids a' = filter (\<lambda>i. batch_logit (ba_batch a) i \<noteq> 0) (concat idxss) \<and>
    (cx = kv_ctx_status LLAMA_MEMORY_STATUS_FAILED_PREPARE \<or>
     (cx_status cx = LLAMA_MEMORY_STATUS_SUCCESS \<and> cx_i_cur cx = 0 \<and> cx_ubatches cx \<noteq> [] \<and>
      list_all2 (ub_of a) (cx_ubatches cx) idxss \<and> good_run (cx_sinfos cx) (cx_ubatches cx) kv \<and>
      split_all (split_simple n_ubatch) [] (ba_split_reset a) = Some (cx_ubatches cx, a')))"
proof -
  have nonempty: "batch_seqs (ba_batch a) i \<noteq> []" if "i < ba_get_n_tokens a" for i
    using ok that by (simp add: batch_ok_def)
  note f = batch_init_fields [OF init]
  have reset: "ba_split_reset a = a"
    using f(8-10) by (simp add: ba_split_reset_def)
  note n1 = ok [unfolded batch_ok_def, THEN conjunct1]
  obtain ubs a' idxss where sp: "split_all (split_simple n_ubatch) [] a = Some (ubs, a')"
    "list_all2 (ub_of a) ubs idxss" "mset (concat idxss) = mset [0..<ba_get_n_tokens a]" "ba_n_used a' = ba_get_n_tokens a"
    "ba_out_ids a' = filter (\<lambda>i. batch_logit (ba_batch a) i \<noteq> 0) (concat idxss)"
    using simple.split_all_partition [OF batch_init_inv(3,2) [OF init nonempty] f(10), of n_ubatch] by blast
  have set: "set (concat idxss) = {..<ba_get_n_tokens a}"
    using mset_eq_setD [OF sp(3)] by (simp add: lessThan_atLeast0)
  have "ub_fits kv ub" if mem: "ub \<in> set ubs" for ub
  proof -
    obtain j where j: "j < length ubs" "ub = ubs ! j" using mem by (auto simp: in_set_conv_nth)
    then have "ub_of a ub (idxss ! j)" "j < length idxss" using sp(2) by (simp_all add: list_all2_conv_all_nth)
    moreover have "set (idxss ! j) \<subseteq> {..<ba_get_n_tokens a}" using set nth_mem [OF calculation(2)] by auto
    ultimately show ?thesis using batch_ub_fits [OF wf one ok] by blast
  qed
  moreover have ne: "ubs \<noteq> []" using set sp(2) f(1,2) by auto
  ultimately obtain sis where sis: "prepare ubs kv = Some (Inr (sis, kv))" "sis \<noteq> [] \<longrightarrow> good_run sis ubs kv"
    using prepare_single [OF wf swa one _ ne] by auto
  have "\<not> ba_get_n_used a' < ba_get_n_tokens a'"
  proof -
    have "\<exists>new a' idxss. split_all (split_simple n_ubatch) [] a = Some ([] @ new, a') \<and>
        ba_n_used a' = ba_get_n_tokens a \<and> ba_get_n_tokens a' = ba_get_n_tokens a"
      using simple.split_all_from [OF batch_init_inv(3) [OF init nonempty], of n_ubatch "[]"] by blast
    then show ?thesis using sp(1) by (auto simp: ba_get_n_used_def)
  qed
  then show ?thesis
    using sis ne sp(2,3,5) by (cases "sis = []")
      (auto simp: kv_init_batch_def one reset sp(1) kv_ctx_status_def)
qed

lemma init_batch_single:
  assumes wf: "kv_wf kv" and swa: "no_swa kv" and one: "kv_n_stream kv = 1"
    and init: "batch_init inp n_vocab mem n_embd n_seq_max output_all a0 = Inr (True, a)"
    and ok: "batch_ok (length (kv_seq_to_stream kv)) a"
  shows "\<exists>cx a'. kv_init_batch a n_ubatch kv = Some (Inr (cx, a', kv)) \<and>
    (cx = kv_ctx_status LLAMA_MEMORY_STATUS_FAILED_PREPARE \<or>
     (cx_status cx = LLAMA_MEMORY_STATUS_SUCCESS \<and> cx_i_cur cx = 0 \<and> cx_ubatches cx \<noteq> [] \<and>
      length (cx_sinfos cx) = length (cx_ubatches cx) \<and>
      (\<exists>kv'. apply_each (cx_sinfos cx) (cx_ubatches cx) kv = Inr kv' \<and> kv_wf kv' \<and>
         kv_seq_to_stream kv' = kv_seq_to_stream kv \<and>
         (\<forall>q < length (kv_seq_to_stream kv). kv_held kv' q = kv_held kv q \<union> batch_positions a q))))"
proof -
  note n1 = ok [unfolded batch_ok_def, THEN conjunct1]
  obtain cx a' idxss where cx: "kv_init_batch a n_ubatch kv = Some (Inr (cx, a', kv))"
    "mset (concat idxss) = mset [0..<ba_get_n_tokens a]"
    "cx = kv_ctx_status LLAMA_MEMORY_STATUS_FAILED_PREPARE \<or>
     (cx_status cx = LLAMA_MEMORY_STATUS_SUCCESS \<and> cx_i_cur cx = 0 \<and> cx_ubatches cx \<noteq> [] \<and>
      list_all2 (ub_of a) (cx_ubatches cx) idxss \<and> good_run (cx_sinfos cx) (cx_ubatches cx) kv)"
    using init_batch_parts [OF assms] by blast
  have set: "set (concat idxss) = {..<ba_get_n_tokens a}"
    using mset_eq_setD [OF cx(2)] by (simp add: lessThan_atLeast0)
  show ?thesis
  proof (cases "cx = kv_ctx_status LLAMA_MEMORY_STATUS_FAILED_PREPARE")
    case False
    then have l: "list_all2 (ub_of a) (cx_ubatches cx) idxss" and g: "good_run (cx_sinfos cx) (cx_ubatches cx) kv"
      using cx(3) by auto
    show ?thesis
      using cx(1,3) False good_run_length [OF g] good_run_apply_each [OF g wf] split_positions [OF l n1 set]
      by (intro exI [of _ cx] exI [of _ a']) auto
  qed (use cx(1) in blast)
qed

section \<open>Driving a context\<close>

text \<open>\<open>do \<dots> apply \<dots> while (next())\<close>, the loop every user of a context runs.\<close>

function ctx_run ::
    "('d kv_cache \<Rightarrow> 'd list option) \<Rightarrow> kv_cache_context \<Rightarrow> 'd kv_cache \<Rightarrow> 'd kv_cache res" where
  "ctx_run kshift cx kv =
    (case kv_ctx_apply kshift cx kv of
       Inl e \<Rightarrow> Inl e
     | Inr (ok, cx1, kv1) \<Rightarrow>
         (case kv_ctx_next cx1 of (again, cx2) \<Rightarrow>
            if again then ctx_run kshift cx2 kv1 else Inr kv1))"
  by pat_completeness auto

lemma kv_ctx_apply_frame:
  "kv_ctx_apply kshift cx kv = Inr (ok, cx', kv') \<Longrightarrow>
     cx_ubatches cx' = cx_ubatches cx \<and> cx_i_cur cx' = cx_i_cur cx \<and> cx_sinfos cx' = cx_sinfos cx"
  by (auto simp: kv_ctx_apply_def Let_def bind_res_Inr_iff split: if_splits)

termination ctx_run
  by (relation "measure (\<lambda>(ks, cx, kv). length (cx_ubatches cx) - cx_i_cur cx)")
    (auto simp: kv_ctx_next_def Let_def dest: kv_ctx_apply_frame)

declare ctx_run.simps [simp del]

lemma ctx_run_apply_each:
  assumes "length (cx_sinfos cx) = length (cx_ubatches cx)" "cx_i_cur cx < length (cx_ubatches cx)"
  shows "ctx_run kshift cx kv = apply_each (drop (cx_i_cur cx) (cx_sinfos cx)) (drop (cx_i_cur cx) (cx_ubatches cx)) kv"
  using assms
proof (induction kshift cx kv rule: ctx_run.induct)
  case (1 kshift cx kv)
  let ?i = "cx_i_cur cx"
  let ?si = "cx_sinfos cx ! ?i" and ?ub = "cx_ubatches cx ! ?i"
  have ne: "cx_ubatches cx \<noteq> []" using 1(3) by auto
  have d: "drop ?i (cx_sinfos cx) = ?si # drop (Suc ?i) (cx_sinfos cx)"
    "drop ?i (cx_ubatches cx) = ?ub # drop (Suc ?i) (cx_ubatches cx)"
    using 1(2,3) by (simp_all add: Cons_nth_drop_Suc)
  show ?case
  proof (cases "apply_ubatch ?si ?ub kv")
    case (Inl e)
    then show ?thesis using ne d by (subst ctx_run.simps) (simp add: kv_ctx_apply_def Let_def)
  next
    case (Inr kv')
    let ?cx1 = "cx\<lparr>cx_n_kv := kv_get_n_kv ?si kv'\<rparr>"
    let ?cx2 = "?cx1\<lparr>cx_i_cur := Suc ?i\<rparr>"
    have ap: "kv_ctx_apply kshift cx kv = Inr (True, ?cx1, kv')" using Inr ne by (simp add: kv_ctx_apply_def Let_def)
    have nx: "kv_ctx_next ?cx1 = (Suc ?i < length (cx_ubatches cx), ?cx2)" by (simp add: kv_ctx_next_def Let_def not_le)
    have eq: "ctx_run kshift cx kv = (if Suc ?i < length (cx_ubatches cx) then ctx_run kshift ?cx2 kv' else Inr kv')"
      by (subst ctx_run.simps) (simp add: ap nx)
    show ?thesis
    proof (cases "Suc ?i < length (cx_ubatches cx)")
      case True
      have "ctx_run kshift ?cx2 kv' = apply_each (drop (cx_i_cur ?cx2) (cx_sinfos ?cx2)) (drop (cx_i_cur ?cx2) (cx_ubatches ?cx2)) kv'"
        by (rule 1(1) [OF ap refl refl nx [symmetric]]) (use True 1(2) in simp_all)
      then show ?thesis using eq True d Inr by simp
    next
      case False
      then have "drop (Suc ?i) (cx_sinfos cx) = []" "drop (Suc ?i) (cx_ubatches cx) = []" using 1(2) by simp_all
      then show ?thesis using eq False d Inr by simp
    qed
  qed
qed

section \<open>A small run\<close>

text \<open>One token that belongs to two sequences.\<close>

definition run_batch :: llama_batch where
  "run_batch = \<lparr>b_n_tokens = 1, b_token = Some [5], b_embd = None, b_pos = Some [0],
     b_n_seq_id = Some [2], b_seq_id = Some [[0, 1]], b_logits = None\<rparr>"

definition run_allocr :: llama_batch_allocr where
  "run_allocr = snd (projr (batch_init run_batch 10 None 4 2 True (batch_allocr_new 1)))"

lemma run_init: "batch_init run_batch 10 None 4 2 True (batch_allocr_new 1) = Inr (True, run_allocr)"
proof -
  have "case batch_init run_batch 10 None 4 2 True (batch_allocr_new 1) of Inl e \<Rightarrow> False | Inr r \<Rightarrow> fst r"
    by code_simp
  then show ?thesis by (auto simp: run_allocr_def split: sum.splits)
qed

lemma demo_kv_fields:
  "no_swa demo_kv" "kv_n_stream demo_kv = 1" "length (kv_seq_to_stream demo_kv) = 256"
  "no_swa demo_kv2" "kv_n_stream demo_kv2 = 2" "length (kv_seq_to_stream demo_kv2) = 2"
  "kv_get_size demo_kv = 4" "kv_get_size demo_kv2 = 4"
  by code_simp+

lemma run_batch_ok: "batch_ok 256 run_allocr"
  by code_simp

lemma one_seq_fits:
  assumes "s < length (kv_seq_to_stream kv)" "ps \<noteq> []" "\<forall>p \<in> set ps. 0 \<le> p"
  shows "ub_fits kv (one_seq_ub s ps)"
  using assms by (auto simp: ub_fits_def ub_seqs_ok_def one_seq_ub_def ub_per_stream_def tok_ok_def)

section \<open>Properties\<close>

text \<open>
  C10. The dry run of a cache without a sliding window always ends, and it gives every cell back:
  only the heads of a cache with several streams can differ, and with one stream the cache is the
  one it was called with.
\<close>

theorem prepare_undoes:
  fixes kv :: "'d kv_cache"
  assumes "kv_wf kv" "no_swa kv" "\<And>ub. ub \<in> set ubs \<Longrightarrow> ub_fits kv ub"
  shows "\<exists>r. prepare ubs kv = Some r \<and> (\<forall>sis kv'. r = Inr (sis, kv') \<longrightarrow>
    kv' = kv\<lparr>kv_heads := kv_heads kv'\<rparr> \<and> (kv_n_stream kv = 1 \<longrightarrow> kv' = kv) \<and>
    (sis \<noteq> [] \<longrightarrow> length sis = length ubs))"
proof -
  obtain r where r: "prepare_place ubs [] kv = Some r" using prepare_returns [OF assms] by blast
  show ?thesis
  proof (cases r)
    case (Inl e)
    then show ?thesis using r by (simp add: prepare_def)
  next
    case (Inr x)
    then obtain succ states kv1 where x: "prepare_place ubs [] kv = Some (Inr (succ, states, kv1))"
      using r by (cases x) auto
    obtain hs where "fold restore_state (rev states) kv1 = kv\<lparr>kv_heads := hs\<rparr>"
      "kv_n_stream kv = 1 \<longrightarrow> hs = kv_heads kv" "succ \<longrightarrow> length states = length ubs"
      using prepare_place_result [OF assms x] by auto
    then show ?thesis using x by (cases "states = [] \<and> succ") (auto simp: prepare_def Let_def)
  qed
qed

theorem prepare_undoes_witness:
  "\<exists>sis. prepare [one_seq_ub 0 [0]] demo_kv = Some (Inr (sis, demo_kv)) \<and> sis \<noteq> []"
proof -
  have "\<exists>r. prepare [one_seq_ub 0 [0]] demo_kv = Some r \<and> (\<forall>sis kv'. r = Inr (sis, kv') \<longrightarrow>
      kv' = demo_kv\<lparr>kv_heads := kv_heads kv'\<rparr> \<and> (kv_n_stream demo_kv = 1 \<longrightarrow> kv' = demo_kv) \<and>
      (sis \<noteq> [] \<longrightarrow> length sis = length [one_seq_ub 0 [0]]))"
    using one_seq_fits [of 0 demo_kv "[0]"] demo_kv_fields(3)
    by (intro prepare_undoes demo_kv_wf demo_kv_fields) simp
  moreover have "case prepare [one_seq_ub 0 [0]] demo_kv of Some (Inr (sis, kv')) \<Rightarrow> sis \<noteq> [] | _ \<Rightarrow> False"
    by code_simp
  ultimately show ?thesis
    by (cases "prepare [one_seq_ub 0 [0]] demo_kv") (auto simp: demo_kv_fields split: sum.splits prod.splits)
qed

text \<open>
  From an accepted batch to the cache: for a cache with one stream and no sliding window,
  \<open>init_batch\<close> returns and leaves the cache as it is; unless it reports that the batch does not
  fit, the loop over its context ends without a fault in a well formed cache that holds of every
  sequence exactly what it held before and the positions the batch has for it.
\<close>

lemma init_batch_then_run:
  assumes "kv_wf kv" "no_swa kv" "kv_n_stream kv = 1"
    and "batch_init inp n_vocab mem n_embd n_seq_max output_all a0 = Inr (True, a)"
    and "batch_ok (length (kv_seq_to_stream kv)) a"
  shows "\<exists>cx a'. kv_init_batch a n_ubatch kv = Some (Inr (cx, a', kv)) \<and>
    (cx_status cx = LLAMA_MEMORY_STATUS_FAILED_PREPARE \<or>
     cx_status cx = LLAMA_MEMORY_STATUS_SUCCESS \<and>
     (\<exists>kv'. ctx_run kshift cx kv = Inr kv' \<and> kv_wf kv' \<and>
       (\<forall>q < length (kv_seq_to_stream kv). kv_held kv' q = kv_held kv q \<union> batch_positions a q)))"
proof -
  obtain cx a' where cx: "kv_init_batch a n_ubatch kv = Some (Inr (cx, a', kv))"
    "cx = kv_ctx_status LLAMA_MEMORY_STATUS_FAILED_PREPARE \<or>
     (cx_status cx = LLAMA_MEMORY_STATUS_SUCCESS \<and> cx_i_cur cx = 0 \<and> cx_ubatches cx \<noteq> [] \<and>
      length (cx_sinfos cx) = length (cx_ubatches cx) \<and>
      (\<exists>kv'. apply_each (cx_sinfos cx) (cx_ubatches cx) kv = Inr kv' \<and> kv_wf kv' \<and>
         kv_seq_to_stream kv' = kv_seq_to_stream kv \<and>
         (\<forall>q < length (kv_seq_to_stream kv). kv_held kv' q = kv_held kv q \<union> batch_positions a q)))"
    using init_batch_single [OF assms] by blast
  then show ?thesis
    using ctx_run_apply_each [of cx kshift kv]
    by (intro exI [of _ cx] exI [of _ a']) (auto simp: kv_ctx_status_def)
qed

text \<open>
  The dry run restores the head of stream \<open>strm[s]\<close> from \<open>v_heads_old[s]\<close>: with two streams, of
  which the first holds two tokens, a dry run for the second sequence leaves the head of the
  second, still empty stream at cell 2.
\<close>

lemma prepare_mixes_heads:
  "case prepare [one_seq_ub 1 [0]] (demo_kv2\<lparr>kv_heads := [2, 0]\<rparr>) of
     Some (Inr (sis, kv')) \<Rightarrow> map si_strm sis = [[1]] \<and> map si_idxs sis = [[[0]]] \<and> kv_heads kv' = [2, 2]
   | _ \<Rightarrow> False"
  by code_simp

text \<open>
  With a sliding window the dry run does not give everything back. Of the cache with a window
  of two, which holds the positions 2, 0, 1, 3 in this order, the token at position 4 takes the
  cell of position 2; placing it purges the positions up to 2, and only position 2 returns.
\<close>

lemma prepare_swa_purges:
  "case apply_ubatch \<lparr>si_s0 = 0, si_s1 = 0, si_strm = [0], si_idxs = [[0, 1, 2, 3]]\<rparr>
          (one_seq_ub 0 [2, 0, 1, 3]) demo_swa of
     Inl _ \<Rightarrow> False
   | Inr kv \<Rightarrow> (case prepare [one_seq_ub 0 [4]] kv of
       Some (Inr (sis, kv')) \<Rightarrow> kv_held kv 0 = {0, 1, 2, 3} \<and> map si_idxs sis = [[[0]]] \<and> kv_held kv' 0 = {2, 3}
     | _ \<Rightarrow> False)"
  by code_simp

end
