(* ===== verification/KvContract.thy ===== *)
theory KvContract
  imports KvPrepare
begin

text \<open>
  What the KV cache promises its users, as properties: the sequence operations of the memory
  interface in terms of the positions held of each sequence, on a cache that was filled by placing
  a micro-batch. The properties rest on the interpretation \<open>kv\<close> of the contract \<open>memory_i\<close> and on
  the specifications in \<open>KvCache\<close>.
\<close>

section \<open>A filled cache\<close>

text \<open>Sequence 0 with the positions 0, 1, 2 in a cache with one stream; the same in stream 0 of two.\<close>

definition fill :: "nat kv_cache \<Rightarrow> nat kv_cache" where
  "fill kv = projr (apply_ubatch \<lparr>si_s0 = 0, si_s1 = 0, si_strm = [0], si_idxs = [[0, 1, 2]]\<rparr> (one_seq_ub 0 [0, 1, 2]) kv)"

lemma one_seq_positions: "ub_positions (one_seq_ub s ps) q = (if q = s then set ps else {})"
proof -
  have "ub_positions (one_seq_ub s ps) q = {ps ! i | i. i < length ps \<and> q = s}"
    unfolding ub_positions_def one_seq_ub_def by auto
  then show ?thesis by (auto simp: set_conv_nth)
qed

lemma fill_props:
  assumes "kv_wf kv" "no_swa kv"
    and "slot_ok kv 3 \<lparr>si_s0 = 0, si_s1 = 0, si_strm = [0], si_idxs = [[0, 1, 2]]\<rparr>"
    and "ub_toks_ok kv 3 \<lparr>si_s0 = 0, si_s1 = 0, si_strm = [0], si_idxs = [[0, 1, 2]]\<rparr> (one_seq_ub 0 [0, 1, 2])"
  shows "kv_wf (fill kv)" "q < length (kv_seq_to_stream kv) \<Longrightarrow>
      kv_held (fill kv) q = kv_held kv q \<union> (if q = 0 then {0, 1, 2} else {})"
    "kv_seq_to_stream (fill kv) = kv_seq_to_stream kv" "kv_hparams (fill kv) = kv_hparams kv"
    "kv_n_stream (fill kv) = kv_n_stream kv" "kv_ssrc (fill kv) = kv_ssrc kv" "kv_sdst (fill kv) = kv_sdst kv"
  using apply_ubatch_empty [OF assms(1-3) _ assms(4)] one_seq_positions [of 0 "[0, 1, 2]"]
  by (auto simp: fill_def one_seq_ub_def si_n_stream_def)

lemma fill_demo:
  "slot_ok demo_kv 3 \<lparr>si_s0 = 0, si_s1 = 0, si_strm = [0], si_idxs = [[0, 1, 2]]\<rparr>"
  "ub_toks_ok demo_kv 3 \<lparr>si_s0 = 0, si_s1 = 0, si_strm = [0], si_idxs = [[0, 1, 2]]\<rparr> (one_seq_ub 0 [0, 1, 2])"
  "slot_ok demo_kv2 3 \<lparr>si_s0 = 0, si_s1 = 0, si_strm = [0], si_idxs = [[0, 1, 2]]\<rparr>"
  "ub_toks_ok demo_kv2 3 \<lparr>si_s0 = 0, si_s1 = 0, si_strm = [0], si_idxs = [[0, 1, 2]]\<rparr> (one_seq_ub 0 [0, 1, 2])"
  by code_simp+

lemmas filled = fill_props [OF demo_kv_wf(1) demo_kv_fields(1) fill_demo(1,2)]
lemmas filled2 = fill_props [OF demo_kv_wf(2) demo_kv_fields(4) fill_demo(3,4)]

lemma filled_wf: "kv_wf (fill demo_kv)" "kv_wf (fill demo_kv2)"
  using filled(1) filled2(1) by auto

lemma filled_held:
  "kv_held (fill demo_kv) 0 = {0, 1, 2}" "kv_held (fill demo_kv) 1 = {}"
  "kv_held (fill demo_kv2) 0 = {0, 1, 2}" "kv_held (fill demo_kv2) 1 = {}"
  using filled(2) filled2(2) demo_kv_fields demo_kv_new [THEN kv_cache_new_wf(2)] by (simp_all add: LLAMA_MAX_SEQ_def)

lemma demo_streams:
  "kv_seq_to_stream demo_kv2 = [0, 1]" "n_pos_per_embd demo_hp = 1" "kv_ssrc demo_kv2 = []" "kv_sdst demo_kv2 = []"
  by code_simp+

lemma filled_fields:
  "length (kv_seq_to_stream (fill demo_kv)) = 256" "length (kv_seq_to_stream (fill demo_kv2)) = 2"
  "seq_id_ok (fill demo_kv) 0" "seq_id_ok (fill demo_kv) 1" "seq_id_ok (fill demo_kv2) 0" "seq_id_ok (fill demo_kv2) 1"
  "kv_stream_of (fill demo_kv2) 0 = 0" "kv_stream_of (fill demo_kv2) 1 = 1"
  "n_pos_per_embd (kv_hparams (fill demo_kv)) = 1" "n_pos_per_embd (kv_hparams (fill demo_kv2)) = 1"
  using filled(3,4) filled2(3,4) demo_kv_fields demo_streams demo_kv_new [THEN kv_cache_new_wf(4)]
  by (simp_all add: LLAMA_MAX_SEQ_def seq_id_ok_def kv_stream_of_def)

section \<open>Properties\<close>

text \<open>
  C26. \<open>seq_rm\<close> with a sequence succeeds and removes exactly the positions of the range from that
  sequence (a negative start means 0, a negative end the largest position); every other sequence
  holds what it held, and the cache stays well formed.
\<close>

theorem kv_seq_rm_exact:
  assumes "kv_wf kv" and "seq_id_ok kv s"
  shows "\<exists>kv'. kv_seq_rm s p0 p1 kv = Inr (True, kv') \<and> kv_wf kv' \<and>
    (\<forall>t < length (kv_seq_to_stream kv). kv_held kv' t =
       (if t = nat s then kv_held kv t - {range_lo p0..<range_hi p1} else kv_held kv t))"
  using kv_seq_rm_spec [OF assms, of p0 p1] unfolding rng_def by blast

theorem kv_seq_rm_exact_witness:
  "\<exists>kv'. kv_seq_rm 0 1 (-1) (fill demo_kv) = Inr (True, kv') \<and> kv_wf kv' \<and> kv_held kv' 0 = {0}"
proof -
  obtain kv' where kv': "kv_seq_rm 0 1 (-1) (fill demo_kv) = Inr (True, kv')" "kv_wf kv'"
    "\<forall>t < 256. kv_held kv' t = (if t = nat 0 then kv_held (fill demo_kv) t - {range_lo 1..<range_hi (-1)} else kv_held (fill demo_kv) t)"
    using kv_seq_rm_exact [OF filled_wf(1) filled_fields(3), of 1 "-1"] filled_fields(1) by auto
  have "kv_held kv' 0 = {0, 1, 2} - {range_lo 1..<range_hi (-1)}" using kv'(3) filled_held by simp
  also have "\<dots> = {0}" by (auto simp: range_lo_def range_hi_def INT32_MAX_def)
  finally show ?thesis using kv' by blast
qed

text \<open>
  \<open>seq_keep\<close> empties every other sequence of the stream of the kept one. Sequences of other
  streams keep what they hold, although the interface documents that all tokens of other sequences
  are removed.
\<close>

lemma kv_seq_keep_stream_only:
  assumes "kv_wf kv" and "seq_id_ok kv s"
  shows "\<exists>kv'. kv_seq_keep s kv = Inr kv' \<and> kv_wf kv' \<and>
    (\<forall>t < length (kv_seq_to_stream kv). kv_held kv' t =
       (if t = nat s \<or> kv_seq_to_stream kv ! t \<noteq> kv_stream_of kv s then kv_held kv t else {}))"
  using kv_seq_keep_spec [OF assms] by blast

text \<open>
  C27. \<open>seq_add\<close> moves the positions of the range by \<open>d\<close> and drops those that would become
  negative; positions outside the range stay.
\<close>

theorem kv_seq_add_exact:
  assumes "kv_wf kv" and "seq_id_ok kv s" and "n_pos_per_embd (kv_hparams kv) = 1"
  shows "\<exists>kv'. kv_seq_add s p0 p1 d kv = Inr kv' \<and> kv_wf kv' \<and>
    kv_held kv' (nat s) = {p \<in> kv_held kv (nat s). \<not> (range_lo p0 \<le> p \<and> p < range_hi p1)} \<union>
      {p + d | p. p \<in> kv_held kv (nat s) \<and> range_lo p0 \<le> p \<and> p < range_hi p1 \<and> 0 \<le> p + d}"
proof -
  have "(H - rng p0 p1) \<union> {p + d | p. p \<in> H \<inter> rng p0 p1 \<and> 0 \<le> p + d} =
      {p \<in> H. \<not> (range_lo p0 \<le> p \<and> p < range_hi p1)} \<union>
      {p + d | p. p \<in> H \<and> range_lo p0 \<le> p \<and> p < range_hi p1 \<and> 0 \<le> p + d}" for H
    by (auto simp: rng_def)
  then show ?thesis using kv_seq_add_spec [OF assms, of p0 p1 d] by auto
qed

theorem kv_seq_add_exact_witness:
  "\<exists>kv'. kv_seq_add 0 1 (-1) (-2) (fill demo_kv) = Inr kv' \<and> kv_held kv' 0 = {0}"
proof -
  obtain kv' where kv': "kv_seq_add 0 1 (-1) (-2) (fill demo_kv) = Inr kv'"
    "kv_held kv' (nat 0) = {p \<in> {0, 1, 2}. \<not> (range_lo 1 \<le> p \<and> p < range_hi (-1))} \<union>
      {p + (-2) | p. p \<in> {0, 1, 2} \<and> range_lo 1 \<le> p \<and> p < range_hi (-1) \<and> 0 \<le> p + (-2)}"
    using kv_seq_add_exact [OF filled_wf(1) filled_fields(3,9), of 1 "-1" "-2"] filled_held(1) by auto
  have "kv_held kv' 0 = {0}" using kv'(2) by (auto simp: range_lo_def range_hi_def INT32_MAX_def)
  then show ?thesis using kv'(1) by blast
qed

text \<open>
  Copying a whole sequence into an absent one, within a stream or between streams, makes the
  copy answer the queries as the original does and leaves the original as it is.
\<close>

lemma kv_fork:
  fixes kv :: "('d :: zero) kv_cache"
  assumes "kv_wf kv" "seq_id_ok kv src" "seq_id_ok kv dst" "src \<noteq> dst"
    and "kv_held kv (nat dst) = {}" "kv_held kv (nat src) \<subseteq> {..<INT32_MAX}"
  shows "\<exists>kv'. kv_seq_cp src dst (-1) (-1) kv = Inr kv' \<and> kv_wf kv' \<and>
    kv_seq_pos_min dst kv' = kv_seq_pos_min src kv \<and> kv_seq_pos_max dst kv' = kv_seq_pos_max src kv \<and>
    kv_seq_pos_min src kv' = kv_seq_pos_min src kv \<and> kv_seq_pos_max src kv' = kv_seq_pos_max src kv"
  using kv.fork [OF assms] .

text \<open>
  Between streams only whole buffers are copied: the copy of a cell keeps its position, its 2D
  position and its pending shift, belongs to the target sequence only, and the copy of the data
  is queued; every other cell of the target stream is empty.
\<close>

lemma kv_seq_cp_streams:
  assumes "kv_wf kv" "seq_id_ok kv src" "seq_id_ok kv dst" "kv_stream_of kv src \<noteq> kv_stream_of kv dst"
    and "p0 \<le> 0 \<or> int (kv_get_size kv) \<le> p0 + 1" "p1 \<le> 0 \<or> int (kv_get_size kv) \<le> p1 + 1"
  shows "\<exists>kv'. kv_seq_cp src dst p0 p1 kv = Inr kv' \<and> kv_wf kv' \<and>
    (\<forall>i < kv_get_size kv. cell (kv_cells kv' ! kv_stream_of kv dst) i =
      (if nat src \<in> kc_seq (kv_cells kv ! kv_stream_of kv src) ! i
       then (kc_pos (kv_cells kv ! kv_stream_of kv src) ! i, kc_ext (kv_cells kv ! kv_stream_of kv src) ! i,
             kc_shift (kv_cells kv ! kv_stream_of kv src) ! i, {nat dst})
       else (-1, ext_reset, 0, {}))) \<and>
    kv_ssrc kv' = kv_ssrc kv @ [kv_stream_of kv src] \<and> kv_sdst kv' = kv_sdst kv @ [kv_stream_of kv dst]"
  using kv_seq_cp_cross_spec [OF assms] unfolding cell_empty_def by blast

text \<open>
  Within a stream the copy does not look whether the target sequence is already in the cell:
  copying twice counts every position twice, and after the target is removed from the cells the
  stale count still answers the query for its largest position.
\<close>

lemma kv_seq_cp_twice_counts:
  "case kv_seq_cp 0 1 (-1) (-1) (fill demo_kv) of Inl _ \<Rightarrow> False
   | Inr kv1 \<Rightarrow> (case kv_seq_cp 0 1 (-1) (-1) kv1 of Inl _ \<Rightarrow> False
   | Inr kv2 \<Rightarrow> (case kv_seq_rm 1 (-1) (-1) kv2 of Inl _ \<Rightarrow> False
   | Inr (_, kv3) \<Rightarrow> kv_held kv3 1 = {} \<and> kv_seq_pos_max 1 kv3 = Inr 2))"
  by code_simp

text \<open>
  Dividing the positions of a cell accumulates the pending shift with the opposite sign of
  moving it: moving position 6 to 3 leaves the shift -3, dividing it by 2 leaves +3.
\<close>

lemma pos_div_shift_sign:
  assumes "cells_wf c" "i < cells_size c" "kc_pos c ! i \<noteq> -1" "0 < d"
  defines "q \<equiv> c_div (kc_pos c ! i) d"
  shows "kc_pos (cells_pos_div i d c) ! i = q \<and>
    kc_shift (cells_pos_div i d c) ! i - kc_shift c ! i = kc_pos c ! i - q \<and>
    kc_pos (fst (cells_pos_add i (q - kc_pos c ! i) c)) ! i = q \<and>
    kc_shift (fst (cells_pos_add i (q - kc_pos c ! i) c)) ! i - kc_shift c ! i = q - kc_pos c ! i"
proof -
  have p: "0 \<le> kc_pos c ! i" using cells_wf_cell [OF assms(1,2)] assms(3) by (simp add: cell_def)
  then have q: "0 \<le> q" using c_div_bounds [OF p assms(4)] by (simp add: q_def)
  have len: "i < length (kc_pos c)" "i < length (kc_shift c)"
    using assms(1,2) by (simp_all add: cells_wf_def cells_size_def)
  show ?thesis using len q by (simp add: cells_pos_div_def cells_pos_add_def Let_def q_def)
qed

end
