(* ===== verification/Outputs.thy ===== *)
theory Outputs
  imports Hparams Batch
begin

text \<open>
  The outputs of the inference context (\<open>src/llama-context.cpp\<close>): the buffer that is reserved for
  them, the copies out of a computed graph, the table from the tokens of a batch to the rows of the
  buffer, the swaps that bring the rows into the order of the batch, which are remembered and
  applied on the first access, and the accessors. A float is only copied, so its type is a
  parameter; the memory of a buffer before it is written, and whether it can be allocated, are
  parameters too. A pointer into a buffer is returned as the elements it points to.
\<close>

section \<open>State\<close>

datatype llama_pooling_type =
    LLAMA_POOLING_TYPE_UNSPECIFIED
  | LLAMA_POOLING_TYPE_NONE
  | LLAMA_POOLING_TYPE_MEAN
  | LLAMA_POOLING_TYPE_CLS
  | LLAMA_POOLING_TYPE_LAST
  | LLAMA_POOLING_TYPE_RANK

record llama_cparams =
  cp_n_ctx :: nat
  cp_n_batch :: nat
  cp_n_ubatch :: nat
  cp_n_seq_max :: nat
  cp_embeddings :: bool
  cp_causal_attn :: bool
  cp_kv_unified :: bool
  cp_pooling_type :: llama_pooling_type

record llama_model =
  md_hparams :: llama_hparams
  md_n_vocab :: nat
  md_n_cls_out :: nat
  md_is_t5 :: bool

text \<open>
  A view into the output buffer: without data, with its elements, or left pointing into a buffer
  that has been freed.
\<close>

datatype 'a buffer_view = No_data | View "'a list" | Dangling

definition buf_size :: "'a buffer_view \<Rightarrow> nat" where
  "buf_size v = (case v of View xs \<Rightarrow> length xs | _ \<Rightarrow> 0)"

definition has_data :: "'a buffer_view \<Rightarrow> bool" where
  "has_data v = (case v of No_data \<Rightarrow> False | View xs \<Rightarrow> xs \<noteq> [] | Dangling \<Rightarrow> True)"

record 'f sampling_info =
  sm_samplers :: "nat list"
  sm_logits :: "'f buffer_view"
  sm_probs :: "'f buffer_view"
  sm_sampled :: "llama_token buffer_view"
  sm_candidates :: "llama_token buffer_view"
  sm_logits_count :: "nat list"
  sm_probs_count :: "nat list"
  sm_candidates_count :: "nat list"

record 'f outputs =
  o_ids :: "int list"
  o_swaps :: "(nat \<times> nat) list"
  o_n_outputs :: nat
  o_buf :: "nat option"
  o_logits :: "'f buffer_view"
  o_embd :: "'f buffer_view"
  o_embd_seq :: "nat \<rightharpoonup> 'f list"
  o_sampling :: "'f sampling_info"

text \<open>The allocator: the size of the buffer it returns for a size, and what is in fresh memory.\<close>

record 'f mem_backend =
  bk_alloc :: "nat \<Rightarrow> nat option"
  bk_junk :: "nat \<Rightarrow> 'f"
  bk_junk_token :: "nat \<Rightarrow> llama_token"

section \<open>Reserving the buffer\<close>

definition dangle :: "'a buffer_view \<Rightarrow> 'a buffer_view" where
  "dangle v = (if has_data v then Dangling else v)"

text \<open>
  The old buffer is released before the new one is allocated. Only the views of the logits and of
  the embeddings are cleared then.
\<close>

definition free_views :: "'f outputs \<Rightarrow> 'f outputs" where
  "free_views o0 =
    (case o_buf o0 of
       None \<Rightarrow> o0
     | Some _ \<Rightarrow>
        (let sm = o_sampling o0
         in o0\<lparr>o_buf := None, o_logits := No_data, o_embd := No_data,
               o_sampling := sm\<lparr>sm_logits := dangle (sm_logits sm), sm_probs := dangle (sm_probs sm),
                 sm_sampled := dangle (sm_sampled sm), sm_candidates := dangle (sm_candidates sm)\<rparr>\<rparr>))"

definition sampling_views :: "llama_model \<Rightarrow> 'f mem_backend \<Rightarrow> nat \<Rightarrow> nat \<Rightarrow> 'f sampling_info \<Rightarrow> 'f sampling_info" where
  "sampling_views md bk offset n_outputs_max sm =
    (let n = md_n_vocab md * n_outputs_max in
     if sm_samplers sm \<noteq> [] then
       sm\<lparr>sm_logits := View (map (bk_junk bk) [offset..<offset + n]),
          sm_probs := View (map (bk_junk bk) [offset + n..<offset + 2 * n]),
          sm_sampled := View (replicate n_outputs_max LLAMA_TOKEN_NULL),
          sm_candidates := View (map (bk_junk_token bk)
            [offset + 2 * n + n_outputs_max..<offset + 2 * n + n_outputs_max + n]),
          sm_logits_count := replicate n_outputs_max 0, sm_probs_count := replicate n_outputs_max 0,
          sm_candidates_count := replicate n_outputs_max 0\<rparr>
     else
       sm\<lparr>sm_logits := No_data, sm_probs := No_data, sm_sampled := No_data, sm_candidates := No_data,
          sm_logits_count := [], sm_probs_count := [], sm_candidates_count := []\<rparr>)"

text \<open>Floats and tokens take four bytes each. The result is 0 when the allocation fails.\<close>

definition output_reserve ::
    "llama_model \<Rightarrow> llama_cparams \<Rightarrow> 'f mem_backend \<Rightarrow> nat \<Rightarrow> 'f outputs \<Rightarrow> nat \<times> 'f outputs" where
  "output_reserve md cp bk n_outputs o0 =
    (let n_outputs_max = max n_outputs (cp_n_seq_max cp);
         has_embd = (md_is_t5 md \<or> cp_embeddings cp);
         n_logits = md_n_vocab md * n_outputs_max;
         n_embds = (if has_embd then unat (n_embd_out (md_hparams md)) * n_outputs_max else 0);
         has_sampling = (sm_samplers (o_sampling o0) \<noteq> []);
         n_floats = (if has_sampling then 2 * md_n_vocab md * n_outputs_max else 0);
         n_tokens = (if has_sampling then (1 + md_n_vocab md) * n_outputs_max else 0);
         new_size = (n_logits + n_embds + n_floats) * 4 + n_tokens * 4;
         o1 = (if o_ids o0 = [] then o0\<lparr>o_ids := replicate (cp_n_batch cp) 0\<rparr> else o0);
         o2 = (case o_buf o1 of
                 Some prev_size \<Rightarrow> if prev_size < new_size then (free_views o1)\<lparr>o_buf := bk_alloc bk new_size\<rparr> else o1
               | None \<Rightarrow> o1\<lparr>o_buf := bk_alloc bk new_size\<rparr>)
     in if o_buf o2 = None then (0, o2)
        else (n_outputs_max,
              o2\<lparr>o_logits := View (map (bk_junk bk) [0..<n_logits]),
                 o_embd := (if has_embd then View (map (bk_junk bk) [n_logits..<n_logits + n_embds]) else No_data),
                 o_sampling := sampling_views md bk (n_logits + n_embds) n_outputs_max (o_sampling o2),
                 o_ids := replicate (length (o_ids o2)) (-1), o_n_outputs := 0\<rparr>))"

section \<open>Copies out of a graph\<close>

text \<open>What a computed graph offers; a missing tensor is \<^const>\<open>None\<close>, the sampled tensors are maps by sequence.\<close>

record 'f graph_result =
  r_logits :: "'f list option"
  r_embd :: "'f list option"
  r_embd_pooled :: "'f list option"
  r_sampled :: "(nat \<times> llama_token) list"
  r_sampled_logits :: "(nat \<times> 'f list) list"
  r_sampled_probs :: "(nat \<times> 'f list) list"
  r_candidates :: "(nat \<times> llama_token list) list"

definition tensor_get :: "'a list \<Rightarrow> nat \<Rightarrow> nat \<Rightarrow> 'a list res" where
  "tensor_get t off n =
    (if off + n \<le> length t then Inr (take n (drop off t))
     else Inl (Ggml_assert ''offset + size <= ggml_nbytes(tensor)''))"

definition blit :: "nat \<Rightarrow> 'a list \<Rightarrow> 'a buffer_view \<Rightarrow> 'a buffer_view res" where
  "blit off xs v =
    (case v of
       View ys \<Rightarrow> if off + length xs \<le> length ys
                  then Inr (View (take off ys @ xs @ drop (off + length xs) ys))
                  else Inl (Out_of_bounds ''output buffer'')
     | _ \<Rightarrow> Inl (Out_of_bounds ''output buffer''))"

definition needs_raw_logits :: "llama_ubatch \<Rightarrow> nat list \<Rightarrow> bool" where
  "needs_raw_logits ub samplers =
     list_ex (\<lambda>i. ub_output ub ! i \<noteq> 0 \<and>
       list_ex (\<lambda>j. ub_seq_id ub ! i ! j \<notin> set samplers) [0..<ub_n_seq_id ub ! i]) [0..<ub_n_tokens ub]"

definition extract_logits ::
    "llama_model \<Rightarrow> llama_ubatch \<Rightarrow> 'f graph_result \<Rightarrow> nat \<Rightarrow> nat \<Rightarrow> 'f outputs \<Rightarrow> 'f outputs res" where
  "extract_logits md ub r n_prev n_all o0 =
    (let n = o_n_outputs o0; n_vocab = md_n_vocab md in
     case r_logits r of
       None \<Rightarrow> Inr o0
     | Some t \<Rightarrow>
        if o_logits o0 \<noteq> No_data \<and> n > 0 \<and> needs_raw_logits ub (sm_samplers (o_sampling o0)) then
          if \<not> n_prev + n \<le> n_all then Inl (Ggml_assert ''n_outputs_prev + n_outputs <= n_outputs_all'')
          else if \<not> (n_prev + n) * n_vocab \<le> buf_size (o_logits o0)
          then Inl (Ggml_assert ''(n_outputs_prev + n_outputs)*n_vocab <= (int64_t) logits.size'')
          else bind_res (tensor_get t 0 (n * n_vocab)) (\<lambda>xs.
               bind_res (blit (n_prev * n_vocab) xs (o_logits o0)) (\<lambda>v. Inr (o0\<lparr>o_logits := v\<rparr>)))
        else Inr o0)"

text \<open>The embeddings of whole sequences, one row per sequence of the micro-batch.\<close>

fun extract_seqs :: "nat \<Rightarrow> llama_ubatch \<Rightarrow> 'f list \<Rightarrow> nat list \<Rightarrow> 'f outputs \<Rightarrow> 'f outputs res" where
  "extract_seqs w ub t [] o0 = Inr o0"
| "extract_seqs w ub t (s # ss) o0 =
    (let seq_id = ub_seq_id_unq ub ! s; seq_idx = ub_seq_idx ub ! seq_id in
     bind_res (tensor_get t (w * nat seq_idx) w) (\<lambda>xs.
       extract_seqs w ub t ss (o0\<lparr>o_embd_seq := (o_embd_seq o0)(seq_id \<mapsto> xs)\<rparr>)))"

definition extract_embd ::
    "llama_model \<Rightarrow> llama_cparams \<Rightarrow> llama_ubatch \<Rightarrow> 'f graph_result \<Rightarrow> nat \<Rightarrow> nat \<Rightarrow> 'f outputs \<Rightarrow> 'f outputs res" where
  "extract_embd md cp ub r n_prev n_all o0 =
    (let n = o_n_outputs o0;
         t_embd = (if cp_embeddings cp then r_embd r else None);
         t_embd = (if t_embd \<noteq> None \<and> r_embd_pooled r \<noteq> None then r_embd_pooled r else t_embd)
     in case t_embd of
          None \<Rightarrow> Inr o0
        | Some t \<Rightarrow>
           if o_embd o0 \<noteq> No_data \<and> n > 0 then
             (case cp_pooling_type cp of
                LLAMA_POOLING_TYPE_NONE \<Rightarrow>
                  (let w = unat (n_embd_out (md_hparams md)) in
                   if \<not> n_prev + n \<le> n_all then Inl (Ggml_assert ''n_outputs_prev + n_outputs <= n_outputs_all'')
                   else if \<not> (n_prev + n) * w \<le> buf_size (o_embd o0)
                   then Inl (Ggml_assert ''(n_outputs_prev + n_outputs)*n_embd_out <= (int64_t) embd.size'')
                   else bind_res (tensor_get t 0 (n * w)) (\<lambda>xs.
                        bind_res (blit (n_prev * w) xs (o_embd o0)) (\<lambda>v. Inr (o0\<lparr>o_embd := v\<rparr>))))
              | LLAMA_POOLING_TYPE_RANK \<Rightarrow> extract_seqs (md_n_cls_out md) ub t [0..<ub_n_seqs_unq ub] o0
              | LLAMA_POOLING_TYPE_UNSPECIFIED \<Rightarrow> Inl (Ggml_abort ''unknown pooling type'')
              | _ \<Rightarrow> extract_seqs (unat (n_embd_inp (md_hparams md))) ub t [0..<ub_n_seqs_unq ub] o0)
           else Inr o0)"

text \<open>The row of the last output token of each sequence.\<close>

definition build_seq_to_output_row :: "llama_ubatch \<Rightarrow> nat \<Rightarrow> nat \<rightharpoonup> nat" where
  "build_seq_to_output_row ub row_offset =
     fst (fold (\<lambda>i (m, k). if ub_output ub ! i = 0 then (m, k)
                           else (m(ub_seq_id ub ! i ! 0 \<mapsto> row_offset + k), k + 1))
           [0..<ub_n_tokens ub] (Map.empty, 0))"

fun copy_tensor_async_ints ::
    "(nat \<times> llama_token) list \<Rightarrow> llama_token buffer_view \<Rightarrow> (nat \<rightharpoonup> nat) \<Rightarrow> llama_token buffer_view res" where
  "copy_tensor_async_ints [] v rows = Inr v"
| "copy_tensor_async_ints ((seq, t) # ts) v rows =
    (if \<not> has_data v then Inr v
     else case rows seq of
            None \<Rightarrow> copy_tensor_async_ints ts v rows
          | Some row \<Rightarrow>
              if \<not> row < buf_size v then Inl (Ggml_assert ''row < sampled.size'')
              else bind_res (blit row [t] v) (\<lambda>v'. copy_tensor_async_ints ts v' rows))"

text \<open>The copies of floats and of candidate tokens have the same text.\<close>

fun copy_tensor_async ::
    "(nat \<times> 'a list) list \<Rightarrow> 'a buffer_view \<Rightarrow> nat \<Rightarrow> nat list \<Rightarrow> (nat \<rightharpoonup> nat) \<Rightarrow> ('a buffer_view \<times> nat list) res" where
  "copy_tensor_async [] v stride counts rows = Inr (v, counts)"
| "copy_tensor_async ((seq, t) # ts) v stride counts rows =
    (if \<not> has_data v then Inr (v, counts)
     else case rows seq of
            None \<Rightarrow> copy_tensor_async ts v stride counts rows
          | Some row \<Rightarrow>
              if \<not> row < length counts then Inl (Ggml_assert ''row < counts.size()'')
              else bind_res (blit (row * stride) t v) (\<lambda>v'.
                     copy_tensor_async ts v' stride (counts[row := length t]) rows))"

definition extract_sampling ::
    "llama_model \<Rightarrow> llama_ubatch \<Rightarrow> 'f graph_result \<Rightarrow> nat \<Rightarrow> 'f outputs \<Rightarrow> 'f outputs res" where
  "extract_sampling md ub r n_prev o0 =
    (let sm = o_sampling o0 in
     if sm_samplers sm \<noteq> [] \<and> (r_sampled r \<noteq> [] \<or> r_sampled_probs r \<noteq> [] \<or> r_sampled_logits r \<noteq> []) then
       (let rows = build_seq_to_output_row ub n_prev; stride = md_n_vocab md in
        bind_res (copy_tensor_async_ints (r_sampled r) (sm_sampled sm) rows) (\<lambda>sampled.
        bind_res (copy_tensor_async (r_sampled_logits r) (sm_logits sm) stride (sm_logits_count sm) rows) (\<lambda>(lg, lc).
        bind_res (copy_tensor_async (r_sampled_probs r) (sm_probs sm) stride (sm_probs_count sm) rows) (\<lambda>(pr, pc).
        bind_res (copy_tensor_async (r_candidates r) (sm_candidates sm) stride (sm_candidates_count sm) rows) (\<lambda>(cd, cc).
          Inr (o0\<lparr>o_sampling := sm\<lparr>sm_sampled := sampled, sm_logits := lg, sm_logits_count := lc,
            sm_probs := pr, sm_probs_count := pc, sm_candidates := cd, sm_candidates_count := cc\<rparr>\<rparr>))))))
     else Inr o0)"

definition extract_outputs ::
    "llama_model \<Rightarrow> llama_cparams \<Rightarrow> llama_ubatch \<Rightarrow> 'f graph_result \<Rightarrow> nat \<Rightarrow> nat \<Rightarrow> 'f outputs \<Rightarrow> 'f outputs res" where
  "extract_outputs md cp ub r n_prev n_all o0 =
     bind_res (extract_logits md ub r n_prev n_all o0) (\<lambda>o1.
     bind_res (extract_embd md cp ub r n_prev n_all o1) (\<lambda>o2.
       extract_sampling md ub r n_prev o2))"

section \<open>From tokens to rows\<close>

text \<open>
  One step of the selection sort over \<open>out_ids\<close>: the first smallest entry from \<open>i\<close> on is swapped to
  \<open>i\<close>, and the swap is remembered.
\<close>

definition min_from :: "nat list \<Rightarrow> nat \<Rightarrow> nat" where
  "min_from xs i = fold (\<lambda>j j_min. if xs ! j < xs ! j_min then j else j_min) [i + 1..<length xs] i"

definition sort_step :: "nat \<Rightarrow> nat list \<times> (nat \<times> nat) list \<Rightarrow> nat list \<times> (nat \<times> nat) list" where
  "sort_step i st =
    (case st of (xs, swaps) \<Rightarrow>
       let j_min = min_from xs i
       in if j_min = i then (xs, swaps)
          else (xs[i := xs ! j_min, j_min := xs ! i], swaps @ [(i, j_min)]))"

definition sort_outputs :: "nat list \<Rightarrow> (nat \<times> nat) list \<Rightarrow> nat list \<times> (nat \<times> nat) list" where
  "sort_outputs out_ids swaps = fold sort_step [0..<length out_ids - 1] (out_ids, swaps)"

definition write_ids :: "nat list \<Rightarrow> int list \<Rightarrow> int list" where
  "write_ids out_ids ids = fold (\<lambda>i ids. ids[out_ids ! i := int i]) [0..<length out_ids] ids"

text \<open>
  The mapping at the end of a batch. The ids are tokens of the batch, of which there are at most as
  many as \<open>output_ids\<close> has entries.
\<close>

definition map_outputs :: "nat list \<Rightarrow> 'f outputs \<Rightarrow> (nat list \<times> 'f outputs) res" where
  "map_outputs out_ids o0 =
    (if o_n_outputs o0 > 0 then
       if length out_ids \<noteq> o_n_outputs o0 then Inl (Ggml_assert ''out_ids.size() == (size_t) n_outputs'')
       else
         let o1 = o0\<lparr>o_ids := write_ids out_ids (o_ids o0)\<rparr>
         in if list_all (\<lambda>i. out_ids ! i = i) [0..<o_n_outputs o0] \<or> \<not> o_n_outputs o0 > 1 then Inr (out_ids, o1)
            else case sort_outputs out_ids (o_swaps o1) of (sorted_ids, swaps) \<Rightarrow>
                   Inr (sorted_ids,
                        o1\<lparr>o_swaps := swaps, o_ids := write_ids sorted_ids (replicate (length (o_ids o1)) (-1))\<rparr>)
     else Inr (out_ids, o0))"

section \<open>Applying the swaps\<close>

definition swap_elems :: "nat \<Rightarrow> nat \<Rightarrow> nat \<Rightarrow> 'a list \<Rightarrow> 'a list" where
  "swap_elems w i0 i1 xs =
     fold (\<lambda>k xs. xs[i0 * w + k := xs ! (i1 * w + k), i1 * w + k := xs ! (i0 * w + k)]) [0..<w] xs"

definition swap_rows :: "nat \<Rightarrow> nat \<Rightarrow> nat \<Rightarrow> 'a buffer_view \<Rightarrow> 'a buffer_view res" where
  "swap_rows w i0 i1 v =
    (case v of
       View xs \<Rightarrow> if w = 0 \<or> (i0 * w + w \<le> length xs \<and> i1 * w + w \<le> length xs)
                  then Inr (View (swap_elems w i0 i1 xs)) else Inl (Out_of_bounds ''output buffer'')
     | _ \<Rightarrow> if w = 0 then Inr v else Inl (Out_of_bounds ''output buffer''))"

definition swap_vec :: "nat \<Rightarrow> nat \<Rightarrow> 'a list \<Rightarrow> 'a list res" where
  "swap_vec i0 i1 xs =
    (if i0 < length xs \<and> i1 < length xs then Inr (swap_elems 1 i0 i1 xs) else Inl (Out_of_bounds ''vector''))"

definition reorder_sampling :: "nat \<Rightarrow> nat \<Rightarrow> nat \<Rightarrow> 'f sampling_info \<Rightarrow> 'f sampling_info res" where
  "reorder_sampling n_vocab i0 i1 sm =
    (if sm_samplers sm = [] then Inr sm
     else
       bind_res (swap_rows n_vocab i0 i1 (sm_logits sm)) (\<lambda>lg.
       bind_res (swap_rows n_vocab i0 i1 (sm_probs sm)) (\<lambda>pr.
       bind_res (swap_rows n_vocab i0 i1 (sm_candidates sm)) (\<lambda>cd.
       bind_res (swap_rows 1 i0 i1 (sm_sampled sm)) (\<lambda>sp.
       bind_res (swap_vec i0 i1 (sm_logits_count sm)) (\<lambda>lc.
       bind_res (swap_vec i0 i1 (sm_probs_count sm)) (\<lambda>pc.
       bind_res (swap_vec i0 i1 (sm_candidates_count sm)) (\<lambda>cc.
         Inr (sm\<lparr>sm_logits := lg, sm_probs := pr, sm_candidates := cd, sm_sampled := sp,
           sm_logits_count := lc, sm_probs_count := pc, sm_candidates_count := cc\<rparr>)))))))))"

text \<open>The embeddings are swapped with the width \<open>n_embd\<close>.\<close>

definition reorder_one :: "llama_model \<Rightarrow> nat \<times> nat \<Rightarrow> 'f outputs \<Rightarrow> 'f outputs res" where
  "reorder_one md sw o0 =
    (case sw of (i0, i1) \<Rightarrow>
       bind_res (if buf_size (o_logits o0) > 0 then swap_rows (md_n_vocab md) i0 i1 (o_logits o0)
                 else Inr (o_logits o0)) (\<lambda>lg.
       bind_res (if buf_size (o_embd o0) > 0 then swap_rows (unat (hp_n_embd (md_hparams md))) i0 i1 (o_embd o0)
                 else Inr (o_embd o0)) (\<lambda>em.
       bind_res (reorder_sampling (md_n_vocab md) i0 i1 (o_sampling o0)) (\<lambda>sm.
         Inr (o0\<lparr>o_logits := lg, o_embd := em, o_sampling := sm\<rparr>)))))"

fun reorder_loop :: "llama_model \<Rightarrow> (nat \<times> nat) list \<Rightarrow> 'f outputs \<Rightarrow> 'f outputs res" where
  "reorder_loop md [] o0 = Inr o0"
| "reorder_loop md (sw # sws) o0 = bind_res (reorder_one md sw o0) (reorder_loop md sws)"

definition output_reorder :: "llama_model \<Rightarrow> 'f outputs \<Rightarrow> 'f outputs res" where
  "output_reorder md o0 =
     bind_res (reorder_loop md (o_swaps o0) o0) (\<lambda>o1. Inr (o1\<lparr>o_swaps := []\<rparr>))"

section \<open>Accessors\<close>

text \<open>\<open>n_outputs\<close> is unsigned, so the sum with a negative index is taken modulo \<open>2^32\<close>.\<close>

definition output_resolve_row :: "int \<Rightarrow> 'f outputs \<Rightarrow> nat res" where
  "output_resolve_row i o0 =
    (if i < 0 then
       (let j = (int (o_n_outputs o0) + i) mod 2 ^ 32
        in if j < 0 then Inl (Runtime_error ''negative index out of range'')
           else if j \<ge> int (o_n_outputs o0) then Inl (Runtime_error ''corrupt output buffer'')
           else Inr (nat j))
     else if nat i \<ge> length (o_ids o0) then Inl (Runtime_error ''out of range'')
     else let j = o_ids o0 ! nat i
          in if j < 0 then Inl (Runtime_error ''batch.logits[i] != true'')
             else if j \<ge> int (o_n_outputs o0) then Inl (Runtime_error ''corrupt output buffer'')
             else Inr (nat j))"

text \<open>A row of a buffer; reading beyond its end or from freed memory is a fault.\<close>

definition row_of :: "nat \<Rightarrow> nat \<Rightarrow> 'a list \<Rightarrow> 'a list" where
  "row_of w j xs = take w (drop (j * w) xs)"

definition view_row :: "nat \<Rightarrow> nat \<Rightarrow> 'a buffer_view \<Rightarrow> 'a list res" where
  "view_row w j v =
    (case v of
       View xs \<Rightarrow> if j * w + w \<le> length xs then Inr (row_of w j xs) else Inl (Out_of_bounds ''output buffer'')
     | _ \<Rightarrow> Inl (Out_of_bounds ''output buffer''))"

text \<open>
  The accessors first apply the pending swaps. An exception of \<open>output_resolve_row\<close> is caught and
  logged, and the release build returns the null pointer (\<^const>\<open>None\<close>), the null token or 0.
\<close>

definition get_logits_ith :: "llama_model \<Rightarrow> int \<Rightarrow> 'f outputs \<Rightarrow> ('f list option \<times> 'f outputs) res" where
  "get_logits_ith md i o0 =
     bind_res (output_reorder md o0) (\<lambda>o1.
       if o_logits o1 = No_data then Inr (None, o1)
       else case output_resolve_row i o1 of
              Inl _ \<Rightarrow> Inr (None, o1)
            | Inr j \<Rightarrow> bind_res (view_row (md_n_vocab md) j (o_logits o1)) (\<lambda>xs. Inr (Some xs, o1)))"

definition get_embeddings_ith :: "llama_model \<Rightarrow> int \<Rightarrow> 'f outputs \<Rightarrow> ('f list option \<times> 'f outputs) res" where
  "get_embeddings_ith md i o0 =
     bind_res (output_reorder md o0) (\<lambda>o1.
       if o_embd o1 = No_data then Inr (None, o1)
       else case output_resolve_row i o1 of
              Inl _ \<Rightarrow> Inr (None, o1)
            | Inr j \<Rightarrow> bind_res (view_row (unat (n_embd_out (md_hparams md))) j (o_embd o1)) (\<lambda>xs. Inr (Some xs, o1)))"

definition get_embeddings_seq :: "nat \<Rightarrow> 'f outputs \<Rightarrow> 'f list option" where
  "get_embeddings_seq seq_id o0 = o_embd_seq o0 seq_id"

definition get_sampled_token_ith :: "llama_model \<Rightarrow> int \<Rightarrow> 'f outputs \<Rightarrow> (llama_token \<times> 'f outputs) res" where
  "get_sampled_token_ith md i o0 =
     bind_res (output_reorder md o0) (\<lambda>o1.
       if \<not> has_data (sm_sampled (o_sampling o1)) then Inr (LLAMA_TOKEN_NULL, o1)
       else case output_resolve_row i o1 of
              Inl _ \<Rightarrow> Inr (LLAMA_TOKEN_NULL, o1)
            | Inr j \<Rightarrow>
                (case sm_sampled (o_sampling o1) of
                   View xs \<Rightarrow> if \<not> j < length xs then Inl (Ggml_assert ''row < (int64_t) sampling.sampled.size'')
                              else Inr (xs ! j, o1)
                 | _ \<Rightarrow> Inl (Out_of_bounds ''output buffer'')))"

text \<open>The rows of the sampled probabilities and logits, with their counts.\<close>

definition sampled_row ::
    "llama_model \<Rightarrow> int \<Rightarrow> ('f sampling_info \<Rightarrow> 'f buffer_view) \<Rightarrow> ('f sampling_info \<Rightarrow> nat list) \<Rightarrow>
     'f outputs \<Rightarrow> ('f list option \<times> 'f outputs) res" where
  "sampled_row md i view counts o0 =
     bind_res (output_reorder md o0) (\<lambda>o1.
       if \<not> has_data (view (o_sampling o1)) then Inr (None, o1)
       else case output_resolve_row i o1 of
              Inl _ \<Rightarrow> Inr (None, o1)
            | Inr j \<Rightarrow>
                if j \<ge> length (counts (o_sampling o1)) \<or> counts (o_sampling o1) ! j = 0 then Inr (None, o1)
                else bind_res (view_row (md_n_vocab md) j (view (o_sampling o1))) (\<lambda>xs. Inr (Some xs, o1)))"

definition get_sampled_probs_ith :: "llama_model \<Rightarrow> int \<Rightarrow> 'f outputs \<Rightarrow> ('f list option \<times> 'f outputs) res" where
  "get_sampled_probs_ith md i o0 = sampled_row md i sm_probs sm_probs_count o0"

definition get_sampled_logits_ith :: "llama_model \<Rightarrow> int \<Rightarrow> 'f outputs \<Rightarrow> ('f list option \<times> 'f outputs) res" where
  "get_sampled_logits_ith md i o0 = sampled_row md i sm_logits sm_logits_count o0"

text \<open>Without a row of their own the candidates are the whole vocabulary.\<close>

definition get_sampled_candidates_ith :: "llama_model \<Rightarrow> int \<Rightarrow> 'f outputs \<Rightarrow> (llama_token list \<times> 'f outputs) res" where
  "get_sampled_candidates_ith md i o0 =
     bind_res (output_reorder md o0) (\<lambda>o1.
       let full = map int [0..<md_n_vocab md]; sm = o_sampling o1
       in case output_resolve_row i o1 of
            Inl _ \<Rightarrow> Inr (full, o1)
          | Inr j \<Rightarrow>
              if has_data (sm_candidates sm) \<and> j < length (sm_candidates_count sm) \<and> sm_candidates_count sm ! j > 0
              then bind_res (view_row (md_n_vocab md) j (sm_candidates sm)) (\<lambda>xs. Inr (xs, o1))
              else Inr (full, o1))"

definition sampled_count ::
    "llama_model \<Rightarrow> int \<Rightarrow> nat \<Rightarrow> bool \<Rightarrow> nat list \<Rightarrow> 'f outputs \<Rightarrow> nat" where
  "sampled_count md i none data counts o1 =
    (if \<not> data then none
     else case output_resolve_row i o1 of
            Inl _ \<Rightarrow> 0
          | Inr j \<Rightarrow> if j \<ge> length counts then 0 else counts ! j)"

definition get_sampled_candidates_count :: "llama_model \<Rightarrow> int \<Rightarrow> 'f outputs \<Rightarrow> (nat \<times> 'f outputs) res" where
  "get_sampled_candidates_count md i o0 = bind_res (output_reorder md o0) (\<lambda>o1. let sm = o_sampling o1 in
     Inr (sampled_count md i 0 (has_data (sm_candidates sm)) (sm_candidates_count sm) o1, o1))"

definition get_sampled_logits_count :: "llama_model \<Rightarrow> int \<Rightarrow> 'f outputs \<Rightarrow> (nat \<times> 'f outputs) res" where
  "get_sampled_logits_count md i o0 = bind_res (output_reorder md o0) (\<lambda>o1. let sm = o_sampling o1 in
     Inr (sampled_count md i (md_n_vocab md) (has_data (sm_logits sm)) (sm_logits_count sm) o1, o1))"

definition get_sampled_probs_count :: "llama_model \<Rightarrow> int \<Rightarrow> 'f outputs \<Rightarrow> (nat \<times> 'f outputs) res" where
  "get_sampled_probs_count md i o0 = bind_res (output_reorder md o0) (\<lambda>o1. let sm = o_sampling o1 in
     Inr (sampled_count md i 0 (has_data (sm_probs sm)) (sm_probs_count sm) o1, o1))"

section \<open>Swapping rows\<close>

lemma swap_elems_length [simp]: "length (swap_elems w i0 i1 xs) = length xs"
proof -
  have "length (fold (\<lambda>k xs. xs[i0 * w + k := xs ! (i1 * w + k), i1 * w + k := xs ! (i0 * w + k)]) ks xs) = length xs"
    for ks xs by (induction ks arbitrary: xs) simp_all
  then show ?thesis by (simp add: swap_elems_def)
qed

lemma row_index_eq:
  fixes i j w k l :: nat
  shows "k < w \<Longrightarrow> l < w \<Longrightarrow> i * w + k = j * w + l \<longleftrightarrow> i = j \<and> k = l"
proof
  assume kl: "k < w" "l < w" and eq: "i * w + k = j * w + l"
  have "(i * w + k) div w = i" "(j * w + l) div w = j" using kl by simp_all
  then show "i = j \<and> k = l" using eq by simp
qed simp

text \<open>Where the element \<open>k\<close> of row \<open>i\<close> comes from.\<close>

lemma swap_elems_nth:
  assumes i: "i0 \<noteq> i1" "i0 * w + w \<le> length xs" "i1 * w + w \<le> length xs" and k: "k < w" "i * w + k < length xs"
  shows "swap_elems w i0 i1 xs ! (i * w + k) =
    xs ! ((if i = i0 then i1 else if i = i1 then i0 else i) * w + k)"
proof -
  define I where "I m ys \<longleftrightarrow> length ys = length xs \<and> (\<forall>i k. k < w \<longrightarrow> i * w + k < length xs \<longrightarrow> ys ! (i * w + k) =
      xs ! ((if k < m then (if i = i0 then i1 else if i = i1 then i0 else i) else i) * w + k))" for m ys
  have "I w (swap_elems w i0 i1 xs)"
    unfolding swap_elems_def
  proof (rule fold_upt_inv [where I = I])
    show "I 0 xs" by (simp add: I_def)
    fix m ys assume m: "m < w" and "I m ys"
    then have len: "length ys = length xs"
      and ys: "ys ! (i * w + k) = xs ! ((if k < m then (if i = i0 then i1 else if i = i1 then i0 else i) else i) * w + k)"
      if "k < w" "i * w + k < length xs" for i k
      using that by (auto simp: I_def)
    have b: "i0 * w + m < length xs" "i1 * w + m < length xs" using i(2,3) m by simp_all
    have "length ys = length xs" using \<open>I m ys\<close> by (simp add: I_def)
    moreover have "ys[i0 * w + m := ys ! (i1 * w + m), i1 * w + m := ys ! (i0 * w + m)] ! (i * w + k) =
        xs ! ((if k < Suc m then (if i = i0 then i1 else if i = i1 then i0 else i) else i) * w + k)"
      if k: "k < w" "i * w + k < length xs" for i k
      using ys [OF k] ys [OF m b(1)] ys [OF m b(2)] b k m i(1) row_index_eq [OF m k(1), of i0 i]
        row_index_eq [OF m k(1), of i1 i] \<open>length ys = length xs\<close>
      by (auto simp: nth_list_update less_Suc_eq)
    ultimately show "I (Suc m) (ys[i0 * w + m := ys ! (i1 * w + m), i1 * w + m := ys ! (i0 * w + m)])"
      by (simp add: I_def)
  qed simp
  then show ?thesis using k by (simp add: I_def)
qed

lemma row_of_nth: "k < w \<Longrightarrow> j * w + w \<le> length xs \<Longrightarrow> row_of w j xs ! k = xs ! (j * w + k)"
  by (simp add: row_of_def)

lemma row_of_length: "j * w + w \<le> length xs \<Longrightarrow> length (row_of w j xs) = w"
  by (simp add: row_of_def)

lemma row_of_swap:
  assumes "i0 \<noteq> i1" "i0 * w + w \<le> length xs" "i1 * w + w \<le> length xs" "j * w + w \<le> length xs"
  shows "row_of w j (swap_elems w i0 i1 xs) = row_of w (if j = i0 then i1 else if j = i1 then i0 else j) xs"
    (is "?l = row_of w ?j xs")
proof (rule nth_equalityI)
  have j: "?j * w + w \<le> length xs" using assms by simp
  show "length ?l = length (row_of w ?j xs)"
    using assms j row_of_length [of j w "swap_elems w i0 i1 xs"] row_of_length [OF j] by simp
  fix k assume "k < length ?l"
  then have k: "k < w" using assms(4) row_of_length [of j w "swap_elems w i0 i1 xs"] by simp
  show "?l ! k = row_of w ?j xs ! k"
    using swap_elems_nth [OF assms(1-3) k, of j] row_of_nth [OF k j] row_of_nth [OF k, of j "swap_elems w i0 i1 xs"]
      assms(4) k by simp
qed

section \<open>A list of swaps\<close>

text \<open>The swaps on a plain list: what they do to a column of rows.\<close>

definition swap_ix :: "nat \<times> nat \<Rightarrow> 'a list \<Rightarrow> 'a list" where
  "swap_ix sw xs = (case sw of (i, j) \<Rightarrow> xs[i := xs ! j, j := xs ! i])"

definition apply_swaps :: "(nat \<times> nat) list \<Rightarrow> 'a list \<Rightarrow> 'a list" where
  "apply_swaps sws xs = fold swap_ix sws xs"

definition swaps_ok :: "nat \<Rightarrow> (nat \<times> nat) list \<Rightarrow> bool" where
  "swaps_ok n sws \<longleftrightarrow> (\<forall>(i, j) \<in> set sws. i < j \<and> j < n)"

lemma swaps_ok_simps [simp]:
  "swaps_ok n []" "swaps_ok n ((i, j) # sws) \<longleftrightarrow> i < j \<and> j < n \<and> swaps_ok n sws"
  "swaps_ok n (sws @ sws') \<longleftrightarrow> swaps_ok n sws \<and> swaps_ok n sws'"
  by (auto simp: swaps_ok_def)

lemma apply_swaps_simps [simp]:
  "apply_swaps [] xs = xs" "apply_swaps (sw # sws) xs = apply_swaps sws (swap_ix sw xs)"
  "apply_swaps (sws @ sws') xs = apply_swaps sws' (apply_swaps sws xs)"
  by (simp_all add: apply_swaps_def)

lemma swap_ix_length [simp]: "length (swap_ix sw xs) = length xs"
  by (simp add: swap_ix_def split: prod.split)

lemma apply_swaps_length [simp]: "length (apply_swaps sws xs) = length xs"
  by (induction sws arbitrary: xs) simp_all

lemma apply_swaps_map:
  "swaps_ok (length xs) sws \<Longrightarrow> apply_swaps sws (map f xs) = map f (apply_swaps sws xs)"
proof (induction sws arbitrary: xs)
  case (Cons sw sws)
  obtain i j where sw: "sw = (i, j)" by (cases sw)
  have "swap_ix sw (map f xs) = map f (swap_ix sw xs)"
    using Cons.prems by (simp add: sw swap_ix_def map_update)
  then show ?case using Cons by (simp add: sw)
qed simp

lemma apply_swaps_mset: "swaps_ok (length xs) sws \<Longrightarrow> mset (apply_swaps sws xs) = mset xs"
proof (induction sws arbitrary: xs)
  case (Cons sw sws)
  obtain i j where sw: "sw = (i, j)" by (cases sw)
  have "mset (swap_ix sw xs) = mset xs" using Cons.prems by (simp add: sw swap_ix_def mset_swap)
  then show ?case using Cons by (simp add: sw)
qed simp

lemma apply_swaps_nth:
  assumes "swaps_ok (length xs) sws" "j < length xs"
  shows "apply_swaps sws xs ! j = xs ! (apply_swaps sws [0..<length xs] ! j)"
proof -
  have "apply_swaps sws (map ((!) xs) [0..<length xs]) = map ((!) xs) (apply_swaps sws [0..<length xs])"
    using assms(1) by (intro apply_swaps_map) simp
  then show ?thesis using assms(2) by (simp add: map_nth)
qed

text \<open>On a buffer the swaps move whole rows.\<close>

definition swap_all :: "nat \<Rightarrow> (nat \<times> nat) list \<Rightarrow> 'a list \<Rightarrow> 'a list" where
  "swap_all w sws xs = fold (\<lambda>(i, j). swap_elems w i j) sws xs"

lemma swap_all_simps [simp]:
  "swap_all w [] xs = xs" "swap_all w ((i, j) # sws) xs = swap_all w sws (swap_elems w i j xs)"
  by (simp_all add: swap_all_def)

lemma swap_all_length [simp]: "length (swap_all w sws xs) = length xs"
  by (induction sws arbitrary: xs) (simp_all add: swap_all_def case_prod_beta)

lemma row_bound: "i < n \<Longrightarrow> n * w \<le> l \<Longrightarrow> i * w + w \<le> (l :: nat)"
  using mult_le_mono1 [of "Suc i" n w] by simp

lemma swap_all_rows:
  assumes "swaps_ok n sws" "n * w \<le> length xs"
  shows "map (\<lambda>j. row_of w j (swap_all w sws xs)) [0..<n] = apply_swaps sws (map (\<lambda>j. row_of w j xs) [0..<n])"
  using assms
proof (induction sws arbitrary: xs)
  case (Cons sw sws)
  obtain i j where sw: "sw = (i, j)" by (cases sw)
  then have ij: "i < j" "j < n" "i < n" using Cons.prems(1) by simp_all
  note b = row_bound [OF _ Cons.prems(2)]
  have "map (\<lambda>k. row_of w k (swap_elems w i j xs)) [0..<n] = swap_ix sw (map (\<lambda>k. row_of w k xs) [0..<n])"
  proof (rule nth_equalityI)
    fix k assume "k < length (map (\<lambda>k. row_of w k (swap_elems w i j xs)) [0..<n])"
    then have k: "k < n" by simp
    then show "map (\<lambda>k. row_of w k (swap_elems w i j xs)) [0..<n] ! k = swap_ix sw (map (\<lambda>k. row_of w k xs) [0..<n]) ! k"
      using row_of_swap [OF _ b [OF ij(3)] b [OF ij(2)] b [OF k]] ij by (auto simp: sw swap_ix_def nth_list_update)
  qed (simp add: sw)
  then show ?case using Cons by (simp add: sw)
qed simp

lemma swap_all_row:
  assumes "swaps_ok n sws" "n * w \<le> length xs" "j < n"
  shows "row_of w j (swap_all w sws xs) = row_of w (apply_swaps sws [0..<n] ! j) xs"
proof -
  have "row_of w j (swap_all w sws xs) = apply_swaps sws (map (\<lambda>j. row_of w j xs) [0..<n]) ! j"
    using swap_all_rows [OF assms(1,2)] assms(3) nth_map [of j "[0..<n]" "\<lambda>j. row_of w j (swap_all w sws xs)"] by simp
  then show ?thesis using apply_swaps_map [of "[0..<n]" sws "\<lambda>j. row_of w j xs"] assms by simp
qed

section \<open>The selection sort\<close>

lemma min_from_spec:
  assumes "i < length xs"
  shows "i \<le> min_from xs i \<and> min_from xs i < length xs \<and> (\<forall>j. i \<le> j \<longrightarrow> j < length xs \<longrightarrow> xs ! min_from xs i \<le> xs ! j)"
proof -
  define I where "I m j \<longleftrightarrow> i \<le> j \<and> j < length xs \<and> (\<forall>k. i \<le> k \<longrightarrow> k < m \<longrightarrow> xs ! j \<le> xs ! k)" for m j
  have "I (length xs) (min_from xs i)"
    unfolding min_from_def
  proof (rule fold_upt_inv [where I = I])
    show "I (i + 1) i" using assms by (auto simp: I_def le_less_Suc_eq)
  next
    fix m j assume m: "i + 1 \<le> m" "m < length xs" "I m j"
    then have "xs ! (if xs ! m < xs ! j then m else j) \<le> xs ! k" if "i \<le> k" "k < Suc m" for k
      using that by (cases "k = m") (auto simp: I_def intro: order_trans [OF less_imp_le])
    then show "I (Suc m) (if xs ! m < xs ! j then m else j)" using m by (auto simp: I_def)
  qed (use assms in simp)
  then show ?thesis by (simp add: I_def)
qed

lemma sort_step_eq:
  assumes "i < length xs"
  shows "\<exists>new. sort_step i (xs, swaps) = (apply_swaps new xs, swaps @ new) \<and> swaps_ok (length xs) new \<and>
    (let ys = apply_swaps new xs in (\<forall>k < i. ys ! k = xs ! k) \<and> (\<forall>k. i \<le> k \<longrightarrow> k < length xs \<longrightarrow> ys ! i \<le> ys ! k))"
proof (cases "min_from xs i = i")
  case True
  then show ?thesis using min_from_spec [OF assms] by (intro exI [of _ "[]"]) (simp add: sort_step_def)
next
  case False
  let ?m = "min_from xs i"
  have m: "i < ?m" "?m < length xs" "\<forall>j. i \<le> j \<longrightarrow> j < length xs \<longrightarrow> xs ! ?m \<le> xs ! j"
    using min_from_spec [OF assms] False by auto
  then show ?thesis
    using False by (intro exI [of _ "[(i, ?m)]"]) (auto simp: sort_step_def Let_def swap_ix_def nth_list_update)
qed

lemma same_rest: "mset ys = mset xs \<Longrightarrow> take m ys = take m xs \<Longrightarrow> set (drop m ys) = set (drop m xs)"
proof -
  assume "mset ys = mset xs" "take m ys = take m xs"
  moreover have "mset zs = mset (take m zs) + mset (drop m zs)" for zs :: "'a list"
    unfolding mset_append [symmetric] by simp
  ultimately have "mset (drop m ys) = mset (drop m xs)" by (metis add_left_imp_eq)
  then show ?thesis by (rule mset_eq_setD)
qed

lemma set_drop_nth: "x \<in> set (drop m xs) \<longleftrightarrow> (\<exists>c. m \<le> c \<and> c < length xs \<and> x = xs ! c)"
proof
  assume "\<exists>c. m \<le> c \<and> c < length xs \<and> x = xs ! c"
  then obtain c where "m \<le> c" "c < length xs" "x = xs ! c" by blast
  then show "x \<in> set (drop m xs)" by (auto simp: in_set_conv_nth intro!: exI [of _ "c - m"])
next
  assume "x \<in> set (drop m xs)"
  then obtain i where "i < length xs - m" "x = xs ! (m + i)" by (auto simp: in_set_conv_nth)
  then show "\<exists>c. m \<le> c \<and> c < length xs \<and> x = xs ! c" by (intro exI [of _ "m + i"]) simp
qed

lemma sort_outputs_spec:
  "\<exists>new. sort_outputs xs swaps = (apply_swaps new xs, swaps @ new) \<and> swaps_ok (length xs) new \<and>
    sorted (apply_swaps new xs)"
proof -
  define I where "I m st \<longleftrightarrow> (\<exists>new. st = (apply_swaps new xs, swaps @ new) \<and> swaps_ok (length xs) new \<and>
      (\<forall>a < m. \<forall>b. a \<le> b \<longrightarrow> b < length xs \<longrightarrow> apply_swaps new xs ! a \<le> apply_swaps new xs ! b))" for m st
  have "I (length xs - 1) (sort_outputs xs swaps)"
    unfolding sort_outputs_def
  proof (rule fold_upt_inv [where I = I])
    show "I 0 (xs, swaps)" by (auto simp: I_def intro!: exI [of _ "[]"])
    fix m st assume m: "m < length xs - 1" and "I m st"
    then obtain new where new: "st = (apply_swaps new xs, swaps @ new)" "swaps_ok (length xs) new"
      "\<forall>a < m. \<forall>b. a \<le> b \<longrightarrow> b < length xs \<longrightarrow> apply_swaps new xs ! a \<le> apply_swaps new xs ! b"
      by (auto simp: I_def)
    let ?ys = "apply_swaps new xs"
    obtain sw where sw: "sort_step m (?ys, swaps @ new) = (apply_swaps sw ?ys, (swaps @ new) @ sw)"
      "swaps_ok (length xs) sw" "\<forall>k < m. apply_swaps sw ?ys ! k = ?ys ! k"
      "\<forall>k. m \<le> k \<longrightarrow> k < length xs \<longrightarrow> apply_swaps sw ?ys ! m \<le> apply_swaps sw ?ys ! k"
      using sort_step_eq [of m ?ys "swaps @ new"] m unfolding Let_def by fastforce
    have "apply_swaps sw ?ys ! a \<le> apply_swaps sw ?ys ! b" if "a < Suc m" "a \<le> b" "b < length xs" for a b
    proof (cases "a = m")
      case False
      then have a: "a < m" using that by simp
      show ?thesis
      proof (cases "b < m")
        case True
        then show ?thesis using a sw(3) new(3) that by simp
      next
        case False
        have "take m (apply_swaps sw ?ys) = take m ?ys" using sw(3) m by (intro nth_equalityI) simp_all
        then have "set (drop m (apply_swaps sw ?ys)) = set (drop m ?ys)"
          using sw(2) by (intro same_rest apply_swaps_mset) simp_all
        moreover have "apply_swaps sw ?ys ! b \<in> set (drop m (apply_swaps sw ?ys))"
          using False that by (auto simp: set_drop_nth intro!: exI [of _ b])
        ultimately have "apply_swaps sw ?ys ! b \<in> set (drop m ?ys)" by simp
        then obtain c where "m \<le> c" "c < length xs" "apply_swaps sw ?ys ! b = ?ys ! c"
          by (auto simp: set_drop_nth)
        then show ?thesis using new(3) a sw(3) by simp
      qed
    qed (use sw(4) that in simp)
    then show "I (Suc m) (sort_step m st)"
      using new sw(1,2) by (auto simp: I_def intro!: exI [of _ "new @ sw"])
  qed simp
  then obtain new where new: "sort_outputs xs swaps = (apply_swaps new xs, swaps @ new)" "swaps_ok (length xs) new"
    "\<forall>a < length xs - 1. \<forall>b. a \<le> b \<longrightarrow> b < length xs \<longrightarrow> apply_swaps new xs ! a \<le> apply_swaps new xs ! b"
    by (auto simp: I_def)
  moreover have "sorted (apply_swaps new xs)"
    unfolding sorted_iff_nth_mono
  proof (intro allI impI)
    fix a b assume ab: "a \<le> b" "b < length (apply_swaps new xs)"
    then show "apply_swaps new xs ! a \<le> apply_swaps new xs ! b"
      using new(3) by (cases "a = b") auto
  qed
  ultimately show ?thesis by blast
qed

section \<open>The table of rows\<close>

lemma write_ids_length [simp]: "length (write_ids out_ids ids) = length ids"
proof -
  have "length (fold (\<lambda>i ids. ids[out_ids ! i := int i]) is ids) = length ids" for "is"
    by (induction "is" arbitrary: ids) simp_all
  then show ?thesis by (simp add: write_ids_def)
qed

lemma write_ids_nth:
  assumes d: "distinct out_ids"
  shows "k < length out_ids \<Longrightarrow> out_ids ! k < length ids \<Longrightarrow> write_ids out_ids ids ! (out_ids ! k) = int k"
    and "t \<notin> set out_ids \<Longrightarrow> write_ids out_ids ids ! t = ids ! t"
proof -
  define I where "I m js \<longleftrightarrow> length js = length ids \<and>
      (\<forall>k < m. out_ids ! k < length ids \<longrightarrow> js ! (out_ids ! k) = int k) \<and> (\<forall>t. t \<notin> set out_ids \<longrightarrow> js ! t = ids ! t)" for m js
  have "I (length out_ids) (write_ids out_ids ids)"
    unfolding write_ids_def
  proof (rule fold_upt_inv [where I = I])
    fix m js assume m: "m < length out_ids" and js: "I m js"
    have "out_ids ! k \<noteq> out_ids ! m" if "k < m" for k using d that m by (simp add: nth_eq_iff_index_eq)
    moreover have "out_ids ! m \<noteq> t" if "t \<notin> set out_ids" for t using m that by auto
    ultimately show "I (Suc m) (js[out_ids ! m := int m])"
      using js by (fastforce simp: I_def less_Suc_eq)
  qed (simp_all add: I_def)
  then show "k < length out_ids \<Longrightarrow> out_ids ! k < length ids \<Longrightarrow> write_ids out_ids ids ! (out_ids ! k) = int k"
    "t \<notin> set out_ids \<Longrightarrow> write_ids out_ids ids ! t = ids ! t" by (simp_all add: I_def)
qed

section \<open>What the accessors see\<close>

text \<open>A buffer has room for \<open>n\<close> rows of width \<open>w\<close>.\<close>

definition fits :: "nat \<Rightarrow> nat \<Rightarrow> 'a buffer_view \<Rightarrow> bool" where
  "fits w n v = (case v of No_data \<Rightarrow> False | View xs \<Rightarrow> n * w \<le> length xs | Dangling \<Rightarrow> False)"

definition perm_view :: "nat \<Rightarrow> (nat \<times> nat) list \<Rightarrow> 'a buffer_view \<Rightarrow> 'a buffer_view" where
  "perm_view w sws v = (case v of View xs \<Rightarrow> View (swap_all w sws xs) | _ \<Rightarrow> v)"

lemma perm_view_simps [simp]:
  "perm_view w [] v = v" "perm_view w sws No_data = No_data"
  "perm_view w sws v = No_data \<longleftrightarrow> v = No_data"
  "fits w n (perm_view w' sws v) = fits w n v" "buf_size (perm_view w sws v) = buf_size v"
  by (simp_all add: perm_view_def fits_def buf_size_def split: buffer_view.splits)

lemma perm_view_Cons: "perm_view w ((i, j) # sws) v = perm_view w sws (perm_view w [(i, j)] v)"
  by (simp add: perm_view_def split: buffer_view.splits)

lemma swap_rows_fits:
  assumes "fits w n v" "i < j" "j < n"
  shows "swap_rows w i j v = Inr (perm_view w [(i, j)] v)"
  using assms row_bound [of i n w] row_bound [of j n w]
  by (auto simp: fits_def swap_rows_def perm_view_def split: buffer_view.splits)

lemma view_row_perm:
  assumes "fits w n v" "swaps_ok n sws" "j < n"
  shows "view_row w j (perm_view w sws v) = view_row w (apply_swaps sws [0..<n] ! j) v"
proof -
  obtain xs where v: "v = View xs" "n * w \<le> length xs" using assms(1) by (auto simp: fits_def split: buffer_view.splits)
  have "apply_swaps sws [0..<n] ! j \<in> set (apply_swaps sws [0..<n])" using assms(3) by simp
  also have "\<dots> = set [0..<n]" using assms(2) by (intro mset_eq_setD apply_swaps_mset) simp
  finally have "apply_swaps sws [0..<n] ! j < n" by simp
  then show ?thesis
    using row_bound [OF _ v(2)] assms(3) swap_all_row [OF assms(2) v(2) assms(3)]
    by (simp add: v(1) perm_view_def view_row_def)
qed

text \<open>
  The buffers after a batch with \<open>n\<close> outputs. With backend samplers there are views for what they
  produce, one row per output.
\<close>

definition sampling_ok :: "nat \<Rightarrow> nat \<Rightarrow> 'f sampling_info \<Rightarrow> bool" where
  "sampling_ok n_vocab n sm \<longleftrightarrow> sm_samplers sm = [] \<or>
     fits n_vocab n (sm_logits sm) \<and> fits n_vocab n (sm_probs sm) \<and> fits n_vocab n (sm_candidates sm) \<and>
     fits 1 n (sm_sampled sm) \<and> n \<le> length (sm_logits_count sm) \<and> n \<le> length (sm_probs_count sm) \<and>
     n \<le> length (sm_candidates_count sm)"

definition outputs_ok :: "llama_model \<Rightarrow> nat \<Rightarrow> 'f outputs \<Rightarrow> bool" where
  "outputs_ok md n o0 \<longleftrightarrow> fits (md_n_vocab md) n (o_logits o0) \<and>
     (o_embd o0 = No_data \<or> fits (unat (n_embd_out (md_hparams md))) n (o_embd o0)) \<and>
     sampling_ok (md_n_vocab md) n (o_sampling o0)"

text \<open>The swaps use the width \<open>n_embd\<close> for the embeddings, which have the width \<open>n_embd_out\<close>; they stay in the buffer.\<close>

definition embd_fits :: "llama_model \<Rightarrow> nat \<Rightarrow> 'f outputs \<Rightarrow> bool" where
  "embd_fits md n o0 \<longleftrightarrow> o_embd o0 = No_data \<or> fits (unat (hp_n_embd (md_hparams md))) n (o_embd o0)"

lemma embd_fits_uniform: "outputs_ok md n o0 \<Longrightarrow> n_embd_out (md_hparams md) = hp_n_embd (md_hparams md) \<Longrightarrow> embd_fits md n o0"
  by (auto simp: outputs_ok_def embd_fits_def)

definition perm_sampling :: "nat \<Rightarrow> (nat \<times> nat) list \<Rightarrow> 'f sampling_info \<Rightarrow> 'f sampling_info" where
  "perm_sampling n_vocab sws sm =
    (if sm_samplers sm = [] then sm
     else sm\<lparr>sm_logits := perm_view n_vocab sws (sm_logits sm), sm_probs := perm_view n_vocab sws (sm_probs sm),
       sm_candidates := perm_view n_vocab sws (sm_candidates sm), sm_sampled := perm_view 1 sws (sm_sampled sm),
       sm_logits_count := swap_all 1 sws (sm_logits_count sm), sm_probs_count := swap_all 1 sws (sm_probs_count sm),
       sm_candidates_count := swap_all 1 sws (sm_candidates_count sm)\<rparr>)"

lemma perm_sampling_simps [simp]:
  "perm_sampling v [] sm = sm" "sampling_ok v n (perm_sampling v sws sm) = sampling_ok v n sm"
  by (simp_all add: perm_sampling_def sampling_ok_def)

lemma perm_sampling_Cons: "perm_sampling v ((i, j) # sws) sm = perm_sampling v sws (perm_sampling v [(i, j)] sm)"
  by (simp add: perm_sampling_def perm_view_Cons [of _ i j sws])

lemma swap_vec_ok: "i < j \<Longrightarrow> j < n \<Longrightarrow> n \<le> length xs \<Longrightarrow> swap_vec i j xs = Inr (swap_all 1 [(i, j)] xs)"
  by (simp add: swap_vec_def)

lemma reorder_sampling_ok:
  assumes "sampling_ok v n sm" "i < j" "j < n"
  shows "reorder_sampling v i j sm = Inr (perm_sampling v [(i, j)] sm)"
proof (cases "sm_samplers sm = []")
  case False
  then have ok: "fits v n (sm_logits sm)" "fits v n (sm_probs sm)" "fits v n (sm_candidates sm)" "fits 1 n (sm_sampled sm)"
    "n \<le> length (sm_logits_count sm)" "n \<le> length (sm_probs_count sm)" "n \<le> length (sm_candidates_count sm)"
    using assms(1) by (simp_all add: sampling_ok_def)
  note sw = ok(1-4) [THEN swap_rows_fits, OF assms(2,3)] ok(5-7) [THEN swap_vec_ok [OF assms(2,3)]]
  show ?thesis
    unfolding reorder_sampling_def perm_sampling_def sw bind_res_simps using False by simp
qed (simp add: reorder_sampling_def perm_sampling_def)

definition perm_outputs :: "llama_model \<Rightarrow> (nat \<times> nat) list \<Rightarrow> 'f outputs \<Rightarrow> 'f outputs" where
  "perm_outputs md sws o0 =
     o0\<lparr>o_logits := perm_view (md_n_vocab md) sws (o_logits o0),
        o_embd := perm_view (unat (hp_n_embd (md_hparams md))) sws (o_embd o0),
        o_sampling := perm_sampling (md_n_vocab md) sws (o_sampling o0)\<rparr>"

lemma swap_all_Nil [simp]: "swap_all w sws [] = []"
  using swap_all_length [of w sws "[]"] by (simp del: swap_all_length)

lemma fits_empty: "buf_size v = 0 \<Longrightarrow> perm_view w sws v = v"
  by (auto simp: buf_size_def perm_view_def split: buffer_view.splits)

lemma reorder_one_ok:
  assumes "outputs_ok md n o0" "embd_fits md n o0" "i < j" "j < n"
  shows "reorder_one md (i, j) o0 = Inr (perm_outputs md [(i, j)] o0)"
proof -
  have lg: "(if buf_size (o_logits o0) > 0 then swap_rows (md_n_vocab md) i j (o_logits o0) else Inr (o_logits o0)) =
      Inr (perm_view (md_n_vocab md) [(i, j)] (o_logits o0))"
    using assms swap_rows_fits [of "md_n_vocab md" n "o_logits o0" i j] fits_empty [of "o_logits o0"]
    by (simp add: outputs_ok_def)
  let ?w = "unat (hp_n_embd (md_hparams md))"
  have "o_embd o0 = No_data \<or> fits ?w n (o_embd o0)"
    using assms(2) by (simp add: embd_fits_def)
  then have em: "(if buf_size (o_embd o0) > 0 then swap_rows ?w i j (o_embd o0) else Inr (o_embd o0)) =
      Inr (perm_view ?w [(i, j)] (o_embd o0))"
    using assms(3,4) swap_rows_fits [of ?w n "o_embd o0" i j] fits_empty [of "o_embd o0"]
    by (auto simp: buf_size_def)
  have "reorder_sampling (md_n_vocab md) i j (o_sampling o0) = Inr (perm_sampling (md_n_vocab md) [(i, j)] (o_sampling o0))"
    using assms by (intro reorder_sampling_ok) (simp_all add: outputs_ok_def)
  with lg em show ?thesis by (simp add: reorder_one_def perm_outputs_def)
qed

lemma perm_outputs_keeps:
  "outputs_ok md n (perm_outputs md sws o0) = outputs_ok md n o0"
  "embd_fits md n (perm_outputs md sws o0) = embd_fits md n o0"
  by (simp_all add: outputs_ok_def embd_fits_def perm_outputs_def)

lemma reorder_loop_ok:
  "outputs_ok md n o0 \<Longrightarrow> embd_fits md n o0 \<Longrightarrow> swaps_ok n sws \<Longrightarrow> reorder_loop md sws o0 = Inr (perm_outputs md sws o0)"
proof (induction sws arbitrary: o0)
  case Nil
  then show ?case by (simp add: perm_outputs_def)
next
  case (Cons sw sws)
  obtain i j where sw: "sw = (i, j)" by (cases sw)
  have "perm_outputs md sws (perm_outputs md [(i, j)] o0) = perm_outputs md ((i, j) # sws) o0"
    by (simp add: perm_outputs_def perm_view_Cons [of _ i j sws] perm_sampling_Cons [of _ i j sws])
  then show ?case
    using Cons.prems Cons.IH [of "perm_outputs md [(i, j)] o0"] reorder_one_ok [of md n o0 i j]
    by (simp add: sw perm_outputs_keeps)
qed

lemma output_reorder_ok:
  "outputs_ok md n o0 \<Longrightarrow> embd_fits md n o0 \<Longrightarrow> swaps_ok n (o_swaps o0) \<Longrightarrow>
     output_reorder md o0 = Inr ((perm_outputs md (o_swaps o0) o0)\<lparr>o_swaps := []\<rparr>)"
  by (simp add: output_reorder_def reorder_loop_ok)

lemma map_outputs_spec:
  fixes o0 :: "'f outputs"
  assumes n: "o_n_outputs o0 = length out_ids" and d: "distinct out_ids"
    and lt: "\<forall>t \<in> set out_ids. t < length (o_ids o0)" and sw: "o_swaps o0 = []" and ids: "\<forall>j \<in> set (o_ids o0). j = -1"
  shows "\<exists>sws ids'. map_outputs out_ids o0 = Inr (apply_swaps sws out_ids, o0\<lparr>o_swaps := sws, o_ids := ids'\<rparr>) \<and>
    swaps_ok (length out_ids) sws \<and> sorted (apply_swaps sws out_ids) \<and> length ids' = length (o_ids o0) \<and>
    (\<forall>k < length out_ids. ids' ! (apply_swaps sws out_ids ! k) = int k) \<and>
    (\<forall>t < length ids'. t \<notin> set out_ids \<longrightarrow> ids' ! t = -1)"
proof (cases "list_all (\<lambda>i. out_ids ! i = i) [0..<length out_ids] \<or> \<not> length out_ids > 1")
  case True
  have none: "map_outputs out_ids o0 = Inr (out_ids, o0\<lparr>o_swaps := [], o_ids := write_ids out_ids (o_ids o0)\<rparr>)"
    using True n sw by (cases "out_ids = []") (auto simp: map_outputs_def write_ids_def Let_def)
  have "sorted out_ids"
  proof (cases "length out_ids > 1")
    case True
    then have "\<forall>i < length out_ids. out_ids ! i = i" using \<open>_ \<or> _\<close> by (auto simp: list_all_iff)
    then show ?thesis by (simp add: sorted_iff_nth_mono)
  next
    case False
    then show ?thesis by (cases out_ids) auto
  qed
  then show ?thesis
    using none write_ids_nth [OF d, of _ "o_ids o0"] lt ids
    by (intro exI [of _ "[]"] exI [of _ "write_ids out_ids (o_ids o0)"]) simp
next
  case False
  obtain new where new: "sort_outputs out_ids [] = (apply_swaps new out_ids, new)" "swaps_ok (length out_ids) new"
    "sorted (apply_swaps new out_ids)"
    using sort_outputs_spec [of out_ids "[]"] by auto
  let ?ys = "apply_swaps new out_ids"
  let ?ids = "write_ids ?ys (replicate (length (o_ids o0)) (-1))"
  have perm: "set ?ys = set out_ids" "distinct ?ys"
    using apply_swaps_mset [OF new(2)] d by (auto dest: mset_eq_setD mset_eq_imp_distinct_iff)
  have "map_outputs out_ids o0 = Inr (?ys, o0\<lparr>o_swaps := new, o_ids := ?ids\<rparr>)"
    using False n sw new(1) by (auto simp: map_outputs_def Let_def)
  moreover have "?ids ! (?ys ! k) = int k" if "k < length out_ids" for k
    using that lt perm nth_mem [of k ?ys] by (intro write_ids_nth) auto
  moreover have "?ids ! t = -1" if "t < length (o_ids o0)" "t \<notin> set out_ids" for t
    using that perm write_ids_nth(2) [OF perm(2), of t "replicate (length (o_ids o0)) (-1)"] by simp
  ultimately show ?thesis using new(2,3) by (intro exI [of _ new] exI [of _ ?ids]) simp
qed

text \<open>The index of an entry in a sorted list without duplicates is the number of smaller entries.\<close>

lemma sorted_rank:
  assumes "sorted xs" "distinct xs" "j < length xs"
  shows "j = card {t \<in> set xs. t < xs ! j}"
proof -
  have "sorted_wrt (<) xs" using assms by (simp add: strict_sorted_iff)
  then have lt: "xs ! a < xs ! b \<longleftrightarrow> a < b" if "a < length xs" "b < length xs" for a b
    using that by (metis linorder_neqE_nat not_less_iff_gr_or_eq sorted_wrt_nth_less)
  have "{t \<in> set xs. t < xs ! j} = (!) xs ` {..<j}"
  proof (intro set_eqI iffI)
    fix t assume "t \<in> {t \<in> set xs. t < xs ! j}"
    then obtain a where "a < length xs" "t = xs ! a" "xs ! a < xs ! j" by (auto simp: in_set_conv_nth)
    then show "t \<in> (!) xs ` {..<j}" using lt [OF _ assms(3)] by auto
  next
    fix t assume "t \<in> (!) xs ` {..<j}"
    then obtain a where "a < j" "t = xs ! a" by auto
    then show "t \<in> {t \<in> set xs. t < xs ! j}" using lt [OF _ assms(3), of a] assms(3) by simp
  qed
  moreover have "inj_on ((!) xs) {..<j}" using assms by (auto simp: inj_on_def nth_eq_iff_index_eq)
  ultimately show ?thesis by (simp add: card_image)
qed

text \<open>What every accessor relies on: the row of a token, and where its content was written.\<close>

lemma outputs_resolved:
  fixes o0 :: "'f outputs"
  assumes ok: "outputs_ok md (length out_ids) o0" "embd_fits md (length out_ids) o0" and n: "o_n_outputs o0 = length out_ids"
    and d: "distinct out_ids" and lt: "\<forall>t \<in> set out_ids. t < length (o_ids o0)"
    and sw: "o_swaps o0 = []" and ids: "\<forall>j \<in> set (o_ids o0). j = -1"
  shows "\<exists>ids o1 sws. map_outputs out_ids o0 = Inr (ids, o1) \<and> swaps_ok (length out_ids) sws \<and>
    output_reorder md o1 = Inr ((perm_outputs md sws o1)\<lparr>o_swaps := []\<rparr>) \<and>
    o1 = o0\<lparr>o_swaps := sws, o_ids := o_ids o1\<rparr> \<and> length (o_ids o1) = length (o_ids o0) \<and>
    (\<forall>k < length out_ids. let j = card {t \<in> set out_ids. t < out_ids ! k} in
       j < length out_ids \<and> o_ids o1 ! (out_ids ! k) = int j \<and> apply_swaps sws [0..<length out_ids] ! j = k) \<and>
    (\<forall>t < length (o_ids o0). t \<notin> set out_ids \<longrightarrow> o_ids o1 ! t = -1)"
proof -
  obtain sws ids' where m: "map_outputs out_ids o0 = Inr (apply_swaps sws out_ids, o0\<lparr>o_swaps := sws, o_ids := ids'\<rparr>)"
    "swaps_ok (length out_ids) sws" "sorted (apply_swaps sws out_ids)" "length ids' = length (o_ids o0)"
    "\<forall>k < length out_ids. ids' ! (apply_swaps sws out_ids ! k) = int k"
    "\<forall>t < length ids'. t \<notin> set out_ids \<longrightarrow> ids' ! t = -1"
    using map_outputs_spec [OF n d lt sw ids] by auto
  let ?o1 = "o0\<lparr>o_swaps := sws, o_ids := ids'\<rparr>" and ?n = "length out_ids"
  let ?ys = "apply_swaps sws out_ids" and ?ps = "apply_swaps sws [0..<length out_ids]"
  have ok1: "outputs_ok md ?n ?o1" "embd_fits md ?n ?o1" using ok by (simp_all add: outputs_ok_def embd_fits_def)
  have reorder: "output_reorder md ?o1 = Inr ((perm_outputs md sws ?o1)\<lparr>o_swaps := []\<rparr>)"
    using output_reorder_ok [OF ok1] m(2) by simp
  have ys: "set ?ys = set out_ids" "distinct ?ys"
    using apply_swaps_mset [OF m(2)] d by (auto dest: mset_eq_setD mset_eq_imp_distinct_iff)
  have ps: "set ?ps = {0..<?n}"
    using mset_eq_setD [OF apply_swaps_mset [of "[0..<?n]" sws]] m(2) by simp
  have row: "let j = card {t \<in> set out_ids. t < out_ids ! k} in j < ?n \<and> ids' ! (out_ids ! k) = int j \<and> ?ps ! j = k"
    if k: "k < ?n" for k
  proof -
    obtain j where j: "j < ?n" "?ps ! j = k" using ps k in_set_conv_nth [of k ?ps] by auto
    then have eq: "?ys ! j = out_ids ! k" using apply_swaps_nth [OF m(2)] by simp
    then have "j = card {t \<in> set out_ids. t < out_ids ! k}" using sorted_rank [OF m(3) ys(2), of j] j(1) ys(1) by simp
    then show ?thesis using j eq m(5) by (auto simp: Let_def)
  qed
  have none: "ids' ! t = -1" if "t < length (o_ids o0)" "t \<notin> set out_ids" for t using m(4,6) that by simp
  show ?thesis
    by (intro exI [of _ ?ys] exI [of _ ?o1] exI [of _ sws])
      (use m(1,2,4) reorder row none in \<open>simp add: Let_def\<close>)
qed

section \<open>A small run\<close>

text \<open>A model with two tokens, and with embeddings of the widths \<open>n\<close> inside and \<open>m\<close> outside.\<close>

definition demo_model :: "u32 \<Rightarrow> u32 \<Rightarrow> llama_model" where
  "demo_model n m = \<lparr>md_hparams = demo_hp\<lparr>hp_n_embd := n, hp_n_embd_out_impl := m\<rparr>, md_n_vocab = 2, md_n_cls_out = 1, md_is_t5 = False\<rparr>"

definition no_sampling :: "nat sampling_info" where
  "no_sampling = \<lparr>sm_samplers = [], sm_logits = No_data, sm_probs = No_data, sm_sampled = No_data, sm_candidates = No_data,
     sm_logits_count = [], sm_probs_count = [], sm_candidates_count = []\<rparr>"

text \<open>Two outputs whose rows are written, before the mapping is set.\<close>

definition demo_outputs :: "nat list \<Rightarrow> nat outputs" where
  "demo_outputs em = \<lparr>o_ids = [-1, -1, -1], o_swaps = [], o_n_outputs = 2, o_buf = Some 32,
     o_logits = View [10, 11, 20, 21], o_embd = View em, o_embd_seq = Map.empty, o_sampling = no_sampling\<rparr>"

section \<open>Properties\<close>

text \<open>
  C3. The outputs of a batch reach the user in the order of the batch, although the rows are written
  in the order of the micro-batches and the sort only remembers its swaps: after the mapping is
  set and the swaps are applied, token \<open>out_ids[k]\<close> has the row whose number is the number of output
  tokens before it, and this row holds the logits and the sampled token that were written to row \<open>k\<close>, and,
  for a model whose output embeddings have the width \<open>n_embd\<close>, also the embedding; a token without output has
  no row. The buffers are large enough for the rows, the embeddings also with the width \<open>n_embd\<close> of
  the swaps. With another width of the output embeddings the swaps mix their rows.
\<close>

theorem outputs_in_user_order:
  fixes o0 :: "'f outputs"
  assumes "outputs_ok md (length out_ids) o0" "embd_fits md (length out_ids) o0" and "o_n_outputs o0 = length out_ids"
    and "distinct out_ids" and "\<forall>t \<in> set out_ids. t < length (o_ids o0)"
    and "o_swaps o0 = []" and "\<forall>j \<in> set (o_ids o0). j = -1"
  shows "\<exists>ids o1 o2. map_outputs out_ids o0 = Inr (ids, o1) \<and> output_reorder md o1 = Inr o2 \<and> o_swaps o2 = [] \<and>
    (\<forall>k < length out_ids. let j = card {t \<in> set out_ids. t < out_ids ! k} in
       output_resolve_row (int (out_ids ! k)) o2 = Inr j \<and>
       view_row (md_n_vocab md) j (o_logits o2) = view_row (md_n_vocab md) k (o_logits o0) \<and>
       (o_embd o0 \<noteq> No_data \<and> n_embd_out (md_hparams md) = hp_n_embd (md_hparams md) \<longrightarrow> view_row (unat (n_embd_out (md_hparams md))) j (o_embd o2) =
          view_row (unat (n_embd_out (md_hparams md))) k (o_embd o0)) \<and>
       (sm_samplers (o_sampling o0) \<noteq> [] \<longrightarrow>
          view_row 1 j (sm_sampled (o_sampling o2)) = view_row 1 k (sm_sampled (o_sampling o0)))) \<and>
    (\<forall>t < length (o_ids o0). t \<notin> set out_ids \<longrightarrow> (\<exists>e. output_resolve_row (int t) o2 = Inl e))"
proof -
  let ?n = "length out_ids"
  obtain ids o1 sws where m: "map_outputs out_ids o0 = Inr (ids, o1)" "swaps_ok ?n sws"
    "output_reorder md o1 = Inr ((perm_outputs md sws o1)\<lparr>o_swaps := []\<rparr>)"
    "o1 = o0\<lparr>o_swaps := sws, o_ids := o_ids o1\<rparr>" "length (o_ids o1) = length (o_ids o0)"
    "\<forall>k < ?n. let j = card {t \<in> set out_ids. t < out_ids ! k} in
       j < ?n \<and> o_ids o1 ! (out_ids ! k) = int j \<and> apply_swaps sws [0..<?n] ! j = k"
    "\<forall>t < length (o_ids o0). t \<notin> set out_ids \<longrightarrow> o_ids o1 ! t = -1"
    using outputs_resolved [OF assms] by auto
  let ?o2 = "(perm_outputs md sws o1)\<lparr>o_swaps := []\<rparr>"
  have same: "o_logits o1 = o_logits o0" "o_embd o1 = o_embd o0" "o_sampling o1 = o_sampling o0" "o_n_outputs o1 = ?n"
    using assms(3) by (subst m(4), simp)+
  have o2: "o_ids ?o2 = o_ids o1" "o_n_outputs ?o2 = ?n" "o_logits ?o2 = perm_view (md_n_vocab md) sws (o_logits o0)"
    "o_embd ?o2 = perm_view (unat (hp_n_embd (md_hparams md))) sws (o_embd o0)"
    "o_sampling ?o2 = perm_sampling (md_n_vocab md) sws (o_sampling o0)"
    using same by (simp_all add: perm_outputs_def)
  have "let j = card {t \<in> set out_ids. t < out_ids ! k} in
       output_resolve_row (int (out_ids ! k)) ?o2 = Inr j \<and>
       view_row (md_n_vocab md) j (o_logits ?o2) = view_row (md_n_vocab md) k (o_logits o0) \<and>
       (o_embd o0 \<noteq> No_data \<and> n_embd_out (md_hparams md) = hp_n_embd (md_hparams md) \<longrightarrow> view_row (unat (n_embd_out (md_hparams md))) j (o_embd ?o2) =
          view_row (unat (n_embd_out (md_hparams md))) k (o_embd o0)) \<and>
       (sm_samplers (o_sampling o0) \<noteq> [] \<longrightarrow>
          view_row 1 j (sm_sampled (o_sampling ?o2)) = view_row 1 k (sm_sampled (o_sampling o0)))" if k: "k < ?n" for k
  proof -
    define j where "j = card {t \<in> set out_ids. t < out_ids ! k}"
    have j: "j < ?n" "o_ids o1 ! (out_ids ! k) = int j" "apply_swaps sws [0..<?n] ! j = k"
      using m(6) k by (auto simp: j_def Let_def)
    have "out_ids ! k < length (o_ids o1)" using assms(5) k m(5) by simp
    then have "output_resolve_row (int (out_ids ! k)) ?o2 = Inr j"
      unfolding output_resolve_row_def o2 using j by simp
    moreover have "fits (md_n_vocab md) ?n (o_logits o0)" "sampling_ok (md_n_vocab md) ?n (o_sampling o0)"
      "o_embd o0 \<noteq> No_data \<Longrightarrow> fits (unat (n_embd_out (md_hparams md))) ?n (o_embd o0)"
      using assms(1) by (auto simp: outputs_ok_def)
    ultimately show ?thesis
      unfolding j_def [symmetric] Let_def o2
      by (auto simp: perm_sampling_def sampling_ok_def view_row_perm [OF _ m(2) j(1), unfolded j(3)])
  qed
  moreover have "\<exists>e. output_resolve_row (int t) ?o2 = Inl e" if "t < length (o_ids o0)" "t \<notin> set out_ids" for t
    unfolding output_resolve_row_def o2 using m(5,7) that by simp
  ultimately show ?thesis using m(1,3) by (intro exI [of _ ids] exI [of _ o1] exI [of _ ?o2]) simp
qed

theorem outputs_in_user_order_witness:
  "\<exists>ids o1 o2. map_outputs [2, 0] (demo_outputs [1, 2]) = Inr (ids, o1) \<and> output_reorder (demo_model 1 1) o1 = Inr o2 \<and>
     output_resolve_row 0 o2 = Inr 0 \<and> view_row 2 0 (o_logits o2) = Inr [20, 21] \<and> view_row 1 0 (o_embd o2) = Inr [2]"
proof -
  have h: "outputs_ok (demo_model 1 1) (length [2, 0]) (demo_outputs [1, 2])"
    "embd_fits (demo_model 1 1) (length [2, 0]) (demo_outputs [1, 2])"
    "o_n_outputs (demo_outputs [1, 2]) = length [2, 0 :: nat]" "distinct [2, 0 :: nat]"
    "\<forall>t \<in> set [2, 0]. t < length (o_ids (demo_outputs [1, 2]))" "o_swaps (demo_outputs [1, 2]) = []"
    "\<forall>j \<in> set (o_ids (demo_outputs [1, 2])). j = -1"
    by code_simp+
  have c: "card {t \<in> set [2, 0 :: nat]. t < [2, 0] ! 1} = 0" "md_n_vocab (demo_model 1 1) = 2"
    "view_row 2 1 (o_logits (demo_outputs [1, 2])) = Inr [20, 21]" "1 < length [2, 0 :: nat]" "int ([2, 0] ! 1) = 0"
    "unat (n_embd_out (md_hparams (demo_model 1 1))) = 1" "view_row 1 1 (o_embd (demo_outputs [1, 2])) = Inr [2]"
    by code_simp+
  have e: "o_embd (demo_outputs [1, 2]) \<noteq> No_data" "n_embd_out (md_hparams (demo_model 1 1)) = hp_n_embd (md_hparams (demo_model 1 1))"
    by code_simp+
  obtain ids o1 o2 where o: "map_outputs [2, 0] (demo_outputs [1, 2]) = Inr (ids, o1)" "output_reorder (demo_model 1 1) o1 = Inr o2"
    and row: "\<forall>k < length [2, 0 :: nat]. let j = card {t \<in> set [2, 0 :: nat]. t < [2, 0] ! k} in
       output_resolve_row (int ([2, 0] ! k)) o2 = Inr j \<and>
       view_row (md_n_vocab (demo_model 1 1)) j (o_logits o2) = view_row (md_n_vocab (demo_model 1 1)) k (o_logits (demo_outputs [1, 2])) \<and>
       view_row (unat (n_embd_out (md_hparams (demo_model 1 1)))) j (o_embd o2) =
         view_row (unat (n_embd_out (md_hparams (demo_model 1 1)))) k (o_embd (demo_outputs [1, 2]))"
    using outputs_in_user_order [OF h] e unfolding Let_def by blast
  have "output_resolve_row 0 o2 = Inr 0" "view_row 2 0 (o_logits o2) = Inr [20, 21]" "view_row 1 0 (o_embd o2) = Inr [2]"
    using row [rule_format, OF c(4)] unfolding Let_def c by simp_all
  then show ?thesis using o by blast
qed

text \<open>
  The embeddings are written and read with the width \<open>n_embd_out\<close> but swapped with the width
  \<open>n_embd\<close>. With an inner width of 1 and an outer width of 2, token 0, whose embedding was written
  as \<open>[3, 4]\<close>, gets the two elements of the other row, in the wrong order.
\<close>

lemma embd_reorder_width:
  "case map_outputs [1, 0] (demo_outputs [1, 2, 3, 4]) of Inl _ \<Rightarrow> False
   | Inr (_, o1) \<Rightarrow> (case get_embeddings_ith (demo_model 1 2) 0 o1 of
       Inr (row, _) \<Rightarrow> row = Some [2, 1] \<and> view_row 2 1 (o_embd o1) = Inr [3, 4]
     | Inl _ \<Rightarrow> False)"
  by code_simp

end
