(* ===== verification/Decode.thy ===== *)
theory Decode
  imports KvContract Outputs
begin

text \<open>
  Decoding a batch (\<open>llama_context::decode\<close> and what it calls in \<open>src/llama-context.cpp\<close>) on a
  context whose memory is a KV cache: pending updates, the slots for the micro-batches with one
  retry after an update, the loop over the micro-batches, the removal of a failed micro-batch from
  the memory, the return codes, and the mapping of the outputs. The compute graph is a parameter:
  whether it is reused, built and allocated, and what computing it returns and leaves in the
  buffers of the cache. Timing, the reservation of the worst-case graph and the path of encoder
  models without a memory are left out.
\<close>

section \<open>State\<close>

datatype ggml_status =
    GGML_STATUS_ALLOC_FAILED
  | GGML_STATUS_FAILED
  | GGML_STATUS_SUCCESS
  | GGML_STATUS_ABORTED

record ('d, 'f) graph_backend =
  bk_mem :: "'f mem_backend"
  bk_kshift :: "'d kv_cache \<Rightarrow> 'd list option"
  bk_reuse :: "llama_ubatch \<Rightarrow> 'd kv_cache \<Rightarrow> bool"
  bk_build :: "llama_ubatch \<Rightarrow> 'd kv_cache \<Rightarrow> bool"
  bk_alloc_graph :: "llama_ubatch \<Rightarrow> 'd kv_cache \<Rightarrow> bool"
  bk_compute :: "llama_ubatch \<Rightarrow> 'd kv_cache \<Rightarrow> ggml_status \<times> 'd list \<times> 'f graph_result"

record ('d, 'f) llama_context =
  lc_memory :: "'d kv_cache"
  lc_balloc :: llama_batch_allocr
  lc_out :: "'f outputs"
  lc_n_queued_tokens :: nat
  lc_n_reused :: nat

section \<open>Updates and slots\<close>

text \<open>
  The KV cache does not use the flag \<open>optimize\<close>. The result says whether there was an update; a failed
  one is only logged.
\<close>

definition memory_update ::
    "('d, 'f) graph_backend \<Rightarrow> bool \<Rightarrow> ('d, 'f) llama_context \<Rightarrow> (bool \<times> ('d, 'f) llama_context) res" where
  "memory_update bk optimize lc =
    (case kv_init_update (lc_memory lc) of (cx, kv1) \<Rightarrow>
       (case cx_status cx of
          LLAMA_MEMORY_STATUS_SUCCESS \<Rightarrow>
            bind_res (kv_ctx_apply (bk_kshift bk) cx kv1) (\<lambda>(ok, cx', kv2). Inr (True, lc\<lparr>lc_memory := kv2\<rparr>))
        | _ \<Rightarrow> Inr (False, lc\<lparr>lc_memory := kv1\<rparr>)))"

text \<open>The loop that asks for slots: a return code, or the context of the micro-batches.\<close>

function init_loop ::
    "bool \<Rightarrow> ('d, 'f) graph_backend \<Rightarrow> nat \<Rightarrow> ('d, 'f) llama_context \<Rightarrow>
     ((int + kv_cache_context) \<times> ('d, 'f) llama_context) res option" where
  "init_loop did_optimize bk n_ubatch lc =
    (case kv_init_batch (lc_balloc lc) n_ubatch (lc_memory lc) of
       None \<Rightarrow> None
     | Some (Inl e) \<Rightarrow> Some (Inl e)
     | Some (Inr (cx, ba, kv)) \<Rightarrow>
         (let lc1 = lc\<lparr>lc_balloc := ba, lc_memory := kv\<rparr> in
          case cx_status cx of
            LLAMA_MEMORY_STATUS_SUCCESS \<Rightarrow> Some (Inr (Inr cx, lc1))
          | LLAMA_MEMORY_STATUS_NO_UPDATE \<Rightarrow> Some (Inr (Inl (-2), lc1))
          | LLAMA_MEMORY_STATUS_FAILED_COMPUTE \<Rightarrow> Some (Inr (Inl (-2), lc1))
          | LLAMA_MEMORY_STATUS_FAILED_PREPARE \<Rightarrow>
              if \<not> did_optimize then
                (case memory_update bk True lc1 of
                   Inl e \<Rightarrow> Some (Inl e)
                 | Inr (True, lc2) \<Rightarrow> init_loop True bk n_ubatch lc2
                 | Inr (False, lc2) \<Rightarrow> Some (Inr (Inl 1, lc2)))
              else Some (Inr (Inl 1, lc1))))"
  by pat_completeness auto

termination init_loop
  by (relation "measure (\<lambda>(did, _). if did then 0 else 1)") auto

declare init_loop.simps [simp del]

section \<open>One micro-batch\<close>

text \<open>The memory takes the micro-batch in, then the graph is reused or built, and computed.\<close>

definition process_ubatch ::
    "('d, 'f) graph_backend \<Rightarrow> llama_ubatch \<Rightarrow> kv_cache_context \<Rightarrow> ('d, 'f) llama_context \<Rightarrow>
     (ggml_status \<times> 'f graph_result option \<times> kv_cache_context \<times> ('d, 'f) llama_context) res" where
  "process_ubatch bk ub cx lc =
     bind_res (kv_ctx_apply (bk_kshift bk) cx (lc_memory lc)) (\<lambda>(ok, cx1, kv1).
       let lc1 = lc\<lparr>lc_memory := kv1\<rparr>;
           run = (\<lambda>lc. case bk_compute bk ub (lc_memory lc) of (st, bufs, r) \<Rightarrow>
                    let lc' = lc\<lparr>lc_memory := (lc_memory lc)\<lparr>kv_buf := bufs\<rparr>\<rparr>
                    in if st \<noteq> GGML_STATUS_SUCCESS then Inr (st, None, cx1, lc')
                       else Inr (GGML_STATUS_SUCCESS, Some r, cx1, lc'))
       in if \<not> ok then Inr (GGML_STATUS_FAILED, None, cx1, lc1)
          else if bk_reuse bk ub kv1 then run (lc1\<lparr>lc_n_reused := lc_n_reused lc1 + 1\<rparr>)
          else if \<not> bk_build bk ub kv1 then Inr (GGML_STATUS_FAILED, None, cx1, lc1)
          else if \<not> bk_alloc_graph bk ub kv1 then Inr (GGML_STATUS_ALLOC_FAILED, None, cx1, lc1)
          else run lc1)"

definition count_ub_outputs :: "nat \<Rightarrow> nat \<Rightarrow> llama_ubatch \<Rightarrow> nat" where
  "count_ub_outputs n_outputs_all n_tokens_all ub =
    (if n_outputs_all = n_tokens_all then ub_n_tokens ub
     else fold (\<lambda>i n. n + (if ub_output ub ! i \<noteq> 0 then 1 else 0)) [0..<ub_n_tokens ub] 0)"

text \<open>
  A failed micro-batch is taken out of the memory: per first sequence of its tokens everything from
  the smallest position on.
\<close>

definition failed_pos_min :: "llama_ubatch \<Rightarrow> nat \<Rightarrow> llama_pos" where
  "failed_pos_min ub =
     fold (\<lambda>i pm. let s = ub_seq_id ub ! i ! 0 in pm(s := min (pm s) (ub_pos ub ! i)))
       [0..<ub_n_tokens ub] (\<lambda>_. INT32_MAX)"

fun remove_loop :: "(nat \<Rightarrow> llama_pos) \<Rightarrow> nat list \<Rightarrow> 'd kv_cache \<Rightarrow> 'd kv_cache res" where
  "remove_loop pm [] kv = Inr kv"
| "remove_loop pm (s # ss) kv =
    (if pm s = INT32_MAX then remove_loop pm ss kv
     else bind_res (kv_seq_rm (int s) (pm s) (-1) kv) (\<lambda>r. remove_loop pm ss (snd r)))"

definition remove_failed :: "llama_ubatch \<Rightarrow> 'd kv_cache \<Rightarrow> 'd kv_cache res" where
  "remove_failed ub kv = remove_loop (failed_pos_min ub) [0..<LLAMA_MAX_SEQ] kv"

definition status_code :: "ggml_status \<Rightarrow> int res" where
  "status_code st =
    (case st of
       GGML_STATUS_ABORTED \<Rightarrow> Inr 2
     | GGML_STATUS_ALLOC_FAILED \<Rightarrow> Inr (-2)
     | GGML_STATUS_FAILED \<Rightarrow> Inr (-3)
     | GGML_STATUS_SUCCESS \<Rightarrow> Inl (Ggml_abort ''should not happen''))"

section \<open>The loop over the micro-batches\<close>

lemma process_ubatch_frame:
  "process_ubatch bk ub cx lc = Inr (st, r, cx', lc') \<Longrightarrow>
     cx_ubatches cx' = cx_ubatches cx \<and> cx_i_cur cx' = cx_i_cur cx \<and> cx_sinfos cx' = cx_sinfos cx"
  by (auto simp: process_ubatch_def bind_res_Inr_iff Let_def split: if_splits prod.splits dest!: kv_ctx_apply_frame)

text \<open>\<^const>\<open>None\<close> when every micro-batch was computed, the return code otherwise.\<close>

function ubatch_loop ::
    "llama_model \<Rightarrow> llama_cparams \<Rightarrow> ('d, 'f) graph_backend \<Rightarrow> nat \<Rightarrow> nat \<Rightarrow> nat \<Rightarrow> kv_cache_context \<Rightarrow>
     ('d, 'f) llama_context \<Rightarrow> (int option \<times> ('d, 'f) llama_context) res" where
  "ubatch_loop md cp bk n_outputs_all n_tokens_all n_prev cx lc =
    (let ub = kv_ctx_get_ubatch cx;
         n = count_ub_outputs n_outputs_all n_tokens_all ub;
         lc1 = lc\<lparr>lc_out := (lc_out lc)\<lparr>o_n_outputs := n\<rparr>\<rparr>
     in case process_ubatch bk ub cx lc1 of
          Inl e \<Rightarrow> Inl e
        | Inr (st, None, cx1, lc2) \<Rightarrow>
            bind_res (remove_failed ub (lc_memory lc2)) (\<lambda>kv.
            bind_res (status_code st) (\<lambda>code. Inr (Some code, lc2\<lparr>lc_memory := kv\<rparr>)))
        | Inr (st, Some r, cx1, lc2) \<Rightarrow>
            (case extract_outputs md cp ub r n_prev n_outputs_all (lc_out lc2) of
               Inl e \<Rightarrow> Inl e
             | Inr out \<Rightarrow>
                 (case kv_ctx_next cx1 of (again, cx2) \<Rightarrow>
                    if again
                    then ubatch_loop md cp bk n_outputs_all n_tokens_all (n_prev + n) cx2 (lc2\<lparr>lc_out := out\<rparr>)
                    else Inr (None, lc2\<lparr>lc_out := out\<rparr>))))"
  by pat_completeness auto

termination ubatch_loop
  by (relation "measure (\<lambda>(md, cp, bk, a, t, p, cx, lc). length (cx_ubatches cx) - cx_i_cur cx)")
    (auto simp: kv_ctx_next_def Let_def dest: process_ubatch_frame)

declare ubatch_loop.simps [simp del]

section \<open>Decoding\<close>

text \<open>
  With backend samplers a sequence may have one output only. The counters are indexed by the ids
  of the batch before these are validated.
\<close>

fun count_loop :: "llama_seq_id list \<Rightarrow> nat list \<Rightarrow> bool res" where
  "count_loop [] counts = Inr True"
| "count_loop (s # ss) counts =
    (if s < 0 \<or> nat s \<ge> length counts then Inl (Out_of_bounds ''seq_output_count'')
     else let counts' = counts[nat s := counts ! nat s + 1]
          in if counts' ! nat s > 1 then Inr False else count_loop ss counts')"

definition output_seqs :: "llama_batch \<Rightarrow> llama_seq_id list" where
  "output_seqs b =
     concat (map (\<lambda>i. if the (b_logits b) ! i = 0 then []
       else map (\<lambda>s. case b_seq_id b of Some ids \<Rightarrow> ids ! i ! s | None \<Rightarrow> 0)
              [0..<(case b_n_seq_id b of Some ns \<Rightarrow> ns ! i | None \<Rightarrow> 1)]) [0..<b_n_tokens b])"

definition check_samplers :: "nat \<Rightarrow> nat list \<Rightarrow> llama_batch \<Rightarrow> bool res" where
  "check_samplers n_seq_max samplers b =
    (if samplers \<noteq> [] \<and> b_logits b \<noteq> None then count_loop (output_seqs b) (replicate n_seq_max 0) else Inr True)"

text \<open>The queries of the memory; ids beyond those of the cache are never asked for.\<close>

definition mem_queries :: "'d kv_cache \<Rightarrow> (nat \<Rightarrow> llama_pos) \<times> (nat \<Rightarrow> llama_pos)" where
  "mem_queries kv =
    (let value = (\<lambda>r. case r of Inr p \<Rightarrow> p | Inl _ \<Rightarrow> -1)
     in (\<lambda>s. value (kv_seq_pos_min (int s) kv), \<lambda>s. value (kv_seq_pos_max (int s) kv)))"

text \<open>From the micro-batches to the mapped outputs.\<close>

definition run_ubatches ::
    "llama_model \<Rightarrow> llama_cparams \<Rightarrow> ('d, 'f) graph_backend \<Rightarrow> nat \<Rightarrow> nat \<Rightarrow> kv_cache_context \<Rightarrow>
     ('d, 'f) llama_context \<Rightarrow> (int \<times> ('d, 'f) llama_context) res" where
  "run_ubatches md cp bk n_outputs_all n_tokens_all cx lc =
    (case output_reserve md cp (bk_mem bk) n_outputs_all (lc_out lc) of (reserved, out) \<Rightarrow>
       let lc1 = lc\<lparr>lc_out := out\<rparr>
       in if reserved < n_outputs_all then Inr (-2, lc1)
          else bind_res (ubatch_loop md cp bk n_outputs_all n_tokens_all 0 cx lc1) (\<lambda>(code, lc2).
                 case code of
                   Some c \<Rightarrow> Inr (c, lc2)
                 | None \<Rightarrow>
                     bind_res (map_outputs (ba_out_ids (lc_balloc lc2)) ((lc_out lc2)\<lparr>o_n_outputs := n_outputs_all\<rparr>)) (\<lambda>(ids, out').
                       Inr (0, lc2\<lparr>lc_out := out', lc_balloc := (lc_balloc lc2)\<lparr>ba_out_ids := ids\<rparr>\<rparr>))))"

definition decode_batch ::
    "llama_model \<Rightarrow> llama_cparams \<Rightarrow> ('d, 'f) graph_backend \<Rightarrow> ('d, 'f) llama_context \<Rightarrow>
     (int \<times> ('d, 'f) llama_context) res option" where
  "decode_batch md cp bk lc =
    (let n_tokens_all = ba_get_n_tokens (lc_balloc lc); n_outputs_all = ba_n_outputs (lc_balloc lc) in
     if cp_embeddings cp \<and> n_outputs_all \<noteq> n_tokens_all then Some (Inr (-1, lc))
     else if \<not> n_tokens_all \<le> cp_n_batch cp then Some (Inl (Ggml_assert ''n_tokens_all <= cparams.n_batch''))
     else if \<not> (cp_causal_attn cp \<or> cp_n_ubatch cp \<ge> n_tokens_all)
     then Some (Inl (Ggml_assert ''non-causal attention requires n_ubatch >= n_tokens''))
     else
       let lc1 = lc\<lparr>lc_n_queued_tokens := lc_n_queued_tokens lc + n_tokens_all,
                    lc_out := (lc_out lc)\<lparr>o_embd_seq := Map.empty, o_swaps := []\<rparr>\<rparr>
       in case memory_update bk False lc1 of
            Inl e \<Rightarrow> Some (Inl e)
          | Inr (_, lc2) \<Rightarrow>
              (case init_loop False bk (cp_n_ubatch cp) lc2 of
                 None \<Rightarrow> None
               | Some (Inl e) \<Rightarrow> Some (Inl e)
               | Some (Inr (Inl code, lc3)) \<Rightarrow> Some (Inr (code, lc3))
               | Some (Inr (Inr cx, lc3)) \<Rightarrow> Some (run_ubatches md cp bk n_outputs_all n_tokens_all cx lc3)))"

definition decode ::
    "llama_model \<Rightarrow> llama_cparams \<Rightarrow> ('d, 'f) graph_backend \<Rightarrow> llama_batch \<Rightarrow> ('d, 'f) llama_context \<Rightarrow>
     (int \<times> ('d, 'f) llama_context) res option" where
  "decode md cp bk batch_inp lc =
    (if (b_token batch_inp = None) = (b_embd batch_inp = None)
     then Some (Inl (Ggml_assert ''(!batch_inp.token && batch_inp.embd) || (batch_inp.token && !batch_inp.embd)''))
     else if b_n_tokens batch_inp = 0 then Some (Inr (-1, lc))
     else
       let n_seq_max = (if cp_kv_unified cp then LLAMA_MAX_SEQ else cp_n_seq_max cp) in
       case check_samplers n_seq_max (sm_samplers (o_sampling (lc_out lc))) batch_inp of
         Inl e \<Rightarrow> Some (Inl e)
       | Inr False \<Rightarrow> Some (Inr (-1, lc))
       | Inr True \<Rightarrow>
           (case batch_init batch_inp (md_n_vocab md) (Some (mem_queries (lc_memory lc)))
                   (unat (n_embd_inp (md_hparams md))) n_seq_max (cp_embeddings cp) (lc_balloc lc) of
              Inl e \<Rightarrow> Some (Inl e)
            | Inr (False, ba) \<Rightarrow> Some (Inr (-1, lc\<lparr>lc_balloc := ba\<rparr>))
            | Inr (True, ba) \<Rightarrow> decode_batch md cp bk (lc\<lparr>lc_balloc := ba\<rparr>)))"

section \<open>The data of the cache\<close>

text \<open>Placing and removing tokens does not look at the buffers.\<close>

definition with_buf :: "'d list \<Rightarrow> 'd kv_cache \<Rightarrow> 'd kv_cache" where
  "with_buf b kv = kv\<lparr>kv_buf := b\<rparr>"

lemma with_buf_fields [simp]:
  "kv_cells (with_buf b kv) = kv_cells kv" "kv_heads (with_buf b kv) = kv_heads kv" "kv_buf (with_buf b kv) = b"
  "kv_n_stream (with_buf b kv) = kv_n_stream kv" "kv_seq_to_stream (with_buf b kv) = kv_seq_to_stream kv"
  "kv_swa_type (with_buf b kv) = kv_swa_type kv" "kv_n_swa (with_buf b kv) = kv_n_swa kv"
  "kv_get_size (with_buf b kv) = kv_get_size kv" "kv_held (with_buf b kv) q = kv_held kv q"
  "with_buf b (with_buf b' kv) = with_buf b kv" "seq_id_ok (with_buf b kv) s = seq_id_ok kv s"
  "kv_stream_of (with_buf b kv) s = kv_stream_of kv s"
  by (simp_all add: with_buf_def kv_get_size_def kv_held_def seq_id_ok_def kv_stream_of_def)

lemma with_buf_wf: "kv_wf kv \<Longrightarrow> length b = kv_n_stream kv \<Longrightarrow> kv_wf (with_buf b kv)"
proof -
  have ok: "stream_ok (with_buf b kv) = stream_ok kv" by (intro ext) (simp add: stream_ok_def)
  have src: "kv_ssrc (with_buf b kv) = kv_ssrc kv" "kv_sdst (with_buf b kv) = kv_sdst kv" by (simp_all add: with_buf_def)
  assume "kv_wf kv" "length b = kv_n_stream kv"
  then show ?thesis unfolding kv_wf_def ok src with_buf_fields by blast
qed

lemma with_buf_same: "with_buf (kv_buf kv) kv = kv"
  by (simp add: with_buf_def)

lemma kv_seq_rm_with_buf:
  "kv_seq_rm (int s) p0 p1 (with_buf b kv) =
     bind_res (kv_seq_rm (int s) p0 p1 kv) (\<lambda>(ok, kv'). Inr (ok, with_buf b kv'))"
  by (simp add: kv_seq_rm_def kv_free_loop_def with_buf_def kv_stream_of_def seq_id_ok_def split: prod.split)

lemma purge_loop_with_buf:
  "purge_loop rmax ss (with_buf b kv) = bind_res (purge_loop rmax ss kv) (\<lambda>kv'. Inr (with_buf b kv'))"
proof (induction ss arbitrary: kv)
  case (Cons s ss)
  then show ?case
    by (cases "kv_seq_rm (int s) (cells_seq_pos_min (kv_cells kv ! (kv_seq_to_stream kv ! s)) s) (rmax s + 1) kv")
      (auto simp: Let_def kv_seq_rm_with_buf)
qed simp

lemma apply_ubatch_with_buf:
  "apply_ubatch si ub (with_buf b kv) = bind_res (apply_ubatch si ub kv) (\<lambda>kv'. Inr (with_buf b kv'))"
proof -
  have upd: "with_buf b kv\<lparr>kv_cells := cs\<rparr> = with_buf b (kv\<lparr>kv_cells := cs\<rparr>)"
    "with_buf b kv\<lparr>kv_heads := hs\<rparr> = with_buf b (kv\<lparr>kv_heads := hs\<rparr>)" for kv :: "'a kv_cache" and cs hs
    by (simp_all add: with_buf_def)
  have step: "(case e of (cs, rmax) \<Rightarrow> bind_res (purge_loop rmax ss (with_buf b kv\<lparr>kv_cells := cs\<rparr>))
        (\<lambda>kv1. Inr (kv1\<lparr>kv_heads := move_heads si (kv_heads kv1)\<rparr>))) =
      bind_res (case e of (cs, rmax) \<Rightarrow> bind_res (purge_loop rmax ss (kv\<lparr>kv_cells := cs\<rparr>))
        (\<lambda>kv1. Inr (kv1\<lparr>kv_heads := move_heads si (kv_heads kv1)\<rparr>))) (\<lambda>kv'. Inr (with_buf b kv'))" for e ss
    by (cases e, cases "purge_loop (snd e) ss (kv\<lparr>kv_cells := fst e\<rparr>)") (simp_all add: upd purge_loop_with_buf)
  show ?thesis
    unfolding apply_ubatch_def with_buf_fields
    by (cases "if si_n_stream si = 0 then Inr 0 else si_size si") (simp_all only: bind_res_simps step)
qed

section \<open>Removing a failed micro-batch\<close>

lemma failed_pos_min_spec:
  "failed_pos_min ub q = fold min (map (\<lambda>i. ub_pos ub ! i) (filter (\<lambda>i. ub_seq_id ub ! i ! 0 = q) [0..<ub_n_tokens ub])) INT32_MAX"
proof -
  have "fold (\<lambda>i pm. let s = ub_seq_id ub ! i ! 0 in pm(s := min (pm s) (ub_pos ub ! i))) is pm q =
      fold min (map (\<lambda>i. ub_pos ub ! i) (filter (\<lambda>i. ub_seq_id ub ! i ! 0 = q) is)) (pm q)" for "is" pm
    by (induction "is" arbitrary: pm) (auto simp: Let_def min.commute)
  then show ?thesis by (simp add: failed_pos_min_def)
qed

lemma fold_min_less: "p < fold min xs m \<longleftrightarrow> p < m \<and> (\<forall>x \<in> set xs. p < (x :: int))"
  by (induction xs arbitrary: m) auto

text \<open>The tokens of \<open>ub\<close> that decide what is removed of sequence \<open>q\<close>.\<close>

lemma failed_pos_min_less:
  "p < failed_pos_min ub q \<longleftrightarrow> p < INT32_MAX \<and> (\<forall>i < ub_n_tokens ub. ub_seq_id ub ! i ! 0 = q \<longrightarrow> p < ub_pos ub ! i)"
  unfolding failed_pos_min_spec fold_min_less by auto

lemma remove_loop_held:
  assumes "kv_wf kv" "distinct ss" "\<forall>s \<in> set ss. pm s \<noteq> INT32_MAX \<longrightarrow> s < length (kv_seq_to_stream kv)"
    and "\<forall>s. 0 \<le> pm s"
  shows "\<exists>kv'. remove_loop pm ss kv = Inr kv' \<and> kv_wf kv' \<and> kv_seq_to_stream kv' = kv_seq_to_stream kv \<and>
    (\<forall>q < length (kv_seq_to_stream kv). kv_held kv' q =
       (if q \<in> set ss \<and> pm q \<noteq> INT32_MAX then kv_held kv q - {pm q..<INT32_MAX} else kv_held kv q))"
  using assms
proof (induction ss arbitrary: kv)
  case (Cons s ss)
  show ?case
  proof (cases "pm s = INT32_MAX")
    case True
    then show ?thesis using Cons.IH [OF Cons.prems(1)] Cons.prems by auto
  next
    case False
    then have s: "seq_id_ok kv (int s)" using Cons.prems(3) by (simp add: seq_id_ok_def)
    obtain kv1 where kv1: "kv_seq_rm (int s) (pm s) (-1) kv = Inr (True, kv1)" "kv_wf kv1"
      "kv_seq_to_stream kv1 = kv_seq_to_stream kv"
      "\<forall>t < length (kv_seq_to_stream kv). kv_held kv1 t = (if t = s then kv_held kv t - rng (pm s) (-1) else kv_held kv t)"
      using kv_seq_rm_spec [OF Cons.prems(1) s, of "pm s" "-1"] by auto
    have rng: "rng (pm s) (-1) = {pm s..<INT32_MAX}"
      using Cons.prems(4) [rule_format, of s] by (simp add: rng_def range_lo_def range_hi_def)
    obtain kv' where "remove_loop pm ss kv1 = Inr kv'" "kv_wf kv'" "kv_seq_to_stream kv' = kv_seq_to_stream kv1"
      "\<forall>q < length (kv_seq_to_stream kv1). kv_held kv' q =
         (if q \<in> set ss \<and> pm q \<noteq> INT32_MAX then kv_held kv1 q - {pm q..<INT32_MAX} else kv_held kv1 q)"
      using Cons.IH [OF kv1(2)] Cons.prems kv1(3) by auto
    then show ?thesis
      using kv1 False Cons.prems(2) by (intro exI [of _ kv']) (auto simp: rng)
  qed
qed simp

lemma remove_failed_held:
  assumes wf: "kv_wf kv" and held: "\<forall>q < length (kv_seq_to_stream kv). kv_held kv q \<subseteq> {..<INT32_MAX}"
    and tok: "\<forall>i < ub_n_tokens ub. 0 \<le> ub_pos ub ! i \<and> ub_pos ub ! i < INT32_MAX \<and> ub_seq_id ub ! i ! 0 < length (kv_seq_to_stream kv)"
  shows "\<exists>kv'. remove_failed ub kv = Inr kv' \<and> kv_wf kv' \<and> kv_seq_to_stream kv' = kv_seq_to_stream kv \<and>
    (\<forall>q < length (kv_seq_to_stream kv). kv_held kv' q =
       {p \<in> kv_held kv q. \<forall>i < ub_n_tokens ub. ub_seq_id ub ! i ! 0 = q \<longrightarrow> p < ub_pos ub ! i})"
proof -
  let ?pm = "failed_pos_min ub"
  have le: "?pm s \<le> INT32_MAX" for s using failed_pos_min_less [of INT32_MAX ub s] by (simp add: not_less [symmetric])
  have nonneg: "0 \<le> ?pm s" for s
  proof -
    have "- 1 < ?pm s" unfolding failed_pos_min_less using tok by (auto simp: INT32_MAX_def intro: less_le_trans [of _ 0])
    then show ?thesis by simp
  qed
  have used: "s < length (kv_seq_to_stream kv)" if ne: "?pm s \<noteq> INT32_MAX" for s
  proof (rule ccontr)
    assume "\<not> s < length (kv_seq_to_stream kv)"
    then have "INT32_MAX - 1 < ?pm s" unfolding failed_pos_min_less using tok by auto
    then show False using le [of s] ne by simp
  qed
  obtain kv' where kv': "remove_failed ub kv = Inr kv'" "kv_wf kv'" "kv_seq_to_stream kv' = kv_seq_to_stream kv"
    "\<forall>q < length (kv_seq_to_stream kv). kv_held kv' q =
       (if q \<in> set [0..<LLAMA_MAX_SEQ] \<and> ?pm q \<noteq> INT32_MAX then kv_held kv q - {?pm q..<INT32_MAX} else kv_held kv q)"
    using remove_loop_held [OF wf, of "[0..<LLAMA_MAX_SEQ]" ?pm] used nonneg unfolding remove_failed_def by auto
  have "kv_held kv' q = {p \<in> kv_held kv q. \<forall>i < ub_n_tokens ub. ub_seq_id ub ! i ! 0 = q \<longrightarrow> p < ub_pos ub ! i}"
    if q: "q < length (kv_seq_to_stream kv)" for q
  proof -
    have "q < LLAMA_MAX_SEQ" using q wf by (simp add: kv_wf_def)
    moreover have "p < INT32_MAX" if "p \<in> kv_held kv q" for p using held q that by auto
    ultimately have "kv_held kv' q = {p \<in> kv_held kv q. p < ?pm q}" using kv'(4) q by auto
    then show ?thesis using \<open>\<And>p. p \<in> kv_held kv q \<Longrightarrow> p < INT32_MAX\<close> by (auto simp: failed_pos_min_less)
  qed
  then show ?thesis using kv' by blast
qed

section \<open>Rows written by a micro-batch\<close>

lemma row_of_concat:
  "\<forall>r \<in> set rows. length r = w \<Longrightarrow> j < length rows \<Longrightarrow> row_of w j (concat rows) = rows ! j"
proof (induction rows arbitrary: j)
  case (Cons r rows)
  then show ?case by (cases j) (simp_all add: row_of_def)
qed simp

lemma length_concat_rows: "\<forall>r \<in> set rows. length r = w \<Longrightarrow> length (concat rows) = length rows * w"
  by (induction rows) simp_all

lemma blit_rows:
  assumes w: "\<forall>r \<in> set rows. length r = w" and fit: "(n + length rows) * w \<le> length ys"
  shows "\<exists>zs. blit (n * w) (concat rows) (View ys) = Inr (View zs) \<and> length zs = length ys \<and>
    (\<forall>j < n. row_of w j zs = row_of w j ys) \<and> (\<forall>j < length rows. row_of w (n + j) zs = rows ! j)"
proof -
  let ?zs = "take (n * w) ys @ concat rows @ drop (n * w + length (concat rows)) ys"
  note len = length_concat_rows [OF w]
  have b: "n * w + length rows * w \<le> length ys" using fit by (simp add: add_mult_distrib)
  have "row_of w j ?zs = row_of w j ys" if "j < n" for j
    using row_bound [OF that order_refl, of w] b by (simp add: row_of_def drop_take take_append)
  moreover have "row_of w (n + j) ?zs = rows ! j" if j: "j < length rows" for j
  proof -
    have "row_of w (n + j) ?zs = row_of w j (concat rows @ drop (n * w + length (concat rows)) ys)"
      using b by (simp add: row_of_def add_mult_distrib drop_append)
    also have "\<dots> = row_of w j (concat rows)"
      using row_bound [OF j order_refl, of w] by (simp add: row_of_def len take_append)
    finally show ?thesis using row_of_concat [OF w j] by simp
  qed
  ultimately show ?thesis
    using b by (intro exI [of _ ?zs]) (simp add: blit_def len)
qed

text \<open>The outputs of a micro-batch, and the tokens of the batch they belong to.\<close>

definition outputs_of :: "llama_ubatch \<Rightarrow> nat list" where
  "outputs_of ub = filter (\<lambda>i. ub_output ub ! i \<noteq> 0) [0..<ub_n_tokens ub]"

lemma count_ub_outputs_eq:
  assumes "n_all = n_tok \<Longrightarrow> \<forall>i < ub_n_tokens ub. ub_output ub ! i \<noteq> 0"
  shows "count_ub_outputs n_all n_tok ub = length (outputs_of ub)"
proof -
  have "fold (\<lambda>i n. n + (if ub_output ub ! i \<noteq> 0 then 1 else 0)) is k = k + length (filter (\<lambda>i. ub_output ub ! i \<noteq> 0) is)"
    for "is" and k :: nat by (induction "is" arbitrary: k) simp_all
  then show ?thesis using assms by (auto simp: count_ub_outputs_def outputs_of_def)
qed

lemma outputs_of_tokens:
  assumes "ub_of a ub idxs"
  shows "ub_n_tokens ub = length idxs" "ub_output ub = map (batch_logit (ba_batch a)) idxs"
    "map ((!) idxs) (outputs_of ub) = filter (\<lambda>t. batch_logit (ba_batch a) t \<noteq> 0) idxs"
proof -
  have ub: "ub = fst (ubatch_add a idxs (ub_n_seqs ub) (ub_equal_seqs ub))" using assms by (simp add: ub_of_def)
  show f: "ub_n_tokens ub = length idxs" "ub_output ub = map (batch_logit (ba_batch a)) idxs"
    by (subst ub, simp add: ubatch_add_def Let_def)+
  have "filter (\<lambda>t. batch_logit (ba_batch a) t \<noteq> 0) (map ((!) idxs) [0..<length idxs]) =
      map ((!) idxs) (filter (\<lambda>i. ub_output ub ! i \<noteq> 0) [0..<length idxs])"
    unfolding filter_map by (intro arg_cong [where f = "map ((!) idxs)"] filter_cong) (simp_all add: f(2))
  then show "map ((!) idxs) (outputs_of ub) = filter (\<lambda>t. batch_logit (ba_batch a) t \<noteq> 0) idxs"
    by (simp add: outputs_of_def f(1) map_nth)
qed

section \<open>The graph\<close>

text \<open>
  What is assumed of the compute graph: it keeps the number of buffers, and when it succeeds its
  logits are one row \<open>f\<close> per output of the micro-batch, in the order of the micro-batch, each as
  wide as the vocabulary.
\<close>

definition graph_ok ::
    "llama_model \<Rightarrow> ('d, 'f) graph_backend \<Rightarrow> ('d kv_cache \<Rightarrow> llama_ubatch \<Rightarrow> nat \<Rightarrow> 'f list) \<Rightarrow> bool" where
  "graph_ok md bk f \<longleftrightarrow>
     (\<forall>ub kv. case bk_compute bk ub kv of (st, bufs, r) \<Rightarrow> length bufs = length (kv_buf kv) \<and>
        (st = GGML_STATUS_SUCCESS \<longrightarrow> r_logits r = Some (concat (map (f kv ub) (outputs_of ub))))) \<and>
     (\<forall>kv ub i. length (f kv ub i) = md_n_vocab md)"

lemma extract_outputs_rows:
  assumes emb: "\<not> cp_embeddings cp" and sm: "sm_samplers (o_sampling o0) = []" and lg: "o_logits o0 = View ys"
    and r: "r_logits r = Some (concat rows)" "\<forall>x \<in> set rows. length x = md_n_vocab md" "o_n_outputs o0 = length rows"
    and fit: "n_prev + length rows \<le> n_all" "n_all * md_n_vocab md \<le> length ys"
    and raw: "rows \<noteq> [] \<Longrightarrow> needs_raw_logits ub []"
  shows "\<exists>zs. extract_outputs md cp ub r n_prev n_all o0 = Inr (o0\<lparr>o_logits := View zs\<rparr>) \<and> length zs = length ys \<and>
    (\<forall>j < n_prev. row_of (md_n_vocab md) j zs = row_of (md_n_vocab md) j ys) \<and>
    (\<forall>j < length rows. row_of (md_n_vocab md) (n_prev + j) zs = rows ! j)"
proof -
  let ?w = "md_n_vocab md"
  have le: "(n_prev + length rows) * ?w \<le> length ys"
    using mult_le_mono1 [OF fit(1), of ?w] fit(2) by (rule order_trans)
  have rest: "extract_embd md cp ub r n_prev n_all o1 = Inr o1" "extract_sampling md ub r n_prev o1 = Inr o1"
    if "sm_samplers (o_sampling o1) = []" for o1 :: "'a outputs"
    using emb that by (simp_all add: extract_embd_def extract_sampling_def)
  show ?thesis
  proof (cases "rows = []")
    case True
    then have "extract_logits md ub r n_prev n_all o0 = Inr o0" using r by (simp add: extract_logits_def)
    then show ?thesis using True lg sm rest by (intro exI [of _ ys]) (simp add: extract_outputs_def)
  next
    case False
    obtain zs where zs: "blit (n_prev * ?w) (concat rows) (View ys) = Inr (View zs)" "length zs = length ys"
      "\<forall>j < n_prev. row_of ?w j zs = row_of ?w j ys" "\<forall>j < length rows. row_of ?w (n_prev + j) zs = rows ! j"
      using blit_rows [OF r(2) le] by blast
    have "tensor_get (concat rows) 0 (length rows * ?w) = Inr (concat rows)"
      by (simp add: tensor_get_def length_concat_rows [OF r(2)])
    then have "extract_logits md ub r n_prev n_all o0 = Inr (o0\<lparr>o_logits := View zs\<rparr>)"
      using False r lg sm le fit(1) raw zs(1) by (simp add: extract_logits_def Let_def buf_size_def)
    then show ?thesis using zs(2-4) sm rest by (intro exI [of _ zs]) (simp add: extract_outputs_def)
  qed
qed

text \<open>The status of the graph of a micro-batch that the cache has taken in.\<close>

definition graph_status :: "('d, 'f) graph_backend \<Rightarrow> llama_ubatch \<Rightarrow> 'd kv_cache \<Rightarrow> ggml_status" where
  "graph_status bk ub kv =
    (if bk_reuse bk ub kv then fst (bk_compute bk ub kv)
     else if \<not> bk_build bk ub kv then GGML_STATUS_FAILED
     else if \<not> bk_alloc_graph bk ub kv then GGML_STATUS_ALLOC_FAILED
     else fst (bk_compute bk ub kv))"

lemma process_ubatch_result:
  assumes g: "graph_ok md bk f" and ne: "cx_ubatches cx \<noteq> []" and mem: "lc_memory lc = with_buf b kv"
    and ap: "apply_ubatch (cx_sinfos cx ! cx_i_cur cx) (cx_ubatches cx ! cx_i_cur cx) kv = Inr kv1"
  shows "\<exists>st r cx1 lc2 b1 kv2. process_ubatch bk ub cx lc = Inr (st, r, cx1, lc2) \<and> length b1 = length b \<and>
    lc_memory lc2 = with_buf b1 kv1 \<and> lc_out lc2 = lc_out lc \<and> lc_balloc lc2 = lc_balloc lc \<and>
    kv_ctx_next cx1 = (Suc (cx_i_cur cx) < length (cx_ubatches cx), cx1\<lparr>cx_i_cur := Suc (cx_i_cur cx)\<rparr>) \<and>
    cx_ubatches cx1 = cx_ubatches cx \<and> cx_sinfos cx1 = cx_sinfos cx \<and>
    st = graph_status bk ub (with_buf b kv1) \<and> (st = GGML_STATUS_SUCCESS \<longleftrightarrow> r \<noteq> None) \<and>
    (\<forall>r'. r = Some r' \<longrightarrow> r_logits r' = Some (concat (map (f kv2 ub) (outputs_of ub))))"
proof -
  let ?si = "cx_sinfos cx ! cx_i_cur cx" and ?kv = "with_buf b kv1"
  let ?cx1 = "cx\<lparr>cx_n_kv := kv_get_n_kv ?si ?kv\<rparr>"
  have ap': "kv_ctx_apply (bk_kshift bk) cx (lc_memory lc) = Inr (True, ?cx1, ?kv)"
    using ne ap by (simp add: kv_ctx_apply_def Let_def mem apply_ubatch_with_buf)
  have nx: "kv_ctx_next ?cx1 = (Suc (cx_i_cur cx) < length (cx_ubatches cx), ?cx1\<lparr>cx_i_cur := Suc (cx_i_cur cx)\<rparr>)"
    by (simp add: kv_ctx_next_def Let_def not_le)
  obtain st bufs r where c: "bk_compute bk ub ?kv = (st, bufs, r)" by (cases "bk_compute bk ub ?kv")
  have bufs: "length bufs = length b" "st = GGML_STATUS_SUCCESS \<Longrightarrow> r_logits r = Some (concat (map (f ?kv ub) (outputs_of ub)))"
    using g [unfolded graph_ok_def, THEN conjunct1, rule_format, of ?kv ub] c by simp_all
  have wb: "?kv\<lparr>kv_buf := bufs\<rparr> = with_buf bufs kv1" by (simp add: with_buf_def)
  define fin where "fin s (x :: 'b graph_result option) lc' b1 \<longleftrightarrow> process_ubatch bk ub cx lc = Inr (s, x, ?cx1, lc') \<and> length b1 = length b \<and>
      lc_memory lc' = with_buf b1 kv1 \<and> lc_out lc' = lc_out lc \<and> lc_balloc lc' = lc_balloc lc \<and>
      s = graph_status bk ub ?kv \<and> (s = GGML_STATUS_SUCCESS \<longleftrightarrow> x \<noteq> None) \<and>
      (\<forall>r'. x = Some r' \<longrightarrow> r_logits r' = Some (concat (map (f ?kv ub) (outputs_of ub))))"
    for s x lc' b1
  have "\<exists>s x lc' b1. fin s x lc' b1"
  proof (cases "bk_reuse bk ub ?kv \<or> (bk_build bk ub ?kv \<and> bk_alloc_graph bk ub ?kv)")
    case True
    then have "fin st (if st = GGML_STATUS_SUCCESS then Some r else None) (lc\<lparr>lc_memory := with_buf bufs kv1,
        lc_n_reused := lc_n_reused lc + (if bk_reuse bk ub ?kv then 1 else 0)\<rparr>) bufs"
      unfolding fin_def process_ubatch_def ap' using bufs c wb
      by (cases "bk_reuse bk ub ?kv") (simp_all add: Let_def graph_status_def)
    then show ?thesis by blast
  next
    case False
    then have "fin (if bk_build bk ub ?kv then GGML_STATUS_ALLOC_FAILED else GGML_STATUS_FAILED) None (lc\<lparr>lc_memory := ?kv\<rparr>) b"
      unfolding fin_def process_ubatch_def ap' by (auto simp: Let_def graph_status_def)
    then show ?thesis by blast
  qed
  then obtain s x lc' b1 where "fin s x lc' b1" by blast
  then show ?thesis
    unfolding fin_def using nx
    by (intro exI [of _ s] exI [of _ x] exI [of _ ?cx1] exI [of _ lc'] exI [of _ b1] exI [of _ ?kv]) auto
qed

section \<open>The loop over the micro-batches\<close>

text \<open>The row \<open>r\<close> was computed for token \<open>t\<close> of the batch, in a micro-batch that holds this token.\<close>

definition computed_for ::
    "llama_batch_allocr \<Rightarrow> ('d kv_cache \<Rightarrow> llama_ubatch \<Rightarrow> nat \<Rightarrow> 'f list) \<Rightarrow> nat \<Rightarrow> 'f list \<Rightarrow> bool" where
  "computed_for a f t r \<longleftrightarrow> (\<exists>kv ub idxs i. ub_of a ub idxs \<and> i < length idxs \<and> idxs ! i = t \<and> r = f kv ub i)"

text \<open>The batch as the loop sees it: ids and positions in range, every token with a sequence.\<close>

definition batch_fine :: "nat \<Rightarrow> nat \<Rightarrow> nat \<Rightarrow> llama_batch_allocr \<Rightarrow> bool" where
  "batch_fine n_ids n_all n_tok a \<longleftrightarrow> batch_ok n_ids a \<and>
     (\<forall>t < ba_get_n_tokens a. batch_pos (ba_batch a) t < INT32_MAX) \<and>
     (n_all = n_tok \<longrightarrow> (\<forall>t < ba_get_n_tokens a. batch_logit (ba_batch a) t \<noteq> 0))"

lemma batch_fine_ub:
  assumes fine: "batch_fine n_ids n_all n_tok a" and ub: "ub_of a ub idxs" and idxs: "set idxs \<subseteq> {..<ba_get_n_tokens a}"
  shows "count_ub_outputs n_all n_tok ub = length (outputs_of ub)"
    "outputs_of ub \<noteq> [] \<Longrightarrow> needs_raw_logits ub []"
    "\<forall>i < ub_n_tokens ub. 0 \<le> ub_pos ub ! i \<and> ub_pos ub ! i < INT32_MAX \<and> ub_seq_id ub ! i ! 0 < n_ids"
    "ub_positions ub q \<subseteq> {..<INT32_MAX}"
proof -
  have n1: "1 \<le> ba_n_pos_per_embd a" and max: "ba_n_seq_max a \<le> n_ids" using fine by (simp_all add: batch_fine_def batch_ok_def)
  have tok: "0 \<le> batch_pos (ba_batch a) t" "batch_pos (ba_batch a) t < INT32_MAX" "batch_seqs (ba_batch a) t \<noteq> []"
    "the (b_n_seq_id (ba_batch a)) ! t = length (batch_seqs (ba_batch a) t)"
    "\<forall>q \<in> set (batch_seqs (ba_batch a) t). q < n_ids" "n_all = n_tok \<Longrightarrow> batch_logit (ba_batch a) t \<noteq> 0"
    if "t < ba_get_n_tokens a" for t using fine that max by (auto simp: batch_fine_def batch_ok_def intro: less_le_trans)
  note o = outputs_of_tokens [OF ub]
  have f: "ub_pos ub ! i = batch_pos (ba_batch a) (idxs ! i)" "ub_seq_id ub ! i = batch_seqs (ba_batch a) (idxs ! i)"
    "ub_n_seq_id ub ! i = the (b_n_seq_id (ba_batch a)) ! (idxs ! i)" if "i < ub_n_tokens ub" for i
    using ub_of_fields(2-4) [OF ub n1, of i] that o(1) by simp_all
  have t: "idxs ! i < ba_get_n_tokens a" if "i < ub_n_tokens ub" for i using idxs nth_mem [of i idxs] that o(1) by (auto simp: subset_iff)
  show "count_ub_outputs n_all n_tok ub = length (outputs_of ub)"
    by (rule count_ub_outputs_eq) (use tok(6) [OF t] o in auto)
  show "needs_raw_logits ub []" if ne: "outputs_of ub \<noteq> []"
  proof -
    obtain i where i: "i < ub_n_tokens ub" "ub_output ub ! i \<noteq> 0"
      using ne by (auto simp: outputs_of_def filter_empty_conv)
    then have "0 < ub_n_seq_id ub ! i" using f(3) tok(3,4) [OF t] by simp
    with i show ?thesis unfolding needs_raw_logits_def list_ex_iff by (intro bexI [of _ i]) auto
  qed
  show "\<forall>i < ub_n_tokens ub. 0 \<le> ub_pos ub ! i \<and> ub_pos ub ! i < INT32_MAX \<and> ub_seq_id ub ! i ! 0 < n_ids"
    using f tok [OF t] by simp
  show "ub_positions ub q \<subseteq> {..<INT32_MAX}" using f(1) tok(2) [OF t] by (auto simp: ub_positions_def)
qed

text \<open>The outcome of the loop from \<open>n_prev\<close> rows and the cache \<open>kv\<close> on.\<close>

definition loop_done ::
    "llama_model \<Rightarrow> llama_batch_allocr \<Rightarrow> ('d kv_cache \<Rightarrow> llama_ubatch \<Rightarrow> nat \<Rightarrow> 'f list) \<Rightarrow> nat \<Rightarrow> nat list \<Rightarrow>
     llama_ubatch list \<Rightarrow> 'd kv_cache \<Rightarrow> ('d, 'f) llama_context \<Rightarrow> ('d, 'f) llama_context \<Rightarrow> 'f list \<Rightarrow> bool" where
  "loop_done md a f n_prev outs ubs kv lc lc' ys \<longleftrightarrow>
     kv_wf (lc_memory lc') \<and> kv_seq_to_stream (lc_memory lc') = kv_seq_to_stream kv \<and> lc_balloc lc' = lc_balloc lc \<and>
     (\<forall>q < length (kv_seq_to_stream kv). kv_held (lc_memory lc') q = kv_held kv q \<union> (\<Union>ub \<in> set ubs. ub_positions ub q)) \<and>
     (\<exists>n zs. lc_out lc' = (lc_out lc)\<lparr>o_n_outputs := n, o_logits := View zs\<rparr> \<and> length zs = length ys \<and>
        (\<forall>j < n_prev. row_of (md_n_vocab md) j zs = row_of (md_n_vocab md) j ys) \<and>
        (\<forall>j < length outs. computed_for a f (outs ! j) (row_of (md_n_vocab md) (n_prev + j) zs)))"

text \<open>
  A run of the loop that ends with a failed graph: \<open>kvs\<close> are the caches the graphs saw, one for each
  micro-batch up to the failed one. Each holds the positions up to its micro-batch, and all graphs but the
  last succeeded.
\<close>

definition loop_failed ::
    "('d, 'f) graph_backend \<Rightarrow> llama_ubatch list \<Rightarrow> 'd kv_cache \<Rightarrow> int \<Rightarrow> 'd kv_cache list \<Rightarrow> ('d, 'f) llama_context \<Rightarrow> bool" where
  "loop_failed bk ubs kv code kvs lc' \<longleftrightarrow> kvs \<noteq> [] \<and> length kvs \<le> length ubs \<and>
     kv_wf (lc_memory lc') \<and> kv_seq_to_stream (lc_memory lc') = kv_seq_to_stream kv \<and>
     (\<forall>j < length kvs. (graph_status bk (ubs ! j) (kvs ! j) = GGML_STATUS_SUCCESS \<longleftrightarrow> Suc j < length kvs) \<and>
        (\<forall>q < length (kv_seq_to_stream kv). kv_held (kvs ! j) q = kv_held kv q \<union> (\<Union>ub \<in> set (take (Suc j) ubs). ub_positions ub q))) \<and>
     status_code (graph_status bk (ubs ! (length kvs - 1)) (last kvs)) = Inr code \<and>
     (\<forall>q < length (kv_seq_to_stream kv). kv_held (lc_memory lc') q =
        {p \<in> kv_held kv q \<union> (\<Union>ub \<in> set (take (length kvs) ubs). ub_positions ub q).
         \<forall>i < ub_n_tokens (ubs ! (length kvs - 1)).
           ub_seq_id (ubs ! (length kvs - 1)) ! i ! 0 = q \<longrightarrow> p < ub_pos (ubs ! (length kvs - 1)) ! i})"

lemma status_code_fail: "st \<noteq> GGML_STATUS_SUCCESS \<Longrightarrow> \<exists>c. status_code st = Inr c"
  by (cases st) (simp_all add: status_code_def)

lemma loop_failed_code: "loop_failed bk ubs kv code kvs lc' \<Longrightarrow> code \<in> {2, -2, -3}"
  by (auto simp: loop_failed_def status_code_def split: ggml_status.splits)

text \<open>Rows of the first micro-batch, then those of the rest.\<close>

lemma loop_done_step:
  assumes ub: "ub_of a ub idxs" and rows: "rows = map (f kv2 ub) (outputs_of ub)"
    and o2: "lc_out lcx = (lc_out lc)\<lparr>o_n_outputs := length rows\<rparr>" "lc_balloc lcx = lc_balloc lc"
    and zs: "length zs = length ys" "\<forall>j < n_prev. row_of (md_n_vocab md) j zs = row_of (md_n_vocab md) j ys"
      "\<forall>j < length rows. row_of (md_n_vocab md) (n_prev + j) zs = rows ! j"
    and kv1: "kv_seq_to_stream kv1 = kv_seq_to_stream kv"
      "\<forall>q < length (kv_seq_to_stream kv). kv_held kv1 q = kv_held kv q \<union> ub_positions ub q"
    and outs: "outs1 = filter (\<lambda>t. batch_logit (ba_batch a) t \<noteq> 0) idxs"
    and d: "loop_done md a f (n_prev + length rows) outs ubs kv1 (lcx\<lparr>lc_out := (lc_out lcx)\<lparr>o_logits := View zs\<rparr>\<rparr>) lc' zs"
  shows "loop_done md a f n_prev (outs1 @ outs) (ub # ubs) kv lc lc' ys"
proof -
  let ?row = "row_of (md_n_vocab md)"
  obtain n zs' where z: "lc_out lc' = (lc_out lc)\<lparr>o_n_outputs := n, o_logits := View zs'\<rparr>" "length zs' = length zs"
    "\<forall>j < n_prev + length rows. ?row j zs' = ?row j zs"
    "\<forall>j < length outs. computed_for a f (outs ! j) (?row (n_prev + length rows + j) zs')"
    using d o2(1) by (auto simp: loop_done_def)
  have len: "length outs1 = length rows" and tok: "outs1 = map ((!) idxs) (outputs_of ub)"
    using outputs_of_tokens(3) [OF ub] outs rows length_map [of "(!) idxs" "outputs_of ub"] by simp_all
  have "computed_for a f ((outs1 @ outs) ! j) (?row (n_prev + j) zs')" if j: "j < length (outs1 @ outs)" for j
  proof (cases "j < length rows")
    case True
    let ?i = "outputs_of ub ! j"
    have "?i \<in> set (outputs_of ub)" using True rows by simp
    then have "?i < length idxs" using outputs_of_tokens(1) [OF ub] by (simp add: outputs_of_def)
    moreover have "(outs1 @ outs) ! j = idxs ! ?i" using True len rows by (simp add: tok nth_append)
    moreover have "?row (n_prev + j) zs' = f kv2 ub ?i" using True z(3) zs(3) rows by simp
    ultimately show ?thesis unfolding computed_for_def using ub by metis
  next
    case False
    then show ?thesis using z(4) j len by (metis add.assoc add_diff_inverse_nat length_append nat_add_left_cancel_less nth_append)
  qed
  moreover have "\<forall>j < n_prev. ?row j zs' = ?row j ys" using z(3) zs(2) by simp
  ultimately show ?thesis
    using d z(1,2) zs(1) kv1 o2(2) unfolding loop_done_def by auto
qed

lemma loop_failed_step:
  assumes g: "graph_status bk ub kvx = GGML_STATUS_SUCCESS"
    and x: "\<forall>q < length (kv_seq_to_stream kv). kv_held kvx q = kv_held kv q \<union> ub_positions ub q"
    and kv1: "kv_seq_to_stream kv1 = kv_seq_to_stream kv"
      "\<forall>q < length (kv_seq_to_stream kv). kv_held kv1 q = kv_held kv q \<union> ub_positions ub q"
    and d: "loop_failed bk ubs kv1 code kvs lc'"
  shows "loop_failed bk (ub # ubs) kv code (kvx # kvs) lc'"
proof -
  have ne: "kvs \<noteq> []" "(ub # ubs) ! (length (kvx # kvs) - 1) = ubs ! (length kvs - 1)" "last (kvx # kvs) = last kvs"
    using d by (auto simp: loop_failed_def neq_Nil_conv)
  have "(graph_status bk ((ub # ubs) ! j) ((kvx # kvs) ! j) = GGML_STATUS_SUCCESS \<longleftrightarrow> Suc j < length (kvx # kvs)) \<and>
      (\<forall>q < length (kv_seq_to_stream kv). kv_held ((kvx # kvs) ! j) q =
         kv_held kv q \<union> (\<Union>u \<in> set (take (Suc j) (ub # ubs)). ub_positions u q))" if j: "j < length (kvx # kvs)" for j
  proof (cases j)
    case 0
    then show ?thesis using g x ne(1) by simp
  next
    case (Suc i)
    then have "(graph_status bk (ubs ! i) (kvs ! i) = GGML_STATUS_SUCCESS \<longleftrightarrow> Suc i < length kvs) \<and>
        (\<forall>q < length (kv_seq_to_stream kv). kv_held (kvs ! i) q = kv_held kv1 q \<union> (\<Union>u \<in> set (take (Suc i) ubs). ub_positions u q))"
      using d j kv1(1) by (simp add: loop_failed_def)
    then show ?thesis using Suc kv1(2) by (simp add: Un_assoc)
  qed
  then show ?thesis
    using d kv1 unfolding loop_failed_def ne(2,3) by (simp add: Un_assoc)
qed

lemma loop_failed_here:
  assumes ub: "ub_of a ub idxs" "set idxs \<subseteq> {..<ba_get_n_tokens a}" and fine: "batch_fine (length (kv_seq_to_stream kv)) n_all n_tok a"
    and kv1: "kv_wf kv1" "kv_seq_to_stream kv1 = kv_seq_to_stream kv"
      "\<forall>q < length (kv_seq_to_stream kv). kv_held kv1 q = kv_held kv q \<union> ub_positions ub q"
    and held: "\<forall>q < length (kv_seq_to_stream kv). kv_held kv q \<subseteq> {..<INT32_MAX}"
    and x: "\<forall>q < length (kv_seq_to_stream kv). kv_held kvx q = kv_held kv q \<union> ub_positions ub q"
    and code: "graph_status bk ub kvx \<noteq> GGML_STATUS_SUCCESS" "status_code (graph_status bk ub kvx) = Inr code"
  shows "\<exists>kv'. remove_failed ub kv1 = Inr kv' \<and> loop_failed bk (ub # ubs) kv code [kvx] (lc\<lparr>lc_memory := kv'\<rparr>)"
proof -
  note b = batch_fine_ub [OF fine ub]
  have held1: "\<forall>q < length (kv_seq_to_stream kv1). kv_held kv1 q \<subseteq> {..<INT32_MAX}" using kv1(2,3) held b(4) by simp
  obtain kv' where kv': "remove_failed ub kv1 = Inr kv'" "kv_wf kv'" "kv_seq_to_stream kv' = kv_seq_to_stream kv1"
    "\<forall>q < length (kv_seq_to_stream kv1). kv_held kv' q =
       {p \<in> kv_held kv1 q. \<forall>i < ub_n_tokens ub. ub_seq_id ub ! i ! 0 = q \<longrightarrow> p < ub_pos ub ! i}"
    using remove_failed_held [OF kv1(1) held1, of ub] b(3) kv1(2) by auto
  then show ?thesis
    using code kv1(2,3) x by (intro exI [of _ kv']) (simp add: loop_failed_def)
qed

lemma ubatch_loop_result:
  fixes lc :: "('d, 'f) llama_context"
  assumes g: "graph_ok md bk f" and emb: "\<not> cp_embeddings cp"
    and fine: "batch_fine n_ids n_all n_tok a" and run: "good_run sis ubs kv" "list_all2 (ub_of a) ubs idxss" "ubs \<noteq> []"
    and cx: "drop (cx_i_cur cx) (cx_sinfos cx) = sis" "drop (cx_i_cur cx) (cx_ubatches cx) = ubs"
    and toks: "set (concat idxss) \<subseteq> {..<ba_get_n_tokens a}"
    and kv: "kv_wf kv" "length (kv_seq_to_stream kv) = n_ids" "\<forall>q < n_ids. kv_held kv q \<subseteq> {..<INT32_MAX}"
    and mem: "lc_memory lc = with_buf b kv" "length b = kv_n_stream kv"
    and o: "o_logits (lc_out lc) = View ys" "sm_samplers (o_sampling (lc_out lc)) = []"
    and fit: "n_all * md_n_vocab md \<le> length ys"
      "n_prev + length (filter (\<lambda>t. batch_logit (ba_batch a) t \<noteq> 0) (concat idxss)) \<le> n_all"
  shows "\<exists>code lc'. ubatch_loop md cp bk n_all n_tok n_prev cx lc = Inr (code, lc') \<and>
    (case code of None \<Rightarrow>
         loop_done md a f n_prev (filter (\<lambda>t. batch_logit (ba_batch a) t \<noteq> 0) (concat idxss)) ubs kv lc lc' ys
     | Some c \<Rightarrow> \<exists>kvs. loop_failed bk ubs kv c kvs lc')"
  using run cx toks kv mem o fit
proof (induction ubs arbitrary: sis idxss kv cx n_prev lc b ys)
  case (Cons ub ubs)
  note prems = Cons.prems
  obtain si sis' where sis: "sis = si # sis'" using prems(1) by (cases sis) auto
  obtain idxs idxss' where idxss: "idxss = idxs # idxss'" "ub_of a ub idxs" "list_all2 (ub_of a) ubs idxss'"
    using prems(2) by (cases idxss) auto
  obtain kv1 where kv1: "apply_ubatch si ub kv = Inr kv1" "kv_wf kv1" "kv_seq_to_stream kv1 = kv_seq_to_stream kv"
    "kv_n_stream kv1 = kv_n_stream kv"
    "\<forall>q < length (kv_seq_to_stream kv). kv_held kv1 q = kv_held kv q \<union> ub_positions ub q" "good_run sis' ubs kv1"
    using prems(1) sis by auto
  have i: "cx_i_cur cx < length (cx_ubatches cx)" "cx_i_cur cx < length (cx_sinfos cx)"
    using prems(4,5) sis by (auto simp: not_le [symmetric])
  have cur: "cx_sinfos cx ! cx_i_cur cx = si" "cx_ubatches cx ! cx_i_cur cx = ub"
    "drop (Suc (cx_i_cur cx)) (cx_sinfos cx) = sis'" "drop (Suc (cx_i_cur cx)) (cx_ubatches cx) = ubs"
    using prems(4,5) sis Cons_nth_drop_Suc [OF i(1)] Cons_nth_drop_Suc [OF i(2)] by simp_all
  have idx: "set idxs \<subseteq> {..<ba_get_n_tokens a}" "set (concat idxss') \<subseteq> {..<ba_get_n_tokens a}" using prems(6) idxss by auto
  note bf = batch_fine_ub [OF fine idxss(2) idx(1)]
  have n1: "1 \<le> ba_n_pos_per_embd a" using fine by (simp add: batch_fine_def batch_ok_def)
  let ?n = "length (outputs_of ub)" and ?log = "filter (\<lambda>t. batch_logit (ba_batch a) t \<noteq> 0)"
  let ?lc1 = "lc\<lparr>lc_out := (lc_out lc)\<lparr>o_n_outputs := ?n\<rparr>\<rparr>"
  have "cx_ubatches cx \<noteq> []" using i by auto
  moreover have "lc_memory ?lc1 = with_buf b kv" using prems(10) by simp
  ultimately obtain st r cx1 lc2 b1 kv2 where p: "process_ubatch bk ub cx ?lc1 = Inr (st, r, cx1, lc2)" "length b1 = length b"
    "lc_memory lc2 = with_buf b1 kv1" "lc_out lc2 = lc_out ?lc1" "lc_balloc lc2 = lc_balloc lc"
    "kv_ctx_next cx1 = (Suc (cx_i_cur cx) < length (cx_ubatches cx), cx1\<lparr>cx_i_cur := Suc (cx_i_cur cx)\<rparr>)"
    "cx_ubatches cx1 = cx_ubatches cx" "cx_sinfos cx1 = cx_sinfos cx"
    "st = graph_status bk ub (with_buf b kv1)" "st = GGML_STATUS_SUCCESS \<longleftrightarrow> r \<noteq> None"
    "\<forall>r'. r = Some r' \<longrightarrow> r_logits r' = Some (concat (map (f kv2 ub) (outputs_of ub)))"
    using process_ubatch_result [OF g, of cx ?lc1 b kv kv1 ub] cur kv1(1) by auto
  have wf1: "kv_wf (with_buf b1 kv1)" using with_buf_wf [OF kv1(2)] p(2) prems(11) kv1(4) by simp
  have unfold: "ubatch_loop md cp bk n_all n_tok n_prev cx lc =
      (case (st, r, cx1, lc2) of
         (st, None, cx1, lc2) \<Rightarrow> bind_res (remove_failed ub (lc_memory lc2)) (\<lambda>kv.
            bind_res (status_code st) (\<lambda>code. Inr (Some code, lc2\<lparr>lc_memory := kv\<rparr>)))
       | (st, Some r, cx1, lc2) \<Rightarrow>
            (case extract_outputs md cp ub r n_prev n_all (lc_out lc2) of
               Inl e \<Rightarrow> Inl e
             | Inr out \<Rightarrow>
                 (case kv_ctx_next cx1 of (again, cx2) \<Rightarrow>
                    if again then ubatch_loop md cp bk n_all n_tok (n_prev + ?n) cx2 (lc2\<lparr>lc_out := out\<rparr>)
                    else Inr (None, lc2\<lparr>lc_out := out\<rparr>))))"
    unfolding bf(1) [symmetric] by (subst ubatch_loop.simps) (simp add: kv_ctx_get_ubatch_def cur p(1) [folded bf(1)] Let_def)
  show ?case
  proof (cases r)
    case None
    then obtain c where c: "status_code st = Inr c" using p(10) status_code_fail by auto
    have held1: "\<forall>q < length (kv_seq_to_stream kv). kv_held (with_buf x kv1) q = kv_held kv q \<union> ub_positions ub q" for x
      using kv1(5) by simp
    obtain kv' where "remove_failed ub (with_buf b1 kv1) = Inr kv'"
        "loop_failed bk (ub # ubs) kv c [with_buf b kv1] (lc2\<lparr>lc_memory := kv'\<rparr>)"
      using loop_failed_here [OF idxss(2) idx(1) _ wf1 _ held1 _ held1, of n_all n_tok bk b c ubs lc2] fine prems(8,9) kv1(3)
        p(9,10) None c by auto
    then show ?thesis unfolding unfold using None p(3) c(1) by auto
  next
    case (Some r')
    let ?rows = "map (f kv2 ub) (outputs_of ub)"
    have w: "\<forall>x \<in> set ?rows. length x = md_n_vocab md" using g by (auto simp: graph_ok_def)
    have len: "length (?log idxs) = ?n"
      using outputs_of_tokens(3) [OF idxss(2)] length_map [of "(!) idxs" "outputs_of ub"] by simp
    obtain zs where zs: "extract_outputs md cp ub r' n_prev n_all (lc_out lc2) = Inr ((lc_out lc2)\<lparr>o_logits := View zs\<rparr>)"
      "length zs = length ys" "\<forall>j < n_prev. row_of (md_n_vocab md) j zs = row_of (md_n_vocab md) j ys"
      "\<forall>j < length ?rows. row_of (md_n_vocab md) (n_prev + j) zs = ?rows ! j"
      using extract_outputs_rows [OF emb, of "lc_out lc2" ys r' ?rows md n_prev n_all ub] prems(12-15) p(4,11) Some w bf(2) len idxss(1)
      by auto
    let ?lc3 = "lc2\<lparr>lc_out := (lc_out lc2)\<lparr>o_logits := View zs\<rparr>\<rparr>"
    have outs: "?log (concat idxss) = ?log idxs @ ?log (concat idxss')" using idxss(1) by simp
    have done_step: "loop_done md a f n_prev (?log (concat idxss)) (ub # ubs) kv lc lc' ys"
      if "loop_done md a f (n_prev + ?n) (?log (concat idxss')) ubs kv1 ?lc3 lc' zs" for lc'
      unfolding outs using that p(4,5) zs(2-4) kv1(3,5)
      by (intro loop_done_step [OF idxss(2) refl _ _ _ _ _ _ _ refl, where lcx = lc2 and ?kv2.0 = kv2]) simp_all
    have eq: "ubatch_loop md cp bk n_all n_tok n_prev cx lc =
        (if Suc (cx_i_cur cx) < length (cx_ubatches cx)
         then ubatch_loop md cp bk n_all n_tok (n_prev + ?n) (cx1\<lparr>cx_i_cur := Suc (cx_i_cur cx)\<rparr>) ?lc3
         else Inr (None, ?lc3))"
      unfolding unfold using Some zs(1) p(6) by simp
    show ?thesis
    proof (cases "ubs = []")
      case True
      then have "\<not> Suc (cx_i_cur cx) < length (cx_ubatches cx)" using cur(4) by auto
      moreover have "idxss' = []" using True idxss(3) by simp
      moreover have "loop_done md a f (n_prev + ?n) [] [] kv1 ?lc3 ?lc3 zs"
        using wf1 p(3,4) kv1(3) by (auto simp: loop_done_def)
      ultimately show ?thesis using eq done_step True by auto
    next
      case False
      then have "Suc (cx_i_cur cx) < length (cx_ubatches cx)" using cur(4) by (metis drop_all leI)
      moreover have "\<exists>code lc'. ubatch_loop md cp bk n_all n_tok (n_prev + ?n) (cx1\<lparr>cx_i_cur := Suc (cx_i_cur cx)\<rparr>) ?lc3 = Inr (code, lc') \<and>
        (case code of None \<Rightarrow> loop_done md a f (n_prev + ?n) (?log (concat idxss')) ubs kv1 ?lc3 lc' zs
         | Some c \<Rightarrow> \<exists>kvs. loop_failed bk ubs kv1 c kvs lc')"
      proof (rule Cons.IH [OF kv1(6) idxss(3) False _ _ idx(2) kv1(2)])
        show "\<forall>q < n_ids. kv_held kv1 q \<subseteq> {..<INT32_MAX}" using kv1(5) prems(8,9) bf(4) by auto
        show "n_prev + ?n + length (?log (concat idxss')) \<le> n_all" using prems(15) outs len by simp
        show "lc_memory ?lc3 = with_buf b1 kv1" "length b1 = kv_n_stream kv1" using p(2,3) prems(11) kv1(4) by simp_all
      qed (use cur p(4,7,8) kv1(3) prems(8,13,14) zs(2) in simp_all)
      ultimately obtain code lc' where ih: "ubatch_loop md cp bk n_all n_tok n_prev cx lc = Inr (code, lc')"
        "case code of None \<Rightarrow> loop_done md a f (n_prev + ?n) (?log (concat idxss')) ubs kv1 ?lc3 lc' zs
         | Some c \<Rightarrow> \<exists>kvs. loop_failed bk ubs kv1 c kvs lc'"
        using eq by auto
      show ?thesis
      proof (cases code)
        case None
        then show ?thesis using ih done_step [of lc'] by simp
      next
        case (Some c)
        then obtain kvs where "loop_failed bk ubs kv1 c kvs lc'" using ih(2) by auto
        then have "loop_failed bk (ub # ubs) kv c (with_buf b kv1 # kvs) lc'"
          by (intro loop_failed_step [OF _ _ kv1(3,5)]) (use p(9,10) \<open>r = Some r'\<close> kv1(5) in simp_all)
        then show ?thesis using ih(1) Some by auto
      qed
    qed
  qed
qed simp

section \<open>From the batch to the loop\<close>

lemma couple_pass_outputs: "ba_n_outputs (couple_pass b i a) = ba_n_outputs a"
proof -
  have "ba_n_outputs (fold (\<lambda>s a.
      let s0 = batch_seqs b i ! 0; s1 = batch_seqs b i ! s;
          a1 = a\<lparr>ba_seq_pos := (ba_seq_pos a)(s1 := insert (batch_pos b i) (ba_seq_pos a s1))\<rparr>
      in if s > 0 then a1\<lparr>ba_seq_cpl := insert (s1, s0) (ba_seq_cpl a1), ba_has_cpl := True\<rparr> else a1) ss a) = ba_n_outputs a" for ss
    by (induction ss arbitrary: a) (simp_all add: Let_def)
  then show ?thesis by (simp add: couple_pass_def)
qed

lemma batch_init_outputs:
  assumes "batch_init inp n_vocab mem n_embd n_seq_max output_all a0 = Inr (True, a)"
  shows "ba_n_outputs a = length (filter (\<lambda>t. batch_logit (ba_batch a) t \<noteq> 0) [0..<ba_get_n_tokens a])"
proof -
  obtain a2 where a2: "a = ba_split_reset a2" "a2 = batch_stats n_embd n_seq_max ((ba_clear a0)\<lparr>ba_batch := ba_batch a2\<rparr>)"
    using batch_init_success [OF assms] by blast
  have couple: "ba_n_outputs (fold (couple_pass b) is x) = ba_n_outputs x" for b "is" x
    by (induction "is" arbitrary: x) (simp_all add: couple_pass_outputs)
  have sets: "ba_n_outputs (fold (seq_set_pass b) is x) = ba_n_outputs x" for b "is" x
    by (induction "is" arbitrary: x) (simp_all add: seq_set_pass_def Let_def)
  have "fold (\<lambda>i n. n + (if batch_logit b i \<noteq> 0 then 1 else 0)) is k = k + length (filter (\<lambda>t. batch_logit b t \<noteq> 0) is)"
    for b "is" and k :: nat by (induction "is" arbitrary: k) simp_all
  then have count: "count_outputs b = length (filter (\<lambda>t. batch_logit b t \<noteq> 0) [0..<b_n_tokens b])" for b
    by (simp add: count_outputs_def)
  have "ba_n_outputs a2 = count_outputs (ba_batch a2)"
    by (subst a2(2)) (simp add: batch_stats_def Let_def couple sets ba_clear_def)
  then show ?thesis by (simp add: a2(1) ba_split_reset_def ba_get_n_tokens_def count)
qed

lemma batch_init_fine:
  assumes init: "batch_init inp n_vocab mem n_embd n_seq_max output_all a0 = Inr (True, a)" and ok: "batch_ok n_ids a"
    and pos: "\<forall>t < ba_get_n_tokens a. batch_pos (ba_batch a) t < INT32_MAX"
  shows "batch_fine n_ids (ba_n_outputs a) (ba_get_n_tokens a) a"
proof -
  have "\<forall>t < ba_get_n_tokens a. batch_logit (ba_batch a) t \<noteq> 0" if all: "ba_n_outputs a = ba_get_n_tokens a"
  proof -
    have "length (filter (\<lambda>t. batch_logit (ba_batch a) t \<noteq> 0) [0..<ba_get_n_tokens a]) = length [0..<ba_get_n_tokens a]"
      using batch_init_outputs [OF init] all by simp
    then have "filter (\<lambda>t. batch_logit (ba_batch a) t \<noteq> 0) [0..<ba_get_n_tokens a] = [0..<ba_get_n_tokens a]"
      by (metis filter_id_conv length_filter_less less_irrefl)
    then show ?thesis by (simp add: filter_id_conv)
  qed
  then show ?thesis using ok pos by (simp add: batch_fine_def)
qed

text \<open>
  The context the decoder starts from: a KV cache with one stream and no sliding window, no backend
  samplers, no embeddings, a table of ids that is new or has its size.
\<close>

definition ctx_ready :: "llama_model \<Rightarrow> llama_cparams \<Rightarrow> ('d, 'f) graph_backend \<Rightarrow> ('d, 'f) llama_context \<Rightarrow> bool" where
  "ctx_ready md cp bk lc \<longleftrightarrow>
     kv_wf (lc_memory lc) \<and> no_swa (lc_memory lc) \<and> kv_n_stream (lc_memory lc) = 1 \<and> kv_can_shift (lc_memory lc) \<and>
     hp_rope_type (kv_hparams (lc_memory lc)) \<noteq> LLAMA_ROPE_TYPE_NONE \<and>
     (\<forall>q < length (kv_seq_to_stream (lc_memory lc)). kv_held (lc_memory lc) q \<subseteq> {..<INT32_MAX}) \<and>
     (\<forall>kv. \<exists>b. bk_kshift bk kv = Some b \<and> length b = length (kv_buf kv)) \<and> (\<forall>n. bk_alloc (bk_mem bk) n \<noteq> None) \<and>
     \<not> cp_embeddings cp \<and> \<not> md_is_t5 md \<and> cp_causal_attn cp \<and> 0 < cp_n_batch cp \<and>
     sm_samplers (o_sampling (lc_out lc)) = [] \<and> (o_ids (lc_out lc) = [] \<or> length (o_ids (lc_out lc)) = cp_n_batch cp)"

lemma memory_update_ready:
  assumes "ctx_ready md cp bk lc"
  shows "\<exists>ok kv'. memory_update bk opt lc = Inr (ok, lc\<lparr>lc_memory := kv'\<rparr>) \<and> ctx_ready md cp bk (lc\<lparr>lc_memory := kv'\<rparr>) \<and>
    kv_seq_to_stream kv' = kv_seq_to_stream (lc_memory lc) \<and>
    (\<forall>q < length (kv_seq_to_stream (lc_memory lc)). kv_held kv' q = kv_held (lc_memory lc) q) \<and>
    cx_status (fst (kv_init_update kv')) = LLAMA_MEMORY_STATUS_NO_UPDATE"
proof -
  let ?kv = "lc_memory lc"
  obtain cx kv1 where u: "kv_init_update ?kv = (cx, kv1)" by (cases "kv_init_update ?kv")
  have pre: "kv_wf ?kv" "kv_can_shift ?kv" "hp_rope_type (kv_hparams ?kv) \<noteq> LLAMA_ROPE_TYPE_NONE"
    "\<And>kv. \<exists>b. bk_kshift bk kv = Some b \<and> length b = length (kv_buf kv)"
    using assms by (simp_all add: ctx_ready_def)
  obtain cx' kv' where q: "kv_ctx_apply (bk_kshift bk) cx kv1 = Inr (True, cx', kv')" "kv_wf kv'"
    "kv' = ?kv\<lparr>kv_ssrc := [], kv_sdst := [], kv_buf := kv_buf kv', kv_cells := kv_cells kv'\<rparr>"
    "\<forall>q < length (kv_seq_to_stream ?kv). kv_held kv' q = kv_held ?kv q"
    "cx_status (fst (kv_init_update kv')) = LLAMA_MEMORY_STATUS_NO_UPDATE"
    using update_quiet [OF pre] u by auto
  have same: "kv_seq_to_stream kv' = kv_seq_to_stream ?kv" "kv_n_stream kv' = kv_n_stream ?kv"
    "kv_can_shift kv' = kv_can_shift ?kv" "kv_hparams kv' = kv_hparams ?kv" "kv_swa_type kv' = kv_swa_type ?kv"
    by (subst q(3), simp)+
  show ?thesis
  proof (cases "cx_status cx = LLAMA_MEMORY_STATUS_SUCCESS")
    case True
    then have "memory_update bk opt lc = Inr (True, lc\<lparr>lc_memory := kv'\<rparr>)"
      using u q(1) by (simp add: memory_update_def)
    moreover have "ctx_ready md cp bk (lc\<lparr>lc_memory := kv'\<rparr>)"
      using assms q(2,4) same by (simp add: ctx_ready_def no_swa_def)
    ultimately show ?thesis using q(4,5) same(1) by blast
  next
    case False
    have st: "cx_status cx = LLAMA_MEMORY_STATUS_NO_UPDATE" and kv1: "kv1 = ?kv\<lparr>kv_ssrc := [], kv_sdst := []\<rparr>"
      "\<not> kv_get_has_shift ?kv" "kv_ssrc ?kv = []"
      using u False by (auto simp: kv_init_update_def Let_def kv_ctx_status_def split: if_splits)
    then have "kv_sdst ?kv = []" using pre(1) by (auto simp: kv_wf_def)
    then have "kv1 = ?kv" using kv1 by simp
    then have "memory_update bk opt lc = Inr (False, lc\<lparr>lc_memory := ?kv\<rparr>)" using u st by (simp add: memory_update_def)
    then show ?thesis using assms u st by (intro exI [of _ False] exI [of _ ?kv]) simp
  qed
qed

text \<open>After an update there is nothing more to update, so the slots are asked for once.\<close>

lemma init_loop_ready:
  fixes lc :: "('d, 'f) llama_context"
  assumes r: "ctx_ready md cp bk lc" and quiet: "cx_status (fst (kv_init_update (lc_memory lc))) = LLAMA_MEMORY_STATUS_NO_UPDATE"
    and init: "batch_init inp n_vocab mem n_embd n_seq_max output_all a0 = Inr (True, lc_balloc lc)"
    and ok: "batch_ok (length (kv_seq_to_stream (lc_memory lc))) (lc_balloc lc)"
  shows "\<exists>a' idxss res. init_loop False bk n_ubatch lc = Some (Inr (res, lc\<lparr>lc_balloc := a'\<rparr>)) \<and>
    mset (concat idxss) = mset [0..<ba_get_n_tokens (lc_balloc lc)] \<and>
    ba_out_ids a' = filter (\<lambda>i. batch_logit (ba_batch (lc_balloc lc)) i \<noteq> 0) (concat idxss) \<and>
    (case res of Inl code \<Rightarrow> code = 1
     | Inr cx \<Rightarrow> cx_i_cur cx = 0 \<and> cx_ubatches cx \<noteq> [] \<and>
        list_all2 (ub_of (lc_balloc lc)) (cx_ubatches cx) idxss \<and> good_run (cx_sinfos cx) (cx_ubatches cx) (lc_memory lc) \<and>
        split_all (split_simple n_ubatch) [] (ba_split_reset (lc_balloc lc)) = Some (cx_ubatches cx, a'))"
proof -
  let ?a = "lc_balloc lc" and ?kv = "lc_memory lc"
  obtain cx a' idxss where p: "kv_init_batch ?a n_ubatch ?kv = Some (Inr (cx, a', ?kv))"
    "mset (concat idxss) = mset [0..<ba_get_n_tokens ?a]"
    "ba_out_ids a' = filter (\<lambda>i. batch_logit (ba_batch ?a) i \<noteq> 0) (concat idxss)"
    "cx = kv_ctx_status LLAMA_MEMORY_STATUS_FAILED_PREPARE \<or>
     (cx_status cx = LLAMA_MEMORY_STATUS_SUCCESS \<and> cx_i_cur cx = 0 \<and> cx_ubatches cx \<noteq> [] \<and>
      list_all2 (ub_of ?a) (cx_ubatches cx) idxss \<and> good_run (cx_sinfos cx) (cx_ubatches cx) ?kv \<and>
      split_all (split_simple n_ubatch) [] (ba_split_reset ?a) = Some (cx_ubatches cx, a'))"
    using init_batch_parts [OF _ _ _ init ok, of n_ubatch] r by (auto simp: ctx_ready_def)
  obtain cx0 kv0 where u: "kv_init_update ?kv = (cx0, kv0)" by (cases "kv_init_update ?kv")
  have "kv_ssrc ?kv = []" "kv0 = ?kv\<lparr>kv_ssrc := [], kv_sdst := []\<rparr>"
    using u quiet by (auto simp: kv_init_update_def Let_def kv_ctx_status_def split: if_splits)
  moreover have "length (kv_ssrc ?kv) = length (kv_sdst ?kv)" using r by (simp add: ctx_ready_def kv_wf_def)
  ultimately have "kv0 = ?kv" by simp
  then have mu: "memory_update bk True (lc\<lparr>lc_balloc := a'\<rparr>) = Inr (False, lc\<lparr>lc_balloc := a'\<rparr>)"
    using u quiet by (simp add: memory_update_def)
  have lc1: "lc\<lparr>lc_balloc := a', lc_memory := ?kv\<rparr> = lc\<lparr>lc_balloc := a'\<rparr>" by simp
  show ?thesis
  proof (cases "cx = kv_ctx_status LLAMA_MEMORY_STATUS_FAILED_PREPARE")
    case True
    then have "init_loop False bk n_ubatch lc = Some (Inr (Inl 1, lc\<lparr>lc_balloc := a'\<rparr>))"
      by (subst init_loop.simps) (simp add: p(1) Let_def lc1 mu kv_ctx_status_def)
    then show ?thesis using p(2,3) by (intro exI [of _ a'] exI [of _ idxss] exI [of _ "Inl 1"]) simp
  next
    case False
    then have "init_loop False bk n_ubatch lc = Some (Inr (Inr cx, lc\<lparr>lc_balloc := a'\<rparr>))"
      using p(4) by (subst init_loop.simps) (simp add: p(1) Let_def lc1)
    then show ?thesis using p(2-4) False by (intro exI [of _ a'] exI [of _ idxss] exI [of _ "Inr cx"]) auto
  qed
qed

section \<open>From the loop to the accessors\<close>

lemma output_reserve_ready:
  assumes "ctx_ready md cp bk lc"
  shows "\<exists>ys b sm. output_reserve md cp (bk_mem bk) n (lc_out lc) = (max n (cp_n_seq_max cp),
      (lc_out lc)\<lparr>o_buf := b, o_logits := View ys, o_embd := No_data, o_sampling := sm,
        o_ids := replicate (cp_n_batch cp) (-1), o_n_outputs := 0\<rparr>) \<and>
    length ys = md_n_vocab md * max n (cp_n_seq_max cp) \<and> sm_samplers sm = []"
proof -
  let ?o = "lc_out lc"
  have "\<forall>k. \<exists>x. bk_alloc (bk_mem bk) k = Some x" using assms by (simp add: ctx_ready_def)
  then obtain g where g: "\<And>k. bk_alloc (bk_mem bk) k = Some (g k)" by metis
  have r: "\<not> cp_embeddings cp" "\<not> md_is_t5 md" "0 < cp_n_batch cp" "sm_samplers (o_sampling ?o) = []"
    "o_ids ?o = [] \<or> length (o_ids ?o) = cp_n_batch cp"
    using assms by (simp_all add: ctx_ready_def)
  define out where "out = snd (output_reserve md cp (bk_mem bk) n ?o)"
  have fst: "fst (output_reserve md cp (bk_mem bk) n ?o) = max n (cp_n_seq_max cp)"
    using r by (auto simp: output_reserve_def Let_def g split: option.splits)
  have out: "out = ?o\<lparr>o_buf := o_buf out, o_logits := View (map (bk_junk (bk_mem bk)) [0..<md_n_vocab md * max n (cp_n_seq_max cp)]),
      o_embd := No_data, o_sampling := o_sampling out, o_ids := replicate (cp_n_batch cp) (-1), o_n_outputs := 0\<rparr>"
    "sm_samplers (o_sampling out) = []"
    unfolding out_def using r
    by (auto simp: output_reserve_def Let_def g free_views_def sampling_views_def split: option.splits)
  have "output_reserve md cp (bk_mem bk) n ?o = (max n (cp_n_seq_max cp), out)" using fst by (simp add: out_def prod_eq_iff)
  then show ?thesis
    using out by (intro exI [of _ "map (bk_junk (bk_mem bk)) [0..<md_n_vocab md * max n (cp_n_seq_max cp)]"]
      exI [of _ "o_buf out"] exI [of _ "o_sampling out"]) simp
qed

lemma get_logits_mapped:
  fixes o0 :: "'f outputs"
  assumes lg: "o_logits o0 = View zs" "length out_ids * md_n_vocab md \<le> length zs" and em: "o_embd o0 = No_data"
    and sm: "sm_samplers (o_sampling o0) = []" and n: "o_n_outputs o0 = length out_ids" and d: "distinct out_ids"
    and lt: "\<forall>t \<in> set out_ids. t < length (o_ids o0)" and sw: "o_swaps o0 = []" and ids: "\<forall>j \<in> set (o_ids o0). j = -1"
  shows "\<exists>ids o1. map_outputs out_ids o0 = Inr (ids, o1) \<and>
    (\<forall>k < length out_ids. \<exists>o2. get_logits_ith md (int (out_ids ! k)) o1 = Inr (Some (row_of (md_n_vocab md) k zs), o2)) \<and>
    (\<forall>t < length (o_ids o0). t \<notin> set out_ids \<longrightarrow> (\<exists>o2. get_logits_ith md (int t) o1 = Inr (None, o2)))"
proof -
  let ?n = "length out_ids" and ?w = "md_n_vocab md"
  have fits: "fits ?w ?n (o_logits o0)" using lg by (simp add: fits_def)
  then have ok: "outputs_ok md ?n o0" "embd_fits md ?n o0" using em sm by (simp_all add: outputs_ok_def sampling_ok_def embd_fits_def)
  obtain ids o1 sws where m: "map_outputs out_ids o0 = Inr (ids, o1)" "swaps_ok ?n sws"
    "output_reorder md o1 = Inr ((perm_outputs md sws o1)\<lparr>o_swaps := []\<rparr>)"
    "o1 = o0\<lparr>o_swaps := sws, o_ids := o_ids o1\<rparr>" "length (o_ids o1) = length (o_ids o0)"
    "\<forall>k < ?n. let j = card {t \<in> set out_ids. t < out_ids ! k} in
       j < ?n \<and> o_ids o1 ! (out_ids ! k) = int j \<and> apply_swaps sws [0..<?n] ! j = k"
    "\<forall>t < length (o_ids o0). t \<notin> set out_ids \<longrightarrow> o_ids o1 ! t = -1"
    using outputs_resolved [OF ok n d lt sw ids] by auto
  let ?o2 = "(perm_outputs md sws o1)\<lparr>o_swaps := []\<rparr>"
  have "o_logits o1 = View zs" "o_n_outputs o1 = ?n" using lg(1) n by (subst m(4), simp)+
  then have o2: "o_ids ?o2 = o_ids o1" "o_n_outputs ?o2 = ?n" "o_logits ?o2 = perm_view ?w sws (o_logits o0)"
    using lg(1) by (simp_all add: perm_outputs_def)
  have "get_logits_ith md (int (out_ids ! k)) o1 = Inr (Some (row_of ?w k zs), ?o2)" if k: "k < ?n" for k
  proof -
    obtain j where j: "j < ?n" "o_ids o1 ! (out_ids ! k) = int j" "apply_swaps sws [0..<?n] ! j = k"
      using m(6) k by (auto simp: Let_def)
    have "out_ids ! k < length (o_ids o1)" using lt k m(5) by simp
    then have res: "output_resolve_row (int (out_ids ! k)) ?o2 = Inr j"
      unfolding output_resolve_row_def o2 using j by simp
    have "view_row ?w j (o_logits ?o2) = Inr (row_of ?w k zs)"
      unfolding o2 view_row_perm [OF fits m(2) j(1)] j(3) using lg(1) row_bound [OF k lg(2)] by (simp add: view_row_def)
    then show ?thesis unfolding get_logits_ith_def m(3) bind_res_simps res using o2(3) lg(1) by simp
  qed
  moreover have "get_logits_ith md (int t) o1 = Inr (None, ?o2)" if "t < length (o_ids o0)" "t \<notin> set out_ids" for t
  proof -
    have "output_resolve_row (int t) ?o2 = Inl (Runtime_error ''batch.logits[i] != true'')"
      unfolding output_resolve_row_def o2 using m(5,7) that by simp
    then show ?thesis unfolding get_logits_ith_def m(3) bind_res_simps using o2(3) lg(1) by simp
  qed
  ultimately show ?thesis using m(1) by blast
qed

text \<open>The result of a batch: everything taken in, or a failed micro-batch taken out again.\<close>

definition decoded ::
    "llama_model \<Rightarrow> llama_batch_allocr \<Rightarrow> ('d kv_cache \<Rightarrow> llama_ubatch \<Rightarrow> nat \<Rightarrow> 'f list) \<Rightarrow> 'd kv_cache \<Rightarrow>
     ('d, 'f) llama_context \<Rightarrow> bool" where
  "decoded md a f kv lc' \<longleftrightarrow> kv_wf (lc_memory lc') \<and>
     (\<forall>q < length (kv_seq_to_stream kv). kv_held (lc_memory lc') q = kv_held kv q \<union> batch_positions a q) \<and>
     (\<forall>t < ba_get_n_tokens a. \<exists>r out. get_logits_ith md (int t) (lc_out lc') = Inr (r, out) \<and>
        (if batch_logit (ba_batch a) t \<noteq> 0 then \<exists>x. r = Some x \<and> computed_for a f t x else r = None))"

lemma run_ubatches_result:
  fixes lc :: "('d, 'f) llama_context"
  assumes r: "ctx_ready md cp bk lc" and g: "graph_ok md bk f" and sw: "o_swaps (lc_out lc) = []"
    and fine: "batch_fine (length (kv_seq_to_stream (lc_memory lc))) (ba_n_outputs a) (ba_get_n_tokens a) a"
    and n: "ba_n_outputs a = length (filter (\<lambda>t. batch_logit (ba_batch a) t \<noteq> 0) [0..<ba_get_n_tokens a])" "ba_get_n_tokens a \<le> cp_n_batch cp"
    and parts: "mset (concat idxss) = mset [0..<ba_get_n_tokens a]"
      "ba_out_ids (lc_balloc lc) = filter (\<lambda>t. batch_logit (ba_batch a) t \<noteq> 0) (concat idxss)"
    and cx: "cx_i_cur cx = 0" "cx_ubatches cx \<noteq> []" "list_all2 (ub_of a) (cx_ubatches cx) idxss"
      "good_run (cx_sinfos cx) (cx_ubatches cx) (lc_memory lc)"
  shows "\<exists>code lc'. run_ubatches md cp bk (ba_n_outputs a) (ba_get_n_tokens a) cx lc = Inr (code, lc') \<and>
    (if code = 0 then decoded md a f (lc_memory lc) lc' else \<exists>kvs. loop_failed bk (cx_ubatches cx) (lc_memory lc) code kvs lc')"
proof -
  let ?n = "ba_n_outputs a" and ?log = "filter (\<lambda>t. batch_logit (ba_batch a) t \<noteq> 0)" and ?kv = "lc_memory lc"
  let ?outs = "?log (concat idxss)" and ?w = "md_n_vocab md"
  have n1: "1 \<le> ba_n_pos_per_embd a" using fine by (simp add: batch_fine_def batch_ok_def)
  have wf: "kv_wf ?kv" and held: "\<forall>q < length (kv_seq_to_stream ?kv). kv_held ?kv q \<subseteq> {..<INT32_MAX}"
    and emb: "\<not> cp_embeddings cp" using r by (simp_all add: ctx_ready_def)
  have set: "set (concat idxss) = {..<ba_get_n_tokens a}" and dis: "distinct (concat idxss)"
    using mset_eq_setD [OF parts(1)] mset_eq_imp_distinct_iff [OF parts(1)] by (auto simp: lessThan_atLeast0)
  have len: "length ?outs = ?n" using arg_cong [OF parts(1), of "\<lambda>m. size (filter_mset (\<lambda>t. batch_logit (ba_batch a) t \<noteq> 0) m)"] n(1)
    unfolding mset_filter [symmetric] size_mset by simp
  obtain ys b sm where out: "output_reserve md cp (bk_mem bk) ?n (lc_out lc) = (max ?n (cp_n_seq_max cp),
      (lc_out lc)\<lparr>o_buf := b, o_logits := View ys, o_embd := No_data, o_sampling := sm,
        o_ids := replicate (cp_n_batch cp) (-1), o_n_outputs := 0\<rparr>)"
    "length ys = ?w * max ?n (cp_n_seq_max cp)" "sm_samplers sm = []"
    using output_reserve_ready [OF r, of ?n] by blast
  let ?out = "(lc_out lc)\<lparr>o_buf := b, o_logits := View ys, o_embd := No_data, o_sampling := sm,
        o_ids := replicate (cp_n_batch cp) (-1), o_n_outputs := 0\<rparr>"
  let ?lc1 = "lc\<lparr>lc_out := ?out\<rparr>"
  have room: "?n * ?w \<le> length ys" unfolding out(2) by (simp add: mult.commute)
  have mem: "lc_memory ?lc1 = with_buf (kv_buf ?kv) ?kv" "length (kv_buf ?kv) = kv_n_stream ?kv"
    using wf by (simp_all add: with_buf_same kv_wf_def)
  have "\<exists>code lc'. ubatch_loop md cp bk ?n (ba_get_n_tokens a) 0 cx ?lc1 = Inr (code, lc') \<and>
      (case code of None \<Rightarrow> loop_done md a f 0 ?outs (cx_ubatches cx) ?kv ?lc1 lc' ys
       | Some c \<Rightarrow> \<exists>kvs. loop_failed bk (cx_ubatches cx) ?kv c kvs lc')"
    by (rule ubatch_loop_result [OF g emb fine cx(4,3,2) _ _ _ wf refl held mem _ _ room])
      (use set len out(3) cx(1) in simp_all)
  then obtain code lc2 where loop: "ubatch_loop md cp bk ?n (ba_get_n_tokens a) 0 cx ?lc1 = Inr (code, lc2)"
    "case code of None \<Rightarrow> loop_done md a f 0 ?outs (cx_ubatches cx) ?kv ?lc1 lc2 ys | Some c \<Rightarrow> \<exists>kvs. loop_failed bk (cx_ubatches cx) ?kv c kvs lc2"
    by blast
  show ?thesis
  proof (cases code)
    case (Some c)
    then have f: "\<exists>kvs. loop_failed bk (cx_ubatches cx) ?kv c kvs lc2" using loop(2) by simp
    then have "c \<noteq> 0" by (auto dest: loop_failed_code)
    with f Some loop(1) show ?thesis by (intro exI [of _ c] exI [of _ lc2]) (simp add: run_ubatches_def out(1) Let_def)
  next
    case None
    then have d: "loop_done md a f 0 ?outs (cx_ubatches cx) ?kv ?lc1 lc2 ys" using loop(2) by simp
    obtain m zs where z: "lc_out lc2 = ?out\<lparr>o_n_outputs := m, o_logits := View zs\<rparr>" "length zs = length ys"
      "\<forall>j < length ?outs. computed_for a f (?outs ! j) (row_of ?w j zs)"
      using d by (auto simp: loop_done_def)
    have bal: "ba_out_ids (lc_balloc lc2) = ?outs" using d parts(2) by (simp add: loop_done_def)
    let ?o0 = "(lc_out lc2)\<lparr>o_n_outputs := ?n\<rparr>"
    have o0: "o_logits ?o0 = View zs" "o_embd ?o0 = No_data" "sm_samplers (o_sampling ?o0) = []" "o_n_outputs ?o0 = ?n"
      "o_swaps ?o0 = []" "\<forall>j \<in> set (o_ids ?o0). j = -1" "length (o_ids ?o0) = cp_n_batch cp"
      using z(1) sw out(3) by simp_all
    have lt: "\<forall>t \<in> set ?outs. t < length (o_ids ?o0)" using set n(2) o0(7) by auto
    obtain ids o1 where m: "map_outputs ?outs ?o0 = Inr (ids, o1)"
      "\<forall>k < length ?outs. \<exists>o2. get_logits_ith md (int (?outs ! k)) o1 = Inr (Some (row_of ?w k zs), o2)"
      "\<forall>t < length (o_ids ?o0). t \<notin> set ?outs \<longrightarrow> (\<exists>o2. get_logits_ith md (int t) o1 = Inr (None, o2))"
      using get_logits_mapped [OF o0(1) _ o0(2,3) _ _ lt, of md] o0(4-6) z(2) room len dis by auto
    let ?lc' = "lc2\<lparr>lc_out := o1, lc_balloc := (lc_balloc lc2)\<lparr>ba_out_ids := ids\<rparr>\<rparr>"
    have "\<exists>r out. get_logits_ith md (int t) o1 = Inr (r, out) \<and>
        (if batch_logit (ba_batch a) t \<noteq> 0 then \<exists>x. r = Some x \<and> computed_for a f t x else r = None)" if t: "t < ba_get_n_tokens a" for t
    proof (cases "batch_logit (ba_batch a) t \<noteq> 0")
      case True
      then have "t \<in> set ?outs" using set t by simp
      then obtain k where "k < length ?outs" "?outs ! k = t" unfolding in_set_conv_nth by blast
      then show ?thesis using True m(2) z(3) by auto
    next
      case False
      then have "t \<notin> set ?outs" by simp
      moreover have "t < length (o_ids ?o0)" using z(1) n(2) t by simp
      ultimately show ?thesis using m(3) False by auto
    qed
    then have "decoded md a f ?kv ?lc'"
      using d split_positions [OF cx(3) n1 set] by (simp add: decoded_def loop_done_def)
    moreover have "run_ubatches md cp bk ?n (ba_get_n_tokens a) cx lc = Inr (0, ?lc')"
      using None loop(1) m(1) bal by (simp add: run_ubatches_def out(1) Let_def)
    ultimately show ?thesis by (intro exI [of _ 0] exI [of _ ?lc']) simp
  qed
qed

text \<open>A whole call on a batch that the allocator accepts.\<close>

definition batch_accepted ::
    "llama_model \<Rightarrow> llama_cparams \<Rightarrow> llama_batch \<Rightarrow> ('d, 'f) llama_context \<Rightarrow> llama_batch_allocr \<Rightarrow> bool" where
  "batch_accepted md cp inp lc a \<longleftrightarrow> (b_token inp = None) \<noteq> (b_embd inp = None) \<and>
     batch_init inp (md_n_vocab md) (Some (mem_queries (lc_memory lc))) (unat (n_embd_inp (md_hparams md)))
       (if cp_kv_unified cp then LLAMA_MAX_SEQ else cp_n_seq_max cp) (cp_embeddings cp) (lc_balloc lc) = Inr (True, a) \<and>
     batch_ok (length (kv_seq_to_stream (lc_memory lc))) a \<and>
     (\<forall>t < ba_get_n_tokens a. batch_pos (ba_batch a) t < INT32_MAX) \<and> ba_get_n_tokens a \<le> cp_n_batch cp"

lemma decode_result:
  fixes lc :: "('d, 'f) llama_context"
  assumes r: "ctx_ready md cp bk lc" and g: "graph_ok md bk f" and acc: "batch_accepted md cp inp lc a"
  shows "\<exists>code lc'. decode md cp bk inp lc = Some (Inr (code, lc')) \<and>
    (code = 0 \<and> decoded md a f (lc_memory lc) lc' \<or>
     code = 1 \<and> kv_wf (lc_memory lc') \<and>
       (\<forall>q < length (kv_seq_to_stream (lc_memory lc)). kv_held (lc_memory lc') q = kv_held (lc_memory lc) q) \<or>
     (\<exists>ubs a' kvs. split_all (split_simple (cp_n_ubatch cp)) [] (ba_split_reset a) = Some (ubs, a') \<and>
        loop_failed bk ubs (lc_memory lc) code kvs lc'))"
proof -
  let ?kv = "lc_memory lc"
  have inp: "(b_token inp = None) \<noteq> (b_embd inp = None)" and ok: "batch_ok (length (kv_seq_to_stream ?kv)) a"
    and pos: "\<forall>t < ba_get_n_tokens a. batch_pos (ba_batch a) t < INT32_MAX" and n: "ba_get_n_tokens a \<le> cp_n_batch cp"
    and init: "batch_init inp (md_n_vocab md) (Some (mem_queries ?kv)) (unat (n_embd_inp (md_hparams md)))
       (if cp_kv_unified cp then LLAMA_MAX_SEQ else cp_n_seq_max cp) (cp_embeddings cp) (lc_balloc lc) = Inr (True, a)"
    using acc by (simp_all add: batch_accepted_def)
  have flags: "\<not> cp_embeddings cp" "cp_causal_attn cp" "sm_samplers (o_sampling (lc_out lc)) = []"
    using r by (simp_all add: ctx_ready_def)
  let ?lc1 = "lc\<lparr>lc_balloc := a, lc_n_queued_tokens := lc_n_queued_tokens lc + ba_get_n_tokens a,
      lc_out := (lc_out lc)\<lparr>o_embd_seq := Map.empty, o_swaps := []\<rparr>\<rparr>"
  have r1: "ctx_ready md cp bk ?lc1" using r by (simp add: ctx_ready_def)
  obtain b kv' where u: "memory_update bk False ?lc1 = Inr (b, ?lc1\<lparr>lc_memory := kv'\<rparr>)" "ctx_ready md cp bk (?lc1\<lparr>lc_memory := kv'\<rparr>)"
    "kv_seq_to_stream kv' = kv_seq_to_stream ?kv" "\<forall>q < length (kv_seq_to_stream ?kv). kv_held kv' q = kv_held ?kv q"
    "cx_status (fst (kv_init_update kv')) = LLAMA_MEMORY_STATUS_NO_UPDATE"
    using memory_update_ready [OF r1, of False] by auto
  define lc2 where "lc2 = ?lc1\<lparr>lc_memory := kv'\<rparr>"
  have lc2: "lc_memory lc2 = kv'" "lc_balloc lc2 = a" "o_swaps (lc_out lc2) = []" by (simp_all add: lc2_def)
  note u = u [folded lc2_def]
  obtain a' idxss res where l: "init_loop False bk (cp_n_ubatch cp) lc2 = Some (Inr (res, lc2\<lparr>lc_balloc := a'\<rparr>))"
    "mset (concat idxss) = mset [0..<ba_get_n_tokens a]"
    "ba_out_ids a' = filter (\<lambda>i. batch_logit (ba_batch a) i \<noteq> 0) (concat idxss)"
    "case res of Inl code \<Rightarrow> code = 1
     | Inr cx \<Rightarrow> cx_i_cur cx = 0 \<and> cx_ubatches cx \<noteq> [] \<and>
        list_all2 (ub_of a) (cx_ubatches cx) idxss \<and> good_run (cx_sinfos cx) (cx_ubatches cx) kv' \<and>
        split_all (split_simple (cp_n_ubatch cp)) [] (ba_split_reset a) = Some (cx_ubatches cx, a')"
    using init_loop_ready [OF u(2), unfolded lc2, OF u(5) init ok [folded u(3)], of "cp_n_ubatch cp"] by blast
  let ?lc3 = "lc2\<lparr>lc_balloc := a'\<rparr>"
  have dec: "decode md cp bk inp lc =
      (case res of Inl code \<Rightarrow> Some (Inr (code, ?lc3))
       | Inr cx \<Rightarrow> Some (run_ubatches md cp bk (ba_n_outputs a) (ba_get_n_tokens a) cx ?lc3))"
  proof -
    have "decode_batch md cp bk (lc\<lparr>lc_balloc := a\<rparr>) = (case res of Inl code \<Rightarrow> Some (Inr (code, ?lc3))
       | Inr cx \<Rightarrow> Some (run_ubatches md cp bk (ba_n_outputs a) (ba_get_n_tokens a) cx ?lc3))"
      using flags n u(1) l(1) by (simp add: decode_batch_def Let_def split: sum.split)
    then show ?thesis
      using inp init flags batch_init_fields(2) [OF init] by (auto simp: decode_def check_samplers_def Let_def)
  qed
  show ?thesis
  proof (cases res)
    case (Inl code)
    then have "code = 1" using l(4) by simp
    moreover have "kv_wf kv'" using u(2) lc2 by (simp add: ctx_ready_def)
    ultimately show ?thesis using dec Inl u(4) by (intro exI [of _ 1] exI [of _ ?lc3]) (simp add: lc2)
  next
    case (Inr cx)
    have r3: "ctx_ready md cp bk ?lc3" using u(2) by (simp add: ctx_ready_def)
    have lc3: "lc_memory ?lc3 = kv'" "o_swaps (lc_out ?lc3) = []"
      "ba_out_ids (lc_balloc ?lc3) = filter (\<lambda>i. batch_logit (ba_batch a) i \<noteq> 0) (concat idxss)" using lc2 l(3) by simp_all
    have c: "cx_i_cur cx = 0" "cx_ubatches cx \<noteq> []" "list_all2 (ub_of a) (cx_ubatches cx) idxss"
      "good_run (cx_sinfos cx) (cx_ubatches cx) kv'"
      and sp: "split_all (split_simple (cp_n_ubatch cp)) [] (ba_split_reset a) = Some (cx_ubatches cx, a')"
      using l(4) Inr by simp_all
    have fine: "batch_fine (length (kv_seq_to_stream (lc_memory ?lc3))) (ba_n_outputs a) (ba_get_n_tokens a) a"
      using batch_init_fine [OF init ok pos] u(3) lc2 by simp
    obtain code lc' where run: "run_ubatches md cp bk (ba_n_outputs a) (ba_get_n_tokens a) cx ?lc3 = Inr (code, lc')"
      "if code = 0 then decoded md a f kv' lc' else \<exists>kvs. loop_failed bk (cx_ubatches cx) kv' code kvs lc'"
      using run_ubatches_result [OF r3 g lc3(2) fine batch_init_outputs [OF init] n l(2) lc3(3), unfolded lc3(1), OF c] by blast
    have "decoded md a f kv' lc' \<Longrightarrow> decoded md a f ?kv lc'" using u(3,4) by (simp add: decoded_def)
    moreover have "loop_failed bk (cx_ubatches cx) kv' code kvs lc' \<Longrightarrow> loop_failed bk (cx_ubatches cx) ?kv code kvs lc'" for kvs
      using u(3,4) by (simp add: loop_failed_def)
    ultimately show ?thesis
      using dec Inr run sp by (intro exI [of _ code] exI [of _ lc']) (cases "code = 0", simp, auto)
  qed
qed

section \<open>A small run\<close>

text \<open>A graph whose row of a token repeats its position; it fails with status \<open>st\<close> unless that is success.\<close>

definition demo_row :: "nat kv_cache \<Rightarrow> llama_ubatch \<Rightarrow> nat \<Rightarrow> int list" where
  "demo_row kv ub i = [ub_pos ub ! i, ub_pos ub ! i]"

definition demo_backend :: "ggml_status \<Rightarrow> (nat, int) graph_backend" where
  "demo_backend st = \<lparr>bk_mem = \<lparr>bk_alloc = Some, bk_junk = (\<lambda>_. 0), bk_junk_token = (\<lambda>_. 0)\<rparr>, bk_kshift = (\<lambda>kv. Some (kv_buf kv)),
     bk_reuse = (\<lambda>ub kv. False), bk_build = (\<lambda>ub kv. True), bk_alloc_graph = (\<lambda>ub kv. True),
     bk_compute = (\<lambda>ub kv. (st, kv_buf kv, \<lparr>r_logits = Some (concat (map (demo_row kv ub) (outputs_of ub))), r_embd = None,
        r_embd_pooled = None, r_sampled = [], r_sampled_logits = [], r_sampled_probs = [], r_candidates = []\<rparr>))\<rparr>"

definition demo_cparams :: llama_cparams where
  "demo_cparams = \<lparr>cp_n_ctx = 4, cp_n_batch = 4, cp_n_ubatch = 1, cp_n_seq_max = 2, cp_embeddings = False, cp_causal_attn = True,
     cp_kv_unified = False, cp_pooling_type = LLAMA_POOLING_TYPE_NONE\<rparr>"

definition demo_ctx :: "nat list \<Rightarrow> (nat, int) llama_context" where
  "demo_ctx samplers = \<lparr>lc_memory = demo_kv, lc_balloc = batch_allocr_new 1,
     lc_out = \<lparr>o_ids = [], o_swaps = [], o_n_outputs = 0, o_buf = None, o_logits = No_data, o_embd = No_data, o_embd_seq = Map.empty,
       o_sampling = \<lparr>sm_samplers = samplers, sm_logits = No_data, sm_probs = No_data, sm_sampled = No_data, sm_candidates = No_data,
         sm_logits_count = [], sm_probs_count = [], sm_candidates_count = []\<rparr>\<rparr>,
     lc_n_queued_tokens = 0, lc_n_reused = 0\<rparr>"

text \<open>One token of the given sequences, with output.\<close>

definition demo_shared :: "llama_seq_id list \<Rightarrow> llama_batch" where
  "demo_shared seqs = \<lparr>b_n_tokens = 1, b_token = Some [1], b_embd = None, b_pos = None, b_n_seq_id = Some [length seqs],
     b_seq_id = Some [seqs], b_logits = Some [1]\<rparr>"

definition demo_accepted :: llama_batch_allocr where
  "demo_accepted = snd (projr (batch_init (demo_shared [0]) 2 (Some (mem_queries demo_kv)) 1 2 False (batch_allocr_new 1)))"

lemma demo_init_ok:
  "batch_init (demo_shared [0]) 2 (Some (mem_queries demo_kv)) 1 2 False (batch_allocr_new 1) = Inr (True, demo_accepted)"
proof -
  have "case batch_init (demo_shared [0]) 2 (Some (mem_queries demo_kv)) 1 2 False (batch_allocr_new 1) of Inl e \<Rightarrow> False | Inr r \<Rightarrow> fst r"
    by code_simp
  then show ?thesis by (auto simp: demo_accepted_def split: sum.splits)
qed

lemma demo_ready: "ctx_ready (demo_model 1 1) demo_cparams (demo_backend st) (demo_ctx [])"
proof -
  have "kv_can_shift demo_kv" "hp_rope_type (kv_hparams demo_kv) \<noteq> LLAMA_ROPE_TYPE_NONE" by code_simp+
  moreover have "kv_held demo_kv q = {}" if "q < length (kv_seq_to_stream demo_kv)" for q
    using demo_kv_new [THEN kv_cache_new_wf(2)] that demo_kv_fields by (simp add: LLAMA_MAX_SEQ_def)
  ultimately show ?thesis
    using demo_kv_wf demo_kv_fields
    by (simp add: ctx_ready_def demo_ctx_def demo_backend_def demo_cparams_def demo_model_def)
qed

lemma demo_graph: "graph_ok (demo_model 1 1) (demo_backend st) demo_row"
  by (simp add: graph_ok_def demo_backend_def demo_model_def demo_row_def)

lemma demo_acc: "batch_accepted (demo_model 1 1) demo_cparams (demo_shared [0]) (demo_ctx []) demo_accepted"
proof -
  have e: "unat (n_embd_inp (md_hparams (demo_model 1 1))) = 1" "batch_ok 256 demo_accepted"
    "list_all (\<lambda>t. batch_pos (ba_batch demo_accepted) t < INT32_MAX) [0..<ba_get_n_tokens demo_accepted]"
    "ba_get_n_tokens demo_accepted \<le> 4"
    by code_simp+
  then show ?thesis
    using demo_init_ok demo_kv_fields
    by (simp add: batch_accepted_def list_all_iff demo_model_def demo_cparams_def demo_ctx_def demo_shared_def)
qed

lemma demo_run:
  "case decode (demo_model 1 1) demo_cparams (demo_backend GGML_STATUS_SUCCESS) (demo_shared [0]) (demo_ctx []) of
     Some (Inr (code, _)) \<Rightarrow> code = 0 | _ \<Rightarrow> False"
  by code_simp

section \<open>Properties\<close>

text \<open>
  C1. Decoding an accepted batch returns, whatever the graph does, and leaves a well formed cache.
  With the code 0 the cache holds of every sequence what it held and the positions the batch has
  for it; with the code 1, when there is no slot, it holds what it held; the other codes are those
  of a failed graph.
\<close>

theorem decode_adds_batch:
  fixes lc :: "('d, 'f) llama_context"
  assumes "ctx_ready md cp bk lc" "graph_ok md bk f" "batch_accepted md cp inp lc a"
  shows "\<exists>code lc'. decode md cp bk inp lc = Some (Inr (code, lc')) \<and> kv_wf (lc_memory lc') \<and> code \<in> {0, 1, 2, -2, -3} \<and>
    (\<forall>q < length (kv_seq_to_stream (lc_memory lc)).
       (code = 0 \<longrightarrow> kv_held (lc_memory lc') q = kv_held (lc_memory lc) q \<union> batch_positions a q) \<and>
       (code = 1 \<longrightarrow> kv_held (lc_memory lc') q = kv_held (lc_memory lc) q))"
  using decode_result [OF assms]
proof (elim exE conjE disjE)
  fix code lc' assume "decode md cp bk inp lc = Some (Inr (code, lc'))" "code = 0" "decoded md a f (lc_memory lc) lc'"
  then show ?thesis by (intro exI [of _ code] exI [of _ lc']) (simp add: decoded_def)
next
  fix code lc' ubs kvs assume d: "decode md cp bk inp lc = Some (Inr (code, lc'))" "loop_failed bk ubs (lc_memory lc) code kvs lc'"
  then show ?thesis
    using loop_failed_code [OF d(2)] by (intro exI [of _ code] exI [of _ lc']) (auto simp: loop_failed_def)
qed (intro exI conjI, auto)

theorem decode_adds_batch_witness:
  "\<exists>lc'. decode (demo_model 1 1) demo_cparams (demo_backend GGML_STATUS_SUCCESS) (demo_shared [0]) (demo_ctx []) = Some (Inr (0, lc')) \<and>
     kv_held (lc_memory lc') 0 = {0}"
proof -
  obtain lc' where lc': "decode (demo_model 1 1) demo_cparams (demo_backend GGML_STATUS_SUCCESS) (demo_shared [0]) (demo_ctx []) = Some (Inr (0, lc'))"
    "\<forall>q < length (kv_seq_to_stream (lc_memory (demo_ctx []))). kv_held (lc_memory lc') q = kv_held (lc_memory (demo_ctx [])) q \<union> batch_positions demo_accepted q"
    using decode_adds_batch [OF demo_ready demo_graph demo_acc, of GGML_STATUS_SUCCESS] demo_run by auto
  have "0 < length (kv_seq_to_stream (lc_memory (demo_ctx [])))" "kv_held (lc_memory (demo_ctx [])) 0 \<union> batch_positions demo_accepted 0 = {0}"
    by code_simp+
  then show ?thesis using lc' by auto
qed

text \<open>
  C2. After a successful batch every token finds its own logits: for a token with output
  \<open>get_logits_ith\<close> returns the row the graph computed for it, in a micro-batch that contains it,
  whatever the split and the order of the rows; for a token without output it returns nothing.
\<close>

theorem decode_logits_per_token:
  fixes lc :: "('d, 'f) llama_context"
  assumes "ctx_ready md cp bk lc" "graph_ok md bk f" "batch_accepted md cp inp lc a"
    and "decode md cp bk inp lc = Some (Inr (0, lc'))" and "t < ba_get_n_tokens a"
  shows "\<exists>r out. get_logits_ith md (int t) (lc_out lc') = Inr (r, out) \<and>
    (if batch_logit (ba_batch a) t \<noteq> 0 then \<exists>x. r = Some x \<and> computed_for a f t x else r = None)"
proof -
  have "decoded md a f (lc_memory lc) lc'"
    using decode_result [OF assms(1-3)] assms(4) by (auto dest: loop_failed_code)
  then show ?thesis using assms(5) unfolding decoded_def by blast
qed

theorem decode_logits_per_token_witness:
  "\<exists>lc' x out. decode (demo_model 1 1) demo_cparams (demo_backend GGML_STATUS_SUCCESS) (demo_shared [0]) (demo_ctx []) = Some (Inr (0, lc')) \<and>
     get_logits_ith (demo_model 1 1) 0 (lc_out lc') = Inr (Some x, out) \<and> computed_for demo_accepted demo_row 0 x"
proof -
  obtain lc' where lc': "decode (demo_model 1 1) demo_cparams (demo_backend GGML_STATUS_SUCCESS) (demo_shared [0]) (demo_ctx []) = Some (Inr (0, lc'))"
    using demo_run by (auto split: option.splits sum.splits)
  have "0 < ba_get_n_tokens demo_accepted" "batch_logit (ba_batch demo_accepted) 0 \<noteq> 0" by code_simp+
  then show ?thesis
    using decode_logits_per_token [OF demo_ready demo_graph demo_acc lc', of 0] lc' by auto
qed

text \<open>
  C4. When a graph fails, the batch is cut off at its micro-batch. The micro-batches are those of the split of the
  batch; \<open>k\<close> is the first one whose graph did not succeed, given the caches the graphs saw, which hold all
  positions up to their micro-batch; the return code is the one of its status. Of every sequence the
  cache then keeps what it held and the positions of the micro-batches up to this one, except everything
  from a token of this micro-batch on that has the sequence as its first one. Of a token with more sequences only
  the first is removed.
\<close>

theorem decode_rollback:
  fixes lc :: "('d, 'f) llama_context"
  assumes "ctx_ready md cp bk lc" "graph_ok md bk f" "batch_accepted md cp inp lc a"
    and "decode md cp bk inp lc = Some (Inr (code, lc'))" and "code \<noteq> 0" "code \<noteq> 1"
  shows "\<exists>ubs a' k kvs. split_all (split_simple (cp_n_ubatch cp)) [] (ba_split_reset a) = Some (ubs, a') \<and>
    k < length ubs \<and> length kvs = Suc k \<and>
    (\<forall>j < Suc k. (graph_status bk (ubs ! j) (kvs ! j) = GGML_STATUS_SUCCESS \<longleftrightarrow> j < k) \<and>
       (\<forall>q < length (kv_seq_to_stream (lc_memory lc)).
          kv_held (kvs ! j) q = kv_held (lc_memory lc) q \<union> (\<Union>ub \<in> set (take (Suc j) ubs). ub_positions ub q))) \<and>
    status_code (graph_status bk (ubs ! k) (kvs ! k)) = Inr code \<and>
    (\<forall>q < length (kv_seq_to_stream (lc_memory lc)). kv_held (lc_memory lc') q =
       {p \<in> kv_held (lc_memory lc) q \<union> (\<Union>ub \<in> set (take (Suc k) ubs). ub_positions ub q).
        \<forall>i < ub_n_tokens (ubs ! k). ub_seq_id (ubs ! k) ! i ! 0 = q \<longrightarrow> p < ub_pos (ubs ! k) ! i})"
proof -
  obtain ubs a' kvs where l: "split_all (split_simple (cp_n_ubatch cp)) [] (ba_split_reset a) = Some (ubs, a')"
      "loop_failed bk ubs (lc_memory lc) code kvs lc'"
    using decode_result [OF assms(1-3)] assms(4-6) by auto
  then obtain k where k: "length kvs = Suc k" by (cases kvs) (auto simp: loop_failed_def)
  then have "last kvs = kvs ! k" using last_conv_nth [of kvs] by (cases kvs) auto
  then show ?thesis
    using l k by (intro exI [of _ ubs] exI [of _ a'] exI [of _ k] exI [of _ kvs]) (simp add: loop_failed_def)
qed

theorem decode_rollback_witness:
  "\<exists>lc' ubs a' k. decode (demo_model 1 1) demo_cparams (demo_backend GGML_STATUS_ABORTED) (demo_shared [0]) (demo_ctx []) = Some (Inr (2, lc')) \<and>
     split_all (split_simple 1) [] (ba_split_reset demo_accepted) = Some (ubs, a') \<and> k < length ubs \<and>
     kv_held (lc_memory lc') 0 = {p \<in> {} \<union> (\<Union>ub \<in> set (take (Suc k) ubs). ub_positions ub 0).
        \<forall>i < ub_n_tokens (ubs ! k). ub_seq_id (ubs ! k) ! i ! 0 = 0 \<longrightarrow> p < ub_pos (ubs ! k) ! i}"
proof -
  have "case decode (demo_model 1 1) demo_cparams (demo_backend GGML_STATUS_ABORTED) (demo_shared [0]) (demo_ctx []) of
      Some (Inr (code, _)) \<Rightarrow> code = 2 | _ \<Rightarrow> False" by code_simp
  then obtain lc' where lc': "decode (demo_model 1 1) demo_cparams (demo_backend GGML_STATUS_ABORTED) (demo_shared [0]) (demo_ctx []) = Some (Inr (2, lc'))"
    by (auto split: option.splits sum.splits)
  have c: "0 < length (kv_seq_to_stream (lc_memory (demo_ctx [])))" "kv_held (lc_memory (demo_ctx [])) 0 = {}" "cp_n_ubatch demo_cparams = 1"
    by code_simp+
  obtain ubs a' k where "split_all (split_simple 1) [] (ba_split_reset demo_accepted) = Some (ubs, a')" "k < length ubs"
      "kv_held (lc_memory lc') 0 = {p \<in> {} \<union> (\<Union>ub \<in> set (take (Suc k) ubs). ub_positions ub 0).
        \<forall>i < ub_n_tokens (ubs ! k). ub_seq_id (ubs ! k) ! i ! 0 = 0 \<longrightarrow> p < ub_pos (ubs ! k) ! i}"
    using decode_rollback [OF demo_ready demo_graph demo_acc lc'] c by auto
  then show ?thesis using lc' by blast
qed

text \<open>
  The removal looks at the first sequence of a token only. A token of the sequences 0 and 1 whose
  graph is aborted stays in the cache for sequence 1, and the same batch is then rejected.
\<close>

lemma decode_rollback_shared:
  "case decode (demo_model 1 1) demo_cparams (demo_backend GGML_STATUS_ABORTED) (demo_shared [0, 1]) (demo_ctx []) of
     Some (Inr (code, lc1)) \<Rightarrow> code = 2 \<and> kv_held (lc_memory lc1) 0 = {} \<and> kv_held (lc_memory lc1) 1 = {0} \<and>
       (case decode (demo_model 1 1) demo_cparams (demo_backend GGML_STATUS_SUCCESS) (demo_shared [0, 1]) lc1 of
          Some (Inr (code', _)) \<Rightarrow> code' = -1 | _ \<Rightarrow> False)
   | _ \<Rightarrow> False"
  by code_simp

text \<open>
  The check for backend samplers runs before the batch is validated: a sequence id that is too
  large indexes the counters out of bounds, where a context without samplers returns -1.
\<close>

lemma decode_counts_unvalidated:
  "(case decode (demo_model 1 1) demo_cparams (demo_backend GGML_STATUS_SUCCESS) (demo_shared [7]) (demo_ctx [0]) of
      Some (Inl e) \<Rightarrow> e = Out_of_bounds ''seq_output_count'' | _ \<Rightarrow> False) \<and>
   (case decode (demo_model 1 1) demo_cparams (demo_backend GGML_STATUS_SUCCESS) (demo_shared [7]) (demo_ctx []) of
      Some (Inr (code, _)) \<Rightarrow> code = -1 | _ \<Rightarrow> False)"
  by (rule conjI; code_simp)

end
