(* ===== verification/Utf8.thy ===== *)
theory Utf8
  imports Prelude "HOL-Library.Word"
begin

unbundle bit_operations_syntax

text \<open>
  UTF-8 between bytes and code points: the decoder of the grammar engine, which continues a
  character that the previous token left unfinished (\<open>decode_utf8\<close> in \<open>src/llama-grammar.cpp\<close>), and
  the encoder of \<open>src/unicode.cpp\<close>. A string is the list of its bytes; a loop that runs while
  \<open>*pos\<close> is not 0 stops at a zero byte and at the end of the list, where \<open>c_str()\<close> has its
  terminator.
\<close>

type_synonym bytes = "8 word list"
type_synonym code_point = "32 word"

section \<open>Decoding a piece of text\<close>

record llama_partial_utf8 =
  pu_value :: code_point
  pu_n_remain :: int

text \<open>Six more bits of a character.\<close>

definition add_byte :: "code_point \<Rightarrow> 8 word \<Rightarrow> code_point" where
  "add_byte value b = push_bit 6 value + ucast (b AND 0x3F)"

text \<open>The loop that continues a character: \<^term>\<open>None\<close> when a byte is not a continuation byte.\<close>

fun continue_loop :: "bytes \<Rightarrow> code_point \<Rightarrow> int \<Rightarrow> (bytes \<times> code_point \<times> int) option" where
  "continue_loop [] value n_remain = Some ([], value, n_remain)"
| "continue_loop (b # bs) value n_remain =
    (if b \<noteq> 0 \<and> n_remain > 0 then
       (if drop_bit 6 b \<noteq> 2 then None
        else continue_loop bs (add_byte value b) (n_remain - 1))
     else Some (b # bs, value, n_remain))"

text \<open>The same loop within one piece takes every byte.\<close>

fun rest_loop :: "bytes \<Rightarrow> code_point \<Rightarrow> int \<Rightarrow> bytes \<times> code_point \<times> int" where
  "rest_loop [] value n_remain = ([], value, n_remain)"
| "rest_loop (b # bs) value n_remain =
    (if b \<noteq> 0 \<and> n_remain > 0 then rest_loop bs (add_byte value b) (n_remain - 1)
     else (b # bs, value, n_remain))"

lemma rest_loop_length: "(bs', r) = rest_loop bs v n \<Longrightarrow> length bs' \<le> length bs"
  by (induction bs v n rule: rest_loop.induct) (auto simp: le_SucI split: if_splits)

definition lookup :: "int list" where
  "lookup = [1, 1, 1, 1, 1, 1, 1, 1, 0, 0, 0, 0, 2, 2, 3, 4]"

function decode_loop ::
    "bytes \<Rightarrow> code_point list \<Rightarrow> code_point \<Rightarrow> int \<Rightarrow> code_point list \<times> llama_partial_utf8" where
  "decode_loop [] cps value n_remain =
    (cps @ [0], \<lparr>pu_value = value, pu_n_remain = n_remain\<rparr>)"
| "decode_loop (b # bs) cps value n_remain =
    (if b = 0 then (cps @ [0], \<lparr>pu_value = value, pu_n_remain = n_remain\<rparr>)
     else let n = lookup ! unat (drop_bit 4 b) - 1
          in if n < 0 then ([0], \<lparr>pu_value = 0, pu_n_remain = n\<rparr>)
             else let mask = push_bit (nat (7 - n)) 1 - 1
                  in case rest_loop bs (ucast (b AND mask)) n of
                       (bs', value', n') \<Rightarrow>
                         decode_loop bs' (if n' = 0 then cps @ [value'] else cps) value' n')"
  by pat_completeness auto
termination
  by (relation "measure (length \<circ> fst)") (auto simp: less_Suc_eq_le rest_loop_length)

definition decode_utf8 :: "bytes \<Rightarrow> llama_partial_utf8 \<Rightarrow> code_point list \<times> llama_partial_utf8" where
  "decode_utf8 src partial_start =
    (case continue_loop src (pu_value partial_start) (pu_n_remain partial_start) of
       None \<Rightarrow> ([0], \<lparr>pu_value = 0, pu_n_remain = - 1\<rparr>)
     | Some (bs, value, n_remain) \<Rightarrow>
         decode_loop bs (if pu_n_remain partial_start > 0 \<and> n_remain = 0 then [value] else [])
           value n_remain)"

section \<open>Encoding\<close>

definition unicode_cpt_to_utf8 :: "code_point \<Rightarrow> bytes res" where
  "unicode_cpt_to_utf8 cpt =
    (if cpt \<le> 0x7f then Inr [ucast cpt]
     else if 0x80 \<le> cpt \<and> cpt \<le> 0x7ff then
       Inr [ucast (0xc0 OR (drop_bit 6 cpt AND 0x1f)), ucast (0x80 OR (cpt AND 0x3f))]
     else if 0x800 \<le> cpt \<and> cpt \<le> 0xffff then
       Inr [ucast (0xe0 OR (drop_bit 12 cpt AND 0x0f)), ucast (0x80 OR (drop_bit 6 cpt AND 0x3f)),
            ucast (0x80 OR (cpt AND 0x3f))]
     else if 0x10000 \<le> cpt \<and> cpt \<le> 0x10ffff then
       Inr [ucast (0xf0 OR (drop_bit 18 cpt AND 0x07)), ucast (0x80 OR (drop_bit 12 cpt AND 0x3f)),
            ucast (0x80 OR (drop_bit 6 cpt AND 0x3f)), ucast (0x80 OR (cpt AND 0x3f))]
     else Inl (Invalid_argument ''invalid codepoint''))"

fun unicode_cpts_to_utf8 :: "code_point list \<Rightarrow> bytes res" where
  "unicode_cpts_to_utf8 [] = Inr []"
| "unicode_cpts_to_utf8 (c # cps) =
    bind_res (unicode_cpt_to_utf8 c) (\<lambda>bs.
    bind_res (unicode_cpts_to_utf8 cps) (\<lambda>rest. Inr (bs @ rest)))"

section \<open>Decoding in pieces\<close>

text \<open>What a run of the decoder leaves behind never makes it read a byte twice: within one piece the
  inner loop stops at the end of the text, at a zero byte, or with the character complete.\<close>

lemma rest_loop_stop:
  "rest_loop bs v n = (bs', v', n') \<Longrightarrow> 0 \<le> n \<Longrightarrow> bs' = [] \<or> n' = 0 \<or> hd bs' = 0"
  by (induction bs v n rule: rest_loop.induct) (auto split: if_splits)

lemma rest_loop_nonneg: "rest_loop bs v n = (bs', v', n') \<Longrightarrow> 0 \<le> n \<Longrightarrow> 0 \<le> n'"
  by (induction bs v n rule: rest_loop.induct) (auto split: if_splits)

lemma rest_loop_suffix: "rest_loop bs v n = (bs', r) \<Longrightarrow> set bs' \<subseteq> set bs"
  by (induction bs v n rule: rest_loop.induct) (auto split: if_splits)

lemma rest_loop_append:
  "rest_loop bs v n = (bs', v', n') \<Longrightarrow> 0 \<notin> set bs \<Longrightarrow>
   rest_loop (bs @ cs) v n = (if bs' = [] then rest_loop cs v' n' else (bs' @ cs, v', n'))"
  by (induction bs v n rule: rest_loop.induct) (auto split: if_splits)

lemma continue_rest:
  "continue_loop bs v n = Some r \<Longrightarrow> rest_loop bs v n = r"
  by (induction bs v n rule: continue_loop.induct) (auto split: if_splits)

lemma rest_loop_done [simp]: "rest_loop bs v 0 = (bs, v, 0)"
  by (cases bs) auto

lemma continue_loop_done [simp]: "n \<le> 0 \<Longrightarrow> continue_loop bs v n = Some (bs, v, n)"
  by (cases bs) auto

text \<open>The accumulated code points are a prefix of the result as long as no byte is invalid.\<close>

lemma decode_loop_acc:
  "pu_n_remain (snd (decode_loop bs cps v n)) \<ge> 0 \<Longrightarrow>
   decode_loop bs (acc @ cps) v n =
     (acc @ fst (decode_loop bs cps v n), snd (decode_loop bs cps v n))"
proof (induction bs cps v n rule: decode_loop.induct)
  case (2 b bs cps v n)
  show ?case
  proof (cases "b = 0 \<or> lookup ! unat (drop_bit 4 b) - 1 < 0")
    case True
    then show ?thesis using 2(2) by (auto simp: Let_def)
  next
    case False
    obtain bs' v' n' where r: "rest_loop bs (ucast (b AND (push_bit (nat (7 - (lookup ! unat (drop_bit 4 b) - 1))) 1 - 1)))
        (lookup ! unat (drop_bit 4 b) - 1) = (bs', v', n')"
      by (metis surj_pair)
    show ?thesis
      using 2(1) [OF _ refl _ refl r [symmetric] refl] 2(2) False r
      by (cases "n' = 0") (simp_all add: Let_def)
  qed
qed simp

text \<open>Going on behind the end of a piece: what the next piece adds to the code points.\<close>

definition resume :: "bytes \<Rightarrow> code_point list \<Rightarrow> code_point \<Rightarrow> int \<Rightarrow> code_point list \<times> llama_partial_utf8" where
  "resume bs cps v n =
    (case rest_loop bs v n of (bs', v', n') \<Rightarrow>
       decode_loop bs' (if n > 0 \<and> n' = 0 then cps @ [v'] else cps) v' n')"

lemma resume_done: "n \<le> 0 \<Longrightarrow> resume bs cps v n = decode_loop bs cps v n"
  by (cases bs) (auto simp: resume_def)

lemma resume_acc:
  "pu_n_remain (snd (resume bs [] v n)) \<ge> 0 \<Longrightarrow>
   resume bs acc v n = (acc @ fst (resume bs [] v n), snd (resume bs [] v n))"
  unfolding resume_def
  by (cases "rest_loop bs v n") (use decode_loop_acc [where acc = acc] in force)

lemma decode_utf8_resume:
  "pu_n_remain (snd (decode_utf8 bs q)) \<ge> 0 \<Longrightarrow>
   decode_utf8 bs q = resume bs [] (pu_value q) (pu_n_remain q)"
  by (auto simp: decode_utf8_def resume_def split: option.splits dest!: continue_rest)

lemma decode_loop_append:
  assumes "0 \<notin> set bs" "bs \<noteq> [] \<or> n \<le> 0"
    "decode_loop bs cps v n = (out @ [0], q)" "pu_n_remain q \<ge> 0"
  shows "decode_loop (bs @ cs) cps v n = resume cs out (pu_value q) (pu_n_remain q)"
  using assms
proof (induction bs cps v n rule: decode_loop.induct)
  case (1 cps v n)
  then show ?case by (auto simp: resume_done)
next
  case (2 b bs cps v n)
  let ?n = "lookup ! unat (drop_bit 4 b) - 1"
  let ?v = "ucast (b AND (push_bit (nat (7 - ?n)) 1 - 1)) :: code_point"
  have b: "b \<noteq> 0" "0 \<notin> set bs" using 2(2) by auto
  have n: "\<not> ?n < 0" using 2(4,5) b by (auto simp: Let_def)
  obtain bs' v' n' where r: "rest_loop bs ?v ?n = (bs', v', n')"
    by (metis surj_pair)
  have n0: "0 \<le> n'" using rest_loop_nonneg [OF r] n by simp
  have bs': "0 \<notin> set bs'" using rest_loop_suffix [OF r] b by auto
  have stop: "bs' = [] \<or> n' = 0"
    using rest_loop_stop [OF r] n bs' by (cases bs') auto
  have dec: "decode_loop bs' (if n' = 0 then cps @ [v'] else cps) v' n' = (out @ [0], q)"
    using 2(4) b n r by (simp add: Let_def)
  have app: "rest_loop (bs @ cs) ?v ?n = (if bs' = [] then rest_loop cs v' n' else (bs' @ cs, v', n'))"
    by (rule rest_loop_append [OF r b(2)])
  show ?case
  proof (cases "bs' = []")
    case True
    then have out: "out = (if n' = 0 then cps @ [v'] else cps)" "pu_value q = v'" "pu_n_remain q = n'"
      using dec by auto
    show ?thesis
      using b n app True out n0
      by (cases "n' = 0") (auto simp: Let_def resume_def split: prod.splits)
  next
    case False
    with stop have z: "n' = 0" by simp
    have "decode_loop (bs' @ cs) (if n' = 0 then cps @ [v'] else cps) v' n' = resume cs out (pu_value q) (pu_n_remain q)"
      using 2(1) [OF b(1) refl n refl r [symmetric] refl bs'] z dec 2(5) by simp
    then show ?thesis
      using b n app False z by (simp add: Let_def)
  qed
qed

lemma continue_loop_append:
  "continue_loop bs v n = Some (bs', v', n') \<Longrightarrow> 0 \<notin> set bs \<Longrightarrow>
   continue_loop (bs @ cs) v n = (if bs' = [] then continue_loop cs v' n' else Some (bs' @ cs, v', n'))"
  by (induction bs v n rule: continue_loop.induct) (auto split: if_splits)

lemma continue_loop_stop:
  "continue_loop bs v n = Some (bs', v', n') \<Longrightarrow> 0 \<notin> set bs \<Longrightarrow> bs' \<noteq> [] \<Longrightarrow>
   0 \<notin> set bs' \<and> n' \<le> 0 \<and> (n > 0 \<longrightarrow> n' = 0)"
  by (induction bs v n rule: continue_loop.induct) (auto split: if_splits)

lemma continue_loop_Nil:
  "continue_loop bs v n = Some ([], v', n') \<Longrightarrow> n \<le> 0 \<Longrightarrow> bs = [] \<and> v' = v \<and> n' = n"
  by (cases bs) (auto split: if_splits)

lemma continue_loop_nonneg:
  "continue_loop bs v n = Some (bs', v', n') \<Longrightarrow> n > 0 \<Longrightarrow> n' \<ge> 0"
  by (induction bs v n rule: continue_loop.induct) (fastforce split: if_splits)+

text \<open>
  A text cut anywhere, also inside of a character, decodes to the same code points as the whole
  text, as long as the two parts decode without an invalid byte.
\<close>

text \<open>C32. Decoding a text in two pieces, the second continuing the character the first left
  unfinished, gives the code points and the rest of decoding the whole text.\<close>

theorem decode_utf8_split:
  assumes "0 \<notin> set p1"
    and "decode_utf8 p1 s = (c1 @ [0], q)" "pu_n_remain q \<ge> 0"
    and "decode_utf8 p2 q = (c2 @ [0], r)" "pu_n_remain r \<ge> 0"
  shows "decode_utf8 (p1 @ p2) s = (c1 @ c2 @ [0], r)"
proof -
  have c2: "resume p2 [] (pu_value q) (pu_n_remain q) = (c2 @ [0], r)"
    using decode_utf8_resume [of p2 q] assms(4,5) by simp
  then have c12: "resume p2 c1 (pu_value q) (pu_n_remain q) = (c1 @ c2 @ [0], r)"
    using resume_acc [of p2 "pu_value q" "pu_n_remain q" c1] assms(5) by simp
  let ?acc = "\<lambda>v n. if pu_n_remain s > 0 \<and> n = 0 then [v] else []"
  obtain bs v n where one: "continue_loop p1 (pu_value s) (pu_n_remain s) = Some (bs, v, n)"
    and dec: "decode_loop bs (?acc v n) v n = (c1 @ [0], q)"
    using assms(2,3) by (auto simp: decode_utf8_def split: option.splits)
  show ?thesis
  proof (cases "bs = []")
    case False
    have "decode_loop (bs @ p2) (?acc v n) v n = (c1 @ c2 @ [0], r)"
      using decode_loop_append [OF _ _ dec assms(3), of p2] continue_loop_stop [OF one assms(1) False] c12 by simp
    then show ?thesis
      using continue_loop_append [OF one assms(1), of p2] False by (simp add: decode_utf8_def)
  next
    case True
    then have q: "pu_value q = v" "pu_n_remain q = n" "c1 = ?acc v n"
      using dec by auto
    obtain bs' v' n' where two: "continue_loop p2 v n = Some (bs', v', n')"
      and dec': "decode_loop bs' (if n > 0 \<and> n' = 0 then [v'] else []) v' n' = (c2 @ [0], r)"
      using assms(4,5) q by (auto simp: decode_utf8_def split: option.splits)
    have whole: "decode_utf8 (p1 @ p2) s = decode_loop bs' (?acc v' n') v' n'"
      using continue_loop_append [OF one assms(1), of p2] True two by (simp add: decode_utf8_def)
    show ?thesis
    proof (cases "n > 0")
      case n: True
      then have "pu_n_remain s > 0"
        using continue_loop_Nil [OF one [unfolded True]] by (cases "pu_n_remain s \<le> 0") auto
      with n whole dec' q show ?thesis by simp
    next
      case False
      then have "n = 0" using assms(3) q by simp
      with two have "bs' = p2" "v' = v" "n' = 0" by auto
      with whole c12 q \<open>n = 0\<close> show ?thesis by (auto simp: resume_done)
    qed
  qed
qed

text \<open>The witness cuts the three bytes of the euro sign, between an \<open>a\<close> and a \<open>b\<close>, after the second.\<close>

theorem decode_utf8_split_witness:
  "decode_utf8 ([0x61, 0xE2, 0x82] @ [0xAC, 0x62]) \<lparr>pu_value = 0, pu_n_remain = 0\<rparr> =
   ([0x61] @ [0x20AC, 0x62] @ [0], \<lparr>pu_value = 0x62, pu_n_remain = 0\<rparr>)"
  by (rule decode_utf8_split [of _ _ _ "\<lparr>pu_value = 0x82, pu_n_remain = 1\<rparr>"]) code_simp+

section \<open>Encoding and decoding\<close>

text \<open>Bytes, masks and shifts as numbers.\<close>

lemma byte_lt: "unat b < 256" for b :: "8 word"
  using unsigned_less [of b, where 'a = nat] by simp

lemma and_low: "n AND 2 ^ k - 1 = n mod 2 ^ k" for n :: nat
  by (metis take_bit_eq_mask take_bit_eq_mod mask_eq_exp_minus_1)

lemma or_high: "h AND 2 ^ k - 1 = 0 \<Longrightarrow> h OR (n AND 2 ^ k - 1) = h + n mod 2 ^ k" for h n :: nat
  by (metis and.left_commute and_zero_eq disjunctive_add_eq_or and_low)

lemma unat_add_byte: "unat (add_byte v b) = (unat v * 64 + unat b mod 64) mod 2 ^ 32"
proof -
  have "unat (ucast (b AND 0x3F) :: code_point) = unat b mod 64"
    using and_low [of "unat b" 6] byte_lt [of b]
    by (simp add: unsigned_ucast_eq unsigned_and_eq take_bit_eq_mod)
  then show ?thesis
    by (simp add: add_byte_def push_bit_eq_mult unat_word_ariths mult.commute mod_simps)
qed

lemma or_byte: "h AND 2 ^ k - 1 = 0 \<Longrightarrow> 2 ^ k dvd (256 :: nat) \<Longrightarrow> h OR (n mod 256 AND 2 ^ k - 1) = h + n mod 2 ^ k" for h n :: nat
  using or_high [of h k "n mod 256"] by (simp add: mod_mod_cancel)

lemma unat_bytes:
  fixes x :: code_point
  shows "unat (ucast (0x80 OR (x AND 0x3f)) :: 8 word) = 128 + unat x mod 64"
    and "unat (ucast (0xc0 OR (x AND 0x1f)) :: 8 word) = 192 + unat x mod 32"
    and "unat (ucast (0xe0 OR (x AND 0x0f)) :: 8 word) = 224 + unat x mod 16"
    and "unat (ucast (0xf0 OR (x AND 0x07)) :: 8 word) = 240 + unat x mod 8"
  using or_byte [of 128 6 "unat x"] or_byte [of 192 5 "unat x"] or_byte [of 224 4 "unat x"] or_byte [of 240 3 "unat x"] 
  by (simp_all add: unsigned_ucast_eq unsigned_or_eq unsigned_and_eq take_bit_eq_mod)

lemma unat_drop_bit: "unat (drop_bit k b) = unat b div 2 ^ k" for b :: "'a::len word"
  using unsigned_less [of b] by (simp add: unsigned_drop_bit_eq) (simp add: drop_bit_eq_div take_bit_eq_mod)

lemma value_bits: "unat (ucast (b AND (push_bit k 1 - 1)) :: code_point) = unat b mod 2 ^ k"  for b :: "8 word"
proof -
  have "b AND (push_bit k 1 - 1) = take_bit k b"
    by (simp add: take_bit_eq_mask mask_eq_exp_minus_1)
  moreover have "unat (take_bit k b) < 2 ^ 32" 
    using byte_lt [of "take_bit k b"] by simp
  moreover have "unat (take_bit k b) = unat b mod 2 ^ k"
    by (simp add: unsigned_take_bit_eq) (simp add: take_bit_eq_mod)
  ultimately show ?thesis
    by (simp add: unsigned_ucast_eq take_bit_eq_mod del: take_bit_eq_mod) (simp add: take_bit_eq_mod)
qed

lemma rest_loop_take:
  "0 \<notin> set cs \<Longrightarrow> rest_loop (cs @ bs) v (int (length cs)) = (bs, foldl add_byte v cs, 0)"
  by (induction cs arbitrary: v) auto

lemma decode_loop_char:
  assumes "0 \<notin> set (b # cs)" "lookup ! (unat b div 16) = int (length cs) + 1"
    and "unat c = unat (foldl add_byte (ucast (b AND (push_bit (7 - length cs) 1 - 1))) cs)"
  shows "decode_loop ((b # cs) @ bs) cps v n = decode_loop bs (cps @ [c]) c 0"
proof -
  have "nat (7 - (int (length cs) + 1 - 1)) = 7 - length cs" by simp
  then show ?thesis
    using assms rest_loop_take [of cs] 
    by (simp add: unat_drop_bit Let_def word_unat_eq_iff [symmetric] del: push_bit_of_1)
qed

lemma lookup_simps: "n < 8 \<Longrightarrow> lookup ! n = 1" "lookup ! 12 = 2" "lookup ! 13 = 2" "lookup ! 14 = 3" "lookup ! 15 = 4"
  by (auto simp: lookup_def nth_Cons')

lemma word_neq_0: "0 < unat w \<Longrightarrow> w \<noteq> 0" for w :: "'a::len word"
  by auto

lemma lead_mods:
  fixes x :: nat
  shows "(128 + x) mod 64 = x mod 64" "(192 + x) mod 64 = x mod 64" "(224 + x) mod 32 = x mod 32" "(240 + x) mod 16 = x mod 16"
  using mod_mult_self1 [of x 2 64] mod_mult_self1 [of x 3 64] mod_mult_self1 [of x 7 32] mod_mult_self1 [of x 15 16]
  by (simp_all add: add.commute)

lemma split6: 
  fixes x :: nat
  shows "x div 64 * 64 + x mod 64 = x" "(x div 4096 * 64 + x div 64 mod 64) * 64 + x mod 64 = x"
    "((x div 262144 * 64 + x div 4096 mod 64) * 64 + x div 64 mod 64) * 64 + x mod 64 = x"
  using div_mult2_eq [of x 64 64] div_mult2_eq [of x 4096 64] by simp_all

lemma decode_encoded:
  assumes "unicode_cpt_to_utf8 c = Inr e" "c \<noteq> 0"
  shows "decode_loop (e @ bs) cps v n = decode_loop bs (cps @ [c]) c 0"
proof -
  have c0: "0 < unat c" using assms(2) by (simp add: unat_gt_0)
  note vals = word_unat_eq_iff unat_add_byte value_bits unat_bytes unat_drop_bit
  consider "unat c < 128" "e = [ucast c]"
    | "128 \<le> unat c" "unat c < 2048" "e = [ucast (0xc0 OR (drop_bit 6 c AND 0x1f)), ucast (0x80 OR (c AND 0x3f))]"
    | "2048 \<le> unat c" "unat c < 65536" "e = [ucast (0xe0 OR (drop_bit 12 c AND 0x0f)), ucast (0x80 OR (drop_bit 6 c AND 0x3f)),
            ucast (0x80 OR (c AND 0x3f))]"
    | "65536 \<le> unat c" "unat c < 0x110000" "e = [ucast (0xf0 OR (drop_bit 18 c AND 0x07)), ucast (0x80 OR (drop_bit 12 c AND 0x3f)),
            ucast (0x80 OR (drop_bit 6 c AND 0x3f)), ucast (0x80 OR (c AND 0x3f))]"
    using assms(1) by (auto simp: unicode_cpt_to_utf8_def word_le_nat_alt split: if_splits)
  then show ?thesis
  proof cases
    case 1
    have u: "unat (ucast c :: 8 word) = unat c"
      using 1(1) by (simp add: unsigned_ucast_eq take_bit_eq_mod)
    show ?thesis
      unfolding 1(2) using 1(1) c0 u
      by (intro decode_loop_char) (auto simp: lookup_simps value_bits dest: word_neq_0 simp del: push_bit_of_1)
  next
    case 2
    then have "unat c div 64 < 32" "(192 + unat c div 64) div 16 \<in> {12, 13}"
      by auto
    then show ?thesis
      unfolding 2(3) using 2(2) split6(1) [of "unat c"]
      by (intro decode_loop_char) 
         (auto simp: lookup_simps value_bits unat_add_byte unat_bytes unat_drop_bit lead_mods
           simp del: push_bit_of_1 dest!: arg_cong [where f = unat])
  next
    case 3
    then have "unat c div 4096 < 16" "(224 + unat c div 4096) div 16 = 14"
      by auto
    then show ?thesis
      unfolding 3(3) using 3(2) split6(2) [of "unat c"]
      by (intro decode_loop_char) 
         (auto simp: lookup_simps value_bits unat_add_byte unat_bytes unat_drop_bit lead_mods
           simp del: push_bit_of_1 dest!: arg_cong [where f = unat])
  next
    case 4
    then have "unat c div 262144 < 8" "(240 + unat c div 262144) div 16 = 15"
      by auto
    then show ?thesis
      unfolding 4(3) using 4(2) split6(3) [of "unat c"]
      by (intro decode_loop_char) 
         (auto simp: lookup_simps value_bits unat_add_byte unat_bytes unat_drop_bit lead_mods
           simp del: push_bit_of_1 dest!: arg_cong [where f = unat])
  qed
qed

lemma encoded_nonzero: "unicode_cpt_to_utf8 c = Inr e \<Longrightarrow> e \<noteq> []"
  by (auto simp: unicode_cpt_to_utf8_def split: if_splits)

lemma decode_encoded_all:
  "unicode_cpts_to_utf8 cps = Inr bs \<Longrightarrow> 0 \<notin> set cps \<Longrightarrow>
   \<exists>w. decode_loop bs acc v 0 = (acc @ cps @ [0], \<lparr>pu_value = w, pu_n_remain = 0\<rparr>)"
proof (induction cps arbitrary: bs acc v)
  case (Cons c cps)
  obtain e rest where "unicode_cpt_to_utf8 c = Inr e" "unicode_cpts_to_utf8 cps = Inr rest" "bs = e @ rest"
    using Cons.prems(1) by (auto simp: bind_res_Inr_iff)
  with Cons.IH [of rest "acc @ [c]" c] Cons.prems(2) show ?case
    by (auto simp: decode_encoded)
qed simp

text \<open>C33. Encoding code points and decoding the bytes gives them back, with nothing left over.\<close>

theorem utf8_round_trip:
  assumes "unicode_cpts_to_utf8 cps = Inr bs" "0 \<notin> set cps"
  shows "\<exists>w. decode_utf8 bs \<lparr>pu_value = 0, pu_n_remain = 0\<rparr> = (cps @ [0], \<lparr>pu_value = w, pu_n_remain = 0\<rparr>)"
  using decode_encoded_all [OF assms, of "[]" 0] by (simp add: decode_utf8_def)

theorem utf8_round_trip_witness:
  "\<exists>w. decode_utf8 [0x61, 0xC3, 0xA9, 0xE2, 0x82, 0xAC, 0xF0, 0x9F, 0x98, 0x80] \<lparr>pu_value = 0, pu_n_remain = 0\<rparr> =
     ([0x61, 0xE9, 0x20AC, 0x1F600] @ [0], \<lparr>pu_value = w, pu_n_remain = 0\<rparr>)"
  by (rule utf8_round_trip) code_simp+

section \<open>Completing a partial character\<close>

text \<open>The code points that \<open>n\<close> more bytes complete a value to are an interval.\<close>

lemma add_byte_small:
  "unat v * 64 + 64 \<le> 2 ^ 32 \<Longrightarrow> unat (add_byte v b) = unat v * 64 + unat b mod 64"
  unfolding unat_add_byte by (rule mod_less) (use mod_less_divisor [of 64 "unat b"] in linarith)

lemma div_interval: "0 < N \<Longrightarrow> q * N \<le> c \<and> c < r * N \<longleftrightarrow> q \<le> c div N \<and> c div N < r" for N q r c :: nat
  by (simp add: less_eq_div_iff_mult_less_eq div_less_iff_less_mult)

lemma low_bits_onto: "(\<exists>b :: 8 word. d = q + unat b mod 64) \<longleftrightarrow> q \<le> d \<and> d < q + 64" for d q :: nat
proof
  assume d: "q \<le> d \<and> d < q + 64"
  define k where "k = d - q"
  have "d = q + unat (word_of_nat k :: 8 word) mod 64"
    using d by (auto simp: k_def [symmetric] unsigned_of_nat take_bit_eq_mod) (simp add: k_def)
  then show "\<exists>b :: 8 word. d = q + unat b mod 64" by blast
qed (auto simp: nat_less_le)

lemma completions_interval:
  "(unat v + 1) * 64 ^ n \<le> 2 ^ 32 \<Longrightarrow>
   (\<exists>bs. length bs = n \<and> c = foldl add_byte v bs) \<longleftrightarrow>
   unat v * 64 ^ n \<le> unat c \<and> unat c < (unat v + 1) * 64 ^ n"
proof (induction n arbitrary: v)
  case 0
  show ?case by (auto simp: word_unat_eq_iff)
next
  case (Suc n)
  have big: "unat v * 64 + 64 \<le> 2 ^ 32"
  proof -
    have "(64 :: nat) ^ 1 \<le> 64 ^ Suc n" by (rule power_increasing) simp_all
    then have "(unat v + 1) * 64 \<le> (unat v + 1) * 64 ^ Suc n" by (intro mult_left_mono) simp_all
    with Suc.prems show ?thesis by simp
  qed
  have step: "(\<exists>bs. length bs = n \<and> c = foldl add_byte (add_byte v b) bs) \<longleftrightarrow>
      (unat v * 64 + unat b mod 64) * 64 ^ n \<le> unat c \<and> unat c < (unat v * 64 + unat b mod 64 + 1) * 64 ^ n" for b
  proof -
    have "unat b mod 64 + 1 \<le> 64" by (simp add: Suc_leI)
    then have "(unat v * 64 + unat b mod 64 + 1) * 64 ^ n \<le> ((unat v + 1) * 64) * 64 ^ n"
      by (intro mult_right_mono) simp_all
    also have "\<dots> \<le> 2 ^ 32" using Suc.prems by (simp add: algebra_simps)
    finally show ?thesis using Suc.IH [of "add_byte v b"] add_byte_small [OF big, of b] by simp
  qed
  have "(\<exists>bs. length bs = Suc n \<and> c = foldl add_byte v bs) \<longleftrightarrow>
      (\<exists>b bs. length bs = n \<and> c = foldl add_byte (add_byte v b) bs)"
  proof
    assume "\<exists>b bs. length bs = n \<and> c = foldl add_byte (add_byte v b) bs"
    then obtain b bs where "length (b # bs) = Suc n" "c = foldl add_byte v (b # bs)" by auto
    then show "\<exists>bs. length bs = Suc n \<and> c = foldl add_byte v bs" by blast
  next
    assume "\<exists>bs. length bs = Suc n \<and> c = foldl add_byte v bs"
    then obtain bs where "length bs = Suc n" "c = foldl add_byte v bs" by blast
    then show "\<exists>b bs. length bs = n \<and> c = foldl add_byte (add_byte v b) bs"
      by (cases bs) auto
  qed
  also have "\<dots> \<longleftrightarrow> (\<exists>b :: 8 word. (unat v * 64 + unat b mod 64) * 64 ^ n \<le> unat c \<and>
      unat c < (unat v * 64 + unat b mod 64 + 1) * 64 ^ n)"
    using step by blast
  also have "\<dots> \<longleftrightarrow> (\<exists>b :: 8 word. unat c div 64 ^ n = unat v * 64 + unat b mod 64)"
    unfolding div_interval [OF zero_less_power [OF zero_less_numeral]] by (rule ex_cong1) linarith
  also have "\<dots> \<longleftrightarrow> unat v * 64 * 64 ^ n \<le> unat c \<and> unat c < (unat v * 64 + 64) * 64 ^ n"
    unfolding low_bits_onto div_interval [OF zero_less_power [OF zero_less_numeral]] ..
  finally show ?case by (simp add: algebra_simps)
qed

lemma partial_bounds:
  fixes v :: code_point
  assumes "(unat v + 1) * 64 ^ n \<le> 2 ^ 32"
  shows "unat (push_bit (n * 6) v) = unat v * 64 ^ n"
    and "unat (push_bit (n * 6) v OR (push_bit (n * 6) 1 - 1)) = unat v * 64 ^ n + (64 ^ n - 1)"
proof -
  have pow: "(2 :: nat) ^ (n * 6) = 64 ^ n" using power_mult [of "2 :: nat" 6 n] by (simp add: mult.commute)
  have small: "(64 :: nat) ^ n \<le> 2 ^ 32" using assms by simp
  have less: "unat v * 64 ^ n + (64 ^ n - 1) < 2 ^ 32"
  proof -
    have "0 < (64 :: nat) ^ n" by simp
    then have "unat v * 64 ^ n + (64 ^ n - 1) < unat v * 64 ^ n + 64 ^ n" by linarith
    with assms show ?thesis by (simp add: algebra_simps)
  qed
  then have "unat v * 64 ^ n < 2 ^ 32" by linarith
  then have low: "unat (push_bit (n * 6) v) = unat v * 64 ^ n"
    by (simp add: unsigned_push_bit_eq) (simp add: take_bit_eq_mod push_bit_eq_mult pow)
  have k: "n * 6 \<le> 32"
    using small unfolding pow [symmetric] by (rule power_le_imp_le_exp [rotated]) simp
  have mask: "unat (push_bit (n * 6) 1 - 1 :: code_point) = 64 ^ n - 1"
  proof -
    have "n = 0 \<or> n = 1 \<or> n = 2 \<or> n = 3 \<or> n = 4 \<or> n = 5" using k by linarith
    then show ?thesis by (elim disjE) simp_all
  qed
  have "push_bit (n * 6) v AND (push_bit (n * 6) 1 - 1) = 0"
    by (simp add: mask_eq_exp_minus_1 [symmetric] take_bit_eq_mask [symmetric] take_bit_push_bit)
  then have "push_bit (n * 6) v OR (push_bit (n * 6) 1 - 1) = push_bit (n * 6) v + (push_bit (n * 6) 1 - 1)"
    by (rule disjunctive_add_eq_or [symmetric])
  then show "unat (push_bit (n * 6) v OR (push_bit (n * 6) 1 - 1)) = unat v * 64 ^ n + (64 ^ n - 1)"
    using less low mask by (simp only: unat_word_ariths) simp
  show "unat (push_bit (n * 6) v) = unat v * 64 ^ n" by (rule low)
qed

end
