(* ===== verification/Grammar.thy ===== *)
theory Grammar
  imports Utf8
begin

unbundle bit_operations_syntax

text \<open>
  The grammar engine of \<open>src/llama-grammar.cpp\<close>: rules as vectors of elements, pushdown stacks of
  pointers into them, matching, the expansion of a stack to terminals, the check for left
  recursion, and initialization. A pointer is a pair of a rule and an index; reading it gives the
  elements from there to the end of the rule, and reading behind the end of a rule is
  out of bounds. A stack is written with its top, \<open>stack.back()\<close>, first.
\<close>

section \<open>Elements, pointers and stacks\<close>

datatype llama_gretype =
    LLAMA_GRETYPE_END | LLAMA_GRETYPE_ALT | LLAMA_GRETYPE_RULE_REF | LLAMA_GRETYPE_CHAR
  | LLAMA_GRETYPE_CHAR_NOT | LLAMA_GRETYPE_CHAR_RNG_UPPER | LLAMA_GRETYPE_CHAR_ALT
  | LLAMA_GRETYPE_CHAR_ANY | LLAMA_GRETYPE_TOKEN | LLAMA_GRETYPE_TOKEN_NOT

record llama_grammar_element =
  el_type :: llama_gretype
  el_value :: "32 word"

type_synonym llama_grammar_rule = "llama_grammar_element list"
type_synonym llama_grammar_rules = "llama_grammar_rule list"
type_synonym element_ptr = "nat \<times> nat"
type_synonym llama_grammar_stack = "element_ptr list"
type_synonym llama_grammar_stacks = "llama_grammar_stack list"

abbreviation oob :: fault where
  "oob \<equiv> Out_of_bounds ''rule''"

definition els :: "llama_grammar_rules \<Rightarrow> element_ptr \<Rightarrow> llama_grammar_element list" where
  "els rules p = (if fst p < length rules then drop (snd p) (rules ! fst p) else [])"

definition ptr_add :: "element_ptr \<Rightarrow> nat \<Rightarrow> element_ptr" where
  "ptr_add p n = (fst p, snd p + n)"

definition is_end_of_sequence :: "llama_grammar_element \<Rightarrow> bool" where
  "is_end_of_sequence e \<longleftrightarrow> el_type e = LLAMA_GRETYPE_END \<or> el_type e = LLAMA_GRETYPE_ALT"

text \<open>\<open>if (!llama_grammar_is_end_of_sequence(pos)) stack.push_back(pos)\<close>.\<close>

definition push_unless_end :: "llama_grammar_rules \<Rightarrow> element_ptr \<Rightarrow> llama_grammar_stack \<Rightarrow> llama_grammar_stack res" where
  "push_unless_end rules p stack =
    (case els rules p of
       [] \<Rightarrow> Inl oob
     | e # _ \<Rightarrow> Inr (if is_end_of_sequence e then stack else p # stack))"

section \<open>Matching\<close>

definition is_positive_char :: "llama_grammar_element \<Rightarrow> bool" where
  "is_positive_char e \<longleftrightarrow> el_type e = LLAMA_GRETYPE_CHAR \<or> el_type e = LLAMA_GRETYPE_CHAR_ANY"

definition is_token_element :: "llama_grammar_element \<Rightarrow> bool" where
  "is_token_element e \<longleftrightarrow> el_type e = LLAMA_GRETYPE_TOKEN \<or> el_type e = LLAMA_GRETYPE_TOKEN_NOT"

text \<open>The \<open>do\<close> loop over the ranges of a character class, with the number of elements read.\<close>

fun match_char_loop :: "llama_grammar_element list \<Rightarrow> code_point \<Rightarrow> bool \<Rightarrow> nat \<Rightarrow> (bool \<times> nat) res" where
  "match_char_loop (e # u # es) chr found n =
    (if el_type u = LLAMA_GRETYPE_CHAR_RNG_UPPER then
       (let found' = (found \<or> (el_value e \<le> chr \<and> chr \<le> el_value u))
        in case es of
             [] \<Rightarrow> Inl oob
           | a # _ \<Rightarrow> if el_type a = LLAMA_GRETYPE_CHAR_ALT then match_char_loop es chr found' (n + 2)
                     else Inr (found', n + 2))
     else
       (let found' = (if el_type e = LLAMA_GRETYPE_CHAR_ANY then True else found \<or> el_value e = chr)
        in if el_type u = LLAMA_GRETYPE_CHAR_ALT then match_char_loop (u # es) chr found' (n + 1)
           else Inr (found', n + 1)))"
| "match_char_loop _ chr found n = Inl oob"

definition match_char :: "llama_grammar_rules \<Rightarrow> element_ptr \<Rightarrow> code_point \<Rightarrow> (bool \<times> element_ptr) res" where
  "match_char rules pos chr =
    (case els rules pos of
       [] \<Rightarrow> Inl oob
     | e # _ \<Rightarrow>
         if is_positive_char e \<or> el_type e = LLAMA_GRETYPE_CHAR_NOT then
           bind_res (match_char_loop (els rules pos) chr False 0) (\<lambda>(found, n).
             Inr (found = is_positive_char e, ptr_add pos n))
         else Inl (Ggml_assert ''is_positive_char || pos->type == LLAMA_GRETYPE_CHAR_NOT''))"

fun match_partial_loop :: "llama_grammar_element list \<Rightarrow> code_point \<Rightarrow> code_point \<Rightarrow> bool \<Rightarrow> bool res" where
  "match_partial_loop (e # u # es) low high positive =
    (if el_type u = LLAMA_GRETYPE_CHAR_RNG_UPPER then
       (if el_value e \<le> high \<and> low \<le> el_value u then Inr positive
        else case es of
               [] \<Rightarrow> Inl oob
             | a # _ \<Rightarrow> if el_type a = LLAMA_GRETYPE_CHAR_ALT then match_partial_loop es low high positive
                       else Inr (\<not> positive))
     else if el_type e = LLAMA_GRETYPE_CHAR_ANY then Inr True
     else if low \<le> el_value e \<and> el_value e \<le> high then Inr positive
     else if el_type u = LLAMA_GRETYPE_CHAR_ALT then match_partial_loop (u # es) low high positive
     else Inr (\<not> positive))"
| "match_partial_loop _ low high positive = Inl oob"

text \<open>The code points that the rest of a partial character can complete it to.\<close>

definition partial_low :: "llama_partial_utf8 \<Rightarrow> code_point" where
  "partial_low pu =
    (let low = push_bit (nat (pu_n_remain pu * 6)) (pu_value pu)
     in if low = 0 then
          (if pu_n_remain pu = 2 then push_bit 11 1 else if pu_n_remain pu = 3 then push_bit 16 1 else low)
        else low)"

definition partial_high :: "llama_partial_utf8 \<Rightarrow> code_point" where
  "partial_high pu =
    push_bit (nat (pu_n_remain pu * 6)) (pu_value pu) OR (push_bit (nat (pu_n_remain pu * 6)) 1 - 1)"

definition match_partial_char :: "llama_grammar_rules \<Rightarrow> element_ptr \<Rightarrow> llama_partial_utf8 \<Rightarrow> bool res" where
  "match_partial_char rules pos pu =
    (case els rules pos of
       [] \<Rightarrow> Inl oob
     | e # _ \<Rightarrow>
         if is_positive_char e \<or> el_type e = LLAMA_GRETYPE_CHAR_NOT then
           (if pu_n_remain pu < 0 \<or> (pu_n_remain pu = 1 \<and> pu_value pu < 2) then Inr False
            else match_partial_loop (els rules pos) (partial_low pu) (partial_high pu) (is_positive_char e))
         else Inl (Ggml_assert ''is_positive_char || pos->type == LLAMA_GRETYPE_CHAR_NOT''))"

definition match_token :: "llama_grammar_rules \<Rightarrow> element_ptr \<Rightarrow> llama_token \<Rightarrow> bool res" where
  "match_token rules pos token =
    (case els rules pos of
       [] \<Rightarrow> Inl oob
     | e # _ \<Rightarrow>
         if el_type e = LLAMA_GRETYPE_TOKEN then Inr (el_value e = word_of_int token)
         else if el_type e = LLAMA_GRETYPE_TOKEN_NOT then Inr (el_value e \<noteq> word_of_int token)
         else Inl (Ggml_assert ''pos->type == LLAMA_GRETYPE_TOKEN || pos->type == LLAMA_GRETYPE_TOKEN_NOT''))"

section \<open>Expanding a stack\<close>

text \<open>\<open>if (std::find(new_stacks.begin(), new_stacks.end(), stack) == new_stacks.end()) emplace_back\<close>.\<close>

definition add_stack :: "llama_grammar_stack \<Rightarrow> llama_grammar_stacks \<Rightarrow> llama_grammar_stacks" where
  "add_stack stack new_stacks = (if stack \<in> set new_stacks then new_stacks else new_stacks @ [stack])"

text \<open>
  The \<open>do\<close> loop over the alternates of a rule, with the \<open>while\<close> loop in it that scans to the end of
  an alternate: \<open>f\<close> is run with the index of the first element of every alternate (\<open>start\<close> tells
  that the next element is one). Both callers use it.
\<close>

primrec alternates_loop ::
    "(nat \<Rightarrow> 's \<Rightarrow> 's res option) \<Rightarrow> llama_grammar_element list \<Rightarrow> nat \<Rightarrow> bool \<Rightarrow> 's \<Rightarrow> 's res option" where
  "alternates_loop f [] i start s = Some (Inl oob)"
| "alternates_loop f (e # es) i start s =
    bind_ro (if start then f i s else Some (Inr s)) (\<lambda>s'.
      if is_end_of_sequence e then
        (if el_type e = LLAMA_GRETYPE_ALT then alternates_loop f es (i + 1) True s'
         else Some (Inr s'))
      else alternates_loop f es (i + 1) False s')"

lemma alternates_loop_mono [partial_function_mono]:
  assumes "\<And>i s. mono_option (\<lambda>f. g f i s)"
  shows "mono_option (\<lambda>f. alternates_loop (g f) es i start s)"
proof (induction es arbitrary: i start s)
  case (Cons e es)
  show ?case
    unfolding alternates_loop.simps by (intro if_mono bind_ro_mono assms Cons.IH option.const_mono)
qed (simp add: option.const_mono)

lemma alternates_loop_weak:
  "es = es' \<Longrightarrow> i = i' \<Longrightarrow> start = start' \<Longrightarrow> s = s' \<Longrightarrow> alternates_loop f es i start s = alternates_loop f es' i' start' s'"
  by simp

partial_function (option) advance_stack ::
    "llama_grammar_rules \<Rightarrow> llama_grammar_stack \<Rightarrow> llama_grammar_stacks \<Rightarrow> llama_grammar_stacks res option" where
  [code]: "advance_stack rules stack new_stacks =
    (case stack of
       [] \<Rightarrow> Some (Inr (add_stack stack new_stacks))
     | pos # rest \<Rightarrow>
         (case els rules pos of
            [] \<Rightarrow> Some (Inl oob)
          | e # _ \<Rightarrow>
              if el_type e = LLAMA_GRETYPE_RULE_REF then
                (let rule_id = unat (el_value e)
                 in alternates_loop
                      (\<lambda>i acc.
                         bind_ro (Some (push_unless_end rules (ptr_add pos 1) rest)) (\<lambda>stack1.
                         bind_ro (Some (push_unless_end rules (rule_id, i) stack1)) (\<lambda>stack2.
                           advance_stack rules stack2 acc)))
                      (els rules (rule_id, 0)) 0 True new_stacks)
              else if is_positive_char e \<or> el_type e = LLAMA_GRETYPE_CHAR_NOT \<or> is_token_element e then
                Some (Inr (add_stack stack new_stacks))
              else Some (Inl (Ggml_abort ''fatal error''))))"

section \<open>Accepting a character\<close>

definition accept_chr ::
    "llama_grammar_rules \<Rightarrow> llama_grammar_stack \<Rightarrow> code_point \<Rightarrow> llama_grammar_stacks \<Rightarrow> llama_grammar_stacks res option" where
  "accept_chr rules stack chr new_stacks =
    (case stack of
       [] \<Rightarrow> Some (Inr new_stacks)
     | pos # rest \<Rightarrow>
         (case els rules pos of
            [] \<Rightarrow> Some (Inl oob)
          | e # _ \<Rightarrow>
              if is_token_element e then Some (Inr new_stacks)
              else bind_ro (Some (match_char rules pos chr)) (\<lambda>(ok, after).
                     if ok then
                       bind_ro (Some (push_unless_end rules after rest)) (\<lambda>new_stack.
                         advance_stack rules new_stack new_stacks)
                     else Some (Inr new_stacks))))"

text \<open>The loop over the stacks of \<open>llama_grammar_accept\<close>, also run for every code point of a token.\<close>

definition accept_stacks ::
    "llama_grammar_rules \<Rightarrow> code_point \<Rightarrow> llama_grammar_stacks \<Rightarrow> llama_grammar_stacks res option" where
  "accept_stacks rules chr stacks =
    fold_ro (\<lambda>stack new_stacks. accept_chr rules stack chr new_stacks) stacks []"

section \<open>The check for left recursion\<close>

record lr_state =
  lr_visited :: "bool list"
  lr_in_progress :: "bool list"
  lr_may_be_empty :: "bool list"

text \<open>The first loop: does the rule have an empty alternate?\<close>

fun has_empty_alternate :: "llama_grammar_element list \<Rightarrow> bool \<Rightarrow> bool" where
  "has_empty_alternate [] at_rule_start = False"
| "has_empty_alternate (e # es) at_rule_start =
    (if is_end_of_sequence e then at_rule_start \<or> has_empty_alternate es True
     else has_empty_alternate es False)"

text \<open>The second loop; \<open>f\<close> is the recursive call.\<close>

primrec lr_loop ::
    "(nat \<Rightarrow> lr_state \<Rightarrow> (bool \<times> lr_state) res option) \<Rightarrow> llama_grammar_element list \<Rightarrow> bool \<Rightarrow> lr_state \<Rightarrow>
     (bool \<times> lr_state) res option" where
  "lr_loop f [] recurse st = Some (Inr (False, st))"
| "lr_loop f (e # es) recurse st =
    (if el_type e = LLAMA_GRETYPE_RULE_REF \<and> recurse then
       bind_ro (f (unat (el_value e)) st) (\<lambda>(found, st').
         if found then Some (Inr (True, st'))
         else lr_loop f es (lr_may_be_empty st' ! unat (el_value e)) st')
     else if is_end_of_sequence e then lr_loop f es True st
     else lr_loop f es False st)"

lemma lr_loop_mono [partial_function_mono]:
  assumes "\<And>i s. mono_option (\<lambda>f. g f i s)"
  shows "mono_option (\<lambda>f. lr_loop (g f) es recurse st)"
proof (induction es arbitrary: recurse st)
  case (Cons e es)
  have "mono_option (\<lambda>f. case y of (found, st') \<Rightarrow> if found then Some (Inr (True, st'))
      else lr_loop (g f) es (lr_may_be_empty st' ! unat (el_value e)) st')" for y
    by (cases y; cases "fst y") (simp_all add: Cons.IH option.const_mono)
  then show ?case
    unfolding lr_loop.simps by (intro if_mono bind_ro_mono assms Cons.IH)
qed (simp add: option.const_mono)

lemma lr_loop_weak:
  "es = es' \<Longrightarrow> b = b' \<Longrightarrow> s = s' \<Longrightarrow> lr_loop f es b s = lr_loop f es' b' s'"
  by simp

partial_function (option) detect_left_recursion ::
    "llama_grammar_rules \<Rightarrow> nat \<Rightarrow> lr_state \<Rightarrow> (bool \<times> lr_state) res option" where
  [code]: "detect_left_recursion rules rule_index st =
    (if rule_index \<ge> length rules then Some (Inl oob)
     else if lr_in_progress st ! rule_index then Some (Inr (True, st))
     else
       (let rule = rules ! rule_index;
            st1 = st\<lparr>lr_in_progress := (lr_in_progress st)[rule_index := True]\<rparr>;
            st2 = (if has_empty_alternate rule True
                   then st1\<lparr>lr_may_be_empty := (lr_may_be_empty st1)[rule_index := True]\<rparr> else st1)
        in bind_ro (lr_loop (\<lambda>i s. detect_left_recursion rules i s) rule True st2) (\<lambda>(found, st3).
             if found then Some (Inr (True, st3))
             else Some (Inr (False,
               st3\<lparr>lr_in_progress := (lr_in_progress st3)[rule_index := False],
                   lr_visited := (lr_visited st3)[rule_index := True]\<rparr>)))))"

text \<open>The loop of \<open>llama_grammar_init_impl\<close> over all rules.\<close>

primrec check_rules :: "llama_grammar_rules \<Rightarrow> nat list \<Rightarrow> lr_state \<Rightarrow> bool res option" where
  "check_rules rules [] st = Some (Inr False)"
| "check_rules rules (i # is) st =
    (if lr_visited st ! i then check_rules rules is st
     else bind_ro (detect_left_recursion rules i st) (\<lambda>(found, st').
            if found then Some (Inr True) else check_rules rules is st'))"

definition left_recursive :: "llama_grammar_rules \<Rightarrow> bool res option" where
  "left_recursive rules =
    (let no = replicate (length rules) False
     in check_rules rules [0..<length rules]
          \<lparr>lr_visited = no, lr_in_progress = no, lr_may_be_empty = no\<rparr>)"

text \<open>The equations that evaluate the engine on given rules, and the congruences that keep the
  simplifier from unfolding a recursive call before its arguments are known.\<close>

lemmas weak_congs = bind_ro_weak fold_ro_weak alternates_loop_weak lr_loop_weak

lemmas grammar_eval = left_recursive_def detect_left_recursion.simps advance_stack.simps accept_stacks_def accept_chr_def
  match_char_def match_token_def match_partial_char_def push_unless_end_def els_def ptr_add_def add_stack_def
  is_positive_char_def is_token_element_def is_end_of_sequence_def Let_def

section \<open>Well-formed rules\<close>

text \<open>
  The shape that the parser gives to rules: references are in range, a character class is one start
  element with alternates and upper bounds behind it, and there is one end, the last element. The
  argument \<open>c\<close> is 1 right behind a character of a class, 2 right behind an upper bound, otherwise 0.
\<close>

fun seq_ok :: "nat \<Rightarrow> nat \<Rightarrow> llama_grammar_element list \<Rightarrow> bool" where
  "seq_ok n c [] = False"
| "seq_ok n c (e # es) =
    (case el_type e of
       LLAMA_GRETYPE_END \<Rightarrow> es = []
     | LLAMA_GRETYPE_ALT \<Rightarrow> seq_ok n 0 es
     | LLAMA_GRETYPE_RULE_REF \<Rightarrow> unat (el_value e) < n \<and> seq_ok n 0 es
     | LLAMA_GRETYPE_CHAR_RNG_UPPER \<Rightarrow> c = 1 \<and> seq_ok n 2 es
     | LLAMA_GRETYPE_CHAR_ALT \<Rightarrow> c > 0 \<and> seq_ok n 1 es
     | LLAMA_GRETYPE_TOKEN \<Rightarrow> seq_ok n 0 es
     | LLAMA_GRETYPE_TOKEN_NOT \<Rightarrow> seq_ok n 0 es
     | _ \<Rightarrow> seq_ok n 1 es)"

definition rules_ok :: "llama_grammar_rules \<Rightarrow> bool" where
  "rules_ok rules \<longleftrightarrow> (\<forall>rule \<in> set rules. seq_ok (length rules) 0 rule)"

definition ptr_ok :: "llama_grammar_rules \<Rightarrow> element_ptr \<Rightarrow> bool" where
  "ptr_ok rules p \<longleftrightarrow> seq_ok (length rules) 0 (els rules p)"

definition is_class_start :: "llama_grammar_element \<Rightarrow> bool" where
  "is_class_start e \<longleftrightarrow> is_positive_char e \<or> el_type e = LLAMA_GRETYPE_CHAR_NOT"

definition stack_ok :: "llama_grammar_rules \<Rightarrow> llama_grammar_stack \<Rightarrow> bool" where
  "stack_ok rules stack \<longleftrightarrow> (\<forall>p \<in> set stack. ptr_ok rules p \<and> \<not> is_end_of_sequence (hd (els rules p)))"

text \<open>A stack that cannot be expanded: it is empty or its top is a terminal.\<close>

definition at_terminal :: "llama_grammar_rules \<Rightarrow> llama_grammar_stack \<Rightarrow> bool" where
  "at_terminal rules stack \<longleftrightarrow>
    stack = [] \<or> is_class_start (hd (els rules (hd stack))) \<or> is_token_element (hd (els rules (hd stack)))"

lemmas element_kinds = is_class_start_def is_positive_char_def is_token_element_def is_end_of_sequence_def

lemma stack_ok_simps [simp]:
  "stack_ok rules []"
  "stack_ok rules (p # s) \<longleftrightarrow> ptr_ok rules p \<and> \<not> is_end_of_sequence (hd (els rules p)) \<and> stack_ok rules s"
  by (auto simp: stack_ok_def)

lemma els_add: "els rules (ptr_add p n) = drop n (els rules p)"
  by (simp add: els_def ptr_add_def add.commute)

lemma ptr_ok_Cons: "ptr_ok rules p \<Longrightarrow> els rules p = hd (els rules p) # tl (els rules p)"
  unfolding ptr_ok_def by (cases "els rules p") auto

lemma stack_kinds:
  assumes "ptr_ok rules p" "\<not> is_end_of_sequence (hd (els rules p))"
  shows "el_type (hd (els rules p)) = LLAMA_GRETYPE_RULE_REF \<or> is_class_start (hd (els rules p)) \<or>
         is_token_element (hd (els rules p))"
  using assms unfolding ptr_ok_def
  by (cases "els rules p") (auto simp: element_kinds split: llama_gretype.splits)

text \<open>The pointer behind a reference or a token is well formed.\<close>

lemma ptr_ok_next:
  assumes "ptr_ok rules p"
    and "el_type (hd (els rules p)) = LLAMA_GRETYPE_RULE_REF \<or> is_token_element (hd (els rules p))"
  shows "ptr_ok rules (ptr_add p 1)"
  using assms unfolding ptr_ok_def els_add
  by (cases "els rules p") (auto simp: is_token_element_def)

text \<open>The indices of the alternates that the loop visits.\<close>

primrec alternates :: "llama_grammar_element list \<Rightarrow> nat \<Rightarrow> bool \<Rightarrow> nat list" where
  "alternates [] i start = []"
| "alternates (e # es) i start =
    (if start then [i] else []) @
    (if is_end_of_sequence e then (if el_type e = LLAMA_GRETYPE_ALT then alternates es (i + 1) True else [])
     else alternates es (i + 1) False)"

lemma bind_ro_cong: "(\<And>v. g v = h v) \<Longrightarrow> bind_ro x g = bind_ro x h"
  by presburger

lemma alternates_loop_fold:
  "seq_ok n c es \<Longrightarrow> alternates_loop f es i start s = fold_ro f (alternates es i start) s"
proof (induction es arbitrary: c i start s)
  case (Cons e es)
  have "is_end_of_sequence e \<Longrightarrow> el_type e \<noteq> LLAMA_GRETYPE_ALT \<Longrightarrow> es = []"
    using Cons.prems by (auto simp: is_end_of_sequence_def)
  moreover have "\<not> (is_end_of_sequence e \<and> el_type e \<noteq> LLAMA_GRETYPE_ALT) \<Longrightarrow> \<exists>c'. seq_ok n c' es"
    using Cons.prems by (auto simp: is_end_of_sequence_def split: llama_gretype.splits)
  ultimately show ?case
    using Cons.IH by (auto intro!: bind_ro_cong)
qed simp

lemma alternates_ok:
  "seq_ok n c es \<Longrightarrow> (start \<Longrightarrow> c = 0) \<Longrightarrow> j \<in> set (alternates es i start) \<Longrightarrow>
   i \<le> j \<and> seq_ok n 0 (drop (j - i) es)"
proof (induction es arbitrary: c i start)
  case (Cons e es)
  have step: "\<And>c' st. seq_ok n c' es \<Longrightarrow> (st \<Longrightarrow> c' = 0) \<Longrightarrow> j \<in> set (alternates es (Suc i) st) \<Longrightarrow>
      i \<le> j \<and> seq_ok n 0 (drop (j - i) (e # es))"
    using Cons.IH by (metis Suc_diff_le Suc_leD diff_Suc_Suc drop_Suc_Cons)
  show ?case
  proof (cases "start \<and> j = i")
    case True
    then show ?thesis using Cons.prems by simp
  next
    case False
    then have j: "j \<in> set (alternates es (Suc i) (is_end_of_sequence e))"
      and e: "el_type e \<noteq> LLAMA_GRETYPE_END"
      using Cons.prems(3) by (auto simp: is_end_of_sequence_def split: if_splits)
    have "\<exists>c'. seq_ok n c' es \<and> (is_end_of_sequence e \<longrightarrow> c' = 0)"
      using Cons.prems(1) e by (auto simp: is_end_of_sequence_def split: llama_gretype.splits)
    with step j show ?thesis by blast
  qed
qed simp

lemma alternates_nonempty: "es \<noteq> [] \<Longrightarrow> alternates es i True \<noteq> []"
  by (cases es) auto

text \<open>The alternates of a rule as pointers.\<close>

definition rule_alts :: "llama_grammar_rules \<Rightarrow> nat \<Rightarrow> element_ptr list" where
  "rule_alts rules r = map (Pair r) (alternates (els rules (r, 0)) 0 True)"

lemma rules_okD: "rules_ok rules \<Longrightarrow> r < length rules \<Longrightarrow> seq_ok (length rules) 0 (els rules (r, 0))"
  by (simp add: rules_ok_def els_def)

lemma rule_alts_ok:
  assumes "rules_ok rules" "r < length rules" "a \<in> set (rule_alts rules r)"
  shows "ptr_ok rules a"
  using alternates_ok [OF rules_okD [OF assms(1,2)], of True _ 0] assms(2,3)
  by (auto simp: rule_alts_def ptr_ok_def els_def)

lemma rule_alts_nonempty: "rules_ok rules \<Longrightarrow> r < length rules \<Longrightarrow> rule_alts rules r \<noteq> []"
  using rules_okD [of rules r] alternates_nonempty [of "els rules (r, 0)" 0]
  by (cases "els rules (r, 0)") (auto simp: rule_alts_def)

lemma ref_in_range:
  assumes "ptr_ok rules p" "el_type (hd (els rules p)) = LLAMA_GRETYPE_RULE_REF"
  shows "unat (el_value (hd (els rules p))) < length rules"
  using assms unfolding ptr_ok_def by (cases "els rules p") auto

section \<open>Expansion\<close>

definition push :: "llama_grammar_rules \<Rightarrow> element_ptr \<Rightarrow> llama_grammar_stack \<Rightarrow> llama_grammar_stack" where
  "push rules p s = (if is_end_of_sequence (hd (els rules p)) then s else p # s)"

lemma push_unless_end_ok: "ptr_ok rules p \<Longrightarrow> push_unless_end rules p s = Inr (push rules p s)"
  by (cases "els rules p") (auto simp: ptr_ok_def push_unless_end_def push_def)

lemma push_ok [simp]: "ptr_ok rules p \<Longrightarrow> stack_ok rules s \<Longrightarrow> stack_ok rules (push rules p s)"
  by (simp add: push_def)

definition successors :: "llama_grammar_rules \<Rightarrow> element_ptr \<Rightarrow> llama_grammar_stack \<Rightarrow> llama_grammar_stacks" where
  "successors rules p rest =
    map (\<lambda>a. push rules a (push rules (ptr_add p 1) rest))
      (rule_alts rules (unat (el_value (hd (els rules p)))))"

lemma successors_ok:
  assumes "rules_ok rules" "stack_ok rules (p # rest)" "el_type (hd (els rules p)) = LLAMA_GRETYPE_RULE_REF"
    and "s \<in> set (successors rules p rest)"
  shows "stack_ok rules s"
proof -
  obtain a where a: "a \<in> set (rule_alts rules (unat (el_value (hd (els rules p)))))"
    and s: "s = push rules a (push rules (ptr_add p 1) rest)"
    using assms(4) by (auto simp: successors_def)
  have "ptr_ok rules a"
    using rule_alts_ok [OF assms(1) ref_in_range a] assms(2,3) by simp
  moreover have "ptr_ok rules (ptr_add p 1)"
    using ptr_ok_next [of rules p] assms(2,3) by simp
  ultimately show ?thesis using assms(2) s by simp
qed

lemma successors_nonempty:
  "rules_ok rules \<Longrightarrow> stack_ok rules (p # rest) \<Longrightarrow> el_type (hd (els rules p)) = LLAMA_GRETYPE_RULE_REF \<Longrightarrow>
   successors rules p rest \<noteq> []"
  using rule_alts_nonempty ref_in_range by (auto simp: successors_def)

lemma fold_ro_map: "fold_ro f (map g xs) s = fold_ro (\<lambda>x. f (g x)) xs s"
  by (induction xs arbitrary: s) (auto intro: arg_cong [where f = "bind_ro _"])

lemma fold_ro_cong: "(\<And>x s. x \<in> set xs \<Longrightarrow> f x s = g x s) \<Longrightarrow> fold_ro f xs s = fold_ro g xs s"
proof (induction xs arbitrary: s)
  case (Cons x xs)
  then have "fold_ro f xs = fold_ro g xs" by (auto simp: fun_eq_iff)
  with Cons.prems show ?case by simp
qed simp

text \<open>The recursion of \<open>advance_stack\<close> on a well-formed stack.\<close>

lemma alternates_loop_successors:
  assumes "rules_ok rules" "stack_ok rules (p # rest)" "el_type (hd (els rules p)) = LLAMA_GRETYPE_RULE_REF"
    and r: "r = unat (el_value (hd (els rules p)))"
  shows "alternates_loop
      (\<lambda>i acc. bind_ro (Some (push_unless_end rules (ptr_add p 1) rest)) (\<lambda>s1.
         bind_ro (Some (push_unless_end rules (r, i) s1)) (\<lambda>s2. f s2 acc)))
      (els rules (r, 0)) 0 True acc = fold_ro f (successors rules p rest) acc"
proof -
  have len: "r < length rules" using ref_in_range [of rules p] assms(2,3) r by simp
  have next_ok: "ptr_ok rules (ptr_add p 1)" using ptr_ok_next [of rules p] assms(2,3) by simp
  show ?thesis
    unfolding successors_def fold_ro_map rule_alts_def r [symmetric] push_unless_end_ok [OF next_ok]
      alternates_loop_fold [OF rules_okD [OF assms(1) len]]
    by (intro fold_ro_cong) (simp add: push_unless_end_ok rule_alts_ok [OF assms(1) len] rule_alts_def)
qed

lemma advance_ref:
  assumes "rules_ok rules" "stack_ok rules (p # rest)" "el_type (hd (els rules p)) = LLAMA_GRETYPE_RULE_REF"
  shows "advance_stack rules (p # rest) acc = fold_ro (advance_stack rules) (successors rules p rest) acc"
proof -
  obtain e es where e: "els rules p = e # es" using ptr_ok_Cons assms(2) by (metis stack_ok_simps(2))
  show ?thesis
    using alternates_loop_successors [OF assms refl, of "advance_stack rules" acc] assms(3) e
    by (subst advance_stack.simps) (simp add: Let_def)
qed

lemma advance_terminal:
  assumes "stack_ok rules s" "at_terminal rules s"
  shows "advance_stack rules s acc = Some (Inr (add_stack s acc))"
proof (cases s)
  case (Cons p rest)
  then obtain e es where "els rules p = e # es" using ptr_ok_Cons assms(1) by (metis stack_ok_simps(2))
  with assms(2) Cons show ?thesis
    by (subst advance_stack.simps) (auto simp: at_terminal_def element_kinds)
qed (subst advance_stack.simps, simp)

end
