(* ===== verification/GrammarLang.thy ===== *)
theory GrammarLang
  imports Grammar
begin

text \<open>
  What the stacks of the grammar engine mean. The language of a rule is defined by derivations
  over the elements; the expansion of a stack, where it ends, is shown to give exactly
  the stacks that stand at the next terminal; accepting a character is shown to take the
  words with this first character. So the stacks after a text are those of its possible continuations.
\<close>

section \<open>Expansions that end\<close>

inductive settles :: "llama_grammar_rules \<Rightarrow> llama_grammar_stack \<Rightarrow> bool" for rules where
  settles_terminal: "at_terminal rules s \<Longrightarrow> settles rules s"
| settles_ref: "el_type (hd (els rules p)) = LLAMA_GRETYPE_RULE_REF \<Longrightarrow>
    (\<And>s. s \<in> set (successors rules p rest) \<Longrightarrow> settles rules s) \<Longrightarrow> settles rules (p # rest)"

inductive expand :: "llama_grammar_rules \<Rightarrow> llama_grammar_stack \<Rightarrow> llama_grammar_stack \<Rightarrow> bool" for rules where
  expand_terminal: "at_terminal rules s \<Longrightarrow> expand rules s s"
| expand_ref: "el_type (hd (els rules p)) = LLAMA_GRETYPE_RULE_REF \<Longrightarrow>
    s \<in> set (successors rules p rest) \<Longrightarrow> expand rules s t \<Longrightarrow> expand rules (p # rest) t"

inductive_cases expandE: "expand rules s t"

lemma expand_at_terminal: "expand rules s t \<Longrightarrow> at_terminal rules t"
  by (induction rule: expand.induct)

lemma expand_ok: "expand rules s t \<Longrightarrow> rules_ok rules \<Longrightarrow> stack_ok rules s \<Longrightarrow> stack_ok rules t"
  by (induction rule: expand.induct) (blast intro: successors_ok)+

lemma at_terminal_not_ref: "at_terminal rules (p # s) \<Longrightarrow> el_type (hd (els rules p)) \<noteq> LLAMA_GRETYPE_RULE_REF"
  by (auto simp: at_terminal_def element_kinds)

lemma expand_terminal_iff: "at_terminal rules s \<Longrightarrow> expand rules s t \<longleftrightarrow> t = s"
  by (auto elim: expand.cases intro: expand.intros dest: at_terminal_not_ref)

lemma expand_ref_iff:
  "el_type (hd (els rules p)) = LLAMA_GRETYPE_RULE_REF \<Longrightarrow>
   expand rules (p # rest) t \<longleftrightarrow> (\<exists>s \<in> set (successors rules p rest). expand rules s t)"
  by (auto elim: expand.cases intro: expand.intros dest: at_terminal_not_ref)

text \<open>Adding sets of stacks one after the other.\<close>

definition adds :: "(llama_grammar_stacks \<Rightarrow> llama_grammar_stacks res option) \<Rightarrow> llama_grammar_stack set \<Rightarrow> bool" where
  "adds f A \<longleftrightarrow> (\<forall>acc. \<exists>new. f acc = Some (Inr new) \<and> set new = set acc \<union> A \<and> (distinct acc \<longrightarrow> distinct new))"

lemma addsD:
  "adds f A \<Longrightarrow> \<exists>new. f acc = Some (Inr new) \<and> set new = set acc \<union> A \<and> (distinct acc \<longrightarrow> distinct new)"
  by (simp add: adds_def)

lemma adds_nothing: "adds (\<lambda>acc. Some (Inr acc)) {}"
  by (simp add: adds_def)

lemma adds_add_stack: "adds (\<lambda>acc. Some (Inr (add_stack s acc))) {s}"
  by (auto simp: adds_def add_stack_def)

lemma adds_fold:
  "(\<And>x. x \<in> set xs \<Longrightarrow> adds (f x) (A x)) \<Longrightarrow> adds (fold_ro f xs) (\<Union>x \<in> set xs. A x)"
proof (induction xs)
  case (Cons x xs)
  have x: "adds (f x) (A x)" and xs: "adds (fold_ro f xs) (\<Union>x \<in> set xs. A x)"
    using Cons by simp_all
  show ?case
    unfolding adds_def
  proof (intro allI)
    fix acc
    obtain new where 1: "f x acc = Some (Inr new)" "set new = set acc \<union> A x" "distinct acc \<longrightarrow> distinct new"
      using x unfolding adds_def by blast
    obtain new' where "fold_ro f xs new = Some (Inr new')" "set new' = set new \<union> (\<Union>x \<in> set xs. A x)"
        "distinct new \<longrightarrow> distinct new'"
      using xs unfolding adds_def by blast
    with 1 show "\<exists>new. fold_ro f (x # xs) acc = Some (Inr new) \<and> set new = set acc \<union> (\<Union>x \<in> set (x # xs). A x) \<and>
        (distinct acc \<longrightarrow> distinct new)"
      by auto
  qed
qed (simp add: adds_def)

lemma advance_adds:
  "settles rules s \<Longrightarrow> rules_ok rules \<Longrightarrow> stack_ok rules s \<Longrightarrow>
   adds (advance_stack rules s) {t. expand rules s t}"
proof (induction rule: settles.induct)
  case (settles_terminal s)
  then have "advance_stack rules s = (\<lambda>acc. Some (Inr (add_stack s acc)))"
    by (simp add: fun_eq_iff advance_terminal)
  with settles_terminal show ?case using adds_add_stack by (simp add: expand_terminal_iff)
next
  case (settles_ref p rest)
  have "advance_stack rules (p # rest) = fold_ro (advance_stack rules) (successors rules p rest)"
    using settles_ref by (simp add: fun_eq_iff advance_ref)
  moreover have "{t. expand rules (p # rest) t} = (\<Union>s \<in> set (successors rules p rest). {t. expand rules s t})"
    using settles_ref(1) by (auto simp: expand_ref_iff)
  moreover have "adds (advance_stack rules s) {t. expand rules s t}" if "s \<in> set (successors rules p rest)" for s
    using settles_ref(3) [OF that settles_ref(4)] successors_ok [OF settles_ref(4,5,1) that] by blast
  ultimately show ?case
    by (simp add: adds_fold)
qed

lemma expand_exists:
  "settles rules s \<Longrightarrow> rules_ok rules \<Longrightarrow> stack_ok rules s \<Longrightarrow> \<exists>t. expand rules s t"
proof (induction rule: settles.induct)
  case (settles_ref p rest)
  then obtain s where s: "s \<in> set (successors rules p rest)"
    using successors_nonempty by (metis list.set_intros(1) neq_Nil_conv)
  with settles_ref show ?case by (metis expand.expand_ref successors_ok)
qed (auto intro: expand.intros)

section \<open>Character classes\<close>

text \<open>The ranges of the class that starts at an element, and its number of elements.\<close>

fun class_ranges :: "llama_grammar_element list \<Rightarrow> (code_point \<times> code_point) list" where
  "class_ranges (e # u # es) =
    (if el_type u = LLAMA_GRETYPE_CHAR_RNG_UPPER then
       (el_value e, el_value u) #
       (if es \<noteq> [] \<and> el_type (hd es) = LLAMA_GRETYPE_CHAR_ALT then class_ranges es else [])
     else (if el_type e = LLAMA_GRETYPE_CHAR_ANY then (0, -1) else (el_value e, el_value e)) #
       (if el_type u = LLAMA_GRETYPE_CHAR_ALT then class_ranges (u # es) else []))"
| "class_ranges _ = []"

fun class_len :: "llama_grammar_element list \<Rightarrow> nat" where
  "class_len (e # u # es) =
    (if el_type u = LLAMA_GRETYPE_CHAR_RNG_UPPER then
       2 + (if es \<noteq> [] \<and> el_type (hd es) = LLAMA_GRETYPE_CHAR_ALT then class_len es else 0)
     else 1 + (if el_type u = LLAMA_GRETYPE_CHAR_ALT then class_len (u # es) else 0))"
| "class_len _ = 0"

definition in_class :: "llama_grammar_element list \<Rightarrow> code_point \<Rightarrow> bool" where
  "in_class es c \<longleftrightarrow> (\<exists>(l, h) \<in> set (class_ranges es). l \<le> c \<and> c \<le> h) = is_positive_char (hd es)"

lemma match_char_loop_class:
  "seq_ok k 1 (tl es) \<Longrightarrow> es \<noteq> [] \<Longrightarrow>
   match_char_loop es c found n =
     Inr (found \<or> (\<exists>(l, h) \<in> set (class_ranges es). l \<le> c \<and> c \<le> h), n + class_len es)"
proof (induction es c found n rule: match_char_loop.induct)
  case (1 e u es chr found n)
  show ?case
  proof (cases "el_type u = LLAMA_GRETYPE_CHAR_RNG_UPPER")
    case True
    then obtain a es' where es: "es = a # es'" using 1(3) by (cases es) auto
    show ?thesis
    proof (cases "el_type a = LLAMA_GRETYPE_CHAR_ALT")
      case alt: True
      then have "seq_ok k 1 es'" using 1(3) True es by simp
      then show ?thesis using 1(1) [OF True refl es] True es alt by simp
    qed (use True es in simp)
  next
    case False
    show ?thesis
    proof (cases "el_type u = LLAMA_GRETYPE_CHAR_ALT")
      case alt: True
      then have "seq_ok k 1 es" using 1(3) by simp
      then show ?thesis using 1(2) [OF False refl] alt by auto
    qed (use False in auto)
  qed
qed auto

lemma seq_ok_outside:
  "seq_ok k c (e # es) \<Longrightarrow> el_type e \<noteq> LLAMA_GRETYPE_CHAR_ALT \<Longrightarrow> el_type e \<noteq> LLAMA_GRETYPE_CHAR_RNG_UPPER \<Longrightarrow>
   seq_ok k 0 (e # es)"
  by (auto split: llama_gretype.splits)

lemma class_len_ok:
  "seq_ok k 1 (tl es) \<Longrightarrow> es \<noteq> [] \<Longrightarrow> seq_ok k 0 (drop (class_len es) es) \<and> 0 < class_len es"
proof (induction es rule: class_len.induct)
  case (1 e u es)
  show ?case
  proof (cases "el_type u = LLAMA_GRETYPE_CHAR_RNG_UPPER")
    case True
    then obtain a es' where es: "es = a # es'" "seq_ok k 2 (a # es')" using 1(3) by (cases es) auto
    show ?thesis
    proof (cases "el_type a = LLAMA_GRETYPE_CHAR_ALT")
      case alt: True
      then have "seq_ok k 1 es'" using es by simp
      then show ?thesis using 1(1) [OF True] True es(1) alt by simp
    next
      case False
      moreover have "el_type a \<noteq> LLAMA_GRETYPE_CHAR_RNG_UPPER" using es by auto
      ultimately show ?thesis using seq_ok_outside [OF es(2)] True es(1) by simp
    qed
  next
    case False
    show ?thesis
    proof (cases "el_type u = LLAMA_GRETYPE_CHAR_ALT")
      case alt: True
      then have "seq_ok k 1 es" using 1(3) by simp
      then show ?thesis using 1(2) [OF False] alt by simp
    next
      case other: False
      then show ?thesis using seq_ok_outside [of k 1 u es] 1(3) False by simp
    qed
  qed
qed auto

lemma char_seq_ok: "seq_ok k 0 es \<Longrightarrow> is_class_start (hd es) \<Longrightarrow> es \<noteq> [] \<and> seq_ok k 1 (tl es)"
  by (cases es) (auto simp: element_kinds)

lemma match_char_class:
  assumes "ptr_ok rules p" "is_class_start (hd (els rules p))"
  shows "match_char rules p c = Inr (in_class (els rules p) c, ptr_add p (class_len (els rules p)))"
proof -
  have ok: "els rules p \<noteq> []" "seq_ok (length rules) 1 (tl (els rules p))"
    using assms char_seq_ok unfolding ptr_ok_def by blast+
  then obtain e es where e: "els rules p = e # es" by (cases "els rules p") auto
  show ?thesis
    using match_char_loop_class [OF ok(2,1), of c False 0] assms(2) e
    by (simp add: match_char_def in_class_def is_class_start_def)
qed

lemma ptr_ok_class:
  assumes "ptr_ok rules p" "is_class_start (hd (els rules p))"
  shows "ptr_ok rules (ptr_add p (class_len (els rules p)))"
  using assms char_seq_ok class_len_ok unfolding ptr_ok_def els_add by blast

section \<open>The language of a grammar\<close>

inductive derives :: "llama_grammar_rules \<Rightarrow> element_ptr \<Rightarrow> code_point list \<Rightarrow> bool" for rules where
  derives_end: "is_end_of_sequence (hd (els rules p)) \<Longrightarrow> derives rules p []"
| derives_char: "is_class_start (hd (els rules p)) \<Longrightarrow> in_class (els rules p) c \<Longrightarrow>
    derives rules (ptr_add p (class_len (els rules p))) w \<Longrightarrow> derives rules p (c # w)"
| derives_ref: "el_type (hd (els rules p)) = LLAMA_GRETYPE_RULE_REF \<Longrightarrow>
    a \<in> set (rule_alts rules (unat (el_value (hd (els rules p))))) \<Longrightarrow>
    derives rules a u \<Longrightarrow> derives rules (ptr_add p 1) v \<Longrightarrow> derives rules p (u @ v)"

definition rule_language :: "llama_grammar_rules \<Rightarrow> nat \<Rightarrow> code_point list set" where
  "rule_language rules r = {w. \<exists>a \<in> set (rule_alts rules r). derives rules a w}"

text \<open>The words a stack still expects: one for each of its pointers, the top first.\<close>

fun stack_derives :: "llama_grammar_rules \<Rightarrow> llama_grammar_stack \<Rightarrow> code_point list \<Rightarrow> bool" where
  "stack_derives rules [] w \<longleftrightarrow> w = []"
| "stack_derives rules (p # s) w \<longleftrightarrow> (\<exists>u v. w = u @ v \<and> derives rules p u \<and> stack_derives rules s v)"

lemma derives_cases:
  "is_end_of_sequence (hd (els rules p)) \<Longrightarrow> derives rules p w \<longleftrightarrow> w = []"
  "is_class_start (hd (els rules p)) \<Longrightarrow> derives rules p w \<longleftrightarrow>
     (\<exists>c v. w = c # v \<and> in_class (els rules p) c \<and> derives rules (ptr_add p (class_len (els rules p))) v)"
  "el_type (hd (els rules p)) = LLAMA_GRETYPE_RULE_REF \<Longrightarrow> derives rules p w \<longleftrightarrow>
     (\<exists>a u v. w = u @ v \<and> a \<in> set (rule_alts rules (unat (el_value (hd (els rules p))))) \<and>
        derives rules a u \<and> derives rules (ptr_add p 1) v)"
  "is_token_element (hd (els rules p)) \<Longrightarrow> \<not> derives rules p w"
proof -
  let ?e = "hd (els rules p)"
  show "derives rules p w \<longleftrightarrow> w = []" if "is_end_of_sequence ?e"
    using that by (auto elim: derives.cases intro: derives.intros simp: element_kinds)
  show "derives rules p w \<longleftrightarrow>
     (\<exists>c v. w = c # v \<and> in_class (els rules p) c \<and> derives rules (ptr_add p (class_len (els rules p))) v)"
    if "is_class_start ?e"
    using that by (auto elim: derives.cases intro: derives.intros simp: element_kinds)
  show "derives rules p w \<longleftrightarrow>
     (\<exists>a u v. w = u @ v \<and> a \<in> set (rule_alts rules (unat (el_value ?e))) \<and>
        derives rules a u \<and> derives rules (ptr_add p 1) v)"
    if "el_type ?e = LLAMA_GRETYPE_RULE_REF"
    using that by (auto simp: element_kinds elim!: derives.cases [of rules p w] simp del: One_nat_def)
       (blast intro: derives.derives_ref)+
  show "\<not> derives rules p w" if "is_token_element ?e"
    using that by (auto elim: derives.cases simp: element_kinds)
qed

lemma push_derives:
  "stack_derives rules (push rules p s) w \<longleftrightarrow> (\<exists>u v. w = u @ v \<and> derives rules p u \<and> stack_derives rules s v)"
  by (auto simp: push_def derives_cases(1))

text \<open>Expansion keeps the words: what a stack derives is derived by one of its expansions.\<close>

lemma successors_derive:
  assumes "el_type (hd (els rules p)) = LLAMA_GRETYPE_RULE_REF"
  shows "stack_derives rules (p # rest) w \<longleftrightarrow> (\<exists>s \<in> set (successors rules p rest). stack_derives rules s w)"
proof -
  have "stack_derives rules (p # rest) w \<longleftrightarrow>
      (\<exists>a \<in> set (rule_alts rules (unat (el_value (hd (els rules p))))). \<exists>u v x.
         w = u @ v @ x \<and> derives rules a u \<and> derives rules (ptr_add p 1) v \<and> stack_derives rules rest x)"
    unfolding stack_derives.simps derives_cases(3) [OF assms] append_assoc [symmetric] by blast
  then show ?thesis
    unfolding successors_def by (simp add: push_derives) blast
qed

lemma expand_sound: "expand rules s t \<Longrightarrow> stack_derives rules t w \<Longrightarrow> stack_derives rules s w"
proof (induction rule: expand.induct)
  case (expand_ref p s rest t)
  then show ?case using successors_derive [OF expand_ref(1)] by blast
qed

lemma push_reaches:
  assumes "derives rules p u" "stack_derives rules rest v"
    and "\<exists>t. expand rules rest t \<and> stack_derives rules t v"
  shows "\<exists>t. expand rules (push rules p rest) t \<and> stack_derives rules t (u @ v)"
  using assms
proof (induction arbitrary: rest v rule: derives.induct)
  case (derives_end p)
  then show ?case by (simp add: push_def)
next
  case (derives_char p c w)
  have "push rules p rest = p # rest" "at_terminal rules (p # rest)"
    using derives_char(1) by (auto simp: push_def at_terminal_def element_kinds)
  moreover have "stack_derives rules (p # rest) ((c # w) @ v)"
    using derives.derives_char [OF derives_char(1-3)] derives_char.prems(1)
    unfolding stack_derives.simps by blast
  ultimately show ?case by (metis expand.expand_terminal)
next
  case (derives_ref p a u v')
  have "stack_derives rules (push rules (ptr_add p 1) rest) (v' @ v)"
    using derives_ref(4) derives_ref.prems(1) push_derives by blast
  moreover have "\<exists>t. expand rules (push rules (ptr_add p 1) rest) t \<and> stack_derives rules t (v' @ v)"
    by (rule derives_ref.IH(2) [OF derives_ref.prems])
  ultimately obtain t where "expand rules (push rules a (push rules (ptr_add p 1) rest)) t" "stack_derives rules t (u @ v' @ v)"
    using derives_ref.IH(1) by blast
  moreover have "push rules a (push rules (ptr_add p 1) rest) \<in> set (successors rules p rest)"
    using derives_ref(2) by (auto simp: successors_def)
  ultimately have "expand rules (p # rest) t" "stack_derives rules t ((u @ v') @ v)"
    by (auto intro: expand.expand_ref [OF derives_ref(1)])
  moreover have "push rules p rest = p # rest"
    using derives_ref(1) by (simp add: push_def is_end_of_sequence_def)
  ultimately show ?case by metis
qed

lemma expand_complete:
  "stack_ok rules s \<Longrightarrow> stack_derives rules s w \<Longrightarrow> \<exists>t. expand rules s t \<and> stack_derives rules t w"
proof (induction s arbitrary: w)
  case Nil
  then show ?case by (auto intro!: exI [of _ "[]"] expand.expand_terminal simp: at_terminal_def)
next
  case (Cons p s)
  then obtain u v where uv: "w = u @ v" "derives rules p u" "stack_derives rules s v" by auto
  moreover have "push rules p s = p # s" using Cons.prems(1) by (simp add: push_def)
  ultimately show ?case using push_reaches [of rules p u s v] Cons.IH [of v] Cons.prems(1) by auto
qed

lemma expand_language:
  "stack_ok rules s \<Longrightarrow> (\<exists>t. expand rules s t \<and> stack_derives rules t w) \<longleftrightarrow> stack_derives rules s w"
  using expand_sound expand_complete by blast

section \<open>Accepting characters\<close>

text \<open>
  \<open>settled\<close> says that every expansion ends; the check for left recursion is there to ensure it.
  \<open>stacks_ok\<close> is the invariant of the stacks of a grammar: well formed and at a terminal.
\<close>

definition settled :: "llama_grammar_rules \<Rightarrow> bool" where
  "settled rules \<longleftrightarrow> rules_ok rules \<and> (\<forall>s. stack_ok rules s \<longrightarrow> settles rules s)"

definition stacks_ok :: "llama_grammar_rules \<Rightarrow> llama_grammar_stacks \<Rightarrow> bool" where
  "stacks_ok rules stacks \<longleftrightarrow> (\<forall>s \<in> set stacks. stack_ok rules s \<and> at_terminal rules s)"

lemma advance_total:
  "settled rules \<Longrightarrow> stack_ok rules s \<Longrightarrow> adds (advance_stack rules s) {t. expand rules s t}"
  by (simp add: settled_def advance_adds)

definition accepted :: "llama_grammar_rules \<Rightarrow> code_point \<Rightarrow> llama_grammar_stack \<Rightarrow> llama_grammar_stack set" where
  "accepted rules c s =
    (case s of [] \<Rightarrow> {}
     | p # rest \<Rightarrow> if is_class_start (hd (els rules p)) \<and> in_class (els rules p) c
                  then {t. expand rules (push rules (ptr_add p (class_len (els rules p))) rest) t} else {})"

lemma accept_chr_adds:
  assumes "settled rules" "stack_ok rules s" "at_terminal rules s"
  shows "adds (accept_chr rules s c) (accepted rules c s)"
proof (cases s)
  case Nil
  then show ?thesis using adds_nothing by (simp add: accept_chr_def [abs_def] accepted_def)
next
  case (Cons p rest)
  then obtain e es where e: "els rules p = e # es" using ptr_ok_Cons assms(2) by (metis stack_ok_simps(2))
  show ?thesis
  proof (cases "is_token_element e")
    case True
    then have "\<not> is_class_start e" by (auto simp: element_kinds)
    with True show ?thesis using Cons e adds_nothing by (simp add: accept_chr_def [abs_def] accepted_def)
  next
    case False
    then have char: "is_class_start (hd (els rules p))" using assms(3) Cons e by (simp add: at_terminal_def)
    have p: "ptr_ok rules p" "stack_ok rules rest" using assms(2) Cons by simp_all
    note after = ptr_ok_class [OF p(1) char]
    note pushed = push_unless_end_ok [OF after, unfolded e]
    show ?thesis
      using Cons e False char match_char_class [OF p(1) char] adds_nothing
        advance_total [OF assms(1) push_ok [OF after p(2)]]
      by (cases "in_class (els rules p) c") (simp_all add: accept_chr_def [abs_def] accepted_def pushed)
  qed
qed

lemma accepted_ok:
  assumes "settled rules" "stack_ok rules s" "t \<in> accepted rules c s"
  shows "stack_ok rules t \<and> at_terminal rules t"
proof -
  obtain p rest where s: "s = p # rest" "is_class_start (hd (els rules p))"
      "expand rules (push rules (ptr_add p (class_len (els rules p))) rest) t"
    using assms(3) by (auto simp: accepted_def split: list.splits if_splits)
  then have "stack_ok rules (push rules (ptr_add p (class_len (els rules p))) rest)"
    using assms(2) ptr_ok_class by simp
  with s show ?thesis using expand_ok expand_at_terminal assms(1) unfolding settled_def by blast
qed

lemma accept_stacks_total:
  assumes "settled rules" "stacks_ok rules stacks"
  shows "\<exists>new. accept_stacks rules c stacks = Some (Inr new) \<and> set new = (\<Union>s \<in> set stacks. accepted rules c s) \<and>
    distinct new \<and> stacks_ok rules new"
proof -
  have "adds (fold_ro (\<lambda>s. accept_chr rules s c) stacks) (\<Union>s \<in> set stacks. accepted rules c s)"
    using assms by (intro adds_fold accept_chr_adds) (simp_all add: stacks_ok_def)
  then obtain new where new: "accept_stacks rules c stacks = Some (Inr new)"
      "set new = (\<Union>s \<in> set stacks. accepted rules c s)" "distinct new"
    by (auto simp: accept_stacks_def dest: addsD [where acc = "[]"])
  then show ?thesis
    using accepted_ok [OF assms(1)] assms(2) by (auto simp: stacks_ok_def)
qed

text \<open>Accepting takes away the first character of the words the stacks expect.\<close>

lemma accepted_language:
  assumes "stack_ok rules s" "at_terminal rules s"
  shows "(\<exists>t \<in> accepted rules c s. stack_derives rules t w) \<longleftrightarrow> stack_derives rules s (c # w)"
proof (cases s)
  case (Cons p rest)
  let ?q = "ptr_add p (class_len (els rules p))"
  consider "is_token_element (hd (els rules p))" | "is_class_start (hd (els rules p))"
    using assms(2) Cons by (auto simp: at_terminal_def)
  then show ?thesis
  proof cases
    case 1
    then show ?thesis using Cons derives_cases(4) by (auto simp: accepted_def element_kinds)
  next
    case 2
    have "stack_derives rules s (c # w) \<longleftrightarrow> in_class (els rules p) c \<and> stack_derives rules (push rules ?q rest) w"
      unfolding Cons push_derives stack_derives.simps derives_cases(2) [OF 2]
      by (simp add: Cons_eq_append_conv) blast
    moreover have "stack_ok rules (push rules ?q rest)"
      using assms(1) ptr_ok_class 2 Cons by simp
    ultimately show ?thesis
      using Cons 2 expand_language [of rules "push rules ?q rest" w] by (auto simp: accepted_def)
  qed
qed (simp add: accepted_def)

lemma terminal_derives_Nil: "at_terminal rules s \<Longrightarrow> stack_derives rules s [] \<longleftrightarrow> s = []"
  by (cases s) (auto simp: at_terminal_def derives_cases)

text \<open>A whole text.\<close>

definition accept_text :: "llama_grammar_rules \<Rightarrow> code_point list \<Rightarrow> llama_grammar_stacks \<Rightarrow> llama_grammar_stacks res option" where
  "accept_text rules = fold_ro (accept_stacks rules)"

lemma accept_text_language:
  assumes "settled rules" "stacks_ok rules stacks"
  shows "\<exists>new. accept_text rules w stacks = Some (Inr new) \<and> stacks_ok rules new \<and>
    (\<forall>v. (\<exists>s \<in> set new. stack_derives rules s v) \<longleftrightarrow> (\<exists>s \<in> set stacks. stack_derives rules s (w @ v)))"
  using assms(2)
proof (induction w arbitrary: stacks)
  case (Cons c w)
  obtain new where new: "accept_stacks rules c stacks = Some (Inr new)"
      "set new = (\<Union>s \<in> set stacks. accepted rules c s)" "stacks_ok rules new"
    using accept_stacks_total [OF assms(1) Cons.prems] by blast
  obtain new' where new': "accept_text rules w new = Some (Inr new')" "stacks_ok rules new'"
      "\<forall>v. (\<exists>s \<in> set new'. stack_derives rules s v) \<longleftrightarrow> (\<exists>s \<in> set new. stack_derives rules s (w @ v))"
    using Cons.IH [OF new(3)] by blast
  have "(\<exists>s \<in> set new. stack_derives rules s x) \<longleftrightarrow> (\<exists>s \<in> set stacks. stack_derives rules s (c # x))" for x
  proof -
    have "(\<exists>s \<in> set new. stack_derives rules s x) \<longleftrightarrow>
        (\<exists>s \<in> set stacks. \<exists>t \<in> accepted rules c s. stack_derives rules t x)"
      using new(2) by simp
    also have "\<dots> \<longleftrightarrow> (\<exists>s \<in> set stacks. stack_derives rules s (c # x))"
      using Cons.prems by (intro bex_cong refl accepted_language) (simp_all add: stacks_ok_def)
    finally show ?thesis .
  qed
  with new new' show ?case by (simp add: accept_text_def)
qed (simp add: accept_text_def)

end
