(* ===== verification/GrammarCheck.thy ===== *)
theory GrammarCheck
  imports GrammarLang
begin

text \<open>
  The check for left recursion against what it is for. It ends, and it reports exactly the cycles
  of the relation ``a rule begins with a reference to another one, up to rules that have an empty
  alternate''. Rules without left recursion in the usual sense, where every rule that derives the
  empty text is skipped, pass the check, and every expansion of a stack ends for them. The check
  does not propagate emptiness through references, so rules with left recursion may pass it; when
  the rules that can derive the empty text are those with an empty alternate, passing is enough.
\<close>

section \<open>What the check looks at\<close>

definition directly_empty :: "llama_grammar_rules \<Rightarrow> nat \<Rightarrow> bool" where
  "directly_empty rules i \<longleftrightarrow> has_empty_alternate (rules ! i) True"

fun left_refs :: "(nat \<Rightarrow> bool) \<Rightarrow> llama_grammar_element list \<Rightarrow> bool \<Rightarrow> nat list" where
  "left_refs E [] recurse = []"
| "left_refs E (e # es) recurse =
    (if el_type e = LLAMA_GRETYPE_RULE_REF \<and> recurse
     then unat (el_value e) # left_refs E es (E (unat (el_value e)))
     else left_refs E es (is_end_of_sequence e))"

text \<open>\<open>left_of rules j i\<close>: rule \<open>i\<close> may begin with rule \<open>j\<close>.\<close>

definition left_of :: "llama_grammar_rules \<Rightarrow> nat \<Rightarrow> nat \<Rightarrow> bool" where
  "left_of rules j i \<longleftrightarrow> i < length rules \<and> j \<in> set (left_refs (directly_empty rules) (rules ! i) True)"

lemma seq_ok_refs: "seq_ok n c es \<Longrightarrow> j \<in> set (left_refs E es b) \<Longrightarrow> j < n"
proof (induction es arbitrary: c b)
  case (Cons e es)
  have "\<exists>c'. seq_ok n c' es" if "j \<in> set (left_refs E es b')" for b'
    using Cons.prems(1) that by (auto split: llama_gretype.splits)
  with Cons show ?case by (auto split: if_splits)
qed simp

lemma left_of_range: "rules_ok rules \<Longrightarrow> left_of rules j i \<Longrightarrow> j < length rules"
  unfolding left_of_def rules_ok_def using seq_ok_refs nth_mem by blast

section \<open>The check ends and is exact for this relation\<close>

definition lr_ok :: "llama_grammar_rules \<Rightarrow> lr_state \<Rightarrow> bool" where
  "lr_ok rules st \<longleftrightarrow>
    length (lr_visited st) = length rules \<and> length (lr_in_progress st) = length rules \<and>
    length (lr_may_be_empty st) = length rules \<and>
    (\<forall>j < length rules. lr_may_be_empty st ! j \<longrightarrow> directly_empty rules j) \<and>
    (\<forall>j < length rules. lr_visited st ! j \<longrightarrow> Wellfounded.accp (left_of rules) j)"

text \<open>What one call without a finding leaves behind.\<close>

definition lr_post :: "llama_grammar_rules \<Rightarrow> lr_state \<Rightarrow> lr_state \<Rightarrow> bool" where
  "lr_post rules st st' \<longleftrightarrow> lr_ok rules st' \<and> lr_in_progress st' = lr_in_progress st \<and>
    (\<forall>j < length rules. lr_may_be_empty st ! j \<longrightarrow> lr_may_be_empty st' ! j)"

lemma lr_post_refl: "lr_ok rules st \<Longrightarrow> lr_post rules st st"
  by (simp add: lr_post_def)

lemma lr_post_trans: "lr_post rules st st' \<Longrightarrow> lr_post rules st' st'' \<Longrightarrow> lr_post rules st st''"
  by (auto simp: lr_post_def)

text \<open>A finding: a cycle, or a way to a rule in progress.\<close>

definition lr_found :: "llama_grammar_rules \<Rightarrow> lr_state \<Rightarrow> nat \<Rightarrow> bool" where
  "lr_found rules st i \<longleftrightarrow> (\<exists>j. (left_of rules)\<^sup>+\<^sup>+ j j) \<or>
    (\<exists>j < length rules. lr_in_progress st ! j \<and> (left_of rules)\<^sup>*\<^sup>* j i)"

definition lr_result :: "llama_grammar_rules \<Rightarrow> lr_state \<Rightarrow> nat \<Rightarrow> (bool \<times> lr_state) res option \<Rightarrow> bool" where
  "lr_result rules st i r \<longleftrightarrow> (\<exists>b st'. r = Some (Inr (b, st')) \<and>
    (if b then lr_found rules st i
     else lr_post rules st st' \<and> lr_may_be_empty st' ! i = directly_empty rules i \<and>
       Wellfounded.accp (left_of rules) i))"

lemma lr_loop_result:
  assumes f: "\<And>j s. j < length rules \<Longrightarrow> lr_ok rules s \<Longrightarrow> lr_in_progress s = lr_in_progress st \<Longrightarrow>
      lr_result rules s j (f j s)"
    and "lr_ok rules st" "\<And>j. j \<in> set (left_refs (directly_empty rules) es b) \<Longrightarrow> j < length rules"
  shows "\<exists>found st'. lr_loop f es b st = Some (Inr (found, st')) \<and>
    (if found then \<exists>j \<in> set (left_refs (directly_empty rules) es b). lr_found rules st j
     else lr_post rules st st' \<and>
       (\<forall>j \<in> set (left_refs (directly_empty rules) es b). Wellfounded.accp (left_of rules) j))"
  using assms
proof (induction es arbitrary: b st)
  case Nil
  then show ?case by (auto simp: lr_post_refl)
next
  case (Cons e es)
  let ?j = "unat (el_value e)"
  let ?E = "directly_empty rules"
  show ?case
  proof (cases "el_type e = LLAMA_GRETYPE_RULE_REF \<and> b")
    case True
    obtain found st' where r: "f ?j st = Some (Inr (found, st'))"
      and post: "if found then lr_found rules st ?j
        else lr_post rules st st' \<and> lr_may_be_empty st' ! ?j = ?E ?j \<and> Wellfounded.accp (left_of rules) ?j"
      using Cons.prems(1) [of ?j st] Cons.prems(2,3) True unfolding lr_result_def by auto
    show ?thesis
    proof (cases found)
      case True': True
      then show ?thesis using r post True by auto
    next
      case False
      then have st': "lr_post rules st st'" "lr_may_be_empty st' ! ?j = ?E ?j" "Wellfounded.accp (left_of rules) ?j"
        using post by auto
      have ip: "lr_in_progress st' = lr_in_progress st" "lr_ok rules st'"
        using st'(1) by (auto simp: lr_post_def)
      obtain found' st'' where l: "lr_loop f es (?E ?j) st' = Some (Inr (found', st''))"
        and p: "if found' then \<exists>j \<in> set (left_refs ?E es (?E ?j)). lr_found rules st' j
          else lr_post rules st' st'' \<and> (\<forall>j \<in> set (left_refs ?E es (?E ?j)). Wellfounded.accp (left_of rules) j)"
        using Cons.IH [of st' "?E ?j"] Cons.prems(1,3) True ip by auto
      then show ?thesis
        using r False True st' lr_post_trans [OF st'(1)] ip(1)
        by (cases found') (auto simp: lr_found_def)
    qed
  next
    case False
    then have skip: "lr_loop f (e # es) b st = lr_loop f es (is_end_of_sequence e) st"
        "left_refs ?E (e # es) b = left_refs ?E es (is_end_of_sequence e)"
      by auto
    show ?thesis
      unfolding skip by (rule Cons.IH) (use Cons.prems skip(2) in auto)
  qed
qed

lemma detect_result:
  assumes "rules_ok rules"
  shows "i < length rules \<Longrightarrow> lr_ok rules st \<Longrightarrow> lr_result rules st i (detect_left_recursion rules i st)"
proof (induction "card {j. j < length rules \<and> \<not> lr_in_progress st ! j}" arbitrary: i st rule: less_induct)
  case less
  show ?case
  proof (cases "lr_in_progress st ! i")
    case True
    then show ?thesis using less.prems by (subst detect_left_recursion.simps) (auto simp: lr_result_def lr_found_def)
  next
    case False
    let ?E = "directly_empty rules"
    define st1 where "st1 = st\<lparr>lr_in_progress := (lr_in_progress st)[i := True]\<rparr>"
    define st2 where "st2 = (if ?E i then st1\<lparr>lr_may_be_empty := (lr_may_be_empty st1)[i := True]\<rparr> else st1)"
    have len: "length (lr_in_progress st) = length rules" "length (lr_may_be_empty st) = length rules"
      "length (lr_visited st) = length rules"
      using less.prems(2) by (auto simp: lr_ok_def)
    have ok2: "lr_ok rules st2"
      using less.prems by (auto simp: lr_ok_def st2_def st1_def nth_list_update)
    have ip2: "lr_in_progress st2 = (lr_in_progress st)[i := True]"
      by (simp add: st2_def st1_def)
    have "{j. j < length rules \<and> \<not> lr_in_progress st2 ! j} \<subset> {j. j < length rules \<and> \<not> lr_in_progress st ! j}"
      using False less.prems(1) len by (auto simp: ip2 nth_list_update)
    then have smaller: "card {j. j < length rules \<and> \<not> lr_in_progress s ! j} < card {j. j < length rules \<and> \<not> lr_in_progress st ! j}"
      if "lr_in_progress s = lr_in_progress st2" for s
      unfolding that by (rule psubset_card_mono [rotated]) simp
    obtain found st3 where l: "lr_loop (detect_left_recursion rules) (rules ! i) True st2 = Some (Inr (found, st3))"
      and p: "if found then \<exists>j \<in> set (left_refs ?E (rules ! i) True). lr_found rules st2 j
        else lr_post rules st2 st3 \<and> (\<forall>j \<in> set (left_refs ?E (rules ! i) True). Wellfounded.accp (left_of rules) j)"
      using lr_loop_result [OF less.hyps [OF smaller] ok2, of "rules ! i" True] left_of_range [OF assms] less.prems(1)
      unfolding left_of_def by blast
    show ?thesis
    proof (cases found)
      case True
      then obtain j where j: "left_of rules j i" "lr_found rules st2 j"
        using p less.prems(1) by (auto simp: left_of_def)
      have "lr_found rules st i"
      proof (cases "\<exists>k. (left_of rules)\<^sup>+\<^sup>+ k k")
        case no: False
        then obtain k where k: "k < length rules" "lr_in_progress st2 ! k" "(left_of rules)\<^sup>*\<^sup>* k j"
          using j(2) by (auto simp: lr_found_def)
        then have "(left_of rules)\<^sup>+\<^sup>+ k i" using j(1) by (blast intro: rtranclp_into_tranclp1)
        with no have "k \<noteq> i" "(left_of rules)\<^sup>*\<^sup>* k i" by (auto intro: tranclp_into_rtranclp)
        with k show ?thesis by (auto simp: lr_found_def ip2 nth_list_update)
      qed (simp add: lr_found_def)
      then show ?thesis
        using l True False less.prems(1)
        by (subst detect_left_recursion.simps)
           (auto simp: lr_result_def Let_def st1_def [symmetric] directly_empty_def [symmetric] st2_def [symmetric])
    next
      case nf: False
      let ?st = "st3\<lparr>lr_in_progress := (lr_in_progress st3)[i := False], lr_visited := (lr_visited st3)[i := True]\<rparr>"
      have acc: "Wellfounded.accp (left_of rules) i"
        by (rule accp.accI) (use p nf in \<open>simp add: left_of_def\<close>)
      have post: "lr_ok rules st3" "lr_in_progress st3 = lr_in_progress st2"
          "\<forall>j < length rules. lr_may_be_empty st2 ! j \<longrightarrow> lr_may_be_empty st3 ! j"
        using p nf by (auto simp: lr_post_def)
      have "lr_in_progress ?st = lr_in_progress st"
        using False less.prems(1) len by (simp add: post(2) ip2 list_update_same_conv)
      moreover have "lr_ok rules ?st"
        using post(1) acc less.prems(1) by (auto simp: lr_ok_def nth_list_update)
      moreover have "lr_may_be_empty st ! j \<longrightarrow> lr_may_be_empty ?st ! j" if "j < length rules" for j
        using post(3) [rule_format, OF that] that len
        by (cases "i = j") (auto simp: st2_def st1_def nth_list_update split: if_splits)
      moreover have "lr_may_be_empty ?st ! i = ?E i"
      proof (cases "?E i")
        case True
        then have "lr_may_be_empty st2 ! i" using less.prems(1) len by (simp add: st2_def st1_def)
        with True post(3) less.prems(1) show ?thesis by simp
      qed (use post(1) less.prems(1) in \<open>simp add: lr_ok_def, blast\<close>)
      ultimately have "lr_post rules st ?st" "lr_may_be_empty ?st ! i = ?E i"
        by (auto simp: lr_post_def)
      with acc show ?thesis
        using l nf False less.prems(1)
        by (subst detect_left_recursion.simps)
           (auto simp: lr_result_def Let_def st1_def [symmetric] directly_empty_def [symmetric] st2_def [symmetric])
    qed
  qed
qed

lemma check_rules_result:
  assumes "rules_ok rules"
  shows "lr_ok rules st \<Longrightarrow> \<forall>j < length rules. \<not> lr_in_progress st ! j \<Longrightarrow> set is \<subseteq> {..<length rules} \<Longrightarrow>
    \<exists>b. check_rules rules is st = Some (Inr b) \<and>
      (if b then \<exists>j. (left_of rules)\<^sup>+\<^sup>+ j j else \<forall>i \<in> set is. Wellfounded.accp (left_of rules) i)"
proof (induction "is" arbitrary: st)
  case (Cons i "is")
  show ?case
  proof (cases "lr_visited st ! i")
    case True
    then have acc: "Wellfounded.accp (left_of rules) i" using Cons.prems(1,3) by (simp add: lr_ok_def)
    obtain b where "check_rules rules is st = Some (Inr b)"
        "if b then \<exists>j. (left_of rules)\<^sup>+\<^sup>+ j j else \<forall>i \<in> set is. Wellfounded.accp (left_of rules) i"
      using Cons.IH [OF Cons.prems(1,2)] Cons.prems(3) by auto
    with True acc show ?thesis by (cases b) auto
  next
    case False
    obtain b st' where d: "detect_left_recursion rules i st = Some (Inr (b, st'))"
      and p: "if b then lr_found rules st i
        else lr_post rules st st' \<and> lr_may_be_empty st' ! i = directly_empty rules i \<and> Wellfounded.accp (left_of rules) i"
      using detect_result [OF assms, of i st] Cons.prems unfolding lr_result_def by auto
    show ?thesis
    proof (cases b)
      case True
      then have "\<exists>j. (left_of rules)\<^sup>+\<^sup>+ j j" using p Cons.prems(2) by (auto simp: lr_found_def)
      with True False d show ?thesis by auto
    next
      case nb: False
      then have "lr_ok rules st'" "\<forall>j < length rules. \<not> lr_in_progress st' ! j"
        using p Cons.prems(2) by (auto simp: lr_post_def)
      then obtain b' where "check_rules rules is st' = Some (Inr b')"
          "if b' then \<exists>j. (left_of rules)\<^sup>+\<^sup>+ j j else \<forall>i \<in> set is. Wellfounded.accp (left_of rules) i"
        using Cons.IH [of st'] Cons.prems(3) by auto
      with nb False d p show ?thesis by (cases b') auto
    qed
  qed
qed auto

lemma accp_no_cycle:
  assumes "Wellfounded.accp r i"
  shows "\<not> r\<^sup>+\<^sup>+ i i"
  using assms
proof (induction rule: accp.induct)
  case (accI x)
  show ?case
  proof
    assume "r\<^sup>+\<^sup>+ x x"
    then obtain y where "r\<^sup>*\<^sup>* x y" "r y x" by (cases rule: tranclp.cases) (auto intro: tranclp_into_rtranclp)
    then have "r y x" "r\<^sup>+\<^sup>+ y y" by (auto intro: rtranclp_into_tranclp2)
    with accI show False by blast
  qed
qed

lemma left_recursive_result:
  assumes "rules_ok rules"
  shows "\<exists>b. left_recursive rules = Some (Inr b) \<and> (b \<longleftrightarrow> (\<exists>j. (left_of rules)\<^sup>+\<^sup>+ j j)) \<and>
    (\<not> b \<longrightarrow> (\<forall>i < length rules. Wellfounded.accp (left_of rules) i))"
proof -
  let ?no = "replicate (length rules) False"
  have "lr_ok rules \<lparr>lr_visited = ?no, lr_in_progress = ?no, lr_may_be_empty = ?no\<rparr>"
    by (simp add: lr_ok_def)
  then obtain b where b: "left_recursive rules = Some (Inr b)"
    and p: "if b then \<exists>j. (left_of rules)\<^sup>+\<^sup>+ j j else \<forall>i \<in> set [0..<length rules]. Wellfounded.accp (left_of rules) i"
    using check_rules_result [OF assms, of "\<lparr>lr_visited = ?no, lr_in_progress = ?no, lr_may_be_empty = ?no\<rparr>" "[0..<length rules]"]
    unfolding left_recursive_def Let_def by (auto simp: atLeast0LessThan)
  have "j < length rules" if "(left_of rules)\<^sup>+\<^sup>+ j j" for j
    using that by (metis left_of_def tranclp.cases)
  then have "b \<longleftrightarrow> (\<exists>j. (left_of rules)\<^sup>+\<^sup>+ j j)"
    using p accp_no_cycle [of "left_of rules"] by (cases b) (simp_all, fastforce)
  with b p show ?thesis by (cases b) auto
qed

section \<open>Expansions end\<close>

text \<open>The sequence from an element on can derive the empty text, when \<open>E\<close> says so of the references.\<close>

fun seq_nullable :: "(nat \<Rightarrow> bool) \<Rightarrow> llama_grammar_element list \<Rightarrow> bool" where
  "seq_nullable E [] = False"
| "seq_nullable E (e # es) \<longleftrightarrow> is_end_of_sequence e \<or>
    (el_type e = LLAMA_GRETYPE_RULE_REF \<and> E (unat (el_value e)) \<and> seq_nullable E es)"

text \<open>
  \<open>covers_empty E\<close>: every rule with an alternate that is empty as far as \<open>E\<close> knows is in \<open>E\<close>. The flags of
  the check are complete when they have this property: no rule derives the empty text only
  through references.
\<close>

definition covers_empty :: "llama_grammar_rules \<Rightarrow> (nat \<Rightarrow> bool) \<Rightarrow> bool" where
  "covers_empty rules E \<longleftrightarrow>
    (\<forall>i < length rules. \<forall>a \<in> set (rule_alts rules i). seq_nullable E (els rules a) \<longrightarrow> E i)"

definition empties_closed :: "llama_grammar_rules \<Rightarrow> bool" where
  "empties_closed rules \<longleftrightarrow>
    (\<forall>i < length rules. \<forall>a \<in> set (rule_alts rules i).
       seq_nullable (directly_empty rules) (els rules a) \<longrightarrow> directly_empty rules i)"

lemma empties_closed_covers: "empties_closed rules \<longleftrightarrow> covers_empty rules (directly_empty rules)"
  by (simp add: empties_closed_def covers_empty_def)

text \<open>\<open>left_of_with rules E j i\<close>: rule \<open>i\<close> may begin with rule \<open>j\<close>, if the rules of \<open>E\<close> may be empty.\<close>

definition left_of_with :: "llama_grammar_rules \<Rightarrow> (nat \<Rightarrow> bool) \<Rightarrow> nat \<Rightarrow> nat \<Rightarrow> bool" where
  "left_of_with rules E j i \<longleftrightarrow> i < length rules \<and> j \<in> set (left_refs E (rules ! i) True)"

lemma left_of_directly: "left_of rules = left_of_with rules (directly_empty rules)"
  by (intro ext) (simp add: left_of_def left_of_with_def)

lemma left_of_with_range: "rules_ok rules \<Longrightarrow> left_of_with rules E j i \<Longrightarrow> j < length rules"
  unfolding left_of_with_def rules_ok_def using seq_ok_refs nth_mem by blast

text \<open>Pushing an alternate of \<open>i\<close> onto a stack that settles, or onto any stack if \<open>i\<close> is never empty.\<close>

definition alts_settle :: "llama_grammar_rules \<Rightarrow> (nat \<Rightarrow> bool) \<Rightarrow> nat \<Rightarrow> bool" where
  "alts_settle rules E i \<longleftrightarrow> (\<forall>rest. (E i \<longrightarrow> settles rules rest) \<longrightarrow>
     (\<forall>a \<in> set (rule_alts rules i). settles rules (push rules a rest)))"

lemma push_settles:
  assumes "ptr_ok rules p"
    and "\<And>j. j \<in> set (left_refs E (els rules p) True) \<Longrightarrow> alts_settle rules E j"
    and "seq_nullable E (els rules p) \<Longrightarrow> settles rules rest"
  shows "settles rules (push rules p rest)"
  using assms
proof (induction "length (els rules p)" arbitrary: p rule: less_induct)
  case less
  obtain e es where e: "els rules p = e # es" using ptr_ok_Cons less.prems(1) by metis
  have es: "els rules (ptr_add p 1) = es" by (simp add: els_add e)
  consider "is_end_of_sequence e" | "is_class_start e \<or> is_token_element e" "\<not> is_end_of_sequence e"
    | "el_type e = LLAMA_GRETYPE_RULE_REF" "\<not> is_end_of_sequence e"
    using stack_kinds [OF less.prems(1)] e by auto
  then show ?case
  proof cases
    case 1
    then show ?thesis using less.prems(3) e by (simp add: push_def)
  next
    case 2
    then have "push rules p rest = p # rest" "at_terminal rules (p # rest)"
      using e by (simp_all add: push_def at_terminal_def)
    then show ?thesis by (simp add: settles.settles_terminal)
  next
    case 3
    let ?j = "unat (el_value e)"
    have "settles rules (push rules (ptr_add p 1) rest)" if "E ?j"
    proof (rule less.hyps)
      show "ptr_ok rules (ptr_add p 1)" using ptr_ok_next [OF less.prems(1)] 3(1) e by simp
      show "alts_settle rules E j" if "j \<in> set (left_refs E (els rules (ptr_add p 1)) True)" for j
        using less.prems(2) [of j] that \<open>E ?j\<close> e es 3(1) by simp
      show "settles rules rest" if "seq_nullable E (els rules (ptr_add p 1))"
        using less.prems(3) that \<open>E ?j\<close> e es 3(1) by simp
    qed (simp add: e els_add)
    moreover have "alts_settle rules E ?j" using less.prems(2) e 3(1) by simp
    ultimately have "settles rules s" if "s \<in> set (successors rules p rest)" for s
      using that e unfolding alts_settle_def successors_def by auto
    then show ?thesis using 3 e by (auto simp: push_def intro: settles.settles_ref)
  qed
qed

lemma left_refs_alternate:
  "k \<in> set (alternates es i start) \<Longrightarrow> b = start \<or> b \<Longrightarrow>
   set (left_refs E (drop (k - i) es) True) \<subseteq> set (left_refs E es b) \<and> i \<le> k"
proof (induction es arbitrary: i start b)
  case (Cons e es)
  show ?case
  proof (cases "start \<and> k = i")
    case True
    with Cons.prems(2) show ?thesis by auto
  next
    case False
    then have k: "k \<in> set (alternates es (Suc i) (is_end_of_sequence e))"
      using Cons.prems(1) by (auto simp: is_end_of_sequence_def split: if_splits)
    have "set (left_refs E (drop (k - Suc i) es) True) \<subseteq> set (left_refs E (e # es) b) \<and> Suc i \<le> k"
    proof (cases "el_type e = LLAMA_GRETYPE_RULE_REF")
      case True
      then have "\<not> is_end_of_sequence e" by (simp add: is_end_of_sequence_def)
      with k Cons.IH [of "Suc i" False] True show ?thesis by auto
    next
      case False
      with k Cons.IH [of "Suc i" "is_end_of_sequence e" "is_end_of_sequence e"] show ?thesis by auto
    qed
    moreover then have "drop (k - i) (e # es) = drop (k - Suc i) es" by (simp add: Suc_diff_le drop_Cons' )
    ultimately show ?thesis by simp
  qed
qed simp

lemma alts_settle_acc:
  assumes "rules_ok rules" "covers_empty rules E"
  shows "Wellfounded.accp (left_of_with rules E) i \<Longrightarrow> i < length rules \<Longrightarrow> alts_settle rules E i"
proof (induction i rule: accp.induct)
  case (accI i)
  show ?case
    unfolding alts_settle_def
  proof (intro allI impI ballI)
    fix rest a
    assume r: "E i \<longrightarrow> settles rules rest" and a: "a \<in> set (rule_alts rules i)"
    show "settles rules (push rules a rest)"
    proof (rule push_settles)
      show "ptr_ok rules a" by (rule rule_alts_ok [OF assms(1) accI.prems a])
      show "settles rules rest" if "seq_nullable E (els rules a)"
        using that r assms(2) accI.prems a unfolding covers_empty_def by blast
      fix j assume j: "j \<in> set (left_refs E (els rules a) True)"
      obtain k where k: "a = (i, k)" "k \<in> set (alternates (rules ! i) 0 True)"
        using a accI.prems by (auto simp: rule_alts_def els_def)
      have "left_of_with rules E j i"
        using left_refs_alternate [OF k(2), of True E] j k(1) accI.prems
        by (auto simp: left_of_with_def els_def)
      then show "alts_settle rules E j"
        using accI.IH left_of_with_range [OF assms(1)] by blast
    qed
  qed
qed

lemma acc_settled:
  assumes "rules_ok rules" "covers_empty rules E"
    and "\<And>i. i < length rules \<Longrightarrow> Wellfounded.accp (left_of_with rules E) i"
  shows "settled rules"
proof -
  have "stack_ok rules s \<Longrightarrow> settles rules s" for s
  proof (induction s)
    case (Cons p s)
    then have "settles rules (push rules p s)"
      using alts_settle_acc [OF assms(1,2)] assms(3) seq_ok_refs
      by (intro push_settles [where E = E]) (auto simp: ptr_ok_def)
    then show ?case using Cons.prems by (simp add: push_def)
  qed (simp add: settles.settles_terminal at_terminal_def)
  with assms(1) show ?thesis by (simp add: settled_def)
qed

lemma check_settles:
  assumes "rules_ok rules" "empties_closed rules" "left_recursive rules = Some (Inr False)"
  shows "settled rules"
  using acc_settled [OF assms(1) assms(2) [unfolded empties_closed_covers]] left_recursive_result [OF assms(1)] assms(3)
  by (auto simp: left_of_directly)

section \<open>Left recursion\<close>

text \<open>
  Left recursion in the usual sense: a rule that may begin with itself, where every rule whose
  language has the empty text is skipped, be it by an alternate of its own or through references. Rules
  without it settle, also when emptiness does not show in an alternate, as in \<open>root ::= "a"*\<close>.
\<close>

definition nullable :: "llama_grammar_rules \<Rightarrow> nat \<Rightarrow> bool" where
  "nullable rules i \<longleftrightarrow> [] \<in> rule_language rules i"

definition begins_with :: "llama_grammar_rules \<Rightarrow> nat \<Rightarrow> nat \<Rightarrow> bool" where
  "begins_with rules j i \<longleftrightarrow> i < length rules \<and> j \<in> set (left_refs (nullable rules) (rules ! i) True)"

definition left_recursion :: "llama_grammar_rules \<Rightarrow> bool" where
  "left_recursion rules \<longleftrightarrow> (\<exists>j. (begins_with rules)\<^sup>+\<^sup>+ j j)"

lemma begins_with_left: "begins_with rules = left_of_with rules (nullable rules)"
  by (intro ext) (simp add: begins_with_def left_of_with_def)

lemma seq_nullable_derives: "seq_nullable (nullable rules) (els rules p) \<Longrightarrow> derives rules p []"
proof (induction "length (els rules p)" arbitrary: p rule: less_induct)
  case less
  then obtain e es where e: "els rules p = e # es" by (cases "els rules p") auto
  show ?case
  proof (cases "is_end_of_sequence e")
    case True
    then show ?thesis using e by (simp add: derives.derives_end)
  next
    case False
    then have ref: "el_type e = LLAMA_GRETYPE_RULE_REF" "nullable rules (unat (el_value e))"
        "seq_nullable (nullable rules) (els rules (ptr_add p 1))"
      using less.prems e by (simp_all add: els_add)
    moreover have "derives rules (ptr_add p 1) []"
      using less.hyps [of "ptr_add p 1"] ref(3) e by (simp add: els_add)
    ultimately show ?thesis
      using derives.derives_ref [of rules p _ "[]" "[]"] e by (auto simp: nullable_def rule_language_def)
  qed
qed

lemma nullable_covers: "covers_empty rules (nullable rules)"
  unfolding covers_empty_def using seq_nullable_derives by (auto simp: nullable_def rule_language_def)

lemma finite_acyclic_accp:
  assumes "finite {(x, y). r x y}" "\<nexists>x. r\<^sup>+\<^sup>+ x x"
  shows "Wellfounded.accp r x"
proof -
  have "acyclic {(x, y). r x y}"
    using assms(2) by (simp add: acyclic_def tranclp_unfold)
  then have "wfp r"
    using finite_acyclic_wf [OF assms(1)] by (simp add: wfp_def)
  then show ?thesis by (simp add: wfp_iff_accp)
qed

lemma no_left_recursion_settles:
  assumes "rules_ok rules" "\<not> left_recursion rules"
  shows "settled rules"
proof (rule acc_settled [OF assms(1) nullable_covers])
  have "{(j, i). begins_with rules j i} \<subseteq> {..<length rules} \<times> {..<length rules}"
    using left_of_with_range [OF assms(1)] by (auto simp: begins_with_left left_of_with_def)
  then have "finite {(j, i). begins_with rules j i}" by (rule finite_subset) simp
  then show "Wellfounded.accp (left_of_with rules (nullable rules)) i" for i
    using finite_acyclic_accp [of "begins_with rules"] assms(2) by (simp add: left_recursion_def begins_with_left)
qed

text \<open>The check finds nothing then: what it follows is part of this relation.\<close>

lemma left_refs_mono:
  "(\<And>i. i \<in> set (left_refs E es b) \<Longrightarrow> E i \<Longrightarrow> F i) \<Longrightarrow> (b \<longrightarrow> c) \<Longrightarrow>
   set (left_refs E es b) \<subseteq> set (left_refs F es c)"
proof (induction es arbitrary: b c)
  case (Cons e es)
  let ?j = "unat (el_value e)"
  show ?case
  proof (cases "el_type e = LLAMA_GRETYPE_RULE_REF")
    case True
    then have "\<not> is_end_of_sequence e" by (simp add: is_end_of_sequence_def)
    with True Cons.prems Cons.IH [of "E ?j" "F ?j"] Cons.IH [of False "F ?j"] Cons.IH [of False False]
    show ?thesis by (cases b; cases c) auto
  next
    case False
    with Cons.prems(1) Cons.IH [of "is_end_of_sequence e" "is_end_of_sequence e"] show ?thesis by simp
  qed
qed simp

lemma empty_alternate:
  "seq_ok n c es \<Longrightarrow> has_empty_alternate es b \<Longrightarrow>
   \<exists>k \<in> set (alternates es i b). i \<le> k \<and> is_end_of_sequence (hd (drop (k - i) es))"
proof (induction es arbitrary: c b i)
  case (Cons e es)
  show ?case
  proof (cases "is_end_of_sequence e \<and> b")
    case True
    then show ?thesis by (intro bexI [of _ i]) auto
  next
    case False
    then have h: "has_empty_alternate es (is_end_of_sequence e)" using Cons.prems(2) by (auto split: if_splits)
    then have "es \<noteq> []" by auto
    then obtain c' where "seq_ok n c' es" "el_type e \<noteq> LLAMA_GRETYPE_END"
      using Cons.prems(1) by (auto split: llama_gretype.splits)
    moreover from this obtain k where k: "k \<in> set (alternates es (Suc i) (is_end_of_sequence e))" "Suc i \<le> k"
        "is_end_of_sequence (hd (drop (k - Suc i) es))"
      using Cons.IH [OF _ h] by blast
    moreover have "drop (k - i) (e # es) = drop (k - Suc i) es" using k(2) by (simp add: drop_Cons')
    ultimately show ?thesis
      by (intro bexI [of _ k]) (auto simp: is_end_of_sequence_def)
  qed
qed simp

lemma directly_empty_nullable: "rules_ok rules \<Longrightarrow> i < length rules \<Longrightarrow> directly_empty rules i \<Longrightarrow> nullable rules i"
proof -
  assume ok: "rules_ok rules" "i < length rules" "directly_empty rules i"
  then obtain k where "k \<in> set (alternates (rules ! i) 0 True)" "is_end_of_sequence (hd (drop k (rules ! i)))"
    using empty_alternate [OF rules_okD, of rules i True 0] by (auto simp: directly_empty_def els_def)
  then have "(i, k) \<in> set (rule_alts rules i)" "derives rules (i, k) []"
    using ok(2) by (auto simp: rule_alts_def els_def intro: derives.derives_end)
  then show "nullable rules i" by (auto simp: nullable_def rule_language_def)
qed

lemma left_of_begins: "rules_ok rules \<Longrightarrow> left_of rules j i \<Longrightarrow> begins_with rules j i"
  using left_refs_mono [of "directly_empty rules" "rules ! i" True "nullable rules" True] directly_empty_nullable
    left_of_range unfolding left_of_def begins_with_def by blast

lemma no_left_recursion_check:
  assumes "rules_ok rules" "\<not> left_recursion rules"
  shows "left_recursive rules = Some (Inr False)"
proof -
  have "(begins_with rules)\<^sup>+\<^sup>+ j j" if "(left_of rules)\<^sup>+\<^sup>+ j j" for j
    using that by (rule tranclp.induct)
      (use left_of_begins [OF assms(1)] in \<open>auto intro: tranclp.trancl_into_trancl\<close>)
  then have "\<nexists>j. (left_of rules)\<^sup>+\<^sup>+ j j" using assms(2) unfolding left_recursion_def by blast
  then show ?thesis using left_recursive_result [OF assms(1)] by auto
qed

section \<open>Expansions that do not end\<close>

lemma fold_ro_each:
  "fold_ro f xs s = Some y \<Longrightarrow> (\<And>x s r. x \<in> set xs \<Longrightarrow> f x s = Some r \<Longrightarrow> Q x \<and> (\<exists>v. r = Inr v)) \<Longrightarrow>
   (\<forall>x \<in> set xs. Q x) \<and> (\<exists>v. y = Inr v)"
proof (induction xs arbitrary: s)
  case (Cons x xs)
  obtain r where r: "f x s = Some r" using Cons.prems(1) by (cases "f x s") auto
  then obtain v where v: "r = Inr v" "Q x" using Cons.prems(2) [of x s r] by auto
  then have "(\<forall>x \<in> set xs. Q x) \<and> (\<exists>v. y = Inr v)"
    using Cons.prems r by (intro Cons.IH [of v]) auto
  with v show ?case by simp
qed auto

lemma advance_returns:
  assumes "advance_stack rules s acc = Some y" "rules_ok rules" "stack_ok rules s"
  shows "settles rules s \<and> (\<exists>new. y = Inr new)"
  using assms
proof (induction rule: advance_stack.raw_induct [rotated, consumes 1, case_names step])
  case (step f rules s acc y)
  show ?case
  proof (cases "at_terminal rules s")
    case True
    then have "advance_stack rules s acc = Some (Inr (add_stack s acc))" by (rule advance_terminal [OF step(4)])
    moreover have "y = Inr (add_stack s acc)"
    proof (cases s)
      case (Cons p rest)
      then obtain e es where e: "els rules p = e # es" using ptr_ok_Cons step(4) by (metis stack_ok_simps(2))
      then have "el_type e \<noteq> LLAMA_GRETYPE_RULE_REF" "is_positive_char e \<or> el_type e = LLAMA_GRETYPE_CHAR_NOT \<or> is_token_element e"
        using True Cons by (auto simp: at_terminal_def element_kinds)
      then show ?thesis using step(2) Cons e by simp
    qed (use step(2) in simp)
    ultimately show ?thesis using True by (simp add: settles.settles_terminal)
  next
    case False
    then obtain p rest where s: "s = p # rest" by (cases s) (auto simp: at_terminal_def)
    then obtain e es where e: "els rules p = e # es" using ptr_ok_Cons step(4) by (metis stack_ok_simps(2))
    have ref: "el_type (hd (els rules p)) = LLAMA_GRETYPE_RULE_REF"
      using False s step(4) stack_kinds [of rules p] by (auto simp: at_terminal_def)
    have "fold_ro (f rules) (successors rules p rest) acc = Some y"
      using step(2) e s ref alternates_loop_successors [OF step(3) step(4) [unfolded s] ref refl, of "f rules" acc]
      by (simp add: Let_def)
    then have "(\<forall>s' \<in> set (successors rules p rest). settles rules s') \<and> (\<exists>new. y = Inr new)"
      by (rule fold_ro_each) (use step(1,3) successors_ok [OF step(3) step(4) [unfolded s] ref] in blast)
    then show ?thesis using settles.settles_ref [OF ref, of rest] s by blast
  qed
qed

text \<open>
  The grammar \<open>root ::= d root "x" | "y"\<close> with \<open>d ::= "z"?\<close>. The parser turns the question mark into
  a rule of its own, so \<open>d\<close> has no empty alternate itself and the check does not look behind it.
\<close>

definition hidden_rules :: llama_grammar_rules where
  "hidden_rules =
    [[\<lparr>el_type = LLAMA_GRETYPE_RULE_REF, el_value = 1\<rparr>, \<lparr>el_type = LLAMA_GRETYPE_RULE_REF, el_value = 0\<rparr>,
      \<lparr>el_type = LLAMA_GRETYPE_CHAR, el_value = 0x78\<rparr>, \<lparr>el_type = LLAMA_GRETYPE_ALT, el_value = 0\<rparr>,
      \<lparr>el_type = LLAMA_GRETYPE_CHAR, el_value = 0x79\<rparr>, \<lparr>el_type = LLAMA_GRETYPE_END, el_value = 0\<rparr>],
     [\<lparr>el_type = LLAMA_GRETYPE_RULE_REF, el_value = 2\<rparr>, \<lparr>el_type = LLAMA_GRETYPE_END, el_value = 0\<rparr>],
     [\<lparr>el_type = LLAMA_GRETYPE_CHAR, el_value = 0x7A\<rparr>, \<lparr>el_type = LLAMA_GRETYPE_ALT, el_value = 0\<rparr>,
      \<lparr>el_type = LLAMA_GRETYPE_END, el_value = 0\<rparr>]]"

lemma hidden_successors:
  "(1, 0) # (0, 1) # rest \<in> set (successors hidden_rules (0, 0) rest)"
  "(0, 1) # rest \<in> set (successors hidden_rules (1, 0) ((0, 1) # rest))"
  "(0, 0) # (0, 2) # rest \<in> set (successors hidden_rules (0, 1) rest)"
  by (simp_all add: hidden_rules_def successors_def rule_alts_def push_def els_def ptr_add_def is_end_of_sequence_def)

lemma hidden_loops:
  "settles hidden_rules s \<Longrightarrow> \<nexists>rest. s = (0, 0) # rest \<or> s = (1, 0) # (0, 1) # rest \<or> s = (0, 1) # rest"
proof (induction rule: settles.induct)
  case (settles_terminal s)
  then show ?case
    by (auto simp: at_terminal_def els_def hidden_rules_def element_kinds)
next
  case (settles_ref p rest)
  then show ?case using hidden_successors by blast
qed

lemma hidden_check: "rules_ok hidden_rules" "left_recursive hidden_rules = Some (Inr False)"
  "\<not> empties_closed hidden_rules"
  by (simp_all add: rules_ok_def empties_closed_def rule_alts_def directly_empty_def hidden_rules_def grammar_eval
        less_Suc_eq ex_disj_distrib cong: weak_congs)

lemma hidden_advance: "advance_stack hidden_rules ((0, 0) # rest) acc = None" if "stack_ok hidden_rules rest"
proof (rule ccontr)
  assume "advance_stack hidden_rules ((0, 0) # rest) acc \<noteq> None"
  then obtain y where "advance_stack hidden_rules ((0, 0) # rest) acc = Some y" by blast
  moreover have "stack_ok hidden_rules ((0, 0) # rest)"
    using that by (simp add: ptr_ok_def els_def hidden_rules_def is_end_of_sequence_def)
  ultimately show False using advance_returns hidden_check(1) hidden_loops by blast
qed

end
