(* ===== verification/GrammarState.thy ===== *)
theory GrammarState
  imports GrammarCheck
begin

text \<open>
  A grammar in use (\<open>struct llama_grammar\<close> of \<open>src/llama-grammar.h\<close>): initialization from rules,
  the candidates a grammar rejects, the masking of the logits, and the acceptance of a sampled token
  with lazy grammars that wait for a trigger. The vocabulary, the construction of a regular expression
  (which throws for a text that is none) and the search of a trigger pattern are parameters.
\<close>

section \<open>The state\<close>

record llama_vocab =
  vocab_token_to_piece :: "llama_token \<Rightarrow> bytes"
  vocab_is_eog :: "llama_token \<Rightarrow> bool"
  vocab_tokenize :: "bytes \<Rightarrow> llama_token list"

record 'p llama_grammar_trigger_pattern =
  tp_pattern :: bytes
  tp_regex :: 'p

record 'p llama_grammar =
  gr_vocab :: "llama_vocab option"
  gr_rules :: llama_grammar_rules
  gr_stacks :: llama_grammar_stacks
  gr_partial_utf8 :: llama_partial_utf8
  gr_lazy :: bool
  gr_awaiting_trigger :: bool
  gr_trigger_buffer :: bytes
  gr_trigger_buffer_positions :: "(llama_token \<times> nat \<times> nat) list"
  gr_trigger_tokens :: "llama_token list"
  gr_trigger_patterns :: "'p llama_grammar_trigger_pattern list"

section \<open>Initialization\<close>

fun copy_rule :: "llama_grammar_element list \<Rightarrow> llama_grammar_rule res" where
  "copy_rule [] = Inl oob"
| "copy_rule (e # es) =
    (if el_type e = LLAMA_GRETYPE_END then Inr [\<lparr>el_type = LLAMA_GRETYPE_END, el_value = 0\<rparr>]
     else bind_res (copy_rule es) (\<lambda>rule. Inr (e # rule)))"

fun copy_rules :: "llama_grammar_rules \<Rightarrow> llama_grammar_rules res" where
  "copy_rules [] = Inr []"
| "copy_rules (r # rs) =
    bind_res (copy_rule r) (\<lambda>rule. bind_res (copy_rules rs) (\<lambda>rules. Inr (rule # rules)))"

definition start_stacks :: "llama_grammar_rules \<Rightarrow> nat \<Rightarrow> llama_grammar_stacks res option" where
  "start_stacks rules start_rule_index =
    alternates_loop
      (\<lambda>i stacks. bind_ro (Some (push_unless_end rules (start_rule_index, i) [])) (\<lambda>stack.
         advance_stack rules stack stacks))
      (els rules (start_rule_index, 0)) 0 True []"

text \<open>
  The triggers come as arrays with their sizes; \<^term>\<open>None\<close> is a null pointer, which the loops assert
  against when there is something to read. \<open>mk_regex\<close> is the constructor of \<open>std::regex\<close>, \<^term>\<open>None\<close> its
  exception \<open>regex_error\<close>.
\<close>

fun array_at :: "string \<Rightarrow> 'a list option \<Rightarrow> nat \<Rightarrow> 'a res" where
  "array_at name None i = Inl (Ggml_assert (name @ '' != nullptr''))"
| "array_at name (Some xs) i = (if i < length xs then Inr (xs ! i) else Inl (Out_of_bounds name))"

fun init_trigger_tokens :: "llama_token list option \<Rightarrow> nat list \<Rightarrow> llama_token list res" where
  "init_trigger_tokens trigger_tokens [] = Inr []"
| "init_trigger_tokens trigger_tokens (i # is) =
    bind_res (array_at ''trigger_tokens'' trigger_tokens i) (\<lambda>token.
    bind_res (init_trigger_tokens trigger_tokens is) (\<lambda>tokens. Inr (token # tokens)))"

fun init_trigger_patterns ::
    "(bytes \<Rightarrow> 'p option) \<Rightarrow> bytes list option \<Rightarrow> nat list \<Rightarrow> 'p llama_grammar_trigger_pattern list res" where
  "init_trigger_patterns mk_regex trigger_patterns [] = Inr []"
| "init_trigger_patterns mk_regex trigger_patterns (i # is) =
    bind_res (array_at ''trigger_patterns'' trigger_patterns i) (\<lambda>pattern.
      case mk_regex pattern of
        None \<Rightarrow> Inl (Runtime_error ''regex_error'')
      | Some regex \<Rightarrow>
          bind_res (init_trigger_patterns mk_regex trigger_patterns is) (\<lambda>patterns.
            Inr (\<lparr>tp_pattern = pattern, tp_regex = regex\<rparr> # patterns)))"

text \<open>The inner \<^term>\<open>None\<close> is \<open>nullptr\<close>: left recursion was detected.\<close>

definition grammar_init ::
    "(bytes \<Rightarrow> 'p option) \<Rightarrow> llama_vocab option \<Rightarrow> llama_grammar_rules \<Rightarrow> nat \<Rightarrow> bool \<Rightarrow>
     bytes list option \<Rightarrow> nat \<Rightarrow> llama_token list option \<Rightarrow> nat \<Rightarrow> 'p llama_grammar option res option" where
  "grammar_init mk_regex vocab rules start_rule_index lazy
      trigger_patterns num_trigger_patterns trigger_tokens num_trigger_tokens =
    bind_ro (Some (copy_rules rules)) (\<lambda>vec_rules.
    bind_ro (left_recursive vec_rules) (\<lambda>found.
      if found then Some (Inr None)
      else bind_ro (start_stacks vec_rules start_rule_index) (\<lambda>stacks.
        bind_ro (Some (init_trigger_tokens trigger_tokens [0..<num_trigger_tokens])) (\<lambda>vec_trigger_tokens.
        bind_ro (Some (init_trigger_patterns mk_regex trigger_patterns [0..<num_trigger_patterns])) (\<lambda>vec_trigger_patterns.
        Some (Inr (Some
          \<lparr>gr_vocab = vocab, gr_rules = vec_rules, gr_stacks = stacks,
           gr_partial_utf8 = \<lparr>pu_value = 0, pu_n_remain = 0\<rparr>,
           gr_lazy = lazy, gr_awaiting_trigger = lazy,
           gr_trigger_buffer = [], gr_trigger_buffer_positions = [],
           gr_trigger_tokens = vec_trigger_tokens, gr_trigger_patterns = vec_trigger_patterns\<rparr>)))))))"

text \<open>The initialization from given elements: neither lazy nor triggered.\<close>

definition grammar_init_elements ::
    "llama_vocab option \<Rightarrow> llama_grammar_rules \<Rightarrow> nat \<Rightarrow> 'p llama_grammar option res option" where
  "grammar_init_elements vocab rules start_rule_index =
    bind_ro (Some (copy_rules rules)) (\<lambda>vec_rules.
    bind_ro (left_recursive vec_rules) (\<lambda>found.
      if found then Some (Inr None)
      else bind_ro (start_stacks vec_rules start_rule_index) (\<lambda>stacks.
        Some (Inr (Some
          \<lparr>gr_vocab = vocab, gr_rules = vec_rules, gr_stacks = stacks,
           gr_partial_utf8 = \<lparr>pu_value = 0, pu_n_remain = 0\<rparr>,
           gr_lazy = False, gr_awaiting_trigger = False,
           gr_trigger_buffer = [], gr_trigger_buffer_positions = [],
           gr_trigger_tokens = [], gr_trigger_patterns = []\<rparr>)))))"

text \<open>
  The copy of a grammar: every pointer of the stacks that equals the address of an element of the
  old rules is set to the address of this element in the new rules.
\<close>

definition redirect :: "llama_grammar_rules \<Rightarrow> element_ptr \<Rightarrow> element_ptr" where
  "redirect rules p =
    fold (\<lambda>ir0. fold (\<lambda>ir1 q. if p = (ir0, ir1) then (ir0, ir1) else q) [0..<length (rules ! ir0)])
      [0..<length rules] p"

definition grammar_clone :: "'p llama_grammar \<Rightarrow> 'p llama_grammar" where
  "grammar_clone g = g\<lparr>gr_stacks := map (map (redirect (gr_rules g))) (gr_stacks g)\<rparr>"

section \<open>Accepting text\<close>

definition grammar_accept :: "code_point \<Rightarrow> 'p llama_grammar \<Rightarrow> 'p llama_grammar res option" where
  "grammar_accept chr g =
    bind_ro (accept_stacks (gr_rules g) chr (gr_stacks g)) (\<lambda>stacks. Some (Inr (g\<lparr>gr_stacks := stacks\<rparr>)))"

definition accept_str :: "'p llama_grammar \<Rightarrow> bytes \<Rightarrow> 'p llama_grammar res option" where
  "accept_str g piece =
    (case decode_utf8 piece (gr_partial_utf8 g) of (code_points, partial) \<Rightarrow>
       bind_ro (fold_ro grammar_accept (butlast code_points) g) (\<lambda>g1.
         let g2 = g1\<lparr>gr_partial_utf8 := partial\<rparr>
         in if gr_stacks g2 = [] then
              Some (Inl (Runtime_error ''Unexpected empty grammar stack after accepting piece''))
            else Some (Inr g2)))"

text \<open>The loop over the code points of a token, which stops when no stack survives.\<close>

fun token_chars :: "llama_grammar_rules \<Rightarrow> code_point list \<Rightarrow> llama_grammar_stacks \<Rightarrow> llama_grammar_stacks res option" where
  "token_chars rules [] current_stacks = Some (Inr current_stacks)"
| "token_chars rules (c # cs) current_stacks =
    bind_ro (accept_stacks rules c current_stacks) (\<lambda>next_stacks.
      if next_stacks = [] then Some (Inr next_stacks) else token_chars rules cs next_stacks)"

definition token_stack ::
    "llama_grammar_rules \<Rightarrow> llama_token \<Rightarrow> code_point list \<Rightarrow> llama_grammar_stack \<Rightarrow> llama_grammar_stacks \<Rightarrow>
     llama_grammar_stacks res option" where
  "token_stack rules token code_points stack stacks_new =
    (case stack of
       [] \<Rightarrow> Some (Inr stacks_new)
     | pos # rest \<Rightarrow>
         (case els rules pos of
            [] \<Rightarrow> Some (Inl oob)
          | e # _ \<Rightarrow>
              if is_token_element e then
                bind_ro (Some (match_token rules pos token)) (\<lambda>ok.
                  if ok then
                    bind_ro (Some (push_unless_end rules (ptr_add pos 1) rest)) (\<lambda>new_stack.
                      advance_stack rules new_stack stacks_new)
                  else Some (Inr stacks_new))
              else
                bind_ro (token_chars rules (butlast code_points) [stack]) (\<lambda>current_stacks.
                  Some (Inr (fold add_stack current_stacks stacks_new)))))"

definition accept_token :: "'p llama_grammar \<Rightarrow> llama_token \<Rightarrow> bytes \<Rightarrow> 'p llama_grammar res option" where
  "accept_token g token piece =
    (case decode_utf8 piece (gr_partial_utf8 g) of (code_points, partial) \<Rightarrow>
       bind_ro (fold_ro (token_stack (gr_rules g) token code_points) (gr_stacks g) []) (\<lambda>stacks_new.
         if stacks_new = [] then
           Some (Inl (Runtime_error ''Unexpected empty grammar stack after accepting piece''))
         else Some (Inr (g\<lparr>gr_stacks := stacks_new, gr_partial_utf8 := partial\<rparr>))))"

text \<open>The replay of the buffered tokens that reach behind the start of the trigger.\<close>

fun replay :: "nat \<Rightarrow> (llama_token \<times> nat \<times> nat) list \<Rightarrow> 'p llama_grammar \<Rightarrow> 'p llama_grammar res option" where
  "replay start [] g = Some (Inr g)"
| "replay start ((tok, tok_start, tok_end) # ps) g =
    (if tok_end \<le> start then replay start ps g
     else let piece_start = (if tok_start < start then start else tok_start);
              tok_piece = take (tok_end - piece_start) (drop piece_start (gr_trigger_buffer g))
          in bind_ro (accept_token g tok tok_piece) (replay start ps))"

definition accept_impl ::
    "('p llama_grammar_trigger_pattern \<Rightarrow> bytes \<Rightarrow> nat option) \<Rightarrow> 'p llama_grammar \<Rightarrow> llama_token \<Rightarrow> 'p llama_grammar res option" where
  "accept_impl find_trigger g token =
    (case gr_vocab g of
       None \<Rightarrow> Some (Inl (Ggml_assert ''grammar.vocab != nullptr''))
     | Some vocab \<Rightarrow>
         let piece = vocab_token_to_piece vocab token
         in if gr_awaiting_trigger g then
              (if token \<in> set (gr_trigger_tokens g) then
                 accept_token (g\<lparr>gr_awaiting_trigger := False, gr_trigger_buffer := []\<rparr>) token piece
               else
                 let n = length (gr_trigger_buffer g);
                     g1 = g\<lparr>gr_trigger_buffer_positions := gr_trigger_buffer_positions g @ [(token, n, n + length piece)],
                            gr_trigger_buffer := gr_trigger_buffer g @ piece\<rparr>
                 in case find (\<lambda>start. start \<noteq> None)
                           (map (\<lambda>pattern. find_trigger pattern (gr_trigger_buffer g1)) (gr_trigger_patterns g1)) of
                      Some (Some start) \<Rightarrow>
                        bind_ro (replay start (gr_trigger_buffer_positions g1) (g1\<lparr>gr_awaiting_trigger := False\<rparr>)) (\<lambda>g2.
                          Some (Inr (g2\<lparr>gr_trigger_buffer := [], gr_trigger_buffer_positions := []\<rparr>)))
                    | _ \<Rightarrow> Some (Inr g1))
            else if vocab_is_eog vocab token then
              (if [] \<in> set (gr_stacks g) then Some (Inr g) else Some (Inl (Ggml_abort ''fatal error'')))
            else accept_token g token piece)"

section \<open>Rejecting candidates\<close>

record llama_grammar_candidate =
  cand_index :: nat
  cand_code_points :: "code_point list"
  cand_off :: nat
  cand_partial :: llama_partial_utf8
  cand_id :: llama_token

text \<open>\<open>*tok.code_points\<close>, and the pointer moved on and back.\<close>

definition cand_cp :: "llama_grammar_candidate \<Rightarrow> code_point res" where
  "cand_cp tok =
    (if cand_off tok < length (cand_code_points tok) then Inr (cand_code_points tok ! cand_off tok)
     else Inl (Out_of_bounds ''code_points''))"

definition cand_next :: "llama_grammar_candidate \<Rightarrow> llama_grammar_candidate" where
  "cand_next tok = tok\<lparr>cand_off := cand_off tok + 1\<rparr>"

definition cand_prev :: "llama_grammar_candidate \<Rightarrow> llama_grammar_candidate" where
  "cand_prev tok = tok\<lparr>cand_off := cand_off tok - 1\<rparr>"

fun filter_res :: "('a \<Rightarrow> bool res) \<Rightarrow> 'a list \<Rightarrow> 'a list res" where
  "filter_res f [] = Inr []"
| "filter_res f (x # xs) =
    bind_res (f x) (\<lambda>b. bind_res (filter_res f xs) (\<lambda>ys. Inr (if b then x # ys else ys)))"

definition reject_at_end :: "llama_grammar_candidate \<Rightarrow> bool res" where
  "reject_at_end tok = bind_res (cand_cp tok) (\<lambda>c. Inr (c \<noteq> 0 \<or> pu_n_remain (cand_partial tok) \<noteq> 0))"

definition reject_at_token :: "llama_grammar_rules \<Rightarrow> element_ptr \<Rightarrow> llama_grammar_candidate \<Rightarrow> bool res" where
  "reject_at_token rules pos tok =
    bind_res (cand_cp tok) (\<lambda>c.
      if c = 0 then Inr (pu_n_remain (cand_partial tok) \<noteq> 0)
      else bind_res (match_token rules pos (cand_id tok)) (\<lambda>ok. Inr (\<not> ok)))"

text \<open>At a character class: \<^term>\<open>None\<close> goes on to the next code point, otherwise whether it is rejected.\<close>

definition test_at_char :: "llama_grammar_rules \<Rightarrow> element_ptr \<Rightarrow> llama_grammar_candidate \<Rightarrow> bool option res" where
  "test_at_char rules pos tok =
    bind_res (cand_cp tok) (\<lambda>c.
      if c = 0 then
        (if pu_n_remain (cand_partial tok) \<noteq> 0 then
           bind_res (match_partial_char rules pos (cand_partial tok)) (\<lambda>ok. Inr (Some (\<not> ok)))
         else Inr (Some False))
      else bind_res (match_char rules pos c) (\<lambda>(ok, _). Inr (if ok then None else Some True)))"

fun split_candidates ::
    "llama_grammar_rules \<Rightarrow> element_ptr \<Rightarrow> llama_grammar_candidate list \<Rightarrow>
     (llama_grammar_candidate list \<times> llama_grammar_candidate list) res" where
  "split_candidates rules pos [] = Inr ([], [])"
| "split_candidates rules pos (tok # toks) =
    bind_res (test_at_char rules pos tok) (\<lambda>t.
    bind_res (split_candidates rules pos toks) (\<lambda>(rejects, next_candidates).
      Inr (case t of
             None \<Rightarrow> (rejects, cand_next tok # next_candidates)
           | Some True \<Rightarrow> (tok # rejects, next_candidates)
           | Some False \<Rightarrow> (rejects, next_candidates))))"

text \<open>\<open>llama_grammar_reject_candidates\<close>, over the function for one stack that it calls.\<close>

definition reject_loop ::
    "(llama_grammar_stack \<Rightarrow> llama_grammar_candidate list \<Rightarrow> llama_grammar_candidate list res option) \<Rightarrow>
     llama_grammar_stacks \<Rightarrow> llama_grammar_candidate list \<Rightarrow> llama_grammar_candidate list res option" where
  "reject_loop f stacks candidates =
    (if stacks = [] then Some (Inl (Ggml_assert ''!stacks.empty()''))
     else if candidates = [] then Some (Inr [])
     else bind_ro (f (hd stacks) candidates) (\<lambda>rejects. fold_ro f (tl stacks) rejects))"

lemma reject_loop_mono [partial_function_mono]:
  assumes "\<And>s c. mono_option (\<lambda>f. g f s c)"
  shows "mono_option (\<lambda>f. reject_loop (g f) stacks candidates)"
  unfolding reject_loop_def by (intro if_mono bind_ro_mono fold_ro_mono assms option.const_mono)

partial_function (option) reject_candidates_for_stack ::
    "llama_grammar_rules \<Rightarrow> llama_grammar_stack \<Rightarrow> llama_grammar_candidate list \<Rightarrow>
     llama_grammar_candidate list res option" where
  [code]: "reject_candidates_for_stack rules stack candidates =
    (case stack of
       [] \<Rightarrow> Some (filter_res reject_at_end candidates)
     | pos # rest \<Rightarrow>
         (case els rules pos of
            [] \<Rightarrow> Some (Inl oob)
          | e # _ \<Rightarrow>
              if is_token_element e then Some (filter_res (reject_at_token rules pos) candidates)
              else
                bind_ro (Some (split_candidates rules pos candidates)) (\<lambda>sp.
                bind_ro (Some (match_char rules pos 0)) (\<lambda>m.
                bind_ro (Some (push_unless_end rules (snd m) rest)) (\<lambda>stack_after.
                bind_ro (advance_stack rules stack_after []) (\<lambda>next_stacks.
                bind_ro (reject_loop (\<lambda>s c. reject_candidates_for_stack rules s c) next_stacks (snd sp)) (\<lambda>next_rejects.
                  Some (Inr (fst sp @ map cand_prev next_rejects)))))))))"

definition reject_candidates ::
    "llama_grammar_rules \<Rightarrow> llama_grammar_stacks \<Rightarrow> llama_grammar_candidate list \<Rightarrow>
     llama_grammar_candidate list res option" where
  "reject_candidates rules = reject_loop (reject_candidates_for_stack rules)"

section \<open>Masking the logits\<close>

record 'f llama_token_data =
  td_id :: llama_token
  td_logit :: 'f
  td_p :: 'f

text \<open>The loop over the candidates of the sampler; \<open>ninf\<close> is \<open>-INFINITY\<close>.\<close>

fun apply_scan ::
    "'f \<Rightarrow> llama_vocab \<Rightarrow> bool \<Rightarrow> llama_partial_utf8 \<Rightarrow> nat \<Rightarrow> 'f llama_token_data list \<Rightarrow>
     'f llama_token_data list \<times> llama_grammar_candidate list" where
  "apply_scan ninf vocab allow_eog partial i [] = ([], [])"
| "apply_scan ninf vocab allow_eog partial i (d # ds) =
    (let piece = vocab_token_to_piece vocab (td_id d);
         (ds', cands) = apply_scan ninf vocab allow_eog partial (i + 1) ds
     in if vocab_is_eog vocab (td_id d) then
          ((if allow_eog then d else d\<lparr>td_logit := ninf\<rparr>) # ds', cands)
        else if piece = [] \<or> hd piece = 0 then (d\<lparr>td_logit := ninf\<rparr> # ds', cands)
        else (d # ds',
              \<lparr>cand_index = i, cand_code_points = fst (decode_utf8 piece partial), cand_off = 0,
               cand_partial = snd (decode_utf8 piece partial), cand_id = td_id d\<rparr> # cands))"

definition mask_logit :: "'f \<Rightarrow> llama_grammar_candidate \<Rightarrow> 'f llama_token_data list \<Rightarrow> 'f llama_token_data list" where
  "mask_logit ninf tok ds = ds[cand_index tok := (ds ! cand_index tok)\<lparr>td_logit := ninf\<rparr>]"

definition apply_impl ::
    "'f \<Rightarrow> 'p llama_grammar \<Rightarrow> 'f llama_token_data list \<Rightarrow> 'f llama_token_data list res option" where
  "apply_impl ninf g cur_p =
    (case gr_vocab g of
       None \<Rightarrow> Some (Inl (Ggml_assert ''grammar.vocab != nullptr''))
     | Some vocab \<Rightarrow>
         if gr_awaiting_trigger g then Some (Inr cur_p)
         else case apply_scan ninf vocab ([] \<in> set (gr_stacks g)) (gr_partial_utf8 g) 0 cur_p of
                (ds, cands) \<Rightarrow>
                  bind_ro (reject_candidates (gr_rules g) (gr_stacks g) cands) (\<lambda>rejects.
                    Some (Inr (fold (mask_logit ninf) rejects ds))))"

section \<open>The language of a grammar in use\<close>

lemma start_stacks_fold:
  assumes "rules_ok rules" "start < length rules"
  shows "start_stacks rules start =
    fold_ro (\<lambda>a. advance_stack rules (push rules a [])) (rule_alts rules start) []"
  unfolding start_stacks_def alternates_loop_fold [OF rules_okD [OF assms]] rule_alts_def fold_ro_map
  by (intro fold_ro_cong) (simp add: push_unless_end_ok rule_alts_ok [OF assms] rule_alts_def)

lemma start_stacks_result:
  assumes "settled rules" "start < length rules"
  shows "\<exists>stacks. start_stacks rules start = Some (Inr stacks) \<and> stacks_ok rules stacks \<and> distinct stacks \<and> stacks \<noteq> [] \<and>
    (\<forall>w. (\<exists>s \<in> set stacks. stack_derives rules s w) \<longleftrightarrow> w \<in> rule_language rules start)"
proof -
  have ok: "rules_ok rules" using assms(1) by (simp add: settled_def)
  let ?A = "\<lambda>a. {t. expand rules (push rules a []) t}"
  have a: "ptr_ok rules a" if "a \<in> set (rule_alts rules start)" for a
    using rule_alts_ok [OF ok assms(2) that] .
  note start_stacks_fold [OF ok assms(2)]
  moreover have "adds (fold_ro (\<lambda>a. advance_stack rules (push rules a [])) (rule_alts rules start))
      (\<Union>a \<in> set (rule_alts rules start). ?A a)"
    by (intro adds_fold advance_total [OF assms(1)]) (simp add: a)
  ultimately obtain stacks where st: "start_stacks rules start = Some (Inr stacks)" "distinct stacks"
      "set stacks = (\<Union>a \<in> set (rule_alts rules start). ?A a)"
    using addsD [where acc = "[]"] by fastforce
  have "stacks_ok rules stacks"
    using st(3) a expand_ok [OF _ ok] expand_at_terminal unfolding stacks_ok_def by fastforce
  moreover have "stacks \<noteq> []"
  proof -
    obtain b where b: "b \<in> set (rule_alts rules start)"
      using rule_alts_nonempty [OF ok assms(2)] by (meson list.set_sel(1))
    then obtain t where "expand rules (push rules b []) t"
      using expand_exists [of rules "push rules b []"] assms(1) a [OF b] by (auto simp: settled_def)
    then show ?thesis using st(3) b by auto
  qed
  moreover have "(\<exists>s \<in> set stacks. stack_derives rules s w) \<longleftrightarrow> w \<in> rule_language rules start" for w
  proof -
    have "(\<exists>s \<in> set stacks. stack_derives rules s w) \<longleftrightarrow>
        (\<exists>b \<in> set (rule_alts rules start). \<exists>t. expand rules (push rules b []) t \<and> stack_derives rules t w)"
      using st(3) by auto
    also have "\<dots> \<longleftrightarrow> (\<exists>b \<in> set (rule_alts rules start). stack_derives rules (push rules b []) w)"
      using a by (intro bex_cong refl expand_language) simp
    finally show ?thesis by (simp add: rule_language_def push_derives)
  qed
  ultimately show ?thesis using st by blast
qed

lemma fold_grammar_accept:
  "fold_ro grammar_accept cps g =
   bind_ro (accept_text (gr_rules g) cps (gr_stacks g)) (\<lambda>stacks. Some (Inr (g\<lparr>gr_stacks := stacks\<rparr>)))"
proof (induction cps arbitrary: g)
  case (Cons c cps)
  show ?case
    using Cons.IH by (simp add: grammar_accept_def [of c] accept_text_def bind_ro_assoc)
qed (simp add: accept_text_def)

text \<open>The initialization of rules without left recursion, with triggers that are there and compile.\<close>

lemma grammar_init_result:
  assumes "copy_rules rules = Inr vec" "rules_ok vec" "\<not> left_recursion vec" "start < length vec"
    and "init_trigger_tokens toks [0..<n_toks] = Inr tokens"
    and "init_trigger_patterns mk_regex pats [0..<n_pats] = Inr patterns"
  shows "\<exists>g. grammar_init mk_regex vocab rules start lazy pats n_pats toks n_toks = Some (Inr (Some g)) \<and> settled (gr_rules g) \<and>
    gr_rules g = vec \<and> gr_vocab g = vocab \<and> gr_awaiting_trigger g = lazy \<and>
    gr_partial_utf8 g = \<lparr>pu_value = 0, pu_n_remain = 0\<rparr> \<and>
    stacks_ok vec (gr_stacks g) \<and> gr_stacks g \<noteq> [] \<and>
    (\<forall>w. (\<exists>s \<in> set (gr_stacks g). stack_derives vec s w) \<longleftrightarrow> w \<in> rule_language vec start)"
proof -
  have "settled vec" by (rule no_left_recursion_settles [OF assms(2,3)])
  with start_stacks_result [OF this assms(4)] no_left_recursion_check [OF assms(2,3)] assms show ?thesis
    by (auto simp: grammar_init_def)
qed

text \<open>C5. A grammar with well-formed rules and without left recursion accepts exactly its language: its
  initialization returns, after a text (of code points that have an encoding and are not zero) the end is allowed
  iff the text is a sentence, and the text is refused only if no sentence begins with it. Without left recursion
  means that no rule may begin with itself, when the rules whose language has the empty text are skipped; such a
  grammar passes the check, and the converse fails for emptiness through references. The triggers are given and
  their patterns compile.\<close>

theorem grammar_accepts_language:
  assumes "copy_rules rules = Inr vec" "rules_ok vec" "\<not> left_recursion vec" "start < length vec"
    and "init_trigger_tokens toks [0..<n_toks] = Inr tokens"
    and "init_trigger_patterns mk_regex pats [0..<n_pats] = Inr patterns"
    and "unicode_cpts_to_utf8 w = Inr piece" "0 \<notin> set w"
  shows "\<exists>g. grammar_init mk_regex vocab rules start lazy pats n_pats toks n_toks = Some (Inr (Some g)) \<and>
    (case accept_str g piece of
       None \<Rightarrow> False
     | Some (Inl _) \<Rightarrow> (\<nexists>v. w @ v \<in> rule_language vec start)
     | Some (Inr g') \<Rightarrow> [] \<in> set (gr_stacks g') \<longleftrightarrow> w \<in> rule_language vec start)"
proof -
  obtain g where g: "grammar_init mk_regex vocab rules start lazy pats n_pats toks n_toks = Some (Inr (Some g))"
      "settled vec" "gr_rules g = vec" "gr_partial_utf8 g = \<lparr>pu_value = 0, pu_n_remain = 0\<rparr>" "stacks_ok vec (gr_stacks g)"
      "\<And>u. (\<exists>s \<in> set (gr_stacks g). stack_derives vec s u) \<longleftrightarrow> u \<in> rule_language vec start"
    using grammar_init_result [OF assms(1-6), of vocab lazy] by blast
  obtain x where dec: "decode_utf8 piece (gr_partial_utf8 g) = (w @ [0], \<lparr>pu_value = x, pu_n_remain = 0\<rparr>)"
    using decode_encoded_all [OF assms(7,8), of "[]" 0] g(4) by (auto simp: decode_utf8_def)
  obtain new where new: "accept_text vec w (gr_stacks g) = Some (Inr new)" "stacks_ok vec new"
      "\<And>v. (\<exists>s \<in> set new. stack_derives vec s v) \<longleftrightarrow> w @ v \<in> rule_language vec start"
    using accept_text_language [OF g(2,5), of w] g(6) by auto
  have empty: "[] \<in> set new \<longleftrightarrow> w \<in> rule_language vec start"
    using new(2) new(3) [of "[]"] terminal_derives_Nil by (auto simp: stacks_ok_def)
  have "new = [] \<Longrightarrow> \<nexists>v. w @ v \<in> rule_language vec start"
    using new(3) by simp
  with g(1,3) dec new(1) empty show ?thesis
    by (simp add: accept_str_def fold_grammar_accept Let_def)
qed

text \<open>The witness: \<open>root ::= "a"*\<close>, where the rule \<open>root\<close> is empty only through the rule of the
  repetition, and the text \<open>aa\<close>, with one trigger of each kind.\<close>

definition star_rules :: llama_grammar_rules where
  "star_rules =
    [[\<lparr>el_type = LLAMA_GRETYPE_RULE_REF, el_value = 1\<rparr>, \<lparr>el_type = LLAMA_GRETYPE_END, el_value = 0\<rparr>],
     [\<lparr>el_type = LLAMA_GRETYPE_CHAR, el_value = 0x61\<rparr>, \<lparr>el_type = LLAMA_GRETYPE_RULE_REF, el_value = 1\<rparr>,
      \<lparr>el_type = LLAMA_GRETYPE_ALT, el_value = 0\<rparr>, \<lparr>el_type = LLAMA_GRETYPE_END, el_value = 0\<rparr>]]"

text \<open>A strict order of the rules that every leftmost reference descends rules out left recursion.\<close>

lemma no_left_recursionI:
  assumes "\<And>i j. i < length rules \<Longrightarrow> j \<in> set (left_refs (nullable rules) (rules ! i) True) \<Longrightarrow> i < j"
  shows "\<not> left_recursion rules"
proof -
  have "i < j" if "(begins_with rules)\<^sup>+\<^sup>+ j i" for i j
    using that by (induction rule: tranclp_induct) (auto simp: begins_with_def intro: assms less_trans)
  then show ?thesis unfolding left_recursion_def by blast
qed

lemma star_check: "rules_ok star_rules" "copy_rules star_rules = Inr star_rules" "\<not> left_recursion star_rules"
  "\<not> empties_closed star_rules"
proof -
  show "\<not> left_recursion star_rules"
    by (rule no_left_recursionI) (auto simp: star_rules_def less_Suc_eq is_end_of_sequence_def split: if_splits)
qed (simp_all add: rules_ok_def empties_closed_def rule_alts_def directly_empty_def star_rules_def grammar_eval
        less_Suc_eq ex_disj_distrib cong: weak_congs)

theorem grammar_accepts_language_witness:
  "\<exists>g. grammar_init (\<lambda>p. Some (length p)) None star_rules 0 True (Some [[0x78]]) 1 (Some [7]) 1 = Some (Inr (Some g)) \<and>
    (case accept_str g [0x61, 0x61] of
       None \<Rightarrow> False
     | Some (Inl _) \<Rightarrow> (\<nexists>v. [0x61, 0x61] @ v \<in> rule_language star_rules 0)
     | Some (Inr g') \<Rightarrow> [] \<in> set (gr_stacks g') \<longleftrightarrow> [0x61, 0x61] \<in> rule_language star_rules 0)"
proof (rule grammar_accepts_language [OF star_check(2,1,3), where piece = "[0x61, 0x61]"])
  show "0 < length star_rules" by (simp add: star_rules_def)
  show "unicode_cpts_to_utf8 [0x61, 0x61] = Inr [0x61, 0x61]" by code_simp
  show "init_trigger_tokens (Some [7]) [0..<1] = Inr [7]" by simp
  show "init_trigger_patterns (\<lambda>p. Some (length p)) (Some [[0x78]]) [0..<1] = Inr [\<lparr>tp_pattern = [0x78], tp_regex = 1\<rparr>]"
    by simp
qed simp

text \<open>The grammar \<open>root ::= [a-z] root | "."\<close>.\<close>

definition letters_rules :: llama_grammar_rules where
  "letters_rules =
    [[\<lparr>el_type = LLAMA_GRETYPE_CHAR, el_value = 0x61\<rparr>, \<lparr>el_type = LLAMA_GRETYPE_CHAR_RNG_UPPER, el_value = 0x7A\<rparr>,
      \<lparr>el_type = LLAMA_GRETYPE_RULE_REF, el_value = 0\<rparr>, \<lparr>el_type = LLAMA_GRETYPE_ALT, el_value = 0\<rparr>,
      \<lparr>el_type = LLAMA_GRETYPE_CHAR, el_value = 0x2E\<rparr>, \<lparr>el_type = LLAMA_GRETYPE_END, el_value = 0\<rparr>]]"

section \<open>Rejection and acceptance agree\<close>

text \<open>When a candidate gets past a stack, by its remaining code points.\<close>

definition passes_end :: "llama_grammar_rules \<Rightarrow> llama_partial_utf8 \<Rightarrow> llama_grammar_stack \<Rightarrow> bool" where
  "passes_end rules partial s \<longleftrightarrow> pu_n_remain partial = 0 \<or>
    (s \<noteq> [] \<and> is_class_start (hd (els rules (hd s))) \<and> match_partial_char rules (hd s) partial = Inr True)"

fun passes :: "llama_grammar_rules \<Rightarrow> llama_partial_utf8 \<Rightarrow> llama_token \<Rightarrow> code_point list \<Rightarrow> llama_grammar_stack \<Rightarrow> bool" where
  "passes rules partial tok [] s = False"
| "passes rules partial tok (c # cs) s \<longleftrightarrow>
    (if c = 0 then passes_end rules partial s
     else if s \<noteq> [] \<and> is_token_element (hd (els rules (hd s))) then match_token rules (hd s) tok = Inr True
     else (\<exists>t \<in> accepted rules c s. passes rules partial tok cs t))"

definition cand_rest :: "llama_grammar_candidate \<Rightarrow> code_point list" where
  "cand_rest tok = drop (cand_off tok) (cand_code_points tok)"

abbreviation cand_passes :: "llama_grammar_rules \<Rightarrow> llama_grammar_stack \<Rightarrow> llama_grammar_candidate \<Rightarrow> bool" where
  "cand_passes rules s tok \<equiv> passes rules (cand_partial tok) (cand_id tok) (cand_rest tok) s"

text \<open>The code points of a candidate end with a zero, and the pointer is not behind it.\<close>

definition cand_ok :: "llama_grammar_candidate \<Rightarrow> bool" where
  "cand_ok tok \<longleftrightarrow> cand_rest tok \<noteq> [] \<and> last (cand_rest tok) = 0"

lemma cand_cp_rest: "cand_ok tok \<Longrightarrow> cand_cp tok = Inr (hd (cand_rest tok))"
  by (auto simp: cand_ok_def cand_cp_def cand_rest_def hd_drop_conv_nth)

lemma cand_rest_next: "cand_rest (cand_next tok) = tl (cand_rest tok)"
  by (simp add: cand_rest_def cand_next_def drop_Suc tl_drop)

lemma cand_next_ok: "cand_ok tok \<Longrightarrow> hd (cand_rest tok) \<noteq> 0 \<Longrightarrow> cand_ok (cand_next tok)"
  unfolding cand_ok_def cand_rest_next by (cases "cand_rest tok") (auto split: if_splits)

lemma cand_prev_next [simp]: "cand_prev (cand_next tok) = tok"
  by (simp add: cand_prev_def cand_next_def)

lemma cand_next_simps [simp]: "cand_partial (cand_next tok) = cand_partial tok" "cand_id (cand_next tok) = cand_id tok"
  by (simp_all add: cand_next_def)

lemma filter_res_filter:
  "(\<And>x. x \<in> set xs \<Longrightarrow> f x = Inr (P x)) \<Longrightarrow> filter_res f xs = Inr (filter P xs)"
  by (induction xs) auto

lemma match_partial_total:
  assumes "ptr_ok rules p" "is_class_start (hd (els rules p))"
  shows "\<exists>b. match_partial_char rules p partial = Inr b"
proof -
  have loop: "\<exists>b. match_partial_loop es low high pos = Inr b" if "seq_ok k 1 (tl es)" "es \<noteq> []" for k es low high pos
    using that
  proof (induction es low high pos rule: match_partial_loop.induct)
    case (1 e u es low high pos)
    show ?case
    proof (cases "el_type u = LLAMA_GRETYPE_CHAR_RNG_UPPER")
      case True
      then obtain a es' where es: "es = a # es'" "seq_ok k 2 (a # es')" using 1(3) by (cases es) auto
      then have "el_type a = LLAMA_GRETYPE_CHAR_ALT \<Longrightarrow> seq_ok k 1 es'" by simp
      then show ?thesis using 1(1) [OF True _ es(1)] True es(1) by auto
    next
      case False
      have "el_type u = LLAMA_GRETYPE_CHAR_ALT \<Longrightarrow> seq_ok k 1 es" using 1(3) by simp
      then show ?thesis using 1(2) [OF False] False by auto
    qed
  qed auto
  have ok: "els rules p \<noteq> []" "seq_ok (length rules) 1 (tl (els rules p))"
    using assms char_seq_ok unfolding ptr_ok_def by blast+
  then obtain e es where e: "els rules p = e # es" by (cases "els rules p") auto
  obtain b where "match_partial_loop (els rules p) (partial_low partial) (partial_high partial) (is_positive_char e) = Inr b"
    using loop [OF ok(2,1)] by blast
  with assms(2) e show ?thesis by (auto simp: match_partial_char_def is_class_start_def)
qed

lemma test_at_char_result:
  assumes "ptr_ok rules p" "is_class_start (hd (els rules p))" "cand_ok tok"
  shows "test_at_char rules p tok = Inr
    (if hd (cand_rest tok) = 0 then Some (\<not> passes_end rules (cand_partial tok) (p # rest))
     else if in_class (els rules p) (hd (cand_rest tok)) then None else Some True)"
proof -
  obtain b where "match_partial_char rules p (cand_partial tok) = Inr b"
    using match_partial_total [OF assms(1,2)] by blast
  then show ?thesis
    using assms(2) match_char_class [OF assms(1,2)]
    by (simp add: test_at_char_def cand_cp_rest [OF assms(3)] passes_end_def)
qed

text \<open>Splitting the candidates at a class: the rejected ones and those that go on, one code point further.\<close>

lemma split_candidates_result:
  assumes "ptr_ok rules p" "is_class_start (hd (els rules p))" "\<And>tok. tok \<in> set toks \<Longrightarrow> cand_ok tok"
  defines "cls \<equiv> \<lambda>tok. hd (cand_rest tok) \<noteq> 0 \<and> in_class (els rules p) (hd (cand_rest tok))"
  shows "split_candidates rules p toks = Inr
    (filter (\<lambda>tok. \<not> cls tok \<and> \<not> (hd (cand_rest tok) = 0 \<and> passes_end rules (cand_partial tok) (p # rest))) toks,
     map cand_next (filter cls toks))"
  using assms(3)
  by (induction toks) (auto simp: test_at_char_result [OF assms(1,2), where rest = rest] cls_def)

lemma fold_reject:
  assumes "\<And>s cs. s \<in> set stacks \<Longrightarrow> set cs \<subseteq> A \<Longrightarrow>
      \<exists>rej. f s cs = Some (Inr rej) \<and> set rej = {tok \<in> set cs. \<not> P s tok}"
    and "set cands \<subseteq> A"
  shows "\<exists>rej. fold_ro f stacks cands = Some (Inr rej) \<and> set rej = {tok \<in> set cands. \<forall>s \<in> set stacks. \<not> P s tok}"
  using assms
proof (induction stacks arbitrary: cands)
  case (Cons s stacks)
  obtain rej where rej: "f s cands = Some (Inr rej)" "set rej = {tok \<in> set cands. \<not> P s tok}"
    using Cons.prems(1) [of s cands] Cons.prems(2) by auto
  have "set rej \<subseteq> A" using rej(2) Cons.prems(2) by blast
  moreover have "\<And>s' cs. s' \<in> set stacks \<Longrightarrow> set cs \<subseteq> A \<Longrightarrow>
      \<exists>rej. f s' cs = Some (Inr rej) \<and> set rej = {tok \<in> set cs. \<not> P s' tok}"
    using Cons.prems(1) by simp
  ultimately obtain rej' where "fold_ro f stacks rej = Some (Inr rej')"
      "set rej' = {tok \<in> set rej. \<forall>s \<in> set stacks. \<not> P s tok}"
    using Cons.IH [of rej] by blast
  with rej show ?case by auto
qed simp

lemma reject_loop_result:
  assumes "\<And>s cs. s \<in> set stacks \<Longrightarrow> set cs \<subseteq> A \<Longrightarrow>
      \<exists>rej. f s cs = Some (Inr rej) \<and> set rej = {tok \<in> set cs. \<not> P s tok}"
    and "set cands \<subseteq> A" "stacks \<noteq> []"
  shows "\<exists>rej. reject_loop f stacks cands = Some (Inr rej) \<and> set rej = {tok \<in> set cands. \<forall>s \<in> set stacks. \<not> P s tok}"
proof -
  have "reject_loop f stacks cands = (if cands = [] then Some (Inr []) else fold_ro f stacks cands)"
    using assms(3) by (cases stacks) (simp_all add: reject_loop_def)
  with fold_reject [OF assms(1,2)] show ?thesis by auto
qed

lemma match_token_total:
  assumes "ptr_ok rules p" "is_token_element (hd (els rules p))"
  shows "\<exists>b. match_token rules p tok = Inr b"
  using assms ptr_ok_Cons [OF assms(1)]
  by (cases "els rules p") (auto simp: match_token_def is_token_element_def)

text \<open>One stack rejects exactly the candidates that do not get past it.\<close>

lemma reject_result:
  assumes "settled rules"
  shows "stack_ok rules s \<Longrightarrow> at_terminal rules s \<Longrightarrow>
    \<forall>tok \<in> set cands. cand_ok tok \<and> length (cand_rest tok) \<le> k \<Longrightarrow>
    \<exists>rej. reject_candidates_for_stack rules s cands = Some (Inr rej) \<and> set rej = {tok \<in> set cands. \<not> cand_passes rules s tok}"
proof (induction k arbitrary: s cands rule: less_induct)
  case (less k)
  have ok: "cand_ok tok" if "tok \<in> set cands" for tok using less.prems(3) that by blast
  have rest: "cand_rest tok = hd (cand_rest tok) # tl (cand_rest tok)" if "tok \<in> set cands" for tok
    using ok [OF that] by (cases "cand_rest tok") (auto simp: cand_ok_def)
  have unfold_passes: "cand_passes rules s' tok \<longleftrightarrow>
      passes rules (cand_partial tok) (cand_id tok) (hd (cand_rest tok) # tl (cand_rest tok)) s'"
    if "tok \<in> set cands" for tok s' using rest [OF that] by metis
  show ?case
  proof (cases s)
    case Nil
    have "filter_res reject_at_end cands = Inr (filter (\<lambda>tok. \<not> cand_passes rules s tok) cands)"
      using Nil by (intro filter_res_filter)
        (auto simp: reject_at_end_def cand_cp_rest [OF ok] unfold_passes passes_end_def accepted_def)
    then show ?thesis using Nil by (subst reject_candidates_for_stack.simps) auto
  next
    case (Cons p ps)
    then have p: "ptr_ok rules p" "stack_ok rules ps" using less.prems(1) by simp_all
    obtain e es where e: "els rules p = e # es" using ptr_ok_Cons [OF p(1)] by metis
    show ?thesis
    proof (cases "is_token_element e")
      case True
      then have nc: "\<not> is_class_start e" by (auto simp: element_kinds)
      have "reject_at_token rules p tok = Inr (\<not> cand_passes rules s tok)" if "tok \<in> set cands" for tok
        using match_token_total [OF p(1), of "cand_id tok"] True nc e Cons that
        by (auto simp: reject_at_token_def cand_cp_rest [OF ok] unfold_passes passes_end_def)
      then have "filter_res (reject_at_token rules p) cands = Inr (filter (\<lambda>tok. \<not> cand_passes rules s tok) cands)"
        by (rule filter_res_filter)
      then show ?thesis using Cons e True by (subst reject_candidates_for_stack.simps) auto
    next
      case False
      then have char: "is_class_start (hd (els rules p))" using less.prems(2) Cons e by (simp add: at_terminal_def)
      let ?after = "push rules (ptr_add p (class_len (els rules p))) ps"
      let ?cls = "\<lambda>tok. hd (cand_rest tok) \<noteq> 0 \<and> in_class (els rules p) (hd (cand_rest tok))"
      let ?rejects = "filter (\<lambda>tok. \<not> ?cls tok \<and> \<not> (hd (cand_rest tok) = 0 \<and> passes_end rules (cand_partial tok) (p # ps))) cands"
      let ?next = "map cand_next (filter ?cls cands)"
      have after: "stack_ok rules ?after" using ptr_ok_class [OF p(1) char] p(2) by simp
      obtain new where new: "advance_stack rules ?after [] = Some (Inr new)" "set new = {t. expand rules ?after t}"
        using addsD [OF advance_total [OF assms after], of "[]"] by auto
      have new_ok: "stack_ok rules t \<and> at_terminal rules t" if "t \<in> set new" for t
        using that new(2) expand_ok [OF _ _ after] expand_at_terminal assms by (auto simp: settled_def)
      have "new \<noteq> []" using new(2) expand_exists [of rules ?after] assms after by (auto simp: settled_def)
      have next_ok: "cand_ok tok \<and> length (cand_rest tok) \<le> k - 1 \<and> 0 < k" if tok: "tok \<in> set ?next" for tok
      proof -
        obtain tok' where t: "tok' \<in> set cands" "tok = cand_next tok'" "hd (cand_rest tok') \<noteq> 0"
          using tok by auto
        moreover have "length (cand_rest tok') \<le> k" "cand_rest tok' \<noteq> []"
          using less.prems(3) t(1) by (auto simp: cand_ok_def)
        ultimately show ?thesis
          using cand_next_ok [OF ok [OF t(1)]] by (cases "cand_rest tok'") (auto simp: cand_rest_next)
      qed
      have rec: "\<exists>rej. reject_loop (reject_candidates_for_stack rules) new ?next = Some (Inr rej) \<and>
          set rej = {tok \<in> set ?next. \<forall>t \<in> set new. \<not> cand_passes rules t tok}"
      proof (cases "?next = []")
        case True
        then show ?thesis using \<open>new \<noteq> []\<close> by (simp add: reject_loop_def)
      next
        case False
        then have k: "k - 1 < k" using next_ok [OF hd_in_set [OF False]] by linarith
        show ?thesis
        proof (rule reject_loop_result [where A = "set ?next", OF _ order_refl \<open>new \<noteq> []\<close>])
          show "\<exists>rej. reject_candidates_for_stack rules t cs = Some (Inr rej) \<and> set rej = {tok \<in> set cs. \<not> cand_passes rules t tok}"
            if "t \<in> set new" "set cs \<subseteq> set ?next" for t cs
            using that new_ok next_ok by (intro less.IH [OF k]) blast+
        qed
      qed
      then obtain rej where rej: "reject_loop (reject_candidates_for_stack rules) new ?next = Some (Inr rej)"
          "set rej = {tok \<in> set ?next. \<forall>t \<in> set new. \<not> cand_passes rules t tok}"
        by blast
      have result: "reject_candidates_for_stack rules s cands = Some (Inr (?rejects @ map cand_prev rej))"
        using Cons e False new(1) rej(1) split_candidates_result [OF p(1) char ok, where rest = ps]
          match_char_class [OF p(1) char, of 0] push_unless_end_ok [OF ptr_ok_class [OF p(1) char]]
        by (subst reject_candidates_for_stack.simps) simp
      have "set (map cand_prev rej) = {tok \<in> set cands. ?cls tok \<and> (\<forall>t \<in> set new. \<not> cand_passes rules t (cand_next tok))}"
        unfolding set_map rej(2) by force
      moreover have "\<not> cand_passes rules s tok \<longleftrightarrow>
          (\<not> ?cls tok \<and> \<not> (hd (cand_rest tok) = 0 \<and> passes_end rules (cand_partial tok) (p # ps))) \<or>
          (?cls tok \<and> (\<forall>t \<in> set new. \<not> cand_passes rules t (cand_next tok)))" if "tok \<in> set cands" for tok
        using Cons e False char new(2) unfolding unfold_passes [OF that]
        by (auto simp: accepted_def cand_rest_next)
      ultimately have "set (?rejects @ map cand_prev rej) = {tok \<in> set cands. \<not> cand_passes rules s tok}"
        by auto
      with result show ?thesis by blast
    qed
  qed
qed

section \<open>Accepting a token\<close>

text \<open>The invariant of a grammar in use.\<close>

definition grammar_ok :: "'p llama_grammar \<Rightarrow> bool" where
  "grammar_ok g \<longleftrightarrow> settled (gr_rules g) \<and> stacks_ok (gr_rules g) (gr_stacks g) \<and> gr_stacks g \<noteq> []"

text \<open>The stacks after some code points, and what a token leaves of one stack.\<close>

fun run_chars :: "llama_grammar_rules \<Rightarrow> code_point list \<Rightarrow> llama_grammar_stack set \<Rightarrow> llama_grammar_stack set" where
  "run_chars rules [] S = S"
| "run_chars rules (c # cs) S = run_chars rules cs (\<Union>s \<in> S. accepted rules c s)"

definition survivors ::
    "llama_grammar_rules \<Rightarrow> llama_token \<Rightarrow> code_point list \<Rightarrow> llama_grammar_stack \<Rightarrow> llama_grammar_stack set" where
  "survivors rules token cps s =
    (case s of
       [] \<Rightarrow> {}
     | p # rest \<Rightarrow>
         if is_token_element (hd (els rules p)) then
           (if match_token rules p token = Inr True then {t. expand rules (push rules (ptr_add p 1) rest) t} else {})
         else run_chars rules (butlast cps) {s})"

lemma run_chars_empty [simp]: "run_chars rules cs {} = {}"
  by (induction cs) auto

lemma run_chars_ok:
  assumes "settled rules"
  shows "\<forall>s \<in> S. stack_ok rules s \<and> at_terminal rules s \<Longrightarrow> t \<in> run_chars rules cs S \<Longrightarrow> stack_ok rules t \<and> at_terminal rules t"
proof (induction cs arbitrary: S)
  case (Cons c cs)
  show ?case
    by (rule Cons.IH [of "\<Union>s \<in> S. accepted rules c s"]) (use accepted_ok [OF assms] Cons.prems in auto)
qed simp

lemma token_chars_result:
  assumes "settled rules"
  shows "stacks_ok rules cur \<Longrightarrow> \<exists>new. token_chars rules cs cur = Some (Inr new) \<and> set new = run_chars rules cs (set cur)"
proof (induction cs arbitrary: cur)
  case (Cons c cs)
  obtain new where new: "accept_stacks rules c cur = Some (Inr new)" "set new = (\<Union>s \<in> set cur. accepted rules c s)"
      "stacks_ok rules new"
    using accept_stacks_total [OF assms Cons.prems] by blast
  show ?case
  proof (cases "new = []")
    case True
    then have "run_chars rules (c # cs) (set cur) = {}" using new(2) by simp
    with True new show ?thesis by simp
  next
    case False
    with new Cons.IH [OF new(3)] show ?thesis by simp
  qed
qed simp

lemma fold_add_stack:
  "set (fold add_stack xs acc) = set acc \<union> set xs \<and> (distinct acc \<longrightarrow> distinct (fold add_stack xs acc))"
  by (induction xs arbitrary: acc) (auto simp: add_stack_def)

lemma token_stack_adds:
  assumes "settled rules" "stack_ok rules s" "at_terminal rules s"
  shows "adds (token_stack rules token cps s) (survivors rules token cps s)"
proof (cases s)
  case Nil
  then show ?thesis using adds_nothing by (simp add: token_stack_def [abs_def] survivors_def)
next
  case (Cons p rest)
  then have p: "ptr_ok rules p" "stack_ok rules rest" using assms(2) by simp_all
  then obtain e es where e: "els rules p = e # es" using ptr_ok_Cons by metis
  show ?thesis
  proof (cases "is_token_element e")
    case True
    then have nx: "ptr_ok rules (ptr_add p 1)" using ptr_ok_next [OF p(1)] e by simp
    obtain b where b: "match_token rules p token = Inr b" using match_token_total [OF p(1)] True e by auto
    have "adds (advance_stack rules (push rules (ptr_add p 1) rest)) {t. expand rules (push rules (ptr_add p 1) rest) t}"
      using advance_total [OF assms(1)] nx p(2) by simp
    then show ?thesis
      using Cons e True b adds_nothing push_unless_end_ok [OF nx]
      by (cases b) (simp_all add: token_stack_def [abs_def] survivors_def)
  next
    case False
    obtain cur where cur: "token_chars rules (butlast cps) [s] = Some (Inr cur)" "set cur = run_chars rules (butlast cps) {s}"
      using token_chars_result [OF assms(1), of "[s]" "butlast cps"] assms(2,3) by (auto simp: stacks_ok_def)
    then show ?thesis
      using Cons e False fold_add_stack [of cur]
      by (auto simp: adds_def token_stack_def survivors_def)
  qed
qed

lemma survivors_ok:
  assumes "settled rules" "stack_ok rules s" "at_terminal rules s" "t \<in> survivors rules token cps s"
  shows "stack_ok rules t \<and> at_terminal rules t"
proof (cases s)
  case (Cons p rest)
  show ?thesis
  proof (cases "is_token_element (hd (els rules p))")
    case True
    then have "stack_ok rules (push rules (ptr_add p 1) rest)" "expand rules (push rules (ptr_add p 1) rest) t"
      using assms(2,4) Cons ptr_ok_next by (auto simp: survivors_def split: if_splits)
    then show ?thesis using expand_ok expand_at_terminal assms(1) unfolding settled_def by blast
  next
    case False
    then have "t \<in> run_chars rules (butlast cps) {s}" using assms(4) Cons by (simp add: survivors_def)
    then show ?thesis using run_chars_ok [OF assms(1), of "{s}"] assms(2,3) by blast
  qed
qed (use assms(4) in \<open>simp add: survivors_def\<close>)

text \<open>Accepting a token returns; it throws iff no stack survives.\<close>

definition token_survivors :: "'p llama_grammar \<Rightarrow> llama_token \<Rightarrow> bytes \<Rightarrow> llama_grammar_stack set" where
  "token_survivors g token piece =
    (\<Union>s \<in> set (gr_stacks g). survivors (gr_rules g) token (fst (decode_utf8 piece (gr_partial_utf8 g))) s)"

abbreviation empty_stacks :: fault where
  "empty_stacks \<equiv> Runtime_error ''Unexpected empty grammar stack after accepting piece''"

lemma accept_token_result:
  assumes "grammar_ok g"
  shows "if token_survivors g token piece = {} then accept_token g token piece = Some (Inl empty_stacks)
    else \<exists>g'. accept_token g token piece = Some (Inr g') \<and> grammar_ok g' \<and> set (gr_stacks g') = token_survivors g token piece \<and>
      gr_rules g' = gr_rules g \<and> gr_vocab g' = gr_vocab g \<and> gr_awaiting_trigger g' = gr_awaiting_trigger g \<and>
      gr_trigger_buffer g' = gr_trigger_buffer g"
proof -
  have g: "settled (gr_rules g)" "stacks_ok (gr_rules g) (gr_stacks g)" using assms(1) by (auto simp: grammar_ok_def)
  let ?cps = "fst (decode_utf8 piece (gr_partial_utf8 g))"
  have "adds (fold_ro (token_stack (gr_rules g) token ?cps) (gr_stacks g)) (token_survivors g token piece)"
    unfolding token_survivors_def using g by (intro adds_fold token_stack_adds) (simp_all add: stacks_ok_def)
  then obtain new where new: "fold_ro (token_stack (gr_rules g) token ?cps) (gr_stacks g) [] = Some (Inr new)"
      "set new = token_survivors g token piece"
    using addsD [where acc = "[]"] by fastforce
  have "stacks_ok (gr_rules g) new"
    unfolding stacks_ok_def new(2) token_survivors_def
    by (rule ballI, erule UN_E, rule survivors_ok [OF g(1)]) (use g(2) in \<open>auto simp: stacks_ok_def\<close>)
  moreover have "accept_token g token piece =
      (if new = [] then Some (Inl empty_stacks)
       else Some (Inr (g\<lparr>gr_stacks := new, gr_partial_utf8 := snd (decode_utf8 piece (gr_partial_utf8 g))\<rparr>)))"
    using new(1) by (simp add: accept_token_def split_beta)
  ultimately show ?thesis
    using new(2) g(1) by (cases "new = []") (auto simp: grammar_ok_def simp flip: new(2))
qed

text \<open>A grammar without token elements.\<close>

definition char_only :: "llama_grammar_rules \<Rightarrow> bool" where
  "char_only rules \<longleftrightarrow> (\<forall>rule \<in> set rules. \<forall>e \<in> set rule. \<not> is_token_element e)"

lemma char_only_top: "char_only rules \<Longrightarrow> ptr_ok rules p \<Longrightarrow> \<not> is_token_element (hd (els rules p))"
proof -
  assume char: "char_only rules" and p: "ptr_ok rules p"
  have len: "fst p < length rules" using p by (auto simp: ptr_ok_def els_def split: if_splits)
  have "hd (els rules p) \<in> set (els rules p)" using ptr_ok_Cons [OF p] by (metis list.set_intros(1))
  then have "hd (els rules p) \<in> set (rules ! fst p)" using len by (simp add: els_def in_set_dropD)
  with char len show ?thesis by (auto simp: char_only_def)
qed

lemma passes_run:
  assumes "settled rules" "char_only rules" "0 \<notin> set cs"
  shows "stack_ok rules s \<Longrightarrow> at_terminal rules s \<Longrightarrow> passes rules partial tok (cs @ [0]) s \<Longrightarrow>
    \<exists>t \<in> run_chars rules cs {s}. passes_end rules partial t"
  using assms(3)
proof (induction cs arbitrary: s)
  case (Cons c cs)
  have "\<not> (s \<noteq> [] \<and> is_token_element (hd (els rules (hd s))))"
    using char_only_top [OF assms(2)] Cons.prems(1) by (cases s) auto
  then obtain t where t: "t \<in> accepted rules c s" "passes rules partial tok (cs @ [0]) t"
    using Cons.prems(3,4) by (auto split: if_splits)
  then obtain u where u: "u \<in> run_chars rules cs {t}" "passes_end rules partial u"
    using Cons.IH [of t] accepted_ok [OF assms(1) Cons.prems(1) t(1)] Cons.prems(4) by auto
  have "run_chars rules cs A \<subseteq> run_chars rules cs B" if "A \<subseteq> B" for A B
    using that by (induction cs arbitrary: A B) (simp, metis (no_types, lifting) UN_mono order_refl run_chars.simps(2))
  then have "run_chars rules cs {t} \<subseteq> run_chars rules (c # cs) {s}" using t(1) by simp
  with u show ?case by blast
qed simp

text \<open>A token with a first byte decodes to a code point, or leaves a partial or an invalid character.\<close>

lemma decode_loop_nonempty:
  "cps \<noteq> [] \<Longrightarrow> fst (decode_loop bs cps v n) = [0] \<Longrightarrow> pu_n_remain (snd (decode_loop bs cps v n)) < 0"
  by (induction bs cps v n rule: decode_loop.induct) (auto simp: Let_def split: prod.splits if_splits)

lemma decode_loop_first:
  assumes "b \<noteq> 0" "fst (decode_loop (b # bs) [] v n) = [0]"
  shows "pu_n_remain (snd (decode_loop (b # bs) [] v n)) \<noteq> 0"
proof (cases "lookup ! unat (drop_bit 4 b) - 1 < 0")
  case True
  then show ?thesis using assms(1) by (simp add: Let_def)
next
  case False
  let ?n = "lookup ! unat (drop_bit 4 b) - 1"
  obtain bs' v' n' where r: "rest_loop bs (ucast (b AND (push_bit (nat (7 - ?n)) 1 - 1))) ?n = (bs', v', n')"
    by (metis surj_pair)
  have eq: "decode_loop (b # bs) [] v n = decode_loop bs' (if n' = 0 then [v'] else []) v' n'"
    using assms(1) False r by (simp add: Let_def)
  show ?thesis
  proof (cases "n' = 0")
    case True
    then show ?thesis using assms(2) decode_loop_nonempty [of "[v']" bs' v' n'] eq by force
  next
    case n': False
    then have "bs' = [] \<or> hd bs' = 0" using rest_loop_stop [OF r] False by simp
    then show ?thesis using n' unfolding eq by (cases bs') auto
  qed
qed

lemma continue_loop_stops:
  "continue_loop bs v n = Some (bs', v', n') \<Longrightarrow> n > 0 \<Longrightarrow> n' \<noteq> 0 \<Longrightarrow> bs' = [] \<or> hd bs' = 0"
  by (induction bs v n rule: continue_loop.induct) (fastforce split: if_splits)+

lemma decode_utf8_first:
  assumes "b \<noteq> 0" "fst (decode_utf8 (b # bs) q) = [0]"
  shows "pu_n_remain (snd (decode_utf8 (b # bs) q)) \<noteq> 0"
proof (cases "pu_n_remain q > 0")
  case False
  then have "decode_utf8 (b # bs) q = decode_loop (b # bs) [] (pu_value q) (pu_n_remain q)"
    by (simp add: decode_utf8_def)
  with decode_loop_first [OF assms(1), of bs "pu_value q" "pu_n_remain q"] assms(2) show ?thesis by metis
next
  case True
  show ?thesis
  proof (cases "continue_loop (b # bs) (pu_value q) (pu_n_remain q)")
    case (Some r)
    obtain bs' v' n' where r: "r = (bs', v', n')" by (metis surj_pair)
    have eq: "decode_utf8 (b # bs) q = decode_loop bs' (if n' = 0 then [v'] else []) v' n'"
      using Some r True unfolding decode_utf8_def by simp
    show ?thesis
    proof (cases "n' = 0")
      case True
      then show ?thesis using assms(2) decode_loop_nonempty [of "[v']" bs' v' n'] eq by force
    next
      case False
      then have "bs' = [] \<or> hd bs' = 0" using continue_loop_stops [OF _ True] Some r by metis
      then show ?thesis using False unfolding eq by (cases bs') auto
    qed
  qed (simp add: decode_utf8_def)
qed

lemma decode_loop_last: "fst (decode_loop bs cps v n) \<noteq> [] \<and> last (fst (decode_loop bs cps v n)) = 0"
  by (induction bs cps v n rule: decode_loop.induct) (auto simp: Let_def split: prod.splits)

lemma decode_utf8_last: "fst (decode_utf8 bs q) \<noteq> [] \<and> last (fst (decode_utf8 bs q)) = 0"
  using decode_loop_last by (auto simp: decode_utf8_def split: option.splits)

lemma decode_utf8_shape: "fst (decode_utf8 bs q) = butlast (fst (decode_utf8 bs q)) @ [0]"
  using decode_utf8_last by (metis append_butlast_last_id)

section \<open>Masking and accepting\<close>

definition candidate_of :: "llama_vocab \<Rightarrow> llama_partial_utf8 \<Rightarrow> nat \<Rightarrow> 'f llama_token_data \<Rightarrow> llama_grammar_candidate" where
  "candidate_of vocab partial i d =
    (let dec = decode_utf8 (vocab_token_to_piece vocab (td_id d)) partial
     in \<lparr>cand_index = i, cand_code_points = fst dec, cand_off = 0, cand_partial = snd dec, cand_id = td_id d\<rparr>)"

definition is_text_token :: "llama_vocab \<Rightarrow> llama_token \<Rightarrow> bool" where
  "is_text_token vocab tok \<longleftrightarrow> \<not> vocab_is_eog vocab tok \<and>
    vocab_token_to_piece vocab tok \<noteq> [] \<and> hd (vocab_token_to_piece vocab tok) \<noteq> 0"

lemma apply_scan_Cons:
  "apply_scan ninf vocab a q k (d # ds) =
    ((if is_text_token vocab (td_id d) \<or> (vocab_is_eog vocab (td_id d) \<and> a) then d else d\<lparr>td_logit := ninf\<rparr>)
       # fst (apply_scan ninf vocab a q (Suc k) ds),
     (if is_text_token vocab (td_id d) then [candidate_of vocab q k d] else []) @ snd (apply_scan ninf vocab a q (Suc k) ds))"
  by (auto simp: Let_def split_beta is_text_token_def candidate_of_def)

lemma apply_scan_length: "length (fst (apply_scan ninf vocab a q k ds)) = length ds"
  by (induction ds arbitrary: k) (simp_all add: apply_scan_Cons del: apply_scan.simps(2))

lemma apply_scan_cands:
  "set (snd (apply_scan ninf vocab a q k ds)) =
     (\<lambda>i. candidate_of vocab q (k + i) (ds ! i)) ` {i. i < length ds \<and> is_text_token vocab (td_id (ds ! i))}"
proof (induction ds arbitrary: k)
  case (Cons d ds)
  have "{i. i < length (d # ds) \<and> is_text_token vocab (td_id ((d # ds) ! i))} =
      (if is_text_token vocab (td_id d) then {0} else {}) \<union> Suc ` {i. i < length ds \<and> is_text_token vocab (td_id (ds ! i))}"
    by (auto simp: less_Suc_eq_0_disj image_iff)
  then show ?case
    using Cons.IH [of "Suc k"] by (simp add: apply_scan_Cons image_Un image_image del: apply_scan.simps(2))
qed simp

lemma apply_scan_logit:
  "i < length ds \<Longrightarrow> td_logit (fst (apply_scan ninf vocab a q k ds) ! i) \<noteq> ninf \<Longrightarrow>
     is_text_token vocab (td_id (ds ! i)) \<or> (vocab_is_eog vocab (td_id (ds ! i)) \<and> a)"
proof (induction ds arbitrary: k i)
  case (Cons d ds)
  then show ?case
    using Cons.IH [of "i - 1" "Suc k"]
    by (cases i) (auto simp: apply_scan_Cons split: if_splits simp del: apply_scan.simps(2))
qed simp

lemma mask_fold_length: "length (fold (mask_logit ninf) rejects ds) = length ds"
  by (induction rejects arbitrary: ds) (simp_all add: mask_logit_def)

lemma mask_fold:
  "i < length ds \<Longrightarrow> td_logit (fold (mask_logit ninf) rejects ds ! i) \<noteq> ninf \<Longrightarrow>
   td_logit (ds ! i) \<noteq> ninf \<and> (\<forall>tok \<in> set rejects. cand_index tok \<noteq> i)"
proof (induction rejects arbitrary: ds)
  case (Cons tok rejects)
  have "td_logit (mask_logit ninf tok ds ! i) \<noteq> ninf \<Longrightarrow> td_logit (ds ! i) \<noteq> ninf \<and> cand_index tok \<noteq> i"
    using Cons.prems(1) by (cases "cand_index tok = i") (simp_all add: mask_logit_def)
  with Cons.IH [of "mask_logit ninf tok ds"] Cons.prems show ?case by (simp add: mask_logit_def)
qed simp

lemma candidate_of_simps [simp]:
  "cand_index (candidate_of vocab q i d) = i"
  "cand_rest (candidate_of vocab q i d) = fst (decode_utf8 (vocab_token_to_piece vocab (td_id d)) q)"
  "cand_partial (candidate_of vocab q i d) = snd (decode_utf8 (vocab_token_to_piece vocab (td_id d)) q)"
  "cand_id (candidate_of vocab q i d) = td_id d"
  "cand_ok (candidate_of vocab q i d)"
  using decode_utf8_last by (simp_all add: candidate_of_def cand_rest_def cand_ok_def Let_def)

lemma reject_candidates_result:
  assumes "grammar_ok g" "\<forall>tok \<in> set cands. cand_ok tok"
  shows "\<exists>rej. reject_candidates (gr_rules g) (gr_stacks g) cands = Some (Inr rej) \<and>
    set rej = {tok \<in> set cands. \<forall>s \<in> set (gr_stacks g). \<not> cand_passes (gr_rules g) s tok}"
  unfolding reject_candidates_def
proof (rule reject_loop_result [where A = "set cands"])
  let ?k = "Max (insert 0 ((\<lambda>tok. length (cand_rest tok)) ` set cands))"
  fix s cs assume s: "s \<in> set (gr_stacks g)" and cs: "set cs \<subseteq> set cands"
  have g: "settled (gr_rules g)" "stack_ok (gr_rules g) s" "at_terminal (gr_rules g) s"
    using assms(1) s by (auto simp: grammar_ok_def stacks_ok_def)
  have "\<forall>tok \<in> set cs. cand_ok tok \<and> length (cand_rest tok) \<le> ?k"
    using assms(2) cs by (auto intro!: Max_ge)
  then show "\<exists>rej. reject_candidates_for_stack (gr_rules g) s cs = Some (Inr rej) \<and>
      set rej = {tok \<in> set cs. \<not> cand_passes (gr_rules g) s tok}"
    by (rule reject_result [OF g])
qed (use assms(1) in \<open>auto simp: grammar_ok_def\<close>)

text \<open>A text token that gets past some stack is accepted by this stack.\<close>

lemma passes_survives:
  assumes "grammar_ok g" "char_only (gr_rules g)" "s \<in> set (gr_stacks g)" "piece \<noteq> []" "hd piece \<noteq> 0"
    and "0 \<notin> set (butlast (fst (decode_utf8 piece (gr_partial_utf8 g))))"
    and "passes (gr_rules g) (snd (decode_utf8 piece (gr_partial_utf8 g))) tok (fst (decode_utf8 piece (gr_partial_utf8 g))) s"
  shows "token_survivors g tok piece \<noteq> {}"
proof -
  let ?cps = "fst (decode_utf8 piece (gr_partial_utf8 g))"
  let ?q = "snd (decode_utf8 piece (gr_partial_utf8 g))"
  have g: "settled (gr_rules g)" "stack_ok (gr_rules g) s" "at_terminal (gr_rules g) s"
    using assms(1,3) by (auto simp: grammar_ok_def stacks_ok_def)
  have "passes (gr_rules g) ?q tok (butlast ?cps @ [0]) s"
    using assms(7) decode_utf8_shape by metis
  then obtain t where t: "t \<in> run_chars (gr_rules g) (butlast ?cps) {s}" "passes_end (gr_rules g) ?q t"
    using passes_run [OF g(1) assms(2,6) g(2,3)] by blast
  have "s \<noteq> []"
  proof
    assume s: "s = []"
    then have "butlast ?cps = []" using t(1) by (cases "butlast ?cps") (auto simp: accepted_def)
    then have "?cps = [0]" using decode_utf8_shape by (metis append_Nil)
    moreover have "t = []" using t(1) s \<open>butlast ?cps = []\<close> by simp
    ultimately show False
      using t(2) decode_utf8_first [of "hd piece" "tl piece" "gr_partial_utf8 g"] assms(4,5) by (simp add: passes_end_def)
  qed
  then obtain p rest where s: "s = p # rest" by (cases s) auto
  then have "t \<in> survivors (gr_rules g) tok ?cps s"
    using t(1) char_only_top [OF assms(2)] g(2) by (simp add: survivors_def)
  with assms(3) show ?thesis unfolding token_survivors_def by blast
qed

text \<open>C8. Without token elements, a token whose logit the grammar leaves alone is accepted afterwards: it
  neither throws nor aborts, and the grammar stays well formed. (A zero code point in the middle of
  a token, from an overlong encoding, would hide the rest of the token from the mask.)\<close>

theorem apply_then_accept:
  assumes "grammar_ok g" "char_only (gr_rules g)" "gr_vocab g = Some vocab" "\<not> gr_awaiting_trigger g"
    and "\<And>i. i < length cur \<Longrightarrow>
      0 \<notin> set (butlast (fst (decode_utf8 (vocab_token_to_piece vocab (td_id (cur ! i))) (gr_partial_utf8 g))))"
  shows "\<exists>cur'. apply_impl ninf g cur = Some (Inr cur') \<and> length cur' = length cur \<and>
    (\<forall>i < length cur. td_logit (cur' ! i) \<noteq> ninf \<longrightarrow>
       (\<exists>g'. accept_impl find_trigger g (td_id (cur ! i)) = Some (Inr g') \<and> grammar_ok g'))"
proof -
  obtain ds cands where scan: "apply_scan ninf vocab ([] \<in> set (gr_stacks g)) (gr_partial_utf8 g) 0 cur = (ds, cands)"
    by (metis surj_pair)
  have cands: "set cands = (\<lambda>i. candidate_of vocab (gr_partial_utf8 g) i (cur ! i)) `
      {i. i < length cur \<and> is_text_token vocab (td_id (cur ! i))}"
    using apply_scan_cands [of ninf vocab "[] \<in> set (gr_stacks g)" "gr_partial_utf8 g" 0 cur] scan by simp
  have len: "length ds = length cur" using apply_scan_length scan by (metis fst_conv)
  obtain rej where rej: "reject_candidates (gr_rules g) (gr_stacks g) cands = Some (Inr rej)"
      "set rej = {tok \<in> set cands. \<forall>s \<in> set (gr_stacks g). \<not> cand_passes (gr_rules g) s tok}"
    using reject_candidates_result [OF assms(1), of cands] cands by auto
  let ?cur = "fold (mask_logit ninf) rej ds"
  have masked: "apply_impl ninf g cur = Some (Inr ?cur)"
    using assms(3,4) scan rej(1) by (simp add: apply_impl_def)
  have "\<exists>g'. accept_impl find_trigger g (td_id (cur ! i)) = Some (Inr g') \<and> grammar_ok g'"
    if i: "i < length cur" "td_logit (?cur ! i) \<noteq> ninf" for i
  proof -
    let ?tok = "td_id (cur ! i)"
    have left: "td_logit (ds ! i) \<noteq> ninf" "\<And>tok. tok \<in> set rej \<Longrightarrow> cand_index tok \<noteq> i"
      using mask_fold [OF _ i(2)] i(1) len by auto
    then have kind: "is_text_token vocab ?tok \<or> (vocab_is_eog vocab ?tok \<and> [] \<in> set (gr_stacks g))"
      using apply_scan_logit [of i cur ninf vocab "[] \<in> set (gr_stacks g)" "gr_partial_utf8 g" 0] i scan by simp
    show ?thesis
    proof (cases "is_text_token vocab ?tok")
      case False
      then show ?thesis using kind assms(1,3,4) by (simp add: accept_impl_def)
    next
      case True
      let ?c = "candidate_of vocab (gr_partial_utf8 g) i (cur ! i)"
      have "?c \<in> set cands" using cands i True by blast
      moreover have "?c \<notin> set rej" using left(2) by fastforce
      ultimately obtain s where s: "s \<in> set (gr_stacks g)" "cand_passes (gr_rules g) s ?c"
        using rej(2) by blast
      have "token_survivors g ?tok (vocab_token_to_piece vocab ?tok) \<noteq> {}"
        using passes_survives [OF assms(1,2) s(1) _ _ assms(5) [OF i(1)]] s(2) True by (simp add: is_text_token_def)
      then have "\<exists>g'. accept_token g ?tok (vocab_token_to_piece vocab ?tok) = Some (Inr g') \<and> grammar_ok g'"
        using accept_token_result [OF assms(1), of ?tok "vocab_token_to_piece vocab ?tok"] by auto
      then show ?thesis
        using True assms(3,4) by (simp add: accept_impl_def is_text_token_def)
    qed
  qed
  moreover have "length ?cur = length cur"
    using len by (simp add: mask_fold_length)
  ultimately show ?thesis using masked by blast
qed

text \<open>The witness uses the grammar of letters and a vocabulary of three tokens: \<open>ab\<close>, \<open>.\<close> and the end.\<close>

definition demo_vocab :: llama_vocab where
  "demo_vocab = \<lparr>vocab_token_to_piece = (\<lambda>t. if t = 1 then [0x61, 0x62] else if t = 2 then [0x2E] else []),
     vocab_is_eog = (\<lambda>t. t = 3), vocab_tokenize = (\<lambda>_. [])\<rparr>"

definition demo_grammar :: "llama_vocab \<Rightarrow> llama_grammar_rules \<Rightarrow> llama_grammar_stacks \<Rightarrow> nat llama_grammar" where
  "demo_grammar vocab rules stacks =
    \<lparr>gr_vocab = Some vocab, gr_rules = rules, gr_stacks = stacks,
     gr_partial_utf8 = \<lparr>pu_value = 0, pu_n_remain = 0\<rparr>, gr_lazy = False, gr_awaiting_trigger = False,
     gr_trigger_buffer = [], gr_trigger_buffer_positions = [], gr_trigger_tokens = [], gr_trigger_patterns = []\<rparr>"

lemma letters_check: "rules_ok letters_rules" "empties_closed letters_rules" "left_recursive letters_rules = Some (Inr False)"
  by (simp_all add: rules_ok_def empties_closed_def rule_alts_def directly_empty_def grammar_eval letters_rules_def
        cong: weak_congs)

lemma letters_ok: "grammar_ok (demo_grammar demo_vocab letters_rules [[(0, 0)], [(0, 4)]])"
  using check_settles [OF letters_check]
  by (simp add: grammar_ok_def demo_grammar_def stacks_ok_def at_terminal_def ptr_ok_def els_def letters_rules_def
        element_kinds)

theorem apply_then_accept_witness:
  "\<exists>cur'. apply_impl (0 :: int) (demo_grammar demo_vocab letters_rules [[(0, 0)], [(0, 4)]])
       [\<lparr>td_id = 1, td_logit = 5, td_p = 0\<rparr>, \<lparr>td_id = 3, td_logit = 5, td_p = 0\<rparr>] = Some (Inr cur') \<and>
     length cur' = length [\<lparr>td_id = 1, td_logit = 5, td_p = 0 :: int\<rparr>, \<lparr>td_id = 3, td_logit = 5, td_p = 0\<rparr>] \<and>
     (\<forall>i < length [\<lparr>td_id = 1, td_logit = 5, td_p = 0 :: int\<rparr>, \<lparr>td_id = 3, td_logit = 5, td_p = 0\<rparr>].
        td_logit (cur' ! i) \<noteq> 0 \<longrightarrow>
       (\<exists>g'. accept_impl (\<lambda>_ _. None) (demo_grammar demo_vocab letters_rules [[(0, 0)], [(0, 4)]])
           (td_id ([\<lparr>td_id = 1, td_logit = 5, td_p = 0 :: int\<rparr>, \<lparr>td_id = 3, td_logit = 5, td_p = 0\<rparr>] ! i)) = Some (Inr g') \<and>
         grammar_ok g'))"
proof (rule apply_then_accept [OF letters_ok, where vocab = demo_vocab])
  have "0 \<notin> set (butlast (fst (decode_utf8 [0x61, 0x62] \<lparr>pu_value = 0, pu_n_remain = 0\<rparr>)))"
    "0 \<notin> set (butlast (fst (decode_utf8 [] \<lparr>pu_value = 0, pu_n_remain = 0\<rparr>)))"
    by code_simp+
  then show "i < length [\<lparr>td_id = 1, td_logit = 5, td_p = 0 :: int\<rparr>, \<lparr>td_id = 3, td_logit = 5, td_p = 0\<rparr>] \<Longrightarrow>
      0 \<notin> set (butlast (fst (decode_utf8 (vocab_token_to_piece demo_vocab
        (td_id ([\<lparr>td_id = 1, td_logit = 5, td_p = 0 :: int\<rparr>, \<lparr>td_id = 3, td_logit = 5, td_p = 0\<rparr>] ! i)))
        (gr_partial_utf8 (demo_grammar demo_vocab letters_rules [[(0, 0)], [(0, 4)]])))))" for i
    by (auto simp: less_Suc_eq demo_vocab_def demo_grammar_def)
qed (simp_all add: demo_grammar_def char_only_def letters_rules_def is_token_element_def)

section \<open>The invariant\<close>

text \<open>What an acceptance may give: a well-formed grammar with the same rules, or an exception because no
  stack survived.\<close>

definition accept_post :: "'p llama_grammar \<Rightarrow> 'p llama_grammar res \<Rightarrow> bool" where
  "accept_post g r \<longleftrightarrow> (case r of Inl e \<Rightarrow> e = empty_stacks | Inr g' \<Rightarrow> grammar_ok g' \<and> gr_rules g' = gr_rules g)"

lemma accept_post_rules: "gr_rules g = gr_rules h \<Longrightarrow> accept_post g = accept_post h"
  by (intro ext) (simp add: accept_post_def split: sum.split)

lemma accept_token_post:
  assumes "grammar_ok g"
  shows "\<exists>r. accept_token g token piece = Some r \<and> accept_post g r"
  using accept_token_result [OF assms, of token piece] by (auto simp: accept_post_def split: if_splits)

lemma replay_post: "grammar_ok g \<Longrightarrow> \<exists>r. replay start ps g = Some r \<and> accept_post g r"
proof (induction start ps g rule: replay.induct)
  case (2 start tok tok_start tok_end ps g)
  show ?case
  proof (cases "tok_end \<le> start")
    case True
    then show ?thesis using 2 by simp
  next
    case False
    define piece where "piece = take (tok_end - (if tok_start < start then start else tok_start))
        (drop (if tok_start < start then start else tok_start) (gr_trigger_buffer g))"
    obtain r where r: "accept_token g tok piece = Some r" "accept_post g r"
      using accept_token_post [OF 2(3)] by blast
    show ?thesis
    proof (cases r)
      case (Inl e)
      then show ?thesis using r False by (simp add: Let_def piece_def)
    next
      case (Inr g')
      then have "grammar_ok g'" "gr_rules g' = gr_rules g" using r(2) by (simp_all add: accept_post_def)
      then show ?thesis
        using r(1) Inr False "2.IH"(2) [OF False refl refl, of g'] accept_post_rules [of g' g]
        by (simp add: Let_def piece_def)
    qed
  qed
qed (simp add: accept_post_def)

lemma grammar_ok_update [simp]:
  "grammar_ok (g\<lparr>gr_awaiting_trigger := b\<rparr>) = grammar_ok g"
  "grammar_ok (g\<lparr>gr_trigger_buffer := x\<rparr>) = grammar_ok g"
  "grammar_ok (g\<lparr>gr_trigger_buffer_positions := y\<rparr>) = grammar_ok g"
  by (simp_all add: grammar_ok_def)

text \<open>A lazy grammar that waits and does not see a trigger token.\<close>

lemma accept_waiting:
  assumes "grammar_ok g" "gr_vocab g = Some vocab" "gr_awaiting_trigger g" "token \<notin> set (gr_trigger_tokens g)"
  shows "\<exists>r. accept_impl find_trigger g token = Some r \<and> accept_post g r"
proof -
  let ?piece = "vocab_token_to_piece vocab token"
  define n where "n = length (gr_trigger_buffer g)"
  define g1 where "g1 = g\<lparr>gr_trigger_buffer_positions := gr_trigger_buffer_positions g @ [(token, n, n + length ?piece)],
      gr_trigger_buffer := gr_trigger_buffer g @ ?piece\<rparr>"
  define hit where "hit = find (\<lambda>start. start \<noteq> None)
      (map (\<lambda>pattern. find_trigger pattern (gr_trigger_buffer g1)) (gr_trigger_patterns g1))"
  have g1: "grammar_ok g1" "gr_rules g1 = gr_rules g" using assms(1) by (simp_all add: g1_def)
  have eq: "accept_impl find_trigger g token =
      (case hit of
         Some (Some start) \<Rightarrow>
           bind_ro (replay start (gr_trigger_buffer_positions g1) (g1\<lparr>gr_awaiting_trigger := False\<rparr>)) (\<lambda>g2.
             Some (Inr (g2\<lparr>gr_trigger_buffer := [], gr_trigger_buffer_positions := []\<rparr>)))
       | _ \<Rightarrow> Some (Inr g1))"
    using assms(2-4) unfolding accept_impl_def Let_def hit_def g1_def n_def by simp
  show ?thesis
  proof (cases "\<exists>start. hit = Some (Some start)")
    case True
    then obtain start where h: "hit = Some (Some start)" by blast
    obtain r where r: "replay start (gr_trigger_buffer_positions g1) (g1\<lparr>gr_awaiting_trigger := False\<rparr>) = Some r"
        "accept_post (g1\<lparr>gr_awaiting_trigger := False\<rparr>) r"
      using replay_post [of "g1\<lparr>gr_awaiting_trigger := False\<rparr>" start "gr_trigger_buffer_positions g1"] g1(1) by auto
    then show ?thesis using eq h g1(2) by (cases r) (simp_all add: accept_post_def)
  next
    case False
    then show ?thesis using eq g1 by (auto simp: accept_post_def split: option.splits)
  qed
qed

text \<open>C18. For a grammar with a vocabulary and with rules without left recursion (looking behind every rule whose
  language has the empty text), accepting a token returns, whatever the token, also when a lazy grammar is
  waiting, triggered or replayed. It keeps the rules, and every stack of the result is well formed and stands at
  a terminal, and there is at least one. The only ways to stop are the exception when no stack survives and
  the abort for an end of generation that the grammar does not allow. With left recursion that the
  check misses, an acceptance may not return.\<close>

theorem grammar_stays_ok:
  assumes "rules_ok (gr_rules g)" "\<not> left_recursion (gr_rules g)"
    and "stacks_ok (gr_rules g) (gr_stacks g)" "gr_stacks g \<noteq> []" "gr_vocab g = Some vocab"
  shows "\<exists>r. accept_impl find_trigger g token = Some r \<and>
    (case r of
       Inl e \<Rightarrow> e = Runtime_error ''Unexpected empty grammar stack after accepting piece'' \<or>
         e = Ggml_abort ''fatal error'' \<and> vocab_is_eog vocab token \<and> [] \<notin> set (gr_stacks g)
     | Inr g' \<Rightarrow> gr_rules g' = gr_rules g \<and> stacks_ok (gr_rules g) (gr_stacks g') \<and> gr_stacks g' \<noteq> [])"
proof -
  have ok: "grammar_ok g"
    using no_left_recursion_settles [OF assms(1,2)] assms(3,4) by (simp add: grammar_ok_def)
  have "(\<exists>r. accept_impl find_trigger g token = Some r \<and> accept_post g r) \<or>
      accept_impl find_trigger g token = Some (Inl (Ggml_abort ''fatal error'')) \<and>
      vocab_is_eog vocab token \<and> [] \<notin> set (gr_stacks g)"
  proof (cases "gr_awaiting_trigger g \<and> token \<notin> set (gr_trigger_tokens g)")
    case True
    then show ?thesis using accept_waiting [OF ok assms(5)] by blast
  next
    case False
    have "\<exists>r. accept_token (g\<lparr>gr_awaiting_trigger := False, gr_trigger_buffer := []\<rparr>) token p = Some r \<and> accept_post g r" for p
      using accept_token_post [of "g\<lparr>gr_awaiting_trigger := False, gr_trigger_buffer := []\<rparr>" token p] ok
        accept_post_rules [of "g\<lparr>gr_awaiting_trigger := False, gr_trigger_buffer := []\<rparr>" g]
      by simp
    with False show ?thesis
      using ok assms(5) accept_token_post [OF ok] by (auto simp: accept_impl_def accept_post_def Let_def)
  qed
  moreover have "accept_post g r \<Longrightarrow>
    (case r of
       Inl e \<Rightarrow> e = empty_stacks \<or> e = Ggml_abort ''fatal error'' \<and> vocab_is_eog vocab token \<and> [] \<notin> set (gr_stacks g)
     | Inr g' \<Rightarrow> gr_rules g' = gr_rules g \<and> stacks_ok (gr_rules g) (gr_stacks g') \<and> gr_stacks g' \<noteq> [])" for r
    by (auto simp: accept_post_def grammar_ok_def split: sum.splits)
  ultimately show ?thesis by auto
qed

text \<open>The witness is the grammar \<open>root ::= "a"*\<close> with the token \<open>ab\<close>, which makes it throw.\<close>

theorem grammar_stays_ok_witness:
  "\<exists>r. accept_impl (\<lambda>_ _. None) (demo_grammar demo_vocab star_rules [[], [(1, 0)]]) 1 = Some r \<and>
    (case r of
       Inl e \<Rightarrow> e = Runtime_error ''Unexpected empty grammar stack after accepting piece'' \<or>
         e = Ggml_abort ''fatal error'' \<and> vocab_is_eog demo_vocab 1 \<and> [] \<notin> set (gr_stacks (demo_grammar demo_vocab star_rules [[], [(1, 0)]]))
     | Inr g' \<Rightarrow> gr_rules g' = gr_rules (demo_grammar demo_vocab star_rules [[], [(1, 0)]]) \<and>
         stacks_ok (gr_rules (demo_grammar demo_vocab star_rules [[], [(1, 0)]])) (gr_stacks g') \<and> gr_stacks g' \<noteq> [])"
  by (rule grammar_stays_ok)
     (simp_all add: demo_grammar_def star_check, simp add: stacks_ok_def at_terminal_def ptr_ok_def els_def star_rules_def element_kinds)

text \<open>A copy has the pointers of the original.\<close>

lemma redirect_fold:
  "fold (\<lambda>ir0. fold (\<lambda>ir1 q. if p = (ir0, ir1) then (ir0, ir1) else q) (f ir0)) xs p = p"
proof -
  have "fold (\<lambda>ir1 q. if p = (ir0, ir1) then (ir0, ir1) else q) ys p = p" for ir0 :: 'a and ys :: "'b list"
    by (induction ys) simp_all
  then show ?thesis by (induction xs) simp_all
qed

lemma grammar_clone_same: "grammar_clone g = g"
  by (simp add: grammar_clone_def redirect_def redirect_fold map_idI)

section \<open>Expansion, left recursion and divergences\<close>

text \<open>C16. When the check for left recursion passes and emptiness shows in an alternate of its own, the
  expansion of every well-formed stack ends. It gives different stacks, at least one, all at a
  terminal, and together they expect the words that the stack expects.\<close>

theorem advance_ends:
  assumes "rules_ok rules" "empties_closed rules" "left_recursive rules = Some (Inr False)" "stack_ok rules s"
  shows "\<exists>new. advance_stack rules s [] = Some (Inr new) \<and> new \<noteq> [] \<and> distinct new \<and>
    (\<forall>t \<in> set new. stack_ok rules t \<and> at_terminal rules t) \<and>
    (\<forall>w. stack_derives rules s w \<longleftrightarrow> (\<exists>t \<in> set new. stack_derives rules t w))"
proof -
  have ok: "settled rules" by (rule check_settles [OF assms(1-3)])
  obtain new where new: "advance_stack rules s [] = Some (Inr new)" "set new = {t. expand rules s t}" "distinct new"
    using addsD [OF advance_total [OF ok assms(4)], of "[]"] by auto
  moreover have "new \<noteq> []" using new(2) expand_exists [of rules s] ok assms(4) by (auto simp: settled_def)
  moreover have "stack_ok rules t \<and> at_terminal rules t" if "t \<in> set new" for t
    using that new(2) expand_ok [OF _ assms(1,4)] expand_at_terminal by blast
  moreover have "stack_derives rules s w \<longleftrightarrow> (\<exists>t \<in> set new. stack_derives rules t w)" for w
    using expand_language [OF assms(4), of w] new(2) by auto
  ultimately show ?thesis by blast
qed

theorem advance_ends_witness:
  "\<exists>new. advance_stack letters_rules [(0, 2)] [] = Some (Inr new) \<and> new \<noteq> [] \<and> distinct new \<and>
    (\<forall>t \<in> set new. stack_ok letters_rules t \<and> at_terminal letters_rules t) \<and>
    (\<forall>w. stack_derives letters_rules [(0, 2)] w \<longleftrightarrow> (\<exists>t \<in> set new. stack_derives letters_rules t w))"
  by (rule advance_ends [OF letters_check])
     (simp add: ptr_ok_def els_def letters_rules_def is_end_of_sequence_def)

text \<open>C34. The check for left recursion returns on well-formed rules, and it reports left recursion iff the
  relation of leftmost references, skipping rules with an empty alternate, has a cycle.\<close>

theorem left_recursion_exact:
  assumes "rules_ok rules"
  shows "\<exists>b. left_recursive rules = Some (Inr b) \<and> (b \<longleftrightarrow> (\<exists>j. (left_of rules)\<^sup>+\<^sup>+ j j))"
  using left_recursive_result [OF assms] by blast

theorem left_recursion_exact_witness:
  "\<exists>b. left_recursive hidden_rules = Some (Inr b) \<and> (b \<longleftrightarrow> (\<exists>j. (left_of hidden_rules)\<^sup>+\<^sup>+ j j))"
  by (rule left_recursion_exact [OF hidden_check(1)])

text \<open>C38. Left recursion behind a rule that is empty only through another rule passes the check, and then
  the initialization of the grammar does not return: \<open>root ::= d root "x" | "y"\<close>, \<open>d ::= "z"?\<close>.\<close>

theorem left_recursion_missed:
  "left_recursive hidden_rules = Some (Inr False) \<and>
   grammar_init mk_regex vocab hidden_rules 0 lazy patterns n_patterns tokens n_tokens = None"
proof -
  have "copy_rules hidden_rules = Inr hidden_rules" by (simp add: hidden_rules_def)
  moreover have "start_stacks hidden_rules 0 = None"
    using hidden_advance [of "[]" "[]"]
    by (simp add: start_stacks_def push_unless_end_def els_def is_end_of_sequence_def hidden_rules_def cong: weak_congs)
  ultimately show ?thesis using hidden_check(2) by (simp add: grammar_init_def)
qed

text \<open>
  The grammar \<open>root ::= "a" !<[7]>\<close> and a token with the text \<open>ab\<close>. The mask compares the id of the token
  with the token element although the token has text left; the acceptance skips a token element in the
  middle of a token.
\<close>

definition token_rules :: llama_grammar_rules where
  "token_rules =
    [[\<lparr>el_type = LLAMA_GRETYPE_CHAR, el_value = 0x61\<rparr>, \<lparr>el_type = LLAMA_GRETYPE_TOKEN_NOT, el_value = 7\<rparr>,
      \<lparr>el_type = LLAMA_GRETYPE_END, el_value = 0\<rparr>]]"

lemma token_stacks: "left_recursive token_rules = Some (Inr False)" "start_stacks token_rules 0 = Some (Inr [[(0, 0)]])"
  "accept_chr token_rules [(0, 0)] 0x61 [] = Some (Inr [[(0, 1)]])"
  "accept_chr token_rules [(0, 1)] 0x62 [] = Some (Inr [])"
  by (simp_all add: grammar_eval start_stacks_def token_rules_def cong: weak_congs)

lemma decode_ab: "decode_utf8 [0x61, 0x62] \<lparr>pu_value = 0, pu_n_remain = 0\<rparr> =
    ([0x61, 0x62, 0], \<lparr>pu_value = 0x62, pu_n_remain = 0\<rparr>)"
  by code_simp

lemma token_init:
  "grammar_init mk_regex (Some demo_vocab) token_rules 0 False None 0 None 0 = Some (Inr (Some (demo_grammar demo_vocab token_rules [[(0, 0)]])))"
proof -
  have "copy_rules token_rules = Inr token_rules" by (simp add: token_rules_def)
  then show ?thesis using token_stacks by (simp add: grammar_init_def demo_grammar_def)
qed

text \<open>A grammar with a token element behind text can leave the logit of a token alone that it then
  refuses to accept: the acceptance of the sampled token throws.\<close>

lemma apply_admits_refused_token:
  "\<exists>g. grammar_init (mk_regex :: bytes \<Rightarrow> nat option) (Some demo_vocab) token_rules 0 False None 0 None 0 = Some (Inr (Some g)) \<and>
    apply_impl ninf g [\<lparr>td_id = 1, td_logit = l, td_p = p\<rparr>] = Some (Inr [\<lparr>td_id = 1, td_logit = l, td_p = p\<rparr>]) \<and>
    accept_impl find_trigger g 1 = Some (Inl (Runtime_error ''Unexpected empty grammar stack after accepting piece''))"
proof (intro exI conjI)
  let ?g = "demo_grammar demo_vocab token_rules [[(0, 0)]]"
  let ?c = "\<lparr>cand_index = 0, cand_code_points = [0x61, 0x62, 0], cand_off = 0,
      cand_partial = \<lparr>pu_value = 0x62, pu_n_remain = 0\<rparr>, cand_id = 1\<rparr>"
  show "grammar_init mk_regex (Some demo_vocab) token_rules 0 False None 0 None 0 = Some (Inr (Some ?g))" by (rule token_init)
  have second: "reject_candidates_for_stack token_rules [(0, 1)] [cand_next ?c] = Some (Inr [])"
    by (subst reject_candidates_for_stack.simps)
       (simp add: els_def token_rules_def is_token_element_def reject_at_token_def cand_cp_def cand_next_def match_token_def)
  have adv: "advance_stack token_rules [(0, 1)] [] = Some (Inr [[(0, 1)]])"
    by (simp add: grammar_eval token_rules_def cong: weak_congs)
  have "reject_candidates_for_stack token_rules [(0, 0)] [?c] = Some (Inr [])"
    using second adv
    by (subst reject_candidates_for_stack.simps)
       (simp add: els_def token_rules_def is_token_element_def test_at_char_def cand_cp_def match_char_def is_positive_char_def
          push_unless_end_def ptr_add_def is_end_of_sequence_def reject_loop_def)
  then show "apply_impl ninf ?g [\<lparr>td_id = 1, td_logit = l, td_p = p\<rparr>] = Some (Inr [\<lparr>td_id = 1, td_logit = l, td_p = p\<rparr>])"
    using decode_ab
    by (simp add: apply_impl_def demo_grammar_def demo_vocab_def reject_candidates_def reject_loop_def)
  have "token_chars token_rules [0x61, 0x62] [[(0, 0)]] = Some (Inr [])"
    using token_stacks(3,4) by (simp add: accept_stacks_def)
  then have "token_stack token_rules 1 [0x61, 0x62, 0] [(0, 0)] [] = Some (Inr [])"
    by (simp add: token_stack_def els_def token_rules_def is_token_element_def)
  then show "accept_impl find_trigger ?g 1 = Some (Inl (Runtime_error ''Unexpected empty grammar stack after accepting piece''))"
    using decode_ab by (simp add: accept_impl_def accept_token_def demo_grammar_def demo_vocab_def)
qed

section \<open>Partial characters\<close>








end
