(* ===== verification/GrammarParse.thy ===== *)
theory GrammarParse
  imports GrammarState
begin

unbundle bit_operations_syntax

text \<open>
  The parser of grammar texts (\<open>llama_grammar_parser\<close> in \<open>src/llama-grammar.cpp\<close>) and the initialization
  of a grammar from a text. A position in the source is the list of bytes from there on; a zero
  byte ends it like the end of the list. Exceptions are values of the sum; \<open>parse\<close> catches them.
\<close>

section \<open>Characters and numbers\<close>

abbreviation byte :: "char \<Rightarrow> 8 word" where
  "byte c \<equiv> of_char c"

text \<open>\<open>*pos\<close>, with the terminator behind the last byte.\<close>

definition cur :: "bytes \<Rightarrow> 8 word" where
  "cur pos = (case pos of [] \<Rightarrow> 0 | c # _ \<Rightarrow> c)"

definition lookup_len :: "nat list" where
  "lookup_len = [1, 1, 1, 1, 1, 1, 1, 1, 1, 1, 1, 1, 2, 2, 3, 4]"

fun decode_one_loop :: "nat \<Rightarrow> bytes \<Rightarrow> code_point \<Rightarrow> code_point \<times> bytes" where
  "decode_one_loop 0 pos value = (value, pos)"
| "decode_one_loop (Suc n) [] value = (value, [])"
| "decode_one_loop (Suc n) (b # pos) value =
    (if b \<noteq> 0 then decode_one_loop n pos (add_byte value b) else (value, b # pos))"

definition decode_utf8_one :: "bytes \<Rightarrow> code_point \<times> bytes" where
  "decode_utf8_one src =
    (let first_byte = cur src;
         len = lookup_len ! unat (drop_bit 4 first_byte);
         mask = push_bit (8 - len) 1 - 1
     in decode_one_loop (len - 1) (tl src) (ucast (first_byte AND mask)))"

definition is_digit_char :: "8 word \<Rightarrow> bool" where
  "is_digit_char c \<longleftrightarrow> byte CHR ''0'' \<le> c \<and> c \<le> byte CHR ''9''"

definition is_word_char :: "8 word \<Rightarrow> bool" where
  "is_word_char c \<longleftrightarrow> (byte CHR ''a'' \<le> c \<and> c \<le> byte CHR ''z'') \<or> (byte CHR ''A'' \<le> c \<and> c \<le> byte CHR ''Z'') \<or>
    c = byte CHR ''-'' \<or> is_digit_char c"

definition hex_digit :: "8 word \<Rightarrow> code_point option" where
  "hex_digit c =
    (if byte CHR ''a'' \<le> c \<and> c \<le> byte CHR ''f'' then Some (ucast (c - byte CHR ''a'') + 10)
     else if byte CHR ''A'' \<le> c \<and> c \<le> byte CHR ''F'' then Some (ucast (c - byte CHR ''A'') + 10)
     else if byte CHR ''0'' \<le> c \<and> c \<le> byte CHR ''9'' then Some (ucast (c - byte CHR ''0''))
     else None)"

fun hex_loop :: "nat \<Rightarrow> bytes \<Rightarrow> code_point \<Rightarrow> (code_point \<times> bytes) res" where
  "hex_loop 0 pos value = Inr (value, pos)"
| "hex_loop (Suc n) [] value = Inl (Runtime_error ''expecting hex chars'')"
| "hex_loop (Suc n) (c # pos) value =
    (if c = 0 then Inl (Runtime_error ''expecting hex chars'')
     else case hex_digit c of
            None \<Rightarrow> Inl (Runtime_error ''expecting hex chars'')
          | Some d \<Rightarrow> hex_loop n pos (push_bit 4 value + d))"

definition parse_hex :: "bytes \<Rightarrow> nat \<Rightarrow> (code_point \<times> bytes) res" where
  "parse_hex src n = hex_loop n src 0"

definition is_newline :: "8 word \<Rightarrow> bool" where
  "is_newline c \<longleftrightarrow> c = 0x0D \<or> c = 0x0A"

function parse_space :: "bytes \<Rightarrow> bool \<Rightarrow> bytes" where
  "parse_space [] newline_ok = []"
| "parse_space (c # pos) newline_ok =
    (if c = byte CHR '' '' \<or> c = 0x09 \<or> (newline_ok \<and> is_newline c) then parse_space pos newline_ok
     else if c = byte CHR ''#'' then parse_space (dropWhile (\<lambda>c. c \<noteq> 0 \<and> \<not> is_newline c) pos) newline_ok
     else c # pos)"
  by pat_completeness auto
termination
  by (relation "measure (length \<circ> fst)") (auto simp: less_Suc_eq_le length_dropWhile_le)

definition parse_name :: "bytes \<Rightarrow> (bytes \<times> bytes) res" where
  "parse_name src =
    (let name = takeWhile is_word_char src
     in if name = [] then Inl (Runtime_error ''expecting name'') else Inr (name, dropWhile is_word_char src))"

definition parse_int :: "bytes \<Rightarrow> (bytes \<times> bytes) res" where
  "parse_int src =
    (let digits = takeWhile is_digit_char src
     in if digits = [] then Inl (Runtime_error ''expecting integer'') else Inr (digits, dropWhile is_digit_char src))"

text \<open>\<open>std::stoul\<close> of decimal digits, on a 64-bit \<open>unsigned long\<close>, and \<open>std::to_string\<close>.\<close>

definition digits_value :: "bytes \<Rightarrow> nat" where
  "digits_value ds = foldl (\<lambda>v d. v * 10 + (unat d - 48)) 0 ds"

definition UINT64_MAX :: nat where
  "UINT64_MAX = 2 ^ 64 - 1"

definition stoul :: "bytes \<Rightarrow> nat res" where
  "stoul ds = (if digits_value ds > UINT64_MAX then Inl (Out_of_range ''stoul'') else Inr (digits_value ds))"

fun to_string :: "nat \<Rightarrow> bytes" where
  "to_string n = (if n < 10 then [word_of_nat (48 + n)] else to_string (n div 10) @ [word_of_nat (48 + n mod 10)])"

declare to_string.simps [simp del]

definition parse_char :: "bytes \<Rightarrow> (code_point \<times> bytes) res" where
  "parse_char src =
    (if cur src = byte CHR 0x5C then
       (let c = cur (tl src); rest = drop 2 src
        in if c = byte CHR ''x'' then parse_hex rest 2
           else if c = byte CHR ''u'' then parse_hex rest 4
           else if c = byte CHR ''U'' then parse_hex rest 8
           else if c = byte CHR ''t'' then Inr (0x09, rest)
           else if c = byte CHR ''r'' then Inr (0x0D, rest)
           else if c = byte CHR ''n'' then Inr (0x0A, rest)
           else if c = byte CHR 0x5C \<or> c = byte CHR 0x22 \<or> c = byte CHR ''['' \<or> c = byte CHR '']'' then Inr (ucast c, rest)
           else Inl (Runtime_error ''unknown escape''))
     else if cur src \<noteq> 0 then Inr (decode_utf8_one src)
     else Inl (Runtime_error ''unexpected end of input''))"

text \<open>A token: by its number, or by a text that the vocabulary turns into exactly one token.\<close>

definition parse_token :: "llama_vocab option \<Rightarrow> bytes \<Rightarrow> (32 word \<times> bytes) res" where
  "parse_token vocab src =
    (if cur src \<noteq> byte CHR ''<'' then Inl (Runtime_error ''expecting <'')
     else if cur (tl src) = byte CHR ''['' then
       bind_res (parse_int (drop 2 src)) (\<lambda>(digits, pos).
       bind_res (stoul digits) (\<lambda>token_id.
         if cur pos \<noteq> byte CHR '']'' then Inl (Runtime_error ''expecting ]'')
         else if cur (tl pos) \<noteq> byte CHR ''>'' then Inl (Runtime_error ''expecting >'')
         else Inr (word_of_nat token_id, drop 2 pos)))
     else case vocab of
            None \<Rightarrow> Inl (Runtime_error ''no vocab to parse token'')
          | Some v \<Rightarrow>
              let body = takeWhile (\<lambda>c. c \<noteq> 0 \<and> c \<noteq> byte CHR ''>'') (tl src);
                  pos = dropWhile (\<lambda>c. c \<noteq> 0 \<and> c \<noteq> byte CHR ''>'') (tl src)
              in if cur pos \<noteq> byte CHR ''>'' then Inl (Runtime_error ''expecting >'')
                 else case vocab_tokenize v (take 1 src @ body @ take 1 pos) of
                        [token] \<Rightarrow> Inr (word_of_int token, tl pos)
                      | _ \<Rightarrow> Inl (Runtime_error ''invalid token''))"

section \<open>The parser\<close>

record llama_grammar_parser =
  pr_vocab :: "llama_vocab option"
  pr_symbol_ids :: "(bytes \<times> 32 word) list"
  pr_rules :: llama_grammar_rules

definition next_id :: "llama_grammar_parser \<Rightarrow> 32 word" where
  "next_id ps = word_of_nat (length (pr_symbol_ids ps))"

text \<open>\<open>emplace\<close> keeps the entry of a known name, \<open>operator[]\<close> overwrites it.\<close>

definition get_symbol_id :: "bytes \<Rightarrow> llama_grammar_parser \<Rightarrow> 32 word \<times> llama_grammar_parser" where
  "get_symbol_id name ps =
    (case map_of (pr_symbol_ids ps) name of
       Some i \<Rightarrow> (i, ps)
     | None \<Rightarrow> (next_id ps, ps\<lparr>pr_symbol_ids := pr_symbol_ids ps @ [(name, next_id ps)]\<rparr>))"

definition generate_symbol_id :: "bytes \<Rightarrow> llama_grammar_parser \<Rightarrow> 32 word \<times> llama_grammar_parser" where
  "generate_symbol_id base_name ps =
    (let i = next_id ps; name = base_name @ [byte CHR ''_''] @ to_string (unat i)
     in (i, ps\<lparr>pr_symbol_ids :=
              (if map_of (pr_symbol_ids ps) name = None then pr_symbol_ids ps @ [(name, i)]
               else map (\<lambda>(n, j). (n, if n = name then i else j)) (pr_symbol_ids ps))\<rparr>))"

text \<open>\<open>rule_id + 1\<close> is computed in 32 bits.\<close>

definition add_rule :: "32 word \<Rightarrow> llama_grammar_rule \<Rightarrow> llama_grammar_parser \<Rightarrow> llama_grammar_parser res" where
  "add_rule rule_id rule ps =
    (let rules = (if length (pr_rules ps) \<le> unat rule_id then vec_resize (unat (rule_id + 1)) [] (pr_rules ps)
                  else pr_rules ps)
     in if unat rule_id < length rules then Inr (ps\<lparr>pr_rules := rules[unat rule_id := rule]\<rparr>) else Inl oob)"

abbreviation elem :: "llama_gretype \<Rightarrow> 32 word \<Rightarrow> llama_grammar_element" where
  "elem t v \<equiv> \<lparr>el_type = t, el_value = v\<rparr>"

text \<open>The loop that defines the rules of the optional repetitions; the first argument is the number of passes to go.\<close>

fun rec_rules ::
    "nat \<Rightarrow> nat \<Rightarrow> llama_grammar_rule \<Rightarrow> bool \<Rightarrow> bytes \<Rightarrow> 32 word \<Rightarrow> llama_grammar_parser \<Rightarrow>
     (32 word \<times> llama_grammar_parser) res" where
  "rec_rules 0 i prev_rule no_max rule_name last_rec_rule_id ps = Inr (last_rec_rule_id, ps)"
| "rec_rules (Suc k) i prev_rule no_max rule_name last_rec_rule_id ps =
    (let (rec_rule_id, ps1) = generate_symbol_id rule_name ps;
         rec_rule = prev_rule @
           (if i > 0 \<or> no_max then [elem LLAMA_GRETYPE_RULE_REF (if no_max then rec_rule_id else last_rec_rule_id)] else []) @
           [elem LLAMA_GRETYPE_ALT 0, elem LLAMA_GRETYPE_END 0]
     in bind_res (add_rule rec_rule_id rec_rule ps1) (\<lambda>ps2.
          rec_rules k (i + 1) prev_rule no_max rule_name rec_rule_id ps2))"

definition repetition_count :: "nat \<Rightarrow> nat \<Rightarrow> nat" where
  "repetition_count min_times max_times =
    (if max_times = UINT64_MAX then 1 else (max_times + 2 ^ 64 - min_times) mod 2 ^ 64)"

definition handle_repetitions ::
    "nat \<Rightarrow> nat \<Rightarrow> bytes \<Rightarrow> llama_grammar_rule \<Rightarrow> nat \<Rightarrow> llama_grammar_parser \<Rightarrow>
     (llama_grammar_rule \<times> llama_grammar_parser) res" where
  "handle_repetitions min_times max_times rule_name rule last_sym_start ps =
    (let no_max = (max_times = UINT64_MAX)
     in if last_sym_start = length rule then Inl (Runtime_error ''expecting preceding item'')
        else
          let prev_rule = drop last_sym_start rule;
              rule1 = (if min_times = 0 then take last_sym_start rule
                       else rule @ concat (replicate (min_times - 1) prev_rule));
              n_opt = repetition_count min_times max_times
          in bind_res (rec_rules n_opt 0 prev_rule no_max rule_name 0 ps) (\<lambda>(last_rec_rule_id, ps1).
               Inr (if n_opt > 0 then rule1 @ [elem LLAMA_GRETYPE_RULE_REF last_rec_rule_id] else rule1, ps1)))"

section \<open>Items of a sequence\<close>

text \<open>A character that is read moves the position on.\<close>

lemma decode_one_loop_length: "length (snd (decode_one_loop n pos v)) \<le> length pos"
  by (induction n pos v rule: decode_one_loop.induct) auto

lemma hex_loop_length: "hex_loop n pos v = Inr (c, pos') \<Longrightarrow> length pos' \<le> length pos"
  by (induction n pos v rule: hex_loop.induct) (auto split: if_splits option.splits)

lemma parse_char_cases:
  assumes "parse_char pos = Inr (c, pos')"
  shows "pos' = drop 2 pos \<or> (\<exists>n. parse_hex (drop 2 pos) n = Inr (c, pos')) \<or> decode_utf8_one pos = (c, pos')"
proof (rule ccontr)
  assume no: "\<not> ?thesis"
  then have "parse_hex (drop 2 pos) n \<noteq> Inr (c, pos')" "Inr (x, drop 2 pos) \<noteq> (Inr (c, pos') :: _ res)"
      "Inr (decode_utf8_one pos) \<noteq> (Inr (c, pos') :: _ res)" for n x
    by auto
  then show False
    using assms unfolding parse_char_def Let_def by (simp only: if_distrib [of "\<lambda>x. x = _"] Inl_Inr_False if_cancel)
qed

lemma parse_char_length:
  assumes "parse_char pos = Inr (c, pos')"
  shows "length pos' < length pos"
proof -
  obtain d rest where pos: "pos = d # rest"
    using assms by (cases pos) (simp_all add: parse_char_def cur_def)
  have "decode_utf8_one pos = (c, pos') \<Longrightarrow> length pos' \<le> length rest"
    using decode_one_loop_length pos unfolding decode_utf8_one_def Let_def by (metis list.sel(3) snd_conv)
  moreover have "parse_hex (drop 2 pos) n = Inr (c, pos') \<Longrightarrow> length pos' \<le> length rest" for n
    using hex_loop_length [of n "drop 2 pos" 0] pos unfolding parse_hex_def by fastforce
  ultimately show ?thesis using parse_char_cases [OF assms] pos by fastforce
qed

lemma bind_res_cong [fundef_cong]:
  "x = x' \<Longrightarrow> (\<And>v. x' = Inr v \<Longrightarrow> f v = g v) \<Longrightarrow> bind_res x f = bind_res x' g"
  by (cases x') auto

function literal_loop :: "bytes \<Rightarrow> llama_grammar_rule \<Rightarrow> (bytes \<times> llama_grammar_rule) res" where
  "literal_loop pos rule =
    (if cur pos = byte CHR 0x22 then Inr (pos, rule)
     else if cur pos = 0 then Inl (Runtime_error ''unexpected end of input'')
     else bind_res (parse_char pos) (\<lambda>(c, pos'). literal_loop pos' (rule @ [elem LLAMA_GRETYPE_CHAR c])))"
  by pat_completeness auto
termination
  by (relation "measure (length \<circ> fst)") (auto dest: parse_char_length)

declare literal_loop.simps [simp del]

function class_loop :: "llama_gretype \<Rightarrow> nat \<Rightarrow> bytes \<Rightarrow> llama_grammar_rule \<Rightarrow> (bytes \<times> llama_grammar_rule) res" where
  "class_loop start_type last_sym_start pos rule =
    (if cur pos = byte CHR '']'' then Inr (pos, rule)
     else if cur pos = 0 then Inl (Runtime_error ''unexpected end of input'')
     else bind_res (parse_char pos) (\<lambda>(c, pos1).
       let rule1 = rule @ [elem (if last_sym_start < length rule then LLAMA_GRETYPE_CHAR_ALT else start_type) c]
       in if cur pos1 = byte CHR ''-'' \<and> cur (tl pos1) \<noteq> byte CHR '']'' then
            (if cur (tl pos1) = 0 then Inl (Runtime_error ''unexpected end of input'')
             else bind_res (parse_char (tl pos1)) (\<lambda>(u, pos2).
               class_loop start_type last_sym_start pos2 (rule1 @ [elem LLAMA_GRETYPE_CHAR_RNG_UPPER u])))
          else class_loop start_type last_sym_start pos1 rule1))"
  by pat_completeness auto
termination
  by (relation "measure (\<lambda>(_, _, pos, _). length pos)") (fastforce dest: parse_char_length)+

declare class_loop.simps [simp del]

definition MAX_REPETITION_THRESHOLD :: nat where
  "MAX_REPETITION_THRESHOLD = 2000"

text \<open>The bounds of \<open>{m}\<close>, \<open>{m,}\<close> and \<open>{m,n}\<close>, with the position behind the brace.\<close>

definition parse_bounds :: "bytes \<Rightarrow> bool \<Rightarrow> (nat \<times> nat \<times> bytes) res" where
  "parse_bounds pos is_nested =
    (if \<not> is_digit_char (cur pos) then Inl (Runtime_error ''expecting an int'')
     else bind_res (parse_int pos) (\<lambda>(digits, int_end).
       bind_res (stoul digits) (\<lambda>min_times.
         let pos1 = parse_space int_end is_nested
         in bind_res
              (if cur pos1 = byte CHR ''}'' then Inr (min_times, parse_space (tl pos1) is_nested)
               else if cur pos1 = byte CHR '','' then
                 (let pos2 = parse_space (tl pos1) is_nested
                  in bind_res
                       (if is_digit_char (cur pos2) then
                          bind_res (parse_int pos2) (\<lambda>(digits, int_end).
                          bind_res (stoul digits) (\<lambda>max_times. Inr (max_times, parse_space int_end is_nested)))
                        else Inr (UINT64_MAX, pos2))
                       (\<lambda>(max_times, pos3).
                          if cur pos3 \<noteq> byte CHR ''}'' then Inl (Runtime_error ''expecting }'')
                          else Inr (max_times, parse_space (tl pos3) is_nested)))
               else Inl (Runtime_error ''expecting ,''))
              (\<lambda>(max_times, pos4).
                 if min_times > MAX_REPETITION_THRESHOLD \<or>
                    (max_times \<noteq> UINT64_MAX \<and> max_times > MAX_REPETITION_THRESHOLD)
                 then Inl (Runtime_error ''number of repetitions exceeds sane defaults'')
                 else Inr (min_times, max_times, pos4)))))"

text \<open>
  An item of a sequence that is not a group: the new position, the rule, the start of the last
  symbol and the parser. \<^term>\<open>None\<close> is the \<open>break\<close> at a character that starts no item.
\<close>

definition parse_repeated ::
    "nat \<Rightarrow> nat \<Rightarrow> bytes \<Rightarrow> bytes \<Rightarrow> llama_grammar_rule \<Rightarrow> nat \<Rightarrow> llama_grammar_parser \<Rightarrow>
     (bytes \<times> llama_grammar_rule \<times> nat \<times> llama_grammar_parser) res" where
  "parse_repeated min_times max_times pos rule_name rule last_sym_start ps =
    bind_res (handle_repetitions min_times max_times rule_name rule last_sym_start ps) (\<lambda>(rule1, ps1).
      Inr (pos, rule1, last_sym_start, ps1))"

definition parse_item ::
    "bytes \<Rightarrow> bytes \<Rightarrow> llama_grammar_rule \<Rightarrow> nat \<Rightarrow> bool \<Rightarrow> llama_grammar_parser \<Rightarrow>
     (bytes \<times> llama_grammar_rule \<times> nat \<times> llama_grammar_parser) res option" where
  "parse_item pos rule_name rule last_sym_start is_nested ps =
    (let c = cur pos
     in if c = byte CHR 0x22 then
          Some (bind_res (literal_loop (tl pos) rule) (\<lambda>(pos1, rule1).
            Inr (parse_space (tl pos1) is_nested, rule1, length rule, ps)))
        else if c = byte CHR ''['' then
          (let inverse = (cur (tl pos) = byte CHR 0x5E)
           in Some (bind_res
                (class_loop (if inverse then LLAMA_GRETYPE_CHAR_NOT else LLAMA_GRETYPE_CHAR) (length rule)
                   (if inverse then drop 2 pos else tl pos) rule) (\<lambda>(pos1, rule1).
                Inr (parse_space (tl pos1) is_nested, rule1, length rule, ps))))
        else if c = byte CHR ''<'' \<or> c = byte CHR 0x21 then
          Some (bind_res (parse_token (pr_vocab ps) (if c = byte CHR 0x21 then tl pos else pos)) (\<lambda>(token, token_end).
            Inr (parse_space token_end is_nested,
                 rule @ [elem (if c = byte CHR 0x21 then LLAMA_GRETYPE_TOKEN_NOT else LLAMA_GRETYPE_TOKEN) token],
                 length rule, ps)))
        else if is_word_char c then
          Some (bind_res (parse_name pos) (\<lambda>(name, name_end).
            let (ref_rule_id, ps1) = get_symbol_id name ps
            in Inr (parse_space name_end is_nested, rule @ [elem LLAMA_GRETYPE_RULE_REF ref_rule_id], length rule, ps1)))
        else if c = byte CHR ''.'' then
          Some (Inr (parse_space (tl pos) is_nested, rule @ [elem LLAMA_GRETYPE_CHAR_ANY 0], length rule, ps))
        else if c = byte CHR ''*'' then
          Some (parse_repeated 0 UINT64_MAX (parse_space (tl pos) is_nested) rule_name rule last_sym_start ps)
        else if c = byte CHR ''+'' then
          Some (parse_repeated 1 UINT64_MAX (parse_space (tl pos) is_nested) rule_name rule last_sym_start ps)
        else if c = byte CHR ''?'' then
          Some (parse_repeated 0 1 (parse_space (tl pos) is_nested) rule_name rule last_sym_start ps)
        else if c = byte CHR 0x7B then
          Some (bind_res (parse_bounds (parse_space (tl pos) is_nested) is_nested) (\<lambda>(min_times, max_times, pos1).
            parse_repeated min_times max_times pos1 rule_name rule last_sym_start ps))
        else None)"

section \<open>Sequences, alternates and rules\<close>

text \<open>
  Sequences and alternates call each other through groups. The first argument bounds the depth of
  the calls, loops included; \<^term>\<open>None\<close> is that it was too small. \<open>parse_rule\<close> gives twice
  the number of bytes to read and 2, which \<open>parse_returns\<close> shows to be enough.
\<close>

function (sequential) parse_sequence ::
      "nat \<Rightarrow> bytes \<Rightarrow> bytes \<Rightarrow> llama_grammar_rule \<Rightarrow> nat \<Rightarrow> bool \<Rightarrow> llama_grammar_parser \<Rightarrow>
       (bytes \<times> llama_grammar_rule \<times> llama_grammar_parser) res option"
  and parse_alternates ::
      "nat \<Rightarrow> bytes \<Rightarrow> bytes \<Rightarrow> 32 word \<Rightarrow> bool \<Rightarrow> llama_grammar_parser \<Rightarrow>
       (bytes \<times> llama_grammar_parser) res option"
  and alternates_rest ::
      "nat \<Rightarrow> bytes \<Rightarrow> bytes \<Rightarrow> llama_grammar_rule \<Rightarrow> 32 word \<Rightarrow> bool \<Rightarrow> llama_grammar_parser \<Rightarrow>
       (bytes \<times> llama_grammar_parser) res option" where
  "parse_sequence 0 pos rule_name rule last_sym_start is_nested ps = None"
| "parse_sequence (Suc n) pos rule_name rule last_sym_start is_nested ps =
    (if cur pos = 0 then Some (Inr (pos, rule, ps))
     else if cur pos = byte CHR ''('' then
       (case generate_symbol_id rule_name ps of (sub_rule_id, ps1) \<Rightarrow>
          bind_ro (parse_alternates n (parse_space (tl pos) True) rule_name sub_rule_id True ps1) (\<lambda>(pos1, ps2).
            if cur pos1 \<noteq> byte CHR '')'' then Some (Inl (Runtime_error ''expecting )''))
            else parse_sequence n (parse_space (tl pos1) is_nested) rule_name
                   (rule @ [elem LLAMA_GRETYPE_RULE_REF sub_rule_id]) (length rule) is_nested ps2))
     else
       (case parse_item pos rule_name rule last_sym_start is_nested ps of
          None \<Rightarrow> Some (Inr (pos, rule, ps))
        | Some r \<Rightarrow> bind_ro (Some r) (\<lambda>(pos1, rule1, last_sym_start1, ps1).
            parse_sequence n pos1 rule_name rule1 last_sym_start1 is_nested ps1)))"
| "parse_alternates 0 src rule_name rule_id is_nested ps = None"
| "parse_alternates (Suc n) src rule_name rule_id is_nested ps =
    bind_ro (parse_sequence n src rule_name [] 0 is_nested ps) (\<lambda>(pos, rule, ps1).
      alternates_rest n pos rule_name rule rule_id is_nested ps1)"
| "alternates_rest 0 pos rule_name rule rule_id is_nested ps = None"
| "alternates_rest (Suc n) pos rule_name rule rule_id is_nested ps =
    (if cur pos = byte CHR 0x7C then
       bind_ro (parse_sequence n (parse_space (tl pos) True) rule_name (rule @ [elem LLAMA_GRETYPE_ALT 0])
                  (length rule + 1) is_nested ps) (\<lambda>(pos1, rule1, ps1).
         alternates_rest n pos1 rule_name rule1 rule_id is_nested ps1)
     else bind_ro (Some (add_rule rule_id (rule @ [elem LLAMA_GRETYPE_END 0]) ps)) (\<lambda>ps1. Some (Inr (pos, ps1))))"
  by pat_completeness auto
termination
  by (relation "measure (case_sum fst (case_sum fst fst))") simp_all

definition parse_rule :: "bytes \<Rightarrow> llama_grammar_parser \<Rightarrow> (bytes \<times> llama_grammar_parser) res option" where
  "parse_rule src ps =
    bind_ro (Some (parse_name src)) (\<lambda>(name, name_end).
      let pos = parse_space name_end False;
          (rule_id, ps1) = get_symbol_id name ps
      in if \<not> (cur pos = byte CHR 0x3A \<and> cur (tl pos) = byte CHR 0x3A \<and> cur (drop 2 pos) = byte CHR 0x3D)
         then Some (Inl (Runtime_error ''expecting ::=''))
         else
           let pos1 = parse_space (drop 3 pos) True
           in bind_ro (parse_alternates (2 * length pos1 + 2) pos1 name rule_id False ps1) (\<lambda>(pos2, ps2).
                if cur pos2 = 0x0D then Some (Inr (parse_space (drop (if cur (tl pos2) = 0x0A then 2 else 1) pos2) True, ps2))
                else if cur pos2 = 0x0A then Some (Inr (parse_space (tl pos2) True, ps2))
                else if cur pos2 \<noteq> 0 then Some (Inl (Runtime_error ''expecting newline or end''))
                else Some (Inr (parse_space pos2 True, ps2))))"

text \<open>The loop over the rules of a text, each of which takes at least one byte.\<close>

fun parse_rules :: "nat \<Rightarrow> bytes \<Rightarrow> llama_grammar_parser \<Rightarrow> llama_grammar_parser res option" where
  "parse_rules 0 pos ps = None"
| "parse_rules (Suc n) pos ps =
    (if cur pos = 0 then Some (Inr ps)
     else bind_ro (parse_rule pos ps) (\<lambda>(pos1, ps1). parse_rules n pos1 ps1))"

text \<open>The validation: an undefined rule, or a reference to one by the name of a symbol.\<close>

definition undefined_ref :: "llama_grammar_parser \<Rightarrow> llama_grammar_element \<Rightarrow> bool" where
  "undefined_ref ps e \<longleftrightarrow>
    el_type e = LLAMA_GRETYPE_RULE_REF \<and>
    (length (pr_rules ps) \<le> unat (el_value e) \<or> pr_rules ps ! unat (el_value e) = []) \<and>
    (\<exists>kv \<in> set (pr_symbol_ids ps). snd kv = el_value e)"

definition validate_rules :: "llama_grammar_parser \<Rightarrow> unit res" where
  "validate_rules ps =
    (if \<exists>rule \<in> set (pr_rules ps). rule = [] \<or> (\<exists>e \<in> set rule. undefined_ref ps e)
     then Inl (Runtime_error ''Undefined rule'') else Inr ())"

definition is_std_exception :: "fault \<Rightarrow> bool" where
  "is_std_exception e = (case e of Runtime_error _ \<Rightarrow> True | Length_error _ \<Rightarrow> True | Invalid_argument _ \<Rightarrow> True
     | Out_of_range _ \<Rightarrow> True | _ \<Rightarrow> False)"

text \<open>
  The inner \<^term>\<open>None\<close> is the result \<open>false\<close>: an exception was caught, and the parser, which its
  caller drops, has no rules.
\<close>

definition parse :: "llama_grammar_parser \<Rightarrow> bytes \<Rightarrow> llama_grammar_parser option res option" where
  "parse ps src =
    (case bind_ro (parse_rules (length src + 1) (parse_space src True) ps) (\<lambda>ps1.
            bind_ro (Some (validate_rules ps1)) (\<lambda>_. Some (Inr ps1))) of
       None \<Rightarrow> None
     | Some (Inl e) \<Rightarrow> Some (if is_std_exception e then Inr None else Inl e)
     | Some (Inr ps1) \<Rightarrow> Some (Inr (Some ps1)))"

definition ascii :: "string \<Rightarrow> bytes" where
  "ascii s = map of_char s"

text \<open>
  The initialization of a grammar from a text, \<open>None\<close> standing for \<open>nullptr\<close> again. The start rule
  is looked up with \<open>at\<close>, which throws for an unknown name.
\<close>

definition grammar_init_str ::
    "(bytes \<Rightarrow> 'p option) \<Rightarrow> llama_vocab option \<Rightarrow> bytes \<Rightarrow> bytes \<Rightarrow> bool \<Rightarrow>
     bytes list option \<Rightarrow> nat \<Rightarrow> llama_token list option \<Rightarrow> nat \<Rightarrow> 'p llama_grammar option res option" where
  "grammar_init_str mk_regex vocab grammar_str grammar_root lazy
      trigger_patterns num_trigger_patterns trigger_tokens num_trigger_tokens =
    bind_ro (parse \<lparr>pr_vocab = vocab, pr_symbol_ids = [], pr_rules = []\<rparr> grammar_str) (\<lambda>parsed.
      case parsed of
        None \<Rightarrow> Some (Inr None)
      | Some parser \<Rightarrow>
          if pr_rules parser = [] then Some (Inr None)
          else if map_of (pr_symbol_ids parser) (ascii ''root'') = None then Some (Inr None)
          else case map_of (pr_symbol_ids parser) grammar_root of
                 None \<Rightarrow> Some (Inl (Out_of_range ''map::at''))
               | Some start_rule_index \<Rightarrow>
                   grammar_init mk_regex vocab (pr_rules parser) (unat start_rule_index) lazy
                     trigger_patterns num_trigger_patterns trigger_tokens num_trigger_tokens)"

end
