(* ===== verification/GrammarText.thy ===== *)
theory GrammarText
  imports GrammarParse
begin

text \<open>
  What the parser of grammar texts does: it returns for every text, the rules it gives have the
  shape that the engine needs, a repetition means what its bounds say, and a grammar initialized from a
  text never makes the engine fault when its start rule is defined.
\<close>

section \<open>Progress\<close>

lemma if_eqE: "(if b then x else y) = z \<Longrightarrow> (x = z \<Longrightarrow> P) \<Longrightarrow> (y = z \<Longrightarrow> P) \<Longrightarrow> P"
  by (cases b) auto

lemma if_either: "(if b then x else y) = y \<or> (if b then x else y) = x"
  by simp

lemma parse_item_elim:
  assumes "parse_item pos nm rule last_start nested ps = Some (Inr (pos', rule', last', ps'))"
  obtains (literal) pos1 where "literal_loop (tl pos) rule = Inr (pos1, rule')" "pos' = parse_space (tl pos1) nested"
      "last' = length rule" "ps' = ps"
  | (class_item) st p0 pos1 where "st = LLAMA_GRETYPE_CHAR \<or> st = LLAMA_GRETYPE_CHAR_NOT" "p0 = tl pos \<or> p0 = drop 2 pos"
      "class_loop st (length rule) p0 rule = Inr (pos1, rule')" "pos' = parse_space (tl pos1) nested"
      "last' = length rule" "ps' = ps"
  | (token) src tok te t where "src = pos \<or> src = tl pos" "t = LLAMA_GRETYPE_TOKEN \<or> t = LLAMA_GRETYPE_TOKEN_NOT"
      "parse_token (pr_vocab ps) src = Inr (tok, te)" "pos' = parse_space te nested" "rule' = rule @ [elem t tok]"
      "last' = length rule" "ps' = ps"
  | (reference) name ne i where "parse_name pos = Inr (name, ne)" "get_symbol_id name ps = (i, ps')"
      "pos' = parse_space ne nested" "rule' = rule @ [elem LLAMA_GRETYPE_RULE_REF i]" "last' = length rule"
  | (any_char) "pos' = parse_space (tl pos) nested" "rule' = rule @ [elem LLAMA_GRETYPE_CHAR_ANY 0]"
      "last' = length rule" "ps' = ps"
  | (repeated) m n where "handle_repetitions m n nm rule last_start ps = Inr (rule', ps')" "last' = last_start"
      "pos' = parse_space (tl pos) nested \<or> parse_bounds (parse_space (tl pos) nested) nested = Inr (m, n, pos')"
  using assms unfolding parse_item_def Let_def
proof (elim if_eqE, goal_cases)
  case 1
  then show ?case by (auto simp: bind_res_Inr_iff intro: literal)
next
  case 2
  then show ?case
    using class_item [of LLAMA_GRETYPE_CHAR "tl pos"] class_item [of LLAMA_GRETYPE_CHAR_NOT "drop 2 pos"]
    by (cases "cur (tl pos) = byte CHR 0x5E") (simp_all only: option.inject bind_res_Inr_iff if_True if_False, auto)
next
  case 3
  let ?inv = "cur pos = byte CHR 0x21"
  obtain tok te where "parse_token (pr_vocab ps) (if ?inv then tl pos else pos) = Inr (tok, te)"
      "pos' = parse_space te nested" "last' = length rule" "ps' = ps"
      "rule' = rule @ [elem (if ?inv then LLAMA_GRETYPE_TOKEN_NOT else LLAMA_GRETYPE_TOKEN) tok]"
    using 3(7) unfolding option.inject bind_res_Inr_iff by auto
  then show ?case by (intro 3(3) [OF if_either if_either])
next
  case 4
  then obtain name ne where "parse_name pos = Inr (name, ne)"
      "(case get_symbol_id name ps of (i, ps1) \<Rightarrow>
          Inr (parse_space ne nested, rule @ [elem LLAMA_GRETYPE_RULE_REF i], length rule, ps1)) =
       (Inr (pos', rule', last', ps') :: _ res)"
    unfolding option.inject bind_res_Inr_iff by auto
  moreover obtain i ps1 where "get_symbol_id name ps = (i, ps1)" by (cases "get_symbol_id name ps")
  ultimately show ?case by (intro 4(4) [of name ne i]) simp_all
next
  case 5
  from 5(7) show ?case by (intro 5(5)) simp_all
next
  case 6
  from 6(7) show ?case unfolding parse_repeated_def option.inject bind_res_Inr_iff by (elim exE conjE) (intro 6(6), auto)
next
  case 7
  from 7(7) show ?case unfolding parse_repeated_def option.inject bind_res_Inr_iff by (elim exE conjE) (intro 7(6), auto)
next
  case 8
  from 8(7) show ?case unfolding parse_repeated_def option.inject bind_res_Inr_iff by (elim exE conjE) (intro 8(6), auto)
next
  case 9
  from 9(7) obtain m n pos1 where "parse_bounds (parse_space (tl pos) nested) nested = Inr (m, n, pos1)"
      "parse_repeated m n pos1 nm rule last_start ps = Inr (pos', rule', last', ps')"
    unfolding option.inject bind_res_Inr_iff by auto
  then show ?case unfolding parse_repeated_def bind_res_Inr_iff by (elim exE conjE) (intro 9(6), auto)
qed auto

lemma parse_space_length: "length (parse_space pos nl) \<le> length pos"
proof (induction pos nl rule: parse_space.induct)
  case (2 c pos nl)
  show ?case
  proof (cases "c = byte CHR '' '' \<or> c = 0x09 \<or> (nl \<and> is_newline c)")
    case True
    then show ?thesis using 2(1) unfolding parse_space.simps by fastforce
  next
    case False
    show ?thesis
    proof (cases "c = byte CHR ''#''")
      case hash: True
      let ?rest = "dropWhile (\<lambda>c. c \<noteq> 0 \<and> \<not> is_newline c) pos"
      have "parse_space (c # pos) nl = parse_space ?rest nl"
        using False hash unfolding parse_space.simps by (simp only: if_False if_True refl)
      then show ?thesis using 2(2) [OF False hash] length_dropWhile_le [of _ pos] by (metis (no_types) le_Suc_eq le_trans length_Cons)
    qed (use False in \<open>simp only: parse_space.simps if_False order_refl\<close>)
  qed
qed simp

lemma space_tl_length: "cur pos \<noteq> 0 \<Longrightarrow> length (parse_space (tl pos) nl) < length pos"
  using parse_space_length [of "tl pos" nl] by (cases pos) (auto simp: cur_def)

lemma parse_name_length: "parse_name src = Inr (name, pos) \<Longrightarrow> length pos < length src"
  unfolding parse_name_def Let_def
  by (cases src) (auto simp: length_dropWhile_le less_Suc_eq_le split: if_splits)

lemma parse_int_length: "parse_int src = Inr (ds, pos) \<Longrightarrow> length pos < length src"
  unfolding parse_int_def Let_def
  by (cases src) (auto simp: length_dropWhile_le less_Suc_eq_le split: if_splits)

lemma literal_loop_length: "literal_loop pos rule = Inr (pos', rule') \<Longrightarrow> length pos' \<le> length pos"
proof (induction pos rule rule: literal_loop.induct)
  case (1 pos rule)
  show ?case
  proof (cases "cur pos = byte CHR 0x22")
    case False
    then have "cur pos \<noteq> 0"
      "bind_res (parse_char pos) (\<lambda>(c, pos1). literal_loop pos1 (rule @ [elem LLAMA_GRETYPE_CHAR c])) = Inr (pos', rule')"
      using 1(2) unfolding literal_loop.simps [of pos] by (simp_all only: if_False split: if_split_asm) auto
    moreover from this(2) obtain c pos1 where "parse_char pos = Inr (c, pos1)"
        "literal_loop pos1 (rule @ [elem LLAMA_GRETYPE_CHAR c]) = Inr (pos', rule')"
      by (auto simp: bind_res_Inr_iff)
    ultimately show ?thesis
      using 1(1) [OF False] parse_char_length [of pos c pos1] by fastforce
  qed (use 1(2) literal_loop.simps [of pos rule] in simp)
qed

lemma class_loop_length: "class_loop st k pos rule = Inr (pos', rule') \<Longrightarrow> length pos' \<le> length pos"
proof (induction st k pos rule rule: class_loop.induct)
  case (1 st k pos rule)
  show ?case
  proof (cases "cur pos = byte CHR '']''")
    case False
    let ?rule1 = "\<lambda>c. rule @ [elem (if k < length rule then LLAMA_GRETYPE_CHAR_ALT else st) c]"
    let ?range = "\<lambda>pos1. cur pos1 = byte CHR ''-'' \<and> cur (tl pos1) \<noteq> byte CHR '']''"
    have nz: "cur pos \<noteq> 0"
      using 1(3) False unfolding class_loop.simps [of st k pos] by (simp only: if_False split: if_split_asm) auto
    obtain c pos1 where c: "parse_char pos = Inr (c, pos1)"
      and r: "(if ?range pos1 then
          (if cur (tl pos1) = 0 then Inl (Runtime_error ''unexpected end of input'')
           else bind_res (parse_char (tl pos1)) (\<lambda>(u, pos2).
             class_loop st k pos2 (?rule1 c @ [elem LLAMA_GRETYPE_CHAR_RNG_UPPER u])))
        else class_loop st k pos1 (?rule1 c)) = Inr (pos', rule')"
      using 1(3) False nz unfolding class_loop.simps [of st k pos] Let_def
      by (simp only: if_False bind_res_Inr_iff) auto
    show ?thesis
    proof (cases "?range pos1")
      case True
      have nz1: "cur (tl pos1) \<noteq> 0"
        using r unfolding if_P [OF True] by (simp only: split: if_split_asm) auto
      with r obtain u pos2 where u: "parse_char (tl pos1) = Inr (u, pos2)"
          "class_loop st k pos2 (?rule1 c @ [elem LLAMA_GRETYPE_CHAR_RNG_UPPER u]) = Inr (pos', rule')"
        unfolding if_P [OF True] if_not_P [OF nz1] bind_res_Inr_iff by auto
      then have "length pos' \<le> length pos2"
        by (intro 1(1) [OF False nz c refl refl True nz1 u(1) refl u(2)])
      then show ?thesis using parse_char_length [OF c] parse_char_length [OF u(1)] by simp
    next
      case False2: False
      have "length pos' \<le> length pos1"
        using r unfolding if_not_P [OF False2] by (intro 1(2) [OF False nz c refl refl False2])
      then show ?thesis using parse_char_length [OF c] by simp
    qed
  qed (use 1(3) class_loop.simps [of st k pos rule] in simp)
qed

lemma parse_token_length:
  assumes "parse_token vocab src = Inr (token, pos)"
  shows "length pos < length src"
proof -
  have ne: "src \<noteq> []" using assms by (auto simp: parse_token_def cur_def)
  then have d: "length (tl (dropWhile P (tl src))) < length src" for P
    using length_dropWhile_le [of P "tl src"] by (cases src) auto
  have i: "parse_int (drop 2 src) = Inr (ds, pos1) \<Longrightarrow> length (drop 2 pos1) < length src" for ds pos1
    using parse_int_length [of "drop 2 src" ds pos1] by simp
  show ?thesis
    using assms unfolding parse_token_def Let_def bind_res_Inr_iff
    by (elim if_eqE) (auto simp: bind_res_Inr_iff split: option.splits list.splits elim!: if_eqE dest: i intro: d)
qed

lemma parse_bounds_length:
  assumes "parse_bounds pos nested = Inr (m, n, pos')"
  shows "length pos' \<le> length pos"
proof -
  let ?sp = "\<lambda>q. parse_space q nested"
  obtain ds b where b: "parse_int pos = Inr (ds, b)"
    and "pos' = ?sp (tl (?sp b)) \<or> pos' = ?sp (tl (?sp (tl (?sp b)))) \<or>
      (\<exists>ds2 b2. parse_int (?sp (tl (?sp b))) = Inr (ds2, b2) \<and> pos' = ?sp (tl (?sp b2)))"
    using assms unfolding parse_bounds_def Let_def bind_res_Inr_iff
    by (elim if_eqE) (auto simp: bind_res_Inr_iff elim!: if_eqE)
  moreover have tl: "length (?sp (tl (?sp q))) \<le> length q" for q
    using parse_space_length [of "tl (?sp q)" nested] parse_space_length [of q nested] by simp
  moreover have "length (?sp (tl (?sp (tl (?sp b))))) \<le> length b"
    using tl [of b] parse_space_length [of "tl (?sp (tl (?sp b)))" nested] by simp
  moreover have "parse_int (?sp (tl (?sp b))) = Inr (ds2, b2) \<Longrightarrow> length (?sp (tl (?sp b2))) \<le> length b" for ds2 b2
    using tl [of b] tl [of b2] parse_int_length by fastforce
  ultimately have "length pos' \<le> length b" by blast
  then show ?thesis using parse_int_length [OF b] by simp
qed

lemma parse_item_length:
  assumes "parse_item pos nm rule last_start nested ps = Some (Inr (pos', rule', last', ps'))" "cur pos \<noteq> 0"
  shows "length pos' < length pos"
proof -
  have ne: "0 < length pos" using assms(2) by (cases pos) (simp_all add: cur_def)
  have tl: "length q \<le> length pos - 1 \<Longrightarrow> length (parse_space q nested) < length pos" for q
    using parse_space_length [of q nested] ne by linarith
  show ?thesis
    using assms(1)
  proof (cases rule: parse_item_elim)
    case (literal pos1)
    then show ?thesis using literal_loop_length [OF literal(1)] tl [of "tl pos1"] by simp
  next
    case (class_item st p0 pos1)
    then show ?thesis using class_loop_length [OF class_item(3)] tl [of "tl pos1"] by auto
  next
    case (token src tok te t)
    then have "length te \<le> length pos - 1" using parse_token_length [OF token(3)] by auto
    with token(4) show ?thesis using tl by blast
  next
    case (reference name ne i)
    then show ?thesis using parse_name_length [OF reference(1)] tl [of ne] by auto
  next
    case any_char
    then show ?thesis using tl [of "tl pos"] by simp
  next
    case (repeated m n)
    then show ?thesis using tl [of "tl pos"] parse_bounds_length [of "parse_space (tl pos) nested" nested m n pos'] by auto
  qed
qed

text \<open>How a sequence, the alternates and the rest of the alternates come to an end without a fault.\<close>

lemma parse_sequence_elim:
  assumes "parse_sequence (Suc n) pos nm rule last_start nested ps = Some (Inr (pos', rule', ps'))"
  obtains (stop) "pos' = pos" "rule' = rule" "ps' = ps"
  | (group) i ps1 pos1 ps2 where "cur pos \<noteq> 0" "generate_symbol_id nm ps = (i, ps1)"
      "parse_alternates n (parse_space (tl pos) True) nm i True ps1 = Some (Inr (pos1, ps2))"
      "parse_sequence n (parse_space (tl pos1) nested) nm (rule @ [elem LLAMA_GRETYPE_RULE_REF i]) (length rule) nested ps2 =
       Some (Inr (pos', rule', ps'))"
  | (item) pos1 rule1 last1 ps1 where "cur pos \<noteq> 0"
      "parse_item pos nm rule last_start nested ps = Some (Inr (pos1, rule1, last1, ps1))"
      "parse_sequence n pos1 nm rule1 last1 nested ps1 = Some (Inr (pos', rule', ps'))"
proof (cases "cur pos = 0")
  case nz: False
  show ?thesis
  proof (cases "cur pos = byte CHR ''(''")
    case c: True
    obtain i ps1 where g: "generate_symbol_id nm ps = (i, ps1)" by (cases "generate_symbol_id nm ps")
    obtain pos1 ps2 where a: "parse_alternates n (parse_space (tl pos) True) nm i True ps1 = Some (Inr (pos1, ps2))"
      and "(if cur pos1 \<noteq> byte CHR '')'' then Some (Inl (Runtime_error ''expecting )''))
          else parse_sequence n (parse_space (tl pos1) nested) nm
                 (rule @ [elem LLAMA_GRETYPE_RULE_REF i]) (length rule) nested ps2) = Some (Inr (pos', rule', ps'))"
      using assms g unfolding parse_sequence.simps if_not_P [OF nz] if_P [OF c] by (auto simp: bind_ro_Inr_iff)
    then show ?thesis using group [OF nz g a] by (simp split: if_split_asm)
  next
    case c: False
    show ?thesis
    proof (cases "parse_item pos nm rule last_start nested ps")
      case (Some r)
      then obtain pos1 rule1 last1 ps1 where
          "parse_item pos nm rule last_start nested ps = Some (Inr (pos1, rule1, last1, ps1))"
          "parse_sequence n pos1 nm rule1 last1 nested ps1 = Some (Inr (pos', rule', ps'))"
        using assms unfolding parse_sequence.simps if_not_P [OF nz] if_not_P [OF c] by (auto simp: bind_ro_Inr_iff)
      then show ?thesis by (rule item [OF nz])
    qed (use assms nz c stop in simp)
  qed
qed (use assms stop in simp)

lemma parse_alternates_elim:
  assumes "parse_alternates n pos nm i nested ps = Some (Inr (pos', ps'))"
  obtains m pos1 rule ps1 where "n = Suc m" "parse_sequence m pos nm [] 0 nested ps = Some (Inr (pos1, rule, ps1))"
    "alternates_rest m pos1 nm rule i nested ps1 = Some (Inr (pos', ps'))"
  using assms by (cases n) (auto simp: bind_ro_Inr_iff)

lemma alternates_rest_elim:
  assumes "alternates_rest (Suc n) pos nm rule i nested ps = Some (Inr (pos', ps'))"
  obtains (alternate) pos1 rule1 ps1 where
      "parse_sequence n (parse_space (tl pos) True) nm (rule @ [elem LLAMA_GRETYPE_ALT 0]) (length rule + 1) nested ps =
       Some (Inr (pos1, rule1, ps1))"
      "alternates_rest n pos1 nm rule1 i nested ps1 = Some (Inr (pos', ps'))"
  | (stop) "pos' = pos" "add_rule i (rule @ [elem LLAMA_GRETYPE_END 0]) ps = Inr ps'"
proof (cases "cur pos = byte CHR 0x7C")
  case True
  with assms alternate show ?thesis unfolding alternates_rest.simps if_P [OF True] bind_ro_Inr_iff by auto
next
  case False
  with assms stop show ?thesis unfolding alternates_rest.simps if_not_P [OF False] bind_ro_Inr_iff by auto
qed

lemma parse_run_length:
  "(parse_sequence n pos nm rule last_start nested ps = Some (Inr (pos', rule', ps')) \<longrightarrow> length pos' \<le> length pos) \<and>
   (parse_alternates n pos nm i nested ps = Some (Inr (pos', ps')) \<longrightarrow> length pos' \<le> length pos) \<and>
   (alternates_rest n pos nm rule i nested ps = Some (Inr (pos', ps')) \<longrightarrow> length pos' \<le> length pos)"
proof (induction n arbitrary: pos nm rule last_start nested ps pos' rule' ps' i)
  case (Suc n)
  note seq = Suc.IH [THEN conjunct1, rule_format]
  note alts = Suc.IH [THEN conjunct2, THEN conjunct1, rule_format]
  note rest = Suc.IH [THEN conjunct2, THEN conjunct2, rule_format]
  have "length pos' \<le> length pos"
    if "parse_sequence (Suc n) pos nm rule last_start nested ps = Some (Inr (pos', rule', ps'))"
    using that
  proof (cases rule: parse_sequence_elim)
    case (group j ps1 pos1 ps2)
    show ?thesis
      using space_tl_length [OF group(1), of True] alts [OF group(3)] parse_space_length [of "tl pos1" nested] seq [OF group(4)]
      by simp
  next
    case (item pos1 rule1 last1 ps1)
    show ?thesis using parse_item_length [OF item(2,1)] seq [OF item(3)] by simp
  qed simp
  moreover have "length pos' \<le> length pos" if "parse_alternates (Suc n) pos nm i nested ps = Some (Inr (pos', ps'))"
    using that by (elim parse_alternates_elim) (use seq rest in fastforce)
  moreover have "length pos' \<le> length pos" if "alternates_rest (Suc n) pos nm rule i nested ps = Some (Inr (pos', ps'))"
    using that
  proof (cases rule: alternates_rest_elim)
    case (alternate pos1 rule1 ps1)
    then show ?thesis using seq [OF alternate(1)] rest [OF alternate(2)] parse_space_length [of "tl pos" True] by simp
  qed simp
  ultimately show ?case by blast
qed simp

lemmas parse_sequence_length = parse_run_length [THEN conjunct1, rule_format]
lemmas parse_alternates_length = parse_run_length [THEN conjunct2, THEN conjunct1, rule_format]

section \<open>The parser returns\<close>

lemma bind_res_weak: "x = x' \<Longrightarrow> bind_res x f = bind_res x' f"
  by simp

lemma bind_ro_returns: "x \<noteq> None \<Longrightarrow> (\<And>v. x = Some (Inr v) \<Longrightarrow> f v \<noteq> None) \<Longrightarrow> bind_ro x f \<noteq> None"
  by (auto simp: bind_ro_def split: sum.split)

lemma bind_ro_gives: "\<exists>y. x = Some y \<Longrightarrow> (\<And>v. x = Some (Inr v) \<Longrightarrow> \<exists>y. f v = Some y) \<Longrightarrow> \<exists>y. bind_ro x f = Some y"
  using bind_ro_returns [of x f] by auto

lemma parse_run_returns:
  "(2 * length pos + 1 \<le> n \<longrightarrow> parse_sequence n pos nm rule last_start nested ps \<noteq> None) \<and>
   (2 * length pos + 2 \<le> n \<longrightarrow> parse_alternates n pos nm i nested ps \<noteq> None) \<and>
   (2 * length pos + 1 \<le> n \<longrightarrow> alternates_rest n pos nm rule i nested ps \<noteq> None)"
proof (induction n arbitrary: pos nm rule last_start nested ps i)
  case (Suc n)
  note seq = Suc.IH [THEN conjunct1, rule_format]
  note alts = Suc.IH [THEN conjunct2, THEN conjunct1, rule_format]
  note rest = Suc.IH [THEN conjunct2, THEN conjunct2, rule_format]
  have "parse_sequence (Suc n) pos nm rule last_start nested ps \<noteq> None" if n: "2 * length pos + 1 \<le> Suc n"
  proof (cases "cur pos = 0")
    case nz: False
    have "parse_sequence n pos1 nm rule1 last1 nested ps1 \<noteq> None"
      if "parse_item pos nm rule last_start nested ps = Some (Inr (pos1, rule1, last1, ps1))" for pos1 rule1 last1 ps1
      using seq parse_item_length [OF that nz] n by simp
    then have item: "(case parse_item pos nm rule last_start nested ps of None \<Rightarrow> Some (Inr (pos, rule, ps))
      | Some r \<Rightarrow> bind_ro (Some r) (\<lambda>(pos1, rule1, last1, ps1). parse_sequence n pos1 nm rule1 last1 nested ps1)) \<noteq> None"
      by (cases "parse_item pos nm rule last_start nested ps")
         (simp, simp only: option.case, rule bind_ro_returns, auto)
    have "parse_alternates n (parse_space (tl pos) True) nm j True ps1 \<noteq> None" for j ps1
      using alts space_tl_length [OF nz, of True] n by simp
    moreover have "parse_sequence n (parse_space (tl pos1) nested) nm rule1 (length rule) nested ps2 \<noteq> None"
      if "parse_alternates n (parse_space (tl pos) True) nm j True ps1 = Some (Inr (pos1, ps2))" for j ps1 pos1 ps2 rule1
      using seq parse_alternates_length [OF that] space_tl_length [OF nz, of True] parse_space_length [of "tl pos1" nested] n
      by simp
    ultimately have "(case generate_symbol_id nm ps of (j, ps1) \<Rightarrow>
        bind_ro (parse_alternates n (parse_space (tl pos) True) nm j True ps1) (\<lambda>(pos1, ps2).
          if cur pos1 \<noteq> byte CHR '')'' then Some (Inl (Runtime_error ''expecting )''))
          else parse_sequence n (parse_space (tl pos1) nested) nm
                 (rule @ [elem LLAMA_GRETYPE_RULE_REF j]) (length rule) nested ps2)) \<noteq> None"
      by (cases "generate_symbol_id nm ps") (simp only: prod.case, rule bind_ro_returns, blast, auto)
    with item show ?thesis unfolding parse_sequence.simps by (simp only: if_distrib [of "\<lambda>x. x \<noteq> None"]) simp
  qed simp
  moreover have "parse_alternates (Suc n) pos nm i nested ps \<noteq> None" if "2 * length pos + 2 \<le> Suc n"
  proof -
    have "alternates_rest n pos1 nm rule1 i nested ps1 \<noteq> None"
      if "parse_sequence n pos nm [] 0 nested ps = Some (Inr (pos1, rule1, ps1))" for pos1 rule1 ps1
      using rest parse_sequence_length [OF that] \<open>2 * length pos + 2 \<le> Suc n\<close> by simp
    moreover have "parse_sequence n pos nm [] 0 nested ps \<noteq> None" using seq that by simp
    ultimately show ?thesis unfolding parse_alternates.simps by (intro bind_ro_returns) auto
  qed
  moreover have "alternates_rest (Suc n) pos nm rule i nested ps \<noteq> None" if "2 * length pos + 1 \<le> Suc n"
  proof (cases "cur pos = byte CHR 0x7C")
    case True
    then have "cur pos \<noteq> 0" by simp
    note len = space_tl_length [OF this, of True]
    have "alternates_rest n pos1 nm rule1 i nested ps1 \<noteq> None"
      if "parse_sequence n (parse_space (tl pos) True) nm (rule @ [elem LLAMA_GRETYPE_ALT 0]) (length rule + 1) nested ps =
          Some (Inr (pos1, rule1, ps1))" for pos1 rule1 ps1
      using rest parse_sequence_length [OF that] len \<open>2 * length pos + 1 \<le> Suc n\<close> by simp
    moreover have "parse_sequence n (parse_space (tl pos) True) nm rule1 last1 nested ps \<noteq> None" for rule1 last1
      using seq len that by simp
    ultimately show ?thesis
      unfolding alternates_rest.simps if_P [OF True] by (intro bind_ro_returns) auto
  next
    case False
    show ?thesis unfolding alternates_rest.simps if_not_P [OF False] by (rule bind_ro_returns) simp_all
  qed
  ultimately show ?case by blast
qed simp

lemmas parse_alternates_returns = parse_run_returns [THEN conjunct2, THEN conjunct1, rule_format]

declare parse_sequence.simps [simp del] parse_alternates.simps [simp del] alternates_rest.simps [simp del]

lemma parse_rule_elim:
  assumes "parse_rule pos ps = Some (Inr (pos', ps'))"
  obtains name name_end i ps1 src pos2 where "parse_name pos = Inr (name, name_end)" "get_symbol_id name ps = (i, ps1)"
    "src = parse_space (drop 3 (parse_space name_end False)) True"
    "parse_alternates (2 * length src + 2) src name i False ps1 = Some (Inr (pos2, ps'))"
    "pos' = parse_space (drop (if cur (tl pos2) = 0x0A then 2 else 1) pos2) True \<or>
     pos' = parse_space (tl pos2) True \<or> pos' = parse_space pos2 True"
proof -
  obtain name name_end where n: "parse_name pos = Inr (name, name_end)"
    using assms unfolding parse_rule_def by (cases "parse_name pos") auto
  obtain i ps1 where g: "get_symbol_id name ps = (i, ps1)" by (cases "get_symbol_id name ps")
  let ?src = "parse_space (drop 3 (parse_space name_end False)) True"
  have "\<exists>pos2. parse_alternates (2 * length ?src + 2) ?src name i False ps1 = Some (Inr (pos2, ps')) \<and>
    (pos' = parse_space (drop (if cur (tl pos2) = 0x0A then 2 else 1) pos2) True \<or>
     pos' = parse_space (tl pos2) True \<or> pos' = parse_space pos2 True)"
    using assms unfolding parse_rule_def n Let_def bind_ro_simps prod.case g
    by (elim if_eqE) (auto simp: bind_ro_Inr_iff elim!: if_eqE)
  then show ?thesis using that [OF n g refl] by blast
qed

lemma parse_rule_length: "parse_rule pos ps = Some (Inr (pos', ps')) \<Longrightarrow> length pos' < length pos"
  and parse_rule_returns: "parse_rule pos ps \<noteq> None"
proof -
  have after: "length (parse_space q nl) \<le> length p" if "length q \<le> length p" for p q nl
    using parse_space_length [of q nl] that by simp
  have start: "length (parse_space (drop 3 (parse_space name_end False)) True) < length pos"
    if "parse_name pos = Inr (name, name_end)" for name name_end
  proof -
    have "length (drop 3 (parse_space name_end False)) \<le> length name_end"
      using parse_space_length [of name_end False] by simp
    from after [OF this, of True] show ?thesis using parse_name_length [OF that] by linarith
  qed
  show "length pos' < length pos" if r: "parse_rule pos ps = Some (Inr (pos', ps'))"
  proof -
    obtain name name_end i ps1 src pos2 where n: "parse_name pos = Inr (name, name_end)"
      and src: "src = parse_space (drop 3 (parse_space name_end False)) True"
      and a: "parse_alternates (2 * length src + 2) src name i False ps1 = Some (Inr (pos2, ps'))"
      and e: "pos' = parse_space (drop (if cur (tl pos2) = 0x0A then 2 else 1) pos2) True \<or>
        pos' = parse_space (tl pos2) True \<or> pos' = parse_space pos2 True"
      using r by (rule parse_rule_elim)
    have "length pos' \<le> length pos2"
      using e after [of _ pos2] by (elim disjE) simp_all
    then show ?thesis using parse_alternates_length [OF a] start [OF n] src by simp
  qed
  show "parse_rule pos ps \<noteq> None"
    unfolding parse_rule_def Let_def
    by (intro bind_ro_returns) (auto split: prod.split intro!: bind_ro_gives parse_alternates_returns [simplified])
qed

lemma parse_rules_returns: "length pos < n \<Longrightarrow> parse_rules n pos ps \<noteq> None"
proof (induction n pos ps rule: parse_rules.induct)
  case (2 n pos ps)
  have "parse_rules n pos1 ps1 \<noteq> None" if "cur pos \<noteq> 0" "parse_rule pos ps = Some (Inr (pos1, ps1))" for pos1 ps1
    using "2.IH" [OF that(1), of pos1 ps1] parse_rule_length [OF that(2)] "2.prems" by simp
  then have "cur pos \<noteq> 0 \<Longrightarrow> bind_ro (parse_rule pos ps) (\<lambda>(pos1, ps1). parse_rules n pos1 ps1) \<noteq> None"
    by (intro bind_ro_returns parse_rule_returns) auto
  then show ?case by simp
qed simp

text \<open>C17. The parser of grammar texts returns for every text, and it catches what it throws.\<close>

theorem parse_returns:
  "\<exists>r. parse ps src = Some r \<and> (case r of Inl e \<Rightarrow> \<not> is_std_exception e | Inr _ \<Rightarrow> True)"
proof -
  have "parse_rules (length src + 1) (parse_space src True) ps \<noteq> None"
    by (rule parse_rules_returns) (use parse_space_length [of src True] in simp)
  then have "bind_ro (parse_rules (length src + 1) (parse_space src True) ps) (\<lambda>ps1.
      bind_ro (Some (validate_rules ps1)) (\<lambda>_. Some (Inr ps1))) \<noteq> None"
    by (rule bind_ro_returns) (rule bind_ro_returns, simp_all)
  then obtain r where "bind_ro (parse_rules (length src + 1) (parse_space src True) ps) (\<lambda>ps1.
      bind_ro (Some (validate_rules ps1)) (\<lambda>_. Some (Inr ps1))) = Some r"
    by blast
  then show ?thesis by (cases r) (simp_all add: parse_def del: parse_rules.simps)
qed

section \<open>The shape of the rules\<close>

text \<open>
  \<open>closed\<close> elements may stand anywhere between two complete symbols; \<open>opened\<close> ones end inside of
  a character class, so that more of it may follow.
\<close>

definition closed :: "llama_grammar_rule \<Rightarrow> bool" where
  "closed r \<longleftrightarrow> (\<forall>c ys. (\<forall>c'. seq_ok (2 ^ 32) c' ys) \<longrightarrow> seq_ok (2 ^ 32) c (r @ ys))"

definition opened :: "llama_grammar_rule \<Rightarrow> bool" where
  "opened r \<longleftrightarrow> (\<forall>c ys. (\<forall>c' > 0. seq_ok (2 ^ 32) c' ys) \<longrightarrow> seq_ok (2 ^ 32) c (r @ ys))"

definition elems_ok :: "nat \<Rightarrow> llama_grammar_rule \<Rightarrow> bool" where
  "elems_ok n r \<longleftrightarrow> (\<forall>e \<in> set r. (el_type e = LLAMA_GRETYPE_RULE_REF \<longrightarrow> unat (el_value e) < n) \<and>
     (el_type e = LLAMA_GRETYPE_END \<longrightarrow> el_value e = 0))"

definition chunk :: "nat \<Rightarrow> llama_grammar_rule \<Rightarrow> bool" where
  "chunk n r \<longleftrightarrow> closed r \<and> elems_ok n r"

lemma elems_ok_simps [simp]:
  "elems_ok n []" "elems_ok n (r @ s) \<longleftrightarrow> elems_ok n r \<and> elems_ok n s"
  "elems_ok n (e # r) \<longleftrightarrow> (el_type e = LLAMA_GRETYPE_RULE_REF \<longrightarrow> unat (el_value e) < n) \<and>
     (el_type e = LLAMA_GRETYPE_END \<longrightarrow> el_value e = 0) \<and> elems_ok n r"
  by (auto simp: elems_ok_def)

lemma elems_ok_mono: "elems_ok n r \<Longrightarrow> n \<le> m \<Longrightarrow> elems_ok m r"
  by (fastforce simp: elems_ok_def)

lemma chunk_mono: "chunk n r \<Longrightarrow> n \<le> m \<Longrightarrow> chunk m r"
  using elems_ok_mono by (auto simp: chunk_def)

lemma closed_simps [simp]: "closed []" "closed r \<Longrightarrow> closed s \<Longrightarrow> closed (r @ s)"
  by (simp_all add: closed_def)

lemma unat_small: "unat (w :: 32 word) < 4294967296"
  using unsigned_less [of w] by simp

lemma closed_elem:
  "closed [elem LLAMA_GRETYPE_CHAR v]" "closed [elem LLAMA_GRETYPE_CHAR_ANY v]" "closed [elem LLAMA_GRETYPE_RULE_REF v]"
  "closed [elem LLAMA_GRETYPE_TOKEN v]" "closed [elem LLAMA_GRETYPE_TOKEN_NOT v]" "closed [elem LLAMA_GRETYPE_ALT w]"
  by (auto simp: closed_def unat_small)

lemma chunk_simps [simp]:
  "chunk n []" "chunk n r \<Longrightarrow> chunk n s \<Longrightarrow> chunk n (r @ s)"
  "chunk n [elem LLAMA_GRETYPE_CHAR v]" "chunk n [elem LLAMA_GRETYPE_CHAR_ANY v]"
  "chunk n [elem LLAMA_GRETYPE_TOKEN v]" "chunk n [elem LLAMA_GRETYPE_TOKEN_NOT v]" "chunk n [elem LLAMA_GRETYPE_ALT v]"
  "unat v < n \<Longrightarrow> chunk n [elem LLAMA_GRETYPE_RULE_REF v]"
  by (simp_all add: chunk_def closed_elem)

lemma chunk_copies: "chunk n r \<Longrightarrow> chunk n (concat (replicate k r))"
  by (induction k) simp_all

lemma opened_closed: "opened r \<Longrightarrow> closed r"
  by (auto simp: opened_def closed_def)

lemma opened_simps:
  "opened [elem LLAMA_GRETYPE_CHAR v]" "opened [elem LLAMA_GRETYPE_CHAR_NOT v]"
  "opened r \<Longrightarrow> opened (r @ [elem LLAMA_GRETYPE_CHAR_ALT v])"
  "opened [elem LLAMA_GRETYPE_CHAR v, elem LLAMA_GRETYPE_CHAR_RNG_UPPER u]"
  "opened [elem LLAMA_GRETYPE_CHAR_NOT v, elem LLAMA_GRETYPE_CHAR_RNG_UPPER u]"
  "opened r \<Longrightarrow> opened (r @ [elem LLAMA_GRETYPE_CHAR_ALT v, elem LLAMA_GRETYPE_CHAR_RNG_UPPER u])"
  by (auto simp: opened_def)

lemma closed_rule: "closed r \<Longrightarrow> seq_ok (2 ^ 32) 0 (r @ [elem LLAMA_GRETYPE_END 0])"
  by (simp add: closed_def)

lemma literal_loop_chunk:
  "literal_loop pos rule = Inr (pos', rule') \<Longrightarrow> \<exists>xs. rule' = rule @ xs \<and> chunk n xs"
proof (induction pos rule rule: literal_loop.induct)
  case (1 pos rule)
  show ?case
  proof (cases "cur pos = byte CHR 0x22")
    case False
    then have nz: "cur pos \<noteq> 0"
      and r: "bind_res (parse_char pos) (\<lambda>(c, pos1). literal_loop pos1 (rule @ [elem LLAMA_GRETYPE_CHAR c])) = Inr (pos', rule')"
      using 1(2) unfolding literal_loop.simps [of pos] by (simp_all only: if_False split: if_split_asm) auto
    from r obtain c pos1 where c: "parse_char pos = Inr (c, pos1)"
        "literal_loop pos1 (rule @ [elem LLAMA_GRETYPE_CHAR c]) = Inr (pos', rule')"
      by (auto simp: bind_res_Inr_iff)
    have "\<exists>xs. rule' = (rule @ [elem LLAMA_GRETYPE_CHAR c]) @ xs \<and> chunk n xs"
      by (rule 1(1) [OF False nz c(1) refl c(2)])
    then obtain xs where "rule' = rule @ [elem LLAMA_GRETYPE_CHAR c] @ xs" "chunk n xs" by auto
    then show ?thesis using chunk_simps(2) [OF chunk_simps(3)] by blast
  qed (use 1(2) literal_loop.simps [of pos rule] in simp)
qed

lemma class_loop_opened:
  assumes "class_loop st (length pre) pos (pre @ b) = Inr (pos', rule')"
    and "st = LLAMA_GRETYPE_CHAR \<or> st = LLAMA_GRETYPE_CHAR_NOT" "b = [] \<or> opened b" "elems_ok 0 b"
  shows "\<exists>b'. rule' = pre @ b' \<and> (b' = [] \<or> opened b') \<and> elems_ok 0 b'"
  using assms
proof (induction st "length pre" pos "pre @ b" arbitrary: b rule: class_loop.induct)
  case (1 st pos b)
  show ?case
  proof (cases "cur pos = byte CHR '']''")
    case False
    let ?e = "\<lambda>c. elem (if length pre < length (pre @ b) then LLAMA_GRETYPE_CHAR_ALT else st) c"
    let ?range = "\<lambda>pos1. cur pos1 = byte CHR ''-'' \<and> cur (tl pos1) \<noteq> byte CHR '']''"
    have nz: "cur pos \<noteq> 0"
      using 1(3) False unfolding class_loop.simps [of st _ pos] by (simp only: if_False split: if_split_asm) auto
    obtain c pos1 where c: "parse_char pos = Inr (c, pos1)"
      and r: "(if ?range pos1 then
          (if cur (tl pos1) = 0 then Inl (Runtime_error ''unexpected end of input'')
           else bind_res (parse_char (tl pos1)) (\<lambda>(u, pos2).
             class_loop st (length pre) pos2 (((pre @ b) @ [?e c]) @ [elem LLAMA_GRETYPE_CHAR_RNG_UPPER u])))
        else class_loop st (length pre) pos1 ((pre @ b) @ [?e c])) = Inr (pos', rule')"
      using 1(3) False nz unfolding class_loop.simps [of st _ pos] Let_def
      by (simp only: if_False bind_res_Inr_iff) auto
    have o: "opened (b @ [?e c]) \<and> opened (b @ [?e c, elem LLAMA_GRETYPE_CHAR_RNG_UPPER u])" for u
    proof (cases "b = []")
      case True
      then show ?thesis using 1(4) opened_simps(1,2,4,5) [of c] by (elim disjE) simp_all
    next
      case False
      then have "opened b" using 1(5) by simp
      with False show ?thesis using opened_simps(3) [of b c] opened_simps(6) [of b c u] by simp
    qed
    have rf: "elems_ok 0 (b @ [?e c])" using 1(4,6) by auto
    show ?thesis
    proof (cases "?range pos1")
      case True
      have nz1: "cur (tl pos1) \<noteq> 0"
        using r unfolding if_P [OF True] by (simp only: split: if_split_asm) auto
      with r obtain u pos2 where u: "parse_char (tl pos1) = Inr (u, pos2)"
          "class_loop st (length pre) pos2 (((pre @ b) @ [?e c]) @ [elem LLAMA_GRETYPE_CHAR_RNG_UPPER u]) = Inr (pos', rule')"
        unfolding if_P [OF True] if_not_P [OF nz1] bind_res_Inr_iff by auto
      show ?thesis
        by (rule 1(1) [OF False nz c refl refl True nz1 u(1) refl, of "b @ [?e c, elem LLAMA_GRETYPE_CHAR_RNG_UPPER u]"])
           (use u(2) 1(4) o rf in simp_all)
    next
      case False2: False
      show ?thesis
        by (rule 1(2) [OF False nz c refl _ False2, of "b @ [?e c]"]) (use r [unfolded if_not_P [OF False2]] 1(4) o rf in simp_all)
    qed
  qed (use 1(3,5,6) class_loop.simps [of st _ pos "pre @ b"] in auto)
qed

section \<open>Symbols\<close>

text \<open>
  The ids of the symbols are their positions, and a name with an underscore is one that
  \<open>generate_symbol_id\<close> made for its position, so a generated name is always new. Rules not yet defined
  are empty; the others are well formed and refer to known symbols.
\<close>

definition plain :: "bytes \<Rightarrow> bool" where
  "plain name \<longleftrightarrow> byte CHR ''_'' \<notin> set name"

definition generated_name :: "bytes \<Rightarrow> nat \<Rightarrow> bytes" where
  "generated_name base k = base @ byte CHR ''_'' # to_string k"

definition names_ok :: "(bytes \<times> 32 word) list \<Rightarrow> bool" where
  "names_ok syms \<longleftrightarrow> (\<forall>k < length syms. snd (syms ! k) = word_of_nat k \<and>
    (plain (fst (syms ! k)) \<or> (\<exists>base. plain base \<and> fst (syms ! k) = generated_name base k)))"

definition parser_ok :: "llama_grammar_parser \<Rightarrow> bool" where
  "parser_ok ps \<longleftrightarrow> names_ok (pr_symbol_ids ps) \<and> length (pr_rules ps) \<le> length (pr_symbol_ids ps) \<and>
    (\<forall>r \<in> set (pr_rules ps). r = [] \<or> (seq_ok (2 ^ 32) 0 r \<and> elems_ok (length (pr_symbol_ids ps)) r))"

abbreviation n_symbols :: "llama_grammar_parser \<Rightarrow> nat" where
  "n_symbols ps \<equiv> length (pr_symbol_ids ps)"

lemma to_string_Nil: "to_string n \<noteq> []"
  by (simp add: to_string.simps [of n])

lemma digits_value_snoc: "digits_value (ds @ [d]) = digits_value ds * 10 + (unat d - 48)"
  by (simp add: digits_value_def)

text \<open>\<open>std::stoul\<close> reads back what \<open>std::to_string\<close> writes.\<close>

lemma digits_value_to_string: "digits_value (to_string n) = n"
proof (induction n rule: to_string.induct)
  case (1 n)
  have d: "unat (word_of_nat (48 + m) :: 8 word) - 48 = m" if "m < 10" for m
    unfolding unat_of_nat using that by simp
  show ?case
  proof (cases "n < 10")
    case True
    then show ?thesis using d [of n] by (simp add: to_string.simps [of n] digits_value_def)
  next
    case False
    then have "digits_value (to_string n) = n div 10 * 10 + n mod 10"
      using 1 d [of "n mod 10"] by (simp add: to_string.simps [of n] digits_value_snoc)
    then show ?thesis by simp
  qed
qed

lemma split_at_first: "x \<notin> set a \<Longrightarrow> x \<notin> set b \<Longrightarrow> a @ x # u = b @ x # v \<Longrightarrow> u = v"
  by (induction a arbitrary: b) (case_tac b; auto)+

lemma generated_name_inj: "plain a \<Longrightarrow> plain b \<Longrightarrow> generated_name a k = generated_name b l \<Longrightarrow> k = l"
  using split_at_first [of "byte CHR ''_''" a b "to_string k" "to_string l"] digits_value_to_string
  unfolding plain_def generated_name_def by metis

lemma generated_not_plain: "\<not> plain (generated_name base k)"
  by (simp add: plain_def generated_name_def)

lemma names_ok_fresh:
  assumes "names_ok syms" "plain base"
  shows "map_of syms (generated_name base (length syms)) = None"
proof (rule ccontr)
  assume "map_of syms (generated_name base (length syms)) \<noteq> None"
  then obtain i where "(generated_name base (length syms), i) \<in> set syms"
    using map_of_SomeD by fastforce
  then obtain k where k: "k < length syms" "fst (syms ! k) = generated_name base (length syms)"
    by (metis fst_conv in_set_conv_nth)
  then obtain b where "plain b" "generated_name b k = generated_name base (length syms)"
    using assms(1) generated_not_plain [of base "length syms"] unfolding names_ok_def by auto
  with generated_name_inj [OF _ assms(2)] k(1) show False by blast
qed

lemma names_ok_snoc:
  assumes "names_ok syms" "plain name \<or> (\<exists>base. plain base \<and> name = generated_name base (length syms))"
  shows "names_ok (syms @ [(name, word_of_nat (length syms))])"
  using assms by (auto simp: names_ok_def nth_append less_Suc_eq)

lemma names_ok_range:
  assumes "names_ok syms" "length syms < 2 ^ 32"
  shows "map_of syms name = Some i \<Longrightarrow> unat i < length syms" "v < length syms \<Longrightarrow> \<exists>kv \<in> set syms. snd kv = word_of_nat v"
proof -
  have "unat (snd (syms ! k)) = k" if "k < length syms" for k
    using assms that by (simp add: names_ok_def unat_of_nat)
  then show "map_of syms name = Some i \<Longrightarrow> unat i < length syms"
    by (metis in_set_conv_nth map_of_SomeD snd_conv)
  show "v < length syms \<Longrightarrow> \<exists>kv \<in> set syms. snd kv = word_of_nat v"
    using assms(1) unfolding names_ok_def by (metis nth_mem)
qed

lemma unat_small_nat: "n < 2 ^ 32 \<Longrightarrow> unat (word_of_nat n :: 32 word) = n"
  by (simp add: unat_of_nat)

lemma parser_ok_snoc:
  assumes "parser_ok ps" "plain name \<or> (\<exists>base. plain base \<and> name = generated_name base (n_symbols ps))"
  shows "parser_ok (ps\<lparr>pr_symbol_ids := pr_symbol_ids ps @ [(name, word_of_nat (n_symbols ps))]\<rparr>)"
  using assms(1) names_ok_snoc [OF _ assms(2)] elems_ok_mono [of "n_symbols ps" _ "Suc (n_symbols ps)"]
  by (auto simp: parser_ok_def)

lemma get_symbol_id_ok:
  assumes "get_symbol_id name ps = (i, ps')" "parser_ok ps" "plain name" "n_symbols ps' < 2 ^ 32"
  shows "parser_ok ps' \<and> unat i < n_symbols ps'"
proof (cases "map_of (pr_symbol_ids ps) name")
  case None
  then have "ps' = ps\<lparr>pr_symbol_ids := pr_symbol_ids ps @ [(name, word_of_nat (n_symbols ps))]\<rparr>" "i = word_of_nat (n_symbols ps)"
    using assms(1) by (auto simp: get_symbol_id_def next_id_def)
  with assms(2-4) show ?thesis
    using parser_ok_snoc [OF assms(2), of name] unat_small_nat [of "n_symbols ps"] by simp
next
  case (Some j)
  with assms show ?thesis using names_ok_range(1) by (auto simp: get_symbol_id_def parser_ok_def)
qed

lemma generate_symbol_id_ok:
  assumes "generate_symbol_id base ps = (i, ps')" "parser_ok ps" "plain base" "n_symbols ps' < 2 ^ 32"
  shows "parser_ok ps' \<and> unat i < n_symbols ps'"
proof -
  have le: "n_symbols ps \<le> n_symbols ps'" and i: "i = word_of_nat (n_symbols ps)"
    using assms(1) by (auto simp: generate_symbol_id_def next_id_def Let_def)
  have small: "n_symbols ps < 2 ^ 32" using le assms(4) by simp
  have "base @ [byte CHR ''_''] @ to_string (unat i) = generated_name base (n_symbols ps)"
    unfolding i unat_small_nat [OF small] generated_name_def by simp
  then have "ps' = ps\<lparr>pr_symbol_ids := pr_symbol_ids ps @ [(generated_name base (n_symbols ps), i)]\<rparr>"
    using assms(1-3) names_ok_fresh [of "pr_symbol_ids ps" base] i
    unfolding generate_symbol_id_def next_id_def Let_def parser_ok_def by auto
  then show ?thesis
    using parser_ok_snoc [OF assms(2), of "generated_name base (n_symbols ps)"] assms(3) unat_small_nat [OF small]
    unfolding i by auto
qed

lemma add_rule_ok:
  assumes "parser_ok ps" "n_symbols ps < 2 ^ 32" "unat i < n_symbols ps"
    and "seq_ok (2 ^ 32) 0 r" "elems_ok (n_symbols ps) r"
  shows "\<exists>ps'. add_rule i r ps = Inr ps' \<and> parser_ok ps' \<and> pr_symbol_ids ps' = pr_symbol_ids ps"
proof -
  have suc: "unat (i + 1) = unat i + 1"
    using assms(2,3) by (simp add: unat_word_ariths)
  have "set (xs[k := r]) \<subseteq> insert r (set xs)" for xs :: llama_grammar_rules and k by (rule set_update_subset_insert)
  moreover have "set (vec_resize k [] xs) \<subseteq> insert [] (set xs)" for xs :: llama_grammar_rules and k
    by (auto simp: vec_resize_def dest: in_set_takeD)
  ultimately show ?thesis
    using assms suc unfolding add_rule_def Let_def parser_ok_def by fastforce
qed

text \<open>Symbols are only added.\<close>

lemma get_symbol_id_grows: "get_symbol_id name ps = (i, ps') \<Longrightarrow> n_symbols ps \<le> n_symbols ps'"
  by (auto simp: get_symbol_id_def split: option.splits)

lemma generate_symbol_id_grows: "generate_symbol_id name ps = (i, ps') \<Longrightarrow> n_symbols ps \<le> n_symbols ps'"
  by (auto simp: generate_symbol_id_def Let_def)

lemma add_rule_symbols: "add_rule i r ps = Inr ps' \<Longrightarrow> pr_symbol_ids ps' = pr_symbol_ids ps"
  by (auto simp: add_rule_def Let_def split: if_splits)

text \<open>One pass of the loop over the optional repetitions.\<close>

lemma rec_rules_step:
  assumes "rec_rules (Suc k) i prev no_max nm l ps = Inr (l', ps')"
  obtains r ps1 ps2 where "generate_symbol_id nm ps = (r, ps1)"
    "add_rule r (prev @ (if i > 0 \<or> no_max then [elem LLAMA_GRETYPE_RULE_REF (if no_max then r else l)] else []) @
       [elem LLAMA_GRETYPE_ALT 0, elem LLAMA_GRETYPE_END 0]) ps1 = Inr ps2"
    "rec_rules k (i + 1) prev no_max nm r ps2 = Inr (l', ps')"
  using assms by (cases "generate_symbol_id nm ps") (simp add: Let_def bind_res_Inr_iff, blast)

lemma rec_rules_grows: "rec_rules k i prev no_max nm l ps = Inr (l', ps') \<Longrightarrow> n_symbols ps \<le> n_symbols ps'"
proof (induction k arbitrary: i l ps)
  case (Suc k)
  from Suc.prems show ?case
    by (rule rec_rules_step) (use Suc.IH generate_symbol_id_grows add_rule_symbols in fastforce)
qed simp

lemma rec_rules_ok:
  assumes "rec_rules k i prev no_max nm l ps = Inr (l', ps')" "n_symbols ps' < 2 ^ 32" "plain nm"
    and "parser_ok ps" "chunk (n_symbols ps) prev" "0 < i \<longrightarrow> unat l < n_symbols ps"
  shows "parser_ok ps' \<and> (0 < i \<or> 0 < k \<longrightarrow> unat l' < n_symbols ps')"
  using assms
proof (induction k arbitrary: i l ps)
  case (Suc k)
  obtain r ps1 ps2 where g: "generate_symbol_id nm ps = (r, ps1)"
    and a: "add_rule r (prev @ (if i > 0 \<or> no_max then [elem LLAMA_GRETYPE_RULE_REF (if no_max then r else l)] else []) @
       [elem LLAMA_GRETYPE_ALT 0, elem LLAMA_GRETYPE_END 0]) ps1 = Inr ps2"
    and rest: "rec_rules k (i + 1) prev no_max nm r ps2 = Inr (l', ps')"
    using Suc.prems(1) by (rule rec_rules_step)
  have le: "n_symbols ps \<le> n_symbols ps1" by (rule generate_symbol_id_grows [OF g])
  have eq: "pr_symbol_ids ps2 = pr_symbol_ids ps1" by (rule add_rule_symbols [OF a])
  have small: "n_symbols ps1 < 2 ^ 32" using rec_rules_grows [OF rest] Suc.prems(2) eq by simp
  have ps1: "parser_ok ps1" "unat r < n_symbols ps1"
    using generate_symbol_id_ok [OF g Suc.prems(4,3) small] by simp_all
  let ?ref = "if i > 0 \<or> no_max then [elem LLAMA_GRETYPE_RULE_REF (if no_max then r else l)] else []"
  have "chunk (n_symbols ps1) (prev @ ?ref @ [elem LLAMA_GRETYPE_ALT 0])"
  proof (intro chunk_simps(2))
    show "chunk (n_symbols ps1) prev" by (rule chunk_mono [OF Suc.prems(5) le])
    show "chunk (n_symbols ps1) ?ref" using Suc.prems(6) ps1(2) le by auto
  qed simp
  then have "seq_ok (2 ^ 32) 0 (prev @ ?ref @ [elem LLAMA_GRETYPE_ALT 0, elem LLAMA_GRETYPE_END 0])"
      "elems_ok (n_symbols ps1) (prev @ ?ref @ [elem LLAMA_GRETYPE_ALT 0, elem LLAMA_GRETYPE_END 0])"
    using closed_rule [of "prev @ ?ref @ [elem LLAMA_GRETYPE_ALT 0]"] by (simp_all add: chunk_def)
  then have "parser_ok ps2" using add_rule_ok [OF ps1(1) small ps1(2)] a by fastforce
  then have "parser_ok ps' \<and> (0 < i + 1 \<or> 0 < k \<longrightarrow> unat l' < n_symbols ps')"
    using Suc.IH [OF rest Suc.prems(2,3)] chunk_mono [OF Suc.prems(5) le] ps1(2) eq by simp
  then show ?case by simp
qed simp

lemma handle_repetitions_ok:
  assumes "handle_repetitions m n nm rule last_start ps = Inr (rule', ps')" "n_symbols ps' < 2 ^ 32" "plain nm"
    and "parser_ok ps" "chunk (n_symbols ps) (drop last_start rule)" "last_start \<le> length rule"
  shows "parser_ok ps' \<and> last_start \<le> length rule' \<and> take last_start rule' = take last_start rule \<and>
    chunk (n_symbols ps') (drop last_start rule')"
proof -
  let ?prev = "drop last_start rule"
  let ?rule1 = "if m = 0 then take last_start rule else rule @ concat (replicate (m - 1) ?prev)"
  obtain l where r: "rec_rules (repetition_count m n) 0 ?prev (n = UINT64_MAX) nm 0 ps = Inr (l, ps')"
    and rule': "rule' = (if repetition_count m n > 0 then ?rule1 @ [elem LLAMA_GRETYPE_RULE_REF l] else ?rule1)"
    using assms(1) unfolding handle_repetitions_def Let_def bind_res_Inr_iff
    by (auto simp: bind_res_Inr_iff split: if_split_asm)
  have ok: "parser_ok ps'" "0 < repetition_count m n \<longrightarrow> unat l < n_symbols ps'"
    using rec_rules_ok [OF r assms(2-5)] by simp_all
  let ?b = "if m = 0 then [] else ?prev @ concat (replicate (m - 1) ?prev)"
  have "?rule1 = take last_start rule @ ?b" by simp
  moreover have "chunk (n_symbols ps') ?b"
    using chunk_mono [OF assms(5) rec_rules_grows [OF r]] chunk_copies by simp
  ultimately obtain b where b: "?rule1 = take last_start rule @ b" "chunk (n_symbols ps') b" by blast
  then have "\<exists>b'. rule' = take last_start rule @ b' \<and> chunk (n_symbols ps') b'"
    unfolding rule' using ok(2) by (auto intro: exI [of _ "b @ [elem LLAMA_GRETYPE_RULE_REF l]"])
  then show ?thesis using ok(1) assms(6) by auto
qed

lemma handle_repetitions_grows: "handle_repetitions m n nm rule l ps = Inr (rule', ps') \<Longrightarrow> n_symbols ps \<le> n_symbols ps'"
  using rec_rules_grows unfolding handle_repetitions_def Let_def by (auto simp: bind_res_Inr_iff split: if_split_asm)

lemma parse_name_plain: "parse_name pos = Inr (name, rest) \<Longrightarrow> plain name"
proof -
  have "\<not> is_word_char (byte CHR ''_'')" by code_simp
  then show "parse_name pos = Inr (name, rest) \<Longrightarrow> plain name"
    unfolding parse_name_def Let_def plain_def by (auto dest: set_takeWhileD split: if_split_asm)
qed

lemma parse_item_grows:
  "parse_item pos nm rule last_start nested ps = Some (Inr (pos', rule', last', ps')) \<Longrightarrow> n_symbols ps \<le> n_symbols ps'"
  by (erule parse_item_elim) (simp_all add: get_symbol_id_grows handle_repetitions_grows)

text \<open>What a sequence keeps of its rule: it is closed up to the start of the last symbol and behind it.\<close>

definition seq_state :: "nat \<Rightarrow> llama_grammar_rule \<Rightarrow> nat \<Rightarrow> bool" where
  "seq_state n rule last_start \<longleftrightarrow>
    last_start \<le> length rule \<and> chunk n (take last_start rule) \<and> chunk n (drop last_start rule)"

lemma seq_state_chunk: "seq_state n rule k \<Longrightarrow> chunk n rule"
  using chunk_simps(2) [of n "take k rule" "drop k rule"] by (simp add: seq_state_def)

lemma seq_state_append: "chunk n rule \<Longrightarrow> chunk n xs \<Longrightarrow> seq_state n (rule @ xs) (length rule)"
  by (simp add: seq_state_def)

lemma parse_item_ok:
  assumes "parse_item pos nm rule last_start nested ps = Some (Inr (pos', rule', last', ps'))" "n_symbols ps' < 2 ^ 32"
    and "plain nm" "parser_ok ps" "seq_state (n_symbols ps) rule last_start"
  shows "parser_ok ps' \<and> seq_state (n_symbols ps') rule' last'"
proof -
  have rule: "chunk (n_symbols ps') rule"
    by (rule chunk_mono [OF seq_state_chunk [OF assms(5)] parse_item_grows [OF assms(1)]])
  show ?thesis
    using assms(1)
  proof (cases rule: parse_item_elim)
    case (literal pos1)
    then show ?thesis
      using literal_loop_chunk [OF literal(1), of "n_symbols ps'"] seq_state_append [OF rule] assms(4) by auto
  next
    case (class_item st p0 pos1)
    obtain b where b: "rule' = rule @ b" "b = [] \<or> opened b" "elems_ok 0 b"
      using class_loop_opened [of st rule p0 "[]" pos1 rule'] class_item(1,3) by auto
    then have "chunk (n_symbols ps') b"
      using opened_closed elems_ok_mono [of 0 b "n_symbols ps'"] by (auto simp: chunk_def)
    then show ?thesis using b(1) class_item(5,6) seq_state_append [OF rule] assms(4) by simp
  next
    case (token src tok te t)
    have "chunk (n_symbols ps') [elem t tok]" using token(2) by auto
    then show ?thesis using token(5-7) seq_state_append [OF rule] assms(4) by simp
  next
    case (reference name ne i)
    have "parser_ok ps' \<and> unat i < n_symbols ps'"
      by (rule get_symbol_id_ok [OF reference(2) assms(4) parse_name_plain [OF reference(1)] assms(2)])
    then show ?thesis using reference(4,5) seq_state_append [OF rule] by simp
  next
    case any_char
    then show ?thesis using seq_state_append [OF rule] assms(4) by simp
  next
    case (repeated m n)
    note st = assms(5) [unfolded seq_state_def]
    have "chunk (n_symbols ps') (take last_start rule)"
      by (rule chunk_mono [OF _ parse_item_grows [OF assms(1)]]) (use st in simp)
    then show ?thesis
      using handle_repetitions_ok [OF repeated(1) assms(2-4)] st repeated(2) by (simp add: seq_state_def)
  qed
qed

lemma parse_run_grows:
  "(parse_sequence n pos nm rule last_start nested ps = Some (Inr (pos', rule', ps')) \<longrightarrow> n_symbols ps \<le> n_symbols ps') \<and>
   (parse_alternates n pos nm i nested ps = Some (Inr (pos', ps')) \<longrightarrow> n_symbols ps \<le> n_symbols ps') \<and>
   (alternates_rest n pos nm rule i nested ps = Some (Inr (pos', ps')) \<longrightarrow> n_symbols ps \<le> n_symbols ps')"
proof (induction n arbitrary: pos nm rule last_start nested ps pos' rule' ps' i)
  case 0
  then show ?case by (simp add: parse_sequence.simps parse_alternates.simps alternates_rest.simps)
next
  case (Suc n)
  note seq = Suc.IH [THEN conjunct1, rule_format]
  note alts = Suc.IH [THEN conjunct2, THEN conjunct1, rule_format]
  note rest = Suc.IH [THEN conjunct2, THEN conjunct2, rule_format]
  have "n_symbols ps \<le> n_symbols ps'"
    if "parse_sequence (Suc n) pos nm rule last_start nested ps = Some (Inr (pos', rule', ps'))"
    using that
  proof (cases rule: parse_sequence_elim)
    case (group j ps1 pos1 ps2)
    show ?thesis using generate_symbol_id_grows [OF group(2)] alts [OF group(3)] seq [OF group(4)] by simp
  next
    case (item pos1 rule1 last1 ps1)
    show ?thesis using parse_item_grows [OF item(2)] seq [OF item(3)] by simp
  qed simp
  moreover have "n_symbols ps \<le> n_symbols ps'" if "parse_alternates (Suc n) pos nm i nested ps = Some (Inr (pos', ps'))"
    using that by (rule parse_alternates_elim) (use seq rest in fastforce)
  moreover have "n_symbols ps \<le> n_symbols ps'" if "alternates_rest (Suc n) pos nm rule i nested ps = Some (Inr (pos', ps'))"
    using that
  proof (cases rule: alternates_rest_elim)
    case (alternate pos1 rule1 ps1)
    then show ?thesis using seq [OF alternate(1)] rest [OF alternate(2)] by simp
  qed (simp add: add_rule_symbols)
  ultimately show ?case by blast
qed

lemmas parse_sequence_grows = parse_run_grows [THEN conjunct1, rule_format]
lemmas parse_alternates_grows = parse_run_grows [THEN conjunct2, THEN conjunct1, rule_format]
lemmas alternates_rest_grows = parse_run_grows [THEN conjunct2, THEN conjunct2, rule_format]

lemma parse_run_ok:
  assumes "n_symbols ps' < 2 ^ 32" "plain nm" "parser_ok ps"
  shows "(parse_sequence n pos nm rule last_start nested ps = Some (Inr (pos', rule', ps')) \<longrightarrow>
      seq_state (n_symbols ps) rule last_start \<longrightarrow> parser_ok ps' \<and> chunk (n_symbols ps') rule') \<and>
    (parse_alternates n pos nm i nested ps = Some (Inr (pos', ps')) \<longrightarrow> unat i < n_symbols ps \<longrightarrow> parser_ok ps') \<and>
    (alternates_rest n pos nm rule i nested ps = Some (Inr (pos', ps')) \<longrightarrow> unat i < n_symbols ps \<longrightarrow>
      chunk (n_symbols ps) rule \<longrightarrow> parser_ok ps')"
  using assms
proof (induction n arbitrary: pos nm rule last_start nested ps pos' rule' ps' i)
  case 0
  then show ?case by (simp add: parse_sequence.simps parse_alternates.simps alternates_rest.simps)
next
  case (Suc n)
  note seq = Suc.IH [THEN conjunct1, rule_format]
  note alts = Suc.IH [THEN conjunct2, THEN conjunct1, rule_format]
  note rest = Suc.IH [THEN conjunct2, THEN conjunct2, rule_format]
  have "parser_ok ps' \<and> chunk (n_symbols ps') rule'"
    if "parse_sequence (Suc n) pos nm rule last_start nested ps = Some (Inr (pos', rule', ps'))"
      and st: "seq_state (n_symbols ps) rule last_start"
    using that(1)
  proof (cases rule: parse_sequence_elim)
    case stop
    then show ?thesis using Suc.prems seq_state_chunk [OF st] by simp
  next
    case (group j ps1 pos1 ps2)
    have le: "n_symbols ps \<le> n_symbols ps1" "n_symbols ps1 \<le> n_symbols ps2" "n_symbols ps2 \<le> n_symbols ps'"
      using generate_symbol_id_grows [OF group(2)] parse_alternates_grows [OF group(3)] parse_sequence_grows [OF group(4)]
      by simp_all
    have ps1: "parser_ok ps1 \<and> unat j < n_symbols ps1"
      by (rule generate_symbol_id_ok [OF group(2) Suc.prems(3,2)]) (use le Suc.prems(1) in simp)
    have ps2: "parser_ok ps2" by (rule alts [OF _ Suc.prems(2) _ group(3)]) (use ps1 le Suc.prems(1) in simp_all)
    have "chunk (n_symbols ps2) rule" using chunk_mono [OF seq_state_chunk [OF st]] le by simp
    then show ?thesis
      by (intro seq [OF Suc.prems(1,2) ps2 group(4)] seq_state_append) (use ps1 le in simp_all)
  next
    case (item pos1 rule1 last1 ps1)
    have "parser_ok ps1 \<and> seq_state (n_symbols ps1) rule1 last1"
      by (rule parse_item_ok [OF item(2) _ Suc.prems(2,3) st]) (use parse_sequence_grows [OF item(3)] Suc.prems(1) in simp)
    then show ?thesis using seq [OF Suc.prems(1,2) _ item(3)] by simp
  qed
  moreover have "parser_ok ps'"
    if r: "parse_alternates (Suc n) pos nm i nested ps = Some (Inr (pos', ps'))" and i: "unat i < n_symbols ps"
  proof -
    obtain pos1 rule1 ps1 where s: "parse_sequence n pos nm [] 0 nested ps = Some (Inr (pos1, rule1, ps1))"
      and a: "alternates_rest n pos1 nm rule1 i nested ps1 = Some (Inr (pos', ps'))"
      using r by (rule parse_alternates_elim) auto
    have le: "n_symbols ps1 < 2 ^ 32" using alternates_rest_grows [OF a] Suc.prems(1) by simp
    have "parser_ok ps1 \<and> chunk (n_symbols ps1) rule1"
      by (rule seq [OF le Suc.prems(2,3) s]) (simp add: seq_state_def)
    then show ?thesis using rest [OF Suc.prems(1,2) _ a] i parse_sequence_grows [OF s] by simp
  qed
  moreover have "parser_ok ps'"
    if r: "alternates_rest (Suc n) pos nm rule i nested ps = Some (Inr (pos', ps'))" and i: "unat i < n_symbols ps"
      and c: "chunk (n_symbols ps) rule"
    using r
  proof (cases rule: alternates_rest_elim)
    case (alternate pos1 rule1 ps1)
    have le: "n_symbols ps1 < 2 ^ 32" using alternates_rest_grows [OF alternate(2)] Suc.prems(1) by simp
    have "parser_ok ps1 \<and> chunk (n_symbols ps1) rule1"
      by (rule seq [OF le Suc.prems(2,3) alternate(1)]) (use c in \<open>simp add: seq_state_def\<close>)
    then show ?thesis using rest [OF Suc.prems(1,2) _ alternate(2)] i parse_sequence_grows [OF alternate(1)] by simp
  next
    case stop
    have eq: "pr_symbol_ids ps' = pr_symbol_ids ps" by (rule add_rule_symbols [OF stop(2)])
    have "seq_ok (2 ^ 32) 0 (rule @ [elem LLAMA_GRETYPE_END 0])"
      using c closed_rule by (simp add: chunk_def)
    then show ?thesis using add_rule_ok [OF Suc.prems(3) _ i] stop(2) c Suc.prems(1) eq by (fastforce simp: chunk_def)
  qed
  ultimately show ?case by blast
qed

lemmas parse_alternates_ok = parse_run_ok [THEN conjunct2, THEN conjunct1, rule_format]

lemma parse_rule_ok:
  assumes "parse_rule pos ps = Some (Inr (pos', ps'))" "n_symbols ps' < 2 ^ 32" "parser_ok ps"
  shows "parser_ok ps' \<and> n_symbols ps \<le> n_symbols ps'"
proof -
  obtain name name_end i ps1 src pos2 where n: "parse_name pos = Inr (name, name_end)"
    and g: "get_symbol_id name ps = (i, ps1)"
    and a: "parse_alternates (2 * length src + 2) src name i False ps1 = Some (Inr (pos2, ps'))"
    using assms(1) by (rule parse_rule_elim)
  have le: "n_symbols ps \<le> n_symbols ps1" "n_symbols ps1 \<le> n_symbols ps'"
    using get_symbol_id_grows [OF g] parse_alternates_grows [OF a] by simp_all
  then have "parser_ok ps1 \<and> unat i < n_symbols ps1"
    using get_symbol_id_ok [OF g assms(3) parse_name_plain [OF n]] assms(2) by simp
  then show ?thesis using parse_alternates_ok [OF assms(2) parse_name_plain [OF n] _ a] le by simp
qed

lemma parse_rules_grows: "parse_rules n pos ps = Some (Inr ps') \<Longrightarrow> n_symbols ps \<le> n_symbols ps'"
proof (induction n arbitrary: pos ps)
  case (Suc n)
  have "n_symbols ps \<le> n_symbols ps1" if "parse_rule pos ps = Some (Inr (pos1, ps1))" for pos1 ps1
    using that by (rule parse_rule_elim) (use get_symbol_id_grows parse_alternates_grows in fastforce)
  then show ?case using Suc.prems Suc.IH by (fastforce simp: bind_ro_Inr_iff split: if_split_asm)
qed simp

lemma parse_rules_ok:
  "parse_rules n pos ps = Some (Inr ps') \<Longrightarrow> n_symbols ps' < 2 ^ 32 \<Longrightarrow> parser_ok ps \<Longrightarrow> parser_ok ps'"
proof (induction n arbitrary: pos ps)
  case (Suc n)
  show ?case
  proof (cases "cur pos = 0")
    case False
    then obtain pos1 ps1 where r: "parse_rule pos ps = Some (Inr (pos1, ps1))" "parse_rules n pos1 ps1 = Some (Inr ps')"
      using Suc.prems(1) by (auto simp: bind_ro_Inr_iff)
    have "parser_ok ps1"
      using parse_rule_ok [OF r(1) _ Suc.prems(3)] parse_rules_grows [OF r(2)] Suc.prems(2) by simp
    then show ?thesis by (rule Suc.IH [OF r(2) Suc.prems(2)])
  qed (use Suc.prems in simp)
qed simp

abbreviation new_parser :: "llama_vocab option \<Rightarrow> llama_grammar_parser" where
  "new_parser vocab \<equiv> \<lparr>pr_vocab = vocab, pr_symbol_ids = [], pr_rules = []\<rparr>"

lemma parse_success:
  assumes "parse ps src = Some (Inr (Some ps'))"
  shows "parse_rules (length src + 1) (parse_space src True) ps = Some (Inr ps') \<and> validate_rules ps' = Inr ()"
proof -
  have "bind_ro (parse_rules (length src + 1) (parse_space src True) ps) (\<lambda>ps1.
      bind_ro (Some (validate_rules ps1)) (\<lambda>_. Some (Inr ps1))) = Some (Inr ps')"
    using assms unfolding parse_def by (auto split: option.splits sum.splits if_splits)
  then show ?thesis unfolding bind_ro_Inr_iff by auto
qed

lemma seq_ok_refs_in:
  "seq_ok n c r \<Longrightarrow> elems_ok m r \<Longrightarrow> seq_ok m c r"
  by (induction n c r rule: seq_ok.induct) (auto split: llama_gretype.splits)

lemma parsed_ok:
  assumes "parse (new_parser vocab) src = Some (Inr (Some ps))" "n_symbols ps < 2 ^ 32"
  shows "parser_ok ps" "\<forall>r \<in> set (pr_rules ps). seq_ok (2 ^ 32) 0 r \<and> elems_ok (length (pr_rules ps)) r"
proof -
  note run = parse_success [OF assms(1)]
  show ok: "parser_ok ps"
    using parse_rules_ok [OF run [THEN conjunct1] assms(2)] by (simp add: parser_ok_def names_ok_def)
  show "\<forall>r \<in> set (pr_rules ps). seq_ok (2 ^ 32) 0 r \<and> elems_ok (length (pr_rules ps)) r"
  proof
    fix r assume r: "r \<in> set (pr_rules ps)"
    then have v: "r \<noteq> []" "\<forall>e \<in> set r. \<not> undefined_ref ps e"
      using run by (auto simp: validate_rules_def split: if_split_asm)
    have shape: "seq_ok (2 ^ 32) 0 r" "elems_ok (n_symbols ps) r" using ok r v(1) by (auto simp: parser_ok_def)
    have "unat (el_value e) < length (pr_rules ps)" if e: "e \<in> set r" "el_type e = LLAMA_GRETYPE_RULE_REF" for e
    proof -
      have "unat (el_value e) < n_symbols ps" using shape(2) e by (simp add: elems_ok_def)
      moreover have "word_of_nat (unat (el_value e)) = el_value e" by simp
      ultimately have "\<exists>kv \<in> set (pr_symbol_ids ps). snd kv = el_value e"
        using names_ok_range(2) [of "pr_symbol_ids ps"] ok assms(2) unfolding parser_ok_def by metis
      then show ?thesis using v(2) e unfolding undefined_ref_def by (meson not_le)
    qed
    then show "seq_ok (2 ^ 32) 0 r \<and> elems_ok (length (pr_rules ps)) r"
      using shape unfolding elems_ok_def by blast
  qed
qed

text \<open>Two texts: \<open>root ::= [a-z]+ | [.]\<close>, and \<open>a ::= root{0}\<close>, whose only reference is dropped again.\<close>

definition letters_text :: bytes where
  "letters_text = ascii ''root ::= [a-z]+ | [.]''"

definition dropped_text :: bytes where
  "dropped_text = ascii ''a ::= root{0}''"

text \<open>The equations that evaluate the parser on a given text.\<close>

lemmas numeral_fuel = parse_sequence.simps(2) [of "pred_numeral k" for k, folded numeral_eq_Suc]
  parse_alternates.simps(2) [of "pred_numeral k" for k, folded numeral_eq_Suc]
  alternates_rest.simps(2) [of "pred_numeral k" for k, folded numeral_eq_Suc]
  parse_rules.simps(2) [of "pred_numeral k" for k, folded numeral_eq_Suc]
  hex_loop.simps(3) [of "pred_numeral k" for k, folded numeral_eq_Suc]
  replicate.simps(2) [of "pred_numeral k" for k, folded numeral_eq_Suc]

lemmas parse_eval = numeral_fuel parse_def validate_rules_def undefined_ref_def parse_rule_def parse_item_def parse_repeated_def
  parse_bounds_def class_loop.simps literal_loop.simps handle_repetitions_def repetition_count_def UINT64_MAX_def
  add_rule_def generate_symbol_id_def get_symbol_id_def next_id_def to_string.simps stoul_def digits_value_def
  parse_char_def parse_hex_def parse_int_def parse_name_def is_word_char_def is_digit_char_def is_newline_def cur_def
  decode_utf8_one_def lookup_len_def vec_resize_def MAX_REPETITION_THRESHOLD_def ascii_def Let_def

lemmas parse_congs = bind_ro_weak bind_res_weak option.case_cong_weak

lemma letters_parsed:
  "parse (new_parser None) letters_text = Some (Inr (Some
    \<lparr>pr_vocab = None, pr_symbol_ids = [(ascii ''root'', 0), (ascii ''root_1'', 1)],
     pr_rules =
      [[elem LLAMA_GRETYPE_CHAR 0x61, elem LLAMA_GRETYPE_CHAR_RNG_UPPER 0x7A, elem LLAMA_GRETYPE_RULE_REF 1,
        elem LLAMA_GRETYPE_ALT 0, elem LLAMA_GRETYPE_CHAR 0x2E, elem LLAMA_GRETYPE_END 0],
       [elem LLAMA_GRETYPE_CHAR 0x61, elem LLAMA_GRETYPE_CHAR_RNG_UPPER 0x7A, elem LLAMA_GRETYPE_RULE_REF 1,
        elem LLAMA_GRETYPE_ALT 0, elem LLAMA_GRETYPE_END 0]]\<rparr>))"
  by (simp add: letters_text_def parse_eval cong: parse_congs)

lemma dropped_parsed:
  "parse (new_parser None) dropped_text = Some (Inr (Some
    \<lparr>pr_vocab = None, pr_symbol_ids = [(ascii ''a'', 0), (ascii ''root'', 1)], pr_rules = [[elem LLAMA_GRETYPE_END 0]]\<rparr>))"
  by (simp add: dropped_text_def parse_eval cong: parse_congs)

lemma root_name: "ascii ''root'' \<noteq> ascii ''a''" "ascii ''root'' \<noteq> ascii ''root_1''"
  by code_simp+

text \<open>C7. The rules of a text that parses are well formed: the shape the engine relies on, with every
  reference to a rule that exists. This holds as long as the symbols fit into 32 bits.\<close>

theorem parsed_rules_ok:
  assumes "parse (new_parser vocab) src = Some (Inr (Some ps))" "length (pr_symbol_ids ps) < 2 ^ 32"
  shows "rules_ok (pr_rules ps)"
  using parsed_ok [OF assms] seq_ok_refs_in unfolding rules_ok_def by blast

theorem parsed_rules_ok_witness:
  "\<exists>ps. parse (new_parser None) letters_text = Some (Inr (Some ps)) \<and> rules_ok (pr_rules ps)"
  using parsed_rules_ok [OF letters_parsed] letters_parsed by simp

section \<open>Initialization from a text\<close>

lemma copy_rule_ok: "seq_ok n c r \<Longrightarrow> elems_ok m r \<Longrightarrow> copy_rule r = Inr r"
proof (induction n c r rule: seq_ok.induct)
  case (2 n c e es)
  show ?case
  proof (cases "el_type e = LLAMA_GRETYPE_END")
    case True
    then show ?thesis using "2.prems" by simp
  next
    case False
    then have "copy_rule es = Inr es"
      using 2 by (auto split: llama_gretype.splits)
    with False show ?thesis by simp
  qed
qed simp

lemma copy_rules_ok: "\<forall>r \<in> set rules. seq_ok n 0 r \<and> elems_ok m r \<Longrightarrow> copy_rules rules = Inr rules"
  using copy_rule_ok by (induction rules) fastforce+





text \<open>The initialization from a text that parses.\<close>

lemma init_parsed:
  assumes "parse (new_parser vocab) src = Some (Inr (Some ps))" "length (pr_symbol_ids ps) < 2 ^ 32" "pr_rules ps \<noteq> []"
    and "map_of (pr_symbol_ids ps) (ascii ''root'') \<noteq> None" "map_of (pr_symbol_ids ps) root = Some start"
  shows "rules_ok (pr_rules ps)" "copy_rules (pr_rules ps) = Inr (pr_rules ps)"
    "grammar_init_str mk_regex vocab src root lazy pats n_pats toks n_toks =
      grammar_init mk_regex vocab (pr_rules ps) (unat start) lazy pats n_pats toks n_toks"
  using parsed_ok(2) [OF assms(1,2)] seq_ok_refs_in copy_rules_ok [OF parsed_ok(2) [OF assms(1,2)]] assms
  unfolding rules_ok_def by (blast, blast, auto simp: grammar_init_str_def)



text \<open>C39. A symbol without a rule: for a text that parses (with fewer than 2 to the 32 symbols, one of them \<open>root\<close>), when the id of the start symbol is not the id of a rule and no left recursion
  is detected, the initialization reads a rule behind the last one. This happens for texts that pass the
  validation, which looks at the references that are left in the rules: with \<open>a ::= root{0}\<close> the
  repetition drops the only reference to \<open>root\<close>, and the symbol stays without a rule.\<close>

theorem undefined_root:
  assumes "parse (new_parser vocab) src = Some (Inr (Some ps))" "length (pr_symbol_ids ps) < 2 ^ 32" "pr_rules ps \<noteq> []"
    and "map_of (pr_symbol_ids ps) (ascii ''root'') \<noteq> None"
    and "map_of (pr_symbol_ids ps) root = Some start" "length (pr_rules ps) \<le> unat start"
    and "\<nexists>j. (left_of (pr_rules ps))\<^sup>+\<^sup>+ j j"
  shows "grammar_init_str mk_regex vocab src root lazy patterns n_patterns tokens n_tokens = Some (Inl (Out_of_bounds ''rule''))"
proof -
  note parsed = init_parsed [OF assms(1-5)]
  have "left_recursive (pr_rules ps) = Some (Inr False)" using left_recursive_result [OF parsed(1)] assms(7) by auto
  moreover have "start_stacks (pr_rules ps) (unat start) = Some (Inl oob)"
    using assms(6) by (simp add: start_stacks_def els_def)
  ultimately show ?thesis using parsed(2,3) by (simp add: grammar_init_def)
qed

theorem undefined_root_witness:
  "\<exists>ps. parse (new_parser None) dropped_text = Some (Inr (Some ps)) \<and>
    grammar_init_str (\<lambda>p. Some p) None dropped_text (ascii ''root'') False None 0 None 0 = Some (Inl (Out_of_bounds ''rule''))"
proof (rule exI, rule conjI [OF dropped_parsed], rule undefined_root [OF dropped_parsed, where start = 1])
  show "\<nexists>j. (left_of (pr_rules \<lparr>pr_vocab = None, pr_symbol_ids = [(ascii ''a'', 0), (ascii ''root'', 1)],
      pr_rules = [[elem LLAMA_GRETYPE_END 0]]\<rparr>))\<^sup>+\<^sup>+ j j"
    by (auto simp: left_of_def elim: tranclp.cases)
qed (use root_name in simp_all)

end
