(* ===== verification/GrammarRepeat.thy ===== *)
theory GrammarRepeat
  imports GrammarText
begin

text \<open>
  What a repetition in a grammar text means: the elements and rules that \<open>handle_repetitions\<close> makes
  of an item derive the texts that are between \<open>m\<close> and \<open>n\<close> texts of the item, one after the other.
\<close>

section \<open>Derivations of element lists\<close>

inductive seq_derives :: "llama_grammar_rules \<Rightarrow> llama_grammar_element list \<Rightarrow> code_point list \<Rightarrow> bool" for rules where
  seq_end: "is_end_of_sequence (hd es) \<Longrightarrow> seq_derives rules es []"
| seq_char: "is_class_start (hd es) \<Longrightarrow> in_class es c \<Longrightarrow> seq_derives rules (drop (class_len es) es) w \<Longrightarrow>
    seq_derives rules es (c # w)"
| seq_ref: "el_type (hd es) = LLAMA_GRETYPE_RULE_REF \<Longrightarrow> u \<in> rule_language rules (unat (el_value (hd es))) \<Longrightarrow>
    seq_derives rules (drop 1 es) v \<Longrightarrow> seq_derives rules es (u @ v)"

lemma seq_derives_cases:
  "is_end_of_sequence (hd es) \<Longrightarrow> seq_derives rules es w \<longleftrightarrow> w = []"
  "is_class_start (hd es) \<Longrightarrow> seq_derives rules es w \<longleftrightarrow>
     (\<exists>c v. w = c # v \<and> in_class es c \<and> seq_derives rules (drop (class_len es) es) v)"
  "el_type (hd es) = LLAMA_GRETYPE_RULE_REF \<Longrightarrow> seq_derives rules es w \<longleftrightarrow>
     (\<exists>u v. w = u @ v \<and> u \<in> rule_language rules (unat (el_value (hd es))) \<and> seq_derives rules (drop 1 es) v)"
  "is_token_element (hd es) \<Longrightarrow> \<not> seq_derives rules es w"
  subgoal by (auto elim: seq_derives.cases intro: seq_derives.intros simp: element_kinds)
  subgoal by (auto elim: seq_derives.cases intro: seq_derives.intros simp: element_kinds)
  subgoal by (auto simp: element_kinds elim!: seq_derives.cases [of rules es w] simp del: One_nat_def)
             (blast intro: seq_derives.seq_ref)+
  subgoal by (auto elim: seq_derives.cases simp: element_kinds)
  done

lemma derives_seq: "derives rules p w \<longleftrightarrow> seq_derives rules (els rules p) w"
proof
  show "derives rules p w \<Longrightarrow> seq_derives rules (els rules p) w"
  proof (induction rule: derives.induct)
    case (derives_ref p a u v)
    then have "u \<in> rule_language rules (unat (el_value (hd (els rules p))))" by (auto simp: rule_language_def)
    then show ?case using derives_ref by (auto intro: seq_ref simp: els_add)
  qed (auto intro: seq_end seq_char simp: els_add)
  have "seq_derives rules es w \<Longrightarrow> es = els rules p \<Longrightarrow> derives rules p w" for es
  proof (induction arbitrary: p rule: seq_derives.induct)
    case (seq_end es)
    then show ?case using derives.derives_end by blast
  next
    case (seq_char es c w)
    then have "derives rules (ptr_add p (class_len es)) w" by (simp add: els_add)
    with seq_char show ?case using derives.derives_char by blast
  next
    case (seq_ref es u v)
    then have "derives rules (ptr_add p 1) v" by (simp add: els_add)
    with seq_ref(1,2,5) show ?case by (auto simp: rule_language_def intro: derives.derives_ref)
  qed
  then show "seq_derives rules (els rules p) w \<Longrightarrow> derives rules p w" by blast
qed

abbreviation end_element :: llama_grammar_element where
  "end_element \<equiv> elem LLAMA_GRETYPE_END 0"

definition no_end :: "llama_grammar_rule \<Rightarrow> bool" where
  "no_end r \<longleftrightarrow> (\<forall>e \<in> set r. \<not> is_end_of_sequence e)"

lemma no_end_simps [simp]:
  "no_end []" "no_end (e # r) \<longleftrightarrow> \<not> is_end_of_sequence e \<and> no_end r" "no_end (r @ s) \<longleftrightarrow> no_end r \<and> no_end s"
  by (auto simp: no_end_def)

lemma no_end_drop: "no_end r \<Longrightarrow> no_end (drop k r)"
  by (auto simp: no_end_def dest: in_set_dropD)

text \<open>Elements that no longer belong to a character class before them.\<close>

definition follows :: "llama_grammar_rule \<Rightarrow> bool" where
  "follows b \<longleftrightarrow> b \<noteq> [] \<and> el_type (hd b) \<noteq> LLAMA_GRETYPE_CHAR_ALT \<and> el_type (hd b) \<noteq> LLAMA_GRETYPE_CHAR_RNG_UPPER"

text \<open>The texts of a part of a sequence.\<close>

definition part_language :: "llama_grammar_rules \<Rightarrow> llama_grammar_rule \<Rightarrow> code_point list set" where
  "part_language rules r = {w. seq_derives rules (r @ [end_element]) w}"

lemma class_prefix:
  "r \<noteq> [] \<Longrightarrow> seq_ok n 1 (tl r @ [end_element]) \<Longrightarrow> follows b \<Longrightarrow>
   class_len (r @ b) = class_len (r @ [end_element]) \<and> class_ranges (r @ b) = class_ranges (r @ [end_element]) \<and>
   0 < class_len (r @ [end_element]) \<and> class_len (r @ [end_element]) \<le> length r \<and>
   seq_ok n 0 (drop (class_len (r @ [end_element])) r @ [end_element])"
proof (induction r rule: class_len.induct)
  case (1 e u es)
  show ?case
  proof (cases "el_type u = LLAMA_GRETYPE_CHAR_RNG_UPPER")
    case upper: True
    show ?thesis
    proof (cases es)
      case Nil
      then show ?thesis using upper 1(5) by (cases b) (auto simp: follows_def)
    next
      case (Cons a es')
      show ?thesis
      proof (cases "el_type a = LLAMA_GRETYPE_CHAR_ALT")
        case True
        then have "seq_ok n 1 (tl es @ [end_element])" using upper Cons 1(4) by simp
        then show ?thesis using 1(1) [OF upper] upper Cons True 1(5) by simp
      next
        case False
        have a: "seq_ok n 2 (a # es' @ [end_element])" using upper Cons 1(4) by simp
        then have "el_type a \<noteq> LLAMA_GRETYPE_CHAR_RNG_UPPER" by auto
        then show ?thesis using upper Cons False seq_ok_outside [OF a False] by simp
      qed
    qed
  next
    case upper: False
    show ?thesis
    proof (cases "el_type u = LLAMA_GRETYPE_CHAR_ALT")
      case True
      then have "seq_ok n 1 (tl (u # es) @ [end_element])" using 1(4) by simp
      then show ?thesis using 1(2) [OF upper] upper True 1(5) by simp
    next
      case False
      then show ?thesis using upper 1(4) seq_ok_outside [of n 1 u "es @ [end_element]"] by simp
    qed
  qed
qed (auto simp: follows_def neq_Nil_conv)

lemma seq_derives_append:
  "seq_ok n 0 (r @ [end_element]) \<Longrightarrow> no_end r \<Longrightarrow> follows b \<Longrightarrow>
   seq_derives rules (r @ b) w \<longleftrightarrow> (\<exists>u v. w = u @ v \<and> u \<in> part_language rules r \<and> seq_derives rules b v)"
proof (induction r arbitrary: w rule: length_induct)
  case (1 r)
  note part = part_language_def
  note prems = "1.prems"
  show ?case
  proof (cases r)
    case Nil
    then show ?thesis by (simp add: part seq_derives_cases(1) is_end_of_sequence_def)
  next
    case (Cons e r')
    consider "el_type e = LLAMA_GRETYPE_RULE_REF" | "is_class_start e" | "is_token_element e"
      using 1(2,3) Cons by (auto simp: element_kinds split: llama_gretype.splits)
    then show ?thesis
    proof cases
      case 1
      have IH: "seq_derives rules (r' @ b) w \<longleftrightarrow>
          (\<exists>u v. w = u @ v \<and> u \<in> part_language rules r' \<and> seq_derives rules b v)" for w
        using "1.IH" "1.prems" Cons 1 by simp
      show ?thesis
        using Cons 1 IH seq_derives_cases(3) [of "e # r' @ b"] seq_derives_cases(3) [of "e # r' @ [end_element]"]
        by (simp add: part) (metis append.assoc)
    next
      case 2
      let ?k = "class_len (r @ [end_element])"
      have "seq_ok n 1 (tl r @ [end_element])"
        using prems(1) Cons 2 by (auto simp: element_kinds)
      note k = class_prefix [OF _ this prems(3)]
      then have k: "class_len (r @ b) = ?k" "class_ranges (r @ b) = class_ranges (r @ [end_element])"
          "0 < ?k" "?k \<le> length r" "seq_ok n 0 (drop ?k r @ [end_element])"
        using Cons by blast+
      have IH: "seq_derives rules (drop ?k r @ b) w \<longleftrightarrow>
          (\<exists>u v. w = u @ v \<and> u \<in> part_language rules (drop ?k r) \<and> seq_derives rules b v)" for w
        by (rule "1.IH" [rule_format]) (use prems(2,3) k(3-5) Cons no_end_drop in auto)
      have cls: "in_class (r @ b) c = in_class (r @ [end_element]) c" for c
        using k(2) Cons by (simp add: in_class_def)
      have hd: "is_class_start (hd (r @ b))" "is_class_start (hd (r @ [end_element]))" using 2 Cons by simp_all
      have u: "u \<in> part_language rules r \<longleftrightarrow>
          (\<exists>c v. u = c # v \<and> in_class (r @ [end_element]) c \<and> v \<in> part_language rules (drop ?k r))" for u
        using seq_derives_cases(2) [OF hd(2), of rules u] k(4) by (simp add: part)
      show ?thesis
        unfolding seq_derives_cases(2) [OF hd(1)] k(1) cls u using IH k(4) by auto (metis append_Cons, blast)
    next
      case 3
      then show ?thesis using Cons seq_derives_cases(4) [of "e # r' @ _"] by (auto simp: part)
    qed
  qed
qed

section \<open>Copies, references and optional rules\<close>

fun text_pow :: "code_point list set \<Rightarrow> nat \<Rightarrow> code_point list set" where
  "text_pow L 0 = {[]}"
| "text_pow L (Suc k) = {u @ v |u v. u \<in> L \<and> v \<in> text_pow L k}"

lemma closed_seq: "closed r \<Longrightarrow> seq_ok (2 ^ 32) 0 (r @ [end_element])"
  by (rule closed_rule)

lemma closed_follows: "closed r \<Longrightarrow> follows b \<Longrightarrow> follows (r @ b)"
  using closed_seq [of r] by (cases r) (auto simp: follows_def)

lemma follows_end [simp]: "follows (elem LLAMA_GRETYPE_END v # b)" "follows (elem LLAMA_GRETYPE_ALT v # b)"
    "follows (elem LLAMA_GRETYPE_RULE_REF v # b)"
  by (simp_all add: follows_def)

lemma is_end_simps [simp]:
  "is_end_of_sequence (elem LLAMA_GRETYPE_END v)" "is_end_of_sequence (elem LLAMA_GRETYPE_ALT v)"
  "\<not> is_end_of_sequence (elem LLAMA_GRETYPE_RULE_REF v)"
  by (simp_all add: is_end_of_sequence_def)

lemma part_append:
  assumes "closed r" "no_end r" "closed s"
  shows "part_language rules (r @ s) = {u @ v |u v. u \<in> part_language rules r \<and> v \<in> part_language rules s}"
  using seq_derives_append [OF closed_seq [OF assms(1)] assms(2) closed_follows [OF assms(3), of "[end_element]"]]
  by (auto simp: part_language_def)

lemma part_Nil [simp]: "part_language rules [] = {[]}"
  by (auto simp: part_language_def seq_derives_cases(1))

lemma part_ref: "part_language rules [elem LLAMA_GRETYPE_RULE_REF j] = rule_language rules (unat j)"
  by (auto simp: part_language_def seq_derives_cases(1,3))

lemma closed_copies: "closed r \<Longrightarrow> closed (concat (replicate k r))"
  by (induction k) simp_all

lemma no_end_copies: "no_end r \<Longrightarrow> no_end (concat (replicate k r))"
  by (induction k) simp_all

lemma part_copies:
  "closed r \<Longrightarrow> no_end r \<Longrightarrow> part_language rules (concat (replicate k r)) = text_pow (part_language rules r) k"
  by (induction k) (simp_all add: part_append closed_copies)

lemma alternates_no_end: "no_end xs \<Longrightarrow> alternates (xs @ ys) i False = alternates ys (i + length xs) False"
  by (induction xs arbitrary: i) simp_all

lemma optional_alts:
  assumes "g < length rules" "rules ! g = xs @ [elem LLAMA_GRETYPE_ALT 0, end_element]" "no_end xs"
  shows "set (rule_alts rules g) = {(g, 0), (g, length xs + 1)}"
proof -
  have "alternates (xs @ [elem LLAMA_GRETYPE_ALT 0, end_element]) 0 True = [0, length xs + 1]"
    using assms(3) by (cases xs) (simp_all add: alternates_no_end)
  then show ?thesis using assms(1,2) by (auto simp: rule_alts_def els_def)
qed

lemma rule_language_optional:
  assumes "g < length rules" "rules ! g = xs @ [elem LLAMA_GRETYPE_ALT 0, end_element]" "closed xs" "no_end xs"
  shows "rule_language rules g = insert [] (part_language rules xs)"
proof -
  have "derives rules (g, 0) w \<longleftrightarrow> w \<in> part_language rules xs" for w
    using seq_derives_append [OF closed_seq [OF assms(3)] assms(4), of "[elem LLAMA_GRETYPE_ALT 0, end_element]" rules w] assms(1,2)
    by (simp add: derives_seq els_def seq_derives_cases(1))
  moreover have "derives rules (g, length xs + 1) w \<longleftrightarrow> w = []" for w
    using assms(1,2) by (simp add: derives_seq els_def seq_derives_cases(1))
  ultimately show ?thesis using optional_alts [OF assms(1,2,4)] by (auto simp: rule_language_def)
qed

text \<open>\<open>S' ::= S S' |\<close> derives the iterations of \<open>S\<close>.\<close>

lemma loop_rule_sound:
  assumes rule: "g < length rules" "rules ! g = xs @ [elem LLAMA_GRETYPE_RULE_REF j, elem LLAMA_GRETYPE_ALT 0, end_element]"
    and j: "unat j = g" and xs: "no_end xs" "seq_ok n 0 (xs @ [end_element])"
  shows "derives rules p w \<Longrightarrow> fst p = g \<Longrightarrow>
    (snd p \<le> length xs \<and> seq_ok n 0 (drop (snd p) xs @ [end_element]) \<longrightarrow>
      (\<exists>u v k. w = u @ v \<and> u \<in> part_language rules (drop (snd p) xs) \<and> v \<in> text_pow (part_language rules xs) k)) \<and>
    (snd p = length xs + 1 \<or> snd p = length xs + 2 \<longrightarrow> w = [])"
proof (induction rule: derives.induct)
  let ?tail = "[elem LLAMA_GRETYPE_RULE_REF j, elem LLAMA_GRETYPE_ALT 0, end_element]"
  have at: "snd p \<le> length xs \<Longrightarrow> els rules p = drop (snd p) xs @ ?tail"
      "snd p = length xs + 1 \<Longrightarrow> is_end_of_sequence (hd (els rules p))"
      "snd p = length xs + 2 \<Longrightarrow> is_end_of_sequence (hd (els rules p))"
    if "fst p = g" for p
    using rule that by (simp_all add: els_def)
  have ends: "\<not> is_class_start e" "el_type e \<noteq> LLAMA_GRETYPE_RULE_REF" if "is_end_of_sequence e" for e
    using that by (auto simp: element_kinds)
  let ?L = "part_language rules xs"
  {
    case (derives_end p)
    have "\<not> is_end_of_sequence (hd (drop (snd p) xs @ ?tail))"
      using xs(1) no_end_drop [of xs "snd p"] by (cases "drop (snd p) xs") auto
    then have "\<not> snd p \<le> length xs" using derives_end at(1) [of p] by auto
    then show ?case by simp
  next
    case (derives_char p c w)
    let ?r = "drop (snd p) xs"
    have "\<exists>u v k. c # w = u @ v \<and> u \<in> part_language rules ?r \<and> v \<in> text_pow ?L k"
      if le: "snd p \<le> length xs" and ok: "seq_ok n 0 (?r @ [end_element])"
    proof -
      have els: "els rules p = ?r @ ?tail" by (rule at(1) [OF derives_char.prems le])
      have r: "?r \<noteq> []" using derives_char(1) unfolding els by (cases ?r) (auto simp: element_kinds)
      then have hd: "is_class_start (hd ?r)" using derives_char(1) els by simp
      then have "seq_ok n 1 (tl ?r @ [end_element])" using ok r by (cases ?r) (auto simp: element_kinds)
      note k = class_prefix [OF r this follows_end(3), of j "[elem LLAMA_GRETYPE_ALT 0, end_element]", folded els]
      let ?k = "class_len (?r @ [end_element])"
      have "?k \<le> length xs - snd p" using k by simp
      then have "snd p + ?k \<le> length xs" using le by linarith
      moreover have "drop ?k ?r = drop (snd p + ?k) xs" by (simp add: add.commute)
      ultimately have "\<exists>u v k. w = u @ v \<and> u \<in> part_language rules (drop ?k ?r) \<and> v \<in> text_pow ?L k"
        using derives_char(4) derives_char.prems k by (simp add: ptr_add_def)
      then obtain u v i where w: "w = u @ v" "u \<in> part_language rules (drop ?k ?r)" "v \<in> text_pow ?L i"
        by blast
      moreover have "in_class (?r @ [end_element]) c" using derives_char(2) k r els by (simp add: in_class_def)
      ultimately have "c # u \<in> part_language rules ?r"
        using k hd r by (simp add: part_language_def seq_derives_cases(2))
      with w show ?thesis by (metis append_Cons)
    qed
    moreover have "\<not> (snd p = length xs + 1 \<or> snd p = length xs + 2)"
      using derives_char(1) derives_char.prems at(2,3) ends(1) by blast
    ultimately show ?case by blast
  next
    case (derives_ref p a u v)
    let ?r = "drop (snd p) xs"
    have "\<exists>u' v' k. u @ v = u' @ v' \<and> u' \<in> part_language rules ?r \<and> v' \<in> text_pow ?L k"
      if le: "snd p \<le> length xs" and ok: "seq_ok n 0 (?r @ [end_element])"
    proof (cases "snd p < length xs")
      case True
      have els: "els rules p = ?r @ ?tail" by (rule at(1) [OF derives_ref.prems le])
      have r: "hd (els rules p) = hd ?r" "?r \<noteq> []" "drop 1 ?r = drop (snd p + 1) xs"
        using els True by simp_all
      have u: "u \<in> rule_language rules (unat (el_value (hd ?r)))"
        using derives_ref(2,3) r(1) by (auto simp: rule_language_def)
      have "seq_ok n 0 (drop (snd p + 1) xs @ [end_element])"
        using ok derives_ref(1) r by (cases ?r) auto
      then obtain u' v' k where v: "v = u' @ v'" "u' \<in> part_language rules (drop (snd p + 1) xs)" "v' \<in> text_pow ?L k"
        using derives_ref(6,7) True by (auto simp: ptr_add_def)
      then have "u @ u' \<in> part_language rules ?r"
        using u r derives_ref(1) by (auto simp: part_language_def seq_derives_cases(3))
      with v show ?thesis by (metis append.assoc)
    next
      case False
      then have eq: "snd p = length xs" using le by simp
      have "v = []" using derives_ref(6,7) eq by (simp add: ptr_add_def)
      have "a \<in> set (rule_alts rules g)"
        using derives_ref(2) at(1) [OF derives_ref.prems le] eq j by simp
      then have "a = (g, 0) \<or> a = (g, length xs + 2)"
        using optional_alts [of g rules "xs @ [elem LLAMA_GRETYPE_RULE_REF j]"] rule xs(1) by simp
      then have "\<exists>k. u \<in> text_pow ?L k"
      proof
        assume "a = (g, 0)"
        then obtain u1 v1 k where "u = u1 @ v1" "u1 \<in> ?L" "v1 \<in> text_pow ?L k"
          using derives_ref(5) xs(2) by auto
        then have "u \<in> text_pow ?L (Suc k)" by auto
        then show ?thesis by blast
      next
        assume "a = (g, length xs + 2)"
        then have "u \<in> text_pow ?L 0" using derives_ref(5) by simp
        then show ?thesis by blast
      qed
      with \<open>v = []\<close> show ?thesis using eq by auto
    qed
    moreover have "\<not> (snd p = length xs + 1 \<or> snd p = length xs + 2)"
      using derives_ref(1) derives_ref.prems at(2,3) ends(2) by blast
    ultimately show ?case by blast
  }
qed

section \<open>Repetitions\<close>

lemma text_pow_add: "text_pow L (m + k) = {u @ v |u v. u \<in> text_pow L m \<and> v \<in> text_pow L k}"
proof (induction m)
  case (Suc m)
  show ?case unfolding add_Suc text_pow.simps Suc.IH by auto (metis append.assoc)+
qed simp

lemma text_pow_Union: "insert [] {u @ v |u v. u \<in> L \<and> v \<in> (\<Union>j \<in> J. text_pow L j)} = (\<Union>j \<in> insert 0 (Suc ` J). text_pow L j)"
  by auto

text \<open>Rules that a parser made from a number of symbols on are the same in a grammar.\<close>

definition agrees :: "llama_grammar_rules \<Rightarrow> llama_grammar_parser \<Rightarrow> nat \<Rightarrow> bool" where
  "agrees rules ps lo \<longleftrightarrow> (\<forall>k. lo \<le> k \<and> k < n_symbols ps \<longrightarrow> k < length rules \<and> rules ! k = pr_rules ps ! k)"

lemma generate_symbol_id_new:
  assumes "generate_symbol_id base ps = (i, ps')" "parser_ok ps" "plain base" "n_symbols ps' < 2 ^ 32"
  shows "unat i = n_symbols ps \<and> n_symbols ps' = Suc (n_symbols ps) \<and> pr_rules ps' = pr_rules ps"
proof -
  have i: "i = word_of_nat (n_symbols ps)"
    using assms(1) by (auto simp: generate_symbol_id_def next_id_def Let_def)
  have small: "n_symbols ps < 2 ^ 32" using generate_symbol_id_grows [OF assms(1)] assms(4) by simp
  have "base @ [byte CHR ''_''] @ to_string (unat i) = generated_name base (n_symbols ps)"
    unfolding i unat_small_nat [OF small] generated_name_def by simp
  then have "ps' = ps\<lparr>pr_symbol_ids := pr_symbol_ids ps @ [(generated_name base (n_symbols ps), i)]\<rparr>"
    using assms(1-3) names_ok_fresh [of "pr_symbol_ids ps" base] i
    unfolding generate_symbol_id_def next_id_def Let_def parser_ok_def by auto
  then show ?thesis using i unat_small_nat [OF small] by simp
qed

lemma add_rule_at:
  assumes "add_rule i r ps = Inr ps'"
  shows "unat i < length (pr_rules ps') \<and> pr_rules ps' ! unat i = r \<and>
    (\<forall>k < length (pr_rules ps). k \<noteq> unat i \<longrightarrow> k < length (pr_rules ps') \<and> pr_rules ps' ! k = pr_rules ps ! k)"
  using assms by (auto simp: add_rule_def Let_def vec_resize_def nth_append split: if_split_asm)

text \<open>What one pass of the loop over the optional repetitions gives.\<close>

lemma rec_rules_pass:
  assumes "rec_rules (Suc k) i prev no_max nm l ps = Inr (l', ps')" "n_symbols ps' < 2 ^ 32" "plain nm"
    and "parser_ok ps" "chunk (n_symbols ps) prev" "0 < i \<longrightarrow> unat l < n_symbols ps"
  obtains r ps2 where "rec_rules k (i + 1) prev no_max nm r ps2 = Inr (l', ps')" "unat r = n_symbols ps"
    "parser_ok ps2" "n_symbols ps2 = Suc (n_symbols ps)"
    "\<forall>j < length (pr_rules ps). j < n_symbols ps \<longrightarrow> j < length (pr_rules ps2) \<and> pr_rules ps2 ! j = pr_rules ps ! j"
    "unat r < length (pr_rules ps2)"
    "pr_rules ps2 ! unat r = prev @ (if i > 0 \<or> no_max then [elem LLAMA_GRETYPE_RULE_REF (if no_max then r else l)] else []) @
       [elem LLAMA_GRETYPE_ALT 0, end_element]"
proof -
  let ?rule = "\<lambda>r. prev @ (if i > 0 \<or> no_max then [elem LLAMA_GRETYPE_RULE_REF (if no_max then r else l)] else []) @
       [elem LLAMA_GRETYPE_ALT 0, end_element]"
  obtain r ps1 ps2 where g: "generate_symbol_id nm ps = (r, ps1)" and a: "add_rule r (?rule r) ps1 = Inr ps2"
    and rest: "rec_rules k (i + 1) prev no_max nm r ps2 = Inr (l', ps')"
    using assms(1) by (rule rec_rules_step)
  have eq: "pr_symbol_ids ps2 = pr_symbol_ids ps1" by (rule add_rule_symbols [OF a])
  have small: "n_symbols ps1 < 2 ^ 32" using rec_rules_grows [OF rest] assms(2) eq by simp
  note new = generate_symbol_id_new [OF g assms(4,3) small]
  have one: "rec_rules 1 i prev no_max nm l ps = Inr (r, ps2)"
    using g a by (simp add: Let_def)
  have "parser_ok ps2"
    using rec_rules_ok [OF one _ assms(3-6)] small eq by simp
  then show ?thesis
    using that [OF rest] new add_rule_at [OF a] eq by auto
qed

lemma rec_rules_keeps:
  assumes "rec_rules k i prev no_max nm l ps = Inr (l', ps')" "n_symbols ps' < 2 ^ 32" "plain nm"
    and "parser_ok ps" "chunk (n_symbols ps) prev" "0 < i \<longrightarrow> unat l < n_symbols ps"
    and "j < length (pr_rules ps)" "j < n_symbols ps"
  shows "j < length (pr_rules ps') \<and> pr_rules ps' ! j = pr_rules ps ! j"
  using assms
proof (induction k arbitrary: i l ps)
  case (Suc k)
  obtain r ps2 where r: "rec_rules k (i + 1) prev no_max nm r ps2 = Inr (l', ps')" "unat r = n_symbols ps"
    "parser_ok ps2" "n_symbols ps2 = Suc (n_symbols ps)"
    "\<forall>j < length (pr_rules ps). j < n_symbols ps \<longrightarrow> j < length (pr_rules ps2) \<and> pr_rules ps2 ! j = pr_rules ps ! j"
    using Suc.prems(1-6) by (rule rec_rules_pass)
  have "j < length (pr_rules ps') \<and> pr_rules ps' ! j = pr_rules ps2 ! j"
    by (rule Suc.IH [OF r(1) Suc.prems(2,3) r(3)]) (use r Suc.prems chunk_mono [OF Suc.prems(5)] in simp_all)
  with r(5) Suc.prems(7,8) show ?case by simp
qed simp

lemma closed_ref_rule:
  "chunk n prev \<Longrightarrow> closed (prev @ (if b then [elem LLAMA_GRETYPE_RULE_REF l] else []))"
  by (simp add: chunk_def closed_elem)

lemma rec_rules_language:
  assumes "rec_rules k i prev False nm l ps = Inr (l', ps')" "n_symbols ps' < 2 ^ 32" "plain nm"
    and "parser_ok ps" "chunk (n_symbols ps) prev" "no_end prev" "agrees rules ps' (n_symbols ps)"
    and "0 < i \<longrightarrow> unat l < n_symbols ps \<and> rule_language rules (unat l) = (\<Union>j \<in> {..i}. text_pow (part_language rules prev) j)"
    and "0 < i + k"
  shows "rule_language rules (unat l') = (\<Union>j \<in> {..i + k}. text_pow (part_language rules prev) j)"
  using assms
proof (induction k arbitrary: i l ps)
  case (Suc k)
  let ?L = "part_language rules prev"
  let ?xs = "prev @ (if i > 0 then [elem LLAMA_GRETYPE_RULE_REF l] else [])"
  obtain r ps2 where rest: "rec_rules k (i + 1) prev False nm r ps2 = Inr (l', ps')" and r: "unat r = n_symbols ps"
    "parser_ok ps2" "n_symbols ps2 = Suc (n_symbols ps)"
    "\<forall>j < length (pr_rules ps). j < n_symbols ps \<longrightarrow> j < length (pr_rules ps2) \<and> pr_rules ps2 ! j = pr_rules ps ! j"
    "unat r < length (pr_rules ps2)" "pr_rules ps2 ! unat r = prev @
      (if i > 0 \<or> False then [elem LLAMA_GRETYPE_RULE_REF (if False then r else l)] else []) @ [elem LLAMA_GRETYPE_ALT 0, end_element]"
    using rec_rules_pass [OF Suc.prems(1-5)] Suc.prems(8) by blast
  have chunk2: "chunk (n_symbols ps2) prev" using chunk_mono [OF Suc.prems(5)] r(3) by simp
  have "unat r < length (pr_rules ps') \<and> pr_rules ps' ! unat r = pr_rules ps2 ! unat r"
    by (rule rec_rules_keeps [OF rest Suc.prems(2,3) r(2) chunk2]) (use r in simp_all)
  then have rule: "unat r < length rules" "rules ! unat r = ?xs @ [elem LLAMA_GRETYPE_ALT 0, end_element]"
    using Suc.prems(7) r rec_rules_grows [OF rest] by (auto simp: agrees_def)
  have "part_language rules ?xs = {u @ v |u v. u \<in> ?L \<and> v \<in> (\<Union>j \<in> {..i}. text_pow ?L j)}"
  proof (cases "0 < i")
    case True
    then show ?thesis
      using part_append [of prev "[elem LLAMA_GRETYPE_RULE_REF l]" rules] Suc.prems(5,6,8)
      by (simp add: part_ref chunk_def closed_elem)
  qed simp
  moreover have "insert 0 (Suc ` {..i}) = {..i + 1}" by (simp add: atMost_Suc_eq_insert_0)
  ultimately have "rule_language rules (unat r) = (\<Union>j \<in> {..i + 1}. text_pow ?L j)"
    using rule_language_optional [OF rule closed_ref_rule [OF Suc.prems(5)]] Suc.prems(6) text_pow_Union [of ?L "{..i}"]
    by simp
  moreover have "agrees rules ps' (n_symbols ps2)" using Suc.prems(7) r(3) by (auto simp: agrees_def)
  ultimately have "rule_language rules (unat l') = (\<Union>j \<in> {..(i + 1) + k}. text_pow ?L j)"
    by (intro Suc.IH [OF rest Suc.prems(2,3) r(2) chunk2 Suc.prems(6)]) (use r in simp_all)
  then show ?case by simp
qed simp

lemma loop_rule_language:
  assumes "rec_rules 1 0 prev True nm 0 ps = Inr (l', ps')" "n_symbols ps' < 2 ^ 32" "plain nm"
    and "parser_ok ps" "chunk (n_symbols ps) prev" "no_end prev" "agrees rules ps' (n_symbols ps)"
  shows "rule_language rules (unat l') = (\<Union>j. text_pow (part_language rules prev) j)"
proof -
  let ?L = "part_language rules prev"
  let ?xs = "prev @ [elem LLAMA_GRETYPE_RULE_REF l']"
  have "rec_rules (Suc 0) 0 prev True nm 0 ps = Inr (l', ps')" using assms(1) by simp
  then obtain r ps2 where r: "rec_rules 0 (0 + 1) prev True nm r ps2 = Inr (l', ps')" "unat r = n_symbols ps"
    "n_symbols ps2 = Suc (n_symbols ps)" "unat r < length (pr_rules ps2)"
    "pr_rules ps2 ! unat r = prev @ (if 0 < (0::nat) \<or> True then [elem LLAMA_GRETYPE_RULE_REF (if True then r else 0)] else []) @
       [elem LLAMA_GRETYPE_ALT 0, end_element]"
    using assms(2-5) by (rule rec_rules_pass) simp_all
  then have rule: "unat l' < length rules" "rules ! unat l' = ?xs @ [elem LLAMA_GRETYPE_ALT 0, end_element]"
    using assms(7) by (auto simp: agrees_def)
  have closed: "closed prev" using assms(5) by (simp add: chunk_def)
  have eq: "rule_language rules (unat l') = insert [] {u @ v |u v. u \<in> ?L \<and> v \<in> rule_language rules (unat l')}"
    using rule_language_optional [OF rule] part_append [OF closed assms(6), of "[elem LLAMA_GRETYPE_RULE_REF l']" rules]
      closed assms(6) by (simp add: part_ref closed_elem)
  have "text_pow ?L j \<subseteq> rule_language rules (unat l')" for j
  proof (induction j)
    case 0
    show ?case by (subst eq) simp
  next
    case (Suc j)
    then show ?case by (subst eq) auto
  qed
  moreover have "w \<in> (\<Union>j. text_pow ?L j)" if w: "w \<in> rule_language rules (unat l')" for w
  proof -
    obtain a where a: "a = (unat l', 0) \<or> a = (unat l', length prev + 2)" "derives rules a w"
      using w optional_alts [OF rule] assms(6) by (auto simp: rule_language_def)
    note sound = loop_rule_sound [OF rule(1) _ refl assms(6) closed_seq [OF closed] a(2)]
    have "(\<exists>u v k. w = u @ v \<and> u \<in> ?L \<and> v \<in> text_pow ?L k) \<or> w = []"
      using sound a(1) rule(2) closed_seq [OF closed] by auto
    then show ?thesis
    proof
      assume "\<exists>u v k. w = u @ v \<and> u \<in> ?L \<and> v \<in> text_pow ?L k"
      then obtain k where "w \<in> text_pow ?L (Suc k)" by auto
      then show ?thesis by blast
    next
      assume "w = []"
      then have "w \<in> text_pow ?L 0" by simp
      then show ?thesis by blast
    qed
  qed
  ultimately show ?thesis by blast
qed

text \<open>C6. A repetition means what its bounds say: when \<open>handle_repetitions\<close> has rewritten an item, the
  elements and rules it made derive exactly the texts that are between \<open>m\<close> and \<open>n\<close> texts of the
  item one after the other, for \<open>m\<close> at most \<open>n\<close>; without an upper bound, \<open>m\<close> or more.\<close>

theorem repetition_language:
  assumes "handle_repetitions m n nm rule last_start ps = Inr (rule', ps')"
    and "m \<le> n" "n \<le> UINT64_MAX" "length (pr_symbol_ids ps') < 2 ^ 32"
    and "parser_ok ps" "plain nm" "last_start \<le> length rule"
    and "chunk (length (pr_symbol_ids ps)) (drop last_start rule)" "no_end (drop last_start rule)"
    and "agrees rules ps' (length (pr_symbol_ids ps))"
  shows "part_language rules (drop last_start rule') =
    (\<Union>k \<in> {k. m \<le> k \<and> (n = UINT64_MAX \<or> k \<le> n)}. text_pow (part_language rules (drop last_start rule)) k)"
proof -
  let ?prev = "drop last_start rule"
  let ?L = "part_language rules ?prev"
  let ?n_opt = "repetition_count m n"
  let ?copies = "concat (replicate m ?prev)"
  have closed: "closed ?prev" using assms(8) by (simp add: chunk_def)
  obtain l where r: "rec_rules ?n_opt 0 ?prev (n = UINT64_MAX) nm 0 ps = Inr (l, ps')"
    and rule': "rule' = (if ?n_opt > 0
        then (if m = 0 then take last_start rule else rule @ concat (replicate (m - 1) ?prev)) @ [elem LLAMA_GRETYPE_RULE_REF l]
        else (if m = 0 then take last_start rule else rule @ concat (replicate (m - 1) ?prev)))"
    using assms(1) unfolding handle_repetitions_def Let_def bind_res_Inr_iff
    by (auto simp: bind_res_Inr_iff split: if_split_asm)
  have "(if m = 0 then take last_start rule else rule @ concat (replicate (m - 1) ?prev)) = take last_start rule @ ?copies"
    by (cases m) (simp_all flip: append_assoc)
  then have drop: "drop last_start rule' = (if ?n_opt > 0 then ?copies @ [elem LLAMA_GRETYPE_RULE_REF l] else ?copies)"
    unfolding rule' using assms(7) by simp
  have part: "part_language rules (drop last_start rule') =
      (if ?n_opt > 0 then {u @ v |u v. u \<in> text_pow ?L m \<and> v \<in> rule_language rules (unat l)} else text_pow ?L m)"
    unfolding drop using part_append [of ?copies "[elem LLAMA_GRETYPE_RULE_REF l]" rules]
    by (simp add: part_copies part_ref closed closed_copies closed_elem assms(9) no_end_copies)
  show ?thesis
  proof (cases "n = UINT64_MAX")
    case True
    then have "rule_language rules (unat l) = (\<Union>j. text_pow ?L j)"
      using loop_rule_language [OF _ assms(4,6,5,8,9,10)] r by (simp add: repetition_count_def)
    then have "part_language rules (drop last_start rule') = (\<Union>j. text_pow ?L (m + j))"
      using part True text_pow_add [of ?L m] by (auto simp: repetition_count_def)
    moreover have "{k. m \<le> k} = range ((+) m)" by (auto simp: image_iff le_iff_add)
    ultimately show ?thesis using True by simp
  next
    case False
    then have "n - m < 2 ^ 64" using assms(3) by (simp add: UINT64_MAX_def)
    moreover have "n + 2 ^ 64 - m = n - m + 2 ^ 64" using assms(2) by simp
    ultimately have n: "?n_opt = n - m" using False by (simp only: repetition_count_def if_False mod_add_self2 mod_less)
    have "part_language rules (drop last_start rule') = (\<Union>j \<in> {..n - m}. text_pow ?L (m + j))"
    proof (cases "m < n")
      case True
      then have "rule_language rules (unat l) = (\<Union>j \<in> {..n - m}. text_pow ?L j)"
        using rec_rules_language [OF _ assms(4,6,5,8,9,10)] r n False by simp
      then show ?thesis using part n True text_pow_add [of ?L m] by auto
    qed (use part n in simp)
    moreover have "{k. m \<le> k \<and> k \<le> n} = (+) m ` {..n - m}" using assms(2) by (auto simp: image_iff le_iff_add)
    ultimately show ?thesis using False by simp
  qed
qed

text \<open>The witness: the item \<open>a\<close> of a rule \<open>root\<close>, with the bounds \<open>{1,2}\<close>.\<close>

definition a_item :: llama_grammar_rule where
  "a_item = [elem LLAMA_GRETYPE_CHAR 0x61]"

definition a_rules :: llama_grammar_rules where
  "a_rules = [[], a_item @ [elem LLAMA_GRETYPE_ALT 0, elem LLAMA_GRETYPE_END 0]]"

definition a_parser :: llama_grammar_parser where
  "a_parser = \<lparr>pr_vocab = None, pr_symbol_ids = [(ascii ''root'', 0)], pr_rules = []\<rparr>"

lemma root_plain: "plain (ascii ''root'')"
  by (simp add: plain_def ascii_def)

lemma a_repeated:
  "handle_repetitions 1 2 (ascii ''root'') a_item 0 a_parser =
   Inr (a_item @ [elem LLAMA_GRETYPE_RULE_REF 1],
        \<lparr>pr_vocab = None, pr_symbol_ids = [(ascii ''root'', 0), (ascii ''root_1'', 1)], pr_rules = a_rules\<rparr>)"
  by (simp add: a_item_def a_rules_def a_parser_def parse_eval cong: parse_congs)

theorem repetition_language_witness:
  "part_language a_rules [elem LLAMA_GRETYPE_CHAR 0x61, elem LLAMA_GRETYPE_RULE_REF 1] =
    (\<Union>k \<in> {k. 1 \<le> k \<and> (2 = UINT64_MAX \<or> k \<le> 2)}. text_pow (part_language a_rules a_item) k)"
proof -
  have "parser_ok a_parser"
    using root_plain by (simp add: parser_ok_def names_ok_def a_parser_def)
  moreover have "agrees a_rules \<lparr>pr_vocab = None, pr_symbol_ids = [(ascii ''root'', 0), (ascii ''root_1'', 1)], pr_rules = a_rules\<rparr> 1"
    by (auto simp: agrees_def a_rules_def)
  moreover have "no_end a_item" by (simp add: a_item_def is_end_of_sequence_def)
  ultimately show ?thesis
    using repetition_language [OF a_repeated, of a_rules] root_plain
    by (simp add: UINT64_MAX_def a_parser_def a_item_def)
qed

end
