(* ===== verification/Recurrent.thy ===== *)
theory Recurrent
  imports KvSlot
begin

text \<open>
  The memory of recurrent models (\<open>src/llama-memory-recurrent.cpp\<close>): a table of cells, each with the
  state of the sequences in its set, where entry \<open>tail\<close> of the cell with a sequence's index names the
  cell that holds the sequence. \<open>find_slot\<close> gathers the cells of the sequences of a micro-batch in one
  range. The tensors, and the reading and writing of states, are not modelled.
\<close>

section \<open>State\<close>

record mem_cell =
  mc_pos :: llama_pos
  mc_src :: int
  mc_src0 :: int
  mc_tail :: int
  mc_seq_id :: "llama_seq_id set"

definition mem_cell_new :: mem_cell where
  "mem_cell_new = \<lparr>mc_pos = -1, mc_src = -1, mc_src0 = -1, mc_tail = -1, mc_seq_id = {}\<rparr>"

text \<open>The member \<open>size\<close> is the length of \<open>cells\<close> from the constructor on; no operation changes either.\<close>

record llama_memory_recurrent =
  rs_head :: nat
  rs_used :: nat
  rs_n :: nat
  rs_z :: int
  rs_cells :: "mem_cell list"

definition rs_size :: "llama_memory_recurrent \<Rightarrow> nat" where
  "rs_size m = length (rs_cells m)"

definition memory_recurrent_new :: "nat \<Rightarrow> llama_memory_recurrent" where
  "memory_recurrent_new mem_size =
    \<lparr>rs_head = 0, rs_used = 0, rs_n = 0, rs_z = -1, rs_cells = replicate mem_size mem_cell_new\<rparr>"

definition is_empty_cell :: "mem_cell \<Rightarrow> bool" where
  "is_empty_cell c \<longleftrightarrow> mc_seq_id c = {}"

text \<open>Reading a cell at an index that comes from a cell, changing a cell, and \<open>used--\<close> on 32 bits.\<close>

definition rs_at :: "llama_memory_recurrent \<Rightarrow> int \<Rightarrow> mem_cell res" where
  "rs_at m i = (if 0 \<le> i \<and> nat i < rs_size m then Inr (rs_cells m ! nat i) else Inl (Out_of_bounds ''cells''))"

definition rs_upd :: "nat \<Rightarrow> (mem_cell \<Rightarrow> mem_cell) \<Rightarrow> llama_memory_recurrent \<Rightarrow> llama_memory_recurrent" where
  "rs_upd i f m = m\<lparr>rs_cells := (rs_cells m)[i := f (rs_cells m ! i)]\<rparr>"

definition rs_dec_used :: "llama_memory_recurrent \<Rightarrow> llama_memory_recurrent" where
  "rs_dec_used m = m\<lparr>rs_used := (rs_used m + 2 ^ 32 - 1) mod 2 ^ 32\<rparr>"

definition u32 :: "int \<Rightarrow> nat" where
  "u32 x = nat (x mod 2 ^ 32)"

section \<open>Sequence operations\<close>

definition rs_clear :: "llama_memory_recurrent \<Rightarrow> llama_memory_recurrent" where
  "rs_clear m = m\<lparr>rs_head := 0, rs_used := 0,
     rs_cells := map (\<lambda>c. c\<lparr>mc_pos := -1, mc_seq_id := {}, mc_src := -1, mc_tail := -1\<rparr>) (rs_cells m)\<rparr>"

text \<open>The end of a loop that may have freed a cell: the search for a slot starts at the first one.\<close>

definition rs_new_head :: "nat \<Rightarrow> llama_memory_recurrent \<Rightarrow> llama_memory_recurrent" where
  "rs_new_head new_head m =
    (if new_head \<noteq> rs_size m \<and> new_head < rs_head m then m\<lparr>rs_head := new_head\<rparr> else m)"

definition rs_rm_step ::
    "llama_seq_id \<Rightarrow> llama_pos \<Rightarrow> llama_pos \<Rightarrow> nat \<Rightarrow> llama_memory_recurrent \<times> nat \<Rightarrow> llama_memory_recurrent \<times> nat" where
  "rs_rm_step seq_id p0 p1 i = (\<lambda>(m, new_head).
    let c = rs_cells m ! i
    in if mc_pos c \<ge> p0 \<and> mc_pos c < p1 \<and> (seq_id < 0 \<or> seq_id \<in> mc_seq_id c) then
         let m1 = rs_upd i (mc_seq_id_update (\<lambda>S. if seq_id < 0 then {} else S - {seq_id})) m
         in if is_empty_cell (rs_cells m1 ! i) then
              (rs_upd i (\<lambda>c. c\<lparr>mc_pos := -1, mc_src := -1\<rparr>) (if mc_pos c \<ge> 0 then rs_dec_used m1 else m1),
               if new_head = rs_size m then i else new_head)
            else (m1, new_head)
       else (m, new_head))"

definition rs_rm_loop :: "llama_seq_id \<Rightarrow> llama_pos \<Rightarrow> llama_pos \<Rightarrow> llama_memory_recurrent \<Rightarrow> llama_memory_recurrent" where
  "rs_rm_loop seq_id p0 p1 m =
    (case fold (rs_rm_step seq_id p0 p1) [0..<rs_size m] (m, rs_size m) of (m', new_head) \<Rightarrow> rs_new_head new_head m')"

definition rs_seq_rm ::
    "llama_seq_id \<Rightarrow> llama_pos \<Rightarrow> llama_pos \<Rightarrow> llama_memory_recurrent \<Rightarrow> (bool \<times> llama_memory_recurrent) res" where
  "rs_seq_rm seq_id p0' p1' m =
    (let p0 = range_lo p0'; p1 = range_hi p1'
     in if seq_id \<ge> int (rs_size m) then Inr (False, m)
        else if 0 \<le> seq_id then
          (let tail_id = mc_tail (rs_cells m ! nat seq_id)
           in if tail_id \<ge> 0 then
                bind_res (rs_at m tail_id) (\<lambda>cell.
                  if 0 < p0 \<and> p0 \<le> mc_pos cell \<and> p1 > mc_pos cell then Inr (False, m)
                  else
                    let m1 = (if p0 \<le> mc_pos cell \<and> mc_pos cell < p1
                              then rs_upd (nat seq_id) (mc_tail_update (\<lambda>_. -1)) m else m)
                    in Inr (True, rs_rm_loop seq_id p0 p1 m1))
              else Inr (True, rs_rm_loop seq_id p0 p1 m))
        else if p0 \<noteq> p1 \<and> (p0 \<noteq> 0 \<or> p1 \<noteq> INT32_MAX) then Inr (False, m)
        else Inr (True, rs_rm_loop seq_id p0 p1 m))"

text \<open>A sequence leaves the cell that its tail names (in \<open>seq_cp\<close> and in \<open>find_slot\<close>).\<close>

definition rs_detach :: "nat \<Rightarrow> llama_memory_recurrent \<Rightarrow> llama_memory_recurrent res" where
  "rs_detach s m =
    (let t = mc_tail (rs_cells m ! s)
     in if t \<ge> 0 then
          bind_res (rs_at m t) (\<lambda>cell.
            let m1 = rs_upd s (mc_tail_update (\<lambda>_. -1)) (rs_upd (nat t) (mc_seq_id_update (\<lambda>S. S - {int s})) m)
            in Inr (if is_empty_cell (rs_cells m1 ! nat t)
                    then rs_dec_used (rs_upd (nat t) (\<lambda>c. c\<lparr>mc_pos := -1, mc_src := -1\<rparr>) m1) else m1))
        else Inr m)"

definition rs_seq_cp ::
    "llama_seq_id \<Rightarrow> llama_seq_id \<Rightarrow> llama_pos \<Rightarrow> llama_pos \<Rightarrow> llama_memory_recurrent \<Rightarrow> llama_memory_recurrent res" where
  "rs_seq_cp seq_id_src seq_id_dst p0 p1 m =
    (if seq_id_src = seq_id_dst then Inr m
     else if u32 seq_id_dst < rs_size m \<and> u32 seq_id_src < rs_size m then
       bind_res (rs_detach (nat seq_id_dst) m) (\<lambda>m1.
         let t = mc_tail (rs_cells m1 ! nat seq_id_src)
         in if t \<ge> 0 then
              bind_res (rs_at m1 t) (\<lambda>_.
                Inr (rs_upd (nat seq_id_dst) (mc_tail_update (\<lambda>_. t)) (rs_upd (nat t) (mc_seq_id_update (insert seq_id_dst)) m1)))
            else Inr m1)
     else Inr m)"

definition rs_keep_step ::
    "llama_seq_id \<Rightarrow> nat \<Rightarrow> llama_memory_recurrent \<times> nat \<Rightarrow> llama_memory_recurrent \<times> nat" where
  "rs_keep_step seq_id i = (\<lambda>(m, new_head).
    let m1 = (if int i \<noteq> seq_id then rs_upd i (mc_tail_update (\<lambda>_. -1)) m else m);
        c = rs_cells m1 ! i
    in if seq_id \<notin> mc_seq_id c then
         (rs_upd i (\<lambda>c. c\<lparr>mc_pos := -1, mc_src := -1, mc_seq_id := {}\<rparr>) (if mc_pos c \<ge> 0 then rs_dec_used m1 else m1),
          if new_head = rs_size m then i else new_head)
       else (rs_upd i (mc_seq_id_update (\<lambda>_. {seq_id})) m1, new_head))"

definition rs_seq_keep :: "llama_seq_id \<Rightarrow> llama_memory_recurrent \<Rightarrow> llama_memory_recurrent" where
  "rs_seq_keep seq_id m =
    (case fold (rs_keep_step seq_id) [0..<rs_size m] (m, rs_size m) of (m', new_head) \<Rightarrow> rs_new_head new_head m')"

text \<open>What \<open>seq_add\<close> and \<open>seq_div\<close> do: a function of the position in the cell of the sequence.\<close>

definition rs_move_pos ::
    "(llama_pos \<Rightarrow> llama_pos) \<Rightarrow> llama_seq_id \<Rightarrow> llama_pos \<Rightarrow> llama_pos \<Rightarrow> llama_memory_recurrent \<Rightarrow> llama_memory_recurrent res" where
  "rs_move_pos f seq_id p0' p1' m =
    (let p0 = range_lo p0'; p1 = range_hi p1'
     in if p0 = p1 then Inr m
        else if 0 \<le> seq_id \<and> seq_id < int (rs_size m) then
          (let tail_id = mc_tail (rs_cells m ! nat seq_id)
           in if tail_id \<ge> 0 then
                bind_res (rs_at m tail_id) (\<lambda>cell.
                  Inr (if seq_id \<in> mc_seq_id cell \<and> p0 \<le> mc_pos cell \<and> mc_pos cell < p1
                       then rs_upd (nat tail_id) (mc_pos_update f) m else m))
              else Inr m)
        else Inr m)"

definition rs_seq_add ::
    "llama_seq_id \<Rightarrow> llama_pos \<Rightarrow> llama_pos \<Rightarrow> llama_pos \<Rightarrow> llama_memory_recurrent \<Rightarrow> llama_memory_recurrent res" where
  "rs_seq_add seq_id p0 p1 shift m = (if shift = 0 then Inr m else rs_move_pos (\<lambda>p. p + shift) seq_id p0 p1 m)"

definition rs_seq_div ::
    "llama_seq_id \<Rightarrow> llama_pos \<Rightarrow> llama_pos \<Rightarrow> int \<Rightarrow> llama_memory_recurrent \<Rightarrow> llama_memory_recurrent res" where
  "rs_seq_div seq_id p0 p1 d m = (if d = 1 then Inr m else rs_move_pos (\<lambda>p. c_div p d) seq_id p0 p1 m)"

definition rs_seq_pos_min :: "llama_seq_id \<Rightarrow> llama_memory_recurrent \<Rightarrow> llama_pos" where
  "rs_seq_pos_min seq_id m =
    (let result = fold (\<lambda>c r. if seq_id \<in> mc_seq_id c then min r (mc_pos c) else r) (rs_cells m) INT32_MAX
     in if result = INT32_MAX then -1 else result)"

definition rs_seq_pos_max :: "llama_seq_id \<Rightarrow> llama_memory_recurrent \<Rightarrow> llama_pos" where
  "rs_seq_pos_max seq_id m = fold (\<lambda>c r. if seq_id \<in> mc_seq_id c then max r (mc_pos c) else r) (rs_cells m) (-1)"

section \<open>The search for a slot\<close>

text \<open>
  The parts of \<open>find_slot\<close> in their order: the check of the sequence ids, where every sequence behind
  the first of a set leaves its cell; the search for an empty cell; a cell for the first sequence of every set,
  copied when it is shared; the gathering in one range; the new positions and sets; the sources of the states.
\<close>

fun rs_clear_ids :: "nat \<Rightarrow> nat list \<Rightarrow> llama_memory_recurrent \<Rightarrow> (bool \<times> llama_memory_recurrent) res" where
  "rs_clear_ids j [] m = Inr (True, m)"
| "rs_clear_ids j (s # ss) m =
    (if s \<ge> rs_size m then Inr (False, m)
     else bind_res (if j > 0 then rs_detach s m else Inr m) (rs_clear_ids (j + 1) ss))"

definition ub_set_ids :: "llama_ubatch \<Rightarrow> nat \<Rightarrow> nat list" where
  "ub_set_ids ub s = take (ub_n_seq_id ub ! (s * ub_n_seq_tokens ub)) (ub_seq_id ub ! (s * ub_n_seq_tokens ub))"

fun rs_clear_sets :: "llama_ubatch \<Rightarrow> nat list \<Rightarrow> llama_memory_recurrent \<Rightarrow> (bool \<times> llama_memory_recurrent) res" where
  "rs_clear_sets ub [] m = Inr (True, m)"
| "rs_clear_sets ub (s # ss) m =
    bind_res (rs_clear_ids 0 (ub_set_ids ub s) m) (\<lambda>(ok, m1).
      if ok then rs_clear_sets ub ss m1 else Inr (False, m1))"

text \<open>The two searches, with the number of cells to go: the first begins at the given cell, the second behind it.\<close>

definition rs_wrap :: "llama_memory_recurrent \<Rightarrow> nat \<Rightarrow> nat" where
  "rs_wrap m e = (if e \<ge> rs_size m then e - rs_size m else e)"

fun rs_first_empty :: "nat \<Rightarrow> nat \<Rightarrow> llama_memory_recurrent \<Rightarrow> nat" where
  "rs_first_empty 0 e m = e"
| "rs_first_empty (Suc k) e m =
    (let e' = rs_wrap m e in if is_empty_cell (rs_cells m ! e') then e' else rs_first_empty k (e' + 1) m)"

fun rs_next_empty :: "nat \<Rightarrow> nat \<Rightarrow> llama_memory_recurrent \<Rightarrow> nat" where
  "rs_next_empty 0 e m = e"
| "rs_next_empty (Suc k) e m =
    (let e' = rs_wrap m (e + 1) in if is_empty_cell (rs_cells m ! e') then e' else rs_next_empty k e' m)"

text \<open>The sequence \<open>seq_id\<close> takes the empty cell, with the state of its old cell.\<close>

definition rs_take_cell :: "nat \<Rightarrow> nat \<Rightarrow> llama_memory_recurrent \<Rightarrow> llama_memory_recurrent res" where
  "rs_take_cell seq_id next_empty_cell m =
    bind_res (rs_at m (int next_empty_cell)) (\<lambda>empty_cell.
      if \<not> is_empty_cell empty_cell then Inl (Ggml_assert ''empty_cell.is_empty()'')
      else
        let t = mc_tail (rs_cells m ! seq_id)
        in bind_res
             (if t \<ge> 0 then
                bind_res (rs_at m t) (\<lambda>orig_cell.
                  let m1 = rs_upd next_empty_cell
                        (\<lambda>c. c\<lparr>mc_pos := mc_pos orig_cell, mc_src := mc_src orig_cell, mc_seq_id := {int seq_id}\<rparr>)
                        (rs_upd (nat t) (mc_seq_id_update (\<lambda>S. S - {int seq_id})) m)
                  in if is_empty_cell (rs_cells m1 ! nat t) then Inl (Ggml_assert ''!orig_cell.is_empty()'') else Inr m1)
              else Inr m)
             (\<lambda>m1. Inr (rs_upd seq_id (mc_tail_update (\<lambda>_. int next_empty_cell)) m1)))"

definition rs_assign_step ::
    "nat \<Rightarrow> nat \<Rightarrow> nat \<Rightarrow> nat \<times> int \<times> int \<times> llama_memory_recurrent \<Rightarrow> (nat \<times> int \<times> int \<times> llama_memory_recurrent) res" where
  "rs_assign_step n_seqs s seq_id = (\<lambda>(next_empty_cell, mn, mx, m).
    let t = mc_tail (rs_cells m ! seq_id)
    in bind_res
         (if t \<ge> 0 then
            bind_res (rs_at m t) (\<lambda>cell.
              if int seq_id \<notin> mc_seq_id cell then Inl (Ggml_assert ''cell.has_seq_id(seq_id)'')
              else Inr (card (mc_seq_id cell) = 1))
          else Inr False)
         (\<lambda>has_cell.
            bind_res
              (if has_cell then Inr (next_empty_cell, m)
               else bind_res (rs_take_cell seq_id next_empty_cell m) (\<lambda>m1.
                      Inr (if s + 1 < n_seqs then rs_next_empty (rs_size m1) next_empty_cell m1 else next_empty_cell, m1)))
              (\<lambda>(next1, m1).
                 let t1 = mc_tail (rs_cells m1 ! seq_id)
                 in Inr (next1, if mn > t1 then t1 else mn, if mx < t1 then t1 else mx, m1))))"

fun rs_assign ::
    "llama_ubatch \<Rightarrow> nat list \<Rightarrow> nat \<times> int \<times> int \<times> llama_memory_recurrent \<Rightarrow> (nat \<times> int \<times> int \<times> llama_memory_recurrent) res" where
  "rs_assign ub [] st = Inr st"
| "rs_assign ub (s # ss) st =
    bind_res (rs_assign_step (ub_n_seqs ub) s (ub_seq_id ub ! (s * ub_n_seq_tokens ub) ! 0) st) (rs_assign ub ss)"

text \<open>The swap of two cells, without \<open>src0\<close>, and of the tails that name them.\<close>

definition rs_swap_cells :: "nat \<Rightarrow> nat \<Rightarrow> llama_memory_recurrent \<Rightarrow> llama_memory_recurrent" where
  "rs_swap_cells dst src m =
    (let d = rs_cells m ! dst; c = rs_cells m ! src;
         m1 = rs_upd dst (\<lambda>x. x\<lparr>mc_pos := mc_pos c, mc_src := mc_src c, mc_seq_id := mc_seq_id c\<rparr>)
                (rs_upd src (\<lambda>x. x\<lparr>mc_pos := mc_pos d, mc_src := mc_src d, mc_seq_id := mc_seq_id d\<rparr>) m)
     in m1\<lparr>rs_cells := map (mc_tail_update (\<lambda>t. if t = int src then int dst else if t = int dst then int src else t))
                         (rs_cells m1)\<rparr>)"

definition rs_gather_step :: "llama_ubatch \<Rightarrow> int \<Rightarrow> nat \<Rightarrow> llama_memory_recurrent \<Rightarrow> llama_memory_recurrent res" where
  "rs_gather_step ub mn s m =
    (let dst_id = int s + mn; src_id = mc_tail (rs_cells m ! (ub_seq_id ub ! (s * ub_n_seq_tokens ub) ! 0))
     in if dst_id \<noteq> src_id then
          bind_res (rs_at m dst_id) (\<lambda>_. bind_res (rs_at m src_id) (\<lambda>_.
            Inr (rs_swap_cells (nat dst_id) (nat src_id) m)))
        else Inr m)"

fun rs_each :: "(nat \<Rightarrow> 's \<Rightarrow> 's res) \<Rightarrow> nat list \<Rightarrow> 's \<Rightarrow> 's res" where
  "rs_each f [] m = Inr m"
| "rs_each f (s # ss) m = bind_res (f s m) (rs_each f ss)"

definition rs_place_step :: "llama_ubatch \<Rightarrow> int \<Rightarrow> nat \<Rightarrow> llama_memory_recurrent \<Rightarrow> llama_memory_recurrent res" where
  "rs_place_step ub mn s m =
    (let i = s * ub_n_seq_tokens ub; last_pos = ub_pos ub ! (i + ub_n_seq_tokens ub - 1); cell_id = int s + mn
     in bind_res (rs_at m cell_id) (\<lambda>_.
          Inr (fold (\<lambda>seq_id m. rs_upd seq_id (mc_tail_update (\<lambda>_. cell_id))
                                 (rs_upd (nat cell_id) (mc_seq_id_update (insert (int seq_id))) m))
                 (ub_set_ids ub s)
                 (rs_upd (nat cell_id) (\<lambda>c. c\<lparr>mc_pos := last_pos, mc_seq_id := {}\<rparr>) m))))"

text \<open>The first cell of the range that no cell has as its source, and the sources of the range.\<close>

definition rs_refcount :: "llama_memory_recurrent \<Rightarrow> nat \<Rightarrow> nat" where
  "rs_refcount m i = length (filter (\<lambda>c. mc_src c = int i) (rs_cells m))"

definition rs_find_z :: "int \<Rightarrow> int \<Rightarrow> llama_memory_recurrent \<Rightarrow> int" where
  "rs_find_z mn mx m =
    (case find (\<lambda>i. rs_refcount m (nat i) = 0) [mn..mx] of None \<Rightarrow> -1 | Some i \<Rightarrow> i)"

definition rs_stage_step :: "nat \<Rightarrow> llama_memory_recurrent \<Rightarrow> llama_memory_recurrent res" where
  "rs_stage_step i m =
    (if mc_src (rs_cells m ! i) < 0 then
       (if rs_z m \<ge> 0 then Inr (rs_upd i (\<lambda>c. c\<lparr>mc_src0 := rs_z m, mc_src := int i\<rparr>) m)
        else Inl (Ggml_assert ''rs_z >= 0''))
     else Inr (rs_upd i (\<lambda>c. c\<lparr>mc_src0 := mc_src c, mc_src := int i\<rparr>) m))"

definition rs_count_used :: "llama_memory_recurrent \<Rightarrow> nat" where
  "rs_count_used m = length (filter (\<lambda>c. \<not> is_empty_cell c) (rs_cells m))"

definition rs_find_slot :: "llama_ubatch \<Rightarrow> llama_memory_recurrent \<Rightarrow> (bool \<times> llama_memory_recurrent) res" where
  "rs_find_slot ub m =
    (let n_seqs = ub_n_seqs ub; sets = [0..<n_seqs];
         m0 = (if rs_head m > (rs_used m + 2 * n_seqs) mod 2 ^ 32 then m\<lparr>rs_head := 0\<rparr> else m)
     in if \<not> ub_equal_seqs ub then Inl (Ggml_assert ''ubatch.equal_seqs()'')
        else bind_res (rs_clear_sets ub sets m0) (\<lambda>(ok, m1).
          if \<not> ok then Inr (False, m1)
          else
            bind_res (rs_assign ub sets (rs_first_empty (rs_size m1) (rs_head m1) m1, int (rs_size m1) - 1, 0, m1))
              (\<lambda>(_, mn, mx, m2).
            bind_res (rs_each (rs_gather_step ub mn) sets m2) (\<lambda>m3.
            bind_res (rs_each (rs_place_step ub mn) sets m3) (\<lambda>m4.
            let m5 = m4\<lparr>rs_z := rs_find_z mn mx m4\<rparr>
            in bind_res (rs_each rs_stage_step [nat mn..<nat (mx + 1)] m5) (\<lambda>m6.
               let n = nat (mx - mn + 1)
               in Inr (n \<ge> n_seqs, m6\<lparr>rs_head := nat mn, rs_n := n, rs_used := rs_count_used m6\<rparr>)))))))"

section \<open>Batches and contexts\<close>

text \<open>The dry run: the state is remembered as a whole, apart from \<open>n\<close> and \<open>rs_z\<close>.\<close>

fun rs_find_all :: "llama_ubatch list \<Rightarrow> llama_memory_recurrent \<Rightarrow> (bool \<times> llama_memory_recurrent) res" where
  "rs_find_all [] m = Inr (True, m)"
| "rs_find_all (ub # ubs) m =
    bind_res (rs_find_slot ub m) (\<lambda>(ok, m1). if ok then rs_find_all ubs m1 else Inr (False, m1))"

definition rs_prepare :: "llama_ubatch list \<Rightarrow> llama_memory_recurrent \<Rightarrow> (bool \<times> llama_memory_recurrent) res" where
  "rs_prepare ubatches m =
    bind_res (rs_find_all ubatches m) (\<lambda>(success, m1).
      Inr (success, m1\<lparr>rs_cells := rs_cells m, rs_used := rs_used m, rs_head := rs_head m\<rparr>))"

record recurrent_context =
  rx_status :: llama_memory_status
  rx_is_full :: bool
  rx_i_next :: nat
  rx_ubatches :: "llama_ubatch list"

definition rs_ctx_status :: "llama_memory_status \<Rightarrow> recurrent_context" where
  "rs_ctx_status st = \<lparr>rx_status = st, rx_is_full = False, rx_i_next = 0, rx_ubatches = []\<rparr>"

definition rs_init_batch ::
    "llama_batch_allocr \<Rightarrow> nat \<Rightarrow> bool \<Rightarrow> llama_memory_recurrent \<Rightarrow>
     (recurrent_context \<times> llama_batch_allocr \<times> llama_memory_recurrent) res option" where
  "rs_init_batch balloc n_ubatch embd_all m =
    (case split_all (if embd_all then split_seq n_ubatch else split_equal n_ubatch True) [] (ba_split_reset balloc) of
       None \<Rightarrow> None
     | Some (ubs, ba) \<Rightarrow>
         if ba_get_n_used ba < ba_get_n_tokens ba
         then Some (Inr (rs_ctx_status LLAMA_MEMORY_STATUS_FAILED_PREPARE, ba, m))
         else Some (bind_res (rs_prepare ubs m) (\<lambda>(ok, m').
                Inr (if ok then (rs_ctx_status LLAMA_MEMORY_STATUS_SUCCESS)\<lparr>rx_ubatches := ubs\<rparr>
                     else rs_ctx_status LLAMA_MEMORY_STATUS_FAILED_PREPARE, ba, m'))))"

definition rs_init_full :: recurrent_context where
  "rs_init_full = (rs_ctx_status LLAMA_MEMORY_STATUS_SUCCESS)\<lparr>rx_is_full := True\<rparr>"

definition rs_init_update :: recurrent_context where
  "rs_init_update = rs_ctx_status LLAMA_MEMORY_STATUS_NO_UPDATE"

definition rs_ctx_next :: "recurrent_context \<Rightarrow> bool \<times> recurrent_context" where
  "rs_ctx_next cx =
    (let cx' = cx\<lparr>rx_i_next := rx_i_next cx + 1\<rparr> in (\<not> rx_i_next cx' \<ge> length (rx_ubatches cx'), cx'))"

definition rs_ctx_apply :: "recurrent_context \<Rightarrow> llama_memory_recurrent \<Rightarrow> (bool \<times> llama_memory_recurrent) res" where
  "rs_ctx_apply cx m =
    (if rx_ubatches cx = [] then Inr (True, m)
     else bind_res (rs_find_slot (rx_ubatches cx ! rx_i_next cx) m) (\<lambda>(_, m'). Inr (True, m')))"

definition rs_get_n_rs :: "recurrent_context \<Rightarrow> llama_memory_recurrent \<Rightarrow> nat" where
  "rs_get_n_rs cx m = (if rx_is_full cx then rs_size m else rs_n m)"

definition rs_get_head :: "recurrent_context \<Rightarrow> llama_memory_recurrent \<Rightarrow> nat" where
  "rs_get_head cx m = (if rx_is_full cx then 0 else rs_head m)"

definition rs_get_rs_z :: "recurrent_context \<Rightarrow> llama_memory_recurrent \<Rightarrow> int" where
  "rs_get_rs_z cx m = (if rx_is_full cx then 0 else rs_z m)"

definition rs_s_copy :: "nat \<Rightarrow> llama_memory_recurrent \<Rightarrow> int" where
  "rs_s_copy i m = mc_src0 (rs_cells m ! (i + rs_head m))"

end
