(* ===== verification/RecurrentWf.thy ===== *)
theory RecurrentWf
  imports Recurrent
begin

text \<open>
  The invariant of the recurrent memory and its sequence operations: every sequence is in the one
  cell that its tail names, or in none. A sequence holds one position, the last one of its state.
\<close>

section \<open>The invariant\<close>

abbreviation tail_of :: "llama_memory_recurrent \<Rightarrow> nat \<Rightarrow> int" where
  "tail_of m s \<equiv> mc_tail (rs_cells m ! s)"

abbreviation ids_of :: "llama_memory_recurrent \<Rightarrow> nat \<Rightarrow> int set" where
  "ids_of m i \<equiv> mc_seq_id (rs_cells m ! i)"

abbreviation pos_of :: "llama_memory_recurrent \<Rightarrow> nat \<Rightarrow> int" where
  "pos_of m i \<equiv> mc_pos (rs_cells m ! i)"

text \<open>The sequences whose tail names a cell.\<close>

definition owners :: "llama_memory_recurrent \<Rightarrow> nat \<Rightarrow> int set" where
  "owners m i = {s. 0 \<le> s \<and> s < int (rs_size m) \<and> tail_of m (nat s) = int i}"

definition tails_ok :: "llama_memory_recurrent \<Rightarrow> bool" where
  "tails_ok m \<longleftrightarrow> (\<forall>s < rs_size m. -1 \<le> tail_of m s \<and> tail_of m s < int (rs_size m))"

definition cell_ok :: "llama_memory_recurrent \<Rightarrow> nat \<Rightarrow> bool" where
  "cell_ok m i \<longleftrightarrow> ids_of m i = owners m i \<and> (ids_of m i = {} \<longrightarrow> pos_of m i = -1) \<and>
    (ids_of m i \<noteq> {} \<longrightarrow> 0 \<le> pos_of m i) \<and>
    (mc_src (rs_cells m ! i) = int i \<or> ids_of m i = {} \<and> mc_src (rs_cells m ! i) = -1)"

definition rs_wf :: "llama_memory_recurrent \<Rightarrow> bool" where
  "rs_wf m \<longleftrightarrow> 0 < rs_size m \<and> rs_size m \<le> 2 ^ 31 \<and> rs_head m < rs_size m \<and> tails_ok m \<and>
    (\<forall>i < rs_size m. cell_ok m i) \<and> rs_used m = rs_count_used m"

definition rs_pos :: "llama_memory_recurrent \<Rightarrow> nat \<Rightarrow> llama_pos" where
  "rs_pos m s = (if tail_of m s < 0 then -1 else pos_of m (nat (tail_of m s)))"

section \<open>Changing cells\<close>

lemma rs_size_simps [simp]:
  "rs_size (rs_upd i f m) = rs_size m" "rs_size (rs_dec_used m) = rs_size m"
  "rs_size (m\<lparr>rs_head := h\<rparr>) = rs_size m" "rs_size (m\<lparr>rs_used := u\<rparr>) = rs_size m"
  "rs_size (m\<lparr>rs_n := h\<rparr>) = rs_size m" "rs_size (m\<lparr>rs_z := z\<rparr>) = rs_size m"
  "rs_size (rs_new_head h m) = rs_size m"
  by (simp_all add: rs_size_def rs_upd_def rs_dec_used_def rs_new_head_def)

lemma rs_upd_simps [simp]:
  "rs_head (rs_upd i f m) = rs_head m" "rs_used (rs_upd i f m) = rs_used m" "rs_z (rs_upd i f m) = rs_z m"
  "rs_n (rs_upd i f m) = rs_n m"
  "rs_cells (rs_dec_used m) = rs_cells m" "rs_head (rs_dec_used m) = rs_head m"
  "rs_cells (rs_new_head h m) = rs_cells m" "rs_used (rs_new_head h m) = rs_used m"
  by (simp_all add: rs_upd_def rs_dec_used_def rs_new_head_def)

lemma rs_upd_nth [simp]:
  "i < rs_size m \<Longrightarrow> rs_cells (rs_upd i f m) ! k = (if k = i then f (rs_cells m ! i) else rs_cells m ! k)"
  by (auto simp: rs_upd_def rs_size_def nth_list_update)

lemma rs_at_ok: "0 \<le> i \<Longrightarrow> i < int (rs_size m) \<Longrightarrow> rs_at m i = Inr (rs_cells m ! nat i)"
  by (simp add: rs_at_def)

lemma count_used_card: "rs_count_used m = card {i. i < rs_size m \<and> ids_of m i \<noteq> {}}"
  by (simp add: rs_count_used_def rs_size_def length_filter_conv_card is_empty_cell_def)

lemma count_used_le: "rs_count_used m \<le> rs_size m"
  by (simp add: rs_count_used_def rs_size_def)

lemma count_used_cong: "rs_cells m = rs_cells m' \<Longrightarrow> rs_count_used m = rs_count_used m'"
  by (simp add: rs_count_used_def)

lemma dec_used: "0 < rs_used m \<Longrightarrow> rs_used m \<le> 2 ^ 31 \<Longrightarrow> rs_used (rs_dec_used m) = rs_used m - 1"
  by (simp add: rs_dec_used_def mod_if)

lemma wf_tail:
  assumes "rs_wf m" "s < rs_size m" "0 \<le> tail_of m s"
  shows "tail_of m s < int (rs_size m)" "int s \<in> ids_of m (nat (tail_of m s))"
    "ids_of m (nat (tail_of m s)) = owners m (nat (tail_of m s))"
proof -
  show t: "tail_of m s < int (rs_size m)" using assms by (auto simp: rs_wf_def tails_ok_def)
  then have "cell_ok m (nat (tail_of m s))" using assms by (auto simp: rs_wf_def)
  then show "ids_of m (nat (tail_of m s)) = owners m (nat (tail_of m s))" by (simp add: cell_ok_def)
  then show "int s \<in> ids_of m (nat (tail_of m s))" using assms(2,3) by (simp add: owners_def)
qed

section \<open>Leaving a cell\<close>

text \<open>The cells and tails after a sequence left its cell.\<close>

definition left :: "nat \<Rightarrow> llama_memory_recurrent \<Rightarrow> llama_memory_recurrent \<Rightarrow> bool" where
  "left s m m' \<longleftrightarrow> rs_wf m' \<and> rs_size m' = rs_size m \<and> tail_of m' s = -1 \<and>
    (\<forall>t < rs_size m. t \<noteq> s \<longrightarrow> tail_of m' t = tail_of m t \<and> rs_pos m' t = rs_pos m t)"

lemma leave_cell:
  assumes m: "rs_wf m" "s < rs_size m" "0 \<le> tail_of m s" and t: "t = nat (tail_of m s)"
    and size: "rs_size m' = rs_size m"
    and tails: "\<And>k. k < rs_size m \<Longrightarrow> tail_of m' k = (if k = s then -1 else tail_of m k)"
    and ids: "\<And>k. k < rs_size m \<Longrightarrow> ids_of m' k = (if k = t then ids_of m t - {int s} else ids_of m k)"
    and pos: "\<And>k. k < rs_size m \<Longrightarrow> pos_of m' k = (if k = t \<and> ids_of m t = {int s} then -1 else pos_of m k)"
    and src: "\<And>k. k < rs_size m \<Longrightarrow> mc_src (rs_cells m' ! k) =
      (if k = t \<and> ids_of m t = {int s} then -1 else mc_src (rs_cells m ! k))"
    and used: "rs_used m' = (if ids_of m t = {int s} then rs_used m - 1 else rs_used m)"
    and head: "rs_head m' < rs_size m"
  shows "left s m m'"
proof -
  have tn: "t < rs_size m" and st: "int s \<in> ids_of m t" using wf_tail [OF m] t m(3) by auto
  have own: "owners m' k = (if k = t then owners m t - {int s} else owners m k)" if k: "k < rs_size m" for k
  proof -
    have "int s \<in> owners m k \<longleftrightarrow> k = t" using m t by (auto simp: owners_def)
    moreover have "owners m' k = owners m k - {int s}"
      using tails size by (auto simp: owners_def split: if_split_asm)
    ultimately show ?thesis by auto
  qed
  have cell: "cell_ok m' k" if k: "k < rs_size m" for k
  proof -
    have "cell_ok m k" using m(1) k by (simp add: rs_wf_def)
    then show ?thesis using own [OF k] ids [OF k] pos [OF k] src [OF k] by (auto simp: cell_ok_def)
  qed
  have "{i. i < rs_size m' \<and> ids_of m' i \<noteq> {}} =
      {i. i < rs_size m \<and> ids_of m i \<noteq> {}} - (if ids_of m t = {int s} then {t} else {})"
    using ids size st by (auto split: if_splits)
  moreover have "t \<in> {i. i < rs_size m \<and> ids_of m i \<noteq> {}}" using tn st by auto
  ultimately have "rs_count_used m' = (if ids_of m t = {int s} then rs_count_used m - 1 else rs_count_used m)"
    unfolding count_used_card by (simp add: card_Diff_singleton)
  then have "rs_used m' = rs_count_used m'" using used m(1) by (simp add: rs_wf_def)
  moreover have "tails_ok m'" using m(1) tails size by (auto simp: rs_wf_def tails_ok_def)
  ultimately have wf: "rs_wf m'"
    using m(1) cell size head by (auto simp: rs_wf_def)
  have "rs_pos m' k = rs_pos m k" if k: "k < rs_size m" "k \<noteq> s" for k
  proof (cases "tail_of m k < 0")
    case False
    then have "nat (tail_of m k) < rs_size m" "int k \<in> ids_of m (nat (tail_of m k))"
      using wf_tail [OF m(1) k(1)] by auto
    then show ?thesis using False pos [of "nat (tail_of m k)"] tails [OF k(1)] k(2) by (auto simp: rs_pos_def)
  qed (use tails [OF k(1)] k(2) in \<open>simp add: rs_pos_def\<close>)
  then show ?thesis using wf size tails m(2) by (simp add: left_def)
qed

lemma detach_ok:
  assumes m: "rs_wf m" "s < rs_size m"
  shows "\<exists>m'. rs_detach s m = Inr m' \<and> left s m m' \<and> rs_head m' = rs_head m"
proof (cases "0 \<le> tail_of m s")
  case False
  then have "tail_of m s = -1" using m by (auto simp: rs_wf_def tails_ok_def)
  then show ?thesis using m by (simp add: rs_detach_def left_def)
next
  case True
  let ?t = "nat (tail_of m s)"
  have t: "?t < rs_size m" "int s \<in> ids_of m ?t" using wf_tail [OF m True] True by auto
  let ?m1 = "rs_upd s (mc_tail_update (\<lambda>_. -1)) (rs_upd ?t (mc_seq_id_update (\<lambda>S. S - {int s})) m)"
  let ?m2 = "rs_dec_used (rs_upd ?t (\<lambda>c. c\<lparr>mc_pos := -1, mc_src := -1\<rparr>) ?m1)"
  have at: "rs_at m (tail_of m s) = Inr (rs_cells m ! ?t)" using rs_at_ok True wf_tail(1) [OF m True] by blast
  have ids: "ids_of ?m1 ?t = ids_of m ?t - {int s}" using t m by simp
  have one: "ids_of m ?t - {int s} = {} \<longleftrightarrow> ids_of m ?t = {int s}" using t(2) by auto
  have res: "rs_detach s m = Inr (if ids_of m ?t = {int s} then ?m2 else ?m1)"
    using True at ids one by (simp add: rs_detach_def Let_def is_empty_cell_def)
  have "{i. i < rs_size m \<and> ids_of m i \<noteq> {}} \<noteq> {}" using t by auto
  then have "0 < rs_used m" "rs_used m \<le> 2 ^ 31"
    using m(1) count_used_le [of m] by (auto simp: rs_wf_def count_used_card card_gt_0_iff)
  then have used: "rs_used ?m2 = rs_used m - 1" using dec_used [of "rs_upd ?t (\<lambda>c. c\<lparr>mc_pos := -1, mc_src := -1\<rparr>) ?m1"] by simp
  have "left s m (if ids_of m ?t = {int s} then ?m2 else ?m1)"
    by (rule leave_cell [OF m True refl]) (use t m used in \<open>auto simp: rs_wf_def\<close>)
  then show ?thesis using res by simp
qed

section \<open>Removing, copying and the queries\<close>

lemma fold_still: "(\<And>x. x \<in> set xs \<Longrightarrow> f x s = s) \<Longrightarrow> fold f xs s = s"
  by (induction xs) auto

lemma fold_once:
  assumes "k < n" "\<And>i. i < n \<Longrightarrow> i \<noteq> k \<Longrightarrow> f i x = x \<and> f i (f k x) = f k x"
  shows "fold f [0..<n] x = f k x"
proof -
  have split: "[0..<n] = [0..<k] @ k # [Suc k..<n]"
    using assms(1) upt_add_eq_append [of 0 k "n - k"] by (simp add: upt_conv_Cons)
  have "fold f [0..<k] x = x" by (rule fold_still) (use assms in auto)
  moreover have "fold f [Suc k..<n] (f k x) = f k x" by (rule fold_still) (use assms in auto)
  ultimately show ?thesis unfolding split by simp
qed

lemma rm_step_skip: "0 \<le> s \<Longrightarrow> s \<notin> ids_of (fst st) i \<Longrightarrow> rs_rm_step s p0 p1 i st = st"
  by (cases st) (auto simp: rs_rm_step_def Let_def)

lemma rm_step_range: "\<not> (p0 \<le> pos_of (fst st) i \<and> pos_of (fst st) i < p1) \<Longrightarrow> rs_rm_step s p0 p1 i st = st"
  by (cases st) (auto simp: rs_rm_step_def Let_def)

lemma new_head_none: "rs_new_head (rs_size m) m = m"
  by (simp add: rs_new_head_def)

lemma wf_ids: "rs_wf m \<Longrightarrow> i < rs_size m \<Longrightarrow> ids_of m i = owners m i"
  by (simp add: rs_wf_def cell_ok_def)

lemma rm_loop_none:
  assumes "0 \<le> s" "\<And>i. i < rs_size m \<Longrightarrow> s \<in> ids_of m i \<Longrightarrow> \<not> (p0 \<le> pos_of m i \<and> pos_of m i < p1)"
  shows "rs_rm_loop s p0 p1 m = m"
proof -
  have "rs_rm_step s p0 p1 i (m, rs_size m) = (m, rs_size m)" if "i < rs_size m" for i
    using rm_step_skip [of s "(m, rs_size m)" i p0 p1] rm_step_range [of p0 "(m, rs_size m)" i p1 s] assms that by auto
  then have "fold (rs_rm_step s p0 p1) [0..<rs_size m] (m, rs_size m) = (m, rs_size m)"
    by (intro fold_still) auto
  then show ?thesis by (simp add: rs_rm_loop_def new_head_none)
qed

lemma rm_loop_one:
  assumes m: "rs_wf m" "s < rs_size m" "0 \<le> tail_of m s" and p: "p0 \<le> rs_pos m s" "rs_pos m s < p1"
  shows "left s m (rs_rm_loop (int s) p0 p1 (rs_upd s (mc_tail_update (\<lambda>_. -1)) m))"
proof -
  let ?m1 = "rs_upd s (mc_tail_update (\<lambda>_. -1)) m"
  let ?t = "nat (tail_of m s)"
  let ?f = "rs_rm_step (int s) p0 p1"
  have t: "?t < rs_size m" "int s \<in> ids_of m ?t" using wf_tail [OF m] m(3) by auto
  have only: "int s \<notin> ids_of m i" if "i < rs_size m" "i \<noteq> ?t" for i
    using wf_ids [OF m(1) that(1)] that(2) m by (auto simp: owners_def)
  have pos: "p0 \<le> pos_of m ?t" "pos_of m ?t < p1" using p m(3) by (simp_all add: rs_pos_def)
  have pos0: "0 \<le> pos_of m ?t" using m(1) t by (auto simp: rs_wf_def cell_ok_def)
  let ?m2 = "rs_upd ?t (mc_seq_id_update (\<lambda>S. S - {int s})) ?m1"
  let ?m3 = "rs_dec_used ?m2"
  let ?m4 = "rs_upd ?t (\<lambda>c. c\<lparr>mc_pos := -1, mc_src := -1\<rparr>) ?m3"
  have one: "ids_of m ?t - {int s} = {} \<longleftrightarrow> ids_of m ?t = {int s}" using t(2) by auto
  have step: "?f ?t (?m1, rs_size m) = (if ids_of m ?t = {int s} then (?m4, ?t) else (?m2, rs_size m))"
  proof -
    obtain M1 where M1: "M1 = ?m1" by blast
    then have "rs_size M1 = rs_size m" "pos_of M1 ?t = pos_of m ?t" "ids_of M1 ?t = ids_of m ?t"
      using t m(2) by simp_all
    then show ?thesis
      unfolding M1 [symmetric] using t pos pos0 one by (simp add: rs_rm_step_def Let_def is_empty_cell_def)
  qed
  have "fold ?f [0..<rs_size m] (?m1, rs_size m) = ?f ?t (?m1, rs_size m)"
  proof (rule fold_once [OF t(1)])
    fix i assume i: "i < rs_size m" "i \<noteq> ?t"
    have "int s \<notin> ids_of ?m1 i" "int s \<notin> ids_of ?m2 i" "int s \<notin> ids_of ?m4 i"
      using only [OF i] i t m(2) by auto
    then show "?f i (?m1, rs_size m) = (?m1, rs_size m) \<and> ?f i (?f ?t (?m1, rs_size m)) = ?f ?t (?m1, rs_size m)"
      unfolding step by (simp add: rm_step_skip)
  qed
  then have res: "rs_rm_loop (int s) p0 p1 ?m1 =
      (if ids_of m ?t = {int s} then rs_new_head ?t ?m4 else rs_new_head (rs_size m) ?m2)"
    unfolding rs_rm_loop_def by (simp add: step)
  have "{i. i < rs_size m \<and> ids_of m i \<noteq> {}} \<noteq> {}" using t by auto
  then have "0 < rs_used m" "rs_used m \<le> 2 ^ 31"
    using m(1) count_used_le [of m] by (auto simp: rs_wf_def count_used_card card_gt_0_iff)
  then have used: "rs_used ?m3 = rs_used m - 1" using dec_used [of ?m2] by simp
  have head: "rs_head (rs_new_head k x) < rs_size m" if "rs_size x = rs_size m" "rs_head x = rs_head m" for k x
    using m(1) that by (auto simp: rs_new_head_def rs_wf_def)
  show ?thesis unfolding res
    by (rule leave_cell [OF m refl]) (use t m used head in auto)
qed

text \<open>What removing a range of positions of a sequence does to the recurrent memory.\<close>

lemma seq_rm_result:
  assumes m: "rs_wf m" "0 \<le> s" and r: "r = (s < int (rs_size m) \<and> \<not> (0 < range_lo p0 \<and> rs_pos m (nat s) \<in> rng p0 p1))"
  shows "\<exists>m'. rs_seq_rm s p0 p1 m = Inr (r, m') \<and> rs_wf m' \<and> rs_size m' = rs_size m \<and> (\<not> r \<longrightarrow> m' = m) \<and>
    (\<forall>t < rs_size m. rs_pos m' t = (if r \<and> int t = s \<and> rs_pos m t \<in> rng p0 p1 then -1 else rs_pos m t))"
proof (cases "s < int (rs_size m)")
  case False
  then show ?thesis using r m by (simp add: rs_seq_rm_def Let_def)
next
  case lt: True
  let ?s = "nat s"
  have s: "?s < rs_size m" using lt m(2) by simp
  show ?thesis
  proof (cases "0 \<le> tail_of m ?s")
    case False
    then have none: "s \<notin> ids_of m i" if "i < rs_size m" for i
      using wf_ids [OF m(1) that] that by (auto simp: owners_def)
    have pos: "rs_pos m ?s = -1" using False by (simp add: rs_pos_def)
    have out: "-1 \<notin> rng p0 p1" by (auto simp: rng_def range_lo_def)
    have "rs_seq_rm s p0 p1 m = Inr (True, m)"
      using False lt m(2) rm_loop_none [OF m(2), of m] none by (simp add: rs_seq_rm_def Let_def)
    then show ?thesis using r lt pos out m by auto
  next
    case True
    let ?t = "nat (tail_of m ?s)"
    have at: "rs_at m (tail_of m ?s) = Inr (rs_cells m ! ?t)" using rs_at_ok True wf_tail(1) [OF m(1) s True] by blast
    have pos: "rs_pos m ?s = pos_of m ?t" using True by (simp add: rs_pos_def)
    have only: "i = ?t" if "i < rs_size m" "s \<in> ids_of m i" for i
      using wf_ids [OF m(1) that(1)] that by (auto simp: owners_def)
    show ?thesis
    proof (cases "rs_pos m ?s \<in> rng p0 p1")
      case in_range: True
      show ?thesis
      proof (cases "0 < range_lo p0")
        case partial: True
        then have "rs_seq_rm s p0 p1 m = Inr (False, m)"
          using True lt m(2) at in_range pos by (simp add: rs_seq_rm_def Let_def rng_def)
        then show ?thesis using r in_range partial m by auto
      next
        case whole: False
        let ?m' = "rs_rm_loop (int ?s) (range_lo p0) (range_hi p1) (rs_upd ?s (mc_tail_update (\<lambda>_. -1)) m)"
        have "rs_seq_rm s p0 p1 m = Inr (True, ?m')"
          using True lt m(2) at in_range pos whole by (simp add: rs_seq_rm_def Let_def rng_def)
        moreover have "left ?s m ?m'"
          by (rule rm_loop_one [OF m(1) s True]) (use in_range in \<open>auto simp: rng_def\<close>)
        moreover from this have "rs_pos ?m' ?s = -1" by (simp add: left_def rs_pos_def)
        ultimately show ?thesis
          using r in_range whole lt m(2) unfolding left_def by (intro exI [of _ ?m']) (auto simp: nat_eq_iff)
      qed
    next
      case out: False
      have "rs_rm_loop s (range_lo p0) (range_hi p1) m = m"
        by (rule rm_loop_none [OF m(2)]) (use only out pos in \<open>auto simp: rng_def\<close>)
      then have "rs_seq_rm s p0 p1 m = Inr (True, m)"
        using True lt m(2) at out pos by (auto simp: rs_seq_rm_def Let_def rng_def)
      then show ?thesis using r out lt m by (auto simp: nat_eq_iff)
    qed
  qed
qed

text \<open>With a negative id only the whole range and the empty range are not refused; the empty range keeps everything.\<close>

lemma seq_rm_negative:
  assumes "s < 0" "\<not> (range_lo p0 = 0 \<and> range_hi p1 = INT32_MAX)"
  shows "\<exists>r. rs_seq_rm s p0 p1 m = Inr (r, m)"
proof (cases "range_lo p0 = range_hi p1")
  case True
  have "fold (rs_rm_step s (range_lo p0) (range_hi p1)) [0..<rs_size m] (m, rs_size m) = (m, rs_size m)"
    by (rule fold_still) (use True in \<open>simp add: rm_step_range\<close>)
  then have "rs_rm_loop s (range_lo p0) (range_hi p1) m = m" by (simp add: rs_rm_loop_def new_head_none)
  then show ?thesis using True assms(1) by (intro exI [of _ True]) (simp add: rs_seq_rm_def Let_def)
qed (use assms in \<open>auto simp: rs_seq_rm_def Let_def\<close>)

lemma attach_ok:
  assumes m: "rs_wf m" "d < rs_size m" "tail_of m d = -1" and t: "t < rs_size m" "ids_of m t \<noteq> {}"
  shows "rs_wf (rs_upd d (mc_tail_update (\<lambda>_. int t)) (rs_upd t (mc_seq_id_update (insert (int d))) m))" (is "rs_wf ?m'")
proof -
  have own: "owners ?m' k = (if k = t then insert (int d) (owners m t) else owners m k)" for k
    using m t by (auto simp: owners_def)
  have ids: "ids_of ?m' k = (if k = t then insert (int d) (ids_of m t) else ids_of m k)" for k
    using m t by simp
  have rest: "pos_of ?m' k = pos_of m k \<and> mc_src (rs_cells ?m' ! k) = mc_src (rs_cells m ! k)" for k
    using m t by simp
  have cell: "cell_ok ?m' k" if k: "k < rs_size m" for k
  proof -
    have "cell_ok m k" using m(1) k by (simp add: rs_wf_def)
    then show ?thesis using own [of k] ids [of k] rest [of k] t by (auto simp: cell_ok_def)
  qed
  have "{i. i < rs_size ?m' \<and> ids_of ?m' i \<noteq> {}} = {i. i < rs_size m \<and> ids_of m i \<noteq> {}}"
    using ids t by auto
  then have "rs_count_used ?m' = rs_count_used m" by (simp add: count_used_card)
  moreover have "tails_ok ?m'" using m t by (auto simp: rs_wf_def tails_ok_def)
  ultimately show ?thesis using m(1) cell by (auto simp: rs_wf_def)
qed

lemma u32_id: "0 \<le> s \<Longrightarrow> s < 2 ^ 32 \<Longrightarrow> u32 s = nat s"
  by (simp add: u32_def)

lemma seq_cp_result:
  assumes m: "rs_wf m" and s: "src < rs_size m" "dst < rs_size m" "src \<noteq> dst"
  shows "\<exists>m'. rs_seq_cp (int src) (int dst) p0 p1 m = Inr m' \<and> rs_wf m' \<and> rs_size m' = rs_size m \<and>
    (\<forall>t < rs_size m. rs_pos m' t = (if t = dst then rs_pos m src else rs_pos m t))"
proof -
  have "int src < 2 ^ 32" "int dst < 2 ^ 32" using m s by (auto simp: rs_wf_def)
  then have u: "u32 (int src) = src" "u32 (int dst) = dst" by (simp_all add: u32_id)
  obtain m1 where d: "rs_detach dst m = Inr m1" "left dst m m1" using detach_ok [OF m s(2)] by blast
  note l = d(2) [unfolded left_def]
  show ?thesis
  proof (cases "0 \<le> tail_of m1 src")
    case False
    then have "tail_of m1 src < 0" "tail_of m1 dst < 0" using l by auto
    then have "rs_pos m1 dst = rs_pos m src" using l s by (simp add: rs_pos_def)
    then show ?thesis using False d l u s by (auto simp: rs_seq_cp_def Let_def)
  next
    case True
    let ?t = "nat (tail_of m1 src)"
    let ?m' = "rs_upd dst (mc_tail_update (\<lambda>_. tail_of m1 src)) (rs_upd ?t (mc_seq_id_update (insert (int dst))) m1)"
    have wf1: "rs_wf m1" and size1: "rs_size m1 = rs_size m" using l by simp_all
    have src1: "src < rs_size m1" "dst < rs_size m1" using s size1 by simp_all
    have t: "?t < rs_size m1" "ids_of m1 ?t \<noteq> {}" using wf_tail [OF wf1 src1(1) True] True by auto
    have "tail_of m1 dst = -1" using l by simp
    from attach_ok [OF wf1 src1(2) this t] have wf: "rs_wf ?m'" using True by simp
    have "rs_at m1 (tail_of m1 src) = Inr (rs_cells m1 ! ?t)"
      using rs_at_ok True wf_tail(1) [OF wf1 src1(1) True] by blast
    then have res: "rs_seq_cp (int src) (int dst) p0 p1 m = Inr ?m'"
      using d u s True size1 by (simp add: rs_seq_cp_def Let_def)
    have "rs_pos ?m' k = (if k = dst then rs_pos m src else rs_pos m k)" if k: "k < rs_size m" for k
    proof -
      have "rs_pos ?m' k = (if k = dst then rs_pos m1 src else rs_pos m1 k)"
        using True t src1 by (simp add: rs_pos_def)
      then show ?thesis using l s k by simp
    qed
    then show ?thesis using res wf size1 by auto
  qed
qed

lemma fold_cell:
  assumes "k < length xs" "\<And>i. i < length xs \<Longrightarrow> i \<noteq> k \<Longrightarrow> \<not> P (xs ! i)"
  shows "fold (\<lambda>c r. if P c then g c r else r) xs r = (if P (xs ! k) then g (xs ! k) r else r)"
proof -
  have "fold (\<lambda>c r. if P c then g c r else r) xs r =
      fold (\<lambda>i r. if P (xs ! i) then g (xs ! i) r else r) [0..<length xs] r"
    using fold_map [of "\<lambda>c r. if P c then g c r else r" "(!) xs" "[0..<length xs]"] by (simp add: map_nth comp_def)
  also have "\<dots> = (if P (xs ! k) then g (xs ! k) r else r)"
    by (subst fold_once [OF assms(1)]) (use assms(2) in auto)
  finally show ?thesis .
qed

text \<open>The queries of a sequence give the position it holds.\<close>

lemma seq_pos_result:
  assumes "rs_wf m" "s < rs_size m" "rs_pos m s < INT32_MAX"
  shows "rs_seq_pos_max (int s) m = rs_pos m s \<and> rs_seq_pos_min (int s) m = rs_pos m s"
proof (cases "0 \<le> tail_of m s")
  case True
  let ?t = "nat (tail_of m s)"
  have t: "?t < length (rs_cells m)" "int s \<in> ids_of m ?t" using wf_tail [OF assms(1,2) True] True by (auto simp: rs_size_def)
  have only: "int s \<notin> ids_of m i" if "i < length (rs_cells m)" "i \<noteq> ?t" for i
    using wf_ids [OF assms(1), of i] that assms(2) by (auto simp: owners_def rs_size_def)
  have "0 \<le> pos_of m ?t" using assms(1) t by (auto simp: rs_wf_def cell_ok_def rs_size_def)
  moreover have "rs_pos m s = pos_of m ?t" using True by (simp add: rs_pos_def)
  ultimately show ?thesis
    using assms(3) t only
      fold_cell [OF t(1), of "\<lambda>c. int s \<in> mc_seq_id c" "\<lambda>c r. max r (mc_pos c)" "-1"]
      fold_cell [OF t(1), of "\<lambda>c. int s \<in> mc_seq_id c" "\<lambda>c r. min r (mc_pos c)" INT32_MAX]
    by (simp add: rs_seq_pos_max_def rs_seq_pos_min_def)
next
  case False
  have "int s \<notin> ids_of m i" if "i < length (rs_cells m)" for i
    using wf_ids [OF assms(1), of i] that assms(2) False by (auto simp: owners_def rs_size_def)
  then have "int s \<notin> mc_seq_id c" if "c \<in> set (rs_cells m)" for c using that by (metis in_set_conv_nth)
  then have "fold (\<lambda>c r. if int s \<in> mc_seq_id c then g c r else r) (rs_cells m) r = r" for g and r :: int
    by (intro fold_still) auto
  with False show ?thesis by (simp add: rs_seq_pos_max_def rs_seq_pos_min_def rs_pos_def)
qed

lemma new_wf: "0 < n \<Longrightarrow> n \<le> 2 ^ 31 \<Longrightarrow> rs_wf (memory_recurrent_new n)"
  by (auto simp: rs_wf_def memory_recurrent_new_def rs_size_def tails_ok_def cell_ok_def owners_def mem_cell_new_def
      rs_count_used_def is_empty_cell_def)

lemma clear_wf: "rs_wf m \<Longrightarrow> rs_wf (rs_clear m) \<and> rs_size (rs_clear m) = rs_size m \<and> (\<forall>s < rs_size m. rs_pos (rs_clear m) s = -1)"
  by (auto simp: rs_wf_def rs_clear_def rs_size_def tails_ok_def cell_ok_def owners_def rs_count_used_def is_empty_cell_def
      rs_pos_def filter_empty_conv)

text \<open>Moving the position of a sequence moves that of every sequence in its cell.\<close>

lemma move_pos_result:
  assumes m: "rs_wf m" "s < rs_size m" and f: "rs_pos m s \<in> rng p0 p1 \<longrightarrow> 0 \<le> f (rs_pos m s)"
  shows "\<exists>m'. rs_move_pos f (int s) p0 p1 m = Inr m' \<and> rs_wf m' \<and> rs_size m' = rs_size m \<and>
    (\<forall>t < rs_size m. rs_pos m' t =
      (if 0 \<le> tail_of m s \<and> tail_of m t = tail_of m s \<and> rs_pos m s \<in> rng p0 p1 then f (rs_pos m t) else rs_pos m t))"
proof (cases "0 \<le> tail_of m s \<and> rs_pos m s \<in> rng p0 p1")
  case True
  let ?t = "nat (tail_of m s)"
  let ?m' = "rs_upd ?t (mc_pos_update f) m"
  have t: "?t < rs_size m" "int s \<in> ids_of m ?t" using wf_tail [OF m] True by auto
  have at: "rs_at m (tail_of m s) = Inr (rs_cells m ! ?t)" using rs_at_ok True wf_tail(1) [OF m] by blast
  have pos: "rs_pos m s = pos_of m ?t" using True by (simp add: rs_pos_def)
  have res: "rs_move_pos f (int s) p0 p1 m = Inr ?m'"
    using True at pos t m(2) by (auto simp: rs_move_pos_def Let_def rng_def)
  have "owners ?m' i = owners m i" for i using t by (auto simp: owners_def)
  then have cell: "cell_ok ?m' i" if "i < rs_size m" for i
    using m(1) t that f True pos by (auto simp: rs_wf_def cell_ok_def)
  have "rs_count_used ?m' = rs_count_used m" using t by (auto simp: count_used_card intro!: arg_cong [of _ _ card])
  then have "rs_wf ?m'" using m(1) cell t by (auto simp: rs_wf_def tails_ok_def)
  moreover have "rs_pos ?m' k = (if tail_of m k = tail_of m s then f (rs_pos m k) else rs_pos m k)" for k
  proof -
    have "nat (tail_of m k) = ?t \<longleftrightarrow> tail_of m k = tail_of m s" if "\<not> tail_of m k < 0"
      using True that by (simp add: eq_nat_nat_iff)
    moreover have "tail_of ?m' k = tail_of m k" "pos_of ?m' i = (if i = ?t then f (pos_of m i) else pos_of m i)" for i
      using t by simp_all
    ultimately show ?thesis using True by (simp add: rs_pos_def del: rs_upd_nth)
  qed
  ultimately show ?thesis using res True by auto
next
  case False
  have "rs_move_pos f (int s) p0 p1 m = Inr m"
  proof (cases "0 \<le> tail_of m s")
    case True
    have at: "rs_at m (tail_of m s) = Inr (rs_cells m ! nat (tail_of m s))" using rs_at_ok True wf_tail(1) [OF m] by blast
    have "rs_pos m s = pos_of m (nat (tail_of m s))" using True by (simp add: rs_pos_def)
    then show ?thesis using True False at m(2) by (auto simp: rs_move_pos_def Let_def rng_def)
  qed (use m in \<open>auto simp: rs_move_pos_def Let_def\<close>)
  then show ?thesis using m False by auto
qed

lemma move_pos_outside: "\<not> (0 \<le> s \<and> s < int (rs_size m)) \<Longrightarrow> rs_move_pos f s p0 p1 m = Inr m"
  by (auto simp: rs_move_pos_def Let_def)

lemma seq_add_result:
  assumes m: "rs_wf m" "s < rs_size m" and d: "rs_pos m s \<in> rng p0 p1 \<longrightarrow> 0 \<le> rs_pos m s + d"
  shows "\<exists>m'. rs_seq_add (int s) p0 p1 d m = Inr m' \<and> rs_wf m' \<and> rs_size m' = rs_size m \<and>
    (\<forall>t < rs_size m. rs_pos m' t =
      (if 0 \<le> tail_of m s \<and> tail_of m t = tail_of m s \<and> rs_pos m s \<in> rng p0 p1 then rs_pos m t + d else rs_pos m t))"
  using move_pos_result [OF m, of p0 p1 "\<lambda>p. p + d"] m(1) d by (cases "d = 0") (auto simp: rs_seq_add_def)

lemma seq_div_result:
  assumes m: "rs_wf m" "s < rs_size m" and d: "0 < d"
  shows "\<exists>m'. rs_seq_div (int s) p0 p1 d m = Inr m' \<and> rs_wf m' \<and> rs_size m' = rs_size m \<and>
    (\<forall>t < rs_size m. rs_pos m' t =
      (if 0 \<le> tail_of m s \<and> tail_of m t = tail_of m s \<and> rs_pos m s \<in> rng p0 p1 then c_div (rs_pos m t) d else rs_pos m t))"
proof (cases "d = 1")
  case True
  have "c_div x 1 = x" for x by (simp add: c_div_def mult_sgn_abs)
  then show ?thesis using True m(1) by (simp add: rs_seq_div_def)
next
  case False
  have "0 \<le> c_div x d" if "0 \<le> x" for x
    using that d by (cases "x = 0") (auto simp: c_div_def pos_imp_zdiv_nonneg_iff)
  moreover have "0 \<le> x" if "x \<in> rng p0 p1" for x using that by (auto simp: rng_def range_lo_def split: if_splits)
  ultimately show ?thesis using move_pos_result [OF m, of p0 p1 "\<lambda>p. c_div p d"] False by (simp add: rs_seq_div_def)
qed

lemma keep_step:
  assumes "i < rs_size m"
  shows "rs_keep_step s i (m, h) =
    (let c = rs_cells m ! i; gone = (s \<notin> mc_seq_id c);
         c' = c\<lparr>mc_tail := (if int i \<noteq> s then -1 else mc_tail c), mc_pos := (if gone then -1 else mc_pos c),
               mc_src := (if gone then -1 else mc_src c), mc_seq_id := (if gone then {} else {s})\<rparr>
     in (rs_upd i (\<lambda>_. c') (if gone \<and> mc_pos c \<ge> 0 then rs_dec_used m else m), if gone \<and> h = rs_size m then i else h))"
  using assms by (simp add: rs_keep_step_def Let_def rs_upd_def rs_dec_used_def rs_size_def)

text \<open>Keeping one sequence: after the loop over the first cells, those hold nothing else.\<close>

lemma keep_loop:
  assumes m: "rs_wf m"
  shows "k \<le> rs_size m \<Longrightarrow> \<exists>m' h. fold (rs_keep_step s) [0..<k] (m, rs_size m) = (m', h) \<and> rs_size m' = rs_size m \<and>
    rs_head m' = rs_head m \<and> rs_used m' = rs_count_used m' \<and>
    (\<forall>i. rs_cells m' ! i = (if i < k then
       (let c = rs_cells m ! i; gone = (s \<notin> mc_seq_id c)
        in c\<lparr>mc_tail := (if int i \<noteq> s then -1 else mc_tail c), mc_pos := (if gone then -1 else mc_pos c),
             mc_src := (if gone then -1 else mc_src c), mc_seq_id := (if gone then {} else {s})\<rparr>)
       else rs_cells m ! i))"
proof (induction k)
  case 0
  then show ?case using m by (auto simp: rs_wf_def)
next
  case (Suc k)
  then obtain x h where x: "fold (rs_keep_step s) [0..<k] (m, rs_size m) = (x, h)" "rs_size x = rs_size m" "rs_head x = rs_head m"
      "rs_used x = rs_count_used x"
    and cells: "\<And>i. rs_cells x ! i = (if i < k then
       (let c = rs_cells m ! i; gone = (s \<notin> mc_seq_id c)
        in c\<lparr>mc_tail := (if int i \<noteq> s then -1 else mc_tail c), mc_pos := (if gone then -1 else mc_pos c),
             mc_src := (if gone then -1 else mc_src c), mc_seq_id := (if gone then {} else {s})\<rparr>)
       else rs_cells m ! i)" by auto
  have k: "k < rs_size x" using Suc.prems x(2) by simp
  let ?c = "rs_cells x ! k"
  let ?gone = "s \<notin> mc_seq_id ?c"
  obtain c' where c': "c' = ?c\<lparr>mc_tail := (if int k \<noteq> s then -1 else mc_tail ?c), mc_pos := (if ?gone then -1 else mc_pos ?c),
      mc_src := (if ?gone then -1 else mc_src ?c), mc_seq_id := (if ?gone then {} else {s})\<rparr>" by blast
  let ?drop = "?gone \<and> mc_pos ?c \<ge> 0"
  let ?y = "rs_upd k (\<lambda>_. c') (if ?drop then rs_dec_used x else x)"
  have step: "rs_keep_step s k (x, h) = (?y, if ?gone \<and> h = rs_size x then k else h)"
    using keep_step [OF k, of s h] by (simp add: Let_def c')
  have "cell_ok m k" using m Suc.prems by (simp add: rs_wf_def)
  then have full: "mc_pos ?c \<ge> 0 \<longleftrightarrow> mc_seq_id ?c \<noteq> {}" using cells [of k] by (auto simp: cell_ok_def)
  have "{i. i < rs_size ?y \<and> ids_of ?y i \<noteq> {}} = {i. i < rs_size x \<and> ids_of x i \<noteq> {}} - (if ?drop then {k} else {})"
    using k full by (auto simp: c' split: if_splits)
  moreover have "?drop \<Longrightarrow> k \<in> {i. i < rs_size x \<and> ids_of x i \<noteq> {}}" using k full by auto
  ultimately have "rs_count_used ?y = (if ?drop then rs_count_used x - 1 else rs_count_used x)" "?drop \<Longrightarrow> 0 < rs_count_used x"
    unfolding count_used_card by (simp_all add: card_Diff_singleton card_gt_0_iff) blast
  moreover have "rs_used x \<le> 2 ^ 31" using x m count_used_le [of x] by (simp add: rs_wf_def)
  ultimately have used: "rs_used ?y = rs_count_used ?y" using x(4) dec_used [of x] by auto
  have "rs_cells ?y ! i = (if i < Suc k then
       (let c = rs_cells m ! i; gone = (s \<notin> mc_seq_id c)
        in c\<lparr>mc_tail := (if int i \<noteq> s then -1 else mc_tail c), mc_pos := (if gone then -1 else mc_pos c),
             mc_src := (if gone then -1 else mc_src c), mc_seq_id := (if gone then {} else {s})\<rparr>)
       else rs_cells m ! i)" for i
    using cells [of i] cells [of k] k by (auto simp: c' Let_def less_Suc_eq)
  then show ?case using x step used by (simp add: Let_def)
qed

lemma seq_keep_result:
  assumes m: "rs_wf m"
  shows "rs_wf (rs_seq_keep s m) \<and> rs_size (rs_seq_keep s m) = rs_size m \<and>
    (\<forall>t < rs_size m. rs_pos (rs_seq_keep s m) t = (if int t = s then rs_pos m t else -1))"
proof -
  obtain x h where x: "fold (rs_keep_step s) [0..<rs_size m] (m, rs_size m) = (x, h)" "rs_size x = rs_size m" "rs_head x = rs_head m"
      "rs_used x = rs_count_used x"
    and cells: "\<And>i. rs_cells x ! i = (if i < rs_size m then
       (let c = rs_cells m ! i; gone = (s \<notin> mc_seq_id c)
        in c\<lparr>mc_tail := (if int i \<noteq> s then -1 else mc_tail c), mc_pos := (if gone then -1 else mc_pos c),
             mc_src := (if gone then -1 else mc_src c), mc_seq_id := (if gone then {} else {s})\<rparr>)
       else rs_cells m ! i)" using keep_loop [OF m order_refl, of s] by auto
  let ?y = "rs_new_head h x"
  have res: "rs_seq_keep s m = ?y" by (simp add: rs_seq_keep_def x)
  have tail: "tail_of ?y i = (if int i = s then tail_of m i else -1)" if "i < rs_size m" for i
    using that by (simp add: cells Let_def)
  have own: "owners ?y i = (if s \<in> ids_of m i then {s} else {})" if i: "i < rs_size m" for i
    using wf_ids [OF m i] tail x(2) by (auto simp: owners_def nat_eq_iff)
  have cell: "cell_ok ?y i" if i: "i < rs_size m" for i
  proof -
    have "cell_ok m i" using m i by (simp add: rs_wf_def)
    then show ?thesis using own [OF i] i by (auto simp: cell_ok_def cells Let_def)
  qed
  have "rs_count_used ?y = rs_count_used x" by (simp add: rs_count_used_def)
  then have "rs_used ?y = rs_count_used ?y" using x by simp
  moreover have "rs_head ?y < rs_size m" using x m by (auto simp: rs_new_head_def rs_wf_def)
  moreover have "tails_ok ?y" using m x tail by (auto simp: rs_wf_def tails_ok_def)
  ultimately have wf: "rs_wf ?y" using m x cell by (auto simp: rs_wf_def)
  have pos: "rs_pos ?y t = (if int t = s then rs_pos m t else -1)" if t: "t < rs_size m" for t
  proof (cases "int t = s \<and> 0 \<le> tail_of m t")
    case True
    then have "nat (tail_of m t) < rs_size m" "s \<in> ids_of m (nat (tail_of m t))" using wf_tail [OF m t] by auto
    then show ?thesis using True tail [OF t] by (simp add: rs_pos_def cells Let_def)
  qed (use tail [OF t] in \<open>auto simp: rs_pos_def\<close>)
  show ?thesis unfolding res using wf pos x by simp
qed

end
