(* ===== verification/RecurrentSlot.thy ===== *)
theory RecurrentSlot
  imports RecurrentWf
begin

text \<open>
  The search for a slot of the recurrent memory, phase by phase: no assertion of \<open>find_slot\<close>
  fails in a well-formed memory, and the sequence sets of the micro-batch end in adjacent cells.
\<close>

section \<open>The sequences behind the first of a set leave their cells\<close>

definition cleared :: "nat set \<Rightarrow> llama_memory_recurrent \<Rightarrow> llama_memory_recurrent \<Rightarrow> bool" where
  "cleared D m m' \<longleftrightarrow> rs_wf m' \<and> rs_size m' = rs_size m \<and> rs_head m' = rs_head m \<and>
    (\<forall>t < rs_size m. (t \<in> D \<longrightarrow> tail_of m' t = -1) \<and>
      (t \<notin> D \<longrightarrow> tail_of m' t = tail_of m t \<and> rs_pos m' t = rs_pos m t))"

lemma cleared_refl: "rs_wf m \<Longrightarrow> cleared {} m m"
  by (simp add: cleared_def)

lemma cleared_trans: "cleared A m m' \<Longrightarrow> cleared B m' m'' \<Longrightarrow> cleared (A \<union> B) m m''"
  unfolding cleared_def by (intro conjI) (simp_all, metis)

lemma cleared_wf: "cleared A m m' \<Longrightarrow> rs_wf m'" "cleared A m m' \<Longrightarrow> rs_size m' = rs_size m"
  by (simp_all add: cleared_def)

lemma clear_ids_later:
  "rs_wf m \<Longrightarrow> 0 < j \<Longrightarrow>
    \<exists>m' A. rs_clear_ids j L m = Inr (\<forall>s \<in> set L. s < rs_size m, m') \<and> cleared A m m' \<and>
      ((\<forall>s \<in> set L. s < rs_size m) \<longrightarrow> A = set L)"
proof (induction L arbitrary: j m)
  case (Cons s L)
  show ?case
  proof (cases "s < rs_size m")
    case True
    from detach_ok [OF Cons.prems(1) True] obtain x where x: "rs_detach s m = Inr x" "left s m x" "rs_head x = rs_head m" by blast
    then have c: "cleared {s} m x" by (auto simp: left_def cleared_def)
    from Cons.IH [OF cleared_wf(1) [OF c], of "j + 1"] obtain m' A where
      "rs_clear_ids (j + 1) L x = Inr (\<forall>s \<in> set L. s < rs_size m, m')" "cleared A x m'"
      "(\<forall>s \<in> set L. s < rs_size m) \<longrightarrow> A = set L" using cleared_wf(2) [OF c] by auto
    then show ?thesis using x Cons.prems True cleared_trans [OF c]
      by (intro exI [of _ m'] exI [of _ "{s} \<union> A"]) auto
  qed (use Cons.prems cleared_refl in auto)
qed (use cleared_refl in auto)

lemma clear_ids_ok:
  assumes "rs_wf m"
  shows "\<exists>m' A. rs_clear_ids 0 L m = Inr (\<forall>s \<in> set L. s < rs_size m, m') \<and> cleared A m m' \<and>
    ((\<forall>s \<in> set L. s < rs_size m) \<longrightarrow> A = set (tl L))"
proof (cases L)
  case (Cons s L')
  show ?thesis using clear_ids_later [OF assms, of 1 L'] cleared_refl [OF assms] unfolding Cons by auto
qed (use assms cleared_refl in auto)

lemma clear_sets_ok:
  "rs_wf m \<Longrightarrow> \<exists>m' A. rs_clear_sets ub ss m = Inr (\<forall>s \<in> set ss. \<forall>x \<in> set (ub_set_ids ub s). x < rs_size m, m') \<and>
    cleared A m m' \<and> ((\<forall>s \<in> set ss. \<forall>x \<in> set (ub_set_ids ub s). x < rs_size m) \<longrightarrow>
      A = (\<Union>s \<in> set ss. set (tl (ub_set_ids ub s))))"
proof (induction ss arbitrary: m)
  case (Cons s ss)
  from clear_ids_ok [OF Cons.prems] obtain x A where x:
    "rs_clear_ids 0 (ub_set_ids ub s) m = Inr (\<forall>y \<in> set (ub_set_ids ub s). y < rs_size m, x)" "cleared A m x"
    "(\<forall>y \<in> set (ub_set_ids ub s). y < rs_size m) \<longrightarrow> A = set (tl (ub_set_ids ub s))" by blast
  show ?case
  proof (cases "\<forall>y \<in> set (ub_set_ids ub s). y < rs_size m")
    case True
    from Cons.IH [OF cleared_wf(1) [OF x(2)], unfolded cleared_wf(2) [OF x(2)]] obtain m' B where m':
      "rs_clear_sets ub ss x = Inr (\<forall>s \<in> set ss. \<forall>y \<in> set (ub_set_ids ub s). y < rs_size m, m')" "cleared B x m'"
      "(\<forall>s \<in> set ss. \<forall>y \<in> set (ub_set_ids ub s). y < rs_size m) \<longrightarrow> B = (\<Union>s \<in> set ss. set (tl (ub_set_ids ub s)))"
      by (elim exE conjE) (rule that)
    then show ?thesis using x True cleared_trans [OF x(2) m'(2)]
      by (intro exI [of _ m'] exI [of _ "A \<union> B"]) auto
  next
    case False
    then show ?thesis using x by (intro exI [of _ x] exI [of _ A]) auto
  qed
qed (use cleared_refl in auto)

section \<open>Sequences that have a cell for themselves\<close>

text \<open>
  The state between the phases. A sequence of \<open>Fr\<close> got an empty cell: its tail names it, while the
  set of the cell is still empty. No sequence changed its position, and the source of the cell of
  a sequence is the cell where its state is.
\<close>

definition parts :: "llama_memory_recurrent \<Rightarrow> llama_memory_recurrent \<Rightarrow> int set \<Rightarrow> bool" where
  "parts m1 m Fr \<longleftrightarrow> rs_size m = rs_size m1 \<and> tails_ok m \<and>
    (\<forall>i < rs_size m. ids_of m i = owners m i - Fr \<and> (owners m i = {} \<longrightarrow> pos_of m i = -1)) \<and>
    (\<forall>t < rs_size m. int t \<in> Fr \<longrightarrow> 0 \<le> tail_of m t \<and> owners m (nat (tail_of m t)) = {int t}) \<and>
    (\<forall>t < rs_size m. rs_pos m t = rs_pos m1 t \<and>
      (0 \<le> tail_of m1 t \<longrightarrow> 0 \<le> tail_of m t \<and> mc_src (rs_cells m ! nat (tail_of m t)) = tail_of m1 t) \<and>
      (0 \<le> tail_of m t \<longrightarrow> 0 \<le> tail_of m1 t \<or> int t \<in> Fr))"

definition home :: "llama_memory_recurrent \<Rightarrow> nat \<Rightarrow> bool" where
  "home m i \<longleftrightarrow> mc_src (rs_cells m ! i) = -1 \<or> mc_src (rs_cells m ! i) = int i"

lemma owner_iff: "t < rs_size m \<Longrightarrow> int t \<in> owners m i \<longleftrightarrow> tail_of m t = int i"
  by (simp add: owners_def)

lemma owners_lt: "x \<in> owners m i \<Longrightarrow> 0 \<le> x \<and> nat x < rs_size m \<and> int (nat x) = x"
  by (auto simp: owners_def)

lemma parts_start:
  assumes "rs_wf m"
  shows "parts m m {}" "i < rs_size m \<Longrightarrow> home m i"
proof -
  have cell: "cell_ok m i" if "i < rs_size m" for i using assms that by (simp add: rs_wf_def)
  have "mc_src (rs_cells m ! nat (tail_of m t)) = tail_of m t" if t: "t < rs_size m" "0 \<le> tail_of m t" for t
  proof -
    have "nat (tail_of m t) < rs_size m" "int t \<in> ids_of m (nat (tail_of m t))" using wf_tail [OF assms t] t by auto
    with cell [OF this(1)] t show ?thesis by (auto simp: cell_ok_def)
  qed
  then show "parts m m {}" using assms cell by (auto simp: parts_def rs_wf_def cell_ok_def)
  show "i < rs_size m \<Longrightarrow> home m i" using cell by (auto simp: cell_ok_def home_def)
qed

lemma all_owned:
  assumes "tails_ok m" "\<And>i. i < rs_size m \<Longrightarrow> owners m i \<noteq> {}" "t < rs_size m"
  shows "0 \<le> tail_of m t" "owners m (nat (tail_of m t)) = {int t}"
proof -
  let ?N = "rs_size m"
  have "int ` {..<?N} \<subseteq> tail_of m ` {..<?N}"
  proof
    fix x assume "x \<in> int ` {..<?N}"
    then obtain i where i: "x = int i" "i < ?N" by auto
    then obtain s where "s \<in> owners m i" using assms(2) by blast
    then show "x \<in> tail_of m ` {..<?N}" using i by (auto simp: owners_def intro!: image_eqI [of _ _ "nat s"])
  qed
  moreover have "card (tail_of m ` {..<?N}) \<le> card (int ` {..<?N})"
    using card_image_le [of "{..<?N}" "tail_of m"] by (simp add: card_image)
  ultimately have eq: "tail_of m ` {..<?N} = int ` {..<?N}"
    by (metis card_seteq finite_imageI finite_lessThan)
  then have "card (tail_of m ` {..<?N}) = card {..<?N}" by (simp add: card_image)
  then have inj: "inj_on (tail_of m) {..<?N}" by (rule eq_card_imp_inj_on [rotated]) simp
  show t: "0 \<le> tail_of m t" using eq assms(3) by (metis imageE image_eqI lessThan_iff of_nat_0_le_iff)
  show "owners m (nat (tail_of m t)) = {int t}"
  proof -
    have "x = int t" if "0 \<le> x" "x < int (rs_size m)" "tail_of m (nat x) = tail_of m t" for x
      using inj_onD [OF inj that(3)] that assms(3) by auto
    then show ?thesis using t assms(3) by (auto simp: owners_def)
  qed
qed

lemma parts_ids:
  assumes m: "parts m1 m Fr" "t < rs_size m" and q: "q \<in> owners m t" "q \<notin> Fr"
  shows "ids_of m t = owners m t"
proof -
  have "x \<notin> Fr" if "x \<in> owners m t" for x
  proof
    assume x: "x \<in> Fr"
    from owners_lt [OF that] have n: "nat x < rs_size m" "int (nat x) = x" by auto
    then have "tail_of m (nat x) = int t" using that owner_iff by metis
    then have "owners m t = {x}" using m(1) x n unfolding parts_def by auto
    then show False using q x by auto
  qed
  then show ?thesis using m by (auto simp: parts_def)
qed

lemma owners_moved:
  assumes "q < rs_size m" "rs_size M = rs_size m" "\<And>s. tail_of M s = (if s = q then int e else tail_of m s)"
  shows "owners M i = (if i = e then insert (int q) (owners m i) else owners m i - {int q})"
proof (rule set_eqI)
  fix x
  consider "x = int q" | "x < 0" | s where "x = int s" "s \<noteq> q"
    by (metis int_nat_eq not_le_imp_less nat_int)
  then show "x \<in> owners M i \<longleftrightarrow> x \<in> (if i = e then insert (int q) (owners m i) else owners m i - {int q})"
    by cases (use assms in \<open>auto simp: owners_def\<close>)
qed

text \<open>The sequence \<open>q\<close> takes the free cell \<open>e\<close>: without a state, or with the state of a shared cell.\<close>

lemma take_new:
  assumes m: "parts m1 m Fr" "q < rs_size m" "\<not> 0 \<le> tail_of m q" and e: "e < rs_size m" "owners m e = {}"
  shows "\<exists>m'. rs_take_cell q e m = Inr m' \<and> parts m1 m' (insert (int q) Fr) \<and> tail_of m' q = int e \<and>
    (\<forall>t. t \<noteq> q \<longrightarrow> tail_of m' t = tail_of m t) \<and> (\<forall>i. home m' i = home m i) \<and> rs_head m' = rs_head m"
proof -
  note p = m(1) [unfolded parts_def]
  let ?m' = "rs_upd q (mc_tail_update (\<lambda>_. int e)) m"
  have empty: "is_empty_cell (rs_cells m ! e)" using p e by (simp add: is_empty_cell_def)
  then have res: "rs_take_cell q e m = Inr ?m'"
    using m(3) e(1) by (simp add: rs_take_cell_def rs_at_ok Let_def)
  have same: "ids_of ?m' i = ids_of m i" "pos_of ?m' i = pos_of m i" "mc_src (rs_cells ?m' ! i) = mc_src (rs_cells m ! i)" for i
    using m(2) by simp_all
  have tail: "tail_of ?m' t = (if t = q then int e else tail_of m t)" for t using m(2) by simp
  have noq: "int q \<notin> owners m i" for i using m(3) by (auto simp: owners_def)
  have own: "owners ?m' i = (if i = e then {int q} else owners m i)" for i
    using owners_moved [OF m(2) rs_size_simps(1) tail, of i] noq [of i] e(2) by simp
  have qFr: "int q \<notin> Fr" using p m(2,3) by auto
  have pos: "rs_pos ?m' t = rs_pos m t" if "t < rs_size m" for t
    using tail [of t] m(3) same p e by (simp add: rs_pos_def del: rs_upd_nth)
  have tl: "tails_ok ?m'" using p tail e by (auto simp: tails_ok_def)
  have fr: "0 \<le> tail_of ?m' t \<and> owners ?m' (nat (tail_of ?m' t)) = {int t}"
    if "t < rs_size m" "int t \<in> insert (int q) Fr" for t
  proof (cases "t = q")
    case False
    then have "0 \<le> tail_of m t" "owners m (nat (tail_of m t)) = {int t}" using p that by auto
    moreover from this have "nat (tail_of m t) \<noteq> e" using e(2) by auto
    ultimately show ?thesis using False own tail by simp
  qed (use own tail in simp)
  have srcs: "0 \<le> tail_of ?m' t \<and> mc_src (rs_cells ?m' ! nat (tail_of ?m' t)) = tail_of m1 t"
    if "t < rs_size m" "0 \<le> tail_of m1 t" for t
    using p that m(3) tail [of t] same(3) by auto
  have ids: "ids_of ?m' i = owners ?m' i - insert (int q) Fr \<and> (owners ?m' i = {} \<longrightarrow> pos_of ?m' i = -1)" if "i < rs_size m" for i
    using p that same own [of i] e noq [of i] by auto
  have backw: "0 \<le> tail_of m1 t \<or> int t \<in> insert (int q) Fr" if "t < rs_size m" "0 \<le> tail_of ?m' t" for t
  proof (cases "t = q")
    case False
    then have "0 \<le> tail_of m t" using that(2) tail [of t] by simp
    then show ?thesis using p that(1) by auto
  qed simp
  have "parts m1 ?m' (insert (int q) Fr)"
    unfolding parts_def using p pos tl fr srcs backw ids by (simp del: rs_upd_nth)
  moreover have "home ?m' i = home m i" for i by (simp add: home_def same del: rs_upd_nth)
  ultimately show ?thesis using res tail by (intro exI [of _ ?m']) (simp del: rs_upd_nth)
qed

lemma take_shared:
  assumes m: "parts m1 m Fr" "q < rs_size m" "0 \<le> tail_of m q" "int q \<notin> Fr" and t: "t = nat (tail_of m q)"
    and c: "card (ids_of m t) \<noteq> 1" and e: "e < rs_size m" "owners m e = {}"
  shows "\<exists>m'. rs_take_cell q e m = Inr m' \<and> parts m1 m' Fr \<and> tail_of m' q = int e \<and> owners m' e = {int q} \<and>
    (\<forall>s. s \<noteq> q \<longrightarrow> tail_of m' s = tail_of m s) \<and> (\<forall>i. i \<noteq> e \<longrightarrow> home m' i = home m i) \<and> rs_head m' = rs_head m"
proof -
  note p = m(1) [unfolded parts_def]
  have tn: "t < rs_size m" using p m(2,3) t by (auto simp: tails_ok_def)
  have qt: "int q \<in> owners m t" using m(2,3) t by (simp add: owner_iff)
  then have te: "t \<noteq> e" using e by auto
  have idt: "ids_of m t = owners m t" by (rule parts_ids [OF m(1) tn qt m(4)])
  have rest: "owners m t - {int q} \<noteq> {}"
  proof
    assume "owners m t - {int q} = {}"
    then have "owners m t = {int q}" using qt by auto
    then show False using c idt by simp
  qed
  let ?x = "rs_upd e (\<lambda>c. c\<lparr>mc_pos := pos_of m t, mc_src := mc_src (rs_cells m ! t), mc_seq_id := {int q}\<rparr>)
      (rs_upd t (mc_seq_id_update (\<lambda>S. S - {int q})) m)"
  let ?m' = "rs_upd q (mc_tail_update (\<lambda>_. int e)) ?x"
  have "is_empty_cell (rs_cells m ! e)" using p e by (simp add: is_empty_cell_def)
  moreover have "ids_of ?x t \<noteq> {}" using tn e te idt rest by simp
  moreover have "rs_at m (tail_of m q) = Inr (rs_cells m ! t)" using rs_at_ok [OF m(3)] tn t by auto
  ultimately have res: "rs_take_cell q e m = Inr ?m'"
    using m(3) e(1) t by (simp add: rs_take_cell_def rs_at_ok Let_def is_empty_cell_def)
  have ids: "ids_of ?m' i = (if i = e then {int q} else if i = t then ids_of m t - {int q} else ids_of m i)" for i
    using m(2) tn e by simp
  have pos: "pos_of ?m' i = (if i = e then pos_of m t else pos_of m i)" for i using m(2) tn e by simp
  have src: "mc_src (rs_cells ?m' ! i) = (if i = e then mc_src (rs_cells m ! t) else mc_src (rs_cells m ! i))" for i
    using m(2) tn e by simp
  have tail: "tail_of ?m' s = (if s = q then int e else tail_of m s)" for s using m(2) tn e by simp
  have size: "rs_size ?m' = rs_size m" by simp
  have head: "rs_head ?m' = rs_head m" by simp
  obtain M where M: "M = ?m'" by blast
  note facts = ids [folded M] pos [folded M] src [folded M] tail [folded M] size [folded M]
  have own: "owners M i = (if i = e then {int q} else owners m i - {int q})" for i
    using owners_moved [OF m(2) facts(5) facts(4), of i] e(2) by simp
  have only: "int q \<in> owners m i \<longleftrightarrow> i = t" for i using m(2,3) t by (auto simp: owner_iff)
  have not_e: "nat (tail_of m s) \<noteq> e" if "s < rs_size m" "0 \<le> tail_of m s" for s
    using e(2) that owner_iff [of s m e] by auto
  have ids_ok: "ids_of M i = owners M i - Fr \<and> (owners M i = {} \<longrightarrow> pos_of M i = -1)" if i: "i < rs_size m" for i
  proof -
    have "ids_of m i = owners m i - Fr" "owners m i = {} \<longrightarrow> pos_of m i = -1" using p i by auto
    then show ?thesis using own [of i] facts(1) [of i] facts(2) [of i] only [of i] rest m(4) by auto
  qed
  have fr: "0 \<le> tail_of M s \<and> owners M (nat (tail_of M s)) = {int s}" if s: "s < rs_size m" "int s \<in> Fr" for s
  proof -
    have "s \<noteq> q" using s m(4) by blast
    then have a: "0 \<le> tail_of m s" "owners m (nat (tail_of m s)) = {int s}" "s \<noteq> q" using p s by simp_all
    moreover have "tail_of M s = tail_of m s" using a(3) facts(4) by simp
    moreover have "owners M (nat (tail_of m s)) = {int s} - {int q}"
      using own [of "nat (tail_of m s)"] not_e [OF s(1) a(1)] a(2) by simp
    ultimately show ?thesis by simp
  qed
  have seq: "rs_pos M s = rs_pos m1 s \<and>
      (0 \<le> tail_of m1 s \<longrightarrow> 0 \<le> tail_of M s \<and> mc_src (rs_cells M ! nat (tail_of M s)) = tail_of m1 s) \<and>
      (0 \<le> tail_of M s \<longrightarrow> 0 \<le> tail_of m1 s \<or> int s \<in> Fr)" if s: "s < rs_size m" for s
  proof -
    have a: "rs_pos m s = rs_pos m1 s"
        "0 \<le> tail_of m1 s \<longrightarrow> 0 \<le> tail_of m s \<and> mc_src (rs_cells m ! nat (tail_of m s)) = tail_of m1 s"
        "0 \<le> tail_of m s \<longrightarrow> 0 \<le> tail_of m1 s \<or> int s \<in> Fr" using p s by auto
    show ?thesis
    proof (cases "s = q")
      case True
      then show ?thesis using a m(3) t facts(2-4) by (simp add: rs_pos_def)
    next
      case False
      then show ?thesis using a not_e [OF s] facts(2-4) by (auto simp: rs_pos_def)
    qed
  qed
  have "tails_ok M" using p e facts by (auto simp: tails_ok_def)
  then have "parts m1 M Fr" unfolding parts_def using p facts(5) ids_ok fr seq by simp
  then show ?thesis using res own [of e] facts head unfolding M [symmetric] by (auto simp: home_def)
qed

section \<open>The search for the next empty cell\<close>

text \<open>The cells are visited in the order \<open>p mod size\<close>, \<open>(p + 1) mod size\<close>, \<open>\<dots>\<close>\<close>

lemma rs_wrap_mod:
  assumes "0 < rs_size m"
  shows "rs_wrap m (p mod rs_size m + 1) = (p + 1) mod rs_size m"
proof -
  have "p mod rs_size m < rs_size m" using assms by simp
  then show ?thesis by (auto simp: rs_wrap_def mod_Suc)
qed

lemma next_walk:
  assumes n: "0 < rs_size m"
  shows "\<exists>q \<ge> p. q \<le> p + k \<and> rs_next_empty k (p mod rs_size m) m = q mod rs_size m \<and>
    (\<forall>r. p < r \<and> r < q \<longrightarrow> ids_of m (r mod rs_size m) \<noteq> {}) \<and> (q = p + k \<or> p < q \<and> ids_of m (q mod rs_size m) = {})"
proof (induction k arbitrary: p)
  case (Suc k)
  show ?case
  proof (cases "ids_of m ((p + 1) mod rs_size m) = {}")
    case True
    then show ?thesis using rs_wrap_mod [OF n, of p]
      by (intro exI [of _ "p + 1"]) (auto simp: is_empty_cell_def Let_def)
  next
    case False
    from Suc.IH [of "p + 1"] obtain q where q: "p + 1 \<le> q" "q \<le> p + 1 + k"
      "rs_next_empty k ((p + 1) mod rs_size m) m = q mod rs_size m"
      "\<forall>r. p + 1 < r \<and> r < q \<longrightarrow> ids_of m (r mod rs_size m) \<noteq> {}"
      "q = p + 1 + k \<or> p + 1 < q \<and> ids_of m (q mod rs_size m) = {}" by blast
    have "ids_of m (r mod rs_size m) \<noteq> {}" if "p < r \<and> r < q" for r
      using q(4) False that by (cases "r = p + 1") auto
    then show ?thesis using q False rs_wrap_mod [OF n, of p]
      by (intro exI [of _ q]) (auto simp: is_empty_cell_def Let_def)
  qed
qed (auto intro: exI [of _ p])

lemma first_walk:
  assumes n: "0 < rs_size m"
  shows "rs_wrap m e = p mod rs_size m \<Longrightarrow>
    (\<exists>q \<ge> p. q < p + k \<and> rs_first_empty k e m = q mod rs_size m \<and> ids_of m (q mod rs_size m) = {} \<and>
      (\<forall>r. p \<le> r \<and> r < q \<longrightarrow> ids_of m (r mod rs_size m) \<noteq> {})) \<or>
    (\<forall>r. p \<le> r \<and> r < p + k \<longrightarrow> ids_of m (r mod rs_size m) \<noteq> {})"
proof (induction k arbitrary: e p)
  case (Suc k)
  show ?case
  proof (cases "ids_of m (p mod rs_size m) = {}")
    case True
    then have "rs_first_empty (Suc k) e m = p mod rs_size m"
      using Suc.prems by (simp add: is_empty_cell_def Let_def)
    then show ?thesis using True by (intro disjI1 exI [of _ p]) auto
  next
    case False
    have step: "rs_first_empty (Suc k) e m = rs_first_empty k (p mod rs_size m + 1) m"
      using Suc.prems False by (simp add: is_empty_cell_def Let_def)
    have more: "ids_of m (r mod rs_size m) \<noteq> {}"
      if "p \<le> r" "p + 1 \<le> r \<longrightarrow> ids_of m (r mod rs_size m) \<noteq> {}" for r
      using that False by (cases "r = p") auto
    from Suc.IH [of "p mod rs_size m + 1" "p + 1"] rs_wrap_mod [OF n, of p] consider
      q where "p + 1 \<le> q" "q < p + 1 + k" "rs_first_empty k (p mod rs_size m + 1) m = q mod rs_size m"
        "ids_of m (q mod rs_size m) = {}" "\<forall>r. p + 1 \<le> r \<and> r < q \<longrightarrow> ids_of m (r mod rs_size m) \<noteq> {}"
      | "\<forall>r. p + 1 \<le> r \<and> r < p + 1 + k \<longrightarrow> ids_of m (r mod rs_size m) \<noteq> {}" by blast
    then show ?thesis
    proof cases
      case 1
      then show ?thesis using more step by (intro disjI1 exI [of _ q]) auto
    next
      case 2
      then show ?thesis using more by (intro disjI2) auto
    qed
  qed
qed auto

text \<open>
  What the search knows: there is no free cell, or the next one is free and all cells that
  were visited before, those of \<open>Fr\<close> among them, have an owner.
\<close>

definition search_ok :: "llama_memory_recurrent \<Rightarrow> nat \<Rightarrow> int set \<Rightarrow> nat \<Rightarrow> bool" where
  "search_ok m h Fr e \<longleftrightarrow> (\<forall>i < rs_size m. owners m i \<noteq> {}) \<or>
    (\<exists>p. h \<le> p \<and> p < h + rs_size m \<and> e = p mod rs_size m \<and> owners m e = {} \<and>
      (\<forall>r. h \<le> r \<and> r < p \<longrightarrow> owners m (r mod rs_size m) \<noteq> {}) \<and>
      (\<forall>t < rs_size m. int t \<in> Fr \<longrightarrow> (\<exists>r. h \<le> r \<and> r < p \<and> tail_of m t = int (r mod rs_size m))))"

lemma cycle_index:
  assumes "0 < n" "i < n"
  shows "\<exists>r. h \<le> r \<and> r < h + n \<and> r mod n = (i::nat)"
proof -
  let ?r = "h + (i + n - h mod n) mod n"
  have "?r mod n = (h mod n + (i + n - h mod n)) mod n" by (simp add: mod_add_eq mod_simps)
  also have "h mod n + (i + n - h mod n) = i + n" using mod_less_divisor [OF assms(1), of h] by simp
  also have "(i + n) mod n = i" using assms(2) by simp
  finally show ?thesis using assms by (intro exI [of _ ?r]) auto
qed

lemma parts_owned: "parts m1 m Fr \<Longrightarrow> i < rs_size m \<Longrightarrow> ids_of m i \<noteq> {} \<Longrightarrow> owners m i \<noteq> {}"
  by (auto simp: parts_def)

lemma search_first:
  assumes m: "parts m1 m {}" and h: "h < rs_size m"
  shows "search_ok m h {} (rs_first_empty (rs_size m) h m)"
proof -
  have n: "0 < rs_size m" using h by simp
  then have lt: "r mod rs_size m < rs_size m" for r by simp
  have ids: "ids_of m i = owners m i" if "i < rs_size m" for i using m that by (simp add: parts_def)
  have "rs_wrap m h = h mod rs_size m" using h by (simp add: rs_wrap_def)
  from first_walk [OF n this, of "rs_size m"] show ?thesis
  proof
    assume "\<exists>q\<ge>h. q < h + rs_size m \<and> rs_first_empty (rs_size m) h m = q mod rs_size m \<and> ids_of m (q mod rs_size m) = {} \<and>
      (\<forall>r. h \<le> r \<and> r < q \<longrightarrow> ids_of m (r mod rs_size m) \<noteq> {})"
    then show ?thesis unfolding search_ok_def using ids [OF lt] by (intro disjI2) auto
  next
    assume all: "\<forall>r. h \<le> r \<and> r < h + rs_size m \<longrightarrow> ids_of m (r mod rs_size m) \<noteq> {}"
    have "owners m i \<noteq> {}" if i: "i < rs_size m" for i
      using cycle_index [OF n i, of h] all ids [OF i] by auto
    then show ?thesis unfolding search_ok_def by blast
  qed
qed

lemma search_next:
  assumes m: "parts m1 m' Fr'" and n: "0 < rs_size m'" and p: "h \<le> p" "p < h + rs_size m'"
    and own: "\<And>r. h \<le> r \<Longrightarrow> r \<le> p \<Longrightarrow> owners m' (r mod rs_size m') \<noteq> {}"
    and fr: "\<And>t. t < rs_size m' \<Longrightarrow> int t \<in> Fr' \<Longrightarrow> \<exists>r. h \<le> r \<and> r \<le> p \<and> tail_of m' t = int (r mod rs_size m')"
  shows "search_ok m' h Fr' (rs_next_empty (rs_size m') (p mod rs_size m') m')"
proof -
  let ?n = "rs_size m'"
  have lt: "r mod ?n < ?n" for r using n by simp
  from next_walk [OF n, of p ?n] obtain q where q: "p \<le> q" "q \<le> p + ?n" "rs_next_empty ?n (p mod ?n) m' = q mod ?n"
    "\<forall>r. p < r \<and> r < q \<longrightarrow> ids_of m' (r mod ?n) \<noteq> {}" "q = p + ?n \<or> p < q \<and> ids_of m' (q mod ?n) = {}" by blast
  have before: "owners m' (r mod ?n) \<noteq> {}" if "h \<le> r" "r < q" for r
  proof (cases "r \<le> p")
    case False
    then show ?thesis using q(4) that parts_owned [OF m lt] by auto
  qed (use own that in auto)
  show ?thesis
  proof (cases "q < h + ?n \<and> owners m' (q mod ?n) = {}")
    case True
    have "p < q" using True q(1) own [of q] p(1) by (cases "q = p") auto
    then have "\<exists>r. h \<le> r \<and> r < q \<and> tail_of m' t = int (r mod ?n)" if "t < ?n" "int t \<in> Fr'" for t
      using fr [OF that] by (meson le_less_trans)
    then show ?thesis
      unfolding search_ok_def using True q before p by (intro disjI2 exI [of _ q]) auto
  next
    case False
    have "h + ?n \<le> q"
    proof (rule ccontr)
      assume less: "\<not> h + ?n \<le> q"
      then have q': "p < q" "ids_of m' (q mod ?n) = {}" "owners m' (q mod ?n) \<noteq> {}" using q(5) p False by auto
      then obtain x where x: "x \<in> owners m' (q mod ?n)" "x \<in> Fr'" using m lt [of q] by (auto simp: parts_def)
      from owners_lt [OF x(1)] have nx: "nat x < ?n" "int (nat x) = x" by auto
      then have "tail_of m' (nat x) = int (q mod ?n)" using x(1) owner_iff by metis
      with fr [of "nat x"] nx x(2) obtain r where r: "h \<le> r" "r \<le> p" "r mod ?n = q mod ?n" by auto
      then have "?n dvd q - r" using q'(1) mod_eq_dvd_iff_nat by (metis le_trans less_imp_le)
      then have "?n \<le> q - r" using r(2) q'(1) by (intro dvd_imp_le) auto
      then show False using less r(1) n by linarith
    qed
    then have "owners m' i \<noteq> {}" if i: "i < ?n" for i
      using cycle_index [OF n i, of h] before by auto
    then show ?thesis unfolding search_ok_def by blast
  qed
qed

section \<open>A cell for the first sequence of every set\<close>

definition assigned :: "llama_memory_recurrent \<Rightarrow> nat set \<Rightarrow> int \<Rightarrow> int \<Rightarrow> int set \<Rightarrow> llama_memory_recurrent \<Rightarrow> bool" where
  "assigned m1 D mn mx Fr m \<longleftrightarrow> parts m1 m Fr \<and> Fr \<subseteq> int ` D \<and> 0 \<le> mn \<and> mx < int (rs_size m) \<and>
    (\<forall>x \<in> D. 0 \<le> tail_of m x \<and> owners m (nat (tail_of m x)) = {int x} \<and> mn \<le> tail_of m x \<and> tail_of m x \<le> mx) \<and>
    (\<forall>i < rs_size m. home m i \<or> (\<exists>x \<in> D. tail_of m x = int i))"

lemma assigned_add:
  assumes a: "assigned m1 D mn mx Fr m" and p: "parts m1 m' Fr'" "Fr' \<subseteq> int ` insert q D"
    and q: "q < rs_size m'" "0 \<le> tail_of m' q" "owners m' (nat (tail_of m' q)) = {int q}"
    and t: "\<And>x. x \<in> D \<Longrightarrow> tail_of m' x = tail_of m x \<and> owners m' (nat (tail_of m x)) = {int x}"
    and h: "\<And>i. i < rs_size m' \<Longrightarrow> int i \<noteq> tail_of m' q \<Longrightarrow> home m' i = home m i"
  shows "assigned m1 (insert q D) (min mn (tail_of m' q)) (max mx (tail_of m' q)) Fr' m'"
proof -
  have size: "rs_size m' = rs_size m" using a p(1) by (simp add: assigned_def parts_def)
  have tl: "tail_of m' q < int (rs_size m')" using p(1) q(1) by (auto simp: parts_def tails_ok_def)
  have each: "0 \<le> tail_of m' x \<and> owners m' (nat (tail_of m' x)) = {int x} \<and> min mn (tail_of m' q) \<le> tail_of m' x \<and>
      tail_of m' x \<le> max mx (tail_of m' q)" if x: "x \<in> insert q D" for x
  proof (cases "x = q")
    case False
    then have d: "x \<in> D" using x by blast
    then have "0 \<le> tail_of m x" "mn \<le> tail_of m x" "tail_of m x \<le> mx" using a by (auto simp: assigned_def)
    then show ?thesis using t [OF d] by auto
  qed (use q in simp)
  have homes: "home m' i \<or> (\<exists>x \<in> insert q D. tail_of m' x = int i)" if i: "i < rs_size m'" for i
  proof (cases "int i = tail_of m' q")
    case False
    have "home m i \<or> (\<exists>x \<in> D. tail_of m x = int i)" using a i size by (auto simp: assigned_def)
    then show ?thesis using h [OF i False] t by auto
  qed auto
  have "0 \<le> mn" "mx < int (rs_size m')" using a size by (auto simp: assigned_def)
  then show ?thesis unfolding assigned_def using p q(2) tl each homes by auto
qed

text \<open>Taking the next empty cell, and looking for another one.\<close>

lemma search_taken:
  assumes m: "parts m1 m Fr" and s: "search_ok m h Fr e" and e: "\<exists>i < rs_size m. owners m i = {}"
    and p: "parts m1 m' Fr'" "Fr' \<subseteq> insert (int q) Fr" and t: "tail_of m' q = int e" "\<And>t. t \<noteq> q \<Longrightarrow> tail_of m' t = tail_of m t"
    and q: "q < rs_size m" and keep: "\<And>i. i \<noteq> e \<Longrightarrow> owners m i \<noteq> {} \<Longrightarrow> owners m' i \<noteq> {}"
  shows "search_ok m' h Fr' (rs_next_empty (rs_size m') e m')"
proof -
  have size: "rs_size m' = rs_size m" using m p(1) by (simp add: parts_def)
  obtain r where r: "h \<le> r" "r < h + rs_size m" "e = r mod rs_size m" "owners m e = {}"
      "\<forall>k. h \<le> k \<and> k < r \<longrightarrow> owners m (k mod rs_size m) \<noteq> {}"
      "\<forall>t < rs_size m. int t \<in> Fr \<longrightarrow> (\<exists>k. h \<le> k \<and> k < r \<and> tail_of m t = int (k mod rs_size m))"
    using s e unfolding search_ok_def by blast
  have n: "0 < rs_size m" using q by simp
  have "int q \<in> owners m' e" using t(1) q size by (simp add: owner_iff)
  then have own: "owners m' (k mod rs_size m) \<noteq> {}" if "h \<le> k" "k \<le> r" for k
    using that keep [of "k mod rs_size m"] r(3,5) by (cases "k = r"; cases "k mod rs_size m = e") auto
  have fr: "\<exists>k. h \<le> k \<and> k \<le> r \<and> tail_of m' x = int (k mod rs_size m)" if x: "x < rs_size m" "int x \<in> Fr'" for x
  proof (cases "x = q")
    case True
    then show ?thesis using t(1) r(1,3) by auto
  next
    case False
    then have "int x \<in> Fr" using x(2) p(2) by auto
    then show ?thesis using r(6) x(1) t(2) [OF False] less_imp_le by metis
  qed
  show ?thesis
    using search_next [OF p(1), of h r] n r(1-3) own fr size by simp
qed

lemma assign_step_ok:
  assumes a: "assigned m1 D mn mx Fr m" and s: "search_ok m h Fr e" and q: "q < rs_size m" "q \<notin> D"
  shows "\<exists>e' m' Fr'. rs_assign_step n k q (e, mn, mx, m) = Inr (e', min mn (tail_of m' q), max mx (tail_of m' q), m') \<and>
    assigned m1 (insert q D) (min mn (tail_of m' q)) (max mx (tail_of m' q)) Fr' m' \<and> rs_head m' = rs_head m \<and>
    (k + 1 < n \<longrightarrow> search_ok m' h Fr' e')"
proof -
  have m: "parts m1 m Fr" "Fr \<subseteq> int ` D" using a by (simp_all add: assigned_def)
  note p = m(1) [unfolded parts_def]
  have qFr: "int q \<notin> Fr" using m(2) q(2) by auto
  have mm: "(if mn > t then t else mn) = min mn t" "(if mx < t then t else mx) = max mx t" for t :: int by auto
  have dt: "x < rs_size m \<and> tail_of m x < int (rs_size m)" if "x \<in> D" for x
  proof -
    have "int x \<in> owners m (nat (tail_of m x))" using a that by (auto simp: assigned_def)
    then have "x < rs_size m" using owners_lt by force
    then show ?thesis using p by (auto simp: tails_ok_def)
  qed
  let ?t = "nat (tail_of m q)"
  have tn: "?t < rs_size m" "int q \<in> owners m ?t" "rs_at m (tail_of m q) = Inr (rs_cells m ! ?t)" if "0 \<le> tail_of m q"
    using p q(1) that rs_at_ok [OF that] by (auto simp: tails_ok_def owner_iff)
  have ids: "ids_of m ?t = owners m ?t" if "0 \<le> tail_of m q"
    by (rule parts_ids [OF m(1) tn(1) tn(2) qFr]) (use that in simp_all)
  show ?thesis
  proof (cases "0 \<le> tail_of m q \<and> card (ids_of m ?t) = 1")
    case True
    then have "owners m ?t = {int q}" using ids tn(2) by (auto simp: card_1_singleton_iff)
    then have "assigned m1 (insert q D) (min mn (tail_of m q)) (max mx (tail_of m q)) Fr m"
      by (intro assigned_add [OF a m(1)]) (use True q m(2) a in \<open>auto simp: assigned_def\<close>)
    moreover have "rs_assign_step n k q (e, mn, mx, m) = Inr (e, min mn (tail_of m q), max mx (tail_of m q), m)"
      using True tn ids mm by (simp add: rs_assign_step_def Let_def)
    ultimately show ?thesis using s by blast
  next
    case no: False
    have free: "\<exists>i < rs_size m. owners m i = {}"
    proof (rule ccontr)
      assume "\<not> ?thesis"
      then have "0 \<le> tail_of m q" "owners m ?t = {int q}" using all_owned [of m q] p q(1) by auto
      then show False using no ids by simp
    qed
    then have e: "e < rs_size m" "owners m e = {}" using s unfolding search_ok_def by auto
    have taken: "\<exists>m' Fr'. rs_take_cell q e m = Inr m' \<and> parts m1 m' Fr' \<and> Fr' \<subseteq> insert (int q) Fr \<and> tail_of m' q = int e \<and>
        (\<forall>t. t \<noteq> q \<longrightarrow> tail_of m' t = tail_of m t) \<and> (\<forall>i. i \<noteq> e \<longrightarrow> home m' i = home m i) \<and> rs_head m' = rs_head m"
    proof (cases "0 \<le> tail_of m q")
      case True
      then show ?thesis using take_shared [OF m(1) q(1) True qFr refl _ e] no by blast
    next
      case False
      then show ?thesis using take_new [OF m(1) q(1) False e] by blast
    qed
    then obtain m' Fr' where m': "rs_take_cell q e m = Inr m'" "parts m1 m' Fr'" "Fr' \<subseteq> insert (int q) Fr" "tail_of m' q = int e"
        "\<And>t. t \<noteq> q \<Longrightarrow> tail_of m' t = tail_of m t" "\<And>i. i \<noteq> e \<Longrightarrow> home m' i = home m i" "rs_head m' = rs_head m" by blast
    have size: "rs_size m' = rs_size m" using m'(2) p by (simp add: parts_def)
    have "tail_of m' t = (if t = q then int e else tail_of m t)" for t using m'(4,5) by simp
    from owners_moved [OF q(1) size this] have own: "owners m' i = (if i = e then {int q} else owners m i - {int q})" for i
      using e(2) by simp
    have keep: "owners m' i \<noteq> {}" if i: "i \<noteq> e" "owners m i \<noteq> {}" for i
    proof (cases "int q \<in> owners m i")
      case True
      then have "tail_of m q = int i" using q(1) by (simp add: owner_iff)
      then have c: "card (owners m i) \<noteq> 1" using no ids by simp
      have "owners m i \<noteq> {int q}"
      proof
        assume "owners m i = {int q}"
        then show False using c by simp
      qed
      then show ?thesis using own [of i] i by auto
    qed (use own i in auto)
    have step: "rs_assign_step n k q (e, mn, mx, m) =
        Inr (if k + 1 < n then rs_next_empty (rs_size m') e m' else e, min mn (tail_of m' q), max mx (tail_of m' q), m')"
      using no tn ids mm m'(1) by (auto simp: rs_assign_step_def Let_def)
    have "search_ok m' h Fr' (rs_next_empty (rs_size m') e m')"
      using search_taken [OF m(1) s free m'(2,3,4,5) q(1) keep] .
    moreover have "assigned m1 (insert q D) (min mn (tail_of m' q)) (max mx (tail_of m' q)) Fr' m'"
    proof (rule assigned_add [OF a m'(2)])
      show "Fr' \<subseteq> int ` insert q D" using m'(3) m(2) by auto
      show "owners m' (nat (tail_of m' q)) = {int q}" using own m'(4) by simp
      fix x assume x: "x \<in> D"
      then have xq: "x \<noteq> q" "owners m (nat (tail_of m x)) = {int x}" using q(2) a by (auto simp: assigned_def)
      then have "nat (tail_of m x) \<noteq> e" using e(2) by auto
      then show "tail_of m' x = tail_of m x \<and> owners m' (nat (tail_of m x)) = {int x}"
        using own [of "nat (tail_of m x)"] xq m'(5) by simp
    qed (use q(1) size m' in auto)
    ultimately show ?thesis using step m'(7)
      by (intro exI [of _ "if k + 1 < n then rs_next_empty (rs_size m') e m' else e"] exI [of _ m'] exI [of _ Fr']) simp
  qed
qed

definition first_id :: "llama_ubatch \<Rightarrow> nat \<Rightarrow> nat" where
  "first_id ub s = ub_seq_id ub ! (s * ub_n_seq_tokens ub) ! 0"

lemma assign_ok:
  assumes n: "n = ub_n_seqs ub" and inj: "inj_on (first_id ub) {0..<n}" and lt: "\<And>s. s < n \<Longrightarrow> first_id ub s < N"
  shows "k \<le> n \<Longrightarrow> rs_size m = N \<Longrightarrow> assigned m1 (first_id ub ` {0..<k}) mn mx Fr m \<Longrightarrow> (k < n \<longrightarrow> search_ok m h Fr e) \<Longrightarrow>
    \<exists>e' mn' mx' m' Fr'. rs_assign ub [k..<n] (e, mn, mx, m) = Inr (e', mn', mx', m') \<and>
      assigned m1 (first_id ub ` {0..<n}) mn' mx' Fr' m'"
proof (induction "n - k" arbitrary: k mn mx Fr m e)
  case (Suc d)
  let ?q = "first_id ub k"
  have k: "k < n" using Suc.hyps(2) by simp
  have "first_id ub s \<noteq> ?q" if "s < k" for s
    using inj_onD [OF inj, of s k] k that by auto
  then have "?q \<notin> first_id ub ` {0..<k}" by fastforce
  moreover have "?q < rs_size m" using lt [OF k] unfolding Suc.prems(2) .
  ultimately have q: "?q < rs_size m" "?q \<notin> first_id ub ` {0..<k}" by blast+
  have "search_ok m h Fr e" using Suc.prems(4) k by blast
  from assign_step_ok [OF Suc.prems(3) this q, of n k] obtain e' m' Fr' where s:
    "rs_assign_step n k ?q (e, mn, mx, m) = Inr (e', min mn (tail_of m' ?q), max mx (tail_of m' ?q), m')"
    "assigned m1 (insert ?q (first_id ub ` {0..<k})) (min mn (tail_of m' ?q)) (max mx (tail_of m' ?q)) Fr' m'"
    "k + 1 < n \<longrightarrow> search_ok m' h Fr' e'" by blast
  have D: "insert ?q (first_id ub ` {0..<k}) = first_id ub ` {0..<k + 1}"
    by (simp add: atLeast0_lessThan_Suc)
  have size: "rs_size m' = N" using s(2) Suc.prems(2,3) by (simp add: assigned_def parts_def)
  have "d = n - (k + 1)" "k + 1 \<le> n" using Suc.hyps(2) k by simp_all
  from Suc.hyps(1) [OF this size s(2) [unfolded D] s(3)] obtain e'' mn' mx' m'' Fr'' where
    "rs_assign ub [k + 1..<n] (e', min mn (tail_of m' ?q), max mx (tail_of m' ?q), m') = Inr (e'', mn', mx', m'')"
    "assigned m1 (first_id ub ` {0..<n}) mn' mx' Fr'' m''" by blast
  then show ?case using s(1) k by (auto simp: upt_conv_Cons n [symmetric] first_id_def [symmetric])
qed auto

section \<open>Gathering the cells\<close>

lemma rs_each_upt:
  assumes "\<And>k m. k < n \<Longrightarrow> P k m \<Longrightarrow> \<exists>m'. f k m = Inr m' \<and> P (Suc k) m'"
  shows "k \<le> n \<Longrightarrow> P k m \<Longrightarrow> \<exists>m'. rs_each f [k..<n] m = Inr m' \<and> P n m'"
proof (induction "n - k" arbitrary: k m)
  case (Suc d)
  then have k: "k < n" by simp
  obtain x where x: "f k m = Inr x" "P (Suc k) x" using assms [OF k Suc.prems(2)] by blast
  have "d = n - Suc k" "Suc k \<le> n" using Suc.hyps(2) k by simp_all
  from Suc.hyps(1) [OF this x(2)] show ?case using x(1) k by (simp add: upt_conv_Cons)
qed simp

text \<open>The first \<open>k\<close> sets are in their places, the others are in cells of the range.\<close>

definition gathered :: "llama_ubatch \<Rightarrow> llama_memory_recurrent \<Rightarrow> nat \<Rightarrow> int \<Rightarrow> int \<Rightarrow> int set \<Rightarrow> llama_memory_recurrent \<Rightarrow> bool" where
  "gathered ub m1 k mn mx Fr m \<longleftrightarrow> parts m1 m Fr \<and> Fr \<subseteq> int ` first_id ub ` {0..<ub_n_seqs ub} \<and> 0 \<le> mn \<and>
    mx < int (rs_size m) \<and> mn + int (ub_n_seqs ub) \<le> mx + 1 \<and>
    (\<forall>s < ub_n_seqs ub. mn \<le> tail_of m (first_id ub s) \<and> tail_of m (first_id ub s) \<le> mx \<and>
      owners m (nat (tail_of m (first_id ub s))) = {int (first_id ub s)}) \<and>
    (\<forall>s < k. tail_of m (first_id ub s) = mn + int s) \<and>
    (\<forall>i < rs_size m. int i < mn \<or> mx < int i \<longrightarrow> home m i)"

lemma gathered_start:
  assumes a: "assigned m1 (first_id ub ` {0..<ub_n_seqs ub}) mn mx Fr m" and inj: "inj_on (first_id ub) {0..<ub_n_seqs ub}"
    and pos: "0 < ub_n_seqs ub"
  shows "gathered ub m1 0 mn mx Fr m"
proof -
  let ?n = "ub_n_seqs ub"
  let ?f = "\<lambda>s. tail_of m (first_id ub s)"
  have each: "0 \<le> ?f s \<and> owners m (nat (?f s)) = {int (first_id ub s)} \<and> mn \<le> ?f s \<and> ?f s \<le> mx" if "s < ?n" for s
    using a that by (auto simp: assigned_def)
  have "inj_on ?f {0..<?n}"
  proof (rule inj_onI)
    fix x y assume "x \<in> {0..<?n}" "y \<in> {0..<?n}" "?f x = ?f y"
    then have xy: "x < ?n" "y < ?n" "x \<in> {0..<?n}" "y \<in> {0..<?n}" "?f x = ?f y" by simp_all
    have "owners m (nat (?f x)) = {int (first_id ub x)}" using each [OF xy(1)] by blast
    moreover have "owners m (nat (?f y)) = {int (first_id ub y)}" using each [OF xy(2)] by blast
    ultimately have "{int (first_id ub x)} = {int (first_id ub y)}" unfolding xy(5) by (rule trans [OF sym])
    then have "first_id ub x = first_id ub y" by simp
    then show "x = y" using inj_onD [OF inj _ xy(3,4)] by blast
  qed
  moreover have "?f ` {0..<?n} \<subseteq> {mn..mx}" using each by auto
  ultimately have "card {0..<?n} \<le> card {mn..mx}" by (rule card_inj_on_le) simp
  then have n: "mn + int ?n \<le> mx + 1" using pos by auto
  have out: "home m i" if i: "i < rs_size m" "int i < mn \<or> mx < int i" for i
  proof -
    have "home m i \<or> (\<exists>x \<in> first_id ub ` {0..<?n}. tail_of m x = int i)" using a i(1) by (auto simp: assigned_def)
    then show ?thesis using each i(2) by force
  qed
  show ?thesis unfolding gathered_def using a each out n by (auto simp: assigned_def)
qed

lemma swap_cells:
  fixes d c :: nat
  defines "other i \<equiv> if i = c then d else if i = d then c else i"
    and "other_tail x \<equiv> if x = int c then int d else if x = int d then int c else x"
  assumes lt: "d < rs_size m" "c < rs_size m" and m': "m' = rs_swap_cells d c m"
  shows "rs_size m' = rs_size m" "rs_head m' = rs_head m"
    "t < rs_size m \<Longrightarrow> tail_of m' t = other_tail (tail_of m t)"
    "i < rs_size m \<Longrightarrow> ids_of m' i = ids_of m (other i) \<and> pos_of m' i = pos_of m (other i) \<and>
       mc_src (rs_cells m' ! i) = mc_src (rs_cells m ! other i)"
    "owners m' i = owners m (other i)"
proof -
  show size: "rs_size m' = rs_size m" and "rs_head m' = rs_head m"
    by (simp_all add: m' rs_swap_cells_def Let_def rs_size_def rs_upd_def)
  have cells: "rs_cells m' ! t = mc_tail_update (\<lambda>_. other_tail (tail_of m t)) (rs_cells m ! t)
      \<lparr>mc_pos := pos_of m (other t), mc_src := mc_src (rs_cells m ! other t), mc_seq_id := ids_of m (other t)\<rparr>"
    if "t < rs_size m" for t
    using that lt
    by (auto simp: m' rs_swap_cells_def Let_def rs_size_def rs_upd_def nth_list_update other_def other_tail_def)
  then show tail: "t < rs_size m \<Longrightarrow> tail_of m' t = other_tail (tail_of m t)" for t by simp
  show "i < rs_size m \<Longrightarrow> ids_of m' i = ids_of m (other i) \<and> pos_of m' i = pos_of m (other i) \<and>
       mc_src (rs_cells m' ! i) = mc_src (rs_cells m ! other i)" using cells by simp
  have "other_tail x = int i \<longleftrightarrow> x = int (other i)" for x by (auto simp: other_tail_def other_def)
  then show "owners m' i = owners m (other i)" using tail size by (auto simp: owners_def)
qed

lemma parts_swap:
  assumes p: "parts m1 m Fr" and lt: "d < rs_size m" "c < rs_size m"
  shows "parts m1 (rs_swap_cells d c m) Fr"
proof -
  obtain m' where m': "m' = rs_swap_cells d c m" by blast
  note sw = swap_cells [OF lt m']
  obtain g where g: "g = (\<lambda>i. if i = c then d else if i = d then c else i)" by blast
  obtain h where h: "h = (\<lambda>t. if t = int c then int d else if t = int d then int c else t)" by blast
  note swg = sw [folded fun_cong [OF g] fun_cong [OF h]]
  note P = p [unfolded parts_def]
  have gh: "nat (h t) = g (nat t)" "g (g (nat t)) = nat t" "0 \<le> h t" if "0 \<le> t" for t
    using that by (auto simp: g h)
  have h0: "0 \<le> h t \<longleftrightarrow> 0 \<le> t" "h t = t \<or> 0 \<le> t" for t by (auto simp: h)
  have glt: "g i < rs_size m" if "i < rs_size m" for i using that lt by (auto simp: g)
  have tl: "tails_ok m'"
    unfolding tails_ok_def swg(1)
  proof (intro allI impI)
    fix s assume s: "s < rs_size m"
    then have "-1 \<le> tail_of m s" "tail_of m s < int (rs_size m)" using P by (auto simp: tails_ok_def)
    then show "-1 \<le> tail_of m' s \<and> tail_of m' s < int (rs_size m)"
      unfolding swg(3) [OF s] using lt by (auto simp: h)
  qed
  have ids: "ids_of m' i = owners m' i - Fr \<and> (owners m' i = {} \<longrightarrow> pos_of m' i = -1)" if "i < rs_size m" for i
    using P glt [OF that] swg(4) [OF that] swg(5) by simp
  have fr: "0 \<le> tail_of m' t \<and> owners m' (nat (tail_of m' t)) = {int t}" if t: "t < rs_size m" "int t \<in> Fr" for t
  proof -
    have "0 \<le> tail_of m t" "owners m (nat (tail_of m t)) = {int t}" using P t by auto
    then show ?thesis unfolding swg(3) [OF t(1)] using gh swg(5) by simp
  qed
  have seq: "rs_pos m' t = rs_pos m t \<and> (0 \<le> tail_of m' t \<longleftrightarrow> 0 \<le> tail_of m t) \<and>
      (0 \<le> tail_of m t \<longrightarrow> mc_src (rs_cells m' ! nat (tail_of m' t)) = mc_src (rs_cells m ! nat (tail_of m t)))"
    if t: "t < rs_size m" for t
  proof (cases "0 \<le> tail_of m t")
    case True
    then have "nat (tail_of m t) < rs_size m" using P t by (auto simp: tails_ok_def)
    then have "g (nat (tail_of m t)) < rs_size m" by (rule glt)
    from swg(4) [OF this] have "pos_of m' (nat (tail_of m' t)) = pos_of m (nat (tail_of m t))"
        "mc_src (rs_cells m' ! nat (tail_of m' t)) = mc_src (rs_cells m ! nat (tail_of m t))"
      unfolding swg(3) [OF t] gh(1) [OF True] using gh(2) [OF True] by simp_all
    moreover have "0 \<le> tail_of m' t" unfolding swg(3) [OF t] by (rule gh(3) [OF True])
    ultimately show ?thesis using True by (simp add: rs_pos_def)
  next
    case False
    then have "tail_of m' t < 0" unfolding swg(3) [OF t] using h0(1) [of "tail_of m t"] by simp
    then show ?thesis using False by (simp add: rs_pos_def)
  qed
  have "parts m1 m' Fr" unfolding parts_def using P swg(1) tl ids fr seq by simp
  then show ?thesis by (simp add: m')
qed

lemma gather_step:
  assumes g: "gathered ub m1 k mn mx Fr m" and k: "k < ub_n_seqs ub"
    and inj: "inj_on (first_id ub) {0..<ub_n_seqs ub}"
  shows "\<exists>m'. rs_gather_step ub mn k m = Inr m' \<and> gathered ub m1 (Suc k) mn mx Fr m'"
proof -
  let ?f = "\<lambda>s. tail_of m (first_id ub s)"
  note G = g [unfolded gathered_def]
  have lt: "0 \<le> mn" "mx < int (rs_size m)" "mn + int (ub_n_seqs ub) \<le> mx + 1" using G by simp_all
  have each: "mn \<le> ?f s" "?f s \<le> mx" "owners m (nat (?f s)) = {int (first_id ub s)}" if "s < ub_n_seqs ub" for s
    using G that by simp_all
  have fs: "first_id ub s < rs_size m" if "s < ub_n_seqs ub" for s
    using owners_lt [of "int (first_id ub s)" m "nat (?f s)"] each [OF that] by simp
  show ?thesis
  proof (cases "?f k = mn + int k")
    case True
    then have "rs_gather_step ub mn k m = Inr m"
      by (simp add: rs_gather_step_def Let_def first_id_def)
    moreover have "gathered ub m1 (Suc k) mn mx Fr m" using G True by (auto simp: gathered_def less_Suc_eq)
    ultimately show ?thesis by blast
  next
    case False
    let ?d = "nat (mn + int k)"
    let ?c = "nat (?f k)"
    have d: "0 \<le> mn + int k" "mn + int k \<le> mx" "int ?d = mn + int k" "?d < rs_size m" using lt k by auto
    have c: "0 \<le> ?f k" "?f k < int (rs_size m)" "int ?c = ?f k" "?c < rs_size m" using lt each [OF k] by auto
    obtain m' where m': "m' = rs_swap_cells ?d ?c m" by blast
    have res: "rs_gather_step ub mn k m = Inr m'"
      using False rs_at_ok [OF d(1)] rs_at_ok [OF c(1,2)] d(2) lt(2)
      by (simp add: rs_gather_step_def Let_def first_id_def [symmetric] m' add.commute)
    note sw = swap_cells [OF d(4) c(4) m', unfolded d(3) c(3)]
    have p: "parts m1 m' Fr" unfolding m' by (rule parts_swap [OF _ d(4) c(4)]) (use G in simp)
    have tail: "tail_of m' (first_id ub s) = (if ?f s = ?f k then mn + int k else if ?f s = mn + int k then ?f k else ?f s)"
      if "s < ub_n_seqs ub" for s using sw(3) [OF fs [OF that]] .
    have other: "?f s \<noteq> ?f k" "?f s \<noteq> mn + int k" if "s < k" for s
    proof -
      have s: "s < ub_n_seqs ub" "?f s = mn + int s" using that k G by auto
      then show "?f s \<noteq> mn + int k" using that by simp
      show "?f s \<noteq> ?f k"
      proof
        assume "?f s = ?f k"
        then have "{int (first_id ub s)} = {int (first_id ub k)}" using each(3) [OF s(1)] each(3) [OF k] by metis
        then have "first_id ub s = first_id ub k" by simp
        then show False using inj_onD [OF inj, of s k] s(1) k that by simp
      qed
    qed
    have owned: "owners m' (nat (tail_of m' (first_id ub s))) = {int (first_id ub s)}" if s: "s < ub_n_seqs ub" for s
    proof -
      have "nat (?f s) = ?c \<longleftrightarrow> ?f s = ?f k" "nat (?f s) = ?d \<longleftrightarrow> ?f s = mn + int k" "?c = ?d \<longleftrightarrow> ?f k = mn + int k"
        using each(1) [OF s] lt(1) c(1) d(1) by (simp_all add: eq_nat_nat_iff)
      then have "owners m' (nat (tail_of m' (first_id ub s))) = owners m (nat (?f s))"
        unfolding tail [OF s] sw(5) using False by simp
      then show ?thesis using each(3) [OF s] by simp
    qed
    have range: "mn \<le> tail_of m' (first_id ub s) \<and> tail_of m' (first_id ub s) \<le> mx" if s: "s < ub_n_seqs ub" for s
      unfolding tail [OF s] using each(1,2) [OF s] each(1,2) [OF k] d lt(1) by simp
    have placed: "tail_of m' (first_id ub s) = mn + int s" if s: "s < Suc k" for s
    proof (cases "s = k")
      case True
      then show ?thesis using tail [OF k] by simp
    next
      case ne: False
      then have "s < k" "s < ub_n_seqs ub" using s k by simp_all
      then show ?thesis using tail other G by simp
    qed
    have homes: "home m' i" if i: "i < rs_size m'" "int i < mn \<or> mx < int i" for i
    proof -
      have "int i \<noteq> int ?c" "int i \<noteq> int ?d" unfolding c(3) d(3) using i(2) each(1,2) [OF k] d(2) by auto
      then have "i \<noteq> ?c" "i \<noteq> ?d" by blast+
      then have "mc_src (rs_cells m' ! i) = mc_src (rs_cells m ! i)" using sw(4) i(1) sw(1) by simp
      moreover have "i < rs_size m" using i(1) sw(1) by simp
      then have "home m i" using G i(2) by blast
      ultimately show ?thesis by (simp add: home_def)
    qed
    have "gathered ub m1 (Suc k) mn mx Fr m'"
      unfolding gathered_def using p G range owned placed homes sw(1) by simp
    then show ?thesis using res by blast
  qed
qed

lemma gather_ok:
  assumes inj: "inj_on (first_id ub) {0..<ub_n_seqs ub}" and g: "gathered ub m1 0 mn mx Fr m"
  shows "\<exists>m'. rs_each (rs_gather_step ub mn) [0..<ub_n_seqs ub] m = Inr m' \<and> gathered ub m1 (ub_n_seqs ub) mn mx Fr m'"
  by (rule rs_each_upt [where P = "\<lambda>k. gathered ub m1 k mn mx Fr"]) (use gather_step inj g in auto)

end
