(* ===== verification/RecurrentFind.thy ===== *)
theory RecurrentFind
  imports RecurrentSlot
begin

text \<open>
  The end of \<open>find_slot\<close> (placing the sets, the sources of the states), the whole of it, and the
  properties of the recurrent memory.
\<close>

section \<open>Placing the sets\<close>

text \<open>What a micro-batch of the batch allocator has: disjoint sets of sequences, none of them empty.\<close>

definition ub_last_pos :: "llama_ubatch \<Rightarrow> nat \<Rightarrow> llama_pos" where
  "ub_last_pos ub s = ub_pos ub ! (s * ub_n_seq_tokens ub + ub_n_seq_tokens ub - 1)"

definition sets_ok :: "llama_ubatch \<Rightarrow> bool" where
  "sets_ok ub \<longleftrightarrow> ub_equal_seqs ub \<and> 0 < ub_n_seqs ub \<and> distinct (concat (map (ub_set_ids ub) [0..<ub_n_seqs ub])) \<and>
    (\<forall>s < ub_n_seqs ub. ub_set_ids ub s \<noteq> [] \<and> 0 \<le> ub_last_pos ub s)"

definition ids_fit :: "llama_ubatch \<Rightarrow> nat \<Rightarrow> bool" where
  "ids_fit ub n \<longleftrightarrow> (\<forall>s < ub_n_seqs ub. \<forall>x \<in> set (ub_set_ids ub s). x < n)"

lemma ids_fitD: "ids_fit ub n \<Longrightarrow> s < ub_n_seqs ub \<Longrightarrow> x \<in> set (ub_set_ids ub s) \<Longrightarrow> x < n"
  by (simp add: ids_fit_def)

text \<open>The members of a set behind the first have no cell, until they are placed.\<close>

definition later_free :: "llama_ubatch \<Rightarrow> llama_memory_recurrent \<Rightarrow> bool" where
  "later_free ub m \<longleftrightarrow> (\<forall>s < ub_n_seqs ub. \<forall>x \<in> set (ub_set_ids ub s). x \<noteq> first_id ub s \<longrightarrow> tail_of m x = -1)"

lemma later_freeD:
  "later_free ub m \<Longrightarrow> s < ub_n_seqs ub \<Longrightarrow> x \<in> set (ub_set_ids ub s) \<Longrightarrow> x \<noteq> first_id ub s \<Longrightarrow> tail_of m x = -1"
  by (simp add: later_free_def)

lemma first_in_set: "ub_set_ids ub s \<noteq> [] \<Longrightarrow> hd (ub_set_ids ub s) = first_id ub s"
  by (auto simp: ub_set_ids_def first_id_def hd_conv_nth)

lemma first_mem: "ub_set_ids ub s \<noteq> [] \<Longrightarrow> first_id ub s \<in> set (ub_set_ids ub s)"
  using first_in_set hd_in_set by metis

lemma sets_disjoint:
  assumes "sets_ok ub" "s < ub_n_seqs ub" "t < ub_n_seqs ub" "s \<noteq> t"
  shows "set (ub_set_ids ub s) \<inter> set (ub_set_ids ub t) = {}"
proof -
  have aux: "set (ub_set_ids ub s) \<inter> set (ub_set_ids ub t) = {}" if "s < t" "t < ub_n_seqs ub" for s t
  proof -
    have "[0..<ub_n_seqs ub] = [0..<t] @ [t..<ub_n_seqs ub]" using that upt_add_eq_append [of 0 t "ub_n_seqs ub - t"] by simp
    then have "distinct (concat (map (ub_set_ids ub) [0..<t]) @ concat (map (ub_set_ids ub) [t..<ub_n_seqs ub]))"
      using assms(1) by (simp add: sets_ok_def)
    then have "set (concat (map (ub_set_ids ub) [0..<t])) \<inter> set (concat (map (ub_set_ids ub) [t..<ub_n_seqs ub])) = {}"
      by (simp only: distinct_append)
    moreover have "set (ub_set_ids ub s) \<subseteq> set (concat (map (ub_set_ids ub) [0..<t]))" using that by auto
    moreover have "set (ub_set_ids ub t) \<subseteq> set (concat (map (ub_set_ids ub) [t..<ub_n_seqs ub]))" using that by auto
    ultimately show ?thesis by blast
  qed
  then show ?thesis using assms aux [of s t] aux [of t s] by (cases "s < t") (auto simp: Int_commute)
qed

lemma set_distinct:
  assumes "sets_ok ub" "s < ub_n_seqs ub"
  shows "distinct (ub_set_ids ub s)"
  using assms by (auto simp: sets_ok_def distinct_concat_iff)

lemma first_inj:
  assumes "sets_ok ub"
  shows "inj_on (first_id ub) {0..<ub_n_seqs ub}"
proof (rule inj_onI)
  fix x y assume xy: "x \<in> {0..<ub_n_seqs ub}" "y \<in> {0..<ub_n_seqs ub}" "first_id ub x = first_id ub y"
  then have "first_id ub x \<in> set (ub_set_ids ub x) \<inter> set (ub_set_ids ub y)"
    using first_mem [of ub x] first_mem [of ub y] assms by (auto simp: sets_ok_def)
  then show "x = y" using sets_disjoint [OF assms, of x y] xy(1,2) by auto
qed

text \<open>The first \<open>k\<close> sets are written to their cells.\<close>

definition placed :: "llama_ubatch \<Rightarrow> llama_memory_recurrent \<Rightarrow> nat \<Rightarrow> nat \<Rightarrow> llama_memory_recurrent \<Rightarrow> bool" where
  "placed ub m3 b k m \<longleftrightarrow> rs_size m = rs_size m3 \<and>
    (\<forall>s < k. \<forall>x \<in> set (ub_set_ids ub s). tail_of m x = int (b + s)) \<and>
    (\<forall>x < rs_size m3. (\<forall>s < k. x \<notin> set (ub_set_ids ub s)) \<longrightarrow> tail_of m x = tail_of m3 x) \<and>
    (\<forall>s < k. ids_of m (b + s) = int ` set (ub_set_ids ub s) \<and> pos_of m (b + s) = ub_last_pos ub s) \<and>
    (\<forall>i < rs_size m3. i < b \<or> b + k \<le> i \<longrightarrow> ids_of m i = ids_of m3 i \<and> pos_of m i = pos_of m3 i) \<and>
    (\<forall>i < rs_size m3. mc_src (rs_cells m ! i) = mc_src (rs_cells m3 ! i))"

lemma place_fold:
  assumes "c < rs_size m" "\<forall>x \<in> set L. x < rs_size m"
  shows "rs_size (fold (\<lambda>x m. rs_upd x (mc_tail_update (\<lambda>_. t)) (rs_upd c (mc_seq_id_update (insert (int x))) m)) L m) = rs_size m \<and>
    (\<forall>i < rs_size m. rs_cells (fold (\<lambda>x m. rs_upd x (mc_tail_update (\<lambda>_. t)) (rs_upd c (mc_seq_id_update (insert (int x))) m)) L m) ! i =
      (rs_cells m ! i)\<lparr>mc_tail := if i \<in> set L then t else tail_of m i,
        mc_seq_id := if i = c then ids_of m i \<union> int ` set L else ids_of m i\<rparr>)"
  using assms
proof (induction L arbitrary: m)
  case (Cons x L)
  let ?m = "rs_upd x (mc_tail_update (\<lambda>_. t)) (rs_upd c (mc_seq_id_update (insert (int x))) m)"
  have x: "x < rs_size m" using Cons.prems by simp
  have "\<forall>y \<in> set L. y < rs_size ?m" "c < rs_size ?m" using Cons.prems by simp_all
  from Cons.IH [OF this(2,1)] show ?case using Cons.prems x by (auto)
qed simp

lemma place_step:
  assumes ok: "sets_ok ub" and k: "k < ub_n_seqs ub" and p: "placed ub m3 b k m" and b: "b + k < rs_size m3"
    and fit: "ids_fit ub (rs_size m3)"
  shows "\<exists>m'. rs_place_step ub (int b) k m = Inr m' \<and> placed ub m3 b (Suc k) m'"
proof -
  note fits = ids_fitD [OF fit]
  note P = p [unfolded placed_def]
  let ?L = "ub_set_ids ub k"
  let ?c = "b + k"
  let ?x = "rs_upd ?c (\<lambda>c. c\<lparr>mc_pos := ub_last_pos ub k, mc_seq_id := {}\<rparr>) m"
  have size: "rs_size m = rs_size m3" using P by simp
  obtain m' where m': "m' = fold (\<lambda>x m. rs_upd x (mc_tail_update (\<lambda>_. int ?c)) (rs_upd ?c (mc_seq_id_update (insert (int x))) m)) ?L ?x" by blast
  have at: "rs_at m (int k + int b) = Inr (rs_cells m ! ?c)" using b size rs_at_ok [of "int k + int b" m] by (simp add: nat_add_distrib add.commute)
  have n: "nat (int k + int b) = ?c" by simp
  have res: "rs_place_step ub (int b) k m = Inr m'"
    using at unfolding rs_place_step_def Let_def n m' ub_last_pos_def by (simp add: add.commute)
  have cx: "?c < rs_size ?x" "\<forall>x \<in> set ?L. x < rs_size ?x" using b fits k size by simp_all
  have cells: "rs_size m' = rs_size m3" "\<And>i. i < rs_size m3 \<Longrightarrow> rs_cells m' ! i = (rs_cells ?x ! i)
      \<lparr>mc_tail := if i \<in> set ?L then int ?c else tail_of ?x i, mc_seq_id := if i = ?c then ids_of ?x i \<union> int ` set ?L else ids_of ?x i\<rparr>"
    using place_fold [OF cx, of "int ?c"] size unfolding m' by simp_all
  have tail: "tail_of m' i = (if i \<in> set ?L then int ?c else tail_of m i)" if "i < rs_size m3" for i
    using cells(2) [OF that] b size by simp
  have ids': "ids_of m' i = (if i = ?c then int ` set ?L else ids_of m i)" if "i < rs_size m3" for i
    using cells(2) [OF that] b size by simp
  have pos: "pos_of m' i = (if i = ?c then ub_last_pos ub k else pos_of m i)" if "i < rs_size m3" for i
    using cells(2) [OF that] b size by simp
  have src: "mc_src (rs_cells m' ! i) = mc_src (rs_cells m ! i)" if "i < rs_size m3" for i
    using cells(2) [OF that] b size by simp
  have t1: "tail_of m' x = int (b + s)" if s: "s < Suc k" "x \<in> set (ub_set_ids ub s)" for s x
  proof (cases "s = k")
    case False
    then have sk: "s < k" "s < ub_n_seqs ub" using s(1) k by simp_all
    then have "x \<notin> set ?L" using sets_disjoint [OF ok sk(2) k False] s(2) by blast
    then show ?thesis using tail [OF fits [OF sk(2) s(2)]] P sk(1) s(2) by simp
  next
    case True
    then show ?thesis using s(2) tail [OF fits [OF k]] by simp
  qed
  have t2: "tail_of m' x = tail_of m3 x" if x: "x < rs_size m3" "\<forall>s < Suc k. x \<notin> set (ub_set_ids ub s)" for x
  proof -
    have "tail_of m x = tail_of m3 x" using P x by simp
    then show ?thesis using tail [OF x(1)] x(2) by simp
  qed
  have t3: "ids_of m' (b + s) = int ` set (ub_set_ids ub s) \<and> pos_of m' (b + s) = ub_last_pos ub s" if s: "s < Suc k" for s
  proof (cases "s = k")
    case False
    then have "s < k" using s by simp
    then have "ids_of m (b + s) = int ` set (ub_set_ids ub s)" "pos_of m (b + s) = ub_last_pos ub s" "b + s < rs_size m3"
      using P b by simp_all
    then show ?thesis using ids' [of "b + s"] pos [of "b + s"] False by simp
  qed (use ids' [OF b] pos [OF b] in simp)
  have t4: "ids_of m' i = ids_of m3 i \<and> pos_of m' i = pos_of m3 i" if i: "i < rs_size m3" "i < b \<or> b + Suc k \<le> i" for i
  proof -
    have "ids_of m i = ids_of m3 i \<and> pos_of m i = pos_of m3 i" "i \<noteq> ?c" using P i by auto
    then show ?thesis using ids' [OF i(1)] pos [OF i(1)] by simp
  qed
  have t5: "mc_src (rs_cells m' ! i) = mc_src (rs_cells m3 ! i)" if "i < rs_size m3" for i
    using src [OF that] P that by simp
  have "placed ub m3 b (Suc k) m'"
    unfolding placed_def using cells(1) t1 t2 t3 t4 t5 by blast
  then show ?thesis using res by blast
qed

lemma place_ok:
  assumes ok: "sets_ok ub" and b: "b + ub_n_seqs ub \<le> rs_size m"
    and fit: "ids_fit ub (rs_size m)"
  shows "\<exists>m'. rs_each (rs_place_step ub (int b)) [0..<ub_n_seqs ub] m = Inr m' \<and> placed ub m b (ub_n_seqs ub) m'"
proof (rule rs_each_upt [where P = "placed ub m b"])
  fix k x assume "k < ub_n_seqs ub" "placed ub m b k x"
  then show "\<exists>m'. rs_place_step ub (int b) k x = Inr m' \<and> placed ub m b (Suc k) m'"
    by (intro place_step [OF ok]) (use b fit in auto)
qed (simp_all add: placed_def)

section \<open>The sources of the states\<close>

lemma stage_step_ok:
  assumes "i < rs_size m" "mc_src (rs_cells m ! i) < 0 \<longrightarrow> 0 \<le> rs_z m"
  shows "rs_stage_step i m = Inr (rs_upd i (\<lambda>c. c\<lparr>mc_src0 := if mc_src c < 0 then rs_z m else mc_src c, mc_src := int i\<rparr>) m)"
  using assms by (simp add: rs_stage_step_def rs_upd_def)

definition staged :: "llama_memory_recurrent \<Rightarrow> nat \<Rightarrow> nat \<Rightarrow> llama_memory_recurrent \<Rightarrow> bool" where
  "staged m5 a k m \<longleftrightarrow> rs_size m = rs_size m5 \<and> rs_z m = rs_z m5 \<and>
    (\<forall>i < rs_size m5. rs_cells m ! i = (if a \<le> i \<and> i < k
      then (rs_cells m5 ! i)\<lparr>mc_src0 := if mc_src (rs_cells m5 ! i) < 0 then rs_z m5 else mc_src (rs_cells m5 ! i), mc_src := int i\<rparr>
      else rs_cells m5 ! i))"

lemma stage_ok:
  assumes "a \<le> k" "k \<le> rs_size m" "\<And>i. a \<le> i \<Longrightarrow> i < k \<Longrightarrow> mc_src (rs_cells m ! i) < 0 \<Longrightarrow> 0 \<le> rs_z m"
  shows "\<exists>m'. rs_each rs_stage_step [a..<k] m = Inr m' \<and> staged m a k m'"
proof -
  have "\<exists>m'. rs_each rs_stage_step [a..<k] m = Inr m' \<and> a \<le> k \<and> staged m a k m'"
  proof (rule rs_each_upt [where P = "\<lambda>i x. a \<le> i \<and> staged m a i x"])
    fix i x assume i: "i < k" and s: "a \<le> i \<and> staged m a i x"
    then have lt: "i < rs_size x" and c: "rs_cells x ! i = rs_cells m ! i" "rs_z x = rs_z m"
      using assms(2) by (simp_all add: staged_def)
    let ?y = "rs_upd i (\<lambda>c. c\<lparr>mc_src0 := if mc_src c < 0 then rs_z x else mc_src c, mc_src := int i\<rparr>) x"
    have "rs_stage_step i x = Inr ?y" by (rule stage_step_ok [OF lt]) (use c assms(3) i s in auto)
    moreover have "staged m a (Suc i) ?y" using s lt c by (auto simp: staged_def less_Suc_eq)
    ultimately show "\<exists>m'. rs_stage_step i x = Inr m' \<and> a \<le> Suc i \<and> staged m a (Suc i) m'" using s by auto
  qed (use assms(1) in \<open>auto simp: staged_def\<close>)
  then show ?thesis by blast
qed

text \<open>When some state of the range has no source, then some cell of the range is no source.\<close>

lemma find_z_ok:
  assumes r: "0 \<le> mn" "mx < int (rs_size m)" and out: "\<And>i. i < rs_size m \<Longrightarrow> int i < mn \<or> mx < int i \<Longrightarrow> home m i"
    and j: "mn \<le> int j" "int j \<le> mx" "mc_src (rs_cells m ! j) < 0"
  shows "0 \<le> rs_find_z mn mx m"
proof (cases "find (\<lambda>i. rs_refcount m (nat i) = 0) [mn..mx]")
  case (Some i)
  then have "i \<in> set [mn..mx]" by (auto simp: find_Some_iff in_set_conv_nth)
  then show ?thesis using Some r(1) by (simp add: rs_find_z_def)
next
  case None
  let ?src = "\<lambda>i. mc_src (rs_cells m ! nat i)"
  have "{mn..mx} \<subseteq> ?src ` {mn..mx}"
  proof
    fix x assume x: "x \<in> {mn..mx}"
    then have "rs_refcount m (nat x) \<noteq> 0" using None by (auto simp: find_None_iff)
    then have "filter (\<lambda>c. mc_src c = int (nat x)) (rs_cells m) \<noteq> []" by (simp add: rs_refcount_def)
    then obtain c where "c \<in> set (rs_cells m)" "mc_src c = int (nat x)" by (auto simp: filter_empty_conv)
    then obtain i where i: "i < rs_size m" "mc_src (rs_cells m ! i) = x"
      using x r by (auto simp: in_set_conv_nth rs_size_def)
    have "int i \<in> {mn..mx}"
    proof (rule ccontr)
      assume "int i \<notin> {mn..mx}"
      then have "home m i" by (intro out) (use i in auto)
      then show False using i(2) x r \<open>int i \<notin> {mn..mx}\<close> by (auto simp: home_def)
    qed
    then show "x \<in> ?src ` {mn..mx}" using i(2) by (intro image_eqI [of _ _ "int i"]) simp_all
  qed
  moreover have "card (?src ` {mn..mx}) \<le> card {mn..mx}" by (rule card_image_le) simp
  ultimately have "?src ` {mn..mx} = {mn..mx}" by (intro card_seteq [symmetric]) simp_all
  moreover have "?src (int j) \<in> ?src ` {mn..mx}" using j by (intro imageI) simp
  ultimately show ?thesis using j(3) r(1) by simp
qed

section \<open>The end of the search\<close>

definition others :: "llama_ubatch \<Rightarrow> nat \<Rightarrow> bool" where
  "others ub x \<longleftrightarrow> (\<forall>s < ub_n_seqs ub. x \<notin> set (ub_set_ids ub s))"

lemma later_no_cell:
  assumes ok: "sets_ok ub" and g: "gathered ub m1 k mn mx Fr m" and s: "s < ub_n_seqs ub" "x \<in> set (ub_set_ids ub s)"
    and x: "x \<noteq> first_id ub s" "x < rs_size m" and none: "tail_of m1 x = -1"
  shows "tail_of m x < 0"
proof (rule ccontr)
  assume "\<not> tail_of m x < 0"
  then have "int x \<in> Fr" using g x(2) none by (auto simp: gathered_def parts_def)
  then have "x \<in> first_id ub ` {0..<ub_n_seqs ub}" using g by (auto simp: gathered_def)
  then obtain t where t: "t < ub_n_seqs ub" "x = first_id ub t" by auto
  then have "x \<in> set (ub_set_ids ub t)" using first_mem [of ub t] ok by (simp add: sets_ok_def)
  then have "t = s" using sets_disjoint [OF ok t(1) s(1)] s(2) by blast
  then show False using t x(1) by simp
qed

lemma first_here:
  assumes ok: "sets_ok ub" and g: "gathered ub m1 (ub_n_seqs ub) (int b) mx Fr m" and s: "s < ub_n_seqs ub"
  shows "tail_of m (first_id ub s) = int (b + s)" "owners m (b + s) = {int (first_id ub s)}"
    "first_id ub s \<in> set (ub_set_ids ub s)" "first_id ub s < rs_size m"
proof -
  show t: "tail_of m (first_id ub s) = int (b + s)" using g s by (simp add: gathered_def)
  have "owners m (nat (tail_of m (first_id ub s))) = {int (first_id ub s)}"
    using g s unfolding gathered_def by blast
  then show own: "owners m (b + s) = {int (first_id ub s)}" unfolding t by (simp only: nat_int)
  show "first_id ub s \<in> set (ub_set_ids ub s)" using first_mem ok s by (simp add: sets_ok_def)
  have "int (first_id ub s) \<in> owners m (b + s)" using own by simp
  from owners_lt [OF this] show "first_id ub s < rs_size m" by simp
qed

lemma other_outside:
  assumes ok: "sets_ok ub" and g: "gathered ub m1 (ub_n_seqs ub) (int b) mx Fr m"
    and x: "others ub x" "x < rs_size m" "tail_of m x = int i"
  shows "i < b \<or> b + ub_n_seqs ub \<le> i"
proof (rule ccontr)
  assume "\<not> ?thesis"
  then have s: "i - b < ub_n_seqs ub" "b + (i - b) = i" by auto
  have "int x \<in> owners m i" using x(2,3) by (simp add: owner_iff)
  then have "x = first_id ub (i - b)" using first_here(2) [OF ok g s(1)] s(2) by simp
  then show False using first_here(3) [OF ok g s(1)] x(1) s(1) by (auto simp: others_def)
qed

lemma place_owners:
  assumes ok: "sets_ok ub" and g: "gathered ub m1 (ub_n_seqs ub) (int b) mx Fr m" and p: "placed ub m b (ub_n_seqs ub) m4"
    and fit: "ids_fit ub (rs_size m)"
    and free: "later_free ub m1"
  shows "s < ub_n_seqs ub \<Longrightarrow> owners m4 (b + s) = int ` set (ub_set_ids ub s)"
    "i < b \<or> b + ub_n_seqs ub \<le> i \<Longrightarrow> owners m4 i = owners m i"
proof -
  note fits = ids_fitD [OF fit] and none = later_freeD [OF free]
  note P = p [unfolded placed_def]
  have size: "rs_size m4 = rs_size m" using P by simp
  have in_set: "tail_of m4 x = int (b + s)" if "s < ub_n_seqs ub" "x \<in> set (ub_set_ids ub s)" for s x
    using P that by blast
  have rest: "tail_of m4 x = tail_of m x" if "x < rs_size m" "others ub x" for x
    using P that by (simp add: others_def)
  show "owners m4 (b + s) = int ` set (ub_set_ids ub s)" if s: "s < ub_n_seqs ub"
  proof (intro equalityI subsetI)
    fix y assume y: "y \<in> owners m4 (b + s)"
    then obtain x where x: "y = int x" "x < rs_size m" using owners_lt [OF y] size by (metis)
    then have t: "tail_of m4 x = int (b + s)" using y size by (simp add: owner_iff)
    have "\<not> others ub x"
    proof
      assume o: "others ub x"
      then have "tail_of m x = int (b + s)" using rest x(2) t by simp
      from other_outside [OF ok g o x(2) this] s show False by simp
    qed
    then obtain u where u: "u < ub_n_seqs ub" "x \<in> set (ub_set_ids ub u)" by (auto simp: others_def)
    then have "u = s" using in_set t by force
    then show "y \<in> int ` set (ub_set_ids ub s)" using u x by simp
  next
    fix y assume "y \<in> int ` set (ub_set_ids ub s)"
    then show "y \<in> owners m4 (b + s)" using in_set [OF s] fits [OF s] size by (auto simp: owner_iff)
  qed
  show "owners m4 i = owners m i" if i: "i < b \<or> b + ub_n_seqs ub \<le> i"
  proof -
    have "tail_of m4 x = int i \<longleftrightarrow> tail_of m x = int i" if x: "x < rs_size m" for x
    proof (cases "others ub x")
      case False
      then obtain s where s: "s < ub_n_seqs ub" "x \<in> set (ub_set_ids ub s)" by (auto simp: others_def)
      then have "tail_of m4 x \<noteq> int i" using in_set i by fastforce
      moreover have "tail_of m x \<noteq> int i"
      proof (cases "x = first_id ub s")
        case True
        then show ?thesis using first_here(1) [OF ok g s(1)] i s(1) by auto
      next
        case False
        then show ?thesis using later_no_cell [OF ok g s False x none [OF s False]] by simp
      qed
      ultimately show ?thesis by simp
    qed (use rest x in simp)
    then show ?thesis using size by (auto simp: owners_def)
  qed
qed

lemma pos_nonneg:
  assumes "rs_wf m" "x < rs_size m" "0 \<le> tail_of m x"
  shows "0 \<le> rs_pos m x"
proof -
  have t: "nat (tail_of m x) < rs_size m" "int x \<in> ids_of m (nat (tail_of m x))" using wf_tail [OF assms] assms(3) by auto
  then have "cell_ok m (nat (tail_of m x))" using assms(1) by (simp add: rs_wf_def)
  then show ?thesis using t(2) assms(3) by (auto simp: cell_ok_def rs_pos_def)
qed

text \<open>What holds of the memory after the sets are placed and the sources are staged.\<close>

lemma finish_wf:
  assumes ok: "sets_ok ub" and m1: "rs_wf m1" and g: "gathered ub m1 (ub_n_seqs ub) (int b) mx Fr m"
    and p: "placed ub m b (ub_n_seqs ub) m4"
    and fit: "ids_fit ub (rs_size m)"
    and free: "later_free ub m1"
    and st: "staged m5 b (nat (mx + 1)) m6" and m5: "rs_cells m5 = rs_cells m4"
    and M: "M = m6\<lparr>rs_head := b, rs_n := k, rs_used := rs_count_used m6\<rparr>"
  shows "rs_wf M" "rs_size M = rs_size m1"
    "\<And>s x. s < ub_n_seqs ub \<Longrightarrow> x \<in> set (ub_set_ids ub s) \<Longrightarrow> tail_of M x = int (b + s) \<and> rs_pos M x = ub_last_pos ub s"
    "\<And>x. x < rs_size m1 \<Longrightarrow> others ub x \<Longrightarrow> rs_pos M x = rs_pos m1 x"
    "\<And>s. s < ub_n_seqs ub \<Longrightarrow> 0 \<le> tail_of m1 (first_id ub s) \<Longrightarrow> rs_s_copy s M = tail_of m1 (first_id ub s)"
proof -
  note fits = ids_fitD [OF fit]
  let ?n = "ub_n_seqs ub"
  note G = g [unfolded gathered_def] and P = p [unfolded placed_def] and S = st [unfolded staged_def]
  note Q = G [THEN conjunct1, unfolded parts_def]
  have s45: "rs_size m5 = rs_size m4" using m5 by (simp add: rs_size_def)
  have sizes: "rs_size m4 = rs_size m" "rs_size m6 = rs_size m" "rs_size m = rs_size m1" "rs_size M = rs_size m"
    using P S Q M s45 by simp_all
  then show "rs_size M = rs_size m1" by simp
  have bn: "b + ?n \<le> nat (mx + 1)" "nat (mx + 1) \<le> rs_size m" "0 < ?n" using G ok by (auto simp: sets_ok_def)
  have cellsM: "rs_cells M = rs_cells m6" by (simp add: M)
  have same: "tail_of M i = tail_of m4 i \<and> ids_of M i = ids_of m4 i \<and> pos_of M i = pos_of m4 i" if "i < rs_size m" for i
    using S that sizes s45 m5 cellsM by simp
  have ownM: "owners M i = owners m4 i" for i using same sizes by (auto simp: owners_def)
  note own = place_owners [OF ok g p fit free]
  have in_set: "tail_of M x = int (b + s)" if "s < ?n" "x \<in> set (ub_set_ids ub s)" for s x
    using P that same [OF fits [OF that]] by simp
  have rest: "tail_of M x = tail_of m x" if "x < rs_size m" "others ub x" for x
    using P that same [OF that(1)] by (simp add: others_def)
  have here: "ids_of M (b + s) = int ` set (ub_set_ids ub s) \<and> pos_of M (b + s) = ub_last_pos ub s" if "s < ?n" for s
    using P that same [of "b + s"] bn by simp
  have away: "ids_of M i = ids_of m i \<and> pos_of M i = pos_of m i" if "i < rs_size m" "i < b \<or> b + ?n \<le> i" for i
  proof -
    have "ids_of m4 i = ids_of m i \<and> pos_of m4 i = pos_of m i" using P that by blast
    then show ?thesis using same [OF that(1)] by simp
  qed
  have seq: "rs_pos m x = rs_pos m1 x"
      "0 \<le> tail_of m1 x \<longrightarrow> 0 \<le> tail_of m x \<and> mc_src (rs_cells m ! nat (tail_of m x)) = tail_of m1 x"
      "0 \<le> tail_of m x \<longrightarrow> 0 \<le> tail_of m1 x \<or> int x \<in> Fr"
    if "x < rs_size m" for x using Q that by simp_all
  show "tail_of M x = int (b + s) \<and> rs_pos M x = ub_last_pos ub s" if "s < ?n" "x \<in> set (ub_set_ids ub s)" for s x
    using in_set [OF that] here [OF that(1)] by (simp add: rs_pos_def del: of_nat_add)
  show "rs_pos M x = rs_pos m1 x" if x: "x < rs_size m1" "others ub x" for x
  proof -
    have xm: "x < rs_size m" using x(1) sizes by simp
    show ?thesis
    proof (cases "0 \<le> tail_of m x")
      case True
      then have t: "tail_of m x = int (nat (tail_of m x))" "nat (tail_of m x) < rs_size m" using Q xm by (auto simp: tails_ok_def)
      then have "pos_of M (nat (tail_of m x)) = pos_of m (nat (tail_of m x))"
        using away [OF t(2)] other_outside [OF ok g x(2) xm t(1)] by simp
      then have "rs_pos M x = rs_pos m x" using rest [OF xm x(2)] by (simp add: rs_pos_def)
      then show ?thesis using seq(1) [OF xm] by simp
    next
      case False
      then have "rs_pos M x = rs_pos m x" using rest [OF xm x(2)] by (simp add: rs_pos_def)
      then show ?thesis using seq(1) [OF xm] by simp
    qed
  qed
  show "rs_s_copy s M = tail_of m1 (first_id ub s)" if s: "s < ?n" "0 \<le> tail_of m1 (first_id ub s)" for s
  proof -
    note f = first_here [OF ok g s(1)]
    have "mc_src (rs_cells m ! (b + s)) = tail_of m1 (first_id ub s)" using seq(2) [OF f(4)] f(1) s(2) by (simp add: nat_add_distrib)
    moreover have bs: "b + s < rs_size m" "b \<le> b + s \<and> b + s < nat (mx + 1)" using bn s(1) by simp_all
    moreover have "mc_src (rs_cells m5 ! (b + s)) = mc_src (rs_cells m ! (b + s))" using P bs(1) m5 by simp
    ultimately have "mc_src0 (rs_cells M ! (b + s)) = tail_of m1 (first_id ub s)"
      using S sizes s45 s(2) by (simp add: cellsM)
    then show ?thesis by (simp add: rs_s_copy_def M add.commute)
  qed
  have cell: "cell_ok M i" if i: "i < rs_size m" for i
  proof (cases "i < b \<or> b + ?n \<le> i")
    case False
    then obtain s where s: "s < ?n" "i = b + s" by (metis add_diff_inverse_nat add_less_cancel_left not_le)
    have "mc_src (rs_cells M ! i) = int i" using S i sizes s45 s bn by (simp add: cellsM)
    moreover have "0 \<le> ub_last_pos ub s" "ub_set_ids ub s \<noteq> []" using ok s(1) by (simp_all add: sets_ok_def)
    ultimately show ?thesis using here [OF s(1)] own(1) [OF s(1)] ownM s(2) by (simp add: cell_ok_def)
  next
    case True
    have o: "owners M i = owners m i" using own(2) [OF True] ownM by simp
    have no: "x \<notin> Fr" if "x \<in> owners m i" for x
    proof
      assume "x \<in> Fr"
      then obtain s where s: "s < ?n" "x = int (first_id ub s)" using G by auto
      then have "tail_of m (first_id ub s) = int i" using that first_here(4) [OF ok g s(1)] by (simp add: owner_iff)
      then show False using first_here(1) [OF ok g s(1)] True s(1) by auto
    qed
    have ids: "ids_of m i = owners m i" "owners m i = {} \<longrightarrow> pos_of m i = -1" using Q i no by auto
    have full: "0 \<le> pos_of m i \<and> 0 \<le> mc_src (rs_cells m ! i)" if "x \<in> owners m i" for x
    proof -
      have x: "nat x < rs_size m" "int (nat x) = x" using owners_lt [OF that] by simp_all
      then have t: "tail_of m (nat x) = int i" using that owner_iff by metis
      then have t1: "0 \<le> tail_of m1 (nat x)" using seq(3) [OF x(1)] no [OF that] x(2) by simp
      then have "0 \<le> rs_pos m1 (nat x)" using pos_nonneg [OF m1] x(1) sizes by simp
      then show ?thesis using seq(1,2) [OF x(1)] t t1 by (simp add: rs_pos_def)
    qed
    have "mc_src (rs_cells m ! i) = int i \<or> mc_src (rs_cells M ! i) = int i \<or> ids_of m i = {} \<and> mc_src (rs_cells m ! i) = -1"
    proof (cases "nat (mx + 1) \<le> i \<or> i < b")
      case True
      then have "home m i" using G i by auto
      then show ?thesis using full ids by (auto simp: home_def)
    next
      case False
      then show ?thesis using S i sizes s45 True by (simp add: cellsM)
    qed
    moreover have "mc_src (rs_cells M ! i) = int i \<or> mc_src (rs_cells M ! i) = mc_src (rs_cells m ! i)"
      using S P i sizes s45 m5 by (simp add: cellsM)
    ultimately show ?thesis using away [OF i True] o ids full by (auto simp: cell_ok_def)
  qed
  have tails: "tails_ok M"
    unfolding tails_ok_def
  proof (intro allI impI)
    fix x assume "x < rs_size M"
    then have x: "x < rs_size m" using sizes by simp
    show "-1 \<le> tail_of M x \<and> tail_of M x < int (rs_size M)"
    proof (cases "others ub x")
      case True
      then show ?thesis using rest [OF x True] Q x sizes by (auto simp: tails_ok_def)
    next
      case False
      then show ?thesis using in_set bn sizes by (fastforce simp: others_def)
    qed
  qed
  have "rs_used M = rs_count_used M" "rs_head M = b" by (simp_all add: M rs_count_used_def)
  then show "rs_wf M" using m1 cell tails sizes bn by (simp add: rs_wf_def)
qed

section \<open>Searching a slot\<close>

lemma tl_subset: "set (tl xs) \<subseteq> set xs"
  by (cases xs) auto

lemma head_reset_wf: "rs_wf m \<Longrightarrow> rs_wf (m\<lparr>rs_head := 0\<rparr>)"
  by (auto simp: rs_wf_def rs_size_def tails_ok_def cell_ok_def owners_def rs_count_used_def)

lemma find_slot_phases:
  assumes ok: "sets_ok ub" and m1: "rs_wf m1"
    and fit: "ids_fit ub (rs_size m1)"
    and free: "later_free ub m1"
  obtains e mn mx m2 m3 m4 m6 Fr where
    "rs_assign ub [0..<ub_n_seqs ub] (rs_first_empty (rs_size m1) (rs_head m1) m1, int (rs_size m1) - 1, 0, m1) = Inr (e, mn, mx, m2)"
    "rs_each (rs_gather_step ub mn) [0..<ub_n_seqs ub] m2 = Inr m3" "gathered ub m1 (ub_n_seqs ub) mn mx Fr m3"
    "rs_each (rs_place_step ub mn) [0..<ub_n_seqs ub] m3 = Inr m4" "placed ub m3 (nat mn) (ub_n_seqs ub) m4"
    "rs_each rs_stage_step [nat mn..<nat (mx + 1)] (m4\<lparr>rs_z := rs_find_z mn mx m4\<rparr>) = Inr m6"
    "staged (m4\<lparr>rs_z := rs_find_z mn mx m4\<rparr>) (nat mn) (nat (mx + 1)) m6"
proof -
  note fits = ids_fitD [OF fit]
  let ?n = "ub_n_seqs ub" and ?N = "rs_size m1"
  have h: "rs_head m1 < ?N" using m1 by (simp add: rs_wf_def)
  have f: "first_id ub s < ?N" if "s < ?n" for s
    using fits [OF that] first_mem [of ub s] ok that by (simp add: sets_ok_def)
  have start: "assigned m1 (first_id ub ` {0..<0}) (int ?N - 1) 0 {} m1"
    using parts_start [OF m1] h by (auto simp: assigned_def)
  have "0 < ?n \<longrightarrow> search_ok m1 (rs_head m1) {} (rs_first_empty ?N (rs_head m1) m1)"
    using search_first [OF parts_start(1) [OF m1] h] by simp
  from assign_ok [OF refl first_inj [OF ok] f le0 refl start this] obtain e mn mx m2 Fr where a:
    "rs_assign ub [0..<?n] (rs_first_empty ?N (rs_head m1) m1, int ?N - 1, 0, m1) = Inr (e, mn, mx, m2)"
    "assigned m1 (first_id ub ` {0..<?n}) mn mx Fr m2" by blast
  have "0 < ?n" using ok by (simp add: sets_ok_def)
  from gather_ok [OF first_inj [OF ok] gathered_start [OF a(2) first_inj [OF ok] this]] obtain m3 where g:
    "rs_each (rs_gather_step ub mn) [0..<?n] m2 = Inr m3" "gathered ub m1 ?n mn mx Fr m3" by blast
  have r: "0 \<le> mn" "mx < int (rs_size m3)" "nat mn + ?n \<le> nat (mx + 1)" "rs_size m3 = ?N"
    using g(2) by (auto simp: gathered_def parts_def)
  have "nat mn + ?n \<le> rs_size m3" "ids_fit ub (rs_size m3)" using r fit by auto
  from place_ok [OF ok this] r(1) obtain m4 where p: "rs_each (rs_place_step ub mn) [0..<?n] m3 = Inr m4"
    "placed ub m3 (nat mn) ?n m4" by auto
  let ?m5 = "m4\<lparr>rs_z := rs_find_z mn mx m4\<rparr>"
  have s4: "rs_size m4 = rs_size m3" "mc_src (rs_cells m4 ! i) = mc_src (rs_cells m3 ! i)" if "i < rs_size m3" for i
    using p(2) that by (simp_all add: placed_def)
  have size4: "rs_size m4 = rs_size m3" using p(2) by (simp add: placed_def)
  have home: "home m4 i" if "i < rs_size m4" "int i < mn \<or> mx < int i" for i
  proof -
    have "i < rs_size m3" using that(1) size4 by simp
    then have "home m3 i" using g(2) that(2) unfolding gathered_def by blast
    then show ?thesis using s4 that(1) size4 by (simp add: home_def)
  qed
  have "\<exists>m'. rs_each rs_stage_step [nat mn..<nat (mx + 1)] ?m5 = Inr m' \<and> staged ?m5 (nat mn) (nat (mx + 1)) m'"
  proof (rule stage_ok)
    show "nat mn \<le> nat (mx + 1)" using r(3) by simp
    show "nat (mx + 1) \<le> rs_size ?m5" using r(2) size4 by simp
    fix i assume "nat mn \<le> i" "i < nat (mx + 1)" "mc_src (rs_cells ?m5 ! i) < 0"
    then have "0 \<le> rs_find_z mn mx m4"
      by (intro find_z_ok [of mn mx m4 i]) (use r size4 home in auto)
    then show "0 \<le> rs_z ?m5" by simp
  qed
  then obtain m6 where "rs_each rs_stage_step [nat mn..<nat (mx + 1)] ?m5 = Inr m6" "staged ?m5 (nat mn) (nat (mx + 1)) m6"
    by blast
  then show thesis by (rule that [OF a(1) g p])
qed

text \<open>The search either refuses a sequence that has no tail, or places every set.\<close>

lemma find_slot_result:
  assumes ok: "sets_ok ub" and m: "rs_wf m"
  shows "\<exists>m'. rs_find_slot ub m = Inr (ids_fit ub (rs_size m), m') \<and>
    rs_wf m' \<and> rs_size m' = rs_size m \<and>
    (ids_fit ub (rs_size m) \<longrightarrow>
      (\<forall>s < ub_n_seqs ub. \<forall>x \<in> set (ub_set_ids ub s).
         tail_of m' x = int (rs_head m' + s) \<and> rs_pos m' x = ub_last_pos ub s) \<and>
      (\<forall>x < rs_size m. others ub x \<longrightarrow> rs_pos m' x = rs_pos m x) \<and>
      (\<forall>s < ub_n_seqs ub. 0 \<le> tail_of m (first_id ub s) \<longrightarrow> rs_s_copy s m' = tail_of m (first_id ub s)))"
proof -
  let ?n = "ub_n_seqs ub"
  let ?m0 = "if rs_head m > (rs_used m + 2 * ?n) mod 2 ^ 32 then m\<lparr>rs_head := 0\<rparr> else m"
  obtain m0 where m0: "m0 = ?m0" by blast
  have c0: "rs_wf m0" "rs_size m0 = rs_size m" "rs_cells m0 = rs_cells m"
    using m head_reset_wf by (simp_all add: m0)
  let ?fit = "ids_fit ub (rs_size m)"
  have fitq: "(\<forall>s \<in> set [0..<?n]. \<forall>x \<in> set (ub_set_ids ub s). x < rs_size m0) = ?fit" by (auto simp: ids_fit_def c0(2))
  from clear_sets_ok [OF c0(1), of ub "[0..<?n]", unfolded fitq] obtain m1 A where c:
    "rs_clear_sets ub [0..<?n] m0 = Inr (?fit, m1)" "cleared A m0 m1"
    "?fit \<longrightarrow> A = (\<Union>s \<in> set [0..<?n]. set (tl (ub_set_ids ub s)))" by blast
  have eq: "ub_equal_seqs ub" using ok by (simp add: sets_ok_def)
  show ?thesis
  proof (cases ?fit)
    case False
    then have "rs_find_slot ub m = Inr (False, m1)"
      using c(1) eq unfolding rs_find_slot_def Let_def m0 [symmetric] by simp
    then show ?thesis using False cleared_wf [OF c(2)] c0(2) by auto
  next
    case True
    have size1: "rs_size m1 = rs_size m" using cleared_wf(2) [OF c(2)] c0(2) by simp
    have fit: "ids_fit ub (rs_size m1)" using True size1 by simp
    note fits = ids_fitD [OF fit]
    have A: "A = (\<Union>s \<in> set [0..<?n]. set (tl (ub_set_ids ub s)))" using c(3) True by blast
    have C: "tail_of m1 x = -1" if "x \<in> A" "x < rs_size m" for x using c(2) that c0 by (simp add: cleared_def)
    have C': "tail_of m1 x = tail_of m x" "rs_pos m1 x = rs_pos m x" if "x \<notin> A" "x < rs_size m" for x
    proof -
      have "rs_pos m0 x = rs_pos m x" by (simp add: rs_pos_def c0(3))
      then show "tail_of m1 x = tail_of m x" "rs_pos m1 x = rs_pos m x"
        using c(2) that c0(2,3) by (simp_all add: cleared_def)
    qed
    have none: "tail_of m1 x = -1" if "s < ?n" "x \<in> set (ub_set_ids ub s)" "x \<noteq> first_id ub s" for s x
    proof (rule C)
      have "ub_set_ids ub s \<noteq> []" using that(2) by auto
      then have "x \<in> set (tl (ub_set_ids ub s))" using that(2,3) first_in_set [of ub s] by (cases "ub_set_ids ub s") auto
      then show "x \<in> A" using A that(1) by auto
    qed (use fits that size1 in auto)
    then have free: "later_free ub m1" by (simp add: later_free_def)
    obtain e mn mx m2 m3 m4 m6 Fr where r:
      "rs_assign ub [0..<?n] (rs_first_empty (rs_size m1) (rs_head m1) m1, int (rs_size m1) - 1, 0, m1) = Inr (e, mn, mx, m2)"
      "rs_each (rs_gather_step ub mn) [0..<?n] m2 = Inr m3" "gathered ub m1 ?n mn mx Fr m3"
      "rs_each (rs_place_step ub mn) [0..<?n] m3 = Inr m4" "placed ub m3 (nat mn) ?n m4"
      "rs_each rs_stage_step [nat mn..<nat (mx + 1)] (m4\<lparr>rs_z := rs_find_z mn mx m4\<rparr>) = Inr m6"
      "staged (m4\<lparr>rs_z := rs_find_z mn mx m4\<rparr>) (nat mn) (nat (mx + 1)) m6"
      by (rule find_slot_phases [OF ok cleared_wf(1) [OF c(2)] fit free])
    obtain M where M: "M = m6\<lparr>rs_head := nat mn, rs_n := nat (mx - mn + 1), rs_used := rs_count_used m6\<rparr>" by blast
    have mn: "int (nat mn) = mn" "?n \<le> nat (mx - mn + 1)" "rs_size m3 = rs_size m1"
      using r(3) by (auto simp: gathered_def parts_def)
    have res: "rs_find_slot ub m = Inr (True, M)"
      using c(1) eq True r(1,2,4,6) mn(2) unfolding rs_find_slot_def Let_def m0 [symmetric] M by simp
    have fit3: "ids_fit ub (rs_size m3)" using fit mn(3) by simp
    have g: "gathered ub m1 ?n (int (nat mn)) mx Fr m3" using r(3) mn(1) by simp
    note fin = finish_wf [OF ok cleared_wf(1) [OF c(2)] g r(5) fit3 free r(7) _ M, simplified]
    have others: "rs_pos M x = rs_pos m x" if "x < rs_size m" "others ub x" for x
    proof -
      have "x \<notin> A" using that(2) A tl_subset by (fastforce simp: others_def)
      then show ?thesis using fin(4) [of x] that size1 C' by simp
    qed
    have copy: "rs_s_copy s M = tail_of m (first_id ub s)" if s: "s < ?n" "0 \<le> tail_of m (first_id ub s)" for s
    proof -
      have "ub_set_ids ub t \<noteq> []" if "t < ?n" for t using ok that by (simp add: sets_ok_def)
      note mem = first_mem [OF this]
      have "first_id ub s \<notin> set (tl (ub_set_ids ub t))" if t: "t < ?n" for t
      proof
        assume in_tl: "first_id ub s \<in> set (tl (ub_set_ids ub t))"
        have both: "first_id ub s \<in> set (ub_set_ids ub t) \<inter> set (ub_set_ids ub s)"
          by (rule IntI [OF subsetD [OF tl_subset in_tl] mem [OF s(1)]])
        have ts: "t = s"
        proof (rule ccontr)
          assume "t \<noteq> s"
          from both show False unfolding sets_disjoint [OF ok t s(1) \<open>t \<noteq> s\<close>] by (rule emptyE)
        qed
        obtain L where L: "ub_set_ids ub s = first_id ub s # L"
          using first_in_set [of ub s] mem [OF s(1)] by (cases "ub_set_ids ub s") auto
        show False using set_distinct [OF ok s(1)] in_tl unfolding ts L by simp
      qed
      then have "first_id ub s \<notin> A" using A by auto
      moreover have "first_id ub s < rs_size m" using fits [OF s(1) mem [OF s(1)]] size1 by simp
      ultimately show ?thesis using fin(5) [OF s(1)] C' s(2) by simp
    qed
    have head: "rs_head M = nat mn" by (simp add: M)
    show ?thesis
      using res True fin(1,2,3) others copy size1 head by (intro exI [of _ M]) simp
  qed
qed

end
