(* ===== verification/RecurrentMemory.thy ===== *)
theory RecurrentMemory
  imports RecurrentFind
begin

text \<open>
  The recurrent memory as a state machine and its properties: every state that the operations reach
  is well formed, the search for a slot never fails there, the dry run is undone. Removing the
  cells of all sequences leads out of these states.
\<close>

section \<open>Reachable memories\<close>

text \<open>
  One operation, with any arguments but these: the removal of the whole range of all sequences at once,
  a shift that moves a position of the sequence below 0, a division by a number that is not positive, and a
  micro-batch that is not made of equally long, non-empty and disjoint sets of sequences with positions from 0
  on. Sequence ids are 32-bit numbers, also negative or beyond the cells.
\<close>

inductive rs_step :: "llama_memory_recurrent \<Rightarrow> llama_memory_recurrent \<Rightarrow> bool" where
  clear: "rs_step m (rs_clear m)"
| rm: "\<not> (s < 0 \<and> range_lo p0 = 0 \<and> range_hi p1 = INT32_MAX) \<Longrightarrow> rs_seq_rm s p0 p1 m = Inr (r, m') \<Longrightarrow> rs_step m m'"
| cp: "- (2 ^ 31) \<le> s \<Longrightarrow> s < 2 ^ 31 \<Longrightarrow> - (2 ^ 31) \<le> d \<Longrightarrow> d < 2 ^ 31 \<Longrightarrow> rs_seq_cp s d p0 p1 m = Inr m' \<Longrightarrow> rs_step m m'"
| keep: "rs_step m (rs_seq_keep s m)"
| add: "(0 \<le> s \<and> s < int (rs_size m) \<and> rs_pos m (nat s) \<in> rng p0 p1 \<longrightarrow> 0 \<le> rs_pos m (nat s) + d) \<Longrightarrow>
    rs_seq_add s p0 p1 d m = Inr m' \<Longrightarrow> rs_step m m'"
| divide: "0 < d \<Longrightarrow> rs_seq_div s p0 p1 d m = Inr m' \<Longrightarrow> rs_step m m'"
| slot: "sets_ok ub \<Longrightarrow> rs_find_slot ub m = Inr (r, m') \<Longrightarrow> rs_step m m'"

inductive rs_reached :: "nat \<Rightarrow> llama_memory_recurrent \<Rightarrow> bool" for n where
  new: "rs_reached n (memory_recurrent_new n)"
| step: "rs_reached n m \<Longrightarrow> rs_step m m' \<Longrightarrow> rs_reached n m'"

lemma u32_small:
  assumes "- (2 ^ 31) \<le> x" "x < 2 ^ 31"
  shows "u32 x = (if 0 \<le> x then nat x else nat (x + 2 ^ 32))"
  using assms mod_pos_pos_trivial [of x "2 ^ 32"] mod_pos_pos_trivial [of "x + 2 ^ 32" "2 ^ 32"]
  by (auto simp: u32_def)

lemma step_wf:
  assumes "rs_step m m'" and m: "rs_wf m"
  shows "rs_wf m' \<and> rs_size m' = rs_size m"
  using assms(1)
proof cases
  case clear
  then show ?thesis using clear_wf [OF m] by simp
next
  case (rm s p0 p1 r)
  show ?thesis
  proof (cases "s < 0")
    case True
    then show ?thesis using seq_rm_negative [OF True, of p0 p1 m] rm m by auto
  next
    case False
    then show ?thesis using seq_rm_result [OF m _ refl, of s p0 p1] rm(2) by auto
  qed
next
  case (cp s d p0 p1)
  have u: "u32 x < rs_size m \<longleftrightarrow> 0 \<le> x \<and> x < int (rs_size m)" if "- (2 ^ 31) \<le> x" "x < 2 ^ 31" for x
    using u32_small [OF that] that m by (auto simp: rs_wf_def)
  show ?thesis
  proof (cases "s = d \<or> \<not> (u32 d < rs_size m \<and> u32 s < rs_size m)")
    case True
    then show ?thesis using cp(5) m by (auto simp: rs_seq_cp_def split: if_splits)
  next
    case False
    then obtain i j where "s = int i" "d = int j" "i < rs_size m" "j < rs_size m" "i \<noteq> j"
      using u [OF cp(1,2)] u [OF cp(3,4)] by (auto elim!: nonneg_int_cases)
    then show ?thesis using seq_cp_result [OF m, of i j p0 p1] cp(5) by auto
  qed
next
  case (keep s)
  then show ?thesis using seq_keep_result [OF m] by simp
next
  case (add s p0 p1 d)
  show ?thesis
  proof (cases "0 \<le> s \<and> s < int (rs_size m)")
    case True
    then show ?thesis using seq_add_result [OF m, of "nat s" p0 p1 d] add by auto
  next
    case False
    then have "rs_seq_add s p0 p1 d m = Inr m" by (simp add: rs_seq_add_def move_pos_outside)
    then show ?thesis using add(2) m by simp
  qed
next
  case (divide d s p0 p1)
  show ?thesis
  proof (cases "0 \<le> s \<and> s < int (rs_size m)")
    case True
    then show ?thesis using seq_div_result [OF m, of "nat s" d p0 p1] divide by auto
  next
    case False
    then have "rs_seq_div s p0 p1 d m = Inr m" by (simp add: rs_seq_div_def move_pos_outside)
    then show ?thesis using divide(2) m by simp
  qed
next
  case (slot ub r)
  then show ?thesis using find_slot_result [OF slot(1) m] by auto
qed

lemma reached_wf: "rs_reached n m \<Longrightarrow> 0 < n \<Longrightarrow> n \<le> 2 ^ 31 \<Longrightarrow> rs_wf m \<and> rs_size m = n"
proof (induction rule: rs_reached.induct)
  case new
  then show ?case using new_wf by (simp add: memory_recurrent_new_def rs_size_def)
qed (use step_wf in auto)

lemma wf_same:
  "rs_cells m' = rs_cells m \<Longrightarrow> rs_used m' = rs_used m \<Longrightarrow> rs_head m' = rs_head m \<Longrightarrow> rs_wf m' = rs_wf m"
  by (simp add: rs_wf_def rs_size_def tails_ok_def cell_ok_def owners_def rs_count_used_def)

lemma find_all_result:
  "rs_wf m \<Longrightarrow> \<forall>ub \<in> set ubs. sets_ok ub \<Longrightarrow>
    \<exists>m'. rs_find_all ubs m = Inr (\<forall>ub \<in> set ubs. ids_fit ub (rs_size m), m') \<and> rs_wf m' \<and> rs_size m' = rs_size m"
proof (induction ubs arbitrary: m)
  case (Cons ub ubs)
  from find_slot_result [OF _ Cons.prems(1), of ub] Cons.prems(2) obtain x where x:
    "rs_find_slot ub m = Inr (ids_fit ub (rs_size m), x)" "rs_wf x" "rs_size x = rs_size m" by auto
  show ?case
  proof (cases "ids_fit ub (rs_size m)")
    case True
    from Cons.IH [OF x(2)] Cons.prems(2) x(3) obtain m' where
      "rs_find_all ubs x = Inr (\<forall>ub \<in> set ubs. ids_fit ub (rs_size m), m')" "rs_wf m'" "rs_size m' = rs_size m" by auto
    then show ?thesis using x True by (intro exI [of _ m']) simp
  qed (use x in simp)
qed simp

section \<open>Removing all sequences\<close>

lemma rm_all_step:
  assumes "i < rs_size m"
  shows "\<exists>y h'. rs_rm_step (-1) p0 p1 i (m, h) = (y, h') \<and> rs_size y = rs_size m \<and> (\<forall>j. tail_of y j = tail_of m j) \<and>
    (\<forall>j. j \<noteq> i \<longrightarrow> rs_cells y ! j = rs_cells m ! j) \<and> (p0 \<le> pos_of m i \<and> pos_of m i < p1 \<longrightarrow> ids_of y i = {})"
  using assms by (cases "p0 \<le> pos_of m i \<and> pos_of m i < p1") (simp_all add: rs_rm_step_def Let_def is_empty_cell_def, auto)

lemma rm_all_fold:
  fixes m :: llama_memory_recurrent
  shows "k \<le> rs_size m \<Longrightarrow> \<exists>m' h. fold (rs_rm_step (-1) 0 p1) [0..<k] (m, h0) = (m', h) \<and> rs_size m' = rs_size m \<and>
    (\<forall>i. tail_of m' i = tail_of m i) \<and> (\<forall>i \<ge> k. rs_cells m' ! i = rs_cells m ! i) \<and>
    (\<forall>i < k. 0 \<le> pos_of m i \<and> pos_of m i < p1 \<longrightarrow> ids_of m' i = {})"
proof (induction k)
  case (Suc k)
  then obtain x h where x: "fold (rs_rm_step (-1) 0 p1) [0..<k] (m, h0) = (x, h)" "rs_size x = rs_size m"
      "\<forall>i. tail_of x i = tail_of m i" "\<forall>i \<ge> k. rs_cells x ! i = rs_cells m ! i"
      "\<forall>i < k. 0 \<le> pos_of m i \<and> pos_of m i < p1 \<longrightarrow> ids_of x i = {}" by auto
  have k: "k < rs_size x" using Suc.prems x(2) by simp
  have xk: "pos_of x k = pos_of m k" using x(4) by simp
  from rm_all_step [OF k, of 0 p1 h, unfolded xk] obtain y h' where y: "rs_rm_step (-1) 0 p1 k (x, h) = (y, h')" "rs_size y = rs_size x"
    "\<forall>j. tail_of y j = tail_of x j" "\<forall>j. j \<noteq> k \<longrightarrow> rs_cells y ! j = rs_cells x ! j"
    "0 \<le> pos_of m k \<and> pos_of m k < p1 \<longrightarrow> ids_of y k = {}" by blast
  have "fold (rs_rm_step (-1) 0 p1) [0..<Suc k] (m, h0) = (y, h')" using x(1) y(1) by simp
  moreover have "\<forall>i \<ge> Suc k. rs_cells y ! i = rs_cells m ! i" using x(4) y(4) by simp
  moreover have "\<forall>i < Suc k. 0 \<le> pos_of m i \<and> pos_of m i < p1 \<longrightarrow> ids_of y i = {}"
    using x(5) y(4,5) by (simp add: less_Suc_eq)
  ultimately show ?case using x(2,3) y(2,3) by auto
qed simp

lemma rm_all_result:
  "\<exists>m'. rs_seq_rm (-1) (-1) (-1) m = Inr (True, m') \<and> rs_size m' = rs_size m \<and> (\<forall>i. tail_of m' i = tail_of m i) \<and>
    (\<forall>i < rs_size m. 0 \<le> pos_of m i \<and> pos_of m i < INT32_MAX \<longrightarrow> ids_of m' i = {})"
proof -
  obtain x h where "fold (rs_rm_step (-1) 0 INT32_MAX) [0..<rs_size m] (m, rs_size m) = (x, h)" "rs_size x = rs_size m"
      "\<forall>i. tail_of x i = tail_of m i" "\<forall>i < rs_size m. 0 \<le> pos_of m i \<and> pos_of m i < INT32_MAX \<longrightarrow> ids_of x i = {}"
    using rm_all_fold [OF order_refl, of INT32_MAX m "rs_size m"] by auto
  then show ?thesis by (simp add: rs_seq_rm_def rs_rm_loop_def range_lo_def range_hi_def Let_def)
qed

lemma dangling_aborts:
  assumes ok: "sets_ok ub" and one: "ub_n_seqs ub = 1" "ub_set_ids ub 0 = [s]" and s: "s < rs_size m"
    and t: "0 \<le> tail_of m s" "tail_of m s < int (rs_size m)" "ids_of m (nat (tail_of m s)) = {}"
  shows "rs_find_slot ub m = Inl (Ggml_assert ''cell.has_seq_id(seq_id)'')"
proof -
  obtain m0 where m0: "m0 = (if rs_head m > (rs_used m + 2 * ub_n_seqs ub) mod 2 ^ 32 then m\<lparr>rs_head := 0\<rparr> else m)" by blast
  have c: "rs_cells m0 = rs_cells m" "rs_size m0 = rs_size m" by (simp_all add: m0)
  have f: "ub_seq_id ub ! 0 ! 0 = s" using first_in_set [of ub 0] one(2) by (simp add: first_id_def)
  have "rs_clear_sets ub [0..<ub_n_seqs ub] m0 = Inr (True, m0)" using one s c by simp
  moreover have "rs_at m0 (tail_of m0 s) = Inr (rs_cells m ! nat (tail_of m s))" using rs_at_ok [of "tail_of m s" m0] t c by simp
  then have "rs_assign ub [0..<ub_n_seqs ub] (e, mn, mx, m0) = Inl (Ggml_assert ''cell.has_seq_id(seq_id)'')" for e mn mx
    using one f t c by (simp add: rs_assign_step_def Let_def)
  moreover have "ub_equal_seqs ub" using ok by (simp add: sets_ok_def)
  ultimately show ?thesis unfolding rs_find_slot_def Let_def m0 [symmetric] by simp
qed

section \<open>A memory with three cells\<close>

text \<open>A micro-batch with the sets \<open>{2, 0}\<close> and \<open>{1}\<close>, and one for sequence 0 alone.\<close>

definition demo_rs_ub :: llama_ubatch where
  "demo_rs_ub = ub_none\<lparr>ub_equal_seqs := True, ub_n_tokens := 2, ub_n_seq_tokens := 1, ub_n_seqs := 2,
     ub_pos := [4, 7], ub_n_seq_id := [2, 1], ub_seq_id := [[2, 0], [1]]\<rparr>"

definition demo_rs_one :: llama_ubatch where
  "demo_rs_one = ub_none\<lparr>ub_equal_seqs := True, ub_n_tokens := 1, ub_n_seq_tokens := 1, ub_n_seqs := 1,
     ub_pos := [8], ub_n_seq_id := [1], ub_seq_id := [[0]]\<rparr>"

definition demo_rs :: llama_memory_recurrent where
  "demo_rs = (case rs_find_slot demo_rs_ub (memory_recurrent_new 3) of Inr (_, m) \<Rightarrow> m | Inl _ \<Rightarrow> memory_recurrent_new 3)"

lemma demo_sets [simp]:
  "ub_set_ids demo_rs_ub 0 = [2, 0]" "ub_set_ids demo_rs_ub (Suc 0) = [1]" "ub_n_seqs demo_rs_ub = 2"
  "ub_last_pos demo_rs_ub 0 = 4" "ub_last_pos demo_rs_ub (Suc 0) = 7"
  "ub_set_ids demo_rs_one 0 = [0]" "ub_n_seqs demo_rs_one = 1" "ub_last_pos demo_rs_one 0 = 8"
  by (simp_all add: demo_rs_ub_def demo_rs_one_def ub_set_ids_def ub_last_pos_def)

lemma less_two: "s < (2::nat) \<longleftrightarrow> s = 0 \<or> s = Suc 0"
  by auto

lemma demo_ok: "sets_ok demo_rs_ub" "sets_ok demo_rs_one" "ids_fit demo_rs_ub 3"
  by (auto simp: sets_ok_def less_two ids_fit_def upt_rec) (simp_all add: demo_rs_ub_def demo_rs_one_def)

lemma demo_new: "rs_wf (memory_recurrent_new 3)" "rs_size (memory_recurrent_new 3) = 3"
  using new_wf [of 3] by (simp_all add: memory_recurrent_new_def rs_size_def)

lemma demo_found:
  "rs_find_slot demo_rs_ub (memory_recurrent_new 3) = Inr (True, demo_rs)" "rs_wf demo_rs" "rs_size demo_rs = 3"
  "rs_pos demo_rs 0 = 4" "rs_pos demo_rs 1 = 7" "rs_pos demo_rs 2 = 4"
proof -
  obtain m where m: "rs_find_slot demo_rs_ub (memory_recurrent_new 3) = Inr (True, m)" "rs_wf m" "rs_size m = 3"
      "\<forall>s < ub_n_seqs demo_rs_ub. \<forall>x \<in> set (ub_set_ids demo_rs_ub s). rs_pos m x = ub_last_pos demo_rs_ub s"
    using find_slot_result [OF demo_ok(1) demo_new(1)] demo_new(2) demo_ok(3) by auto
  then have "demo_rs = m" by (simp add: demo_rs_def)
  then show "rs_find_slot demo_rs_ub (memory_recurrent_new 3) = Inr (True, demo_rs)" "rs_wf demo_rs" "rs_size demo_rs = 3"
      "rs_pos demo_rs 0 = 4" "rs_pos demo_rs 1 = 7" "rs_pos demo_rs 2 = 4"
    using m by (auto simp: less_two)
qed

lemma demo_tail: "0 \<le> rs_pos m s \<Longrightarrow> 0 \<le> tail_of m s"
  by (simp add: rs_pos_def split: if_splits)

section \<open>Properties\<close>

text \<open>
  C11. The search for a slot never faults in a well-formed recurrent memory: it refuses exactly the
  micro-batches with a sequence id beyond the cells, and otherwise places set \<open>s\<close> in cell
  \<open>head + s\<close>, so that each of its sequences is there with its last position, takes the state of a
  set from the cell where its first sequence was, and keeps the position of every other sequence.
\<close>

theorem recurrent_find_slot:
  assumes "rs_wf m" and "sets_ok ub"
  shows "\<exists>m'. rs_find_slot ub m = Inr (ids_fit ub (rs_size m), m') \<and> rs_wf m' \<and> rs_size m' = rs_size m \<and>
    (ids_fit ub (rs_size m) \<longrightarrow>
      (\<forall>s < ub_n_seqs ub. \<forall>x \<in> set (ub_set_ids ub s).
         mc_tail (rs_cells m' ! x) = int (rs_head m' + s) \<and> rs_pos m' x = ub_last_pos ub s) \<and>
      (\<forall>x < rs_size m. others ub x \<longrightarrow> rs_pos m' x = rs_pos m x) \<and>
      (\<forall>s < ub_n_seqs ub. 0 \<le> mc_tail (rs_cells m ! first_id ub s) \<longrightarrow>
         rs_s_copy s m' = mc_tail (rs_cells m ! first_id ub s)))"
  by (rule find_slot_result [OF assms(2,1)])

theorem recurrent_find_slot_witness:
  "\<exists>m'. rs_find_slot demo_rs_one demo_rs = Inr (True, m') \<and> rs_wf m' \<and> rs_pos m' 0 = 8 \<and> rs_pos m' 1 = 7 \<and>
    rs_pos m' 2 = 4 \<and> rs_s_copy 0 m' = mc_tail (rs_cells demo_rs ! 0)"
proof -
  have fit: "ids_fit demo_rs_one (rs_size demo_rs) = True" by (simp add: ids_fit_def demo_found(3))
  obtain m' where m': "rs_find_slot demo_rs_one demo_rs = Inr (True, m')" "rs_wf m'"
      "\<forall>s < ub_n_seqs demo_rs_one. \<forall>x \<in> set (ub_set_ids demo_rs_one s). rs_pos m' x = ub_last_pos demo_rs_one s"
      "\<forall>x < rs_size demo_rs. others demo_rs_one x \<longrightarrow> rs_pos m' x = rs_pos demo_rs x"
      "\<forall>s < ub_n_seqs demo_rs_one. 0 \<le> mc_tail (rs_cells demo_rs ! first_id demo_rs_one s) \<longrightarrow>
         rs_s_copy s m' = mc_tail (rs_cells demo_rs ! first_id demo_rs_one s)"
    using recurrent_find_slot [OF demo_found(2) demo_ok(2)] unfolding fit by auto
  have "first_id demo_rs_one 0 = 0" by (simp add: first_id_def demo_rs_one_def)
  moreover have "0 \<le> tail_of demo_rs 0" by (rule demo_tail) (simp add: demo_found)
  moreover have "others demo_rs_one 1" "others demo_rs_one 2" by (simp_all add: others_def)
  ultimately show ?thesis using m' demo_found(3-6) by (intro exI [of _ m']) auto
qed

text \<open>
  C12. Whatever sequence operations and micro-batches a recurrent memory (of 1 to 2 to the 31 cells) has gone through, apart from the removal of
  all sequences at once (after which the search aborts), shifts below position 0 and divisions by a number that is
  not positive, its cells, tails, positions, sources and counts agree, and the search for a slot returns for every
  micro-batch of equally long, non-empty and disjoint sets of sequences with positions from 0 on.
\<close>

theorem recurrent_stays_ok:
  assumes "rs_reached n m" and "0 < n" and "n \<le> 2 ^ 31" and "sets_ok ub"
  shows "rs_wf m \<and> rs_size m = n \<and> (\<exists>m'. rs_find_slot ub m = Inr (ids_fit ub n, m') \<and> rs_reached n m')"
proof -
  have m: "rs_wf m" "rs_size m = n" using reached_wf [OF assms(1-3)] by simp_all
  obtain m' where "rs_find_slot ub m = Inr (ids_fit ub (rs_size m), m')" using find_slot_result [OF assms(4) m(1)] by blast
  then show ?thesis using m rs_reached.step [OF assms(1) slot [OF assms(4)]] by auto
qed

theorem recurrent_stays_ok_witness:
  "rs_wf (rs_seq_keep 1 demo_rs) \<and> (\<exists>m'. rs_find_slot demo_rs_one (rs_seq_keep 1 demo_rs) = Inr (ids_fit demo_rs_one 3, m'))"
proof -
  have "rs_reached 3 demo_rs" by (rule rs_reached.step [OF rs_reached.new slot [OF demo_ok(1) demo_found(1)]])
  then have "rs_reached 3 (rs_seq_keep 1 demo_rs)" by (rule rs_reached.step [OF _ rs_step.keep])
  from recurrent_stays_ok [OF this _ _ demo_ok(2)] show ?thesis by auto
qed

text \<open>
  C28. \<open>seq_rm\<close> on a recurrent memory refuses a range that holds the position of the sequence without
  starting at 0, and then changes nothing; otherwise it removes the sequence when its position is in the
  range. No other sequence changes.
\<close>

theorem recurrent_seq_rm:
  assumes "rs_wf m" and "0 \<le> s" and "s < int (rs_size m)"
  shows "\<exists>m'. rs_seq_rm s p0 p1 m =
      Inr (\<not> (0 < p0 \<and> p0 \<le> rs_pos m (nat s) \<and> rs_pos m (nat s) < range_hi p1), m') \<and> rs_wf m' \<and>
    (0 < p0 \<and> p0 \<le> rs_pos m (nat s) \<and> rs_pos m (nat s) < range_hi p1 \<longrightarrow> m' = m) \<and>
    (\<forall>t < rs_size m. rs_pos m' t = (if int t = s \<and> p0 \<le> 0 \<and> rs_pos m t < range_hi p1 then -1 else rs_pos m t))"
proof -
  let ?p = "rs_pos m (nat s)"
  have part: "(0 < range_lo p0 \<and> ?p \<in> rng p0 p1) \<longleftrightarrow> (0 < p0 \<and> p0 \<le> ?p \<and> ?p < range_hi p1)"
    by (auto simp: range_lo_def rng_def)
  have nonneg: "0 \<le> ?p \<or> ?p = -1" using pos_nonneg [OF assms(1)] assms(2,3) by (auto simp: rs_pos_def)
  have drop: "(\<not> (0 < p0 \<and> p0 \<le> ?p \<and> ?p < range_hi p1) \<and> ?p \<in> rng p0 p1) \<longleftrightarrow> (p0 \<le> 0 \<and> 0 \<le> ?p \<and> ?p < range_hi p1)"
    by (auto simp: range_lo_def rng_def)
  obtain m' where m': "rs_seq_rm s p0 p1 m = Inr (\<not> (0 < p0 \<and> p0 \<le> ?p \<and> ?p < range_hi p1), m')" "rs_wf m'"
      "0 < p0 \<and> p0 \<le> ?p \<and> ?p < range_hi p1 \<longrightarrow> m' = m"
      "\<forall>t < rs_size m. rs_pos m' t =
        (if \<not> (0 < p0 \<and> p0 \<le> ?p \<and> ?p < range_hi p1) \<and> int t = s \<and> rs_pos m t \<in> rng p0 p1 then -1 else rs_pos m t)"
    using seq_rm_result [OF assms(1,2) refl, of p0 p1] assms(3) unfolding part by auto
  have "rs_pos m' t = (if int t = s \<and> p0 \<le> 0 \<and> rs_pos m t < range_hi p1 then -1 else rs_pos m t)" if "t < rs_size m" for t
  proof (cases "int t = s")
    case True
    then have "nat s = t" by simp
    then show ?thesis using m'(4) that drop nonneg True by auto
  qed (use m'(4) that in simp)
  then show ?thesis using m' by blast
qed

theorem recurrent_seq_rm_witness:
  "\<exists>m'. rs_seq_rm 0 (-1) (-1) demo_rs = Inr (True, m') \<and> rs_pos m' 0 = -1 \<and> rs_pos m' 2 = 4"
proof -
  obtain m' where m': "rs_seq_rm 0 (-1) (-1) demo_rs = Inr (True, m')"
      "\<forall>t < rs_size demo_rs. rs_pos m' t = (if int t = 0 \<and> (-1::int) \<le> 0 \<and> rs_pos demo_rs t < range_hi (-1) then -1 else rs_pos demo_rs t)"
    using recurrent_seq_rm [OF demo_found(2), of 0 "-1" "-1"] by (auto simp: demo_found)
  then show ?thesis using demo_found(3-6) by (intro exI [of _ m']) (simp add: range_hi_def INT32_MAX_def)
qed

text \<open>
  The dry run of a recurrent memory over all micro-batches gives back the cells, the head and the
  count, and reports success exactly when all sequence ids have a cell.
\<close>

lemma recurrent_prepare_undoes:
  assumes "rs_wf m" and "\<forall>ub \<in> set ubs. sets_ok ub"
  shows "\<exists>m'. rs_prepare ubs m = Inr (\<forall>ub \<in> set ubs. ids_fit ub (rs_size m), m') \<and> rs_wf m' \<and>
    rs_cells m' = rs_cells m \<and> rs_used m' = rs_used m \<and> rs_head m' = rs_head m"
proof -
  obtain x where x: "rs_find_all ubs m = Inr (\<forall>ub \<in> set ubs. ids_fit ub (rs_size m), x)"
    using find_all_result [OF assms] by blast
  let ?m' = "x\<lparr>rs_cells := rs_cells m, rs_used := rs_used m, rs_head := rs_head m\<rparr>"
  have "rs_wf ?m'" using wf_same [of ?m' m] assms(1) by simp
  then show ?thesis using x by (simp add: rs_prepare_def)
qed

lemma recurrent_prepare_undoes_witness:
  "\<exists>m'. rs_prepare [demo_rs_ub, demo_rs_one] (memory_recurrent_new 3) = Inr (True, m') \<and>
    rs_cells m' = rs_cells (memory_recurrent_new 3)"
proof -
  have "\<forall>ub \<in> set [demo_rs_ub, demo_rs_one]. ids_fit ub (rs_size (memory_recurrent_new 3))"
    using demo_ok(3) by (simp add: demo_new(2) ids_fit_def)
  then show ?thesis
    using recurrent_prepare_undoes [OF demo_new(1), of "[demo_rs_ub, demo_rs_one]"] demo_ok(1,2) by auto
qed

text \<open>
  C40. Removing the cells of all sequences (a negative sequence id with the whole range) keeps the tails: the
  next micro-batch of a sequence that had a cell fails the assertion \<open>cell.has_seq_id(seq_id)\<close>, which
  ends the process.
\<close>

theorem recurrent_rm_all_aborts:
  assumes "rs_wf m" and "s < rs_size m" and "0 \<le> rs_pos m s" and "rs_pos m s < INT32_MAX"
    and "sets_ok ub" and "ub_n_seqs ub = 1" and "ub_set_ids ub 0 = [s]"
  shows "\<exists>m'. rs_seq_rm (-1) (-1) (-1) m = Inr (True, m') \<and>
    rs_find_slot ub m' = Inl (Ggml_assert ''cell.has_seq_id(seq_id)'')"
proof -
  have t: "0 \<le> tail_of m s" by (rule demo_tail [OF assms(3)])
  have tn: "nat (tail_of m s) < rs_size m" "tail_of m s < int (rs_size m)" using wf_tail(1) [OF assms(1,2) t] t by simp_all
  have p: "rs_pos m s = pos_of m (nat (tail_of m s))" using t by (simp add: rs_pos_def)
  obtain m' where m': "rs_seq_rm (-1) (-1) (-1) m = Inr (True, m')" "rs_size m' = rs_size m" "\<forall>i. tail_of m' i = tail_of m i"
      "\<forall>i < rs_size m. 0 \<le> pos_of m i \<and> pos_of m i < INT32_MAX \<longrightarrow> ids_of m' i = {}"
    using rm_all_result by blast
  then have "ids_of m' (nat (tail_of m' s)) = {}" using tn(1) assms(3,4) p by simp
  then have "rs_find_slot ub m' = Inl (Ggml_assert ''cell.has_seq_id(seq_id)'')"
    by (intro dangling_aborts [OF assms(5-7)]) (use assms(2) m' t tn in simp_all)
  then show ?thesis using m'(1) by blast
qed

theorem recurrent_rm_all_aborts_witness:
  "\<exists>m'. rs_seq_rm (-1) (-1) (-1) demo_rs = Inr (True, m') \<and>
    rs_find_slot demo_rs_one m' = Inl (Ggml_assert ''cell.has_seq_id(seq_id)'')"
  by (rule recurrent_rm_all_aborts [OF demo_found(2), of 0])
    (simp_all add: demo_found demo_ok INT32_MAX_def)

text \<open>
  After a copy two sequences share a cell, so that moving the positions of one moves the other too,
  although the interface speaks of the tokens of the given sequence.
\<close>

lemma recurrent_add_moves_shared:
  "\<exists>m'. rs_seq_add 0 (-1) (-1) 3 demo_rs = Inr m' \<and> rs_pos m' 0 = 7 \<and> rs_pos m' 2 = 7"
proof -
  have found: "\<forall>s < ub_n_seqs demo_rs_ub. \<forall>x \<in> set (ub_set_ids demo_rs_ub s). tail_of demo_rs x = int (rs_head demo_rs + s)"
    using find_slot_result [OF demo_ok(1) demo_new(1)] demo_new(2) demo_ok(3) demo_found(1) by auto
  then have "tail_of demo_rs 2 = tail_of demo_rs 0" "0 \<le> tail_of demo_rs 0" by (auto simp: less_two)
  then show ?thesis
    using seq_add_result [OF demo_found(2), of 0 "-1" "-1" 3]
    by (auto simp: demo_found rng_def range_lo_def range_hi_def INT32_MAX_def)
qed

end
