(* ===== verification/ServerTokens.thy ===== *)
theory ServerTokens
  imports Prelude
begin

text \<open>
  The prompt of a slot (\<open>tools/server/server-common.h\<close> and \<open>server-common.cpp\<close>, struct
  \<open>server_tokens\<close>): text tokens and the places that media chunks (\<open>tools/mtmd/mtmd.cpp\<close>) take among
  them. A media chunk takes a number of tokens, all \<open>LLAMA_TOKEN_NULL\<close>, and a number of positions
  that may differ from it. The abstract view is a list of pieces, one per text token and one per
  chunk; the operations are shown to be operations of that list, or where they are not.
\<close>

section \<open>Media chunks\<close>

text \<open>The preprocessed patches of a chunk are a value of \<open>'f\<close>: they are only copied.\<close>

record 'f mtmd_image_tokens =
  im_nx :: nat
  im_ny :: nat
  im_use_mrope_pos :: bool
  im_batch_f32 :: 'f
  im_id :: string

record 'f mtmd_audio_tokens =
  au_n_tokens :: nat
  au_batch_f32 :: 'f
  au_id :: string

datatype 'f mtmd_input_chunk =
    Chunk_text "llama_token list"
  | Chunk_image "'f mtmd_image_tokens"
  | Chunk_audio "'f mtmd_audio_tokens"

text \<open>The product of the two 32-bit sizes wraps.\<close>

definition image_n_tokens :: "'f mtmd_image_tokens \<Rightarrow> nat" where
  "image_n_tokens im = (im_nx im * im_ny im) mod 2 ^ 32"

definition image_n_pos :: "'f mtmd_image_tokens \<Rightarrow> llama_pos" where
  "image_n_pos im =
    (if im_use_mrope_pos im then int (max (im_nx im) (im_ny im)) else int (image_n_tokens im))"

fun chunk_n_tokens :: "'f mtmd_input_chunk \<Rightarrow> nat" where
  "chunk_n_tokens (Chunk_text ts) = length ts"
| "chunk_n_tokens (Chunk_image im) = image_n_tokens im"
| "chunk_n_tokens (Chunk_audio au) = au_n_tokens au"

fun chunk_n_pos :: "'f mtmd_input_chunk \<Rightarrow> llama_pos" where
  "chunk_n_pos (Chunk_text ts) = int (length ts)"
| "chunk_n_pos (Chunk_image im) = image_n_pos im"
| "chunk_n_pos (Chunk_audio au) = int (au_n_tokens au)"

text \<open>A text chunk has no id (a null pointer in C++).\<close>

fun chunk_id :: "'f mtmd_input_chunk \<Rightarrow> string option" where
  "chunk_id (Chunk_text ts) = None"
| "chunk_id (Chunk_image im) = Some (im_id im)"
| "chunk_id (Chunk_audio au) = Some (au_id au)"

section \<open>The token list of a prompt\<close>

text \<open>\<open>std::map\<close> from the start index of a chunk to the chunk, as its entries in key order.\<close>

record 'f server_tokens =
  tk_has_mtmd :: bool
  tk_map :: "(nat \<times> 'f mtmd_input_chunk) list"
  tk_tokens :: "llama_token list"

fun map_put :: "nat \<Rightarrow> 'c \<Rightarrow> (nat \<times> 'c) list \<Rightarrow> (nat \<times> 'c) list" where
  "map_put k c [] = [(k, c)]"
| "map_put k c ((j, d) # m) =
    (if k < j then (k, c) # (j, d) # m else if k = j then (k, c) # m else (j, d) # map_put k c m)"

definition tokens_of_text :: "llama_token list \<Rightarrow> bool \<Rightarrow> 'f server_tokens" where
  "tokens_of_text ts has_mtmd = \<lparr>tk_has_mtmd = has_mtmd, tk_map = [], tk_tokens = ts\<rparr>"

text \<open>
  The walk over tokens and chunks up to token \<open>n\<close>: \<^const>\<open>None\<close> is a walk that does not end, which
  a chunk without tokens causes.
\<close>

partial_function (option) pos_loop ::
    "(nat \<times> 'f mtmd_input_chunk) list \<Rightarrow> int \<Rightarrow> nat \<Rightarrow> llama_pos \<Rightarrow> llama_pos option" where
  [code]: "pos_loop m n idx pos =
    (if int idx < n then
       (case map_of m idx of
          Some c \<Rightarrow> pos_loop m n (idx + chunk_n_tokens c) (pos + chunk_n_pos c)
        | None \<Rightarrow> pos_loop m n (idx + 1) (pos + 1))
     else Some pos)"

definition pos_next :: "int \<Rightarrow> 'f server_tokens \<Rightarrow> llama_pos res option" where
  "pos_next n_tokens st =
    (if \<not> tk_has_mtmd st
     then Some (Inr (if n_tokens < 0 then int (length (tk_tokens st)) else n_tokens))
     else if n_tokens < 0
     then Some (Inr (fold (\<lambda>e res. res + (chunk_n_pos (snd e) - int (chunk_n_tokens (snd e)))) (tk_map st)
                       (int (length (tk_tokens st)))))
     else if \<not> n_tokens \<le> int (length (tk_tokens st))
     then Some (Inl (Ggml_assert ''n_tokens <= (int64_t)tokens.size()''))
     else map_option Inr (pos_loop (tk_map st) n_tokens 0 0))"

partial_function (option) size_loop ::
    "(nat \<times> 'f mtmd_input_chunk) list \<Rightarrow> nat \<Rightarrow> llama_pos \<Rightarrow> nat \<Rightarrow> llama_pos \<Rightarrow> nat option" where
  [code]: "size_loop m n max_pos idx pos =
    (if idx < n then
       (let (idx', pos') = (case map_of m idx of
                              Some c \<Rightarrow> (idx + chunk_n_tokens c, pos + chunk_n_pos c)
                            | None \<Rightarrow> (idx + 1, pos + 1))
        in if pos' > max_pos then Some idx' else size_loop m n max_pos idx' pos')
     else Some idx)"

text \<open>The cast of a negative \<open>max_pos + 1\<close> to \<open>size_t\<close> is larger than every size.\<close>

definition size_up_to_pos :: "llama_pos \<Rightarrow> 'f server_tokens \<Rightarrow> nat option" where
  "size_up_to_pos max_pos st =
    (if \<not> tk_has_mtmd st
     then Some (if max_pos + 1 < 0 then length (tk_tokens st) else min (nat (max_pos + 1)) (length (tk_tokens st)))
     else size_loop (tk_map st) (length (tk_tokens st)) max_pos 0 0)"

definition find_chunk :: "nat \<Rightarrow> 'f server_tokens \<Rightarrow> 'f mtmd_input_chunk res" where
  "find_chunk idx st =
    (case map_of (tk_map st) idx of
       Some c \<Rightarrow> Inr c
     | None \<Rightarrow> Inl (Runtime_error ''Chunk not found''))"

definition push_back :: "llama_token \<Rightarrow> 'f server_tokens \<Rightarrow> 'f server_tokens res" where
  "push_back tok st =
    (if tok = LLAMA_TOKEN_NULL then Inl (Runtime_error ''Invalid token'')
     else Inr (st\<lparr>tk_tokens := tk_tokens st @ [tok]\<rparr>))"

fun push_back_list :: "llama_token list \<Rightarrow> 'f server_tokens \<Rightarrow> 'f server_tokens res" where
  "push_back_list [] st = Inr st"
| "push_back_list (t # ts) st = bind_res (push_back t st) (push_back_list ts)"

definition push_back_media :: "'f mtmd_input_chunk \<Rightarrow> 'f server_tokens \<Rightarrow> 'f server_tokens res" where
  "push_back_media c st =
    (if \<not> tk_has_mtmd st then Inl (Ggml_assert ''has_mtmd'')
     else Inr (st\<lparr>tk_tokens := tk_tokens st @ replicate (chunk_n_tokens c) LLAMA_TOKEN_NULL,
                  tk_map := map_put (length (tk_tokens st)) c (tk_map st)\<rparr>))"

definition push_back_chunk :: "'f mtmd_input_chunk \<Rightarrow> 'f server_tokens \<Rightarrow> 'f server_tokens res" where
  "push_back_chunk c st =
    (case c of
       Chunk_text ts \<Rightarrow> push_back_list ts st
     | Chunk_image im \<Rightarrow> push_back_media c st
     | Chunk_audio au \<Rightarrow> push_back_media c st)"

text \<open>The constructor from the chunks of a tokenized prompt.\<close>

fun push_back_chunks :: "'f mtmd_input_chunk list \<Rightarrow> 'f server_tokens \<Rightarrow> 'f server_tokens res" where
  "push_back_chunks [] st = Inr st"
| "push_back_chunks (c # cs) st = bind_res (push_back_chunk c st) (push_back_chunks cs)"

definition tokens_of_chunks :: "'f mtmd_input_chunk list \<Rightarrow> bool \<Rightarrow> 'f server_tokens res" where
  "tokens_of_chunks cs has_mtmd = push_back_chunks cs \<lparr>tk_has_mtmd = has_mtmd, tk_map = [], tk_tokens = []\<rparr>"

text \<open>
  Appending another prompt. The loop over its chunks has no increment: the rest of the map stays
  the same in every round, so a non-empty map is walked for ever.
\<close>

partial_function (option) copy_media ::
    "nat \<Rightarrow> (nat \<times> 'f mtmd_input_chunk) list \<Rightarrow> 'f server_tokens \<Rightarrow> 'f server_tokens option" where
  [code]: "copy_media start it st =
    (case it of
       [] \<Rightarrow> Some st
     | e # _ \<Rightarrow> copy_media start it (st\<lparr>tk_map := map_put (start + fst e) (snd e) (tk_map st)\<rparr>))"

definition push_back_tokens :: "'f server_tokens \<Rightarrow> 'f server_tokens \<Rightarrow> 'f server_tokens res option" where
  "push_back_tokens other st =
    (case push_back_list (tk_tokens other) st of
       Inl e \<Rightarrow> Some (Inl e)
     | Inr st1 \<Rightarrow>
         if tk_has_mtmd other then
           if \<not> tk_has_mtmd st1 then Some (Inl (Ggml_assert ''has_mtmd''))
           else map_option Inr (copy_media (length (tk_tokens st)) (tk_map other) st1)
         else Some (Inr st1))"

definition insert_tokens :: "llama_token list \<Rightarrow> 'f server_tokens \<Rightarrow> 'f server_tokens res" where
  "insert_tokens ts st =
    (if tk_has_mtmd st then Inl (Ggml_assert ''!has_mtmd'')
     else Inr (st\<lparr>tk_tokens := tk_tokens st @ ts\<rparr>))"

definition get_text_tokens :: "'f server_tokens \<Rightarrow> llama_token list res" where
  "get_text_tokens st = (if tk_has_mtmd st then Inl (Ggml_assert ''!has_mtmd'') else Inr (tk_tokens st))"

text \<open>The source does not check the index; an index out of range leaves the model's list alone.\<close>

definition set_token :: "nat \<Rightarrow> llama_token \<Rightarrow> 'f server_tokens \<Rightarrow> 'f server_tokens res" where
  "set_token pos t st =
    (if tk_has_mtmd st then Inl (Ggml_assert ''!has_mtmd'')
     else Inr (st\<lparr>tk_tokens := (tk_tokens st)[pos := t]\<rparr>))"

definition tokens_clear :: "'f server_tokens \<Rightarrow> 'f server_tokens" where
  "tokens_clear st = st\<lparr>tk_map := [], tk_tokens := []\<rparr>"

definition keep_first :: "nat \<Rightarrow> 'f server_tokens \<Rightarrow> 'f server_tokens res" where
  "keep_first n st =
    (if \<not> n \<le> length (tk_tokens st) then Inl (Ggml_assert ''n <= tokens.size()'')
     else if tk_has_mtmd st then
       if n = length (tk_tokens st) then Inr st
       else bind_res
         (if n > 0 \<and> tk_tokens st ! (n - 1) = LLAMA_TOKEN_NULL \<and> tk_tokens st ! n = LLAMA_TOKEN_NULL
          then bind_res (find_chunk (n - 1) st) (\<lambda>_. Inr ()) else Inr ())
         (\<lambda>_. Inr (st\<lparr>tk_map := filter (\<lambda>e. \<not> fst e \<ge> n) (tk_map st), tk_tokens := take n (tk_tokens st)\<rparr>))
     else Inr (st\<lparr>tk_tokens := take n (tk_tokens st)\<rparr>))"

text \<open>The text behind \<open>detokenize\<close> is a parameter (\<open>common_detokenize\<close>).\<close>

definition detokenize :: "(llama_token list \<Rightarrow> 's) \<Rightarrow> 'f server_tokens \<Rightarrow> 's" where
  "detokenize common_detokenize st = common_detokenize (filter (\<lambda>t. t \<noteq> LLAMA_TOKEN_NULL) (tk_tokens st))"

fun prefix_loop :: "llama_token list \<Rightarrow> llama_token list \<Rightarrow> nat" where
  "prefix_loop (a # as) (b # bs) = (if a = b then Suc (prefix_loop as bs) else 0)"
| "prefix_loop _ _ = 0"

function prefix_media_loop ::
    "'f server_tokens \<Rightarrow> 'f server_tokens \<Rightarrow> nat \<Rightarrow> nat \<Rightarrow> nat res" where
  "prefix_media_loop a b max_idx i =
    (if i < max_idx then
       if tk_tokens a ! i = LLAMA_TOKEN_NULL \<and> tk_tokens b ! i = LLAMA_TOKEN_NULL then
         (case find_chunk i a of Inl e \<Rightarrow> Inl e | Inr ca \<Rightarrow>
          (case find_chunk i b of Inl e \<Rightarrow> Inl e | Inr cb \<Rightarrow>
             if chunk_id ca = chunk_id cb \<and> chunk_n_tokens ca = chunk_n_tokens cb then
               if chunk_n_tokens ca > 0 then prefix_media_loop a b max_idx (i + chunk_n_tokens ca)
               else Inl (Ggml_assert ''n_tok_a > 0'')
             else Inr i))
       else if tk_tokens a ! i = tk_tokens b ! i then prefix_media_loop a b max_idx (i + 1)
       else Inr i
     else Inr max_idx)"
  by pat_completeness auto
termination by (relation "measure (\<lambda>(a, b, n, i). n - i)") auto

declare prefix_media_loop.simps [simp del]

definition get_common_prefix :: "'f server_tokens \<Rightarrow> 'f server_tokens \<Rightarrow> nat res" where
  "get_common_prefix a b =
    (if \<not> tk_has_mtmd a then Inr (prefix_loop (tk_tokens a) (tk_tokens b))
     else prefix_media_loop a b (min (length (tk_tokens a)) (length (tk_tokens b))) 0)"

text \<open>A missing chunk is caught and makes the prompt invalid.\<close>

partial_function (option) validate_loop :: "int \<Rightarrow> 'f server_tokens \<Rightarrow> nat \<Rightarrow> bool option" where
  [code]: "validate_loop n_vocab st i =
    (if i < length (tk_tokens st) then
       (let t = tk_tokens st ! i
        in if t = LLAMA_TOKEN_NULL then
             (case map_of (tk_map st) i of
                None \<Rightarrow> Some False
              | Some c \<Rightarrow> validate_loop n_vocab st (i + chunk_n_tokens c))
           else if t < 0 \<or> t \<ge> n_vocab then Some False
           else validate_loop n_vocab st (i + 1))
     else Some True)"

definition validate :: "int \<Rightarrow> 'f server_tokens \<Rightarrow> bool option" where
  "validate n_vocab st = validate_loop n_vocab st 0"

text \<open>
  Evaluating the chunk at an index: \<open>eval_chunk\<close> is \<open>mtmd_helper_eval_chunk_single\<close> on the context
  \<open>'c\<close>; the result is its status and the number of tokens done.
\<close>

definition process_chunk ::
    "('f mtmd_input_chunk \<Rightarrow> llama_pos \<Rightarrow> llama_seq_id \<Rightarrow> 'c \<Rightarrow> int \<times> 'c) \<Rightarrow>
     nat \<Rightarrow> llama_pos \<Rightarrow> llama_seq_id \<Rightarrow> 'f server_tokens \<Rightarrow> 'c \<Rightarrow> (int \<times> nat \<times> 'c) res" where
  "process_chunk eval_chunk idx pos seq_id st ctx =
    bind_res (find_chunk idx st) (\<lambda>c.
      case eval_chunk c pos seq_id ctx of (result, ctx') \<Rightarrow>
        if result \<noteq> 0 then Inr (result, 0, ctx') else Inr (0, chunk_n_tokens c, ctx'))"

definition tokens_clone :: "'f server_tokens \<Rightarrow> 'f server_tokens" where
  "tokens_clone st = \<lparr>tk_has_mtmd = tk_has_mtmd st, tk_map = fold (\<lambda>e m. map_put (fst e) (snd e) m) (tk_map st) [],
                      tk_tokens = tk_tokens st\<rparr>"

section \<open>The list of pieces\<close>

datatype 'f piece = Text llama_token | Media "'f mtmd_input_chunk"

fun piece_toks :: "'f piece \<Rightarrow> llama_token list" where
  "piece_toks (Text t) = [t]"
| "piece_toks (Media c) = replicate (chunk_n_tokens c) LLAMA_TOKEN_NULL"

fun piece_pos :: "'f piece \<Rightarrow> llama_pos" where
  "piece_pos (Text t) = 1"
| "piece_pos (Media c) = chunk_n_pos c"

text \<open>What a prompt may hold: proper text tokens, and media with at least one token if enabled.\<close>

fun piece_ok :: "bool \<Rightarrow> 'f piece \<Rightarrow> bool" where
  "piece_ok mt (Text t) \<longleftrightarrow> t \<noteq> LLAMA_TOKEN_NULL"
| "piece_ok mt (Media c) \<longleftrightarrow> mt \<and> chunk_id c \<noteq> None \<and> 0 < chunk_n_tokens c"

definition toks :: "'f piece list \<Rightarrow> llama_token list" where
  "toks ps = concat (map piece_toks ps)"

definition posn :: "'f piece list \<Rightarrow> llama_pos" where
  "posn ps = sum_list (map piece_pos ps)"

fun media_at :: "nat \<Rightarrow> 'f piece list \<Rightarrow> (nat \<times> 'f mtmd_input_chunk) list" where
  "media_at k [] = []"
| "media_at k (Text t # ps) = media_at (k + 1) ps"
| "media_at k (Media c # ps) = (k, c) # media_at (k + chunk_n_tokens c) ps"

definition of_pieces :: "bool \<Rightarrow> 'f piece list \<Rightarrow> 'f server_tokens" where
  "of_pieces mt ps = \<lparr>tk_has_mtmd = mt, tk_map = media_at 0 ps, tk_tokens = toks ps\<rparr>"

lemma toks_simps [simp]:
  "toks [] = []" "toks (p # ps) = piece_toks p @ toks ps" "toks (ps @ qs) = toks ps @ toks qs"
  by (simp_all add: toks_def)

lemma posn_simps [simp]:
  "posn [] = 0" "posn (p # ps) = piece_pos p + posn ps" "posn (ps @ qs) = posn ps + posn qs"
  by (simp_all add: posn_def)

lemma of_pieces_fields [simp]:
  "tk_has_mtmd (of_pieces mt ps) = mt" "tk_map (of_pieces mt ps) = media_at 0 ps"
  "tk_tokens (of_pieces mt ps) = toks ps"
  by (simp_all add: of_pieces_def)

lemma piece_ok_toks: "piece_ok mt p \<Longrightarrow> piece_toks p \<noteq> []"
  by (cases p) auto

lemma media_at_append: "media_at k (ps @ qs) = media_at k ps @ media_at (k + length (toks ps)) qs"
  by (induction k ps rule: media_at.induct) (simp_all add: ac_simps)

lemma media_at_keys:
  "(j, c) \<in> set (media_at k ps) \<Longrightarrow> list_all (piece_ok mt) ps \<Longrightarrow> k \<le> j \<and> j < k + length (toks ps)"
  by (induction k ps rule: media_at.induct) fastforce+

lemma media_at_text:
  assumes "list_all (piece_ok False) ps"
  shows "media_at k ps = []"
  using assms by (induction k ps rule: media_at.induct) simp_all

lemma map_of_media_none:
  assumes "list_all (piece_ok mt) ps" "i < k \<or> k + length (toks ps) \<le> i"
  shows "map_of (media_at k ps) i = None"
proof -
  have "i \<notin> fst ` set (media_at k ps)"
  proof
    assume "i \<in> fst ` set (media_at k ps)"
    then obtain c where "(i, c) \<in> set (media_at k ps)" by auto
    then show False using media_at_keys [OF _ assms(1)] assms(2) by fastforce
  qed
  then show ?thesis by (simp add: map_of_eq_None_iff)
qed

text \<open>Looking up the start of a piece, and a place inside a chunk.\<close>

lemma map_of_boundary:
  assumes "list_all (piece_ok mt) (ps @ p # qs)"
  shows "map_of (media_at 0 (ps @ p # qs)) (length (toks ps)) =
    (case p of Text t \<Rightarrow> None | Media c \<Rightarrow> Some c)"
proof -
  have "map_of (media_at 0 ps) (length (toks ps)) = None"
    using map_of_media_none [of mt ps "length (toks ps)" 0] assms by simp
  moreover have "map_of (media_at (length (toks ps)) (Text t # qs)) (length (toks ps)) = None" for t
    using map_of_media_none [of mt qs "length (toks ps)" "length (toks ps) + 1"] assms by simp
  ultimately show ?thesis by (cases p) (simp_all add: media_at_append map_add_def)
qed

lemma map_of_inside:
  assumes "list_all (piece_ok mt) (ps @ Media c # qs)" "0 < j" "j < chunk_n_tokens c"
  shows "map_of (media_at 0 (ps @ Media c # qs)) (length (toks ps) + j) = None"
proof -
  have "map_of (media_at 0 ps) (length (toks ps) + j) = None"
    using map_of_media_none [of mt ps "length (toks ps) + j" 0] assms by auto
  moreover have "map_of (media_at (length (toks ps) + chunk_n_tokens c) qs) (length (toks ps) + j) = None"
    using map_of_media_none [of mt qs "length (toks ps) + j" "length (toks ps) + chunk_n_tokens c"] assms by auto
  ultimately show ?thesis using assms(2) by (simp add: media_at_append map_add_def)
qed

lemma nth_boundary:
  assumes "list_all (piece_ok mt) (ps @ p # qs)"
  shows "toks (ps @ p # qs) ! length (toks ps) = LLAMA_TOKEN_NULL \<longleftrightarrow> (\<exists>c. p = Media c)"
  using assms by (cases p) (simp_all add: nth_append)

section \<open>Positions\<close>

lemma pos_loop_pieces:
  "list_all (piece_ok mt) (ps @ qs @ rs) \<Longrightarrow>
   pos_loop (media_at 0 (ps @ qs @ rs)) (int (length (toks (ps @ qs)))) (length (toks ps)) p = Some (p + posn qs)"
proof (induction qs arbitrary: ps p)
  case Nil
  then show ?case by (simp add: pos_loop.simps)
next
  case (Cons q qs)
  have ok: "list_all (piece_ok mt) ((ps @ [q]) @ qs @ rs)" using Cons.prems by simp
  have ne: "0 < length (piece_toks q)" using Cons.prems piece_ok_toks [of mt q] by simp
  have b: "map_of (media_at 0 (ps @ q # qs @ rs)) (length (toks ps)) = (case q of Text t \<Rightarrow> None | Media c \<Rightarrow> Some c)"
    using map_of_boundary [of mt ps q "qs @ rs"] Cons.prems by simp
  have "pos_loop (media_at 0 (ps @ (q # qs) @ rs)) (int (length (toks (ps @ q # qs)))) (length (toks ps)) p =
    pos_loop (media_at 0 ((ps @ [q]) @ qs @ rs)) (int (length (toks ((ps @ [q]) @ qs)))) (length (toks (ps @ [q]))) (p + piece_pos q)"
    by (subst pos_loop.simps, cases q) (use ne b in \<open>simp_all add: add.assoc\<close>)
  then show ?case using Cons.IH [OF ok, of "p + piece_pos q"] by (simp add: add.assoc)
qed

lemma total_pos:
  "fold (\<lambda>e res. res + (chunk_n_pos (snd e) - int (chunk_n_tokens (snd e)))) (media_at k ps) r =
     r + posn ps - int (length (toks ps))"
  by (induction k ps arbitrary: r rule: media_at.induct) (simp_all add: algebra_simps)

lemma posn_text: "list_all (piece_ok False) ps \<Longrightarrow> posn ps = int (length (toks ps))"
proof (induction ps)
  case (Cons p ps)
  then show ?case by (cases p) simp_all
qed simp

lemma pos_next_pieces:
  assumes "list_all (piece_ok mt) (ps @ qs)"
  shows "pos_next (int (length (toks ps))) (of_pieces mt (ps @ qs)) = Some (Inr (posn ps))"
    "pos_next (-1) (of_pieces mt (ps @ qs)) = Some (Inr (posn (ps @ qs)))"
proof -
  have "mt \<Longrightarrow> pos_loop (media_at 0 (ps @ qs)) (int (length (toks ps))) 0 0 = Some (posn ps)"
    using pos_loop_pieces [of mt "[]" ps qs 0] assms by simp
  then show "pos_next (int (length (toks ps))) (of_pieces mt (ps @ qs)) = Some (Inr (posn ps))"
    using assms posn_text [of ps] by (cases mt) (simp_all add: pos_next_def)
  show "pos_next (-1) (of_pieces mt (ps @ qs)) = Some (Inr (posn (ps @ qs)))"
    using assms posn_text [of "ps @ qs"] total_pos [of 0 "ps @ qs"] by (cases mt) (simp_all add: pos_next_def)
qed

section \<open>Appending\<close>

lemma map_put_end: "(\<And>e. e \<in> set m \<Longrightarrow> fst e < k) \<Longrightarrow> map_put k c m = m @ [(k, c)]"
proof (induction m)
  case (Cons e m)
  obtain j d where "e = (j, d)" by (cases e)
  then show ?case using Cons by force
qed simp

lemma map_put_media:
  assumes "list_all (piece_ok mt) ps"
  shows "map_put (length (toks ps)) c (media_at 0 ps) = media_at 0 (ps @ [Media c])"
  using media_at_keys [OF _ assms, of _ _ 0] by (subst map_put_end) (fastforce simp: media_at_append)+

lemma push_back_list_pieces:
  "LLAMA_TOKEN_NULL \<notin> set ts \<Longrightarrow> push_back_list ts (of_pieces mt ps) = Inr (of_pieces mt (ps @ map Text ts))"
proof (induction ts arbitrary: ps)
  case (Cons t ts)
  have "push_back t (of_pieces mt ps) = Inr (of_pieces mt (ps @ [Text t]))"
    using Cons.prems by (auto simp: push_back_def of_pieces_def media_at_append)
  then show ?case using Cons.IH [of "ps @ [Text t]"] Cons.prems by simp
qed simp

fun chunk_pieces :: "'f mtmd_input_chunk \<Rightarrow> 'f piece list" where
  "chunk_pieces (Chunk_text ts) = map Text ts"
| "chunk_pieces c = [Media c]"

lemma push_back_chunk_pieces:
  assumes "list_all (piece_ok mt) ps" "list_all (piece_ok mt) (chunk_pieces c)"
  shows "push_back_chunk c (of_pieces mt ps) = Inr (of_pieces mt (ps @ chunk_pieces c))"
proof (cases c)
  case (Chunk_text ts)
  then have "LLAMA_TOKEN_NULL \<notin> set ts" using assms(2) by (auto simp: list_all_iff)
  then show ?thesis using Chunk_text push_back_list_pieces by (simp add: push_back_chunk_def)
qed (use assms map_put_media [OF assms(1), of c] in
      \<open>auto simp: push_back_chunk_def push_back_media_def of_pieces_def\<close>)

lemma push_back_chunks_pieces:
  "list_all (piece_ok mt) ps \<Longrightarrow> list_all (\<lambda>c. list_all (piece_ok mt) (chunk_pieces c)) cs \<Longrightarrow>
   push_back_chunks cs (of_pieces mt ps) = Inr (of_pieces mt (ps @ concat (map chunk_pieces cs)))"
proof (induction cs arbitrary: ps)
  case (Cons c cs)
  then show ?case using push_back_chunk_pieces [of mt ps c] Cons.IH [of "ps @ chunk_pieces c"] by simp
qed simp

lemma push_back_list_null:
  "LLAMA_TOKEN_NULL \<in> set ts \<Longrightarrow> push_back_list ts st = Inl (Runtime_error ''Invalid token'')"
  by (induction ts arbitrary: st) (auto simp: push_back_def)

section \<open>Truncating\<close>

lemma filter_media:
  assumes "list_all (piece_ok mt) (ps @ qs)"
  shows "filter (\<lambda>e. \<not> fst e \<ge> length (toks ps)) (media_at 0 (ps @ qs)) = media_at 0 ps"
proof -
  have "filter (\<lambda>e. \<not> fst e \<ge> length (toks ps)) (media_at 0 ps) = media_at 0 ps"
    using media_at_keys [of _ _ 0 ps mt] assms by (force intro!: filter_True)
  moreover have "filter (\<lambda>e. \<not> fst e \<ge> length (toks ps)) (media_at (length (toks ps)) qs) = []"
    using media_at_keys [of _ _ "length (toks ps)" qs mt] assms by (force intro!: filter_False)
  ultimately show ?thesis by (simp add: media_at_append)
qed

text \<open>Whether the check of \<open>keep_first\<close> refuses to cut between the two parts.\<close>

definition cut_refused :: "'f piece list \<Rightarrow> 'f piece list \<Rightarrow> bool" where
  "cut_refused ps qs \<longleftrightarrow>
    (\<exists>xs c d ys. ps = xs @ [Media c] \<and> qs = Media d # ys \<and> 1 < chunk_n_tokens c)"

lemma last_null:
  assumes "list_all (piece_ok mt) ps" "toks ps \<noteq> []"
  shows "toks ps ! (length (toks ps) - 1) = LLAMA_TOKEN_NULL \<longleftrightarrow> (\<exists>xs c. ps = xs @ [Media c])"
proof (cases ps rule: rev_cases)
  case (snoc xs p)
  then show ?thesis using assms by (cases p) (auto simp: nth_append)
qed (use assms in simp)

lemma keep_first_pieces:
  assumes ok: "list_all (piece_ok mt) (ps @ qs)"
  shows "keep_first (length (toks ps)) (of_pieces mt (ps @ qs)) =
    (if cut_refused ps qs then Inl (Runtime_error ''Chunk not found'') else Inr (of_pieces mt ps))"
proof (cases "mt \<and> qs \<noteq> [] \<and> ps \<noteq> []")
  case False
  have "\<not> cut_refused ps qs" using False ok by (auto simp: cut_refused_def)
  moreover have "length (toks ps) = length (toks (ps @ qs)) \<longleftrightarrow> qs = []"
    using ok piece_ok_toks by (cases qs) auto
  moreover have "\<not> mt \<Longrightarrow> media_at 0 (ps @ qs) = media_at 0 ps"
    using ok media_at_text [of "ps @ qs" 0] media_at_text [of ps 0] by simp
  ultimately show ?thesis using False ok filter_media [OF ok] by (auto simp: keep_first_def of_pieces_def)
next
  case True
  then obtain q qs' where qs: "qs = q # qs'" by (cases qs) auto
  have pne: "toks ps \<noteq> []" using True ok piece_ok_toks by (cases ps) auto
  have lt: "length (toks ps) < length (toks (ps @ qs))" using ok piece_ok_toks [of mt q] qs by simp
  have at: "toks (ps @ qs) ! length (toks ps) = LLAMA_TOKEN_NULL \<longleftrightarrow> (\<exists>d. q = Media d)"
    using nth_boundary [of mt ps q qs'] ok qs by simp
  have before: "toks (ps @ qs) ! (length (toks ps) - 1) = LLAMA_TOKEN_NULL \<longleftrightarrow> (\<exists>xs c. ps = xs @ [Media c])"
    using last_null [of mt ps] ok pne by (simp add: nth_append)
  have find: "map_of (media_at 0 (ps @ qs)) (length (toks ps) - 1) = (if 1 < chunk_n_tokens c then None else Some c)"
    if "ps = xs @ [Media c]" for xs c
  proof -
    have c: "0 < chunk_n_tokens c" and ok': "list_all (piece_ok mt) (xs @ Media c # qs)" using ok that by auto
    show ?thesis
    proof (cases "1 < chunk_n_tokens c")
      case True
      then show ?thesis using map_of_inside [OF ok', of "chunk_n_tokens c - 1"] that by simp
    next
      case False
      then have "chunk_n_tokens c = 1" using c by simp
      then show ?thesis using map_of_boundary [OF ok'] that by simp
    qed
  qed
  show ?thesis
  proof (cases "\<exists>xs c d. ps = xs @ [Media c] \<and> q = Media d")
    case cut: True
    then obtain xs c d where "ps = xs @ [Media c]" "q = Media d" by blast
    then show ?thesis using True at before lt qs find pne filter_media [OF ok]
      by (auto simp: keep_first_def cut_refused_def find_chunk_def of_pieces_def)
  next
    case False
    then show ?thesis using True at before lt qs pne filter_media [OF ok]
      by (auto simp: keep_first_def cut_refused_def of_pieces_def)
  qed
qed

text \<open>Cutting behind the first token of a chunk is accepted; the chunk stays in the map.\<close>

lemma keep_first_inside:
  assumes ok: "list_all (piece_ok True) (ps @ Media c # qs)" and c: "1 < chunk_n_tokens c"
  shows "keep_first (length (toks ps) + 1) (of_pieces True (ps @ Media c # qs)) =
    Inr \<lparr>tk_has_mtmd = True, tk_map = media_at 0 (ps @ [Media c]), tk_tokens = toks ps @ [LLAMA_TOKEN_NULL]\<rparr>"
proof -
  let ?n = "length (toks ps) + 1"
  have ok1: "list_all (piece_ok True) ((ps @ [Media c]) @ qs)" using ok by simp
  have "filter (\<lambda>e. \<not> fst e \<ge> ?n) (media_at 0 ps) = media_at 0 ps"
    using media_at_keys [of _ _ 0 ps True] ok by (force intro!: filter_True)
  moreover have "filter (\<lambda>e. \<not> fst e \<ge> ?n) (media_at (length (toks ps) + chunk_n_tokens c) qs) = []"
    using media_at_keys [of _ _ "length (toks ps) + chunk_n_tokens c" qs True] ok c by (force intro!: filter_False)
  ultimately have "filter (\<lambda>e. \<not> fst e \<ge> ?n) (media_at 0 (ps @ Media c # qs)) = media_at 0 (ps @ [Media c])"
    by (simp add: media_at_append)
  moreover have "take ?n (toks (ps @ Media c # qs)) = toks ps @ [LLAMA_TOKEN_NULL]"
    using c by (simp add: take_Suc_conv_app_nth)
  moreover have "map_of (media_at 0 (ps @ Media c # qs)) (length (toks ps)) = Some c"
    using map_of_boundary [OF ok] by simp
  ultimately show ?thesis using c by (auto simp: keep_first_def find_chunk_def)
qed

section \<open>The common prefix\<close>

text \<open>Two chunks count as the same when their ids and their numbers of tokens agree.\<close>

fun piece_same :: "'f piece \<Rightarrow> 'g piece \<Rightarrow> bool" where
  "piece_same (Text t) (Text u) \<longleftrightarrow> t = u"
| "piece_same (Media c) (Media d) \<longleftrightarrow> chunk_id c = chunk_id d \<and> chunk_n_tokens c = chunk_n_tokens d"
| "piece_same _ _ \<longleftrightarrow> False"

fun common_pieces :: "'f piece list \<Rightarrow> 'f piece list \<Rightarrow> 'f piece list" where
  "common_pieces (p # ps) (q # qs) = (if piece_same p q then p # common_pieces ps qs else [])"
| "common_pieces _ _ = []"

lemma common_pieces_prefix:
  "\<exists>k. common_pieces ps qs = take k ps \<and> k \<le> length ps \<and> k \<le> length qs \<and>
    (\<forall>j < k. piece_same (ps ! j) (qs ! j)) \<and> (k < length ps \<and> k < length qs \<longrightarrow> \<not> piece_same (ps ! k) (qs ! k))"
proof (induction ps qs rule: common_pieces.induct)
  case (1 p ps q qs)
  show ?case
  proof (cases "piece_same p q")
    case True
    then obtain k where "common_pieces ps qs = take k ps" "k \<le> length ps" "k \<le> length qs"
      "\<forall>j < k. piece_same (ps ! j) (qs ! j)" "k < length ps \<and> k < length qs \<longrightarrow> \<not> piece_same (ps ! k) (qs ! k)"
      using 1 by blast
    then show ?thesis using True by (intro exI [of _ "Suc k"]) (auto simp: nth_Cons split: nat.splits)
  qed (auto intro: exI [of _ 0])
qed auto

lemma prefix_loop_pieces:
  "list_all (piece_ok False) ps \<Longrightarrow> list_all (piece_ok mt) qs \<Longrightarrow>
   prefix_loop (toks ps) (toks qs) = length (toks (common_pieces ps qs))"
proof (induction ps qs rule: common_pieces.induct)
  case (1 p ps q qs)
  then obtain t where t: "p = Text t" "t \<noteq> LLAMA_TOKEN_NULL" by (cases p) auto
  show ?case
  proof (cases q)
    case (Media c)
    then obtain n where "chunk_n_tokens c = Suc n" using 1 by (cases "chunk_n_tokens c") auto
    then show ?thesis using Media t by simp
  qed (use 1 t in auto)
qed auto

lemma prefix_media_pieces:
  fixes ps qs xs ys :: "'f piece list"
  assumes "list_all (piece_ok mt) (xs @ ps)" "list_all (piece_ok mt') (ys @ qs)" "length (toks xs) = length (toks ys)"
  defines "a \<equiv> of_pieces mt (xs @ ps)" and "b \<equiv> of_pieces mt' (ys @ qs)"
  shows "prefix_media_loop a b (min (length (tk_tokens a)) (length (tk_tokens b))) (length (toks xs)) =
    Inr (length (toks xs) + length (toks (common_pieces ps qs)))"
  using assms(1-3) unfolding a_def b_def
proof (induction ps qs arbitrary: xs ys rule: common_pieces.induct)
  case (1 p ps q qs)
  let ?a = "of_pieces mt (xs @ p # ps)" and ?b = "of_pieces mt' (ys @ q # qs)"
  let ?N = "min (length (tk_tokens ?a)) (length (tk_tokens ?b))" and ?i = "length (toks xs)"
  have lt: "?i < ?N" using 1 piece_ok_toks [of mt p] piece_ok_toks [of mt' q] by simp
  have pn: "toks (xs @ p # ps) ! ?i = LLAMA_TOKEN_NULL \<longleftrightarrow> (\<exists>c. p = Media c)" using nth_boundary [OF 1(2)] .
  have qn: "toks (ys @ q # qs) ! ?i = LLAMA_TOKEN_NULL \<longleftrightarrow> (\<exists>c. q = Media c)" using nth_boundary [OF 1(3)] 1(4) by simp
  have pf: "map_of (media_at 0 (xs @ p # ps)) ?i = (case p of Text t \<Rightarrow> None | Media c \<Rightarrow> Some c)"
    using map_of_boundary [OF 1(2)] .
  have qf: "map_of (media_at 0 (ys @ q # qs)) ?i = (case q of Text t \<Rightarrow> None | Media c \<Rightarrow> Some c)"
    using map_of_boundary [OF 1(3)] 1(4) by simp
  have step: "prefix_media_loop ?a ?b ?N ?i =
      (if piece_same p q then prefix_media_loop ?a ?b ?N (length (toks (xs @ [p]))) else Inr ?i)"
  proof (cases p; cases q)
    fix c d assume "p = Media c" "q = Media d"
    then show ?thesis using lt pn qn pf qf 1 by (subst prefix_media_loop.simps) (auto simp: find_chunk_def)
  next
    fix t u assume "p = Text t" "q = Text u"
    then show ?thesis using lt pn qn 1(4) by (subst prefix_media_loop.simps) (auto simp: nth_append)
  qed (use lt pn qn in \<open>subst prefix_media_loop.simps, auto\<close>)+
  show ?case
  proof (cases "piece_same p q")
    case True
    then have "length (toks (xs @ [p])) = length (toks (ys @ [q]))" using 1(4) by (cases p; cases q) auto
    then show ?thesis using 1(1) [of "xs @ [p]" "ys @ [q]"] 1(2,3) True step by simp
  qed (use step in simp)
qed (subst prefix_media_loop.simps, simp)+

lemma get_common_prefix_pieces:
  assumes "list_all (piece_ok mt) ps" "list_all (piece_ok mt') qs"
  shows "get_common_prefix (of_pieces mt ps) (of_pieces mt' qs) = Inr (length (toks (common_pieces ps qs)))"
  using prefix_media_pieces [of mt "[]" ps mt' "[]" qs] prefix_loop_pieces [of ps mt' qs] assms
  by (cases mt) (simp_all add: get_common_prefix_def)

section \<open>From positions to tokens\<close>

lemma piece_pos_positive: "piece_ok mt p \<Longrightarrow> 0 < piece_pos p"
proof (cases p)
  case (Media c)
  assume "piece_ok mt p"
  then show ?thesis using Media
    by (cases c) (auto simp: image_n_tokens_def image_n_pos_def max_def intro: ccontr)
qed simp

lemma posn_nonneg: "list_all (piece_ok mt) ps \<Longrightarrow> 0 \<le> posn ps"
  by (induction ps) (auto dest: piece_pos_positive)

lemma posn_positive: "list_all (piece_ok mt) ps \<Longrightarrow> ps \<noteq> [] \<Longrightarrow> 0 < posn ps"
  using posn_nonneg [of mt "tl ps"] piece_pos_positive [of mt "hd ps"] by (cases ps) auto

lemma size_loop_pieces:
  "list_all (piece_ok mt) (xs @ ps @ qs) \<Longrightarrow> ps \<noteq> [] \<Longrightarrow>
   size_loop (media_at 0 (xs @ ps @ qs)) (length (toks (xs @ ps @ qs))) (posn (xs @ ps) - 1) (length (toks xs)) (posn xs) =
     Some (length (toks (xs @ ps)))"
proof (induction ps arbitrary: xs)
  case (Cons p ps)
  have lt: "length (toks xs) < length (toks (xs @ (p # ps) @ qs))" using Cons.prems piece_ok_toks [of mt p] by simp
  have b: "map_of (media_at 0 (xs @ p # ps @ qs)) (length (toks xs)) = (case p of Text t \<Rightarrow> None | Media c \<Rightarrow> Some c)"
    using map_of_boundary [of mt xs p "ps @ qs"] Cons.prems by simp
  have next_pos: "posn (xs @ p # ps) - 1 < posn (xs @ [p]) \<longleftrightarrow> ps = []"
    using posn_positive [of mt ps] Cons.prems by (cases "ps = []") auto
  have "size_loop (media_at 0 (xs @ (p # ps) @ qs)) (length (toks (xs @ (p # ps) @ qs))) (posn (xs @ p # ps) - 1)
      (length (toks xs)) (posn xs) =
    (if ps = [] then Some (length (toks (xs @ [p])))
     else size_loop (media_at 0 ((xs @ [p]) @ ps @ qs)) (length (toks ((xs @ [p]) @ ps @ qs)))
       (posn ((xs @ [p]) @ ps) - 1) (length (toks (xs @ [p]))) (posn (xs @ [p])))"
    using lt b next_pos by (subst size_loop.simps, cases p) auto
  then show ?case using Cons.IH [of "xs @ [p]"] Cons.prems by simp
qed simp

lemma size_up_to_pos_pieces:
  assumes "list_all (piece_ok mt) (ps @ qs)" "ps \<noteq> []"
  shows "size_up_to_pos (posn ps - 1) (of_pieces mt (ps @ qs)) = Some (length (toks ps))"
  using size_loop_pieces [of mt "[]" ps qs] assms posn_text [of ps]
  by (cases mt) (auto simp: size_up_to_pos_def)

section \<open>Validation and appending a prompt\<close>

fun piece_valid :: "int \<Rightarrow> 'f piece \<Rightarrow> bool" where
  "piece_valid n_vocab (Text t) \<longleftrightarrow> 0 \<le> t \<and> t < n_vocab"
| "piece_valid n_vocab (Media c) \<longleftrightarrow> True"

lemma validate_loop_pieces:
  "list_all (piece_ok mt) (xs @ ps) \<Longrightarrow>
   validate_loop n_vocab (of_pieces mt (xs @ ps)) (length (toks xs)) = Some (list_all (piece_valid n_vocab) ps)"
proof (induction ps arbitrary: xs)
  case Nil
  then show ?case by (simp add: validate_loop.simps)
next
  case (Cons p ps)
  have lt: "length (toks xs) < length (toks (xs @ p # ps))" using Cons.prems piece_ok_toks [of mt p] by simp
  have n: "toks (xs @ p # ps) ! length (toks xs) = LLAMA_TOKEN_NULL \<longleftrightarrow> (\<exists>c. p = Media c)"
    using nth_boundary [OF Cons.prems] .
  have b: "map_of (media_at 0 (xs @ p # ps)) (length (toks xs)) = (case p of Text t \<Rightarrow> None | Media c \<Rightarrow> Some c)"
    using map_of_boundary [OF Cons.prems] .
  have "validate_loop n_vocab (of_pieces mt (xs @ p # ps)) (length (toks xs)) =
    (if piece_valid n_vocab p then validate_loop n_vocab (of_pieces mt ((xs @ [p]) @ ps)) (length (toks (xs @ [p]))) else Some False)"
    using lt n b by (subst validate_loop.simps, cases p) (auto simp: nth_append)
  then show ?case using Cons.IH [of "xs @ [p]"] Cons.prems by simp
qed

lemma validate_pieces:
  assumes "list_all (piece_ok mt) ps"
  shows "validate n_vocab (of_pieces mt ps) = Some (list_all (piece_valid n_vocab) ps)"
  using validate_loop_pieces [of mt "[]" ps] assms by (simp add: validate_def)

lemma copy_media_stuck:
  assumes "copy_media start it st = Some st'"
  shows "it = []"
  by (rule copy_media.raw_induct [where P = "\<lambda>start it st st'. it = []", OF _ assms]) (auto split: list.splits)

lemma toks_null_iff:
  "list_all (piece_ok mt) ps \<Longrightarrow> LLAMA_TOKEN_NULL \<in> set (toks ps) \<longleftrightarrow> (\<exists>c. Media c \<in> set ps)"
proof (induction ps)
  case (Cons p ps)
  then show ?case by (cases p) auto
qed simp

section \<open>Properties\<close>

text \<open>Two images of three tokens and two positions each, and a shorter prompt of text.\<close>

definition demo_image :: "string \<Rightarrow> unit mtmd_input_chunk" where
  "demo_image i = Chunk_image \<lparr>im_nx = 1, im_ny = 3, im_use_mrope_pos = True, im_batch_f32 = (), im_id = i\<rparr>"

lemma demo_image_simps [simp]:
  "chunk_n_tokens (demo_image i) = 3" "chunk_n_pos (demo_image i) = 3" "chunk_id (demo_image i) = Some i"
  by (simp_all add: demo_image_def image_n_tokens_def image_n_pos_def)

text \<open>
  C36. The common prefix of two prompts is computed without a fault and is the longest one that
  consists of whole pieces: equal text tokens, and chunks with the same id and number of tokens.
\<close>

theorem common_prefix_refines:
  assumes "list_all (piece_ok mt) ps" and "list_all (piece_ok mt') qs"
  shows "\<exists>k. get_common_prefix (of_pieces mt ps) (of_pieces mt' qs) = Inr (length (toks (take k ps))) \<and>
    k \<le> length ps \<and> k \<le> length qs \<and> (\<forall>j < k. piece_same (ps ! j) (qs ! j)) \<and>
    (k < length ps \<and> k < length qs \<longrightarrow> \<not> piece_same (ps ! k) (qs ! k))"
  using get_common_prefix_pieces [OF assms] common_pieces_prefix [of ps qs] by metis

theorem common_prefix_refines_witness:
  "get_common_prefix (of_pieces True [Text 5, Media (demo_image ''a''), Text 6])
     (of_pieces True [Text 5, Media (demo_image ''a''), Text 7]) = Inr 4"
proof -
  let ?ps = "[Text 5, Media (demo_image ''a''), Text 6]" and ?qs = "[Text 5, Media (demo_image ''a''), Text 7]"
  have "list_all (piece_ok True) ?ps" "list_all (piece_ok True) ?qs" by (simp_all add: LLAMA_TOKEN_NULL_def)
  then obtain k where k: "get_common_prefix (of_pieces True ?ps) (of_pieces True ?qs) = Inr (length (toks (take k ?ps)))"
    "k \<le> length ?ps" "\<forall>j < k. piece_same (?ps ! j) (?qs ! j)"
    "k < length ?ps \<and> k < length ?qs \<longrightarrow> \<not> piece_same (?ps ! k) (?qs ! k)"
    using common_prefix_refines [of True ?ps True ?qs] by blast
  have "k \<noteq> 3" using k(3) by (auto dest: spec [of _ 2])
  moreover have "k \<noteq> 0" using k(4) by (cases "k = 0") simp_all
  moreover have "k \<noteq> 1" using k(4) by (cases "k = 1") simp_all
  ultimately have "k = 2" using k(2) by auto
  then show ?thesis using k(1) by simp
qed

text \<open>
  Tokens and positions convert into each other at the ends of pieces: \<open>pos_next\<close> of the tokens of
  a prefix ends and is the position behind the prefix, and \<open>size_up_to_pos\<close> of the last position of
  the prefix gives its tokens back, although a chunk takes different numbers of both.
\<close>

lemma positions_round_trip:
  assumes "list_all (piece_ok mt) (ps @ qs)" and "ps \<noteq> []"
  shows "pos_next (int (length (toks ps))) (of_pieces mt (ps @ qs)) = Some (Inr (posn ps)) \<and>
    size_up_to_pos (posn ps - 1) (of_pieces mt (ps @ qs)) = Some (length (toks ps))"
  using pos_next_pieces(1) [OF assms(1)] size_up_to_pos_pieces [OF assms] by simp

text \<open>
  Reusing a cached prompt fails when the new prompt shares an image of several tokens with it and
  has another image behind it: the common prefix ends between the two chunks, and truncating the
  cached prompt to it throws. Cutting the shared image itself behind its first token is accepted.
\<close>

lemma reuse_between_images_throws:
  assumes "list_all (piece_ok True) (xs @ Media c # Media d # ys)"
    and "list_all (piece_ok True) (xs @ Media c # Media e # zs)"
    and "1 < chunk_n_tokens c" and "chunk_id d \<noteq> chunk_id e"
  shows "\<exists>n st. get_common_prefix (of_pieces True (xs @ Media c # Media d # ys)) (of_pieces True (xs @ Media c # Media e # zs)) = Inr n \<and>
    keep_first n (of_pieces True (xs @ Media c # Media d # ys)) = Inl (Runtime_error ''Chunk not found'') \<and>
    keep_first (length (toks xs) + 1) (of_pieces True (xs @ Media c # Media d # ys)) = Inr st"
proof -
  have same: "piece_same p p" for p :: "'a piece" by (cases p) auto
  have "common_pieces (xs @ Media c # Media d # ys) (xs @ Media c # Media e # zs) = xs @ [Media c]"
    using assms(4) same by (induction xs) auto
  then have "get_common_prefix (of_pieces True (xs @ Media c # Media d # ys)) (of_pieces True (xs @ Media c # Media e # zs)) =
      Inr (length (toks (xs @ [Media c])))"
    using get_common_prefix_pieces [OF assms(1,2)] by simp
  moreover have "cut_refused (xs @ [Media c]) (Media d # ys)" using assms(3) by (auto simp: cut_refused_def)
  then have "keep_first (length (toks (xs @ [Media c]))) (of_pieces True ((xs @ [Media c]) @ Media d # ys)) =
      Inl (Runtime_error ''Chunk not found'')"
    using keep_first_pieces [of True "xs @ [Media c]" "Media d # ys"] assms(1) by simp
  ultimately show ?thesis using keep_first_inside [OF assms(1,3)] by simp
qed

text \<open>
  Appending one prompt to another works for text. A prompt with media cannot be appended: the
  token of its first chunk throws before the loop that should copy the chunks is reached (and that
  loop would not end). A media-enabled prompt is rejected by a text-only one even without media.
\<close>

lemma append_prompt_exact:
  assumes "list_all (piece_ok mt) ps" and "list_all (piece_ok mt') qs"
  shows "push_back_tokens (of_pieces mt' qs) (of_pieces mt ps) =
    Some (if \<exists>c. Media c \<in> set qs then Inl (Runtime_error ''Invalid token'')
          else if mt' \<and> \<not> mt then Inl (Ggml_assert ''has_mtmd'') else Inr (of_pieces mt (ps @ qs)))"
proof (cases "\<exists>c. Media c \<in> set qs")
  case True
  then have "LLAMA_TOKEN_NULL \<in> set (toks qs)" using toks_null_iff [OF assms(2)] by simp
  then have "push_back_list (toks qs) (of_pieces mt ps) = Inl (Runtime_error ''Invalid token'')"
    by (rule push_back_list_null)
  then show ?thesis using True by (simp add: push_back_tokens_def)
next
  case False
  then have "LLAMA_TOKEN_NULL \<notin> set (toks qs)" using toks_null_iff [OF assms(2)] by simp
  moreover have "map Text (toks qs) = qs" "media_at 0 qs = []"
  proof -
    have "map Text (toks rs) = rs \<and> media_at k rs = []" if "\<nexists>c. Media c \<in> set rs" for rs :: "'a piece list" and k
      using that by (induction k rs rule: media_at.induct) auto
    then show "map Text (toks qs) = qs" "media_at 0 qs = []" using False by blast+
  qed
  ultimately show ?thesis
    using False push_back_list_pieces [of "toks qs" mt ps] by (simp add: push_back_tokens_def copy_media.simps)
qed

end
