(* ===== verification/ServerQueue.thy ===== *)
theory ServerQueue
  imports Prelude "HOL-Library.Multiset"
begin

text \<open>
  The task queue and the result queue of the server (\<open>tools/server/server-queue.h\<close>,
  \<open>tools/server/server-queue.cpp\<close>). Every critical section (a lock of \<open>mutex_tasks\<close> or
  \<open>mutex_results\<close>) is one operation on the record of the queue. The main loop \<open>start_loop\<close> is
  a step relation over the operations: which thread takes its critical section next is not
  determined, and the clock is read at every step. A condition variable adds nothing to the
  relation: a thread may look at the condition at any time.
\<close>

section \<open>Tasks\<close>

datatype server_task_type =
    SERVER_TASK_TYPE_COMPLETION
  | SERVER_TASK_TYPE_EMBEDDING
  | SERVER_TASK_TYPE_RERANK
  | SERVER_TASK_TYPE_INFILL
  | SERVER_TASK_TYPE_CANCEL
  | SERVER_TASK_TYPE_NEXT_RESPONSE
  | SERVER_TASK_TYPE_METRICS
  | SERVER_TASK_TYPE_SLOT_SAVE
  | SERVER_TASK_TYPE_SLOT_RESTORE
  | SERVER_TASK_TYPE_SLOT_ERASE
  | SERVER_TASK_TYPE_GET_LORA
  | SERVER_TASK_TYPE_SET_LORA

text \<open>The parameters, tokens and other data of a task are a value of \<open>'p\<close>: the queues only move them.\<close>

datatype 'p server_task = Server_task
  (st_id: int) (st_index: nat) (st_id_target: int) (st_id_slot: int) (st_id_parent: int)
  (st_type: server_task_type) (st_data: 'p) (st_child_tasks: "'p server_task list")

fun set_id :: "int \<Rightarrow> 'p server_task \<Rightarrow> 'p server_task" where
  "set_id i (Server_task _ ix tg sl pa ty d ch) = Server_task i ix tg sl pa ty d ch"

fun set_index :: "nat \<Rightarrow> 'p server_task \<Rightarrow> 'p server_task" where
  "set_index ix (Server_task i _ tg sl pa ty d ch) = Server_task i ix tg sl pa ty d ch"

fun set_children :: "'p server_task list \<Rightarrow> 'p server_task \<Rightarrow> 'p server_task" where
  "set_children ch (Server_task i ix tg sl pa ty d _) = Server_task i ix tg sl pa ty d ch"

definition need_embd :: "'p server_task \<Rightarrow> bool" where
  "need_embd t = (case st_type t of
     SERVER_TASK_TYPE_EMBEDDING \<Rightarrow> True | SERVER_TASK_TYPE_RERANK \<Rightarrow> True | _ \<Rightarrow> False)"

definition need_logits :: "'p server_task \<Rightarrow> bool" where
  "need_logits t = (case st_type t of
     SERVER_TASK_TYPE_COMPLETION \<Rightarrow> True | SERVER_TASK_TYPE_INFILL \<Rightarrow> True | _ \<Rightarrow> False)"

definition need_sampling :: "'p server_task \<Rightarrow> bool" where
  "need_sampling t = (case st_type t of
     SERVER_TASK_TYPE_COMPLETION \<Rightarrow> True | SERVER_TASK_TYPE_INFILL \<Rightarrow> True | _ \<Rightarrow> False)"

definition is_parent :: "'p server_task \<Rightarrow> bool" where
  "is_parent t \<longleftrightarrow> length (st_child_tasks t) > 0"

definition is_child :: "'p server_task \<Rightarrow> bool" where
  "is_child t \<longleftrightarrow> st_id_parent t \<noteq> -1"

text \<open>\<open>reseed\<close> is what the copy does to the parameters: the \<open>n\<close>-th child gets its own seed.\<close>

definition add_child :: "(nat \<Rightarrow> 'p \<Rightarrow> 'p) \<Rightarrow> int \<Rightarrow> int \<Rightarrow> 'p server_task \<Rightarrow> 'p server_task" where
  "add_child reseed id_parent id_child t =
     set_children (st_child_tasks t @
       [Server_task id_child 0 (-1) (-1) id_parent (st_type t) (reseed (length (st_child_tasks t) + 1) (st_data t)) []]) t"

definition get_list_id :: "'p server_task list \<Rightarrow> int set" where
  "get_list_id tasks = fold (\<lambda>t ids. fold (\<lambda>c ids. insert (st_id c) ids) (st_child_tasks t) (insert (st_id t) ids)) tasks {}"

section \<open>The task queue\<close>

record 'p server_queue =
  sq_id :: int
  sq_running :: bool
  sq_sleeping :: bool
  sq_req_stop_sleeping :: bool
  sq_time_last_task :: int
  sq_tasks :: "'p server_task list"
  sq_tasks_deferred :: "'p server_task list"

definition server_queue_new :: "'p server_queue" where
  "server_queue_new = \<lparr>sq_id = 0, sq_running = False, sq_sleeping = False, sq_req_stop_sleeping = False,
     sq_time_last_task = 0, sq_tasks = [], sq_tasks_deferred = []\<rparr>"

definition cleanup_pending_task :: "int \<Rightarrow> 'p server_queue \<Rightarrow> 'p server_queue" where
  "cleanup_pending_task id_target q =
    q\<lparr>sq_tasks := filter (\<lambda>t. st_id t \<noteq> id_target) (sq_tasks q),
      sq_tasks_deferred := filter (\<lambda>t. st_id t \<noteq> id_target) (sq_tasks_deferred q)\<rparr>"

text \<open>What both versions of \<open>post\<close> do with one task.\<close>

definition enqueue :: "bool \<Rightarrow> 'p server_task \<Rightarrow> 'p server_queue \<Rightarrow> 'p server_queue" where
  "enqueue front t q =
    (let q1 = (if st_type t = SERVER_TASK_TYPE_CANCEL then cleanup_pending_task (st_id_target t) q else q)
     in if front then q1\<lparr>sq_tasks := t # sq_tasks q1\<rparr> else q1\<lparr>sq_tasks := sq_tasks q1 @ [t]\<rparr>)"

definition post :: "int \<Rightarrow> 'p server_task \<Rightarrow> bool \<Rightarrow> 'p server_queue \<Rightarrow> (int \<times> 'p server_queue) res" where
  "post now t front q =
    (if st_id t = -1 then Inl (Ggml_assert ''task.id != -1'')
     else Inr (st_id t, (enqueue front t q)\<lparr>sq_time_last_task := now\<rparr>))"

definition assign_id :: "'p server_task \<Rightarrow> 'p server_queue \<Rightarrow> 'p server_task \<times> 'p server_queue" where
  "assign_id t q = (if st_id t = -1 then (set_id (sq_id q) t, q\<lparr>sq_id := sq_id q + 1\<rparr>) else (t, q))"

fun post_loop :: "bool \<Rightarrow> 'p server_task list \<Rightarrow> 'p server_queue \<Rightarrow> 'p server_queue" where
  "post_loop front [] q = q"
| "post_loop front (t # ts) q = (case assign_id t q of (t', q') \<Rightarrow> post_loop front ts (enqueue front t' q'))"

definition post_all :: "int \<Rightarrow> 'p server_task list \<Rightarrow> bool \<Rightarrow> 'p server_queue \<Rightarrow> int \<times> 'p server_queue" where
  "post_all now ts front q = (0, (post_loop front ts q)\<lparr>sq_time_last_task := now\<rparr>)"

definition defer_task :: "int \<Rightarrow> 'p server_task \<Rightarrow> 'p server_queue \<Rightarrow> 'p server_queue" where
  "defer_task now t q = q\<lparr>sq_tasks_deferred := sq_tasks_deferred q @ [t], sq_time_last_task := now\<rparr>"

definition get_new_id :: "'p server_queue \<Rightarrow> int \<times> 'p server_queue" where
  "get_new_id q = (sq_id q, q\<lparr>sq_id := sq_id q + 1\<rparr>)"

text \<open>Split a list at its first element with a property.\<close>

fun find_split :: "('a \<Rightarrow> bool) \<Rightarrow> 'a list \<Rightarrow> ('a list \<times> 'a \<times> 'a list) option" where
  "find_split P [] = None"
| "find_split P (x # xs) = (if P x then Some ([], x, xs)
     else map_option (\<lambda>(ys, y, zs). (x # ys, y, zs)) (find_split P xs))"

definition pop_deferred_task :: "int \<Rightarrow> int \<Rightarrow> 'p server_queue \<Rightarrow> 'p server_queue" where
  "pop_deferred_task now id_slot q =
    (let q1 = (case sq_tasks_deferred q of
                 [] \<Rightarrow> q
               | d # ds \<Rightarrow>
                   (case find_split (\<lambda>t. st_id_slot t = id_slot) (d # ds) of
                      Some (ys, t, zs) \<Rightarrow> q\<lparr>sq_tasks := t # sq_tasks q, sq_tasks_deferred := ys @ zs\<rparr>
                    | None \<Rightarrow> q\<lparr>sq_tasks := d # sq_tasks q, sq_tasks_deferred := ds\<rparr>))
     in q1\<lparr>sq_time_last_task := now\<rparr>)"

text \<open>
  \<open>wait_until_no_sleep\<close> up to its wait: the first component says whether the caller returns at
  once. A caller that waits returns as soon as it sees \<open>\<not> sleeping\<close>.
\<close>

definition request_wake :: "'p server_queue \<Rightarrow> bool \<times> 'p server_queue" where
  "request_wake q =
    (if \<not> sq_sleeping q then (True, q)
     else (False, if \<not> sq_req_stop_sleeping q then q\<lparr>sq_req_stop_sleeping := True\<rparr> else q))"

definition sq_terminate :: "'p server_queue \<Rightarrow> 'p server_queue" where
  "sq_terminate q = q\<lparr>sq_running := False\<rparr>"

definition should_sleep :: "int \<Rightarrow> int \<Rightarrow> 'p server_queue \<Rightarrow> bool" where
  "should_sleep idle_sleep_ms now q \<longleftrightarrow> \<not> idle_sleep_ms < 0 \<and> now - sq_time_last_task q \<ge> idle_sleep_ms"

section \<open>The main loop\<close>

text \<open>Where the main thread is: \<open>In_callback t\<close> runs \<open>callback_new_task\<close> with task \<open>t\<close>.\<close>

datatype 'p loop_pc =
    Not_started
  | Processing
  | In_callback "'p server_task"
  | Updating
  | Waiting
  | Sleeping
  | Stopped

text \<open>What a thread other than the main loop, or a callback of the main loop, does to the queue.\<close>

datatype 'p queue_op =
    Op_post "'p server_task" bool
  | Op_post_all "'p server_task list" bool
  | Op_get_new_id
  | Op_pop_deferred int
  | Op_request_wake
  | Op_terminate

fun do_op :: "int \<Rightarrow> 'p queue_op \<Rightarrow> 'p server_queue \<Rightarrow> 'p server_queue res" where
  "do_op now (Op_post t front) q = bind_res (post now t front q) (\<lambda>r. Inr (snd r))"
| "do_op now (Op_post_all ts front) q = Inr (snd (post_all now ts front q))"
| "do_op now Op_get_new_id q = Inr (snd (get_new_id q))"
| "do_op now (Op_pop_deferred s) q = Inr (pop_deferred_task now s q)"
| "do_op now Op_request_wake q = Inr (snd (request_wake q))"
| "do_op now Op_terminate q = Inr (sq_terminate q)"

text \<open>
  The steps of the main thread, but for the end of a callback. A callback may put its task back
  (\<open>defer\<close>); what else callbacks do to the queue are operations like those of other threads.
\<close>

inductive main_step ::
    "int \<Rightarrow> 'p loop_pc \<times> 'p server_queue \<Rightarrow> 'p loop_pc \<times> 'p server_queue \<Rightarrow> bool" for idle_sleep_ms where
  start: "main_step idle_sleep_ms (Not_started, q) (Processing, q\<lparr>sq_running := True, sq_time_last_task := now\<rparr>)"
| stop: "\<not> sq_running q \<Longrightarrow> main_step idle_sleep_ms (Processing, q) (Stopped, q)"
| no_task: "sq_running q \<Longrightarrow> sq_tasks q = [] \<Longrightarrow> main_step idle_sleep_ms (Processing, q) (Updating, q)"
| take_task: "sq_running q \<Longrightarrow> sq_tasks q = t # ts \<Longrightarrow>
    main_step idle_sleep_ms (Processing, q) (In_callback t, q\<lparr>sq_tasks := ts\<rparr>)"
| deferred: "main_step idle_sleep_ms (In_callback t, q) (Processing, defer_task now t q)"
| updated: "main_step idle_sleep_ms (Updating, q) (Waiting, q\<lparr>sq_time_last_task := now\<rparr>)"
| work: "\<not> sq_running q \<or> sq_tasks q \<noteq> [] \<Longrightarrow> main_step idle_sleep_ms (Waiting, q) (Processing, q)"
| fall_asleep: "sq_running q \<Longrightarrow> sq_tasks q = [] \<Longrightarrow> should_sleep idle_sleep_ms now q \<Longrightarrow>
    main_step idle_sleep_ms (Waiting, q) (Sleeping, q\<lparr>sq_sleeping := True, sq_req_stop_sleeping := False\<rparr>)"
| wait_on: "sq_running q \<Longrightarrow> sq_tasks q = [] \<Longrightarrow> \<not> should_sleep idle_sleep_ms now q \<Longrightarrow>
    main_step idle_sleep_ms (Waiting, q) (Waiting, q)"
| stop_asleep: "\<not> sq_running q \<Longrightarrow> main_step idle_sleep_ms (Sleeping, q) (Processing, q)"
| wake_up: "sq_running q \<Longrightarrow> sq_req_stop_sleeping q \<Longrightarrow>
    main_step idle_sleep_ms (Sleeping, q)
      (Processing, q\<lparr>sq_req_stop_sleeping := False, sq_sleeping := False, sq_time_last_task := now\<rparr>)"

inductive loop_step ::
    "int \<Rightarrow> 'p loop_pc \<times> 'p server_queue \<Rightarrow> 'p loop_pc \<times> 'p server_queue \<Rightarrow> bool" for idle_sleep_ms where
  main: "main_step idle_sleep_ms s s' \<Longrightarrow> loop_step idle_sleep_ms s s'"
| handled: "loop_step idle_sleep_ms (In_callback t, q) (Processing, q)"
| other: "do_op now op q = Inr q' \<Longrightarrow> loop_step idle_sleep_ms (pc, q) (pc, q')"

inductive loop_run ::
    "int \<Rightarrow> 'p loop_pc \<times> 'p server_queue \<Rightarrow> 'p loop_pc \<times> 'p server_queue \<Rightarrow> bool" for idle_sleep_ms where
  run_refl: "loop_run idle_sleep_ms s s"
| run_step: "loop_run idle_sleep_ms s t \<Longrightarrow> loop_step idle_sleep_ms t u \<Longrightarrow> loop_run idle_sleep_ms s u"

inductive_cases main_step_Stopped: "main_step idle (Stopped, q) s"
inductive_cases loop_step_Stopped: "loop_step idle (Stopped, q) s"

section \<open>Results\<close>

record 'r task_result =
  tr_id :: int
  tr_index :: nat
  tr_is_error :: bool
  tr_is_stop :: bool
  tr_body :: 'r

record 'r server_response =
  sr_running :: bool
  sr_waiting_task_ids :: "int set"
  sr_queue_results :: "'r task_result list"

definition server_response_new :: "'r server_response" where
  "server_response_new = \<lparr>sr_running = True, sr_waiting_task_ids = {}, sr_queue_results = []\<rparr>"

definition add_waiting_task_id :: "int \<Rightarrow> 'r server_response \<Rightarrow> 'r server_response" where
  "add_waiting_task_id i r = r\<lparr>sr_waiting_task_ids := insert i (sr_waiting_task_ids r)\<rparr>"

definition add_waiting_task_ids :: "int set \<Rightarrow> 'r server_response \<Rightarrow> 'r server_response" where
  "add_waiting_task_ids ids r = r\<lparr>sr_waiting_task_ids := ids \<union> sr_waiting_task_ids r\<rparr>"

definition remove_waiting_task_id :: "int \<Rightarrow> 'r server_response \<Rightarrow> 'r server_response" where
  "remove_waiting_task_id i r =
    r\<lparr>sr_waiting_task_ids := sr_waiting_task_ids r - {i},
      sr_queue_results := filter (\<lambda>x. tr_id x \<noteq> i) (sr_queue_results r)\<rparr>"

definition remove_waiting_task_ids :: "int set \<Rightarrow> 'r server_response \<Rightarrow> 'r server_response" where
  "remove_waiting_task_ids ids r = r\<lparr>sr_waiting_task_ids := sr_waiting_task_ids r - ids\<rparr>"

text \<open>One look at the results: the first one for the ids is taken out.\<close>

definition take_result :: "int set \<Rightarrow> 'r server_response \<Rightarrow> ('r task_result \<times> 'r server_response) option" where
  "take_result ids r =
    (case find_split (\<lambda>x. tr_id x \<in> ids) (sr_queue_results r) of
       None \<Rightarrow> None
     | Some (ys, x, zs) \<Rightarrow> Some (x, r\<lparr>sr_queue_results := ys @ zs\<rparr>))"

text \<open>
  \<open>recv\<close> at one wake-up: \<open>Inl\<close> when the process ends, \<^const>\<open>None\<close> when it goes on waiting.
\<close>

definition recv_look :: "int set \<Rightarrow> 'r server_response \<Rightarrow> ('r task_result \<times> 'r server_response) option res" where
  "recv_look ids r = (if \<not> sr_running r then Inl (Ggml_abort ''std::terminate'') else Inr (take_result ids r))"

definition send :: "'r task_result \<Rightarrow> 'r server_response \<Rightarrow> 'r server_response" where
  "send x r = (if tr_id x \<in> sr_waiting_task_ids r then r\<lparr>sr_queue_results := sr_queue_results r @ [x]\<rparr> else r)"

definition sr_terminate :: "'r server_response \<Rightarrow> 'r server_response" where
  "sr_terminate r = r\<lparr>sr_running := False\<rparr>"

section \<open>The reader\<close>

text \<open>The generation states are a list of \<open>'s\<close>; \<open>rr_update\<close> is what a result does to its state.\<close>

record 's reader =
  rr_id_tasks :: "int set"
  rr_received_count :: nat
  rr_cancelled :: bool
  rr_states :: "'s list"

definition reader_new :: "'s reader" where
  "reader_new = \<lparr>rr_id_tasks = {}, rr_received_count = 0, rr_cancelled = False, rr_states = []\<rparr>"

text \<open>Numbering the tasks and their children, one state each.\<close>

fun number_children :: "nat \<Rightarrow> 'p server_task list \<Rightarrow> nat \<times> 'p server_task list" where
  "number_children i [] = (i, [])"
| "number_children i (c # cs) = (case number_children (i + 1) cs of (j, cs') \<Rightarrow> (j, set_index i c # cs'))"

fun number_tasks :: "nat \<Rightarrow> 'p server_task list \<Rightarrow> nat \<times> 'p server_task list" where
  "number_tasks i [] = (i, [])"
| "number_tasks i (t # ts) =
    (case number_children (i + 1) (st_child_tasks t) of (j, cs) \<Rightarrow>
     case number_tasks j ts of (k, ts') \<Rightarrow> (k, set_children cs (set_index i t) # ts'))"

definition reader_post_task ::
    "('p server_task \<Rightarrow> 's) \<Rightarrow> int \<Rightarrow> 'p server_task \<Rightarrow> bool \<Rightarrow>
     's reader \<times> 'p server_queue \<times> 'r server_response \<Rightarrow> ('s reader \<times> 'p server_queue \<times> 'r server_response) res" where
  "reader_post_task create_state now t front st =
    (case st of (rd, q, r) \<Rightarrow>
       if rr_id_tasks rd \<noteq> {} then Inl (Ggml_assert ''id_tasks.empty()'')
       else if is_parent t then Inl (Ggml_assert ''!task.is_parent()'')
       else let t' = set_index 0 t
            in bind_res (post now t' front q) (\<lambda>p.
                 Inr (rd\<lparr>rr_id_tasks := {st_id t'}, rr_states := rr_states rd @ [create_state t']\<rparr>, snd p,
                      add_waiting_task_id (st_id t') r)))"

definition reader_post_tasks ::
    "('p server_task \<Rightarrow> 's) \<Rightarrow> int \<Rightarrow> 'p server_task list \<Rightarrow> bool \<Rightarrow>
     's reader \<times> 'p server_queue \<times> 'r server_response \<Rightarrow> ('s reader \<times> 'p server_queue \<times> 'r server_response) res" where
  "reader_post_tasks create_state now ts front st =
    (case st of (rd, q, r) \<Rightarrow>
       if rr_id_tasks rd \<noteq> {} then Inl (Ggml_assert ''id_tasks.empty()'')
       else
         let ids = get_list_id ts;
             ts' = snd (number_tasks 0 ts);
             states = rr_states rd @ concat (map (\<lambda>t. create_state t # map create_state (st_child_tasks t)) ts')
         in if length states \<noteq> card ids then Inl (Ggml_assert ''states.size() == id_tasks.size()'')
            else Inr (rd\<lparr>rr_id_tasks := ids, rr_states := states\<rparr>, snd (post_all now ts' front q),
                      add_waiting_task_ids ids r))"

definition has_next :: "'s reader \<Rightarrow> bool" where
  "has_next rd \<longleftrightarrow> \<not> rr_cancelled rd \<and> rr_received_count rd < card (rr_id_tasks rd)"

text \<open>
  \<open>stop\<close>: \<open>order\<close> is the order in which the loop meets the ids of the unordered set. A cancel
  task has no id yet; \<open>dflt\<close> is the data of a default-constructed task.
\<close>

definition cancel_task :: "'p \<Rightarrow> int \<Rightarrow> 'p server_task" where
  "cancel_task dflt i = Server_task (-1) 0 i (-1) (-1) SERVER_TASK_TYPE_CANCEL dflt []"

definition reader_stop ::
    "'p \<Rightarrow> int list \<Rightarrow> int \<Rightarrow> 's reader \<times> 'p server_queue \<times> 'r server_response \<Rightarrow>
     's reader \<times> 'p server_queue \<times> 'r server_response" where
  "reader_stop dflt order now st =
    (case st of (rd, q, r) \<Rightarrow>
      let r1 = remove_waiting_task_ids (rr_id_tasks rd) r
      in if has_next rd \<and> \<not> rr_cancelled rd
         then (rd\<lparr>rr_cancelled := True\<rparr>, snd (post_all now (map (cancel_task dflt) order) True q),
               fold remove_waiting_task_id order r1)
         else (rd, q, r1))"

text \<open>
  \<open>next\<close> for one outcome of \<open>recv_with_timeout\<close>: \<open>Some x\<close> a result, \<^const>\<open>None\<close> a timeout with the
  answer of \<open>should_stop\<close>. \<open>Continue\<close> is another turn of the loop; the flag says that \<open>stop()\<close> is
  called, of which only the effect on the reader itself is part of the returned state.
\<close>

datatype 'r next_outcome = Continue | Return_null | Return "'r task_result"

fun reader_next ::
    "('r task_result \<Rightarrow> 's \<Rightarrow> 's) \<Rightarrow> 'r task_result option \<Rightarrow> bool \<Rightarrow> 's reader \<Rightarrow> ('r next_outcome \<times> bool \<times> 's reader) res" where
  "reader_next upd None stop rd = Inr (if stop then Return_null else Continue, False, rd)"
| "reader_next upd (Some x) stop rd =
    (if tr_is_error x then Inr (Return x, True, if has_next rd then rd\<lparr>rr_cancelled := True\<rparr> else rd)
     else if rr_states rd \<noteq> [] \<and> \<not> tr_index x < length (rr_states rd) then Inl (Ggml_assert ''idx < states.size()'')
     else
       let rd1 = (if rr_states rd \<noteq> [] then rd\<lparr>rr_states := (rr_states rd)[tr_index x := upd x (rr_states rd ! tr_index x)]\<rparr> else rd);
           rd2 = (if tr_is_stop x then rd1\<lparr>rr_received_count := rr_received_count rd1 + 1\<rparr> else rd1)
       in Inr (Return x, False, rd2))"

record 'r batch_response =
  br_is_terminated :: bool
  br_results :: "'r task_result option list"
  br_error :: "'r task_result option"

text \<open>
  \<open>wait_for_all\<close> over the outcomes that arrive, in order: \<^const>\<open>None\<close> when it is still waiting after
  the last of them.
\<close>

fun wait_for_all_from ::
    "('r task_result \<Rightarrow> 's \<Rightarrow> 's) \<Rightarrow> ('r task_result option \<times> bool) list \<Rightarrow> 's reader \<Rightarrow> 'r batch_response \<Rightarrow>
     ('r batch_response \<times> 's reader) option res" where
  "wait_for_all_from upd evs rd br =
    (if \<not> has_next rd then Inr (Some (br, rd))
     else case evs of
       [] \<Rightarrow> Inr None
     | (x, stop) # evs' \<Rightarrow>
         bind_res (reader_next upd x stop rd) (\<lambda>(out, _, rd').
           case out of
             Continue \<Rightarrow> wait_for_all_from upd evs' rd' br
           | Return_null \<Rightarrow> Inr (Some (br\<lparr>br_is_terminated := True\<rparr>, rd'))
           | Return y \<Rightarrow>
               if tr_is_error y then Inr (Some (br\<lparr>br_error := Some y\<rparr>, rd'))
               else if \<not> tr_index y < length (br_results br) then Inl (Ggml_assert ''index out of range'')
               else if br_results br ! tr_index y \<noteq> None then Inl (Ggml_assert ''duplicate result received'')
               else wait_for_all_from upd evs' rd' (br\<lparr>br_results := (br_results br)[tr_index y := Some y]\<rparr>)))"

definition wait_for_all ::
    "('r task_result \<Rightarrow> 's \<Rightarrow> 's) \<Rightarrow> ('r task_result option \<times> bool) list \<Rightarrow> 's reader \<Rightarrow>
     ('r batch_response \<times> 's reader) option res" where
  "wait_for_all upd evs rd = wait_for_all_from upd evs rd
     \<lparr>br_is_terminated = False, br_results = replicate (card (rr_id_tasks rd)) None, br_error = None\<rparr>"

section \<open>What the operations do to the queues\<close>

lemma st_set_id [simp]: "st_id (set_id i t) = i" "st_type (set_id i t) = st_type t"
  "st_id_target (set_id i t) = st_id_target t"
  by (cases t; simp)+

lemma find_split_Some:
  "find_split P xs = Some (ys, x, zs) \<Longrightarrow> xs = ys @ x # zs \<and> P x \<and> (\<forall>y \<in> set ys. \<not> P y)"
  by (induction xs arbitrary: ys) (auto split: if_splits)

lemma find_split_None: "find_split P xs = None \<longleftrightarrow> (\<forall>x \<in> set xs. \<not> P x)"
  by (induction xs) auto

definition sq_all :: "'p server_queue \<Rightarrow> 'p server_task multiset" where
  "sq_all q = mset (sq_tasks q) + mset (sq_tasks_deferred q)"

lemma sq_all_upd [simp]:
  "sq_all (q\<lparr>sq_time_last_task := n\<rparr>) = sq_all q" "sq_all (q\<lparr>sq_running := b\<rparr>) = sq_all q"
  "sq_all (q\<lparr>sq_sleeping := b\<rparr>) = sq_all q" "sq_all (q\<lparr>sq_req_stop_sleeping := b\<rparr>) = sq_all q"
  "sq_all (q\<lparr>sq_id := i\<rparr>) = sq_all q"
  by (simp_all add: sq_all_def)

lemma pop_deferred_all: "sq_all (pop_deferred_task now s q) = sq_all q"
proof (cases "sq_tasks_deferred q")
  case (Cons d ds)
  show ?thesis
  proof (cases "find_split (\<lambda>t. st_id_slot t = s) (d # ds)")
    case (Some r)
    obtain ys t zs where r: "r = (ys, t, zs)" by (cases r)
    then have "mset (d # ds) = mset (ys @ t # zs)" using find_split_Some Some by metis
    moreover have "pop_deferred_task now s q = q\<lparr>sq_tasks := t # sq_tasks q, sq_tasks_deferred := ys @ zs, sq_time_last_task := now\<rparr>"
      using Cons Some r by (simp add: pop_deferred_task_def del: find_split.simps)
    ultimately show ?thesis using Cons by (simp add: sq_all_def)
  qed (simp add: Cons pop_deferred_task_def sq_all_def del: find_split.simps)
qed (simp add: pop_deferred_task_def)

section \<open>Accounting\<close>

text \<open>
  A run with its events in order: a step of the main thread, which may take a task or put it back, the
  end of a callback, which has handled its task, and an operation on the queue.
\<close>

datatype 'p loop_event =
    Ev_main
  | Ev_take "'p server_task"
  | Ev_defer "'p server_task"
  | Ev_handled "'p server_task"
  | Ev_op int "'p queue_op"

fun main_event :: "'p loop_pc \<Rightarrow> 'p loop_pc \<Rightarrow> 'p loop_event" where
  "main_event _ (In_callback t) = Ev_take t"
| "main_event (In_callback t) _ = Ev_defer t"
| "main_event _ _ = Ev_main"

inductive event_step ::
    "int \<Rightarrow> 'p loop_event \<Rightarrow> 'p loop_pc \<times> 'p server_queue \<Rightarrow> 'p loop_pc \<times> 'p server_queue \<Rightarrow> bool" for idle where
  ev_main: "main_step idle s s' \<Longrightarrow> event_step idle (main_event (fst s) (fst s')) s s'"
| ev_handled: "event_step idle (Ev_handled t) (In_callback t, q) (Processing, q)"
| ev_op: "do_op now op q = Inr q' \<Longrightarrow> event_step idle (Ev_op now op) (pc, q) (pc, q')"

inductive loop_trace ::
    "int \<Rightarrow> 'p loop_pc \<times> 'p server_queue \<Rightarrow> 'p loop_event list \<Rightarrow> 'p loop_pc \<times> 'p server_queue \<Rightarrow> bool" for idle where
  trace_nil: "loop_trace idle s [] s"
| trace_snoc: "loop_trace idle s evs t \<Longrightarrow> event_step idle e t u \<Longrightarrow> loop_trace idle s (evs @ [e]) u"

lemma loop_step_event: "loop_step idle s s' \<longleftrightarrow> (\<exists>e. event_step idle e s s')"
  by (auto elim!: loop_step.cases event_step.cases intro: loop_step.intros event_step.intros)

lemma loop_run_trace: "loop_run idle s s' \<longleftrightarrow> (\<exists>evs. loop_trace idle s evs s')"
proof
  show "loop_run idle s s' \<Longrightarrow> \<exists>evs. loop_trace idle s evs s'"
    by (induction rule: loop_run.induct) (auto simp: loop_step_event intro: loop_trace.intros)
  assume "\<exists>evs. loop_trace idle s evs s'"
  then obtain evs where "loop_trace idle s evs s'" by blast
  then show "loop_run idle s s'"
  proof (induction rule: loop_trace.induct)
    case (trace_snoc s evs t e u)
    then show ?case using run_step loop_step_event by blast
  qed (rule run_refl)
qed

text \<open>
  The ledger is the specification of the task queue. It looks at the events alone: which tasks were posted, with the ids
  that the queue gives to those without one; which of them are pending, without an order; which
  pending ones a cancel removed, those with its target as their id; which were handled.
\<close>

record 'p ledger =
  ld_next :: int
  ld_posted :: "'p server_task multiset"
  ld_pending :: "'p server_task multiset"
  ld_cancelled :: "'p server_task multiset"
  ld_handled :: "'p server_task multiset"

definition ledger_new :: "'p ledger" where
  "ledger_new = \<lparr>ld_next = 0, ld_posted = {#}, ld_pending = {#}, ld_cancelled = {#}, ld_handled = {#}\<rparr>"

definition is_target :: "'p server_task \<Rightarrow> 'p server_task \<Rightarrow> bool" where
  "is_target c t \<longleftrightarrow> st_type c = SERVER_TASK_TYPE_CANCEL \<and> st_id t = st_id_target c"

definition ledger_post :: "'p server_task \<Rightarrow> 'p ledger \<Rightarrow> 'p ledger" where
  "ledger_post t l = l
    \<lparr>ld_posted := add_mset t (ld_posted l),
     ld_pending := add_mset t (filter_mset (\<lambda>u. \<not> is_target t u) (ld_pending l)),
     ld_cancelled := filter_mset (is_target t) (ld_pending l) + ld_cancelled l\<rparr>"

fun ledger_post_all :: "'p server_task list \<Rightarrow> 'p ledger \<Rightarrow> 'p ledger" where
  "ledger_post_all [] l = l"
| "ledger_post_all (t # ts) l = ledger_post_all ts
    (if st_id t = -1 then ledger_post (set_id (ld_next l) t) (l\<lparr>ld_next := ld_next l + 1\<rparr>) else ledger_post t l)"

fun ledger_op :: "'p queue_op \<Rightarrow> 'p ledger \<Rightarrow> 'p ledger" where
  "ledger_op (Op_post t front) l = ledger_post t l"
| "ledger_op (Op_post_all ts front) l = ledger_post_all ts l"
| "ledger_op Op_get_new_id l = l\<lparr>ld_next := ld_next l + 1\<rparr>"
| "ledger_op _ l = l"

fun ledger_event :: "'p loop_event \<Rightarrow> 'p ledger \<Rightarrow> 'p ledger" where
  "ledger_event Ev_main l = l"
| "ledger_event (Ev_take t) l = l\<lparr>ld_pending := ld_pending l - {#t#}\<rparr>"
| "ledger_event (Ev_defer t) l = l\<lparr>ld_pending := add_mset t (ld_pending l)\<rparr>"
| "ledger_event (Ev_handled t) l = l\<lparr>ld_handled := add_mset t (ld_handled l)\<rparr>"
| "ledger_event (Ev_op now op) l = ledger_op op l"

definition ledger_of :: "'p loop_event list \<Rightarrow> 'p ledger" where
  "ledger_of evs = fold ledger_event evs ledger_new"

text \<open>The queue agrees with a ledger.\<close>

definition agrees :: "'p server_queue \<Rightarrow> 'p ledger \<Rightarrow> bool" where
  "agrees q l \<longleftrightarrow> ld_pending l = sq_all q \<and> ld_next l = sq_id q"

definition in_hand :: "'p loop_pc \<times> 'p server_queue \<Rightarrow> 'p server_task multiset" where
  "in_hand s = (case fst s of In_callback t \<Rightarrow> {#t#} | _ \<Rightarrow> {#})"

text \<open>The books are balanced with \<open>h\<close> in the callback, and every cancelled task has its cancel task.\<close>

definition balanced :: "'p server_task multiset \<Rightarrow> 'p ledger \<Rightarrow> bool" where
  "balanced h l \<longleftrightarrow> ld_posted l = ld_pending l + h + ld_cancelled l + ld_handled l"

definition justified :: "'p ledger \<Rightarrow> bool" where
  "justified l \<longleftrightarrow> (\<forall>t. t \<in># ld_cancelled l \<longrightarrow> (\<exists>c. c \<in># ld_posted l \<and> is_target c t))"

lemma sq_id_enqueue [simp]: "sq_id (enqueue front t q) = sq_id q"
  by (simp add: enqueue_def cleanup_pending_task_def Let_def)

lemma enqueue_agrees: "agrees q l \<Longrightarrow> agrees (enqueue front t q) (ledger_post t l)"
  by (cases "st_type t = SERVER_TASK_TYPE_CANCEL")
     (simp_all add: agrees_def ledger_post_def enqueue_def cleanup_pending_task_def sq_all_def is_target_def Let_def)

lemma agrees_upd [simp]:
  "agrees (q\<lparr>sq_time_last_task := n\<rparr>) l = agrees q l" "agrees (q\<lparr>sq_running := b\<rparr>) l = agrees q l"
  "agrees (q\<lparr>sq_sleeping := b\<rparr>) l = agrees q l" "agrees (q\<lparr>sq_req_stop_sleeping := b\<rparr>) l = agrees q l"
  by (simp_all add: agrees_def)

lemma post_loop_agrees: "agrees q l \<Longrightarrow> agrees (post_loop front ts q) (ledger_post_all ts l)"
proof (induction ts arbitrary: q l)
  case (Cons t ts)
  have "agrees (q\<lparr>sq_id := sq_id q + 1\<rparr>) (l\<lparr>ld_next := ld_next l + 1\<rparr>)" "sq_id q = ld_next l"
    using Cons.prems by (simp_all add: agrees_def)
  with Cons show ?case by (auto simp: assign_id_def enqueue_agrees)
qed simp

lemma pop_deferred_agrees: "agrees q l \<Longrightarrow> agrees (pop_deferred_task now s q) l"
proof -
  have "sq_id (pop_deferred_task now s q) = sq_id q"
    by (simp add: pop_deferred_task_def Let_def split: list.split option.split del: find_split.simps)
  then show "agrees q l \<Longrightarrow> agrees (pop_deferred_task now s q) l" by (simp add: agrees_def pop_deferred_all)
qed

lemma do_op_agrees: "do_op now op q = Inr q' \<Longrightarrow> agrees q l \<Longrightarrow> agrees q' (ledger_op op l)"
  by (cases op) (auto simp: post_def post_all_def enqueue_agrees post_loop_agrees pop_deferred_agrees get_new_id_def
      request_wake_def sq_terminate_def split: if_splits, simp add: agrees_def)

lemma justified_upd [simp]:
  "justified (l\<lparr>ld_pending := m\<rparr>) = justified l" "justified (l\<lparr>ld_handled := m\<rparr>) = justified l"
  "justified (l\<lparr>ld_next := i\<rparr>) = justified l"
  by (simp_all add: justified_def)

lemma ledger_post_balanced: "balanced h l \<Longrightarrow> balanced h (ledger_post t l)"
  using multiset_partition [of "ld_pending l" "is_target t"]
  by (simp add: balanced_def ledger_post_def ac_simps)

lemma ledger_post_justified:
  assumes "justified l"
  shows "justified (ledger_post t l)"
proof -
  have "\<exists>c. c \<in># ld_posted (ledger_post t l) \<and> is_target c u" if "u \<in># ld_cancelled (ledger_post t l)" for u
  proof (cases "is_target t u")
    case True
    then show ?thesis by (intro exI [of _ t]) (simp add: ledger_post_def)
  next
    case False
    then have "u \<in># ld_cancelled l" using that by (simp add: ledger_post_def)
    then obtain c where "c \<in># ld_posted l" "is_target c u" using assms unfolding justified_def by blast
    then show ?thesis by (intro exI [of _ c]) (simp add: ledger_post_def)
  qed
  then show ?thesis unfolding justified_def by blast
qed

lemma ledger_op_books: "balanced h l \<and> justified l \<Longrightarrow> balanced h (ledger_op op l) \<and> justified (ledger_op op l)"
proof -
  have next_id: "balanced h (l\<lparr>ld_next := i\<rparr>) = balanced h l" for i and l :: "'a ledger"
    by (simp add: balanced_def)
  have "balanced h l \<and> justified l \<Longrightarrow> balanced h (ledger_post_all ts l) \<and> justified (ledger_post_all ts l)" for ts
    by (induction ts arbitrary: l) (simp_all add: ledger_post_balanced ledger_post_justified next_id)
  then show "balanced h l \<and> justified l \<Longrightarrow> balanced h (ledger_op op l) \<and> justified (ledger_op op l)"
    by (cases op) (simp_all add: ledger_post_balanced ledger_post_justified next_id)
qed

text \<open>What a state and a ledger have to do with each other.\<close>

definition in_books :: "'p loop_pc \<times> 'p server_queue \<Rightarrow> 'p ledger \<Rightarrow> bool" where
  "in_books s l \<longleftrightarrow> agrees (snd s) l \<and> balanced (in_hand s) l \<and> justified l"

lemma main_step_books:
  "main_step idle s s' \<Longrightarrow> in_books s l \<Longrightarrow> in_books s' (ledger_event (main_event (fst s) (fst s')) l)"
  by (induction rule: main_step.induct)
     (simp_all add: in_books_def in_hand_def agrees_def balanced_def sq_all_def defer_task_def)

lemma event_step_books: "event_step idle e s s' \<Longrightarrow> in_books s l \<Longrightarrow> in_books s' (ledger_event e l)"
proof (induction rule: event_step.induct)
  case (ev_main s s')
  then show ?case by (rule main_step_books)
next
  case (ev_handled t q)
  then show ?case by (simp add: in_books_def agrees_def balanced_def in_hand_def)
next
  case (ev_op now op q q' pc)
  then show ?case
    using do_op_agrees [OF ev_op(1)] ledger_op_books [of "in_hand (pc, q)" l op] by (simp add: in_books_def in_hand_def)
qed

lemma trace_books:
  assumes "loop_trace idle s0 evs s" "s0 = (Not_started, server_queue_new)"
  shows "in_books s (ledger_of evs)"
  using assms
proof (induction rule: loop_trace.induct)
  case (trace_nil s)
  then show ?case
    by (simp add: in_books_def ledger_of_def ledger_new_def agrees_def balanced_def justified_def in_hand_def sq_all_def
        server_queue_new_def)
next
  case (trace_snoc s evs t e u)
  then show ?case using event_step_books [OF trace_snoc.hyps(2)] by (simp add: ledger_of_def)
qed

section \<open>Sleeping\<close>

lemma enqueue_flags [simp]:
  "sq_running (enqueue f t q) = sq_running q" "sq_sleeping (enqueue f t q) = sq_sleeping q"
  by (simp_all add: enqueue_def cleanup_pending_task_def Let_def)

lemma assign_id_flags:
  "assign_id t q = (t', q') \<Longrightarrow> sq_running q' = sq_running q \<and> sq_sleeping q' = sq_sleeping q"
  by (auto simp: assign_id_def split: if_splits)

lemma post_loop_flags [simp]:
  "sq_running (post_loop f ts q) = sq_running q \<and> sq_sleeping (post_loop f ts q) = sq_sleeping q"
proof (induction ts arbitrary: q)
  case (Cons t ts)
  then show ?case by (cases "assign_id t q") (simp add: assign_id_flags)
qed simp

lemma do_op_flags:
  "do_op now op q = Inr q' \<Longrightarrow> sq_sleeping q' = sq_sleeping q \<and> (sq_running q' \<longrightarrow> sq_running q)"
  by (cases op) (auto simp: post_def post_all_def get_new_id_def pop_deferred_task_def request_wake_def
      sq_terminate_def Let_def split: if_splits list.splits option.splits)

text \<open>
  While the loop runs, \<open>sleeping\<close> says that the main thread waits in the sleeping state; before it
  starts nothing sleeps.
\<close>

definition sleep_inv :: "'p loop_pc \<times> 'p server_queue \<Rightarrow> bool" where
  "sleep_inv s \<longleftrightarrow> (sq_running (snd s) \<longrightarrow> (sq_sleeping (snd s) \<longleftrightarrow> fst s = Sleeping)) \<and>
     (fst s = Not_started \<longrightarrow> \<not> sq_sleeping (snd s)) \<and> (fst s = Sleeping \<longrightarrow> sq_sleeping (snd s))"

lemma sleep_inv_step: "loop_step idle s s' \<Longrightarrow> sleep_inv s \<Longrightarrow> sleep_inv s'"
proof (induction rule: loop_step.induct)
  case (main s s')
  then show ?case by (induction rule: main_step.induct) (auto simp: sleep_inv_def defer_task_def)
next
  case (other now op q q' pc)
  then show ?case using do_op_flags [OF other(1)] by (auto simp: sleep_inv_def)
qed (auto simp: sleep_inv_def)

lemma sleep_inv_run: "loop_run idle s s' \<Longrightarrow> sleep_inv s \<Longrightarrow> sleep_inv s'"
  by (induction rule: loop_run.induct) (auto intro: sleep_inv_step)

lemma stopped_asleep_step:
  "loop_step idle s s' \<Longrightarrow> fst s = Stopped \<and> sq_sleeping (snd s) \<Longrightarrow> fst s' = Stopped \<and> sq_sleeping (snd s')"
proof (induction rule: loop_step.induct)
  case (main s s')
  then show ?case by (cases s) (auto elim: main_step_Stopped)
qed (auto dest: do_op_flags)

lemma stopped_asleep_run:
  "loop_run idle s s' \<Longrightarrow> fst s = Stopped \<and> sq_sleeping (snd s) \<Longrightarrow> fst s' = Stopped \<and> sq_sleeping (snd s')"
  by (induction rule: loop_run.induct) (use stopped_asleep_step in blast)+

section \<open>Cancelling and collecting\<close>

lemma cancel_loop:
  assumes "\<forall>i \<in> set order. i < sq_id q"
  shows "\<forall>u \<in> set (sq_tasks (post_loop True (map (cancel_task d) order) q)) \<union>
      set (sq_tasks_deferred (post_loop True (map (cancel_task d) order) q)).
      st_id u \<notin> set order \<and> (u \<in> set (sq_tasks q) \<union> set (sq_tasks_deferred q) \<or>
        st_type u = SERVER_TASK_TYPE_CANCEL \<and> st_id_target u \<in> set order \<and> sq_id q \<le> st_id u)"
  using assms
proof (induction order arbitrary: q)
  case (Cons i order)
  let ?q = "enqueue True (set_id (sq_id q) (cancel_task d i)) (q\<lparr>sq_id := sq_id q + 1\<rparr>)"
  have eq: "post_loop True (map (cancel_task d) (i # order)) q = post_loop True (map (cancel_task d) order) ?q"
    by (simp add: assign_id_def cancel_task_def)
  have id: "sq_id ?q = sq_id q + 1" by (simp add: enqueue_def cleanup_pending_task_def Let_def)
  have qs: "set (sq_tasks ?q) \<union> set (sq_tasks_deferred ?q) =
      insert (set_id (sq_id q) (cancel_task d i)) {u \<in> set (sq_tasks q) \<union> set (sq_tasks_deferred q). st_id u \<noteq> i}"
    by (auto simp: enqueue_def cleanup_pending_task_def Let_def cancel_task_def)
  show ?case
  proof -
    have "\<forall>j \<in> set order. j < sq_id ?q" using Cons.prems id by auto
    then have ih: "\<forall>u \<in> set (sq_tasks (post_loop True (map (cancel_task d) order) ?q)) \<union>
        set (sq_tasks_deferred (post_loop True (map (cancel_task d) order) ?q)).
        st_id u \<notin> set order \<and> (u \<in> set (sq_tasks ?q) \<union> set (sq_tasks_deferred ?q) \<or>
          st_type u = SERVER_TASK_TYPE_CANCEL \<and> st_id_target u \<in> set order \<and> sq_id ?q \<le> st_id u)"
      by (rule Cons.IH)
    show ?thesis
    proof
      fix u assume "u \<in> set (sq_tasks (post_loop True (map (cancel_task d) (i # order)) q)) \<union>
        set (sq_tasks_deferred (post_loop True (map (cancel_task d) (i # order)) q))"
      then have u: "st_id u \<notin> set order" "u = set_id (sq_id q) (cancel_task d i) \<or>
          (u \<in> set (sq_tasks q) \<union> set (sq_tasks_deferred q) \<and> st_id u \<noteq> i) \<or>
          st_type u = SERVER_TASK_TYPE_CANCEL \<and> st_id_target u \<in> set order \<and> sq_id q + 1 \<le> st_id u"
        using ih unfolding eq qs id by blast+
      have i: "i < sq_id q" using Cons.prems(1) by simp
      have c: "st_id (set_id (sq_id q) (cancel_task d i)) = sq_id q" "st_id_target (set_id (sq_id q) (cancel_task d i)) = i"
        "st_type (set_id (sq_id q) (cancel_task d i)) = SERVER_TASK_TYPE_CANCEL" by (simp_all add: cancel_task_def)
      have "st_id u \<noteq> i"
        using u(2)
      proof (elim disjE)
        assume "u = set_id (sq_id q) (cancel_task d i)"
        then have "st_id u = sq_id q" using c(1) by simp
        then show ?thesis using i by simp
      qed (use i in auto)
      moreover have "u \<in> set (sq_tasks q) \<union> set (sq_tasks_deferred q) \<or>
          st_type u = SERVER_TASK_TYPE_CANCEL \<and> st_id_target u \<in> set (i # order) \<and> sq_id q \<le> st_id u"
        using u(2) c by auto
      ultimately show "st_id u \<notin> set (i # order) \<and> (u \<in> set (sq_tasks q) \<union> set (sq_tasks_deferred q) \<or>
          st_type u = SERVER_TASK_TYPE_CANCEL \<and> st_id_target u \<in> set (i # order) \<and> sq_id q \<le> st_id u)"
        using u(1) by simp
    qed
  qed
qed simp

lemma fold_remove_waiting:
  "sr_waiting_task_ids (fold remove_waiting_task_id is r) = sr_waiting_task_ids r - set is"
  "sr_queue_results (fold remove_waiting_task_id is r) = filter (\<lambda>x. tr_id x \<notin> set is) (sr_queue_results r)"
proof -
  have "sr_waiting_task_ids (fold remove_waiting_task_id is r) = sr_waiting_task_ids r - set is \<and>
      sr_queue_results (fold remove_waiting_task_id is r) = filter (\<lambda>x. tr_id x \<notin> set is) (sr_queue_results r)"
  proof (induction "is" arbitrary: r)
    case (Cons i "is")
    then show ?case by (auto simp: remove_waiting_task_id_def intro!: filter_cong)
  qed simp
  then show "sr_waiting_task_ids (fold remove_waiting_task_id is r) = sr_waiting_task_ids r - set is"
    "sr_queue_results (fold remove_waiting_task_id is r) = filter (\<lambda>x. tr_id x \<notin> set is) (sr_queue_results r)"
    by blast+
qed

text \<open>The results among the outcomes, and outcomes that are final results or harmless timeouts.\<close>

definition got :: "('r task_result option \<times> bool) list \<Rightarrow> 'r task_result list" where
  "got evs = map (the \<circ> fst) (filter (\<lambda>e. fst e \<noteq> None) evs)"

lemma got_simps [simp]: "got [] = []" "got ((Some x, b) # evs) = x # got evs" "got ((None, b) # evs) = got evs"
  by (simp_all add: got_def)

declare wait_for_all_from.simps [simp del]

lemma wait_for_all_collects:
  assumes "\<And>x. x \<in> set (got evs) \<Longrightarrow> \<not> tr_is_error x \<and> tr_is_stop x \<and> tr_index x < length (br_results br) \<and>
      br_results br ! tr_index x = None \<and> (rr_states rd = [] \<or> tr_index x < length (rr_states rd))"
    and "\<And>e. e \<in> set evs \<Longrightarrow> fst e = None \<Longrightarrow> \<not> snd e"
    and "distinct (map tr_index (got evs))" "\<not> rr_cancelled rd"
    and "rr_received_count rd + length (got evs) = card (rr_id_tasks rd)"
  shows "\<exists>br' rd'. wait_for_all_from upd evs rd br = Inr (Some (br', rd')) \<and> \<not> has_next rd' \<and>
    br_is_terminated br' = br_is_terminated br \<and> br_error br' = br_error br \<and>
    length (br_results br') = length (br_results br) \<and>
    (\<forall>x \<in> set (got evs). br_results br' ! tr_index x = Some x) \<and>
    (\<forall>i < length (br_results br). i \<notin> tr_index ` set (got evs) \<longrightarrow> br_results br' ! i = br_results br ! i)"
  using assms
proof (induction evs arbitrary: rd br)
  case Nil
  then show ?case by (subst wait_for_all_from.simps) (simp add: has_next_def)
next
  case (Cons e evs)
  obtain y b where e: "e = (y, b)" by (cases e)
  show ?case
  proof (cases y)
    case None
    then have ih: "\<exists>br' rd'. wait_for_all_from upd evs rd br = Inr (Some (br', rd')) \<and> \<not> has_next rd' \<and>
      br_is_terminated br' = br_is_terminated br \<and> br_error br' = br_error br \<and>
      length (br_results br') = length (br_results br) \<and>
      (\<forall>x \<in> set (got evs). br_results br' ! tr_index x = Some x) \<and>
      (\<forall>i < length (br_results br). i \<notin> tr_index ` set (got evs) \<longrightarrow> br_results br' ! i = br_results br ! i)"
      using Cons.prems e by (intro Cons.IH) auto
    have "wait_for_all_from upd (e # evs) rd br = wait_for_all_from upd evs rd br"
    proof (cases "has_next rd")
      case True
      then show ?thesis using Cons.prems(2) [of e] None e by (subst wait_for_all_from.simps) simp
    next
      case False
      then show ?thesis by (subst (1 2) wait_for_all_from.simps) simp
    qed
    then show ?thesis using ih None e by simp
  next
    case (Some x)
    note x = Cons.prems(1) [of x, unfolded e Some, simplified]
    have nx: "has_next rd" using Cons.prems(4,5) e Some by (simp add: has_next_def)
    let ?rd = "let rd1 = (if rr_states rd \<noteq> [] then rd\<lparr>rr_states := (rr_states rd)[tr_index x := upd x (rr_states rd ! tr_index x)]\<rparr> else rd)
       in rd1\<lparr>rr_received_count := rr_received_count rd1 + 1\<rparr>"
    let ?br = "br\<lparr>br_results := (br_results br)[tr_index x := Some x]\<rparr>"
    have rd: "rr_cancelled ?rd = rr_cancelled rd" "rr_received_count ?rd = rr_received_count rd + 1"
      "rr_id_tasks ?rd = rr_id_tasks rd" "length (rr_states ?rd) = length (rr_states rd)"
      "rr_states ?rd = [] \<longleftrightarrow> rr_states rd = []" by (simp_all add: Let_def)
    have step: "wait_for_all_from upd (e # evs) rd br = wait_for_all_from upd evs ?rd ?br"
      using nx x e Some by (subst wait_for_all_from.simps) (auto simp: Let_def)
    have dist: "tr_index x \<notin> tr_index ` set (got evs)" "distinct (map tr_index (got evs))"
      using Cons.prems(3) e Some by auto
    have "\<exists>br' rd'. wait_for_all_from upd evs ?rd ?br = Inr (Some (br', rd')) \<and> \<not> has_next rd' \<and>
      br_is_terminated br' = br_is_terminated ?br \<and> br_error br' = br_error ?br \<and>
      length (br_results br') = length (br_results ?br) \<and>
      (\<forall>z \<in> set (got evs). br_results br' ! tr_index z = Some z) \<and>
      (\<forall>i < length (br_results ?br). i \<notin> tr_index ` set (got evs) \<longrightarrow> br_results br' ! i = br_results ?br ! i)"
    proof (rule Cons.IH)
      fix z assume z: "z \<in> set (got evs)"
      then have "tr_index x \<noteq> tr_index z" using dist by auto
      then show "\<not> tr_is_error z \<and> tr_is_stop z \<and> tr_index z < length (br_results ?br) \<and>
        br_results ?br ! tr_index z = None \<and> (rr_states ?rd = [] \<or> tr_index z < length (rr_states ?rd))"
        using Cons.prems(1) [of z] z e Some rd by auto
    qed (use Cons.prems e Some dist rd in auto)
    then show ?thesis using step e Some x dist by (auto simp: nth_list_update)
  qed
qed

section \<open>Properties\<close>

text \<open>A task for the evaluations: completion, no children.\<close>

definition demo_task :: "int \<Rightarrow> int \<Rightarrow> unit server_task" where
  "demo_task i sl = Server_task i 0 (-1) sl (-1) SERVER_TASK_TYPE_COMPLETION () []"

text \<open>
  C19. No task is lost and none is handled twice: after every run of the server loop from a new queue, whatever
  other threads do in between, the tasks in the queue and the deferred ones are the pending tasks of
  the ledger of the run's events, with the ids the queue has given out. The posted tasks are exactly those in
  the queue, those deferred, the one in the callback, those cancelled and those handled, with multiplicity,
  and a task is cancelled only when a cancel task with its id as the target was posted.
\<close>

theorem task_conservation:
  assumes "loop_trace idle (Not_started, server_queue_new) evs s"
  shows "mset (sq_tasks (snd s)) + mset (sq_tasks_deferred (snd s)) = ld_pending (ledger_of evs) \<and>
    sq_id (snd s) = ld_next (ledger_of evs) \<and>
    ld_posted (ledger_of evs) = mset (sq_tasks (snd s)) + mset (sq_tasks_deferred (snd s)) + in_hand s +
      ld_cancelled (ledger_of evs) + ld_handled (ledger_of evs) \<and>
    (\<forall>t. t \<in># ld_cancelled (ledger_of evs) \<longrightarrow>
       (\<exists>c. c \<in># ld_posted (ledger_of evs) \<and> st_type c = SERVER_TASK_TYPE_CANCEL \<and> st_id_target c = st_id t))"
proof -
  have b: "in_books s (ledger_of evs)" by (rule trace_books [OF assms refl])
  then have "\<forall>t. t \<in># ld_cancelled (ledger_of evs) \<longrightarrow>
      (\<exists>c. c \<in># ld_posted (ledger_of evs) \<and> st_type c = SERVER_TASK_TYPE_CANCEL \<and> st_id_target c = st_id t)"
    unfolding in_books_def justified_def is_target_def by metis
  then show ?thesis using b by (simp add: in_books_def agrees_def balanced_def sq_all_def)
qed

text \<open>The witness: two tasks are posted, the first is taken and put back, the second is taken and handled.\<close>

theorem task_conservation_witness:
  "\<exists>evs s. loop_trace (-1) (Not_started, server_queue_new) evs s \<and> sq_tasks_deferred (snd s) = [demo_task 5 0] \<and>
     ld_posted (ledger_of evs) = {#demo_task 5 0, demo_task 0 0#} \<and> ld_handled (ledger_of evs) = {#demo_task 0 0#} \<and>
     ld_posted (ledger_of evs) = mset (sq_tasks (snd s)) + mset (sq_tasks_deferred (snd s)) + in_hand s +
       ld_cancelled (ledger_of evs) + ld_handled (ledger_of evs)"
proof -
  let ?q0 = "server_queue_new\<lparr>sq_running := True, sq_time_last_task := 1\<rparr> :: unit server_queue"
  let ?q1 = "?q0\<lparr>sq_id := 1, sq_tasks := [demo_task 5 0, demo_task 0 0], sq_time_last_task := 2\<rparr>"
  let ?q2 = "?q1\<lparr>sq_tasks := [demo_task 0 0]\<rparr>"
  let ?q3 = "?q2\<lparr>sq_tasks_deferred := [demo_task 5 0], sq_time_last_task := 3\<rparr>"
  let ?q4 = "?q3\<lparr>sq_tasks := []\<rparr>"
  have s1: "event_step (-1) Ev_main (Not_started, server_queue_new) (Processing, ?q0)"
    using ev_main [OF main_step.start, of "-1" server_queue_new 1] by simp
  have s2: "event_step (-1) (Ev_op 2 (Op_post_all [demo_task 5 0, demo_task (-1) 0] False)) (Processing, ?q0) (Processing, ?q1)"
    by (rule ev_op) (simp add: post_all_def assign_id_def enqueue_def demo_task_def server_queue_new_def)
  have s3: "event_step (-1) (Ev_take (demo_task 5 0)) (Processing, ?q1) (In_callback (demo_task 5 0), ?q2)"
    using ev_main [OF take_task, of ?q1 "demo_task 5 0" "[demo_task 0 0]" "-1"] by simp
  have s4: "event_step (-1) (Ev_defer (demo_task 5 0)) (In_callback (demo_task 5 0), ?q2) (Processing, ?q3)"
    using ev_main [OF deferred, of "-1" "demo_task 5 0" ?q2 3] by (simp add: defer_task_def server_queue_new_def)
  have s5: "event_step (-1) (Ev_take (demo_task 0 0)) (Processing, ?q3) (In_callback (demo_task 0 0), ?q4)"
    using ev_main [OF take_task, of ?q3 "demo_task 0 0" "[]" "-1"] by simp
  have s6: "event_step (-1) (Ev_handled (demo_task 0 0)) (In_callback (demo_task 0 0), ?q4) (Processing, ?q4)"
    by (rule ev_handled)
  note t = trace_snoc [OF trace_snoc [OF trace_snoc [OF trace_snoc [OF trace_snoc [OF trace_snoc [OF trace_nil s1] s2] s3] s4] s5] s6]
  have "ld_posted (ledger_of evs) = {#demo_task 5 0, demo_task 0 0#} \<and> ld_handled (ledger_of evs) = {#demo_task 0 0#}"
    if "evs = [Ev_main, Ev_op 2 (Op_post_all [demo_task 5 0, demo_task (-1) 0] False), Ev_take (demo_task 5 0),
      Ev_defer (demo_task 5 0), Ev_take (demo_task 0 0), Ev_handled (demo_task 0 0)]" for evs
    unfolding that by (simp add: ledger_of_def ledger_new_def ledger_post_def is_target_def demo_task_def)
  moreover have "sq_tasks_deferred (snd (Processing, ?q4)) = [demo_task 5 0]" by simp
  ultimately show ?thesis using t task_conservation [OF t] by (intro exI conjI) (assumption | simp)+
qed

text \<open>
  While the loop runs, \<open>is_sleeping\<close> tells exactly whether the main thread waits in the sleeping
  state.
\<close>

lemma sleeping_flag:
  assumes "loop_run idle (Not_started, server_queue_new) s" and "sq_running (snd s)"
  shows "sq_sleeping (snd s) \<longleftrightarrow> fst s = Sleeping"
proof -
  have "sleep_inv s" by (rule sleep_inv_run [OF assms(1)]) (simp add: sleep_inv_def server_queue_new_def)
  then show ?thesis using assms(2) by (simp add: sleep_inv_def)
qed

text \<open>
  C37. A shutdown during sleep strands \<open>wait_until_no_sleep\<close>: the loop can end with \<open>sleeping\<close> still
  set, and from then on no step of any thread clears it, so a thread that waits for
  \<open>!sleeping\<close> waits forever.
\<close>

theorem shutdown_strands_waiter:
  "\<exists>s. loop_run 0 (Not_started, server_queue_new :: unit server_queue) s \<and> fst s = Stopped \<and>
     sq_sleeping (snd s) \<and> (\<nexists>s'. loop_run 0 s s' \<and> \<not> sq_sleeping (snd s'))"
proof -
  let ?q1 = "server_queue_new\<lparr>sq_running := True, sq_time_last_task := 0\<rparr> :: unit server_queue"
  let ?q2 = "?q1\<lparr>sq_sleeping := True, sq_req_stop_sleeping := False\<rparr>"
  let ?q3 = "sq_terminate ?q2"
  have r1: "loop_run 0 (Not_started, server_queue_new) (Processing, ?q1)" by (rule run_step [OF run_refl main [OF start]])
  have r2: "loop_run 0 (Not_started, server_queue_new) (Updating, ?q1)"
    by (rule run_step [OF r1 main [OF no_task]]) (simp_all add: server_queue_new_def)
  have "loop_step 0 (Updating, ?q1) (Waiting, ?q1\<lparr>sq_time_last_task := 0\<rparr>)" by (rule main [OF updated])
  then have r3: "loop_run 0 (Not_started, server_queue_new) (Waiting, ?q1)" using run_step [OF r2] by simp
  have r4: "loop_run 0 (Not_started, server_queue_new) (Sleeping, ?q2)"
    by (rule run_step [OF r3 main [OF fall_asleep [of _ _ 0]]]) (simp_all add: server_queue_new_def should_sleep_def)
  have r5: "loop_run 0 (Not_started, server_queue_new) (Sleeping, ?q3)"
    by (rule run_step [OF r4 other [of 0 Op_terminate]]) simp
  have r6: "loop_run 0 (Not_started, server_queue_new) (Processing, ?q3)"
    by (rule run_step [OF r5 main [OF stop_asleep]]) (simp add: sq_terminate_def)
  have r7: "loop_run 0 (Not_started, server_queue_new) (Stopped, ?q3)"
    by (rule run_step [OF r6 main [OF stop]]) (simp add: sq_terminate_def)
  have "sq_sleeping ?q3" by (simp add: sq_terminate_def)
  then show ?thesis using r7 stopped_asleep_run [of 0 "(Stopped, ?q3)"] by fastforce
qed

text \<open>
  Posting a cancel task removes every pending and deferred task with the target id and nothing
  else, and puts the cancel task at the chosen end of the queue.
\<close>

lemma post_cancel_clears:
  assumes "post now t front q = Inr (i, q')" and "st_type t = SERVER_TASK_TYPE_CANCEL"
  shows "i = st_id t \<and>
    sq_tasks q' = (if front then t # filter (\<lambda>u. st_id u \<noteq> st_id_target t) (sq_tasks q)
                   else filter (\<lambda>u. st_id u \<noteq> st_id_target t) (sq_tasks q) @ [t]) \<and>
    sq_tasks_deferred q' = filter (\<lambda>u. st_id u \<noteq> st_id_target t) (sq_tasks_deferred q)"
  using assms by (auto simp: post_def enqueue_def cleanup_pending_task_def Let_def split: if_splits)

text \<open>
  When a slot becomes free, the first deferred task for that slot moves to the front of the
  queue; without one, the first deferred task does. The order of the others does not change.
\<close>

lemma pop_deferred_prefers_slot:
  assumes "sq_tasks_deferred q \<noteq> []"
  shows "\<exists>ys t zs. sq_tasks_deferred q = ys @ t # zs \<and>
    sq_tasks (pop_deferred_task now id_slot q) = t # sq_tasks q \<and>
    sq_tasks_deferred (pop_deferred_task now id_slot q) = ys @ zs \<and>
    (if \<exists>u \<in> set (sq_tasks_deferred q). st_id_slot u = id_slot
     then st_id_slot t = id_slot \<and> (\<forall>y \<in> set ys. st_id_slot y \<noteq> id_slot) else ys = [])"
proof -
  obtain d ds where d: "sq_tasks_deferred q = d # ds" using assms by (cases "sq_tasks_deferred q") auto
  let ?P = "\<lambda>t. st_id_slot t = id_slot"
  show ?thesis
  proof (cases "find_split ?P (d # ds)")
    case None
    then have n: "\<not> (\<exists>u \<in> set (d # ds). ?P u)" using find_split_None [of ?P "d # ds"] by blast
    have "pop_deferred_task now id_slot q = q\<lparr>sq_tasks := d # sq_tasks q, sq_tasks_deferred := ds, sq_time_last_task := now\<rparr>"
      using d None by (simp add: pop_deferred_task_def del: find_split.simps)
    then show ?thesis using d n by (intro exI [of _ "[]"] exI [of _ d] exI [of _ ds]) simp
  next
    case (Some r)
    obtain ys t zs where r: "r = (ys, t, zs)" by (cases r)
    have f: "d # ds = ys @ t # zs" "?P t" "\<forall>y \<in> set ys. \<not> ?P y"
      using find_split_Some [of ?P "d # ds" ys t zs] Some r by blast+
    have "pop_deferred_task now id_slot q = q\<lparr>sq_tasks := t # sq_tasks q, sq_tasks_deferred := ys @ zs, sq_time_last_task := now\<rparr>"
      using d Some r by (simp add: pop_deferred_task_def del: find_split.simps)
    then show ?thesis using d f by (intro exI [of _ ys] exI [of _ t] exI [of _ zs]) auto
  qed
qed

text \<open>
  C31. Stopping a reader that still expects results leaves nothing of its tasks behind: no thread
  waits for them, no result of them is in the result queue, no task of them is in the task queue or
  deferred; what was added are cancel tasks for them. This holds for every order in which the set
  of ids is walked; the ids were issued by the queue.
\<close>

theorem reader_stop_clean:
  fixes d :: 'p and now :: int and r :: "'r server_response" and rd :: "'s reader"
  assumes "has_next rd" and "set order = rr_id_tasks rd" and "\<forall>i \<in> rr_id_tasks rd. i < sq_id q"
  defines "st \<equiv> reader_stop d order now (rd, q, r)"
  shows "rr_cancelled (fst st) \<and>
    sr_waiting_task_ids (snd (snd st)) = sr_waiting_task_ids r - rr_id_tasks rd \<and>
    sr_queue_results (snd (snd st)) = filter (\<lambda>x. tr_id x \<notin> rr_id_tasks rd) (sr_queue_results r) \<and>
    (\<forall>u \<in> set (sq_tasks (fst (snd st))) \<union> set (sq_tasks_deferred (fst (snd st))).
       st_id u \<notin> rr_id_tasks rd \<and> (u \<in> set (sq_tasks q) \<union> set (sq_tasks_deferred q) \<or>
         st_type u = SERVER_TASK_TYPE_CANCEL \<and> st_id_target u \<in> rr_id_tasks rd))"
proof -
  have e: "st = (rd\<lparr>rr_cancelled := True\<rparr>, (post_loop True (map (cancel_task d) order) q)\<lparr>sq_time_last_task := now\<rparr>,
      fold remove_waiting_task_id order (remove_waiting_task_ids (rr_id_tasks rd) r))"
    using assms(1) by (simp add: st_def reader_stop_def post_all_def Let_def has_next_def)
  have "\<forall>i \<in> set order. i < sq_id q" using assms(2,3) by simp
  note c = cancel_loop [OF this, of d]
  show ?thesis
    using c assms(2) by (auto simp: e fold_remove_waiting remove_waiting_task_ids_def)
qed

theorem reader_stop_clean_witness:
  "let st = reader_stop () [1] 0
      (\<lparr>rr_id_tasks = {1}, rr_received_count = 0, rr_cancelled = False, rr_states = [] :: unit list\<rparr>,
       server_queue_new\<lparr>sq_id := 2, sq_tasks := [demo_task 1 0]\<rparr>,
       \<lparr>sr_running = True, sr_waiting_task_ids = {1}, sr_queue_results = [] :: unit task_result list\<rparr>)
   in sr_waiting_task_ids (snd (snd st)) = {} \<and> (\<forall>u \<in> set (sq_tasks (fst (snd st))). st_id u \<noteq> 1)"
proof -
  let ?rd = "\<lparr>rr_id_tasks = {1}, rr_received_count = 0, rr_cancelled = False, rr_states = [] :: unit list\<rparr>"
  have "has_next ?rd" by (simp add: has_next_def)
  from reader_stop_clean [OF this, of "[1]" "server_queue_new\<lparr>sq_id := 2, sq_tasks := [demo_task 1 0]\<rparr>" "()" 0
      "\<lparr>sr_running = True, sr_waiting_task_ids = {1}, sr_queue_results = [] :: unit task_result list\<rparr>"]
  show ?thesis by (simp add: Let_def)
qed

text \<open>
  \<open>wait_for_all\<close> collects one final result per task, in whatever order they arrive and with
  timeouts in between: it returns, not terminated and without an error, and the entry of every
  index is the result that carried it.
\<close>

lemma wait_for_all_complete:
  fixes evs :: "('a task_result option \<times> bool) list"
  assumes "\<And>x. x \<in> set (got evs) \<Longrightarrow> \<not> tr_is_error x \<and> tr_is_stop x"
    and "\<And>e. e \<in> set evs \<Longrightarrow> fst e = None \<Longrightarrow> \<not> snd e"
    and "mset (map tr_index (got evs)) = mset [0..<card (rr_id_tasks rd)]"
    and "\<not> rr_cancelled rd" "rr_received_count rd = 0"
    and "rr_states rd = [] \<or> length (rr_states rd) = card (rr_id_tasks rd)"
  shows "\<exists>br rd'. wait_for_all upd evs rd = Inr (Some (br, rd')) \<and> \<not> br_is_terminated br \<and> br_error br = None \<and>
    length (br_results br) = card (rr_id_tasks rd) \<and> (\<forall>x \<in> set (got evs). br_results br ! tr_index x = Some x)"
proof -
  let ?n = "card (rr_id_tasks rd)"
  have idx: "tr_index x < ?n" if "x \<in> set (got evs)" for x
    using that mset_eq_setD [OF assms(3)] by (auto simp: image_iff set_eq_iff)
  have d: "distinct (map tr_index (got evs))" using assms(3) by (metis distinct_upt mset_eq_imp_distinct_iff)
  have len: "length (got evs) = ?n" using mset_eq_length [OF assms(3)] by simp
  define br :: "'a batch_response" where "br = \<lparr>br_is_terminated = False, br_results = replicate ?n None, br_error = None\<rparr>"
  have "br_results br = replicate ?n None" "\<not> br_is_terminated br" "br_error br = None" by (simp_all add: br_def)
  then have "\<exists>br' rd'. wait_for_all_from upd evs rd br = Inr (Some (br', rd')) \<and> \<not> br_is_terminated br' \<and>
    br_error br' = None \<and> length (br_results br') = ?n \<and> (\<forall>x \<in> set (got evs). br_results br' ! tr_index x = Some x)"
    using wait_for_all_collects [of evs br rd upd] assms idx d len by auto
  then show ?thesis unfolding wait_for_all_def br_def by auto
qed

definition demo_result :: "nat \<Rightarrow> unit task_result" where
  "demo_result i = \<lparr>tr_id = int i, tr_index = i, tr_is_error = False, tr_is_stop = True, tr_body = ()\<rparr>"

end
