(* ===== verification/ServerSlot.thy ===== *)
theory ServerSlot
  imports Memory ServerTokens ServerQueue
begin

text \<open>
  A slot of the server (\<open>tools/server/server-context.cpp\<close>, struct \<open>server_slot\<close> and the loop
  \<open>update_slots\<close>): the context shift, the start of a prompt with the reuse of the cached tokens, the
  filling of the batch, the acceptance of drafted tokens and the copy of a slot. The memory is used
  through the operations of \<open>llama_memory_i\<close>, a record of functions; what a slot relies on is that
  the memory holds exactly the positions of its prompt.
\<close>

section \<open>The memory of a context\<close>

text \<open>The virtual functions a slot calls. A context may have no memory.\<close>

record 'm memory_ops =
  mo_can_shift :: "'m \<Rightarrow> bool"
  mo_seq_rm :: "llama_seq_id \<Rightarrow> llama_pos \<Rightarrow> llama_pos \<Rightarrow> 'm \<Rightarrow> (bool \<times> 'm) res"
  mo_seq_cp :: "llama_seq_id \<Rightarrow> llama_seq_id \<Rightarrow> llama_pos \<Rightarrow> llama_pos \<Rightarrow> 'm \<Rightarrow> 'm res"
  mo_seq_add :: "llama_seq_id \<Rightarrow> llama_pos \<Rightarrow> llama_pos \<Rightarrow> llama_pos \<Rightarrow> 'm \<Rightarrow> 'm res"
  mo_seq_pos_min :: "llama_seq_id \<Rightarrow> 'm \<Rightarrow> llama_pos res"
  mo_seq_pos_max :: "llama_seq_id \<Rightarrow> 'm \<Rightarrow> llama_pos res"

fun llama_memory_seq_rm :: "'m memory_ops \<Rightarrow> llama_seq_id \<Rightarrow> llama_pos \<Rightarrow> llama_pos \<Rightarrow> 'm option \<Rightarrow> (bool \<times> 'm option) res" where
  "llama_memory_seq_rm ops s p0 p1 None = Inr (True, None)"
| "llama_memory_seq_rm ops s p0 p1 (Some m) = bind_res (mo_seq_rm ops s p0 p1 m) (\<lambda>(b, m'). Inr (b, Some m'))"

fun llama_memory_seq_cp ::
    "'m memory_ops \<Rightarrow> llama_seq_id \<Rightarrow> llama_seq_id \<Rightarrow> llama_pos \<Rightarrow> llama_pos \<Rightarrow> 'm option \<Rightarrow> 'm option res" where
  "llama_memory_seq_cp ops s d p0 p1 None = Inr None"
| "llama_memory_seq_cp ops s d p0 p1 (Some m) = bind_res (mo_seq_cp ops s d p0 p1 m) (\<lambda>m'. Inr (Some m'))"

fun llama_memory_seq_add ::
    "'m memory_ops \<Rightarrow> llama_seq_id \<Rightarrow> llama_pos \<Rightarrow> llama_pos \<Rightarrow> llama_pos \<Rightarrow> 'm option \<Rightarrow> 'm option res" where
  "llama_memory_seq_add ops s p0 p1 d None = Inr None"
| "llama_memory_seq_add ops s p0 p1 d (Some m) = bind_res (mo_seq_add ops s p0 p1 d m) (\<lambda>m'. Inr (Some m'))"

fun llama_memory_seq_pos_min :: "'m memory_ops \<Rightarrow> llama_seq_id \<Rightarrow> 'm option \<Rightarrow> llama_pos res" where
  "llama_memory_seq_pos_min ops s None = Inr (-1)"
| "llama_memory_seq_pos_min ops s (Some m) = mo_seq_pos_min ops s m"

fun llama_memory_seq_pos_max :: "'m memory_ops \<Rightarrow> llama_seq_id \<Rightarrow> 'm option \<Rightarrow> llama_pos res" where
  "llama_memory_seq_pos_max ops s None = Inr (-1)"
| "llama_memory_seq_pos_max ops s (Some m) = mo_seq_pos_max ops s m"

fun llama_memory_can_shift :: "'m memory_ops \<Rightarrow> 'm option \<Rightarrow> bool" where
  "llama_memory_can_shift ops None \<longleftrightarrow> False"
| "llama_memory_can_shift ops (Some m) \<longleftrightarrow> mo_can_shift ops m"

section \<open>The state of a slot\<close>

datatype slot_state =
    SLOT_STATE_IDLE
  | SLOT_STATE_WAIT_OTHER
  | SLOT_STATE_STARTED
  | SLOT_STATE_PROCESSING_PROMPT
  | SLOT_STATE_DONE_PROMPT
  | SLOT_STATE_GENERATING

datatype stop_type = STOP_TYPE_NONE | STOP_TYPE_EOS | STOP_TYPE_WORD | STOP_TYPE_LIMIT

text \<open>What of a task's parameters and input the slot reads.\<close>

record 'f task_data =
  td_tokens :: "'f server_tokens"
  td_n_keep :: int
  td_n_discard :: int
  td_n_predict :: int
  td_n_cache_reuse :: int
  td_cache_prompt :: bool
  td_n_indent :: int
  td_return_tokens :: bool
  td_t_max_predict_ms :: int
  td_antiprompt :: "string list"
  td_spec_n_min :: int
  td_spec_n_max :: int

record server_prompt_checkpoint =
  cp_pos_min :: llama_pos
  cp_pos_max :: llama_pos
  cp_n_tokens :: int
  cp_data :: "nat list"

record 'f server_prompt =
  pr_tokens :: "'f server_tokens"
  pr_data :: "nat list"
  pr_checkpoints :: "server_prompt_checkpoint list"

definition prompt_n_tokens :: "'f server_prompt \<Rightarrow> int" where
  "prompt_n_tokens p = int (length (tk_tokens (pr_tokens p)))"

definition prompt_size :: "'f server_prompt \<Rightarrow> nat" where
  "prompt_size p = fold (\<lambda>c res. res + length (cp_data c)) (pr_checkpoints p) (length (pr_data p))"

definition prompt_clone :: "'f server_prompt \<Rightarrow> 'f server_prompt" where
  "prompt_clone p = \<lparr>pr_tokens = tokens_clone (pr_tokens p), pr_data = pr_data p, pr_checkpoints = pr_checkpoints p\<rparr>"

record 'f server_slot =
  sl_id :: int
  sl_task :: "'f task_data server_task option"
  sl_t_last_used :: int
  sl_n_ctx :: int
  sl_n_decoded :: int
  sl_n_remaining :: int
  sl_i_batch :: int
  sl_n_prompt_tokens_cache :: int
  sl_n_prompt_tokens_processed :: int
  sl_last_nl_pos :: nat
  sl_generated_text :: string
  sl_generated_tokens :: "llama_token list"
  sl_i_batch_dft :: "int list"
  sl_has_next_token :: bool
  sl_has_new_line :: bool
  sl_truncated :: bool
  sl_stop :: stop_type
  sl_stopping_word :: string
  sl_state :: slot_state
  sl_prompt :: "'f server_prompt"
  sl_alora_invocation_start :: int
  sl_sampled :: llama_token
  sl_drafted :: "llama_token list"
  sl_n_sent_text :: nat
  sl_can_speculate :: bool
  sl_n_draft_total :: int
  sl_n_draft_accepted :: int

definition is_processing :: "'f server_slot \<Rightarrow> bool" where
  "is_processing s \<longleftrightarrow> sl_state s \<noteq> SLOT_STATE_IDLE"

definition set_tokens :: "'f server_tokens \<Rightarrow> 'f server_slot \<Rightarrow> 'f server_slot" where
  "set_tokens ts s = s\<lparr>sl_prompt := (sl_prompt s)\<lparr>pr_tokens := ts\<rparr>\<rparr>"

abbreviation slot_tokens :: "'f server_slot \<Rightarrow> 'f server_tokens" where
  "slot_tokens s \<equiv> pr_tokens (sl_prompt s)"

definition prompt_clear ::
    "'m memory_ops \<Rightarrow> bool \<Rightarrow> 'f server_slot \<Rightarrow> 'm option \<Rightarrow> ('f server_slot \<times> 'm option) res" where
  "prompt_clear ops allow_processing s mem =
    (if \<not> allow_processing \<and> is_processing s then Inl (Ggml_assert ''!is_processing()'')
     else bind_res (llama_memory_seq_rm ops (sl_id s) (-1) (-1) mem) (\<lambda>(_, mem').
            Inr (set_tokens (tokens_clear (slot_tokens s)) s, mem')))"

definition slot_reset :: "'f server_slot \<Rightarrow> 'f server_slot" where
  "slot_reset s = s\<lparr>sl_n_prompt_tokens_cache := 0, sl_last_nl_pos := 0, sl_generated_text := '''',
     sl_has_new_line := False, sl_truncated := False, sl_stop := STOP_TYPE_NONE, sl_stopping_word := '''',
     sl_n_sent_text := 0, sl_drafted := [], sl_i_batch_dft := [], sl_generated_tokens := [],
     sl_n_draft_total := 0, sl_n_draft_accepted := 0, sl_task := None, sl_alora_invocation_start := -1\<rparr>"

text \<open>
  Releasing a slot: the flag says that \<open>callback_on_release\<close> is called, which hands the slot to
  \<open>pop_deferred_task\<close> of the queue.
\<close>

definition release ::
    "'m memory_ops \<Rightarrow> int \<Rightarrow> 'f server_slot \<Rightarrow> 'm option \<Rightarrow> (bool \<times> 'f server_slot \<times> 'm option) res" where
  "release ops now s mem =
    (if is_processing s then
       (case sl_task s of
          None \<Rightarrow> Inl (Ggml_assert ''task'')
        | Some t \<Rightarrow>
            let s1 = s\<lparr>sl_t_last_used := now, sl_state := SLOT_STATE_IDLE\<rparr>
            in bind_res (if is_child t then prompt_clear ops False s1 mem else Inr (s1, mem))
                 (\<lambda>(s2, mem'). Inr (True, slot_reset s2, mem')))
     else Inr (False, s, mem))"

definition has_budget :: "int \<Rightarrow> 'f task_data server_task \<Rightarrow> 'f server_slot \<Rightarrow> bool \<times> 'f server_slot" where
  "has_budget global_n_predict t s =
    (if td_n_predict (st_data t) = -1 \<and> global_n_predict = -1 then (True, s)
     else let r = (if td_n_predict (st_data t) \<noteq> -1 then td_n_predict (st_data t) - sl_n_decoded s
                   else if global_n_predict \<noteq> -1 then global_n_predict - sl_n_decoded s else -1)
          in (r > 0, s\<lparr>sl_n_remaining := r\<rparr>))"

definition get_n_draft_max :: "'f task_data server_task \<Rightarrow> 'f server_slot \<Rightarrow> int" where
  "get_n_draft_max t s =
    (if \<not> sl_can_speculate s then 0
     else let n1 = min (td_spec_n_max (st_data t)) (sl_n_ctx s - prompt_n_tokens (sl_prompt s) - 2);
              n2 = (if sl_n_remaining s > 0 then min n1 (sl_n_remaining s - 1) else n1)
          in if n2 < td_spec_n_min (st_data t) then 0 else n2)"

definition copy_state_to ::
    "'m memory_ops \<Rightarrow> 'f server_slot \<Rightarrow> 'f server_slot \<Rightarrow> 'm option \<Rightarrow> ('f server_slot \<times> 'm option) res" where
  "copy_state_to ops s oth mem =
    (if sl_state s \<noteq> SLOT_STATE_DONE_PROMPT then Inl (Ggml_assert ''state == SLOT_STATE_DONE_PROMPT'')
     else bind_res (llama_memory_seq_rm ops (sl_id oth) (-1) (-1) mem) (\<lambda>(_, mem1).
          bind_res (llama_memory_seq_cp ops (sl_id s) (sl_id oth) (-1) (-1) mem1) (\<lambda>mem2.
            Inr (oth\<lparr>sl_n_decoded := sl_n_decoded s, sl_n_remaining := sl_n_remaining s, sl_i_batch := sl_i_batch s,
                     sl_n_prompt_tokens_cache := sl_n_prompt_tokens_cache s,
                     sl_n_prompt_tokens_processed := sl_n_prompt_tokens_processed s,
                     sl_prompt := prompt_clone (sl_prompt s)\<rparr>, mem2))))"

section \<open>The context shift\<close>

text \<open>What the server is configured with and what it reads from the model.\<close>

record server_config =
  sc_ctx_shift :: bool
  sc_has_mctx :: bool
  sc_add_bos_token :: bool
  sc_n_swa :: int
  sc_pooling_last :: bool
  sc_n_ubatch :: int
  sc_n_batch :: int
  sc_n_ctx_checkpoints :: nat
  sc_recurrent_or_hybrid :: bool
  sc_swa_full :: bool

text \<open>
  \<open>for (size_t i = n_keep + n_discard; i < n; i++) tokens[i - n_discard] = tokens[i]\<close>: a negative
  start is a huge \<open>size_t\<close> and the loop does nothing; a target outside of the vector is undefined.
\<close>

fun move_loop :: "int \<Rightarrow> nat list \<Rightarrow> llama_token list \<Rightarrow> llama_token list res" where
  "move_loop d [] ts = Inr ts"
| "move_loop d (i # is) ts =
    (if 0 \<le> int i - d \<and> int i - d < int (length ts) then move_loop d is (ts[nat (int i - d) := ts ! i])
     else Inl (Out_of_bounds ''new_tokens[i - n_discard]''))"

definition resize_tokens :: "int \<Rightarrow> llama_token list \<Rightarrow> llama_token list res" where
  "resize_tokens n ts =
    (if n < 0 then Inl (Length_error ''vector::resize'')
     else Inr (take (nat n) ts @ replicate (nat n - length ts) 0))"

definition shift_tokens :: "int \<Rightarrow> int \<Rightarrow> llama_token list \<Rightarrow> llama_token list res" where
  "shift_tokens n_keep n_discard ts =
    bind_res (move_loop n_discard (if n_keep + n_discard < 0 then [] else [nat (n_keep + n_discard)..<length ts]) ts)
      (resize_tokens (int (length ts) - n_discard))"

definition shift_n_keep :: "server_config \<Rightarrow> 'f task_data server_task \<Rightarrow> 'f server_slot \<Rightarrow> int" where
  "shift_n_keep cfg t s =
    (let k = (if td_n_keep (st_data t) < 0 then int (length (tk_tokens (td_tokens (st_data t)))) else td_n_keep (st_data t))
     in min (sl_n_ctx s - 4) (if sc_add_bos_token cfg then k + 1 else k))"

text \<open>The default is half of the rest, which is positive when a shift is due.\<close>

definition shift_n_discard :: "server_config \<Rightarrow> 'f task_data server_task \<Rightarrow> 'f server_slot \<Rightarrow> int" where
  "shift_n_discard cfg t s =
    (if td_n_discard (st_data t) \<noteq> 0 then td_n_discard (st_data t)
     else (prompt_n_tokens (sl_prompt s) - shift_n_keep cfg t s) div 2)"

definition context_shift ::
    "'m memory_ops \<Rightarrow> server_config \<Rightarrow> 'f task_data server_task \<Rightarrow> 'f server_slot \<Rightarrow> 'm option \<Rightarrow>
     ('f server_slot \<times> 'm option) res" where
  "context_shift ops cfg t s mem =
    (let n_keep = shift_n_keep cfg t s;
         n_discard = shift_n_discard cfg t s
     in bind_res (llama_memory_seq_rm ops (sl_id s) n_keep (n_keep + n_discard) mem) (\<lambda>(_, mem1).
        bind_res (llama_memory_seq_add ops (sl_id s) (n_keep + n_discard) (prompt_n_tokens (sl_prompt s)) (- n_discard) mem1) (\<lambda>mem2.
        bind_res (get_text_tokens (slot_tokens s)) (\<lambda>ts.
        bind_res (shift_tokens n_keep n_discard ts) (\<lambda>new_tokens.
        bind_res (insert_tokens new_tokens (tokens_clear (slot_tokens s))) (\<lambda>tk.
          Inr ((set_tokens tk s)\<lparr>sl_truncated := True\<rparr>, mem2)))))))"

text \<open>
  The step of \<open>update_slots\<close> for one slot: the error message for the client, if one is sent, the
  call of the release callback, the slot and the memory.
\<close>

definition shift_slot ::
    "'m memory_ops \<Rightarrow> server_config \<Rightarrow> int \<Rightarrow> 'f server_slot \<Rightarrow> 'm option \<Rightarrow>
     (string option \<times> bool \<times> 'f server_slot \<times> 'm option) res" where
  "shift_slot ops cfg now s mem =
    (if sl_state s = SLOT_STATE_GENERATING \<and> prompt_n_tokens (sl_prompt s) + 1 \<ge> sl_n_ctx s then
       if \<not> sc_ctx_shift cfg
       then bind_res (release ops now s mem) (\<lambda>r. Inr (Some ''context shift is disabled'', r))
       else if sc_has_mctx cfg then Inl (Ggml_abort ''not supported by multimodal'')
       else case sl_task s of
          None \<Rightarrow> Inl (Out_of_bounds ''slot.task'')
        | Some t \<Rightarrow>
            if is_parent t \<or> is_child t
            then bind_res (release ops now s mem) (\<lambda>r. Inr (Some ''context shift cannot be used for shared prompt'', r))
            else bind_res (context_shift ops cfg t s mem) (\<lambda>r. Inr (None, False, r))
     else Inr (None, False, s, mem))"

section \<open>Starting a prompt\<close>

text \<open>How many tokens of the cached prompt from \<open>head_c\<close> on equal the input from \<open>head_p\<close> on.\<close>

function n_match_loop :: "llama_token list \<Rightarrow> llama_token list \<Rightarrow> nat \<Rightarrow> nat \<Rightarrow> nat \<Rightarrow> nat" where
  "n_match_loop cached input head_c head_p n =
    (if head_c + n < length cached \<and> head_p + n < length input \<and> cached ! (head_c + n) = input ! (head_p + n)
     then n_match_loop cached input head_c head_p (n + 1) else n)"
  by pat_completeness auto
termination by (relation "measure (\<lambda>(cached, input, c, p, n). length cached - (c + n))") auto

declare n_match_loop.simps [simp del]

fun set_token_loop :: "nat \<Rightarrow> nat \<Rightarrow> nat list \<Rightarrow> 'f server_tokens \<Rightarrow> 'f server_tokens res" where
  "set_token_loop head_c head_p [] st = Inr st"
| "set_token_loop head_c head_p (i # is) st =
    bind_res (set_token (head_p + i) (tk_tokens st ! (head_c + i)) st) (set_token_loop head_c head_p is)"

text \<open>
  The reuse of chunks behind the common prefix. \<^const>\<open>None\<close> is a loop that does not end, which a
  minimal chunk size of 0 would cause; the result is the prompt, the memory and \<open>n_past\<close>.
\<close>

partial_function (option) reuse_loop ::
    "'m memory_ops \<Rightarrow> llama_seq_id \<Rightarrow> nat \<Rightarrow> llama_token list \<Rightarrow> nat \<Rightarrow> nat \<Rightarrow> nat \<Rightarrow>
     'f server_tokens \<Rightarrow> 'm option \<Rightarrow> ('f server_tokens \<times> 'm option \<times> nat) res option" where
  [code]: "reuse_loop ops seq n_cache_reuse input head_c head_p n_past st mem =
    (if head_c < length (tk_tokens st) \<and> head_p < length input then
       (let n_match = n_match_loop (tk_tokens st) input head_c head_p 0
        in if n_match \<ge> n_cache_reuse then
             (case llama_memory_seq_rm ops seq (int head_p) (int head_c) mem of
                Inl e \<Rightarrow> Some (Inl e)
              | Inr r1 \<Rightarrow>
             (case llama_memory_seq_add ops seq (int head_c) (int (head_c + n_match)) (int head_p - int head_c) (snd r1) of
                Inl e \<Rightarrow> Some (Inl e)
              | Inr mem2 \<Rightarrow>
             (case set_token_loop head_c head_p [0..<n_match] st of
                Inl e \<Rightarrow> Some (Inl e)
              | Inr st' \<Rightarrow>
                  reuse_loop ops seq n_cache_reuse input (head_c + n_match) (head_p + n_match) (n_past + n_match) st' mem2)))
           else reuse_loop ops seq n_cache_reuse input (head_c + 1) head_p n_past st mem)
     else Some (Inr (st, mem, n_past)))"

text \<open>The tokens that can be reused: the common prefix, and chunks behind it if the task asks for it.\<close>

definition reuse_cached ::
    "'m memory_ops \<Rightarrow> server_config \<Rightarrow> 'f task_data server_task \<Rightarrow> 'f server_slot \<Rightarrow> 'm option \<Rightarrow>
     ('f server_tokens \<times> 'm option \<times> nat) res option" where
  "reuse_cached ops cfg t s mem =
    (if \<not> td_cache_prompt (st_data t) then Some (Inr (slot_tokens s, mem, 0))
     else case get_common_prefix (slot_tokens s) (td_tokens (st_data t)) of
       Inl e \<Rightarrow> Some (Inl e)
     | Inr lcp \<Rightarrow>
         let n_past = (if sl_alora_invocation_start s > 0 then nat (min (int lcp) (sl_alora_invocation_start s - 1)) else lcp);
             can_cache_reuse = (llama_memory_can_shift ops mem \<and> \<not> tk_has_mtmd (slot_tokens s))
         in if can_cache_reuse \<and> td_n_cache_reuse (st_data t) > 0 then
              if sc_has_mctx cfg then Some (Inl (Ggml_abort ''not supported by multimodal''))
              else reuse_loop ops (sl_id s) (nat (td_n_cache_reuse (st_data t))) (tk_tokens (td_tokens (st_data t)))
                     n_past n_past n_past (slot_tokens s) mem
            else Some (Inr (slot_tokens s, mem, n_past)))"

text \<open>
  Restoring a checkpoint when the memory has forgotten positions that the next token needs.
  \<open>set_data\<close> is \<open>llama_state_seq_set_data_ext\<close>: the number of bytes read and the new memory. The
  result is \<open>n_past\<close>; a checkpoint whose data are not fully read forces a full evaluation.
\<close>

definition restore_checkpoint ::
    "(nat list \<Rightarrow> llama_seq_id \<Rightarrow> 'm option \<Rightarrow> nat \<times> 'm option) \<Rightarrow> llama_seq_id \<Rightarrow> llama_pos \<Rightarrow> llama_pos \<Rightarrow>
     'f server_prompt \<Rightarrow> 'm option \<Rightarrow> (nat \<times> 'm option) option" where
  "restore_checkpoint set_data seq pn pos_min_thold p mem =
    (case find (\<lambda>c. cp_pos_min c < pos_min_thold) (rev (pr_checkpoints p)) of
       None \<Rightarrow> Some (0, mem)
     | Some c \<Rightarrow>
         (case set_data (cp_data c) seq mem of (n, mem') \<Rightarrow>
            if n \<noteq> length (cp_data c) then Some (0, mem')
            else map_option (\<lambda>k. (k, mem'))
                   (size_up_to_pos (min pn (max (cp_pos_min c + 1) (cp_pos_max c))) (pr_tokens p))))"

text \<open>The choice of \<open>n_past\<close> for a prompt that may be split: reuse, checkpoints, and the erased checkpoints.\<close>

definition choose_n_past ::
    "'m memory_ops \<Rightarrow> (nat list \<Rightarrow> llama_seq_id \<Rightarrow> 'm option \<Rightarrow> nat \<times> 'm option) \<Rightarrow> server_config \<Rightarrow>
     'f task_data server_task \<Rightarrow> 'f server_slot \<Rightarrow> 'm option \<Rightarrow> (nat \<times> 'f server_slot \<times> 'm option) res option" where
  "choose_n_past ops set_data cfg t s mem =
    (case reuse_cached ops cfg t s mem of
       None \<Rightarrow> None
     | Some (Inl e) \<Rightarrow> Some (Inl e)
     | Some (Inr (tk, mem1, n_past)) \<Rightarrow>
    (case pos_next (int n_past) tk of
       None \<Rightarrow> None
     | Some (Inl e) \<Rightarrow> Some (Inl e)
     | Some (Inr pn) \<Rightarrow>
         let s1 = set_tokens tk s;
             pos_min_thold = max 0 (pn - max 1 (sc_n_swa cfg));
             erase = (\<lambda>s. s\<lparr>sl_prompt := (sl_prompt s)\<lparr>pr_checkpoints :=
                              filter (\<lambda>c. \<not> cp_pos_min c > pos_min_thold) (pr_checkpoints (sl_prompt s))\<rparr>\<rparr>)
         in if 0 < n_past \<and> int n_past < prompt_n_tokens (sl_prompt s1) then
              (case llama_memory_seq_pos_min ops (sl_id s) mem1 of
                 Inl e \<Rightarrow> Some (Inl e)
               | Inr pos_min \<Rightarrow>
                   if pos_min = -1 then Some (Inl (Ggml_abort ''pos_min == -1, but n_past > 0''))
                   else if pos_min > pos_min_thold then
                     map_option (\<lambda>(k, mem2). Inr (k, erase s1, mem2))
                       (restore_checkpoint set_data (sl_id s) pn pos_min_thold (sl_prompt s1) mem1)
                   else Some (Inr (n_past, erase s1, mem1)))
            else Some (Inr (n_past, erase s1, mem1))))"

text \<open>How the start of a prompt ends for the client: it runs, or the slot is released.\<close>

datatype start_outcome = Start_running | Start_empty | Start_error string

text \<open>
  The block for \<open>SLOT_STATE_STARTED\<close>. \<open>can_split\<close> allows to spread the prompt over batches. At least
  one token is left to evaluate.
\<close>

definition can_split :: "server_config \<Rightarrow> 'f task_data server_task \<Rightarrow> 'm option \<Rightarrow> bool" where
  "can_split cfg t mem \<longleftrightarrow> \<not> need_embd t \<or> (mem \<noteq> None \<and> sc_pooling_last cfg)"

definition leave_slot ::
    "'m memory_ops \<Rightarrow> int \<Rightarrow> start_outcome \<Rightarrow> 'f server_slot \<Rightarrow> 'm option \<Rightarrow>
     (start_outcome \<times> 'f server_slot \<times> 'm option) res option" where
  "leave_slot ops now r s mem = Some (bind_res (release ops now s mem) (\<lambda>(_, s', mem'). Inr (r, s', mem')))"

definition start_prompt ::
    "'m memory_ops \<Rightarrow> (nat list \<Rightarrow> llama_seq_id \<Rightarrow> 'm option \<Rightarrow> nat \<times> 'm option) \<Rightarrow> server_config \<Rightarrow> int \<Rightarrow>
     'f task_data server_task \<Rightarrow> 'f server_slot \<Rightarrow> 'm option \<Rightarrow>
     (start_outcome \<times> 'f server_slot \<times> 'm option) res option" where
  "start_prompt ops set_data cfg now t s mem =
    (let s0 = s\<lparr>sl_state := SLOT_STATE_PROCESSING_PROMPT\<rparr>;
         n = int (length (tk_tokens (td_tokens (st_data t))))
     in if n = 0 then leave_slot ops now Start_empty s0 mem
        else if need_logits t \<and> mem = None
        then leave_slot ops now (Start_error ''the current context does not logits computation. skipping'') s0 mem
        else if \<not> can_split cfg t mem \<and> n > sc_n_ubatch cfg
        then leave_slot ops now (Start_error ''input is too large to process. increase the physical batch size'') s0 mem
        else if \<not> can_split cfg t mem \<and> n > sl_n_ctx s
        then leave_slot ops now (Start_error ''input is larger than the max context size. skipping'') s0 mem
        else if can_split cfg t mem \<and> n \<ge> sl_n_ctx s
        then leave_slot ops now (Start_error ''request exceeds the available context size, try increasing it'') s0 mem
        else case (if can_split cfg t mem then choose_n_past ops set_data cfg t s0 mem else Some (Inr (0, s0, mem))) of
          None \<Rightarrow> None
        | Some (Inl e) \<Rightarrow> Some (Inl e)
        | Some (Inr (n_past, s1, mem1)) \<Rightarrow>
            let n_past' = (if int n_past = n \<and> n_past > 0 then n_past - 1 else n_past);
                s2 = s1\<lparr>sl_n_prompt_tokens_cache := int n_past', sl_n_prompt_tokens_processed := 0\<rparr>
            in Some (bind_res (keep_first n_past' (slot_tokens s2)) (\<lambda>tk. Inr (Start_running, set_tokens tk s2, mem1))))"

text \<open>Removing what the memory holds behind the kept tokens.\<close>

definition truncate_memory ::
    "'m memory_ops \<Rightarrow> 'f server_slot \<Rightarrow> 'm option \<Rightarrow> ('f server_slot \<times> 'm option) res option" where
  "truncate_memory ops s mem =
    (case pos_next (-1) (slot_tokens s) of
       None \<Rightarrow> None
     | Some (Inl e) \<Rightarrow> Some (Inl e)
     | Some (Inr p0) \<Rightarrow>
         Some (bind_res (llama_memory_seq_rm ops (sl_id s) p0 (-1) mem) (\<lambda>(ok, mem').
           if ok then Inr (s, mem')
           else bind_res (prompt_clear ops True s mem') (\<lambda>(s', mem''). Inr (s'\<lparr>sl_n_prompt_tokens_cache := 0\<rparr>, mem'')))))"

text \<open>
  A media chunk at the next place of the input is evaluated before the text behind it and becomes
  part of the prompt; \<^const>\<open>Some\<close> of a message means that it failed and the slot is released.
\<close>

definition process_image ::
    "('f mtmd_input_chunk \<Rightarrow> llama_pos \<Rightarrow> llama_seq_id \<Rightarrow> 'm option \<Rightarrow> int \<times> 'm option) \<Rightarrow> 'm memory_ops \<Rightarrow> int \<Rightarrow>
     'f task_data server_task \<Rightarrow> 'f server_slot \<Rightarrow> 'm option \<Rightarrow> (string option \<times> 'f server_slot \<times> 'm option) res option" where
  "process_image eval_chunk ops now t s mem =
    (let input = td_tokens (st_data t);
         n = length (tk_tokens (slot_tokens s))
     in if n < length (tk_tokens input) \<and> tk_tokens input ! n = LLAMA_TOKEN_NULL then
          (case pos_next (-1) (slot_tokens s) of
             None \<Rightarrow> None
           | Some (Inl e) \<Rightarrow> Some (Inl e)
           | Some (Inr pos) \<Rightarrow>
               Some (bind_res (process_chunk eval_chunk n pos (sl_id s) input mem) (\<lambda>(result, n_tokens_out, mem').
                 if result \<noteq> 0
                 then bind_res (release ops now s mem') (\<lambda>(_, s', mem''). Inr (Some ''failed to process image'', s', mem''))
                 else bind_res (find_chunk n input) (\<lambda>c. bind_res (push_back_chunk c (slot_tokens s)) (\<lambda>tk.
                   Inr (None, (set_tokens tk s)\<lparr>sl_n_prompt_tokens_processed :=
                                sl_n_prompt_tokens_processed s + int n_tokens_out\<rparr>, mem'))))))
        else Some (Inr (None, s, mem)))"

section \<open>Filling the batch\<close>

text \<open>An entry of the batch: token, position, the slot's sequence and whether it is an output.\<close>

type_synonym batch_entry = "llama_token \<times> llama_pos \<times> llama_seq_id \<times> bool"

text \<open>
  The tokens of the prompt up to the next chunk, the size of the batch, or the place where a
  checkpoint is to be made. \<open>stop_at\<close> is the start of an alora invocation when the adapter is
  disabled for the tokens before it.
\<close>

function fill_loop ::
    "nat \<Rightarrow> bool \<Rightarrow> int option \<Rightarrow> llama_seq_id \<Rightarrow> bool \<Rightarrow> llama_token list \<Rightarrow> 'f server_tokens \<Rightarrow> batch_entry list \<Rightarrow>
     ('f server_tokens \<times> batch_entry list) res option" where
  "fill_loop n_batch do_checkpoint stop_at seq embd input st batch =
    (if length (tk_tokens st) < length input \<and> length batch < n_batch then
       let cur_tok = input ! length (tk_tokens st)
       in if cur_tok = LLAMA_TOKEN_NULL then Some (Inr (st, batch))
          else if (case stop_at of None \<Rightarrow> False | Some k \<Rightarrow> int (length (tk_tokens st)) = k - 1) then Some (Inr (st, batch))
          else case pos_next (-1) st of
            None \<Rightarrow> None
          | Some (Inl e) \<Rightarrow> Some (Inl e)
          | Some (Inr pos) \<Rightarrow>
              (case push_back cur_tok st of
                 Inl e \<Rightarrow> Some (Inl e)
               | Inr st' \<Rightarrow>
                   let batch' = batch @ [(cur_tok, pos, seq, embd)]
                   in if do_checkpoint \<and> length input = length (tk_tokens st') + min n_batch 512 then Some (Inr (st', batch'))
                      else fill_loop n_batch do_checkpoint stop_at seq embd input st' batch')
     else Some (Inr (st, batch)))"
  by pat_completeness auto
termination
  by (relation "measure (\<lambda>(n, d, a, s, e, input, st, b). length input - length (tk_tokens st))")
    (auto simp: push_back_def split: if_splits)

declare fill_loop.simps [simp del]

text \<open>
  The end of the prompt: the last token becomes an output, and a checkpoint of the memory is made
  before the batch is evaluated. \<open>get_data\<close> is \<open>llama_state_seq_get_data_ext\<close>.
\<close>

definition make_checkpoint ::
    "'m memory_ops \<Rightarrow> (llama_seq_id \<Rightarrow> 'm option \<Rightarrow> nat list) \<Rightarrow> server_config \<Rightarrow> bool \<Rightarrow> int \<Rightarrow> 'f server_slot \<Rightarrow> 'm option \<Rightarrow>
     'f server_slot res" where
  "make_checkpoint ops get_data cfg do_checkpoint batch_n_tokens s mem =
    bind_res (llama_memory_seq_pos_min ops (sl_id s) mem) (\<lambda>pos_min.
    bind_res (llama_memory_seq_pos_max ops (sl_id s) mem) (\<lambda>pos_max.
      let cps = pr_checkpoints (sl_prompt s);
          make = (do_checkpoint \<and> pos_min \<ge> 0 \<and> pos_max \<ge> 64 \<and> (cps = [] \<or> pos_max > cp_pos_max (last cps) + 64));
          room = drop (length cps - (sc_n_ctx_checkpoints cfg - 1)) cps
      in Inr (if make
              then s\<lparr>sl_prompt := (sl_prompt s)\<lparr>pr_checkpoints := room @
                     [\<lparr>cp_pos_min = pos_min, cp_pos_max = pos_max,
                       cp_n_tokens = prompt_n_tokens (sl_prompt s) - batch_n_tokens, cp_data = get_data (sl_id s) mem\<rparr>]\<rparr>\<rparr>
              else s)))"

definition mark_last_output :: "batch_entry list \<Rightarrow> batch_entry list" where
  "mark_last_output batch =
    (case rev batch of [] \<Rightarrow> [] | (tok, pos, seq, _) # r \<Rightarrow> rev r @ [(tok, pos, seq, True)])"

definition fill_prompt ::
    "'m memory_ops \<Rightarrow> (llama_seq_id \<Rightarrow> 'm option \<Rightarrow> nat list) \<Rightarrow> server_config \<Rightarrow> int option \<Rightarrow> 'f task_data server_task \<Rightarrow>
     'f server_slot \<Rightarrow> 'm option \<Rightarrow> batch_entry list \<Rightarrow> ('f server_slot \<times> batch_entry list) res option" where
  "fill_prompt ops get_data cfg stop_at t s mem batch =
    (let do_checkpoint = (sc_n_ctx_checkpoints cfg > 0 \<and> st_type t = SERVER_TASK_TYPE_COMPLETION \<and>
                          (sc_recurrent_or_hybrid cfg \<or> (sc_n_swa cfg > 0 \<and> \<not> sc_swa_full cfg)));
         input = tk_tokens (td_tokens (st_data t))
     in case fill_loop (nat (sc_n_batch cfg)) do_checkpoint stop_at (sl_id s) (need_embd t) input (slot_tokens s) batch of
          None \<Rightarrow> None
        | Some (Inl e) \<Rightarrow> Some (Inl e)
        | Some (Inr (tk, batch')) \<Rightarrow>
            let s1 = (set_tokens tk s)\<lparr>sl_n_prompt_tokens_processed :=
                        sl_n_prompt_tokens_processed s + int (length batch' - length batch)\<rparr>
            in if length (tk_tokens tk) = length input then
                 if batch' = [] then Some (Inl (Ggml_assert ''batch.n_tokens > 0''))
                 else Some (bind_res
                   (make_checkpoint ops get_data cfg do_checkpoint (int (length batch'))
                      (s1\<lparr>sl_state := SLOT_STATE_DONE_PROMPT, sl_n_decoded := 0, sl_i_batch := int (length batch') - 1\<rparr>) mem)
                   (\<lambda>s2. Inr (s2, mark_last_output batch')))
               else Some (Inr (s1, batch')))"

section \<open>Generating\<close>

text \<open>
  Adding the sampled token of a generating slot, and with it the drafted tokens. \<open>draft\<close> is what
  the speculative decoder proposes.
\<close>

fun draft_loop :: "llama_seq_id \<Rightarrow> llama_token list \<Rightarrow> int list \<Rightarrow> 'f server_tokens \<Rightarrow> batch_entry list \<Rightarrow>
     (int list \<times> 'f server_tokens \<times> batch_entry list) res option" where
  "draft_loop seq [] dft st batch = Some (Inr (dft, st, batch))"
| "draft_loop seq (d # ds) dft st batch =
    (case pos_next (-1) st of
       None \<Rightarrow> None
     | Some (Inl e) \<Rightarrow> Some (Inl e)
     | Some (Inr pos) \<Rightarrow>
         (case push_back d st of
            Inl e \<Rightarrow> Some (Inl e)
          | Inr st' \<Rightarrow> draft_loop seq ds (dft @ [int (length batch)]) st' (batch @ [(d, pos, seq, True)])))"

definition add_sampled ::
    "'f task_data server_task \<Rightarrow> llama_token list \<Rightarrow> 'f server_slot \<Rightarrow> batch_entry list \<Rightarrow>
     ('f server_slot \<times> batch_entry list) res option" where
  "add_sampled t draft s batch =
    (let n_draft_max = get_n_draft_max t s;
         draft' = (if int (length draft) > n_draft_max then take (nat n_draft_max) draft else draft)
     in case draft_loop (sl_id s) [sl_sampled s] [] (slot_tokens s) batch of
          None \<Rightarrow> None
        | Some (Inl e) \<Rightarrow> Some (Inl e)
        | Some (Inr (dft, tk, batch1)) \<Rightarrow>
            if n_draft_max > 0 then
              if td_spec_n_min (st_data t) > int (length draft')
              then Some (Inr ((set_tokens tk s)\<lparr>sl_i_batch := hd (sl_i_batch_dft s @ dft), sl_drafted := [], sl_i_batch_dft := []\<rparr>, batch1))
              else (case draft_loop (sl_id s) draft' (sl_i_batch_dft s @ dft) tk batch1 of
                      None \<Rightarrow> None
                    | Some (Inl e) \<Rightarrow> Some (Inl e)
                    | Some (Inr (dft2, tk2, batch2)) \<Rightarrow>
                        Some (Inr ((set_tokens tk2 s)\<lparr>sl_n_draft_total := sl_n_draft_total s + int (length draft'),
                                     sl_drafted := draft', sl_i_batch_dft := dft2\<rparr>, batch2)))
            else Some (Inr ((set_tokens tk s)\<lparr>sl_i_batch := int (length batch)\<rparr>, batch1)))"

text \<open>
  Accepting the sampled continuation \<open>ids\<close> of a draft (\<open>common_sampler_sample_and_accept_n\<close> gives at
  least one token): the drafted tokens are rolled back, the accepted ones appended.
\<close>

definition accept_draft ::
    "'m memory_ops \<Rightarrow> llama_token list \<Rightarrow> 'f server_slot \<Rightarrow> 'm option \<Rightarrow> ('f server_slot \<times> 'm option) res" where
  "accept_draft ops ids s mem =
    (let n_draft = length (sl_drafted s);
         s1 = s\<lparr>sl_i_batch_dft := [], sl_drafted := [], sl_n_decoded := sl_n_decoded s + int (length ids),
                sl_n_draft_accepted := sl_n_draft_accepted s + (int (length ids) - 1)\<rparr>
     in bind_res (keep_first (length (tk_tokens (slot_tokens s)) - n_draft) (slot_tokens s)) (\<lambda>tk.
        bind_res (insert_tokens (butlast ids) tk) (\<lambda>tk'.
          let s2 = (set_tokens tk' s1)\<lparr>sl_sampled := last ids\<rparr>
          in bind_res (llama_memory_seq_rm ops (sl_id s) (prompt_n_tokens (sl_prompt s2)) (-1) mem) (\<lambda>(_, mem').
               Inr (s2, mem')))))"

section \<open>Token lists\<close>

lemma move_loop_result:
  "d \<le> i \<Longrightarrow> i \<le> length ts \<Longrightarrow>
   \<exists>r. move_loop (int d) [i..<length ts] ts = Inr r \<and> length r = length ts \<and>
     take (length ts - d) r = take (i - d) ts @ drop i ts"
proof (induction "length ts - i" arbitrary: i ts)
  case 0
  then show ?case by simp
next
  case (Suc k)
  then have i: "i < length ts" by simp
  let ?ts = "ts[i - d := ts ! i]"
  have "move_loop (int d) [i..<length ts] ts = move_loop (int d) [Suc i..<length ?ts] ?ts"
    using i Suc.prems by (simp add: upt_conv_Cons nat_diff_distrib flip: of_nat_diff)
  moreover obtain r where "move_loop (int d) [Suc i..<length ?ts] ?ts = Inr r" "length r = length ?ts"
    "take (length ?ts - d) r = take (Suc i - d) ?ts @ drop (Suc i) ?ts"
  proof -
    have "k = length ?ts - Suc i" "d \<le> Suc i" "Suc i \<le> length ?ts" using Suc.prems Suc.hyps(2) i by auto
    from Suc.hyps(1) [OF this] show ?thesis using that by blast
  qed
  moreover have "take (Suc i - d) ?ts @ drop (Suc i) ?ts = take (i - d) ts @ drop i ts"
    using i Suc.prems by (simp add: Suc_diff_le take_Suc_conv_app_nth flip: Cons_nth_drop_Suc)
  ultimately show ?case by auto
qed

lemma shift_tokens_result:
  assumes "0 \<le> k" "0 \<le> d" "k + d \<le> int (length ts)"
  shows "shift_tokens k d ts = Inr (take (nat k) ts @ drop (nat (k + d)) ts)"
proof -
  have "nat d \<le> nat (k + d)" "nat (k + d) \<le> length ts" using assms by auto
  from move_loop_result [OF this] obtain r where r: "move_loop d [nat (k + d)..<length ts] ts = Inr r"
    "length r = length ts" "take (length ts - nat d) r = take (nat (k + d) - nat d) ts @ drop (nat (k + d)) ts"
    using assms by auto
  have e: "nat (k + d) - nat d = nat k" "nat (int (length ts) - d) = length ts - nat d" using assms by auto
  show ?thesis using r assms unfolding shift_tokens_def resize_tokens_def e by (auto simp: e)
qed

lemma n_match_result:
  assumes "\<forall>j < n. cached ! (c + j) = input ! (p + j)" "c + n \<le> length cached" "p + n \<le> length input"
  shows "let m = n_match_loop cached input c p n in
    c + m \<le> length cached \<and> p + m \<le> length input \<and> (\<forall>j < m. cached ! (c + j) = input ! (p + j))"
  using assms
proof (induction cached input c p n rule: n_match_loop.induct)
  case (1 cached input c p n)
  show ?case
  proof (cases "c + n < length cached \<and> p + n < length input \<and> cached ! (c + n) = input ! (p + n)")
    case True
    then have "\<forall>j < n + 1. cached ! (c + j) = input ! (p + j)" using 1(2) by (auto simp: less_Suc_eq)
    then show ?thesis using 1(1) [OF True] True by (subst n_match_loop.simps) simp
  qed (use 1 in \<open>subst n_match_loop.simps, auto\<close>)
qed

lemma n_match_take:
  assumes "c \<le> length cached" "p \<le> length input"
  defines "m \<equiv> n_match_loop cached input c p 0"
  shows "c + m \<le> length cached" "p + m \<le> length input" "take m (drop c cached) = take m (drop p input)"
proof -
  have m: "c + m \<le> length cached" "p + m \<le> length input" "\<forall>j < m. cached ! (c + j) = input ! (p + j)"
    using n_match_result [of 0 cached c input p] assms by (auto simp: Let_def)
  then show "c + m \<le> length cached" "p + m \<le> length input" by simp_all
  show "take m (drop c cached) = take m (drop p input)" using m by (intro nth_equalityI) auto
qed

lemma set_token_loop_result:
  "p \<le> c \<Longrightarrow> c + m \<le> length (tk_tokens st) \<Longrightarrow> \<not> tk_has_mtmd st \<Longrightarrow>
   \<exists>st'. set_token_loop c p [0..<m] st = Inr st' \<and> \<not> tk_has_mtmd st' \<and> tk_map st' = tk_map st \<and>
     length (tk_tokens st') = length (tk_tokens st) \<and>
     (\<forall>j < length (tk_tokens st). tk_tokens st' ! j =
        (if p \<le> j \<and> j < p + m then tk_tokens st ! (c + (j - p)) else tk_tokens st ! j))"
proof (induction m)
  case (Suc m)
  have app: "set_token_loop c p (xs @ [i]) s = bind_res (set_token_loop c p xs s) (set_token_loop c p [i])" for xs i and s :: "'f server_tokens"
    by (induction xs arbitrary: s) (auto simp: set_token_def)
  obtain st1 where st1: "set_token_loop c p [0..<m] st = Inr st1" "\<not> tk_has_mtmd st1" "tk_map st1 = tk_map st"
    "length (tk_tokens st1) = length (tk_tokens st)"
    "\<forall>j < length (tk_tokens st). tk_tokens st1 ! j =
        (if p \<le> j \<and> j < p + m then tk_tokens st ! (c + (j - p)) else tk_tokens st ! j)"
    using Suc by auto
  have "tk_tokens st1 ! (c + m) = tk_tokens st ! (c + m)" using st1(5) Suc.prems by auto
  then show ?case using st1 Suc.prems app [of "[0..<m]" m st]
    by (intro exI [of _ "st1\<lparr>tk_tokens := (tk_tokens st1)[p + m := tk_tokens st1 ! (c + m)]\<rparr>"])
      (auto simp: set_token_def nth_list_update)
qed simp

lemma set_token_loop_take:
  assumes "p \<le> c" "c + m \<le> length (tk_tokens st)" "\<not> tk_has_mtmd st"
  shows "\<exists>st'. set_token_loop c p [0..<m] st = Inr st' \<and> \<not> tk_has_mtmd st' \<and> tk_map st' = tk_map st \<and>
    length (tk_tokens st') = length (tk_tokens st) \<and>
    take (p + m) (tk_tokens st') = take p (tk_tokens st) @ take m (drop c (tk_tokens st))"
proof -
  obtain st' where st': "set_token_loop c p [0..<m] st = Inr st'" "\<not> tk_has_mtmd st'" "tk_map st' = tk_map st"
    "length (tk_tokens st') = length (tk_tokens st)"
    "\<forall>j < length (tk_tokens st). tk_tokens st' ! j =
        (if p \<le> j \<and> j < p + m then tk_tokens st ! (c + (j - p)) else tk_tokens st ! j)"
    using set_token_loop_result [OF assms] by blast
  have "take (p + m) (tk_tokens st') = take p (tk_tokens st) @ take m (drop c (tk_tokens st))"
    using st'(4,5) assms by (intro nth_equalityI) (auto simp: nth_append)
  then show ?thesis using st' by blast
qed

section \<open>A slot for evaluations\<close>

text \<open>Slot 0 with a prompt of three tokens, and a completion task for it.\<close>

definition demo_text :: "llama_token list \<Rightarrow> unit server_tokens" where
  "demo_text ts = tokens_of_text ts False"

definition demo_job :: "llama_token list \<Rightarrow> int \<Rightarrow> unit task_data server_task" where
  "demo_job ts n_discard = Server_task 7 0 (-1) 0 (-1) SERVER_TASK_TYPE_COMPLETION
     \<lparr>td_tokens = demo_text ts, td_n_keep = 1, td_n_discard = n_discard, td_n_predict = -1, td_n_cache_reuse = 1,
      td_cache_prompt = True, td_n_indent = 0, td_return_tokens = False, td_t_max_predict_ms = -1, td_antiprompt = [],
      td_spec_n_min = 0, td_spec_n_max = 0\<rparr> []"

definition demo_slot :: "int \<Rightarrow> unit task_data server_task \<Rightarrow> slot_state \<Rightarrow> llama_token list \<Rightarrow> unit server_slot" where
  "demo_slot n_ctx t state drafted =
    \<lparr>sl_id = 0, sl_task = Some t, sl_t_last_used = -1, sl_n_ctx = n_ctx, sl_n_decoded = 1, sl_n_remaining = -1,
     sl_i_batch = -1, sl_n_prompt_tokens_cache = 0, sl_n_prompt_tokens_processed = 0, sl_last_nl_pos = 0,
     sl_generated_text = '''', sl_generated_tokens = [], sl_i_batch_dft = [], sl_has_next_token = True,
     sl_has_new_line = False, sl_truncated = False, sl_stop = STOP_TYPE_NONE, sl_stopping_word = '''', sl_state = state,
     sl_prompt = \<lparr>pr_tokens = demo_text [10, 11, 12], pr_data = [], pr_checkpoints = []\<rparr>,
     sl_alora_invocation_start = -1, sl_sampled = 13, sl_drafted = drafted, sl_n_sent_text = 0, sl_can_speculate = True,
     sl_n_draft_total = 0, sl_n_draft_accepted = 0\<rparr>"

lemma demo_slot_simps [simp]:
  "sl_id (demo_slot n t st d) = 0" "sl_task (demo_slot n t st d) = Some t" "sl_n_ctx (demo_slot n t st d) = n"
  "sl_state (demo_slot n t st d) = st" "slot_tokens (demo_slot n t st d) = demo_text [10, 11, 12]"
  "prompt_n_tokens (sl_prompt (demo_slot n t st d)) = 3" "sl_drafted (demo_slot n t st d) = d"
  "sl_alora_invocation_start (demo_slot n t st d) = -1"
  "tk_tokens (demo_text ts) = ts" "\<not> tk_has_mtmd (demo_text ts)" "tk_map (demo_text ts) = []"
  by (simp_all add: demo_slot_def prompt_n_tokens_def demo_text_def tokens_of_text_def)

lemma demo_job_simps [simp]:
  "\<not> is_parent (demo_job ts d)" "\<not> is_child (demo_job ts d)" "td_n_discard (st_data (demo_job ts d)) = d"
  "td_tokens (st_data (demo_job ts d)) = demo_text ts" "\<not> need_embd (demo_job ts d)" "td_n_keep (st_data (demo_job ts d)) = 1"
  "td_cache_prompt (st_data (demo_job ts d))" "td_n_cache_reuse (st_data (demo_job ts d)) = 1"
  by (simp_all add: demo_job_def is_parent_def is_child_def need_embd_def)

end
