(* ===== verification/SlotMemory.thy ===== *)
theory SlotMemory
  imports ServerSlot
begin

text \<open>
  What a slot relies on of the memory, as a locale over the contract \<open>memory_i\<close>: a text slot is in
  step with the memory when the memory holds exactly the positions of the slot's prompt. The
  operations of a slot keep the two in step; the lemmas are proved once here and used for every
  memory that provides the contract.
\<close>

definition slot_synced :: "('m \<Rightarrow> nat \<Rightarrow> llama_pos set) \<Rightarrow> 'm \<Rightarrow> 'f server_slot \<Rightarrow> bool" where
  "slot_synced held m s \<longleftrightarrow> \<not> tk_has_mtmd (slot_tokens s) \<and>
     held m (nat (sl_id s)) = {0..<prompt_n_tokens (sl_prompt s)}"

lemma set_tokens_simps [simp]:
  "slot_tokens (set_tokens tk s) = tk" "sl_id (set_tokens tk s) = sl_id s" "sl_state (set_tokens tk s) = sl_state s"
  "sl_n_ctx (set_tokens tk s) = sl_n_ctx s" "pr_checkpoints (sl_prompt (set_tokens tk s)) = pr_checkpoints (sl_prompt s)"
  "prompt_n_tokens (sl_prompt (set_tokens tk s)) = int (length (tk_tokens tk))"
  by (simp_all add: set_tokens_def prompt_n_tokens_def)

lemma prefix_loop_take:
  "prefix_loop xs ys \<le> length xs \<and> prefix_loop xs ys \<le> length ys \<and>
   take (prefix_loop xs ys) xs = take (prefix_loop xs ys) ys"
  by (induction xs ys rule: prefix_loop.induct) auto

locale slot_memory =
  memory_i inv ok held absent shiftable clear "mo_seq_rm ops" "mo_seq_cp ops" seq_keep "mo_seq_add ops"
    "mo_seq_pos_min ops" "mo_seq_pos_max ops"
  for ops :: "'m memory_ops" and inv ok held absent shiftable clear seq_keep +
  assumes absent_empty: "inv m \<Longrightarrow> ok m s \<Longrightarrow> held m (nat s) = {} \<Longrightarrow> absent m (nat s)"
begin

lemma clear_sync:
  assumes "inv m" "ok m (sl_id s)" "allow \<or> \<not> is_processing s" "held m (nat (sl_id s)) \<subseteq> {..<INT32_MAX}"
  shows "\<exists>m'. prompt_clear ops allow s (Some m) = Inr (set_tokens (tokens_clear (slot_tokens s)) s, Some m') \<and>
    inv m' \<and> ok m' = ok m \<and> held m' (nat (sl_id s)) = {}"
proof -
  obtain m' where m': "mo_seq_rm ops (sl_id s) (-1) (-1) m = Inr (True, m')" "inv m'" "ok m' = ok m"
    "held m' (nat (sl_id s)) = held m (nat (sl_id s)) - rng (-1) (-1)"
    using rm_law [OF assms(1,2), of "-1" "-1"] assms(2) by auto
  have "held m' (nat (sl_id s)) = {}"
    using m'(4) assms(4) held_nonneg [OF assms(1,2)] by (auto simp: rng_def range_lo_def range_hi_def)
  then show ?thesis using m' assms(3) by (auto simp: prompt_clear_def)
qed

text \<open>A context shift keeps slot and memory in step.\<close>

lemma context_shift_sync:
  fixes s :: "'f server_slot"
  assumes m: "inv m" "ok m (sl_id s)" "shiftable m" and sync: "slot_synced held m s"
    and k: "0 \<le> shift_n_keep cfg t s" "0 \<le> shift_n_discard cfg t s"
      "shift_n_keep cfg t s + shift_n_discard cfg t s \<le> prompt_n_tokens (sl_prompt s)"
  defines "ts \<equiv> tk_tokens (slot_tokens s)"
  shows "\<exists>s' m'. context_shift ops cfg t s (Some m) = Inr (s', Some m') \<and> inv m' \<and> ok m' = ok m \<and>
    slot_synced held m' s' \<and> sl_id s' = sl_id s \<and>
    tk_tokens (slot_tokens s') = take (nat (shift_n_keep cfg t s)) ts @
      drop (nat (shift_n_keep cfg t s + shift_n_discard cfg t s)) ts"
proof -
  let ?k = "shift_n_keep cfg t s" and ?d = "shift_n_discard cfg t s" and ?n = "prompt_n_tokens (sl_prompt s)"
  have nomt: "\<not> tk_has_mtmd (slot_tokens s)" and h: "held m (nat (sl_id s)) = {0..<?n}"
    using sync by (auto simp: slot_synced_def)
  obtain m1 m2 where m12: "mo_seq_rm ops (sl_id s) ?k (?k + ?d) m = Inr (True, m1)"
    "mo_seq_add ops (sl_id s) (?k + ?d) ?n (- ?d) m1 = Inr m2" "inv m2" "ok m2 = ok m"
    "held m2 (nat (sl_id s)) = {0..<?n - ?d}"
    using shift_down [OF m h k] by blast
  let ?ts' = "take (nat ?k) ts @ drop (nat (?k + ?d)) ts"
  have n: "?n = int (length ts)" by (simp add: prompt_n_tokens_def ts_def)
  have st: "shift_tokens ?k ?d ts = Inr ?ts'" using shift_tokens_result k n by simp
  let ?s' = "(set_tokens (tokens_clear (slot_tokens s)\<lparr>tk_tokens := ?ts'\<rparr>) s)\<lparr>sl_truncated := True\<rparr>"
  have "context_shift ops cfg t s (Some m) = Inr (?s', Some m2)"
    using m12 nomt st
    by (simp add: context_shift_def get_text_tokens_def insert_tokens_def tokens_clear_def ts_def Let_def)
  moreover have "int (length ?ts') = ?n - ?d" using k n by auto
  then have "slot_synced held m2 ?s'"
    using m12(5) nomt by (simp add: slot_synced_def tokens_clear_def set_tokens_def prompt_n_tokens_def)
  ultimately show ?thesis using m12(3,4) by (intro exI [of _ ?s'] exI [of _ m2]) (simp add: set_tokens_def)
qed

text \<open>Accepting a draft keeps slot and memory in step, when the memory has the drafted tokens.\<close>

lemma accept_draft_sync:
  fixes s :: "'f server_slot"
  assumes m: "inv m" "ok m (sl_id s)" and sync: "slot_synced held m s"
    and d: "length (sl_drafted s) \<le> length (tk_tokens (slot_tokens s))"
      "ids \<noteq> []" "length ids - 1 \<le> length (sl_drafted s)" "prompt_n_tokens (sl_prompt s) \<le> INT32_MAX"
  defines "ts \<equiv> tk_tokens (slot_tokens s)"
  shows "\<exists>s' m'. accept_draft ops ids s (Some m) = Inr (s', Some m') \<and> inv m' \<and> ok m' = ok m \<and>
    slot_synced held m' s' \<and> tk_tokens (slot_tokens s') = take (length ts - length (sl_drafted s)) ts @ butlast ids \<and>
    sl_sampled s' = last ids \<and> sl_drafted s' = []"
proof -
  have nomt: "\<not> tk_has_mtmd (slot_tokens s)" and h: "held m (nat (sl_id s)) = {0..<int (length ts)}"
    using sync by (auto simp: slot_synced_def prompt_n_tokens_def ts_def)
  let ?nk = "length ts - length (sl_drafted s)"
  let ?ts' = "take ?nk ts @ butlast ids"
  let ?n = "int (length ?ts')"
  have le: "?n \<le> int (length ts)" using d by (simp add: ts_def)
  obtain m' where m': "mo_seq_rm ops (sl_id s) ?n (-1) m = Inr (True, m')" "inv m'" "ok m' = ok m"
    "held m' (nat (sl_id s)) = {q \<in> held m (nat (sl_id s)). q < ?n}"
  proof -
    have "held m (nat (sl_id s)) \<subseteq> {..<INT32_MAX}" using h d(4) by (auto simp: prompt_n_tokens_def ts_def)
    then show ?thesis using that truncate [OF m, of ?n] by auto
  qed
  have "held m' (nat (sl_id s)) = {0..<?n}" using m'(4) h le by auto
  moreover have "keep_first ?nk (slot_tokens s) = Inr ((slot_tokens s)\<lparr>tk_tokens := take ?nk ts\<rparr>)"
    using nomt by (simp add: keep_first_def ts_def)
  ultimately show ?thesis
    using m' nomt
    by (auto simp: accept_draft_def insert_tokens_def slot_synced_def ts_def set_tokens_def prompt_n_tokens_def Let_def)
qed

text \<open>A copied slot is in step with the memory, and so is the original.\<close>

lemma copy_state_sync:
  fixes s oth :: "'f server_slot"
  assumes m: "inv m" "ok m (sl_id s)" "ok m (sl_id oth)" "sl_id s \<noteq> sl_id oth" and sync: "slot_synced held m s"
    and st: "sl_state s = SLOT_STATE_DONE_PROMPT"
    and small: "held m (nat (sl_id oth)) \<subseteq> {..<INT32_MAX}" "prompt_n_tokens (sl_prompt s) \<le> INT32_MAX"
    and map: "tk_map (slot_tokens s) = []"
  shows "\<exists>s' m'. copy_state_to ops s oth (Some m) = Inr (s', Some m') \<and> inv m' \<and> ok m' = ok m \<and>
    slot_synced held m' s' \<and> slot_synced held m' s \<and> slot_tokens s' = slot_tokens s \<and> sl_id s' = sl_id oth"
proof -
  obtain m1 where m1: "mo_seq_rm ops (sl_id oth) (-1) (-1) m = Inr (True, m1)" "inv m1" "ok m1 = ok m"
    "held m1 (nat (sl_id oth)) = held m (nat (sl_id oth)) - rng (-1) (-1)" "held m1 (nat (sl_id s)) = held m (nat (sl_id s))"
    using rm_law [OF m(1,3), of "-1" "-1"] m by auto
  have e: "held m1 (nat (sl_id oth)) = {}"
    using m1(4) small(1) held_nonneg [OF m(1,3)] by (auto simp: rng_def range_lo_def range_hi_def)
  have h: "held m1 (nat (sl_id s)) = {0..<prompt_n_tokens (sl_prompt s)}"
    using m1(5) sync by (simp add: slot_synced_def)
  obtain m2 where m2: "mo_seq_cp ops (sl_id s) (sl_id oth) (-1) (-1) m1 = Inr m2" "inv m2" "ok m2 = ok m1"
    "held m2 (nat (sl_id oth)) = held m1 (nat (sl_id s))" "held m2 (nat (sl_id s)) = held m1 (nat (sl_id s))"
  proof -
    have "held m1 (nat (sl_id s)) \<subseteq> {..<INT32_MAX}" using h small(2) by auto
    moreover have "absent m1 (nat (sl_id oth))" using absent_empty [OF m1(2) _ e] m1(3) m(3) by simp
    ultimately show ?thesis
      using that cp_law [OF m1(2), of "sl_id s" "sl_id oth"] m m1(3) by auto
  qed
  have clone: "tokens_clone (slot_tokens s) = slot_tokens s" using map by (simp add: tokens_clone_def)
  then show ?thesis using m1 m2 h sync st
    by (auto simp: copy_state_to_def slot_synced_def prompt_clone_def prompt_n_tokens_def)
qed

text \<open>
  The reuse of chunks: the loop ends, the first \<open>n_past\<close> tokens of the prompt are those of the input
  and the memory holds their positions.
\<close>

lemma reuse_loop_sync:
  fixes st :: "'f server_tokens"
  assumes "inv m" "ok m seq" "shiftable m" "0 < reuse" "\<not> tk_has_mtmd st" "tk_map st = []"
    and "p \<le> c" "c \<le> length (tk_tokens st)" "p \<le> length input" "take p (tk_tokens st) = take p input"
    and "{0..<int p} \<union> {int c..<int (length (tk_tokens st))} \<subseteq> held m (nat seq)"
    and "held m (nat seq) \<subseteq> {0..<int (length (tk_tokens st))}"
  shows "\<exists>st' m' k. reuse_loop ops seq reuse input c p p st (Some m) = Some (Inr (st', Some m', k)) \<and>
    inv m' \<and> ok m' = ok m \<and> \<not> tk_has_mtmd st' \<and> tk_map st' = [] \<and>
    length (tk_tokens st') = length (tk_tokens st) \<and> p \<le> k \<and> k \<le> length input \<and> k \<le> length (tk_tokens st) \<and>
    take k (tk_tokens st') = take k input \<and> {0..<int k} \<subseteq> held m' (nat seq) \<and>
    held m' (nat seq) \<subseteq> {0..<int (length (tk_tokens st))}"
  using assms
proof (induction "length (tk_tokens st) - c" arbitrary: st m c p rule: less_induct)
  case less
  let ?n = "length (tk_tokens st)"
  note prems = less.prems
  show ?case
  proof (cases "c < ?n \<and> p < length input")
    case False
    then have "reuse_loop ops seq reuse input c p p st (Some m) = Some (Inr (st, Some m, p))"
      by (subst reuse_loop.simps) auto
    then show ?thesis using prems by (intro exI [of _ st] exI [of _ m] exI [of _ p]) auto
  next
    case True
    define k where "k = n_match_loop (tk_tokens st) input c p 0"
    have k: "c + k \<le> ?n" "p + k \<le> length input" "take k (drop c (tk_tokens st)) = take k (drop p input)"
      using n_match_take [of c "tk_tokens st" p input] prems(8,9) by (auto simp: k_def)
    show ?thesis
    proof (cases "reuse \<le> k")
      case False
      have "reuse_loop ops seq reuse input c p p st (Some m) = reuse_loop ops seq reuse input (c + 1) p p st (Some m)"
        using True False by (subst reuse_loop.simps) (auto simp: k_def Let_def)
      moreover have "{0..<int p} \<union> {int (c + 1)..<int ?n} \<subseteq> held m (nat seq)" using prems(11) by auto
      ultimately show ?thesis using less.hyps [of st "c + 1" m p] True prems by auto
    next
      case match: True
      obtain m1 where m1: "mo_seq_rm ops seq (int p) (int c) m = Inr (True, m1)" "inv m1" "ok m1 = ok m"
        "shiftable m1 = shiftable m" "held m1 (nat seq) = held m (nat seq) - rng (int p) (int c)"
        using rm_law [OF prems(1,2), of "int p" "int c"] prems(2) by auto
      have h1: "held m1 (nat seq) = {0..<int p} \<union> {int c..<int ?n}"
        using m1(5) prems(7,8,11,12) by (auto simp: rng_def range_lo_def range_hi_def)
      obtain m2 where m2: "mo_seq_add ops seq (int c) (int (c + k)) (int p - int c) m1 = Inr m2" "inv m2" "ok m2 = ok m1"
        "shiftable m2 = shiftable m1"
        "held m2 (nat seq) = (held m1 (nat seq) - rng (int c) (int (c + k))) \<union>
           {q + (int p - int c) | q. q \<in> held m1 (nat seq) \<inter> rng (int c) (int (c + k)) \<and> 0 \<le> q + (int p - int c)}"
        using add_law [of m1 seq "int c" "int (c + k)" "int p - int c"] m1 prems(2,3) by auto
      have h2: "held m2 (nat seq) = {0..<int (p + k)} \<union> {int (c + k)..<int ?n}"
      proof -
        have r: "rng (int c) (int (c + k)) = {int c..<int (c + k)}" by (simp add: rng_def range_lo_def range_hi_def)
        have "held m1 (nat seq) - rng (int c) (int (c + k)) = {0..<int p} \<union> {int (c + k)..<int ?n}"
          using h1 r prems(7) by auto
        moreover have "{q + (int p - int c) | q. q \<in> held m1 (nat seq) \<inter> rng (int c) (int (c + k)) \<and> 0 \<le> q + (int p - int c)} =
          {int p..<int (p + k)}" (is "?L = ?R")
        proof
          show "?L \<subseteq> ?R" using r by auto
          show "?R \<subseteq> ?L"
          proof
            fix x assume "x \<in> ?R"
            then show "x \<in> ?L" using h1 r k(1) by (intro CollectI exI [of _ "x + (int c - int p)"]) auto
          qed
        qed
        ultimately show ?thesis using m2(5) by auto
      qed
      obtain st' where st': "set_token_loop c p [0..<k] st = Inr st'" "\<not> tk_has_mtmd st'" "tk_map st' = tk_map st"
        "length (tk_tokens st') = ?n" "take (p + k) (tk_tokens st') = take p (tk_tokens st) @ take k (drop c (tk_tokens st))"
        using set_token_loop_take [OF prems(7) k(1) prems(5)] by blast
      have eq: "reuse_loop ops seq reuse input c p p st (Some m) =
          reuse_loop ops seq reuse input (c + k) (p + k) (p + k) st' (Some m2)"
        using True match m1(1) m2(1) st'(1) by (subst reuse_loop.simps) (auto simp: k_def Let_def)
      have "take (p + k) (tk_tokens st') = take (p + k) input"
        using st'(5) k(3) prems(10) by (simp add: take_add)
      moreover have "length (tk_tokens st') - (c + k) < ?n - c" using match prems(4) True st'(4) by arith
      moreover have "{0..<int (p + k)} \<union> {int (c + k)..<int (length (tk_tokens st'))} \<subseteq> held m2 (nat seq)"
        "held m2 (nat seq) \<subseteq> {0..<int (length (tk_tokens st'))}"
        using h2 st'(4) k(1) prems(7) by auto
      moreover have "inv m2" "ok m2 seq" "shiftable m2" "tk_map st' = []" "p + k \<le> c + k" "c + k \<le> length (tk_tokens st')"
        using m1 m2 st' prems k by auto
      ultimately obtain st'' m' j where
        "reuse_loop ops seq reuse input (c + k) (p + k) (p + k) st' (Some m2) = Some (Inr (st'', Some m', j))"
        "inv m'" "ok m' = ok m2" "\<not> tk_has_mtmd st''" "tk_map st'' = []" "length (tk_tokens st'') = length (tk_tokens st')"
        "p + k \<le> j" "j \<le> length input" "j \<le> length (tk_tokens st')" "take j (tk_tokens st'') = take j input"
        "{0..<int j} \<subseteq> held m' (nat seq)" "held m' (nat seq) \<subseteq> {0..<int (length (tk_tokens st'))}"
        using less.hyps [of st' "c + k" m2 "p + k"] prems(4) st'(2) k(2) by blast
      then show ?thesis using eq m1(3) m2(3) st'(4) by (intro exI [of _ st''] exI [of _ m'] exI [of _ j]) simp
    qed
  qed
qed

lemma pos_min_zero:
  assumes "inv m" "ok m seq" "{0..<int k} \<subseteq> held m (nat seq)" "0 < k"
  shows "mo_seq_pos_min ops seq m = Inr 0"
proof -
  have "0 \<in> held m (nat seq)" using assms(3,4) by auto
  then have "Min (held m (nat seq)) = 0"
    using held_finite [OF assms(1,2)] held_nonneg [OF assms(1,2)] by (intro Min_eqI) auto
  then show ?thesis using min_law [OF assms(1,2)] \<open>0 \<in> held m (nat seq)\<close> by (auto simp: ends_of_def)
qed

lemma reuse_cached_sync:
  fixes s :: "'f server_slot" and t :: "'f task_data server_task"
  assumes m: "inv m" "ok m (sl_id s)" "shiftable m" and sync: "slot_synced held m s" "tk_map (slot_tokens s) = []"
    and cfg: "\<not> sc_has_mctx cfg"
  defines "input \<equiv> tk_tokens (td_tokens (st_data t))"
  shows "\<exists>st' m' k. reuse_cached ops cfg t s (Some m) = Some (Inr (st', Some m', k)) \<and>
    inv m' \<and> ok m' = ok m \<and> \<not> tk_has_mtmd st' \<and> tk_map st' = [] \<and>
    length (tk_tokens st') = length (tk_tokens (slot_tokens s)) \<and> k \<le> length input \<and> k \<le> length (tk_tokens st') \<and>
    take k (tk_tokens st') = take k input \<and> {0..<int k} \<subseteq> held m' (nat (sl_id s)) \<and>
    held m' (nat (sl_id s)) \<subseteq> {0..<int (length (tk_tokens st'))} \<and>
    (td_cache_prompt (st_data t) \<and> sl_alora_invocation_start s \<le> 0 \<longrightarrow> prefix_loop (tk_tokens (slot_tokens s)) input \<le> k)"
proof (cases "td_cache_prompt (st_data t)")
  case False
  then show ?thesis using sync m
    by (intro exI [of _ "slot_tokens s"] exI [of _ m] exI [of _ 0])
      (auto simp: reuse_cached_def slot_synced_def prompt_n_tokens_def)
next
  case True
  let ?ts = "tk_tokens (slot_tokens s)"
  define lcp where "lcp = prefix_loop ?ts input"
  define p where "p = (if sl_alora_invocation_start s > 0 then nat (min (int lcp) (sl_alora_invocation_start s - 1)) else lcp)"
  have l: "lcp \<le> length ?ts" "lcp \<le> length input" "take lcp ?ts = take lcp input"
    using prefix_loop_take [of ?ts input] by (auto simp: lcp_def)
  have p: "p \<le> lcp" by (auto simp: p_def)
  then have tk: "take p ?ts = take p input" using l(3) by (metis min.absorb1 take_take)
  have nomt: "\<not> tk_has_mtmd (slot_tokens s)" and h: "held m (nat (sl_id s)) = {0..<int (length ?ts)}"
    using sync by (auto simp: slot_synced_def prompt_n_tokens_def)
  have gc: "get_common_prefix (slot_tokens s) (td_tokens (st_data t)) = Inr lcp"
    using nomt by (simp add: get_common_prefix_def lcp_def input_def)
  show ?thesis
  proof (cases "mo_can_shift ops m \<and> td_n_cache_reuse (st_data t) > 0")
    case False
    then have "reuse_cached ops cfg t s (Some m) = Some (Inr (slot_tokens s, Some m, p))"
      using True gc nomt by (auto simp: reuse_cached_def p_def Let_def)
    then show ?thesis using m sync l p tk h nomt
      by (intro exI [of _ "slot_tokens s"] exI [of _ m] exI [of _ p]) (auto simp: p_def lcp_def)
  next
    case reuse: True
    have "{0..<int p} \<union> {int p..<int (length ?ts)} \<subseteq> held m (nat (sl_id s))" using h p l by auto
    moreover have pl: "p \<le> length ?ts" "p \<le> length input" using p l by auto
    moreover have "0 < nat (td_n_cache_reuse (st_data t))" using reuse by simp
    ultimately obtain st' m' k where r:
      "reuse_loop ops (sl_id s) (nat (td_n_cache_reuse (st_data t))) input p p p (slot_tokens s) (Some m) = Some (Inr (st', Some m', k))"
      "inv m'" "ok m' = ok m" "\<not> tk_has_mtmd st'" "tk_map st' = []" "length (tk_tokens st') = length ?ts" "p \<le> k"
      "k \<le> length input" "k \<le> length ?ts" "take k (tk_tokens st') = take k input" "{0..<int k} \<subseteq> held m' (nat (sl_id s))"
      "held m' (nat (sl_id s)) \<subseteq> {0..<int (length ?ts)}"
      using reuse_loop_sync [OF m _ nomt sync(2) order.refl _ _ tk, of "nat (td_n_cache_reuse (st_data t))"] pl h by auto
    have "reuse_cached ops cfg t s (Some m) = Some (Inr (st', Some m', k))"
      using True gc nomt reuse r(1) cfg by (simp add: reuse_cached_def p_def input_def)
    then show ?thesis using r by (intro exI [of _ st'] exI [of _ m'] exI [of _ k]) (auto simp: p_def lcp_def)
  qed
qed

text \<open>A memory that forgets nothing needs no checkpoint: the choice is what the reuse gives.\<close>

lemma choose_n_past_sync:
  fixes s :: "'f server_slot" and t :: "'f task_data server_task"
  assumes m: "inv m" "ok m (sl_id s)" "shiftable m" and sync: "slot_synced held m s" "tk_map (slot_tokens s) = []"
    and cfg: "\<not> sc_has_mctx cfg"
  defines "input \<equiv> tk_tokens (td_tokens (st_data t))"
  shows "\<exists>s' m' k. choose_n_past ops set_data cfg t s (Some m) = Some (Inr (k, s', Some m')) \<and>
    inv m' \<and> ok m' = ok m \<and> sl_id s' = sl_id s \<and> \<not> tk_has_mtmd (slot_tokens s') \<and> tk_map (slot_tokens s') = [] \<and>
    k \<le> length input \<and> k \<le> length (tk_tokens (slot_tokens s')) \<and> take k (tk_tokens (slot_tokens s')) = take k input \<and>
    {0..<int k} \<subseteq> held m' (nat (sl_id s)) \<and>
    held m' (nat (sl_id s)) \<subseteq> {0..<prompt_n_tokens (sl_prompt s)} \<and>
    (td_cache_prompt (st_data t) \<and> sl_alora_invocation_start s \<le> 0 \<longrightarrow> prefix_loop (tk_tokens (slot_tokens s)) input \<le> k)"
proof -
  obtain st' m' k where r: "reuse_cached ops cfg t s (Some m) = Some (Inr (st', Some m', k))"
    "inv m'" "ok m' = ok m" "\<not> tk_has_mtmd st'" "tk_map st' = []"
    "length (tk_tokens st') = length (tk_tokens (slot_tokens s))" "k \<le> length input" "k \<le> length (tk_tokens st')"
    "take k (tk_tokens st') = take k input" "{0..<int k} \<subseteq> held m' (nat (sl_id s))"
    "held m' (nat (sl_id s)) \<subseteq> {0..<int (length (tk_tokens st'))}"
    "td_cache_prompt (st_data t) \<and> sl_alora_invocation_start s \<le> 0 \<longrightarrow> prefix_loop (tk_tokens (slot_tokens s)) input \<le> k"
    using reuse_cached_sync [OF m sync cfg, of t] unfolding input_def by blast
  have pn: "pos_next (int k) st' = Some (Inr (int k))" using r(4) by (simp add: pos_next_def)
  have pm: "0 < k \<Longrightarrow> mo_seq_pos_min ops (sl_id s) m' = Inr 0"
    using pos_min_zero [OF r(2) _ r(10)] r(3) m(2) by simp
  show ?thesis using r pn pm
    by (auto simp: choose_n_past_def Let_def set_tokens_def prompt_n_tokens_def)
qed

lemma start_prompt_sync:
  fixes s :: "'f server_slot" and t :: "'f task_data server_task"
  assumes m: "inv m" "ok m (sl_id s)" "shiftable m" and sync: "slot_synced held m s" "tk_map (slot_tokens s) = []"
    and cfg: "\<not> sc_has_mctx cfg" "can_split cfg t (Some m)"
    and n: "prompt_n_tokens (sl_prompt s) \<le> INT32_MAX" "tk_tokens (td_tokens (st_data t)) \<noteq> []"
      "int (length (tk_tokens (td_tokens (st_data t)))) < sl_n_ctx s"
  defines "input \<equiv> tk_tokens (td_tokens (st_data t))"
  shows "\<exists>s1 m1 m2 k. start_prompt ops set_data cfg now t s (Some m) = Some (Inr (Start_running, s1, Some m1)) \<and>
    truncate_memory ops s1 (Some m1) = Some (Inr (s1, Some m2)) \<and> inv m2 \<and> ok m2 = ok m \<and> slot_synced held m2 s1 \<and>
    k < length input \<and> tk_tokens (slot_tokens s1) = take k input \<and> sl_n_prompt_tokens_cache s1 = int k \<and> sl_id s1 = sl_id s \<and>
    (td_cache_prompt (st_data t) \<and> sl_alora_invocation_start s \<le> 0 \<longrightarrow>
       min (prefix_loop (tk_tokens (slot_tokens s)) input) (length input - 1) \<le> k)"
proof -
  let ?s = "s\<lparr>sl_state := SLOT_STATE_PROCESSING_PROMPT\<rparr>"
  have sync': "slot_synced held m ?s" using sync by (simp add: slot_synced_def)
  obtain s' m' j where r: "choose_n_past ops set_data cfg t ?s (Some m) = Some (Inr (j, s', Some m'))"
    "inv m'" "ok m' = ok m" "sl_id s' = sl_id s" "\<not> tk_has_mtmd (slot_tokens s')" "tk_map (slot_tokens s') = []"
    "j \<le> length input" "j \<le> length (tk_tokens (slot_tokens s'))" "take j (tk_tokens (slot_tokens s')) = take j input"
    "{0..<int j} \<subseteq> held m' (nat (sl_id s))" "held m' (nat (sl_id s)) \<subseteq> {0..<prompt_n_tokens (sl_prompt s)}"
    "td_cache_prompt (st_data t) \<and> sl_alora_invocation_start s \<le> 0 \<longrightarrow> prefix_loop (tk_tokens (slot_tokens s)) input \<le> j"
    using choose_n_past_sync [of m ?s cfg set_data t] m sync' sync(2) cfg(1) unfolding input_def by auto
  define k where "k = (if int j = int (length input) \<and> j > 0 then j - 1 else j)"
  have k: "k < length input" "k \<le> j" "min (prefix_loop (tk_tokens (slot_tokens s)) input) (length input - 1) \<le> k \<or>
      \<not> (td_cache_prompt (st_data t) \<and> sl_alora_invocation_start s \<le> 0)"
    using r(7,12) n(2) by (auto simp: k_def input_def)
  let ?s1 = "set_tokens ((slot_tokens s')\<lparr>tk_tokens := take k (tk_tokens (slot_tokens s'))\<rparr>)
    (s'\<lparr>sl_n_prompt_tokens_cache := int k, sl_n_prompt_tokens_processed := 0\<rparr>)"
  have st: "start_prompt ops set_data cfg now t s (Some m) = Some (Inr (Start_running, ?s1, Some m'))"
    using r(1,5,8) cfg(2) n(2,3) k(2) unfolding k_def
    by (auto simp: start_prompt_def Let_def keep_first_def input_def)
  have tk: "take k (tk_tokens (slot_tokens s')) = take k input" using r(9) k(2) by (metis min.absorb1 take_take)
  have "held m' (nat (sl_id s')) \<subseteq> {..<INT32_MAX}" using r(4,11) n(1) by auto
  then obtain m2 where m2: "mo_seq_rm ops (sl_id s') (int k) (-1) m' = Inr (True, m2)" "inv m2" "ok m2 = ok m'"
    "held m2 (nat (sl_id s')) = {q \<in> held m' (nat (sl_id s')). q < int k}"
    using truncate [of m' "sl_id s'" "int k"] r(2,3,4) m(2) by auto
  have "held m2 (nat (sl_id s')) = {0..<int k}" 
  proof -
    have "{0..<int k} \<subseteq> held m' (nat (sl_id s))" using r(10) k(2) by auto
    then show ?thesis using m2(4) r(11) unfolding r(4) by auto
  qed
  moreover have "length (take k (tk_tokens (slot_tokens s'))) = k" using k(2) r(8) by simp
  ultimately have "truncate_memory ops ?s1 (Some m') = Some (Inr (?s1, Some m2))" "slot_synced held m2 ?s1"
    using m2(1) r(5) by (auto simp: truncate_memory_def pos_next_def slot_synced_def)
  moreover have "ok m2 = ok m" using m2(3) r(3) by simp
  moreover have "tk_tokens (slot_tokens ?s1) = take k input" using tk by simp
  moreover have "sl_n_prompt_tokens_cache ?s1 = int k" "sl_id ?s1 = sl_id s" using r(4) by (simp_all add: set_tokens_def)
  ultimately show ?thesis using st m2(2) k(1,3) by blast
qed

end

section \<open>The filled batch\<close>

text \<open>
  For a text prompt the loop adds the next tokens of the input at the next positions, and stops
  early only for a full batch, an alora invocation or a checkpoint.
\<close>

lemma fill_loop_result:
  fixes st :: "'f server_tokens"
  assumes "\<not> tk_has_mtmd st" "tk_tokens st = take n input" "n \<le> length input" "LLAMA_TOKEN_NULL \<notin> set input"
    and "length batch \<le> n_batch"
  shows "\<exists>k. n \<le> k \<and> k \<le> length input \<and>
    fill_loop n_batch dc stop_at seq embd input st batch =
      Some (Inr (st\<lparr>tk_tokens := take k input\<rparr>, batch @ map (\<lambda>i. (input ! i, int i, seq, embd)) [n..<k])) \<and>
    length batch + (k - n) \<le> n_batch \<and>
    (\<not> dc \<and> stop_at = None \<longrightarrow> k = length input \<or> length batch + (k - n) = n_batch) \<and>
    (stop_at = None \<and> n < length input \<and> length batch < n_batch \<longrightarrow> n < k)"
  using assms
proof (induction "length input - n" arbitrary: n st batch)
  case 0
  then show ?case by (intro exI [of _ n]) (subst fill_loop.simps, auto)
next
  case (Suc d)
  have n: "n < length input" using Suc.hyps(2) by simp
  have len: "length (tk_tokens st) = n" using Suc.prems n by simp
  have tok: "input ! n \<noteq> LLAMA_TOKEN_NULL" using Suc.prems(4) n by (metis nth_mem)
  let ?st = "st\<lparr>tk_tokens := take (Suc n) input\<rparr>" and ?b = "batch @ [(input ! n, int n, seq, embd)]"
  have pb: "push_back (input ! n) st = Inr ?st"
    using tok Suc.prems(2) n by (simp add: push_back_def take_Suc_conv_app_nth)
  have pn: "pos_next (-1) st = Some (Inr (int n))" using Suc.prems(1) len by (simp add: pos_next_def)
  have map: "batch @ map f [n..<k] = (batch @ [f n]) @ map f [Suc n..<k]" if "Suc n \<le> k" for f :: "nat \<Rightarrow> batch_entry" and k
    using that by (simp add: upt_conv_Cons)
  show ?case
  proof (cases "length batch < n_batch")
    case False
    then have "fill_loop n_batch dc stop_at seq embd input st batch = Some (Inr (st, batch))"
      by (subst fill_loop.simps) simp
    moreover have "st\<lparr>tk_tokens := take n input\<rparr> = st" using Suc.prems(2) by simp
    ultimately show ?thesis using False Suc.prems n by (intro exI [of _ n]) auto
  next
    case room: True
    consider (stop) "case stop_at of None \<Rightarrow> False | Some k \<Rightarrow> int n = k - 1"
      | (cp) "\<not> (case stop_at of None \<Rightarrow> False | Some k \<Rightarrow> int n = k - 1)" "dc \<and> length input = Suc n + min n_batch 512"
      | (go) "\<not> (case stop_at of None \<Rightarrow> False | Some k \<Rightarrow> int n = k - 1)" "\<not> (dc \<and> length input = Suc n + min n_batch 512)"
      by blast
    then show ?thesis
    proof cases
      case stop
      then have "fill_loop n_batch dc stop_at seq embd input st batch = Some (Inr (st, batch))"
        using room n len tok by (subst fill_loop.simps, cases stop_at) (simp_all add: Let_def)
      moreover have "st\<lparr>tk_tokens := take n input\<rparr> = st" using Suc.prems(2) by simp
      ultimately show ?thesis using stop Suc.prems n by (intro exI [of _ n]) (auto split: option.splits)
    next
      case cp
      then have "fill_loop n_batch dc stop_at seq embd input st batch = Some (Inr (?st, ?b))"
        using room n len tok pb pn by (subst fill_loop.simps, cases stop_at) (simp_all add: Let_def)
      then show ?thesis using cp n room by (intro exI [of _ "Suc n"]) auto
    next
      case go
      then have eq: "fill_loop n_batch dc stop_at seq embd input st batch = fill_loop n_batch dc stop_at seq embd input ?st ?b"
        using room n len tok pb pn by (subst fill_loop.simps) (auto simp: Let_def min_def)
      have d: "d = length input - Suc n" using Suc.hyps(2) by simp
      have p: "\<not> tk_has_mtmd ?st" "tk_tokens ?st = take (Suc n) input" "Suc n \<le> length input" "length ?b \<le> n_batch"
        using Suc.prems n room by auto
      obtain k where "Suc n \<le> k" "k \<le> length input"
        "fill_loop n_batch dc stop_at seq embd input ?st ?b =
          Some (Inr (?st\<lparr>tk_tokens := take k input\<rparr>, ?b @ map (\<lambda>i. (input ! i, int i, seq, embd)) [Suc n..<k]))"
        "length ?b + (k - Suc n) \<le> n_batch"
        "\<not> dc \<and> stop_at = None \<longrightarrow> k = length input \<or> length ?b + (k - Suc n) = n_batch"
        using Suc.hyps(1) [OF d p(1-3) Suc.prems(4) p(4)] by blast
      then show ?thesis using eq map [of k "\<lambda>i. (input ! i, int i, seq, embd)"] by (intro exI [of _ k]) auto
    qed
  qed
qed

end
