(* ===== verification/ServerContract.thy ===== *)
theory ServerContract
  imports SlotMemory KvContract
begin

text \<open>
  The slots of the server on the KV cache: the interpretation of \<open>slot_memory\<close> with the operations of
  \<open>llama_kv_cache\<close>, and the properties of the context shift, the start of a prompt, the acceptance of
  a draft and the restore of a checkpoint.
\<close>

section \<open>The KV cache as the memory of a context\<close>

definition kv_ops :: "('d :: zero) kv_cache memory_ops" where
  "kv_ops = \<lparr>mo_can_shift = kv_get_can_shift, mo_seq_rm = kv_seq_rm, mo_seq_cp = kv_seq_cp, mo_seq_add = kv_seq_add,
     mo_seq_pos_min = kv_seq_pos_min, mo_seq_pos_max = kv_seq_pos_max\<rparr>"

lemma kv_ops_simps [simp]:
  "mo_can_shift kv_ops = kv_get_can_shift" "mo_seq_rm kv_ops = kv_seq_rm" "mo_seq_cp kv_ops = kv_seq_cp"
  "mo_seq_add kv_ops = kv_seq_add" "mo_seq_pos_min kv_ops = kv_seq_pos_min" "mo_seq_pos_max kv_ops = kv_seq_pos_max"
  by (simp_all add: kv_ops_def)

interpretation ks: slot_memory "kv_ops :: ('d :: zero) kv_cache memory_ops" kv_wf seq_id_ok kv_held
  "\<lambda>kv s. kv_held kv s = {}" "\<lambda>kv. n_pos_per_embd (kv_hparams kv) = 1" kv_clear kv_seq_keep
  unfolding slot_memory_def slot_memory_axioms_def kv_ops_simps using kv.memory_i_axioms by blast

section \<open>A slot on a filled cache\<close>

text \<open>The configuration for the evaluations.\<close>

definition demo_config :: server_config where
  "demo_config = \<lparr>sc_ctx_shift = True, sc_has_mctx = False, sc_add_bos_token = False, sc_n_swa = 0, sc_pooling_last = False,
     sc_n_ubatch = 8, sc_n_batch = 8, sc_n_ctx_checkpoints = 0, sc_recurrent_or_hybrid = False, sc_swa_full = False\<rparr>"

lemma demo_config_simps [simp]:
  "sc_ctx_shift demo_config" "\<not> sc_has_mctx demo_config" "\<not> sc_add_bos_token demo_config" "sc_n_swa demo_config = 0"
  "sc_n_batch demo_config = 8" "sc_n_ctx_checkpoints demo_config = 0"
  by (simp_all add: demo_config_def)

lemma demo_slot_synced: "slot_synced kv_held (fill demo_kv) (demo_slot n t st d)"
proof -
  have "{0, 1, 2} = {0..<3 :: int}" by auto
  then show ?thesis unfolding slot_synced_def demo_slot_simps nat_zero_as_int by (simp add: filled_held(1))
qed

section \<open>Properties\<close>

lemma shift_keep_bounds:
  assumes "4 \<le> sl_n_ctx s" "sl_n_ctx s \<le> prompt_n_tokens (sl_prompt s) + 1"
  shows "0 \<le> shift_n_keep cfg t s" "shift_n_keep cfg t s + 3 \<le> prompt_n_tokens (sl_prompt s)"
  using assms by (auto simp: shift_n_keep_def Let_def)

text \<open>
  C21. A context shift keeps a slot in step with the cache, when the request leaves \<open>n_discard\<close> at its default 0 or
  gives a positive one that fits behind the kept tokens (the code does not check it; a negative one writes out of
  bounds, a larger one lets prompt and cache disagree). When a generating slot with text only is full, and shifts are
  enabled, the step keeps the first tokens, drops the discarded block and moves the rest down, in the prompt and in the
  cache alike, so that the cache holds exactly the positions of the new prompt.
\<close>

theorem context_shift_in_step:
  fixes s :: "'f server_slot" and kv :: "('d :: zero) kv_cache"
  assumes "kv_wf kv" "seq_id_ok kv (sl_id s)" "n_pos_per_embd (kv_hparams kv) = 1" "slot_synced kv_held kv s"
    and "sl_state s = SLOT_STATE_GENERATING" "sl_task s = Some t" "\<not> is_parent t" "\<not> is_child t"
    and "sc_ctx_shift cfg" "\<not> sc_has_mctx cfg" "4 \<le> sl_n_ctx s" "sl_n_ctx s \<le> prompt_n_tokens (sl_prompt s) + 1"
    and "td_n_discard (st_data t) = 0 \<or>
      0 < td_n_discard (st_data t) \<and> shift_n_keep cfg t s + td_n_discard (st_data t) \<le> prompt_n_tokens (sl_prompt s)"
  shows "\<exists>s' kv'. shift_slot kv_ops cfg now s (Some kv) = Inr (None, False, s', Some kv') \<and> kv_wf kv' \<and>
    slot_synced kv_held kv' s' \<and> sl_id s' = sl_id s \<and> prompt_n_tokens (sl_prompt s') < prompt_n_tokens (sl_prompt s) \<and>
    tk_tokens (slot_tokens s') = take (nat (shift_n_keep cfg t s)) (tk_tokens (slot_tokens s)) @
      drop (nat (shift_n_keep cfg t s + shift_n_discard cfg t s)) (tk_tokens (slot_tokens s))"
proof -
  note k = shift_keep_bounds [OF assms(11,12), of cfg t]
  have d: "0 < shift_n_discard cfg t s" "shift_n_keep cfg t s + shift_n_discard cfg t s \<le> prompt_n_tokens (sl_prompt s)"
    using k assms(13) by (auto simp: shift_n_discard_def)
  obtain s' kv' where r: "context_shift kv_ops cfg t s (Some kv) = Inr (s', Some kv')" "kv_wf kv'" "slot_synced kv_held kv' s'"
    "sl_id s' = sl_id s" "tk_tokens (slot_tokens s') = take (nat (shift_n_keep cfg t s)) (tk_tokens (slot_tokens s)) @
      drop (nat (shift_n_keep cfg t s + shift_n_discard cfg t s)) (tk_tokens (slot_tokens s))"
    using ks.context_shift_sync [OF assms(1-4) k(1) less_imp_le [OF d(1)] d(2)] by blast
  have "shift_slot kv_ops cfg now s (Some kv) = Inr (None, False, s', Some kv')"
    using r(1) assms by (simp add: shift_slot_def)
  moreover have "prompt_n_tokens (sl_prompt s') < prompt_n_tokens (sl_prompt s)"
    using r(5) k d by (auto simp: prompt_n_tokens_def min_def)
  ultimately show ?thesis using r by blast
qed

theorem context_shift_in_step_witness:
  "\<exists>s' kv'. shift_slot kv_ops demo_config 0 (demo_slot 4 (demo_job [10] 1) SLOT_STATE_GENERATING []) (Some (fill demo_kv)) =
       Inr (None, False, s', Some kv') \<and> tk_tokens (slot_tokens s') = [11, 12] \<and> kv_held kv' 0 = {0, 1}"
proof -
  let ?s = "demo_slot 4 (demo_job [10] 1) SLOT_STATE_GENERATING []"
  have "shift_n_keep demo_config (demo_job [10] 1) ?s = 0" "shift_n_discard demo_config (demo_job [10] 1) ?s = 1"
    by (simp_all add: shift_n_keep_def shift_n_discard_def)
  moreover have "seq_id_ok (fill demo_kv) (sl_id ?s)" using filled_fields(3) by simp
  ultimately obtain s' kv' where r: "shift_slot kv_ops demo_config 0 ?s (Some (fill demo_kv)) = Inr (None, False, s', Some kv')"
    "slot_synced kv_held kv' s'" "sl_id s' = sl_id ?s" "tk_tokens (slot_tokens s') = take (nat 0) [10, 11, 12] @ drop (nat (0 + 1)) [10, 11, 12]"
    using context_shift_in_step [OF filled_wf(1) _ filled_fields(9) demo_slot_synced, of 4 "demo_job [10] 1" SLOT_STATE_GENERATING "[]"
      "demo_job [10] 1" demo_config 0] by auto
  have t: "tk_tokens (slot_tokens s') = [11, 12]" using r(4) by simp
  have "{0..<2 :: int} = {0, 1}" by auto
  then have "kv_held kv' 0 = {0, 1}" using r(2,3) t by (simp add: slot_synced_def prompt_n_tokens_def)
  then show ?thesis using r(1) t by blast
qed

text \<open>A negative number of tokens to discard moves tokens up, past the end of the vector.\<close>

lemma move_loop_overrun:
  "d < 0 \<Longrightarrow> i < length ts \<Longrightarrow> move_loop d [i..<length ts] ts = Inl (Out_of_bounds ''new_tokens[i - n_discard]'')"
proof (induction "length ts - i" arbitrary: i ts)
  case (Suc k)
  show ?case
  proof (cases "int i - d < int (length ts)")
    case True
    then have "Suc i < length ts" using Suc.prems by simp
    moreover have "k = length (ts[nat (int i - d) := ts ! i]) - Suc i" using Suc.hyps(2) by simp
    ultimately show ?thesis
      using Suc.hyps(1) [of "ts[nat (int i - d) := ts ! i]" "Suc i"] Suc.prems True by (simp add: upt_conv_Cons)
  qed (use Suc.prems in \<open>simp add: upt_conv_Cons\<close>)
qed simp

text \<open>
  The number of tokens to discard comes unchecked from the request: with a negative value the
  context shift of a full slot writes outside of the copied token vector.
\<close>

lemma context_shift_negative_discard:
  fixes s :: "'f server_slot" and kv :: "('d :: zero) kv_cache"
  assumes "kv_wf kv" "seq_id_ok kv (sl_id s)" "n_pos_per_embd (kv_hparams kv) = 1" "\<not> tk_has_mtmd (slot_tokens s)"
    and "sl_state s = SLOT_STATE_GENERATING" "sl_task s = Some t" "\<not> is_parent t" "\<not> is_child t"
    and "sc_ctx_shift cfg" "\<not> sc_has_mctx cfg" "4 \<le> sl_n_ctx s" "sl_n_ctx s \<le> prompt_n_tokens (sl_prompt s) + 1"
    and "td_n_discard (st_data t) < 0" "0 \<le> shift_n_keep cfg t s + td_n_discard (st_data t)"
  shows "shift_slot kv_ops cfg now s (Some kv) = Inl (Out_of_bounds ''new_tokens[i - n_discard]'')"
proof -
  let ?k = "shift_n_keep cfg t s" and ?d = "td_n_discard (st_data t)" and ?n = "prompt_n_tokens (sl_prompt s)"
  have d: "shift_n_discard cfg t s = ?d" using assms(13) by (simp add: shift_n_discard_def)
  note k = shift_keep_bounds [OF assms(11,12), of cfg t]
  obtain kv1 where kv1: "kv_seq_rm (sl_id s) ?k (?k + ?d) kv = Inr (True, kv1)" "kv_wf kv1"
    "seq_id_ok kv1 = seq_id_ok kv" "n_pos_per_embd (kv_hparams kv1) = 1"
    using kv.rm_law [OF assms(1,2), of ?k "?k + ?d"] assms(3) by auto
  obtain kv2 where kv2: "kv_seq_add (sl_id s) (?k + ?d) ?n (- ?d) kv1 = Inr kv2"
    using kv.add_law [OF kv1(2), of "sl_id s" "?k + ?d" ?n "- ?d"] kv1(3,4) assms(2) by auto
  have "nat (?k + ?d) < length (tk_tokens (slot_tokens s))" using k assms(13) by (simp add: prompt_n_tokens_def)
  then have "shift_tokens ?k ?d (tk_tokens (slot_tokens s)) = Inl (Out_of_bounds ''new_tokens[i - n_discard]'')"
    using move_loop_overrun [OF assms(13)] assms(14) by (simp add: shift_tokens_def)
  then show ?thesis using assms kv1(1) kv2 d
    by (simp add: shift_slot_def context_shift_def get_text_tokens_def Let_def)
qed

definition demo_full :: "unit server_slot" where
  "demo_full = (demo_slot 4 (demo_job [10] (-1)) SLOT_STATE_GENERATING [])\<lparr>sl_n_ctx := 5,
     sl_prompt := \<lparr>pr_tokens = demo_text [10, 11, 12, 13], pr_data = [], pr_checkpoints = []\<rparr>\<rparr>"

text \<open>
  C13. Starting a prompt reuses what it can and leaves slot, cache and batch in step: for a text
  prompt that fits into the context the start ends without a fault, with the common prefix and
  possibly more of the cached prompt reused but at least one token left. The kept tokens are a
  prefix of the input, the cache holds exactly their positions, and the batch is filled with the
  next tokens of the input at the next positions.
\<close>

theorem prompt_start_in_step:
  fixes s :: "'f server_slot" and kv :: "('d :: zero) kv_cache" and t :: "'f task_data server_task"
  assumes "kv_wf kv" "seq_id_ok kv (sl_id s)" "n_pos_per_embd (kv_hparams kv) = 1"
    and "slot_synced kv_held kv s" "tk_map (slot_tokens s) = []" "prompt_n_tokens (sl_prompt s) \<le> INT32_MAX"
    and "\<not> sc_has_mctx cfg" "can_split cfg t (Some kv)" "td_cache_prompt (st_data t)" "sl_alora_invocation_start s \<le> 0"
    and "tk_tokens (td_tokens (st_data t)) = input" "input \<noteq> []" "LLAMA_TOKEN_NULL \<notin> set input" "int (length input) < sl_n_ctx s"
    and "length batch < nat (sc_n_batch cfg)"
  shows "\<exists>s1 kv1 s2 kv2 k j s3 batch'.
    start_prompt kv_ops set_data cfg now t s (Some kv) = Some (Inr (Start_running, s1, Some kv1)) \<and>
    truncate_memory kv_ops s1 (Some kv1) = Some (Inr (s2, Some kv2)) \<and> kv_wf kv2 \<and>
    min (prefix_loop (tk_tokens (slot_tokens s)) input) (length input - 1) \<le> k \<and> k < j \<and> j \<le> length input \<and>
    tk_tokens (slot_tokens s2) = take k input \<and> kv_held kv2 (nat (sl_id s)) = {0..<int k} \<and>
    fill_loop (nat (sc_n_batch cfg)) dc None (sl_id s) (need_embd t) input (slot_tokens s2) batch = Some (Inr (s3, batch')) \<and>
    tk_tokens s3 = take j input \<and> batch' = batch @ map (\<lambda>i. (input ! i, int i, sl_id s, need_embd t)) [k..<j]"
proof -
  have split: "int (length (tk_tokens (td_tokens (st_data t)))) < sl_n_ctx s" "tk_tokens (td_tokens (st_data t)) \<noteq> []"
    using assms(11,12,14) by simp_all
  obtain s1 kv1 kv2 k where r: "start_prompt kv_ops set_data cfg now t s (Some kv) = Some (Inr (Start_running, s1, Some kv1))"
    "truncate_memory kv_ops s1 (Some kv1) = Some (Inr (s1, Some kv2))" "kv_wf kv2" "slot_synced kv_held kv2 s1"
    "k < length input" "tk_tokens (slot_tokens s1) = take k input" "sl_id s1 = sl_id s"
    "min (prefix_loop (tk_tokens (slot_tokens s)) input) (length input - 1) \<le> k"
    using ks.start_prompt_sync [OF assms(1-5,7,8,6) split(2,1), of set_data now] assms(9,10,11) by blast
  have "\<not> tk_has_mtmd (slot_tokens s1)" "kv_held kv2 (nat (sl_id s)) = {0..<int k}"
    using r(4-7) by (auto simp: slot_synced_def prompt_n_tokens_def)
  moreover from this(1) obtain j where "k \<le> j" "j \<le> length input"
    "fill_loop (nat (sc_n_batch cfg)) dc None (sl_id s) (need_embd t) input (slot_tokens s1) batch =
      Some (Inr ((slot_tokens s1)\<lparr>tk_tokens := take j input\<rparr>, batch @ map (\<lambda>i. (input ! i, int i, sl_id s, need_embd t)) [k..<j]))"
    "k < j"
    using fill_loop_result [of "slot_tokens s1" k input batch "nat (sc_n_batch cfg)" dc None "sl_id s" "need_embd t"]
      r(5,6) assms(13,15) by auto
  ultimately show ?thesis using r by fastforce
qed

theorem prompt_start_in_step_witness:
  "\<exists>s1 kv1 s2 kv2 k. start_prompt kv_ops (\<lambda>_ _ m. (0, m)) demo_config 0 (demo_job [10, 12, 13] 0)
       (demo_slot 10 (demo_job [10, 12, 13] 0) SLOT_STATE_STARTED []) (Some (fill demo_kv)) = Some (Inr (Start_running, s1, Some kv1)) \<and>
     truncate_memory kv_ops s1 (Some kv1) = Some (Inr (s2, Some kv2)) \<and> 1 \<le> k \<and> k < 3 \<and> kv_held kv2 0 = {0..<int k}"
proof -
  let ?t = "demo_job [10, 12, 13] 0"
  let ?s = "demo_slot 10 ?t SLOT_STATE_STARTED []"
  have split: "can_split demo_config ?t (Some (fill demo_kv))" by (simp add: can_split_def)
  have sync: "slot_synced kv_held (fill demo_kv) ?s" by (rule demo_slot_synced)
  have ok: "seq_id_ok (fill demo_kv) (sl_id ?s)" "prompt_n_tokens (sl_prompt ?s) \<le> INT32_MAX"
    using filled_fields(3) by (simp_all add: INT32_MAX_def)
  have p: "tk_map (slot_tokens ?s) = []" "\<not> sc_has_mctx demo_config" "td_cache_prompt (st_data ?t)" "sl_alora_invocation_start ?s \<le> 0"
    "tk_tokens (td_tokens (st_data ?t)) = [10, 12, 13]" "[10, 12, 13 :: int] \<noteq> []" "LLAMA_TOKEN_NULL \<notin> set [10, 12, 13]"
    "int (length [10, 12, 13 :: int]) < sl_n_ctx ?s" "length ([] :: batch_entry list) < nat (sc_n_batch demo_config)"
    by (simp_all add: LLAMA_TOKEN_NULL_def)
  obtain s1 kv1 s2 kv2 k j where
    r: "start_prompt kv_ops (\<lambda>_ _ m. (0, m)) demo_config 0 ?t ?s (Some (fill demo_kv)) = Some (Inr (Start_running, s1, Some kv1))"
    "truncate_memory kv_ops s1 (Some kv1) = Some (Inr (s2, Some kv2))"
    "min (prefix_loop (tk_tokens (slot_tokens ?s)) [10, 12, 13]) (length [10, 12, 13 :: int] - 1) \<le> k" "k < j" "j \<le> length [10, 12, 13 :: int]"
    "kv_held kv2 (nat (sl_id ?s)) = {0..<int k}"
    using prompt_start_in_step [OF filled_wf(1) ok(1) filled_fields(9) sync p(1) ok(2) p(2) split p(3-9),
        where now = 0 and set_data = "\<lambda>_ _ m. (0, m)" and dc = False] by blast
  have "1 \<le> k" "k < 3" using r(3-5) by simp_all
  then show ?thesis using r(1,2,6) by auto
qed

text \<open>
  Restoring a checkpoint keeps one token too many: when the memory has forgotten the window before
  the first token that differs and a checkpoint reaches beyond that token, \<open>n_past\<close> becomes one more
  than the common prefix. The prompt then keeps the token of the old prompt at the place where the
  input differs, and the input's token there is never evaluated.
\<close>

lemma checkpoint_restore_overshoots:
  fixes s :: "'f server_slot" and t :: "'f task_data server_task"
  assumes "\<not> tk_has_mtmd (slot_tokens s)" "tk_tokens (slot_tokens s) = old" "tk_tokens (td_tokens (st_data t)) = input"
    and "prefix_loop old input = c" "0 < c" "c < length old" "c + 1 < length input" "int (length input) < sl_n_ctx s"
    and "can_split cfg t (Some m)" "td_cache_prompt (st_data t)" "td_n_cache_reuse (st_data t) \<le> 0" "sl_alora_invocation_start s \<le> 0"
    and "mo_seq_pos_min ops (sl_id s) m = Inr p" "max 0 (int c - max 1 (sc_n_swa cfg)) < p"
    and "find (\<lambda>x. cp_pos_min x < max 0 (int c - max 1 (sc_n_swa cfg))) (rev (pr_checkpoints (sl_prompt s))) = Some cp"
    and "int c \<le> cp_pos_max cp" "set_data (cp_data cp) (sl_id s) (Some m) = (length (cp_data cp), mem')"
  shows "\<exists>s'. start_prompt ops set_data cfg now t s (Some m) = Some (Inr (Start_running, s', mem')) \<and>
    tk_tokens (slot_tokens s') = take (c + 1) old \<and> take (c + 1) old \<noteq> take (c + 1) input"
proof -
  let ?s = "s\<lparr>sl_state := SLOT_STATE_PROCESSING_PROMPT\<rparr>"
  have differ: "old ! c \<noteq> input ! c"
    using assms(4,6,7) by (induction old input arbitrary: c rule: prefix_loop.induct) (auto split: if_splits)
  have "take (c + 1) old ! c \<noteq> take (c + 1) input ! c" using differ by simp
  then have ne: "take (c + 1) old \<noteq> take (c + 1) input" by metis
  have rc: "reuse_cached ops cfg t ?s (Some m) = Some (Inr (slot_tokens s, Some m, c))"
    using assms by (simp add: reuse_cached_def get_common_prefix_def)
  have pn: "pos_next (int c) (slot_tokens s) = Some (Inr (int c))" using assms(1) by (simp add: pos_next_def)
  have sz: "size_up_to_pos (int c) (slot_tokens s) = Some (c + 1)" using assms(1,2,6) by (simp add: size_up_to_pos_def)
  have "restore_checkpoint set_data (sl_id s) (int c) (max 0 (int c - max 1 (sc_n_swa cfg))) (sl_prompt s) (Some m) = Some (c + 1, mem')"
    using assms(15-17) sz by (simp add: restore_checkpoint_def min_absorb1)
  moreover have "set_tokens (slot_tokens s) ?s = ?s" by (simp add: set_tokens_def)
  ultimately obtain s1 where s1: "choose_n_past ops set_data cfg t ?s (Some m) = Some (Inr (c + 1, s1, mem'))"
    "slot_tokens s1 = slot_tokens s"
    using rc pn assms(2,5,6,13,14) by (auto simp: choose_n_past_def prompt_n_tokens_def Let_def)
  have kf: "keep_first (c + 1) (slot_tokens s1) = Inr ((slot_tokens s)\<lparr>tk_tokens := take (c + 1) old\<rparr>)"
    using s1(2) assms(1,2,6) by (simp add: keep_first_def)
  show ?thesis using s1 kf assms(3,7,8,9) ne by (auto simp: start_prompt_def Let_def)
qed

text \<open>A memory that has forgotten the positions below 3, with a checkpoint of 0 to 5.\<close>

definition demo_forgetful :: "unit memory_ops" where
  "demo_forgetful = \<lparr>mo_can_shift = (\<lambda>_. False), mo_seq_rm = (\<lambda>_ _ _ m. Inr (True, m)), mo_seq_cp = (\<lambda>_ _ _ _ m. Inr m),
     mo_seq_add = (\<lambda>_ _ _ _ m. Inr m), mo_seq_pos_min = (\<lambda>_ _. Inr 3), mo_seq_pos_max = (\<lambda>_ _. Inr 5)\<rparr>"

definition demo_old :: "unit server_slot" where
  "demo_old = (demo_slot 10 (demo_job [1] 0) SLOT_STATE_STARTED [])\<lparr>sl_prompt :=
     \<lparr>pr_tokens = demo_text [1, 2, 3, 4, 5, 6], pr_data = [],
      pr_checkpoints = [\<lparr>cp_pos_min = 0, cp_pos_max = 5, cp_n_tokens = 6, cp_data = [0]\<rparr>]\<rparr>\<rparr>"

definition demo_new :: "unit task_data server_task" where
  "demo_new = Server_task 7 0 (-1) 0 (-1) SERVER_TASK_TYPE_COMPLETION
     ((st_data (demo_job [1, 2, 3, 4, 9, 9, 9] 0))\<lparr>td_n_cache_reuse := 0\<rparr>) []"

text \<open>
  C30. Accepting a draft keeps a slot in step with the cache: the drafted tokens are taken back, the
  accepted ones become the end of the prompt, the last sampled token is kept for the next batch,
  and the cache holds exactly the positions of the new prompt.
\<close>

theorem accept_draft_in_step:
  fixes s :: "'f server_slot" and kv :: "('d :: zero) kv_cache"
  assumes "kv_wf kv" "seq_id_ok kv (sl_id s)" "slot_synced kv_held kv s"
    and "length (sl_drafted s) \<le> length (tk_tokens (slot_tokens s))" "ids \<noteq> []" "length ids - 1 \<le> length (sl_drafted s)"
    and "prompt_n_tokens (sl_prompt s) \<le> INT32_MAX"
  shows "\<exists>s' kv'. accept_draft kv_ops ids s (Some kv) = Inr (s', Some kv') \<and> kv_wf kv' \<and> slot_synced kv_held kv' s' \<and>
    tk_tokens (slot_tokens s') =
      take (length (tk_tokens (slot_tokens s)) - length (sl_drafted s)) (tk_tokens (slot_tokens s)) @ butlast ids \<and>
    sl_sampled s' = last ids \<and> sl_drafted s' = []"
  using ks.accept_draft_sync [OF assms] by blast

theorem accept_draft_in_step_witness:
  "\<exists>s' kv'. accept_draft kv_ops [11, 20] (demo_slot 10 (demo_job [10] 0) SLOT_STATE_GENERATING [11, 12]) (Some (fill demo_kv)) =
       Inr (s', Some kv') \<and> tk_tokens (slot_tokens s') = [10, 11] \<and> sl_sampled s' = 20"
proof -
  let ?s = "demo_slot 10 (demo_job [10] 0) SLOT_STATE_GENERATING [11, 12]"
  have "seq_id_ok (fill demo_kv) (sl_id ?s)" using filled_fields(3) by simp
  from accept_draft_in_step [OF filled_wf(1) this demo_slot_synced, of "[11, 20]"] show ?thesis
    by (fastforce simp: INT32_MAX_def)
qed

text \<open>
  C29. Copying a processed prompt to a waiting slot leaves both slots in step with the cache: the copy
  has the prompt of the original, and the cache holds its positions for both sequences, whatever
  the target slot held before.
\<close>

theorem copy_state_in_step:
  fixes s oth :: "'f server_slot" and kv :: "('d :: zero) kv_cache"
  assumes "kv_wf kv" "seq_id_ok kv (sl_id s)" "seq_id_ok kv (sl_id oth)" "sl_id s \<noteq> sl_id oth" "slot_synced kv_held kv s"
    and "sl_state s = SLOT_STATE_DONE_PROMPT" "kv_held kv (nat (sl_id oth)) \<subseteq> {..<INT32_MAX}"
    and "prompt_n_tokens (sl_prompt s) \<le> INT32_MAX" "tk_map (slot_tokens s) = []"
  shows "\<exists>s' kv'. copy_state_to kv_ops s oth (Some kv) = Inr (s', Some kv') \<and> kv_wf kv' \<and> slot_synced kv_held kv' s' \<and>
    slot_synced kv_held kv' s \<and> slot_tokens s' = slot_tokens s \<and> sl_id s' = sl_id oth"
  using ks.copy_state_sync [OF assms] by blast

theorem copy_state_in_step_witness:
  "\<exists>s' kv'. copy_state_to kv_ops (demo_slot 10 (demo_job [10] 0) SLOT_STATE_DONE_PROMPT [])
       ((demo_slot 10 (demo_job [10] 0) SLOT_STATE_WAIT_OTHER [])\<lparr>sl_id := 1\<rparr>) (Some (fill demo_kv)) = Inr (s', Some kv') \<and>
     slot_synced kv_held kv' s' \<and> sl_id s' = 1"
proof -
  let ?s = "demo_slot 10 (demo_job [10] 0) SLOT_STATE_DONE_PROMPT []"
  let ?o = "(demo_slot 10 (demo_job [10] 0) SLOT_STATE_WAIT_OTHER [])\<lparr>sl_id := 1\<rparr>"
  have "seq_id_ok (fill demo_kv) (sl_id ?s)" "seq_id_ok (fill demo_kv) (sl_id ?o)" "kv_held (fill demo_kv) (nat (sl_id ?o)) \<subseteq> {..<INT32_MAX}"
    using filled_fields(3,4) filled_held(2) by simp_all
  from copy_state_in_step [OF filled_wf(1) this(1,2) _ demo_slot_synced _ this(3)] show ?thesis
    by (fastforce simp: INT32_MAX_def)
qed

end
