(* ===== verification/ServerStream.thy ===== *)
theory ServerStream
  imports ServerSlot
begin

text \<open>
  The text of a generating slot (\<open>process_token\<close> and \<open>find_stopping_strings\<close> of
  \<open>tools/server/server-context.cpp\<close>, \<open>validate_utf8\<close> of \<open>server-common.cpp\<close>,
  \<open>string_find_partial_stop\<close> of \<open>common/common.h\<close>): the pieces of the tokens are collected, text that
  may become a stop word is held back, a stop word cuts the text, and the limits stop the slot.
\<close>

section \<open>Searching\<close>

text \<open>The length of the text without a character that is cut off at its end.\<close>

definition utf8_needs :: "char \<Rightarrow> nat" where
  "utf8_needs ch =
    (let c = (of_char ch :: nat)
     in if c div 32 = 6 then 2 else if c div 16 = 14 then 3 else if c div 8 = 30 then 4 else 0)"

definition validate_utf8 :: "string \<Rightarrow> nat" where
  "validate_utf8 text =
    (case find (\<lambda>i. i < utf8_needs (text ! (length text - i))) [1..<Suc (min 4 (length text))] of
       Some i \<Rightarrow> length text - i
     | None \<Rightarrow> length text)"

definition str_find :: "string \<Rightarrow> string \<Rightarrow> nat \<Rightarrow> nat option" where
  "str_find text word from_pos =
    (if length word \<le> length text
     then find (\<lambda>i. take (length word) (drop i text) = word) [from_pos..<Suc (length text - length word)]
     else None)"

definition string_ends_with :: "string \<Rightarrow> string \<Rightarrow> bool" where
  "string_ends_with str suffix \<longleftrightarrow> length str \<ge> length suffix \<and> drop (length str - length suffix) str = suffix"

definition string_find_partial_stop :: "string \<Rightarrow> string \<Rightarrow> nat option" where
  "string_find_partial_stop str stop =
    (if str \<noteq> [] \<and> stop \<noteq> [] then
       map_option (\<lambda>len. length str - len)
         (find (\<lambda>len. stop ! (len - 1) = last str \<and> string_ends_with str (take len stop))
            (rev [1..<Suc (min (length str) (length stop))]))
     else None)"

text \<open>The earliest position over all stop words; a full match marks the slot as stopped.\<close>

fun stop_loop ::
    "string \<Rightarrow> nat \<Rightarrow> bool \<Rightarrow> string list \<Rightarrow> nat option \<Rightarrow> 'f server_slot \<Rightarrow> nat option \<times> 'f server_slot" where
  "stop_loop text last_token_size is_full_stop [] stop_pos s = (stop_pos, s)"
| "stop_loop text last_token_size is_full_stop (word # words) stop_pos s =
    (let pos = (if is_full_stop
                then let tmp = length word + last_token_size
                     in str_find text word (if length text > tmp then length text - tmp else 0)
                else string_find_partial_stop text word)
     in if (case pos of None \<Rightarrow> False | Some p \<Rightarrow> (case stop_pos of None \<Rightarrow> True | Some q \<Rightarrow> p < q))
        then stop_loop text last_token_size is_full_stop words pos
               (if is_full_stop then s\<lparr>sl_stop := STOP_TYPE_WORD, sl_stopping_word := word, sl_has_next_token := False\<rparr> else s)
        else stop_loop text last_token_size is_full_stop words stop_pos s)"

definition find_stopping_strings ::
    "string list \<Rightarrow> string \<Rightarrow> nat \<Rightarrow> bool \<Rightarrow> 'f server_slot \<Rightarrow> nat option \<times> 'f server_slot" where
  "find_stopping_strings antiprompt text last_token_size is_full_stop s =
     stop_loop text last_token_size is_full_stop antiprompt None s"

section \<open>Processing a token\<close>

text \<open>The new text: what is sent for the token, if its end is not cut off, and the slot.\<close>

definition update_text ::
    "(llama_token \<Rightarrow> bool) \<Rightarrow> 'f task_data server_task \<Rightarrow> llama_token \<Rightarrow> string \<Rightarrow> 'f server_slot \<Rightarrow>
     string option \<times> 'f server_slot" where
  "update_text is_eog t tok token_str s =
    (let s1 = s\<lparr>sl_sampled := tok, sl_generated_text := sl_generated_text s @ token_str,
                sl_generated_tokens := (if td_return_tokens (st_data t) then sl_generated_tokens s @ [tok] else sl_generated_tokens s),
                sl_has_next_token := True\<rparr>;
         text = sl_generated_text s1
     in if validate_utf8 text < length text then (None, s1)
        else
          let pos = min (sl_n_sent_text s1) (length text);
              str_test = drop pos text
          in case find_stopping_strings (td_antiprompt (st_data t)) str_test (length token_str) True s1 of
               (Some stop_pos, s2) \<Rightarrow>
                 let s3 = s2\<lparr>sl_generated_text := take (pos + stop_pos) text\<rparr>;
                     pos' = min (sl_n_sent_text s3) (length (sl_generated_text s3));
                     out = drop pos' (sl_generated_text s3)
                 in (Some out, s3\<lparr>sl_n_sent_text := sl_n_sent_text s3 + length out\<rparr>)
             | (None, s2) \<Rightarrow>
                 if sl_has_next_token s2 \<and> \<not> is_eog tok \<and>
                    fst (find_stopping_strings (td_antiprompt (st_data t)) str_test (length token_str) False s2) \<noteq> None
                 then (Some '''', s2)
                 else (Some (drop pos text), s2\<lparr>sl_n_sent_text := sl_n_sent_text s2 + length (drop pos text)\<rparr>))"

fun count_indent :: "string \<Rightarrow> nat" where
  "count_indent (c # cs) = (if c = CHR '' '' \<or> c = CHR 0x09 then Suc (count_indent cs) else 0)"
| "count_indent [] = 0"

text \<open>The indentation limit after a new line, for tasks that ask for it.\<close>

definition check_indent :: "'f task_data server_task \<Rightarrow> 'f server_slot \<Rightarrow> 'f server_slot" where
  "check_indent t s =
    (if sl_has_new_line s \<and> td_n_indent (st_data t) > 0 then
       let s1 = (if sl_last_nl_pos s > 0 then
                   let n = count_indent (drop (sl_last_nl_pos s) (sl_generated_text s));
                       pos = sl_last_nl_pos s + n
                   in if pos < length (sl_generated_text s) \<and> int n < td_n_indent (st_data t)
                      then s\<lparr>sl_stop := STOP_TYPE_LIMIT, sl_has_next_token := False,
                             sl_generated_text := take pos (sl_generated_text s)\<rparr>
                      else s
                 else s)
       in (case str_find (sl_generated_text s1) [CHR 0x0A] (sl_last_nl_pos s1) of
             Some p \<Rightarrow> s1\<lparr>sl_last_nl_pos := p + 1\<rparr>
           | None \<Rightarrow> s1)
     else s)"

text \<open>
  The limits. \<open>text_to_send\<close> is the result's text after the update: the token's own text when the
  update was held back; \<open>elapsed_us\<close> is the time since the generation started.
\<close>

definition check_limits ::
    "bool \<Rightarrow> int \<Rightarrow> (llama_token \<Rightarrow> bool) \<Rightarrow> int \<Rightarrow> 'f task_data server_task \<Rightarrow> llama_token \<Rightarrow> string \<Rightarrow>
     'f server_slot \<Rightarrow> 'f server_slot" where
  "check_limits ctx_shift global_n_predict is_eog elapsed_us t tok text_to_send s =
    (let s1 = (if \<not> ctx_shift \<and> prompt_n_tokens (sl_prompt s) + 1 \<ge> sl_n_ctx s
               then s\<lparr>sl_truncated := True, sl_stop := STOP_TYPE_LIMIT, sl_has_next_token := False\<rparr> else s);
         s2 = (if sl_n_decoded s1 > 0 \<and> sl_has_next_token s1
               then (case has_budget global_n_predict t s1 of (budget, s') \<Rightarrow>
                       if budget then s' else s'\<lparr>sl_stop := STOP_TYPE_LIMIT, sl_has_next_token := False\<rparr>)
               else s1);
         s3 = check_indent t s2;
         s4 = (if CHR 0x0A \<in> set text_to_send
               then let s' = s3\<lparr>sl_has_new_line := True\<rparr>
                    in if td_t_max_predict_ms (st_data t) > 0 \<and> elapsed_us > 1000 * td_t_max_predict_ms (st_data t)
                       then s'\<lparr>sl_stop := STOP_TYPE_LIMIT, sl_has_next_token := False\<rparr> else s'
               else s3)
     in if is_eog tok then s4\<lparr>sl_stop := STOP_TYPE_EOS, sl_has_next_token := False\<rparr> else s4)"

text \<open>What the client is sent, whether the slot goes on, and the slot.\<close>

definition process_token ::
    "bool \<Rightarrow> int \<Rightarrow> (llama_token \<Rightarrow> bool) \<Rightarrow> int \<Rightarrow> 'f task_data server_task \<Rightarrow> llama_token \<Rightarrow> string \<Rightarrow>
     'f server_slot \<Rightarrow> string option \<times> bool \<times> 'f server_slot" where
  "process_token ctx_shift global_n_predict is_eog elapsed_us t tok token_str s =
    (case update_text is_eog t tok token_str s of (out, s1) \<Rightarrow>
       let s2 = check_limits ctx_shift global_n_predict is_eog elapsed_us t tok
                  (case out of Some x \<Rightarrow> x | None \<Rightarrow> token_str) s1
       in (out, sl_has_next_token s2, s2))"

text \<open>The sampled tokens with their texts and times, until the slot stops.\<close>

fun generate ::
    "bool \<Rightarrow> int \<Rightarrow> (llama_token \<Rightarrow> bool) \<Rightarrow> 'f task_data server_task \<Rightarrow> (llama_token \<times> string \<times> int) list \<Rightarrow>
     'f server_slot \<Rightarrow> string list \<times> 'f server_slot" where
  "generate ctx_shift np is_eog t [] s = ([], s)"
| "generate ctx_shift np is_eog t ((tok, str, us) # es) s =
    (case process_token ctx_shift np is_eog us t tok str (s\<lparr>sl_n_decoded := sl_n_decoded s + 1\<rparr>) of (out, go, s') \<Rightarrow>
       let piece = (case out of Some x \<Rightarrow> [x] | None \<Rightarrow> [])
       in if go then (case generate ctx_shift np is_eog t es s' of (ps, s'') \<Rightarrow> (piece @ ps, s''))
          else (piece, s'))"

section \<open>The search finds the first match\<close>

definition occurs_at :: "string \<Rightarrow> string \<Rightarrow> nat \<Rightarrow> bool" where
  "occurs_at w text i \<longleftrightarrow> i + length w \<le> length text \<and> take (length w) (drop i text) = w"

lemma find_upt_Some:
  assumes "find P [a..<b] = Some i"
  shows "a \<le> i \<and> i < b \<and> P i \<and> (\<forall>j. a \<le> j \<and> j < i \<longrightarrow> \<not> P j)"
proof -
  obtain k where k: "k < b - a" "P (a + k)" "i = a + k" "\<forall>j < k. \<not> P (a + j)"
    using assms by (auto simp: find_Some_iff)
  have "\<not> P j" if "a \<le> j" "j < i" for j using k(3,4) that by (auto dest: spec [of _ "j - a"])
  then show ?thesis using k by auto
qed

lemma str_find_Some:
  "str_find text w k = Some i \<Longrightarrow> k \<le> i \<and> occurs_at w text i \<and> (\<forall>j. k \<le> j \<and> j < i \<longrightarrow> \<not> occurs_at w text j)"
  unfolding str_find_def occurs_at_def by (auto dest!: find_upt_Some simp del: upt_Suc split: if_splits)

lemma str_find_None: "str_find text w k = None \<Longrightarrow> k \<le> i \<Longrightarrow> \<not> occurs_at w text i"
  by (auto simp: str_find_def find_None_iff occurs_at_def split: if_splits)

text \<open>Where one stop word is found, as the loop looks for it.\<close>

definition word_pos :: "string \<Rightarrow> nat \<Rightarrow> bool \<Rightarrow> string \<Rightarrow> nat option" where
  "word_pos text k full w =
    (if full then str_find text w (if length text > length w + k then length text - (length w + k) else 0)
     else string_find_partial_stop text w)"

lemma stop_loop_Cons:
  "stop_loop text k full (w # ws) sp s =
    (if (case word_pos text k full w of None \<Rightarrow> False | Some p \<Rightarrow> (case sp of None \<Rightarrow> True | Some q \<Rightarrow> p < q))
     then stop_loop text k full ws (word_pos text k full w)
            (if full then s\<lparr>sl_stop := STOP_TYPE_WORD, sl_stopping_word := w, sl_has_next_token := False\<rparr> else s)
     else stop_loop text k full ws sp s)"
  by (simp add: word_pos_def Let_def)

lemma stop_loop_result:
  "stop_loop text k full ws sp s = (r, s') \<Longrightarrow>
     (r = None \<longleftrightarrow> sp = None \<and> (\<forall>w \<in> set ws. word_pos text k full w = None)) \<and>
     (\<forall>p. r = Some p \<longrightarrow> (sp = Some p \<or> (\<exists>w \<in> set ws. word_pos text k full w = Some p)) \<and>
        (\<forall>w \<in> set ws. \<forall>q. word_pos text k full w = Some q \<longrightarrow> p \<le> q) \<and> (\<forall>q. sp = Some q \<longrightarrow> p \<le> q))"
proof (induction ws arbitrary: sp s)
  case (Cons w ws)
  show ?case
  proof (cases "case word_pos text k full w of None \<Rightarrow> False | Some p \<Rightarrow> (case sp of None \<Rightarrow> True | Some q \<Rightarrow> p < q)")
    case True
    then obtain p where p: "word_pos text k full w = Some p" "sp = None \<or> (\<exists>q. sp = Some q \<and> p < q)"
      by (auto split: option.splits)
    have "stop_loop text k full ws (Some p)
        (if full then s\<lparr>sl_stop := STOP_TYPE_WORD, sl_stopping_word := w, sl_has_next_token := False\<rparr> else s) = (r, s')"
      using Cons.prems True p(1) by (simp add: stop_loop_Cons del: stop_loop.simps)
    from Cons.IH [OF this] show ?thesis using p by fastforce
  next
    case False
    then have "stop_loop text k full ws sp s = (r, s')" using Cons.prems by (simp add: stop_loop_Cons del: stop_loop.simps)
    from Cons.IH [OF this] show ?thesis using False by (auto split: option.splits)
  qed
qed simp

lemma stop_loop_slot:
  "stop_loop text k full ws sp s = (r, s') \<Longrightarrow>
     sl_generated_text s' = sl_generated_text s \<and> sl_n_sent_text s' = sl_n_sent_text s \<and>
     (r = None \<longrightarrow> s' = s) \<and> (full \<and> r \<noteq> sp \<longrightarrow> \<not> sl_has_next_token s') \<and>
     (sl_has_next_token s' \<longrightarrow> sl_has_next_token s)"
proof (induction ws arbitrary: sp s)
  case (Cons w ws)
  show ?case
  proof (cases "case word_pos text k full w of None \<Rightarrow> False | Some p \<Rightarrow> (case sp of None \<Rightarrow> True | Some q \<Rightarrow> p < q)")
    case True
    then obtain p where p: "word_pos text k full w = Some p" by (auto split: option.splits)
    have "stop_loop text k full ws (Some p)
        (if full then s\<lparr>sl_stop := STOP_TYPE_WORD, sl_stopping_word := w, sl_has_next_token := False\<rparr> else s) = (r, s')"
      using Cons.prems True p(1) by (simp add: stop_loop_Cons del: stop_loop.simps)
    from Cons.IH [OF this] stop_loop_result [OF this] show ?thesis by (cases full) auto
  next
    case False
    then have "stop_loop text k full ws sp s = (r, s')" using Cons.prems by (simp add: stop_loop_Cons del: stop_loop.simps)
    from Cons.IH [OF this] show ?thesis .
  qed
qed simp

lemma partial_stop_None:
  assumes "string_find_partial_stop text w = None" "0 < n" "n \<le> length text" "n \<le> length w"
  shows "drop (length text - n) text \<noteq> take n w"
proof
  assume e: "drop (length text - n) text = take n w"
  have "text \<noteq> []" "w \<noteq> []" using assms by auto
  have "last text = last (drop (length text - n) text)" using assms by (simp add: last_drop)
  also have "\<dots> = w ! (n - 1)" unfolding e using assms by (subst last_conv_nth) (auto simp: min_absorb2)
  finally have "w ! (n - 1) = last text" by simp
  moreover have "string_ends_with text (take n w)" using e assms by (simp add: string_ends_with_def min_absorb2)
  moreover have "n \<in> set (rev [1..<Suc (min (length text) (length w))])" using assms by auto
  ultimately show False using assms(1) \<open>text \<noteq> []\<close> \<open>w \<noteq> []\<close>
    by (auto simp: string_find_partial_stop_def find_None_iff simp del: upt_Suc)
qed

section \<open>What is sent\<close>

text \<open>
  \<open>clean W g n\<close>: no stop word occurs in the text \<open>g\<close>, \<open>n\<close> characters of it are sent, and no end of the
  sent part is the beginning of a stop word that later text could complete.
\<close>

definition clean :: "string set \<Rightarrow> string \<Rightarrow> nat \<Rightarrow> bool" where
  "clean W g n \<longleftrightarrow> n \<le> length g \<and> (\<forall>w \<in> W. \<forall>i. \<not> occurs_at w g i) \<and>
     (\<forall>w \<in> W. \<forall>i < n. n - i < length w \<longrightarrow> take (n - i) w \<noteq> drop i (take n g))"

lemma occurs_at_drop: "n \<le> i \<Longrightarrow> occurs_at w text i \<Longrightarrow> occurs_at w (drop n text) (i - n)"
  by (auto simp: occurs_at_def)

lemma occurs_at_take: "occurs_at w (take n g) i \<Longrightarrow> occurs_at w g i"
  by (auto simp: occurs_at_def drop_take min_def split: if_splits)

lemma drop_end: "n \<le> i \<Longrightarrow> i \<le> length h \<Longrightarrow> drop (length (drop n h) - (length h - i)) (drop n h) = drop i h"
  by (simp add: diff_diff_eq2)

text \<open>A new occurrence lies behind the sent part and ends in the new text: the search looks there.\<close>

lemma new_occurrence:
  assumes c: "clean W g n" and w: "w \<in> W" and o: "occurs_at w (g @ str) i"
  shows "n \<le> i \<and> length g < i + length w"
proof -
  have gn: "n \<le> length g" using c by (simp add: clean_def)
  have new: "length g < i + length w"
  proof (rule ccontr)
    assume "\<not> ?thesis"
    then have "occurs_at w g i" using o by (simp add: occurs_at_def)
    then show False using c w by (auto simp: clean_def)
  qed
  have "n \<le> i"
  proof (rule ccontr)
    assume i: "\<not> ?thesis"
    have "take (n - i) w = take (n - i) (take (length w) (drop i (g @ str)))" using o by (simp add: occurs_at_def)
    also have "\<dots> = drop i (take n g)" using i gn new by (simp add: take_drop min_absorb1)
    finally have "take (n - i) w = drop i (take n g)" .
    then show False using c w i new gn by (auto simp: clean_def)
  qed
  then show ?thesis using new by simp
qed

lemma word_pos_new:
  assumes c: "clean W g n" and w: "w \<in> W" and o: "occurs_at w (g @ str) i"
  shows "\<exists>q \<le> i - n. word_pos (drop n (g @ str)) (length str) True w = Some q"
proof -
  let ?t = "drop n (g @ str)"
  let ?k = "if length ?t > length w + length str then length ?t - (length w + length str) else 0"
  have i: "n \<le> i" "length g < i + length w" using new_occurrence [OF assms] by auto
  have oi: "occurs_at w ?t (i - n)" using o i(1) occurs_at_drop by blast
  moreover have k: "?k \<le> i - n" using i c by (auto simp: clean_def)
  ultimately have "str_find ?t w ?k \<noteq> None" using str_find_None by blast
  then obtain q where q: "str_find ?t w ?k = Some q" by blast
  have "q \<le> i - n" using str_find_Some [OF q] oi k by (meson linorder_not_less)
  moreover have "word_pos ?t (length str) True w = Some q" using q by (simp only: word_pos_def if_True)
  ultimately show ?thesis by blast
qed

text \<open>No stop word found: the text stays clean whether it is held back or sent.\<close>

lemma clean_hold:
  assumes "clean W g n" and "\<forall>w \<in> W. word_pos (drop n (g @ str)) (length str) True w = None"
  shows "clean W (g @ str) n"
  using assms word_pos_new [OF assms(1)] by (fastforce simp: clean_def)

lemma clean_send:
  assumes c: "clean W g n" and f: "\<forall>w \<in> W. word_pos (drop n (g @ str)) (length str) True w = None"
    and p: "\<forall>w \<in> W. word_pos (drop n (g @ str)) (length str) False w = None"
  shows "clean W (g @ str) (length (g @ str))"
proof -
  let ?g = "g @ str"
  have "take (length ?g - i) w \<noteq> drop i ?g" if w: "w \<in> W" and i: "i < length ?g" "length ?g - i < length w" for w i
  proof (cases "n \<le> i")
    case True
    have "drop (length (drop n ?g) - (length ?g - i)) (drop n ?g) = drop i ?g"
      by (rule drop_end) (use True i in auto)
    moreover have "string_find_partial_stop (drop n ?g) w = None" using p w by (simp add: word_pos_def)
    moreover have "0 < length ?g - i" "length ?g - i \<le> length (drop n ?g)" "length ?g - i \<le> length w" using True i by auto
    ultimately show ?thesis using partial_stop_None [of "drop n ?g" w "length ?g - i"] by metis
  next
    case False
    have gn: "n \<le> length g" using c by (simp add: clean_def)
    have "take (n - i) (drop i ?g) = drop i (take n g)" using False gn by (simp add: take_drop min_absorb1)
    moreover have "take (n - i) w \<noteq> drop i (take n g)" using c w False i gn by (auto simp: clean_def)
    moreover have "take (n - i) (take (length ?g - i) w) = take (n - i) w" using gn by (simp add: min_absorb1)
    ultimately show ?thesis by metis
  qed
  then show ?thesis using clean_hold [OF c f] by (auto simp: clean_def)
qed

text \<open>A stop word found: the text before its first occurrence has none.\<close>

lemma clean_cut:
  assumes c: "clean W g n" and ne: "\<forall>w \<in> W. w \<noteq> []"
    and p: "\<forall>w \<in> W. \<forall>q. word_pos (drop n (g @ str)) (length str) True w = Some q \<longrightarrow> p \<le> q"
    and w: "w \<in> W"
  shows "\<not> occurs_at w (take (n + p) (g @ str)) i"
proof
  assume o: "occurs_at w (take (n + p) (g @ str)) i"
  then have o': "occurs_at w (g @ str) i" by (rule occurs_at_take)
  have "i + length w \<le> length (take (n + p) (g @ str))" using o unfolding occurs_at_def by blast
  then have len: "i + length w \<le> n + p" by (metis le_trans length_take min.cobounded2)
  obtain q where "q \<le> i - n" "p \<le> q" using word_pos_new [OF c w o'] p w by blast
  moreover have "n \<le> i" using new_occurrence [OF c w o'] by simp
  ultimately show False using len ne w by (cases w) auto
qed

section \<open>The stream of a slot\<close>

lemma check_indent_off: "td_n_indent (st_data t) \<le> 0 \<Longrightarrow> check_indent t s = s"
  by (simp add: check_indent_def)

lemma has_budget_slot:
  "sl_generated_text (snd (has_budget np t s)) = sl_generated_text s"
  "sl_n_sent_text (snd (has_budget np t s)) = sl_n_sent_text s"
  "sl_has_next_token (snd (has_budget np t s)) = sl_has_next_token s"
  by (simp_all add: has_budget_def Let_def)

lemmas slot_if = if_distrib [of sl_generated_text] if_distrib [of sl_n_sent_text] if_distrib [of sl_has_next_token]

lemma check_limits_text:
  assumes "td_n_indent (st_data t) \<le> 0"
  shows "sl_generated_text (check_limits cs np e us t tok str s) = sl_generated_text s"
    "sl_n_sent_text (check_limits cs np e us t tok str s) = sl_n_sent_text s"
    "sl_has_next_token (check_limits cs np e us t tok str s) \<Longrightarrow> sl_has_next_token s \<and> \<not> e tok"
  unfolding check_limits_def check_indent_off [OF assms] Let_def case_prod_beta
  by (simp_all add: slot_if has_budget_slot split: if_splits)

text \<open>
  One token whose text ends with a complete character: either the slot goes on and the text is
  clean, or it stops and no stop word is in the text; what is sent continues what was sent.
\<close>

lemma update_text_clean:
  fixes s :: "'f server_slot" and t :: "'f task_data server_task"
  assumes c: "clean (set (td_antiprompt (st_data t))) (sl_generated_text s) (sl_n_sent_text s)"
    and ne: "\<forall>w \<in> set (td_antiprompt (st_data t)). w \<noteq> []"
    and v: "validate_utf8 (sl_generated_text s @ str) = length (sl_generated_text s @ str)"
    and u: "update_text e t tok str s = (out, s')"
  shows "\<exists>x. out = Some x \<and>
    take (sl_n_sent_text s') (sl_generated_text s') = take (sl_n_sent_text s) (sl_generated_text s) @ x \<and>
    (\<forall>w \<in> set (td_antiprompt (st_data t)). \<forall>i. \<not> occurs_at w (sl_generated_text s') i) \<and>
    (sl_has_next_token s' \<and> \<not> e tok \<longrightarrow> clean (set (td_antiprompt (st_data t))) (sl_generated_text s') (sl_n_sent_text s'))"
proof -
  let ?W = "td_antiprompt (st_data t)" and ?g = "sl_generated_text s" and ?n = "sl_n_sent_text s"
  let ?h = "?g @ str" and ?t = "drop ?n (?g @ str)"
  define s1 where "s1 = s\<lparr>sl_sampled := tok, sl_generated_text := ?h,
    sl_generated_tokens := (if td_return_tokens (st_data t) then sl_generated_tokens s @ [tok] else sl_generated_tokens s),
    sl_has_next_token := True\<rparr>"
  have s1: "sl_generated_text s1 = ?h" "sl_n_sent_text s1 = ?n" "sl_has_next_token s1" by (simp_all add: s1_def)
  have n: "?n \<le> length ?g" using c by (simp add: clean_def)
  then have pos: "min ?n (length ?h) = ?n" by simp
  obtain r s2 where f: "find_stopping_strings ?W ?t (length str) True s1 = (r, s2)" by force
  note res = stop_loop_result [OF f [unfolded find_stopping_strings_def]]
  note sl = stop_loop_slot [OF f [unfolded find_stopping_strings_def]]
  show ?thesis
  proof (cases r)
    case (Some p)
    have p: "\<forall>w \<in> set ?W. \<forall>q. word_pos ?t (length str) True w = Some q \<longrightarrow> p \<le> q"
      and "\<exists>w \<in> set ?W. word_pos ?t (length str) True w = Some p" using res Some by auto
    then obtain w where "word_pos ?t (length str) True w = Some p" by blast
    then have "p \<le> length ?t" by (auto simp: word_pos_def occurs_at_def dest!: str_find_Some split: if_splits)
    then have len: "?n + p \<le> length ?h" using n by simp
    have "out = Some (drop ?n (take (?n + p) ?h))" "sl_generated_text s' = take (?n + p) ?h" "sl_n_sent_text s' = ?n + p"
      "\<not> sl_has_next_token s'"
      using u f Some s1 sl v pos len by (auto simp: update_text_def s1_def [symmetric] min_absorb1 Let_def)
    moreover have "take (?n + p) (take (?n + p) ?h) = take ?n ?g @ drop ?n (take (?n + p) ?h)"
    proof -
      have "take ?n h @ drop ?n (take (?n + p) h) = take (?n + p) h" for h :: string
        using append_take_drop_id [of ?n "take (?n + p) h"] by (simp add: min_absorb1)
      moreover have "take ?n ?g = take ?n ?h" using n by simp
      moreover have "take (?n + p) (take (?n + p) h) = take (?n + p) h" for h :: string by simp
      ultimately show ?thesis by metis
    qed
    ultimately show ?thesis using clean_cut [OF c ne p] by auto
  next
    case None
    have w: "\<forall>w \<in> set ?W. word_pos ?t (length str) True w = None" and s2: "s2 = s1" using res sl None by auto
    obtain r' s3 where f': "find_stopping_strings ?W ?t (length str) False s2 = (r', s3)" by force
    note res' = stop_loop_result [OF f' [unfolded find_stopping_strings_def]]
    have hold: "clean (set ?W) ?h ?n" by (rule clean_hold [OF c w])
    show ?thesis
    proof (cases "\<not> e tok \<and> r' \<noteq> None")
      case True
      then have "out = Some ''''" "s' = s1" using u f f' None s1 s2 v pos by (auto simp: update_text_def s1_def [symmetric])
      then show ?thesis using hold s1 n by (auto simp: clean_def)
    next
      case False
      then have o: "out = Some ?t" "sl_generated_text s' = ?h" "sl_n_sent_text s' = length ?h"
        using u f f' None s1 s2 v pos n by (auto simp: update_text_def s1_def [symmetric])
      have "\<not> e tok \<Longrightarrow> clean (set ?W) ?h (length ?h)"
        using False res' by (intro clean_send [OF c w]) auto
      moreover have "take (length ?h) ?h = take ?n ?g @ ?t"
      proof -
        have "?h = take ?n ?h @ ?t" by (rule append_take_drop_id [symmetric])
        then show ?thesis using n by simp
      qed
      moreover have "\<forall>w \<in> set ?W. \<forall>i. \<not> occurs_at w ?h i" using hold by (simp add: clean_def)
      ultimately show ?thesis unfolding o(2,3) using o(1) by blast
    qed
  qed
qed

text \<open>The texts of a run whose pieces never end inside of a character.\<close>

fun complete_texts :: "string \<Rightarrow> (llama_token \<times> string \<times> int) list \<Rightarrow> bool" where
  "complete_texts g [] \<longleftrightarrow> True"
| "complete_texts g ((tok, str, us) # es) \<longleftrightarrow>
     validate_utf8 (g @ str) = length (g @ str) \<and> complete_texts (g @ str) es"

lemma update_text_go:
  assumes u: "update_text e t tok str s = (out, s')" and go: "sl_has_next_token s'"
  shows "sl_generated_text s' = sl_generated_text s @ str"
proof -
  define s1 where "s1 = s\<lparr>sl_sampled := tok, sl_generated_text := sl_generated_text s @ str,
    sl_generated_tokens := (if td_return_tokens (st_data t) then sl_generated_tokens s @ [tok] else sl_generated_tokens s),
    sl_has_next_token := True\<rparr>"
  define h where "h = sl_generated_text s @ str"
  define pos where "pos = min (sl_n_sent_text s) (length h)"
  have s1: "sl_generated_text s1 = h" "sl_n_sent_text s1 = sl_n_sent_text s" by (simp_all add: s1_def h_def)
  obtain r s2 where f: "find_stopping_strings (td_antiprompt (st_data t)) (drop pos h) (length str) True s1 = (r, s2)" by force
  note sl = stop_loop_slot [OF f [unfolded find_stopping_strings_def]]
  have "sl_generated_text s' = h"
  proof (cases "validate_utf8 h < length h")
    case True
    then show ?thesis using u s1 by (simp add: update_text_def s1_def [symmetric] Let_def)
  next
    case False
    then show ?thesis
    proof (cases r)
      case (Some p)
      then show ?thesis using u go f s1 sl False
        by (auto simp: update_text_def s1_def [symmetric] pos_def [symmetric] Let_def)
    next
      case None
      then show ?thesis using u f s1 sl False
        by (auto simp: update_text_def s1_def [symmetric] pos_def [symmetric] Let_def split: if_splits)
    qed
  qed
  then show ?thesis by (simp add: h_def)
qed

lemma generate_clean:
  fixes s :: "'f server_slot" and t :: "'f task_data server_task"
  assumes "clean (set (td_antiprompt (st_data t))) (sl_generated_text s) (sl_n_sent_text s)"
    and "\<forall>w \<in> set (td_antiprompt (st_data t)). w \<noteq> []" "td_n_indent (st_data t) \<le> 0"
    and "complete_texts (sl_generated_text s) es" "generate cs np e t es s = (ps, s')"
  shows "take (sl_n_sent_text s') (sl_generated_text s') = take (sl_n_sent_text s) (sl_generated_text s) @ concat ps \<and>
    (\<forall>w \<in> set (td_antiprompt (st_data t)). \<forall>i. \<not> occurs_at w (sl_generated_text s') i)"
  using assms
proof (induction es arbitrary: s ps)
  case Nil
  then show ?case by (auto simp: clean_def)
next
  case (Cons a es)
  obtain tok str us where a: "a = (tok, str, us)" by (cases a)
  let ?s = "s\<lparr>sl_n_decoded := sl_n_decoded s + 1\<rparr>"
  obtain out s1 where u: "update_text e t tok str ?s = (out, s1)" by force
  define s2 where "s2 = check_limits cs np e us t tok (case out of Some x \<Rightarrow> x | None \<Rightarrow> str) s1"
  note lim = check_limits_text [OF Cons.prems(3), of cs np e us tok "case out of Some x \<Rightarrow> x | None \<Rightarrow> str" s1, folded s2_def]
  have v: "validate_utf8 (sl_generated_text ?s @ str) = length (sl_generated_text ?s @ str)" using Cons.prems(4) a by simp
  obtain x where x: "out = Some x"
    "take (sl_n_sent_text s1) (sl_generated_text s1) = take (sl_n_sent_text s) (sl_generated_text s) @ x"
    "\<forall>w \<in> set (td_antiprompt (st_data t)). \<forall>i. \<not> occurs_at w (sl_generated_text s1) i"
    "sl_has_next_token s1 \<and> \<not> e tok \<longrightarrow> clean (set (td_antiprompt (st_data t))) (sl_generated_text s1) (sl_n_sent_text s1)"
    using update_text_clean [OF _ Cons.prems(2) v u] Cons.prems(1) by auto
  have pt: "process_token cs np e us t tok str ?s = (Some x, sl_has_next_token s2, s2)"
    using u x(1) by (simp add: process_token_def s2_def Let_def)
  show ?case
  proof (cases "sl_has_next_token s2")
    case False
    then have "ps = [x]" "s' = s2" using Cons.prems(5) a pt by auto
    then show ?thesis using x lim by simp
  next
    case True
    then have go: "sl_has_next_token s1" "\<not> e tok" using lim(3) by auto
    obtain qs where qs: "generate cs np e t es s2 = (qs, s')" "ps = x # qs"
      using Cons.prems(5) a pt True by (auto split: prod.splits)
    have "complete_texts (sl_generated_text s2) es"
      using Cons.prems(4) a update_text_go [OF u go(1)] lim(1) by simp
    then have "take (sl_n_sent_text s') (sl_generated_text s') = take (sl_n_sent_text s2) (sl_generated_text s2) @ concat qs \<and>
      (\<forall>w \<in> set (td_antiprompt (st_data t)). \<forall>i. \<not> occurs_at w (sl_generated_text s') i)"
      using Cons.IH [of s2 qs] x(4) go lim Cons.prems(2,3) qs(1) by simp
    then show ?thesis using qs(2) x(2) lim by simp
  qed
qed

section \<open>Properties\<close>

text \<open>
  C20. As long as no token ends inside of a UTF-8 character and the check of the indentation is off, the client of a
  stream sees no stop word: for a slot that starts without text, whatever tokens are sampled, the pieces that are sent
  are together the sent part of the generated text, and no stop word occurs in it, not even across
  pieces. A token that ends inside of a character is held back, and a stop word right before it can be missed and sent.
\<close>

theorem stream_hides_stop_words:
  fixes s :: "'f server_slot" and t :: "'f task_data server_task"
  assumes "sl_generated_text s = ''''" "sl_n_sent_text s = 0" "\<forall>w \<in> set (td_antiprompt (st_data t)). w \<noteq> []"
    and "td_n_indent (st_data t) \<le> 0" "complete_texts '''' es" "generate cs np e t es s = (ps, s')"
  shows "concat ps = take (sl_n_sent_text s') (sl_generated_text s') \<and>
    (\<forall>w \<in> set (td_antiprompt (st_data t)). \<forall>i. \<not> occurs_at w (concat ps) i)"
proof -
  have "clean (set (td_antiprompt (st_data t))) (sl_generated_text s) (sl_n_sent_text s)"
    using assms(1-3) by (auto simp: clean_def occurs_at_def)
  then have "take (sl_n_sent_text s') (sl_generated_text s') = take (sl_n_sent_text s) (sl_generated_text s) @ concat ps \<and>
    (\<forall>w \<in> set (td_antiprompt (st_data t)). \<forall>i. \<not> occurs_at w (sl_generated_text s') i)"
    using generate_clean [of t s es cs np e ps s'] assms by simp
  then have "concat ps = take (sl_n_sent_text s') (sl_generated_text s')"
    "\<forall>w \<in> set (td_antiprompt (st_data t)). \<forall>i. \<not> occurs_at w (sl_generated_text s') i" using assms(1,2) by simp_all
  then show ?thesis using occurs_at_take by metis
qed

text \<open>A task with the stop word \<open>ST\<close>.\<close>

definition demo_stop_job :: "unit task_data server_task" where
  "demo_stop_job = Server_task 7 0 (-1) 0 (-1) SERVER_TASK_TYPE_COMPLETION
     ((st_data (demo_job [1] 0))\<lparr>td_antiprompt := [''ST'']\<rparr>) []"

theorem stream_hides_stop_words_witness:
  "concat (fst (generate True (-1) (\<lambda>_. False) demo_stop_job [(1, ''a'', 0), (2, ''bS'', 0), (3, ''Td'', 0)]
       (demo_slot 10 demo_stop_job SLOT_STATE_GENERATING []))) = ''ab'' \<and> \<not> occurs_at ''ST'' ''ab'' 0"
proof -
  let ?es = "[(1, ''a'', 0), (2, ''bS'', 0), (3, ''Td'', 0)]" and ?s = "demo_slot 10 demo_stop_job SLOT_STATE_GENERATING []"
  obtain ps s' where g: "generate True (-1) (\<lambda>_. False) demo_stop_job ?es ?s = (ps, s')" by force
  have e: "concat (fst (generate True (-1) (\<lambda>_. False) demo_stop_job ?es ?s)) = ''ab''" by code_simp
  have c: "complete_texts '''' ?es" by code_simp
  have j: "td_antiprompt (st_data demo_stop_job) = [''ST'']" "td_n_indent (st_data demo_stop_job) \<le> 0"
    "sl_generated_text ?s = ''''" "sl_n_sent_text ?s = 0"
    by (simp_all add: demo_stop_job_def demo_job_def demo_slot_def)
  have "\<forall>w \<in> set (td_antiprompt (st_data demo_stop_job)). w \<noteq> []" by (simp add: j)
  from stream_hides_stop_words [OF j(3,4) this j(2) c g]
  have "\<not> occurs_at ''ST'' (concat ps) 0" unfolding j(1) by (metis list.set_intros(1))
  moreover have "concat ps = ''ab''" using e unfolding g by simp
  ultimately show ?thesis using e by simp
qed

text \<open>
  A stop word is missed when the token that completes it also begins a character that is cut off:
  the search is skipped for that token, and the next search only looks back by the stop word and the
  size of the newest token. The client is sent the stop word.
\<close>

lemma stream_misses_stop_word:
  "concat (fst (generate True (-1) (\<lambda>_. False) demo_stop_job [(1, ''ST'' @ [CHR 0xC3], 0), (2, [CHR 0xA9], 0)]
     (demo_slot 10 demo_stop_job SLOT_STATE_GENERATING []))) = ''ST'' @ [CHR 0xC3, CHR 0xA9] \<and>
   occurs_at ''ST'' (''ST'' @ [CHR 0xC3, CHR 0xA9]) 0"
  by code_simp

end
