(* ===== verification/Spec2Isabelle.thy ===== *)
theory Spec2Isabelle
  imports Decode GrammarRepeat RecurrentMemory ServerContract ServerStream
begin

text \<open>
  A verification library for the inference engine of Project Persona: the \<open>llama.cpp\<close> core and the
  server that the persona services talk to. Paths are relative to \<open>src/llama_cpp\<close>.

  \<^bold>\<open>The program.\<close> A request becomes a task in the queue of the server (\<open>tools/server/server-queue.cpp\<close>).
  The main loop hands tasks to slots (\<open>tools/server/server-context.cpp\<close>); a slot owns one sequence of
  the memory and the prompt it has there (\<open>server_tokens\<close> in \<open>tools/server/server-common.cpp\<close>). In
  every round the slots add tokens to a batch, which the batch allocator (\<open>src/llama-batch.cpp\<close>)
  validates and splits into micro-batches; the KV cache (\<open>src/llama-kv-cache.cpp\<close>, over the cell
  tables of \<open>src/llama-kv-cells.h\<close>) finds cells for them and records their positions, and \<open>llama_context::decode\<close>
  (\<open>src/llama-context.cpp\<close>) runs the graph for each and collects the rows of the outputs. A grammar
  (\<open>src/llama-grammar.cpp\<close>) masks the candidates of the sampler and accepts the sampled tokens. Slots
  truncate, shift, copy and reuse their sequences through the memory interface
  (\<open>src/llama-memory.h\<close>). The text of the sampled tokens goes to the client piece by piece.

  \<^bold>\<open>Theories and what they model.\<close>
  \<^item> \<open>Prelude\<close>: machine types, faults (\<open>GGML_ASSERT\<close>, \<open>GGML_ABORT\<close>, exceptions, out-of-bounds
    writes) as the left side of a sum, ordered maps with counts, counting over a table.
  \<^item> \<open>KvCells\<close> (\<open>llama-kv-cells.h\<close>): the record \<open>llama_kv_cells\<close> and every operation. The invariant
    \<open>cells_wf\<close> ties the used set, the position counts and the shifts to the cells; each operation is
    a \<open>cell_step\<close> that changes one cell.
  \<^item> \<open>Hparams\<close> (\<open>llama-hparams.cpp\<close>): layer parameters and the sliding-window masks.
  \<^item> \<open>Batch\<close> (\<open>llama-batch.cpp\<close>): validation, generated fields, the three splits. An accepted batch
    continues every sequence; repeating a split ends and partitions the tokens.
  \<^item> \<open>Memory\<close> (\<open>llama-memory.h\<close>): status values and the locale \<open>memory_i\<close>, the contract of the
    sequence operations in terms of the positions held of each sequence.
  \<^item> \<open>KvCache\<close>: the state of \<open>llama_kv_cache\<close>, its constructor and sequence operations; the locale
    \<open>cellwise\<close> for loops over all cells, the invariant \<open>kv_wf\<close>, the interpretation \<open>kv\<close> of
    \<open>memory_i\<close>.
  \<^item> \<open>KvSlot\<close>: the slot search, the placement of micro-batches, saved states, updates and the memory
    contexts. \<open>KvPrepare\<close>: the dry run and its undoing, and the way from a batch to the cache.
    \<open>KvContract\<close>: the properties of the sequence operations.
  \<^item> \<open>Recurrent\<close> (\<open>llama-memory-recurrent.cpp\<close>): the memory of recurrent models, a table of cells
    with the tails of the sequences; its sequence operations, the slot search in its phases, the dry run and
    the contexts. \<open>RecurrentWf\<close>: the invariant \<open>rs_wf\<close> and the sequence operations. \<open>RecurrentSlot\<close> and
    \<open>RecurrentFind\<close>: the phases of the search, from the cells that shared sequences leave to the sources of
    the states. \<open>RecurrentMemory\<close>: the reachable states and the properties.
  \<^item> \<open>Outputs\<close> (\<open>llama-context.cpp\<close>): the output buffer and its views, the copies of logits, embeddings
    and sampled values, the sorting of the output ids, the reordering of the rows, and the accessors.
    \<open>Decode\<close>: \<open>llama_context::decode\<close> with the memory update, the retry of a full cache, the loop over
    micro-batches and the removal of the positions of a failed one.
  \<^item> \<open>Utf8\<close>: the decoder that continues partial characters, and the encoder of \<open>unicode.cpp\<close>.
    \<open>Grammar\<close>: elements, pointers, matching, expansion and acceptance of stacks, the check for left
    recursion. \<open>GrammarLang\<close>: the language of rules by derivations, and that expansion and acceptance keep
    it. \<open>GrammarCheck\<close>: the check is exact for its relation; expansions end for rules without left recursion
    in the usual sense, which the check does not decide.
    \<open>GrammarState\<close>: \<open>llama_grammar\<close> with initialization, masking of logits, acceptance of tokens and
    lazy triggers. \<open>GrammarParse\<close>: \<open>llama_grammar_parser\<close>, the parser of grammar texts, and the
    initialization from a text. \<open>GrammarText\<close>: the parser returns and gives well-formed rules.
    \<open>GrammarRepeat\<close>: the language of the rules a repetition is rewritten to.
  \<^item> \<open>ServerQueue\<close>: task and result queue, the main loop as the step relation \<open>main_step\<close> within
    \<open>loop_step\<close>, runs with their events, and the response reader. Each critical section is one operation;
    the \<open>ledger\<close> is the specification of the queue.
  \<^item> \<open>ServerTokens\<close>: \<open>server_tokens\<close> with text and media chunks, refined to lists of pieces by
    \<open>of_pieces\<close>.
  \<^item> \<open>ServerSlot\<close>: the slot record and the blocks of \<open>update_slots\<close>: context shift, start of a prompt
    with reuse of cached chunks and checkpoints, truncation, media, filling the batch, sampled and
    drafted tokens, acceptance, copy. The memory is a record of the functions a slot calls.
    \<open>SlotMemory\<close>: the locale \<open>slot_memory\<close>, in which these blocks are shown to keep prompt and memory
    in step. \<open>ServerContract\<close>: its interpretation \<open>ks\<close> with the KV cache, and the properties.
  \<^item> \<open>ServerStream\<close>: \<open>process_token\<close>, stop words, UTF-8 ends and limits.

  \<^bold>\<open>What the properties show.\<close> Decoding an accepted batch returns; it adds exactly the positions of the
  batch to the cache and gives every requested token its row of logits under its index in the batch; after
  a failed graph the later micro-batches are not in the cache, and the failed one is not for the first sequence of
  each of its tokens. A grammar without left recursion accepts exactly the language of its rules, and accepting a token
  returns with well-formed stacks; a token it leaves in the mask is accepted; the check for left recursion finds the
  cycles of its relation and, with emptiness visible in the rules, makes every expansion end. The parser of grammar
  texts returns for every text and gives well-formed rules, so that the initialization from a text has no other fault
  than a trigger pattern that is no regular expression, and a repetition means what its bounds say. UTF-8 decodes in
  pieces as in whole and inverts the encoder. The slot search equals taking the
  first usable cells and ends. The dry run is undone. The sequence operations remove, move and copy
  exactly the given positions. The slot search of the recurrent memory never faults in a state that its
  operations reach (but for the removal of all sequences at once), and gathers the sequences of a micro-batch in adjacent cells with the sources of
  their states. The task queue refines a ledger of the posted, pending, cancelled and handled
  tasks, so the server never loses a task; a stopped reader leaves nothing of its tasks behind. A prompt start, a context
  shift with a valid number of discarded tokens, an accepted draft and a copied slot leave the cache with exactly the
  positions of the prompt. A streamed response contains no stop word as long as no token ends inside of a character. Other theorems prove what the code does where it departs from its
  documentation or intent: cells purged in a dry run, a micro-batch one token too large, a waiting thread stranded by a
  shutdown, a truncation that throws between two images, a context shift that writes out of
  bounds, a checkpoint that keeps one token too many, a missed stop word, rows of embeddings swapped with
  another width, a shared token that survives a rollback, left recursion that the check does not see, a
  masked-in token that the grammar then refuses, an inverse class that rejects the first byte of
  allowed characters, a start symbol beyond the last rule that is read as one, and
  a removal of all recurrent sequences that makes the next search abort.

  \<^bold>\<open>Conventions.\<close> Positions, tokens and sequence ids are \<^typ>\<open>int\<close> (signed overflow is undefined in
  C++, so bounds are hypotheses), sizes and indices \<^typ>\<open>nat\<close>; where wrap-around is part of the code
  (\<open>GGML_PAD\<close>, products of image sizes) it is written out. Loops whose end is not evident are
  \<^theory_text>\<open>partial_function (option)\<close> and the properties state that they return. Only the
  parser of grammar texts takes fuel: \<open>parse_rule\<close> gives twice the number of bytes left and 2 (two calls
  for each byte an item or a group takes), \<open>parse\<close> one more than the bytes of the text for its rules,
  and \<open>parse_returns\<close> shows that this is always enough.
  Tensor data, task parameters, results and image patches are type variables. Code outside of the
  model is a parameter: the K-shift graph, the evaluation of a chunk, state serialization, the
  detokenizer, the clock, the sampled tokens, the graph allocator and the results of the graph, the
  vocabulary, and the construction and the search of the regular expressions of grammar triggers. Code points and the values of grammar
  elements are 32-bit words, bytes 8-bit words; a pointer into a rule is a pair of rule and index.

  \<^bold>\<open>Not modelled.\<close> The compute graph and the backends (floating point and device code), model files
  and tokenizers, samplers, the HTTP and JSON layer, chat templates, timings and lora adapters, and
  the Python and Godot parts around the server. Left out of the modelled files: the printing of parsed
  grammars, the state files of the cache, the input tensors built from the cells, the
  interleaved-window and hybrid memories (pairs of the modelled ones), the states of the recurrent
  memory as tensors and files, the encoder path, the prompt cache and slot selection.
\<close>

end
